(* ===== verification/Prelude.thy ===== *)
theory Prelude
  imports Complex_Main "HOL-Library.Word"
begin

text \<open>
  Shared vocabulary of the development: the result type for code that throws, lemma collections,
  and facts about lists, bit masks and subset sums that several components use.

  A C or C++ function that may throw (or return an error code) is modelled with
  \<open>'e + 'a\<close>: \<open>Inl e\<close> is the exception, \<open>Inr v\<close> the value.
\<close>

section \<open>Results\<close>

named_theorems inv_intros \<open>well-formedness and invariant preservation\<close>

definition bind_result :: "'e + 'a \<Rightarrow> ('a \<Rightarrow> 'e + 'b) \<Rightarrow> 'e + 'b" where
  "bind_result r f = (case r of Inl e \<Rightarrow> Inl e | Inr a \<Rightarrow> f a)"

lemma bind_result_simps [simp]:
  "bind_result (Inl e) f = Inl e"
  "bind_result (Inr a) f = f a"
  by (simp_all add: bind_result_def)

lemma bind_result_Inr_iff:
  "bind_result r f = Inr b \<longleftrightarrow> (\<exists>a. r = Inr a \<and> f a = Inr b)"
  by (cases r) (simp_all add: bind_result_def)

text \<open>Code with a loop that the model does not bound: \<open>None\<close> is a run that never ends.\<close>

definition bind_run :: "('e + 'a) option \<Rightarrow> ('a \<Rightarrow> ('e + 'b) option) \<Rightarrow> ('e + 'b) option" where
  "bind_run r f = (case r of None \<Rightarrow> None | Some (Inl e) \<Rightarrow> Some (Inl e) | Some (Inr a) \<Rightarrow> f a)"

lemma bind_run_simps [simp]:
  "bind_run None f = None" "bind_run (Some (Inl e)) f = Some (Inl e)" "bind_run (Some (Inr a)) f = f a"
  by (simp_all add: bind_run_def)

lemma bind_run_Inr_iff:
  "bind_run r f = Some (Inr b) \<longleftrightarrow> (\<exists>a. r = Some (Inr a) \<and> f a = Some (Inr b))"
  by (auto simp: bind_run_def split: option.splits sum.splits)

section \<open>Bit masks\<close>

text \<open>A mask over n positions (\<open>std::vector<bool>\<close>): bit i says whether position i is present.\<close>

type_synonym mask = "bool list"

definition no_bits :: "nat \<Rightarrow> mask" where
  "no_bits n = replicate n False"

definition masks :: "nat \<Rightarrow> mask set" where
  "masks n = {m. length m = n}"

lemma length_no_bits [simp]: "length (no_bits n) = n"
  by (simp add: no_bits_def)

lemma no_bits_nth [simp]: "i < n \<Longrightarrow> no_bits n ! i = False"
  by (simp add: no_bits_def)

lemma no_bits_in_masks [simp]: "no_bits n \<in> masks n"
  by (simp add: masks_def)

lemma masks_0 [simp]: "masks 0 = {[]}"
  by (auto simp: masks_def)

lemma masks_Suc: "masks (Suc n) = (\<lambda>(b, m). b # m) ` (UNIV \<times> masks n)"
  by (auto simp: masks_def length_Suc_conv image_iff)

lemma finite_masks [simp]: "finite (masks n)"
  by (induction n) (simp_all add: masks_Suc)

lemma mask_eq_no_bits_iff:
  "m \<in> masks n \<Longrightarrow> m = no_bits n \<longleftrightarrow> (\<forall>b \<in> set m. \<not> b)"
  by (auto simp: masks_def no_bits_def list_eq_iff_nth_eq in_set_conv_nth)

lemma mask_some_bit_iff:
  "m \<in> masks n \<Longrightarrow> m \<noteq> no_bits n \<longleftrightarrow> (\<exists>i < n. m ! i)"
  by (auto simp: masks_def no_bits_def list_eq_iff_nth_eq)

text \<open>Containment of masks, the order in which "upward closed" is meant.\<close>

definition mask_le :: "mask \<Rightarrow> mask \<Rightarrow> bool" where
  "mask_le a b \<longleftrightarrow> list_all2 (\<longrightarrow>) a b"

lemma mask_le_refl [simp]: "mask_le m m"
  by (simp add: mask_le_def list_all2_refl)

lemma mask_le_length: "mask_le a b \<Longrightarrow> length a = length b"
  by (simp add: mask_le_def list_all2_lengthD)

lemma mask_le_nth: "mask_le a b \<longleftrightarrow> length a = length b \<and> (\<forall>i < length a. a ! i \<longrightarrow> b ! i)"
  by (auto simp: mask_le_def list_all2_conv_all_nth)

section \<open>Sums over the selected positions\<close>

fun masked_sum :: "int list \<Rightarrow> mask \<Rightarrow> int" where
  "masked_sum (v # vs) (b # bs) = (if b then v else 0) + masked_sum vs bs"
| "masked_sum vs bs = 0"

lemma masked_sum_Nil [simp]: "masked_sum vs [] = 0"
  by (cases vs) simp_all

lemma masked_sum_no_bits [simp]: "masked_sum vs (no_bits n) = 0"
  by (induction vs arbitrary: n)
     (simp, case_tac n, simp_all add: no_bits_def)

lemma masked_sum_nonneg:
  "\<forall>v \<in> set vs. 0 \<le> v \<Longrightarrow> 0 \<le> masked_sum vs m"
  by (induction vs m rule: masked_sum.induct) auto

lemma masked_sum_mono:
  "\<forall>v \<in> set vs. 0 \<le> v \<Longrightarrow> mask_le a b \<Longrightarrow> masked_sum vs a \<le> masked_sum vs b"
proof (induction vs a arbitrary: b rule: masked_sum.induct)
  case (1 v vs x xs)
  then obtain y ys where b: "b = y # ys" "x \<longrightarrow> y" "mask_le xs ys"
    by (auto simp: mask_le_def list_all2_Cons1)
  from 1 b have "masked_sum vs xs \<le> masked_sum vs ys" and "0 \<le> v" by simp_all
  then have "(if x then v else 0) + masked_sum vs xs \<le> (if y then v else 0) + masked_sum vs ys"
    using b(2) by simp
  with b(1) show ?case by simp
qed (auto simp: masked_sum_nonneg)

lemma masked_sum_le_total:
  "\<forall>v \<in> set vs. 0 \<le> v \<Longrightarrow> masked_sum vs m \<le> sum_list vs"
  by (induction vs m rule: masked_sum.induct) (auto simp: sum_list_nonneg add_increasing)

lemma masked_sum_set:
  "i < length vs \<Longrightarrow> i < length m \<Longrightarrow> \<not> m ! i \<Longrightarrow>
   masked_sum vs (m[i := True]) = masked_sum vs m + vs ! i"
proof (induction vs m arbitrary: i rule: masked_sum.induct)
  case (1 v vs b bs)
  then show ?case by (cases i) auto
qed auto

lemma masked_sum_clear:
  "i < length vs \<Longrightarrow> i < length m \<Longrightarrow> m ! i \<Longrightarrow>
   masked_sum vs (m[i := False]) = masked_sum vs m - vs ! i"
proof (induction vs m arbitrary: i rule: masked_sum.induct)
  case (1 v vs b bs)
  then show ?case by (cases i) auto
qed auto

section \<open>Folds of associative operations\<close>

lemma foldl_assoc:
  assumes "\<And>x y z. f (f x y) z = f x (f y z)"
  shows "foldl f (f a b) xs = f a (foldl f b xs)"
  using assms by (induction xs arbitrary: b) simp_all

lemma foldl_unit:
  assumes "\<And>x y z. f (f x y) z = f x (f y z)" "\<And>x. f x e = x"
  shows "foldl f a xs = f a (foldl f e xs)"
  using foldl_assoc[of f a e xs] assms by simp

end
