(* ===== verification/Aggregation.thy ===== *)
theory Aggregation
  imports Prelude
begin

text \<open>
  The operator enumerations and the aggregate accumulators of \<open>src/Aggregation.h\<close> and
  \<open>src/Aggregation.cpp\<close>.  A \<open>double\<close> is a real number here: rounding, infinities and NaN are
  not modelled.  A \<open>long\<close> is an unbounded integer: the C++ code leaves signed overflow
  undefined, so the model speaks about the runs in which it does not happen.  Catalog look-ups
  (\<open>get_func_name\<close>, \<open>get_opname\<close>) are PostgreSQL's and therefore parameters.
\<close>

section \<open>Operators\<close>

datatype cmp_op = EQ | NE | LE | LT | GE | GT

datatype agg_op =
  AggCOUNT | AggSUM | AggMIN | AggMAX | AggAVG | AggAND | AggOR | AggCHOOSE | AggARRAY | AggNONE

datatype arith_op =
  ArPLUS | ArTIMES | ArMINUS | ArDIV | ArNEG | ArMAX | ArMIN | ArPOW | ArLN | ArEXP | ArPERCENTILE

definition compare :: "'a::linorder \<Rightarrow> cmp_op \<Rightarrow> 'a \<Rightarrow> bool" where
  "compare a op b = (case op of
     EQ \<Rightarrow> a = b | NE \<Rightarrow> a \<noteq> b | GT \<Rightarrow> a > b | LT \<Rightarrow> a < b | GE \<Rightarrow> a \<ge> b | LE \<Rightarrow> a \<le> b)"

lemma compare_simps [simp]:
  "compare a EQ b \<longleftrightarrow> a = b" "compare a NE b \<longleftrightarrow> a \<noteq> b" "compare a GT b \<longleftrightarrow> b < a"
  "compare a LT b \<longleftrightarrow> a < b" "compare a GE b \<longleftrightarrow> b \<le> a" "compare a LE b \<longleftrightarrow> a \<le> b"
  by (simp_all add: compare_def)

text \<open>\<open>flip_op\<close> of \<open>having_semantics.cpp\<close>: "C op agg" rewritten as "agg op' C".\<close>

fun flip_op :: "cmp_op \<Rightarrow> cmp_op" where
  "flip_op LT = GT" | "flip_op LE = GE" | "flip_op GT = LT"
| "flip_op GE = LE" | "flip_op EQ = EQ" | "flip_op NE = NE"

lemma compare_flip: "compare a (flip_op op) b \<longleftrightarrow> compare b op a"
  by (cases op) auto

type_synonym oid = nat

definition cmpOpFromOid :: "(oid \<Rightarrow> string option) \<Rightarrow> oid \<Rightarrow> cmp_op option" where
  "cmpOpFromOid get_opname op_oid = (case get_opname op_oid of
     None \<Rightarrow> None
   | Some s \<Rightarrow>
       if s = ''='' then Some EQ
       else if s = ''<>'' then Some NE
       else if s = ''<'' then Some LT
       else if s = ''<='' then Some LE
       else if s = ''>'' then Some GT
       else if s = ''>='' then Some GE
       else None)"

definition getAggregationOperator :: "(oid \<Rightarrow> string option) \<Rightarrow> oid \<Rightarrow> string + agg_op" where
  "getAggregationOperator get_func_name oid = (case get_func_name oid of
     None \<Rightarrow> Inl ''Invalid OID for aggregation function''
   | Some s \<Rightarrow>
       if s = ''count'' then Inr AggCOUNT
       else if s = ''sum'' then Inr AggSUM
       else if s = ''min'' then Inr AggMIN
       else if s = ''max'' then Inr AggMAX
       else if s = ''choose'' then Inr AggCHOOSE
       else if s = ''avg'' then Inr AggAVG
       else if s = ''array_agg'' then Inr AggARRAY
       else if s = ''bool_and'' \<or> s = ''every'' then Inr AggAND
       else if s = ''bool_or'' then Inr AggOR
       else Inl ''Aggregation operator not supported'')"

text \<open>The on-disk tag of an arithmetic gate (\<open>provsql_arith_op\<close>) and its decoding.\<close>

fun arith_tag :: "arith_op \<Rightarrow> nat" where
  "arith_tag ArPLUS = 0" | "arith_tag ArTIMES = 1" | "arith_tag ArMINUS = 2"
| "arith_tag ArDIV = 3" | "arith_tag ArNEG = 4" | "arith_tag ArMAX = 5" | "arith_tag ArMIN = 6"
| "arith_tag ArPOW = 7" | "arith_tag ArLN = 8" | "arith_tag ArEXP = 9"
| "arith_tag ArPERCENTILE = 10"

definition arithOpFromTag :: "nat \<Rightarrow> arith_op option" where
  "arithOpFromTag tag =
     (if tag = 0 then Some ArPLUS else if tag = 1 then Some ArTIMES
      else if tag = 2 then Some ArMINUS else if tag = 3 then Some ArDIV
      else if tag = 4 then Some ArNEG else if tag = 5 then Some ArMAX
      else if tag = 6 then Some ArMIN else if tag = 7 then Some ArPOW
      else if tag = 8 then Some ArLN else if tag = 9 then Some ArEXP
      else if tag = 10 then Some ArPERCENTILE else None)"

lemma arithOpFromTag_tag [simp]: "arithOpFromTag (arith_tag a) = Some a"
  by (cases a) (simp_all add: arithOpFromTag_def)

lemma arithOpFromTag_iff: "arithOpFromTag t = Some a \<longleftrightarrow> t = arith_tag a"
  by (cases a) (auto simp: arithOpFromTag_def split: if_splits)

section \<open>Aggregate values\<close>

datatype value_type =
  TINT | TFLOAT | TBOOLEAN | TSTRING | TARRAY_INT | TARRAY_FLOAT | TARRAY_BOOLEAN | TARRAY_STRING
| TNONE

text \<open>The active alternative of the \<open>std::variant\<close>; only the scalar ones are ever accumulated.\<close>

datatype variant = VLong int | VDouble real | VBool bool | VString string

text \<open>
  \<open>AggValue\<close>: the tag and the variant.  The default constructor sets the tag to NONE and leaves
  the variant on its first alternative, a \<open>long\<close> zero.
\<close>

record agg_value =
  av_type :: value_type
  av_v :: variant

definition agg_null :: agg_value where
  "agg_null = \<lparr>av_type = TNONE, av_v = VLong 0\<rparr>"

definition agg_long :: "int \<Rightarrow> agg_value" where
  "agg_long l = \<lparr>av_type = TINT, av_v = VLong l\<rparr>"

definition agg_double :: "real \<Rightarrow> agg_value" where
  "agg_double d = \<lparr>av_type = TFLOAT, av_v = VDouble d\<rparr>"

definition agg_bool :: "bool \<Rightarrow> agg_value" where
  "agg_bool b = \<lparr>av_type = TBOOLEAN, av_v = VBool b\<rparr>"

definition agg_string :: "string \<Rightarrow> agg_value" where
  "agg_string s = \<lparr>av_type = TSTRING, av_v = VString s\<rparr>"

section \<open>Accumulators\<close>

datatype agg_exn = BadVariantAccess | RuntimeError string

text \<open>\<open>StandardAgg\<close> is the pair of a current value and the flag \<open>has\<close>; \<open>AvgAgg\<close> keeps sum, count, has.\<close>

datatype aggregator =
  SumLong int bool | SumDouble real bool
| MinLong int bool | MinDouble real bool
| MaxLong int bool | MaxDouble real bool
| ChooseBool bool bool | ChooseLong int bool | ChooseDouble real bool | ChooseString string bool
| AvgLong real nat bool | AvgDouble real nat bool

fun get_long :: "variant \<Rightarrow> agg_exn + int" where
  "get_long (VLong l) = Inr l" | "get_long _ = Inl BadVariantAccess"

fun get_double :: "variant \<Rightarrow> agg_exn + real" where
  "get_double (VDouble d) = Inr d" | "get_double _ = Inl BadVariantAccess"

fun get_bool :: "variant \<Rightarrow> agg_exn + bool" where
  "get_bool (VBool b) = Inr b" | "get_bool _ = Inl BadVariantAccess"

fun get_string :: "variant \<Rightarrow> agg_exn + string" where
  "get_string (VString s) = Inr s" | "get_string _ = Inl BadVariantAccess"

definition min_add :: "'a::linorder \<Rightarrow> bool \<Rightarrow> 'a \<Rightarrow> 'a" where
  "min_add value has v = (if has then (if v < value then v else value) else v)"

definition max_add :: "'a::linorder \<Rightarrow> bool \<Rightarrow> 'a \<Rightarrow> 'a" where
  "max_add value has v = (if has then (if v > value then v else value) else v)"

fun agg_add :: "aggregator \<Rightarrow> agg_value \<Rightarrow> agg_exn + aggregator" where
  "agg_add a x =
     (if av_type x = TNONE then Inr a
      else case a of
        SumLong value has \<Rightarrow> bind_result (get_long (av_v x)) (\<lambda>v. Inr (SumLong (value + v) True))
      | SumDouble value has \<Rightarrow> bind_result (get_double (av_v x)) (\<lambda>v. Inr (SumDouble (value + v) True))
      | MinLong value has \<Rightarrow> bind_result (get_long (av_v x)) (\<lambda>v. Inr (MinLong (min_add value has v) True))
      | MinDouble value has \<Rightarrow> bind_result (get_double (av_v x)) (\<lambda>v. Inr (MinDouble (min_add value has v) True))
      | MaxLong value has \<Rightarrow> bind_result (get_long (av_v x)) (\<lambda>v. Inr (MaxLong (max_add value has v) True))
      | MaxDouble value has \<Rightarrow> bind_result (get_double (av_v x)) (\<lambda>v. Inr (MaxDouble (max_add value has v) True))
      | ChooseBool value has \<Rightarrow>
          if has then Inr (ChooseBool value True)
          else bind_result (get_bool (av_v x)) (\<lambda>v. Inr (ChooseBool v True))
      | ChooseLong value has \<Rightarrow>
          if has then Inr (ChooseLong value True)
          else bind_result (get_long (av_v x)) (\<lambda>v. Inr (ChooseLong v True))
      | ChooseDouble value has \<Rightarrow>
          if has then Inr (ChooseDouble value True)
          else bind_result (get_double (av_v x)) (\<lambda>v. Inr (ChooseDouble v True))
      | ChooseString value has \<Rightarrow>
          if has then Inr (ChooseString value True)
          else bind_result (get_string (av_v x)) (\<lambda>v. Inr (ChooseString v True))
      | AvgLong s c has \<Rightarrow> bind_result (get_long (av_v x)) (\<lambda>v. Inr (AvgLong (s + of_int v) (c + 1) True))
      | AvgDouble s c has \<Rightarrow> bind_result (get_double (av_v x)) (\<lambda>v. Inr (AvgDouble (s + v) (c + 1) True)))"

fun agg_finalize :: "aggregator \<Rightarrow> agg_value" where
  "agg_finalize (SumLong v has) = (if has then agg_long v else agg_null)"
| "agg_finalize (SumDouble v has) = (if has then agg_double v else agg_null)"
| "agg_finalize (MinLong v has) = (if has then agg_long v else agg_null)"
| "agg_finalize (MinDouble v has) = (if has then agg_double v else agg_null)"
| "agg_finalize (MaxLong v has) = (if has then agg_long v else agg_null)"
| "agg_finalize (MaxDouble v has) = (if has then agg_double v else agg_null)"
| "agg_finalize (ChooseBool v has) = (if has then agg_bool v else agg_null)"
| "agg_finalize (ChooseLong v has) = (if has then agg_long v else agg_null)"
| "agg_finalize (ChooseDouble v has) = (if has then agg_double v else agg_null)"
| "agg_finalize (ChooseString v has) = (if has then agg_string v else agg_null)"
| "agg_finalize (AvgLong s c has) = (if has then agg_double (s / of_nat c) else agg_null)"
| "agg_finalize (AvgDouble s c has) = (if has then agg_double (s / of_nat c) else agg_null)"

fun agg_resultType :: "aggregator \<Rightarrow> value_type" where
  "agg_resultType (SumLong _ _) = TINT" | "agg_resultType (SumDouble _ _) = TFLOAT"
| "agg_resultType (MinLong _ _) = TINT" | "agg_resultType (MinDouble _ _) = TFLOAT"
| "agg_resultType (MaxLong _ _) = TINT" | "agg_resultType (MaxDouble _ _) = TFLOAT"
| "agg_resultType (ChooseBool _ _) = TBOOLEAN" | "agg_resultType (ChooseLong _ _) = TINT"
| "agg_resultType (ChooseDouble _ _) = TFLOAT" | "agg_resultType (ChooseString _ _) = TSTRING"
| "agg_resultType (AvgLong _ _ _) = TFLOAT" | "agg_resultType (AvgDouble _ _ _) = TFLOAT"

definition makeAggregator :: "agg_op \<Rightarrow> value_type \<Rightarrow> agg_exn + aggregator" where
  "makeAggregator op t = (case op of
     AggCOUNT \<Rightarrow>
       if t = TINT then Inr (SumLong 0 False)
       else Inl (RuntimeError ''COUNT expects an integer-valued contribution'')
   | AggSUM \<Rightarrow> (case t of TINT \<Rightarrow> Inr (SumLong 0 False) | TFLOAT \<Rightarrow> Inr (SumDouble 0 False)
       | _ \<Rightarrow> Inl (RuntimeError ''SUM not supported for this type''))
   | AggMIN \<Rightarrow> (case t of TINT \<Rightarrow> Inr (MinLong 0 False) | TFLOAT \<Rightarrow> Inr (MinDouble 0 False)
       | _ \<Rightarrow> Inl (RuntimeError ''MIN not supported for this type''))
   | AggMAX \<Rightarrow> (case t of TINT \<Rightarrow> Inr (MaxLong 0 False) | TFLOAT \<Rightarrow> Inr (MaxDouble 0 False)
       | _ \<Rightarrow> Inl (RuntimeError ''MAX not supported for this type''))
   | AggAVG \<Rightarrow> (case t of TINT \<Rightarrow> Inr (AvgLong 0 0 False) | TFLOAT \<Rightarrow> Inr (AvgDouble 0 0 False)
       | _ \<Rightarrow> Inl (RuntimeError ''AVG not supported for this type''))
   | AggCHOOSE \<Rightarrow> (case t of
         TBOOLEAN \<Rightarrow> Inr (ChooseBool False False) | TINT \<Rightarrow> Inr (ChooseLong 0 False)
       | TFLOAT \<Rightarrow> Inr (ChooseDouble 0 False) | TSTRING \<Rightarrow> Inr (ChooseString [] False)
       | _ \<Rightarrow> Inl (RuntimeError ''CHOOSE not supported for this type''))
   | _ \<Rightarrow> Inl (RuntimeError ''makeAggregator: handled by the HAVING rewrite''))"

section \<open>What an accumulator computes\<close>

text \<open>Feeding a list of integers to an accumulator, as \<open>evaluate\<close> in \<open>subset.cpp\<close> does.\<close>

fun agg_feed :: "aggregator \<Rightarrow> int list \<Rightarrow> agg_exn + aggregator" where
  "agg_feed a [] = Inr a"
| "agg_feed a (v # vs) = bind_result (agg_add a (agg_long v)) (\<lambda>a'. agg_feed a' vs)"

lemma agg_long_type [simp]: "av_type (agg_long v) = TINT" "av_v (agg_long v) = VLong v"
  by (simp_all add: agg_long_def)

lemma agg_double_type [simp]: "av_type (agg_double d) = TFLOAT" "av_v (agg_double d) = VDouble d"
  by (simp_all add: agg_double_def)

lemma agg_null_type [simp]: "av_type agg_null = TNONE" "av_v agg_null = VLong 0"
  by (simp_all add: agg_null_def)

lemma feed_SumLong: "agg_feed (SumLong s h) vs = Inr (SumLong (s + sum_list vs) (h \<or> vs \<noteq> []))"
  by (induction vs arbitrary: s h) auto

lemma feed_MinLong: "agg_feed (MinLong m True) vs = Inr (MinLong (Min (set (m # vs))) True)"
proof (induction vs arbitrary: m)
  case (Cons v vs)
  have "min_add m True v = min m v" by (simp add: min_add_def min_def)
  with Cons show ?case by (cases vs) (auto simp: min.assoc ac_simps)
qed simp

lemma feed_MaxLong: "agg_feed (MaxLong m True) vs = Inr (MaxLong (Max (set (m # vs))) True)"
proof (induction vs arbitrary: m)
  case (Cons v vs)
  have "max_add m True v = max m v" by (simp add: max_add_def max_def)
  with Cons show ?case by (cases vs) (auto simp: max.assoc ac_simps)
qed simp

lemma feed_AvgLong:
  "agg_feed (AvgLong s c h) vs = Inr (AvgLong (s + of_int (sum_list vs)) (c + length vs) (h \<or> vs \<noteq> []))"
  by (induction vs arbitrary: s c h) auto

lemma feed_ChooseLong: "agg_feed (ChooseLong v True) vs = Inr (ChooseLong v True)"
  by (induction vs) auto

lemmas feed_simps = feed_SumLong feed_MinLong feed_MaxLong feed_AvgLong feed_ChooseLong

end
