(* ===== verification/Circuit.thy ===== *)
theory Circuit
  imports Aggregation
begin

text \<open>
  The circuit data structure: the template \<open>Circuit\<close> of \<open>src/Circuit.h\<close> and
  \<open>src/Circuit.hpp\<close> and its instance \<open>GenericCircuit\<close> (\<open>src/GenericCircuit.h\<close>,
  \<open>src/GenericCircuit.cpp\<close>).  A gate is an index into the vectors \<open>gates\<close> and \<open>wires\<close>; the two
  hash maps between UUIDs and gates are partial functions.  \<open>wf_circuit\<close> says that the vectors
  have one entry per gate, that wires stay in range and that the two maps are inverse.
\<close>

section \<open>Gate types\<close>

datatype gate_type =
  gate_input | gate_plus | gate_times | gate_monus | gate_project | gate_zero | gate_one | gate_eq
| gate_agg | gate_semimod | gate_cmp | gate_delta | gate_value | gate_mulinput | gate_update
| gate_rv | gate_arith | gate_mixture | gate_assumed | gate_annotation | gate_conditioned
| gate_mobius | gate_case | gate_observe | gate_invalid

type_synonym gate_t = nat
type_synonym uuid = string

definition PROVSQL_AGG_SCALAR_FLAG :: nat where "PROVSQL_AGG_SCALAR_FLAG = 2 ^ 31"
definition PROVSQL_AGG_TYPE_MASK :: nat where "PROVSQL_AGG_TYPE_MASK = 2 ^ 31 - 1"

section \<open>The template\<close>

record 'g circuit =
  uuid2id :: "uuid \<rightharpoonup> gate_t"
  id2uuid :: "gate_t \<rightharpoonup> uuid"
  gates :: "'g list"
  wires :: "gate_t list list"

definition getNbGates :: "('g, 'm) circuit_scheme \<Rightarrow> nat" where
  "getNbGates c = length (gates c)"

definition getGateType :: "('g, 'm) circuit_scheme \<Rightarrow> gate_t \<Rightarrow> 'g" where
  "getGateType c g = gates c ! g"

definition getWires :: "('g, 'm) circuit_scheme \<Rightarrow> gate_t \<Rightarrow> gate_t list" where
  "getWires c g = wires c ! g"

definition setGateType :: "('g, 'm) circuit_scheme \<Rightarrow> gate_t \<Rightarrow> 'g \<Rightarrow> ('g, 'm) circuit_scheme" where
  "setGateType c g t = c\<lparr>gates := (gates c)[g := t]\<rparr>"

definition hasGate :: "('g, 'm) circuit_scheme \<Rightarrow> uuid \<Rightarrow> bool" where
  "hasGate c u \<longleftrightarrow> uuid2id c u \<noteq> None"

definition getUUID :: "('g, 'm) circuit_scheme \<Rightarrow> gate_t \<Rightarrow> uuid" where
  "getUUID c g = (case id2uuid c g of None \<Rightarrow> [] | Some u \<Rightarrow> u)"

definition addWire :: "('g, 'm) circuit_scheme \<Rightarrow> gate_t \<Rightarrow> gate_t \<Rightarrow> ('g, 'm) circuit_scheme" where
  "addWire c f t = c\<lparr>wires := (wires c)[f := wires c ! f @ [t]]\<rparr>"

definition setWires :: "('g, 'm) circuit_scheme \<Rightarrow> gate_t \<Rightarrow> gate_t list \<Rightarrow> ('g, 'm) circuit_scheme" where
  "setWires c g w = c\<lparr>wires := (wires c)[g := w]\<rparr>"

section \<open>The generic circuit\<close>

text \<open>A value-initialised \<open>gate_type\<close> is the first enumerator.\<close>

record generic_circuit = "gate_type circuit" +
  infos :: "gate_t \<rightharpoonup> nat \<times> nat"
  extra :: "gate_t \<rightharpoonup> string"
  inputs :: "gate_t set"
  prob :: "real list"
  boolean_assumed_gates :: "gate_t set"
  absorptive_assumed_gates :: "gate_t set"

definition empty_circuit :: generic_circuit where
  "empty_circuit = \<lparr>uuid2id = Map.empty, id2uuid = Map.empty, gates = [], wires = [],
     infos = Map.empty, extra = Map.empty, inputs = {}, prob = [],
     boolean_assumed_gates = {}, absorptive_assumed_gates = {}\<rparr>"

text \<open>\<open>Circuit::addGate\<close> followed by the override that extends \<open>prob\<close>.\<close>

definition addGate :: "generic_circuit \<Rightarrow> gate_t \<times> generic_circuit" where
  "addGate c = (length (gates c),
     c\<lparr>gates := gates c @ [gate_input], wires := wires c @ [[]], prob := prob c @ [1]\<rparr>)"

definition getGate :: "generic_circuit \<Rightarrow> uuid \<Rightarrow> gate_t \<times> generic_circuit" where
  "getGate c u = (case uuid2id c u of
     Some g \<Rightarrow> (g, c)
   | None \<Rightarrow> (let (g, c') = addGate c in
       (g, c'\<lparr>uuid2id := (uuid2id c')(u \<mapsto> g), id2uuid := (id2uuid c')(g \<mapsto> u)\<rparr>)))"

definition register_input :: "gate_t \<Rightarrow> gate_type \<Rightarrow> generic_circuit \<Rightarrow> generic_circuit" where
  "register_input g t c = (if t = gate_input \<or> t = gate_update then c\<lparr>inputs := insert g (inputs c)\<rparr> else c)"

definition setGate :: "generic_circuit \<Rightarrow> gate_type \<Rightarrow> gate_t \<times> generic_circuit" where
  "setGate c t = (let (g, c') = addGate c in (g, register_input g t (setGateType c' g t)))"

definition setGate_uuid :: "generic_circuit \<Rightarrow> uuid \<Rightarrow> gate_type \<Rightarrow> gate_t \<times> generic_circuit" where
  "setGate_uuid c u t = (let (g, c') = getGate c u in (g, register_input g t (setGateType c' g t)))"

text \<open>\<open>getInfos\<close> on a gate without an entry returns the pair of the unsigned value of -1.\<close>

definition getInfos :: "generic_circuit \<Rightarrow> gate_t \<Rightarrow> nat \<times> nat" where
  "getInfos c g = (case infos c g of None \<Rightarrow> (2 ^ 32 - 1, 2 ^ 32 - 1) | Some i \<Rightarrow> i)"

definition setInfos :: "generic_circuit \<Rightarrow> gate_t \<Rightarrow> nat \<Rightarrow> nat \<Rightarrow> generic_circuit" where
  "setInfos c g i1 i2 = c\<lparr>infos := (infos c)(g \<mapsto> (i1, i2))\<rparr>"

definition getExtra :: "generic_circuit \<Rightarrow> gate_t \<Rightarrow> string" where
  "getExtra c g = (case extra c g of None \<Rightarrow> [] | Some s \<Rightarrow> s)"

definition setExtra :: "generic_circuit \<Rightarrow> gate_t \<Rightarrow> string \<Rightarrow> generic_circuit" where
  "setExtra c g s = c\<lparr>extra := (extra c)(g \<mapsto> s)\<rparr>"

definition getProb :: "generic_circuit \<Rightarrow> gate_t \<Rightarrow> real" where
  "getProb c g = prob c ! g"

definition setProb :: "generic_circuit \<Rightarrow> gate_t \<Rightarrow> real \<Rightarrow> generic_circuit" where
  "setProb c g p = c\<lparr>prob := (prob c)[g := p]\<rparr>"

definition erase_meta :: "gate_t \<Rightarrow> generic_circuit \<Rightarrow> generic_circuit" where
  "erase_meta g c = c\<lparr>infos := (infos c)(g := None), extra := (extra c)(g := None)\<rparr>"

definition resolveCmpToBernoulli :: "generic_circuit \<Rightarrow> gate_t \<Rightarrow> real \<Rightarrow> generic_circuit" where
  "resolveCmpToBernoulli c g p =
     (let c1 = (if p = 0 then setGateType c g gate_zero
                else if p = 1 then setGateType c g gate_one
                else (let c' = setProb (setGateType c g gate_input) g p
                      in c'\<lparr>inputs := insert g (inputs c')\<rparr>))
      in erase_meta g (setWires c1 g []))"

definition resolveCmpToPlusOfKGates :: "generic_circuit \<Rightarrow> gate_t \<Rightarrow> gate_t list \<Rightarrow> generic_circuit" where
  "resolveCmpToPlusOfKGates c g ks = erase_meta g (setWires (setGateType c g gate_plus) g ks)"

definition resolveGateToZero :: "generic_circuit \<Rightarrow> gate_t \<Rightarrow> generic_circuit" where
  "resolveGateToZero c g = erase_meta g (setWires (setGateType c g gate_zero) g [])"

definition isCategoricalMixture :: "generic_circuit \<Rightarrow> gate_t \<Rightarrow> bool" where
  "isCategoricalMixture c g \<longleftrightarrow>
     getGateType c g = gate_mixture \<and>
     (let w = getWires c g in
        length w \<ge> 2 \<and> getGateType c (w ! 0) = gate_input \<and>
        (\<forall>x \<in> set (tl w). getGateType c x = gate_mulinput))"

section \<open>Well-formedness\<close>

definition wf_circuit :: "generic_circuit \<Rightarrow> bool" where
  "wf_circuit c \<longleftrightarrow>
     length (wires c) = length (gates c) \<and> length (prob c) = length (gates c) \<and>
     (\<forall>g < length (gates c). \<forall>w \<in> set (wires c ! g). w < length (gates c)) \<and>
     (\<forall>u g. uuid2id c u = Some g \<longleftrightarrow> id2uuid c g = Some u) \<and>
     (\<forall>u g. uuid2id c u = Some g \<longrightarrow> g < length (gates c)) \<and>
     inputs c \<subseteq> {..< length (gates c)}"

named_theorems circuit_defs \<open>circuit operations to unfold\<close>

lemmas [circuit_defs] = getNbGates_def getGateType_def getWires_def setGateType_def setWires_def
  register_input_def erase_meta_def setProb_def setInfos_def setExtra_def

lemma wf_empty [inv_intros]: "wf_circuit empty_circuit"
  by (simp add: wf_circuit_def empty_circuit_def)

lemma wf_addGate [inv_intros]: "wf_circuit c \<Longrightarrow> addGate c = (g, c') \<Longrightarrow> wf_circuit c'"
  by (auto simp: wf_circuit_def addGate_def nth_append less_Suc_eq) (fastforce+)?

lemma wf_getGate [inv_intros]:
  assumes wf: "wf_circuit c" and g: "getGate c u = (g, c')"
  shows "wf_circuit c'"
proof (cases "uuid2id c u")
  case (Some h)
  with wf g show ?thesis by (simp add: getGate_def)
next
  case None
  have fresh: "id2uuid c (length (gates c)) = None"
    using wf by (auto simp: wf_circuit_def) (metis not_None_eq less_irrefl)
  from None g have c': "c' = c\<lparr>gates := gates c @ [gate_input], wires := wires c @ [[]], prob := prob c @ [1],
      uuid2id := (uuid2id c)(u \<mapsto> length (gates c)), id2uuid := (id2uuid c)(length (gates c) \<mapsto> u)\<rparr>"
    by (auto simp: getGate_def addGate_def)
  have inv: "uuid2id c v = Some h \<longleftrightarrow> id2uuid c h = Some v" and rng: "uuid2id c v = Some h \<Longrightarrow> h < length (gates c)" for v h
    using wf by (auto simp: wf_circuit_def)
  have "((uuid2id c)(u \<mapsto> length (gates c))) v = Some h \<longleftrightarrow> ((id2uuid c)(length (gates c) \<mapsto> u)) h = Some v" for v h
    using None fresh inv[of v h] rng[of v h] by auto
  moreover have "((uuid2id c)(u \<mapsto> length (gates c))) v = Some h \<Longrightarrow> h < Suc (length (gates c))" for v h
    using rng[of v h] by (auto split: if_splits)
  moreover have "\<forall>g < Suc (length (gates c)). \<forall>w \<in> set ((wires c @ [[]]) ! g). w < Suc (length (gates c))"
    using wf by (auto simp: wf_circuit_def nth_append less_Suc_eq)
  ultimately show ?thesis using wf unfolding c' by (auto simp: wf_circuit_def less_Suc_eq)
qed

lemma getGate_in_range: "wf_circuit c \<Longrightarrow> getGate c u = (g, c') \<Longrightarrow> g < length (gates c')"
  by (auto simp: getGate_def addGate_def wf_circuit_def split: option.splits)

lemma wf_retype: "wf_circuit c \<Longrightarrow> g < length (gates c) \<Longrightarrow> wf_circuit (register_input g t (setGateType c g t))"
  by (auto simp: wf_circuit_def circuit_defs)

text \<open>Looking a UUID up, allocating its gate on a miss, keeps the circuit well-formed; the gate
  found carries that UUID, a second look-up finds the same gate and changes nothing, and the gates
  of other UUIDs stay where they were.\<close>

theorem getGate_correct:
  assumes "wf_circuit c" "getGate c u = (g, c')"
  shows "wf_circuit c' \<and> g < length (gates c') \<and> getUUID c' g = u \<and> getGate c' u = (g, c') \<and>
    (\<forall>v h. uuid2id c v = Some h \<longrightarrow> uuid2id c' v = Some h \<and> getGateType c' h = getGateType c h)"
proof -
  have wf: "wf_circuit c'" by (rule wf_getGate[OF assms])
  have u: "uuid2id c' u = Some g"
    using assms(2) by (auto simp: getGate_def addGate_def split: option.splits)
  then have "getUUID c' g = u" using wf by (simp add: getUUID_def wf_circuit_def)
  moreover have "getGate c' u = (g, c')" using u by (simp add: getGate_def)
  moreover have "uuid2id c' v = Some h \<and> getGateType c' h = getGateType c h" if "uuid2id c v = Some h" for v h
  proof (cases "uuid2id c u")
    case None
    moreover have "h < length (gates c)" using assms(1) that by (auto simp: wf_circuit_def)
    ultimately show ?thesis using assms(2) that
      by (auto simp: getGate_def addGate_def getGateType_def nth_append)
  next
    case (Some k)
    then show ?thesis using assms(2) that by (simp add: getGate_def)
  qed
  ultimately show ?thesis using wf getGate_in_range[OF assms] by blast
qed

lemma getGate_correct_witness:
  "getUUID (snd (getGate empty_circuit ''u1'')) 0 = ''u1''"
proof -
  have "getGate empty_circuit ''u1'' = (0, snd (getGate empty_circuit ''u1''))"
    by (simp add: getGate_def addGate_def empty_circuit_def)
  from getGate_correct[OF wf_empty this] show ?thesis by simp
qed

lemma wf_setGate_uuid [inv_intros]:
  assumes "wf_circuit c" "setGate_uuid c u t = (g, c')"
  shows "wf_circuit c'"
  using assms wf_getGate getGate_in_range
  by (auto simp: setGate_uuid_def split: prod.splits intro!: wf_retype)

lemma wf_addWire [inv_intros]:
  "wf_circuit c \<Longrightarrow> f < length (gates c) \<Longrightarrow> t < length (gates c) \<Longrightarrow> wf_circuit (addWire c f t)"
  by (auto simp: wf_circuit_def addWire_def nth_list_update)

lemma wf_resolveCmpToBernoulli [inv_intros]:
  "wf_circuit c \<Longrightarrow> g < length (gates c) \<Longrightarrow> wf_circuit (resolveCmpToBernoulli c g p)"
  by (auto simp: wf_circuit_def resolveCmpToBernoulli_def circuit_defs Let_def nth_list_update)

end
