(* ===== verification/SemiringOps.thy ===== *)
theory SemiringOps
  imports Aggregation
begin

text \<open>
  The abstract base class of \<open>src/semiring/Semiring.h\<close> as a record of operations.  The operations
  that the base class implements by throwing \<open>SemiringException\<close> return a result; the record
  \<open>base_semiring\<close> gives every optional member its inherited default, and a concrete semiring
  updates the members it overrides.

  The locale \<open>semiring_laws\<close> is the contract the circuit evaluator and the HAVING rewriting rely
  on when they drop neutral operands: a commutative semiring on a carrier set, given by its n-ary
  operations, with the corner laws of monus.  \<open>absorptive_laws\<close> adds what the flag
  \<open>absorptive()\<close> promises and \<open>monus_laws\<close> the defining adjunction of an m-semiring.
\<close>

datatype exn = SemiringException string | CircuitException string | StdRuntimeError string | PgError string
  | UndefinedBehaviour

section \<open>The class\<close>

record 's semiring =
  S_zero :: 's
  S_one :: 's
  S_plus :: "'s list \<Rightarrow> 's"
  S_times :: "'s list \<Rightarrow> 's"
  S_monus :: "'s \<Rightarrow> 's \<Rightarrow> 's"
  S_delta :: "'s \<Rightarrow> 's"
  S_cmp :: "'s \<Rightarrow> cmp_op \<Rightarrow> 's \<Rightarrow> exn + 's"
  S_semimod :: "'s \<Rightarrow> 's \<Rightarrow> exn + 's"
  S_agg :: "agg_op \<Rightarrow> 's list \<Rightarrow> exn + 's"
  S_value :: "string \<Rightarrow> exn + 's"
  S_unmapped_input :: "string \<Rightarrow> 's"
  S_rv :: "string \<Rightarrow> 's list \<Rightarrow> exn + 's"
  S_arith :: "arith_op \<Rightarrow> 's list \<Rightarrow> string \<Rightarrow> exn + 's"
  S_mixture :: "'s \<Rightarrow> 's \<Rightarrow> 's \<Rightarrow> exn + 's"
  S_categorical :: "'s \<Rightarrow> real list \<Rightarrow> string list \<Rightarrow> exn + 's"
  S_guarded_case :: "'s list \<Rightarrow> exn + 's"
  S_observe :: "'s \<Rightarrow> string \<Rightarrow> exn + 's"
  S_conditioned :: "'s list \<Rightarrow> exn + 's"
  S_absorptive :: bool
  S_boolean_rewrite :: bool
  S_certifying :: bool
  S_independent_literal :: "'s \<Rightarrow> bool"
  S_certified_world_term :: "'s list \<Rightarrow> 's list \<Rightarrow> exn + 's"
  S_certified_exclusive_plus :: "'s list \<Rightarrow> exn + 's"

text \<open>The text of a message is shortened to the operation it is about.\<close>

definition unsupported :: "string \<Rightarrow> exn + 's" where
  "unsupported what = Inl (SemiringException (''This semiring does not support '' @ what))"

definition base_semiring ::
  "'s \<Rightarrow> 's \<Rightarrow> ('s list \<Rightarrow> 's) \<Rightarrow> ('s list \<Rightarrow> 's) \<Rightarrow> ('s \<Rightarrow> 's \<Rightarrow> 's) \<Rightarrow> ('s \<Rightarrow> 's) \<Rightarrow> 's semiring" where
  "base_semiring zer on plu tim mon del =
     \<lparr>S_zero = zer, S_one = on, S_plus = plu, S_times = tim, S_monus = mon, S_delta = del,
      S_cmp = (\<lambda>_ _ _. unsupported ''cmp gates.''),
      S_semimod = (\<lambda>_ _. unsupported ''semimod gates.''),
      S_agg = (\<lambda>_ _. unsupported ''agg gates.''),
      S_value = (\<lambda>_. unsupported ''value gates.''),
      S_unmapped_input = (\<lambda>_. on),
      S_rv = (\<lambda>_ _. unsupported ''rv gates''),
      S_arith = (\<lambda>_ _ _. unsupported ''arith gates''),
      S_mixture = (\<lambda>_ _ _. unsupported ''mixture gates''),
      S_categorical = (\<lambda>_ _ _. unsupported ''categorical mixture gates''),
      S_guarded_case = (\<lambda>_. unsupported ''a CASE / guarded selection over random variables''),
      S_observe = (\<lambda>_ _. unsupported ''observe gates''),
      S_conditioned = (\<lambda>_. unsupported ''conditioning''),
      S_absorptive = False, S_boolean_rewrite = False, S_certifying = False,
      S_independent_literal = (\<lambda>_. False),
      S_certified_world_term = (\<lambda>_ _. Inl (SemiringException ''This semiring does not certify enumerations.'')),
      S_certified_exclusive_plus = (\<lambda>_. Inl (SemiringException ''This semiring does not certify enumerations.''))\<rparr>"

lemma base_semiring_simps [simp]:
  "S_zero (base_semiring z n p t m d) = z" "S_one (base_semiring z n p t m d) = n"
  "S_plus (base_semiring z n p t m d) = p" "S_times (base_semiring z n p t m d) = t"
  "S_monus (base_semiring z n p t m d) = m" "S_delta (base_semiring z n p t m d) = d"
  "S_absorptive (base_semiring z n p t m d) = False"
  "S_boolean_rewrite (base_semiring z n p t m d) = False"
  "S_certifying (base_semiring z n p t m d) = False"
  "S_unmapped_input (base_semiring z n p t m d) = (\<lambda>_. n)"
  by (simp_all add: base_semiring_def)

section \<open>The laws\<close>

locale semiring_laws =
  fixes S :: "'s semiring" and D :: "'s set"
  assumes zero_in [simp, intro]: "S_zero S \<in> D"
    and one_in [simp, intro]: "S_one S \<in> D"
    and plus_in [simp, intro]: "set xs \<subseteq> D \<Longrightarrow> S_plus S xs \<in> D"
    and times_in [simp, intro]: "set xs \<subseteq> D \<Longrightarrow> S_times S xs \<in> D"
    and monus_in [simp, intro]: "x \<in> D \<Longrightarrow> y \<in> D \<Longrightarrow> S_monus S x y \<in> D"
    and delta_in [simp, intro]: "x \<in> D \<Longrightarrow> S_delta S x \<in> D"
    and plus_Nil [simp]: "S_plus S [] = S_zero S"
    and times_Nil [simp]: "S_times S [] = S_one S"
    and plus_Cons: "x \<in> D \<Longrightarrow> set xs \<subseteq> D \<Longrightarrow> S_plus S (x # xs) = S_plus S [x, S_plus S xs]"
    and times_Cons: "x \<in> D \<Longrightarrow> set xs \<subseteq> D \<Longrightarrow> S_times S (x # xs) = S_times S [x, S_times S xs]"
    and plus_comm: "x \<in> D \<Longrightarrow> y \<in> D \<Longrightarrow> S_plus S [x, y] = S_plus S [y, x]"
    and times_comm: "x \<in> D \<Longrightarrow> y \<in> D \<Longrightarrow> S_times S [x, y] = S_times S [y, x]"
    and plus_assoc: "x \<in> D \<Longrightarrow> y \<in> D \<Longrightarrow> z \<in> D \<Longrightarrow>
        S_plus S [S_plus S [x, y], z] = S_plus S [x, S_plus S [y, z]]"
    and times_assoc: "x \<in> D \<Longrightarrow> y \<in> D \<Longrightarrow> z \<in> D \<Longrightarrow>
        S_times S [S_times S [x, y], z] = S_times S [x, S_times S [y, z]]"
    and plus_zero: "x \<in> D \<Longrightarrow> S_plus S [S_zero S, x] = x"
    and times_one: "x \<in> D \<Longrightarrow> S_times S [S_one S, x] = x"
    and times_zero: "x \<in> D \<Longrightarrow> S_times S [S_zero S, x] = S_zero S"
    and distrib: "x \<in> D \<Longrightarrow> y \<in> D \<Longrightarrow> z \<in> D \<Longrightarrow>
        S_times S [x, S_plus S [y, z]] = S_plus S [S_times S [x, y], S_times S [x, z]]"
    and monus_zero_left: "y \<in> D \<Longrightarrow> S_monus S (S_zero S) y = S_zero S"
    and monus_zero_right: "x \<in> D \<Longrightarrow> S_monus S x (S_zero S) = x"
    and monus_self: "x \<in> D \<Longrightarrow> S_monus S x x = S_zero S"
begin

lemma plus_zero_right: "x \<in> D \<Longrightarrow> S_plus S [x, S_zero S] = x"
  using plus_comm plus_zero by simp

lemma times_one_right: "x \<in> D \<Longrightarrow> S_times S [x, S_one S] = x"
  using times_comm times_one by simp

lemma plus_single [simp]: "x \<in> D \<Longrightarrow> S_plus S [x] = x"
  using plus_Cons[of x "[]"] plus_zero_right by simp

lemma times_single [simp]: "x \<in> D \<Longrightarrow> S_times S [x] = x"
  using times_Cons[of x "[]"] times_one_right by simp

text \<open>Dropping the operands that \<open>evaluate\<close> and \<open>combine_exhaustive_worlds\<close> drop.\<close>

lemma plus_drop_zeros: "set xs \<subseteq> D \<Longrightarrow> S_plus S (filter (\<lambda>x. x \<noteq> S_zero S) xs) = S_plus S xs"
proof (induction xs)
  case (Cons x xs)
  then have sub: "x \<in> D" "set xs \<subseteq> D" "set (filter (\<lambda>x. x \<noteq> S_zero S) xs) \<subseteq> D" by auto
  with Cons.IH show ?case
    using plus_Cons[OF sub(1,2)] plus_Cons[OF sub(1,3)] plus_zero[of "S_plus S xs"] plus_in[OF sub(2)] by simp
qed simp

lemma times_drop_ones: "set xs \<subseteq> D \<Longrightarrow> S_times S (filter (\<lambda>x. x \<noteq> S_one S) xs) = S_times S xs"
proof (induction xs)
  case (Cons x xs)
  then have sub: "x \<in> D" "set xs \<subseteq> D" "set (filter (\<lambda>x. x \<noteq> S_one S) xs) \<subseteq> D" by auto
  with Cons.IH show ?case
    using times_Cons[OF sub(1,2)] times_Cons[OF sub(1,3)] times_one[of "S_times S xs"] times_in[OF sub(2)] by simp
qed simp

lemma times_has_zero: "set xs \<subseteq> D \<Longrightarrow> S_zero S \<in> set xs \<Longrightarrow> S_times S xs = S_zero S"
proof (induction xs)
  case (Cons x xs)
  then have sub: "x \<in> D" "set xs \<subseteq> D" by auto
  show ?case
  proof (cases "x = S_zero S")
    case True
    then show ?thesis using times_Cons[OF sub] times_zero[of "S_times S xs"] times_in[OF sub(2)] by simp
  next
    case False
    with Cons sub show ?thesis using times_Cons[OF sub] times_comm[of x "S_zero S"] times_zero[OF sub(1)] by simp
  qed
qed simp

lemma plus_append:
  "set xs \<subseteq> D \<Longrightarrow> set ys \<subseteq> D \<Longrightarrow> S_plus S (xs @ ys) = S_plus S [S_plus S xs, S_plus S ys]"
proof (induction xs)
  case (Cons x xs)
  then have sub: "x \<in> D" "set xs \<subseteq> D" "set (xs @ ys) \<subseteq> D" by auto
  with Cons show ?case
    using plus_Cons[OF sub(1,3)] plus_Cons[OF sub(1,2)] plus_assoc[of x "S_plus S xs" "S_plus S ys"] by simp
qed (simp add: plus_zero)

lemma times_append:
  "set xs \<subseteq> D \<Longrightarrow> set ys \<subseteq> D \<Longrightarrow> S_times S (xs @ ys) = S_times S [S_times S xs, S_times S ys]"
proof (induction xs)
  case (Cons x xs)
  then have sub: "x \<in> D" "set xs \<subseteq> D" "set (xs @ ys) \<subseteq> D" by auto
  with Cons show ?case
    using times_Cons[OF sub(1,3)] times_Cons[OF sub(1,2)] times_assoc[of x "S_times S xs" "S_times S ys"] by simp
qed (simp add: times_one)

end

text \<open>What \<open>absorptive()\<close> promises: adding anything to one changes nothing.\<close>

locale absorptive_laws = semiring_laws +
  assumes one_top: "x \<in> D \<Longrightarrow> S_plus S [S_one S, x] = S_one S"
begin

lemma plus_idem: "x \<in> D \<Longrightarrow> S_plus S [x, x] = x"
  using distrib[of x "S_one S" "S_one S"] one_top[of "S_one S"] times_one_right[of x] by simp

lemma absorb:
  assumes "x \<in> D" "y \<in> D"
  shows "S_plus S [x, S_times S [x, y]] = x"
proof -
  have "S_plus S [x, S_times S [x, y]] = S_plus S [S_times S [x, S_one S], S_times S [x, y]]"
    using assms by (simp add: times_one_right)
  also have "\<dots> = S_times S [x, S_plus S [S_one S, y]]" using assms by (simp add: distrib)
  also have "\<dots> = x" using assms by (simp add: one_top times_one_right)
  finally show ?thesis .
qed

end

text \<open>An n-ary operation that is associative, commutative and idempotent: a join in the order it
  defines, so its value depends on the dominating operands only.\<close>

locale nary_semilattice =
  fixes J :: "'s list \<Rightarrow> 's" and D :: "'s set"
  assumes J_in: "set xs \<subseteq> D \<Longrightarrow> J xs \<in> D"
    and J_Cons: "x \<in> D \<Longrightarrow> set xs \<subseteq> D \<Longrightarrow> J (x # xs) = J [x, J xs]"
    and J_comm: "x \<in> D \<Longrightarrow> y \<in> D \<Longrightarrow> J [x, y] = J [y, x]"
    and J_assoc: "x \<in> D \<Longrightarrow> y \<in> D \<Longrightarrow> z \<in> D \<Longrightarrow> J [J [x, y], z] = J [x, J [y, z]]"
    and J_idem: "x \<in> D \<Longrightarrow> J [x, x] = x"
    and J_single: "x \<in> D \<Longrightarrow> J [x] = x"
begin

definition le :: "'s \<Rightarrow> 's \<Rightarrow> bool" where
  "le x y \<longleftrightarrow> J [x, y] = y"

lemma le_refl: "x \<in> D \<Longrightarrow> le x x"
  by (simp add: le_def J_idem)

lemma le_trans: "x \<in> D \<Longrightarrow> y \<in> D \<Longrightarrow> z \<in> D \<Longrightarrow> le x y \<Longrightarrow> le y z \<Longrightarrow> le x z"
  unfolding le_def by (metis J_assoc)

lemma le_antisym: "x \<in> D \<Longrightarrow> y \<in> D \<Longrightarrow> le x y \<Longrightarrow> le y x \<Longrightarrow> x = y"
  unfolding le_def by (metis J_comm)

lemma pair_in: "x \<in> D \<Longrightarrow> y \<in> D \<Longrightarrow> J [x, y] \<in> D"
  by (rule J_in) simp

lemma pair_upper: "x \<in> D \<Longrightarrow> y \<in> D \<Longrightarrow> le x (J [x, y])"
  unfolding le_def using J_assoc[of x x y] J_idem by simp

lemma pair_least: "x \<in> D \<Longrightarrow> y \<in> D \<Longrightarrow> z \<in> D \<Longrightarrow> le x z \<Longrightarrow> le y z \<Longrightarrow> le (J [x, y]) z"
  unfolding le_def by (simp add: J_assoc)

lemma upper: "set xs \<subseteq> D \<Longrightarrow> x \<in> set xs \<Longrightarrow> le x (J xs)"
proof (induction xs)
  case (Cons y xs)
  then have D: "y \<in> D" "set xs \<subseteq> D" "x \<in> D" by auto
  then have e: "J (y # xs) = J [y, J xs]" and jx: "J xs \<in> D" using J_Cons[of y xs] J_in by simp_all
  show ?case
  proof (cases "x = y")
    case True
    with D jx show ?thesis by (simp add: e pair_upper)
  next
    case False
    with Cons D have "le x (J xs)" by simp
    moreover have "le (J xs) (J [y, J xs])" using pair_upper[of "J xs" y] J_comm D jx by simp
    ultimately show ?thesis using le_trans[of x "J xs" "J [y, J xs]"] D jx pair_in by (simp add: e)
  qed
qed simp

lemma least: "xs \<noteq> [] \<Longrightarrow> set xs \<subseteq> D \<Longrightarrow> z \<in> D \<Longrightarrow> (\<And>x. x \<in> set xs \<Longrightarrow> le x z) \<Longrightarrow> le (J xs) z"
proof (induction xs)
  case (Cons y xs)
  show ?case
  proof (cases "xs = []")
    case True
    with Cons.prems show ?thesis by (simp add: J_single)
  next
    case False
    with Cons have "le (J xs) z" by simp
    then show ?thesis using Cons.prems pair_least[of y "J xs" z] J_Cons[of y xs] J_in by simp
  qed
qed simp

lemma dominated:
  assumes "set xs \<subseteq> D" "set ys \<subseteq> set xs" "\<And>x. x \<in> set xs \<Longrightarrow> \<exists>y \<in> set ys. le x y"
  shows "J ys = J xs"
proof (cases "xs = []")
  case False
  have D: "J xs \<in> D" "J ys \<in> D" "set ys \<subseteq> D" using assms(1,2) by (auto intro!: J_in)
  from False have "hd xs \<in> set xs" by simp
  then have ne: "ys \<noteq> []" using assms(3) by force
  have "le (J ys) (J xs)" by (rule least[OF ne D(3,1)]) (use assms upper in blast)
  moreover have "le (J xs) (J ys)"
  proof (rule least[OF False assms(1) D(2)])
    fix x assume x: "x \<in> set xs"
    then obtain y where "y \<in> set ys" "le x y" using assms(3) by blast
    with x show "le x (J ys)" using le_trans[of x y "J ys"] upper[of ys y] D assms(1) by blast
  qed
  ultimately show ?thesis using le_antisym D by blast
qed (use assms in simp)

end

sublocale absorptive_laws \<subseteq> join: nary_semilattice "S_plus S" D
  by unfold_locales (rule plus_in plus_Cons plus_comm plus_assoc plus_idem plus_single; assumption)+

text \<open>What \<open>compatibleWithBooleanRewrite()\<close> promises beyond absorptivity: products are idempotent.\<close>

locale boolean_laws = absorptive_laws +
  assumes times_idem: "x \<in> D \<Longrightarrow> S_times S [x, x] = x"
begin

lemma dual_absorb:
  assumes "x \<in> D" "y \<in> D"
  shows "S_times S [x, S_plus S [x, y]] = x"
  using assms by (simp add: distrib times_idem absorb)

end

sublocale boolean_laws \<subseteq> meet: nary_semilattice "S_times S" D
  by unfold_locales (rule times_in times_Cons times_comm times_assoc times_idem times_single; assumption)+

text \<open>The adjunction that defines monus, for the natural order "x \<open>\<le>\<close> y iff some z has x + z = y".\<close>

definition nat_le :: "'s semiring \<Rightarrow> 's set \<Rightarrow> 's \<Rightarrow> 's \<Rightarrow> bool" where
  "nat_le S D x y \<longleftrightarrow> (\<exists>z \<in> D. S_plus S [x, z] = y)"

locale monus_laws = semiring_laws +
  assumes nat_antisym: "x \<in> D \<Longrightarrow> y \<in> D \<Longrightarrow> nat_le S D x y \<Longrightarrow> nat_le S D y x \<Longrightarrow> x = y"
    and monus_adj: "x \<in> D \<Longrightarrow> y \<in> D \<Longrightarrow> z \<in> D \<Longrightarrow>
        nat_le S D (S_monus S x y) z \<longleftrightarrow> nat_le S D x (S_plus S [y, z])"
begin

lemma nat_le_refl: "x \<in> D \<Longrightarrow> nat_le S D x x"
  unfolding nat_le_def using plus_zero_right by blast

text \<open>\<open>y + (x \<ominus> y)\<close> lies above x, and \<open>x \<ominus> y\<close> is the least element with that property.\<close>

lemma monus_covers: "x \<in> D \<Longrightarrow> y \<in> D \<Longrightarrow> nat_le S D x (S_plus S [y, S_monus S x y])"
  using monus_adj[of x y "S_monus S x y"] nat_le_refl[of "S_monus S x y"] by simp

lemma monus_least:
  "x \<in> D \<Longrightarrow> y \<in> D \<Longrightarrow> z \<in> D \<Longrightarrow> nat_le S D x (S_plus S [y, z]) \<Longrightarrow> nat_le S D (S_monus S x y) z"
  using monus_adj by simp

end

end
