(* ===== verification/Semirings.thy ===== *)
theory Semirings
  imports SemiringOps
begin

text \<open>
  The numeric and Boolean semirings of \<open>src/semiring/\<close>: Boolean, Counting, Tropical and its
  nonnegative variant, Viterbi, Lukasiewicz and MinMax.  Each is a value of the record
  \<open>semiring\<close>; each is shown to satisfy the contract of the evaluator on its carrier, the
  m-semiring adjunction, and absorptivity wherever it reports \<open>absorptive()\<close>.

  \<open>double\<close> carriers are real numbers (with a point at infinity for the tropical ones): rounding
  and NaN are outside the model.  \<open>Counting\<close> keeps its 32-bit machine words.
\<close>

section \<open>Scans\<close>

text \<open>\<open>*std::min_element\<close> and \<open>*std::max_element\<close> of a non-empty vector.\<close>

fun min_element :: "'a::linorder list \<Rightarrow> 'a" where
  "min_element (x # xs) = foldl min x xs"

fun max_element :: "'a::linorder list \<Rightarrow> 'a" where
  "max_element (x # xs) = foldl max x xs"

lemma min_element_Cons: "xs \<noteq> [] \<Longrightarrow> min_element (x # xs) = min x (min_element xs)"
proof -
  have "foldl min (min a b) ys = min a (foldl min b ys)" for a b :: 'a and ys
    by (induction ys arbitrary: b) (simp_all add: min.assoc)
  then show "xs \<noteq> [] \<Longrightarrow> ?thesis" by (cases xs) simp_all
qed

lemma max_element_Cons: "xs \<noteq> [] \<Longrightarrow> max_element (x # xs) = max x (max_element xs)"
proof -
  have "foldl max (max a b) ys = max a (foldl max b ys)" for a b :: 'a and ys
    by (induction ys arbitrary: b) (simp_all add: max.assoc)
  then show "xs \<noteq> [] \<Longrightarrow> ?thesis" by (cases xs) simp_all
qed

lemma element_single [simp]: "min_element [x] = x" "max_element [x] = x"
  by simp_all

declare min_element.simps [simp del] max_element.simps [simp del]

lemma element_pair [simp]: "min_element [x, y] = min x y" "max_element [x, y] = max x y"
  by (simp_all add: min_element_Cons max_element_Cons)

lemma min_element_in: "xs \<noteq> [] \<Longrightarrow> min_element xs \<in> set xs"
proof (induction xs)
  case (Cons x xs)
  then show ?case by (cases "xs = []") (auto simp: min_element_Cons min_def)
qed simp

lemma max_element_in: "xs \<noteq> [] \<Longrightarrow> max_element xs \<in> set xs"
proof (induction xs)
  case (Cons x xs)
  then show ?case by (cases "xs = []") (auto simp: max_element_Cons max_def)
qed simp

section \<open>Boolean\<close>

definition BooleanS :: "bool semiring" where
  "BooleanS = (base_semiring False True (\<lambda>v. \<exists>x \<in> set v. x) (\<lambda>v. \<forall>x \<in> set v. x) (\<lambda>x y. x \<and> \<not> y) (\<lambda>x. x))
     \<lparr>S_absorptive := True, S_boolean_rewrite := True\<rparr>"

lemma BooleanS_simps [simp]:
  "S_zero BooleanS = False" "S_one BooleanS = True" "S_plus BooleanS v = (\<exists>x \<in> set v. x)"
  "S_times BooleanS v = (\<forall>x \<in> set v. x)" "S_monus BooleanS x y = (x \<and> \<not> y)" "S_delta BooleanS x = x"
  "S_absorptive BooleanS" "S_boolean_rewrite BooleanS" "\<not> S_certifying BooleanS"
  by (simp_all add: BooleanS_def)

interpretation boolean: absorptive_laws BooleanS UNIV
  by unfold_locales auto

interpretation boolean: boolean_laws BooleanS UNIV
  by unfold_locales auto

interpretation boolean: monus_laws BooleanS UNIV
  by unfold_locales (auto simp: nat_le_def)

section \<open>Counting\<close>

definition CountingS :: "32 word semiring" where
  "CountingS = base_semiring 0 1 (\<lambda>v. foldl (+) 0 v) (\<lambda>v. foldl (*) 1 v)
     (\<lambda>x y. if x \<le> y then 0 else x - y) (\<lambda>x. if x \<noteq> 0 then 1 else 0)"

lemma CountingS_simps [simp]:
  "S_zero CountingS = 0" "S_one CountingS = 1" "S_plus CountingS v = foldl (+) 0 v"
  "S_times CountingS v = foldl (*) 1 v" "S_monus CountingS x y = (if x \<le> y then 0 else x - y)"
  "S_delta CountingS x = (if x \<noteq> 0 then 1 else 0)" "\<not> S_absorptive CountingS"
  "\<not> S_certifying CountingS"
  by (simp_all add: CountingS_def)

lemma foldl_plus_sum: "foldl (+) a v = (a :: 'a :: comm_monoid_add) + sum_list v"
  by (induction v arbitrary: a) (simp_all add: add.assoc)

lemma foldl_times_prod: "foldl (*) a v = (a :: 'a :: comm_monoid_mult) * prod_list v"
  by (induction v arbitrary: a) (simp_all add: mult.assoc)

interpretation counting: semiring_laws CountingS UNIV
  by unfold_locales (auto simp: foldl_plus_sum foldl_times_prod algebra_simps)

lemma unat_sum_list: "unat (sum_list v) = sum_list (map unat v) mod 2 ^ 32" for v :: "32 word list"
  by (induction v) (simp_all add: unat_word_ariths mod_simps)

lemma unat_prod_list: "unat (prod_list v) = prod_list (map unat v) mod 2 ^ 32" for v :: "32 word list"
  by (induction v) (simp_all add: unat_word_ariths mod_simps)

text \<open>C14: The Counting semiring computes on natural numbers up to reduction modulo \<open>2^32\<close>: sums and
  products are the exact ones modulo \<open>2^32\<close>, and monus is subtraction truncated at zero.\<close>

theorem counting_refines_nat:
  "unat (S_plus CountingS v) = sum_list (map unat v) mod 2 ^ 32 \<and>
   unat (S_times CountingS v) = prod_list (map unat v) mod 2 ^ 32 \<and>
   unat (S_monus CountingS x y) = unat x - unat y"
  using unat_sum_list[of v] unat_prod_list[of v]
  by (auto simp: foldl_plus_sum foldl_times_prod unat_sub word_le_nat_alt)

text \<open>Because of the wrap-around the machine semiring is not an m-semiring: its natural preorder
  relates everything.\<close>

lemma counting_not_monus: "\<not> monus_laws CountingS UNIV"
proof
  assume m: "monus_laws CountingS UNIV"
  have "nat_le CountingS UNIV (x :: 32 word) y" for x y
    unfolding nat_le_def by (rule bexI[of _ "y - x"]) simp_all
  then have "(0 :: 32 word) = 1" using monus_laws.nat_antisym[OF m, of 0 1] by blast
  then show False by simp
qed

section \<open>Tropical\<close>

datatype xreal = Fin real | PosInf

fun xadd :: "xreal \<Rightarrow> xreal \<Rightarrow> xreal" where
  "xadd (Fin a) (Fin b) = Fin (a + b)"
| "xadd x y = PosInf"

instantiation xreal :: linorder
begin

fun less_eq_xreal :: "xreal \<Rightarrow> xreal \<Rightarrow> bool" where
  "less_eq_xreal (Fin a) (Fin b) \<longleftrightarrow> a \<le> b"
| "less_eq_xreal x PosInf \<longleftrightarrow> True"
| "less_eq_xreal PosInf (Fin b) \<longleftrightarrow> False"

definition less_xreal :: "xreal \<Rightarrow> xreal \<Rightarrow> bool" where
  "less_xreal x y \<longleftrightarrow> x \<le> y \<and> \<not> y \<le> (x :: xreal)"

instance
proof
  fix x y z :: xreal
  show "x < y \<longleftrightarrow> x \<le> y \<and> \<not> y \<le> x" by (simp add: less_xreal_def)
  show "x \<le> x" by (cases x) auto
  show "x \<le> y \<Longrightarrow> y \<le> z \<Longrightarrow> x \<le> z" by (cases x; cases y; cases z) auto
  show "x \<le> y \<Longrightarrow> y \<le> x \<Longrightarrow> x = y" by (cases x; cases y) auto
  show "x \<le> y \<or> y \<le> x" by (cases x; cases y) auto
qed

end

lemma xreal_le_PosInf [simp]: "x \<le> PosInf" by (cases x) auto

lemma PosInf_le [simp]: "PosInf \<le> x \<longleftrightarrow> x = PosInf" by (cases x) auto

lemma min_PosInf [simp]: "min PosInf x = x" "min x PosInf = x" by (simp_all add: min_def)

lemma xadd_zero [simp]: "xadd (Fin 0) x = x" "xadd x (Fin 0) = x" by (cases x; simp)+

lemma xadd_PosInf [simp]: "xadd PosInf x = PosInf" "xadd x PosInf = PosInf" by (cases x; simp)+

lemma xadd_comm: "xadd x y = xadd y x" by (cases x; cases y) auto

lemma xadd_assoc: "xadd (xadd x y) z = xadd x (xadd y z)" by (cases x; cases y; cases z) auto

lemma xadd_min: "xadd x (min y z) = min (xadd x y) (xadd x z)"
  by (cases x; cases y; cases z) (auto simp: min_def)

definition TropicalS :: "xreal semiring" where
  "TropicalS = base_semiring PosInf (Fin 0)
     (\<lambda>v. if v = [] then PosInf else min_element v) (\<lambda>v. foldl xadd (Fin 0) v)
     (\<lambda>x y. if x \<ge> y then PosInf else x) (\<lambda>x. if x = PosInf then PosInf else Fin 0)"

definition TropicalNonnegS :: "xreal semiring" where
  "TropicalNonnegS = TropicalS\<lparr>S_absorptive := True\<rparr>"

lemma TropicalS_simps [simp]:
  "S_zero TropicalS = PosInf" "S_one TropicalS = Fin 0"
  "S_plus TropicalS v = (if v = [] then PosInf else min_element v)"
  "S_times TropicalS v = foldl xadd (Fin 0) v"
  "S_monus TropicalS x y = (if x \<ge> y then PosInf else x)"
  "S_delta TropicalS x = (if x = PosInf then PosInf else Fin 0)"
  "\<not> S_absorptive TropicalS" "\<not> S_certifying TropicalS"
  by (simp_all add: TropicalS_def)

lemma TropicalNonnegS_simps [simp]:
  "S_zero TropicalNonnegS = PosInf" "S_one TropicalNonnegS = Fin 0"
  "S_plus TropicalNonnegS = S_plus TropicalS" "S_times TropicalNonnegS = S_times TropicalS"
  "S_monus TropicalNonnegS = S_monus TropicalS" "S_delta TropicalNonnegS = S_delta TropicalS"
  "S_absorptive TropicalNonnegS" "\<not> S_certifying TropicalNonnegS"
  by (simp_all add: TropicalNonnegS_def TropicalS_def base_semiring_def)

lemma foldl_xadd: "foldl xadd a v = xadd a (foldl xadd (Fin 0) v)"
  using foldl_assoc[of xadd a "Fin 0" v] by (simp add: xadd_assoc)

lemma xadd_left_comm: "xadd x (xadd y z) = xadd y (xadd x z)"
  by (metis xadd_assoc xadd_comm)

lemmas xadd_ac = xadd_assoc xadd_comm xadd_left_comm

interpretation tropical: semiring_laws TropicalS UNIV
proof unfold_locales
  fix x :: xreal and xs :: "xreal list"
  show "S_times TropicalS (x # xs) = S_times TropicalS [x, S_times TropicalS xs]"
    by (simp add: foldl_xadd[of x])
qed (auto simp: min_element_Cons xadd_ac xadd_min ac_simps)

lemma nat_le_tropical: "nat_le TropicalS UNIV x y \<longleftrightarrow> y \<le> x"
proof
  assume "y \<le> x"
  then show "nat_le TropicalS UNIV x y" unfolding nat_le_def by (intro bexI[of _ y]) (auto simp: min_def)
qed (auto simp: nat_le_def)

interpretation tropical: monus_laws TropicalS UNIV
  by unfold_locales (auto simp: nat_le_tropical min_le_iff_disj)

text \<open>The carrier of the nonnegative variant: what its \<open>parse_leaf\<close> lets in.\<close>

definition nonneg_costs :: "xreal set" where
  "nonneg_costs = {x. Fin 0 \<le> x}"

definition tropical_nonneg_parse_leaf :: "(string \<Rightarrow> xreal) \<Rightarrow> string \<Rightarrow> exn + xreal" where
  "tropical_nonneg_parse_leaf atof v = (let x = atof v in
     if x < Fin 0 then Inl (SemiringException ''the nonnegative tropical semiring requires nonnegative costs'')
     else Inr x)"

lemma xadd_nonneg: "Fin 0 \<le> x \<Longrightarrow> Fin 0 \<le> y \<Longrightarrow> Fin 0 \<le> xadd x y"
  by (cases x; cases y) auto

lemma foldl_xadd_nonneg: "set v \<subseteq> nonneg_costs \<Longrightarrow> Fin 0 \<le> a \<Longrightarrow> Fin 0 \<le> foldl xadd a v"
  by (induction v arbitrary: a) (auto simp: nonneg_costs_def xadd_nonneg)

lemma min_element_carrier: "xs \<noteq> [] \<Longrightarrow> set xs \<subseteq> D \<Longrightarrow> min_element xs \<in> D"
  using min_element_in[of xs] by blast

lemma max_element_carrier: "xs \<noteq> [] \<Longrightarrow> set xs \<subseteq> D \<Longrightarrow> max_element xs \<in> D"
  using max_element_in[of xs] by blast

lemma tropical_nonneg_closed:
  "set v \<subseteq> nonneg_costs \<Longrightarrow> S_plus TropicalS v \<in> nonneg_costs"
  "set v \<subseteq> nonneg_costs \<Longrightarrow> S_times TropicalS v \<in> nonneg_costs"
  using min_element_carrier[of v nonneg_costs] foldl_xadd_nonneg[of v "Fin 0"]
  by (auto simp: nonneg_costs_def)

interpretation tropical_nonneg: absorptive_laws TropicalNonnegS nonneg_costs
proof unfold_locales
  fix x :: xreal and xs :: "xreal list"
  show "S_times TropicalNonnegS (x # xs) = S_times TropicalNonnegS [x, S_times TropicalNonnegS xs]"
    by (simp add: foldl_xadd[of x])
qed (use tropical_nonneg_closed in \<open>auto simp: nonneg_costs_def min_element_Cons xadd_ac xadd_min
      ac_simps min_absorb1\<close>)

lemma nat_le_tropical_nonneg:
  "y \<in> nonneg_costs \<Longrightarrow> nat_le TropicalNonnegS nonneg_costs x y \<longleftrightarrow> y \<le> x"
proof
  assume "y \<in> nonneg_costs" "y \<le> x"
  then show "nat_le TropicalNonnegS nonneg_costs x y"
    unfolding nat_le_def by (intro bexI[of _ y]) (auto simp: min_def)
qed (auto simp: nat_le_def)

interpretation tropical_nonneg: monus_laws TropicalNonnegS nonneg_costs
proof unfold_locales
  fix x y z assume D: "x \<in> nonneg_costs" "y \<in> nonneg_costs" "z \<in> nonneg_costs"
  then have "min y z \<in> nonneg_costs" by (simp add: min_def)
  with D show "nat_le TropicalNonnegS nonneg_costs (S_monus TropicalNonnegS x y) z \<longleftrightarrow>
      nat_le TropicalNonnegS nonneg_costs x (S_plus TropicalNonnegS [y, z])"
    by (auto simp: nat_le_tropical_nonneg min_le_iff_disj)
qed (auto simp: nat_le_tropical_nonneg)

section \<open>Viterbi and Lukasiewicz\<close>

definition ViterbiS :: "real semiring" where
  "ViterbiS = (base_semiring 0 1 (\<lambda>v. if v = [] then 0 else max_element v) (\<lambda>v. foldl (*) 1 v)
     (\<lambda>x y. if x \<le> y then 0 else x) (\<lambda>x. if x \<noteq> 0 then 1 else 0))\<lparr>S_absorptive := True\<rparr>"

definition LukasiewiczS :: "real semiring" where
  "LukasiewiczS = (base_semiring 0 1 (\<lambda>v. if v = [] then 0 else max_element v)
     (\<lambda>v. if v = [] then 1
          else (let s = foldl (+) 0 v; r = s - real (length v - 1) in if r > 0 then r else 0))
     (\<lambda>x y. if x \<le> y then 0 else x) (\<lambda>x. if x \<noteq> 0 then 1 else 0))\<lparr>S_absorptive := True\<rparr>"

lemma ViterbiS_simps [simp]:
  "S_zero ViterbiS = 0" "S_one ViterbiS = 1"
  "S_plus ViterbiS v = (if v = [] then 0 else max_element v)" "S_times ViterbiS v = foldl (*) 1 v"
  "S_monus ViterbiS x y = (if x \<le> y then 0 else x)" "S_delta ViterbiS x = (if x \<noteq> 0 then 1 else 0)"
  "S_absorptive ViterbiS" "\<not> S_certifying ViterbiS"
  by (simp_all add: ViterbiS_def base_semiring_def)

lemma LukasiewiczS_simps [simp]:
  "S_zero LukasiewiczS = 0" "S_one LukasiewiczS = 1"
  "S_plus LukasiewiczS v = (if v = [] then 0 else max_element v)"
  "S_times LukasiewiczS v = (if v = [] then 1 else max (sum_list v - real (length v - 1)) 0)"
  "S_monus LukasiewiczS x y = (if x \<le> y then 0 else x)" "S_delta LukasiewiczS x = (if x \<noteq> 0 then 1 else 0)"
  "S_absorptive LukasiewiczS" "\<not> S_certifying LukasiewiczS"
  by (simp_all add: LukasiewiczS_def base_semiring_def Let_def foldl_plus_sum max_def)

definition unit_interval :: "real set" where
  "unit_interval = {x. 0 \<le> x \<and> x \<le> 1}"

lemma max_element_append_assoc:
  "max_element [max_element [x, y], z] = max_element [x, max_element [y, z]]"
  by (simp add: max.assoc)

lemma mult_max_left: "0 \<le> (x :: real) \<Longrightarrow> x * max y z = max (x * y) (x * z)"
  by (rule max_mult_distrib_left[THEN trans]) simp

lemma prod_unit: "set v \<subseteq> unit_interval \<Longrightarrow> 0 \<le> prod_list v \<and> prod_list v \<le> 1"
  by (induction v) (auto simp: unit_interval_def mult_le_one)

lemma unit_max_element: "set v \<subseteq> unit_interval \<Longrightarrow> v \<noteq> [] \<Longrightarrow> max_element v \<in> unit_interval"
  by (rule max_element_carrier)

interpretation viterbi: absorptive_laws ViterbiS unit_interval
  by unfold_locales
    (use prod_unit unit_max_element in \<open>auto simp: foldl_times_prod max_element_Cons mult_max_left unit_interval_def
       ac_simps max_absorb1\<close>)

lemma nat_le_max:
  assumes "\<And>x y. S_plus S [x, y] = max x y" "y \<in> D"
  shows "nat_le S D x y \<longleftrightarrow> (x :: 'a :: linorder) \<le> y"
  using assms unfolding nat_le_def by (auto intro!: bexI[of _ y] simp: max_def)

text \<open>Zero below everything and truncation instead of subtraction: the monus of a linear order.\<close>

lemma linear_monus:
  assumes "semiring_laws S D" "\<And>x y. S_plus S [x, y] = max x y" "\<And>x. x \<in> D \<Longrightarrow> S_zero S \<le> x"
    and "\<And>x y. S_monus S x y = (if x \<le> y then S_zero S else (x :: 'a :: linorder))"
  shows "monus_laws S D"
proof (rule monus_laws.intro[OF assms(1)], unfold_locales)
  fix x y assume "x \<in> D" "y \<in> D" "nat_le S D x y" "nat_le S D y x"
  then show "x = y" using nat_le_max[OF assms(2)] by (meson antisym)
next
  fix x y z assume D: "x \<in> D" "y \<in> D" "z \<in> D"
  then have "max y z \<in> D" by (simp add: max_def)
  with D show "nat_le S D (S_monus S x y) z \<longleftrightarrow> nat_le S D x (S_plus S [y, z])"
    by (auto simp: nat_le_max[OF assms(2)] assms(2-4) le_max_iff_disj)
qed

interpretation viterbi: monus_laws ViterbiS unit_interval
  by (rule linear_monus[OF viterbi.semiring_laws_axioms]) (auto simp: unit_interval_def)

lemma sum_unit_le: "set v \<subseteq> unit_interval \<Longrightarrow> sum_list v \<le> real (length v)"
  by (induction v) (auto simp: unit_interval_def)

lemma lukasiewicz_Cons:
  assumes "x \<in> unit_interval" "set xs \<subseteq> unit_interval"
  shows "S_times LukasiewiczS (x # xs) = S_times LukasiewiczS [x, S_times LukasiewiczS xs]"
proof (cases xs)
  case Nil
  with assms show ?thesis by (simp add: unit_interval_def)
next
  case (Cons y ys)
  with assms show ?thesis by (auto simp: unit_interval_def max_def)
qed

lemma lukasiewicz_closed:
  assumes "set v \<subseteq> unit_interval"
  shows "S_times LukasiewiczS v \<in> unit_interval"
proof (cases "v = []")
  case False
  then have "real (length v - 1) = real (length v) - 1" by (cases v) simp_all
  with sum_unit_le[OF assms] False show ?thesis by (simp add: unit_interval_def)
qed (simp add: unit_interval_def)

interpretation lukasiewicz: absorptive_laws LukasiewiczS unit_interval
proof unfold_locales
  fix x xs assume "x \<in> unit_interval" "set xs \<subseteq> unit_interval"
  then show "S_times LukasiewiczS (x # xs) = S_times LukasiewiczS [x, S_times LukasiewiczS xs]"
    by (rule lukasiewicz_Cons)
next
  fix xs assume "set xs \<subseteq> unit_interval"
  then show "S_times LukasiewiczS xs \<in> unit_interval" by (rule lukasiewicz_closed)
next
  fix xs assume "set xs \<subseteq> unit_interval"
  then show "S_plus LukasiewiczS xs \<in> unit_interval"
    using unit_max_element[of xs] by (simp add: unit_interval_def)
qed (auto simp: unit_interval_def max_element_Cons max_def)

interpretation lukasiewicz: monus_laws LukasiewiczS unit_interval
  by (rule linear_monus[OF lukasiewicz.semiring_laws_axioms]) (auto simp: unit_interval_def)

section \<open>MinMax over an enum type\<close>

text \<open>
  The constructor scans the enum's catalog rows (label oid, sort order) for the least and the
  greatest label.  \<open>enum_cmp\<close> is PostgreSQL's comparison function on labels, a parameter.
\<close>

fun minmax_scan :: "(nat \<times> real) list \<Rightarrow> nat \<times> real \<times> nat \<times> real \<Rightarrow> nat \<times> real \<times> nat \<times> real" where
  "minmax_scan [] st = st"
| "minmax_scan ((o_id, ord) # ms) (b_oid, b_order, t_oid, t_order) =
     (let (b_oid', b_order') = (if ord < b_order then (o_id, ord) else (b_oid, b_order));
          (t_oid', t_order') = (if ord > t_order then (o_id, ord) else (t_oid, t_order))
      in minmax_scan ms (b_oid', b_order', t_oid', t_order'))"

definition minmax_bounds :: "(nat \<times> real) list \<Rightarrow> exn + nat \<times> nat" where
  "minmax_bounds members = (case members of
     [] \<Rightarrow> Inl (StdRuntimeError ''MinMax: enum type has no members'')
   | (o_id, ord) # ms \<Rightarrow>
       (case minmax_scan ms (o_id, ord, o_id, ord) of (b, _, t, _) \<Rightarrow> Inr (b, t)))"

definition minmax_pick :: "(nat \<Rightarrow> nat \<Rightarrow> int) \<Rightarrow> bool \<Rightarrow> nat list \<Rightarrow> nat" where
  "minmax_pick enum_cmp smallest v =
     foldl (\<lambda>r x. let c = enum_cmp x r in if (smallest \<and> c < 0) \<or> (\<not> smallest \<and> c > 0) then x else r)
       (hd v) (tl v)"

definition minmax_monus :: "(nat \<Rightarrow> nat \<Rightarrow> int) \<Rightarrow> bool \<Rightarrow> nat \<Rightarrow> nat \<Rightarrow> nat \<Rightarrow> nat" where
  "minmax_monus enum_cmp reverse z x y =
     (if (if reverse then enum_cmp x y \<le> 0 else enum_cmp x y \<ge> 0) then z else x)"

definition MinMaxS :: "(nat \<Rightarrow> nat \<Rightarrow> int) \<Rightarrow> bool \<Rightarrow> nat \<Rightarrow> nat \<Rightarrow> nat semiring" where
  "MinMaxS enum_cmp rev_ord lo hi =
     (base_semiring (if rev_ord then lo else hi) (if rev_ord then hi else lo)
        (\<lambda>v. if v = [] then (if rev_ord then lo else hi) else minmax_pick enum_cmp (\<not> rev_ord) v)
        (\<lambda>v. if v = [] then (if rev_ord then hi else lo) else minmax_pick enum_cmp rev_ord v)
        (minmax_monus enum_cmp rev_ord (if rev_ord then lo else hi))
        (\<lambda>x. x))\<lparr>S_absorptive := True\<rparr>"

text \<open>What PostgreSQL documents of an enum type: the labels D are totally ordered by a sort position.\<close>

definition enum_order :: "(nat \<Rightarrow> nat \<Rightarrow> int) \<Rightarrow> (nat \<Rightarrow> real) \<Rightarrow> nat set \<Rightarrow> bool" where
  "enum_order enum_cmp pos D \<longleftrightarrow> inj_on pos D \<and>
     (\<forall>x \<in> D. \<forall>y \<in> D. (enum_cmp x y < 0 \<longleftrightarrow> pos x < pos y) \<and> (enum_cmp x y > 0 \<longleftrightarrow> pos x > pos y))"

lemma minmax_pick_pos:
  assumes e: "enum_order enum_cmp pos D" and v: "v \<noteq> []" "set v \<subseteq> D"
  shows "minmax_pick enum_cmp s v \<in> D \<and>
    pos (minmax_pick enum_cmp s v) = (if s then min_element (map pos v) else max_element (map pos v))"
proof -
  let ?f = "\<lambda>r x. let c = enum_cmp x r in if (s \<and> c < 0) \<or> (\<not> s \<and> c > 0) then x else r"
  have "foldl ?f r w \<in> D \<and> pos (foldl ?f r w) = foldl (if s then min else max) (pos r) (map pos w)"
    if "r \<in> D" "set w \<subseteq> D" for r w
    using that
  proof (induction w arbitrary: r)
    case (Cons x w)
    have "?f r x \<in> D" "pos (?f r x) = (if s then min else max) (pos r) (pos x)"
      using Cons.prems e by (auto simp: enum_order_def Let_def min_def max_def)
    with Cons.IH[of "?f r x"] Cons.prems show ?case by simp
  qed simp
  from this[of "hd v" "tl v"] v show ?thesis
    by (cases v) (auto simp: minmax_pick_def min_element.simps max_element.simps)
qed

lemma minmax_laws:
  assumes e: "enum_order enum_cmp pos D" and b: "lo \<in> D" "hi \<in> D" "\<forall>x \<in> D. pos lo \<le> pos x \<and> pos x \<le> pos hi"
  shows "absorptive_laws (MinMaxS enum_cmp rev_ord lo hi) D"
    and "x \<in> D \<Longrightarrow> y \<in> D \<Longrightarrow> z \<in> D \<Longrightarrow>
      nat_le (MinMaxS enum_cmp rev_ord lo hi) D (S_monus (MinMaxS enum_cmp rev_ord lo hi) x y) z \<longleftrightarrow>
      nat_le (MinMaxS enum_cmp rev_ord lo hi) D x (S_plus (MinMaxS enum_cmp rev_ord lo hi) [y, z])"
proof -
  define SS where "SS = MinMaxS enum_cmp rev_ord lo hi"
  define ext where "ext s xs = (if s then min_element (map pos xs) else max_element (map pos xs))" for s xs
  have ext_Cons: "xs \<noteq> [] \<Longrightarrow> ext s (x # xs) = (if s then min else max) (pos x) (ext s xs)" for s x xs
    by (simp add: ext_def min_element_Cons max_element_Cons)
  have ext_1: "ext s [x] = pos x" for s x by (simp add: ext_def)
  have eqI: "x = y" if "x \<in> D" "y \<in> D" "pos x = pos y" for x y
    using e that by (auto simp: enum_order_def dest: inj_onD)
  have S: "S_zero SS = (if rev_ord then lo else hi)" "S_one SS = (if rev_ord then hi else lo)"
    "S_delta SS x = x" "S_monus SS x y = minmax_monus enum_cmp rev_ord (if rev_ord then lo else hi) x y" for x y
    by (simp_all add: SS_def MinMaxS_def base_semiring_def)
  have in_D: "S_zero SS \<in> D" "S_one SS \<in> D" using b by (simp_all add: S)
  have P: "S_plus SS xs \<in> D" "xs \<noteq> [] \<Longrightarrow> pos (S_plus SS xs) = ext (\<not> rev_ord) xs" if "set xs \<subseteq> D" for xs
    using minmax_pick_pos[OF e, of xs] that b by (auto simp: SS_def MinMaxS_def base_semiring_def ext_def)
  have T: "S_times SS xs \<in> D" "xs \<noteq> [] \<Longrightarrow> pos (S_times SS xs) = ext rev_ord xs" if "set xs \<subseteq> D" for xs
    using minmax_pick_pos[OF e, of xs] that b by (auto simp: SS_def MinMaxS_def base_semiring_def ext_def)
  have Nil: "S_plus SS [] = S_zero SS" "S_times SS [] = S_one SS" by (simp_all add: SS_def MinMaxS_def base_semiring_def)
  have P2: "pos (S_plus SS [x, y]) = (if rev_ord then max else min) (pos x) (pos y)" "S_plus SS [x, y] \<in> D"
    if "x \<in> D" "y \<in> D" for x y
    using P[of "[x, y]"] that by (simp_all add: ext_Cons ext_1)
  have T2: "pos (S_times SS [x, y]) = (if rev_ord then min else max) (pos x) (pos y)" "S_times SS [x, y] \<in> D"
    if "x \<in> D" "y \<in> D" for x y
    using T[of "[x, y]"] that by (simp_all add: ext_Cons ext_1)
  have M: "S_monus SS x y = (if (if rev_ord then pos x \<le> pos y else pos x \<ge> pos y) then S_zero SS else x)"
    if "x \<in> D" "y \<in> D" for x y
  proof -
    have "(enum_cmp x y < 0 \<longleftrightarrow> pos x < pos y) \<and> (enum_cmp x y > 0 \<longleftrightarrow> pos x > pos y)"
      using e that by (simp add: enum_order_def)
    then have "enum_cmp x y \<le> 0 \<longleftrightarrow> pos x \<le> pos y" "enum_cmp x y \<ge> 0 \<longleftrightarrow> pos x \<ge> pos y" by linarith+
    then show ?thesis by (simp add: S minmax_monus_def)
  qed
  have bnd: "pos lo \<le> pos x" "pos x \<le> pos hi" if "x \<in> D" for x using b that by auto
  note D = in_D P2 T2
  have laws: "absorptive_laws SS D"
  proof unfold_locales
    fix x xs assume x: "x \<in> D" "set xs \<subseteq> D"
    have "pos (S_plus SS (x # xs)) = pos (S_plus SS [x, S_plus SS xs])"
      using x P(2)[of "x # xs"] P2(1)[of x "S_plus SS xs"] P[of xs] bnd[of x]
      by (cases "xs = []") (simp_all add: ext_Cons ext_1 Nil S)
    then show "S_plus SS (x # xs) = S_plus SS [x, S_plus SS xs]"
      using x P(1)[of xs] P(1)[of "x # xs"] P2(2) by (intro eqI) simp_all
    have "pos (S_times SS (x # xs)) = pos (S_times SS [x, S_times SS xs])"
      using x T(2)[of "x # xs"] T2(1)[of x "S_times SS xs"] T[of xs] bnd[of x]
      by (cases "xs = []") (simp_all add: ext_Cons ext_1 Nil S)
    then show "S_times SS (x # xs) = S_times SS [x, S_times SS xs]"
      using x T(1)[of xs] T(1)[of "x # xs"] T2(2) by (intro eqI) simp_all
  next
    fix x y z assume x: "x \<in> D" "y \<in> D" "z \<in> D"
    show "S_plus SS [x, y] = S_plus SS [y, x]" using x by (intro eqI) (simp_all add: D ac_simps)
    show "S_times SS [x, y] = S_times SS [y, x]" using x by (intro eqI) (simp_all add: D ac_simps)
    show "S_plus SS [S_plus SS [x, y], z] = S_plus SS [x, S_plus SS [y, z]]"
      using x by (intro eqI) (simp_all add: D ac_simps)
    show "S_times SS [S_times SS [x, y], z] = S_times SS [x, S_times SS [y, z]]"
      using x by (intro eqI) (simp_all add: D ac_simps)
    show "S_times SS [x, S_plus SS [y, z]] = S_plus SS [S_times SS [x, y], S_times SS [x, z]]"
      using x by (intro eqI) (auto simp: D min_def max_def)
  next
    fix x assume x: "x \<in> D"
    show "S_plus SS [S_zero SS, x] = x" using x bnd[OF x] b by (intro eqI) (auto simp: D S min_def max_def)
    show "S_times SS [S_one SS, x] = x" using x bnd[OF x] b by (intro eqI) (auto simp: D S min_def max_def)
    show "S_times SS [S_zero SS, x] = S_zero SS"
      using x bnd[OF x] b by (intro eqI) (auto simp: D S min_def max_def)
    show "S_plus SS [S_one SS, x] = S_one SS"
      using x bnd[OF x] b by (intro eqI) (auto simp: D S min_def max_def)
    show "S_monus SS (S_zero SS) x = S_zero SS" using x in_D by (simp add: M)
    show "S_monus SS x (S_zero SS) = x"
    proof -
      have "S_zero SS = x" if "if rev_ord then pos x \<le> pos (S_zero SS) else pos x \<ge> pos (S_zero SS)"
        using that x in_D bnd[OF x] unfolding S(1) by (intro eqI) (auto split: if_splits)
      then show ?thesis using M[OF x in_D(1)] by auto
    qed
    show "S_monus SS x x = S_zero SS" using x by (simp add: M)
    show "S_monus SS x y \<in> D" if "y \<in> D" for y using x that in_D(1) M[OF x that] by (simp split: if_split)
  qed (simp_all add: in_D P(1) T(1) Nil S(3))
  have le: "nat_le SS D x y \<longleftrightarrow> (if rev_ord then pos x \<le> pos y else pos y \<le> pos x)" if "x \<in> D" "y \<in> D" for x y
  proof -
    have "(\<exists>z \<in> D. S_plus SS [x, z] = y) \<longleftrightarrow> S_plus SS [x, y] = y"
    proof
      assume "\<exists>z \<in> D. S_plus SS [x, z] = y"
      then obtain z where "z \<in> D" "S_plus SS [x, z] = y" by blast
      with that have "pos y = (if rev_ord then max else min) (pos x) (pos z)" using P2[of x z] by simp
      with that show "S_plus SS [x, y] = y" by (intro eqI) (auto simp: D)
    qed (use that in blast)
    also have "\<dots> \<longleftrightarrow> pos (S_plus SS [x, y]) = pos y" using eqI[OF P2(2)[OF that] that(2)] by metis
    also have "\<dots> \<longleftrightarrow> (if rev_ord then pos x \<le> pos y else pos y \<le> pos x)"
      by (auto simp: P2(1)[OF that] max_def min_def)
    finally show ?thesis by (simp add: nat_le_def)
  qed
  have adj: "nat_le SS D (S_monus SS x y) z \<longleftrightarrow> nat_le SS D x (S_plus SS [y, z])"
    if "x \<in> D" "y \<in> D" "z \<in> D" for x y z
  proof -
    have "nat_le SS D (S_zero SS) z" using that in_D bnd by (simp add: le S)
    with that show ?thesis using in_D by (auto simp: le M P2 split: if_splits)
  qed
  show "absorptive_laws (MinMaxS enum_cmp rev_ord lo hi) D" using laws by (simp add: SS_def)
  show "x \<in> D \<Longrightarrow> y \<in> D \<Longrightarrow> z \<in> D \<Longrightarrow>
      nat_le (MinMaxS enum_cmp rev_ord lo hi) D (S_monus (MinMaxS enum_cmp rev_ord lo hi) x y) z \<longleftrightarrow>
      nat_le (MinMaxS enum_cmp rev_ord lo hi) D x (S_plus (MinMaxS enum_cmp rev_ord lo hi) [y, z])"
    using adj unfolding SS_def .
qed

lemma minmax_scan_bounds:
  assumes "minmax_scan ms (b, bo, t, to) = (b', bo', t', to')"
    and "(b, bo) \<in> M" "(t, to) \<in> M" "set ms \<subseteq> M" "bo \<le> to"
  shows "(b', bo') \<in> M \<and> (t', to') \<in> M \<and> bo' \<le> bo \<and> to \<le> to' \<and> (\<forall>(x, ox) \<in> set ms. bo' \<le> ox \<and> ox \<le> to')"
  using assms
proof (induction ms "(b, bo, t, to)" arbitrary: b bo t to rule: minmax_scan.induct)
  case (2 x ox ms b bo t to)
  let ?b = "if ox < bo then (x, ox) else (b, bo)" and ?t = "if ox > to then (x, ox) else (t, to)"
  have "minmax_scan ms (fst ?b, snd ?b, fst ?t, snd ?t) = (b', bo', t', to')"
    using 2(2) by (auto simp: Let_def split: if_splits)
  moreover have "(fst ?b, snd ?b) \<in> M" "(fst ?t, snd ?t) \<in> M" "snd ?b \<le> snd ?t"
    using 2(3-6) by auto
  ultimately have "(b', bo') \<in> M \<and> (t', to') \<in> M \<and> bo' \<le> snd ?b \<and> snd ?t \<le> to' \<and>
      (\<forall>(x, ox) \<in> set ms. bo' \<le> ox \<and> ox \<le> to')"
    using 2(1)[of ?b "fst ?b" "snd ?b" ?t "fst ?t" "snd ?t"] 2(5) by simp
  then show ?case by (auto split: if_splits)
qed auto

text \<open>The constructor caches a least and a greatest label.\<close>

lemma minmax_bounds_correct:
  assumes "minmax_bounds members = Inr (lo, hi)"
  shows "\<exists>po ho. (lo, po) \<in> set members \<and> (hi, ho) \<in> set members \<and>
    (\<forall>(x, ox) \<in> set members. po \<le> ox \<and> ox \<le> ho)"
proof -
  obtain x ox ms where m: "members = (x, ox) # ms"
    using assms by (cases members) (auto simp: minmax_bounds_def)
  obtain b bo t to where r: "minmax_scan ms (x, ox, x, ox) = (b, bo, t, to)" by (metis prod.exhaust)
  with assms m have "b = lo" "t = hi" by (simp_all add: minmax_bounds_def)
  with minmax_scan_bounds[OF r, of "set members"] m show ?thesis by auto
qed

section \<open>The contracts, together\<close>

text \<open>Boolean, Viterbi and Lukasiewicz on the unit interval, Tropical on all costs and its
  nonnegative variant on nonnegative costs, are commutative semirings whose monus satisfies the
  adjunction "\<open>x \<ominus> y \<le> z\<close> iff \<open>x \<le> y + z\<close>" in the natural order.\<close>

theorem standard_semirings_have_monus:
  "monus_laws BooleanS UNIV \<and> monus_laws TropicalS UNIV \<and> monus_laws TropicalNonnegS nonneg_costs \<and>
   monus_laws ViterbiS unit_interval \<and> monus_laws LukasiewiczS unit_interval"
  by (intro conjI boolean.monus_laws_axioms tropical.monus_laws_axioms tropical_nonneg.monus_laws_axioms
      viterbi.monus_laws_axioms lukasiewicz.monus_laws_axioms)

text \<open>For an enum type with a total order of its labels, whose least and greatest labels the
  constructor found, MinMax and MaxMin are absorptive commutative semirings with the monus
  adjunction.\<close>

theorem minmax_is_absorptive_m_semiring:
  assumes "enum_order enum_cmp pos (fst ` set members)" "minmax_bounds members = Inr (lo, hi)"
    and "\<forall>(x, ox) \<in> set members. ox = pos x"
  shows "absorptive_laws (MinMaxS enum_cmp rev_ord lo hi) (fst ` set members) \<and>
    (\<forall>x \<in> fst ` set members. \<forall>y \<in> fst ` set members. \<forall>z \<in> fst ` set members.
      nat_le (MinMaxS enum_cmp rev_ord lo hi) (fst ` set members) (S_monus (MinMaxS enum_cmp rev_ord lo hi) x y) z \<longleftrightarrow>
      nat_le (MinMaxS enum_cmp rev_ord lo hi) (fst ` set members) x (S_plus (MinMaxS enum_cmp rev_ord lo hi) [y, z]))"
proof -
  obtain po ho where b: "(lo, po) \<in> set members" "(hi, ho) \<in> set members"
    "\<forall>(x, ox) \<in> set members. po \<le> ox \<and> ox \<le> ho"
    using minmax_bounds_correct[OF assms(2)] by blast
  then have "po = pos lo" "ho = pos hi" "lo \<in> fst ` set members" "hi \<in> fst ` set members"
    using assms(3) by (fast, fast, force, force)
  moreover have "po \<le> pos x \<and> pos x \<le> ho" if xm: "x \<in> fst ` set members" for x
  proof -
    obtain m where m: "m \<in> set members" "x = fst m" using xm by blast
    have "po \<le> snd m \<and> snd m \<le> ho" using b(3) m(1) by (simp add: case_prod_beta)
    moreover have "snd m = pos x" using assms(3) m by (simp add: case_prod_beta)
    ultimately show ?thesis by simp
  qed
  ultimately have l: "lo \<in> fst ` set members" and h: "hi \<in> fst ` set members"
    and all: "\<forall>x \<in> fst ` set members. pos lo \<le> pos x \<and> pos x \<le> pos hi"
    by simp_all
  show ?thesis
    by (intro conjI ballI minmax_laws(1)[OF assms(1) l h all] minmax_laws(2)[OF assms(1) l h all])
qed

lemma minmax_witness:
  "absorptive_laws (MinMaxS (\<lambda>x y. int x - int y) False 1 3) (fst ` set [(2::nat, 2::real), (1, 1), (3, 3)])"
proof -
  have "enum_order (\<lambda>x y. int x - int y) real (fst ` set [(2::nat, 2::real), (1, 1), (3, 3)])"
    by (simp add: enum_order_def)
  moreover have "minmax_bounds [(2::nat, 2::real), (1, 1), (3, 3)] = Inr (1, 3)"
    by (simp add: minmax_bounds_def)
  ultimately show ?thesis
    using minmax_is_absorptive_m_semiring[of "\<lambda>x y. int x - int y" real "[(2, 2), (1, 1), (3, 3)]" 1 3 False]
    by simp
qed

end
