(* ===== verification/GenericEval.thy ===== *)
theory GenericEval
  imports Circuit Semirings
begin

text \<open>
  \<open>GenericCircuit::evaluate\<close> (\<open>src/GenericCircuit.hpp\<close>): the iterative post-order evaluation of a
  circuit in a semiring, with an explicit stack and the provenance mapping as memo table.

  \<open>visit\<close> is one iteration of the loop for the gate on top of the stack, \<open>eval_loop\<close> the loop
  (a \<open>partial_function\<close>, so \<open>None\<close> is a loop that never ends), \<open>evaluate\<close> the function.
  \<open>denotes\<close> is the specification: the value a gate has when its children have values, with the
  plain n-ary operations of the semiring and no shortcut.  The two are proved to agree.
  An access to a wire that is not there is undefined in C++; the model answers
  \<open>UndefinedBehaviour\<close>.
\<close>

section \<open>The catalog\<close>

text \<open>PostgreSQL's catalog look-ups (\<open>get_opname\<close>, \<open>get_func_name\<close>), as parameters.\<close>

record catalog =
  cat_opname :: "oid \<Rightarrow> string option"
  cat_func_name :: "oid \<Rightarrow> string option"

section \<open>One visit\<close>

definition marker_check :: "'s semiring \<Rightarrow> generic_circuit \<Rightarrow> gate_t \<Rightarrow> exn option" where
  "marker_check S c u =
     (if u \<in> boolean_assumed_gates c \<and> \<not> S_boolean_rewrite S then
        Some (CircuitException ''The requested semiring does not admit a homomorphism from Boolean functions'')
      else if u \<in> absorptive_assumed_gates c \<and> \<not> S_absorptive S \<and> \<not> S_boolean_rewrite S then
        Some (CircuitException ''The requested semiring is not absorptive'')
      else None)"

text \<open>The leaves: \<open>None\<close> for an internal gate.\<close>

definition leaf_value :: "'s semiring \<Rightarrow> generic_circuit \<Rightarrow> gate_t \<Rightarrow> (exn + 's) option" where
  "leaf_value S c u = (case getGateType c u of
     gate_one \<Rightarrow> Some (Inr (S_one S))
   | gate_update \<Rightarrow> Some (Inr (S_one S))
   | gate_input \<Rightarrow> Some (Inr (S_unmapped_input S (getUUID c u)))
   | gate_mulinput \<Rightarrow> Some (Inr (S_unmapped_input S (getUUID c u)))
   | gate_zero \<Rightarrow> Some (Inr (S_zero S))
   | gate_value \<Rightarrow> Some (S_value S (getExtra c u))
   | _ \<Rightarrow> None)"

text \<open>The checks made before the children are looked at: assumption markers and comparisons.\<close>

definition assumed_check :: "'s semiring \<Rightarrow> string \<Rightarrow> exn option" where
  "assumed_check S assumption =
     (if assumption = [] \<or> assumption = ''boolean'' then
        (if \<not> S_boolean_rewrite S then
           Some (CircuitException ''The requested semiring does not admit a homomorphism from Boolean functions'')
         else None)
      else if assumption = ''absorptive'' then
        (if \<not> S_absorptive S then Some (CircuitException ''The requested semiring is not absorptive'') else None)
      else Some (CircuitException (''Unknown assumption marker '' @ assumption)))"

definition entry_check :: "'s semiring \<Rightarrow> catalog \<Rightarrow> generic_circuit \<Rightarrow> gate_t \<Rightarrow> exn option" where
  "entry_check S cat c u = (case getGateType c u of
     gate_assumed \<Rightarrow> assumed_check S (getExtra c u)
   | gate_cmp \<Rightarrow>
       (if cmpOpFromOid (cat_opname cat) (fst (getInfos c u)) = None
        then Some (CircuitException ''Comparison operator OID not supported'') else None)
   | _ \<Rightarrow> None)"

definition child :: "'s list \<Rightarrow> nat \<Rightarrow> exn + 's" where
  "child vs i = (if i < length vs then Inr (vs ! i) else Inl UndefinedBehaviour)"

text \<open>The text after the first occurrence of a key, as \<open>find\<close> and \<open>substr\<close> give it.\<close>

fun after_key :: "string \<Rightarrow> string \<Rightarrow> string option" where
  "after_key key [] = (if key = [] then Some [] else None)"
| "after_key key (c # s) =
     (if take (length key) (c # s) = key then Some (drop (length key) (c # s)) else after_key key s)"

text \<open>The child a Moebius gate is transparent to: the one named after \<open>L:\<close>, else the first.\<close>

definition mobius_child :: "generic_circuit \<Rightarrow> gate_t \<Rightarrow> nat" where
  "mobius_child c u = (case after_key ''L:'' (getExtra c u) of
     None \<Rightarrow> 0
   | Some r \<Rightarrow>
       (let luid = takeWhile (\<lambda>ch. ch \<noteq> CHR '' '') r;
            ws = getWires c u
        in case List.find (\<lambda>i. getUUID c (ws ! i) = luid) [0..<length ws] of
             None \<Rightarrow> 0 | Some i \<Rightarrow> i))"

definition plus_gate :: "'s semiring \<Rightarrow> 's list \<Rightarrow> 's" where
  "plus_gate S vs = S_plus S (filter (\<lambda>v. v \<noteq> S_zero S) vs)"

definition times_gate :: "'s semiring \<Rightarrow> 's list \<Rightarrow> 's" where
  "times_gate S vs = (if S_zero S \<in> set vs then S_zero S else S_times S (filter (\<lambda>v. v \<noteq> S_one S) vs))"

definition monus_gate :: "'s semiring \<Rightarrow> 's list \<Rightarrow> exn + 's" where
  "monus_gate S vs =
     bind_result (child vs 0) (\<lambda>x.
       if x = S_zero S then Inr (S_zero S)
       else bind_result (child vs 1) (\<lambda>y. Inr (if x = y then S_zero S else S_monus S x y)))"

text \<open>The gates other than plus, times and monus; \<open>vs\<close> are the values of the wires, in order.\<close>

definition other_gate :: "'s semiring \<Rightarrow> catalog \<Rightarrow> generic_circuit \<Rightarrow> gate_t \<Rightarrow> 's list \<Rightarrow> exn + 's" where
  "other_gate S cat c u vs = (case getGateType c u of
     gate_delta \<Rightarrow> bind_result (child vs 0) (\<lambda>x. Inr (S_delta S x))
   | gate_project \<Rightarrow> child vs 0 | gate_eq \<Rightarrow> child vs 0
   | gate_annotation \<Rightarrow> child vs 0 | gate_assumed \<Rightarrow> child vs 0
   | gate_cmp \<Rightarrow> (case cmpOpFromOid (cat_opname cat) (fst (getInfos c u)) of
        None \<Rightarrow> Inl (CircuitException ''Comparison operator OID not supported'')
      | Some op \<Rightarrow> bind_result (child vs 0) (\<lambda>x. bind_result (child vs 1) (\<lambda>y. S_cmp S x op y)))
   | gate_semimod \<Rightarrow> bind_result (child vs 0) (\<lambda>x. bind_result (child vs 1) (S_semimod S x))
   | gate_agg \<Rightarrow> (case getAggregationOperator (cat_func_name cat) (fst (getInfos c u)) of
        Inl e \<Rightarrow> Inl (PgError e) | Inr op \<Rightarrow> S_agg S op vs)
   | gate_conditioned \<Rightarrow> S_conditioned S vs
   | gate_mobius \<Rightarrow> child vs (mobius_child c u)
   | gate_case \<Rightarrow> S_guarded_case S vs
   | gate_rv \<Rightarrow> S_rv S (getExtra c u) vs
   | gate_arith \<Rightarrow> (case arithOpFromTag (fst (getInfos c u)) of
        None \<Rightarrow> Inl (CircuitException ''Arithmetic operator tag not supported'')
      | Some op \<Rightarrow> S_arith S op vs (getExtra c u))
   | gate_mixture \<Rightarrow>
       (if isCategoricalMixture c u then
          bind_result (child vs 0) (\<lambda>k. S_categorical S k
            (map (getProb c) (tl (getWires c u))) (map (getExtra c) (tl (getWires c u))))
        else if length vs \<noteq> 3 then Inl (CircuitException ''gate_mixture must have exactly three children'')
        else S_mixture S (vs ! 0) (vs ! 1) (vs ! 2))
   | gate_observe \<Rightarrow>
       (if length vs \<noteq> 1 then Inl (CircuitException ''gate_observe must have exactly one child'')
        else S_observe S (vs ! 0) (getExtra c u))
   | _ \<Rightarrow> Inl (CircuitException ''Invalid gate type for semiring evaluation''))"

definition gate_op :: "'s semiring \<Rightarrow> catalog \<Rightarrow> generic_circuit \<Rightarrow> gate_t \<Rightarrow> 's list \<Rightarrow> exn + 's" where
  "gate_op S cat c u vs = (case getGateType c u of
     gate_plus \<Rightarrow> Inr (plus_gate S vs)
   | gate_times \<Rightarrow> Inr (times_gate S vs)
   | gate_monus \<Rightarrow> monus_gate S vs
   | _ \<Rightarrow> other_gate S cat c u vs)"

datatype 's visit_result = Popped | Emplace 's | Push "gate_t list"

definition visit :: "'s semiring \<Rightarrow> catalog \<Rightarrow> generic_circuit \<Rightarrow> (gate_t \<rightharpoonup> 's) \<Rightarrow> gate_t \<Rightarrow> exn + 's visit_result" where
  "visit S cat c pm u = (case marker_check S c u of
     Some e \<Rightarrow> Inl e
   | None \<Rightarrow>
       if pm u \<noteq> None then Inr Popped
       else (case leaf_value S c u of
          Some r \<Rightarrow> bind_result r (\<lambda>v. Inr (Emplace v))
        | None \<Rightarrow>
            (case entry_check S cat c u of
               Some e \<Rightarrow> Inl e
             | None \<Rightarrow>
                 (let missing = filter (\<lambda>w. pm w = None) (getWires c u) in
                  if missing \<noteq> [] then Inr (Push missing)
                  else bind_result (gate_op S cat c u (map (\<lambda>w. the (pm w)) (getWires c u)))
                         (\<lambda>v. Inr (Emplace v))))))"

text \<open>The stack is a list with its top at the head, so the children pushed last come first.\<close>

partial_function (option) eval_loop ::
  "'s semiring \<Rightarrow> catalog \<Rightarrow> generic_circuit \<Rightarrow> gate_t list \<Rightarrow> (gate_t \<rightharpoonup> 's) \<Rightarrow> (exn + (gate_t \<rightharpoonup> 's)) option" where
  "eval_loop S cat c stack pm = (case stack of
     [] \<Rightarrow> Some (Inr pm)
   | u # rest \<Rightarrow>
       (case visit S cat c pm u of
          Inl e \<Rightarrow> Some (Inl e)
        | Inr r \<Rightarrow>
            (case r of
               Popped \<Rightarrow> eval_loop S cat c rest pm
             | Emplace v \<Rightarrow> eval_loop S cat c rest (pm(u \<mapsto> v))
             | Push cs \<Rightarrow> eval_loop S cat c (rev cs @ stack) pm)))"

declare eval_loop.simps [code]

text \<open>The value of the root and the mapping, which the caller's reference keeps.\<close>

definition evaluate ::
  "'s semiring \<Rightarrow> catalog \<Rightarrow> generic_circuit \<Rightarrow> gate_t \<Rightarrow> (gate_t \<rightharpoonup> 's) \<Rightarrow> (exn + 's \<times> (gate_t \<rightharpoonup> 's)) option" where
  "evaluate S cat c g pm = (case eval_loop S cat c [g] pm of
     None \<Rightarrow> None
   | Some (Inl e) \<Rightarrow> Some (Inl e)
   | Some (Inr pm') \<Rightarrow> Some (case pm' g of None \<Rightarrow> Inl UndefinedBehaviour | Some v \<Rightarrow> Inr (v, pm')))"

section \<open>The specification\<close>

definition gate_op_ref :: "'s semiring \<Rightarrow> catalog \<Rightarrow> generic_circuit \<Rightarrow> gate_t \<Rightarrow> 's list \<Rightarrow> exn + 's" where
  "gate_op_ref S cat c u vs = (case getGateType c u of
     gate_plus \<Rightarrow> Inr (S_plus S vs)
   | gate_times \<Rightarrow> Inr (S_times S vs)
   | gate_monus \<Rightarrow> (if length vs \<ge> 2 then Inr (S_monus S (vs ! 0) (vs ! 1)) else monus_gate S vs)
   | _ \<Rightarrow> other_gate S cat c u vs)"

text \<open>A gate in the given mapping has the value found there; an assumption marker is not consulted.\<close>

inductive denotes ::
  "'s semiring \<Rightarrow> catalog \<Rightarrow> generic_circuit \<Rightarrow> (gate_t \<rightharpoonup> 's) \<Rightarrow> gate_t \<Rightarrow> 's \<Rightarrow> bool"
  for S cat c pm where
  den_mapped: "pm u = Some v \<Longrightarrow> denotes S cat c pm u v"
| den_leaf: "pm u = None \<Longrightarrow> marker_check S c u = None \<Longrightarrow> leaf_value S c u = Some (Inr v) \<Longrightarrow>
    denotes S cat c pm u v"
| den_gate: "pm u = None \<Longrightarrow> marker_check S c u = None \<Longrightarrow> leaf_value S c u = None \<Longrightarrow>
    entry_check S cat c u = None \<Longrightarrow> list_all2 (denotes S cat c pm) (getWires c u) vs \<Longrightarrow>
    gate_op_ref S cat c u vs = Inr v \<Longrightarrow> denotes S cat c pm u v"
monos list_all2_mono

text \<open>The optional operations of a semiring stay in the carrier, as the mandatory ones do.\<close>

definition closed_ops :: "'s semiring \<Rightarrow> 's set \<Rightarrow> bool" where
  "closed_ops S D \<longleftrightarrow>
     (\<forall>s. S_unmapped_input S s \<in> D) \<and> (\<forall>s v. S_value S s = Inr v \<longrightarrow> v \<in> D) \<and>
     (\<forall>x \<in> D. \<forall>y \<in> D. \<forall>op v. S_cmp S x op y = Inr v \<longrightarrow> v \<in> D) \<and>
     (\<forall>x \<in> D. \<forall>y \<in> D. \<forall>v. S_semimod S x y = Inr v \<longrightarrow> v \<in> D) \<and>
     (\<forall>vs v op. set vs \<subseteq> D \<longrightarrow> S_agg S op vs = Inr v \<longrightarrow> v \<in> D) \<and>
     (\<forall>vs v s. set vs \<subseteq> D \<longrightarrow> S_rv S s vs = Inr v \<longrightarrow> v \<in> D) \<and>
     (\<forall>vs v op s. set vs \<subseteq> D \<longrightarrow> S_arith S op vs s = Inr v \<longrightarrow> v \<in> D) \<and>
     (\<forall>x \<in> D. \<forall>y \<in> D. \<forall>z \<in> D. \<forall>v. S_mixture S x y z = Inr v \<longrightarrow> v \<in> D) \<and>
     (\<forall>x \<in> D. \<forall>ps os v. S_categorical S x ps os = Inr v \<longrightarrow> v \<in> D) \<and>
     (\<forall>vs v. set vs \<subseteq> D \<longrightarrow> S_guarded_case S vs = Inr v \<longrightarrow> v \<in> D) \<and>
     (\<forall>x \<in> D. \<forall>s v. S_observe S x s = Inr v \<longrightarrow> v \<in> D) \<and>
     (\<forall>vs v. set vs \<subseteq> D \<longrightarrow> S_conditioned S vs = Inr v \<longrightarrow> v \<in> D)"

section \<open>The shortcuts are sound\<close>

context semiring_laws begin

lemma nth_in: "set vs \<subseteq> D \<Longrightarrow> i < length vs \<Longrightarrow> vs ! i \<in> D"
  by (meson nth_mem subsetD)

lemma pair_in: "set vs \<subseteq> D \<Longrightarrow> 2 \<le> length vs \<Longrightarrow> vs ! 0 \<in> D \<and> vs ! 1 \<in> D"
  by (cases vs; cases "tl vs") auto

lemma plus_gate_eq: "set vs \<subseteq> D \<Longrightarrow> plus_gate S vs = S_plus S vs"
  unfolding plus_gate_def by (rule plus_drop_zeros)

lemma times_gate_eq: "set vs \<subseteq> D \<Longrightarrow> times_gate S vs = S_times S vs"
  unfolding times_gate_def using times_drop_ones[of vs] times_has_zero[of vs] by simp

lemma monus_gate_eq:
  assumes "set vs \<subseteq> D" "length vs \<ge> 2"
  shows "monus_gate S vs = Inr (S_monus S (vs ! 0) (vs ! 1))"
proof -
  have "vs ! 0 \<in> D" "vs ! 1 \<in> D" using pair_in[OF assms] by simp_all
  moreover have "vs \<noteq> []" using assms(2) by auto
  ultimately show ?thesis using assms(2) monus_zero_left monus_self by (simp add: monus_gate_def child_def)
qed

lemma gate_op_eq: "set vs \<subseteq> D \<Longrightarrow> gate_op S cat c u vs = gate_op_ref S cat c u vs"
  by (cases "getGateType c u")
     (simp_all add: gate_op_def gate_op_ref_def plus_gate_eq times_gate_eq monus_gate_eq)

lemma child_in: "set vs \<subseteq> D \<Longrightarrow> child vs i = Inr v \<Longrightarrow> v \<in> D"
  by (auto simp: child_def split: if_splits)

lemma monus_gate_in: "set vs \<subseteq> D \<Longrightarrow> monus_gate S vs = Inr v \<Longrightarrow> v \<in> D"
  by (auto simp: monus_gate_def bind_result_Inr_iff dest: child_in split: if_splits)

lemma closedD:
  assumes "closed_ops S D"
  shows "S_unmapped_input S s \<in> D" "S_value S s = Inr v \<Longrightarrow> v \<in> D"
    "x \<in> D \<Longrightarrow> y \<in> D \<Longrightarrow> S_cmp S x op y = Inr v \<Longrightarrow> v \<in> D"
    "x \<in> D \<Longrightarrow> y \<in> D \<Longrightarrow> S_semimod S x y = Inr v \<Longrightarrow> v \<in> D"
    "set vs \<subseteq> D \<Longrightarrow> S_agg S aop vs = Inr v \<Longrightarrow> v \<in> D"
    "set vs \<subseteq> D \<Longrightarrow> S_rv S s vs = Inr v \<Longrightarrow> v \<in> D"
    "set vs \<subseteq> D \<Longrightarrow> S_arith S arop vs s = Inr v \<Longrightarrow> v \<in> D"
    "x \<in> D \<Longrightarrow> y \<in> D \<Longrightarrow> z \<in> D \<Longrightarrow> S_mixture S x y z = Inr v \<Longrightarrow> v \<in> D"
    "x \<in> D \<Longrightarrow> S_categorical S x ps os = Inr v \<Longrightarrow> v \<in> D"
    "set vs \<subseteq> D \<Longrightarrow> S_guarded_case S vs = Inr v \<Longrightarrow> v \<in> D"
    "x \<in> D \<Longrightarrow> S_observe S x s = Inr v \<Longrightarrow> v \<in> D"
    "set vs \<subseteq> D \<Longrightarrow> S_conditioned S vs = Inr v \<Longrightarrow> v \<in> D"
  by (insert assms, unfold closed_ops_def) (elim conjE, meson)+

lemma other_gate_in:
  assumes cl: "closed_ops S D" and vs: "set vs \<subseteq> D" and r: "other_gate S cat c u vs = Inr v"
  shows "v \<in> D"
proof (cases "getGateType c u")
  case gate_cmp
  with r obtain op x y where "child vs 0 = Inr x" "child vs 1 = Inr y" "S_cmp S x op y = Inr v"
    by (auto simp: other_gate_def bind_result_Inr_iff split: option.splits)
  then show ?thesis using closedD(3)[OF cl] child_in[OF vs] by blast
next
  case gate_semimod
  with r obtain x y where "child vs 0 = Inr x" "child vs 1 = Inr y" "S_semimod S x y = Inr v"
    by (auto simp: other_gate_def bind_result_Inr_iff)
  then show ?thesis using closedD(4)[OF cl] child_in[OF vs] by blast
next
  case gate_agg
  with r obtain op where "S_agg S op vs = Inr v" by (auto simp: other_gate_def split: sum.splits)
  then show ?thesis by (rule closedD(5)[OF cl vs])
next
  case gate_arith
  with r obtain op where "S_arith S op vs (getExtra c u) = Inr v"
    by (auto simp: other_gate_def split: option.splits)
  then show ?thesis by (rule closedD(7)[OF cl vs])
next
  case gate_mixture
  show ?thesis
  proof (cases "isCategoricalMixture c u")
    case True
    with r gate_mixture obtain k ps os where "child vs 0 = Inr k" "S_categorical S k ps os = Inr v"
      by (auto simp: other_gate_def bind_result_Inr_iff)
    then show ?thesis using closedD(9)[OF cl] child_in[OF vs] by blast
  next
    case False
    with r gate_mixture have l: "length vs = 3" and m: "S_mixture S (vs ! 0) (vs ! 1) (vs ! 2) = Inr v"
      by (simp_all add: other_gate_def split: if_splits)
    show ?thesis by (rule closedD(8)[OF cl _ _ _ m]) (simp_all add: nth_in[OF vs] l)
  qed
next
  case gate_observe
  with r have l: "length vs = 1" and m: "S_observe S (vs ! 0) (getExtra c u) = Inr v"
    by (simp_all add: other_gate_def split: if_splits)
  show ?thesis by (rule closedD(11)[OF cl _ m]) (simp add: nth_in[OF vs] l)
next
  case gate_delta
  with r show ?thesis using child_in[OF vs] by (auto simp: other_gate_def bind_result_Inr_iff)
next
  case gate_conditioned
  with r show ?thesis using closedD(12)[OF cl vs] by (simp add: other_gate_def)
next
  case gate_case
  with r show ?thesis using closedD(10)[OF cl vs] by (simp add: other_gate_def)
next
  case gate_rv
  with r show ?thesis using closedD(6)[OF cl vs] by (simp add: other_gate_def)
qed (use r child_in[OF vs] in \<open>simp_all add: other_gate_def\<close>)

lemma gate_op_ref_in:
  assumes cl: "closed_ops S D" and vs: "set vs \<subseteq> D" and r: "gate_op_ref S cat c u vs = Inr v"
  shows "v \<in> D"
proof (cases "getGateType c u")
  case gate_monus
  show ?thesis
  proof (cases "length vs \<ge> 2")
    case True
    with gate_monus r have "v = S_monus S (vs ! 0) (vs ! 1)" by (simp add: gate_op_ref_def)
    then show ?thesis using pair_in[OF vs True] by simp
  next
    case False
    with gate_monus r show ?thesis using monus_gate_in[OF vs] by (simp add: gate_op_ref_def)
  qed
qed (use r other_gate_in[OF cl vs] vs in \<open>auto simp: gate_op_ref_def\<close>)

lemma leaf_in:
  assumes "closed_ops S D" "leaf_value S c u = Some (Inr v)"
  shows "v \<in> D"
  using assms(2) closedD(1,2)[OF assms(1)]
  by (cases "getGateType c u") (simp_all add: leaf_value_def, auto)

end

section \<open>The specification is a function\<close>

lemma list_all2_unique:
  assumes "list_all2 (\<lambda>x v. P x v \<and> (\<forall>w. P x w \<longrightarrow> v = w)) xs vs" "list_all2 P xs ws"
  shows "vs = ws"
  using assms by (induction xs vs arbitrary: ws rule: list_all2_induct) (auto simp: list_all2_Cons1)

lemma denotes_unique: "denotes S cat c pm u v \<Longrightarrow> denotes S cat c pm u w \<Longrightarrow> v = w"
proof (induction arbitrary: w rule: denotes.induct)
  case (den_mapped u v)
  then show ?case by (auto elim: denotes.cases)
next
  case (den_leaf u v)
  then show ?case by (auto elim: denotes.cases)
next
  case (den_gate u vs v)
  from den_gate.prems obtain ws where ws: "list_all2 (denotes S cat c pm) (getWires c u) ws"
    "gate_op_ref S cat c u ws = Inr w"
    using den_gate.hyps(1,3) by (cases rule: denotes.cases) auto
  have "vs = ws"
    by (rule list_all2_unique[OF _ ws(1)]) (rule list_all2_mono[OF den_gate.IH], blast)
  with den_gate.hyps ws show ?case by simp
qed

section \<open>The loop computes the specification\<close>

text \<open>The memo table extends the given mapping, and every entry is a value of the specification.\<close>

definition consistent ::
  "'s semiring \<Rightarrow> catalog \<Rightarrow> generic_circuit \<Rightarrow> (gate_t \<rightharpoonup> 's) \<Rightarrow> (gate_t \<rightharpoonup> 's) \<Rightarrow> bool" where
  "consistent S cat c pm0 pm \<longleftrightarrow>
     (\<forall>u v. pm0 u = Some v \<longrightarrow> pm u = Some v) \<and> (\<forall>u v. pm u = Some v \<longrightarrow> denotes S cat c pm0 u v)"

lemma consistent_refl: "consistent S cat c pm pm"
  by (auto simp: consistent_def intro: den_mapped)

lemma consistent_update:
  "consistent S cat c pm0 pm \<Longrightarrow> pm u = None \<Longrightarrow> denotes S cat c pm0 u v \<Longrightarrow> consistent S cat c pm0 (pm(u \<mapsto> v))"
  by (auto simp: consistent_def)

lemma eval_loop_Nil [simp]: "eval_loop S cat c [] pm = Some (Inr pm)"
  by (subst eval_loop.simps) simp

lemma eval_loop_Popped: "visit S cat c pm u = Inr Popped \<Longrightarrow> eval_loop S cat c (u # stk) pm = eval_loop S cat c stk pm"
  by (subst eval_loop.simps) simp

lemma eval_loop_Emplace:
  "visit S cat c pm u = Inr (Emplace v) \<Longrightarrow> eval_loop S cat c (u # stk) pm = eval_loop S cat c stk (pm(u \<mapsto> v))"
  by (subst eval_loop.simps) simp

lemma eval_loop_Push:
  "visit S cat c pm u = Inr (Push cs) \<Longrightarrow>
   eval_loop S cat c (u # stk) pm = eval_loop S cat c (rev cs @ u # stk) pm"
  by (subst eval_loop.simps) simp

lemma eval_loop_Inl: "visit S cat c pm u = Inl e \<Longrightarrow> eval_loop S cat c (u # stk) pm = Some (Inl e)"
  by (subst eval_loop.simps) simp

text \<open>"Processing u from a consistent table reaches a consistent table that has u".\<close>

definition processes ::
  "'s semiring \<Rightarrow> catalog \<Rightarrow> generic_circuit \<Rightarrow> (gate_t \<rightharpoonup> 's) \<Rightarrow> gate_t list \<Rightarrow> bool" where
  "processes S cat c pm0 us \<longleftrightarrow>
     (\<forall>pm stk. consistent S cat c pm0 pm \<longrightarrow>
        (\<exists>pm'. consistent S cat c pm0 pm' \<and> (\<forall>x v. pm x = Some v \<longrightarrow> pm' x = Some v) \<and>
           (\<forall>u \<in> set us. pm' u \<noteq> None) \<and> eval_loop S cat c (us @ stk) pm = eval_loop S cat c stk pm'))"

lemma processes_Nil: "processes S cat c pm0 []"
  unfolding processes_def by auto

lemma processes_Cons:
  assumes "processes S cat c pm0 [u]" "processes S cat c pm0 us"
  shows "processes S cat c pm0 (u # us)"
  unfolding processes_def
proof (intro allI impI)
  fix pm stk assume "consistent S cat c pm0 pm"
  then obtain pm1 where 1: "consistent S cat c pm0 pm1" "\<forall>x v. pm x = Some v \<longrightarrow> pm1 x = Some v" "pm1 u \<noteq> None"
    "eval_loop S cat c (u # us @ stk) pm = eval_loop S cat c (us @ stk) pm1"
    using assms(1) unfolding processes_def by (metis append_Cons append_Nil list.set_intros(1))
  then obtain pm2 where 2: "consistent S cat c pm0 pm2" "\<forall>x v. pm1 x = Some v \<longrightarrow> pm2 x = Some v"
    "\<forall>u \<in> set us. pm2 u \<noteq> None" "eval_loop S cat c (us @ stk) pm1 = eval_loop S cat c stk pm2"
    using assms(2) unfolding processes_def by metis
  from 1(3) 2(2) have "pm2 u \<noteq> None" by auto
  with 1 2 show "\<exists>pm'. consistent S cat c pm0 pm' \<and> (\<forall>x v. pm x = Some v \<longrightarrow> pm' x = Some v) \<and>
      (\<forall>u \<in> set (u # us). pm' u \<noteq> None) \<and> eval_loop S cat c ((u # us) @ stk) pm = eval_loop S cat c stk pm'"
    by (intro exI[of _ pm2]) auto
qed

lemma processes_list: "\<forall>u \<in> set us. processes S cat c pm0 [u] \<Longrightarrow> processes S cat c pm0 us"
  by (induction us) (simp_all add: processes_Nil processes_Cons)

context semiring_laws begin

lemma denotes_in:
  assumes cl: "closed_ops S D" and pm: "ran pm \<subseteq> D"
  shows "denotes S cat c pm u v \<Longrightarrow> v \<in> D"
proof (induction rule: denotes.induct)
  case (den_leaf u v)
  then show ?case using leaf_in[OF cl] by blast
next
  case (den_gate u vs v)
  have "set vs \<subseteq> D" using den_gate.IH by (auto simp: list_all2_conv_all_nth in_set_conv_nth)
  then show ?case using gate_op_ref_in[OF cl _ den_gate.hyps(5)] by blast
qed (use pm in \<open>auto simp: ran_def\<close>)

lemma denotes_list_in:
  assumes cl: "closed_ops S D" and pm: "ran pm \<subseteq> D" and den: "list_all2 (denotes S cat c pm) us vs"
  shows "set vs \<subseteq> D"
proof
  fix v assume "v \<in> set vs"
  then obtain i where i: "i < length vs" "v = vs ! i" by (auto simp: in_set_conv_nth)
  with den have "denotes S cat c pm (us ! i) v" by (simp add: list_all2_conv_all_nth)
  then show "v \<in> D" by (rule denotes_in[OF cl pm])
qed

lemma children_values:
  assumes con: "consistent S cat c pm0 pm" and all: "\<forall>w \<in> set ws. pm w \<noteq> None"
    and den: "list_all2 (denotes S cat c pm0) ws vs"
  shows "map (\<lambda>w. the (pm w)) ws = vs"
  using den all
proof (induction ws vs rule: list_all2_induct)
  case (Cons w ws v vs)
  then obtain v' where "pm w = Some v'" by auto
  moreover from this have "denotes S cat c pm0 w v'" using con by (simp add: consistent_def)
  ultimately show ?case using Cons denotes_unique[of S cat c pm0 w v v'] by simp
qed simp

lemma denotes_processes:
  assumes cl: "closed_ops S D" and pm0: "ran pm0 \<subseteq> D"
  shows "denotes S cat c pm0 u v \<Longrightarrow> pm0 u = None \<or> marker_check S c u = None \<Longrightarrow> processes S cat c pm0 [u]"
proof (induction rule: denotes.induct)
  case (den_mapped u v)
  show ?case unfolding processes_def
  proof (intro allI impI)
    fix pm stk assume con: "consistent S cat c pm0 pm"
    then have "pm u = Some v" using den_mapped by (simp add: consistent_def)
    moreover from this have "visit S cat c pm u = Inr Popped" using den_mapped by (simp add: visit_def)
    ultimately show "\<exists>pm'. consistent S cat c pm0 pm' \<and> (\<forall>x v. pm x = Some v \<longrightarrow> pm' x = Some v) \<and>
      (\<forall>u \<in> set [u]. pm' u \<noteq> None) \<and> eval_loop S cat c ([u] @ stk) pm = eval_loop S cat c stk pm'"
      using con by (intro exI[of _ pm]) (simp add: eval_loop_Popped)
  qed
next
  case (den_leaf u v)
  show ?case unfolding processes_def
  proof (intro allI impI)
    fix pm stk assume con: "consistent S cat c pm0 pm"
    show "\<exists>pm'. consistent S cat c pm0 pm' \<and> (\<forall>x v. pm x = Some v \<longrightarrow> pm' x = Some v) \<and>
      (\<forall>u \<in> set [u]. pm' u \<noteq> None) \<and> eval_loop S cat c ([u] @ stk) pm = eval_loop S cat c stk pm'"
    proof (cases "pm u")
      case None
      then have "visit S cat c pm u = Inr (Emplace v)" using den_leaf.hyps by (simp add: visit_def)
      moreover have "consistent S cat c pm0 (pm(u \<mapsto> v))"
        using consistent_update[OF con None] denotes.den_leaf[where pm = pm0 and u = u and v = v] den_leaf.hyps
        by blast
      ultimately show ?thesis using None by (intro exI[of _ "pm(u \<mapsto> v)"]) (auto simp: eval_loop_Emplace)
    next
      case (Some w)
      then have "visit S cat c pm u = Inr Popped" using den_leaf.hyps by (simp add: visit_def)
      then show ?thesis using con Some by (intro exI[of _ pm]) (simp add: eval_loop_Popped)
    qed
  qed
next
  case (den_gate u vs v)
  let ?ws = "getWires c u"
  have den: "list_all2 (denotes S cat c pm0) ?ws vs"
    by (rule list_all2_mono[OF den_gate.IH]) simp
  then have du: "denotes S cat c pm0 u v" using den_gate.hyps by (intro denotes.den_gate)
  have vsD: "set vs \<subseteq> D" by (rule denotes_list_in[OF cl pm0 den])
  have kids: "processes S cat c pm0 [w]" if "w \<in> set ?ws" "pm0 w = None" for w
    using den_gate.IH that by (auto simp: list_all2_conv_all_nth in_set_conv_nth)
  have fin: "\<exists>pm'. consistent S cat c pm0 pm' \<and> (\<forall>x v. pm x = Some v \<longrightarrow> pm' x = Some v) \<and>
      pm' u \<noteq> None \<and> eval_loop S cat c (u # stk) pm = eval_loop S cat c stk pm'"
    if con: "consistent S cat c pm0 pm" and all: "\<forall>w \<in> set ?ws. pm w \<noteq> None" for pm stk
  proof (cases "pm u")
    case None
    have "filter (\<lambda>w. pm w = None) ?ws = []" using all by (simp add: filter_empty_conv)
    moreover have "map (\<lambda>w. the (pm w)) ?ws = vs" by (rule children_values[OF con all den])
    ultimately have "visit S cat c pm u = Inr (Emplace v)"
      using None den_gate.hyps gate_op_eq[OF vsD] by (simp add: visit_def)
    then show ?thesis using None consistent_update[OF con None du]
      by (intro exI[of _ "pm(u \<mapsto> v)"]) (auto simp: eval_loop_Emplace)
  next
    case (Some w)
    then have "visit S cat c pm u = Inr Popped" using den_gate.hyps by (simp add: visit_def)
    then show ?thesis using con Some by (intro exI[of _ pm]) (simp add: eval_loop_Popped)
  qed
  show ?case unfolding processes_def
  proof (intro allI impI)
    fix pm stk assume con: "consistent S cat c pm0 pm"
    let ?ms = "filter (\<lambda>w. pm w = None) ?ws"
    show "\<exists>pm'. consistent S cat c pm0 pm' \<and> (\<forall>x v. pm x = Some v \<longrightarrow> pm' x = Some v) \<and>
      (\<forall>u \<in> set [u]. pm' u \<noteq> None) \<and> eval_loop S cat c ([u] @ stk) pm = eval_loop S cat c stk pm'"
    proof (cases "?ms = []")
      case True
      then have "\<forall>w \<in> set ?ws. pm w \<noteq> None" by (simp add: filter_empty_conv)
      from fin[OF con this, of stk] show ?thesis by simp
    next
      case ne: False
      show ?thesis
      proof (cases "pm u")
        case None
        then have push: "visit S cat c pm u = Inr (Push ?ms)" using den_gate.hyps ne by (simp add: visit_def)
        have "\<forall>w \<in> set (rev ?ms). processes S cat c pm0 [w]"
          using kids con by (auto simp: consistent_def) (metis option.exhaust)
        then have "processes S cat c pm0 (rev ?ms)" by (rule processes_list)
        with con obtain pm1 where 1: "consistent S cat c pm0 pm1" "\<forall>x v. pm x = Some v \<longrightarrow> pm1 x = Some v"
          "\<forall>w \<in> set (rev ?ms). pm1 w \<noteq> None"
          "eval_loop S cat c (rev ?ms @ u # stk) pm = eval_loop S cat c (u # stk) pm1"
          unfolding processes_def by blast
        have "\<forall>w \<in> set ?ws. pm1 w \<noteq> None"
        proof
          fix w assume "w \<in> set ?ws"
          then show "pm1 w \<noteq> None" using 1(2,3) by (cases "pm w") auto
        qed
        from fin[OF 1(1) this, of stk] obtain pm2 where 2: "consistent S cat c pm0 pm2"
          "\<forall>x v. pm1 x = Some v \<longrightarrow> pm2 x = Some v" "pm2 u \<noteq> None"
          "eval_loop S cat c (u # stk) pm1 = eval_loop S cat c stk pm2" by blast
        then show ?thesis using 1 push by (intro exI[of _ pm2]) (simp add: eval_loop_Push)
      next
        case (Some w)
        then have "visit S cat c pm u = Inr Popped" using den_gate.hyps by (simp add: visit_def)
        then show ?thesis using con Some by (intro exI[of _ pm]) (simp add: eval_loop_Popped)
      qed
    qed
  qed
qed

lemma evaluate_complete:
  assumes cl: "closed_ops S D" and pm0: "ran pm0 \<subseteq> D"
    and den: "denotes S cat c pm0 g v" and mk: "pm0 g = None \<or> marker_check S c g = None"
  shows "\<exists>pm'. evaluate S cat c g pm0 = Some (Inr (v, pm')) \<and> consistent S cat c pm0 pm'"
proof -
  have "\<exists>pm'. consistent S cat c pm0 pm' \<and> (\<forall>x v. pm0 x = Some v \<longrightarrow> pm' x = Some v) \<and>
      (\<forall>u \<in> set [g]. pm' u \<noteq> None) \<and> eval_loop S cat c ([g] @ []) pm0 = eval_loop S cat c [] pm'"
    using denotes_processes[OF cl pm0 den mk] consistent_refl[of S cat c pm0] unfolding processes_def by blast
  then obtain pm' where pm': "consistent S cat c pm0 pm'" "pm' g \<noteq> None" "eval_loop S cat c [g] pm0 = Some (Inr pm')"
    by auto
  then obtain w where w: "pm' g = Some w" by auto
  with pm'(1) have "denotes S cat c pm0 g w" by (simp add: consistent_def)
  with den have "w = v" by (rule denotes_unique[symmetric])
  with pm' w show ?thesis by (simp add: evaluate_def)
qed

lemma visit_sound:
  assumes cl: "closed_ops S D" and pm0: "ran pm0 \<subseteq> D" and con: "consistent S cat c pm0 pm"
    and v: "visit S cat c pm u = Inr (Emplace v)"
  shows "pm u = None \<and> denotes S cat c pm0 u v"
proof -
  have mk: "marker_check S c u = None" and no: "pm u = None"
    using v by (auto simp: visit_def split: option.splits if_splits)
  then have no0: "pm0 u = None" using con by (cases "pm0 u") (auto simp: consistent_def)
  show ?thesis
  proof (cases "leaf_value S c u")
    case (Some r)
    with v mk no have "r = Inr v" by (auto simp: visit_def bind_result_Inr_iff)
    with Some mk no no0 show ?thesis by (simp add: denotes.den_leaf)
  next
    case None
    let ?vs = "map (\<lambda>w. the (pm w)) (getWires c u)"
    from v mk no None have en: "entry_check S cat c u = None"
      by (auto simp: visit_def split: option.splits)
    with v mk no None have all: "\<forall>w \<in> set (getWires c u). pm w \<noteq> None" and op: "gate_op S cat c u ?vs = Inr v"
      by (auto simp: visit_def Let_def bind_result_Inr_iff filter_empty_conv split: if_splits)
    then have den: "list_all2 (denotes S cat c pm0) (getWires c u) ?vs"
      using con by (auto simp: consistent_def list_all2_conv_all_nth)
    have vsD: "set ?vs \<subseteq> D" by (rule denotes_list_in[OF cl pm0 den])
    have op': "gate_op_ref S cat c u ?vs = Inr v" using op gate_op_eq[OF vsD] by simp
    from no denotes.den_gate[OF no0 mk None en den op'] show ?thesis by simp
  qed
qed

end

lemma visit_marker: "visit S cat c pm u = Inr r \<Longrightarrow> marker_check S c u = None"
  by (auto simp: visit_def split: option.splits)

lemma visit_Popped: "visit S cat c pm u = Inr Popped \<Longrightarrow> pm u \<noteq> None"
  by (auto simp: visit_def Let_def bind_result_Inr_iff split: option.splits if_splits)

text \<open>What a finished run from a consistent table has established.\<close>

definition finished ::
  "'s semiring \<Rightarrow> catalog \<Rightarrow> generic_circuit \<Rightarrow> (gate_t \<rightharpoonup> 's) \<Rightarrow> gate_t list \<Rightarrow> (gate_t \<rightharpoonup> 's) \<Rightarrow> (gate_t \<rightharpoonup> 's) \<Rightarrow> bool" where
  "finished S cat c pm0 stk pm pm' \<longleftrightarrow> consistent S cat c pm0 pm' \<and> pm \<subseteq>\<^sub>m pm' \<and>
     (\<forall>u \<in> set stk. pm' u \<noteq> None \<and> marker_check S c u = None)"

definition sound_visits ::
  "'s semiring \<Rightarrow> catalog \<Rightarrow> generic_circuit \<Rightarrow> (gate_t \<rightharpoonup> 's) \<Rightarrow> bool" where
  "sound_visits S cat c pm0 \<longleftrightarrow> (\<forall>pm u v. consistent S cat c pm0 pm \<longrightarrow>
     visit S cat c pm u = Inr (Emplace v) \<longrightarrow> pm u = None \<and> denotes S cat c pm0 u v)"

lemma finished_Popped:
  assumes "finished S cat c pm0 stk pm pm'" "visit S cat c pm u = Inr Popped"
  shows "finished S cat c pm0 (u # stk) pm pm'"
proof -
  obtain v where "pm u = Some v" using visit_Popped[OF assms(2)] by auto
  with assms(1) have "pm' u = Some v" by (auto simp: finished_def map_le_def dom_def)
  then show ?thesis using assms visit_marker[OF assms(2)] by (simp add: finished_def)
qed

lemma finished_Emplace:
  assumes "finished S cat c pm0 stk (pm(u \<mapsto> v)) pm'" "visit S cat c pm u = Inr (Emplace v)" "pm u = None"
  shows "finished S cat c pm0 (u # stk) pm pm'"
proof -
  have "pm \<subseteq>\<^sub>m pm(u \<mapsto> v)" using assms(3) by (auto simp: map_le_def)
  with assms(1) have "pm \<subseteq>\<^sub>m pm'" by (auto simp: finished_def intro: map_le_trans)
  moreover have "pm' u = Some v" using assms(1) by (auto simp: finished_def map_le_def)
  ultimately show ?thesis using assms(1) visit_marker[OF assms(2)] by (simp add: finished_def)
qed

lemma eval_loop_finished:
  "eval_loop S cat c stk pm = Some r \<Longrightarrow> sound_visits S cat c pm0 \<and> consistent S cat c pm0 pm \<longrightarrow>
     (\<forall>pm'. r = Inr pm' \<longrightarrow> finished S cat c pm0 stk pm pm')"
proof (induction rule: eval_loop.raw_induct[rotated, consumes 1, case_names 1])
  case (1 f S cat c stk pm r)
  show ?case
  proof (intro impI allI, elim conjE)
    fix pm' assume sv: "sound_visits S cat c pm0" and con: "consistent S cat c pm0 pm" and r: "r = Inr pm'"
    show "finished S cat c pm0 stk pm pm'"
    proof (cases stk)
      case Nil
      with 1 r con show ?thesis by (simp add: finished_def)
    next
      case (Cons u rest)
      with 1(2) r obtain vr where v: "visit S cat c pm u = Inr vr" by (cases "visit S cat c pm u") auto
      show ?thesis
      proof (cases vr)
        case Popped
        with 1(2) Cons v have "f S cat c rest pm = Some r" by simp
        from 1(1)[OF this] r sv con have "finished S cat c pm0 rest pm pm'" by blast
        with Cons v Popped show ?thesis by (simp add: finished_Popped)
      next
        case (Emplace w)
        have d: "pm u = None \<and> denotes S cat c pm0 u w" using sv con v Emplace by (simp add: sound_visits_def)
        then have "consistent S cat c pm0 (pm(u \<mapsto> w))" using consistent_update[OF con] by blast
        moreover from 1(2) Cons v Emplace have "f S cat c rest (pm(u \<mapsto> w)) = Some r" by simp
        from 1(1)[OF this] r sv calculation have "finished S cat c pm0 rest (pm(u \<mapsto> w)) pm'" by blast
        with Cons v Emplace d show ?thesis by (simp add: finished_Emplace)
      next
        case (Push cs)
        with 1(2) Cons v have "f S cat c (rev cs @ u # rest) pm = Some r" by simp
        from 1(1)[OF this] r sv con have "finished S cat c pm0 (rev cs @ u # rest) pm pm'" by blast
        with Cons show ?thesis by (simp add: finished_def)
      qed
    qed
  qed
qed

context semiring_laws begin

lemma evaluate_sound:
  assumes cl: "closed_ops S D" and pm0: "ran pm0 \<subseteq> D"
    and ev: "evaluate S cat c g pm0 = Some (Inr (v, pm'))"
  shows "denotes S cat c pm0 g v \<and> marker_check S c g = None \<and> consistent S cat c pm0 pm'"
proof -
  from ev have run: "eval_loop S cat c [g] pm0 = Some (Inr pm')" and v: "pm' g = Some v"
    by (auto simp: evaluate_def split: option.splits sum.splits)
  have "sound_visits S cat c pm0" using visit_sound[OF cl pm0] by (simp add: sound_visits_def)
  then have "finished S cat c pm0 [g] pm0 pm'" using eval_loop_finished[OF run] consistent_refl by blast
  with v show ?thesis by (simp add: finished_def consistent_def)
qed

lemma evaluate_iff:
  assumes "closed_ops S D" "ran pm0 \<subseteq> D"
  shows "(\<exists>pm'. evaluate S cat c g pm0 = Some (Inr (v, pm'))) \<longleftrightarrow>
     denotes S cat c pm0 g v \<and> marker_check S c g = None"
  using evaluate_sound[OF assms] evaluate_complete[OF assms] by blast

end

section \<open>The evaluation theorem\<close>

definition no_catalog :: catalog where
  "no_catalog = \<lparr>cat_opname = (\<lambda>_. None), cat_func_name = (\<lambda>_. None)\<rparr>"

text \<open>C3: In a commutative semiring whose operations stay in the carrier, \<open>evaluate\<close> returns v for
  the root exactly when the root passes the marker check and the circuit denotes v there: the loop
  ends, every shortcut (dropped neutral operands, the zero short-circuit of times, the two monus
  cases) is sound, and every value memoised on the way is the value of its gate.\<close>

theorem evaluate_correct:
  assumes "semiring_laws S D" "closed_ops S D" "ran pm0 \<subseteq> D"
  shows "(\<exists>pm'. evaluate S cat c g pm0 = Some (Inr (v, pm')) \<and> pm0 \<subseteq>\<^sub>m pm' \<and>
       (\<forall>u w. pm' u = Some w \<longrightarrow> denotes S cat c pm0 u w)) \<longleftrightarrow>
     denotes S cat c pm0 g v \<and> marker_check S c g = None"
proof -
  note snd = semiring_laws.evaluate_sound[OF assms] and cmp = semiring_laws.evaluate_complete[OF assms]
  have con: "consistent S cat c pm0 pm' \<longleftrightarrow> pm0 \<subseteq>\<^sub>m pm' \<and> (\<forall>u w. pm' u = Some w \<longrightarrow> denotes S cat c pm0 u w)" for pm'
    by (auto simp: consistent_def map_le_def dom_def)
  show ?thesis using snd cmp[of cat c g v] con by blast
qed

definition eval_example :: generic_circuit where
  "eval_example = empty_circuit
     \<lparr>gates := [gate_input, gate_input, gate_plus, gate_times, gate_zero, gate_monus],
      wires := [[], [], [0, 1, 4], [2, 0], [], [3, 1]]\<rparr>"

lemma result_value: "map_option (map_sum id fst) r = Some (Inr x) \<Longrightarrow> \<exists>y. r = Some (Inr (x, y))"
  by (cases r; cases "the r") auto

lemma evaluate_correct_witness:
  "denotes CountingS no_catalog eval_example [0 \<mapsto> 2, 1 \<mapsto> 3] 5 7"
proof -
  define pm0 :: "gate_t \<rightharpoonup> 32 word" where "pm0 = [0 \<mapsto> 2, 1 \<mapsto> 3]"
  have cl: "closed_ops CountingS UNIV" by (simp add: closed_ops_def)
  have "map_option (map_sum id fst) (evaluate CountingS no_catalog eval_example 5 [0 \<mapsto> 2, 1 \<mapsto> 3])
      = Some (Inr 7)"
    by code_simp
  then have "map_option (map_sum id fst) (evaluate CountingS no_catalog eval_example 5 pm0) = Some (Inr 7)"
    unfolding pm0_def .
  from result_value[OF this]
  obtain pm' where ev: "evaluate CountingS no_catalog eval_example 5 pm0 = Some (Inr (7, pm'))" by (elim exE)
  from semiring_laws.evaluate_sound[OF counting.semiring_laws_axioms cl subset_UNIV ev]
  have "pm0 \<subseteq>\<^sub>m pm' \<and> (\<forall>u w. pm' u = Some w \<longrightarrow> denotes CountingS no_catalog eval_example pm0 u w)"
    by (auto simp: consistent_def map_le_def dom_def)
  with ev have "denotes CountingS no_catalog eval_example pm0 5 7 \<and> marker_check CountingS eval_example 5 = None"
    using evaluate_correct[OF counting.semiring_laws_axioms cl subset_UNIV, THEN iffD1] by blast
  then show ?thesis by (simp add: pm0_def)
qed

end
