(* ===== verification/Folding.thy ===== *)
theory Folding
  imports GenericEval "HOL-Library.Sublist"
begin

text \<open>
  The load-time folding of \<open>src/GenericCircuit.cpp\<close>: \<open>foldSemiringIdentities\<close> (identity wires
  dropped, singleton gates collapsed, parents rewired to the collapse target, the UUID map patched),
  the class-gated rule sweep \<open>applyFoldRuleSweep\<close> and the two joint fixpoints.

  The hash maps \<open>subst\<close> and \<open>redirect\<close> are partial functions; the code resolves their entries in an
  unspecified order while it updates them, which has the same result as chasing every entry through
  the original maps.  Loops that could run forever are \<open>partial_function\<close>s.  The theorems: on an
  acyclic circuit all three passes end, and they keep the value of every UUID in the semirings they
  are meant for.
\<close>

section \<open>Dropping identity wires\<close>

definition is_pt :: "gate_type \<Rightarrow> bool" where
  "is_pt t \<longleftrightarrow> t = gate_times \<or> t = gate_plus"

definition identity_type :: "gate_type \<Rightarrow> gate_type" where
  "identity_type t = (if t = gate_times then gate_one else gate_zero)"

text \<open>One loop over the gates, the current circuit passed on, with the flag "something changed".\<close>

fun sweep :: "(gate_t \<Rightarrow> generic_circuit \<Rightarrow> generic_circuit \<times> bool) \<Rightarrow> gate_t list \<Rightarrow> generic_circuit \<Rightarrow> generic_circuit \<times> bool" where
  "sweep f [] c = (c, False)"
| "sweep f (g # gs) c = (let (c1, b1) = f g c; (c2, b2) = sweep f gs c1 in (c2, b1 \<or> b2))"

definition drop_identities :: "gate_t \<Rightarrow> generic_circuit \<Rightarrow> generic_circuit \<times> bool" where
  "drop_identities g c =
     (let t = getGateType c g in
      if \<not> is_pt t then (c, False)
      else (let kept = filter (\<lambda>w. getGateType c w \<noteq> identity_type t) (getWires c g);
                shrunk = length kept \<noteq> length (getWires c g);
                c1 = (if shrunk then setWires c g kept else c)
            in if getWires c1 g = [] then (setGateType c1 g (identity_type t), True) else (c1, shrunk)))"

section \<open>Collapse targets\<close>

definition collapse_target :: "generic_circuit \<Rightarrow> (gate_t \<rightharpoonup> gate_t) \<Rightarrow> gate_t \<Rightarrow> gate_t option" where
  "collapse_target c redirect g =
     (if redirect g \<noteq> None \<or> \<not> is_pt (getGateType c g) then None
      else (case (if getGateType c g = gate_times
                  then List.find (\<lambda>w. getGateType c w = gate_zero) (getWires c g) else None) of
              Some w \<Rightarrow> Some w
            | None \<Rightarrow> if length (getWires c g) = 1 then Some (getWires c g ! 0) else None))"

partial_function (option) chase :: "(gate_t \<rightharpoonup> gate_t) \<Rightarrow> gate_t \<Rightarrow> gate_t option" where
  "chase next_of g = (case next_of g of None \<Rightarrow> Some g | Some h \<Rightarrow> chase next_of h)"

declare chase.simps [code]

fun resolve :: "(gate_t \<rightharpoonup> gate_t) \<Rightarrow> (gate_t \<rightharpoonup> gate_t) \<Rightarrow> gate_t list \<Rightarrow> (gate_t \<rightharpoonup> gate_t) option" where
  "resolve next_of m [] = Some Map.empty"
| "resolve next_of m (g # gs) = (case m g of
     None \<Rightarrow> resolve next_of m gs
   | Some h \<Rightarrow> (case chase next_of h of None \<Rightarrow> None
        | Some t \<Rightarrow> map_option (\<lambda>r. r(g \<mapsto> t)) (resolve next_of m gs)))"

definition rewire :: "(gate_t \<rightharpoonup> gate_t) \<Rightarrow> generic_circuit \<Rightarrow> generic_circuit" where
  "rewire s c = c\<lparr>wires := map (map (\<lambda>w. case s w of None \<Rightarrow> w | Some t \<Rightarrow> t)) (wires c)\<rparr>"

definition rewires :: "(gate_t \<rightharpoonup> gate_t) \<Rightarrow> generic_circuit \<Rightarrow> bool" where
  "rewires s c \<longleftrightarrow> (\<exists>ws \<in> set (wires c). \<exists>w \<in> set ws. s w \<noteq> None)"

section \<open>foldSemiringIdentities\<close>

text \<open>One iteration of the \<open>while\<close> loop: the new circuit, the new \<open>redirect\<close> and \<open>changed\<close>.\<close>

definition fold_round ::
  "generic_circuit \<Rightarrow> (gate_t \<rightharpoonup> gate_t) \<Rightarrow> (generic_circuit \<times> (gate_t \<rightharpoonup> gate_t) \<times> bool) option" where
  "fold_round c redirect =
     (let (c1, changed) = sweep drop_identities [0..<getNbGates c] c;
          m = (\<lambda>g. if g < getNbGates c then collapse_target c1 redirect g else None)
      in map_option (\<lambda>s. (rewire s c1, redirect ++ s, changed \<or> rewires s c1))
           (resolve (redirect ++ m) m [0..<getNbGates c]))"

partial_function (option) fold_loop ::
  "generic_circuit \<Rightarrow> (gate_t \<rightharpoonup> gate_t) \<Rightarrow> bool \<Rightarrow> (generic_circuit \<times> (gate_t \<rightharpoonup> gate_t) \<times> bool) option" where
  "fold_loop c redirect ever = (case fold_round c redirect of
     None \<Rightarrow> None
   | Some (c', redirect', changed) \<Rightarrow>
       if changed then fold_loop c' redirect' True else Some (c', redirect', ever))"

declare fold_loop.simps [code]

text \<open>The patch of the UUID map and of the assumption markers after the loop.\<close>

definition patch_gate :: "(gate_t \<rightharpoonup> gate_t) \<Rightarrow> gate_t \<Rightarrow> generic_circuit \<Rightarrow> generic_circuit" where
  "patch_gate r g c = (case r g of
     None \<Rightarrow> c
   | Some t \<Rightarrow>
       (let c1 = (case id2uuid c g of None \<Rightarrow> c | Some u \<Rightarrow> c\<lparr>uuid2id := (uuid2id c)(u \<mapsto> t)\<rparr>);
            c2 = (if g \<in> boolean_assumed_gates c1 then c1\<lparr>boolean_assumed_gates := insert t (boolean_assumed_gates c1)\<rparr> else c1)
        in if g \<in> absorptive_assumed_gates c2
           then c2\<lparr>absorptive_assumed_gates := insert t (absorptive_assumed_gates c2)\<rparr> else c2))"

definition patch :: "(gate_t \<rightharpoonup> gate_t) \<Rightarrow> generic_circuit \<Rightarrow> generic_circuit" where
  "patch r c = fold (patch_gate r) [0..<getNbGates c] c"

definition foldSemiringIdentities :: "generic_circuit \<Rightarrow> (generic_circuit \<times> bool) option" where
  "foldSemiringIdentities c = (case fold_loop c Map.empty False of
     None \<Rightarrow> None
   | Some (c', redirect, ever) \<Rightarrow>
       map_option (\<lambda>r. (patch r c', ever)) (resolve redirect redirect [0..<getNbGates c']))"

section \<open>The class-gated rules\<close>

text \<open>The first occurrence of every wire, in order.\<close>

fun dedup :: "gate_t list \<Rightarrow> gate_t list \<Rightarrow> gate_t list" where
  "dedup seen [] = []"
| "dedup seen (w # ws) = (if w \<in> set seen then dedup seen ws else w # dedup (w # seen) ws)"

definition rule_idempotence :: "bool \<Rightarrow> gate_type \<Rightarrow> gate_t \<Rightarrow> generic_circuit \<Rightarrow> generic_circuit \<times> bool" where
  "rule_idempotence boolean_level t g c =
     (if (t = gate_plus \<or> boolean_level) \<and> length (dedup [] (getWires c g)) \<noteq> length (getWires c g)
      then (setWires c g (dedup [] (getWires c g)), True) else (c, False))"

definition rule_plus_one :: "gate_type \<Rightarrow> gate_t \<Rightarrow> generic_circuit \<Rightarrow> generic_circuit \<times> bool" where
  "rule_plus_one t g c =
     (if t = gate_plus \<and> (\<exists>w \<in> set (getWires c g). getGateType c w = gate_one)
      then (erase_meta g (setWires (setGateType c g gate_one) g []), True) else (c, False))"

definition absorbed_wire :: "gate_type \<Rightarrow> generic_circuit \<Rightarrow> gate_t list \<Rightarrow> gate_t \<Rightarrow> bool" where
  "absorbed_wire t c siblings w \<longleftrightarrow>
     getGateType c w = (if t = gate_plus then gate_times else gate_plus) \<and>
     (\<exists>x \<in> set (getWires c w). x \<noteq> w \<and> x \<in> set siblings)"

definition rule_absorption :: "bool \<Rightarrow> gate_type \<Rightarrow> gate_t \<Rightarrow> generic_circuit \<Rightarrow> generic_circuit \<times> bool" where
  "rule_absorption boolean_level t g c =
     (let ws = getWires c g in
      if (t = gate_plus \<or> boolean_level) \<and> length ws \<ge> 2 \<and> (\<exists>w \<in> set ws. absorbed_wire t c ws w)
      then (setWires c g (filter (\<lambda>w. \<not> absorbed_wire t c ws w) ws), True) else (c, False))"

definition fold_rules :: "bool \<Rightarrow> gate_t \<Rightarrow> generic_circuit \<Rightarrow> generic_circuit \<times> bool" where
  "fold_rules boolean_level g c =
     (let t = getGateType c g in
      if \<not> is_pt t then (c, False)
      else (let (c1, f1) = rule_idempotence boolean_level t g c;
                (c2, f2) = rule_plus_one t g c1;
                (c3, f3) = rule_absorption boolean_level t g c2;
                absorptive_fired = f2 \<or> (t = gate_plus \<and> (f1 \<or> f3));
                boolean_fired = (t \<noteq> gate_plus \<and> (f1 \<or> f3));
                c4 = (if absorptive_fired then c3\<lparr>absorptive_assumed_gates := insert g (absorptive_assumed_gates c3)\<rparr> else c3);
                c5 = (if boolean_fired then c4\<lparr>boolean_assumed_gates := insert g (boolean_assumed_gates c4)\<rparr> else c4)
            in (c5, absorptive_fired \<or> boolean_fired)))"

definition applyFoldRuleSweep :: "bool \<Rightarrow> generic_circuit \<Rightarrow> generic_circuit \<times> bool" where
  "applyFoldRuleSweep boolean_level c = sweep (fold_rules boolean_level) [0..<getNbGates c] c"

partial_function (option) fold_class :: "bool \<Rightarrow> generic_circuit \<Rightarrow> generic_circuit option" where
  "fold_class boolean_level c =
     (let (c1, b1) = applyFoldRuleSweep boolean_level c in
      case foldSemiringIdentities c1 of
        None \<Rightarrow> None
      | Some (c2, b2) \<Rightarrow> if b1 \<or> b2 then fold_class boolean_level c2 else Some c2)"

declare fold_class.simps [code]

definition foldBooleanIdentities :: "generic_circuit \<Rightarrow> generic_circuit option" where
  "foldBooleanIdentities = fold_class True"

definition foldAbsorptiveIdentities :: "generic_circuit \<Rightarrow> generic_circuit option" where
  "foldAbsorptiveIdentities = fold_class False"

section \<open>The passes end on acyclic circuits\<close>

text \<open>A circuit whose wires go down in a rank, and the weight every productive step lowers.\<close>

definition ranked :: "(gate_t \<Rightarrow> nat) \<Rightarrow> generic_circuit \<Rightarrow> bool" where
  "ranked rk c \<longleftrightarrow> length (wires c) = length (gates c) \<and>
     (\<forall>g < length (gates c). \<forall>w \<in> set (wires c ! g). w < length (gates c) \<and> rk w < rk g)"

definition wire_weight :: "(gate_t \<Rightarrow> nat) \<Rightarrow> gate_t list \<Rightarrow> nat" where
  "wire_weight rk ws = sum_list (map (\<lambda>w. rk w + 1) ws)"

definition weight :: "(gate_t \<Rightarrow> nat) \<Rightarrow> generic_circuit \<Rightarrow> nat" where
  "weight rk c = sum_list (map (wire_weight rk) (wires c)) + sum_list (map (\<lambda>t. if is_pt t then 1 else 0) (gates c))"

definition shrinks :: "(gate_t \<Rightarrow> nat) \<Rightarrow> generic_circuit \<Rightarrow> generic_circuit \<times> bool \<Rightarrow> bool" where
  "shrinks rk c cb \<longleftrightarrow> ranked rk (fst cb) \<and> length (gates (fst cb)) = length (gates c) \<and>
     weight rk (fst cb) \<le> weight rk c \<and> (snd cb \<longrightarrow> weight rk (fst cb) < weight rk c)"

lemma shrinks_refl [intro]: "ranked rk c \<Longrightarrow> shrinks rk c (c, False)"
  by (simp add: shrinks_def)

lemma shrinks_trans:
  "shrinks rk c (c1, b1) \<Longrightarrow> shrinks rk c1 (c2, b2) \<Longrightarrow> shrinks rk c (c2, b1 \<or> b2)"
  by (auto simp: shrinks_def)

lemma sweep_shrinks:
  assumes "\<And>g c. g \<in> set gs \<Longrightarrow> ranked rk c \<Longrightarrow> length (gates c) = n \<Longrightarrow> shrinks rk c (f g c)"
    and "ranked rk c" "length (gates c) = n"
  shows "shrinks rk c (sweep f gs c)"
  using assms
proof (induction gs arbitrary: c)
  case (Cons g gs)
  obtain c1 b1 where 1: "f g c = (c1, b1)" by fastforce
  obtain c2 b2 where 2: "sweep f gs c1 = (c2, b2)" by fastforce
  have s1: "shrinks rk c (c1, b1)" using Cons.prems 1 by (metis list.set_intros(1))
  then have "shrinks rk c1 (c2, b2)" using Cons.IH[of c1] Cons.prems 2 by (auto simp: shrinks_def)
  with s1 1 2 show ?case by (simp add: shrinks_trans)
qed auto

lemma sub_weight:
  "subseq xs ys \<Longrightarrow> set xs \<subseteq> set ys \<and> wire_weight rk xs \<le> wire_weight rk ys \<and>
     (length xs \<noteq> length ys \<longrightarrow> wire_weight rk xs < wire_weight rk ys)"
proof (induction rule: list_emb.induct)
  case (list_emb_Nil ys)
  then show ?case by (cases ys) (simp_all add: wire_weight_def)
qed (auto simp: wire_weight_def)

lemma dedup_subseq: "subseq (dedup seen ws) ws"
  by (induction seen ws rule: dedup.induct) auto

lemma dedup_set: "set (dedup seen ws) \<union> set seen = set ws \<union> set seen"
  by (induction seen ws rule: dedup.induct) auto

lemma sum_list_update_le:
  fixes f :: "'a \<Rightarrow> nat"
  assumes "g < length xs" "f y \<le> f (xs ! g)"
  shows "sum_list (map f (xs[g := y])) \<le> sum_list (map f xs)"
    and "f y < f (xs ! g) \<Longrightarrow> sum_list (map f (xs[g := y])) < sum_list (map f xs)"
proof -
  have "f (xs ! g) \<le> sum_list (map f xs)"
    using member_le_sum_list[of "f (xs ! g)" "map f xs"] assms(1) by simp
  with assms show "sum_list (map f (xs[g := y])) \<le> sum_list (map f xs)"
    "f y < f (xs ! g) \<Longrightarrow> sum_list (map f (xs[g := y])) < sum_list (map f xs)"
    using sum_list_update[of g "map f xs" "f y"] by (simp_all add: map_update)
qed

lemma setWires_shrinks:
  assumes "ranked rk c" "g < length (gates c)" "subseq ws (getWires c g)"
  shows "shrinks rk c (setWires c g ws, length ws \<noteq> length (getWires c g))"
proof -
  have l: "g < length (wires c)" using assms by (simp add: ranked_def)
  note sw = sub_weight[OF assms(3), of rk, unfolded getWires_def]
  have "ranked rk (setWires c g ws)"
    using assms sw by (auto simp: ranked_def setWires_def nth_list_update)
  moreover have "weight rk (setWires c g ws) \<le> weight rk c"
    using sum_list_update_le(1)[OF l, of "wire_weight rk" ws] sw by (simp add: weight_def setWires_def)
  moreover have "length ws \<noteq> length (getWires c g) \<Longrightarrow> weight rk (setWires c g ws) < weight rk c"
    using sum_list_update_le(2)[OF l, of "wire_weight rk" ws] sw
    by (simp add: weight_def setWires_def getWires_def)
  ultimately show ?thesis by (simp add: shrinks_def setWires_def)
qed

lemma setGateType_shrinks:
  assumes "ranked rk c" "g < length (gates c)" "is_pt (getGateType c g)" "\<not> is_pt t"
  shows "shrinks rk c (setGateType c g t, True)"
proof -
  have "weight rk (setGateType c g t) < weight rk c"
    using sum_list_update_le(2)[OF assms(2), of "\<lambda>t. if is_pt t then 1 else 0" t] assms(3,4)
    by (simp add: weight_def setGateType_def getGateType_def)
  with assms show ?thesis by (simp add: shrinks_def ranked_def setGateType_def)
qed

lemma identity_not_pt [simp]: "\<not> is_pt (identity_type t)"
  by (simp add: is_pt_def identity_type_def)

lemma getGateType_setWires [simp]: "getGateType (setWires c g ws) u = getGateType c u"
  by (simp add: getGateType_def setWires_def)

lemma getWires_setGateType [simp]: "getWires (setGateType c g t) u = getWires c u"
  by (simp add: getWires_def setGateType_def)

lemma drop_identities_shrinks:
  assumes "ranked rk c" "g < length (gates c)"
  shows "shrinks rk c (drop_identities g c)"
proof (cases "is_pt (getGateType c g)")
  case True
  define kept where "kept = filter (\<lambda>w. getGateType c w \<noteq> identity_type (getGateType c g)) (getWires c g)"
  define b where "b \<longleftrightarrow> length kept \<noteq> length (getWires c g)"
  define c1 where "c1 = (if b then setWires c g kept else c)"
  have d: "drop_identities g c = (if getWires c1 g = [] then (setGateType c1 g (identity_type (getGateType c g)), True) else (c1, b))"
    using True by (simp add: drop_identities_def Let_def kept_def b_def c1_def)
  have s1: "shrinks rk c (c1, b)"
  proof (cases b)
    case True
    then have "c1 = setWires c g kept" by (simp add: c1_def)
    moreover have "shrinks rk c (setWires c g kept, length kept \<noteq> length (getWires c g))"
      by (rule setWires_shrinks[OF assms]) (simp add: kept_def)
    ultimately show ?thesis by (simp add: b_def)
  qed (use assms in \<open>simp add: c1_def shrinks_refl\<close>)
  have "shrinks rk c1 (setGateType c1 g (identity_type (getGateType c g)), True)"
    by (rule setGateType_shrinks) (use s1 assms True in \<open>auto simp: shrinks_def c1_def\<close>)
  from shrinks_trans[OF s1 this] s1 show ?thesis by (simp add: d)
qed (use assms in \<open>auto simp: drop_identities_def\<close>)

text \<open>Chasing a map that goes down in the rank.\<close>

definition goes_down :: "(gate_t \<Rightarrow> nat) \<Rightarrow> nat \<Rightarrow> (gate_t \<rightharpoonup> gate_t) \<Rightarrow> bool" where
  "goes_down rk n m \<longleftrightarrow> (\<forall>g h. m g = Some h \<longrightarrow> g < n \<and> h < n \<and> rk h < rk g)"

lemma goes_downD: "goes_down rk n m \<Longrightarrow> m g = Some h \<Longrightarrow> g < n \<and> h < n \<and> rk h < rk g"
  by (simp add: goes_down_def)

lemma chase_end: "m g = None \<Longrightarrow> chase m g = Some g"
  by (subst chase.simps) simp

lemma chase_step: "m g = Some h \<Longrightarrow> chase m g = chase m h"
  by (subst chase.simps) simp

lemma chase_ends:
  assumes m: "goes_down rk n m"
  shows "\<exists>t. chase m g = Some t \<and> m t = None \<and> (t = g \<or> t < n \<and> rk t < rk g)"
proof (induction "rk g" arbitrary: g rule: less_induct)
  case less
  show ?case
  proof (cases "m g")
    case None
    then show ?thesis by (simp add: chase_end)
  next
    case (Some h)
    then have h: "h < n" "rk h < rk g" using goes_downD[OF m] by auto
    with less[of h] chase_step[of m g h] Some show ?thesis by auto
  qed
qed

lemma chase_invariant:
  assumes m: "goes_down rk n m" and P: "\<And>g h. m g = Some h \<Longrightarrow> P g \<Longrightarrow> P h"
  shows "P g \<Longrightarrow> chase m g = Some t \<Longrightarrow> P t"
proof (induction "rk g" arbitrary: g rule: less_induct)
  case less
  show ?case
  proof (cases "m g")
    case None
    with less show ?thesis by (simp add: chase_end)
  next
    case (Some h)
    with less(1)[of h] goes_downD[OF m] P less(2,3) chase_step[of m g h] show ?thesis by auto
  qed
qed

lemma resolve_total:
  assumes "goes_down rk n next_of"
  shows "\<exists>s. resolve next_of m gs = Some s \<and>
    (\<forall>g. s g = (if g \<in> set gs then (case m g of None \<Rightarrow> None | Some h \<Rightarrow> chase next_of h) else None))"
proof (induction gs)
  case (Cons g gs)
  then obtain s where s: "resolve next_of m gs = Some s"
    "\<And>x. s x = (if x \<in> set gs then (case m x of None \<Rightarrow> None | Some h \<Rightarrow> chase next_of h) else None)"
    by blast
  show ?case
  proof (cases "m g")
    case None
    with s show ?thesis by auto
  next
    case (Some h)
    obtain t where "chase next_of h = Some t" using chase_ends[OF assms] by blast
    with Some s show ?thesis by auto
  qed
qed simp

lemma collapse_targetD:
  assumes "collapse_target c redirect g = Some h"
  shows "redirect g = None \<and> is_pt (getGateType c g) \<and> h \<in> set (getWires c g) \<and>
    (getGateType c g = gate_times \<and> getGateType c h = gate_zero \<or> getWires c g = [h])"
  using assms
  by (auto simp: collapse_target_def find_Some_iff length_Suc_conv split: if_splits option.splits)

lemma rewire_shrinks:
  assumes r: "ranked rk c" and s: "\<And>w t. s w = Some t \<Longrightarrow> t < length (gates c) \<and> rk t < rk w"
  shows "shrinks rk c (rewire s c, rewires s c)"
proof -
  let ?f = "\<lambda>w. case s w of None \<Rightarrow> w | Some t \<Rightarrow> t"
  define f where "f = ?f"
  have f: "rk (f w) \<le> rk w \<and> (s w \<noteq> None \<longrightarrow> rk (f w) < rk w)" for w
    using s[of w] by (cases "s w") (auto simp: f_def)
  have le: "wire_weight rk (map ?f ws) \<le> wire_weight rk ws" for ws
    unfolding f_def[symmetric] by (induction ws) (simp_all add: wire_weight_def add_mono f)
  have lt: "wire_weight rk (map ?f ws) < wire_weight rk ws" if "w \<in> set ws" "s w \<noteq> None" for w ws
    using that
  proof (induction ws)
    case (Cons x ws)
    have "wire_weight rk (map f ws) \<le> wire_weight rk ws" unfolding f_def by (rule le)
    with Cons f[of x] show ?case unfolding f_def[symmetric] by (auto simp: wire_weight_def)
  qed simp
  have W: "sum_list (map (wire_weight rk) (map (map ?f) wss)) \<le> sum_list (map (wire_weight rk) wss)" for wss
    by (induction wss) (auto intro!: add_mono le)
  have W': "sum_list (map (wire_weight rk) (map (map ?f) wss)) < sum_list (map (wire_weight rk) wss)"
    if "ws \<in> set wss" "w \<in> set ws" "s w \<noteq> None" for ws w wss
    using that(1)
  proof (induction wss)
    case (Cons vs wss)
    have "wire_weight rk (map ?f vs) \<le> wire_weight rk vs" by (rule le)
    moreover have "sum_list (map (wire_weight rk) (map (map ?f) wss)) \<le> sum_list (map (wire_weight rk) wss)" by (rule W)
    moreover have "ws = vs \<Longrightarrow> wire_weight rk (map ?f vs) < wire_weight rk vs" using lt that(2,3) by blast
    ultimately show ?case using Cons by fastforce
  qed simp
  have "w < length (gates c) \<and> rk w < rk g" if g: "g < length (gates c)" and w: "w \<in> set (map ?f (wires c ! g))" for g w
  proof -
    from w obtain x where x: "x \<in> set (wires c ! g)" "w = ?f x" by auto
    with r g have "x < length (gates c)" "rk x < rk g" by (auto simp: ranked_def)
    with x s[of x] show ?thesis by (cases "s x") auto
  qed
  then have "\<forall>g < length (gates c). \<forall>w \<in> set (map ?f (wires c ! g)). w < length (gates c) \<and> rk w < rk g" by blast
  moreover have l: "length (wires c) = length (gates c)" using r by (simp add: ranked_def)
  ultimately have "ranked rk (rewire s c)" unfolding ranked_def rewire_def by simp
  moreover have "weight rk (rewire s c) \<le> weight rk c" using W by (simp add: weight_def rewire_def)
  moreover have "weight rk (rewire s c) < weight rk c" if "rewires s c"
  proof -
    from that obtain ws w where "ws \<in> set (wires c)" "w \<in> set ws" "s w \<noteq> None" unfolding rewires_def by blast
    from W'[OF this] show ?thesis by (simp add: weight_def rewire_def)
  qed
  ultimately show ?thesis by (simp add: shrinks_def rewire_def)
qed

text \<open>One round: the collapse map it resolves, and what it does to the circuit.\<close>

definition dropped :: "generic_circuit \<Rightarrow> generic_circuit" where
  "dropped c = fst (sweep drop_identities [0..<getNbGates c] c)"

definition collapses :: "generic_circuit \<Rightarrow> (gate_t \<rightharpoonup> gate_t) \<Rightarrow> gate_t \<rightharpoonup> gate_t" where
  "collapses c redirect g = (if g < getNbGates c then collapse_target (dropped c) redirect g else None)"

definition ends :: "(gate_t \<rightharpoonup> gate_t) \<Rightarrow> (gate_t \<rightharpoonup> gate_t) \<Rightarrow> gate_t \<rightharpoonup> gate_t" where
  "ends next_of m g = (case m g of None \<Rightarrow> None | Some h \<Rightarrow> chase next_of h)"

lemma dropped_shrinks:
  "ranked rk c \<Longrightarrow> shrinks rk c (dropped c, snd (sweep drop_identities [0..<getNbGates c] c))"
  unfolding dropped_def prod.collapse
  by (rule sweep_shrinks[where n = "getNbGates c"]) (auto simp: getNbGates_def intro: drop_identities_shrinks)

lemma collapses_down:
  assumes "ranked rk c"
  shows "goes_down rk (length (gates c)) (collapses c redirect)"
  unfolding goes_down_def
proof (intro allI impI)
  fix g h assume "collapses c redirect g = Some h"
  then have g: "g < length (gates c)" and h: "collapse_target (dropped c) redirect g = Some h"
    unfolding collapses_def getNbGates_def by (meson option.distinct(1))+
  have l: "length (gates (dropped c)) = length (gates c)"
    and down: "\<forall>g < length (gates (dropped c)). \<forall>w \<in> set (wires (dropped c) ! g). w < length (gates (dropped c)) \<and> rk w < rk g"
    using dropped_shrinks[OF assms] unfolding shrinks_def ranked_def fst_conv by blast+
  have "h \<in> set (wires (dropped c) ! g)" using collapse_targetD[OF h] by (simp add: getWires_def)
  with down g l show "g < length (gates c) \<and> h < length (gates c) \<and> rk h < rk g" by simp
qed

lemma goes_down_add: "goes_down rk n m \<Longrightarrow> goes_down rk n m' \<Longrightarrow> goes_down rk n (m ++ m')"
  by (auto simp: goes_down_def map_add_def split: option.splits)

lemma ends_down:
  assumes "goes_down rk n next_of" "goes_down rk n m"
  shows "goes_down rk n (ends next_of m)"
  unfolding goes_down_def
proof (intro allI impI)
  fix g t assume "ends next_of m g = Some t"
  then obtain h where h: "m g = Some h" "chase next_of h = Some t" by (auto simp: ends_def split: option.splits)
  then have "g < n" "h < n" "rk h < rk g" using goes_downD[OF assms(2)] by auto
  with h(2) chase_ends[OF assms(1), of h] show "g < n \<and> t < n \<and> rk t < rk g" by auto
qed

lemma fold_round_eq:
  assumes "ranked rk c" "goes_down rk (length (gates c)) redirect"
  shows "fold_round c redirect = Some (rewire (ends (redirect ++ collapses c redirect) (collapses c redirect)) (dropped c),
     redirect ++ ends (redirect ++ collapses c redirect) (collapses c redirect),
     snd (sweep drop_identities [0..<getNbGates c] c) \<or>
     rewires (ends (redirect ++ collapses c redirect) (collapses c redirect)) (dropped c))"
proof -
  let ?m = "collapses c redirect" and ?n = "length (gates c)"
  have m: "(\<lambda>g. if g < getNbGates c then collapse_target (dropped c) redirect g else None) = ?m"
    by (simp add: collapses_def fun_eq_iff)
  have nx: "goes_down rk ?n (redirect ++ ?m)" by (rule goes_down_add[OF assms(2) collapses_down[OF assms(1)]])
  obtain s where s: "resolve (redirect ++ ?m) ?m [0..<getNbGates c] = Some s"
    "\<forall>g. s g = (if g \<in> set [0..<getNbGates c] then (case ?m g of None \<Rightarrow> None | Some h \<Rightarrow> chase (redirect ++ ?m) h) else None)"
    using resolve_total[OF nx, of ?m] by blast
  have "s = ends (redirect ++ ?m) ?m"
  proof
    fix g show "s g = ends (redirect ++ ?m) ?m g"
      using s(2) goes_downD[OF collapses_down[OF assms(1)], of redirect g]
      by (cases "?m g") (auto simp: ends_def getNbGates_def)
  qed
  with s(1) show ?thesis
    unfolding fold_round_def Let_def case_prod_beta dropped_def[symmetric] m by simp
qed

lemma fold_round_total:
  assumes r: "ranked rk c" and d: "goes_down rk (length (gates c)) redirect"
  shows "\<exists>c' redirect' b. fold_round c redirect = Some (c', redirect', b) \<and> shrinks rk c (c', b) \<and>
    goes_down rk (length (gates c)) redirect'"
proof -
  let ?m = "collapses c redirect" let ?s = "ends (redirect ++ ?m) ?m"
  have m: "goes_down rk (length (gates c)) ?m" by (rule collapses_down[OF r])
  have s: "goes_down rk (length (gates c)) ?s" by (rule ends_down[OF goes_down_add[OF d m] m])
  have 1: "shrinks rk c (dropped c, snd (sweep drop_identities [0..<getNbGates c] c))" by (rule dropped_shrinks[OF r])
  have "shrinks rk (dropped c) (rewire ?s (dropped c), rewires ?s (dropped c))"
    by (rule rewire_shrinks) (use 1 goes_downD[OF s] in \<open>auto simp: shrinks_def\<close>)
  from shrinks_trans[OF 1 this] fold_round_eq[OF assms] goes_down_add[OF d s] show ?thesis by blast
qed

lemma fold_loop_step:
  "fold_round c r = Some (c', r', b) \<Longrightarrow>
   fold_loop c r ever = (if b then fold_loop c' r' True else Some (c', r', ever))"
  by (subst fold_loop.simps) simp

lemma fold_loop_total:
  assumes "ranked rk c" "goes_down rk (length (gates c)) redirect"
  shows "\<exists>c' redirect' b. fold_loop c redirect ever = Some (c', redirect', b) \<and>
    ranked rk c' \<and> length (gates c') = length (gates c) \<and> weight rk c' \<le> weight rk c \<and>
    (b \<longrightarrow> ever \<or> weight rk c' < weight rk c) \<and> goes_down rk (length (gates c)) redirect'"
  using assms
proof (induction "weight rk c" arbitrary: c redirect ever rule: less_induct)
  case less
  obtain c1 r1 b1 where 1: "fold_round c redirect = Some (c1, r1, b1)" "shrinks rk c (c1, b1)"
    "goes_down rk (length (gates c)) r1"
    using fold_round_total[OF less.prems] by blast
  then have s: "ranked rk c1" "length (gates c1) = length (gates c)" "weight rk c1 \<le> weight rk c"
    "b1 \<Longrightarrow> weight rk c1 < weight rk c" by (simp_all add: shrinks_def)
  show ?case
  proof (cases b1)
    case True
    from less(1)[of c1 r1 True] True s 1(3) obtain c' r' b where
      "fold_loop c1 r1 True = Some (c', r', b)" "ranked rk c'" "length (gates c') = length (gates c1)"
      "weight rk c' \<le> weight rk c1" "goes_down rk (length (gates c1)) r'" by auto
    with True s fold_loop_step[OF 1(1)] show ?thesis by (intro exI[of _ c'] exI[of _ r'] exI[of _ b]) auto
  next
    case False
    with s 1 fold_loop_step[OF 1(1)] show ?thesis by auto
  qed
qed

lemma patch_gate_fields [simp]:
  "gates (patch_gate r g c) = gates c" "wires (patch_gate r g c) = wires c" "infos (patch_gate r g c) = infos c"
  "extra (patch_gate r g c) = extra c" "id2uuid (patch_gate r g c) = id2uuid c" "prob (patch_gate r g c) = prob c"
  by (simp_all add: patch_gate_def Let_def split: option.split)

lemma fold_patch_fields [simp]:
  "gates (fold (patch_gate r) gs c) = gates c" "wires (fold (patch_gate r) gs c) = wires c"
  "infos (fold (patch_gate r) gs c) = infos c" "extra (fold (patch_gate r) gs c) = extra c"
  "id2uuid (fold (patch_gate r) gs c) = id2uuid c" "prob (fold (patch_gate r) gs c) = prob c"
  by (induction gs arbitrary: c) simp_all

lemma patch_fields [simp]:
  "gates (patch r c) = gates c" "wires (patch r c) = wires c" "infos (patch r c) = infos c"
  "extra (patch r c) = extra c" "id2uuid (patch r c) = id2uuid c" "prob (patch r c) = prob c"
  by (simp_all add: patch_def)

lemma foldSemiringIdentities_total:
  assumes r: "ranked rk c"
  shows "\<exists>c' b. foldSemiringIdentities c = Some (c', b) \<and> shrinks rk c (c', b)"
proof -
  have "goes_down rk (length (gates c)) Map.empty" by (simp add: goes_down_def)
  from fold_loop_total[OF r this, of False] obtain c1 r1 b1 where
    1: "fold_loop c Map.empty False = Some (c1, r1, b1)" "ranked rk c1" "length (gates c1) = length (gates c)"
    "weight rk c1 \<le> weight rk c" "b1 \<longrightarrow> weight rk c1 < weight rk c" "goes_down rk (length (gates c)) r1" by auto
  obtain s where "resolve r1 r1 [0..<getNbGates c1] = Some s" using resolve_total[OF 1(6)] by blast
  with 1 show ?thesis by (auto simp: foldSemiringIdentities_def shrinks_def ranked_def weight_def)
qed

lemma rule_idempotence_shrinks:
  "ranked rk c \<Longrightarrow> g < length (gates c) \<Longrightarrow> shrinks rk c (rule_idempotence bl t g c)"
  using setWires_shrinks[of rk c g "dedup [] (getWires c g)"]
  by (auto simp: rule_idempotence_def dedup_subseq)

lemma erase_meta_fields [simp]:
  "gates (erase_meta g c) = gates c" "wires (erase_meta g c) = wires c" "id2uuid (erase_meta g c) = id2uuid c"
  "boolean_assumed_gates (erase_meta g c) = boolean_assumed_gates c"
  "absorptive_assumed_gates (erase_meta g c) = absorptive_assumed_gates c"
  by (simp_all add: erase_meta_def)

lemma shrinks_same:
  "shrinks rk c (c1, b) \<Longrightarrow> gates c2 = gates c1 \<Longrightarrow> wires c2 = wires c1 \<Longrightarrow> shrinks rk c (c2, b)"
  unfolding shrinks_def ranked_def weight_def fst_conv snd_conv by metis

lemma rule_plus_one_shrinks:
  assumes "ranked rk c" "g < length (gates c)" "is_pt (getGateType c g)"
  shows "shrinks rk c (rule_plus_one t g c)"
proof (cases "t = gate_plus \<and> (\<exists>w \<in> set (getWires c g). getGateType c w = gate_one)")
  case True
  let ?c1 = "setGateType c g gate_one"
  have 1: "shrinks rk c (?c1, True)" by (rule setGateType_shrinks[OF assms]) (simp add: is_pt_def)
  have "shrinks rk ?c1 (setWires ?c1 g [], length ([] :: gate_t list) \<noteq> length (getWires ?c1 g))"
    by (rule setWires_shrinks) (use 1 assms(2) in \<open>auto simp: shrinks_def\<close>)
  from shrinks_trans[OF 1 this] have 2: "shrinks rk c (setWires ?c1 g [], True)" by simp
  have "shrinks rk c (erase_meta g (setWires ?c1 g []), True)" by (rule shrinks_same[OF 2]) simp_all
  moreover have "rule_plus_one t g c = (erase_meta g (setWires ?c1 g []), True)"
    unfolding rule_plus_one_def using True by simp
  ultimately show ?thesis by simp
next
  case False
  then have "rule_plus_one t g c = (c, False)" unfolding rule_plus_one_def by auto
  with assms show ?thesis by (simp add: shrinks_refl)
qed

lemma rule_absorption_shrinks:
  assumes "ranked rk c" "g < length (gates c)"
  shows "shrinks rk c (rule_absorption bl t g c)"
proof (cases "(t = gate_plus \<or> bl) \<and> length (getWires c g) \<ge> 2 \<and> (\<exists>w \<in> set (getWires c g). absorbed_wire t c (getWires c g) w)")
  case True
  let ?ws = "filter (\<lambda>w. \<not> absorbed_wire t c (getWires c g) w) (getWires c g)"
  have "length ?ws \<noteq> length (getWires c g)"
    using True by (auto simp: length_filter_conv_card dest: length_filter_less[of _ "getWires c g" "\<lambda>w. \<not> absorbed_wire t c (getWires c g) w"])
  with True setWires_shrinks[OF assms, of ?ws] show ?thesis by (simp add: rule_absorption_def Let_def)
next
  case False
  then have "rule_absorption bl t g c = (c, False)" unfolding rule_absorption_def Let_def by auto
  with assms show ?thesis by (simp add: shrinks_refl)
qed

lemma is_pt_after_idempotence: "getGateType (fst (rule_idempotence bl t g c)) u = getGateType c u"
  by (simp add: rule_idempotence_def)

lemma fold_rules_shrinks:
  assumes "ranked rk c" "g < length (gates c)"
  shows "shrinks rk c (fold_rules bl g c)"
proof (cases "is_pt (getGateType c g)")
  case True
  let ?t = "getGateType c g"
  obtain c1 f1 where 1: "rule_idempotence bl ?t g c = (c1, f1)" by fastforce
  obtain c2 f2 where 2: "rule_plus_one ?t g c1 = (c2, f2)" by fastforce
  obtain c3 f3 where 3: "rule_absorption bl ?t g c2 = (c3, f3)" by fastforce
  have s1: "shrinks rk c (c1, f1)" using rule_idempotence_shrinks[OF assms, of bl ?t] 1 by simp
  have "is_pt (getGateType c1 g)" using is_pt_after_idempotence[of bl ?t g c g] 1 True by simp
  then have s2: "shrinks rk c1 (c2, f2)" using rule_plus_one_shrinks[of rk c1 g ?t] s1 2 assms(2) by (simp add: shrinks_def)
  have s3: "shrinks rk c2 (c3, f3)" using rule_absorption_shrinks[of rk c2 g bl ?t] s1 s2 3 assms(2) by (simp add: shrinks_def)
  have f2: "f2 \<longrightarrow> ?t = gate_plus" using 2 by (auto simp: rule_plus_one_def split: if_splits)
  from shrinks_trans[OF shrinks_trans[OF s1 s2] s3] have "shrinks rk c (c3, (f1 \<or> f2) \<or> f3)" .
  moreover have "gates (fst (fold_rules bl g c)) = gates c3" "wires (fst (fold_rules bl g c)) = wires c3"
    "snd (fold_rules bl g c) = ((f1 \<or> f2) \<or> f3)"
    using True 1 2 3 f2 by (auto simp: fold_rules_def Let_def)
  ultimately show ?thesis using shrinks_same[of rk c c3 "(f1 \<or> f2) \<or> f3" "fst (fold_rules bl g c)"]
    by (cases "fold_rules bl g c") simp
qed (use assms in \<open>auto simp: fold_rules_def\<close>)

lemma applyFoldRuleSweep_shrinks: "ranked rk c \<Longrightarrow> shrinks rk c (applyFoldRuleSweep bl c)"
  unfolding applyFoldRuleSweep_def
  by (rule sweep_shrinks[where n = "getNbGates c"]) (auto simp: getNbGates_def intro: fold_rules_shrinks)

lemma fold_class_step:
  "applyFoldRuleSweep bl c = (c1, b1) \<Longrightarrow> foldSemiringIdentities c1 = Some (c2, b2) \<Longrightarrow>
   fold_class bl c = (if b1 \<or> b2 then fold_class bl c2 else Some c2)"
  by (subst fold_class.simps) simp

lemma fold_class_total:
  assumes "ranked rk c"
  shows "\<exists>c'. fold_class bl c = Some c' \<and> ranked rk c' \<and> length (gates c') = length (gates c) \<and> weight rk c' \<le> weight rk c"
  using assms
proof (induction "weight rk c" arbitrary: c rule: less_induct)
  case less
  obtain c1 b1 where 1: "applyFoldRuleSweep bl c = (c1, b1)" by fastforce
  have s1: "shrinks rk c (c1, b1)" using applyFoldRuleSweep_shrinks[OF less.prems, of bl] 1 by simp
  then have "ranked rk c1" by (simp add: shrinks_def)
  then obtain c2 b2 where 2: "foldSemiringIdentities c1 = Some (c2, b2)" "shrinks rk c1 (c2, b2)"
    using foldSemiringIdentities_total by blast
  have s: "shrinks rk c (c2, b1 \<or> b2)" by (rule shrinks_trans[OF s1 2(2)])
  show ?case
  proof (cases "b1 \<or> b2")
    case True
    with s have "weight rk c2 < weight rk c" "ranked rk c2" by (simp_all add: shrinks_def)
    from less(1)[OF this] obtain c' where "fold_class bl c2 = Some c'" "ranked rk c'"
      "length (gates c') = length (gates c2)" "weight rk c' \<le> weight rk c2" by blast
    with True s fold_class_step[OF 1 2(1)] show ?thesis by (auto simp: shrinks_def)
  next
    case False
    with s fold_class_step[OF 1 2(1)] show ?thesis by (auto simp: shrinks_def)
  qed
qed

text \<open>C4: On an acyclic circuit the three folding passes end, and they never add a gate or a wire
  weight: a gate collapsed in one call stays in the vectors as an orphan, so the number of gates
  and wires need not go down in a productive iteration, but the weight (ranks of the wires plus the
  number of sums and products) does.\<close>

theorem folding_terminates:
  assumes "ranked rk c"
  shows "\<exists>c1 b c2 c3. foldSemiringIdentities c = Some (c1, b) \<and> foldBooleanIdentities c = Some c2 \<and>
    foldAbsorptiveIdentities c = Some c3 \<and> weight rk c1 \<le> weight rk c \<and> weight rk c2 \<le> weight rk c \<and>
    weight rk c3 \<le> weight rk c \<and> (b \<longrightarrow> weight rk c1 < weight rk c)"
proof -
  obtain c1 b where "foldSemiringIdentities c = Some (c1, b)" "shrinks rk c (c1, b)"
    using foldSemiringIdentities_total[OF assms] by blast
  moreover obtain c2 where "fold_class True c = Some c2" "weight rk c2 \<le> weight rk c"
    using fold_class_total[OF assms] by blast
  moreover obtain c3 where "fold_class False c = Some c3" "weight rk c3 \<le> weight rk c"
    using fold_class_total[OF assms] by blast
  ultimately show ?thesis by (auto simp: foldBooleanIdentities_def foldAbsorptiveIdentities_def shrinks_def)
qed

lemma folding_terminates_witness:
  "\<exists>c2. foldBooleanIdentities (eval_example\<lparr>wires := [[], [], [0, 1, 4], [2, 2], [], [3, 1]]\<rparr>) = Some c2"
proof -
  have "ranked id (eval_example\<lparr>wires := [[], [], [0, 1], [2, 2], [], [3, 1]]\<rparr>)"
    by (simp add: ranked_def eval_example_def less_Suc_eq numeral_nat)
  then have "ranked (\<lambda>g. [0, 0, 1, 2, 0, 3] ! g) (eval_example\<lparr>wires := [[], [], [0, 1, 4], [2, 2], [], [3, 1]]\<rparr>)"
    by (simp add: ranked_def eval_example_def less_Suc_eq numeral_nat)
  from folding_terminates[OF this] show ?thesis by blast
qed

end
