(* ===== verification/FoldSound.thy ===== *)
theory FoldSound
  imports Folding
begin

text \<open>
  The folding passes of \<open>Folding\<close> keep the provenance every UUID denotes: \<open>tracks\<close> relates the loaded
  circuit to the folded one.  A step that changes one sum or product is sound when the n-ary
  operation has the same value on the wires it keeps (\<open>pt_step_keeps\<close>); rewiring is sound because a
  collapsed gate has the value of its target (\<open>rewire_keeps\<close>); the class rules need the semilattice
  laws of \<open>absorptive_laws\<close> and \<open>boolean_laws\<close>.
\<close>

section \<open>The passes keep the denotation\<close>

text \<open>What a pass may assume: no gate is marked for another class, no mixture or Moebius gate (their
  value depends on the identity of their children), and the mapping given to the evaluator does not
  assign sums, products or constants.\<close>

definition foldable :: "'s semiring \<Rightarrow> (gate_t \<rightharpoonup> 's) \<Rightarrow> generic_circuit \<Rightarrow> bool" where
  "foldable S pm c \<longleftrightarrow> (\<forall>g. marker_check S c g = None) \<and>
     (\<forall>g < length (gates c). getGateType c g \<noteq> gate_mixture \<and> getGateType c g \<noteq> gate_mobius \<and>
        (pm g \<noteq> None \<longrightarrow> \<not> is_pt (getGateType c g) \<and> getGateType c g \<noteq> gate_one \<and> getGateType c g \<noteq> gate_zero))"

definition keeps :: "'s semiring \<Rightarrow> catalog \<Rightarrow> (gate_t \<rightharpoonup> 's) \<Rightarrow> generic_circuit \<Rightarrow> generic_circuit \<Rightarrow> bool" where
  "keeps S cat pm c c' \<longleftrightarrow> (\<forall>u < length (gates c). \<forall>v. denotes S cat c pm u v \<longrightarrow> denotes S cat c' pm u v)"

definition same_gate :: "generic_circuit \<Rightarrow> generic_circuit \<Rightarrow> gate_t \<Rightarrow> bool" where
  "same_gate c c' u \<longleftrightarrow> getGateType c' u = getGateType c u \<and> infos c' u = infos c u \<and> extra c' u = extra c u \<and>
     id2uuid c' u = id2uuid c u"

lemma foldableD:
  assumes "foldable S pm c"
  shows "marker_check S c g = None"
    and "g < length (gates c) \<Longrightarrow> getGateType c g \<noteq> gate_mixture \<and> getGateType c g \<noteq> gate_mobius"
    and "g < length (gates c) \<Longrightarrow> is_pt (getGateType c g) \<or> getGateType c g = gate_one \<or> getGateType c g = gate_zero \<Longrightarrow> pm g = None"
  using assms by (auto simp: foldable_def)

lemma keeps_refl: "keeps S cat pm c c"
  by (simp add: keeps_def)

lemma keeps_trans:
  "keeps S cat pm c c1 \<Longrightarrow> keeps S cat pm c1 c2 \<Longrightarrow> length (gates c1) = length (gates c) \<Longrightarrow> keeps S cat pm c c2"
  by (simp add: keeps_def)

lemma same_gate_ops:
  assumes "same_gate c c' u" "getGateType c u \<noteq> gate_mixture" "getGateType c u \<noteq> gate_mobius"
  shows "leaf_value S c' u = leaf_value S c u" "entry_check S cat c' u = entry_check S cat c u"
    "gate_op_ref S cat c' u vs = gate_op_ref S cat c u vs"
proof -
  have e: "getGateType c' u = getGateType c u" "getInfos c' u = getInfos c u" "getExtra c' u = getExtra c u"
    "getUUID c' u = getUUID c u"
    using assms(1) by (simp_all add: same_gate_def getInfos_def getExtra_def getUUID_def)
  show "leaf_value S c' u = leaf_value S c u" "entry_check S cat c' u = entry_check S cat c u"
    by (simp_all only: leaf_value_def entry_check_def e)
  show "gate_op_ref S cat c' u vs = gate_op_ref S cat c u vs"
    using assms(2,3) unfolding gate_op_ref_def other_gate_def e by (cases "getGateType c u") simp_all
qed

lemma denotes_transfer:
  assumes den: "denotes S cat c pm u v" and mk: "marker_check S c' u = None"
    and same: "same_gate c c' u" and ty: "getGateType c u \<noteq> gate_mixture" "getGateType c u \<noteq> gate_mobius"
    and ws: "getWires c' u = map sg (getWires c u)"
    and kids: "\<And>w x. w \<in> set (getWires c u) \<Longrightarrow> denotes S cat c pm w x \<Longrightarrow> denotes S cat c' pm (sg w) x"
  shows "denotes S cat c' pm u v"
  using den
proof (cases rule: denotes.cases)
  case den_mapped
  then show ?thesis by (rule denotes.den_mapped)
next
  case den_leaf
  with mk same_gate_ops(1)[OF same ty, where S = S] show ?thesis by (intro denotes.den_leaf) simp_all
next
  case (den_gate vs)
  have "list_all2 (denotes S cat c' pm) (getWires c' u) vs"
    using den_gate(5) kids unfolding ws by (auto simp: list_all2_conv_all_nth)
  with den_gate mk same_gate_ops(1)[OF same ty, where S = S]
    same_gate_ops(2-)[OF same ty, where S = S and cat = cat] show ?thesis
    by (intro denotes.den_gate[of pm u S c' cat vs]) simp_all
qed

lemma keeps_local:
  assumes r: "ranked rk c" and f: "foldable S pm c" and mk: "\<And>u. marker_check S c' u = None"
    and off: "\<And>u. u < length (gates c) \<Longrightarrow> u \<noteq> g \<Longrightarrow> same_gate c c' u \<and> getWires c' u = getWires c u"
    and key: "\<And>v. g < length (gates c) \<Longrightarrow> (\<And>w x. w \<in> set (getWires c g) \<Longrightarrow> denotes S cat c pm w x \<Longrightarrow> denotes S cat c' pm w x) \<Longrightarrow>
      denotes S cat c pm g v \<Longrightarrow> denotes S cat c' pm g v"
  shows "keeps S cat pm c c'"
proof -
  have "denotes S cat c pm u v \<Longrightarrow> denotes S cat c' pm u v" if "u < length (gates c)" for u v
    using that
  proof (induction "rk u" arbitrary: u v rule: less_induct)
    case less
    have kids: "denotes S cat c' pm w x" if "w \<in> set (getWires c u)" "denotes S cat c pm w x" for w x
      using less(1)[of w x] that r less.prems(2) by (auto simp: ranked_def getWires_def)
    show ?case
    proof (cases "u = g")
      case True
      with key[of v] kids less.prems show ?thesis by blast
    next
      case False
      have ty: "getGateType c u \<noteq> gate_mixture" "getGateType c u \<noteq> gate_mobius"
        using foldableD(2)[OF f less.prems(2)] by simp_all
      from off[OF less.prems(2) False] have sg: "same_gate c c' u" and w: "getWires c' u = map id (getWires c u)" by simp_all
      show ?thesis by (rule denotes_transfer[OF less.prems(1) mk sg ty w]) (simp add: kids)
    qed
  qed
  then show ?thesis by (simp add: keeps_def)
qed

text \<open>The value of a sum or product, over the values of its wires.\<close>

definition pt_op :: "'s semiring \<Rightarrow> gate_type \<Rightarrow> 's list \<Rightarrow> 's" where
  "pt_op S t = (if t = gate_times then S_times S else S_plus S)"

definition pt_unit :: "'s semiring \<Rightarrow> gate_type \<Rightarrow> 's" where
  "pt_unit S t = (if t = gate_times then S_one S else S_zero S)"

lemma list_all2_as_map:
  assumes "list_all2 P ws vs" "\<And>w x y. P w x \<Longrightarrow> P w y \<Longrightarrow> x = y"
  shows "\<exists>f. vs = map f ws \<and> (\<forall>w \<in> set ws. P w (f w))"
proof -
  define f where "f w = (THE x. P w x)" for w
  have f: "P w x \<Longrightarrow> f w = x" for w x
    unfolding f_def using assms(2) by (intro the_equality) blast+
  have "vs = map f ws \<and> (\<forall>w \<in> set ws. P w (f w))"
    using assms(1) by (induction ws vs rule: list_all2_induct) (auto simp: f)
  then show ?thesis by blast
qed

lemma pt_leaf: "is_pt (getGateType c g) \<Longrightarrow> leaf_value S c g = None \<and> entry_check S cat c g = None"
  by (auto simp: is_pt_def leaf_value_def entry_check_def)

lemma pt_gate_op: "is_pt (getGateType c g) \<Longrightarrow> gate_op_ref S cat c g vs = Inr (pt_op S (getGateType c g) vs)"
  by (auto simp: is_pt_def gate_op_ref_def pt_op_def)

lemma denotes_ptE:
  assumes "denotes S cat c pm g v" "is_pt (getGateType c g)" "pm g = None"
  shows "\<exists>f. (\<forall>w \<in> set (getWires c g). denotes S cat c pm w (f w)) \<and>
    v = pt_op S (getGateType c g) (map f (getWires c g))"
  using assms(1)
proof (cases rule: denotes.cases)
  case (den_gate vs)
  have "\<exists>f. vs = map f (getWires c g) \<and> (\<forall>w \<in> set (getWires c g). denotes S cat c pm w (f w))"
    by (rule list_all2_as_map[OF den_gate(5)]) (rule denotes_unique)
  then obtain f where
    "vs = map f (getWires c g)" "\<forall>w \<in> set (getWires c g). denotes S cat c pm w (f w)" by (elim exE conjE)
  with den_gate(6) pt_gate_op[OF assms(2), of S cat vs] show ?thesis by auto
qed (use assms pt_leaf[OF assms(2), of S cat] in auto)

lemma denotes_ptI:
  assumes "is_pt (getGateType c g)" "pm g = None" "marker_check S c g = None"
    and "\<forall>w \<in> set (getWires c g). denotes S cat c pm w (f w)"
  shows "denotes S cat c pm g (pt_op S (getGateType c g) (map f (getWires c g)))"
  by (rule denotes.den_gate[of _ _ _ _ _ "map f (getWires c g)"])
     (use assms pt_leaf[OF assms(1)] pt_gate_op[OF assms(1)] in \<open>auto simp: list_all2_conv_all_nth\<close>)

lemma denotes_constant:
  assumes "getGateType c g = gate_one \<or> getGateType c g = gate_zero" "pm g = None" "marker_check S c g = None"
  shows "denotes S cat c pm g (if getGateType c g = gate_one then S_one S else S_zero S)"
  by (rule denotes.den_leaf) (use assms in \<open>auto simp: leaf_value_def\<close>)

lemma identity_value:
  assumes "foldable S pm c" "w < length (gates c)" "getGateType c w = identity_type t" "is_pt t"
    "denotes S cat c pm w x"
  shows "x = pt_unit S t"
proof -
  have "pm w = None" using foldableD(3)[OF assms(1,2)] assms(3) by (auto simp: identity_type_def split: if_splits)
  moreover have "marker_check S c w = None" by (rule foldableD(1)[OF assms(1)])
  ultimately have "denotes S cat c pm w (pt_unit S t)"
    using denotes_constant[of c w pm S cat] assms(3)
    by (auto simp: identity_type_def pt_unit_def split: if_splits)
  with assms(5) show ?thesis by (rule denotes_unique)
qed

context semiring_laws begin

lemma pt_op_Nil: "pt_op S t [] = pt_unit S t"
  by (simp add: pt_op_def pt_unit_def)

lemma pt_op_drop_units:
  assumes "f ` set ws \<subseteq> D" "\<And>w. w \<in> set ws \<Longrightarrow> \<not> K w \<Longrightarrow> f w = pt_unit S t"
  shows "pt_op S t (map f (filter K ws)) = pt_op S t (map f ws)"
  using assms
proof (induction ws)
  case (Cons w ws)
  then have IH: "pt_op S t (map f (filter K ws)) = pt_op S t (map f ws)" by simp
  have sub: "f w \<in> D" "set (map f ws) \<subseteq> D" "set (map f (filter K ws)) \<subseteq> D" using Cons.prems(1) by auto
  have e: "pt_op S t (f w # xs) = pt_op S t [f w, pt_op S t xs]" if "set xs \<subseteq> D" for xs
    using plus_Cons[OF sub(1) that] times_Cons[OF sub(1) that] by (simp add: pt_op_def)
  show ?case
  proof (cases "K w")
    case True
    then show ?thesis using e[OF sub(2)] e[OF sub(3)] IH by simp
  next
    case False
    then have "f w = pt_unit S t" using Cons.prems(2)[of w] by simp
    then have "pt_op S t [f w, pt_op S t (map f ws)] = pt_op S t (map f ws)"
      using plus_zero times_one plus_in[OF sub(2)] times_in[OF sub(2)] by (simp add: pt_op_def pt_unit_def)
    with False IH e[OF sub(2)] show ?thesis by simp
  qed
qed simp

lemma pt_op_single: "x \<in> D \<Longrightarrow> pt_op S t [x] = x"
  by (simp add: pt_op_def)

end

text \<open>A step that changes one sum or product, keeping its value over the values of its wires.\<close>

definition value_kept :: "'s semiring \<Rightarrow> generic_circuit \<Rightarrow> generic_circuit \<Rightarrow> gate_t \<Rightarrow> (gate_t \<Rightarrow> 's) \<Rightarrow> bool" where
  "value_kept S c c' g f \<longleftrightarrow>
     (let v = pt_op S (getGateType c g) (map f (getWires c g)) in
      getGateType c' g = getGateType c g \<and> set (getWires c' g) \<subseteq> set (getWires c g) \<and>
        pt_op S (getGateType c g) (map f (getWires c' g)) = v \<or>
      getGateType c' g = gate_one \<and> v = S_one S \<or> getGateType c' g = gate_zero \<and> v = S_zero S)"

definition changes_only :: "gate_t \<Rightarrow> generic_circuit \<Rightarrow> generic_circuit \<Rightarrow> bool" where
  "changes_only g c c' \<longleftrightarrow> length (gates c') = length (gates c) \<and> id2uuid c' = id2uuid c \<and>
     (\<forall>u. u \<noteq> g \<longrightarrow> same_gate c c' u \<and> getWires c' u = getWires c u)"

lemma changes_only_trans:
  "changes_only g c c1 \<Longrightarrow> changes_only g c1 c2 \<Longrightarrow> changes_only g c c2"
  by (simp add: changes_only_def same_gate_def)

lemma changes_only_refl: "changes_only g c c"
  by (simp add: changes_only_def same_gate_def)

lemma changes_only_setWires: "changes_only g c (setWires c g ws)"
  by (simp add: changes_only_def same_gate_def setWires_def getGateType_def getWires_def)

lemma changes_only_setGateType: "changes_only g c (setGateType c g t)"
  by (simp add: changes_only_def same_gate_def setGateType_def getGateType_def getWires_def)

lemma changes_only_erase_meta: "changes_only g c (erase_meta g c)"
  by (simp add: changes_only_def same_gate_def erase_meta_def getGateType_def getWires_def)

context semiring_laws begin

lemma pt_step_keeps:
  assumes cl: "closed_ops S D" and pm: "ran pm \<subseteq> D" and r: "ranked rk c" and f: "foldable S pm c"
    and g: "g < length (gates c)" "is_pt (getGateType c g)"
    and mk: "\<And>u. marker_check S c' u = None" and only: "changes_only g c c'"
    and step: "\<And>f. (\<And>w. w \<in> set (getWires c g) \<Longrightarrow> f w \<in> D \<and> denotes S cat c pm w (f w)) \<Longrightarrow> value_kept S c c' g f"
  shows "keeps S cat pm c c'"
proof (rule keeps_local[OF r f mk])
  show "same_gate c c' u \<and> getWires c' u = getWires c u" if "u \<noteq> g" for u
    using only that by (simp add: changes_only_def)
next
  fix v assume kids: "\<And>w x. w \<in> set (getWires c g) \<Longrightarrow> denotes S cat c pm w x \<Longrightarrow> denotes S cat c' pm w x"
    and den: "denotes S cat c pm g v"
  have pg: "pm g = None" using foldableD(3)[OF f g(1)] g(2) by simp
  from denotes_ptE[OF den g(2) pg] obtain h where
    h: "\<forall>w \<in> set (getWires c g). denotes S cat c pm w (h w)" "v = pt_op S (getGateType c g) (map h (getWires c g))"
    by blast
  then have "value_kept S c c' g h" using denotes_in[OF cl pm] by (intro step) blast
  then consider (same) "getGateType c' g = getGateType c g" "set (getWires c' g) \<subseteq> set (getWires c g)"
      "pt_op S (getGateType c g) (map h (getWires c' g)) = v"
    | (one) "getGateType c' g = gate_one" "v = S_one S" | (zero) "getGateType c' g = gate_zero" "v = S_zero S"
    by (auto simp: value_kept_def Let_def h(2))
  then show "denotes S cat c' pm g v"
  proof cases
    case same
    have "\<forall>w \<in> set (getWires c' g). denotes S cat c' pm w (h w)" using same(2) h(1) kids by blast
    from denotes_ptI[OF _ pg mk this] same g(2) show ?thesis by simp
  next
    case one
    with denotes_constant[of c' g pm S cat] pg mk show ?thesis by simp
  next
    case zero
    with denotes_constant[of c' g pm S cat] pg mk show ?thesis by simp
  qed
qed

end

text \<open>The change of a gate's type stays inside what \<open>foldable\<close> allows.\<close>

lemma foldable_step:
  assumes "foldable S pm c" "changes_only g c c'" "\<And>u. marker_check S c' u = None" "g < length (gates c)"
    and "is_pt (getGateType c g)" "is_pt (getGateType c' g) \<or> getGateType c' g = gate_one \<or> getGateType c' g = gate_zero"
  shows "foldable S pm c'"
proof -
  have pg: "pm g = None" using foldableD(3)[OF assms(1,4)] assms(5) by simp
  have "getGateType c' u \<noteq> gate_mixture \<and> getGateType c' u \<noteq> gate_mobius \<and>
      (pm u \<noteq> None \<longrightarrow> \<not> is_pt (getGateType c' u) \<and> getGateType c' u \<noteq> gate_one \<and> getGateType c' u \<noteq> gate_zero)"
    if "u < length (gates c)" for u
  proof (cases "u = g")
    case True
    with assms(6) pg show ?thesis by (auto simp: is_pt_def)
  next
    case False
    then have "getGateType c' u = getGateType c u" using assms(2) by (simp add: changes_only_def same_gate_def)
    with assms(1) that show ?thesis by (simp add: foldable_def)
  qed
  with assms(2,3) show ?thesis by (simp add: foldable_def changes_only_def)
qed

lemma marker_check_cong:
  "boolean_assumed_gates c' = boolean_assumed_gates c \<Longrightarrow> absorptive_assumed_gates c' = absorptive_assumed_gates c \<Longrightarrow>
   marker_check S c' u = marker_check S c u"
  by (simp add: marker_check_def)

lemma markers_setters [simp]:
  "boolean_assumed_gates (setWires c g ws) = boolean_assumed_gates c"
  "absorptive_assumed_gates (setWires c g ws) = absorptive_assumed_gates c"
  "boolean_assumed_gates (setGateType c g t) = boolean_assumed_gates c"
  "absorptive_assumed_gates (setGateType c g t) = absorptive_assumed_gates c"
  by (simp_all add: setWires_def setGateType_def)

text \<open>"A step that keeps denotations and foldability", closed under composition.\<close>

definition safe_step ::
  "'s semiring \<Rightarrow> catalog \<Rightarrow> (gate_t \<rightharpoonup> 's) \<Rightarrow> generic_circuit \<Rightarrow> generic_circuit \<Rightarrow> bool" where
  "safe_step S cat pm c c' \<longleftrightarrow> keeps S cat pm c c' \<and> foldable S pm c' \<and> length (gates c') = length (gates c) \<and>
     id2uuid c' = id2uuid c \<and> uuid2id c' = uuid2id c"

lemma safe_step_refl: "foldable S pm c \<Longrightarrow> safe_step S cat pm c c"
  by (simp add: safe_step_def keeps_refl)

lemma safe_step_trans: "safe_step S cat pm c c1 \<Longrightarrow> safe_step S cat pm c1 c2 \<Longrightarrow> safe_step S cat pm c c2"
  by (auto simp: safe_step_def intro: keeps_trans)

lemma sweep_safe:
  assumes "\<And>g c. g \<in> set gs \<Longrightarrow> ranked rk c \<Longrightarrow> foldable S pm c \<Longrightarrow> length (gates c) = n \<Longrightarrow>
      shrinks rk c (f g c) \<and> safe_step S cat pm c (fst (f g c))"
    and "ranked rk c" "foldable S pm c" "length (gates c) = n"
  shows "safe_step S cat pm c (fst (sweep f gs c))"
  using assms
proof (induction gs arbitrary: c)
  case Nil
  then show ?case by (simp add: safe_step_refl)
next
  case (Cons g gs)
  obtain c1 b1 where 1: "f g c = (c1, b1)" by fastforce
  have s: "shrinks rk c (c1, b1)" and k: "safe_step S cat pm c c1" using Cons.prems(1)[of g c] Cons.prems(2-) 1 by auto
  have "safe_step S cat pm c1 (fst (sweep f gs c1))"
    by (rule Cons.IH) (use Cons.prems s k in \<open>auto simp: shrinks_def safe_step_def\<close>)
  with k 1 show ?case by (auto simp: case_prod_beta intro: safe_step_trans)
qed

context semiring_laws begin

lemma drop_identities_safe:
  assumes cl: "closed_ops S D" and pm: "ran pm \<subseteq> D" and r: "ranked rk c" and f: "foldable S pm c"
    and g: "g < length (gates c)"
  shows "safe_step S cat pm c (fst (drop_identities g c))"
proof (cases "is_pt (getGateType c g)")
  case True
  let ?t = "getGateType c g" and ?c' = "fst (drop_identities g c)"
  define kept where "kept = filter (\<lambda>w. getGateType c w \<noteq> identity_type ?t) (getWires c g)"
  define c1 where "c1 = (if length kept \<noteq> length (getWires c g) then setWires c g kept else c)"
  have lw: "g < length (wires c)" using r g by (simp add: ranked_def)
  have eqk: "kept = getWires c g" if "length kept = length (getWires c g)"
    using that unfolding kept_def by (metis filter_True length_filter_less less_irrefl filter_id_conv)
  have w1: "getWires c1 g = kept" using lw eqk by (auto simp: c1_def setWires_def getWires_def)
  have t1: "getGateType c1 g = ?t" by (simp add: c1_def)
  have c': "?c' = (if kept = [] then setGateType c1 g (identity_type ?t) else c1)"
    using True unfolding drop_identities_def Let_def kept_def[symmetric] c1_def[symmetric] w1 by simp
  have only: "changes_only g c ?c'"
    using changes_only_setWires[of g c kept] changes_only_setGateType[of g c1] changes_only_refl[of g c]
    by (auto simp: c' c1_def intro: changes_only_trans)
  have mk: "marker_check S ?c' u = None" for u
    using foldableD(1)[OF f, of u] marker_check_cong[of ?c' c S u] by (simp add: c' c1_def)
  have lg: "g < length (gates c1)" using g by (simp add: c1_def setWires_def)
  have ty: "getGateType ?c' g = (if kept = [] then identity_type ?t else ?t)"
    using t1 lg by (simp add: c') (simp add: getGateType_def setGateType_def)
  have wr: "getWires ?c' g = kept" using w1 by (simp add: c')
  have "keeps S cat pm c ?c'"
  proof (rule pt_step_keeps[OF cl pm r f g True mk only])
    fix h assume h: "\<And>w. w \<in> set (getWires c g) \<Longrightarrow> h w \<in> D \<and> denotes S cat c pm w (h w)"
    have "pt_op S ?t (map h kept) = pt_op S ?t (map h (getWires c g))"
      unfolding kept_def
    proof (rule pt_op_drop_units)
      show "h ` set (getWires c g) \<subseteq> D" using h by auto
      fix w assume w: "w \<in> set (getWires c g)" "\<not> getGateType c w \<noteq> identity_type ?t"
      then have "w < length (gates c)" using r g by (auto simp: ranked_def getWires_def)
      then show "h w = pt_unit S ?t" using identity_value[OF f _ _ True] w h by auto
    qed
    moreover have "kept = [] \<Longrightarrow> pt_unit S ?t = pt_op S ?t (map h kept)" by (simp add: pt_op_Nil)
    moreover have "set kept \<subseteq> set (getWires c g)" by (auto simp: kept_def)
    ultimately show "value_kept S c ?c' g h"
      using ty wr by (auto simp: value_kept_def Let_def identity_type_def pt_unit_def)
  qed
  moreover have "foldable S pm ?c'"
    by (rule foldable_step[OF f only mk g True]) (use ty True in \<open>auto simp: identity_type_def\<close>)
  moreover have "uuid2id ?c' = uuid2id c" by (simp add: c' c1_def setWires_def setGateType_def)
  ultimately show ?thesis using only by (simp add: safe_step_def changes_only_def)
qed (use f in \<open>auto simp: drop_identities_def intro: safe_step_refl\<close>)

lemma dropped_safe:
  assumes cl: "closed_ops S D" and pm: "ran pm \<subseteq> D" and r: "ranked rk c" and f: "foldable S pm c"
  shows "safe_step S cat pm c (dropped c)"
  unfolding dropped_def
  by (rule sweep_safe[where n = "length (gates c)" and rk = rk])
     (use assms in \<open>auto simp: getNbGates_def drop_identities_safe drop_identities_shrinks\<close>)

text \<open>A collapsed gate has the value of its target.\<close>

lemma collapse_target_value:
  assumes cl: "closed_ops S D" and pm: "ran pm \<subseteq> D" and r: "ranked rk c" and f: "foldable S pm c"
    and g: "g < length (gates c)" and t: "collapse_target c redirect g = Some h" and den: "denotes S cat c pm g v"
  shows "denotes S cat c pm h v"
proof -
  note ct = collapse_targetD[OF t]
  then have pg: "pm g = None" using foldableD(3)[OF f g] by simp
  from denotes_ptE[OF den _ pg] ct obtain k where
    k: "\<forall>w \<in> set (getWires c g). denotes S cat c pm w (k w)" "v = pt_op S (getGateType c g) (map k (getWires c g))"
    by blast
  have kD: "k w \<in> D" if "w \<in> set (getWires c g)" for w using k(1) that denotes_in[OF cl pm] by blast
  from ct have hw: "h \<in> set (getWires c g)" by simp
  from ct consider (zero) "getGateType c g = gate_times" "getGateType c h = gate_zero" | (single) "getWires c g = [h]"
    by blast
  then have "k h = v"
  proof cases
    case zero
    have hl: "h < length (gates c)" using hw r g by (auto simp: ranked_def getWires_def)
    then have "pm h = None" using foldableD(3)[OF f hl] zero by simp
    with denotes_constant[of c h pm S cat] zero(2) foldableD(1)[OF f, of h] have hz: "denotes S cat c pm h (S_zero S)" by simp
    have "denotes S cat c pm h (k h)" using k(1) hw by blast
    from denotes_unique[OF this hz] have kh: "k h = S_zero S" .
    then have "S_zero S \<in> set (map k (getWires c g))" using hw by force
    moreover have "set (map k (getWires c g)) \<subseteq> D" using kD by auto
    ultimately show ?thesis using k(2) zero kh times_has_zero by (simp add: pt_op_def)
  next
    case single
    with k(2) kD[OF hw] show ?thesis by (simp add: pt_op_single)
  qed
  with k(1) hw show ?thesis by blast
qed

end

lemma sweep_invariant:
  assumes "\<And>g c. g \<in> set gs \<Longrightarrow> I c \<Longrightarrow> I (fst (f g c))" "I c"
  shows "I (fst (sweep f gs c))"
  using assms by (induction gs arbitrary: c) (auto simp: case_prod_beta)

text \<open>No wire points at a redirected gate.\<close>

definition detached :: "(gate_t \<rightharpoonup> gate_t) \<Rightarrow> generic_circuit \<Rightarrow> bool" where
  "detached r c \<longleftrightarrow> (\<forall>ws \<in> set (wires c). \<forall>w \<in> set ws. r w = None)"

lemma detached_setWires:
  assumes "detached r c" "g < length (wires c)" "set ws \<subseteq> set (getWires c g)"
  shows "detached r (setWires c g ws)"
proof -
  have "wires c ! g \<in> set (wires c)" using assms(2) by simp
  then have "\<forall>w \<in> set ws. r w = None" using assms unfolding detached_def getWires_def by blast
  moreover have "set (wires (setWires c g ws)) \<subseteq> insert ws (set (wires c))"
    by (simp add: setWires_def set_update_subset_insert)
  ultimately show ?thesis using assms(1) unfolding detached_def by blast
qed

lemma dropped_detached:
  assumes "detached r c" "ranked rk c"
  shows "detached r (dropped c)"
proof -
  have "detached r (dropped c) \<and> length (wires (dropped c)) = length (wires c)"
    unfolding dropped_def
  proof (rule sweep_invariant)
    fix g d assume g: "g \<in> set [0..<getNbGates c]" and d: "detached r d \<and> length (wires d) = length (wires c)"
    have gl: "g < length (wires d)" using g d assms(2) by (simp add: ranked_def getNbGates_def)
    have "detached r (setWires d g (filter K (getWires d g)))" for K
      by (rule detached_setWires) (use d gl in auto)
    with d show "detached r (fst (drop_identities g d)) \<and> length (wires (fst (drop_identities g d))) = length (wires c)"
      by (auto simp: drop_identities_def Let_def detached_def setGateType_def setWires_def)
  qed (use assms in simp)
  then show ?thesis by simp
qed

lemma chase_extend:
  assumes r: "goes_down rk n r" and dis: "\<And>x. s x \<noteq> None \<Longrightarrow> r x = None"
    and tgt: "\<And>x t. s x = Some t \<Longrightarrow> r t = None \<and> s t = None"
  shows "chase r g = Some t \<Longrightarrow> chase (r ++ s) g = Some (case s t of None \<Rightarrow> t | Some t' \<Rightarrow> t')"
proof (induction "rk g" arbitrary: g rule: less_induct)
  case less
  show ?case
  proof (cases "r g")
    case None
    with less.prems have t: "t = g" by (simp add: chase_end)
    show ?thesis
    proof (cases "s g")
      case None
      with \<open>r g = None\<close> t show ?thesis by (simp add: chase_end map_add_def)
    next
      case (Some x)
      then have "chase (r ++ s) g = chase (r ++ s) x" by (intro chase_step) (simp add: map_add_def)
      with Some t tgt[OF Some] show ?thesis by (simp add: chase_end map_add_def)
    qed
  next
    case (Some h)
    then have "s g = None" using dis[of g] by (cases "s g") auto
    with Some have "(r ++ s) g = Some h" by (simp add: map_add_def)
    with less(1)[of h] goes_downD[OF r Some] less.prems Some chase_step[of r g h] chase_step[of "r ++ s" g h]
    show ?thesis by simp
  qed
qed

context semiring_laws begin

text \<open>What one round knows of its collapse map.\<close>

lemma round_ends:
  assumes cl: "closed_ops S D" and pm: "ran pm \<subseteq> D" and rc: "ranked rk c" and f: "foldable S pm c"
    and dr: "goes_down rk (length (gates c)) r" and det: "detached r c"
    and s: "ends (r ++ collapses c r) (collapses c r) w = Some t"
  shows "w < length (gates c) \<and> t < length (gates c) \<and> rk t < rk w \<and> r w = None \<and> r t = None \<and>
    ends (r ++ collapses c r) (collapses c r) t = None \<and>
    (\<forall>v. denotes S cat (dropped c) pm w v \<longrightarrow> denotes S cat (dropped c) pm t v)"
proof -
  let ?m = "collapses c r" and ?n = "length (gates c)"
  have m: "goes_down rk ?n ?m" by (rule collapses_down[OF rc])
  have nx: "goes_down rk ?n (r ++ ?m)" by (rule goes_down_add[OF dr m])
  have safe: "safe_step S cat pm c (dropped c)" by (rule dropped_safe[OF cl pm rc f])
  have rd: "ranked rk (dropped c)" using dropped_shrinks[OF rc] by (simp add: shrinks_def)
  have fd: "foldable S pm (dropped c)" and ln: "length (gates (dropped c)) = ?n" using safe by (simp_all add: safe_step_def)
  have edge: "r g = None \<and> h < ?n \<and> r h = None \<and> (\<forall>v. denotes S cat (dropped c) pm g v \<longrightarrow> denotes S cat (dropped c) pm h v)"
    if "?m g = Some h" for g h
  proof -
    have ct: "collapse_target (dropped c) r g = Some h" and gn: "g < ?n"
      using that unfolding collapses_def getNbGates_def by (meson option.distinct(1))+
    have "wires (dropped c) ! g \<in> set (wires (dropped c))" using gn rd ln by (simp add: ranked_def)
    moreover have "h \<in> set (wires (dropped c) ! g)" using collapse_targetD[OF ct] by (simp add: getWires_def)
    ultimately have "r h = None" using dropped_detached[OF det rc] unfolding detached_def by blast
    moreover have "denotes S cat (dropped c) pm h v" if "denotes S cat (dropped c) pm g v" for v
      by (rule collapse_target_value[OF cl pm rd fd _ ct that]) (simp add: ln gn)
    ultimately show ?thesis using goes_downD[OF m that] collapse_targetD[OF ct] by blast
  qed
  from s obtain h where h: "?m w = Some h" and ch: "chase (r ++ ?m) h = Some t"
    by (auto simp: ends_def split: option.splits)
  note eh = edge[OF h] goes_downD[OF m h]
  let ?P = "\<lambda>g. r g = None \<and> (\<forall>v. denotes S cat (dropped c) pm h v \<longrightarrow> denotes S cat (dropped c) pm g v)"
  have "?P t"
  proof (rule chase_invariant[OF nx _ _ ch])
    fix g k assume "(r ++ ?m) g = Some k" and P: "?P g"
    then have "?m g = Some k" by (auto simp: map_add_def split: option.splits)
    with edge P show "?P k" by blast
  qed (use eh in blast)
  moreover have "(r ++ ?m) t = None \<and> (t = h \<or> t < ?n \<and> rk t < rk h)" using chase_ends[OF nx, of h] ch by auto
  then have "?m t = None" "t < ?n" "rk t < rk w" using eh by (auto simp: map_add_def split: option.splits)
  ultimately show ?thesis using eh by (simp add: ends_def)
qed

lemma rewire_keeps:
  assumes r: "ranked rk c" and f: "foldable S pm c"
    and s: "\<And>w t. s w = Some t \<Longrightarrow> t < length (gates c) \<and> rk t < rk w \<and>
        (\<forall>v. denotes S cat c pm w v \<longrightarrow> denotes S cat c pm t v)"
  shows "keeps S cat pm c (rewire s c)"
proof -
  let ?f = "\<lambda>w. case s w of None \<Rightarrow> w | Some t \<Rightarrow> t"
  have sg: "same_gate c (rewire s c) u" for u by (simp add: same_gate_def rewire_def getGateType_def)
  have mk: "marker_check S (rewire s c) u = None" for u
    using foldableD(1)[OF f, of u] marker_check_cong[of "rewire s c" c S u] by (simp add: rewire_def)
  have "denotes S cat c pm u v \<Longrightarrow> denotes S cat (rewire s c) pm u v" if "u < length (gates c)" for u v
    using that
  proof (induction "rk u" arbitrary: u v rule: less_induct)
    case less
    have w: "getWires (rewire s c) u = map ?f (getWires c u)"
      using r less.prems(2) by (simp add: rewire_def getWires_def ranked_def)
    have kids: "denotes S cat (rewire s c) pm (?f x) y" if "x \<in> set (getWires c u)" "denotes S cat c pm x y" for x y
    proof -
      have x: "x < length (gates c)" "rk x < rk u" using r less.prems(2) that(1) by (auto simp: ranked_def getWires_def)
      show ?thesis
      proof (cases "s x")
        case None
        with less(1)[of x y] x that(2) show ?thesis by simp
      next
        case (Some t)
        with s[OF Some] x that(2) less(1)[of t y] show ?thesis by simp
      qed
    qed
    show ?case
      by (rule denotes_transfer[OF less.prems(1) mk sg _ _ w kids]) (use foldableD(2)[OF f less.prems(2)] in auto)
  qed
  then show ?thesis by (simp add: keeps_def)
qed

end

text \<open>What the loop has established, relative to a circuit c0 the gates' values are read in.\<close>

definition loop_inv ::
  "'s semiring \<Rightarrow> catalog \<Rightarrow> (gate_t \<rightharpoonup> 's) \<Rightarrow> (gate_t \<Rightarrow> nat) \<Rightarrow> generic_circuit \<Rightarrow> generic_circuit \<Rightarrow> (gate_t \<rightharpoonup> gate_t) \<Rightarrow> bool" where
  "loop_inv S cat pm rk c0 c r \<longleftrightarrow> ranked rk c \<and> safe_step S cat pm c0 c \<and>
     goes_down rk (length (gates c)) r \<and> detached r c \<and>
     (\<forall>g t v. g < length (gates c) \<longrightarrow> chase r g = Some t \<longrightarrow> denotes S cat c0 pm g v \<longrightarrow> denotes S cat c pm t v)"

context semiring_laws begin

lemma fold_round_inv:
  assumes cl: "closed_ops S D" and pm: "ran pm \<subseteq> D" and inv: "loop_inv S cat pm rk c0 c r"
    and rd: "fold_round c r = Some (c', r', b)"
  shows "loop_inv S cat pm rk c0 c' r'"
proof -
  from inv have rc: "ranked rk c" and s0: "safe_step S cat pm c0 c" and dr: "goes_down rk (length (gates c)) r"
    and det: "detached r c"
    and J: "\<And>g t v. g < length (gates c) \<Longrightarrow> chase r g = Some t \<Longrightarrow> denotes S cat c0 pm g v \<Longrightarrow> denotes S cat c pm t v"
    by (simp_all add: loop_inv_def)
  define s where "s = ends (r ++ collapses c r) (collapses c r)"
  from s0 have f: "foldable S pm c" by (simp add: safe_step_def)
  note re = round_ends[OF cl pm rc f dr det, where cat = cat, folded s_def]
  from fold_round_eq[OF rc dr] rd have c': "c' = rewire s (dropped c)" and r': "r' = r ++ s" by (simp_all add: s_def)
  obtain c2 r2 b2 where tot: "fold_round c r = Some (c2, r2, b2)" "shrinks rk c (c2, b2)" "goes_down rk (length (gates c)) r2"
    using fold_round_total[OF rc dr] by blast
  then have "ranked rk c'" "length (gates c') = length (gates c)" "goes_down rk (length (gates c)) r'"
    using rd by (auto simp: shrinks_def)
  note this[intro]
  have sd: "safe_step S cat pm c (dropped c)" by (rule dropped_safe[OF cl pm rc f])
  have rkd: "ranked rk (dropped c)" using dropped_shrinks[OF rc] by (simp add: shrinks_def)
  have fd: "foldable S pm (dropped c)" and ld: "length (gates (dropped c)) = length (gates c)"
    using sd by (simp_all add: safe_step_def)
  have kp: "keeps S cat pm (dropped c) c'" unfolding c'
    by (rule rewire_keeps[OF rkd fd]) (use re ld in auto)
  have f': "foldable S pm c'" unfolding c' foldable_def
    using fd marker_check_cong[of "rewire s (dropped c)" "dropped c" S]
    by (simp add: foldable_def rewire_def getGateType_def)
  have sr: "safe_step S cat pm (dropped c) c'"
    using kp f' by (simp add: safe_step_def) (simp add: c' rewire_def)
  have safe: "safe_step S cat pm c c'" by (rule safe_step_trans[OF sd sr])
  have det': "detached r' c'"
    unfolding detached_def
  proof (intro ballI)
    fix ws w assume "ws \<in> set (wires c')" "w \<in> set ws"
    then obtain vs x where x: "vs \<in> set (wires (dropped c))" "x \<in> set vs" "w = (case s x of None \<Rightarrow> x | Some t \<Rightarrow> t)"
      by (auto simp: c' rewire_def)
    have "r x = None" using dropped_detached[OF det rc] x(1,2) unfolding detached_def by blast
    then show "r' w = None" using x(3) re[of x] by (cases "s x") (auto simp: r' map_add_def)
  qed
  have J': "denotes S cat c' pm t v" if g: "g < length (gates c')" and ch: "chase r' g = Some t" and d: "denotes S cat c0 pm g v" for g t v
  proof -
    obtain t0 where t0: "chase r g = Some t0" "t0 = g \<or> t0 < length (gates c)" using chase_ends[OF dr, of g] by blast
    have gl: "g < length (gates c)" "t0 < length (gates c)" using g t0 ld by (auto simp: c' rewire_def)
    have "chase r' g = Some (case s t0 of None \<Rightarrow> t0 | Some t' \<Rightarrow> t')"
      unfolding r' by (rule chase_extend[OF dr _ _ t0(1)]) (use re in blast)+
    with ch have t: "t = (case s t0 of None \<Rightarrow> t0 | Some t' \<Rightarrow> t')" by simp
    have d0: "denotes S cat (dropped c) pm t0 v"
      using J[OF gl(1) t0(1) d] sd gl(2) by (simp add: safe_step_def keeps_def)
    have "denotes S cat (dropped c) pm t v \<and> t < length (gates c)"
      using d0 t gl(2) re[of t0] by (cases "s t0") auto
    then show ?thesis using kp ld by (simp add: keeps_def)
  qed
  from \<open>ranked rk c'\<close> \<open>length (gates c') = length (gates c)\<close> \<open>goes_down rk (length (gates c)) r'\<close>
    safe_step_trans[OF s0 safe] det' J'
  show ?thesis by (simp add: loop_inv_def)
qed

lemma fold_loop_inv:
  assumes cl: "closed_ops S D" and pm: "ran pm \<subseteq> D"
  shows "loop_inv S cat pm rk c0 c r \<Longrightarrow> fold_loop c r ever = Some (c', r', b) \<Longrightarrow> loop_inv S cat pm rk c0 c' r'"
proof (induction "weight rk c" arbitrary: c r ever rule: less_induct)
  case less
  then have rc: "ranked rk c" and dr: "goes_down rk (length (gates c)) r" by (simp_all add: loop_inv_def)
  obtain c1 r1 b1 where 1: "fold_round c r = Some (c1, r1, b1)" "shrinks rk c (c1, b1)"
    using fold_round_total[OF rc dr] by blast
  have inv1: "loop_inv S cat pm rk c0 c1 r1" by (rule fold_round_inv[OF cl pm less.prems(1) 1(1)])
  show ?case
  proof (cases b1)
    case True
    with 1(2) have "weight rk c1 < weight rk c" by (simp add: shrinks_def)
    from less(1)[OF this inv1] True less.prems(2) fold_loop_step[OF 1(1), of ever] show ?thesis by simp
  next
    case False
    with less.prems(2) fold_loop_step[OF 1(1), of ever] inv1 show ?thesis by simp
  qed
qed

end

text \<open>Every UUID of c0 still resolves, to a gate with the value its gate had in c0.\<close>

definition tracks ::
  "'s semiring \<Rightarrow> catalog \<Rightarrow> (gate_t \<rightharpoonup> 's) \<Rightarrow> generic_circuit \<Rightarrow> generic_circuit \<Rightarrow> bool" where
  "tracks S cat pm c0 c \<longleftrightarrow> keeps S cat pm c0 c \<and> foldable S pm c \<and> length (gates c) = length (gates c0) \<and>
     id2uuid c = id2uuid c0 \<and>
     (\<forall>u g. uuid2id c0 u = Some g \<longrightarrow> (\<exists>t < length (gates c0). uuid2id c u = Some t \<and>
        (\<forall>v. denotes S cat c0 pm g v \<longrightarrow> denotes S cat c pm t v)))"

definition uuids_ok :: "generic_circuit \<Rightarrow> bool" where
  "uuids_ok c \<longleftrightarrow> (\<forall>u g. uuid2id c u = Some g \<longleftrightarrow> id2uuid c g = Some u) \<and> (\<forall>u g. uuid2id c u = Some g \<longrightarrow> g < length (gates c))"

lemma tracks_refl: "uuids_ok c \<Longrightarrow> foldable S pm c \<Longrightarrow> tracks S cat pm c c"
  unfolding tracks_def uuids_ok_def using keeps_refl by blast

lemma tracks_safe: "tracks S cat pm c0 c \<Longrightarrow> safe_step S cat pm c c' \<Longrightarrow> tracks S cat pm c0 c'"
  unfolding tracks_def safe_step_def by (auto simp: keeps_def) metis

lemma patch_markers:
  assumes "\<And>g. marker_check S c g = None"
  shows "marker_check S (fold (patch_gate r) gs c) g = None"
  using assms
proof (induction gs arbitrary: c)
  case (Cons x gs)
  have "marker_check S (patch_gate r x c) y = None" for y
    using Cons.prems[of y] Cons.prems[of x]
    by (auto simp: patch_gate_def Let_def marker_check_def split: option.splits if_splits)
  then show ?case using Cons.IH by simp
qed simp

lemma fold_patch_uuid:
  assumes "\<And>u g h. id2uuid c g = Some u \<Longrightarrow> id2uuid c h = Some u \<Longrightarrow> g = h"
  shows "uuid2id (fold (patch_gate r) gs c) u =
    (if \<exists>g \<in> set gs. id2uuid c g = Some u \<and> r g \<noteq> None
     then r (THE g. id2uuid c g = Some u) else uuid2id c u)"
  using assms
proof (induction gs arbitrary: c)
  case (Cons x gs)
  have the: "(THE g. id2uuid c g = Some u) = g" if "id2uuid c g = Some u" for g
    using that Cons.prems by (intro the_equality) blast+
  have step: "uuid2id (patch_gate r x c) u = (if id2uuid c x = Some u \<and> r x \<noteq> None then r x else uuid2id c u)"
    by (auto simp: patch_gate_def Let_def split: option.splits)
  have "uuid2id (fold (patch_gate r) gs (patch_gate r x c)) u =
    (if \<exists>g \<in> set gs. id2uuid c g = Some u \<and> r g \<noteq> None
     then r (THE g. id2uuid c g = Some u) else uuid2id (patch_gate r x c) u)"
    by (rule Cons.IH[of "patch_gate r x c", unfolded patch_gate_fields]) (rule Cons.prems)
  then show ?case using step the[of x] by auto
qed simp

lemma denotes_same:
  assumes r: "ranked rk c" and f: "foldable S pm c" and mk: "\<And>u. marker_check S c' u = None"
    and same: "\<And>u. same_gate c c' u \<and> getWires c' u = getWires c u"
  shows "keeps S cat pm c c'"
  by (rule keeps_local[OF r f mk, where g = "length (gates c)"]) (use same in auto)

lemma patch_keeps:
  assumes r: "ranked rk c" and f: "foldable S pm c"
  shows "keeps S cat pm c (patch s c)" "foldable S pm (patch s c)"
proof -
  have mk: "marker_check S (patch s c) u = None" for u
    unfolding patch_def by (rule patch_markers) (rule foldableD(1)[OF f])
  have e: "getGateType (patch s c) u = getGateType c u" "getWires (patch s c) u = getWires c u" for u
    by (simp_all add: getGateType_def getWires_def)
  show "keeps S cat pm c (patch s c)"
    by (rule denotes_same[OF r f mk]) (simp add: same_gate_def e)
  show "foldable S pm (patch s c)" using f mk by (simp add: foldable_def e)
qed

context semiring_laws begin

lemma foldSemiringIdentities_tracks:
  assumes cl: "closed_ops S D" and pm: "ran pm \<subseteq> D" and ok: "uuids_ok c0"
    and tr: "tracks S cat pm c0 c" and r: "ranked rk c" and fold: "foldSemiringIdentities c = Some (c', b)"
  shows "tracks S cat pm c0 c' \<and> ranked rk c'"
proof -
  obtain c1 r1 b1 where loop: "fold_loop c Map.empty False = Some (c1, r1, b1)"
    using fold by (auto simp: foldSemiringIdentities_def split: option.splits)
  have f: "foldable S pm c" using tr by (simp add: tracks_def)
  have "loop_inv S cat pm rk c c Map.empty"
    using r f by (simp add: loop_inv_def goes_down_def detached_def safe_step_refl chase_end)
  then have inv: "loop_inv S cat pm rk c c1 r1" by (rule fold_loop_inv[OF cl pm _ loop])
  then have rc1: "ranked rk c1" and s1: "safe_step S cat pm c c1" and dr: "goes_down rk (length (gates c1)) r1"
    and J: "\<And>g t v. g < length (gates c1) \<Longrightarrow> chase r1 g = Some t \<Longrightarrow> denotes S cat c pm g v \<Longrightarrow> denotes S cat c1 pm t v"
    by (simp_all add: loop_inv_def)
  obtain s where s: "resolve r1 r1 [0..<getNbGates c1] = Some s"
    "\<And>g. s g = (if g \<in> set [0..<getNbGates c1] then (case r1 g of None \<Rightarrow> None | Some h \<Rightarrow> chase r1 h) else None)"
    using resolve_total[OF dr, of r1 "[0..<getNbGates c1]"] by blast
  have c': "c' = patch s c1" using fold loop s(1) by (simp add: foldSemiringIdentities_def)
  have t1: "tracks S cat pm c0 c1" by (rule tracks_safe[OF tr s1])
  then have f1: "foldable S pm c1" and n1: "length (gates c1) = length (gates c0)" and i1: "id2uuid c1 = id2uuid c0"
    by (simp_all add: tracks_def)
  note pk = patch_keeps(1)[OF rc1 f1, of cat s, folded c'] patch_keeps(2)[OF rc1 f1, of s, folded c']
  have inj: "id2uuid c1 g = Some u \<Longrightarrow> id2uuid c1 h = Some u \<Longrightarrow> g = h" for u g h
  proof -
    assume "id2uuid c1 g = Some u" "id2uuid c1 h = Some u"
    then have "uuid2id c0 u = Some g" "uuid2id c0 u = Some h" using ok i1 by (simp_all add: uuids_ok_def)
    then show "g = h" by simp
  qed
  have upd: "uuid2id c' u = (if \<exists>g \<in> set [0..<getNbGates c1]. id2uuid c1 g = Some u \<and> s g \<noteq> None
      then s (THE g. id2uuid c1 g = Some u) else uuid2id c1 u)" for u
    unfolding c' patch_def by (rule fold_patch_uuid) (rule inj)
  have "\<exists>t < length (gates c0). uuid2id c' u = Some t \<and> (\<forall>v. denotes S cat c0 pm g v \<longrightarrow> denotes S cat c' pm t v)"
    if u: "uuid2id c0 u = Some g" for u g
  proof (cases "s g")
    case None
    have ig: "id2uuid c1 g = Some u" using u ok i1 by (simp add: uuids_ok_def)
    have no: "\<not> (\<exists>h \<in> set [0..<getNbGates c1]. id2uuid c1 h = Some u \<and> s h \<noteq> None)"
    proof
      assume "\<exists>h \<in> set [0..<getNbGates c1]. id2uuid c1 h = Some u \<and> s h \<noteq> None"
      then obtain h where h: "id2uuid c1 h = Some u" "s h \<noteq> None" by blast
      from inj[OF ig h(1)] h(2) None show False by simp
    qed
    have "uuid2id c' u = uuid2id c1 u"
      unfolding upd if_not_P[OF no] ..
    moreover obtain t where t: "t < length (gates c0)" "uuid2id c1 u = Some t"
      "\<forall>v. denotes S cat c0 pm g v \<longrightarrow> denotes S cat c1 pm t v" using t1 u unfolding tracks_def by blast
    ultimately show ?thesis using pk(1) n1 by (auto simp: keeps_def)
  next
    case (Some t)
    have ig: "id2uuid c1 g = Some u" using u ok i1 by (simp add: uuids_ok_def)
    have gn: "g < length (gates c1)" and gi: "g \<in> set [0..<getNbGates c1]"
      using u ok n1 by (auto simp: uuids_ok_def getNbGates_def)
    have the: "(THE h. id2uuid c1 h = Some u) = g" by (rule the_equality, rule ig) (rule inj[OF _ ig])
    have yes: "\<exists>h \<in> set [0..<getNbGates c1]. id2uuid c1 h = Some u \<and> s h \<noteq> None" using ig gi Some by blast
    have uu: "uuid2id c' u = Some t"
      unfolding upd if_P[OF yes] the Some ..
    obtain h where h: "r1 g = Some h" "chase r1 h = Some t" using Some s(2)[of g] by (auto split: option.splits if_splits)
    then have ch: "chase r1 g = Some t" by (simp add: chase_step)
    have tn: "t < length (gates c0)" using chase_ends[OF dr, of g] ch gn n1 by auto
    have "denotes S cat c' pm t v" if "denotes S cat c0 pm g v" for v
    proof -
      have "denotes S cat c pm g v" using tr that gn n1 by (simp add: tracks_def keeps_def)
      then have "denotes S cat c1 pm t v" by (rule J[OF gn ch])
      then show ?thesis using pk(1) tn n1 by (simp add: keeps_def)
    qed
    with uu tn show ?thesis by blast
  qed
  moreover have "keeps S cat pm c0 c'"
    using t1 pk(1) n1 by (auto simp: tracks_def intro: keeps_trans)
  moreover have "ranked rk c'" using rc1 by (simp add: c' ranked_def)
  ultimately show ?thesis using pk(2) n1 i1 by (simp add: tracks_def c')
qed

end

subsection \<open>The class-gated rules\<close>

lemma filter_image_dominated:
  fixes rk :: "gate_t \<Rightarrow> nat"
  assumes "\<And>w. w \<in> set ws \<Longrightarrow> Q w \<Longrightarrow> \<exists>x \<in> set ws. rk x < rk w \<and> R (f w) (f x)"
    and refl: "\<And>w. w \<in> set ws \<Longrightarrow> R (f w) (f w)"
    and trans: "\<And>x y z. x \<in> set ws \<Longrightarrow> y \<in> set ws \<Longrightarrow> z \<in> set ws \<Longrightarrow> R (f x) (f y) \<Longrightarrow> R (f y) (f z) \<Longrightarrow> R (f x) (f z)"
  shows "w \<in> set ws \<Longrightarrow> \<exists>y \<in> set (filter (\<lambda>w. \<not> Q w) ws). R (f w) (f y)"
proof (induction "rk w" arbitrary: w rule: less_induct)
  case less
  show ?case
  proof (cases "Q w")
    case True
    with assms(1)[OF less.prems] obtain x where x: "x \<in> set ws" "rk x < rk w" "R (f w) (f x)" by blast
    with less(1)[of x] obtain y where "y \<in> set (filter (\<lambda>w. \<not> Q w) ws)" "R (f x) (f y)" by blast
    with x less.prems trans[of w x y] show ?thesis by auto
  next
    case False
    with less.prems refl show ?thesis by auto
  qed
qed

context absorptive_laws begin

lemma times_below: "set vs \<subseteq> D \<Longrightarrow> x \<in> set vs \<Longrightarrow> join.le (S_times S vs) x"
proof (induction vs)
  case (Cons y ys)
  then have D: "y \<in> D" "set ys \<subseteq> D" "x \<in> D" "S_times S ys \<in> D" by auto
  have e: "S_times S (y # ys) = S_times S [y, S_times S ys]" by (rule times_Cons[OF D(1,2)])
  have ab: "join.le (S_times S [a, b]) a" if "a \<in> D" "b \<in> D" for a b
    using absorb[OF that] plus_comm[of a "S_times S [a, b]"] that by (simp add: join.le_def)
  show ?case
  proof (cases "x = y")
    case True
    with ab[of y "S_times S ys"] D e show ?thesis by simp
  next
    case False
    with Cons D have "join.le (S_times S ys) x" by simp
    moreover have "join.le (S_times S [y, S_times S ys]) (S_times S ys)"
      using ab[of "S_times S ys" y] D times_comm[of y "S_times S ys"] by simp
    ultimately show ?thesis
      using join.le_trans[of "S_times S [y, S_times S ys]" "S_times S ys" x] D e by simp
  qed
qed simp

lemma plus_with_one: "set vs \<subseteq> D \<Longrightarrow> S_one S \<in> set vs \<Longrightarrow> S_plus S vs = S_one S"
proof -
  assume D: "set vs \<subseteq> D" and o: "S_one S \<in> set vs"
  have "S_plus S [S_one S] = S_plus S vs"
  proof (rule join.dominated[OF D])
    fix x assume "x \<in> set vs"
    with D have x: "x \<in> D" by blast
    then have "join.le x (S_one S)" using one_top[OF x] plus_comm[OF x one_in] by (simp add: join.le_def)
    then show "\<exists>y \<in> set [S_one S]. join.le x y" by simp
  qed (use o in simp)
  then show ?thesis by simp
qed

lemma plus_same_set: "set vs \<subseteq> D \<Longrightarrow> set us = set vs \<Longrightarrow> S_plus S us = S_plus S vs"
  by (rule join.dominated) (auto intro: join.le_refl)

end

context boolean_laws begin

lemma plus_above: "set vs \<subseteq> D \<Longrightarrow> x \<in> set vs \<Longrightarrow> meet.le (S_plus S vs) x"
proof (induction vs)
  case (Cons y ys)
  then have D: "y \<in> D" "set ys \<subseteq> D" "x \<in> D" "S_plus S ys \<in> D" by auto
  have e: "S_plus S (y # ys) = S_plus S [y, S_plus S ys]" by (rule plus_Cons[OF D(1,2)])
  have ab: "meet.le (S_plus S [a, b]) a" if "a \<in> D" "b \<in> D" for a b
    using dual_absorb[OF that] times_comm[of a "S_plus S [a, b]"] that by (simp add: meet.le_def)
  show ?case
  proof (cases "x = y")
    case True
    with ab[of y "S_plus S ys"] D e show ?thesis by simp
  next
    case False
    with Cons D have "meet.le (S_plus S ys) x" by simp
    moreover have "meet.le (S_plus S [y, S_plus S ys]) (S_plus S ys)"
      using ab[of "S_plus S ys" y] D plus_comm[of y "S_plus S ys"] by simp
    ultimately show ?thesis
      using meet.le_trans[of "S_plus S [y, S_plus S ys]" "S_plus S ys" x] D e by simp
  qed
qed simp

lemma times_same_set: "set vs \<subseteq> D \<Longrightarrow> set us = set vs \<Longrightarrow> S_times S us = S_times S vs"
  by (rule meet.dominated) (auto intro: meet.le_refl)

end

context absorptive_laws begin

lemma plus_semilattice: "nary_semilattice (S_plus S) D"
  by (rule join.nary_semilattice_axioms)

end

context boolean_laws begin

lemma times_semilattice: "nary_semilattice (S_times S) D"
  by (rule meet.nary_semilattice_axioms)

end

text \<open>The laws a rule needs: absorptivity on sums, the Boolean laws on products.\<close>

definition rule_laws :: "'s semiring \<Rightarrow> 's set \<Rightarrow> gate_type \<Rightarrow> bool" where
  "rule_laws S D t \<longleftrightarrow> absorptive_laws S D \<and> (t \<noteq> gate_plus \<longrightarrow> t = gate_times \<and> boolean_laws S D)"

lemma rule_semilattice: "rule_laws S D t \<Longrightarrow> nary_semilattice (pt_op S t) D"
  using absorptive_laws.plus_semilattice[of S D] boolean_laws.times_semilattice[of S D]
  by (cases "t = gate_plus") (auto simp: rule_laws_def pt_op_def)

lemma rule_below:
  assumes "rule_laws S D t" "set vs \<subseteq> D" "x \<in> set vs"
    and "t' = (if t = gate_plus then gate_times else gate_plus)"
  shows "pt_op S t [pt_op S t' vs, x] = x"
  using assms absorptive_laws.times_below[of S D vs x] boolean_laws.plus_above[of S D vs x]
    nary_semilattice.le_def[OF absorptive_laws.plus_semilattice, of S D]
    nary_semilattice.le_def[OF boolean_laws.times_semilattice, of S D]
  by (cases "t = gate_plus") (auto simp: rule_laws_def pt_op_def)

lemma dedup_value:
  assumes l: "rule_laws S D t" and D: "f ` set ws \<subseteq> D"
  shows "pt_op S t (map f (dedup [] ws)) = pt_op S t (map f ws)"
proof (rule nary_semilattice.dominated[OF rule_semilattice[OF l]])
  have st: "set (dedup [] ws) = set ws" using dedup_set[of "[]" ws] by simp
  show "set (map f ws) \<subseteq> D" "set (map f (dedup [] ws)) \<subseteq> set (map f ws)" using D st by auto
  fix x assume "x \<in> set (map f ws)"
  with st D show "\<exists>y \<in> set (map f (dedup [] ws)). nary_semilattice.le (pt_op S t) x y"
    using nary_semilattice.le_refl[OF rule_semilattice[OF l]] by auto
qed

lemma absorption_value:
  fixes rk :: "gate_t \<Rightarrow> nat"
  assumes l: "rule_laws S D t" and D: "f ` set ws \<subseteq> D"
    and ab: "\<And>w. w \<in> set ws \<Longrightarrow> Q w \<Longrightarrow> \<exists>x \<in> set ws. rk x < rk w \<and> pt_op S t [f w, f x] = f x"
  shows "pt_op S t (map f (filter (\<lambda>w. \<not> Q w) ws)) = pt_op S t (map f ws)"
proof (rule nary_semilattice.dominated[OF rule_semilattice[OF l]])
  note sl = rule_semilattice[OF l]
  show "set (map f ws) \<subseteq> D" "set (map f (filter (\<lambda>w. \<not> Q w) ws)) \<subseteq> set (map f ws)" using D by auto
  fix x assume "x \<in> set (map f ws)"
  then obtain w where w: "w \<in> set ws" "x = f w" by auto
  have "\<exists>y \<in> set (filter (\<lambda>w. \<not> Q w) ws). nary_semilattice.le (pt_op S t) (f w) (f y)"
  proof (rule filter_image_dominated[where rk = rk and R = "nary_semilattice.le (pt_op S t)" and f = f and Q = Q, OF _ _ _ w(1)])
    show "\<exists>x \<in> set ws. rk x < rk w \<and> nary_semilattice.le (pt_op S t) (f w) (f x)" if "w \<in> set ws" "Q w" for w
      using ab[OF that] nary_semilattice.le_def[OF sl] by auto
    show "nary_semilattice.le (pt_op S t) (f w) (f w)" if "w \<in> set ws" for w
      by (rule nary_semilattice.le_refl[OF sl]) (use D that in auto)
    show "nary_semilattice.le (pt_op S t) (f x) (f z)"
      if "x \<in> set ws" "y \<in> set ws" "z \<in> set ws" "nary_semilattice.le (pt_op S t) (f x) (f y)"
        "nary_semilattice.le (pt_op S t) (f y) (f z)" for x y z
      using nary_semilattice.le_trans[OF sl _ _ _ that(4,5)] D that(1-3) by auto
  qed
  with w(2) show "\<exists>y \<in> set (map f (filter (\<lambda>w. \<not> Q w) ws)). nary_semilattice.le (pt_op S t) x y" by auto
qed

text \<open>What the marker of a rule asks of a semiring.\<close>

definition class_semiring :: "bool \<Rightarrow> 's semiring \<Rightarrow> 's set \<Rightarrow> bool" where
  "class_semiring bl S D \<longleftrightarrow> absorptive_laws S D \<and> S_absorptive S \<and>
     (bl \<longrightarrow> boolean_laws S D \<and> S_boolean_rewrite S)"

lemma class_rule_laws:
  "class_semiring bl S D \<Longrightarrow> is_pt t \<Longrightarrow> t = gate_plus \<or> bl \<Longrightarrow> rule_laws S D t"
  by (auto simp: class_semiring_def rule_laws_def is_pt_def)

lemma class_laws: "class_semiring bl S D \<Longrightarrow> semiring_laws S D"
  by (auto simp: class_semiring_def dest: absorptive_laws.axioms(1))

lemma gates_setWires [simp]: "length (gates (setWires c g ws)) = length (gates c)" "gates (setWires c g ws) = gates c"
  by (simp_all add: setWires_def)

lemma getWires_setWires [simp]: "g < length (wires c) \<Longrightarrow> getWires (setWires c g ws) g = ws"
  by (simp add: setWires_def getWires_def)

lemma uuid2id_setters [simp]:
  "uuid2id (setWires c g ws) = uuid2id c" "uuid2id (setGateType c g t) = uuid2id c"
  "uuid2id (erase_meta g c) = uuid2id c"
  by (simp_all add: setWires_def setGateType_def erase_meta_def)

text \<open>A rewrite of the wires of one sum or product that keeps its value.\<close>

lemma setWires_safe:
  assumes l: "semiring_laws S D" and cl: "closed_ops S D" and pm: "ran pm \<subseteq> D" and r: "ranked rk c" and f: "foldable S pm c"
    and g: "g < length (gates c)" "is_pt (getGateType c g)" and sub: "set ws \<subseteq> set (getWires c g)"
    and val: "\<And>h. (\<And>w. w \<in> set (getWires c g) \<Longrightarrow> h w \<in> D \<and> denotes S cat c pm w (h w)) \<Longrightarrow>
      pt_op S (getGateType c g) (map h ws) = pt_op S (getGateType c g) (map h (getWires c g))"
  shows "safe_step S cat pm c (setWires c g ws)"
proof -
  have lw: "g < length (wires c)" using r g by (simp add: ranked_def)
  have mk: "marker_check S (setWires c g ws) u = None" for u
    using foldableD(1)[OF f, of u] marker_check_cong[of "setWires c g ws" c S u] by simp
  have "keeps S cat pm c (setWires c g ws)"
    by (rule semiring_laws.pt_step_keeps[OF l cl pm r f g mk changes_only_setWires])
       (use val sub lw in \<open>simp add: value_kept_def Let_def\<close>)
  moreover have "foldable S pm (setWires c g ws)"
    by (rule foldable_step[OF f changes_only_setWires mk g]) (use g in simp)
  ultimately show ?thesis by (simp add: safe_step_def) (simp add: setWires_def)
qed

lemma rule_idempotence_safe:
  assumes cs: "class_semiring bl S D" and cl: "closed_ops S D" and pm: "ran pm \<subseteq> D" and r: "ranked rk c"
    and f: "foldable S pm c" and g: "g < length (gates c)" "is_pt (getGateType c g)"
  shows "safe_step S cat pm c (fst (rule_idempotence bl (getGateType c g) g c))"
proof (cases "getGateType c g = gate_plus \<or> bl")
  case True
  have l: "rule_laws S D (getGateType c g)" by (rule class_rule_laws[OF cs g(2) True])
  have "safe_step S cat pm c (setWires c g (dedup [] (getWires c g)))"
  proof (rule setWires_safe[OF class_laws[OF cs] cl pm r f g])
    show "set (dedup [] (getWires c g)) \<subseteq> set (getWires c g)" using dedup_set[of "[]" "getWires c g"] by simp
  qed (rule dedup_value[OF l], auto)
  then show ?thesis using f by (simp add: rule_idempotence_def safe_step_refl)
qed (use f in \<open>simp add: rule_idempotence_def safe_step_refl\<close>)

lemma rule_plus_one_safe:
  assumes cs: "class_semiring bl S D" and cl: "closed_ops S D" and pm: "ran pm \<subseteq> D" and r: "ranked rk c"
    and f: "foldable S pm c" and g: "g < length (gates c)" "is_pt (getGateType c g)"
  shows "safe_step S cat pm c (fst (rule_plus_one (getGateType c g) g c))"
proof (cases "getGateType c g = gate_plus \<and> (\<exists>w \<in> set (getWires c g). getGateType c w = gate_one)")
  case True
  let ?c' = "erase_meta g (setWires (setGateType c g gate_one) g [])"
  from True obtain w where w: "w \<in> set (getWires c g)" "getGateType c w = gate_one" by blast
  have wl: "w < length (gates c)" using r g w(1) by (auto simp: ranked_def getWires_def)
  have pw: "pm w = None" using foldableD(3)[OF f wl] w by simp
  have al: "absorptive_laws S D" using cs by (simp add: class_semiring_def)
  have mk: "marker_check S ?c' u = None" for u
    using foldableD(1)[OF f, of u] marker_check_cong[of ?c' c S u] by simp
  have only: "changes_only g c ?c'"
    by (meson changes_only_trans changes_only_erase_meta changes_only_setWires changes_only_setGateType)
  have ty: "getGateType ?c' g = gate_one"
    using g by (simp add: getGateType_def setGateType_def setWires_def)
  have "keeps S cat pm c ?c'"
  proof (rule semiring_laws.pt_step_keeps[OF class_laws[OF cs] cl pm r f g mk only])
    fix h assume h: "\<And>w. w \<in> set (getWires c g) \<Longrightarrow> h w \<in> D \<and> denotes S cat c pm w (h w)"
    have "denotes S cat c pm w (S_one S)"
      using denotes_constant[of c w pm S cat] w pw foldableD(1)[OF f] by simp
    with h[OF w(1)] have "h w = S_one S" using denotes_unique[of S cat c pm w "h w" "S_one S"] by simp
    then have "S_one S \<in> set (map h (getWires c g))" using w(1) by force
    moreover have "set (map h (getWires c g)) \<subseteq> D" using h by auto
    ultimately have "S_plus S (map h (getWires c g)) = S_one S" by (intro absorptive_laws.plus_with_one[OF al])
    then show "value_kept S c ?c' g h" using True ty by (simp add: value_kept_def pt_op_def)
  qed
  moreover have "foldable S pm ?c'" by (rule foldable_step[OF f only mk g]) (use ty in simp)
  moreover have "rule_plus_one (getGateType c g) g c = (?c', True)" unfolding rule_plus_one_def using True by simp
  ultimately show ?thesis using only by (simp add: safe_step_def changes_only_def)
next
  case False
  then have "rule_plus_one (getGateType c g) g c = (c, False)" unfolding rule_plus_one_def by auto
  with f show ?thesis by (simp add: safe_step_refl)
qed

lemma rule_absorption_safe:
  assumes cs: "class_semiring bl S D" and cl: "closed_ops S D" and pm: "ran pm \<subseteq> D" and r: "ranked rk c"
    and f: "foldable S pm c" and g: "g < length (gates c)" and t: "is_pt t" "getGateType c g = t \<or> getWires c g = []"
  shows "safe_step S cat pm c (fst (rule_absorption bl t g c))"
proof (cases "(t = gate_plus \<or> bl) \<and> length (getWires c g) \<ge> 2 \<and> (\<exists>w \<in> set (getWires c g). absorbed_wire t c (getWires c g) w)")
  case True
  let ?ws = "getWires c g"
  from True t have tg: "getGateType c g = t" by auto
  then have pt: "is_pt (getGateType c g)" using t(1) by simp
  have l: "rule_laws S D t" using class_rule_laws[OF cs t(1)] True by blast
  have wn: "w < length (gates c)" if "w \<in> set ?ws" for w using that r g by (auto simp: ranked_def getWires_def)
  have "safe_step S cat pm c (setWires c g (filter (\<lambda>w. \<not> absorbed_wire t c ?ws w) ?ws))"
  proof (rule setWires_safe[OF class_laws[OF cs] cl pm r f g pt])
    fix h assume h: "\<And>w. w \<in> set ?ws \<Longrightarrow> h w \<in> D \<and> denotes S cat c pm w (h w)"
    show "pt_op S (getGateType c g) (map h (filter (\<lambda>w. \<not> absorbed_wire t c ?ws w) ?ws)) = pt_op S (getGateType c g) (map h ?ws)"
      unfolding tg
    proof (rule absorption_value[where rk = rk, OF l])
      show "h ` set ?ws \<subseteq> D" using h by auto
      fix w assume w: "w \<in> set ?ws" "absorbed_wire t c ?ws w"
      then obtain x where x: "x \<in> set (getWires c w)" "x \<in> set ?ws"
        and ty: "getGateType c w = (if t = gate_plus then gate_times else gate_plus)" by (auto simp: absorbed_wire_def)
      have rx: "rk x < rk w" using x(1) r wn[OF w(1)] by (auto simp: ranked_def getWires_def)
      have ptw: "is_pt (getGateType c w)" using ty by (simp add: is_pt_def)
      then have pw: "pm w = None" using foldableD(3)[OF f wn[OF w(1)]] by simp
      have "denotes S cat c pm w (h w)" using h[OF w(1)] by simp
      from denotes_ptE[OF this ptw pw] obtain k where
        k: "\<forall>y \<in> set (getWires c w). denotes S cat c pm y (k y)" "h w = pt_op S (getGateType c w) (map k (getWires c w))"
        by blast
      have kx: "k x = h x" using k(1) x(1) h[OF x(2)] denotes_unique[of S cat c pm x "k x" "h x"] by blast
      have "set (map k (getWires c w)) \<subseteq> D"
        using k(1) semiring_laws.denotes_in[OF class_laws[OF cs] cl pm] by auto
      moreover have "h x \<in> set (map k (getWires c w))" using x(1) kx by force
      ultimately have "pt_op S t [pt_op S (getGateType c w) (map k (getWires c w)), h x] = h x"
        by (rule rule_below[OF l _ _ ty])
      with rx x(2) k(2) show "\<exists>x \<in> set ?ws. rk x < rk w \<and> pt_op S t [h w, h x] = h x" by auto
    qed
  qed auto
  with True show ?thesis by (simp add: rule_absorption_def Let_def)
next
  case False
  then have "rule_absorption bl t g c = (c, False)" unfolding rule_absorption_def Let_def by auto
  with f show ?thesis by (simp add: safe_step_refl)
qed

lemma mark_safe:
  assumes r: "ranked rk c" and f: "foldable S pm c" and mk: "\<And>u. marker_check S c' u = None"
    and e: "gates c' = gates c" "wires c' = wires c" "infos c' = infos c" "extra c' = extra c"
      "id2uuid c' = id2uuid c" "uuid2id c' = uuid2id c"
  shows "safe_step S cat pm c c'"
proof -
  have "keeps S cat pm c c'"
    by (rule denotes_same[OF r f mk]) (simp add: same_gate_def getGateType_def getWires_def e)
  moreover have "foldable S pm c'" using f mk by (simp add: foldable_def getGateType_def e)
  ultimately show ?thesis by (simp add: safe_step_def e)
qed

lemma rule_plus_one_type:
  "g < length (gates c) \<Longrightarrow> g < length (wires c) \<Longrightarrow> rule_plus_one (getGateType c g) g c = (c', b) \<Longrightarrow>
   getGateType c' g = getGateType c g \<or> getWires c' g = []"
  by (auto simp: rule_plus_one_def getGateType_def getWires_def setGateType_def setWires_def erase_meta_def split: if_splits)

lemma fold_rules_safe:
  assumes cs: "class_semiring bl S D" and cl: "closed_ops S D" and pm: "ran pm \<subseteq> D" and r: "ranked rk c"
    and f: "foldable S pm c" and g: "g < length (gates c)"
  shows "safe_step S cat pm c (fst (fold_rules bl g c))"
proof (cases "is_pt (getGateType c g)")
  case True
  let ?t = "getGateType c g"
  obtain c1 f1 where 1: "rule_idempotence bl ?t g c = (c1, f1)" by fastforce
  obtain c2 f2 where 2: "rule_plus_one ?t g c1 = (c2, f2)" by fastforce
  obtain c3 f3 where 3: "rule_absorption bl ?t g c2 = (c3, f3)" by fastforce
  have s1: "safe_step S cat pm c c1" using rule_idempotence_safe[OF cs cl pm r f g True, of cat] 1 by simp
  have h1: "shrinks rk c (c1, f1)" using rule_idempotence_shrinks[OF r g, of bl ?t] 1 by simp
  have t1: "getGateType c1 g = ?t" using is_pt_after_idempotence[of bl ?t g c g] 1 by simp
  have r1: "ranked rk c1" "foldable S pm c1" "g < length (gates c1)" using h1 s1 g by (simp_all add: shrinks_def safe_step_def)
  have s2: "safe_step S cat pm c1 c2"
    using rule_plus_one_safe[OF cs cl pm r1, of cat] True t1 2 by simp
  have h2: "shrinks rk c1 (c2, f2)" using rule_plus_one_shrinks[OF r1(1,3), of ?t] True t1 2 by simp
  have r2: "ranked rk c2" "foldable S pm c2" "g < length (gates c2)" using h2 s2 r1(3) by (simp_all add: shrinks_def safe_step_def)
  have t2: "getGateType c2 g = ?t \<or> getWires c2 g = []"
    using rule_plus_one_type[of g c1 c2 f2] r1 t1 2 by (simp add: ranked_def)
  have s3: "safe_step S cat pm c2 c3" using rule_absorption_safe[OF cs cl pm r2 True t2, of cat] 3 by simp
  have h3: "shrinks rk c2 (c3, f3)" using rule_absorption_shrinks[OF r2(1,3), of bl ?t] 3 by simp
  have r3: "ranked rk c3" "foldable S pm c3" using h3 s3 by (simp_all add: shrinks_def safe_step_def)
  let ?c' = "fst (fold_rules bl g c)"
  have bl: "f1 \<or> f3 \<Longrightarrow> ?t \<noteq> gate_plus \<Longrightarrow> bl"
    using 1 3 by (auto simp: rule_idempotence_def rule_absorption_def Let_def split: if_splits)
  have e: "gates ?c' = gates c3" "wires ?c' = wires c3" "infos ?c' = infos c3" "extra ?c' = extra c3"
    "id2uuid ?c' = id2uuid c3" "uuid2id ?c' = uuid2id c3"
    using True 1 2 3 by (auto simp: fold_rules_def Let_def)
  have b: "boolean_assumed_gates ?c' = (if ?t \<noteq> gate_plus \<and> (f1 \<or> f3) then insert g (boolean_assumed_gates c3) else boolean_assumed_gates c3)"
    and a: "absorptive_assumed_gates ?c' \<subseteq> insert g (absorptive_assumed_gates c3)"
    using True 1 2 3 by (auto simp: fold_rules_def Let_def)
  have "marker_check S ?c' u = None" for u
  proof -
    have m: "marker_check S c3 u = None" by (rule foldableD(1)[OF r3(2)])
    have "S_absorptive S" "bl \<Longrightarrow> S_boolean_rewrite S" using cs by (simp_all add: class_semiring_def)
    with m b a bl show ?thesis by (auto simp: marker_check_def split: if_splits)
  qed
  from mark_safe[OF r3 this e] have "safe_step S cat pm c3 ?c'" .
  with s1 s2 s3 show ?thesis by (meson safe_step_trans)
qed (use f in \<open>auto simp: fold_rules_def intro: safe_step_refl\<close>)

lemma applyFoldRuleSweep_safe:
  assumes "class_semiring bl S D" "closed_ops S D" "ran pm \<subseteq> D" "ranked rk c" "foldable S pm c"
  shows "safe_step S cat pm c (fst (applyFoldRuleSweep bl c))"
  unfolding applyFoldRuleSweep_def
  by (rule sweep_safe[where n = "length (gates c)" and rk = rk])
     (use assms in \<open>auto simp: getNbGates_def intro: fold_rules_safe fold_rules_shrinks\<close>)

lemma fold_class_tracks:
  assumes cs: "class_semiring bl S D" and cl: "closed_ops S D" and pm: "ran pm \<subseteq> D" and ok: "uuids_ok c0"
  shows "tracks S cat pm c0 c \<Longrightarrow> ranked rk c \<Longrightarrow> fold_class bl c = Some c' \<Longrightarrow> tracks S cat pm c0 c'"
proof (induction "weight rk c" arbitrary: c rule: less_induct)
  case less
  obtain c1 b1 where 1: "applyFoldRuleSweep bl c = (c1, b1)" by fastforce
  have f: "foldable S pm c" using less.prems(1) by (simp add: tracks_def)
  have s1: "shrinks rk c (c1, b1)" using applyFoldRuleSweep_shrinks[OF less.prems(2), of bl] 1 by simp
  then have r1: "ranked rk c1" by (simp add: shrinks_def)
  have t1: "tracks S cat pm c0 c1"
    using tracks_safe[OF less.prems(1)] applyFoldRuleSweep_safe[OF cs cl pm less.prems(2) f, of cat] 1 by simp
  obtain c2 b2 where 2: "foldSemiringIdentities c1 = Some (c2, b2)" "shrinks rk c1 (c2, b2)"
    using foldSemiringIdentities_total[OF r1] by blast
  have t2: "tracks S cat pm c0 c2" and r2: "ranked rk c2"
    using semiring_laws.foldSemiringIdentities_tracks[OF class_laws[OF cs] cl pm ok t1 r1 2(1)] by simp_all
  have s: "shrinks rk c (c2, b1 \<or> b2)" by (rule shrinks_trans[OF s1 2(2)])
  show ?case
  proof (cases "b1 \<or> b2")
    case True
    with s have "weight rk c2 < weight rk c" by (simp add: shrinks_def)
    from less(1)[OF this t2 r2] True less.prems(3) fold_class_step[OF 1 2(1)] show ?thesis by simp
  next
    case False
    with less.prems(3) fold_class_step[OF 1 2(1)] t2 show ?thesis by simp
  qed
qed

section \<open>The folding theorems\<close>

text \<open>C5: The semiring-safe folding keeps provenance in every commutative semiring: on an acyclic
  circuit every UUID still resolves, and to a gate that denotes what its gate denoted before, although
  gates were collapsed, rewired and orphaned on the way.\<close>

theorem foldSemiringIdentities_correct:
  assumes "semiring_laws S D" "closed_ops S D" "ran pm \<subseteq> D" "ranked rk c" "uuids_ok c" "foldable S pm c"
    and "uuid2id c u = Some g" "denotes S cat c pm g v"
  shows "\<exists>c' b g'. foldSemiringIdentities c = Some (c', b) \<and> uuid2id c' u = Some g' \<and> denotes S cat c' pm g' v"
proof -
  obtain c' b where fold: "foldSemiringIdentities c = Some (c', b)" using foldSemiringIdentities_total[OF assms(4)] by blast
  have "tracks S cat pm c c'"
    using semiring_laws.foldSemiringIdentities_tracks[OF assms(1-3,5) tracks_refl[OF assms(5,6)] assms(4) fold] by simp
  with assms(7,8) fold show ?thesis unfolding tracks_def by blast
qed

text \<open>C6: The class-gated folding keeps provenance in its class: the absorptive rules in every
  absorptive semiring that reports \<open>absorptive()\<close>, all rules in every semiring that is also compatible
  with Boolean rewriting.\<close>

theorem foldClass_correct:
  assumes "class_semiring bl S D" "closed_ops S D" "ran pm \<subseteq> D" "ranked rk c" "uuids_ok c" "foldable S pm c"
    and "uuid2id c u = Some g" "denotes S cat c pm g v"
  shows "\<exists>c' g'. (if bl then foldBooleanIdentities c else foldAbsorptiveIdentities c) = Some c' \<and>
    uuid2id c' u = Some g' \<and> denotes S cat c' pm g' v"
proof -
  obtain c' where fold: "fold_class bl c = Some c'" using fold_class_total[OF assms(4)] by blast
  have "tracks S cat pm c c'"
    by (rule fold_class_tracks[OF assms(1-3,5) tracks_refl[OF assms(5,6)] assms(4) fold])
  with assms(7,8) obtain g' where "uuid2id c' u = Some g'" "denotes S cat c' pm g' v" unfolding tracks_def by blast
  with fold show ?thesis by (auto simp: foldBooleanIdentities_def foldAbsorptiveIdentities_def)
qed

text \<open>An example: \<open>x \<otimes> x \<oplus> y\<close>, with the names of its gates.\<close>

definition square_example :: generic_circuit where
  "square_example = empty_circuit
     \<lparr>uuid2id := [''x'' \<mapsto> 0, ''y'' \<mapsto> 1, ''xx'' \<mapsto> 2, ''r'' \<mapsto> 3],
      id2uuid := [0 \<mapsto> ''x'', 1 \<mapsto> ''y'', 2 \<mapsto> ''xx'', 3 \<mapsto> ''r''],
      gates := [gate_input, gate_input, gate_times, gate_plus],
      wires := [[], [], [0, 0], [2, 1]], prob := [1, 1, 1, 1], inputs := {0, 1}\<rparr>"

lemma square_example_ok:
  "ranked id square_example" "uuids_ok square_example" "foldable S pm square_example \<longleftrightarrow> pm 2 = None \<and> pm 3 = None"
proof -
  show "ranked id square_example"
    by (simp add: ranked_def square_example_def less_Suc_eq numeral_nat)
  show "uuids_ok square_example"
    unfolding uuids_ok_def square_example_def by (auto split: if_splits)
  show "foldable S pm square_example \<longleftrightarrow> pm 2 = None \<and> pm 3 = None"
    by (auto simp: foldable_def square_example_def empty_circuit_def marker_check_def getGateType_def is_pt_def
        less_Suc_eq numeral_nat)
qed

definition eval_value :: "'s semiring \<Rightarrow> generic_circuit \<Rightarrow> gate_t \<Rightarrow> (gate_t \<rightharpoonup> 's) \<Rightarrow> (exn + 's) option" where
  "eval_value S c g pm = map_option (map_sum id fst) (evaluate S no_catalog c g pm)"

lemma eval_value_denotes:
  assumes "semiring_laws S D" "closed_ops S D" "ran pm \<subseteq> D" "eval_value S c g pm = Some (Inr v)"
  shows "denotes S no_catalog c pm g v"
proof -
  from result_value[of "evaluate S no_catalog c g pm" v] assms(4)
  obtain pm' where "evaluate S no_catalog c g pm = Some (Inr (v, pm'))" by (auto simp: eval_value_def)
  with semiring_laws.evaluate_sound[OF assms(1-3)] show ?thesis by blast
qed

lemma closed_ops_simple: "closed_ops CountingS UNIV" "closed_ops BooleanS UNIV"
  by (simp_all add: closed_ops_def)

lemma foldSemiringIdentities_correct_witness:
  "\<exists>c' b g'. foldSemiringIdentities square_example = Some (c', b) \<and> uuid2id c' ''r'' = Some g' \<and>
     denotes CountingS no_catalog c' [0 \<mapsto> 2, 1 \<mapsto> 3] g' 7"
proof (rule foldSemiringIdentities_correct[OF counting.semiring_laws_axioms closed_ops_simple(1)])
  show "denotes CountingS no_catalog square_example [0 \<mapsto> 2, 1 \<mapsto> 3] 3 7"
    by (rule eval_value_denotes[OF counting.semiring_laws_axioms closed_ops_simple(1)]) (simp, code_simp)
  show "uuid2id square_example ''r'' = Some 3" by (simp add: square_example_def)
  show "ranked id square_example" by (rule square_example_ok(1))
qed (simp_all add: square_example_ok)

lemma foldClass_correct_witness:
  "\<exists>c' g'. foldBooleanIdentities square_example = Some c' \<and> uuid2id c' ''r'' = Some g' \<and>
     denotes BooleanS no_catalog c' [0 \<mapsto> True, 1 \<mapsto> False] g' True"
proof -
  have cs: "class_semiring True BooleanS UNIV"
    using boolean.absorptive_laws_axioms boolean.boolean_laws_axioms by (simp add: class_semiring_def)
  have "denotes BooleanS no_catalog square_example [0 \<mapsto> True, 1 \<mapsto> False] 3 True"
    by (rule eval_value_denotes[OF boolean.semiring_laws_axioms closed_ops_simple(2)]) (simp, code_simp)
  moreover have "uuid2id square_example ''r'' = Some 3" by (simp add: square_example_def)
  moreover have "foldable BooleanS [0 \<mapsto> True, 1 \<mapsto> False] square_example" by (simp add: square_example_ok(3))
  ultimately show ?thesis
    using foldClass_correct[OF cs closed_ops_simple(2) subset_UNIV square_example_ok(1,2)] by simp
qed

text \<open>The in-memory marker does not protect a circuit folded under the Boolean class.  Folding
  \<open>x \<otimes> x \<oplus> y\<close> collapses the product onto the input x and moves its Boolean marker there; when the
  inputs are preloaded in the mapping the evaluator never visits x, so the Counting semiring is not
  refused and the result for x = 2, y = 3 is 5, where the circuit denotes 7.\<close>

lemma boolean_fold_not_refused:
  "map_option (\<lambda>c. (boolean_assumed_gates c = {0, 2}, uuid2id c ''r'',
       eval_value CountingS c 3 [0 \<mapsto> 2, 1 \<mapsto> 3])) (foldBooleanIdentities square_example) =
     Some (True, Some 3, Some (Inr 5)) \<and>
   eval_value CountingS square_example 3 [0 \<mapsto> 2, 1 \<mapsto> 3] = Some (Inr 7)"
  by code_simp

end
