(* ===== verification/ValidWorlds.thy ===== *)
theory ValidWorlds
  imports Aggregation
begin

text \<open>
  \<open>src/subset.cpp\<close>: enumeration of the possible worlds (sets of present tuples, as bit masks) in
  which an aggregate comparison of a HAVING clause holds.  The functions are transcribed in the
  order of the file.  The reference parameter \<open>upset\<close> is threaded explicitly; a result
  \<open>None\<close> of \<open>sum_dp\<close> is the internal \<open>DPException\<close>.  The abstract specification is the set of
  masks in which \<open>agg_cmp_holds_in_world\<close> answers true.
\<close>

section \<open>Counting through the worlds\<close>

fun increment :: "mask \<Rightarrow> mask \<times> bool" where
  "increment [] = ([], False)"
| "increment (b # bs) =
     (if \<not> b then (True # bs, True)
      else (let (bs', more) = increment bs in (False # bs', more)))"

fun mask_val :: "mask \<Rightarrow> nat" where
  "mask_val [] = 0"
| "mask_val (b # bs) = (if b then 1 else 0) + 2 * mask_val bs"

lemma mask_val_less: "mask_val m < 2 ^ length m"
  by (induction m) auto

lemma mask_val_inj: "length a = length b \<Longrightarrow> mask_val a = mask_val b \<Longrightarrow> a = b"
proof (induction a arbitrary: b)
  case (Cons x xs)
  then obtain y ys where b: "b = y # ys" "length xs = length ys" by (cases b) auto
  with Cons.prems have "(if x then 1 else 0) + 2 * mask_val xs = (if y then 1 else 0) + 2 * mask_val ys"
    by simp
  then have "x = y \<and> mask_val xs = mask_val ys" by (auto split: if_splits) presburger+
  with Cons.IH b show ?case by simp
qed simp

lemma increment_length [simp]: "length (fst (increment m)) = length m"
  by (induction m) (auto split: prod.splits)

lemma increment_more: "snd (increment m) \<Longrightarrow> mask_val (fst (increment m)) = mask_val m + 1"
  by (induction m) (auto split: prod.splits)

lemma increment_stop: "\<not> snd (increment m) \<longleftrightarrow> mask_val m + 1 = 2 ^ length m"
proof (induction m)
  case (Cons b bs)
  have "2 * mask_val bs + 2 = 2 * 2 ^ length bs \<longleftrightarrow> mask_val bs + 1 = 2 ^ length bs" by linarith
  moreover have "2 * mask_val bs + 1 \<noteq> 2 * (2::nat) ^ length bs" by presburger
  ultimately show ?case using Cons by (auto split: prod.splits)
qed simp

text \<open>The masks visited by \<open>while(increment(mask))\<close> started on m.\<close>

function worlds_from :: "mask \<Rightarrow> mask list" where
  "worlds_from m =
     (if snd (increment m) then fst (increment m) # worlds_from (fst (increment m)) else [])"
  by pat_completeness auto
termination
proof (relation "measure (\<lambda>m. 2 ^ length m - mask_val m)", simp_all)
  fix m assume "snd (increment m)"
  with increment_more mask_val_less[of m] increment_stop[of m]
  show "2 ^ length m - mask_val (fst (increment m)) < 2 ^ length m - mask_val m" by simp
qed

declare worlds_from.simps [simp del]

lemma set_worlds_from:
  "set (worlds_from m) = {m'. length m' = length m \<and> mask_val m < mask_val m'}"
proof (induction m rule: worlds_from.induct)
  case (1 m)
  show ?case
  proof (cases "snd (increment m)")
    case True
    let ?m = "fst (increment m)"
    have v: "mask_val ?m = mask_val m + 1" by (rule increment_more[OF True])
    have "m' = ?m" if "length m' = length m" "mask_val m' = mask_val ?m" for m'
      by (rule mask_val_inj) (simp_all add: that)
    then have "insert ?m {m'. length m' = length ?m \<and> mask_val ?m < mask_val m'}
        = {m'. length m' = length m \<and> mask_val m < mask_val m'}"
      by (auto simp: v) (metis less_SucI Suc_lessI)
    with 1 True show ?thesis by (subst worlds_from.simps) simp
  next
    case False
    then have "mask_val m + 1 = 2 ^ length m" by (simp add: increment_stop)
    then have "\<not> mask_val m < mask_val m'" if "length m' = length m" for m'
      using mask_val_less[of m'] that by simp
    with False show ?thesis by (subst worlds_from.simps) auto
  qed
qed

lemma distinct_worlds_from: "distinct (worlds_from m)"
proof (induction m rule: worlds_from.induct)
  case (1 m)
  then show ?case by (subst worlds_from.simps) (simp add: set_worlds_from)
qed

definition all_worlds :: "int list \<Rightarrow> mask list" where
  "all_worlds values = worlds_from (no_bits (length values))"

lemma mask_val_pos: "0 < mask_val m \<longleftrightarrow> m \<noteq> no_bits (length m)"
  by (induction m) (auto simp: no_bits_def)

lemma mask_val_no_bits [simp]: "mask_val (no_bits n) = 0"
  using mask_val_pos[of "no_bits n"] by simp

lemma set_worlds: "set (worlds_from (no_bits n)) = masks n - {no_bits n}"
  using mask_val_pos by (auto simp: set_worlds_from masks_def)

lemma set_all_worlds: "set (all_worlds values) = masks (length values) - {no_bits (length values)}"
  by (simp add: all_worlds_def set_worlds)

lemma distinct_all_worlds: "distinct (all_worlds values)"
  by (simp add: all_worlds_def distinct_worlds_from)

section \<open>Aggregates in one world\<close>

definition selected :: "'a list \<Rightarrow> mask \<Rightarrow> 'a list" where
  "selected values m = map fst (filter snd (zip values m))"

definition evaluate :: "int list \<Rightarrow> mask \<Rightarrow> int \<Rightarrow> cmp_op \<Rightarrow> aggregator \<Rightarrow> agg_exn + bool" where
  "evaluate values m constant op aggregator =
     bind_result (agg_feed aggregator (selected values m)) (\<lambda>a.
       let res = agg_finalize a in
       case agg_resultType a of
         TINT \<Rightarrow> bind_result (get_long (av_v res)) (\<lambda>l. Inr (compare l op constant))
       | TBOOLEAN \<Rightarrow> bind_result (get_bool (av_v res)) (\<lambda>b. Inr (compare (of_bool b) op constant))
       | TFLOAT \<Rightarrow> bind_result (get_double (av_v res)) (\<lambda>d. Inr (compare d op (of_int constant)))
       | _ \<Rightarrow> Inl (RuntimeError ''Cannot compare this kind of value''))"

definition agg_cmp_holds_in_world ::
  "int list \<Rightarrow> mask \<Rightarrow> int \<Rightarrow> cmp_op \<Rightarrow> agg_op \<Rightarrow> agg_exn + bool" where
  "agg_cmp_holds_in_world values present constant op agg_kind =
     (if True \<notin> set present then Inr False
      else bind_result (makeAggregator agg_kind TINT) (evaluate values present constant op))"

lemma selected_Nil [simp]: "selected [] m = []" "selected vs [] = []"
  by (simp_all add: selected_def)

lemma selected_Cons [simp]:
  "selected (v # vs) (b # bs) = (if b then v # selected vs bs else selected vs bs)"
  by (simp add: selected_def)

lemma sum_list_selected: "sum_list (selected vs m) = masked_sum vs m"
  by (induction vs m rule: masked_sum.induct) auto

lemma selected_eq_Nil_iff:
  "length m = length vs \<Longrightarrow> selected vs m = [] \<longleftrightarrow> True \<notin> set m"
  by (induction m vs rule: list_induct2) auto

lemma True_in_mask_iff: "True \<in> set m \<longleftrightarrow> m \<noteq> no_bits (length m)"
  by (induction m) (auto simp: no_bits_def)

definition sum_like :: "agg_op \<Rightarrow> bool" where
  "sum_like agg \<longleftrightarrow> agg = AggSUM \<or> agg = AggCOUNT"

definition supported_agg :: "agg_op \<Rightarrow> bool" where
  "supported_agg agg \<longleftrightarrow> agg \<in> {AggCOUNT, AggSUM, AggMIN, AggMAX, AggAVG, AggCHOOSE}"

lemma holds_sum_like:
  assumes "sum_like agg" "m \<noteq> no_bits (length m)"
  shows "agg_cmp_holds_in_world values m c op agg = Inr (compare (masked_sum values m) op c)"
proof -
  have "makeAggregator agg TINT = Inr (SumLong 0 False)"
    using assms(1) by (auto simp: sum_like_def makeAggregator_def)
  moreover have "evaluate values m c op (SumLong 0 False) = Inr (compare (masked_sum values m) op c)"
    by (cases "selected values m")
       (auto simp: evaluate_def feed_SumLong agg_null_def sum_list_selected[symmetric])
  ultimately show ?thesis
    using assms(2) by (simp add: agg_cmp_holds_in_world_def True_in_mask_iff)
qed

lemma holds_MinMax:
  assumes m: "length m = length values" "m \<noteq> no_bits (length m)"
  shows "agg_cmp_holds_in_world values m c op AggMIN = Inr (compare (Min (set (selected values m))) op c)"
    and "agg_cmp_holds_in_world values m c op AggMAX = Inr (compare (Max (set (selected values m))) op c)"
    and "agg_cmp_holds_in_world values m c op AggCHOOSE = Inr (compare (hd (selected values m)) op c)"
    and "agg_cmp_holds_in_world values m c op AggAVG = Inr
          (compare (of_int (masked_sum values m) / of_nat (length (selected values m))) op (of_int c :: real))"
proof -
  from m have "selected values m \<noteq> []" by (simp add: selected_eq_Nil_iff True_in_mask_iff)
  then obtain v vs where s: "selected values m = v # vs" by (cases "selected values m") auto
  have e: "masked_sum values m = v + sum_list vs" by (simp flip: sum_list_selected add: s)
  show "agg_cmp_holds_in_world values m c op AggMIN = Inr (compare (Min (set (selected values m))) op c)"
    and "agg_cmp_holds_in_world values m c op AggMAX = Inr (compare (Max (set (selected values m))) op c)"
    and "agg_cmp_holds_in_world values m c op AggCHOOSE = Inr (compare (hd (selected values m)) op c)"
    using m by (simp_all add: agg_cmp_holds_in_world_def True_in_mask_iff makeAggregator_def
        evaluate_def s feed_simps min_add_def max_add_def)
  show "agg_cmp_holds_in_world values m c op AggAVG = Inr
          (compare (of_int (masked_sum values m) / of_nat (length (selected values m))) op (of_int c :: real))"
    using m by (simp add: agg_cmp_holds_in_world_def True_in_mask_iff makeAggregator_def
        evaluate_def s feed_simps e add.commute)
qed

lemma holds_no_throw:
  assumes "supported_agg agg" "length m = length values"
  shows "\<exists>b. agg_cmp_holds_in_world values m c op agg = Inr b"
proof (cases "m = no_bits (length m)")
  case True
  then have "agg_cmp_holds_in_world values m c op agg = Inr False"
    using True_in_mask_iff by (simp add: agg_cmp_holds_in_world_def)
  then show ?thesis by blast
next
  case False
  with assms holds_MinMax holds_sum_like show ?thesis
    by (auto simp: supported_agg_def sum_like_def)
qed

lemma holds_empty [simp]: "agg_cmp_holds_in_world values (no_bits n) c op agg = Inr False"
  by (simp add: agg_cmp_holds_in_world_def no_bits_def)

text \<open>The worlds that satisfy the predicate: what every enumerator is specified against.\<close>

definition valid_worlds :: "int list \<Rightarrow> int \<Rightarrow> cmp_op \<Rightarrow> agg_op \<Rightarrow> mask set" where
  "valid_worlds values c op agg =
     {m \<in> masks (length values). agg_cmp_holds_in_world values m c op agg = Inr True}"

lemma valid_worlds_sum_like:
  "sum_like agg \<Longrightarrow> valid_worlds values c op agg =
     {m \<in> masks (length values). m \<noteq> no_bits (length values) \<and> compare (masked_sum values m) op c}"
proof -
  assume a: "sum_like agg"
  have "agg_cmp_holds_in_world values m c op agg = Inr True \<longleftrightarrow>
      m \<noteq> no_bits (length values) \<and> compare (masked_sum values m) op c"
    if "length m = length values" for m
    using holds_sum_like[OF a, of m] that by (cases "m = no_bits (length values)") auto
  then show ?thesis by (auto simp: valid_worlds_def masks_def)
qed

end
