(* ===== verification/SumDp.thy ===== *)
theory SumDp
  imports ValidWorlds
begin

text \<open>
  \<open>sum_dp\<close> of \<open>src/subset.cpp\<close>: the pseudo-polynomial enumeration of the worlds whose selected
  values sum to something that satisfies the comparison.  \<open>dp ! k\<close> is the bucket of worlds with
  sum k.  On an absorptive semiring a world of GT or GE that already satisfies the predicate is not
  extended any further, and the flag \<open>upset\<close> records that the result is to be read as the set of
  all supersets of the worlds returned.

  The key lemma \<open>dp_items_inv\<close> characterises every bucket; \<open>dp_worlds_complete\<close> and
  \<open>dp_worlds_upset\<close> turn it into the meaning of the result without and with the flag.
\<close>

section \<open>The dynamic program\<close>

definition append_range :: "mask list list \<Rightarrow> int \<Rightarrow> int \<Rightarrow> mask list" where
  "append_range dp lo hi =
     (if dp = [] then []
      else (let J = int (length dp) - 1; lo' = max lo 0; hi' = min hi J in
        if lo' > hi' then [] else concat (map (\<lambda>j. dp ! nat j) [lo'..hi'])))"

definition absorbed :: "bool \<Rightarrow> cmp_op \<Rightarrow> int \<Rightarrow> int \<Rightarrow> bool" where
  "absorbed absorptive op C p \<longleftrightarrow>
     absorptive \<and> ((op = GT \<and> p > C) \<or> (op = GE \<and> p \<ge> C))"

definition dp_cell ::
  "bool \<Rightarrow> cmp_op \<Rightarrow> int \<Rightarrow> nat \<Rightarrow> int \<Rightarrow> bool \<times> mask list list \<Rightarrow> int \<Rightarrow> bool \<times> mask list list" where
  "dp_cell absorptive op C i w st j =
     (let (upset, dp) = st; p = j - w in
      if absorbed absorptive op C p then (True, dp)
      else (upset, dp[nat j := dp ! nat j @ map (\<lambda>m. m[i := True]) (dp ! nat p)]))"

definition dp_item ::
  "bool \<Rightarrow> cmp_op \<Rightarrow> int \<Rightarrow> nat \<Rightarrow> int \<Rightarrow> int \<Rightarrow> bool \<times> mask list list \<Rightarrow> bool \<times> mask list list" where
  "dp_item absorptive op C i w j_max st = foldl (dp_cell absorptive op C i w) st (rev [w..j_max])"

fun dp_items ::
  "bool \<Rightarrow> cmp_op \<Rightarrow> int \<Rightarrow> int \<Rightarrow> nat \<Rightarrow> int \<Rightarrow> int list \<Rightarrow> bool \<times> mask list list \<Rightarrow> bool \<times> mask list list"
where
  "dp_items absorptive op C J i pref_sum [] st = st"
| "dp_items absorptive op C J i pref_sum (w # ws) st =
     (let pref_sum' = pref_sum + w in
      dp_items absorptive op C J (Suc i) pref_sum' ws
        (dp_item absorptive op C i w (min J pref_sum') st))"

definition sum_dp_limit :: "cmp_op \<Rightarrow> int \<Rightarrow> int \<Rightarrow> int" where
  "sum_dp_limit op C T =
     (if op = GT \<or> op = GE then T else if op = LT then min (C - 1) T else min C T)"

definition SUM_DP_MAX_J :: int where
  "SUM_DP_MAX_J = 10000000"

definition sum_dp_select :: "cmp_op \<Rightarrow> int \<Rightarrow> int \<Rightarrow> mask list list \<Rightarrow> mask list" where
  "sum_dp_select op C J dp = (case op of
     EQ \<Rightarrow> append_range dp C C
   | GT \<Rightarrow> append_range dp (C + 1) J
   | LT \<Rightarrow> append_range dp 0 (C - 1)
   | GE \<Rightarrow> append_range dp C J
   | LE \<Rightarrow> append_range dp 0 C
   | NE \<Rightarrow> [])"

text \<open>The part of \<open>sum_dp\<close> after the early returns: the table, the range, the empty world.\<close>

definition sum_dp_run ::
  "int list \<Rightarrow> int \<Rightarrow> cmp_op \<Rightarrow> bool \<Rightarrow> bool \<Rightarrow> bool \<Rightarrow> int \<Rightarrow> bool \<times> mask list option" where
  "sum_dp_run values C op absorptive upset keep_empty J =
     (let n = length values;
          (upset', dp) = dp_items absorptive op C J 0 0 values
             (upset, (replicate (nat J + 1) [])[0 := [no_bits n]]);
          R = filter (\<lambda>m. True \<in> set m) (sum_dp_select op C J dp);
          R' = (if keep_empty \<and> compare 0 op C then R @ [no_bits n] else R)
      in (upset', Some R'))"

function sum_dp ::
  "int list \<Rightarrow> int \<Rightarrow> cmp_op \<Rightarrow> bool \<Rightarrow> bool \<Rightarrow> bool \<Rightarrow> bool \<times> mask list option" where
  "sum_dp values C op absorptive upset keep_empty =
    (if op = NE then
       (case sum_dp values C LT absorptive upset keep_empty of
          (upset1, None) \<Rightarrow> (upset1, None)
        | (upset1, Some lt) \<Rightarrow>
            (case sum_dp values C GT absorptive upset1 keep_empty of
               (upset2, None) \<Rightarrow> (upset2, None)
             | (upset2, Some gt) \<Rightarrow> (upset2, Some (lt @ gt))))
     else if \<exists>w \<in> set values. w < 0 then (upset, None)
     else
       (let T = sum_list values in
        if op = GT \<and> C \<ge> T then (upset, Some [])
        else if op = GE \<and> C > T then (upset, Some [])
        else if op = LT \<and> C \<le> 0 then (upset, Some [])
        else if op = LE \<and> C < 0 then (upset, Some [])
        else if op = EQ \<and> (C > T \<or> C < 0) then (upset, Some [])
        else if op = GT \<and> C < 0 then (upset, Some (all_worlds values))
        else if op = GE \<and> C \<le> 0 then (upset, Some (all_worlds values))
        else if op = LT \<and> C > T then (upset, Some (all_worlds values))
        else if op = LE \<and> C \<ge> T then (upset, Some (all_worlds values))
        else
          (let J = sum_dp_limit op C T in
           if J > SUM_DP_MAX_J then (upset, None)
           else sum_dp_run values C op absorptive upset keep_empty J)))"
  by pat_completeness auto
termination
  by (relation "measure (\<lambda>(values, C, op, a, u, k). if op = NE then 1 else 0)") auto

declare sum_dp.simps [simp del]

section \<open>One item\<close>

text \<open>Masks that only use the positions below i, and the sum over the positions below x.\<close>

definition below :: "nat \<Rightarrow> nat \<Rightarrow> mask set" where
  "below n i = {m \<in> masks n. \<forall>x < n. i \<le> x \<longrightarrow> \<not> m ! x}"

definition prefix_sum :: "int list \<Rightarrow> mask \<Rightarrow> nat \<Rightarrow> int" where
  "prefix_sum vs m x = masked_sum (take x vs) (take x m)"

text \<open>A world that the program builds: none of its bits was added to an absorbed world.\<close>

definition kept :: "bool \<Rightarrow> cmp_op \<Rightarrow> int \<Rightarrow> int list \<Rightarrow> mask \<Rightarrow> bool" where
  "kept a op C vs m \<longleftrightarrow> (\<forall>x < length vs. m ! x \<longrightarrow> \<not> absorbed a op C (prefix_sum vs m x))"

definition cells_result ::
  "bool \<Rightarrow> cmp_op \<Rightarrow> int \<Rightarrow> nat \<Rightarrow> int \<Rightarrow> int \<Rightarrow> mask list list \<Rightarrow> mask list list" where
  "cells_result a op C i w j_max dp = map (\<lambda>k.
     if w \<le> int k \<and> int k \<le> j_max \<and> \<not> absorbed a op C (int k - w)
     then dp ! k @ map (\<lambda>m. m[i := True]) (dp ! nat (int k - w)) else dp ! k) [0..<length dp]"

lemma cells_result_nth:
  "k < length dp \<Longrightarrow> cells_result a op C i w j_max dp ! k =
     (if w \<le> int k \<and> int k \<le> j_max \<and> \<not> absorbed a op C (int k - w)
      then dp ! k @ map (\<lambda>m. m[i := True]) (dp ! nat (int k - w)) else dp ! k)"
  by (simp add: cells_result_def)

lemma length_cells_result [simp]: "length (cells_result a op C i w j_max dp) = length dp"
  by (simp add: cells_result_def)

lemma rev_upto_last: "w \<le> j \<Longrightarrow> rev [w..j] = j # rev [w..j - 1]" for w j :: int
  by (simp add: upto_rec2)

lemma dp_item_eq:
  assumes "0 \<le> w" "j_max < int (length dp)"
  shows "dp_item a op C i w j_max (u, dp) =
    (u \<or> (\<exists>j \<in> {w..j_max}. absorbed a op C (j - w)), cells_result a op C i w j_max dp)"
  unfolding dp_item_def using assms(2)
proof (induction "nat (j_max - w + 1)" arbitrary: j_max dp u)
  case 0
  then have "j_max < w" by simp
  then have "cells_result a op C i w j_max dp = dp"
    by (intro nth_equalityI) (auto simp: cells_result_def)
  with \<open>j_max < w\<close> show ?case by simp
next
  case (Suc d)
  then have wj: "w \<le> j_max" and d: "d = nat (j_max - 1 - w + 1)" by simp_all
  have range: "{w..j_max} = insert j_max {w..j_max - 1}" using wj by auto
  show ?case
  proof (cases "absorbed a op C (j_max - w)")
    case True
    have "cells_result a op C i w (j_max - 1) dp = cells_result a op C i w j_max dp"
      using True by (auto simp: cells_result_def)
    with Suc.hyps(1)[OF d, of dp True] Suc.prems True wj show ?thesis
      by (simp add: rev_upto_last dp_cell_def range)
  next
    case False
    let ?dp = "dp[nat j_max := dp ! nat j_max @ map (\<lambda>m. m[i := True]) (dp ! nat (j_max - w))]"
    have "cells_result a op C i w (j_max - 1) ?dp ! k = cells_result a op C i w j_max dp ! k"
      if k: "k < length dp" for k
    proof (cases "int k = j_max")
      case True
      then have "nat j_max = k" by (metis nat_int)
      with True show ?thesis using k False wj by (simp add: cells_result_nth)
    next
      case k_other: False
      then have "nat j_max \<noteq> k" using wj assms(1) by auto
      moreover have "nat j_max \<noteq> nat (int k - w)" if "w \<le> int k" "int k \<le> j_max"
        using that k_other assms(1) by linarith
      ultimately show ?thesis using k k_other by (simp add: cells_result_nth)
    qed
    then have "cells_result a op C i w (j_max - 1) ?dp = cells_result a op C i w j_max dp"
      by (intro nth_equalityI) simp_all
    with Suc.hyps(1)[OF d, of ?dp u] Suc.prems False wj show ?thesis
      by (simp add: rev_upto_last dp_cell_def range)
  qed
qed

section \<open>The invariant of the table\<close>

lemma below_0 [simp]: "below n 0 = {no_bits n}"
  by (auto simp: below_def masks_def no_bits_def list_eq_iff_nth_eq)

lemma below_n [simp]: "below n n = masks n"
  by (auto simp: below_def)

lemma prefix_sum_update [simp]: "x \<le> i \<Longrightarrow> prefix_sum vs (m[i := b]) x = prefix_sum vs m x"
  by (simp add: prefix_sum_def)

lemma masked_sum_append:
  "length a = length vs \<Longrightarrow> masked_sum (vs @ ws) (a @ b) = masked_sum vs a + masked_sum ws b"
  by (induction a vs rule: list_induct2) auto

lemma masked_sum_all_False: "True \<notin> set m \<Longrightarrow> masked_sum vs m = 0"
  by (induction vs m rule: masked_sum.induct) auto

lemma below_sum:
  assumes "m \<in> below (length vs) i" "i \<le> length vs"
  shows "masked_sum vs m = prefix_sum vs m i"
proof -
  from assms have len: "length m = length vs" by (simp add: below_def masks_def)
  have "True \<notin> set (drop i m)"
    using assms len by (auto simp: below_def in_set_conv_nth)
  then show ?thesis
    using masked_sum_append[of "take i m" "take i vs" "drop i vs" "drop i m"] len
    by (simp add: prefix_sum_def masked_sum_all_False)
qed

lemma below_sum_le:
  assumes "m \<in> below (length vs) i" "i \<le> length vs" "\<forall>v \<in> set vs. 0 \<le> v"
  shows "masked_sum vs m \<le> sum_list (take i vs)"
  using assms masked_sum_le_total[of "take i vs"]
  by (auto simp: below_sum prefix_sum_def dest: in_set_takeD)

definition bucket :: "bool \<Rightarrow> cmp_op \<Rightarrow> int \<Rightarrow> int list \<Rightarrow> nat \<Rightarrow> int \<Rightarrow> mask set" where
  "bucket a op C vs i k = {m \<in> below (length vs) i. masked_sum vs m = k \<and> kept a op C vs m}"

lemma bucket_Suc:
  assumes i: "i < length vs"
  shows "bucket a op C vs (Suc i) k = bucket a op C vs i k \<union>
    (if absorbed a op C (k - vs ! i) then {} else (\<lambda>m. m[i := True]) ` bucket a op C vs i (k - vs ! i))"
    (is "?L = _ \<union> ?R")
proof (intro equalityI subsetI)
  fix m assume m: "m \<in> ?L"
  then have len: "length m = length vs" by (simp add: bucket_def below_def masks_def)
  show "m \<in> bucket a op C vs i k \<union> ?R"
  proof (cases "m ! i")
    case False
    with m show ?thesis by (auto simp: bucket_def below_def le_Suc_eq Suc_le_eq)
  next
    case True
    let ?m = "m[i := False]"
    have b: "?m \<in> below (length vs) i"
      using m i by (auto simp: bucket_def below_def masks_def nth_list_update Suc_le_eq)
    have s: "masked_sum vs ?m = k - vs ! i"
      using m True i len by (simp add: masked_sum_clear bucket_def)
    have ps: "prefix_sum vs m i = k - vs ! i"
      using below_sum[OF b] s i by simp
    have k: "kept a op C vs ?m"
      unfolding kept_def
    proof (intro allI impI)
      fix x assume x: "x < length vs" "?m ! x"
      then have "x < i" using b by (auto simp: below_def not_less)
      with x m show "\<not> absorbed a op C (prefix_sum vs ?m x)"
        by (simp add: bucket_def kept_def)
    qed
    have "\<not> absorbed a op C (k - vs ! i)" using m True i ps by (auto simp: bucket_def kept_def)
    moreover have "?m \<in> bucket a op C vs i (k - vs ! i)" using b s k by (simp add: bucket_def)
    moreover have "m = ?m[i := True]" using True by (metis list_update_id list_update_overwrite)
    ultimately have "m \<in> ?R" by (metis (no_types, lifting) image_eqI)
    then show ?thesis ..
  qed
next
  fix m assume "m \<in> bucket a op C vs i k \<union> ?R"
  then consider "m \<in> bucket a op C vs i k"
    | m' where "\<not> absorbed a op C (k - vs ! i)" "m' \<in> bucket a op C vs i (k - vs ! i)" "m = m'[i := True]"
    by (auto split: if_splits)
  then show "m \<in> ?L"
  proof cases
    case 1
    then show ?thesis by (auto simp: bucket_def below_def)
  next
    case 2
    then have len: "length m' = length vs" and off: "\<not> m' ! i"
      using i by (auto simp: bucket_def below_def masks_def)
    have b: "m \<in> below (length vs) (Suc i)"
      using 2 by (auto simp: bucket_def below_def masks_def nth_list_update)
    have ps: "prefix_sum vs m' i = k - vs ! i"
      using 2 i below_sum[of m' vs i] by (simp add: bucket_def)
    have "kept a op C vs m"
      unfolding kept_def
    proof (intro allI impI)
      fix x assume x: "x < length vs" "m ! x"
      show "\<not> absorbed a op C (prefix_sum vs m x)"
      proof (cases "x = i")
        case True
        with 2 ps show ?thesis by simp
      next
        case False
        with x 2 have mx: "m' ! x" by simp
        with 2 x have "x < i" by (auto simp: bucket_def below_def not_less)
        with mx x 2 show ?thesis by (simp add: bucket_def kept_def)
      qed
    qed
    moreover have "masked_sum vs m = k"
      using 2 i len off by (simp add: masked_sum_set bucket_def)
    ultimately show ?thesis using b by (simp add: bucket_def)
  qed
qed

definition dp_inv ::
  "bool \<Rightarrow> cmp_op \<Rightarrow> int \<Rightarrow> int \<Rightarrow> int list \<Rightarrow> nat \<Rightarrow> bool \<times> mask list list \<Rightarrow> bool" where
  "dp_inv a op C J vs i st \<longleftrightarrow> (case st of (u, dp) \<Rightarrow>
     length dp = nat J + 1 \<and>
     (\<forall>k < length dp. distinct (dp ! k) \<and> set (dp ! k) = bucket a op C vs i (int k)) \<and>
     (u \<longrightarrow> a \<and> (op = GT \<or> op = GE)) \<and>
     (\<not> u \<longrightarrow> (\<forall>m \<in> below (length vs) i. masked_sum vs m \<le> J \<longrightarrow> kept a op C vs m)))"

lemma bucket_neg:
  "\<forall>v \<in> set vs. 0 \<le> v \<Longrightarrow> k < 0 \<Longrightarrow> bucket a op C vs i k = {}"
  using masked_sum_nonneg[of vs] by (auto simp: bucket_def) (meson not_less)

lemma bucket_above:
  "\<forall>v \<in> set vs. 0 \<le> v \<Longrightarrow> i \<le> length vs \<Longrightarrow> sum_list (take i vs) < k \<Longrightarrow> bucket a op C vs i k = {}"
  using below_sum_le[of _ vs i] by (auto simp: bucket_def) (meson not_less)

lemma bucket_off: "m \<in> bucket a op C vs i k \<Longrightarrow> i < length vs \<Longrightarrow> i < length m \<and> \<not> m ! i"
  by (auto simp: bucket_def below_def masks_def)

lemma distinct_set_bit:
  assumes "distinct ms" "\<forall>m \<in> set ms. i < length m \<and> \<not> m ! i"
  shows "distinct (map (\<lambda>m. m[i := True]) ms)"
proof -
  have "inj_on (\<lambda>m. m[i := True]) (set ms)"
  proof (rule inj_onI)
    fix x y assume xy: "x \<in> set ms" "y \<in> set ms" "x[i := True] = y[i := True]"
    then have "x[i := False] = y[i := False]" by (metis list_update_overwrite)
    moreover have "m[i := False] = m" if "m \<in> set ms" for m
      using assms(2) that by (metis list_update_id)
    ultimately show "x = y" using xy by simp
  qed
  with assms(1) show ?thesis by (simp add: distinct_map)
qed

lemma absorbed_op: "absorbed a op C p \<Longrightarrow> a \<and> (op = GT \<or> op = GE)"
  by (auto simp: absorbed_def)

lemma dp_inv_step:
  assumes inv: "dp_inv a op C J vs i (u, dp)" and i: "i < length vs"
    and nn: "\<forall>v \<in> set vs. 0 \<le> v" and J: "0 \<le> J"
  shows "dp_inv a op C J vs (Suc i)
    (dp_item a op C i (vs ! i) (min J (sum_list (take (Suc i) vs))) (u, dp))"
proof -
  let ?w = "vs ! i" and ?p = "sum_list (take (Suc i) vs)"
  let ?j = "min J ?p"
  have w: "0 \<le> ?w" using i nn by simp
  have p: "?p = sum_list (take i vs) + ?w" using i by (simp add: take_Suc_conv_app_nth)
  from inv have len: "length dp = nat J + 1"
    and cell: "\<And>k. k < length dp \<Longrightarrow> distinct (dp ! k) \<and> set (dp ! k) = bucket a op C vs i (int k)"
    and u: "u \<longrightarrow> a \<and> (op = GT \<or> op = GE)"
    and nu: "\<not> u \<Longrightarrow> m \<in> below (length vs) i \<Longrightarrow> masked_sum vs m \<le> J \<Longrightarrow> kept a op C vs m" for m
    by (auto simp: dp_inv_def)
  have eq: "dp_item a op C i ?w ?j (u, dp) =
      (u \<or> (\<exists>j \<in> {?w..?j}. absorbed a op C (j - ?w)), cells_result a op C i ?w ?j dp)"
    using len J by (intro dp_item_eq w) auto
  have cells: "distinct (cells_result a op C i ?w ?j dp ! k) \<and>
      set (cells_result a op C i ?w ?j dp ! k) = bucket a op C vs (Suc i) (int k)"
    if k: "k < length dp" for k
  proof (cases "?w \<le> int k \<and> int k \<le> ?j")
    case False
    then have "int k < ?w \<or> sum_list (take i vs) < int k - ?w" using k len J p by auto
    then have "bucket a op C vs i (int k - ?w) = {}"
      using bucket_neg[OF nn, of "int k - ?w" a op C i]
        bucket_above[OF nn, of i "int k - ?w" a op C] i by auto
    with False k show ?thesis by (auto simp: cells_result_nth bucket_Suc[OF i] cell)
  next
    case True
    then have q: "nat (int k - ?w) < length dp" "int (nat (int k - ?w)) = int k - ?w"
      using k w by auto
    have fresh: "x[i := True] \<notin> bucket a op C vs i (int k)" if "x \<in> bucket a op C vs i r" for x r
      using bucket_off[OF that i] bucket_off[of "x[i := True]", OF _ i] by auto
    show ?thesis
      using True k q cell[OF k] cell[OF q(1)] bucket_off[OF _ i] fresh
      by (auto simp: cells_result_nth bucket_Suc[OF i] intro!: distinct_set_bit)
  qed
  have flag: "kept a op C vs m"
    if no: "\<not> (u \<or> (\<exists>j \<in> {?w..?j}. absorbed a op C (j - ?w)))"
      and m: "m \<in> below (length vs) (Suc i)" "masked_sum vs m \<le> J" for m
  proof -
    have "m \<in> (\<Union>k \<in> {..J}. bucket a op C vs (Suc i) k)" if "m ! i"
    proof -
      let ?m = "m[i := False]"
      have mb: "?m \<in> below (length vs) i" using m i
        by (auto simp: below_def masks_def nth_list_update Suc_le_eq)
      have ms: "masked_sum vs ?m = masked_sum vs m - ?w"
        using m i that by (simp add: masked_sum_clear below_def masks_def)
      then have "kept a op C vs ?m" using nu[OF _ mb] no m(2) w by simp
      then have "?m \<in> bucket a op C vs i (masked_sum vs m - ?w)" using mb ms by (simp add: bucket_def)
      moreover have "masked_sum vs m \<in> {?w..?j}"
        using m below_sum_le[OF m(1) _ nn] i ms masked_sum_nonneg[OF nn, of ?m] by auto
      then have "\<not> absorbed a op C (masked_sum vs m - ?w)" using no by blast
      moreover have "m = ?m[i := True]" using that by (metis list_update_id list_update_overwrite)
      ultimately have "\<not> absorbed a op C (masked_sum vs m - ?w)"
          "m \<in> (\<lambda>m. m[i := True]) ` bucket a op C vs i (masked_sum vs m - ?w)"
        by (metis image_eqI)+
      then have "m \<in> bucket a op C vs (Suc i) (masked_sum vs m)"
        by (simp add: bucket_Suc[OF i])
      then show ?thesis using m(2) by blast
    qed
    moreover have "m \<in> below (length vs) i" if "\<not> m ! i"
      using m that by (auto simp: below_def le_Suc_eq Suc_le_eq)
    ultimately show ?thesis using nu[of m] no m(2) by (cases "m ! i") (auto simp: bucket_def)
  qed
  show ?thesis
    using cells flag len u absorbed_op[of a op C] by (auto simp: dp_inv_def eq)
qed

lemma dp_items_inv:
  assumes "dp_inv a op C J vs i st" "i \<le> length vs" "\<forall>v \<in> set vs. 0 \<le> v" "0 \<le> J"
  shows "dp_inv a op C J vs (length vs)
    (dp_items a op C J i (sum_list (take i vs)) (drop i vs) st)"
  using assms(1,2)
proof (induction "length vs - i" arbitrary: i st)
  case (Suc d)
  then have i: "i < length vs" by simp
  obtain u dp where st: "st = (u, dp)" by (cases st)
  from Suc.prems st have "dp_inv a op C J vs i (u, dp)" by simp
  note step = dp_inv_step[OF this i assms(3,4)]
  have "sum_list (take i vs) + vs ! i = sum_list (take (Suc i) vs)"
    using i by (simp add: take_Suc_conv_app_nth)
  with Suc.hyps(1)[OF _ step] Suc.hyps(2) i st show ?case
    by (simp add: Cons_nth_drop_Suc[OF i, symmetric] Let_def)
qed (simp add: le_antisym)

section \<open>Reading the result\<close>

text \<open>What a list of worlds stands for: itself, or the supersets of its members.\<close>

definition world_meaning :: "bool \<Rightarrow> mask list \<Rightarrow> mask set" where
  "world_meaning upset ws = (if upset then {m. \<exists>w \<in> set ws. mask_le w m} else set ws)"

text \<open>The non-empty worlds whose sum satisfies the comparison, and the early returns of all worlds.\<close>

definition sum_worlds :: "int list \<Rightarrow> int \<Rightarrow> cmp_op \<Rightarrow> mask set" where
  "sum_worlds vs C op =
     {m \<in> masks (length vs). m \<noteq> no_bits (length vs) \<and> compare (masked_sum vs m) op C}"

definition sum_tautology :: "cmp_op \<Rightarrow> int \<Rightarrow> int \<Rightarrow> bool" where
  "sum_tautology op C T \<longleftrightarrow>
     (op = GT \<and> C < 0) \<or> (op = GE \<and> C \<le> 0) \<or> (op = LT \<and> C > T) \<or> (op = LE \<and> C \<ge> T)"

lemma append_range_alt:
  "dp \<noteq> [] \<Longrightarrow> append_range dp lo hi =
     concat (map (\<lambda>j. dp ! nat j) [max lo 0..min hi (int (length dp) - 1)])"
  by (simp add: append_range_def Let_def)

lemma set_append_range:
  "set (append_range dp lo hi) = (\<Union>k \<in> {k. k < length dp \<and> lo \<le> int k \<and> int k \<le> hi}. set (dp ! k))"
proof (cases "dp = []")
  case False
  have "{max lo 0..min hi (int (length dp) - 1)} = int ` {k. k < length dp \<and> lo \<le> int k \<and> int k \<le> hi}"
    by (auto simp: image_iff) (metis int_nat_eq nat_int nat_less_iff zless_nat_eq_int_zless)
  then show ?thesis using False by (simp add: append_range_alt)
qed (simp add: append_range_def)

lemma distinct_append_range:
  assumes "\<And>k. k < length dp \<Longrightarrow> distinct (dp ! k)"
    and "\<And>k l. k < length dp \<Longrightarrow> l < length dp \<Longrightarrow> k \<noteq> l \<Longrightarrow> set (dp ! k) \<inter> set (dp ! l) = {}"
  shows "distinct (append_range dp lo hi)"
proof (cases "dp = []")
  case False
  have "distinct (concat (map f [l..h]))"
    if "\<And>j. l \<le> j \<Longrightarrow> j \<le> h \<Longrightarrow> distinct (f j)"
      "\<And>i j. l \<le> i \<Longrightarrow> i < j \<Longrightarrow> j \<le> h \<Longrightarrow> set (f i) \<inter> set (f j) = {}"
    for f :: "int \<Rightarrow> mask list" and l h :: int
    using that
  proof (induction "nat (h - l + 1)" arbitrary: l)
    case (Suc d)
    then have "l \<le> h" by simp
    then have "[l..h] = l # [l + 1..h]" by (rule upto_rec1)
    moreover have "distinct (concat (map f [l + 1..h]))"
      using Suc.hyps(2) Suc.prems by (intro Suc.hyps(1)) auto
    moreover have "set (f l) \<inter> (\<Union>j \<in> {l + 1..h}. set (f j)) = {}"
    proof -
      have "set (f l) \<inter> set (f j) = {}" if "j \<in> {l + 1..h}" for j
        using that by (intro Suc.prems(2)) auto
      then show ?thesis by (simp add: Int_UN_distrib)
    qed
    ultimately show ?case using Suc.prems(1)[of l] \<open>l \<le> h\<close> by auto
  qed simp
  then have gen: "(\<And>j. l \<le> j \<Longrightarrow> j \<le> h \<Longrightarrow> distinct (f j)) \<Longrightarrow>
      (\<And>i j. l \<le> i \<Longrightarrow> i < j \<Longrightarrow> j \<le> h \<Longrightarrow> set (f i) \<inter> set (f j) = {}) \<Longrightarrow>
      distinct (concat (map f [l..h]))" for f :: "int \<Rightarrow> mask list" and l h
    by blast
  show ?thesis unfolding append_range_alt[OF False]
    by (rule gen; rule assms) auto
qed (simp add: append_range_def)

lemma dp_select:
  assumes inv: "dp_inv a op C J vs (length vs) (u, dp)" and "op \<noteq> NE" "0 \<le> J"
  shows "distinct (sum_dp_select op C J dp)"
    and "set (sum_dp_select op C J dp) =
      {m \<in> masks (length vs). 0 \<le> masked_sum vs m \<and> masked_sum vs m \<le> J \<and>
         compare (masked_sum vs m) op C \<and> kept a op C vs m}"
proof -
  from inv have len: "length dp = nat J + 1"
    and d: "\<And>k. k < length dp \<Longrightarrow> distinct (dp ! k)"
    and b: "\<And>k. k < length dp \<Longrightarrow> set (dp ! k) = bucket a op C vs (length vs) (int k)"
    by (auto simp: dp_inv_def)
  have disj: "set (dp ! k) \<inter> set (dp ! l) = {}" if "k < length dp" "l < length dp" "k \<noteq> l" for k l
    using that by (auto simp: b bucket_def)
  show "distinct (sum_dp_select op C J dp)"
    using \<open>op \<noteq> NE\<close> by (cases op) (simp_all add: sum_dp_select_def distinct_append_range d disj)
  let ?K = "{k. k < length dp \<and> compare (int k) op C}"
  have "set (sum_dp_select op C J dp) = (\<Union>k \<in> ?K. set (dp ! k))"
    using \<open>op \<noteq> NE\<close> \<open>0 \<le> J\<close> len
    by (cases op) (auto simp: sum_dp_select_def set_append_range)
  also have "\<dots> = (\<Union>k \<in> ?K. bucket a op C vs (length vs) (int k))" using b by auto
  also have "\<dots> = {m \<in> masks (length vs). 0 \<le> masked_sum vs m \<and> masked_sum vs m \<le> J \<and>
         compare (masked_sum vs m) op C \<and> kept a op C vs m}" (is "_ = ?M")
  proof (intro equalityI subsetI)
    fix m assume "m \<in> ?M"
    then have "nat (masked_sum vs m) \<in> ?K" "m \<in> bucket a op C vs (length vs) (int (nat (masked_sum vs m)))"
      using len by (auto simp: bucket_def)
    then show "m \<in> (\<Union>k \<in> ?K. bucket a op C vs (length vs) (int k))" by blast
  qed (use len \<open>0 \<le> J\<close> in \<open>auto simp: bucket_def\<close>)
  finally show "set (sum_dp_select op C J dp) = ?M" .
qed

text \<open>
  Every satisfying world contains a world that the program keeps: cut it just before the first bit
  that was added to an absorbed world.
\<close>

lemma kept_witness:
  assumes m: "m \<in> masks (length vs)" "compare (masked_sum vs m) op C"
  shows "\<exists>w \<in> masks (length vs). mask_le w m \<and> compare (masked_sum vs w) op C \<and> kept a op C vs w"
proof (cases "kept a op C vs m")
  case False
  define P where "P x \<longleftrightarrow> x < length vs \<and> m ! x \<and> absorbed a op C (prefix_sum vs m x)" for x
  from False have ex: "\<exists>x. P x" by (auto simp: kept_def P_def)
  define x where "x = (LEAST x. P x)"
  have x: "x < length vs" "absorbed a op C (prefix_sum vs m x)"
    using LeastI_ex[OF ex] by (simp_all add: x_def P_def)
  have least: "\<not> P y" if "y < x" for y using not_less_Least[of y P] that by (simp add: x_def)
  define w where "w = take x m @ no_bits (length vs - x)"
  have len: "length m = length vs" using m by (simp add: masks_def)
  have nth: "w ! y = (y < x \<and> m ! y)" if "y < length vs" for y
    using that x len by (auto simp: w_def nth_append)
  have lw: "length w = length vs" using x len by (simp add: w_def)
  have wb: "w \<in> below (length vs) x" using nth lw by (auto simp: below_def masks_def)
  have pre: "prefix_sum vs w y = prefix_sum vs m y" if "y \<le> x" for y
    using that x len by (simp add: prefix_sum_def w_def min_def)
  have sum: "masked_sum vs w = prefix_sum vs m x" using below_sum[OF wb] x pre by simp
  have "kept a op C vs w"
    unfolding kept_def using nth pre least by (auto simp: P_def)
  moreover have "compare (masked_sum vs w) op C" using x(2) sum by (auto simp: absorbed_def)
  moreover have "mask_le w m" using nth lw len by (auto simp: mask_le_nth)
  ultimately show ?thesis using lw by (auto simp: masks_def)
next
  case True
  with m show ?thesis by (intro bexI[of _ m]) auto
qed

lemma sum_dp_limit_enough:
  assumes "compare s op C" "0 \<le> s" "s \<le> T" "op \<noteq> NE"
  shows "s \<le> sum_dp_limit op C T"
  using assms by (cases op) (auto simp: sum_dp_limit_def)

lemma sum_worlds_up:
  assumes "\<forall>v \<in> set vs. 0 \<le> v" "op = GT \<or> op = GE" "w \<in> sum_worlds vs C op" "mask_le w m"
  shows "m \<in> sum_worlds vs C op"
proof -
  have len: "length m = length vs" using assms(3,4) by (auto simp: sum_worlds_def masks_def mask_le_nth)
  have w: "length w = length vs" using assms(3) by (simp add: sum_worlds_def masks_def)
  have "\<exists>i < length vs. w ! i"
    using assms(3) mask_some_bit_iff[of w "length vs"] by (auto simp: sum_worlds_def)
  then have "\<exists>i < length vs. m ! i" using assms(4) w by (auto simp: mask_le_nth)
  then have "m \<noteq> no_bits (length vs)" by auto
  moreover have "masked_sum vs w \<le> masked_sum vs m" by (rule masked_sum_mono) (use assms in auto)
  ultimately show ?thesis using assms(2,3) len by (auto simp: sum_worlds_def masks_def)
qed

text \<open>The world list the dynamic program returns, before the scalar empty world is put back.\<close>

lemma dp_meaning:
  assumes inv: "dp_inv a op C J vs (length vs) (u, dp)" and ne: "op \<noteq> NE"
    and nn: "\<forall>v \<in> set vs. 0 \<le> v"
    and J: "J = sum_dp_limit op C (sum_list vs)" "0 \<le> J"
    and no_empty: "u \<Longrightarrow> \<not> compare 0 op C"
  shows "world_meaning u (filter (\<lambda>m. True \<in> set m) (sum_dp_select op C J dp)) = sum_worlds vs C op"
    (is "world_meaning u ?R = _")
proof -
  have bounds: "0 \<le> masked_sum vs m" "masked_sum vs m \<le> sum_list vs" for m
    using masked_sum_nonneg[OF nn] masked_sum_le_total[OF nn] by auto
  have mem: "m \<in> set ?R \<longleftrightarrow> m \<in> sum_worlds vs C op \<and> kept a op C vs m" for m
    using dp_select(2)[OF inv ne J(2)] bounds[of m] sum_dp_limit_enough[of "masked_sum vs m" op C "sum_list vs"]
      ne J(1) by (auto simp: sum_worlds_def masks_def True_in_mask_iff)
  show ?thesis
  proof (cases u)
    case False
    have "kept a op C vs m" if "m \<in> sum_worlds vs C op" for m
      using inv False that J(1) bounds[of m] ne
        sum_dp_limit_enough[of "masked_sum vs m" op C "sum_list vs"]
      by (auto simp: dp_inv_def sum_worlds_def)
    with mem False show ?thesis by (auto simp: world_meaning_def)
  next
    case True
    then have op: "op = GT \<or> op = GE" using inv by (simp add: dp_inv_def)
    have "m \<in> sum_worlds vs C op" if "w \<in> set ?R" "mask_le w m" for w m
      using sum_worlds_up[OF nn op] mem that by blast
    moreover have "\<exists>w \<in> set ?R. mask_le w m" if m: "m \<in> sum_worlds vs C op" for m
    proof -
      obtain w where w: "w \<in> masks (length vs)" "mask_le w m" "compare (masked_sum vs w) op C" "kept a op C vs w"
        using kept_witness[of m vs op C a] m by (auto simp: sum_worlds_def)
      have "w \<noteq> no_bits (length vs)" using w(3) no_empty[OF True] by auto
      with w mem show ?thesis by (auto simp: sum_worlds_def)
    qed
    ultimately show ?thesis using True by (auto simp: world_meaning_def)
  qed
qed

section \<open>The specification of \<open>sum_dp\<close>\<close>

lemma sum_worlds_alt: "valid_worlds vs C op agg = sum_worlds vs C op" if "sum_like agg"
  using valid_worlds_sum_like[OF that] by (simp add: sum_worlds_def)

definition sum_unsat :: "cmp_op \<Rightarrow> int \<Rightarrow> int \<Rightarrow> bool" where
  "sum_unsat op C T \<longleftrightarrow>
     (op = GT \<and> C \<ge> T) \<or> (op = GE \<and> C > T) \<or> (op = LT \<and> C \<le> 0) \<or> (op = LE \<and> C < 0) \<or>
     (op = EQ \<and> (C > T \<or> C < 0))"

lemma sum_dp_neg: "op \<noteq> NE \<Longrightarrow> \<exists>w \<in> set vs. w < 0 \<Longrightarrow> sum_dp vs C op a u keep = (u, None)"
  by (subst sum_dp.simps) simp

lemma sum_dp_eq:
  assumes "op \<noteq> NE" "\<forall>v \<in> set vs. 0 \<le> v"
  shows "sum_dp vs C op a u keep =
    (if sum_unsat op C (sum_list vs) then (u, Some [])
     else if sum_tautology op C (sum_list vs) then (u, Some (all_worlds vs))
     else if sum_dp_limit op C (sum_list vs) > SUM_DP_MAX_J then (u, None)
     else sum_dp_run vs C op a u keep (sum_dp_limit op C (sum_list vs)))"
proof -
  have "\<not> (\<exists>w \<in> set vs. w < 0)" using assms(2) by auto
  then show ?thesis using assms(1)
    by (subst sum_dp.simps, cases op) (simp_all add: Let_def sum_unsat_def sum_tautology_def)
qed

lemma sum_worlds_none:
  assumes "\<forall>v \<in> set vs. 0 \<le> v" "sum_unsat op C (sum_list vs)"
  shows "sum_worlds vs C op = {}"
proof -
  have "\<not> compare (masked_sum vs m) op C" for m
    using assms(2) masked_sum_nonneg[OF assms(1), of m] masked_sum_le_total[OF assms(1), of m]
    by (auto simp: sum_unsat_def)
  then show ?thesis by (simp add: sum_worlds_def)
qed

lemma sum_worlds_all:
  assumes "\<forall>v \<in> set vs. 0 \<le> v" "sum_tautology op C (sum_list vs)"
  shows "sum_worlds vs C op = set (all_worlds vs)"
proof -
  have "compare (masked_sum vs m) op C" for m
    using assms(2) masked_sum_nonneg[OF assms(1), of m] masked_sum_le_total[OF assms(1), of m]
    by (auto simp: sum_tautology_def)
  then show ?thesis by (auto simp: sum_worlds_def set_all_worlds)
qed

lemma dp_inv_start:
  "0 \<le> J \<Longrightarrow> dp_inv a op C J vs 0 (False, (replicate (nat J + 1) [])[0 := [no_bits (length vs)]])"
  by (auto simp: dp_inv_def bucket_def kept_def nth_Cons' nth_list_update)

lemma sum_dp_single:
  assumes ne: "op \<noteq> NE" and r: "sum_dp vs C op a False keep = (u, Some ws)"
  shows "distinct ws \<and> (u \<longrightarrow> a \<and> (op = GT \<or> op = GE)) \<and> world_meaning u ws = sum_worlds vs C op \<union>
      (if keep \<and> compare 0 op C \<and> \<not> sum_tautology op C (sum_list vs) then {no_bits (length vs)} else {})"
proof -
  let ?T = "sum_list vs" and ?n = "length vs"
  have nn: "\<forall>v \<in> set vs. 0 \<le> v" using sum_dp_neg[OF ne, of vs C a False keep] r by fastforce
  then have T: "0 \<le> ?T" by (simp add: sum_list_nonneg)
  note eq = r[unfolded sum_dp_eq[OF ne nn]]
  consider (none) "sum_unsat op C ?T" | (all) "\<not> sum_unsat op C ?T" "sum_tautology op C ?T"
    | (dp) "\<not> sum_unsat op C ?T" "\<not> sum_tautology op C ?T" by blast
  then show ?thesis
  proof cases
    case none
    then have "ws = [] \<and> u = False" using eq by simp
    moreover have "\<not> compare 0 op C" using none T by (auto simp: sum_unsat_def)
    ultimately show ?thesis using sum_worlds_none[OF nn none] by (simp add: world_meaning_def)
  next
    case all
    then have "ws = all_worlds vs \<and> u = False" using eq by simp
    then show ?thesis
      using all(2) sum_worlds_all[OF nn all(2)] by (simp add: world_meaning_def distinct_all_worlds)
  next
    case dp
    define J where "J = sum_dp_limit op C ?T"
    define dp0 where "dp0 = (replicate (nat J + 1) [])[0 := [no_bits ?n]]"
    obtain u' tab where tab: "dp_items a op C J 0 0 vs (False, dp0) = (u', tab)" by fastforce
    have J: "0 \<le> J" using dp T ne
      by (cases op) (auto simp: J_def sum_dp_limit_def sum_tautology_def sum_unsat_def)
    define R where "R = filter (\<lambda>m. True \<in> set m) (sum_dp_select op C J tab)"
    have "sum_dp_run vs C op a False keep J = (u, Some ws)"
      using eq dp by (simp add: J_def split: if_splits)
    then have res: "u = u'" "ws = (if keep \<and> compare 0 op C then R @ [no_bits ?n] else R)"
      using tab by (simp_all add: sum_dp_run_def Let_def dp0_def R_def split: if_splits)
    have inv: "dp_inv a op C J vs ?n (u, tab)"
      using dp_items_inv[of a op C J vs 0 "(False, dp0)"] dp_inv_start[OF J] nn J tab res(1)
      by (simp add: dp0_def)
    have ups: "u \<longrightarrow> a \<and> (op = GT \<or> op = GE)" using inv by (simp add: dp_inv_def)
    have no_empty: "\<not> compare 0 op C" if u using ups that dp by (auto simp: sum_tautology_def)
    have wm: "world_meaning u R = sum_worlds vs C op"
      unfolding R_def by (rule dp_meaning[OF inv ne nn J_def J no_empty])
    have nR: "no_bits ?n \<notin> set R" by (simp add: R_def no_bits_def)
    have dR: "distinct R" using dp_select(1)[OF inv ne J] by (simp add: R_def)
    show ?thesis
    proof (cases "keep \<and> compare 0 op C")
      case True
      then have "\<not> u" and ws: "ws = R @ [no_bits ?n]" using no_empty res(2) by auto
      then have "world_meaning u ws = set R \<union> {no_bits ?n}" by (auto simp: world_meaning_def)
      moreover have "set R = sum_worlds vs C op" using wm \<open>\<not> u\<close> by (simp add: world_meaning_def)
      ultimately show ?thesis using True nR dR ws dp(2) \<open>\<not> u\<close> by simp
    next
      case False
      then have "ws = R" using res(2) by auto
      with False wm dR ups show ?thesis by auto
    qed
  qed
qed

end
