(* ===== verification/WorldEnum.thy ===== *)
theory WorldEnum
  imports SumDp
begin

text \<open>
  The entry points of \<open>src/subset.cpp\<close>: enumeration by cardinality (\<open>count_enum\<close>), the exhaustive
  search, the dispatcher \<open>enumerate_valid_worlds\<close> and \<open>enumerate_array_agg_worlds\<close>.  An exception
  of the accumulators (\<open>Inl\<close>) leaves the enumeration.  The dispatcher is proved to return exactly
  the worlds that satisfy the predicate, or, with the flag \<open>upset\<close>, a generating set of them.
\<close>

section \<open>Worlds of a given size\<close>

function combinations :: "nat \<Rightarrow> nat \<Rightarrow> mask \<Rightarrow> mask list" where
  "combinations start k_left m =
     (if k_left = 0 then [m]
      else if start \<ge> length m then []
      else if length m - start < k_left then []
      else combinations (start + 1) k_left m @ combinations (start + 1) (k_left - 1) (m[start := True]))"
  by pat_completeness auto
termination
  by (relation "measure (\<lambda>(start, k, m). length m - start)") auto

declare combinations.simps [simp del]

definition add_exact_k :: "nat \<Rightarrow> int \<Rightarrow> mask list" where
  "add_exact_k n k = (if k < 0 \<or> k > int n then [] else combinations 0 (nat k) (no_bits n))"

definition count_enum ::
  "int list \<Rightarrow> int \<Rightarrow> cmp_op \<Rightarrow> bool \<Rightarrow> bool \<Rightarrow> bool \<Rightarrow> bool \<times> mask list" where
  "count_enum values m op absorptive upset is_scalar =
     (let n = length values; lo = (if is_scalar then 0 else 1 :: int);
          ge = (\<lambda>m. let mink = max m lo in
                 if absorptive then (True, add_exact_k n mink)
                 else (upset, concat (map (add_exact_k n) [mink..int n])));
          le = (\<lambda>m. (upset, concat (map (add_exact_k n) [lo..m])))
      in case op of
           EQ \<Rightarrow> (upset, if m \<ge> lo then add_exact_k n m else [])
         | GT \<Rightarrow> ge (m + 1)
         | GE \<Rightarrow> ge m
         | LT \<Rightarrow> le (m - 1)
         | LE \<Rightarrow> le m
         | NE \<Rightarrow> (upset, concat (map (\<lambda>k. if k \<noteq> m then add_exact_k n k else []) [lo..int n])))"

section \<open>Exhaustive search\<close>

text \<open>The loop over the worlds: those that satisfy the predicate, and whether all of them did.\<close>

fun exhaustive_scan ::
  "int list \<Rightarrow> int \<Rightarrow> cmp_op \<Rightarrow> agg_op \<Rightarrow> mask list \<Rightarrow> agg_exn + (mask list \<times> bool)" where
  "exhaustive_scan values constant op agg_kind [] = Inr ([], True)"
| "exhaustive_scan values constant op agg_kind (m # ms) =
     bind_result (agg_cmp_holds_in_world values m constant op agg_kind) (\<lambda>holds.
     bind_result (exhaustive_scan values constant op agg_kind ms) (\<lambda>(worlds, all).
       Inr (if holds then (m # worlds, all) else (worlds, False))))"

definition enumerate_exhaustive ::
  "int list \<Rightarrow> int \<Rightarrow> cmp_op \<Rightarrow> agg_op \<Rightarrow> bool \<Rightarrow> bool \<Rightarrow> agg_exn + (bool \<times> mask list)" where
  "enumerate_exhaustive values constant op agg_kind absorptive upset =
     bind_result (exhaustive_scan values constant op agg_kind (worlds_from (no_bits (length values))))
       (\<lambda>(worlds, all_worlds).
          if all_worlds \<and> absorptive
          then Inr (True, combinations 0 1 (no_bits (length values)))
          else Inr (upset, worlds))"

definition enumerate_valid_worlds ::
  "int list \<Rightarrow> int \<Rightarrow> cmp_op \<Rightarrow> agg_op \<Rightarrow> bool \<Rightarrow> bool \<Rightarrow> bool \<Rightarrow> agg_exn + (bool \<times> mask list)" where
  "enumerate_valid_worlds values constant op agg_kind absorptive upset is_scalar =
     (if agg_kind = AggCOUNT then
        (if \<forall>v \<in> set values. v = 1
         then Inr (count_enum values constant op absorptive upset is_scalar)
         else (case sum_dp values constant op absorptive upset is_scalar of
             (upset', Some ws) \<Rightarrow> Inr (upset', ws)
           | (upset', None) \<Rightarrow> enumerate_exhaustive values constant op agg_kind absorptive upset'))
      else if agg_kind = AggSUM then
        (case sum_dp values constant op absorptive upset False of
            (upset', Some ws) \<Rightarrow> Inr (upset', ws)
          | (upset', None) \<Rightarrow> enumerate_exhaustive values constant op agg_kind absorptive upset')
      else enumerate_exhaustive values constant op agg_kind absorptive upset)"

definition enumerate_array_agg_worlds :: "string list \<Rightarrow> string list \<Rightarrow> bool \<Rightarrow> mask list" where
  "enumerate_array_agg_worlds vals target want_equal =
     filter (\<lambda>m. (selected vals m = target) = want_equal) (worlds_from (no_bits (length vals)))"

section \<open>Cardinality\<close>

definition card_bits :: "mask \<Rightarrow> nat" where
  "card_bits m = length (filter id m)"

text \<open>Masks that agree with m below start and have exactly k more bits at or above it.\<close>

definition extends_by :: "nat \<Rightarrow> nat \<Rightarrow> mask \<Rightarrow> mask set" where
  "extends_by s k m = {m'. length m' = length m \<and> take s m' = take s m \<and> card_bits (drop s m') = k}"

lemma card_bits_simps [simp]:
  "card_bits [] = 0" "card_bits (b # bs) = (if b then 1 else 0) + card_bits bs"
  by (simp_all add: card_bits_def)

lemma card_bits_le: "card_bits m \<le> length m"
  by (simp add: card_bits_def)

lemma card_bits_not_gt [simp]: "\<not> length m < card_bits m"
  using card_bits_le[of m] by simp

lemma card_bits_0_iff: "card_bits m = 0 \<longleftrightarrow> m = no_bits (length m)"
  by (induction m) (auto simp: no_bits_def)

lemma combinations_set:
  assumes "\<forall>x < length m. s \<le> x \<longrightarrow> \<not> m ! x"
  shows "set (combinations s k m) = extends_by s k m \<and> distinct (combinations s k m)"
  using assms
proof (induction s k m rule: combinations.induct)
  case (1 s k m)
  have d: "drop s m = no_bits (length m - s)"
    using 1(3) by (intro nth_equalityI) auto
  consider "k = 0" | "k > 0" "s \<ge> length m \<or> length m - s < k" | "k > 0" "s < length m" "k \<le> length m - s"
    by linarith
  then show ?case
  proof cases
    case 1
    have "extends_by s 0 m = {m}"
    proof (intro equalityI subsetI)
      fix m' assume "m' \<in> extends_by s 0 m"
      then have "take s m' = take s m" "drop s m' = drop s m"
        using d by (auto simp: extends_by_def card_bits_0_iff)
      then show "m' \<in> {m}" by (metis append_take_drop_id singletonI)
    qed (simp add: extends_by_def d card_bits_0_iff)
    with 1 show ?thesis by (simp add: combinations.simps)
  next
    case 2
    have "extends_by s k m = {}"
      using 2 card_bits_le[of "drop s _"] by (auto simp: extends_by_def) (metis length_drop not_less)
    moreover have "combinations s k m = []" using 2 by (subst combinations.simps) auto
    ultimately show ?thesis by simp
  next
    case 3
    let ?m = "m[s := True]"
    have off: "\<not> m ! s" using 1(3) 3 by simp
    have A: "set (combinations (s + 1) k m) = extends_by (s + 1) k m \<and> distinct (combinations (s + 1) k m)"
      using 1 3 by auto
    have B: "set (combinations (s + 1) (k - 1) ?m) = extends_by (s + 1) (k - 1) ?m \<and>
        distinct (combinations (s + 1) (k - 1) ?m)"
      using 1 3 by auto
    have split: "m' \<in> extends_by s k m \<longleftrightarrow> m' \<in> extends_by (s + 1) k m \<or> m' \<in> extends_by (s + 1) (k - 1) ?m"
      for m'
    proof (cases "length m' = length m")
      case True
      have dr: "drop s m' = m' ! s # drop (Suc s) m'" using True 3 by (simp add: Cons_nth_drop_Suc)
      have t1: "take (Suc s) m' = take s m' @ [m' ! s]" using True 3 by (simp add: take_Suc_conv_app_nth)
      have t2: "take (Suc s) m = take s m @ [False]" using off 3 by (simp add: take_Suc_conv_app_nth)
      have t3: "take (Suc s) ?m = take s m @ [True]" using 3 by (simp add: take_Suc_conv_app_nth)
      show ?thesis using True 3 by (auto simp: extends_by_def dr t1 t2 t3)
    qed (simp add: extends_by_def)
    have "extends_by (s + 1) k m \<inter> extends_by (s + 1) (k - 1) ?m = {}"
    proof -
      have "take (Suc s) m \<noteq> take (Suc s) ?m"
        using off 3 by (metis length_list_update lessI nth_list_update_eq nth_take)
      then show ?thesis by (auto simp: extends_by_def)
    qed
    moreover have "combinations s k m = combinations (s + 1) k m @ combinations (s + 1) (k - 1) ?m"
      using 3 by (subst combinations.simps) auto
    ultimately show ?thesis using A B split by auto
  qed
qed

lemma add_exact_k:
  "set (add_exact_k n k) = {m \<in> masks n. int (card_bits m) = k}"
  "distinct (add_exact_k n k)"
proof -
  have "extends_by 0 (nat k) (no_bits n) = {m \<in> masks n. card_bits m = nat k}"
    by (auto simp: extends_by_def masks_def)
  then show "set (add_exact_k n k) = {m \<in> masks n. int (card_bits m) = k}" "distinct (add_exact_k n k)"
    using combinations_set[of "no_bits n" 0 "nat k"] card_bits_le
    by (auto simp: add_exact_k_def masks_def)
qed

lemma card_bits_no_bits [simp]: "card_bits (no_bits n) = 0"
  using card_bits_0_iff[of "no_bits n"] by simp

lemma card_bits_mono: "mask_le a b \<Longrightarrow> card_bits a \<le> card_bits b"
proof (induction a arbitrary: b)
  case (Cons x xs)
  then obtain y ys where "b = y # ys" "x \<longrightarrow> y" "mask_le xs ys"
    by (auto simp: mask_le_def list_all2_Cons1)
  with Cons.IH[of ys] show ?case by auto
qed simp

lemma card_bits_shrink: "k \<le> card_bits m \<Longrightarrow> \<exists>w. mask_le w m \<and> card_bits w = k"
proof (induction m arbitrary: k)
  case (Cons b bs)
  show ?case
  proof (cases "b \<and> k > 0")
    case True
    then have "k - 1 \<le> card_bits bs" using Cons.prems by simp
    then obtain w where "mask_le w bs" "card_bits w = k - 1" using Cons.IH by blast
    with True show ?thesis by (intro exI[of _ "True # w"]) (auto simp: mask_le_def)
  next
    case False
    then obtain w where "mask_le w bs" "card_bits w = k" using Cons.IH[of k] Cons.prems by auto
    then show ?thesis by (intro exI[of _ "False # w"]) (auto simp: mask_le_def)
  qed
qed (auto intro: mask_le_refl)

lemma masked_sum_ones:
  "\<forall>v \<in> set vs. v = 1 \<Longrightarrow> length m = length vs \<Longrightarrow> masked_sum vs m = int (card_bits m)"
proof (induction vs arbitrary: m)
  case (Cons v vs)
  then show ?case by (cases m) auto
qed simp

lemma distinct_concat_exact:
  "distinct ks \<Longrightarrow> distinct (concat (map (\<lambda>k. if P k then add_exact_k n k else []) ks))"
  by (induction ks) (auto simp: add_exact_k split: if_splits)

text \<open>The worlds a COUNT predicate selects; a scalar aggregate also has the empty one.\<close>

definition count_worlds :: "nat \<Rightarrow> int \<Rightarrow> cmp_op \<Rightarrow> bool \<Rightarrow> mask set" where
  "count_worlds n C op is_scalar =
     {m \<in> masks n. (is_scalar \<or> m \<noteq> no_bits n) \<and> compare (int (card_bits m)) op C}"

lemma count_enum_spec:
  assumes "count_enum values C op a False sc = (u, ws)"
  shows "distinct ws \<and> (u \<longrightarrow> a \<and> (op = GT \<or> op = GE)) \<and> world_meaning u ws = count_worlds (length values) C op sc"
proof -
  let ?n = "length values"
  define lo :: int where "lo = (if sc then 0 else 1)"
  have lo: "lo \<le> int (card_bits m) \<longleftrightarrow> sc \<or> m \<noteq> no_bits ?n" if "length m = ?n" for m
    using that card_bits_0_iff[of m] by (auto simp: lo_def)
  have le: "card_bits m \<le> ?n" if "length m = ?n" for m
    using that card_bits_le[of m] by simp
  have pick: "set (concat (map (\<lambda>k. if P k then add_exact_k ?n k else []) [l..h])) =
      {m \<in> masks ?n. l \<le> int (card_bits m) \<and> int (card_bits m) \<le> h \<and> P (int (card_bits m))}" for P l h
    by (auto simp: add_exact_k)
  have dist: "distinct (concat (map (\<lambda>k. if P k then add_exact_k ?n k else []) [l..h]))" for P l h
    by (rule distinct_concat_exact) simp
  note pickT = pick[of "\<lambda>_. True", simplified] and distT = dist[of "\<lambda>_. True", simplified]
  have ge: "distinct ws \<and> world_meaning u ws = {m \<in> masks ?n. lo \<le> int (card_bits m) \<and> c \<le> int (card_bits m)}"
    if g: "(u, ws) = (if a then (True, add_exact_k ?n (max c lo))
                  else (False, concat (map (add_exact_k ?n) [max c lo..int ?n])))" for c
  proof (cases a)
    case False
    with g show ?thesis by (auto simp: pickT distT world_meaning_def masks_def le)
  next
    case True
    have nn: "0 \<le> max c lo" by (auto simp: lo_def)
    have "\<exists>w \<in> masks ?n. int (card_bits w) = max c lo \<and> mask_le w m"
      if m: "m \<in> masks ?n" "max c lo \<le> int (card_bits m)" for m
    proof -
      have "nat (max c lo) \<le> card_bits m" using m(2) nn by linarith
      then obtain w where w: "mask_le w m" "card_bits w = nat (max c lo)"
        using card_bits_shrink by blast
      then have "w \<in> masks ?n" "int (card_bits w) = max c lo"
        using m mask_le_length[OF w(1)] nn by (simp_all add: masks_def)
      with w show ?thesis by blast
    qed
    moreover have "m \<in> masks ?n \<and> max c lo \<le> int (card_bits m)"
      if "w \<in> masks ?n" "int (card_bits w) = max c lo" "mask_le w m" for w m
      using that card_bits_mono[OF that(3)] mask_le_length[OF that(3)] by (auto simp: masks_def)
    ultimately have "{m. \<exists>w \<in> set (add_exact_k ?n (max c lo)). mask_le w m} =
        {m \<in> masks ?n. max c lo \<le> int (card_bits m)}"
      unfolding add_exact_k(1) by blast
    with True g show ?thesis by (auto simp: world_meaning_def add_exact_k)
  qed
  have cw: "count_worlds ?n C op sc = {m \<in> masks ?n. lo \<le> int (card_bits m) \<and> compare (int (card_bits m)) op C}"
    using lo by (auto simp: count_worlds_def masks_def)
  note [simp] = count_enum_def Let_def lo_def[symmetric]
  show ?thesis
  proof (cases op)
    case EQ
    with assms show ?thesis unfolding cw by (auto simp: world_meaning_def add_exact_k)
  next
    case NE
    then have "u = False \<and> ws = concat (map (\<lambda>k. if k \<noteq> C then add_exact_k ?n k else []) [lo..int ?n])"
      using assms by simp
    moreover have "set (concat (map (\<lambda>k. if k \<noteq> C then add_exact_k ?n k else []) [lo..int ?n])) =
        {m \<in> masks ?n. lo \<le> int (card_bits m) \<and> compare (int (card_bits m)) op C}"
      unfolding pick using NE by (auto simp: masks_def le)
    ultimately show ?thesis unfolding cw using dist NE by (simp only: world_meaning_def if_False) simp
  next
    case LE
    then have "u = False \<and> ws = concat (map (add_exact_k ?n) [lo..C])" using assms by simp
    then show ?thesis unfolding cw using LE by (auto simp: pickT distT world_meaning_def)
  next
    case LT
    then have "u = False \<and> ws = concat (map (add_exact_k ?n) [lo..C - 1])" using assms by simp
    then show ?thesis unfolding cw using LT by (auto simp: pickT distT world_meaning_def)
  next
    case GE
    then have r: "(u, ws) = (if a then (True, add_exact_k ?n (max C lo))
                  else (False, concat (map (add_exact_k ?n) [max C lo..int ?n])))"
      using assms by simp
    have "u \<longrightarrow> a" using r by (simp split: if_splits)
    with ge[OF r] GE show ?thesis unfolding cw by simp
  next
    case GT
    then have r: "(u, ws) = (if a then (True, add_exact_k ?n (max (C + 1) lo))
                  else (False, concat (map (add_exact_k ?n) [max (C + 1) lo..int ?n])))"
      using assms by simp
    have "u \<longrightarrow> a" using r by (simp split: if_splits)
    moreover have "C + 1 \<le> int (card_bits m) \<longleftrightarrow> compare (int (card_bits m)) op C" for m using GT by auto
    ultimately show ?thesis unfolding cw using ge[OF r] GT by simp
  qed
qed

section \<open>The exhaustive search\<close>

lemma exhaustive_scan_Inr:
  "(\<And>m. m \<in> set ms \<Longrightarrow> \<exists>b. agg_cmp_holds_in_world vs m C op agg = Inr b) \<Longrightarrow>
   exhaustive_scan vs C op agg ms =
     Inr (filter (\<lambda>m. agg_cmp_holds_in_world vs m C op agg = Inr True) ms,
          \<forall>m \<in> set ms. agg_cmp_holds_in_world vs m C op agg = Inr True)"
proof (induction ms)
  case (Cons m ms)
  then obtain b where "agg_cmp_holds_in_world vs m C op agg = Inr b" by auto
  with Cons show ?case by (cases b) auto
qed simp

lemma valid_worlds_nonempty: "m \<in> valid_worlds vs C op agg \<Longrightarrow> m \<noteq> no_bits n"
  by (auto simp: valid_worlds_def)

lemma mask_le_no_bits_iff: "mask_le w m \<Longrightarrow> w \<noteq> no_bits (length w) \<Longrightarrow> m \<noteq> no_bits (length m)"
  using card_bits_mono[of w m] card_bits_0_iff[of w] card_bits_0_iff[of m] by linarith

lemma enumerate_exhaustive_spec:
  assumes "supported_agg agg"
  shows "\<exists>u ws. enumerate_exhaustive vs C op agg a False = Inr (u, ws) \<and> distinct ws \<and>
    (u \<longrightarrow> a) \<and> world_meaning u ws = valid_worlds vs C op agg"
proof -
  let ?n = "length vs"
  let ?all = "worlds_from (no_bits ?n)"
  let ?P = "\<lambda>m. agg_cmp_holds_in_world vs m C op agg = Inr True"
  have all: "set ?all = masks ?n - {no_bits ?n}" by (rule set_worlds)
  have "exhaustive_scan vs C op agg ?all = Inr (filter ?P ?all, \<forall>m \<in> set ?all. ?P m)"
    by (intro exhaustive_scan_Inr holds_no_throw assms) (auto simp: all masks_def)
  then have eq: "enumerate_exhaustive vs C op agg a False =
      Inr (if (\<forall>m \<in> set ?all. ?P m) \<and> a then (True, combinations 0 1 (no_bits ?n)) else (False, filter ?P ?all))"
    by (simp add: enumerate_exhaustive_def)
  have V: "valid_worlds vs C op agg = {m \<in> set ?all. ?P m}"
    using valid_worlds_nonempty by (auto simp: valid_worlds_def all)
  show ?thesis
  proof (cases "(\<forall>m \<in> set ?all. ?P m) \<and> a")
    case False
    then have "enumerate_exhaustive vs C op agg a False = Inr (False, filter ?P ?all)"
      unfolding eq by (simp only: if_False)
    then show ?thesis by (intro exI[of _ False]) (simp add: world_meaning_def V distinct_worlds_from)
  next
    case True
    have c: "combinations 0 1 (no_bits ?n) = (if ?n = 0 then [] else add_exact_k ?n 1)"
      by (auto simp: add_exact_k_def combinations.simps)
    have ones: "{m. \<exists>w \<in> set (add_exact_k ?n 1). mask_le w m} = set ?all"
    proof (intro equalityI subsetI)
      fix m assume "m \<in> {m. \<exists>w \<in> set (add_exact_k ?n 1). mask_le w m}"
      then obtain w where w: "length w = ?n" "card_bits w = 1" "mask_le w m"
        by (auto simp: add_exact_k masks_def)
      then have "w \<noteq> no_bits (length w)" by (metis card_bits_no_bits zero_neq_one)
      from mask_le_no_bits_iff[OF w(3) this] mask_le_length[OF w(3)] w(1) show "m \<in> set ?all"
        unfolding all by (simp add: masks_def)
    next
      fix m assume "m \<in> set ?all"
      then have m: "length m = ?n" "1 \<le> card_bits m" using card_bits_0_iff[of m]
        by (auto simp: all masks_def Suc_le_eq)
      from card_bits_shrink[OF m(2)] obtain w where "mask_le w m" "card_bits w = 1" by auto
      with m mask_le_length[of w m] show "m \<in> {m. \<exists>w \<in> set (add_exact_k ?n 1). mask_le w m}"
        by (auto simp: add_exact_k masks_def intro!: exI[of _ w])
    qed
    have "?n = 0 \<Longrightarrow> set ?all = {}" unfolding all by (simp add: no_bits_def)
    with ones c have "{m. \<exists>w \<in> set (combinations 0 1 (no_bits ?n)). mask_le w m} = set ?all" by auto
    moreover have "distinct (combinations 0 1 (no_bits ?n))" unfolding c using add_exact_k(2) by simp
    ultimately show ?thesis using True eq V by (auto simp: world_meaning_def)
  qed
qed

section \<open>The dispatcher\<close>

lemma sum_dp_NE:
  "sum_dp vs C NE a u keep =
     (case sum_dp vs C LT a u keep of
        (u1, None) \<Rightarrow> (u1, None)
      | (u1, Some lt) \<Rightarrow> (case sum_dp vs C GT a u1 keep of
            (u2, None) \<Rightarrow> (u2, None)
          | (u2, Some gt) \<Rightarrow> (u2, Some (lt @ gt))))"
  by (subst sum_dp.simps) simp

lemma sum_dp_exn_flag:
  "op \<noteq> NE \<Longrightarrow> sum_dp vs C op a u keep = (u', None) \<Longrightarrow> u' = u"
  by (cases "\<exists>w \<in> set vs. w < 0")
     (auto simp: sum_dp_neg sum_dp_eq not_less sum_dp_run_def Let_def split: if_splits prod.splits)

lemma sum_dp_LT_flag: "sum_dp vs C LT a False keep = (u, r) \<Longrightarrow> \<not> u"
  using sum_dp_single[of LT vs C a keep u] sum_dp_exn_flag[of LT vs C a False keep u]
  by (cases r) auto

lemma sum_dp_exn_False: "sum_dp vs C op a False keep = (u, None) \<Longrightarrow> \<not> u"
proof (cases "op = NE")
  case True
  assume r: "sum_dp vs C op a False keep = (u, None)"
  obtain u1 r1 where lt: "sum_dp vs C LT a False keep = (u1, r1)" by fastforce
  then have u1: "u1 = False" using sum_dp_LT_flag by blast
  show "\<not> u"
  proof (cases r1)
    case None
    with r True lt u1 show ?thesis by (simp add: sum_dp_NE)
  next
    case (Some ws)
    obtain u2 r2 where gt: "sum_dp vs C GT a False keep = (u2, r2)" by fastforce
    with r True lt u1 Some have "r2 = None" "u = u2"
      by (auto simp: sum_dp_NE split: option.splits)
    with gt sum_dp_exn_flag[of GT vs C a False keep u2] show ?thesis by simp
  qed
next
  case False
  assume "sum_dp vs C op a False keep = (u, None)"
  with sum_dp_exn_flag[OF False this] show "\<not> u" by simp
qed

lemma sum_dp_NE_spec:
  assumes r: "sum_dp vs C NE False False False = (u, Some ws)"
  shows "\<not> u \<and> distinct ws \<and> set ws = sum_worlds vs C NE"
proof -
  from r obtain u1 lt gt where lt: "sum_dp vs C LT False False False = (u1, Some lt)"
    and gt: "sum_dp vs C GT False u1 False = (u, Some gt)" and ws: "ws = lt @ gt"
    by (auto simp: sum_dp_NE split: prod.splits option.splits)
  have u1: "u1 = False" using sum_dp_LT_flag[OF lt] by simp
  have l: "distinct lt \<and> world_meaning False lt = sum_worlds vs C LT"
    using sum_dp_single[OF _ lt] u1 by simp
  have g: "distinct gt \<and> \<not> u \<and> world_meaning u gt = sum_worlds vs C GT"
    using sum_dp_single[OF _ gt[unfolded u1]] by (cases u) simp_all
  then have u: "\<not> u" and gm: "world_meaning u gt = sum_worlds vs C GT" by blast+
  have "set gt = sum_worlds vs C GT" using gm u by (simp add: world_meaning_def)
  moreover have "set lt = sum_worlds vs C LT" using l by (simp add: world_meaning_def)
  moreover have "sum_worlds vs C LT \<inter> sum_worlds vs C GT = {}"
    "sum_worlds vs C LT \<union> sum_worlds vs C GT = sum_worlds vs C NE"
    by (auto simp: sum_worlds_def)
  ultimately show ?thesis using ws l g by simp
qed

lemma sum_dp_or_fallback:
  assumes "sum_like agg" "op \<noteq> NE \<or> \<not> a"
  shows "\<exists>u ws. (case sum_dp vs C op a False False of
       (u', Some ws) \<Rightarrow> Inr (u', ws)
     | (u', None) \<Rightarrow> enumerate_exhaustive vs C op agg a u') = Inr (u, ws) \<and> distinct ws \<and>
    (u \<longrightarrow> a) \<and> world_meaning u ws = valid_worlds vs C op agg"
proof -
  obtain u r where r: "sum_dp vs C op a False False = (u, r)" by fastforce
  show ?thesis
  proof (cases r)
    case None
    have "\<not> u" by (rule sum_dp_exn_False[OF r[unfolded None]])
    moreover have "supported_agg agg" using assms(1) by (auto simp: sum_like_def supported_agg_def)
    ultimately show ?thesis using r None enumerate_exhaustive_spec[of agg vs C op a] by simp
  next
    case (Some ws)
    show ?thesis
    proof (cases "op = NE")
      case True
      with assms r Some show ?thesis
        using sum_dp_NE_spec[of vs C u ws] sum_worlds_alt[OF assms(1), of vs C op]
        by (auto simp: world_meaning_def)
    next
      case False
      with r Some show ?thesis
        using sum_dp_single[of op vs C a False u ws] sum_worlds_alt[OF assms(1), of vs C op] by auto
    qed
  qed
qed

lemma count_worlds_scalar:
  "count_worlds n C op sc =
     count_worlds n C op False \<union> (if sc \<and> compare 0 op C then {no_bits n} else {})"
proof (intro set_eqI)
  fix m
  show "m \<in> count_worlds n C op sc \<longleftrightarrow>
      m \<in> count_worlds n C op False \<union> (if sc \<and> compare 0 op C then {no_bits n} else {})"
    by (cases "m = no_bits n") (simp_all add: count_worlds_def)
qed

lemma count_worlds_valid:
  assumes "\<forall>v \<in> set vs. v = 1"
  shows "count_worlds (length vs) C op sc = valid_worlds vs C op AggCOUNT \<union>
    (if sc \<and> compare 0 op C then {no_bits (length vs)} else {})"
proof -
  have c: "compare (masked_sum vs m) op C \<longleftrightarrow> compare (int (card_bits m)) op C" if "m \<in> masks (length vs)" for m
    using masked_sum_ones[OF assms, of m] that by (simp add: masks_def)
  have "valid_worlds vs C op AggCOUNT = count_worlds (length vs) C op False"
    using c by (auto simp: valid_worlds_sum_like[of AggCOUNT] sum_like_def count_worlds_def)
  with count_worlds_scalar show ?thesis by metis
qed

text \<open>C1: Without an absorptive semiring, \<open>enumerate_valid_worlds\<close> never throws on a supported
  aggregate, leaves \<open>upset\<close> unset, lists no world twice, and lists exactly the worlds in which the
  group exists and the aggregate comparison holds, whichever of the three algorithms it chose.\<close>

theorem enumerate_valid_worlds_exact:
  assumes "supported_agg agg"
  shows "\<exists>ws. enumerate_valid_worlds values C op agg False False False = Inr (False, ws) \<and>
    distinct ws \<and> set ws = valid_worlds values C op agg"
proof -
  have "\<exists>u ws. enumerate_valid_worlds values C op agg False False False = Inr (u, ws) \<and> distinct ws \<and>
    (u \<longrightarrow> False) \<and> world_meaning u ws = valid_worlds values C op agg"
  proof (cases "agg = AggCOUNT \<and> (\<forall>v \<in> set values. v = 1)")
    case True
    then show ?thesis
      using count_enum_spec[of "values" C op False False] count_worlds_valid[of "values" C op False]
      by (cases "count_enum values C op False False False") (auto simp: enumerate_valid_worlds_def)
  next
    case False
    then show ?thesis
      using sum_dp_or_fallback[of agg op False "values" C] enumerate_exhaustive_spec[OF assms, of "values" C op False]
      unfolding enumerate_valid_worlds_def by (auto simp: sum_like_def)
  qed
  then show ?thesis by (auto simp: world_meaning_def)
qed

lemma enumerate_valid_worlds_exact_witness:
  "\<exists>ws. enumerate_valid_worlds [3, -1, 4] 3 GE AggMAX False False False = Inr (False, ws) \<and>
    distinct ws \<and> set ws = valid_worlds [3, -1, 4] 3 GE AggMAX"
  by (rule enumerate_valid_worlds_exact) (simp add: supported_agg_def)

lemma enumerate_valid_worlds_absorptive_lib:
  assumes "supported_agg agg" "op \<noteq> NE"
  shows "\<exists>u ws. enumerate_valid_worlds values C op agg True False False = Inr (u, ws) \<and>
    distinct ws \<and> world_meaning u ws = valid_worlds values C op agg"
proof (cases "agg = AggCOUNT \<and> (\<forall>v \<in> set values. v = 1)")
  case True
  then show ?thesis
    using count_enum_spec[of "values" C op True False] count_worlds_valid[of "values" C op False]
    by (cases "count_enum values C op True False False") (auto simp: enumerate_valid_worlds_def)
next
  case False
  then show ?thesis
    using sum_dp_or_fallback[of agg op True "values" C] enumerate_exhaustive_spec[OF assms(1), of "values" C op True]
      assms(2)
    unfolding enumerate_valid_worlds_def by (auto simp: sum_like_def)
qed

text \<open>C2: On an absorptive semiring, for a supported aggregate of a group (not a scalar one) and every
  comparison but \<open>\<noteq>\<close>, the worlds returned stand for exactly the satisfying worlds: themselves when \<open>upset\<close> is left unset, all their
  supersets when the enumeration set it.\<close>

theorem enumerate_valid_worlds_absorptive:
  assumes "supported_agg agg" "op \<noteq> NE"
  shows "\<exists>u ws. enumerate_valid_worlds values C op agg True False False = Inr (u, ws) \<and>
    distinct ws \<and> world_meaning u ws = valid_worlds values C op agg"
  by (rule enumerate_valid_worlds_absorptive_lib[OF assms])

lemma enumerate_valid_worlds_absorptive_witness:
  "\<exists>u ws. enumerate_valid_worlds [2, 3] 3 GE AggSUM True False False = Inr (u, ws) \<and>
    distinct ws \<and> world_meaning u ws = valid_worlds [2, 3] 3 GE AggSUM"
  by (rule enumerate_valid_worlds_absorptive) (simp_all add: supported_agg_def)

section \<open>Scalar aggregates: the empty world\<close>

text \<open>For a scalar \<open>count(\<star>)\<close> (every contribution is 1, no GROUP BY), every operator and
  every semiring, the worlds returned stand for the satisfying non-empty worlds together with the
  empty world exactly when 0 satisfies the comparison.\<close>

theorem scalar_count_exact:
  assumes "\<forall>v \<in> set values. v = 1"
  shows "\<exists>u ws. enumerate_valid_worlds values C op AggCOUNT absorptive False True = Inr (u, ws) \<and>
    distinct ws \<and> world_meaning u ws = valid_worlds values C op AggCOUNT \<union>
      (if compare 0 op C then {no_bits (length values)} else {})"
proof -
  obtain u ws where r: "count_enum values C op absorptive False True = (u, ws)" by fastforce
  show ?thesis
    using count_enum_spec[OF r] count_worlds_valid[OF assms, of C op True] assms r
    by (simp add: enumerate_valid_worlds_def)
qed

lemma scalar_count_exact_witness:
  "\<exists>u ws. enumerate_valid_worlds [1, 1, 1] 2 LE AggCOUNT True False True = Inr (u, ws) \<and>
    distinct ws \<and> world_meaning u ws = valid_worlds [1, 1, 1] 2 LE AggCOUNT \<union>
      (if compare 0 LE (2::int) then {no_bits (length [1, 1, 1 :: int])} else {})"
  by (rule scalar_count_exact) simp

text \<open>For a scalar \<open>count(col)\<close> whose contributions are not all 1, the empty world is
  returned when 0 satisfies the comparison, except after the early return of \<open>sum_dp\<close> for a
  comparison that every non-empty world satisfies: there it is missing.\<close>

theorem scalar_count_col_worlds:
  assumes "\<forall>v \<in> set values. v = 0 \<or> v = 1" "\<exists>v \<in> set values. v \<noteq> 1" "op \<noteq> NE"
    "sum_list values \<le> SUM_DP_MAX_J"
  shows "\<exists>u ws. enumerate_valid_worlds values C op AggCOUNT absorptive False True = Inr (u, ws) \<and>
    distinct ws \<and> world_meaning u ws = valid_worlds values C op AggCOUNT \<union>
      (if compare 0 op C \<and> \<not> sum_tautology op C (sum_list values)
       then {no_bits (length values)} else {})"
proof -
  have nn: "\<forall>v \<in> set values. 0 \<le> v" using assms(1) by auto
  obtain u r where r: "sum_dp values C op absorptive False True = (u, r)" by fastforce
  have "sum_dp_limit op C (sum_list values) \<le> sum_list values" by (simp add: sum_dp_limit_def)
  then have "\<not> sum_dp_limit op C (sum_list values) > SUM_DP_MAX_J" using assms(4) by simp
  with r sum_dp_eq[OF assms(3) nn, of C absorptive False True] obtain ws where ws: "r = Some ws"
    by (auto simp: sum_dp_run_def Let_def split: if_splits prod.splits)
  have mixed: "\<not> (\<forall>v \<in> set values. v = 1)" using assms(2) by blast
  have "enumerate_valid_worlds values C op AggCOUNT absorptive False True = Inr (u, ws)"
    unfolding enumerate_valid_worlds_def if_not_P[OF mixed] by (simp add: r ws)
  moreover have "valid_worlds values C op AggCOUNT = sum_worlds values C op"
    by (rule sum_worlds_alt) (simp add: sum_like_def)
  ultimately show ?thesis using sum_dp_single[OF assms(3) r[unfolded ws]] by simp
qed

lemma scalar_count_col_worlds_witness:
  "\<exists>u ws. enumerate_valid_worlds [1, 0] 5 LE AggCOUNT False False True = Inr (u, ws) \<and>
    distinct ws \<and> world_meaning u ws = valid_worlds [1, 0] 5 LE AggCOUNT \<union>
      (if compare 0 LE (5::int) \<and> \<not> sum_tautology LE 5 (sum_list [1, 0])
       then {no_bits (length [1, 0 :: int])} else {})"
  by (rule scalar_count_col_worlds) (simp_all add: SUM_DP_MAX_J_def)

section \<open>Inequality on an absorptive semiring\<close>

text \<open>A pass over values that are not negative and whose sum fits the table always returns.\<close>

lemma sum_dp_returns:
  assumes "\<forall>v \<in> set vs. 0 \<le> v" "sum_list vs \<le> SUM_DP_MAX_J" "op \<in> {LT, GT}"
  shows "\<exists>u ws. sum_dp vs C op a False keep = (u, Some ws)"
proof -
  have ne: "op \<noteq> NE" and l: "\<not> sum_dp_limit op C (sum_list vs) > SUM_DP_MAX_J"
    using assms by (auto simp: sum_dp_limit_def)
  show ?thesis
    unfolding sum_dp_eq[OF ne assms(1)] using l by (auto simp: sum_dp_run_def Let_def split: prod.splits)
qed

text \<open>C16: With \<open>\<noteq>\<close> on an absorptive semiring and values that the dynamic program accepts, the worlds
  returned for a SUM are those of the \<open><\<close> pass and those of the \<open>>\<close> pass under the flag of the latter.
  When it is set they stand, besides the satisfying worlds, for the worlds whose sum is the constant
  and that contain a non-empty world of smaller sum: these violate the comparison.\<close>

theorem sum_ne_absorptive_worlds:
  assumes "\<forall>v \<in> set values. 0 \<le> v" "sum_list values \<le> SUM_DP_MAX_J"
  shows "\<exists>ws. enumerate_valid_worlds values C NE AggSUM True False False =
      Inr (fst (sum_dp values C GT True False False), ws) \<and>
    world_meaning (fst (sum_dp values C GT True False False)) ws = valid_worlds values C NE AggSUM \<union>
      (if fst (sum_dp values C GT True False False)
       then {m \<in> masks (length values). masked_sum values m = C \<and> (\<exists>w \<in> valid_worlds values C LT AggSUM. mask_le w m)}
       else {})"
proof -
  have sl: "sum_like AggSUM" by (simp add: sum_like_def)
  obtain u1 lt where lt: "sum_dp values C LT True False False = (u1, Some lt)"
    using sum_dp_returns[OF assms, of LT C True False] by blast
  have u1: "\<not> u1" by (rule sum_dp_LT_flag[OF lt])
  obtain u gt where gt: "sum_dp values C GT True False False = (u, Some gt)"
    using sum_dp_returns[OF assms, of GT C True False] by blast
  have e: "enumerate_valid_worlds values C NE AggSUM True False False = Inr (u, lt @ gt)"
    using lt gt u1 by (simp add: enumerate_valid_worlds_def sum_dp_NE)
  have L: "set lt = sum_worlds values C LT" using sum_dp_single[OF _ lt] u1 by (simp add: world_meaning_def)
  have G: "world_meaning u gt = sum_worlds values C GT" using sum_dp_single[OF _ gt] by simp
  have N: "sum_worlds values C NE = sum_worlds values C LT \<union> sum_worlds values C GT" by (auto simp: sum_worlds_def)
  have W: "valid_worlds values C op AggSUM = sum_worlds values C op" for op by (rule sum_worlds_alt[OF sl])
  have up: "m \<in> sum_worlds values C NE" if "w \<in> sum_worlds values C LT" "mask_le w m" "masked_sum values m \<noteq> C" for w m
  proof -
    have "w \<noteq> no_bits (length w)" "length m = length values"
      using that(1) mask_le_length[OF that(2)] by (auto simp: sum_worlds_def masks_def)
    from mask_le_no_bits_iff[OF that(2) this(1)] this(2) that(3)
    show ?thesis by (simp add: sum_worlds_def masks_def)
  qed
  have len: "m \<in> masks (length values)" if "w \<in> sum_worlds values C LT" "mask_le w m" for w m
    using that mask_le_length[OF that(2)] by (simp add: sum_worlds_def masks_def)
  have "world_meaning u (lt @ gt) = sum_worlds values C NE \<union> (if u
      then {m \<in> masks (length values). masked_sum values m = C \<and> (\<exists>w \<in> sum_worlds values C LT. mask_le w m)} else {})"
  proof (cases u)
    case True
    have "world_meaning u (lt @ gt) = {m. \<exists>w \<in> sum_worlds values C LT. mask_le w m} \<union> sum_worlds values C GT"
      using True L G by (auto simp: world_meaning_def)
    also have "\<dots> = sum_worlds values C NE \<union>
        {m \<in> masks (length values). masked_sum values m = C \<and> (\<exists>w \<in> sum_worlds values C LT. mask_le w m)}"
      unfolding N using up len unfolding N by (blast intro: mask_le_refl)
    finally show ?thesis using True by simp
  next
    case False
    then show ?thesis using L G N by (simp add: world_meaning_def)
  qed
  then show ?thesis using e gt unfolding W by simp
qed

text \<open>For \<open>sum <> 2\<close> over four ones the two first rows alone, whose sum is 2, are among the worlds.\<close>

lemma sum_ne_absorptive_worlds_witness:
  "\<exists>ws. enumerate_valid_worlds [1, 1, 1, 1] 2 NE AggSUM True False False = Inr (True, ws) \<and>
    [True, True, False, False] \<in> world_meaning True ws - valid_worlds [1, 1, 1, 1] 2 NE AggSUM"
proof -
  have "fst (sum_dp [1, 1, 1, 1] 2 GT True False False)" by code_simp
  moreover have W: "valid_worlds [1, 1, 1, 1] 2 op AggSUM = sum_worlds [1, 1, 1, 1] 2 op" for op
    by (rule sum_worlds_alt) (simp add: sum_like_def)
  have "[True, False, False, False] \<in> valid_worlds [1, 1, 1, 1] 2 LT AggSUM"
    "mask_le [True, False, False, False] [True, True, False, False]" "masked_sum [1, 1, 1, 1] [True, True, False, False] = 2"
    "[True, True, False, False] \<notin> valid_worlds [1, 1, 1, 1] 2 NE AggSUM"
    unfolding W by (simp_all add: sum_worlds_def masks_def mask_le_def no_bits_def)
  ultimately show ?thesis
    using sum_ne_absorptive_worlds[of "[1, 1, 1, 1]" 2] by (auto simp: masks_def SUM_DP_MAX_J_def)
qed

section \<open>array_agg\<close>

text \<open>\<open>enumerate_array_agg_worlds\<close> lists, once each, the non-empty worlds whose present
  values, in contributor order, are (or are not) the target array.\<close>

theorem array_agg_worlds_exact:
  "distinct (enumerate_array_agg_worlds vals target want_equal) \<and>
   set (enumerate_array_agg_worlds vals target want_equal) =
     {m \<in> masks (length vals). m \<noteq> no_bits (length vals) \<and> (selected vals m = target) = want_equal}"
  by (auto simp: enumerate_array_agg_worlds_def distinct_worlds_from set_worlds)

text \<open>An aggregate that the accumulators do not support makes the enumeration of a
  non-empty group throw.\<close>

theorem unsupported_aggregate_throws:
  assumes "\<not> supported_agg agg" "values \<noteq> []"
  shows "\<exists>e. enumerate_valid_worlds values C op agg absorptive u sc = Inl (RuntimeError e)"
proof -
  let ?all = "worlds_from (no_bits (length values))"
  obtain e where e: "makeAggregator agg TINT = Inl (RuntimeError e)"
    using assms(1) by (cases agg) (auto simp: supported_agg_def makeAggregator_def)
  have "True # replicate (length values - 1) False \<in> set ?all"
    unfolding set_worlds using assms(2) by (cases "values") (auto simp: masks_def no_bits_def)
  then obtain m ms where all: "?all = m # ms" by (cases ?all) auto
  have "m \<in> set ?all" by (simp add: all)
  then have "m \<in> masks (length values) - {no_bits (length values)}" unfolding set_worlds .
  then have "m \<noteq> no_bits (length m)" "length m = length values" by (auto simp: masks_def)
  then have "exhaustive_scan values C op agg ?all = Inl (RuntimeError e)"
    by (simp add: all agg_cmp_holds_in_world_def True_in_mask_iff e)
  moreover have "agg \<noteq> AggCOUNT" "agg \<noteq> AggSUM" using assms(1) by (auto simp: supported_agg_def)
  ultimately show ?thesis by (auto simp: enumerate_valid_worlds_def enumerate_exhaustive_def)
qed

lemma unsupported_aggregate_throws_witness:
  "\<exists>e. enumerate_valid_worlds [1, 2] 0 EQ AggARRAY True False False = Inl (RuntimeError e)"
  by (rule unsupported_aggregate_throws) (simp_all add: supported_agg_def)

end
