(* ===== verification/Decimal.thy ===== *)
theory Decimal
  imports Prelude
begin

text \<open>
  The literal parsers of \<open>src/having_semantics.cpp\<close>: decimal constants as a mantissa and a scale
  (\<open>parse_decimal_scaled\<close>), the common integer grid (\<open>rescale_to\<close>) and one-dimensional array
  literals (\<open>parse_array_literal\<close>).  \<open>long\<close> is 64 bits wide; the bounds are written out.
\<close>

definition LONG_MAX :: int where "LONG_MAX = 2 ^ 63 - 1"
definition LONG_MIN :: int where "LONG_MIN = - (2 ^ 63)"

section \<open>Decimal literals\<close>

definition is_digit :: "char \<Rightarrow> bool" where
  "is_digit c \<longleftrightarrow> c \<in> {CHR ''0'', CHR ''1'', CHR ''2'', CHR ''3'', CHR ''4'', CHR ''5'', CHR ''6'',
     CHR ''7'', CHR ''8'', CHR ''9''}"

definition digit_val :: "char \<Rightarrow> int" where
  "digit_val c = of_char c - 48"

definition digits_val :: "string \<Rightarrow> int" where
  "digits_val ds = foldl (\<lambda>a c. 10 * a + digit_val c) 0 ds"

text \<open>The scanning loop: digits read, digits after the dot, whether a dot and a digit were seen.\<close>

fun scan_decimal :: "string \<Rightarrow> string \<Rightarrow> nat \<Rightarrow> bool \<Rightarrow> bool \<Rightarrow> (string \<times> nat \<times> bool) option" where
  "scan_decimal [] digits sc seen_dot seen_digit = Some (digits, sc, seen_digit)"
| "scan_decimal (ch # s) digits sc seen_dot seen_digit =
     (if ch = CHR ''.'' then
        (if seen_dot then None else scan_decimal s digits sc True seen_digit)
      else if is_digit ch then
        scan_decimal s (digits @ [ch]) (if seen_dot then sc + 1 else sc) seen_dot True
      else None)"

function drop_zeros :: "string \<Rightarrow> nat \<Rightarrow> string \<times> nat" where
  "drop_zeros digits sc =
     (if sc > 0 \<and> digits \<noteq> [] \<and> last digits = CHR ''0'' then drop_zeros (butlast digits) (sc - 1)
      else (digits, sc))"
  by pat_completeness auto
termination
  by (relation "measure (\<lambda>(d, s). s)") auto

declare drop_zeros.simps [simp del]

text \<open>\<open>std::stoll\<close> on a string of digits: it throws on the empty string and out of range.\<close>

definition stoll_digits :: "string \<Rightarrow> int option" where
  "stoll_digits ds = (if ds = [] \<or> digits_val ds > LONG_MAX then None else Some (digits_val ds))"

definition parse_decimal_scaled :: "string \<Rightarrow> (int \<times> nat) option" where
  "parse_decimal_scaled s =
     (if s = [] then None
      else (let neg = (hd s = CHR ''-'');
                body = (if hd s = CHR ''+'' \<or> hd s = CHR ''-'' then tl s else s) in
        case scan_decimal body [] 0 False False of
          None \<Rightarrow> None
        | Some (digits, sc, seen_digit) \<Rightarrow>
            if \<not> seen_digit then None
            else (let (digits', sc') = drop_zeros digits sc in
              case stoll_digits digits' of
                None \<Rightarrow> None
              | Some val \<Rightarrow> Some (if neg then - val else val, sc'))))"

function scale_factor :: "nat \<Rightarrow> int \<Rightarrow> int option" where
  "scale_factor k factor =
     (if k = 0 then Some factor
      else if factor > LONG_MAX div 10 then None
      else scale_factor (k - 1) (factor * 10))"
  by pat_completeness auto
termination
  by (relation "measure (\<lambda>(k, f). k)") auto

declare scale_factor.simps [simp del]

text \<open>C division truncates toward zero; the divisor is positive here.\<close>

definition trunc_div :: "int \<Rightarrow> int \<Rightarrow> int" where
  "trunc_div a b = (if a \<ge> 0 then a div b else - ((- a) div b))"

definition rescale_to :: "int \<Rightarrow> int \<Rightarrow> int \<Rightarrow> int option" where
  "rescale_to mantissa scale target_scale =
     (case scale_factor (nat (target_scale - scale)) 1 of
        None \<Rightarrow> None
      | Some factor \<Rightarrow>
          if mantissa \<noteq> 0 \<and> (mantissa > trunc_div LONG_MAX factor \<or> mantissa < trunc_div LONG_MIN factor)
          then None
          else Some (mantissa * factor))"

section \<open>What the parser computes\<close>

text \<open>The rational number a body "digits, optional dot, digits" denotes.\<close>

definition decimal_value :: "bool \<Rightarrow> string \<Rightarrow> string \<Rightarrow> real" where
  "decimal_value neg ints fracs =
     (if neg then -1 else 1) * (of_int (digits_val (ints @ fracs)) / 10 ^ length fracs)"

lemma digits_val_snoc: "digits_val (ds @ [c]) = 10 * digits_val ds + digit_val c"
  by (simp add: digits_val_def)

lemma scan_no_dot:
  "scan_decimal s ds sc True sd = Some (ds', sc', sd') \<Longrightarrow>
   ds' = ds @ s \<and> sc' = sc + length s \<and> sd' = (sd \<or> s \<noteq> []) \<and> (\<forall>c \<in> set s. is_digit c)"
proof (induction s arbitrary: ds sc sd)
  case (Cons c s)
  then have c: "is_digit c" "c \<noteq> CHR ''.''"
    and s: "scan_decimal s (ds @ [c]) (sc + 1) True True = Some (ds', sc', sd')"
    by (auto split: if_splits)
  from Cons.IH[OF s] c show ?case by simp
qed simp

lemma scan_decimal_correct:
  "scan_decimal s ds 0 False sd = Some (ds', sc, sd') \<Longrightarrow>
   \<exists>ints fracs. (s = ints \<and> fracs = [] \<or> s = ints @ ''.'' @ fracs) \<and> ds' = ds @ ints @ fracs \<and>
     sc = length fracs \<and> sd' = (sd \<or> ints @ fracs \<noteq> []) \<and> (\<forall>c \<in> set (ints @ fracs). is_digit c)"
proof (induction s arbitrary: ds sd)
  case Nil
  then show ?case by auto
next
  case (Cons c s)
  show ?case
  proof (cases "c = CHR ''.''")
    case True
    then have "scan_decimal s ds 0 True sd = Some (ds', sc, sd')" using Cons.prems by simp
    from scan_no_dot[OF this] True show ?thesis
      by (intro exI[of _ "[]"] exI[of _ s]) auto
  next
    case False
    then have c: "is_digit c" and s: "scan_decimal s (ds @ [c]) 0 False True = Some (ds', sc, sd')"
      using Cons.prems by (auto split: if_splits)
    from Cons.IH[OF s] obtain ints fracs where
      "s = ints \<and> fracs = [] \<or> s = ints @ ''.'' @ fracs" "ds' = (ds @ [c]) @ ints @ fracs"
      "sc = length fracs" "sd'" "\<forall>c \<in> set (ints @ fracs). is_digit c"
      by blast
    with c show ?thesis by (intro exI[of _ "c # ints"] exI[of _ fracs]) auto
  qed
qed

lemma drop_zeros_value:
  "drop_zeros ds sc = (ds', sc') \<Longrightarrow> sc \<le> length ds \<Longrightarrow>
   sc' \<le> length ds' \<and> (of_int (digits_val ds) :: real) / 10 ^ sc = of_int (digits_val ds') / 10 ^ sc' \<and>
   (sc' = 0 \<or> ds' = [] \<or> last ds' \<noteq> CHR ''0'')"
proof (induction ds sc rule: drop_zeros.induct)
  case (1 ds sc)
  show ?case
  proof (cases "sc > 0 \<and> ds \<noteq> [] \<and> last ds = CHR ''0''")
    case True
    then have r: "drop_zeros (butlast ds) (sc - 1) = (ds', sc')" using 1(2) by (subst (asm) drop_zeros.simps) simp
    have "ds = butlast ds @ [CHR ''0'']" using True by (metis append_butlast_last_id)
    then have v: "digits_val ds = 10 * digits_val (butlast ds)"
      using digits_val_snoc[of "butlast ds" "CHR ''0''"] by (simp add: digit_val_def)
    obtain k where k: "sc = Suc k" using True by (cases sc) auto
    have "(of_int (digits_val ds) :: real) / 10 ^ sc = of_int (digits_val (butlast ds)) / 10 ^ (sc - 1)"
      by (simp add: v k)
    with 1(1)[OF True r] 1(3) True show ?thesis by simp
  next
    case False
    then have "ds' = ds" "sc' = sc" using 1(2) by (auto simp: drop_zeros.simps)
    with False 1(3) show ?thesis by auto
  qed
qed

lemma drop_zeros_le: "drop_zeros ds sc = (ds', sc') \<Longrightarrow> sc' \<le> sc"
proof (induction ds sc rule: drop_zeros.induct)
  case (1 ds sc)
  show ?case
  proof (cases "sc > 0 \<and> ds \<noteq> [] \<and> last ds = CHR ''0''")
    case True
    then have "drop_zeros (butlast ds) (sc - 1) = (ds', sc')" using 1(2) by (subst (asm) drop_zeros.simps) simp
    from 1(1)[OF True this] show ?thesis by simp
  next
    case False
    then show ?thesis using 1(2) by (auto simp: drop_zeros.simps)
  qed
qed

text \<open>When \<open>parse_decimal_scaled\<close> accepts a literal, the literal is an optional sign, digits
  and at most one dot, the mantissa times \<open>10^(- scale)\<close> is exactly its value, and the scale is 0 or
  the last digit kept is not 0.\<close>

theorem parse_decimal_scaled_correct:
  assumes "parse_decimal_scaled s = Some (m, sc)"
  shows "\<exists>sign ints fracs. sign \<in> {'''', ''+'', ''-''} \<and>
     (s = sign @ ints \<and> fracs = [] \<or> s = sign @ ints @ ''.'' @ fracs) \<and>
     (\<forall>c \<in> set (ints @ fracs). is_digit c) \<and>
     of_int m / 10 ^ sc = decimal_value (sign = ''-'') ints fracs \<and> sc \<le> length fracs"
proof -
  define neg where "neg = (hd s = CHR ''-'')"
  define body where "body = (if hd s = CHR ''+'' \<or> hd s = CHR ''-'' then tl s else s)"
  define sign where "sign = (if hd s = CHR ''+'' then ''+'' else if hd s = CHR ''-'' then ''-'' else '''')"
  have eq: "parse_decimal_scaled s = (if s = [] then None else
      case scan_decimal body [] 0 False False of
          None \<Rightarrow> None
        | Some (digits, sc, seen_digit) \<Rightarrow>
            if \<not> seen_digit then None
            else (let (digits', sc') = drop_zeros digits sc in
              case stoll_digits digits' of
                None \<Rightarrow> None
              | Some val \<Rightarrow> Some (if neg then - val else val, sc')))"
    unfolding parse_decimal_scaled_def Let_def neg_def body_def ..
  from assms[unfolded eq] obtain ds c0 sd ds' val where
    s: "s \<noteq> []" and scan: "scan_decimal body [] 0 False False = Some (ds, c0, sd)"
    and drop: "drop_zeros ds c0 = (ds', sc)" and val: "stoll_digits ds' = Some val"
    and m: "m = (if neg then - val else val)"
    by (auto simp: Let_def split: if_split_asm option.split_asm prod.split_asm)
  have sb: "s = sign @ body" using s by (cases s) (auto simp: sign_def body_def)
  from scan_decimal_correct[OF scan] obtain ints fracs where
    b: "body = ints \<and> fracs = [] \<or> body = ints @ ''.'' @ fracs" and ds: "ds = ints @ fracs" "c0 = length fracs"
    and dig: "\<forall>c \<in> set (ints @ fracs). is_digit c" by auto
  from drop_zeros_value[OF drop] ds have
    v: "(of_int (digits_val (ints @ fracs)) :: real) / 10 ^ length fracs = of_int (digits_val ds') / 10 ^ sc" by simp
  have le: "sc \<le> c0" by (rule drop_zeros_le[OF drop])
  have "val = digits_val ds'" using val by (simp add: stoll_digits_def split: if_splits)
  then have v: "of_int m / 10 ^ sc = decimal_value (sign = ''-'') ints fracs"
    using m v by (simp add: decimal_value_def neg_def sign_def)
  have sg: "sign \<in> {'''', ''+'', ''-''}" by (simp add: sign_def)
  have sp: "s = sign @ ints \<and> fracs = [] \<or> s = sign @ ints @ ''.'' @ fracs"
    using b by (simp only: sb) auto
  have "sc \<le> length fracs" using le ds(2) by simp
  with sg sp dig v show ?thesis by blast
qed

lemma parse_decimal_scaled_witness:
  "\<exists>sign ints fracs. sign \<in> {'''', ''+'', ''-''} \<and>
     (''-12.340'' = sign @ ints \<and> fracs = [] \<or> ''-12.340'' = sign @ ints @ ''.'' @ fracs) \<and>
     (\<forall>c \<in> set (ints @ fracs). is_digit c) \<and>
     of_int (- 1234) / 10 ^ 2 = decimal_value (sign = ''-'') ints fracs \<and> 2 \<le> length fracs"
  by (rule parse_decimal_scaled_correct) code_simp

section \<open>The common grid\<close>

lemma scale_factor_eq:
  "0 < f \<Longrightarrow> f \<le> LONG_MAX \<Longrightarrow>
   scale_factor k f = (if f * 10 ^ k \<le> LONG_MAX then Some (f * 10 ^ k) else None)"
proof (induction k arbitrary: f)
  case 0
  then show ?case by (simp add: scale_factor.simps)
next
  case (Suc k)
  have step: "scale_factor (Suc k) f = (if f > LONG_MAX div 10 then None else scale_factor k (f * 10))"
    by (subst scale_factor.simps) simp
  show ?case
  proof (cases "f > LONG_MAX div 10")
    case True
    then have "LONG_MAX < f * 10" by (simp add: LONG_MAX_def)
    also have "f * 10 \<le> f * 10 ^ Suc k" using Suc.prems by simp
    finally show ?thesis using step True by simp
  next
    case False
    then have "f * 10 \<le> LONG_MAX" by (simp add: LONG_MAX_def)
    then show ?thesis using step False Suc by (simp add: mult.assoc)
  qed
qed

lemma trunc_div_bound:
  assumes "0 < (f :: int)"
  shows "m > trunc_div LONG_MAX f \<longleftrightarrow> m * f > LONG_MAX" "m < trunc_div LONG_MIN f \<longleftrightarrow> m * f < LONG_MIN"
proof -
  have le: "a * f \<le> b \<longleftrightarrow> a \<le> b div f" for a b :: int
  proof
    assume "a * f \<le> b"
    then have "a * f div f \<le> b div f" using assms by (rule zdiv_mono1)
    then show "a \<le> b div f" using assms by simp
  next
    assume "a \<le> b div f"
    then have "a * f \<le> b div f * f" using assms by simp
    also have "\<dots> \<le> b" using assms by (simp add: minus_mod_eq_div_mult[symmetric])
    finally show "a * f \<le> b" .
  qed
  show "m > trunc_div LONG_MAX f \<longleftrightarrow> m * f > LONG_MAX"
    using le[of m LONG_MAX] by (simp add: trunc_div_def LONG_MAX_def not_le[symmetric])
  have "m < trunc_div LONG_MIN f \<longleftrightarrow> \<not> (- m \<le> (- LONG_MIN) div f)"
    by (auto simp: trunc_div_def LONG_MIN_def)
  also have "\<dots> \<longleftrightarrow> \<not> (- m * f \<le> - LONG_MIN)" using le[of "- m" "- LONG_MIN"] by simp
  finally show "m < trunc_div LONG_MIN f \<longleftrightarrow> m * f < LONG_MIN" by auto
qed

text \<open>Rescaling to a scale at least as large multiplies the mantissa by the power of ten, and
  fails exactly when the power or the product does not fit in a \<open>long\<close>.\<close>

theorem rescale_to_exact:
  assumes "scale \<le> target_scale" "LONG_MIN \<le> m" "m \<le> LONG_MAX"
  shows "rescale_to m scale target_scale =
    (let f = 10 ^ nat (target_scale - scale) in
     if f \<le> LONG_MAX \<and> (LONG_MIN \<le> m * f \<and> m * f \<le> LONG_MAX) then Some (m * f) else None)"
proof -
  have one: "scale_factor k 1 = (if 10 ^ k \<le> LONG_MAX then Some (10 ^ k) else None)" for k
    using scale_factor_eq[of 1 k] by (simp add: LONG_MAX_def)
  have pos: "0 < (10 :: int) ^ k" for k by simp
  show ?thesis
    using trunc_div_bound[OF pos[of "nat (target_scale - scale)"], of m]
    by (auto simp: rescale_to_def one Let_def LONG_MIN_def LONG_MAX_def)
qed

lemma rescale_to_witness: "rescale_to 65 1 3 = Some 6500"
proof -
  have "rescale_to 65 1 3 = (let f = 10 ^ nat (3 - 1) in
     if f \<le> LONG_MAX \<and> (LONG_MIN \<le> 65 * f \<and> 65 * f \<le> LONG_MAX) then Some (65 * f) else None)"
    by (rule rescale_to_exact) (simp_all add: LONG_MIN_def LONG_MAX_def)
  then show ?thesis by (simp add: LONG_MIN_def LONG_MAX_def)
qed

section \<open>Array literals\<close>

text \<open>\<open>isspace\<close> in the C locale.\<close>

definition is_space :: "char \<Rightarrow> bool" where
  "is_space c \<longleftrightarrow> c \<in> {CHR '' '', CHR 0x09, CHR 0x0A, CHR 0x0B, CHR 0x0C, CHR 0x0D}"

definition skip_spaces :: "string \<Rightarrow> string" where
  "skip_spaces s = dropWhile is_space s"

text \<open>Inside quotes: up to the closing quote, with backslash escapes; None when it is missing.\<close>

fun quoted_elem :: "string \<Rightarrow> string \<Rightarrow> (string \<times> string) option" where
  "quoted_elem [] elem = None"
| "quoted_elem (c # s) elem =
     (if c = CHR 0x22 then Some (elem, s)
      else if c = CHR 0x5C then
        (case s of [] \<Rightarrow> quoted_elem s (elem @ [c]) | d # s' \<Rightarrow> quoted_elem s' (elem @ [d]))
      else quoted_elem s (elem @ [c]))"

definition rtrim :: "string \<Rightarrow> string" where
  "rtrim s = rev (dropWhile is_space (rev s))"

definition array_elem :: "string \<Rightarrow> (string \<times> string) option" where
  "array_elem s = (let s = skip_spaces s in
     if s \<noteq> [] \<and> hd s = CHR 0x22 then quoted_elem (tl s) []
     else Some (rtrim (takeWhile (\<lambda>c. c \<noteq> CHR '','' \<and> c \<noteq> CHR ''}'') s),
                dropWhile (\<lambda>c. c \<noteq> CHR '','' \<and> c \<noteq> CHR ''}'') s))"

lemma quoted_elem_length: "quoted_elem s e = Some (e', r) \<Longrightarrow> length r < length s"
proof (induction s e rule: quoted_elem.induct)
  case (2 c s e)
  show ?case
  proof (cases "c = CHR 0x22")
    case False
    note c1 = this
    show ?thesis
    proof (cases "c = CHR 0x5C")
      case True
      with 2 c1 show ?thesis by (cases s) auto
    next
      case False
      with 2(3) 2(4) c1 show ?thesis by simp
    qed
  qed (use 2 in simp)
qed simp

lemma array_elem_length: "array_elem s = Some (e, r) \<Longrightarrow> length r \<le> length s"
proof -
  have "length (skip_spaces s) \<le> length s" by (simp add: skip_spaces_def length_dropWhile_le)
  moreover assume a: "array_elem s = Some (e, r)"
  have "length r \<le> length (skip_spaces s)"
  proof (cases "skip_spaces s \<noteq> [] \<and> hd (skip_spaces s) = CHR 0x22")
    case True
    with a have "quoted_elem (tl (skip_spaces s)) [] = Some (e, r)" by (simp add: array_elem_def)
    from quoted_elem_length[OF this] show ?thesis by simp
  next
    case False
    with a have "r = dropWhile (\<lambda>c. c \<noteq> CHR '','' \<and> c \<noteq> CHR ''}'') (skip_spaces s)"
      by (auto simp: array_elem_def Let_def)
    then show ?thesis by (simp add: length_dropWhile_le)
  qed
  ultimately show ?thesis by simp
qed

function array_elems :: "string \<Rightarrow> string list \<Rightarrow> string list option" where
  "array_elems s out =
     (if s = [] then None
      else (case array_elem s of
         None \<Rightarrow> None
       | Some (elem, rest) \<Rightarrow>
           (case skip_spaces rest of
              [] \<Rightarrow> None
            | c # rest' \<Rightarrow>
                if c = CHR '','' then array_elems rest' (out @ [elem])
                else if c = CHR ''}'' then Some (out @ [elem])
                else None)))"
  by pat_completeness auto
termination
proof (relation "measure (\<lambda>(s, out). length s)", simp)
  fix s out x elem rest c rest'
  assume a: "array_elem s = Some x" "(elem, rest) = x" "skip_spaces rest = c # rest'"
  then have "length (c # rest') \<le> length rest"
    using length_dropWhile_le[of is_space rest] by (simp add: skip_spaces_def)
  moreover have "length rest \<le> length s" using array_elem_length a by blast
  ultimately show "((rest', out @ [elem]), s, out) \<in> measure (\<lambda>(s, out). length s)" by simp
qed

declare array_elems.simps [simp del]

definition parse_array_literal :: "string \<Rightarrow> string list option" where
  "parse_array_literal s =
     (case skip_spaces s of
        [] \<Rightarrow> None
      | c # rest \<Rightarrow>
          if c \<noteq> CHR ''{'' then None
          else (let rest = skip_spaces rest in
            if rest \<noteq> [] \<and> hd rest = CHR ''}'' then Some [] else array_elems rest []))"

text \<open>A quoted element, as PostgreSQL writes one: quotes and backslashes escaped.\<close>

definition quote_elem :: "string \<Rightarrow> string" where
  "quote_elem e = [CHR 0x22] @
     concat (map (\<lambda>c. if c = CHR 0x22 \<or> c = CHR 0x5C then [CHR 0x5C, c] else [c]) e) @ [CHR 0x22]"

fun array_text :: "string list \<Rightarrow> string" where
  "array_text [] = ''}''"
| "array_text [e] = quote_elem e @ ''}''"
| "array_text (e # f # es) = quote_elem e @ '','' @ array_text (f # es)"

lemma quoted_elem_quote:
  "quoted_elem (concat (map (\<lambda>c. if c = CHR 0x22 \<or> c = CHR 0x5C then [CHR 0x5C, c] else [c]) e) @ CHR 0x22 # r) acc
   = Some (acc @ e, r)"
  by (induction e arbitrary: acc) auto

lemma array_elem_quote: "array_elem (quote_elem e @ r) = Some (e, r)"
  using quoted_elem_quote[of e r "[]"]
  by (simp add: array_elem_def skip_spaces_def quote_elem_def is_space_def)

lemma array_elems_text: "es \<noteq> [] \<Longrightarrow> array_elems (array_text es) out = Some (out @ es)"
proof (induction es arbitrary: out rule: array_text.induct)
  case (2 e)
  have "quote_elem e @ ''}'' \<noteq> []" by simp
  then show ?case
    by (subst array_elems.simps) (simp add: array_elem_quote, simp add: skip_spaces_def is_space_def)
next
  case (3 e f es)
  then show ?case
    by (subst array_elems.simps)
       (simp add: array_elem_quote[of e "CHR '','' # _"], simp add: skip_spaces_def is_space_def)
qed simp

text \<open>\<open>parse_array_literal\<close> reads back any one-dimensional array whose elements are written in
  quotes, whatever characters they contain.\<close>

theorem array_literal_roundtrip:
  "parse_array_literal (''{'' @ array_text es) = Some es"
proof (cases es)
  case Nil
  then show ?thesis by (simp add: parse_array_literal_def skip_spaces_def is_space_def)
next
  case (Cons e es')
  have "\<exists>q. array_text es = CHR 0x22 # q" unfolding Cons by (cases es') (simp_all add: quote_elem_def)
  then obtain q where q: "array_text es = CHR 0x22 # q" by blast
  have "skip_spaces (array_text es) = array_text es" unfolding q by (simp add: skip_spaces_def is_space_def)
  moreover have "skip_spaces (''{'' @ array_text es) = ''{'' @ array_text es"
    by (simp add: skip_spaces_def is_space_def)
  ultimately show ?thesis
    using array_elems_text[of es "[]"] Cons q by (simp add: parse_array_literal_def Let_def)
qed

end
