(* ===== verification/Having.thy ===== *)
theory Having
  imports WorldEnum Semirings Decimal
begin

text \<open>
  \<open>src/having_semantics.hpp\<close>: how a comparison of an aggregate with a constant becomes a semiring
  value.  The circuit access (\<open>getWires\<close>, the extraction of the constant and of the pairs of a
  value and its annotation) is done before these functions; they take the already evaluated
  contributor annotations \<open>kvals\<close> and the texts of the values.  \<open>None\<close> is the return value
  \<open>false\<close> of the lambda \<open>build_from\<close> (the gate is left unresolved), \<open>Inl\<close> an exception.

  The correctness statements read the Boolean semiring: the annotations say which contributors are
  present, and the value computed is whether the comparison holds in that world.
\<close>

section \<open>Combining the worlds\<close>

definition certifiable_contributors :: "'s semiring \<Rightarrow> 's list \<Rightarrow> bool" where
  "certifiable_contributors S kv \<longleftrightarrow>
     S_certifying S \<and> length kv \<le> 16 \<and>
     (\<forall>i < length kv. S_independent_literal S (kv ! i) \<and>
        (kv ! i = S_one S \<or> kv ! i = S_zero S \<or> (\<forall>j < i. kv ! j \<noteq> kv ! i)))"

fun sequence_results :: "(exn + 's) list \<Rightarrow> exn + 's list" where
  "sequence_results [] = Inr []"
| "sequence_results (r # rs) = bind_result r (\<lambda>x. bind_result (sequence_results rs) (\<lambda>xs. Inr (x # xs)))"

text \<open>The monotone MIN and MAX cases in which absent contributors are left out.\<close>

definition monotone_skip :: "'s semiring \<Rightarrow> cmp_op \<Rightarrow> agg_op \<Rightarrow> bool" where
  "monotone_skip S op agg_kind \<longleftrightarrow>
     ((op = GE \<or> op = GT) \<and> S_absorptive S \<and> agg_kind = AggMAX) \<or>
     ((op = LE \<or> op = LT) \<and> S_absorptive S \<and> agg_kind = AggMIN)"

definition world_term :: "'s semiring \<Rightarrow> 's list \<Rightarrow> bool \<Rightarrow> cmp_op \<Rightarrow> agg_op \<Rightarrow> mask \<Rightarrow> 's" where
  "world_term S kvals upset op agg_kind m =
     (let present = filter (\<lambda>k. k \<noteq> S_one S) (selected kvals m);
          missing = (if upset \<or> monotone_skip S op agg_kind then []
                     else filter (\<lambda>k. k \<noteq> S_zero S) (selected kvals (map Not m)));
          present_prod = S_times S present
      in if missing = [] then present_prod
         else (let monus_factor = S_monus S (S_one S) (S_plus S missing) in
           if present_prod \<noteq> S_one S then S_times S [present_prod, monus_factor] else monus_factor))"

definition combine_exhaustive_worlds ::
  "'s semiring \<Rightarrow> mask list \<Rightarrow> 's list \<Rightarrow> bool \<Rightarrow> cmp_op \<Rightarrow> agg_op \<Rightarrow> exn + 's" where
  "combine_exhaustive_worlds S worlds kvals upset op agg_kind =
     (if worlds = [] then Inr (S_zero S)
      else if certifiable_contributors S kvals then
        bind_result
          (sequence_results (map (\<lambda>m. S_certified_world_term S (selected kvals m) (selected kvals (map Not m))) worlds))
          (S_certified_exclusive_plus S)
      else Inr (S_plus S (map (world_term S kvals upset op agg_kind) worlds)))"

section \<open>The numeric domain\<close>

fun sequence_options :: "'a option list \<Rightarrow> 'a list option" where
  "sequence_options [] = Some []"
| "sequence_options (None # xs) = None"
| "sequence_options (Some x # xs) = map_option ((#) x) (sequence_options xs)"

text \<open>The common integer grid of the values and the threshold.\<close>

definition numeric_grid :: "string list \<Rightarrow> string \<Rightarrow> (int list \<times> int) option" where
  "numeric_grid m_strs C_str =
     (case parse_decimal_scaled C_str of
        None \<Rightarrow> None
      | Some (C_mant, C_scale) \<Rightarrow>
          (case sequence_options (map parse_decimal_scaled m_strs) of
             None \<Rightarrow> None
           | Some ms \<Rightarrow>
               (let target = foldl max C_scale (map snd ms) in
                case rescale_to C_mant (int C_scale) (int target) of
                  None \<Rightarrow> None
                | Some C \<Rightarrow>
                    (case sequence_options (map (\<lambda>(m, s). rescale_to m (int s) (int target)) ms) of
                       None \<Rightarrow> None
                     | Some mvals \<Rightarrow> Some (mvals, C)))))"

text \<open>
  The exceptions of the accumulators and of the semiring share one type here: what escapes the
  enumeration is a \<open>std::runtime_error\<close> or a \<open>bad_variant_access\<close>.
\<close>

fun exn_of_agg :: "agg_exn \<Rightarrow> exn" where
  "exn_of_agg BadVariantAccess = StdRuntimeError ''bad_variant_access''"
| "exn_of_agg (RuntimeError s) = StdRuntimeError s"

text \<open>
  \<open>build_from\<close> for the numeric domain.  The comparison that drives the enumeration is
  \<open>effective_op\<close>; the one handed to \<open>combine_exhaustive_worlds\<close> is the gate's own \<open>op\<close>.
\<close>

definition build_numeric ::
  "'s semiring \<Rightarrow> cmp_op \<Rightarrow> cmp_op \<Rightarrow> agg_op \<Rightarrow> bool \<Rightarrow> string list \<Rightarrow> 's list \<Rightarrow> string \<Rightarrow> (exn + 's) option" where
  "build_numeric S op effective_op agg_kind is_scalar m_strs kvals C_str =
     (case numeric_grid m_strs C_str of
        None \<Rightarrow> None
      | Some (mvals, C) \<Rightarrow>
          Some (case enumerate_valid_worlds mvals C effective_op agg_kind
                  (if certifiable_contributors S kvals then False else S_absorptive S) False is_scalar of
              Inl e \<Rightarrow> Inl (exn_of_agg e)
            | Inr (upset, worlds) \<Rightarrow> combine_exhaustive_worlds S worlds kvals upset op agg_kind))"

section \<open>Telescoping by the first present contributor\<close>

text \<open>
  The loop shared by \<open>choose\<close> and by the Boolean aggregates: \<open>prefix\<close> is the product of the
  complements of the contributors seen, and each matching one adds a disjunct.
\<close>

fun telescope :: "'s semiring \<Rightarrow> ('s \<times> bool) list \<Rightarrow> 's \<Rightarrow> 's list" where
  "telescope S [] prefix = []"
| "telescope S ((k, match) # ks) prefix =
     (let disjunct = (if prefix = S_one S then k else if k = S_one S then prefix else S_times S [k, prefix]);
          absent = S_monus S (S_one S) k;
          prefix' = (if prefix = S_one S then absent else S_times S [prefix, absent])
      in if match then disjunct # telescope S ks prefix' else telescope S ks prefix')"

text \<open>The certified variant: one world term per match, against everything before it.\<close>

fun telescope_certified :: "'s semiring \<Rightarrow> ('s \<times> bool) list \<Rightarrow> 's list \<Rightarrow> (exn + 's) list" where
  "telescope_certified S [] before = []"
| "telescope_certified S ((k, match) # ks) before =
     (if match then [S_certified_world_term S [k] before] else []) @ telescope_certified S ks (before @ [k])"

definition build_choose_text ::
  "'s semiring \<Rightarrow> cmp_op \<Rightarrow> agg_op \<Rightarrow> string list \<Rightarrow> 's list \<Rightarrow> string \<Rightarrow> exn + 's" where
  "build_choose_text S effective_op agg_kind m_strs kvals C_str =
     (if agg_kind \<noteq> AggCHOOSE then
        Inl (StdRuntimeError ''comparing an aggregate with a text constant in HAVING is only implemented for choose()'')
      else if effective_op \<noteq> EQ \<and> effective_op \<noteq> NE then
        Inl (StdRuntimeError ''only = and <> are supported when comparing choose() with a text constant'')
      else
        (let matches = map (\<lambda>s. if effective_op = EQ then s = C_str else s \<noteq> C_str) m_strs in
         if certifiable_contributors S kvals then
           (let disjuncts = telescope_certified S (zip kvals matches) [] in
            if disjuncts = [] then Inr (S_zero S)
            else bind_result (sequence_results disjuncts) (S_certified_exclusive_plus S))
         else
           (let disjuncts = telescope S (zip kvals matches) (S_one S) in
            Inr (if disjuncts = [] then S_zero S else S_plus S disjuncts))))"

definition parse_bool :: "string \<Rightarrow> bool option" where
  "parse_bool s =
     (if s = ''t'' \<or> s = ''true'' \<or> s = ''1'' then Some True
      else if s = ''f'' \<or> s = ''false'' \<or> s = ''0'' then Some False
      else None)"

text \<open>The product of the complements of the rows that must be absent.\<close>

definition none_factor :: "'s semiring \<Rightarrow> 's list \<Rightarrow> 's" where
  "none_factor S ks = foldl (\<lambda>acc k. let absent = S_monus S (S_one S) k in
       if acc = S_one S then absent else S_times S [acc, absent]) (S_one S) ks"

fun certified_some :: "'s semiring \<Rightarrow> 's list \<Rightarrow> 's list \<Rightarrow> 's list \<Rightarrow> (exn + 's) list" where
  "certified_some S [] noneF before = []"
| "certified_some S (e # es) noneF before =
     S_certified_world_term S [e] (before @ noneF) # certified_some S es noneF (before @ [e])"

text \<open>One of \<open>someE\<close> present and none of \<open>noneF\<close>.\<close>

definition boolean_having :: "'s semiring \<Rightarrow> 's list \<Rightarrow> 's list \<Rightarrow> 's list \<Rightarrow> exn + 's" where
  "boolean_having S kvals someE noneF =
     (if someE = [] then Inr (S_zero S)
      else if certifiable_contributors S kvals then
        bind_result (sequence_results (certified_some S someE noneF [])) (S_certified_exclusive_plus S)
      else
        (let none = none_factor S noneF;
             disjuncts = telescope S (map (\<lambda>k. (k, True)) someE) (S_one S);
             some_value = (if disjuncts = [] then S_zero S else S_plus S disjuncts)
         in Inr (if none = S_one S then some_value
                 else if some_value = S_one S then none
                 else S_times S [none, some_value])))"

text \<open>\<open>build_from\<close> for bool_or and bool_and; the aggregate must be one of the two.\<close>

definition build_boolean ::
  "'s semiring \<Rightarrow> cmp_op \<Rightarrow> agg_op \<Rightarrow> string list \<Rightarrow> 's list \<Rightarrow> string \<Rightarrow> (exn + 's) option" where
  "build_boolean S effective_op agg_kind m_strs kvals C_str =
     (if agg_kind \<noteq> AggOR \<and> agg_kind \<noteq> AggAND then None
      else if effective_op \<noteq> EQ \<and> effective_op \<noteq> NE then
        Some (Inl (StdRuntimeError ''only = and <> are supported when comparing a boolean aggregate''))
      else
        (case parse_bool C_str of
           None \<Rightarrow> None
         | Some C \<Rightarrow>
             (let target = (if effective_op = EQ then C else \<not> C) in
              case sequence_options (map parse_bool m_strs) of
                None \<Rightarrow> None
              | Some vals \<Rightarrow>
                  (let want_or = (agg_kind = AggOR);
                       someE = (if want_or = target
                                then map fst (filter (\<lambda>(k, v). v = want_or) (zip kvals vals))
                                else map fst (filter (\<lambda>(k, v). v \<noteq> want_or) (zip kvals vals)));
                       noneF = (if want_or = target then []
                                else map fst (filter (\<lambda>(k, v). v = want_or) (zip kvals vals)))
                   in Some (boolean_having S kvals someE noneF)))))"

text \<open>\<open>build_from\<close> for array_agg.\<close>

definition canon_bool :: "string \<Rightarrow> string" where
  "canon_bool s =
     (if s = ''t'' \<or> s = ''true'' \<or> s = ''1'' then ''true''
      else if s = ''f'' \<or> s = ''false'' \<or> s = ''0'' then ''false'' else s)"

definition build_array ::
  "'s semiring \<Rightarrow> cmp_op \<Rightarrow> bool \<Rightarrow> string list \<Rightarrow> 's list \<Rightarrow> string \<Rightarrow> (exn + 's) option" where
  "build_array S effective_op elem_is_boolean m_strs kvals C_str =
     (if effective_op \<noteq> EQ \<and> effective_op \<noteq> NE then
        Some (Inl (StdRuntimeError ''only = and <> are supported when comparing array_agg() with a constant array in HAVING''))
      else
        (case parse_array_literal C_str of
           None \<Rightarrow> None
         | Some target \<Rightarrow>
             (let target' = (if elem_is_boolean then map canon_bool target else target);
                  vals = (if elem_is_boolean then map canon_bool m_strs else m_strs);
                  worlds = enumerate_array_agg_worlds vals target' (effective_op = EQ)
              in Some (combine_exhaustive_worlds S worlds kvals False effective_op AggARRAY))))"

section \<open>Over any semiring\<close>

text \<open>The formula the optimised combination computes: present contributors times the complement
  of the sum of the absent ones, summed over the worlds.\<close>

definition worlds_formula :: "'s semiring \<Rightarrow> mask list \<Rightarrow> 's list \<Rightarrow> 's" where
  "worlds_formula S worlds kvals = S_plus S (map (\<lambda>m.
     S_times S [S_times S (selected kvals m), S_monus S (S_one S) (S_plus S (selected kvals (map Not m)))]) worlds)"

lemma set_selected: "set (selected xs m) \<subseteq> set xs"
  by (auto simp: selected_def dest: set_zip_leftD)

context semiring_laws begin

lemma world_term_formula:
  assumes D: "set kvals \<subseteq> D" and skip: "\<not> monotone_skip S op agg"
  shows "world_term S kvals False op agg m =
    S_times S [S_times S (selected kvals m), S_monus S (S_one S) (S_plus S (selected kvals (map Not m)))]"
proof -
  let ?p = "selected kvals m" and ?q = "selected kvals (map Not m)"
  have sub: "set ?p \<subseteq> D" "set ?q \<subseteq> D" using set_selected D by fast+
  have p: "S_times S (filter (\<lambda>k. k \<noteq> S_one S) ?p) = S_times S ?p" by (rule times_drop_ones[OF sub(1)])
  have q: "S_plus S (filter (\<lambda>k. k \<noteq> S_zero S) ?q) = S_plus S ?q" by (rule plus_drop_zeros[OF sub(2)])
  have tp: "S_times S ?p \<in> D" and mq: "S_monus S (S_one S) (S_plus S ?q) \<in> D" using sub by auto
  show ?thesis
  proof (cases "filter (\<lambda>k. k \<noteq> S_zero S) ?q = []")
    case True
    then have "S_plus S ?q = S_zero S" using q by simp
    then have "S_monus S (S_one S) (S_plus S ?q) = S_one S" by (simp add: monus_zero_right)
    with True skip p tp show ?thesis by (simp add: world_term_def Let_def times_one_right)
  next
    case False
    show ?thesis
    proof (cases "S_times S ?p = S_one S")
      case True
      with False skip p q mq show ?thesis by (simp add: world_term_def Let_def times_one)
    next
      case False2: False
      with False skip p q show ?thesis by (simp add: world_term_def Let_def)
    qed
  qed
qed

lemma combine_formula:
  assumes "set kvals \<subseteq> D" "\<not> monotone_skip S op agg" "\<not> certifiable_contributors S kvals"
  shows "combine_exhaustive_worlds S worlds kvals False op agg = Inr (worlds_formula S worlds kvals)"
proof -
  have eq: "map (world_term S kvals False op agg) worlds = map (\<lambda>m. S_times S [S_times S (selected kvals m),
      S_monus S (S_one S) (S_plus S (selected kvals (map Not m)))]) worlds"
    by (rule map_cong[OF refl]) (rule world_term_formula[OF assms(1,2)])
  show ?thesis unfolding combine_exhaustive_worlds_def worlds_formula_def eq using assms(3) by simp
qed

end

text \<open>On the Counting, Tropical, Viterbi and Boolean semirings, outside the monotone shortcut,
  the combination with its shortcuts for neutral operands equals the defining sum over the worlds.\<close>

theorem combine_exhaustive_worlds_formula:
  "combine_exhaustive_worlds CountingS worlds ks False op agg = Inr (worlds_formula CountingS worlds ks) \<and>
   combine_exhaustive_worlds TropicalS worlds ts False op agg = Inr (worlds_formula TropicalS worlds ts) \<and>
   combine_exhaustive_worlds BooleanS worlds bs False op AggSUM = Inr (worlds_formula BooleanS worlds bs)"
  by (intro conjI counting.combine_formula tropical.combine_formula boolean.combine_formula)
     (auto simp: monotone_skip_def certifiable_contributors_def)

section \<open>In the Boolean semiring\<close>

lemma boolean_times_selected:
  "length m = length kvals \<Longrightarrow> (\<forall>x \<in> set (selected kvals m). x) \<longleftrightarrow> mask_le m kvals"
proof (induction m kvals rule: list_induct2)
  case (Cons b m k kvals)
  then show ?case by (auto simp: mask_le_def)
qed (simp add: mask_le_def)

lemma boolean_missing:
  "length m = length kvals \<Longrightarrow> (\<forall>x \<in> set (selected kvals (map Not m)). \<not> x) \<longleftrightarrow> mask_le kvals m"
proof (induction m kvals rule: list_induct2)
  case (Cons b m k kvals)
  then show ?case by (auto simp: mask_le_def)
qed (simp add: mask_le_def)

lemma mask_le_trans: "mask_le a b \<Longrightarrow> mask_le b c \<Longrightarrow> mask_le a c"
  by (auto simp: mask_le_nth)

lemma mask_le_antisym: "mask_le a b \<Longrightarrow> mask_le b a \<Longrightarrow> a = b"
  by (auto simp: mask_le_nth intro!: nth_equalityI)

lemma world_term_boolean:
  assumes "length m = length kvals"
  shows "world_term BooleanS kvals u op agg m \<longleftrightarrow>
    (if u \<or> monotone_skip BooleanS op agg then mask_le m kvals else m = kvals)"
proof -
  let ?miss = "filter (\<lambda>k. k \<noteq> False) (selected kvals (map Not m))"
  have present: "(\<forall>x \<in> set (filter (\<lambda>k. k \<noteq> True) (selected kvals m)). x) \<longleftrightarrow> mask_le m kvals"
    using boolean_times_selected[OF assms] by auto
  show ?thesis
  proof (cases "u \<or> monotone_skip BooleanS op agg")
    case True
    then show ?thesis using present by (simp add: world_term_def)
  next
    case False
    have "?miss = [] \<longleftrightarrow> mask_le kvals m" using boolean_missing[OF assms] by (auto simp: filter_empty_conv)
    moreover have "(\<exists>x \<in> set ?miss. x) \<longleftrightarrow> ?miss \<noteq> []" by (auto simp: filter_empty_conv)
    ultimately show ?thesis using False present mask_le_antisym[of m kvals]
      by (auto simp: world_term_def Let_def)
  qed
qed

lemma combine_boolean:
  assumes "\<forall>m \<in> set worlds. length m = length kvals"
  shows "combine_exhaustive_worlds BooleanS worlds kvals u op agg = Inr
    (if u \<or> monotone_skip BooleanS op agg then \<exists>m \<in> set worlds. mask_le m kvals else kvals \<in> set worlds)"
  using assms world_term_boolean[of _ kvals u op agg]
  by (auto simp: combine_exhaustive_worlds_def certifiable_contributors_def)

lemma selected_mask_le:
  "mask_le w m \<Longrightarrow> length w = length vs \<Longrightarrow> set (selected vs w) \<subseteq> set (selected vs m)"
proof (induction w arbitrary: m vs)
  case (Cons b w)
  then obtain b' m' v vs' where "m = b' # m'" "vs = v # vs'" "b \<longrightarrow> b'" "mask_le w m'" "length w = length vs'"
    by (cases vs) (auto simp: mask_le_def list_all2_Cons1)
  with Cons.IH[of m' vs'] show ?case by auto
qed simp

text \<open>MAX with \<open>\<ge>\<close> or \<open>>\<close> and MIN with \<open>\<le>\<close> or \<open><\<close> are monotone in the world.\<close>

lemma valid_worlds_monotone:
  assumes skip: "monotone_skip BooleanS op agg" and w: "w \<in> valid_worlds vs C op agg" "mask_le w m"
  shows "m \<in> valid_worlds vs C op agg"
proof -
  have lw: "length w = length vs" and nw: "w \<noteq> no_bits (length w)"
    using w valid_worlds_nonempty by (auto simp: valid_worlds_def masks_def)
  have lm: "length m = length vs" using lw mask_le_length[OF w(2)] by simp
  have nm: "m \<noteq> no_bits (length m)" by (rule mask_le_no_bits_iff[OF w(2) nw])
  have sub: "set (selected vs w) \<subseteq> set (selected vs m)" by (rule selected_mask_le[OF w(2) lw])
  have ne: "set (selected vs w) \<noteq> {}" using nw lw by (simp add: selected_eq_Nil_iff True_in_mask_iff)
  have "Max (set (selected vs w)) \<le> Max (set (selected vs m))" by (rule Max_mono[OF sub ne]) simp
  moreover have "Min (set (selected vs m)) \<le> Min (set (selected vs w))" by (rule Min_antimono[OF sub ne]) simp
  ultimately show ?thesis
    using w(1) skip lw nw lm nm
    by (auto simp: valid_worlds_def masks_def monotone_skip_def holds_MinMax)
qed

text \<open>C12: In the Boolean semiring, HAVING over the numeric domain, for a supported aggregate of a group (not a
  scalar one) and every comparison but \<open>\<noteq>\<close>, computes whether the comparison, turned round when the
  constant is on its left, holds in the world of the contributors that are present.  The exception is the
  shortcut of MIN and MAX with the constant on the left: it is chosen from the operator as written, and
  what is computed is whether some non-empty part of the present contributors satisfies the comparison.\<close>

theorem build_numeric_boolean:
  assumes "supported_agg agg" "effective_op \<noteq> NE" "effective_op = op \<or> effective_op = flip_op op"
    and "numeric_grid m_strs C_str = Some (mvals, C)" "length kvals = length mvals"
  shows "build_numeric BooleanS op effective_op agg False m_strs kvals C_str =
    Some (Inr (if effective_op \<noteq> op \<and> monotone_skip BooleanS op agg
      then \<exists>w \<in> valid_worlds mvals C effective_op agg. mask_le w kvals
      else agg_cmp_holds_in_world mvals kvals C effective_op agg = Inr True))"
proof -
  let ?V = "valid_worlds mvals C effective_op agg"
  obtain u ws where e: "enumerate_valid_worlds mvals C effective_op agg True False False = Inr (u, ws)"
    and m: "world_meaning u ws = ?V"
    using enumerate_valid_worlds_absorptive_lib[OF assms(1,2), of mvals C] by blast
  have sub: "w \<in> ?V" if "w \<in> set ws" for w
    using that m by (auto simp: world_meaning_def intro: mask_le_refl split: if_splits)
  have lens: "\<forall>m \<in> set ws. length m = length kvals"
    using sub assms(5) by (auto simp: valid_worlds_def masks_def)
  have skip: "(\<exists>m \<in> set ws. mask_le m kvals) \<longleftrightarrow> (\<exists>w \<in> ?V. mask_le w kvals)"
    using m sub mask_le_trans by (auto simp: world_meaning_def split: if_splits) blast+
  have "(\<exists>m \<in> set ws. mask_le m kvals) \<longleftrightarrow> kvals \<in> ?V" if u using that m by (auto simp: world_meaning_def)
  moreover have "kvals \<in> set ws \<longleftrightarrow> kvals \<in> ?V" if "\<not> u" using that m by (simp add: world_meaning_def)
  moreover have "(\<exists>w \<in> ?V. mask_le w kvals) \<longleftrightarrow> kvals \<in> ?V" if "monotone_skip BooleanS effective_op agg"
    using valid_worlds_monotone[OF that, of _ mvals C kvals] mask_le_refl by blast
  moreover have "kvals \<in> ?V \<longleftrightarrow> agg_cmp_holds_in_world mvals kvals C effective_op agg = Inr True"
    using assms(5) by (simp add: valid_worlds_def masks_def)
  ultimately show ?thesis
    using assms(4) e combine_boolean[OF lens, of u op agg] skip
    by (auto simp: build_numeric_def certifiable_contributors_def)
qed

lemma build_numeric_boolean_witness:
  "build_numeric BooleanS GE GE AggSUM False [''1.5'', ''2''] [True, False] ''1.50'' =
     Some (Inr (agg_cmp_holds_in_world [15, 20] [True, False] 15 GE AggSUM = Inr True)) \<and>
   build_numeric BooleanS GE LE AggMAX False [''1.5'', ''2''] [True, True] ''1.50'' =
     Some (Inr (\<exists>w \<in> valid_worlds [15, 20] 15 LE AggMAX. mask_le w [True, True]))"
proof -
  have "numeric_grid [''1.5'', ''2''] ''1.50'' = Some ([15, 20], 15)" by code_simp
  note b = build_numeric_boolean[OF _ _ _ this]
  show ?thesis
    using b[of AggSUM GE GE "[True, False]"] b[of AggMAX LE GE "[True, True]"]
    by (simp add: supported_agg_def monotone_skip_def)
qed

text \<open>So \<open>5 >= max(x)\<close> over the values 3 and 7, both present, is computed as true.\<close>

lemma flipped_operator_shortcut:
  "build_numeric BooleanS GE (flip_op GE) AggMAX False [''3'', ''7''] [True, True] ''5'' = Some (Inr True) \<and>
   agg_cmp_holds_in_world [3, 7] [True, True] 5 (flip_op GE) AggMAX = Inr False"
  by code_simp

lemma telescope_boolean:
  "(\<exists>d \<in> set (telescope BooleanS ks prefix). d) \<longleftrightarrow>
   prefix \<and> (\<exists>i < length ks. fst (ks ! i) \<and> snd (ks ! i) \<and> (\<forall>j < i. \<not> fst (ks ! j)))"
proof (induction BooleanS ks prefix rule: telescope.induct)
  case (2 k match ks prefix)
  have ex: "(\<exists>i < Suc n. P i) \<longleftrightarrow> P 0 \<or> (\<exists>i < n. P (Suc i))" for n P
    by (auto simp: less_Suc_eq_0_disj)
  have all: "(\<forall>j < Suc n. P j) \<longleftrightarrow> P 0 \<and> (\<forall>j < n. P (Suc j))" for n P
    by (auto simp: less_Suc_eq_0_disj)
  show ?case using 2 by (cases k; cases match; cases prefix) (auto simp: ex all Let_def)
qed simp

lemma telescope_boolean_or:
  "(\<exists>d \<in> set (telescope BooleanS (map (\<lambda>k. (k, True)) ks) prefix). d) \<longleftrightarrow> prefix \<and> (\<exists>k \<in> set ks. k)"
proof (induction ks arbitrary: prefix)
  case (Cons k ks)
  show ?case using Cons[of True] Cons[of False] by (cases k; cases prefix) (simp_all add: Let_def)
qed simp

text \<open>In the Boolean semiring \<open>choose(x) = C\<close> (or \<open><>\<close>) is true exactly when some contributor is
  present and the first present one has a value that matches.\<close>

theorem build_choose_boolean:
  assumes "op = EQ \<or> op = NE" "length kvals = length m_strs"
  shows "build_choose_text BooleanS op AggCHOOSE m_strs kvals C_str =
    Inr (\<exists>i < length kvals. kvals ! i \<and> (\<forall>j < i. \<not> kvals ! j) \<and> (m_strs ! i = C_str) = (op = EQ))"
proof -
  define ms where "ms = map (\<lambda>s. if op = EQ then s = C_str else s \<noteq> C_str) m_strs"
  define ds where "ds = telescope BooleanS (zip kvals ms) True"
  have nth: "snd (zip kvals ms ! i) \<longleftrightarrow> (m_strs ! i = C_str) = (op = EQ)" "fst (zip kvals ms ! i) = kvals ! i"
    if "i < length kvals" for i
    using assms that by (auto simp: ms_def)
  have "(if ds = [] then False else \<exists>d \<in> set ds. d) \<longleftrightarrow> (\<exists>d \<in> set ds. d)" by auto
  also have "\<dots> \<longleftrightarrow> (\<exists>i < length kvals. kvals ! i \<and> (\<forall>j < i. \<not> kvals ! j) \<and> (m_strs ! i = C_str) = (op = EQ))"
  proof -
    have len: "length (zip kvals ms) = length kvals" using assms(2) by (simp add: ms_def)
    have "fst (zip kvals ms ! j) = kvals ! j" if "j < i" "i < length kvals" for i j using nth that by simp
    then show ?thesis unfolding ds_def telescope_boolean len using nth by (metis (no_types, lifting))
  qed
  finally have *: "(if ds = [] then False else \<exists>d \<in> set ds. d) \<longleftrightarrow>
      (\<exists>i < length kvals. kvals ! i \<and> (\<forall>j < i. \<not> kvals ! j) \<and> (m_strs ! i = C_str) = (op = EQ))" .
  have "build_choose_text BooleanS op AggCHOOSE m_strs kvals C_str =
      Inr (if ds = [] then False else \<exists>d \<in> set ds. d)"
    unfolding build_choose_text_def Let_def ms_def[symmetric]
    using assms(1) by (auto simp: certifiable_contributors_def ds_def)
  with * show ?thesis by simp
qed

lemma build_choose_boolean_witness:
  "build_choose_text BooleanS EQ AggCHOOSE [''a'', ''b''] [False, True] ''b'' =
    Inr (\<exists>i < length [False, True]. [False, True] ! i \<and> (\<forall>j < i. \<not> [False, True] ! j) \<and>
      ([''a'', ''b''] ! i = ''b'') = (EQ = EQ))"
  by (rule build_choose_boolean) simp_all

lemma none_factor_boolean: "none_factor BooleanS ks \<longleftrightarrow> (\<forall>k \<in> set ks. \<not> k)"
proof -
  have "foldl (\<lambda>acc k. let absent = S_monus BooleanS (S_one BooleanS) k in
       if acc = S_one BooleanS then absent else S_times BooleanS [acc, absent]) a ks \<longleftrightarrow> a \<and> (\<forall>k \<in> set ks. \<not> k)" for a
  proof (induction ks arbitrary: a)
    case (Cons k ks)
    show ?case using Cons[of True] Cons[of False] by (cases k; cases a) (simp_all add: Let_def)
  qed simp
  then show ?thesis by (simp add: none_factor_def)
qed

lemma boolean_having_correct:
  "boolean_having BooleanS kvals someE noneF = Inr (True \<in> set someE \<and> True \<notin> set noneF)"
proof -
  let ?d = "telescope BooleanS (map (\<lambda>k. (k, True)) someE) True"
  have "(\<exists>x \<in> set ?d. x) \<longleftrightarrow> True \<in> set someE" using telescope_boolean_or[of someE True] by auto
  then have some: "(if ?d = [] then False else S_plus BooleanS ?d) \<longleftrightarrow> True \<in> set someE" by auto
  have none: "none_factor BooleanS noneF \<longleftrightarrow> True \<notin> set noneF" by (auto simp: none_factor_boolean)
  show ?thesis
    using some none by (auto simp: boolean_having_def Let_def certifiable_contributors_def)
qed

text \<open>C13: In the Boolean semiring a comparison of bool_or or bool_and (every) with a Boolean constant
  is true exactly when some row is present and the disjunction, or the conjunction, of the values
  of the rows present equals (for \<open><>\<close>: differs from) the constant.\<close>

theorem build_boolean_correct:
  assumes "agg = AggOR \<or> agg = AggAND" "op = EQ \<or> op = NE" "parse_bool C_str = Some C"
    and "sequence_options (map parse_bool m_strs) = Some vals"
  shows "build_boolean BooleanS op agg m_strs kvals C_str = Some (Inr (
    (\<exists>v. (True, v) \<in> set (zip kvals vals)) \<and>
    ((if agg = AggOR then \<exists>v. (True, v) \<in> set (zip kvals vals) \<and> v
      else \<forall>v. (True, v) \<in> set (zip kvals vals) \<longrightarrow> v) = (if op = EQ then C else \<not> C))))"
proof -
  let ?z = "zip kvals vals" and ?w = "agg = AggOR" and ?t = "if op = EQ then C else \<not> C"
  define someE where "someE = (if ?w = ?t then map fst (filter (\<lambda>(k, v). v = ?w) ?z)
      else map fst (filter (\<lambda>(k, v). v \<noteq> ?w) ?z))"
  define noneF where "noneF = (if ?w = ?t then [] else map fst (filter (\<lambda>(k, v). v = ?w) ?z))"
  have "build_boolean BooleanS op agg m_strs kvals C_str = Some (boolean_having BooleanS kvals someE noneF)"
    using assms(1,2) unfolding build_boolean_def someE_def noneF_def Let_def assms(3,4) by auto
  then have B: "build_boolean BooleanS op agg m_strs kvals C_str =
      Some (Inr (True \<in> set someE \<and> True \<notin> set noneF))"
    by (simp add: boolean_having_correct)
  have mem: "True \<in> set (map fst (filter (\<lambda>(k, v). P v) ?z)) \<longleftrightarrow> (\<exists>v. (True, v) \<in> set ?z \<and> P v)" for P
    by force
  show ?thesis unfolding B
    by (cases ?w; cases "?t") (auto simp: someE_def noneF_def mem)
qed

lemma build_boolean_correct_witness:
  "build_boolean BooleanS NE AggAND [''true'', ''f''] [True, False] ''t'' = Some (Inr (
    (\<exists>v. (True, v) \<in> set (zip [True, False] [True, False])) \<and>
    ((if AggAND = AggOR then \<exists>v. (True, v) \<in> set (zip [True, False] [True, False]) \<and> v
      else \<forall>v. (True, v) \<in> set (zip [True, False] [True, False]) \<longrightarrow> v) = (if NE = EQ then True else \<not> True))))"
  by (rule build_boolean_correct) (simp_all add: parse_bool_def)

text \<open>In the Boolean semiring a comparison of array_agg with a constant array is true exactly when
  some row is present and the values present, in contributor order and with Boolean elements put in
  one form, are (for \<open><>\<close>: are not) the elements of the constant.\<close>

theorem build_array_correct:
  assumes "op = EQ \<or> op = NE" "parse_array_literal C_str = Some target" "length kvals = length m_strs"
  shows "build_array BooleanS op elem_is_boolean m_strs kvals C_str = Some (Inr (
    True \<in> set kvals \<and>
    (selected (if elem_is_boolean then map canon_bool m_strs else m_strs) kvals =
       (if elem_is_boolean then map canon_bool target else target)) = (op = EQ)))"
proof -
  define vals where "vals = (if elem_is_boolean then map canon_bool m_strs else m_strs)"
  define tgt where "tgt = (if elem_is_boolean then map canon_bool target else target)"
  have len: "length vals = length kvals" using assms(3) by (simp add: vals_def)
  let ?ws = "enumerate_array_agg_worlds vals tgt (op = EQ)"
  have ws: "set ?ws = {m \<in> masks (length vals). m \<noteq> no_bits (length vals) \<and> (selected vals m = tgt) = (op = EQ)}"
    by (auto simp: enumerate_array_agg_worlds_def set_worlds)
  then have "\<forall>m \<in> set ?ws. length m = length kvals" using len by (simp add: masks_def)
  from combine_boolean[OF this, of False op AggARRAY]
  have "combine_exhaustive_worlds BooleanS ?ws kvals False op AggARRAY = Inr (kvals \<in> set ?ws)"
    by (simp add: monotone_skip_def)
  moreover have "kvals \<in> set ?ws \<longleftrightarrow> True \<in> set kvals \<and> (selected vals kvals = tgt) = (op = EQ)"
    unfolding ws using len by (auto simp: masks_def True_in_mask_iff)
  ultimately show ?thesis
    using assms(1,2) by (auto simp: build_array_def Let_def vals_def[symmetric] tgt_def[symmetric])
qed

lemma build_array_correct_witness:
  "build_array BooleanS EQ True [''true'', ''false''] [True, False] (''{'' @ array_text [''t'']) = Some (Inr (
    True \<in> set [True, False] \<and>
    (selected (if True then map canon_bool [''true'', ''false''] else [''true'', ''false'']) [True, False] =
       (if True then map canon_bool [''t''] else [''t''])) = (EQ = EQ)))"
proof (rule build_array_correct)
  show "parse_array_literal (''{'' @ array_text [''t'']) = Some [''t'']" by code_simp
qed simp_all

end
