(* ===== verification/Lineage.thy ===== *)
theory Lineage
  imports Semirings "HOL-Library.List_Lexorder" "HOL-Library.Char_ord"
begin

text \<open>
  The set-valued semirings of \<open>src/semiring/Which.h\<close> (lineage) and \<open>src/semiring/Why.h\<close> (sets of
  witnesses), with their textual leaf format.  A \<open>std::set\<close> is a set here; where the code
  iterates over one, the model goes through the sorted list of its elements, since \<open>std::set\<close>
  iterates in the (bytewise lexicographic) order of its keys.  A C string is a list of non-NUL
  characters.
\<close>

type_synonym label = string

section \<open>The semirings\<close>

definition which_acc :: "label set option \<Rightarrow> label set option \<Rightarrow> label set option" where
  "which_acc result v = (case v of None \<Rightarrow> result
     | Some s \<Rightarrow> (case result of None \<Rightarrow> Some s | Some r \<Rightarrow> Some (r \<union> s)))"

definition which_plus :: "label set option list \<Rightarrow> label set option" where
  "which_plus vec = foldl which_acc None vec"

fun which_times_loop :: "label set \<Rightarrow> label set option list \<Rightarrow> label set option" where
  "which_times_loop result [] = Some result"
| "which_times_loop result (v # vec) = (case v of None \<Rightarrow> None | Some s \<Rightarrow> which_times_loop (result \<union> s) vec)"

definition which_monus :: "label set option \<Rightarrow> label set option \<Rightarrow> label set option" where
  "which_monus x y = (case x of None \<Rightarrow> None
     | Some a \<Rightarrow> (case y of None \<Rightarrow> x
         | Some b \<Rightarrow> if a \<subseteq> b then None else Some (a - b)))"

definition WhichS :: "label set option semiring" where
  "WhichS = base_semiring None (Some {}) which_plus (which_times_loop {}) which_monus
     (\<lambda>x. if x \<noteq> None then Some {} else None)"

definition why_times2 :: "label set set \<Rightarrow> label set set \<Rightarrow> label set set" where
  "why_times2 a b = (\<Union>s1 \<in> a. \<Union>s2 \<in> b. {s1 \<union> s2})"

definition why_times :: "label set set list \<Rightarrow> label set set" where
  "why_times vec = (case vec of [] \<Rightarrow> {{}} | v # vs \<Rightarrow> foldl why_times2 v vs)"

definition WhyS :: "label set set semiring" where
  "WhyS = base_semiring {} {{}} (foldl (\<union>) {}) why_times (\<lambda>x y. x - y) (\<lambda>x. if x = {} then {} else {{}})"

lemma WhichS_simps [simp]:
  "S_zero WhichS = None" "S_one WhichS = Some {}" "S_plus WhichS = which_plus"
  "S_times WhichS = which_times_loop {}" "S_monus WhichS = which_monus"
  "S_delta WhichS x = (if x \<noteq> None then Some {} else None)" "\<not> S_absorptive WhichS"
  by (simp_all add: WhichS_def)

lemma WhyS_simps [simp]:
  "S_zero WhyS = {}" "S_one WhyS = {{}}" "S_plus WhyS v = foldl (\<union>) {} v" "S_times WhyS = why_times"
  "S_monus WhyS x y = x - y" "S_delta WhyS x = (if x = {} then {} else {{}})" "\<not> S_absorptive WhyS"
  by (simp_all add: WhyS_def)

lemma which_acc_simps [simp]: "which_acc None v = v" "which_acc v None = v"
    "which_acc (Some a) (Some b) = Some (a \<union> b)"
  by (simp_all add: which_acc_def split: option.splits)

lemma which_acc_assoc: "which_acc (which_acc x y) z = which_acc x (which_acc y z)"
  by (cases x; cases y; cases z) (auto simp: Un_assoc)

lemma which_acc_comm: "which_acc x y = which_acc y x"
  by (cases x; cases y) (auto simp: Un_commute)

lemma which_plus_simps [simp]:
  "which_plus [] = None" "which_plus (v # vec) = which_acc v (which_plus vec)"
  using foldl_unit[of which_acc None v vec] which_acc_assoc by (simp_all add: which_plus_def)

definition which_mul :: "label set option \<Rightarrow> label set option \<Rightarrow> label set option" where
  "which_mul x y = (case x of None \<Rightarrow> None | Some a \<Rightarrow> map_option ((\<union>) a) y)"

lemma which_mul_simps [simp]: "which_mul None v = None" "which_mul v None = None"
    "which_mul (Some a) (Some b) = Some (a \<union> b)" "which_mul (Some {}) v = v" "which_mul v (Some {}) = v"
  by (cases v; simp add: which_mul_def)+

lemma which_mul_assoc: "which_mul (which_mul x y) z = which_mul x (which_mul y z)"
  by (cases x; cases y; cases z) (auto simp: Un_assoc)

lemma which_mul_comm: "which_mul x y = which_mul y x"
  by (cases x; cases y) (auto simp: Un_commute)

lemma which_mul_distrib: "which_mul x (which_acc y z) = which_acc (which_mul x y) (which_mul x z)"
  by (cases x; cases y; cases z) auto

lemma which_times_loop_mul: "which_times_loop r vec = which_mul (Some r) (which_times_loop {} vec)"
proof (induction vec arbitrary: r)
  case (Cons v vec)
  show ?case
  proof (cases v)
    case (Some s)
    have "which_times_loop (r \<union> s) vec = which_mul (Some r) (which_mul (Some s) (which_times_loop {} vec))"
      using Cons.IH[of "r \<union> s"] which_mul_assoc[of "Some r" "Some s"] by simp
    with Some Cons.IH[of s] show ?thesis by simp
  qed simp
qed simp

lemma which_times_Cons [simp]: "which_times_loop {} (v # vec) = which_mul v (which_times_loop {} vec)"
proof (cases v)
  case (Some s)
  then show ?thesis using which_times_loop_mul[of s vec] by simp
qed simp

declare which_times_loop.simps(2) [simp del]

lemma which_monus_simps [simp]: "which_monus None y = None" "which_monus x None = x"
    "which_monus (Some a) (Some b) = (if a \<subseteq> b then None else Some (a - b))"
  by (simp_all add: which_monus_def split: option.splits)

interpretation which: semiring_laws WhichS UNIV
proof unfold_locales
  fix x :: "label set option"
  show "S_monus WhichS x x = S_zero WhichS" by (cases x) simp_all
next
  fix x y z :: "label set option"
  show "S_plus WhichS [S_plus WhichS [x, y], z] = S_plus WhichS [x, S_plus WhichS [y, z]]"
    by (simp add: which_acc_assoc)
  show "S_times WhichS [S_times WhichS [x, y], z] = S_times WhichS [x, S_times WhichS [y, z]]"
    by (simp add: which_mul_assoc)
  show "S_plus WhichS [x, y] = S_plus WhichS [y, x]" by (simp add: which_acc_comm)
  show "S_times WhichS [x, y] = S_times WhichS [y, x]" by (simp add: which_mul_comm)
qed (simp_all add: which_mul_distrib)

lemma nat_le_which:
  "nat_le WhichS UNIV x y \<longleftrightarrow> (case x of None \<Rightarrow> True | Some a \<Rightarrow> (case y of None \<Rightarrow> False | Some b \<Rightarrow> a \<subseteq> b))"
proof -
  have "nat_le WhichS UNIV x y \<longleftrightarrow> which_acc x y = y"
  proof
    assume "nat_le WhichS UNIV x y"
    then obtain z where "y = which_acc x z" by (auto simp: nat_le_def)
    then show "which_acc x y = y" by (cases x; cases z) auto
  next
    assume "which_acc x y = y"
    then show "nat_le WhichS UNIV x y" unfolding nat_le_def by (intro bexI[of _ y]) simp_all
  qed
  then show ?thesis by (cases x; cases y) auto
qed

interpretation which: monus_laws WhichS UNIV
proof unfold_locales
  fix x y z :: "label set option"
  show "nat_le WhichS UNIV x y \<Longrightarrow> nat_le WhichS UNIV y x \<Longrightarrow> x = y"
    by (cases x; cases y) (simp_all add: nat_le_which)
  show "nat_le WhichS UNIV (S_monus WhichS x y) z \<longleftrightarrow> nat_le WhichS UNIV x (S_plus WhichS [y, z])"
    by (cases x; cases y; cases z) (auto simp: nat_le_which)
qed

lemma foldl_union: "foldl (\<union>) a v = a \<union> \<Union>(set v)"
  by (induction v arbitrary: a) auto

lemma why_times2_assoc: "why_times2 (why_times2 a b) c = why_times2 a (why_times2 b c)"
  by (auto simp: why_times2_def Un_assoc)

lemma why_times2_one [simp]: "why_times2 {{}} a = a" "why_times2 a {{}} = a"
  by (auto simp: why_times2_def)

lemma why_times_foldl: "why_times vec = foldl why_times2 {{}} vec"
  by (cases vec) (simp_all add: why_times_def)

lemma foldl_why: "foldl why_times2 a vec = why_times2 a (foldl why_times2 {{}} vec)"
proof (induction vec arbitrary: a)
  case (Cons v vec)
  from Cons[of "why_times2 a v"] Cons[of v] show ?case by (simp add: why_times2_assoc)
qed simp

interpretation why: semiring_laws WhyS UNIV
proof unfold_locales
  fix x :: "label set set" and xs
  show "S_times WhyS (x # xs) = S_times WhyS [x, S_times WhyS xs]"
    by (simp add: why_times_foldl foldl_why[of x])
qed (auto simp: foldl_union why_times_foldl why_times2_assoc, auto simp: why_times2_def)

lemma nat_le_why: "nat_le WhyS UNIV x y \<longleftrightarrow> x \<subseteq> y"
  by (auto simp: nat_le_def foldl_union)

interpretation why: monus_laws WhyS UNIV
  by unfold_locales (auto simp: nat_le_why foldl_union)

section \<open>The textual format\<close>

definition label_char :: "char \<Rightarrow> bool" where
  "label_char c \<longleftrightarrow> c \<noteq> CHR '','' \<and> c \<noteq> CHR ''}'' \<and> c \<noteq> CHR ''{''"

text \<open>The UTF-8 bytes of the bottom sign.\<close>

definition bot_text :: string where
  "bot_text = [CHR 0xE2, CHR 0x8A, CHR 0xA5]"

text \<open>The elements written one after the other, separated by commas.\<close>

fun commas :: "string list \<Rightarrow> string" where
  "commas [] = ''''"
| "commas [s] = s"
| "commas (s # t # ss) = s @ '','' @ commas (t # ss)"

definition which_to_text :: "label set option \<Rightarrow> string" where
  "which_to_text prov = (case prov of None \<Rightarrow> bot_text
     | Some s \<Rightarrow> ''{'' @ commas (sorted_list_of_set s) @ ''}'')"

function which_parse_loop :: "string \<Rightarrow> label set \<Rightarrow> exn + label set option" where
  "which_parse_loop p result =
     (let lab = takeWhile label_char p; rest = dropWhile label_char p in
      if lab = [] then Inl (SemiringException ''Which: empty label'')
      else (let result' = insert lab result in
        case rest of
          [] \<Rightarrow> Inl (SemiringException ''Which: unterminated set'')
        | c # rest' \<Rightarrow>
            if c = CHR '','' then which_parse_loop rest' result'
            else if c = CHR ''}'' then
              (if rest' \<noteq> [] then Inl (SemiringException ''Which: trailing junk'') else Inr (Some result'))
            else Inl (SemiringException ''Which: unterminated set'')))"
  by pat_completeness auto
termination
proof (relation "measure (\<lambda>(p, r). length p)", simp)
  fix p :: string and result lab rest r' x rest'
  assume "rest = dropWhile label_char p" "rest = x # rest'"
  then have "length (x # rest') \<le> length p" using length_dropWhile_le[of label_char p] by simp
  then show "((rest', r'), p, result) \<in> measure (\<lambda>(p, r). length p)" by simp
qed

declare which_parse_loop.simps [simp del]

definition which_parse_leaf :: "string \<Rightarrow> exn + label set option" where
  "which_parse_leaf v =
     (if v = bot_text then Inr None
      else case v of
        [] \<Rightarrow> Inr (Some {[]})
      | c # p \<Rightarrow>
          if c \<noteq> CHR ''{'' then Inr (Some {v})
          else if p \<noteq> [] \<and> hd p = CHR ''}'' then
            (if tl p \<noteq> [] then Inl (SemiringException ''Which: trailing junk'') else Inr (Some {}))
          else which_parse_loop p {})"

definition good_label :: "label \<Rightarrow> bool" where
  "good_label l \<longleftrightarrow> l \<noteq> [] \<and> (\<forall>c \<in> set l. label_char c)"

lemma span_label:
  "good_label l \<Longrightarrow> \<not> label_char c \<Longrightarrow> takeWhile label_char (l @ c # rest) = l \<and>
     dropWhile label_char (l @ c # rest) = c # rest"
  by (auto simp: good_label_def takeWhile_append dropWhile_append)

lemma label_char_simps [simp]: "\<not> label_char (CHR '','')" "\<not> label_char (CHR ''}'')" "\<not> label_char (CHR ''{'')"
  by (simp_all add: label_char_def)

lemma which_parse_loop_commas:
  "ls \<noteq> [] \<Longrightarrow> \<forall>l \<in> set ls. good_label l \<Longrightarrow>
   which_parse_loop (commas ls @ ''}'') r = Inr (Some (set ls \<union> r))"
proof (induction ls arbitrary: r rule: commas.induct)
  case (2 s)
  then show ?case using span_label[of s "CHR ''}''" "[]"]
    by (subst which_parse_loop.simps) (simp add: good_label_def)
next
  case (3 s t ss)
  then show ?case using span_label[of s "CHR '',''" "commas (t # ss) @ ''}''"]
    by (subst which_parse_loop.simps) (simp add: good_label_def insert_commute)
qed simp

lemma commas_hd:
  "good_label l \<Longrightarrow> \<exists>c rest. commas (l # ls) = c # rest \<and> label_char c"
  by (cases ls; cases l) (auto simp: good_label_def)

lemma hd_bot: "hd bot_text \<noteq> CHR ''{''" "bot_text \<noteq> []"
  by (simp_all add: bot_text_def)

text \<open>A lineage written by \<open>to_text\<close> is read back unchanged by \<open>parse_leaf\<close>, when it is
  finite and its labels are non-empty and free of the characters comma and braces.\<close>

theorem which_roundtrip:
  assumes "\<forall>s. prov = Some s \<longrightarrow> finite s \<and> (\<forall>l \<in> s. good_label l)"
  shows "which_parse_leaf (which_to_text prov) = Inr prov"
proof (cases prov)
  case None
  then show ?thesis by (simp add: which_to_text_def which_parse_leaf_def)
next
  case (Some s)
  then have s: "finite s" "\<forall>l \<in> s. good_label l" using assms by auto
  let ?ls = "sorted_list_of_set s"
  have ls: "set ?ls = s" using s by simp
  have nb: "''{'' @ commas ?ls @ ''}'' \<noteq> bot_text" using hd_bot by (metis append_Cons list.sel(1))
  show ?thesis
  proof (cases ?ls)
    case Nil
    then have "s = {}" using ls by simp
    with Some Nil nb show ?thesis by (simp add: which_to_text_def which_parse_leaf_def)
  next
    case (Cons l ls')
    with ls s(2) have "good_label l" by auto
    then obtain c rest where c: "commas ?ls = c # rest" "label_char c" using commas_hd Cons by metis
    have "which_parse_loop (commas ?ls @ ''}'') {} = Inr (Some s)"
      using which_parse_loop_commas[of ?ls "{}"] Cons s(2) unfolding ls by simp
    moreover have "c \<noteq> CHR ''}''" using c(2) by (auto simp: label_char_def)
    ultimately show ?thesis using Some nb c(1) by (simp add: which_to_text_def which_parse_leaf_def)
  qed
qed

lemma which_roundtrip_witness:
  "which_parse_leaf (which_to_text (Some {''Alice'', ''Bob''})) = Inr (Some {''Alice'', ''Bob''})"
  by (rule which_roundtrip) (simp add: good_label_def label_char_def)

text \<open>Why: a set of witnesses, printed in the lexicographic order of their sorted labels.\<close>

definition why_to_text :: "label set set \<Rightarrow> string" where
  "why_to_text prov =
     ''{'' @ commas (map (\<lambda>w. ''{'' @ commas w @ ''}'') (sorted_list_of_set (sorted_list_of_set ` prov))) @ ''}''"

text \<open>The labels of one witness, up to (not including) the character that stops them.\<close>

function why_labels :: "string \<Rightarrow> label set \<Rightarrow> exn + label set \<times> string" where
  "why_labels p witness =
     (let lab = takeWhile label_char p; rest = dropWhile label_char p in
      if lab = [] then Inl (SemiringException ''Why: empty label'')
      else (case rest of
          c # rest' \<Rightarrow>
            if c = CHR '','' then why_labels rest' (insert lab witness) else Inr (insert lab witness, rest)
        | [] \<Rightarrow> Inr (insert lab witness, rest)))"
  by pat_completeness auto
termination
proof (relation "measure (\<lambda>(p, r). length p)", simp)
  fix p :: string and witness lab rest c rest'
  assume "rest = dropWhile label_char p" "rest = c # rest'"
  then have "length (c # rest') \<le> length p" using length_dropWhile_le[of label_char p] by simp
  then show "((rest', insert lab witness), p, witness) \<in> measure (\<lambda>(p, r). length p)" by simp
qed

declare why_labels.simps [simp del]

lemma why_labels_shorter: "why_labels p w = Inr (w', q) \<Longrightarrow> length q \<le> length p"
proof (induction p w rule: why_labels.induct)
  case (1 p w)
  have le: "length (dropWhile label_char p) \<le> length p" by (rule length_dropWhile_le)
  show ?case
  proof (cases "dropWhile label_char p")
    case Nil
    with 1(2) show ?thesis by (subst (asm) why_labels.simps) (simp add: Let_def split: if_splits)
  next
    case (Cons c rest)
    show ?thesis
    proof (cases "c = CHR '','' \<and> takeWhile label_char p \<noteq> []")
      case True
      then have "why_labels rest (insert (takeWhile label_char p) w) = Inr (w', q)"
        using 1(2) Cons by (subst (asm) why_labels.simps) (simp add: Let_def)
      with 1(1)[OF refl refl _ Cons] True le Cons show ?thesis by simp
    next
      case False
      with 1(2) Cons le show ?thesis
        by (subst (asm) why_labels.simps) (auto simp: Let_def length_dropWhile_le split: if_splits)
    qed
  qed
qed

function why_parse_loop :: "string \<Rightarrow> label set set \<Rightarrow> exn + label set set" where
  "why_parse_loop p result =
     (case p of
        [] \<Rightarrow> Inl (SemiringException ''Why: unterminated input'')
      | c # p1 \<Rightarrow>
          if c \<noteq> CHR ''{'' then Inl (SemiringException ''Why: expected an opening brace'')
          else (case (if p1 \<noteq> [] \<and> hd p1 = CHR ''}'' then Inr ({}, p1) else why_labels p1 {}) of
              Inl e \<Rightarrow> Inl e
            | Inr (witness, p2) \<Rightarrow>
                (case p2 of
                   [] \<Rightarrow> Inl (SemiringException ''Why: expected a closing brace'')
                 | c2 # p3 \<Rightarrow>
                     if c2 \<noteq> CHR ''}'' then Inl (SemiringException ''Why: expected a closing brace'')
                     else (case p3 of
                         [] \<Rightarrow> Inl (SemiringException ''Why: expected a comma or a closing brace'')
                       | c3 # p4 \<Rightarrow>
                           if c3 = CHR ''}'' then
                             (if p4 \<noteq> [] then Inl (SemiringException ''Why: trailing junk'')
                              else Inr (insert witness result))
                           else if c3 \<noteq> CHR '','' then
                             Inl (SemiringException ''Why: expected a comma or a closing brace'')
                           else why_parse_loop p4 (insert witness result)))))"
  by pat_completeness auto
termination
  by (relation "measure (\<lambda>(p, r). length p)") (auto split: if_splits dest!: why_labels_shorter)

declare why_parse_loop.simps [simp del]

definition why_parse_leaf :: "string \<Rightarrow> exn + label set set" where
  "why_parse_leaf v = (case v of
     [] \<Rightarrow> Inr {{[]}}
   | c # p \<Rightarrow>
       if c \<noteq> CHR ''{'' then Inr {{v}}
       else if p \<noteq> [] \<and> hd p = CHR ''}'' then
         (if tl p \<noteq> [] then Inl (SemiringException ''Why: trailing junk'') else Inr {})
       else why_parse_loop p {})"

lemma why_labels_commas:
  "ls \<noteq> [] \<Longrightarrow> \<forall>l \<in> set ls. good_label l \<Longrightarrow>
   why_labels (commas ls @ CHR ''}'' # rest) w = Inr (set ls \<union> w, CHR ''}'' # rest)"
proof (induction ls arbitrary: w rule: commas.induct)
  case (2 s)
  then show ?case using span_label[of s "CHR ''}''" rest]
    by (subst why_labels.simps) (simp add: good_label_def)
next
  case (3 s t ss)
  then show ?case using span_label[of s "CHR '',''" "commas (t # ss) @ CHR ''}'' # rest"]
    by (subst why_labels.simps) (simp add: good_label_def insert_commute)
qed simp

definition braced :: "label list \<Rightarrow> string" where
  "braced w = ''{'' @ commas w @ ''}''"

lemma why_parse_witness:
  assumes "\<forall>l \<in> set w. good_label l"
  shows "why_parse_loop (braced w @ c # rest) r =
    (if c = CHR ''}'' then
       (if rest \<noteq> [] then Inl (SemiringException ''Why: trailing junk'') else Inr (insert (set w) r))
     else if c \<noteq> CHR '','' then Inl (SemiringException ''Why: expected a comma or a closing brace'')
     else why_parse_loop rest (insert (set w) r))"
proof (cases w)
  case Nil
  then show ?thesis by (subst why_parse_loop.simps) (simp add: braced_def)
next
  case (Cons l ls)
  then obtain d q where d: "commas w = d # q" "label_char d" using commas_hd assms by (metis list.set_intros(1))
  then have "d \<noteq> CHR ''}''" by (auto simp: label_char_def)
  moreover have "why_labels (commas w @ CHR ''}'' # c # rest) {} = Inr (set w, CHR ''}'' # c # rest)"
    using why_labels_commas[of w "c # rest" "{}"] Cons assms by simp
  ultimately show ?thesis using d(1)
    by (subst why_parse_loop.simps) (simp add: braced_def)
qed

lemma why_parse_witnesses:
  "ws \<noteq> [] \<Longrightarrow> \<forall>w \<in> set ws. \<forall>l \<in> set w. good_label l \<Longrightarrow>
   why_parse_loop (commas (map braced ws) @ ''}'') r = Inr (set ` set ws \<union> r)"
proof (induction ws arbitrary: r rule: induct_list012)
  case (2 w)
  then show ?case using why_parse_witness[of w "CHR ''}''" "[]" r] by simp
next
  case (3 w v ws)
  then show ?case
    using why_parse_witness[of w "CHR '',''" "commas (map braced (v # ws)) @ ''}''" r]
    by (simp add: insert_commute)
qed simp

text \<open>A why-provenance written by \<open>to_text\<close> is read back unchanged by \<open>parse_leaf\<close>, when the
  set and its witnesses are finite and the labels are non-empty and free of commas and braces.\<close>

theorem why_roundtrip:
  assumes "finite prov" "\<forall>w \<in> prov. finite w \<and> (\<forall>l \<in> w. good_label l)"
  shows "why_parse_leaf (why_to_text prov) = Inr prov"
proof -
  let ?ws = "sorted_list_of_set (sorted_list_of_set ` prov)"
  have ws: "set ?ws = sorted_list_of_set ` prov" using assms(1) by simp
  have "set ` set ?ws = (\<lambda>w. set (sorted_list_of_set w)) ` prov" unfolding ws by (simp add: image_image)
  also have "\<dots> = prov" using assms(2) by (auto simp: image_iff)
  finally have img: "set ` set ?ws = prov" .
  have good: "\<forall>w \<in> set ?ws. \<forall>l \<in> set w. good_label l" unfolding ws using assms(2) by auto
  have printed: "why_to_text prov = ''{'' @ commas (map braced ?ws) @ ''}''"
    by (simp add: why_to_text_def braced_def[abs_def])
  show ?thesis
  proof (cases ?ws)
    case Nil
    then have "prov = {}" using img by simp
    with printed Nil show ?thesis by (simp add: why_parse_leaf_def)
  next
    case (Cons w ws')
    have parse: "why_parse_loop (commas (map braced ?ws) @ ''}'') {} = Inr prov"
      using why_parse_witnesses[of ?ws "{}"] good img Cons by simp
    have "\<exists>q. commas (map braced ?ws) = CHR ''{'' # q"
      unfolding Cons by (cases ws') (simp_all add: braced_def)
    then obtain q where q: "commas (map braced ?ws) = CHR ''{'' # q" by blast
    show ?thesis using parse unfolding printed q by (simp add: why_parse_leaf_def)
  qed
qed

lemma why_roundtrip_witness:
  "why_parse_leaf (why_to_text {{''a''}, {''b'', ''c''}, {}}) = Inr {{''a''}, {''b'', ''c''}, {}}"
  by (rule why_roundtrip) (simp_all add: good_label_def label_char_def)

text \<open>Which and Why are commutative semirings whose monus satisfies the adjunction in their
  natural order, containment.\<close>

theorem lineage_semirings_have_monus:
  "monus_laws WhichS UNIV \<and> monus_laws WhyS UNIV \<and>
   (nat_le WhyS UNIV x y \<longleftrightarrow> x \<subseteq> y) \<and>
   (nat_le WhichS UNIV (Some a) (Some b) \<longleftrightarrow> a \<subseteq> b) \<and> nat_le WhichS UNIV None z"
  by (simp add: which.monus_laws_axioms why.monus_laws_axioms nat_le_why nat_le_which)

section \<open>The flag of absorptivity\<close>

text \<open>Whether adding a value of the carrier to one changes nothing, what \<open>absorptive()\<close> reports.\<close>

definition absorbs :: "'s semiring \<Rightarrow> 's set \<Rightarrow> bool" where
  "absorbs S D \<longleftrightarrow> (\<forall>x \<in> D. S_plus S [S_one S, x] = S_one S)"

lemma absorbs_False: "x \<in> D \<Longrightarrow> S_plus S [S_one S, x] \<noteq> S_one S \<Longrightarrow> \<not> absorbs S D"
  by (auto simp: absorbs_def)

text \<open>C15: Each of the modelled semirings (all but How, BoolExpr, IntervalUnion and Formula) reports
  \<open>absorptive()\<close> exactly when it is absorptive on its carrier; the MinMax semiring over any enum type with a
  total order of its labels, in both directions.\<close>

theorem absorptive_flags_exact:
  assumes "enum_order enum_cmp pos (fst ` set members)" "minmax_bounds members = Inr (lo, hi)"
    and "\<forall>(x, ox) \<in> set members. ox = pos x"
  shows "(S_absorptive BooleanS \<longleftrightarrow> absorbs BooleanS UNIV) \<and>
    (S_absorptive CountingS \<longleftrightarrow> absorbs CountingS UNIV) \<and>
    (S_absorptive TropicalS \<longleftrightarrow> absorbs TropicalS UNIV) \<and>
    (S_absorptive TropicalNonnegS \<longleftrightarrow> absorbs TropicalNonnegS nonneg_costs) \<and>
    (S_absorptive ViterbiS \<longleftrightarrow> absorbs ViterbiS unit_interval) \<and>
    (S_absorptive LukasiewiczS \<longleftrightarrow> absorbs LukasiewiczS unit_interval) \<and>
    (S_absorptive WhichS \<longleftrightarrow> absorbs WhichS UNIV) \<and> (S_absorptive WhyS \<longleftrightarrow> absorbs WhyS UNIV) \<and>
    (S_absorptive (MinMaxS enum_cmp rev_ord lo hi) \<longleftrightarrow> absorbs (MinMaxS enum_cmp rev_ord lo hi) (fst ` set members))"
proof (intro conjI)
  show "S_absorptive BooleanS \<longleftrightarrow> absorbs BooleanS UNIV" using boolean.one_top by (simp add: absorbs_def)
  have "\<not> absorbs CountingS UNIV" by (rule absorbs_False[of 1]) simp_all
  then show "S_absorptive CountingS \<longleftrightarrow> absorbs CountingS UNIV" by simp
  have "\<not> absorbs TropicalS UNIV" by (rule absorbs_False[of "Fin (- 1)"]) (simp_all add: min_def)
  then show "S_absorptive TropicalS \<longleftrightarrow> absorbs TropicalS UNIV" by simp
  show "S_absorptive TropicalNonnegS \<longleftrightarrow> absorbs TropicalNonnegS nonneg_costs"
    using tropical_nonneg.one_top unfolding absorbs_def by simp
  show "S_absorptive ViterbiS \<longleftrightarrow> absorbs ViterbiS unit_interval"
    using viterbi.one_top unfolding absorbs_def by simp
  show "S_absorptive LukasiewiczS \<longleftrightarrow> absorbs LukasiewiczS unit_interval"
    using lukasiewicz.one_top unfolding absorbs_def by simp
  have "\<not> absorbs WhichS UNIV" by (rule absorbs_False[of "Some {''a''}"]) simp_all
  then show "S_absorptive WhichS \<longleftrightarrow> absorbs WhichS UNIV" by simp
  have "\<not> absorbs WhyS UNIV" by (rule absorbs_False[of "{{''a''}}"]) auto
  then show "S_absorptive WhyS \<longleftrightarrow> absorbs WhyS UNIV" by simp
  let ?M = "MinMaxS enum_cmp rev_ord lo hi"
  have "absorptive_laws ?M (fst ` set members)" using minmax_is_absorptive_m_semiring[OF assms, of rev_ord] by blast
  then have "absorbs ?M (fst ` set members)" unfolding absorbs_def by (intro ballI absorptive_laws.one_top)
  then show "S_absorptive ?M \<longleftrightarrow> absorbs ?M (fst ` set members)" by (simp add: MinMaxS_def)
qed

lemma absorptive_flags_exact_witness:
  "absorbs (MinMaxS (\<lambda>x y. int x - int y) False 1 3) {2, 1, 3} \<and> \<not> absorbs CountingS UNIV"
proof -
  have "enum_order (\<lambda>x y. int x - int y) real (fst ` set [(2::nat, 2::real), (1, 1), (3, 3)])"
    by (simp add: enum_order_def)
  moreover have "minmax_bounds [(2::nat, 2::real), (1, 1), (3, 3)] = Inr (1, 3)"
    by (simp add: minmax_bounds_def)
  moreover have "S_absorptive (MinMaxS (\<lambda>x y. int x - int y) False 1 3)" by (simp add: MinMaxS_def)
  ultimately show ?thesis
    using absorptive_flags_exact[of "\<lambda>x y. int x - int y" real "[(2, 2), (1, 1), (3, 3)]" 1 3 False] by simp
qed

end
