(* ===== verification/WorldProb.thy ===== *)
theory WorldProb
  imports Prelude
begin

text \<open>
  The probability space the evaluation methods are measured against: independent Bernoulli
  variables.  A world is the set of the variables that are true in it; \<open>expect p V f\<close> is the
  expectation of f over the worlds of the finite set V of variables, \<open>prob_of\<close> the probability of
  an event.  The facts: an unconstrained variable drops out, the expectation of a product of
  functions of disjoint variables is the product, disjoint events add up.
\<close>

definition world_weight :: "(nat \<Rightarrow> real) \<Rightarrow> nat set \<Rightarrow> nat set \<Rightarrow> real" where
  "world_weight p V A = (\<Prod>x \<in> V. if x \<in> A then p x else 1 - p x)"

definition expect :: "(nat \<Rightarrow> real) \<Rightarrow> nat set \<Rightarrow> (nat set \<Rightarrow> real) \<Rightarrow> real" where
  "expect p V f = (\<Sum>A \<in> Pow V. world_weight p V A * f A)"

definition prob_of :: "(nat \<Rightarrow> real) \<Rightarrow> nat set \<Rightarrow> (nat set \<Rightarrow> bool) \<Rightarrow> real" where
  "prob_of p V \<phi> = expect p V (\<lambda>A. of_bool (\<phi> A))"

text \<open>f looks at the variables of W only.\<close>

definition depends_on :: "(nat set \<Rightarrow> 'b) \<Rightarrow> nat set \<Rightarrow> bool" where
  "depends_on f W \<longleftrightarrow> (\<forall>A B. A \<inter> W = B \<inter> W \<longrightarrow> f A = f B)"

lemma depends_onD: "depends_on f W \<Longrightarrow> A \<inter> W = B \<inter> W \<Longrightarrow> f A = f B"
  unfolding depends_on_def by blast

lemma depends_on_mono:
  assumes "depends_on f W" "W \<subseteq> W'"
  shows "depends_on f W'"
  unfolding depends_on_def
proof (intro allI impI)
  fix A B assume "A \<inter> W' = B \<inter> W'"
  with assms(2) have "A \<inter> W = B \<inter> W" by blast
  then show "f A = f B" by (rule depends_onD[OF assms(1)])
qed

lemma expect_empty [simp]: "expect p {} f = f {}"
  by (simp add: expect_def world_weight_def)

lemma expect_cong: "(\<And>A. A \<subseteq> V \<Longrightarrow> f A = g A) \<Longrightarrow> expect p V f = expect p V g"
  by (simp add: expect_def)

lemma expect_insert:
  assumes "finite V" "x \<notin> V"
  shows "expect p (insert x V) f = p x * expect p V (\<lambda>A. f (insert x A)) + (1 - p x) * expect p V f"
proof -
  have w1: "world_weight p (insert x V) (insert x A) = p x * world_weight p V A" if "A \<subseteq> V" for A
    using assms that by (auto simp: world_weight_def intro!: prod.cong)
  have w0: "world_weight p (insert x V) A = (1 - p x) * world_weight p V A" if "A \<subseteq> V" for A
    using assms that by (auto simp: world_weight_def)
  have inj: "inj_on (insert x) (Pow V)" using assms(2) unfolding inj_on_def by auto
  have dis: "Pow V \<inter> insert x ` Pow V = {}" using assms(2) by auto
  have "expect p (insert x V) f = (\<Sum>A \<in> Pow V. world_weight p (insert x V) A * f A) +
      (\<Sum>A \<in> insert x ` Pow V. world_weight p (insert x V) A * f A)"
    unfolding expect_def Pow_insert using assms(1) dis by (subst sum.union_disjoint) auto
  also have "(\<Sum>A \<in> Pow V. world_weight p (insert x V) A * f A) = (1 - p x) * expect p V f"
    unfolding expect_def sum_distrib_left by (rule sum.cong) (auto simp: w0)
  also have "(\<Sum>A \<in> insert x ` Pow V. world_weight p (insert x V) A * f A) =
      p x * expect p V (\<lambda>A. f (insert x A))"
    unfolding expect_def sum_distrib_left sum.reindex[OF inj] by (rule sum.cong) (auto simp: w1)
  finally show ?thesis by simp
qed

lemma expect_const [simp]: "finite V \<Longrightarrow> expect p V (\<lambda>_. c) = c"
  by (induction V rule: finite_induct) (simp_all add: expect_insert algebra_simps)

lemma expect_add: "expect p V (\<lambda>A. f A + g A) = expect p V f + expect p V g"
  by (simp add: expect_def distrib_left sum.distrib)

lemma expect_diff: "expect p V (\<lambda>A. f A - g A) = expect p V f - expect p V g"
  by (simp add: expect_def right_diff_distrib sum_subtractf)

lemma expect_scale: "expect p V (\<lambda>A. c * f A) = c * expect p V f"
  by (simp add: expect_def sum_distrib_left mult.left_commute)

lemma expect_sum: "expect p V (\<lambda>A. \<Sum>i \<in> I. f i A) = (\<Sum>i \<in> I. expect p V (f i))"
proof (cases "finite I")
  case True
  then show ?thesis by (induction I) (simp_all add: expect_add, simp add: expect_def)
qed (simp add: expect_def)

lemma expect_sum_list: "expect p V (\<lambda>A. \<Sum>x \<leftarrow> xs. f x A) = (\<Sum>x \<leftarrow> xs. expect p V (f x))"
  by (induction xs) (simp_all add: expect_add, simp add: expect_def)

lemma weight_nonneg: "(\<And>x. x \<in> V \<Longrightarrow> 0 \<le> p x \<and> p x \<le> 1) \<Longrightarrow> 0 \<le> world_weight p V A"
  by (auto simp: world_weight_def intro!: prod_nonneg)

lemma expect_mono:
  assumes "\<And>x. x \<in> V \<Longrightarrow> 0 \<le> p x \<and> p x \<le> 1" "\<And>A. A \<subseteq> V \<Longrightarrow> f A \<le> g A"
  shows "expect p V f \<le> expect p V g"
  unfolding expect_def using weight_nonneg[OF assms(1)] assms(2)
  by (intro sum_mono mult_left_mono) auto

lemma prob_not: "finite V \<Longrightarrow> prob_of p V (\<lambda>A. \<not> \<phi> A) = 1 - prob_of p V \<phi>"
  using expect_add[of p V "\<lambda>A. of_bool (\<not> \<phi> A)" "\<lambda>A. of_bool (\<phi> A)"]
    expect_cong[of V "\<lambda>A. of_bool (\<not> \<phi> A) + of_bool (\<phi> A)" "\<lambda>A. 1 :: real" p]
  by (simp add: prob_of_def)

lemma expect_prob_cong:
  assumes "\<And>x. x \<in> V \<Longrightarrow> p x = q x"
  shows "expect p V f = expect q V f"
  unfolding expect_def world_weight_def using assms by (intro sum.cong arg_cong2[where f = "(*)"] prod.cong) auto

lemma prob_mono:
  assumes "\<And>x. x \<in> V \<Longrightarrow> 0 \<le> p x \<and> p x \<le> 1" "\<And>A. \<phi> A \<Longrightarrow> \<psi> A"
  shows "prob_of p V \<phi> \<le> prob_of p V \<psi>"
  unfolding prob_of_def by (rule expect_mono[OF assms(1)]) (use assms(2) in auto)

lemma prob_range:
  assumes "finite V" "\<And>x. x \<in> V \<Longrightarrow> 0 \<le> p x \<and> p x \<le> 1"
  shows "0 \<le> prob_of p V \<phi>" "prob_of p V \<phi> \<le> 1"
proof -
  have "prob_of p V (\<lambda>_. False) \<le> prob_of p V \<phi>" "prob_of p V \<phi> \<le> prob_of p V (\<lambda>_. True)"
    by (rule prob_mono; use assms(2) in simp)+
  then show "0 \<le> prob_of p V \<phi>" "prob_of p V \<phi> \<le> 1" using assms(1) by (simp_all add: prob_of_def)
qed

lemma expect_drop_one:
  assumes "finite V" "x \<notin> V" "depends_on f W" "x \<notin> W"
  shows "expect p (insert x V) f = expect p V f"
proof -
  have "f (insert x A) = f A" for A by (rule depends_onD[OF assms(3)]) (use assms(4) in auto)
  then show ?thesis by (simp add: expect_insert[OF assms(1,2)] algebra_simps)
qed

lemma expect_restrict:
  assumes "finite V" "W \<subseteq> V" "depends_on f W"
  shows "expect p V f = expect p W f"
proof -
  have "expect p (W \<union> U) f = expect p W f" if "finite U" "U \<inter> W = {}" for U
    using that
  proof (induction U rule: finite_induct)
    case (insert x U)
    have fin: "finite (W \<union> U)" using assms(1,2) insert(1) finite_subset by auto
    have "expect p (insert x (W \<union> U)) f = expect p (W \<union> U) f"
      by (rule expect_drop_one[OF fin _ assms(3)]) (use insert in auto)
    with insert show ?case by auto
  qed simp
  from this[of "V - W"] assms(1,2) show ?thesis by (simp add: Un_absorb1 Diff_Int_distrib2)
qed

text \<open>Functions of disjoint variables are independent.\<close>

lemma expect_indep:
  assumes fin: "finite V" and f: "depends_on f W1" and g: "depends_on g W2" and dis: "W1 \<inter> W2 = {}"
  shows "expect p V (\<lambda>A. f A * g A) = expect p V f * expect p V g"
  using fin f g
proof (induction V arbitrary: f g rule: finite_induct)
  case (insert x V)
  note ins = expect_insert[OF insert(1,2)]
  have d1: "depends_on (\<lambda>A. f (insert x A)) W1" and d2: "depends_on (\<lambda>A. g (insert x A)) W2"
    using insert.prems unfolding depends_on_def by (metis Int_insert_left)+
  show ?case
  proof (cases "x \<in> W1")
    case True
    then have "x \<notin> W2" using dis by auto
    then have g: "g (insert x A) = g A" for A using depends_onD[OF insert.prems(2), of "insert x A" A] by auto
    have "expect p V (\<lambda>A. f (insert x A) * g A) = expect p V (\<lambda>A. f (insert x A)) * expect p V g"
      by (rule insert.IH[OF d1 insert.prems(2)])
    then show ?thesis using insert.IH[OF insert.prems] by (simp add: ins g algebra_simps)
  next
    case False
    then have f: "f (insert x A) = f A" for A using depends_onD[OF insert.prems(1), of "insert x A" A] by auto
    have "expect p V (\<lambda>A. f A * g (insert x A)) = expect p V f * expect p V (\<lambda>A. g (insert x A))"
      by (rule insert.IH[OF insert.prems(1) d2])
    then show ?thesis using insert.IH[OF insert.prems] by (simp add: ins f algebra_simps)
  qed
qed simp

lemma expect_indep_list:
  assumes "finite V" "\<And>x. x \<in> set xs \<Longrightarrow> depends_on (f x) (W x)" "distinct xs"
    and "\<And>x y. x \<in> set xs \<Longrightarrow> y \<in> set xs \<Longrightarrow> x \<noteq> y \<Longrightarrow> W x \<inter> W y = {}"
  shows "expect p V (\<lambda>A. \<Prod>x \<leftarrow> xs. f x A) = (\<Prod>x \<leftarrow> xs. expect p V (f x))"
  using assms(2-)
proof (induction xs)
  case Nil
  then show ?case using assms(1) by simp
next
  case (Cons x xs)
  have "depends_on (\<lambda>A. \<Prod>y \<leftarrow> xs. f y A) (\<Union>y \<in> set xs. W y)"
    unfolding depends_on_def
  proof (intro allI impI)
    fix A B assume AB: "A \<inter> (\<Union>y \<in> set xs. W y) = B \<inter> (\<Union>y \<in> set xs. W y)"
    have "f y A = f y B" if "y \<in> set xs" for y
      by (rule depends_onD[OF Cons.prems(1)]) (use AB that in auto)
    then show "(\<Prod>y \<leftarrow> xs. f y A) = (\<Prod>y \<leftarrow> xs. f y B)" by (simp cong: map_cong)
  qed
  moreover have "depends_on (f x) (W x)" using Cons.prems(1) by simp
  moreover have "W x \<inter> (\<Union>y \<in> set xs. W y) = {}" using Cons.prems(2,3) by auto
  ultimately have "expect p V (\<lambda>A. f x A * (\<Prod>y \<leftarrow> xs. f y A)) = expect p V (f x) * expect p V (\<lambda>A. \<Prod>y \<leftarrow> xs. f y A)"
    using expect_indep[OF assms(1)] by blast
  then show ?case using Cons by simp
qed

lemma depends_on_var: "depends_on (\<lambda>A. F (x \<in> A)) {x}"
  unfolding depends_on_def
proof (intro allI impI)
  fix A B assume "A \<inter> {x} = B \<inter> {x}"
  then have "x \<in> A \<longleftrightarrow> x \<in> B" by blast
  then show "F (x \<in> A) = F (x \<in> B)" by simp
qed

lemma expect_var: "finite V \<Longrightarrow> x \<in> V \<Longrightarrow> expect p V (\<lambda>A. of_bool (x \<in> A)) = p x"
  using expect_restrict[of V "{x}", OF _ _ depends_on_var[of of_bool x]]
    expect_insert[of "{}" x p "\<lambda>A. of_bool (x \<in> A)"]
  by simp

text \<open>Listing the worlds by the bits of a counter, as the code does.\<close>

definition counter_world :: "nat list \<Rightarrow> nat \<Rightarrow> nat set" where
  "counter_world xs i = {xs ! j | j. j < length xs \<and> bit i j}"

lemma counter_world_double:
  "counter_world (x # xs) (2 * i) = counter_world xs i"
  "counter_world (x # xs) (2 * i + 1) = insert x (counter_world xs i)"
proof -
  have "{(x # xs) ! j | j. j < length (x # xs) \<and> bit n j} =
      (if odd n then {x} else {}) \<union> {xs ! j | j. j < length xs \<and> bit (n div 2) j}" for n
  proof (rule set_eqI)
    fix y
    show "y \<in> {(x # xs) ! j | j. j < length (x # xs) \<and> bit n j} \<longleftrightarrow>
        y \<in> (if odd n then {x} else {}) \<union> {xs ! j | j. j < length xs \<and> bit (n div 2) j}"
    proof
      assume "y \<in> {(x # xs) ! j | j. j < length (x # xs) \<and> bit n j}"
      then obtain j where j: "y = (x # xs) ! j" "j < length (x # xs)" "bit n j" by blast
      then show "y \<in> (if odd n then {x} else {}) \<union> {xs ! j | j. j < length xs \<and> bit (n div 2) j}"
        by (cases j) (auto simp: bit_0 bit_Suc)
    next
      assume "y \<in> (if odd n then {x} else {}) \<union> {xs ! j | j. j < length xs \<and> bit (n div 2) j}"
      then consider "odd n" "y = x" | j where "y = xs ! j" "j < length xs" "bit (n div 2) j"
        by (auto split: if_splits)
      then show "y \<in> {(x # xs) ! j | j. j < length (x # xs) \<and> bit n j}"
      proof cases
        case 1
        then have "y = (x # xs) ! 0 \<and> 0 < length (x # xs) \<and> bit n 0" by (simp add: bit_0)
        then show ?thesis by blast
      next
        case (2 j)
        then have "y = (x # xs) ! Suc j \<and> Suc j < length (x # xs) \<and> bit n (Suc j)" by (simp add: bit_Suc)
        then show ?thesis by blast
      qed
    qed
  qed
  from this[of "2 * i"] this[of "2 * i + 1"]
  show "counter_world (x # xs) (2 * i) = counter_world xs i"
    "counter_world (x # xs) (2 * i + 1) = insert x (counter_world xs i)"
    by (simp_all add: counter_world_def)
qed

lemma sum_list_even_odd: "(\<Sum>i \<leftarrow> [0..<2 * n]. F i) = (\<Sum>i \<leftarrow> [0..<n]. F (2 * i) + F (2 * i + 1))"
  for F :: "nat \<Rightarrow> real"
  by (induction n) (simp_all add: add.assoc)

lemma counter_world_subset: "counter_world xs i \<subseteq> set xs"
  by (auto simp: counter_world_def)

lemma counter_expect:
  "distinct xs \<Longrightarrow>
   (\<Sum>i \<leftarrow> [0..<2 ^ length xs]. world_weight p (set xs) (counter_world xs i) * f (counter_world xs i)) = expect p (set xs) f"
proof (induction xs arbitrary: f)
  case Nil
  then show ?case by (simp add: world_weight_def counter_world_def)
next
  case (Cons x xs)
  have fin: "finite (set xs)" and x: "x \<notin> set xs" using Cons.prems by simp_all
  have w: "world_weight p (insert x (set xs)) (insert x B) = p x * world_weight p (set xs) B"
    "world_weight p (insert x (set xs)) B = (1 - p x) * world_weight p (set xs) B" if "B \<subseteq> set xs" for B
    using x fin that by (auto simp: world_weight_def intro!: prod.cong)
  have "(\<Sum>i \<leftarrow> [0..<2 ^ length (x # xs)]. world_weight p (set (x # xs)) (counter_world (x # xs) i) * f (counter_world (x # xs) i)) =
      (\<Sum>i \<leftarrow> [0..<2 ^ length xs]. world_weight p (insert x (set xs)) (counter_world (x # xs) (2 * i)) * f (counter_world (x # xs) (2 * i)) +
        world_weight p (insert x (set xs)) (counter_world (x # xs) (2 * i + 1)) * f (counter_world (x # xs) (2 * i + 1)))"
    using sum_list_even_odd[of "\<lambda>i. world_weight p (set (x # xs)) (counter_world (x # xs) i) * f (counter_world (x # xs) i)" "2 ^ length xs"]
    by simp
  also have "\<dots> = (\<Sum>i \<leftarrow> [0..<2 ^ length xs]. (1 - p x) * (world_weight p (set xs) (counter_world xs i) * f (counter_world xs i)) +
        p x * (world_weight p (set xs) (counter_world xs i) * f (insert x (counter_world xs i))))"
    unfolding counter_world_double w[OF counter_world_subset] by (simp add: mult.assoc)
  also have "\<dots> = (1 - p x) * expect p (set xs) f + p x * expect p (set xs) (\<lambda>A. f (insert x A))"
    using Cons.IH[of f] Cons.IH[of "\<lambda>A. f (insert x A)"] Cons.prems
    by (simp add: sum_list_addf sum_list_const_mult)
  finally show ?case using expect_insert[OF fin x] by simp
qed

end
