(* ===== verification/BoolCircuit.thy ===== *)
theory BoolCircuit
  imports Circuit SemiringOps WorldProb
begin

text \<open>
  The Boolean circuit (\<open>src/BooleanCircuit.h\<close>, \<open>src/BooleanCircuit.cpp\<close>): the instance of the
  circuit template that the probability methods work on, its gate constructors, the evaluation in
  one world and the graph sweeps.

  \<open>bval\<close> is the specification: the truth value of a gate in a world (the set of the input gates
  that are true), by the height of the circuit.  \<open>depth_ok d c g\<close> says that the circuit below g is
  acyclic, of height at most d, has its wires in range and only the gates an evaluation accepts.
  A double is a real number.
\<close>

section \<open>The data structure\<close>

datatype BooleanGate = UNDETERMINED | AND | OR | NOT | IN | MULIN | MULVAR

record bool_circuit = "BooleanGate circuit" +
  b_inputs :: "gate_t set"
  b_mulinputs :: "gate_t set"
  b_prob :: "real list"
  b_info :: "gate_t \<rightharpoonup> nat"
  b_probabilistic :: bool

definition empty_bool_circuit :: bool_circuit where
  "empty_bool_circuit = \<lparr>uuid2id = Map.empty, id2uuid = Map.empty, gates = [], wires = [],
     b_inputs = {}, b_mulinputs = {}, b_prob = [], b_info = Map.empty, b_probabilistic = False\<rparr>"

definition b_addGate :: "'m bool_circuit_scheme \<Rightarrow> gate_t \<times> 'm bool_circuit_scheme" where
  "b_addGate c = (length (gates c),
     c\<lparr>gates := gates c @ [UNDETERMINED], wires := wires c @ [[]], b_prob := b_prob c @ [1]\<rparr>)"

definition b_getGate :: "'m bool_circuit_scheme \<Rightarrow> uuid \<Rightarrow> gate_t \<times> 'm bool_circuit_scheme" where
  "b_getGate c u = (case uuid2id c u of
     Some g \<Rightarrow> (g, c)
   | None \<Rightarrow> (let (g, c') = b_addGate c in
       (g, c'\<lparr>uuid2id := (uuid2id c')(u \<mapsto> g), id2uuid := (id2uuid c')(g \<mapsto> u)\<rparr>)))"

definition b_setProb :: "'m bool_circuit_scheme \<Rightarrow> gate_t \<Rightarrow> real \<Rightarrow> 'm bool_circuit_scheme" where
  "b_setProb c g p = (let c' = (if \<not> b_probabilistic c \<and> p \<noteq> 1 then c\<lparr>b_probabilistic := True\<rparr> else c)
     in c'\<lparr>b_prob := (b_prob c')[g := p]\<rparr>)"

definition b_getProb :: "'m bool_circuit_scheme \<Rightarrow> gate_t \<Rightarrow> real" where
  "b_getProb c g = b_prob c ! g"

definition b_register :: "gate_t \<Rightarrow> BooleanGate \<Rightarrow> 'm bool_circuit_scheme \<Rightarrow> 'm bool_circuit_scheme" where
  "b_register g t c =
     (if t = IN then (let c' = b_setProb c g 1 in c'\<lparr>b_inputs := insert g (b_inputs c')\<rparr>)
      else if t = MULIN then c\<lparr>b_mulinputs := insert g (b_mulinputs c)\<rparr> else c)"

definition b_setGate :: "'m bool_circuit_scheme \<Rightarrow> BooleanGate \<Rightarrow> gate_t \<times> 'm bool_circuit_scheme" where
  "b_setGate c t = (let (g, c') = b_addGate c in (g, b_register g t (setGateType c' g t)))"

definition b_setGate_uuid :: "'m bool_circuit_scheme \<Rightarrow> uuid \<Rightarrow> BooleanGate \<Rightarrow> gate_t \<times> 'm bool_circuit_scheme" where
  "b_setGate_uuid c u t = (let (g, c') = b_getGate c u in (g, b_register g t (setGateType c' g t)))"

text \<open>The variants with a probability; a NaN, the default of the argument, is \<open>None\<close>.\<close>

definition b_setGate_prob :: "'m bool_circuit_scheme \<Rightarrow> BooleanGate \<Rightarrow> real option \<Rightarrow> gate_t \<times> 'm bool_circuit_scheme" where
  "b_setGate_prob c t p = (let (g, c') = b_setGate c t in
     (g, b_setProb c' g (case p of None \<Rightarrow> 1 | Some x \<Rightarrow> x)))"

definition b_setGate_uuid_prob ::
  "'m bool_circuit_scheme \<Rightarrow> uuid \<Rightarrow> BooleanGate \<Rightarrow> real option \<Rightarrow> gate_t \<times> 'm bool_circuit_scheme" where
  "b_setGate_uuid_prob c u t p = (let (g, c') = b_setGate_uuid c u t in
     (g, b_setProb c' g (case p of None \<Rightarrow> 1 | Some x \<Rightarrow> x)))"

definition setInfo :: "'m bool_circuit_scheme \<Rightarrow> gate_t \<Rightarrow> nat \<Rightarrow> 'm bool_circuit_scheme" where
  "setInfo c g i = c\<lparr>b_info := (b_info c)(g \<mapsto> i)\<rparr>"

definition getInfo :: "'m bool_circuit_scheme \<Rightarrow> gate_t \<Rightarrow> nat" where
  "getInfo c g = (case b_info c g of None \<Rightarrow> 0 | Some i \<Rightarrow> i)"

definition DNNF_CERT_INFO :: nat where "DNNF_CERT_INFO = 1"

definition isDNNFCertified :: "'m bool_circuit_scheme \<Rightarrow> gate_t \<Rightarrow> bool" where
  "isDNNFCertified c g \<longleftrightarrow>
     (getGateType c g = AND \<or> getGateType c g = OR) \<and> getInfo c g = DNNF_CERT_INFO"


section \<open>Evaluation in a world\<close>

text \<open>The loop over the wires of an AND (\<open>dj = False\<close>) or an OR, which stops early.\<close>

primrec eval_wires :: "(gate_t \<Rightarrow> exn + bool) \<Rightarrow> bool \<Rightarrow> gate_t list \<Rightarrow> exn + bool" where
  "eval_wires ev dj [] = Inr (\<not> dj)"
| "eval_wires ev dj (s # ss) = bind_result (ev s) (\<lambda>e.
     if dj \<and> e then Inr True else if \<not> dj \<and> \<not> e then Inr False else eval_wires ev dj ss)"

text \<open>
  \<open>check_stack_depth\<close> makes PostgreSQL raise an error when the C stack is used up, so the recursion
  has a bound: the first argument is the number of frames that fit.
\<close>

definition stack_error :: exn where "stack_error = PgError ''stack depth limit exceeded''"

primrec b_evaluate :: "nat \<Rightarrow> 'm bool_circuit_scheme \<Rightarrow> gate_t set \<Rightarrow> gate_t \<Rightarrow> exn + bool" where
  "b_evaluate 0 c A g = Inl stack_error"
| "b_evaluate (Suc d) c A g = (case getGateType c g of
     IN \<Rightarrow> Inr (g \<in> A)
   | MULIN \<Rightarrow> Inl (CircuitException ''Monte-Carlo sampling not implemented on multivalued inputs'')
   | MULVAR \<Rightarrow> Inl (CircuitException ''Monte-Carlo sampling not implemented on multivalued inputs'')
   | NOT \<Rightarrow> (case getWires c g of
       [] \<Rightarrow> Inl UndefinedBehaviour
     | w # _ \<Rightarrow> bind_result (b_evaluate d c A w) (\<lambda>b. Inr (\<not> b)))
   | AND \<Rightarrow> eval_wires (b_evaluate d c A) False (getWires c g)
   | OR \<Rightarrow> eval_wires (b_evaluate d c A) True (getWires c g)
   | UNDETERMINED \<Rightarrow> Inl (CircuitException ''Incorrect gate type''))"

text \<open>The specification.\<close>

primrec bval :: "nat \<Rightarrow> 'm bool_circuit_scheme \<Rightarrow> gate_t set \<Rightarrow> gate_t \<Rightarrow> bool" where
  "bval 0 c A g = False"
| "bval (Suc d) c A g = (case getGateType c g of
     IN \<Rightarrow> g \<in> A
   | MULIN \<Rightarrow> g \<in> A
   | NOT \<Rightarrow> \<not> bval d c A (hd (getWires c g))
   | AND \<Rightarrow> (\<forall>w \<in> set (getWires c g). bval d c A w)
   | OR \<Rightarrow> (\<exists>w \<in> set (getWires c g). bval d c A w)
   | _ \<Rightarrow> False)"

primrec depth_ok :: "nat \<Rightarrow> 'm bool_circuit_scheme \<Rightarrow> gate_t \<Rightarrow> bool" where
  "depth_ok 0 c g = False"
| "depth_ok (Suc d) c g = (g < length (gates c) \<and> (case getGateType c g of
     IN \<Rightarrow> True
   | MULIN \<Rightarrow> getWires c g \<noteq> []
   | NOT \<Rightarrow> getWires c g \<noteq> [] \<and> (\<forall>w \<in> set (getWires c g). depth_ok d c w)
   | AND \<Rightarrow> (\<forall>w \<in> set (getWires c g). depth_ok d c w)
   | OR \<Rightarrow> (\<forall>w \<in> set (getWires c g). depth_ok d c w)
   | _ \<Rightarrow> False))"

lemma depth_ok_Suc: "depth_ok d c g \<Longrightarrow> depth_ok (Suc d) c g"
proof (induction d arbitrary: g)
  case (Suc d)
  from Suc.prems show ?case
    unfolding depth_ok.simps(2)[of "Suc d"] depth_ok.simps(2)[of d c g]
    by (auto simp del: depth_ok.simps dest: Suc.IH split: BooleanGate.splits)
qed simp

lemma depth_ok_mono: "d \<le> d' \<Longrightarrow> depth_ok d c g \<Longrightarrow> depth_ok d' c g"
  by (induction d' rule: dec_induct) (simp_all add: depth_ok_Suc del: depth_ok.simps)

lemma depth_ok_wires:
  "depth_ok (Suc d) c g \<Longrightarrow> getGateType c g = AND \<or> getGateType c g = OR \<or> getGateType c g = NOT \<Longrightarrow>
   w \<in> set (getWires c g) \<Longrightarrow> depth_ok d c w"
  by auto

lemma depth_ok_NOT: "depth_ok (Suc d) c g \<Longrightarrow> getGateType c g = NOT \<Longrightarrow>
   \<exists>w ws. getWires c g = w # ws \<and> depth_ok d c w"
  by (cases "getWires c g") auto

lemma bval_Suc: "depth_ok d c g \<Longrightarrow> bval (Suc d) c A g = bval d c A g"
proof (induction d arbitrary: g)
  case (Suc d)
  have w: "bval (Suc d) c A w = bval d c A w"
    if "getGateType c g = AND \<or> getGateType c g = OR \<or> getGateType c g = NOT" "w \<in> set (getWires c g)" for w
    using Suc.IH[OF depth_ok_wires[OF Suc.prems that]] .
  have n: "getGateType c g = NOT \<Longrightarrow> hd (getWires c g) \<in> set (getWires c g)" using Suc.prems by simp
  show ?case unfolding bval.simps(2)[of "Suc d"] bval.simps(2)[of d c A g]
    using w n by (auto simp del: bval.simps split: BooleanGate.splits)
qed simp

lemma bval_mono: "d \<le> d' \<Longrightarrow> depth_ok d c g \<Longrightarrow> bval d' c A g = bval d c A g"
proof (induction d' rule: dec_induct)
  case (step n)
  then show ?case using bval_Suc[of n c g A] depth_ok_mono[of d n c g] by simp
qed simp

lemma eval_wires_correct:
  "\<forall>w \<in> set ws. ev w = Inr (b w) \<Longrightarrow>
   eval_wires ev dj ws = Inr (if dj then \<exists>w \<in> set ws. b w else \<forall>w \<in> set ws. b w)"
  by (induction ws) auto

lemma b_evaluate_correct:
  "depth_ok d c g \<Longrightarrow> MULIN \<notin> set (gates c) \<Longrightarrow> b_evaluate d c A g = Inr (bval d c A g)"
proof (induction d arbitrary: g)
  case (Suc d)
  from Suc.prems have g: "g < length (gates c)" by simp
  then have "getGateType c g \<noteq> MULIN" using Suc.prems(2) by (metis getGateType_def nth_mem)
  moreover have ev: "\<forall>w \<in> set (getWires c g). b_evaluate d c A w = Inr (bval d c A w)"
    if "getGateType c g = AND \<or> getGateType c g = OR \<or> getGateType c g = NOT"
    using that Suc by auto
  ultimately show ?case using Suc.prems eval_wires_correct[of "getWires c g" "b_evaluate d c A" "bval d c A"]
    by (auto split: BooleanGate.splits list.splits)
qed simp

section \<open>Sweeps over the gates below a gate\<close>

text \<open>
  Several methods walk the circuit with an explicit stack and a set of the gates already seen:
  \<open>kids\<close> gives the wires to follow, \<open>None\<close> makes the sweep give up, \<open>visit\<close> is what is done at a
  gate seen for the first time.  A wire out of range is undefined behaviour.
\<close>

function graph_sweep :: "nat \<Rightarrow> (gate_t \<Rightarrow> gate_t list option) \<Rightarrow> (gate_t \<Rightarrow> 'a \<Rightarrow> 'a) \<Rightarrow>
    gate_t list \<Rightarrow> gate_t set \<Rightarrow> 'a \<Rightarrow> exn + 'a option" where
  "graph_sweep n kids visit [] seen acc = Inr (Some acc)"
| "graph_sweep n kids visit (u # stk) seen acc =
     (if n \<le> u then Inl UndefinedBehaviour
      else if u \<in> seen then graph_sweep n kids visit stk seen acc
      else (case kids u of
          None \<Rightarrow> Inr None
        | Some cs \<Rightarrow> graph_sweep n kids visit (rev cs @ stk) (insert u seen) (visit u acc)))"
  by pat_completeness auto
termination
proof (relation "measures [\<lambda>(n, kids, visit, stk, seen, acc). card ({..<n} - seen),
    \<lambda>(n, kids, visit, stk, seen, acc). length stk]", goal_cases)
  case (3 n kids visit u stk seen acc cs)
  then have "u \<in> {..<n} - seen" by simp
  then have "card ({..<n} - insert u seen) < card ({..<n} - seen)"
    by (subst Diff_insert) (rule card_Diff1_less, simp_all)
  then show ?case by simp
qed auto

text \<open>The gates a sweep can reach.\<close>

inductive reaches :: "(gate_t \<Rightarrow> gate_t list option) \<Rightarrow> gate_t \<Rightarrow> gate_t \<Rightarrow> bool" for kids where
  reach_self: "reaches kids u u"
| reach_step: "reaches kids u v \<Longrightarrow> kids v = Some cs \<Longrightarrow> w \<in> set cs \<Longrightarrow> reaches kids u w"

lemma reach_trans: "reaches kids v w \<Longrightarrow> reaches kids u v \<Longrightarrow> reaches kids u w"
  by (induction rule: reaches.induct) (auto intro: reaches.intros)

lemma reach_via: "kids u = Some cs \<Longrightarrow> s \<in> set cs \<Longrightarrow> reaches kids s v \<Longrightarrow> reaches kids u v"
  by (rule reach_trans[of kids s v], assumption) (rule reach_step, rule reach_self)

lemma graph_sweep_run:
  "graph_sweep n kids visit stk seen acc = Inr (Some acc') \<Longrightarrow>
   \<exists>us. distinct us \<and> set us \<inter> seen = {} \<and> acc' = fold visit us acc \<and> set stk \<subseteq> seen \<union> set us \<and>
     (\<forall>u \<in> set us. u < n \<and> (\<exists>cs. kids u = Some cs \<and> set cs \<subseteq> seen \<union> set us)) \<and>
     (\<forall>u \<in> set us. \<exists>s \<in> set stk. reaches kids s u)"
proof (induction n kids visit stk seen acc rule: graph_sweep.induct)
  case (1 n kids visit seen acc)
  then show ?case by (intro exI[of _ "[]"]) simp
next
  case (2 n kids visit u stk seen acc)
  let ?ok = "\<lambda>us seen. \<forall>u \<in> set us. u < n \<and> (\<exists>cs. kids u = Some cs \<and> set cs \<subseteq> seen \<union> set us)"
  from 2(3) have u: "\<not> n \<le> u" by (auto split: if_splits)
  show ?case
  proof (cases "u \<in> seen")
    case True
    with 2(3) u have "graph_sweep n kids visit stk seen acc = Inr (Some acc')" by simp
    from 2(1)[OF u True this] obtain us where "distinct us" "set us \<inter> seen = {}" "acc' = fold visit us acc"
      "set stk \<subseteq> seen \<union> set us" "?ok us seen" "\<forall>v \<in> set us. \<exists>s \<in> set stk. reaches kids s v" by blast
    with True show ?thesis by (intro exI[of _ us]) (simp del: graph_sweep.simps)
  next
    case False
    with 2(3) u obtain cs where cs: "kids u = Some cs"
      "graph_sweep n kids visit (rev cs @ stk) (insert u seen) (visit u acc) = Inr (Some acc')"
      by (auto simp del: graph_sweep.simps(1) split: option.splits)
    from 2(2)[OF u False cs] obtain us where us: "distinct us" "set us \<inter> insert u seen = {}"
      "acc' = fold visit us (visit u acc)" "set (rev cs @ stk) \<subseteq> insert u seen \<union> set us"
      "?ok us (insert u seen)" "\<forall>v \<in> set us. \<exists>s \<in> set (rev cs @ stk). reaches kids s v" by blast
    have "\<forall>v \<in> set (u # us). \<exists>s \<in> set (u # stk). reaches kids s v"
    proof
      fix v assume "v \<in> set (u # us)"
      then consider "v = u" | s where "s \<in> set cs" "reaches kids s v" | s where "s \<in> set stk" "reaches kids s v"
        using us(6) by auto
      then show "\<exists>s \<in> set (u # stk). reaches kids s v"
        by cases (auto intro: reach_self reach_via[of kids u cs] cs(1))
    qed
    moreover
    have "?ok (u # us) seen" using us(4,5) cs(1) u by (auto simp del: graph_sweep.simps)
    ultimately show ?thesis using us(1-4) False by (intro exI[of _ "u # us"]) (auto simp del: graph_sweep.simps)
  qed
qed


lemma graph_sweep_total:
  "(\<And>u cs. u < n \<Longrightarrow> kids u = Some cs \<Longrightarrow> set cs \<subseteq> {..<n}) \<Longrightarrow> set stk \<subseteq> {..<n} \<Longrightarrow>
   \<exists>r. graph_sweep n kids visit stk seen acc = Inr r"
  by (induction n kids visit stk seen acc rule: graph_sweep.induct) (auto split: option.splits)

text \<open>The sweep gives up only at a gate it reaches.\<close>

lemma graph_sweep_gives_up:
  "graph_sweep n kids visit stk seen acc = Inr None \<Longrightarrow> \<exists>s \<in> set stk. \<exists>u. reaches kids s u \<and> kids u = None"
proof (induction n kids visit stk seen acc rule: graph_sweep.induct)
  case (2 n kids visit u stk seen acc)
  from 2(3) have u: "\<not> n \<le> u" by (auto split: if_splits)
  show ?case
  proof (cases "u \<in> seen")
    case True
    then show ?thesis using 2(1)[OF u True] 2(3) u by auto
  next
    case False
    show ?thesis
    proof (cases "kids u")
      case None
      then show ?thesis by (meson list.set_intros(1) reach_self)
    next
      case (Some cs)
      with 2(2)[OF u False Some] 2(3) u False obtain s v where
        s: "s \<in> set (rev cs @ stk)" "reaches kids s v" "kids v = None" by auto
      show ?thesis
      proof (cases "s \<in> set cs")
        case True
        from reach_via[of kids, OF Some True s(2)] s(3) show ?thesis by auto
      qed (use s in auto)
    qed
  qed
qed simp

lemma closed_reaches:
  assumes "\<forall>u \<in> S. \<exists>cs. kids u = Some cs \<and> set cs \<subseteq> S"
  shows "reaches kids u v \<Longrightarrow> u \<in> S \<Longrightarrow> v \<in> S"
proof (induction rule: reaches.induct)
  case (reach_step u v cs w)
  then show ?case using assms by force
qed simp

text \<open>A sweep from the empty set of seen gates ends without giving up exactly when every gate it can
  reach has wires to follow, whatever it does at the gates.\<close>

lemma graph_sweep_succeeds_iff:
  assumes "\<And>u cs. u < n \<Longrightarrow> kids u = Some cs \<Longrightarrow> set cs \<subseteq> {..<n}" "set stk \<subseteq> {..<n}"
  shows "(\<exists>acc'. graph_sweep n kids visit stk {} acc = Inr (Some acc')) \<longleftrightarrow>
    (\<forall>s \<in> set stk. \<forall>u. reaches kids s u \<longrightarrow> kids u \<noteq> None)"
proof
  assume "\<exists>acc'. graph_sweep n kids visit stk {} acc = Inr (Some acc')"
  then obtain acc' us where us: "set stk \<subseteq> set us" "\<forall>u \<in> set us. \<exists>cs. kids u = Some cs \<and> set cs \<subseteq> set us"
    using graph_sweep_run[of n kids visit stk "{}" acc] by auto
  show "\<forall>s \<in> set stk. \<forall>u. reaches kids s u \<longrightarrow> kids u \<noteq> None"
  proof (intro ballI allI impI)
    fix s u assume s: "s \<in> set stk" and r: "reaches kids s u"
    from us(1) s have "s \<in> set us" by blast
    from closed_reaches[OF us(2) r this] us(2) show "kids u \<noteq> None" by auto
  qed
next
  assume ok: "\<forall>s \<in> set stk. \<forall>u. reaches kids s u \<longrightarrow> kids u \<noteq> None"
  have "\<exists>r. graph_sweep n kids visit stk {} acc = Inr r" by (rule graph_sweep_total[OF assms])
  then obtain r where r: "graph_sweep n kids visit stk {} acc = Inr r" ..
  show "\<exists>acc'. graph_sweep n kids visit stk {} acc = Inr (Some acc')"
  proof (cases r)
    case None
    from graph_sweep_gives_up[OF r[unfolded None]] ok show ?thesis by blast
  qed (use r in auto)
qed

section \<open>Well-formedness\<close>

definition wf_bool :: "'m bool_circuit_scheme \<Rightarrow> bool" where
  "wf_bool c \<longleftrightarrow>
     length (wires c) = length (gates c) \<and> length (b_prob c) = length (gates c) \<and>
     (\<forall>g < length (gates c). \<forall>w \<in> set (wires c ! g). w < length (gates c)) \<and>
     (\<forall>u g. uuid2id c u = Some g \<longleftrightarrow> id2uuid c g = Some u) \<and>
     (\<forall>u g. uuid2id c u = Some g \<longrightarrow> g < length (gates c)) \<and>
     b_inputs c \<subseteq> {..< length (gates c)} \<and> b_mulinputs c \<subseteq> {..< length (gates c)} \<and>
     (\<forall>g < length (gates c). gates c ! g = IN \<longrightarrow> g \<in> b_inputs c)"

lemma wf_bool_empty [inv_intros]: "wf_bool empty_bool_circuit"
  by (simp add: wf_bool_def empty_bool_circuit_def)

lemma wf_bool_addGate [inv_intros]: "wf_bool c \<Longrightarrow> b_addGate c = (g, c') \<Longrightarrow> wf_bool c'"
  by (auto simp: wf_bool_def b_addGate_def nth_append less_Suc_eq) (fastforce+)?

lemma wf_bool_retype:
  assumes "wf_bool c" "g < length (gates c)"
  shows "wf_bool (b_register g t (setGateType c g t))"
  using assms
  by (auto simp: wf_bool_def b_register_def b_setProb_def setGateType_def nth_list_update Let_def)

lemma wf_bool_setGate [inv_intros]:
  assumes "wf_bool c" "b_setGate c t = (g, c')"
  shows "wf_bool c'"
proof -
  obtain h c1 where c1: "b_addGate c = (h, c1)" by fastforce
  then have "h < length (gates c1)" by (auto simp: b_addGate_def)
  moreover have "c' = b_register h t (setGateType c1 h t)" using assms(2) c1 by (auto simp: b_setGate_def)
  ultimately show ?thesis using wf_bool_retype[OF wf_bool_addGate[OF assms(1) c1]] by simp
qed

lemma wf_bool_addWire [inv_intros]:
  "wf_bool c \<Longrightarrow> f < length (gates c) \<Longrightarrow> t < length (gates c) \<Longrightarrow> wf_bool (addWire c f t)"
  by (auto simp: wf_bool_def addWire_def nth_list_update)

lemma wf_bool_wires: "wf_bool c \<Longrightarrow> u < length (gates c) \<Longrightarrow> set (getWires c u) \<subseteq> {..<length (gates c)}"
  by (auto simp: wf_bool_def getWires_def)


text \<open>The well-formedness of a concrete circuit without UUIDs, by evaluation.\<close>

lemma wf_bool_exec:
  assumes "length (wires c) = length (gates c)" "length (b_prob c) = length (gates c)"
    "list_all (list_all (\<lambda>w. w < length (gates c))) (wires c)" "uuid2id c = Map.empty" "id2uuid c = Map.empty"
    "b_inputs c \<subseteq> {..<length (gates c)}" "b_mulinputs c \<subseteq> {..<length (gates c)}"
    "list_all (\<lambda>g. gates c ! g = IN \<longrightarrow> g \<in> b_inputs c) [0..<length (gates c)]"
  shows "wf_bool c"
  using assms unfolding wf_bool_def by (auto simp: list_all_iff list_all_length Ball_def in_set_conv_nth)

end
