(* ===== verification/ExactProb.thy ===== *)
theory ExactProb
  imports BoolCircuit "HOL-Library.Multiset"
begin

text \<open>
  Exact probability of a Boolean circuit without compilation (\<open>src/BooleanCircuit.cpp\<close>): the
  enumeration of the possible worlds, the recognition of DNF-shaped circuits, inclusion-exclusion
  over their clauses (the sieve), the bucket bounds, and the Tseytin encoding.  Each is proved
  against the product probability space of \<open>WorldProb\<close>.
\<close>

section \<open>Possible worlds\<close>

definition reachable_inputs :: "'m bool_circuit_scheme \<Rightarrow> gate_t \<Rightarrow> exn + gate_t set option" where
  "reachable_inputs c g = graph_sweep (length (gates c)) (\<lambda>u. Some (getWires c u))
     (\<lambda>u acc. if getGateType c u = IN then insert u acc else acc) [g] {} {}"

text \<open>The world of the counter value i and its weight; j counts the inputs, kept in order.\<close>

primrec world_loop :: "(gate_t \<Rightarrow> real) \<Rightarrow> nat \<Rightarrow> nat \<Rightarrow> gate_t list \<Rightarrow> gate_t set \<times> real \<Rightarrow> gate_t set \<times> real" where
  "world_loop pr i j [] sp = sp"
| "world_loop pr i j (x # xs) sp = world_loop pr i (Suc j) xs
     (if bit i j then (insert x (fst sp), snd sp * pr x) else (fst sp, snd sp * (1 - pr x)))"

primrec pw_loop :: "(gate_t set \<Rightarrow> exn + bool) \<Rightarrow> (gate_t \<Rightarrow> real) \<Rightarrow> gate_t list \<Rightarrow> nat list \<Rightarrow> real \<Rightarrow> exn + real" where
  "pw_loop ev pr xs [] tot = Inr tot"
| "pw_loop ev pr xs (i # is) tot =
     (let (s, p) = world_loop pr i 0 xs ({}, 1)
      in bind_result (ev s) (\<lambda>b. pw_loop ev pr xs is (if b then tot + p else tot)))"

definition possibleWorlds :: "nat \<Rightarrow> 'm bool_circuit_scheme \<Rightarrow> gate_t \<Rightarrow> exn + real" where
  "possibleWorlds d c g = bind_result (reachable_inputs c g) (\<lambda>r. case r of
     None \<Rightarrow> Inl UndefinedBehaviour
   | Some rinputs \<Rightarrow>
       (let xs = sorted_list_of_set rinputs in
        if length xs \<ge> 64 then Inl (CircuitException ''Too many possible worlds to iterate over'')
        else pw_loop (\<lambda>s. b_evaluate d c s g) (b_getProb c) xs [0..<2 ^ length xs] 0))"

lemma counter_world_Cons:
  "counter_world (x # xs) n = (if odd n then insert x (counter_world xs (n div 2)) else counter_world xs (n div 2))"
proof (cases "odd n")
  case True
  then have "n = 2 * (n div 2) + 1" by simp
  then show ?thesis using True counter_world_double(2)[of x xs "n div 2"] by metis
next
  case False
  then have "n = 2 * (n div 2)" by simp
  then show ?thesis using False counter_world_double(1)[of x xs "n div 2"] by metis
qed

lemma world_weight_insert:
  assumes "finite V" "x \<notin> V" "B \<subseteq> V"
  shows "world_weight p (insert x V) (insert x B) = p x * world_weight p V B"
    "world_weight p (insert x V) B = (1 - p x) * world_weight p V B"
  using assms by (auto simp: world_weight_def intro!: prod.cong)

lemma world_loop_eq:
  "distinct xs \<Longrightarrow> world_loop pr i j xs (s, p) =
     (s \<union> counter_world xs (i div 2 ^ j), p * world_weight pr (set xs) (counter_world xs (i div 2 ^ j)))"
proof (induction xs arbitrary: j s p)
  case Nil
  then show ?case by (simp add: counter_world_def world_weight_def)
next
  case (Cons x xs)
  have d: "i div 2 ^ Suc j = i div 2 ^ j div 2" unfolding power_Suc2 div_mult2_eq ..
  have b: "bit i j \<longleftrightarrow> odd (i div 2 ^ j)" by (simp add: bit_iff_odd)
  note w = world_weight_insert[OF _ _ counter_world_subset, of xs x pr "i div 2 ^ j div 2"]
  show ?case using Cons w unfolding world_loop.simps counter_world_Cons b d[symmetric]
    by (simp del: power_Suc)
qed

lemma pw_loop_eq:
  assumes "distinct xs" "\<And>s. ev s = Inr (b s)"
  shows "pw_loop ev pr xs is t = Inr (t + (\<Sum>i \<leftarrow> is. world_weight pr (set xs) (counter_world xs i) * of_bool (b (counter_world xs i))))"
  by (induction "is" arbitrary: t) (simp_all add: world_loop_eq[OF assms(1)] assms(2))

text \<open>The value of a gate depends on the inputs a sweep collects only.\<close>

lemma bval_depends:
  assumes closed: "\<forall>u \<in> S. set (getWires c u) \<subseteq> S"
  shows "depth_ok d c g \<Longrightarrow> g \<in> S \<Longrightarrow> A \<inter> W = B \<inter> W \<Longrightarrow>
    (\<forall>u \<in> S. getGateType c u = IN \<or> getGateType c u = MULIN \<longrightarrow> u \<in> W) \<Longrightarrow> bval d c A g = bval d c B g"
proof (induction d arbitrary: g)
  case (Suc d)
  have w: "bval d c A w = bval d c B w"
    if "getGateType c g = AND \<or> getGateType c g = OR \<or> getGateType c g = NOT" "w \<in> set (getWires c g)" for w
    using Suc.IH[OF depth_ok_wires[OF Suc.prems(1) that]] Suc.prems closed that by blast
  have n: "getGateType c g = NOT \<Longrightarrow> hd (getWires c g) \<in> set (getWires c g)" using Suc.prems(1) by simp
  have leaf: "g \<in> A \<longleftrightarrow> g \<in> B" if "getGateType c g = IN \<or> getGateType c g = MULIN"
    using Suc.prems(2-4) that by auto
  show ?case using w n leaf by (auto split: BooleanGate.splits)
qed simp

lemma collect_fold:
  "fold (\<lambda>u acc. if P u then insert u acc else acc) us acc = acc \<union> {u \<in> set us. P u}"
  by (induction us arbitrary: acc) auto

lemma reachable_inputs_ok:
  assumes "wf_bool c" "g < length (gates c)"
  shows "\<exists>us. reachable_inputs c g = Inr (Some {u \<in> set us. getGateType c u = IN}) \<and> g \<in> set us \<and>
    (\<forall>u \<in> set us. u < length (gates c) \<and> set (getWires c u) \<subseteq> set us)"
proof -
  let ?n = "length (gates c)" and ?kids = "\<lambda>u. Some (getWires c u)"
  let ?visit = "\<lambda>u acc. if getGateType c u = IN then insert u acc else acc"
  have "\<exists>r. graph_sweep ?n ?kids ?visit [g] {} {} = Inr r"
    by (rule graph_sweep_total) (use wf_bool_wires[OF assms(1)] assms(2) in auto)
  then obtain r where r: "graph_sweep ?n ?kids ?visit [g] {} {} = Inr r" ..
  have "r \<noteq> None" using graph_sweep_gives_up[of ?n ?kids ?visit "[g]" "{}" "{}"] r by auto
  then obtain acc where acc: "r = Some acc" by auto
  from graph_sweep_run[OF r[unfolded acc]] obtain us where us: "acc = fold ?visit us {}" "g \<in> set us"
    "\<forall>u \<in> set us. u < ?n \<and> set (getWires c u) \<subseteq> set us" by auto
  have "acc = {u \<in> set us. getGateType c u = IN}" using us(1) by (simp add: collect_fold)
  then show ?thesis using r acc us by (auto simp: reachable_inputs_def)
qed

text \<open>C7: The enumeration of the possible worlds answers the probability that the circuit is true when
  the inputs are drawn independently, although it only enumerates the inputs below the root; with 64
  inputs or more it reports the error instead of looping with a counter that has wrapped.\<close>

theorem possibleWorlds_correct:
  assumes wf: "wf_bool c" and ok: "depth_ok d c g" and mul: "MULIN \<notin> set (gates c)"
    and few: "card {u. u < length (gates c) \<and> gates c ! u = IN} < 64"
  shows "possibleWorlds d c g =
    Inr (prob_of (b_getProb c) {u. u < length (gates c) \<and> gates c ! u = IN} (\<lambda>A. bval d c A g))"
proof -
  let ?V = "{u. u < length (gates c) \<and> gates c ! u = IN}"
  have g: "g < length (gates c)" using ok by (cases d) simp_all
  obtain us where us: "reachable_inputs c g = Inr (Some {u \<in> set us. getGateType c u = IN})" "g \<in> set us"
    "\<forall>u \<in> set us. u < length (gates c) \<and> set (getWires c u) \<subseteq> set us"
    using reachable_inputs_ok[OF wf g] by blast
  define W where "W = {u \<in> set us. getGateType c u = IN}"
  have WV: "W \<subseteq> ?V" using us(3) by (auto simp: W_def getGateType_def)
  have fin: "finite ?V" by simp
  then have finW: "finite W" using WV finite_subset by blast
  define xs where "xs = sorted_list_of_set W"
  have xs: "set xs = W" "distinct xs" using finW by (simp_all add: xs_def)
  have len: "length xs < 64" using card_mono[OF fin WV] few xs by (metis distinct_card le_less_trans)
  have nomul: "getGateType c u \<noteq> MULIN" if "u \<in> set us" for u
    using us(3) mul that by (metis getGateType_def nth_mem)
  have dep: "depends_on (\<lambda>A. of_bool (bval d c A g) :: real) W"
    unfolding depends_on_def
  proof (intro allI impI)
    fix A B assume AB: "A \<inter> W = B \<inter> W"
    have "bval d c A g = bval d c B g"
      by (rule bval_depends[of "set us", OF _ ok us(2) AB]) (use us(3) nomul in \<open>auto simp: W_def\<close>)
    then show "(of_bool (bval d c A g) :: real) = of_bool (bval d c B g)" by simp
  qed
  have "possibleWorlds d c g = pw_loop (\<lambda>s. b_evaluate d c s g) (b_getProb c) xs [0..<2 ^ length xs] 0"
    using us(1) len by (simp add: possibleWorlds_def xs_def W_def Let_def)
  also have "\<dots> = Inr (0 + (\<Sum>i \<leftarrow> [0..<2 ^ length xs]. world_weight (b_getProb c) (set xs) (counter_world xs i) *
      of_bool (bval d c (counter_world xs i) g)))"
    by (rule pw_loop_eq[OF xs(2) b_evaluate_correct[OF ok mul]])
  also have "\<dots> = Inr (expect (b_getProb c) W (\<lambda>A. of_bool (bval d c A g)))"
    using counter_expect[OF xs(2), of "b_getProb c" "\<lambda>A. of_bool (bval d c A g)"] xs(1) by simp
  also have "\<dots> = Inr (expect (b_getProb c) ?V (\<lambda>A. of_bool (bval d c A g)))"
    using expect_restrict[OF fin WV dep] by simp
  finally show ?thesis by (simp add: prob_of_def)
qed


text \<open>A circuit over three inputs with a shared input: \<open>(x0 \<and> x1) \<or> \<not> (x1 \<or> x2)\<close>.\<close>

definition example_bc :: bool_circuit where
  "example_bc = empty_bool_circuit\<lparr>gates := [IN, IN, IN, AND, OR, NOT, OR],
     wires := [[], [], [], [0, 1], [1, 2], [4], [3, 5]], b_inputs := {0, 1, 2},
     b_prob := [1/2, 1/4, 1/8, 1, 1, 1, 1]\<rparr>"

lemma wf_example_bc: "wf_bool example_bc"
  by (rule wf_bool_exec) (simp_all add: example_bc_def empty_bool_circuit_def)

lemma depth_example_bc: "depth_ok 4 example_bc 6"
  by (simp add: example_bc_def empty_bool_circuit_def getGateType_def getWires_def numeral_eq_Suc)

lemma possibleWorlds_correct_witness:
  "possibleWorlds 4 example_bc 6 =
     Inr (prob_of (b_getProb example_bc) {u. u < length (gates example_bc) \<and> gates example_bc ! u = IN} (\<lambda>A. bval 4 example_bc A 6))"
proof (rule possibleWorlds_correct[OF wf_example_bc depth_example_bc])
  show "MULIN \<notin> set (gates example_bc)" by (simp add: example_bc_def)
  have "{u. u < length (gates example_bc) \<and> gates example_bc ! u = IN} \<subseteq> {..<7}" by (auto simp: example_bc_def)
  from card_mono[OF _ this] show "card {u. u < length (gates example_bc) \<and> gates example_bc ! u = IN} < 64" by simp
qed

section \<open>DNF-shaped circuits\<close>

definition dnf_kids :: "'m bool_circuit_scheme \<Rightarrow> gate_t \<Rightarrow> gate_t list option" where
  "dnf_kids c u = (case getGateType c u of IN \<Rightarrow> Some [] | AND \<Rightarrow> Some (getWires c u) | _ \<Rightarrow> None)"

definition clause_roots :: "'m bool_circuit_scheme \<Rightarrow> gate_t \<Rightarrow> gate_t list" where
  "clause_roots c g = (if getGateType c g = OR then getWires c g else [g])"

definition clause_support :: "'m bool_circuit_scheme \<Rightarrow> gate_t \<Rightarrow> exn + gate_t set option" where
  "clause_support c r = graph_sweep (length (gates c)) (dnf_kids c)
     (\<lambda>u acc. if getGateType c u = IN then insert u acc else acc) [r] {} {}"

primrec dnf_loop :: "'m bool_circuit_scheme \<Rightarrow> gate_t list \<Rightarrow> gate_t list \<Rightarrow> gate_t set list \<Rightarrow>
    exn + (gate_t list \<times> gate_t set list) option" where
  "dnf_loop c [] cls sups = Inr (Some (cls, sups))"
| "dnf_loop c (r # rs) cls sups = bind_result (clause_support c r) (\<lambda>x. case x of
     None \<Rightarrow> Inr None
   | Some s \<Rightarrow> dnf_loop c rs (cls @ [r]) (sups @ [s]))"

text \<open>\<open>None\<close> is the answer false; the clauses and their supports are the two output vectors.\<close>

definition dnfShape :: "'m bool_circuit_scheme \<Rightarrow> gate_t \<Rightarrow> exn + (gate_t list \<times> gate_t set list) option" where
  "dnfShape c g = dnf_loop c (clause_roots c g) [] []"

text \<open>The cheap test: one sweep from all the clause roots, and the number of clauses.\<close>

definition dnfShapeInfo :: "'m bool_circuit_scheme \<Rightarrow> gate_t \<Rightarrow> exn + bool \<times> nat" where
  "dnfShapeInfo c g = (let rs = clause_roots c g in
     bind_result (graph_sweep (length (gates c)) (dnf_kids c) (\<lambda>u acc. acc) (rev rs) {} ())
       (\<lambda>r. Inr (r \<noteq> None, length rs)))"

lemma dnf_kids_range:
  "wf_bool c \<Longrightarrow> u < length (gates c) \<Longrightarrow> dnf_kids c u = Some cs \<Longrightarrow> set cs \<subseteq> {..<length (gates c)}"
  using wf_bool_wires[of c u] by (auto simp: dnf_kids_def split: BooleanGate.splits)

lemma dnf_kids_Some: "dnf_kids c u = Some cs \<Longrightarrow> getGateType c u = IN \<or> getGateType c u = AND \<and> cs = getWires c u"
  by (auto simp: dnf_kids_def split: BooleanGate.splits)

text \<open>Under a clause root only conjunctions are reached, so the clause is the conjunction of its support.\<close>

lemma bval_conj_closed:
  assumes "\<forall>u \<in> S. dnf_kids c u \<noteq> None \<and> set (the (dnf_kids c u)) \<subseteq> S"
  shows "depth_ok d c u \<Longrightarrow> u \<in> S \<Longrightarrow> {v \<in> S. getGateType c v = IN} \<subseteq> A \<Longrightarrow> bval d c A u"
proof (induction d arbitrary: u)
  case (Suc d)
  from assms Suc.prems(2) obtain cs where cs: "dnf_kids c u = Some cs" "set cs \<subseteq> S" by auto
  from dnf_kids_Some[OF cs(1)] show ?case
  proof
    assume "getGateType c u = AND \<and> cs = getWires c u"
    with Suc cs(2) show ?thesis by auto
  qed (use Suc.prems in auto)
qed simp

lemma bval_conj_reach:
  assumes "reaches (dnf_kids c) r v" "getGateType c v = IN" "depth_ok d c r" "bval d c A r"
  shows "v \<in> A"
proof -
  have "\<exists>d'. depth_ok d' c v \<and> bval d' c A v" using assms(1,3,4)
  proof (induction rule: reaches.induct)
    case (reach_step u v cs w)
    then obtain d' where d': "depth_ok d' c v" "bval d' c A v" by blast
    then obtain e where e: "d' = Suc e" by (cases d') simp_all
    from dnf_kids_Some[OF reach_step.hyps(2)] show ?case
    proof
      assume "getGateType c v = IN"
      with reach_step.hyps have False by (simp add: dnf_kids_def)
      then show ?thesis ..
    next
      assume "getGateType c v = AND \<and> cs = getWires c v"
      with d' e reach_step.hyps(3) show ?thesis by auto
    qed
  qed blast
  then obtain d' where "bval d' c A v" by blast
  with assms(2) show ?thesis by (cases d') simp_all
qed


lemma clause_support_correct:
  assumes wf: "wf_bool c" and ok: "depth_ok d c r" and s: "clause_support c r = Inr (Some S)"
  shows "bval d c A r \<longleftrightarrow> S \<subseteq> A" and "S \<subseteq> {u. u < length (gates c) \<and> gates c ! u = IN}"
proof -
  from graph_sweep_run[OF s[unfolded clause_support_def]] obtain us where us:
    "S = {u \<in> set us. getGateType c u = IN}" "r \<in> set us"
    "\<forall>u \<in> set us. u < length (gates c) \<and> (\<exists>cs. dnf_kids c u = Some cs \<and> set cs \<subseteq> set us)"
    "\<forall>u \<in> set us. reaches (dnf_kids c) r u"
    by (auto simp: collect_fold)
  then have reach: "reaches (dnf_kids c) r u" if "u \<in> S" for u using that by simp
  show "bval d c A r \<longleftrightarrow> S \<subseteq> A"
  proof
    assume b: "bval d c A r"
    show "S \<subseteq> A"
    proof
      fix u assume u: "u \<in> S"
      then have "getGateType c u = IN" using us(1) by simp
      from bval_conj_reach[OF reach[OF u] this ok b] show "u \<in> A" .
    qed
  next
    assume "S \<subseteq> A"
    then show "bval d c A r"
      using bval_conj_closed[of "set us" c d r A, OF _ ok us(2)] us(1,3) by fastforce
  qed
  show "S \<subseteq> {u. u < length (gates c) \<and> gates c ! u = IN}" using us by (auto simp: getGateType_def)
qed


lemma clause_support_total:
  assumes "wf_bool c" "r < length (gates c)"
  shows "\<exists>s. clause_support c r = Inr s"
  unfolding clause_support_def using assms(2) dnf_kids_range[OF assms(1)] by (intro graph_sweep_total) auto

lemma dnf_loop_run:
  "dnf_loop c rs cls sups = Inr (Some (cls', sups')) \<Longrightarrow>
   \<exists>ss. cls' = cls @ rs \<and> sups' = sups @ ss \<and> list_all2 (\<lambda>r s. clause_support c r = Inr (Some s)) rs ss"
proof (induction rs arbitrary: cls sups)
  case (Cons r rs)
  then obtain s where s: "clause_support c r = Inr (Some s)" "dnf_loop c rs (cls @ [r]) (sups @ [s]) = Inr (Some (cls', sups'))"
    by (auto simp: bind_result_Inr_iff split: option.splits)
  from Cons.IH[OF s(2)] obtain ss where "cls' = (cls @ [r]) @ rs" "sups' = (sups @ [s]) @ ss"
    "list_all2 (\<lambda>r s. clause_support c r = Inr (Some s)) rs ss" by blast
  with s(1) show ?case by (intro exI[of _ "s # ss"]) simp
qed simp

lemma dnf_loop_succeeds_iff:
  assumes "wf_bool c"
  shows "set rs \<subseteq> {..<length (gates c)} \<Longrightarrow>
   (\<exists>x. dnf_loop c rs cls sups = Inr (Some x)) \<longleftrightarrow> (\<forall>r \<in> set rs. \<exists>s. clause_support c r = Inr (Some s))"
proof (induction rs arbitrary: cls sups)
  case (Cons r rs)
  from clause_support_total[OF assms] Cons.prems obtain s where s: "clause_support c r = Inr s" by fastforce
  show ?case using Cons by (cases s) (simp_all add: s)
qed simp

lemma clause_roots_range:
  "wf_bool c \<Longrightarrow> g < length (gates c) \<Longrightarrow> set (clause_roots c g) \<subseteq> {..<length (gates c)}"
  using wf_bool_wires[of c g] by (simp add: clause_roots_def)

text \<open>The cheap shape test agrees with the full one: it answers true exactly when the full test finds
  the clauses and their supports, and it reports their number.\<close>

theorem dnfShapeInfo_agrees:
  assumes wf: "wf_bool c" and g: "g < length (gates c)"
  shows "dnfShapeInfo c g = Inr (\<exists>cls sups. dnfShape c g = Inr (Some (cls, sups)), length (clause_roots c g))"
proof -
  let ?n = "length (gates c)" and ?rs = "clause_roots c g"
  have rng: "set (rev ?rs) \<subseteq> {..<?n}" using clause_roots_range[OF assms] by simp
  have "\<exists>r. graph_sweep ?n (dnf_kids c) (\<lambda>u (acc::unit). acc) (rev ?rs) {} () = Inr r"
    by (rule graph_sweep_total[OF _ rng]) (rule dnf_kids_range[OF wf])
  then obtain r where r: "graph_sweep ?n (dnf_kids c) (\<lambda>u (acc::unit). acc) (rev ?rs) {} () = Inr r" ..
  have cl: "(\<exists>s. clause_support c x = Inr (Some s)) \<longleftrightarrow> (\<forall>u. reaches (dnf_kids c) x u \<longrightarrow> dnf_kids c u \<noteq> None)"
    if "x \<in> set ?rs" for x
    unfolding clause_support_def using clause_roots_range[OF assms] that
    by (subst graph_sweep_succeeds_iff) (auto dest: dnf_kids_range[OF wf])
  have "(r \<noteq> None) \<longleftrightarrow> (\<forall>s \<in> set (rev ?rs). \<forall>u. reaches (dnf_kids c) s u \<longrightarrow> dnf_kids c u \<noteq> None)"
    using graph_sweep_succeeds_iff[of ?n "dnf_kids c" "rev ?rs" "\<lambda>u acc. acc" "()", OF dnf_kids_range[OF wf] rng] r
    by auto
  also have "\<dots> \<longleftrightarrow> (\<forall>s \<in> set ?rs. \<exists>S. clause_support c s = Inr (Some S))" using cl by simp
  also have "\<dots> \<longleftrightarrow> (\<exists>cls sups. dnfShape c g = Inr (Some (cls, sups)))"
    using dnf_loop_succeeds_iff[OF wf clause_roots_range[OF assms], of "[]" "[]"] by (auto simp: dnfShape_def)
  finally show ?thesis using r by (simp add: dnfShapeInfo_def Let_def)
qed

lemma dnfShapeInfo_agrees_witness:
  "dnfShapeInfo example_bc 3 = Inr (\<exists>cls sups. dnfShape example_bc 3 = Inr (Some (cls, sups)), length (clause_roots example_bc 3))"
  by (rule dnfShapeInfo_agrees[OF wf_example_bc]) (simp add: example_bc_def)

lemma dnfShape_sound:
  assumes wf: "wf_bool c" and ok: "depth_ok d c g" and d: "dnfShape c g = Inr (Some (cls, sups))"
  shows "bval d c A g \<longleftrightarrow> (\<exists>S \<in> set sups. S \<subseteq> A)" "length cls = length sups"
    "\<forall>S \<in> set sups. S \<subseteq> {u. u < length (gates c) \<and> gates c ! u = IN}"
proof -
  from dnf_loop_run[OF d[unfolded dnfShape_def]]
  have cls: "cls = clause_roots c g" and l2: "list_all2 (\<lambda>r s. clause_support c r = Inr (Some s)) (clause_roots c g) sups"
    by simp_all
  from l2 show "length cls = length sups" unfolding cls by (rule list_all2_lengthD)
  obtain e where e: "d = Suc e" using ok by (cases d) simp_all
  have root_ok: "depth_ok d c r" if "r \<in> set (clause_roots c g)" for r
    using ok that depth_ok_Suc[of e c r] unfolding e by (auto simp: clause_roots_def simp del: depth_ok.simps split: if_splits dest: depth_ok_wires)
  have vals: "list_all2 (\<lambda>r s. (bval d c A r \<longleftrightarrow> s \<subseteq> A) \<and> s \<subseteq> {u. u < length (gates c) \<and> gates c ! u = IN}) (clause_roots c g) sups"
    by (rule list.rel_mono_strong[OF l2]) (use clause_support_correct[OF wf root_ok] in blast)
  then show "\<forall>S \<in> set sups. S \<subseteq> {u. u < length (gates c) \<and> gates c ! u = IN}"
    by (metis (no_types, lifting) in_set_conv_nth list_all2_conv_all_nth)
  have "bval d c A g \<longleftrightarrow> (\<exists>r \<in> set (clause_roots c g). bval d c A r)"
  proof (cases "getGateType c g = OR")
    case True
    then have "bval d c A r = bval e c A r" if "r \<in> set (getWires c g)" for r
      using bval_Suc[of e c r A] depth_ok_wires[OF ok[unfolded e] _ that] e by simp
    then show ?thesis using True by (simp add: clause_roots_def e)
  qed (simp add: clause_roots_def)
  also have "\<dots> \<longleftrightarrow> (\<exists>S \<in> set sups. S \<subseteq> A)"
    using vals by (fastforce simp: list_all2_conv_all_nth in_set_conv_nth Bex_def)
  finally show "bval d c A g \<longleftrightarrow> (\<exists>S \<in> set sups. S \<subseteq> A)" .
qed


section \<open>Inclusion-exclusion\<close>

definition kSieveMaxClauses :: nat where "kSieveMaxClauses = 24"

text \<open>The union of the supports selected by the bits of s, and the number of bits.\<close>

primrec sieve_union :: "nat \<Rightarrow> nat \<Rightarrow> gate_t set list \<Rightarrow> gate_t set \<times> nat \<Rightarrow> gate_t set \<times> nat" where
  "sieve_union s i [] ub = ub"
| "sieve_union s i (S # Ss) ub =
     sieve_union s (Suc i) Ss (if bit s i then (fst ub \<union> S, Suc (snd ub)) else ub)"

primrec sieve_loop :: "(gate_t \<Rightarrow> real) \<Rightarrow> gate_t set list \<Rightarrow> nat list \<Rightarrow> real \<Rightarrow> real" where
  "sieve_loop pr sups [] t = t"
| "sieve_loop pr sups (s # ss) t =
     (let (u, bits) = sieve_union s 0 sups ({}, 0); p = prod pr u
      in sieve_loop pr sups ss (if odd bits then t + p else t - p))"

definition sieve :: "'m bool_circuit_scheme \<Rightarrow> gate_t list \<Rightarrow> gate_t set list \<Rightarrow> exn + real" where
  "sieve c cls sups =
     (if cls = [] then Inr 0
      else if length cls > kSieveMaxClauses then Inl (CircuitException ''sieve: too many clauses'')
      else if length sups < length cls then Inl UndefinedBehaviour
      else Inr (sieve_loop (b_getProb c) (take (length cls) sups) [1..<2 ^ length cls] 0))"

lemma expect_subset:
  assumes "finite V" "U \<subseteq> V"
  shows "expect p V (\<lambda>A. of_bool (U \<subseteq> A)) = prod p U"
proof -
  have fin: "finite U" using assms finite_subset by blast
  define xs where "xs = sorted_list_of_set U"
  have xs: "set xs = U" "distinct xs" using fin by (simp_all add: xs_def)
  have conj: "(\<Prod>x \<leftarrow> ys. of_bool (x \<in> A)) = (of_bool (set ys \<subseteq> A) :: real)" for ys A
    by (induction ys) simp_all
  have "expect p V (\<lambda>A. of_bool (U \<subseteq> A)) = expect p V (\<lambda>A. \<Prod>x \<leftarrow> xs. of_bool (x \<in> A))"
    by (simp add: conj xs(1))
  also have "\<dots> = (\<Prod>x \<leftarrow> xs. expect p V (\<lambda>A. of_bool (x \<in> A)))"
    by (rule expect_indep_list[OF assms(1) _ xs(2), of _ "\<lambda>x. {x}"]) (auto simp: depends_on_var)
  also have "\<dots> = (\<Prod>x \<leftarrow> xs. p x)"
    by (rule arg_cong[where f = prod_list], rule map_cong[OF refl], rule expect_var[OF assms(1)])
       (use xs(1) assms(2) in auto)
  also have "\<dots> = prod p U" using prod.distinct_set_conv_list[OF xs(2), of p] xs(1) by simp
  finally show ?thesis .
qed

lemma sieve_union_shift: "sieve_union s (Suc i) Ss ub = sieve_union (s div 2) i Ss ub"
  by (induction Ss arbitrary: i ub) (simp_all add: bit_Suc)

text \<open>The alternating sum over all selections, the empty one included.\<close>

definition signed_sum :: "(gate_t \<Rightarrow> real) \<Rightarrow> gate_t set list \<Rightarrow> gate_t set \<times> nat \<Rightarrow> real" where
  "signed_sum pr Ss ub = (\<Sum>n \<leftarrow> [0..<2 ^ length Ss].
     (- 1) ^ snd (sieve_union n 0 Ss ub) * prod pr (fst (sieve_union n 0 Ss ub)))"

lemma signed_sum_Cons:
  "signed_sum pr (S # Ss) (u, k) = signed_sum pr Ss (u, k) + signed_sum pr Ss (u \<union> S, Suc k)"
  using sum_list_even_odd[of "\<lambda>n. (- 1) ^ snd (sieve_union n 0 (S # Ss) (u, k)) * prod pr (fst (sieve_union n 0 (S # Ss) (u, k)))" "2 ^ length Ss"]
  unfolding signed_sum_def by (simp add: sieve_union_shift sum_list_addf bit_0)

lemma signed_sum_expect:
  assumes "finite V"
  shows "u \<subseteq> V \<Longrightarrow> \<forall>S \<in> set Ss. S \<subseteq> V \<Longrightarrow>
    signed_sum pr Ss (u, k) = (- 1) ^ k * expect pr V (\<lambda>A. of_bool (u \<subseteq> A) * of_bool (\<forall>S \<in> set Ss. \<not> S \<subseteq> A))"
proof (induction Ss arbitrary: u k)
  case Nil
  then show ?case by (simp add: signed_sum_def expect_subset[OF assms])
next
  case (Cons S Ss)
  let ?R = "\<lambda>A. \<forall>S \<in> set Ss. \<not> S \<subseteq> A"
  have "signed_sum pr (S # Ss) (u, k) =
      (- 1) ^ k * (expect pr V (\<lambda>A. of_bool (u \<subseteq> A) * of_bool (?R A)) - expect pr V (\<lambda>A. of_bool (u \<union> S \<subseteq> A) * of_bool (?R A)))"
    using Cons by (simp add: signed_sum_Cons right_diff_distrib)
  also have "\<dots> = (- 1) ^ k * expect pr V (\<lambda>A. of_bool (u \<subseteq> A) * of_bool (?R A) - of_bool (u \<union> S \<subseteq> A) * of_bool (?R A))"
    by (simp add: expect_diff)
  also have "(\<lambda>A. of_bool (u \<subseteq> A) * of_bool (?R A) - of_bool (u \<union> S \<subseteq> A) * of_bool (?R A) :: real) =
      (\<lambda>A. of_bool (u \<subseteq> A) * of_bool (\<forall>S \<in> set (S # Ss). \<not> S \<subseteq> A))" by auto
  finally show ?case .
qed

lemma sieve_loop_eq:
  "sieve_loop pr sups ss t = t - (\<Sum>n \<leftarrow> ss.
     (- 1) ^ snd (sieve_union n 0 sups ({}, 0)) * prod pr (fst (sieve_union n 0 sups ({}, 0))))"
proof (induction ss arbitrary: t)
  case (Cons s ss)
  then show ?case by (cases "sieve_union s 0 sups ({}, 0)") (simp add: Let_def)
qed simp

lemma sieve_union_zero: "sieve_union 0 i Ss ub = ub"
  by (induction Ss arbitrary: i) simp_all

lemma sieve_loop_expect:
  assumes "finite V" "\<forall>S \<in> set sups. S \<subseteq> V"
  shows "sieve_loop pr sups [1..<2 ^ length sups] 0 = prob_of pr V (\<lambda>A. \<exists>S \<in> set sups. S \<subseteq> A)"
proof -
  have "[0..<2 ^ length sups] = 0 # [1..<2 ^ length sups]" by (simp add: upt_conv_Cons)
  then have "signed_sum pr sups ({}, 0) = 1 - sieve_loop pr sups [1..<2 ^ length sups] 0"
    by (simp add: signed_sum_def sieve_loop_eq sieve_union_zero)
  moreover have "signed_sum pr sups ({}, 0) = expect pr V (\<lambda>A. of_bool (\<forall>S \<in> set sups. \<not> S \<subseteq> A))"
    using signed_sum_expect[OF assms(1) _ assms(2), of "{}" pr 0] by simp
  moreover have "expect pr V (\<lambda>A. of_bool (\<forall>S \<in> set sups. \<not> S \<subseteq> A)) + prob_of pr V (\<lambda>A. \<exists>S \<in> set sups. S \<subseteq> A) = expect pr V (\<lambda>A. 1)"
    unfolding prob_of_def expect_add[symmetric] by (rule expect_cong) auto
  ultimately show ?thesis using assms(1) by simp
qed


text \<open>C11: Inclusion-exclusion over the clauses that the shape test found answers the exact probability
  of the circuit, whatever supports the clauses share.\<close>

theorem sieve_correct:
  assumes wf: "wf_bool c" and ok: "depth_ok d c g" and shape: "dnfShape c g = Inr (Some (cls, sups))"
    and few: "length cls \<le> 24"
  shows "sieve c cls sups =
    Inr (prob_of (b_getProb c) {u. u < length (gates c) \<and> gates c ! u = IN} (\<lambda>A. bval d c A g))"
proof -
  note s = dnfShape_sound[OF wf ok shape]
  show ?thesis
  proof (cases "cls = []")
    case True
    then have "sups = []" using s(2) by simp
    then show ?thesis using True s(1) by (simp add: sieve_def prob_of_def)
  next
    case False
    then have "sieve c cls sups = Inr (sieve_loop (b_getProb c) sups [1..<2 ^ length sups] 0)"
      using few s(2) by (simp add: sieve_def kSieveMaxClauses_def)
    then show ?thesis using sieve_loop_expect[of _ sups "b_getProb c", OF _ s(3)] s(1) by simp
  qed
qed

text \<open>The positive part of the example: \<open>(x0 \<and> x1) \<or> (x1 \<and> x2)\<close>.\<close>

definition example_dnf :: bool_circuit where
  "example_dnf = empty_bool_circuit\<lparr>gates := [IN, IN, IN, AND, AND, OR],
     wires := [[], [], [], [0, 1], [1, 2], [3, 4]], b_inputs := {0, 1, 2},
     b_prob := [1/2, 1/4, 1/8, 1, 1, 1]\<rparr>"

lemma wf_example_dnf: "wf_bool example_dnf"
  by (rule wf_bool_exec) (simp_all add: example_dnf_def empty_bool_circuit_def)

lemma depth_example_dnf: "depth_ok 3 example_dnf 5"
  by (simp add: example_dnf_def empty_bool_circuit_def getGateType_def getWires_def numeral_eq_Suc)

lemma shape_example_dnf: "dnfShape example_dnf 5 = Inr (Some ([3, 4], [{0, 1}, {1, 2}]))"
  by (simp add: example_dnf_def empty_bool_circuit_def getGateType_def getWires_def dnfShape_def clause_roots_def
      clause_support_def dnf_kids_def insert_commute)

lemma sieve_correct_witness:
  "sieve example_dnf [3, 4] [{0, 1}, {1, 2}] =
     Inr (prob_of (b_getProb example_dnf) {u. u < length (gates example_dnf) \<and> gates example_dnf ! u = IN} (\<lambda>A. bval 3 example_dnf A 5))"
  by (rule sieve_correct[OF wf_example_dnf depth_example_dnf shape_example_dnf]) simp

section \<open>Bounds\<close>

text \<open>
  The greedy partition in buckets of clauses with disjoint supports: a bucket is the union of the
  supports in it and its running probability.  \<open>order\<close> is what \<open>std::sort\<close> leaves in the vector of
  indexes; the order of clauses of equal probability is unspecified.
\<close>

definition clause_prob :: "(gate_t \<Rightarrow> real) \<Rightarrow> gate_t set \<Rightarrow> real" where
  "clause_prob pr S = prod pr S"

primrec place_clause :: "gate_t set \<Rightarrow> real \<Rightarrow> (gate_t set \<times> real) list \<Rightarrow> (gate_t set \<times> real) list" where
  "place_clause S p [] = [(S, 1 - (1 - 0) * (1 - p))]"
| "place_clause S p (b # bs) =
     (if S \<inter> fst b = {} then (fst b \<union> S, 1 - (1 - snd b) * (1 - p)) # bs
      else b # place_clause S p bs)"

definition dnfBounds :: "(gate_t \<Rightarrow> real) \<Rightarrow> nat list \<Rightarrow> gate_t set list \<Rightarrow> real \<times> real" where
  "dnfBounds pr order cls =
     (if cls = [] then (0, 0)
      else (let bs = foldl (\<lambda>bs idx. place_clause (cls ! idx) (clause_prob pr (cls ! idx)) bs) [] order;
                L = foldl (\<lambda>L b. if snd b > L then snd b else L) 0 bs;
                U = foldl (\<lambda>U b. U + snd b) 0 bs
            in (L, if U > 1 then 1 else U)))"

text \<open>What a bucket stands for: some of the clauses, with the probability of their disjunction.\<close>

definition bucket_ok :: "(gate_t \<Rightarrow> real) \<Rightarrow> gate_t set \<Rightarrow> gate_t set \<times> real \<Rightarrow> gate_t set set \<Rightarrow> bool" where
  "bucket_ok pr V b Cs \<longleftrightarrow> fst b \<subseteq> V \<and> (\<forall>S \<in> Cs. S \<subseteq> fst b) \<and>
     snd b = prob_of pr V (\<lambda>A. \<exists>S \<in> Cs. S \<subseteq> A)"

lemma bucket_add:
  assumes fin: "finite V" and b: "bucket_ok pr V b Cs" and S: "S \<subseteq> V" and dis: "S \<inter> fst b = {}"
  shows "bucket_ok pr V (fst b \<union> S, 1 - (1 - snd b) * (1 - clause_prob pr S)) (insert S Cs)"
proof -
  have d1: "depends_on (\<lambda>A. of_bool (\<not> (\<exists>S \<in> Cs. S \<subseteq> A)) :: real) (fst b)"
    unfolding depends_on_def
  proof (intro allI impI)
    fix A B assume AB: "A \<inter> fst b = B \<inter> fst b"
    have "S \<subseteq> A \<longleftrightarrow> S \<subseteq> B" if "S \<in> Cs" for S using AB b that unfolding bucket_ok_def by blast
    then show "(of_bool (\<not> (\<exists>S \<in> Cs. S \<subseteq> A)) :: real) = of_bool (\<not> (\<exists>S \<in> Cs. S \<subseteq> B))" by simp
  qed
  have d2: "depends_on (\<lambda>A. of_bool (\<not> S \<subseteq> A) :: real) S"
    unfolding depends_on_def
  proof (intro allI impI)
    fix A B assume "A \<inter> S = B \<inter> S"
    then have "S \<subseteq> A \<longleftrightarrow> S \<subseteq> B" by blast
    then show "(of_bool (\<not> S \<subseteq> A) :: real) = of_bool (\<not> S \<subseteq> B)" by simp
  qed
  have p: "prob_of pr V (\<lambda>A. S \<subseteq> A) = clause_prob pr S"
    using expect_subset[OF fin S, of pr] by (simp add: prob_of_def clause_prob_def)
  have "prob_of pr V (\<lambda>A. \<not> (\<exists>T \<in> insert S Cs. T \<subseteq> A)) =
      expect pr V (\<lambda>A. of_bool (\<not> (\<exists>S \<in> Cs. S \<subseteq> A)) * of_bool (\<not> S \<subseteq> A))"
    unfolding prob_of_def by (rule expect_cong) auto
  also have "\<dots> = prob_of pr V (\<lambda>A. \<not> (\<exists>S \<in> Cs. S \<subseteq> A)) * prob_of pr V (\<lambda>A. \<not> S \<subseteq> A)"
    unfolding prob_of_def by (rule expect_indep[OF fin d1 d2]) (use dis in blast)
  also have "\<dots> = (1 - snd b) * (1 - clause_prob pr S)"
    unfolding prob_not[OF fin] p using b by (simp add: bucket_ok_def)
  finally have "1 - (1 - snd b) * (1 - clause_prob pr S) = prob_of pr V (\<lambda>A. \<exists>T \<in> insert S Cs. T \<subseteq> A)"
    unfolding prob_not[OF fin] by simp
  then show ?thesis using b S unfolding bucket_ok_def by auto
qed


text \<open>The buckets as a whole: each clause placed so far is in one of them.\<close>

definition buckets_ok :: "(gate_t \<Rightarrow> real) \<Rightarrow> gate_t set \<Rightarrow> (gate_t set \<times> real) list \<Rightarrow> gate_t set set \<Rightarrow> bool" where
  "buckets_ok pr V bs Cs \<longleftrightarrow> (\<exists>Css. list_all2 (bucket_ok pr V) bs Css \<and> \<Union> (set Css) = Cs)"

lemma place_clause_ok:
  assumes fin: "finite V" and S: "S \<subseteq> V"
  shows "buckets_ok pr V bs Cs \<Longrightarrow> buckets_ok pr V (place_clause S (clause_prob pr S) bs) (insert S Cs)"
proof (induction bs arbitrary: Cs)
  case Nil
  have "bucket_ok pr V ({}, 0) {}" by (simp add: bucket_ok_def prob_of_def fin)
  from bucket_add[OF fin this S] Nil show ?case by (auto simp: buckets_ok_def intro!: exI[of _ "[{S}]"])
next
  case (Cons b bs)
  then obtain C Css where C: "bucket_ok pr V b C" "list_all2 (bucket_ok pr V) bs Css" "Cs = C \<union> \<Union> (set Css)"
    by (auto simp: buckets_ok_def list_all2_Cons1)
  show ?case
  proof (cases "S \<inter> fst b = {}")
    case True
    from bucket_add[OF fin C(1) S True] C(2,3) True show ?thesis
      unfolding buckets_ok_def by (intro exI[of _ "insert S C # Css"]) auto
  next
    case False
    have "buckets_ok pr V bs (\<Union> (set Css))" using C(2) by (auto simp: buckets_ok_def)
    from Cons.IH[OF this] obtain Css' where Css': "list_all2 (bucket_ok pr V) (place_clause S (clause_prob pr S) bs) Css'"
      "\<Union> (set Css') = insert S (\<Union> (set Css))" by (auto simp: buckets_ok_def)
    with C False show ?thesis unfolding buckets_ok_def by (intro exI[of _ "C # Css'"]) auto
  qed
qed

lemma place_all_ok:
  assumes "finite V" "\<forall>i \<in> set order. cls ! i \<subseteq> V"
  shows "buckets_ok pr V bs Cs \<Longrightarrow>
    buckets_ok pr V (foldl (\<lambda>bs idx. place_clause (cls ! idx) (clause_prob pr (cls ! idx)) bs) bs order)
      (Cs \<union> (\<lambda>i. cls ! i) ` set order)"
  using assms(2)
proof (induction order arbitrary: bs Cs)
  case (Cons i order)
  have "buckets_ok pr V (place_clause (cls ! i) (clause_prob pr (cls ! i)) bs) (insert (cls ! i) Cs)"
    by (rule place_clause_ok[OF assms(1) _ Cons.prems(1)]) (use Cons.prems(2) in simp)
  from Cons.IH[OF this] Cons.prems(2) show ?case by simp
qed simp

lemma buckets_lower:
  assumes p: "\<And>x. x \<in> V \<Longrightarrow> 0 \<le> pr x \<and> pr x \<le> 1"
  shows "buckets_ok pr V bs Cs \<Longrightarrow> t \<le> prob_of pr V (\<lambda>A. \<exists>S \<in> Cs. S \<subseteq> A) \<Longrightarrow>
    foldl (\<lambda>L b. if snd b > L then snd b else L) t bs \<le> prob_of pr V (\<lambda>A. \<exists>S \<in> Cs. S \<subseteq> A)"
proof -
  assume "buckets_ok pr V bs Cs" and t: "t \<le> prob_of pr V (\<lambda>A. \<exists>S \<in> Cs. S \<subseteq> A)"
  then obtain Css where Css: "list_all2 (bucket_ok pr V) bs Css" "\<Union> (set Css) = Cs" by (auto simp: buckets_ok_def)
  have "\<forall>b \<in> set bs. snd b \<le> prob_of pr V (\<lambda>A. \<exists>S \<in> Cs. S \<subseteq> A)"
  proof
    fix b assume "b \<in> set bs"
    with Css obtain C where "bucket_ok pr V b C" "C \<subseteq> Cs"
      by (metis Union_upper in_set_conv_nth list_all2_conv_all_nth)
    then show "snd b \<le> prob_of pr V (\<lambda>A. \<exists>S \<in> Cs. S \<subseteq> A)"
      unfolding bucket_ok_def by (auto intro!: prob_mono[OF p])
  qed
  then show ?thesis using t by (induction bs arbitrary: t) auto
qed

lemma foldl_add_snd: "foldl (\<lambda>U b. U + snd b) t bs = t + (\<Sum>b \<leftarrow> bs. snd b)" for t :: real
  by (induction bs arbitrary: t) simp_all

lemma buckets_upper:
  assumes fin: "finite V" and p: "\<And>x. x \<in> V \<Longrightarrow> 0 \<le> pr x \<and> pr x \<le> 1"
  shows "buckets_ok pr V bs Cs \<Longrightarrow> prob_of pr V (\<lambda>A. \<exists>S \<in> Cs. S \<subseteq> A) \<le> (\<Sum>b \<leftarrow> bs. snd b)"
proof (induction bs arbitrary: Cs)
  case Nil
  then show ?case by (simp add: buckets_ok_def prob_of_def fin)
next
  case (Cons b bs)
  then obtain C Css where C: "bucket_ok pr V b C" "list_all2 (bucket_ok pr V) bs Css" "Cs = C \<union> \<Union> (set Css)"
    by (auto simp: buckets_ok_def list_all2_Cons1)
  have "prob_of pr V (\<lambda>A. \<exists>S \<in> Cs. S \<subseteq> A) \<le>
      expect pr V (\<lambda>A. of_bool (\<exists>S \<in> C. S \<subseteq> A) + of_bool (\<exists>S \<in> \<Union> (set Css). S \<subseteq> A))"
    unfolding prob_of_def C(3) by (rule expect_mono[OF p]) auto
  also have "\<dots> = snd b + prob_of pr V (\<lambda>A. \<exists>S \<in> \<Union> (set Css). S \<subseteq> A)"
    using C(1) by (simp add: expect_add prob_of_def bucket_ok_def)
  also have "\<dots> \<le> snd b + (\<Sum>b \<leftarrow> bs. snd b)"
    using Cons.IH[of "\<Union> (set Css)"] C(2) by (auto simp: buckets_ok_def)
  finally show ?case by simp
qed

text \<open>The bucket bounds enclose the probability of the disjunction of the clauses, in whatever order
  the sort leaves clauses of equal probability.\<close>

theorem dnfBounds_enclose:
  assumes fin: "finite V" and p: "\<And>x. x \<in> V \<Longrightarrow> 0 \<le> pr x \<and> pr x \<le> 1"
    and cls: "\<forall>S \<in> set cls. S \<subseteq> V" and order: "mset order = mset [0..<length cls]"
    and res: "dnfBounds pr order cls = (lower, upper)"
  shows "lower \<le> prob_of pr V (\<lambda>A. \<exists>S \<in> set cls. S \<subseteq> A) \<and> prob_of pr V (\<lambda>A. \<exists>S \<in> set cls. S \<subseteq> A) \<le> upper \<and>
    0 \<le> lower \<and> upper \<le> 1"
proof (cases "cls = []")
  case True
  then show ?thesis using res fin by (simp add: dnfBounds_def prob_of_def)
next
  case False
  let ?P = "prob_of pr V (\<lambda>A. \<exists>S \<in> set cls. S \<subseteq> A)"
  define bs where "bs = foldl (\<lambda>bs idx. place_clause (cls ! idx) (clause_prob pr (cls ! idx)) bs) [] order"
  have so: "set order = {0..<length cls}" using mset_eq_setD[OF order] by simp
  have "buckets_ok pr V bs ({} \<union> (\<lambda>i. cls ! i) ` set order)"
    unfolding bs_def by (rule place_all_ok[OF fin]) (use so cls in \<open>auto simp: buckets_ok_def\<close>)
  moreover have "(\<lambda>i. cls ! i) ` set order = set cls" unfolding so by (auto simp: in_set_conv_nth)
  ultimately have bs: "buckets_ok pr V bs (set cls)" by simp
  have res': "lower = foldl (\<lambda>L b. if snd b > L then snd b else L) 0 bs"
    "upper = (if (\<Sum>b \<leftarrow> bs. snd b) > 1 then 1 else (\<Sum>b \<leftarrow> bs. snd b))"
    using res False by (simp_all add: dnfBounds_def bs_def Let_def foldl_add_snd split: if_splits)
  have ge: "t \<le> foldl (\<lambda>L b. if snd b > L then snd b else L) t bs" for t :: real and bs :: "(gate_t set \<times> real) list"
    by (induction bs arbitrary: t) (simp, smt (verit) foldl_Cons)
  show ?thesis using buckets_lower[OF p bs, of 0] prob_range[OF fin p] buckets_upper[OF fin p bs] ge[of 0 bs]
    unfolding res' by (auto split: if_splits)
qed

lemma dnfBounds_enclose_witness:
  "dnfBounds (\<lambda>_. 1/2) [1, 0] [{0, 1}, {1, 2}] = (1/4, 1/2) \<and>
   1/4 \<le> prob_of (\<lambda>_. 1/2) {0, 1, 2} (\<lambda>A. \<exists>S \<in> set [{0, 1}, {1, 2}]. S \<subseteq> A)"
proof -
  have r: "dnfBounds (\<lambda>_. 1/2) [1, 0] [{0, 1}, {1, 2}] = (1/4, 1/2)"
    by (simp add: dnfBounds_def clause_prob_def)
  have "(1 :: real) / 4 \<le> prob_of (\<lambda>_. 1/2) {0, 1, 2} (\<lambda>A. \<exists>S \<in> set [{0, 1}, {1, 2}]. S \<subseteq> A) \<and>
      prob_of (\<lambda>_. 1/2) {0, 1, 2} (\<lambda>A. \<exists>S \<in> set [{0, 1}, {1, 2}]. S \<subseteq> A) \<le> 1 / 2 \<and> 0 \<le> (1 :: real) / 4 \<and> (1 :: real) / 2 \<le> 1"
    by (rule dnfBounds_enclose[OF _ _ _ _ r]) (simp_all add: upt_rec)
  with r show ?thesis by blast
qed

end
