(* ===== verification/Tseytin.thy ===== *)
theory Tseytin
  imports ExactProb
begin

text \<open>
  The Tseytin encoding of a Boolean circuit (\<open>BooleanCircuit::TseytinCNF\<close> of
  \<open>src/BooleanCircuit.cpp\<close>), which is what the external model counters and compilers are given.
  A literal is a non-zero integer, variable \<open>g + 1\<close> stands for gate g; the variables are ints that
  the code prints in decimal.  The models of the clauses are the worlds in which the root is true.
\<close>

definition gate_var :: "gate_t \<Rightarrow> int" where "gate_var g = int g + 1"

text \<open>The clauses of one gate, in the order they are pushed.\<close>

definition gate_clauses :: "'m bool_circuit_scheme \<Rightarrow> gate_t \<Rightarrow> exn + int list list" where
  "gate_clauses c i = (let v = gate_var i; ws = getWires c i in case getGateType c i of
     AND \<Rightarrow> Inr (map (\<lambda>s. [- v, gate_var s]) ws @ [v # map (\<lambda>s. - int s - 1) ws])
   | OR \<Rightarrow> Inr (map (\<lambda>s. [v, - int s - 1]) ws @ [- v # map gate_var ws])
   | NOT \<Rightarrow> (case ws of [] \<Rightarrow> Inl UndefinedBehaviour
              | s # _ \<Rightarrow> Inr [[- v, - int s - 1], [v, gate_var s]])
   | MULIN \<Rightarrow> Inl (CircuitException ''Multivalued inputs should have been removed by then.'')
   | _ \<Rightarrow> Inr [])"

primrec clauses_loop :: "'m bool_circuit_scheme \<Rightarrow> gate_t list \<Rightarrow> int list list \<Rightarrow> exn + int list list" where
  "clauses_loop c [] acc = Inr acc"
| "clauses_loop c (i # is) acc = bind_result (gate_clauses c i) (\<lambda>cs. clauses_loop c is (acc @ cs))"

definition TseytinCNF :: "'m bool_circuit_scheme \<Rightarrow> gate_t \<Rightarrow> exn + int list list" where
  "TseytinCNF c g = bind_result (clauses_loop c [0..<length (gates c)] []) (\<lambda>cs. Inr (cs @ [[gate_var g]]))"

text \<open>The weights and the comments: variable, UUID and probability of each input, in gate order.\<close>

definition tseytinVariableMapping :: "'m bool_circuit_scheme \<Rightarrow> (int \<times> uuid \<times> real) list" where
  "tseytinVariableMapping c =
     map (\<lambda>i. (gate_var i, (case id2uuid c i of None \<Rightarrow> [] | Some u \<Rightarrow> u), b_getProb c i))
       (sorted_list_of_set (b_inputs c))"

section \<open>Satisfaction\<close>

definition lit_true :: "(gate_t \<Rightarrow> bool) \<Rightarrow> int \<Rightarrow> bool" where
  "lit_true v x = (if x > 0 then v (nat (x - 1)) else \<not> v (nat (- x - 1)))"

definition sat :: "(gate_t \<Rightarrow> bool) \<Rightarrow> int list list \<Rightarrow> bool" where
  "sat v cs \<longleftrightarrow> (\<forall>cl \<in> set cs. \<exists>x \<in> set cl. lit_true v x)"

lemma lit_true_simps [simp]:
  "lit_true v (gate_var s) = v s" "lit_true v (- gate_var s) = (\<not> v s)"
  "lit_true v (- int s - 1) = (\<not> v s)"
  by (simp_all add: lit_true_def gate_var_def)

lemma sat_simps [simp]: "sat v []" "sat v (cl # cs) \<longleftrightarrow> (\<exists>x \<in> set cl. lit_true v x) \<and> sat v cs"
  "sat v (cs @ ds) \<longleftrightarrow> sat v cs \<and> sat v ds" "sat v (map f xs) \<longleftrightarrow> (\<forall>x \<in> set xs. \<exists>l \<in> set (f x). lit_true v l)"
  by (auto simp: sat_def)

text \<open>What the clauses of one gate say.\<close>

definition gate_eq_ok :: "'m bool_circuit_scheme \<Rightarrow> (gate_t \<Rightarrow> bool) \<Rightarrow> gate_t \<Rightarrow> bool" where
  "gate_eq_ok c v i \<longleftrightarrow> (case getGateType c i of
     AND \<Rightarrow> v i = (\<forall>s \<in> set (getWires c i). v s)
   | OR \<Rightarrow> v i = (\<exists>s \<in> set (getWires c i). v s)
   | NOT \<Rightarrow> v i = (\<not> v (hd (getWires c i)))
   | _ \<Rightarrow> True)"

lemma gate_clauses_sat: "gate_clauses c i = Inr cs \<Longrightarrow> sat v cs \<longleftrightarrow> gate_eq_ok c v i"
  by (auto simp: gate_clauses_def gate_eq_ok_def Let_def split: BooleanGate.splits list.splits)

lemma clauses_loop_sat:
  "clauses_loop c is acc = Inr cs \<Longrightarrow> sat v cs \<longleftrightarrow> sat v acc \<and> (\<forall>i \<in> set is. gate_eq_ok c v i)"
proof (induction "is" arbitrary: acc)
  case (Cons i "is")
  then obtain ds where ds: "gate_clauses c i = Inr ds" "clauses_loop c is (acc @ ds) = Inr cs"
    by (auto simp: bind_result_Inr_iff)
  from Cons.IH[OF ds(2)] gate_clauses_sat[OF ds(1), of v] show ?case by auto
qed simp

lemma clauses_loop_total:
  "\<forall>i \<in> set is. \<exists>cs. gate_clauses c i = Inr cs \<Longrightarrow> \<exists>cs. clauses_loop c is acc = Inr cs"
  by (induction "is" arbitrary: acc) auto

text \<open>If every gate agrees with its wires, every gate has its value in the world of the true inputs.\<close>

lemma gate_eqs_determine:
  assumes eqs: "\<forall>i < length (gates c). gate_eq_ok c v i" and mul: "MULIN \<notin> set (gates c)"
  shows "depth_ok d c g \<Longrightarrow> v g = bval d c {u. u < length (gates c) \<and> gates c ! u = IN \<and> v u} g"
proof (induction d arbitrary: g)
  case (Suc d)
  let ?A = "{u. u < length (gates c) \<and> gates c ! u = IN \<and> v u}"
  have g: "g < length (gates c)" using Suc.prems by simp
  have w: "v w = bval d c ?A w"
    if "getGateType c g = AND \<or> getGateType c g = OR \<or> getGateType c g = NOT" "w \<in> set (getWires c g)" for w
    by (rule Suc.IH[OF depth_ok_wires[OF Suc.prems that]])
  have "getGateType c g \<noteq> MULIN" using mul g by (metis getGateType_def nth_mem)
  moreover have "gate_eq_ok c v g" using eqs g by simp
  moreover have "hd (getWires c g) \<in> set (getWires c g)" if "getGateType c g = NOT" using Suc.prems that by simp
  ultimately show ?case using w g Suc.prems
    by (auto simp: gate_eq_ok_def getGateType_def[symmetric] split: BooleanGate.splits)
qed simp

lemma values_are_gate_eqs:
  assumes "depth_ok (Suc d) c i" "\<forall>h < length (gates c). v h = bval (Suc d) c A h" "wf_bool c"
  shows "gate_eq_ok c v i"
proof -
  have i: "i < length (gates c)" using assms(1) by simp
  have w: "v w = bval d c A w"
    if "getGateType c i = AND \<or> getGateType c i = OR \<or> getGateType c i = NOT" "w \<in> set (getWires c i)" for w
    using assms(2) bval_Suc[OF depth_ok_wires[OF assms(1) that], of A] wf_bool_wires[OF assms(3) i] that by auto
  have "hd (getWires c i) \<in> set (getWires c i)" if "getGateType c i = NOT" using assms(1) that by simp
  then show ?thesis using w assms(1,2) i by (auto simp: gate_eq_ok_def split: BooleanGate.splits)
qed

text \<open>The assignments that satisfy the encoding are exactly the extensions, gate by gate, of the
  worlds in which the root is true: each world of the inputs has one assignment that agrees with
  the circuit, and it is a model precisely when the circuit is true there.\<close>

lemma tseytin_models:
  assumes wf: "wf_bool c" and ok: "\<forall>h < length (gates c). depth_ok d c h" and g: "g < length (gates c)"
    and mul: "MULIN \<notin> set (gates c)"
  shows "\<exists>cs. TseytinCNF c g = Inr cs \<and>
    (\<forall>v. sat v cs \<longleftrightarrow>
      (let A = {u. u < length (gates c) \<and> gates c ! u = IN \<and> v u}
       in bval d c A g \<and> (\<forall>h < length (gates c). v h = bval d c A h)))"
proof -
  obtain e where e: "d = Suc e" using ok g by (cases d) auto
  have "\<exists>cs. gate_clauses c i = Inr cs" if "i < length (gates c)" for i
  proof -
    have "depth_ok d c i" using ok that by blast
    moreover have "getGateType c i \<noteq> MULIN" using mul that by (metis getGateType_def nth_mem)
    ultimately show ?thesis unfolding e
      by (auto simp: gate_clauses_def Let_def split: BooleanGate.splits list.splits)
  qed
  then obtain cs where cs: "clauses_loop c [0..<length (gates c)] [] = Inr cs"
    using clauses_loop_total[of "[0..<length (gates c)]" c] by fastforce
  have "sat v (cs @ [[gate_var g]]) \<longleftrightarrow>
      (let A = {u. u < length (gates c) \<and> gates c ! u = IN \<and> v u}
       in bval d c A g \<and> (\<forall>h < length (gates c). v h = bval d c A h))" for v
  proof -
    let ?A = "{u. u < length (gates c) \<and> gates c ! u = IN \<and> v u}"
    have "(\<forall>i < length (gates c). gate_eq_ok c v i) \<longleftrightarrow> (\<forall>h < length (gates c). v h = bval d c ?A h)"
      using gate_eqs_determine[OF _ mul] values_are_gate_eqs[of e c _ v ?A] ok wf unfolding e by blast
    then show ?thesis using clauses_loop_sat[OF cs, of v] g by (auto simp: Let_def)
  qed
  then show ?thesis using cs by (auto simp: TseytinCNF_def)
qed

section \<open>Weighted model counting\<close>

text \<open>
  What a counter does with the weight lines: every assignment of the variables (the set of the true
  ones) that satisfies the clauses counts with the product of the weights of the inputs; the other
  variables have no weight line and count 1.
\<close>

definition weighted_count :: "'m bool_circuit_scheme \<Rightarrow> int list list \<Rightarrow> real" where
  "weighted_count c cs = (\<Sum>S \<in> Pow {..<length (gates c)}. of_bool (sat (\<lambda>i. i \<in> S) cs) *
     world_weight (b_getProb c) {u. u < length (gates c) \<and> gates c ! u = IN} S)"

text \<open>C10: The weighted model count of the Tseytin encoding is the probability of the circuit: the
  auxiliary variables of the gates neither add a model nor lose one.\<close>

theorem tseytin_count_correct:
  assumes wf: "wf_bool c" and ok: "\<forall>h < length (gates c). depth_ok d c h" and g: "g < length (gates c)"
    and mul: "MULIN \<notin> set (gates c)"
  shows "\<exists>cs. TseytinCNF c g = Inr cs \<and> weighted_count c cs =
    prob_of (b_getProb c) {u. u < length (gates c) \<and> gates c ! u = IN} (\<lambda>A. bval d c A g)"
proof -
  let ?n = "length (gates c)" and ?V = "{u. u < length (gates c) \<and> gates c ! u = IN}"
  let ?w = "world_weight (b_getProb c) ?V"
  obtain cs where cs: "TseytinCNF c g = Inr cs"
    "\<And>v. sat v cs \<longleftrightarrow> bval d c {u. u < ?n \<and> gates c ! u = IN \<and> v u} g \<and>
      (\<forall>h < ?n. v h = bval d c {u. u < ?n \<and> gates c ! u = IN \<and> v u} h)"
    using tseytin_models[OF assms] by (auto simp: Let_def)
  define ext where "ext A = {h. h < ?n \<and> bval d c A h}" for A
  obtain e where e: "d = Suc e" using ok g by (cases d) auto
  have ext_in: "h \<in> ext A \<longleftrightarrow> h \<in> A" if "h \<in> ?V" for A h
    using that by (simp add: ext_def e getGateType_def)
  have sat_iff: "S \<subseteq> {..<?n} \<and> sat (\<lambda>i. i \<in> S) cs \<longleftrightarrow> (\<exists>A \<in> Pow ?V. bval d c A g \<and> S = ext A)" for S
  proof
    assume S: "S \<subseteq> {..<?n} \<and> sat (\<lambda>i. i \<in> S) cs"
    let ?A = "{u. u < ?n \<and> gates c ! u = IN \<and> u \<in> S}"
    have "S = ext ?A" using S cs(2)[of "\<lambda>i. i \<in> S"] by (auto simp: ext_def)
    moreover have "bval d c ?A g" using S cs(2)[of "\<lambda>i. i \<in> S"] by simp
    ultimately show "\<exists>A \<in> Pow ?V. bval d c A g \<and> S = ext A" by (intro bexI[of _ ?A]) auto
  next
    assume "\<exists>A \<in> Pow ?V. bval d c A g \<and> S = ext A"
    then obtain A where A: "A \<subseteq> ?V" "bval d c A g" "S = ext A" by blast
    then have "{u. u < ?n \<and> gates c ! u = IN \<and> u \<in> S} = A" using ext_in by blast
    with A cs(2)[of "\<lambda>i. i \<in> S"] show "S \<subseteq> {..<?n} \<and> sat (\<lambda>i. i \<in> S) cs" by (auto simp: ext_def)
  qed
  have inj: "inj_on ext {A \<in> Pow ?V. bval d c A g}"
  proof (rule inj_onI)
    fix A B assume AB: "A \<in> {A \<in> Pow ?V. bval d c A g}" "B \<in> {A \<in> Pow ?V. bval d c A g}" "ext A = ext B"
    then have "A \<subseteq> ?V" "B \<subseteq> ?V" by simp_all
    with AB(3) show "A = B" using ext_in by blast
  qed
  have w: "?w (ext A) = ?w A" for A
    unfolding world_weight_def by (rule prod.cong) (simp_all only: ext_in)
  have "weighted_count c cs = (\<Sum>S \<in> {S \<in> Pow {..<?n}. sat (\<lambda>i. i \<in> S) cs}. ?w S)"
    unfolding weighted_count_def by (rule sum.mono_neutral_cong_right) auto
  also have "{S \<in> Pow {..<?n}. sat (\<lambda>i. i \<in> S) cs} = ext ` {A \<in> Pow ?V. bval d c A g}"
    using sat_iff by auto
  also have "(\<Sum>S \<in> ext ` {A \<in> Pow ?V. bval d c A g}. ?w S) = (\<Sum>A \<in> {A \<in> Pow ?V. bval d c A g}. ?w A)"
    unfolding sum.reindex[OF inj] by (simp add: w)
  also have "\<dots> = prob_of (b_getProb c) ?V (\<lambda>A. bval d c A g)"
    unfolding prob_of_def expect_def by (rule sum.mono_neutral_cong_left) auto
  finally show ?thesis using cs(1) by blast
qed

lemma tseytin_count_correct_witness:
  "\<exists>cs. TseytinCNF example_bc 6 = Inr cs \<and> weighted_count example_bc cs =
    prob_of (b_getProb example_bc) {u. u < length (gates example_bc) \<and> gates example_bc ! u = IN} (\<lambda>A. bval 4 example_bc A 6)"
proof (rule tseytin_count_correct[OF wf_example_bc])
  have "\<forall>h \<in> set [0..<7]. depth_ok 4 example_bc h"
    by (simp add: example_bc_def empty_bool_circuit_def getGateType_def getWires_def numeral_eq_Suc)
  then show "\<forall>h < length (gates example_bc). depth_ok 4 example_bc h" by (simp add: example_bc_def)
qed (simp_all add: example_bc_def)

end
