(* ===== verification/BlockProb.thy ===== *)
theory BlockProb
  imports WorldProb
begin

text \<open>
  Independent blocks: the probability space of block-independent databases.  A variable has a list
  of outcomes, each a set of atoms that it makes true and its probability; the outcomes of one
  variable exclude each other, different variables are independent.  \<open>bexp blk vs f\<close> is the
  expectation of f, \<open>worlds blk vs\<close> the worlds of non-zero probability.  A Boolean variable is the
  block with the outcomes \<open>{x}\<close> and \<open>{}\<close>, which gives back the space of \<open>WorldProb\<close>.
\<close>

type_synonym block = "(nat set \<times> real) list"

primrec bexp :: "(nat \<Rightarrow> block) \<Rightarrow> nat list \<Rightarrow> (nat set \<Rightarrow> real) \<Rightarrow> real" where
  "bexp blk [] f = f {}"
| "bexp blk (x # xs) f = (\<Sum>(S, q) \<leftarrow> blk x. q * bexp blk xs (\<lambda>A. f (S \<union> A)))"

primrec worlds :: "(nat \<Rightarrow> block) \<Rightarrow> nat list \<Rightarrow> nat set set" where
  "worlds blk [] = {{}}"
| "worlds blk (x # xs) = {S \<union> A | S A q. (S, q) \<in> set (blk x) \<and> q \<noteq> 0 \<and> A \<in> worlds blk xs}"

text \<open>\<open>owner a\<close> is the variable that decides the atom a.\<close>

definition blocks_ok :: "(nat \<Rightarrow> block) \<Rightarrow> (nat \<Rightarrow> nat) \<Rightarrow> nat list \<Rightarrow> bool" where
  "blocks_ok blk owner xs \<longleftrightarrow> distinct xs \<and>
     (\<forall>x \<in> set xs. (\<Sum>(S, q) \<leftarrow> blk x. q) = 1 \<and> (\<forall>(S, q) \<in> set (blk x). \<forall>a \<in> S. owner a = x))"

text \<open>f looks at the atoms owned by the variables of W only.\<close>

definition dep :: "(nat \<Rightarrow> nat) \<Rightarrow> (nat set \<Rightarrow> 'b) \<Rightarrow> nat set \<Rightarrow> bool" where
  "dep owner f W \<longleftrightarrow> (\<forall>A B. (\<forall>a. owner a \<in> W \<longrightarrow> (a \<in> A \<longleftrightarrow> a \<in> B)) \<longrightarrow> f A = f B)"

lemma depI: "(\<And>A B. (\<And>a. owner a \<in> W \<Longrightarrow> a \<in> A \<longleftrightarrow> a \<in> B) \<Longrightarrow> f A = f B) \<Longrightarrow> dep owner f W"
  unfolding dep_def by blast

lemma depD: "dep owner f W \<Longrightarrow> (\<And>a. owner a \<in> W \<Longrightarrow> a \<in> A \<longleftrightarrow> a \<in> B) \<Longrightarrow> f A = f B"
  unfolding dep_def by blast

lemma dep_mono: "dep owner f W \<Longrightarrow> W \<subseteq> W' \<Longrightarrow> dep owner f W'"
  unfolding dep_def by blast

lemma dep_const [simp]: "dep owner (\<lambda>_. v) W"
  by (simp add: dep_def)

lemma dep_comp: "dep owner f W \<Longrightarrow> dep owner (\<lambda>A. h (f A)) W"
  unfolding dep_def by metis

lemma dep_comp2: "dep owner f W \<Longrightarrow> dep owner g W \<Longrightarrow> dep owner (\<lambda>A. h (f A) (g A)) W"
  unfolding dep_def by metis

lemma dep_prod_list: "(\<And>x. x \<in> set xs \<Longrightarrow> dep owner (f x) W) \<Longrightarrow> dep owner (\<lambda>A. \<Prod>x \<leftarrow> xs. f x A) W"
  by (induction xs) (simp_all add: dep_comp2[where h = "(*)"])

lemma dep_join: "dep owner f W \<Longrightarrow> dep owner (\<lambda>A. f (S \<union> A)) W"
  unfolding dep_def by (metis Un_iff)

lemma dep_skip:
  assumes "dep owner f W" "\<forall>a \<in> S. owner a = x" "x \<notin> W"
  shows "f (S \<union> A) = f A"
  by (rule depD[OF assms(1)]) (use assms(2,3) in auto)

lemma bexp_cong: "(\<And>A. A \<in> worlds blk xs \<Longrightarrow> f A = g A) \<Longrightarrow> bexp blk xs f = bexp blk xs g"
proof (induction xs arbitrary: f g)
  case (Cons x xs)
  have "(case b of (S, q) \<Rightarrow> q * bexp blk xs (\<lambda>A. f (S \<union> A))) = (case b of (S, q) \<Rightarrow> q * bexp blk xs (\<lambda>A. g (S \<union> A)))"
    if b: "b \<in> set (blk x)" for b
  proof (cases b)
    case (Pair S q)
    show ?thesis
    proof (cases "q = 0")
      case False
      have "bexp blk xs (\<lambda>A. f (S \<union> A)) = bexp blk xs (\<lambda>A. g (S \<union> A))"
        by (rule Cons.IH) (use Cons.prems b Pair False in auto)
      then show ?thesis by (simp add: Pair)
    qed (simp add: Pair)
  qed
  then show ?case by (auto intro!: arg_cong[where f = sum_list])
qed simp

lemma bexp_add: "bexp blk xs (\<lambda>A. f A + g A) = bexp blk xs f + bexp blk xs g"
  by (induction xs arbitrary: f g) (simp_all add: case_prod_unfold distrib_left sum_list_addf)

lemma bexp_scale: "bexp blk xs (\<lambda>A. r * f A) = r * bexp blk xs f"
  by (induction xs arbitrary: f) (simp_all add: case_prod_unfold mult.left_commute[of _ r] sum_list_const_mult)

lemma bexp_diff: "bexp blk xs (\<lambda>A. f A - g A) = bexp blk xs f - bexp blk xs g"
  using bexp_add[of blk xs f "\<lambda>A. - 1 * g A"] bexp_scale[of blk xs "- 1" g] by simp

lemma blocks_ok_Cons:
  assumes "blocks_ok blk owner (x # xs)"
  shows "blocks_ok blk owner xs" "(\<Sum>(S, q) \<leftarrow> blk x. q) = 1" "x \<notin> set xs"
    "(S, q) \<in> set (blk x) \<Longrightarrow> a \<in> S \<Longrightarrow> owner a = x"
  using assms by (auto simp: blocks_ok_def)

lemma worlds_atoms: "blocks_ok blk owner xs \<Longrightarrow> A \<in> worlds blk xs \<Longrightarrow> a \<in> A \<Longrightarrow> owner a \<in> set xs"
proof (induction xs arbitrary: A)
  case (Cons z zs)
  then obtain T B q where "A = T \<union> B" "(T, q) \<in> set (blk z)" "B \<in> worlds blk zs" by auto
  with Cons.IH[of B] Cons.prems(3) blocks_ok_Cons[OF Cons.prems(1)] show ?case by fastforce
qed simp

lemma weighted_const:
  fixes v :: real
  assumes "(\<Sum>(S, q) \<leftarrow> b. q) = 1" "\<And>S q. (S, q) \<in> set b \<Longrightarrow> h S = v"
  shows "(\<Sum>(S, q) \<leftarrow> b. q * h S) = v"
proof -
  have "(\<Sum>(S, q) \<leftarrow> b. q * h S) = (\<Sum>(S, q) \<leftarrow> b. v * q)"
    by (rule arg_cong[where f = sum_list], rule map_cong) (auto simp: assms(2))
  also have "\<dots> = v * (\<Sum>(S, q) \<leftarrow> b. q)" by (simp add: case_prod_unfold sum_list_const_mult)
  finally show ?thesis using assms(1) by simp
qed

text \<open>A variable that f does not look at drops out.\<close>

lemma bexp_skip:
  assumes "blocks_ok blk owner (x # xs)" "dep owner f W" "x \<notin> W"
  shows "bexp blk (x # xs) f = bexp blk xs f"
  unfolding bexp.simps
proof (rule weighted_const[OF blocks_ok_Cons(2)[OF assms(1)]])
  fix S q assume "(S, q) \<in> set (blk x)"
  then have "\<forall>a \<in> S. owner a = x" using blocks_ok_Cons(4)[OF assms(1)] by blast
  then show "bexp blk xs (\<lambda>A. f (S \<union> A)) = bexp blk xs f" using dep_skip[OF assms(2) _ assms(3)] by simp
qed

lemma bexp_const:
  assumes "blocks_ok blk owner xs" "dep owner f {}"
  shows "bexp blk xs f = f {}"
  using assms(1)
proof (induction xs)
  case (Cons x xs)
  then show ?case using bexp_skip[OF Cons.prems assms(2)] blocks_ok_Cons(1)[OF Cons.prems] by simp
qed simp

text \<open>A function of one variable sums over its outcomes.\<close>

lemma bexp_single:
  "blocks_ok blk owner xs \<Longrightarrow> dep owner f {x} \<Longrightarrow> x \<in> set xs \<Longrightarrow> bexp blk xs f = (\<Sum>(S, q) \<leftarrow> blk x. q * f S)"
proof (induction xs)
  case (Cons y ys)
  show ?case
  proof (cases "x = y")
    case True
    have "bexp blk ys (\<lambda>A. f (S \<union> A)) = f S" for S
    proof -
      have "bexp blk ys (\<lambda>A. f (S \<union> A)) = bexp blk ys (\<lambda>A. f (S \<union> {}))"
      proof (rule bexp_cong)
        fix A assume A: "A \<in> worlds blk ys"
        have "\<forall>a \<in> A. owner a \<in> set ys"
          using worlds_atoms[OF blocks_ok_Cons(1)[OF Cons.prems(1)] A] by blast
        then show "f (S \<union> A) = f (S \<union> {})"
          by (intro depD[OF Cons.prems(2)]) (use True blocks_ok_Cons(3)[OF Cons.prems(1)] in auto)
      qed
      also have "\<dots> = f (S \<union> {})"
        by (rule bexp_const[OF blocks_ok_Cons(1)[OF Cons.prems(1)]]) simp
      finally show ?thesis by simp
    qed
    then show ?thesis using True by simp
  next
    case False
    then show ?thesis using Cons bexp_skip[OF Cons.prems(1,2)] blocks_ok_Cons(1)[OF Cons.prems(1)] by simp
  qed
qed simp

text \<open>Functions of disjoint variables are independent.\<close>

lemma bexp_indep:
  "blocks_ok blk owner xs \<Longrightarrow> dep owner f W1 \<Longrightarrow> dep owner g W2 \<Longrightarrow> W1 \<inter> W2 = {} \<Longrightarrow>
   bexp blk xs (\<lambda>A. f A * g A) = bexp blk xs f * bexp blk xs g"
proof (induction xs arbitrary: f g)
  case (Cons x xs)
  note ok = blocks_ok_Cons[OF Cons.prems(1)]
  have own: "\<forall>a \<in> S. owner a = x" if "(S, q) \<in> set (blk x)" for S q using ok(4) that by blast
  have split: "bexp blk xs (\<lambda>A. f (S \<union> A) * g (S \<union> A)) = bexp blk xs (\<lambda>A. f (S \<union> A)) * bexp blk xs (\<lambda>A. g (S \<union> A))" for S
    by (rule Cons.IH[OF ok(1) dep_join[OF Cons.prems(2)] dep_join[OF Cons.prems(3)] Cons.prems(4)])
  show ?case
  proof (cases "x \<in> W1")
    case True
    then have x2: "x \<notin> W2" using Cons.prems(4) by auto
    have "bexp blk (x # xs) (\<lambda>A. f A * g A) = (\<Sum>(S, q) \<leftarrow> blk x. q * bexp blk xs (\<lambda>A. f (S \<union> A)) * bexp blk xs g)"
      unfolding bexp.simps by (rule arg_cong[where f = sum_list], rule map_cong)
        (use dep_skip[OF Cons.prems(3) own x2] in \<open>auto simp: split\<close>)
    then show ?thesis unfolding bexp_skip[OF Cons.prems(1,3) x2]
      by (simp add: case_prod_unfold sum_list_mult_const)
  next
    case False
    have "bexp blk (x # xs) (\<lambda>A. f A * g A) = (\<Sum>(S, q) \<leftarrow> blk x. bexp blk xs f * (q * bexp blk xs (\<lambda>A. g (S \<union> A))))"
      unfolding bexp.simps by (rule arg_cong[where f = sum_list], rule map_cong)
        (use dep_skip[OF Cons.prems(2) own False] in \<open>auto simp: split\<close>)
    then show ?thesis unfolding bexp_skip[OF Cons.prems(1,2) False]
      by (simp add: case_prod_unfold sum_list_const_mult)
  qed
qed simp

lemma bexp_indep_list:
  assumes "blocks_ok blk owner vs"
  shows "(\<And>x. x \<in> set xs \<Longrightarrow> dep owner (f x) (W x)) \<Longrightarrow> sorted_wrt (\<lambda>x y. W x \<inter> W y = {}) xs \<Longrightarrow>
    bexp blk vs (\<lambda>A. \<Prod>x \<leftarrow> xs. f x A) = (\<Prod>x \<leftarrow> xs. bexp blk vs (f x))"
proof (induction xs)
  case Nil
  then show ?case using bexp_const[OF assms, of "\<lambda>_. 1"] by simp
next
  case (Cons x xs)
  have "dep owner (\<lambda>A. \<Prod>y \<leftarrow> xs. f y A) (\<Union>y \<in> set xs. W y)"
    by (rule dep_prod_list) (rule dep_mono[OF Cons.prems(1)], auto)
  moreover have "W x \<inter> (\<Union>y \<in> set xs. W y) = {}" using Cons.prems(2) by auto
  ultimately have "bexp blk vs (\<lambda>A. f x A * (\<Prod>y \<leftarrow> xs. f y A)) = bexp blk vs (f x) * bexp blk vs (\<lambda>A. \<Prod>y \<leftarrow> xs. f y A)"
    using bexp_indep[OF assms Cons.prems(1)] by simp
  then show ?case using Cons by simp
qed

text \<open>Boolean variables only: the two spaces agree.\<close>

lemma bexp_bernoulli:
  assumes "\<And>x. x \<in> set xs \<Longrightarrow> blk x = [({x}, p x), ({}, 1 - p x)]"
  shows "distinct xs \<Longrightarrow> bexp blk xs f = expect p (set xs) f"
  using assms
proof (induction xs arbitrary: f)
  case (Cons x xs)
  then show ?case by (simp add: expect_insert)
qed simp

end
