(* ===== verification/IndepEval.thy ===== *)
theory IndepEval
  imports BoolCircuit BlockProb
begin

text \<open>
  \<open>BooleanCircuit::independentEvaluation\<close> (\<open>src/BooleanCircuit.cpp\<close>): linear-time probability of
  circuits whose variables occur once, with the certified d-DNNF islands inside of which sharing is
  allowed, the constant inputs (probability 0 or 1) that are not variables, and the multivalued
  inputs grouped by their key variable.

  \<open>ind_eval\<close> is the recursive walk, \<open>island_loop\<close> the iterative one.  The result of both is an
  exception, or a value with the new sets \<open>seen\<close> and \<open>memo\<close>.
\<close>

type_synonym eval_state = "gate_t set \<times> (gate_t \<rightharpoonup> real)"
type_synonym evaluator = "gate_t \<Rightarrow> eval_state \<Rightarrow> (exn + real \<times> eval_state) option"

definition not_independent :: exn where "not_independent = CircuitException ''Not an independent circuit''"

definition constant_prob :: "real \<Rightarrow> bool" where "constant_prob p \<longleftrightarrow> p = 0 \<or> p = 1"

section \<open>The read-once walk\<close>

primrec and_loop :: "evaluator \<Rightarrow> gate_t list \<Rightarrow> real \<Rightarrow> eval_state \<Rightarrow> (exn + real \<times> eval_state) option" where
  "and_loop ev [] r st = Some (Inr (r, st))"
| "and_loop ev (x # xs) r st = bind_run (ev x st) (\<lambda>(v, st'). and_loop ev xs (r * v) st')"

text \<open>The map \<open>groups\<close>, as an association list; \<open>+=\<close> starts from 0.\<close>

definition group_get :: "gate_t \<Rightarrow> (gate_t \<times> real) list \<Rightarrow> real" where
  "group_get k gs = (case map_of gs k of None \<Rightarrow> 0 | Some v \<Rightarrow> v)"

primrec group_put :: "gate_t \<Rightarrow> real \<Rightarrow> (gate_t \<times> real) list \<Rightarrow> (gate_t \<times> real) list" where
  "group_put k v [] = [(k, v)]"
| "group_put k v (g # gs) = (if fst g = k then (k, v) # gs else g # group_put k v gs)"

text \<open>The loop of the OR case: \<open>lm\<close> is \<open>local_mulins\<close>, \<open>ms\<close> is \<open>mulin_seen\<close>.\<close>

primrec or_loop :: "evaluator \<Rightarrow> 'm bool_circuit_scheme \<Rightarrow> gate_t list \<Rightarrow> (gate_t \<times> real) list \<Rightarrow>
    gate_t set \<Rightarrow> (gate_t \<times> nat) set \<Rightarrow> eval_state \<Rightarrow> (exn + (gate_t \<times> real) list \<times> eval_state) option" where
  "or_loop ev c [] groups lm ms st = Some (Inr (groups, st))"
| "or_loop ev c (x # xs) groups lm ms st =
     (if getGateType c x = MULIN then
        (case getWires c x of
           [] \<Rightarrow> Some (Inl UndefinedBehaviour)
         | k # _ \<Rightarrow>
             (if k \<notin> lm \<and> k \<in> fst st then Some (Inl not_independent)
              else (let st' = (if k \<notin> lm then (insert k (fst st), snd st) else st);
                        i = (k, getInfo c x);
                        groups' = (if i \<notin> ms then group_put k (group_get k groups + b_getProb c x) groups else groups)
                    in or_loop ev c xs groups' (insert k lm) (insert i ms) st')))
      else bind_run (ev x st) (\<lambda>(v, st'). or_loop ev c xs (group_put x v groups) lm ms st'))"

definition or_value :: "(gate_t \<times> real) list \<Rightarrow> real" where
  "or_value groups = 1 - (\<Prod>(k, v) \<leftarrow> groups. 1 - v)"

text \<open>The switch over the gate type, for a gate that is neither memoised nor certified.\<close>

definition read_once_step :: "evaluator \<Rightarrow> 'm bool_circuit_scheme \<Rightarrow> evaluator" where
  "read_once_step ev c g st = (case getGateType c g of
     AND \<Rightarrow> and_loop ev (getWires c g) 1 st
   | OR \<Rightarrow> bind_run (or_loop ev c (getWires c g) [] {} {} st) (\<lambda>(groups, st'). Some (Inr (or_value groups, st')))
   | NOT \<Rightarrow> (case getWires c g of
       [] \<Rightarrow> Some (Inl UndefinedBehaviour)
     | w # _ \<Rightarrow> bind_run (ev w st) (\<lambda>(v, st'). Some (Inr (1 - v, st'))))
   | IN \<Rightarrow>
       (if constant_prob (b_getProb c g) then Some (Inr (b_getProb c g, st))
        else if g \<in> fst st then Some (Inl not_independent)
        else Some (Inr (b_getProb c g, (insert g (fst st), snd st))))
   | MULIN \<Rightarrow> (case getWires c g of
       [] \<Rightarrow> Some (Inl UndefinedBehaviour)
     | k # _ \<Rightarrow>
         (if k \<in> fst st then Some (Inl not_independent)
          else Some (Inr (b_getProb c g, (insert k (fst st), snd st)))))
   | _ \<Rightarrow> Some (Inl (CircuitException ''Bad gate'')))"

text \<open>The result is cached when the walk consumed no variable.\<close>

definition cache_result :: "gate_t \<Rightarrow> nat \<Rightarrow> real \<times> eval_state \<Rightarrow> (exn + real \<times> eval_state) option" where
  "cache_result g seen_before r =
     (let (v, (seen, memo)) = r
      in Some (Inr (v, (seen, if card seen = seen_before then memo(g \<mapsto> v) else memo))))"

section \<open>Certified islands\<close>

text \<open>A certified AND multiplies, a certified OR adds; a NOT complements its first wire.\<close>

definition island_value :: "'m bool_circuit_scheme \<Rightarrow> (gate_t \<rightharpoonup> real) \<Rightarrow> gate_t \<Rightarrow> exn + real" where
  "island_value c val g =
     (let vs = map (\<lambda>w. the (val w)) (getWires c g)
      in if getGateType c g = NOT then (case vs of [] \<Rightarrow> Inl UndefinedBehaviour | v # _ \<Rightarrow> Inr (1 - v))
         else if getGateType c g = AND then Inr (prod_list vs) else Inr (sum_list vs))"

text \<open>One iteration for the gate on top of the stack: an exception, a value for the gate (with the new
  state), or wires to push.  \<open>imv\<close> is \<open>island_mulvars\<close>.\<close>

datatype island_result =
  IslandValue real "gate_t set" eval_state
| IslandPush "gate_t list"

definition island_step :: "evaluator \<Rightarrow> 'm bool_circuit_scheme \<Rightarrow> gate_t \<Rightarrow> (gate_t \<rightharpoonup> real) \<Rightarrow> gate_t set \<Rightarrow>
    eval_state \<Rightarrow> (exn + island_result) option" where
  "island_step ev c g val imv st =
     (if getGateType c g = IN then
        (let p = b_getProb c g in
         if \<not> constant_prob p then
           (if g \<in> fst st then Some (Inl not_independent)
            else Some (Inr (IslandValue p imv (insert g (fst st), snd st))))
         else Some (Inr (IslandValue p imv st)))
      else if getGateType c g = MULIN then
        (case getWires c g of
           [] \<Rightarrow> Some (Inl UndefinedBehaviour)
         | k # _ \<Rightarrow>
             (if k \<notin> imv then
                (if k \<in> fst st then Some (Inl not_independent)
                 else Some (Inr (IslandValue (b_getProb c g) (insert k imv) (insert k (fst st), snd st))))
              else Some (Inr (IslandValue (b_getProb c g) imv st))))
      else if getGateType c g \<noteq> NOT \<and> \<not> isDNNFCertified c g then
        bind_run (ev g st) (\<lambda>(v, st'). Some (Inr (IslandValue v imv st')))
      else
        (let missing = filter (\<lambda>w. val w = None) (getWires c g)
         in if missing \<noteq> [] then Some (Inr (IslandPush missing))
            else (case island_value c val g of
                Inl e \<Rightarrow> Some (Inl e)
              | Inr v \<Rightarrow> Some (Inr (IslandValue v imv st)))))"

partial_function (option) island_loop :: "evaluator \<Rightarrow> 'm bool_circuit_scheme \<Rightarrow> gate_t list \<Rightarrow>
    (gate_t \<rightharpoonup> real) \<Rightarrow> gate_t set \<Rightarrow> eval_state \<Rightarrow> (exn + (gate_t \<rightharpoonup> real) \<times> eval_state) option" where
  "island_loop ev c stack val imv st = (case stack of
     [] \<Rightarrow> Some (Inr (val, st))
   | g # rest \<Rightarrow>
       (if val g \<noteq> None then island_loop ev c rest val imv st
        else (case island_step ev c g val imv st of
            None \<Rightarrow> None
          | Some r \<Rightarrow> (case r of
              Inl e \<Rightarrow> Some (Inl e)
            | Inr (IslandValue v imv' st') \<Rightarrow> island_loop ev c rest (val(g \<mapsto> v)) imv' st'
            | Inr (IslandPush ws) \<Rightarrow> island_loop ev c (rev ws @ stack) val imv st))))"

declare island_loop.simps [code]

definition evaluateCertifiedIsland :: "evaluator \<Rightarrow> 'm bool_circuit_scheme \<Rightarrow> evaluator" where
  "evaluateCertifiedIsland ev c rt st =
     bind_run (island_loop ev c [rt] Map.empty {} st) (\<lambda>(val, st').
       case val rt of None \<Rightarrow> Some (Inl UndefinedBehaviour)
       | Some v \<Rightarrow> cache_result rt (card (fst st)) (v, st'))"

section \<open>The evaluator\<close>

text \<open>\<open>independentEvaluationInternal\<close>, with the stack depth that is left.\<close>

primrec ind_eval :: "nat \<Rightarrow> 'm bool_circuit_scheme \<Rightarrow> evaluator" where
  "ind_eval 0 c g st = Some (Inl stack_error)"
| "ind_eval (Suc d) c g st =
     (case snd st g of
        Some v \<Rightarrow> Some (Inr (v, st))
      | None \<Rightarrow>
          (if isDNNFCertified c g then evaluateCertifiedIsland (ind_eval d c) c g st
           else bind_run (read_once_step (ind_eval d c) c g st) (cache_result g (card (fst st)))))"

definition independentEvaluation :: "nat \<Rightarrow> 'm bool_circuit_scheme \<Rightarrow> gate_t \<Rightarrow> (exn + real) option" where
  "independentEvaluation d c g = bind_run (ind_eval d c g ({}, Map.empty)) (\<lambda>(v, _). Some (Inr v))"

end
