(* ===== verification/IndepSound.thy ===== *)
theory IndepSound
  imports IndepEval
begin

text \<open>
  The read-once evaluation of \<open>IndepEval\<close> is exact: on every acyclic circuit whose certificates are
  truthful it either reports that the circuit is not independent or returns the probability in the
  block-independent space of the circuit, and on read-once circuits it does return.
\<close>

section \<open>The probability space of a circuit\<close>

text \<open>The alternatives of a key variable, and the block of a gate: the alternatives if it is a key, a
  Bernoulli variable if it is an input, nothing otherwise.\<close>

definition mulins :: "'m bool_circuit_scheme \<Rightarrow> gate_t \<Rightarrow> gate_t list" where
  "mulins c k = filter (\<lambda>m. getGateType c m = MULIN \<and> getWires c m \<noteq> [] \<and> hd (getWires c m) = k) [0..<length (gates c)]"

definition gate_block :: "'m bool_circuit_scheme \<Rightarrow> gate_t \<Rightarrow> block" where
  "gate_block c x =
     (if mulins c x \<noteq> [] then
        map (\<lambda>m. ({m}, b_getProb c m)) (mulins c x) @ [({}, 1 - (\<Sum>m \<leftarrow> mulins c x. b_getProb c m))]
      else if getGateType c x = IN then [({x}, b_getProb c x), ({}, 1 - b_getProb c x)]
      else [({}, 1)])"

definition gate_owner :: "'m bool_circuit_scheme \<Rightarrow> gate_t \<Rightarrow> gate_t" where
  "gate_owner c a = (if getGateType c a = MULIN \<and> getWires c a \<noteq> [] then hd (getWires c a) else a)"

definition circuit_expect :: "'m bool_circuit_scheme \<Rightarrow> (gate_t set \<Rightarrow> real) \<Rightarrow> real" where
  "circuit_expect c f = bexp (gate_block c) [0..<length (gates c)] f"

definition circuit_prob :: "'m bool_circuit_scheme \<Rightarrow> (gate_t set \<Rightarrow> bool) \<Rightarrow> real" where
  "circuit_prob c \<phi> = circuit_expect c (\<lambda>A. of_bool (\<phi> A))"

definition circuit_worlds :: "'m bool_circuit_scheme \<Rightarrow> gate_t set set" where
  "circuit_worlds c = worlds (gate_block c) [0..<length (gates c)]"

lemma mulins_iff: "m \<in> set (mulins c k) \<longleftrightarrow>
    m < length (gates c) \<and> getGateType c m = MULIN \<and> getWires c m \<noteq> [] \<and> hd (getWires c m) = k"
  by (auto simp: mulins_def)

lemma distinct_mulins [simp]: "distinct (mulins c k)"
  by (simp add: mulins_def)

lemma circuit_blocks_ok: "blocks_ok (gate_block c) (gate_owner c) [0..<length (gates c)]"
proof -
  have "(\<Sum>(S, q) \<leftarrow> gate_block c x. q) = 1" for x
    by (simp add: gate_block_def comp_def)
  moreover have "gate_owner c a = x" if "(S, q) \<in> set (gate_block c x)" "a \<in> S" for S q a x
    using that by (auto simp: gate_block_def gate_owner_def mulins_iff split: if_splits)
  ultimately show ?thesis unfolding blocks_ok_def by fastforce
qed

text \<open>Without multivalued inputs this is the space of independent inputs.\<close>

lemma circuit_prob_bernoulli:
  assumes "MULIN \<notin> set (gates c)"
  shows "circuit_expect c f = expect (b_getProb c) {u. u < length (gates c) \<and> gates c ! u = IN} f"
proof -
  let ?V = "{u. u < length (gates c) \<and> gates c ! u = IN}" and ?xs = "[0..<length (gates c)]"
  have mul: "mulins c x = []" for x
    using assms by (auto simp: mulins_def filter_empty_conv getGateType_def) (metis nth_mem)
  have "bexp (gate_block c) xs f = bexp (gate_block c) (filter (\<lambda>u. gates c ! u = IN) xs) f" for xs
    by (induction xs arbitrary: f) (simp_all add: gate_block_def mul getGateType_def)
  moreover have "bexp (gate_block c) (filter (\<lambda>u. gates c ! u = IN) ?xs) f =
      expect (b_getProb c) (set (filter (\<lambda>u. gates c ! u = IN) ?xs)) f"
    by (rule bexp_bernoulli) (simp_all add: gate_block_def mul getGateType_def)
  ultimately show ?thesis by (simp add: circuit_expect_def)
qed

section \<open>Constants\<close>

text \<open>Inputs of probability 0 or 1 are not variables: in a world of non-zero probability they have their
  constant value.  \<open>norm_world\<close> puts them to it.\<close>

definition const_inputs :: "'m bool_circuit_scheme \<Rightarrow> gate_t set" where
  "const_inputs c = {x. x < length (gates c) \<and> getGateType c x = IN \<and> constant_prob (b_getProb c x) \<and> mulins c x = []}"

definition norm_world :: "'m bool_circuit_scheme \<Rightarrow> gate_t set \<Rightarrow> gate_t set" where
  "norm_world c A = (A - const_inputs c) \<union> {x \<in> const_inputs c. b_getProb c x = 1}"

lemma worlds_owner:
  "blocks_ok blk owner xs \<Longrightarrow> A \<in> worlds blk xs \<Longrightarrow> x \<in> set xs \<Longrightarrow>
   \<exists>S q. (S, q) \<in> set (blk x) \<and> q \<noteq> 0 \<and> (\<forall>a. owner a = x \<longrightarrow> (a \<in> A \<longleftrightarrow> a \<in> S))"
proof (induction xs arbitrary: A)
  case (Cons y ys)
  then obtain S B q where A: "A = S \<union> B" "(S, q) \<in> set (blk y)" "q \<noteq> 0" "B \<in> worlds blk ys" by auto
  note ok = blocks_ok_Cons[OF Cons.prems(1)]
  have B: "\<forall>a \<in> B. owner a \<in> set ys" using worlds_atoms[OF ok(1) A(4)] by blast
  show ?case
  proof (cases "x = y")
    case True
    have "a \<in> A \<longleftrightarrow> a \<in> S" if "owner a = x" for a using A(1) B ok(3) that True by auto
    with A(2,3) True show ?thesis by blast
  next
    case False
    then have "x \<in> set ys" using Cons.prems(3) by simp
    from Cons.IH[OF ok(1) A(4) this] obtain T r where T: "(T, r) \<in> set (blk x)" "r \<noteq> 0"
      "\<forall>a. owner a = x \<longrightarrow> (a \<in> B \<longleftrightarrow> a \<in> T)" by blast
    moreover have "a \<notin> S" if "owner a = x" for a using ok(4)[OF A(2)] that False by auto
    ultimately show ?thesis using A(1) by blast
  qed
qed simp

lemma norm_world_id:
  assumes "A \<in> circuit_worlds c"
  shows "norm_world c A = A"
proof -
  have "x \<in> A \<longleftrightarrow> b_getProb c x = 1" if x: "x \<in> const_inputs c" for x
  proof -
    have blk: "gate_block c x = [({x}, b_getProb c x), ({}, 1 - b_getProb c x)]"
      and own: "gate_owner c x = x" and rng: "x \<in> set [0..<length (gates c)]"
      and cp: "constant_prob (b_getProb c x)"
      using x by (auto simp: const_inputs_def gate_block_def gate_owner_def)
    from worlds_owner[OF circuit_blocks_ok assms[unfolded circuit_worlds_def] rng] own obtain S q where
      "(S, q) \<in> set (gate_block c x)" "q \<noteq> 0" "x \<in> A \<longleftrightarrow> x \<in> S" by blast
    then show ?thesis using blk cp by (auto simp: constant_prob_def)
  qed
  then show ?thesis by (auto simp: norm_world_def)
qed

lemma norm_world_mem:
  "x \<in> norm_world c A \<longleftrightarrow> (if x \<in> const_inputs c then b_getProb c x = 1 else x \<in> A)"
  by (auto simp: norm_world_def)


section \<open>Gate values\<close>

text \<open>The value of a gate as a function of the world, with the constants put to their value.\<close>

definition gate_fun :: "nat \<Rightarrow> 'm bool_circuit_scheme \<Rightarrow> gate_t \<Rightarrow> gate_t set \<Rightarrow> real" where
  "gate_fun D c g A = of_bool (bval D c (norm_world c A) g)"

text \<open>The variables below a gate.\<close>

primrec gvars :: "nat \<Rightarrow> 'm bool_circuit_scheme \<Rightarrow> gate_t \<Rightarrow> gate_t set" where
  "gvars 0 c g = {}"
| "gvars (Suc d) c g =
     (if getGateType c g = IN then (if g \<in> const_inputs c then {} else {g})
      else if getGateType c g = MULIN then {hd (getWires c g)}
      else (\<Union>w \<in> set (getWires c g). gvars d c w))"

text \<open>The conditions on the circuit.  Key variables are only wired to their alternatives, and two
  alternatives of a key differ in their number.\<close>

definition keys_ok :: "'m bool_circuit_scheme \<Rightarrow> bool" where
  "keys_ok c \<longleftrightarrow>
     (\<forall>g < length (gates c). getGateType c g = AND \<or> getGateType c g = OR \<or> getGateType c g = NOT \<longrightarrow>
        (\<forall>w \<in> set (getWires c g). mulins c w = [])) \<and>
     (\<forall>k m m'. m \<in> set (mulins c k) \<longrightarrow> m' \<in> set (mulins c k) \<longrightarrow> getInfo c m = getInfo c m' \<longrightarrow> m = m')"

text \<open>The certificates are truthful: a certified AND is decomposable, a certified OR deterministic.\<close>

definition certs_ok :: "nat \<Rightarrow> 'm bool_circuit_scheme \<Rightarrow> bool" where
  "certs_ok D c \<longleftrightarrow> (\<forall>g < length (gates c). isDNNFCertified c g \<longrightarrow>
     (getGateType c g = AND \<longrightarrow> sorted_wrt (\<lambda>v w. gvars D c v \<inter> gvars D c w = {}) (getWires c g)) \<and>
     (getGateType c g = OR \<longrightarrow>
        sorted_wrt (\<lambda>v w. \<forall>A \<in> circuit_worlds c. \<not> (bval D c A v \<and> bval D c A w)) (getWires c g)))"

lemma bval_gates:
  assumes "depth_ok D c g"
  shows "getGateType c g = AND \<Longrightarrow> bval D c A g \<longleftrightarrow> (\<forall>w \<in> set (getWires c g). bval D c A w)"
    "getGateType c g = OR \<Longrightarrow> bval D c A g \<longleftrightarrow> (\<exists>w \<in> set (getWires c g). bval D c A w)"
    "getGateType c g = NOT \<Longrightarrow> getWires c g = w # ws \<Longrightarrow> bval D c A g \<longleftrightarrow> \<not> bval D c A w"
    "getGateType c g = IN \<Longrightarrow> bval D c A g \<longleftrightarrow> g \<in> A"
    "getGateType c g = MULIN \<Longrightarrow> bval D c A g \<longleftrightarrow> g \<in> A"
proof -
  obtain e where e: "D = Suc e" using assms by (cases D) simp_all
  have w: "bval D c A w = bval e c A w"
    if "getGateType c g = AND \<or> getGateType c g = OR \<or> getGateType c g = NOT" "w \<in> set (getWires c g)" for w
    using bval_Suc[OF depth_ok_wires[OF assms[unfolded e] that]] e by simp
  show "getGateType c g = AND \<Longrightarrow> bval D c A g \<longleftrightarrow> (\<forall>w \<in> set (getWires c g). bval D c A w)"
    "getGateType c g = OR \<Longrightarrow> bval D c A g \<longleftrightarrow> (\<exists>w \<in> set (getWires c g). bval D c A w)"
    "getGateType c g = NOT \<Longrightarrow> getWires c g = w # ws \<Longrightarrow> bval D c A g \<longleftrightarrow> \<not> bval D c A w"
    "getGateType c g = IN \<Longrightarrow> bval D c A g \<longleftrightarrow> g \<in> A"
    "getGateType c g = MULIN \<Longrightarrow> bval D c A g \<longleftrightarrow> g \<in> A"
    using w by (simp_all add: e)
qed

lemma of_bool_prod: "(\<Prod>x \<leftarrow> xs. of_bool (P x) :: real) = of_bool (\<forall>x \<in> set xs. P x)"
  by (induction xs) simp_all

lemma of_bool_prod_not: "(\<Prod>x \<leftarrow> xs. 1 - of_bool (P x) :: real) = 1 - of_bool (\<exists>x \<in> set xs. P x)"
  by (induction xs) auto

lemma gate_fun_AND:
  "depth_ok D c g \<Longrightarrow> getGateType c g = AND \<Longrightarrow> gate_fun D c g = (\<lambda>A. \<Prod>w \<leftarrow> getWires c g. gate_fun D c w A)"
  using bval_gates(1)[of D c g] by (simp add: gate_fun_def of_bool_prod fun_eq_iff)

lemma gate_fun_OR:
  "depth_ok D c g \<Longrightarrow> getGateType c g = OR \<Longrightarrow>
   gate_fun D c g = (\<lambda>A. 1 - (\<Prod>w \<leftarrow> getWires c g. 1 - gate_fun D c w A))"
  using bval_gates(2)[of D c g] by (simp add: gate_fun_def of_bool_prod_not fun_eq_iff)

lemma gate_fun_NOT:
  "depth_ok D c g \<Longrightarrow> getGateType c g = NOT \<Longrightarrow> getWires c g = w # ws \<Longrightarrow>
   gate_fun D c g = (\<lambda>A. 1 - gate_fun D c w A)"
  using bval_gates(3)[of D c g] by (simp add: gate_fun_def fun_eq_iff)

lemma gate_fun_IN:
  "depth_ok D c g \<Longrightarrow> getGateType c g = IN \<Longrightarrow> gate_fun D c g =
     (if g \<in> const_inputs c then (\<lambda>A. b_getProb c g) else (\<lambda>A. of_bool (g \<in> A)))"
  using bval_gates(4)[of D c g]
  by (auto simp: gate_fun_def norm_world_mem const_inputs_def constant_prob_def fun_eq_iff)

lemma gate_fun_MULIN:
  "depth_ok D c g \<Longrightarrow> getGateType c g = MULIN \<Longrightarrow> gate_fun D c g = (\<lambda>A. of_bool (g \<in> A))"
  using bval_gates(5)[of D c g] by (simp add: gate_fun_def norm_world_mem const_inputs_def fun_eq_iff)

section \<open>Exact values\<close>

text \<open>v is the probability of g, and g depends on the variables of W only.\<close>

definition exact :: "nat \<Rightarrow> 'm bool_circuit_scheme \<Rightarrow> gate_t \<Rightarrow> real \<Rightarrow> gate_t set \<Rightarrow> bool" where
  "exact D c g v W \<longleftrightarrow> dep (gate_owner c) (gate_fun D c g) W \<and> circuit_expect c (gate_fun D c g) = v"

lemma exact_mono: "exact D c g v W \<Longrightarrow> W \<subseteq> W' \<Longrightarrow> exact D c g v W'"
  unfolding exact_def using dep_mono by blast

lemma exact_unique: "exact D c g v W \<Longrightarrow> exact D c g v' W' \<Longrightarrow> v = v'"
  by (simp add: exact_def)

lemma expect_const_fun: "circuit_expect c (\<lambda>_. v) = v"
  unfolding circuit_expect_def using bexp_const[OF circuit_blocks_ok, of c "\<lambda>_. v"] by simp

lemma expect_one_minus: "circuit_expect c (\<lambda>A. 1 - f A) = 1 - circuit_expect c f"
  using bexp_diff[of "gate_block c" _ "\<lambda>_. 1" f] expect_const_fun[of c 1] by (simp add: circuit_expect_def)

text \<open>An alternative of a key, or a disjunction of them.\<close>

lemma dep_mulins: "dep (gate_owner c) (\<lambda>A. of_bool (\<exists>m \<in> P. m \<in> set (mulins c k) \<and> m \<in> A) :: real) {k}"
proof (rule depI)
  fix A B assume AB: "\<And>a. gate_owner c a \<in> {k} \<Longrightarrow> a \<in> A \<longleftrightarrow> a \<in> B"
  have "m \<in> A \<longleftrightarrow> m \<in> B" if "m \<in> set (mulins c k)" for m
    using AB[of m] that by (simp add: mulins_iff gate_owner_def)
  then have "(\<exists>m \<in> P. m \<in> set (mulins c k) \<and> m \<in> A) \<longleftrightarrow> (\<exists>m \<in> P. m \<in> set (mulins c k) \<and> m \<in> B)" by blast
  then show "(of_bool (\<exists>m \<in> P. m \<in> set (mulins c k) \<and> m \<in> A) :: real) =
      of_bool (\<exists>m \<in> P. m \<in> set (mulins c k) \<and> m \<in> B)" by simp
qed

lemma selected_sum_insert:
  "distinct xs \<Longrightarrow> m \<in> set xs \<Longrightarrow> m \<notin> P \<Longrightarrow>
   (\<Sum>x \<leftarrow> xs. if x \<in> insert m P then b x else 0) = (\<Sum>x \<leftarrow> xs. if x \<in> P then b x else 0) + (b m :: real)"
proof (induction xs)
  case (Cons x xs)
  have "(\<Sum>x \<leftarrow> xs. if x \<in> insert m P then b x else 0) = (\<Sum>x \<leftarrow> xs. if x \<in> P then b x else 0)" if "m \<notin> set xs"
    by (rule arg_cong[where f = sum_list], rule map_cong) (use that in auto)
  with Cons show ?case by auto
qed simp

lemma expect_mulins:
  assumes "k < length (gates c)" "mulins c k \<noteq> []"
  shows "circuit_expect c (\<lambda>A. of_bool (\<exists>m \<in> P. m \<in> set (mulins c k) \<and> m \<in> A)) =
    (\<Sum>m \<leftarrow> mulins c k. if m \<in> P then b_getProb c m else 0)"
proof -
  let ?f = "\<lambda>A. of_bool (\<exists>m \<in> P. m \<in> set (mulins c k) \<and> m \<in> A) :: real"
  have "circuit_expect c ?f = (\<Sum>(S, q) \<leftarrow> gate_block c k. q * ?f S)"
    unfolding circuit_expect_def by (rule bexp_single[OF circuit_blocks_ok dep_mulins]) (use assms(1) in simp)
  also have "\<dots> = (\<Sum>m \<leftarrow> mulins c k. b_getProb c m * ?f {m})"
    using assms(2) by (simp add: gate_block_def comp_def)
  also have "\<dots> = (\<Sum>m \<leftarrow> mulins c k. if m \<in> P then b_getProb c m else 0)"
    by (rule arg_cong[where f = sum_list], rule map_cong) auto
  finally show ?thesis .
qed

lemma exact_MULIN:
  assumes wf: "wf_bool c" and ok: "depth_ok D c g" and t: "getGateType c g = MULIN" "getWires c g = k # ws"
  shows "exact D c g (b_getProb c g) {k}"
proof -
  have g: "g < length (gates c)" using ok by (cases D) simp_all
  then have k: "k < length (gates c)" using wf_bool_wires[OF wf g] t(2) by simp
  have gm: "g \<in> set (mulins c k)" using g t by (simp add: mulins_iff)
  then have ne: "mulins c k \<noteq> []" by auto
  have f: "gate_fun D c g = (\<lambda>A. of_bool (\<exists>m \<in> {g}. m \<in> set (mulins c k) \<and> m \<in> A))"
    using gm gate_fun_MULIN[OF ok t(1)] by auto
  have "(\<Sum>m \<leftarrow> mulins c k. if m \<in> {g} then b_getProb c m else 0) = b_getProb c g"
    using selected_sum_insert[OF distinct_mulins gm, of "{}"] by simp
  then show ?thesis using dep_mulins[of c "{g}" k] expect_mulins[OF k ne, of "{g}"] by (simp add: exact_def f)
qed

lemma exact_IN:
  assumes ok: "depth_ok D c g" and t: "getGateType c g = IN" "mulins c g = []"
  shows "exact D c g (b_getProb c g) (if constant_prob (b_getProb c g) then {} else {g})"
proof -
  have g: "g < length (gates c)" using ok by (cases D) simp_all
  show ?thesis
  proof (cases "constant_prob (b_getProb c g)")
    case True
    then have "g \<in> const_inputs c" using g t by (simp add: const_inputs_def)
    then have "gate_fun D c g = (\<lambda>_. b_getProb c g)" using gate_fun_IN[OF ok t(1)] by auto
    then show ?thesis using True by (simp add: exact_def expect_const_fun)
  next
    case False
    then have "g \<notin> const_inputs c" by (simp add: const_inputs_def)
    then have f: "gate_fun D c g = (\<lambda>A. of_bool (g \<in> A))" using gate_fun_IN[OF ok t(1)] by auto
    have d: "dep (gate_owner c) (\<lambda>A. of_bool (g \<in> A) :: real) {g}"
      by (rule depI) (use t in \<open>auto simp: gate_owner_def\<close>)
    have "circuit_expect c (\<lambda>A. of_bool (g \<in> A)) = b_getProb c g"
      unfolding circuit_expect_def bexp_single[OF circuit_blocks_ok d, simplified, OF g]
      using t by (simp add: gate_block_def)
    then show ?thesis using False d by (simp add: exact_def f)
  qed
qed


section \<open>The read-once walk\<close>

text \<open>The code either throws the independence exception or returns a result with P.\<close>

definition result_ok :: "('a \<Rightarrow> bool) \<Rightarrow> (exn + 'a) option \<Rightarrow> bool" where
  "result_ok P r \<longleftrightarrow> r = Some (Inl not_independent) \<or> (\<exists>x. r = Some (Inr x) \<and> P x)"

lemma result_ok_error [simp]: "result_ok P (Some (Inl not_independent))"
  by (simp add: result_ok_def)

lemma result_ok_value [simp]: "result_ok P (Some (Inr x)) \<longleftrightarrow> P x"
  by (simp add: result_ok_def)

lemma result_ok_bind:
  assumes "result_ok P r" "\<And>x. P x \<Longrightarrow> result_ok Q (f x)"
  shows "result_ok Q (bind_run r f)"
  using assms(1) unfolding result_ok_def[of P] by (elim disjE exE conjE) (simp_all add: assms(2))

definition state_ok :: "nat \<Rightarrow> 'm bool_circuit_scheme \<Rightarrow> eval_state \<Rightarrow> bool" where
  "state_ok D c st \<longleftrightarrow> finite (fst st) \<and> (\<forall>g v. snd st g = Some v \<longrightarrow> exact D c g v {})"

definition step_ok :: "nat \<Rightarrow> 'm bool_circuit_scheme \<Rightarrow> eval_state \<Rightarrow> gate_t \<Rightarrow> real \<times> eval_state \<Rightarrow> bool" where
  "step_ok D c st g r \<longleftrightarrow> fst st \<subseteq> fst (snd r) \<and> state_ok D c (snd r) \<and> exact D c g (fst r) (fst (snd r) - fst st)"

definition good_child :: "'m bool_circuit_scheme \<Rightarrow> nat \<Rightarrow> gate_t \<Rightarrow> bool" where
  "good_child c d x \<longleftrightarrow> depth_ok d c x \<and> mulins c x = []"

definition good_ev :: "nat \<Rightarrow> 'm bool_circuit_scheme \<Rightarrow> nat \<Rightarrow> evaluator \<Rightarrow> bool" where
  "good_ev D c d ev \<longleftrightarrow> (\<forall>g st. good_child c d g \<longrightarrow> state_ok D c st \<longrightarrow> result_ok (step_ok D c st g) (ev g st))"

lemma good_evD: "good_ev D c d ev \<Longrightarrow> good_child c d x \<Longrightarrow> state_ok D c st \<Longrightarrow> result_ok (step_ok D c st x) (ev x st)"
  unfolding good_ev_def by blast

lemma expect_indep2:
  "dep (gate_owner c) f W1 \<Longrightarrow> dep (gate_owner c) g W2 \<Longrightarrow> W1 \<inter> W2 = {} \<Longrightarrow>
   circuit_expect c (\<lambda>A. f A * g A) = circuit_expect c f * circuit_expect c g"
  unfolding circuit_expect_def by (rule bexp_indep[OF circuit_blocks_ok])

lemma and_loop_ok:
  assumes ev: "good_ev D c d ev"
  shows "\<forall>x \<in> set xs. good_child c d x \<Longrightarrow> state_ok D c st \<Longrightarrow> s0 \<subseteq> fst st \<Longrightarrow>
    dep (gate_owner c) f (fst st - s0) \<Longrightarrow> circuit_expect c f = r \<Longrightarrow>
    result_ok (\<lambda>(r', st'). fst st \<subseteq> fst st' \<and> state_ok D c st' \<and>
        dep (gate_owner c) (\<lambda>A. f A * (\<Prod>x \<leftarrow> xs. gate_fun D c x A)) (fst st' - s0) \<and>
        circuit_expect c (\<lambda>A. f A * (\<Prod>x \<leftarrow> xs. gate_fun D c x A)) = r')
      (and_loop ev xs r st)"
proof (induction xs arbitrary: f r st)
  case (Cons x xs)
  show ?case unfolding and_loop.simps
  proof (rule result_ok_bind[OF good_evD[OF ev, of x st]])
    show "good_child c d x" "state_ok D c st" using Cons.prems by simp_all
    fix y assume y: "step_ok D c st x y"
    obtain v st1 where y': "y = (v, st1)" by (cases y)
    let ?f = "\<lambda>A. f A * gate_fun D c x A"
    have s: "fst st \<subseteq> fst st1" "state_ok D c st1" "exact D c x v (fst st1 - fst st)"
      using y by (simp_all add: y' step_ok_def)
    have d: "dep (gate_owner c) ?f (fst st1 - s0)"
      by (rule dep_comp2[where h = "(*)"])
         (use s Cons.prems(3,4) in \<open>auto simp: exact_def elim: dep_mono\<close>)
    have e: "circuit_expect c ?f = r * v"
      using expect_indep2[of c f "fst st - s0" "gate_fun D c x" "fst st1 - fst st"] s(3) Cons.prems(4,5)
      by (auto simp: exact_def)
    have "result_ok (\<lambda>(r', st'). fst st1 \<subseteq> fst st' \<and> state_ok D c st' \<and>
        dep (gate_owner c) (\<lambda>A. ?f A * (\<Prod>x \<leftarrow> xs. gate_fun D c x A)) (fst st' - s0) \<and>
        circuit_expect c (\<lambda>A. ?f A * (\<Prod>x \<leftarrow> xs. gate_fun D c x A)) = r') (and_loop ev xs (r * v) st1)"
      by (rule Cons.IH[OF _ s(2) _ d e]) (use Cons.prems s(1) in auto)
    then show "result_ok (\<lambda>(r', st'). fst st \<subseteq> fst st' \<and> state_ok D c st' \<and>
        dep (gate_owner c) (\<lambda>A. f A * (\<Prod>x \<leftarrow> (x # xs). gate_fun D c x A)) (fst st' - s0) \<and>
        circuit_expect c (\<lambda>A. f A * (\<Prod>x \<leftarrow> (x # xs). gate_fun D c x A)) = r')
      (case y of (v, st') \<Rightarrow> and_loop ev xs (r * v) st')"
      using s(1) by (auto simp: y' result_ok_def mult.assoc)
  qed
qed simp

lemma set_group_put:
  "distinct (map fst gs) \<Longrightarrow> set (group_put k v gs) = insert (k, v) {g \<in> set gs. fst g \<noteq> k}"
  by (induction gs) (auto simp: rev_image_eqI)

lemma fst_group_put: "fst ` set (group_put k v gs) = insert k (fst ` set gs)"
  by (induction gs) auto

lemma distinct_group_put: "distinct (map fst gs) \<Longrightarrow> distinct (map fst (group_put k v gs))"
proof (induction gs)
  case (Cons g gs)
  then show ?case using fst_group_put[of k v gs] by auto
qed simp

lemma group_get_eq: "distinct (map fst gs) \<Longrightarrow> (k, v) \<in> set gs \<Longrightarrow> group_get k gs = v"
  by (simp add: group_get_def)

lemma group_get_none: "k \<notin> fst ` set gs \<Longrightarrow> group_get k gs = 0"
  by (simp add: group_get_def map_of_eq_None_iff[symmetric])

text \<open>The group of a key is the disjunction of its alternatives among the wires P seen so far.\<close>

definition group_fun :: "nat \<Rightarrow> 'm bool_circuit_scheme \<Rightarrow> gate_t set \<Rightarrow> gate_t \<Rightarrow> gate_t set \<Rightarrow> real" where
  "group_fun D c P k A =
     (if mulins c k \<noteq> [] then of_bool (\<exists>m \<in> P. m \<in> set (mulins c k) \<and> m \<in> A) else gate_fun D c k A)"

definition or_inv :: "nat \<Rightarrow> 'm bool_circuit_scheme \<Rightarrow> gate_t set \<Rightarrow> gate_t set \<Rightarrow> (gate_t \<times> real) list \<Rightarrow>
    gate_t set \<Rightarrow> (gate_t \<times> nat) set \<Rightarrow> eval_state \<Rightarrow> (gate_t \<Rightarrow> gate_t set) \<Rightarrow> bool" where
  "or_inv D c s0 P groups lm ms st W \<longleftrightarrow>
     state_ok D c st \<and> s0 \<subseteq> fst st \<and> distinct (map fst groups) \<and> fst ` set groups = gate_owner c ` P \<and>
     lm = {k \<in> gate_owner c ` P. mulins c k \<noteq> []} \<and>
     ms = (\<lambda>x. (gate_owner c x, getInfo c x)) ` {x \<in> P. getGateType c x = MULIN} \<and>
     (\<forall>(k, v) \<in> set groups. W k \<subseteq> fst st - s0 \<and> dep (gate_owner c) (group_fun D c P k) (W k) \<and>
        circuit_expect c (group_fun D c P k) = v \<and> (mulins c k \<noteq> [] \<longrightarrow> W k = {k})) \<and>
     (\<forall>k \<in> gate_owner c ` P. \<forall>k' \<in> gate_owner c ` P. k \<noteq> k' \<longrightarrow> W k \<inter> W k' = {})"

text \<open>What the wires of an OR are: alternatives, or gates that are not keys.\<close>

definition or_child :: "'m bool_circuit_scheme \<Rightarrow> nat \<Rightarrow> gate_t \<Rightarrow> bool" where
  "or_child c d x \<longleftrightarrow> good_child c d x \<and> x < length (gates c) \<and>
     (getGateType c x = MULIN \<longrightarrow> getWires c x \<noteq> [] \<and> hd (getWires c x) < length (gates c))"


text \<open>The steps of the loop keep the invariant: a new or a repeated group.\<close>

lemma group_fun_other:
  "gate_owner c x \<noteq> k \<Longrightarrow> group_fun D c (insert x P) k = group_fun D c P k"
  by (auto simp: group_fun_def fun_eq_iff mulins_iff gate_owner_def)

lemma group_fun_plain: "mulins c k = [] \<Longrightarrow> group_fun D c P k = gate_fun D c k"
  by (auto simp: group_fun_def fun_eq_iff)

lemma or_inv_entry:
  "or_inv D c s0 P groups lm ms st W \<Longrightarrow> (k, v) \<in> set groups \<Longrightarrow>
   W k \<subseteq> fst st - s0 \<and> dep (gate_owner c) (group_fun D c P k) (W k) \<and>
   circuit_expect c (group_fun D c P k) = v \<and> (mulins c k \<noteq> [] \<longrightarrow> W k = {k})"
  unfolding or_inv_def by (elim conjE) (drule (1) bspec, simp)

lemma or_inv_group:
  assumes "or_inv D c s0 P groups lm ms st W" "k \<in> gate_owner c ` P"
  shows "\<exists>v. (k, v) \<in> set groups"
proof -
  have "k \<in> fst ` set groups" using assms by (simp add: or_inv_def)
  then show ?thesis by force
qed

lemma or_inv_put:
  assumes inv: "or_inv D c s0 P groups lm ms st W" and st': "state_ok D c st'" "fst st \<subseteq> fst st'"
    and k: "gate_owner c x = k"
    and lm': "lm' = {k \<in> gate_owner c ` insert x P. mulins c k \<noteq> []}"
    and ms': "ms' = (\<lambda>x. (gate_owner c x, getInfo c x)) ` {y \<in> insert x P. getGateType c y = MULIN}"
    and new: "V \<subseteq> fst st' - s0" "dep (gate_owner c) (group_fun D c (insert x P) k) V"
      "circuit_expect c (group_fun D c (insert x P) k) = v" "mulins c k \<noteq> [] \<longrightarrow> V = {k}"
    and fresh: "if k \<in> gate_owner c ` P then V = W k else V \<inter> (fst st - s0) = {}"
  shows "or_inv D c s0 (insert x P) (group_put k v groups) lm' ms' st' (W(k := V))"
proof -
  note i = inv[unfolded or_inv_def]
  have dis: "distinct (map fst groups)" using i by simp
  have own: "gate_owner c ` insert x P = insert k (gate_owner c ` P)" using k by auto
  have Wsub: "W k' \<subseteq> fst st - s0" if "k' \<in> gate_owner c ` P" for k'
    using or_inv_group[OF inv that] or_inv_entry[OF inv] by blast
  have disj: "\<forall>k1 \<in> gate_owner c ` insert x P. \<forall>k2 \<in> gate_owner c ` insert x P.
      k1 \<noteq> k2 \<longrightarrow> (W(k := V)) k1 \<inter> (W(k := V)) k2 = {}"
  proof (cases "k \<in> gate_owner c ` P")
    case True
    then have "W(k := V) = W" "gate_owner c ` insert x P = gate_owner c ` P" using fresh own by auto
    then show ?thesis using i by simp
  next
    case False
    then have "V \<inter> W k' = {}" if "k' \<in> gate_owner c ` P" for k' using fresh Wsub[OF that] by auto
    then show ?thesis using i unfolding own by auto
  qed
  have entries: "\<forall>(k', v') \<in> set (group_put k v groups). (W(k := V)) k' \<subseteq> fst st' - s0 \<and>
      dep (gate_owner c) (group_fun D c (insert x P) k') ((W(k := V)) k') \<and>
      circuit_expect c (group_fun D c (insert x P) k') = v' \<and> (mulins c k' \<noteq> [] \<longrightarrow> (W(k := V)) k' = {k'})"
    unfolding set_group_put[OF dis]
  proof (intro ballI, clarify)
    fix k' v' assume "(k', v') \<in> insert (k, v) {g \<in> set groups. fst g \<noteq> k}"
    then consider "k' = k" "v' = v" | "k' \<noteq> k" "(k', v') \<in> set groups" by auto
    then show "(W(k := V)) k' \<subseteq> fst st' - s0 \<and>
      dep (gate_owner c) (group_fun D c (insert x P) k') ((W(k := V)) k') \<and>
      circuit_expect c (group_fun D c (insert x P) k') = v' \<and> (mulins c k' \<noteq> [] \<longrightarrow> (W(k := V)) k' = {k'})"
    proof cases
      case 1
      then show ?thesis using new by simp
    next
      case 2
      then have "group_fun D c (insert x P) k' = group_fun D c P k'" using group_fun_other[of c x k'] k by auto
      then show ?thesis using 2 or_inv_entry[OF inv 2(2)] st'(2) by auto
    qed
  qed
  have s0: "s0 \<subseteq> fst st'" using i st'(2) by auto
  have keys: "fst ` set (group_put k v groups) = gate_owner c ` insert x P"
    unfolding own fst_group_put using i by simp
  show ?thesis unfolding or_inv_def
    by (intro conjI) (fact st'(1) s0 distinct_group_put[OF dis] keys lm' ms' entries disj)+
qed

lemma or_inv_again:
  assumes "or_inv D c s0 P groups lm ms st W" "x \<in> P"
  shows "or_inv D c s0 (insert x P) groups lm ms st W"
  using assms by (simp add: insert_absorb)

lemma or_inv_plain:
  assumes inv: "or_inv D c s0 P groups lm ms st W" and x: "getGateType c x \<noteq> MULIN" "mulins c x = []"
    and y: "step_ok D c st x (v, st')"
  shows "\<exists>W'. or_inv D c s0 (insert x P) (group_put x v groups) lm ms st' W'"
proof -
  note i = inv[unfolded or_inv_def]
  have own: "gate_owner c x = x" using x(1) by (simp add: gate_owner_def)
  have f: "group_fun D c (insert x P) x = gate_fun D c x" by (rule group_fun_plain[OF x(2)])
  have s: "state_ok D c st'" "fst st \<subseteq> fst st'" "exact D c x v (fst st' - fst st)" using y by (simp_all add: step_ok_def)
  have lm: "lm = {k \<in> gate_owner c ` insert x P. mulins c k \<noteq> []}" using i own x(2) by auto
  have ms: "ms = (\<lambda>x. (gate_owner c x, getInfo c x)) ` {y \<in> insert x P. getGateType c y = MULIN}"
  proof -
    have "{y \<in> insert x P. getGateType c y = MULIN} = {y \<in> P. getGateType c y = MULIN}" using x(1) by auto
    then show ?thesis using i by simp
  qed
  note put = or_inv_put[OF inv s(1,2) own lm ms, unfolded f]
  show ?thesis
  proof (cases "x \<in> gate_owner c ` P")
    case True
    then obtain v0 where "(x, v0) \<in> set groups" using or_inv_group[OF inv] by blast
    from or_inv_entry[OF inv this] have W: "W x \<subseteq> fst st - s0" "exact D c x v0 (W x)"
      unfolding exact_def group_fun_plain[OF x(2)] by simp_all
    show ?thesis
      by (rule exI, rule put[where V = "W x"]) (use W s exact_unique[OF W(2) s(3)] x(2) True in \<open>auto simp: exact_def\<close>)
  next
    case False
    show ?thesis
      by (rule exI, rule put[where V = "fst st' - fst st"]) (use s x(2) False i in \<open>auto simp: exact_def\<close>)
  qed
qed


lemma group_fun_key:
  "mulins c k \<noteq> [] \<Longrightarrow> group_fun D c P k = (\<lambda>A. of_bool (\<exists>m \<in> P. m \<in> set (mulins c k) \<and> m \<in> A))"
  by (auto simp: group_fun_def fun_eq_iff)

lemma or_inv_mulin:
  assumes inv: "or_inv D c s0 P groups lm ms st W" and keys: "keys_ok c"
    and x: "getGateType c x = MULIN" "getWires c x = k # ws" "x < length (gates c)" "k < length (gates c)"
    and free: "k \<notin> lm \<longrightarrow> k \<notin> fst st"
    and P: "\<forall>y \<in> P. getGateType c y = MULIN \<longrightarrow> y \<in> set (mulins c (gate_owner c y))"
  defines "st' \<equiv> (if k \<notin> lm then (insert k (fst st), snd st) else st)"
    and "i \<equiv> (k, getInfo c x)"
  shows "\<exists>W'. or_inv D c s0 (insert x P)
    (if i \<notin> ms then group_put k (group_get k groups + b_getProb c x) groups else groups) (insert k lm) (insert i ms) st' W'"
proof -
  note inv' = inv[unfolded or_inv_def]
  have st: "state_ok D c st" and s0: "s0 \<subseteq> fst st" and lm: "lm = {k \<in> gate_owner c ` P. mulins c k \<noteq> []}"
    and dis: "distinct (map fst groups)" and gk: "fst ` set groups = gate_owner c ` P"
    and ms: "ms = (\<lambda>x. (gate_owner c x, getInfo c x)) ` {x \<in> P. getGateType c x = MULIN}" using inv' by simp_all
  have own: "gate_owner c x = k" using x by (simp add: gate_owner_def)
  have xm: "x \<in> set (mulins c k)" using x by (simp add: mulins_iff)
  then have ne: "mulins c k \<noteq> []" by auto
  have lm': "insert k lm = {k \<in> gate_owner c ` insert x P. mulins c k \<noteq> []}" using lm own ne by auto
  have ms': "insert i ms = (\<lambda>x. (gate_owner c x, getInfo c x)) ` {y \<in> insert x P. getGateType c y = MULIN}"
  proof -
    have "{y \<in> insert x P. getGateType c y = MULIN} = insert x {y \<in> P. getGateType c y = MULIN}" using x(1) by auto
    then show ?thesis using ms own by (simp add: i_def)
  qed
  have st': "state_ok D c st'" "fst st \<subseteq> fst st'" using st by (auto simp: st'_def state_ok_def)
  have klm: "k \<in> lm \<longleftrightarrow> k \<in> gate_owner c ` P" using lm ne by auto
  have esum: "circuit_expect c (group_fun D c Q k) = (\<Sum>m \<leftarrow> mulins c k. if m \<in> Q then b_getProb c m else 0)" for Q
    using expect_mulins[OF x(4) ne, of Q] by (simp add: group_fun_key[OF ne])
  have dk: "dep (gate_owner c) (group_fun D c Q k) {k}" for Q
    using dep_mulins[of c Q k] by (simp add: group_fun_key[OF ne])
  show ?thesis
  proof (cases "i \<in> ms")
    case True
    then obtain y where y: "y \<in> P" "getGateType c y = MULIN" "gate_owner c y = k" "getInfo c y = getInfo c x"
      using ms by (auto simp: i_def)
    have k: "k \<in> lm" using y klm by auto
    have "y \<in> set (mulins c k)" using P y by blast
    with keys xm y(4) have "y = x" unfolding keys_ok_def by blast
    then have "x \<in> P" using y(1) by simp
    then have "or_inv D c s0 (insert x P) groups lm ms st W" using or_inv_again[OF inv] by blast
    then show ?thesis using True k by (auto simp: st'_def insert_absorb)
  next
    case False
    have xP: "x \<notin> P" using False ms x(1) own by (auto simp: i_def)
    have val: "group_get k groups + b_getProb c x = circuit_expect c (group_fun D c (insert x P) k)"
    proof (cases "k \<in> gate_owner c ` P")
      case True
      then obtain v where v: "(k, v) \<in> set groups" using or_inv_group[OF inv] by blast
      from or_inv_entry[OF inv v] group_get_eq[OF dis v] show ?thesis
        using esum selected_sum_insert[OF distinct_mulins xm xP] by simp
    next
      case False
      then have "group_get k groups = 0" using gk group_get_none by metis
      moreover have "m \<notin> P" if "m \<in> set (mulins c k)" for m
        using False that by (auto simp: mulins_iff gate_owner_def)
      then have "(\<Sum>m \<leftarrow> mulins c k. if m \<in> P then b_getProb c m else 0) = 0"
        by (simp cong: map_cong)
      ultimately show ?thesis using esum selected_sum_insert[OF distinct_mulins xm xP] by simp
    qed
    have fresh: "if k \<in> gate_owner c ` P then {k} = W k else {k} \<inter> (fst st - s0) = {}"
      using klm free or_inv_group[OF inv] or_inv_entry[OF inv] ne by (auto split: if_splits)
    have sub: "{k} \<subseteq> fst st' - s0"
    proof (cases "k \<in> lm")
      case True
      then have "W k \<subseteq> fst st - s0" "W k = {k}" using klm or_inv_group[OF inv] or_inv_entry[OF inv] ne by blast+
      then show ?thesis using True by (simp add: st'_def)
    next
      case False
      then show ?thesis using free s0 by (auto simp: st'_def)
    qed
    show ?thesis using False or_inv_put[OF inv st' own lm' ms' sub dk val[symmetric] _ fresh] by auto
  qed
qed


lemma or_loop_ok:
  assumes ev: "good_ev D c d ev" and keys: "keys_ok c"
  shows "\<forall>x \<in> set xs. or_child c d x \<Longrightarrow> or_inv D c s0 P groups lm ms st W \<Longrightarrow>
    \<forall>y \<in> P. getGateType c y = MULIN \<longrightarrow> y \<in> set (mulins c (gate_owner c y)) \<Longrightarrow>
    result_ok (\<lambda>(groups', st'). fst st \<subseteq> fst st' \<and>
       (\<exists>lm' ms' W'. or_inv D c s0 (P \<union> set xs) groups' lm' ms' st' W')) (or_loop ev c xs groups lm ms st)"
proof (induction xs arbitrary: P groups lm ms st W)
  case Nil
  then show ?case by auto
next
  case (Cons x xs)
  have x: "good_child c d x" "x < length (gates c)"
    "getGateType c x = MULIN \<Longrightarrow> getWires c x \<noteq> [] \<and> hd (getWires c x) < length (gates c)"
    using Cons.prems(1) by (auto simp: or_child_def)
  have P': "\<forall>y \<in> insert x P. getGateType c y = MULIN \<longrightarrow> y \<in> set (mulins c (gate_owner c y))"
    using Cons.prems(3) x by (auto simp: mulins_iff gate_owner_def)
  show ?case
  proof (cases "getGateType c x = MULIN")
    case True
    then obtain k ws where w: "getWires c x = k # ws" "k < length (gates c)" using x(3) by (cases "getWires c x") auto
    let ?st = "if k \<notin> lm then (insert k (fst st), snd st) else st"
    let ?gs = "if (k, getInfo c x) \<notin> ms then group_put k (group_get k groups + b_getProb c x) groups else groups"
    show ?thesis
    proof (cases "k \<notin> lm \<and> k \<in> fst st")
      case False
      obtain W' where W': "or_inv D c s0 (insert x P) ?gs (insert k lm) (insert (k, getInfo c x) ms) ?st W'"
        using or_inv_mulin[OF Cons.prems(2) keys True w(1) x(2) w(2) _ Cons.prems(3)] False by blast
      have "result_ok (\<lambda>(groups', st'). fst ?st \<subseteq> fst st' \<and>
         (\<exists>lm' ms' W'. or_inv D c s0 (insert x P \<union> set xs) groups' lm' ms' st' W'))
         (or_loop ev c xs ?gs (insert k lm) (insert (k, getInfo c x) ms) ?st)"
        by (rule Cons.IH[OF _ W' P']) (use Cons.prems(1) in simp)
      moreover have "or_loop ev c (x # xs) groups lm ms st = or_loop ev c xs ?gs (insert k lm) (insert (k, getInfo c x) ms) ?st"
        using True w False by (auto simp: Let_def)
      moreover have "fst st \<subseteq> fst ?st" by auto
      ultimately show ?thesis by (auto simp: result_ok_def)
    qed (simp add: True w)
  next
    case False
    show ?thesis unfolding or_loop.simps if_not_P[OF False]
    proof (rule result_ok_bind[OF good_evD[OF ev x(1)]])
      show "state_ok D c st" using Cons.prems(2) by (simp add: or_inv_def)
      fix y assume y: "step_ok D c st x y"
      obtain v st1 where y': "y = (v, st1)" by (cases y)
      have "mulins c x = []" using x(1) by (simp add: good_child_def)
      from or_inv_plain[OF Cons.prems(2) False this y[unfolded y']] obtain W' where
        W': "or_inv D c s0 (insert x P) (group_put x v groups) lm ms st1 W'" by blast
      have "result_ok (\<lambda>(groups', st'). fst st1 \<subseteq> fst st' \<and>
         (\<exists>lm' ms' W'. or_inv D c s0 (insert x P \<union> set xs) groups' lm' ms' st' W'))
         (or_loop ev c xs (group_put x v groups) lm ms st1)"
        by (rule Cons.IH[OF _ W' P']) (use Cons.prems(1) in simp)
      moreover have "fst st \<subseteq> fst st1" using y by (simp add: y' step_ok_def)
      ultimately show "result_ok (\<lambda>(groups', st'). fst st \<subseteq> fst st' \<and>
         (\<exists>lm' ms' W'. or_inv D c s0 (P \<union> set (x # xs)) groups' lm' ms' st' W'))
         (case y of (v, st') \<Rightarrow> or_loop ev c xs (group_put x v groups) lm ms st')"
        by (auto simp: y' result_ok_def)
    qed
  qed
qed

lemma or_inv_start: "state_ok D c st \<Longrightarrow> or_inv D c (fst st) {} [] {} {} st (\<lambda>_. {})"
  by (simp add: or_inv_def)

text \<open>The product over the groups is the complement of the disjunction of the wires.\<close>

lemma or_value_ok:
  assumes ok: "depth_ok D c g" and t: "getGateType c g = OR"
    and kids: "\<forall>x \<in> set (getWires c g). or_child c d x \<and> depth_ok D c x"
    and inv: "or_inv D c s0 (set (getWires c g)) groups lm ms st W"
  shows "exact D c g (or_value groups) (fst st - s0)"
proof -
  let ?P = "set (getWires c g)" and ?G = "\<lambda>(k, v) A. 1 - group_fun D c (set (getWires c g)) k A"
  have dis: "distinct (map fst groups)" and gk: "fst ` set groups = gate_owner c ` ?P" using inv by (simp_all add: or_inv_def)
  have entry: "W k \<subseteq> fst st - s0 \<and> dep (gate_owner c) (group_fun D c ?P k) (W k) \<and> circuit_expect c (group_fun D c ?P k) = v"
    if "(k, v) \<in> set groups" for k v using or_inv_entry[OF inv that] by simp
  have member: "gate_fun D c x A \<le> group_fun D c ?P (gate_owner c x) A" if x: "x \<in> ?P" for x A
  proof (cases "getGateType c x = MULIN")
    case True
    then have "x \<in> set (mulins c (gate_owner c x))" using kids x by (auto simp: or_child_def mulins_iff gate_owner_def)
    then show ?thesis using gate_fun_MULIN[OF _ True] kids x by (auto simp: group_fun_def)
  next
    case False
    then have "gate_owner c x = x" "mulins c x = []" using kids x by (auto simp: gate_owner_def or_child_def good_child_def)
    then show ?thesis by (simp add: group_fun_plain)
  qed
  have bool: "gate_fun D c x A = 0 \<or> gate_fun D c x A = 1" for x A by (simp add: gate_fun_def)
  have gbool: "group_fun D c ?P k A = 0 \<or> (group_fun D c ?P k A = 1 \<and> (\<exists>x \<in> ?P. gate_fun D c x A = 1))"
    if "k \<in> gate_owner c ` ?P" for k A
  proof (cases "mulins c k = []")
    case True
    then obtain x where "x \<in> ?P" "gate_owner c x = k" using \<open>k \<in> gate_owner c ` ?P\<close> by auto
    moreover have "gate_owner c x = x"
    proof (rule ccontr)
      assume "gate_owner c x \<noteq> x"
      then have "x \<in> set (mulins c (gate_owner c x))"
        using calculation(1) kids by (auto simp: or_child_def mulins_iff gate_owner_def split: if_splits)
      with calculation(2) True show False by simp
    qed
    ultimately show ?thesis using bool[of k A] by (auto simp: group_fun_plain[OF True])
  next
    case False
    have "gate_fun D c m A = 1" if "m \<in> ?P" "m \<in> set (mulins c k)" "m \<in> A" for m
      using gate_fun_MULIN[of D c m] kids that by (auto simp: mulins_iff)
    then show ?thesis by (auto simp: group_fun_key[OF False])
  qed
  have prod: "(\<Prod>x \<leftarrow> getWires c g. 1 - gate_fun D c x A) = (\<Prod>b \<leftarrow> groups. ?G b A)" for A
  proof (cases "\<exists>x \<in> ?P. gate_fun D c x A = 1")
    case True
    then obtain x where x: "x \<in> ?P" "gate_fun D c x A = 1" by blast
    then have "group_fun D c ?P (gate_owner c x) A = 1"
      using member[OF x(1), of A] gbool[of "gate_owner c x" A] by auto
    moreover obtain v where "(gate_owner c x, v) \<in> set groups" using or_inv_group[OF inv] x(1) by blast
    ultimately have "0 \<in> set (map (\<lambda>b. ?G b A) groups)" by force
    moreover have "0 \<in> set (map (\<lambda>x. 1 - gate_fun D c x A) (getWires c g))" using x by force
    ultimately show ?thesis by (metis prod_list_zero_iff)
  next
    case False
    then have "\<forall>x \<in> ?P. gate_fun D c x A = 0" using bool by blast
    moreover have "\<forall>(k, v) \<in> set groups. group_fun D c ?P k A = 0"
      using gbool[of _ A] gk False by force
    ultimately have "map (\<lambda>x. 1 - gate_fun D c x A) (getWires c g) = map (\<lambda>_. 1) (getWires c g)"
      "map (\<lambda>b. ?G b A) groups = map (\<lambda>_. 1) groups" by auto
    then show ?thesis by (simp cong: map_cong add: map_replicate_const)
  qed
  have f: "gate_fun D c g = (\<lambda>A. 1 - (\<Prod>b \<leftarrow> groups. ?G b A))"
    using gate_fun_OR[OF ok t] prod by auto
  have depG: "dep (gate_owner c) (?G b) (W (fst b))" if "b \<in> set groups" for b
    using entry[of "fst b" "snd b"] that dep_comp[where h = "\<lambda>x. 1 - x"] by (auto simp: case_prod_unfold)
  have "sorted_wrt (\<lambda>b b'. W (fst b) \<inter> W (fst b') = {}) groups"
  proof -
    have "sorted_wrt (\<lambda>b b'. fst b \<noteq> fst b') groups" using dis by (simp add: distinct_map sorted_wrt_iff_nth_less distinct_conv_nth)
    moreover have "\<forall>k \<in> fst ` set groups. \<forall>k' \<in> fst ` set groups. k \<noteq> k' \<longrightarrow> W k \<inter> W k' = {}"
      unfolding gk using inv by (simp add: or_inv_def)
    ultimately show ?thesis
      using sorted_wrt_mono_rel[of groups "\<lambda>b b'. fst b \<noteq> fst b'" "\<lambda>b b'. W (fst b) \<inter> W (fst b') = {}"] by auto
  qed
  then have "circuit_expect c (\<lambda>A. \<Prod>b \<leftarrow> groups. ?G b A) = (\<Prod>b \<leftarrow> groups. circuit_expect c (?G b))"
    unfolding circuit_expect_def by (intro bexp_indep_list[OF circuit_blocks_ok depG])
  also have "\<dots> = (\<Prod>(k, v) \<leftarrow> groups. 1 - v)"
    by (rule arg_cong[where f = prod_list], rule map_cong) (use entry in \<open>auto simp: expect_one_minus\<close>)
  finally have "circuit_expect c (gate_fun D c g) = or_value groups"
    unfolding f expect_one_minus or_value_def by simp
  moreover have "dep (gate_owner c) (gate_fun D c g) (fst st - s0)"
    unfolding f
  proof (rule dep_comp[where h = "\<lambda>x. 1 - x"], rule dep_prod_list)
    fix b assume b: "b \<in> set groups"
    show "dep (gate_owner c) (?G b) (fst st - s0)"
      by (rule dep_mono[OF depG[OF b]]) (use entry[of "fst b" "snd b"] b in auto)
  qed
  ultimately show ?thesis by (simp add: exact_def)
qed


text \<open>Caching a value whose walk consumed no variable.\<close>

lemma cache_result_ok:
  assumes st: "state_ok D c st" and st': "state_ok D c st'" "fst st \<subseteq> fst st'"
    and e: "exact D c g v (fst st' - fst st)"
  shows "result_ok (step_ok D c st g) (cache_result g (card (fst st)) (v, st'))"
proof -
  have "exact D c g v {}" if "card (fst st') = card (fst st)"
  proof -
    have "fst st' = fst st" using card_subset_eq[of "fst st'" "fst st"] st' that by (simp add: state_ok_def)
    then show ?thesis using e by simp
  qed
  moreover obtain seen memo where p: "st' = (seen, memo)" by (cases st')
  ultimately have "state_ok D c (seen, if card seen = card (fst st) then memo(g \<mapsto> v) else memo)"
    using st'(1) by (auto simp: state_ok_def)
  then show ?thesis using st'(2) e
    by (simp add: p cache_result_def step_ok_def Let_def split del: if_split)
qed

section \<open>Certified islands\<close>

lemma dep_gvars: "depth_ok d c g \<Longrightarrow> d \<le> D \<Longrightarrow> dep (gate_owner c) (gate_fun D c g) (gvars d c g)"
proof (induction d arbitrary: g)
  case (Suc d)
  have ok: "depth_ok D c g" by (rule depth_ok_mono[OF Suc.prems(2,1)])
  have w: "dep (gate_owner c) (gate_fun D c w) (gvars (Suc d) c g)"
    if "getGateType c g = AND \<or> getGateType c g = OR \<or> getGateType c g = NOT" "w \<in> set (getWires c g)" for w
    by (rule dep_mono[OF Suc.IH]) (use depth_ok_wires[OF Suc.prems(1) that] Suc.prems(2) that in auto)
  have "\<exists>w ws. getWires c g = w # ws" if "getGateType c g = NOT" using depth_ok_NOT[OF Suc.prems(1) that] by blast
  moreover have "dep (gate_owner c) (gate_fun D c g) (gvars (Suc d) c g)" if t: "getGateType c g = IN"
    using gate_fun_IN[OF ok t] t by (auto intro!: depI simp: gate_owner_def)
  moreover have "dep (gate_owner c) (gate_fun D c g) (gvars (Suc d) c g)" if t: "getGateType c g = MULIN"
    using gate_fun_MULIN[OF ok t] t Suc.prems(1) by (auto intro!: depI simp: gate_owner_def)
  moreover have "dep (gate_owner c) (gate_fun D c g) (gvars (Suc d) c g)" if t: "getGateType c g = AND"
    using gate_fun_AND[OF ok t] w t by (auto intro!: dep_prod_list simp del: gvars.simps)
  moreover have "dep (gate_owner c) (gate_fun D c g) (gvars (Suc d) c g)" if t: "getGateType c g = OR"
    using gate_fun_OR[OF ok t] w t
    by (auto intro!: dep_comp[where h = "\<lambda>x. 1 - x"] dep_prod_list simp del: gvars.simps)
  moreover have "dep (gate_owner c) (gate_fun D c g) (gvars (Suc d) c g)" if t: "getGateType c g = NOT" "getWires c g = v # vs" for v vs
    using gate_fun_NOT[OF ok t] w[of v] t
    by (auto intro!: dep_comp[where h = "\<lambda>x. 1 - x"] simp del: gvars.simps)
  ultimately show ?case using Suc.prems(1) by (cases "getGateType c g") auto
qed simp

lemma bexp_sum_list: "bexp blk xs (\<lambda>A. \<Sum>i \<leftarrow> is. f i A) = (\<Sum>i \<leftarrow> is. bexp blk xs (f i))" if "blocks_ok blk owner xs"
  using bexp_const[OF that, of "\<lambda>_. 0"] by (induction "is") (simp_all add: bexp_add)

text \<open>A truthful certificate makes the island's arithmetic exact.\<close>

lemma island_value_ok:
  assumes ok: "depth_ok D c g" and certs: "certs_ok D c"
    and t: "getGateType c g = NOT \<or> isDNNFCertified c g"
    and val: "\<forall>w \<in> set (getWires c g). \<exists>v. val w = Some v \<and> exact D c w v W"
  shows "\<exists>v. island_value c val g = Inr v \<and> exact D c g v W"
proof -
  have g: "g < length (gates c)" using ok by (cases D) simp_all
  have the: "exact D c w (the (val w)) W" if "w \<in> set (getWires c g)" for w using val that by force
  then have E: "circuit_expect c (gate_fun D c w) = the (val w)" and d: "dep (gate_owner c) (gate_fun D c w) W"
    if "w \<in> set (getWires c g)" for w using that by (simp_all add: exact_def)
  from t have "getGateType c g = NOT \<or> getGateType c g = AND \<or> getGateType c g = OR" by (auto simp: isDNNFCertified_def)
  then consider "getGateType c g = NOT" | "getGateType c g = AND" | "getGateType c g = OR" by blast
  then show ?thesis
  proof cases
    case 1
    then obtain w ws where w: "getWires c g = w # ws" using ok by (cases D; cases "getWires c g") auto
    have "dep (gate_owner c) (\<lambda>A. 1 - gate_fun D c w A) W"
      by (rule dep_comp[where h = "\<lambda>x. 1 - x"]) (use d[of w] w in simp)
    then show ?thesis using 1 w E[of w] gate_fun_NOT[OF ok 1 w]
      by (simp add: island_value_def exact_def expect_one_minus)
  next
    case 2
    then have s: "sorted_wrt (\<lambda>v w. gvars D c v \<inter> gvars D c w = {}) (getWires c g)"
      using certs g t unfolding certs_ok_def by auto
    have dg: "dep (gate_owner c) (gate_fun D c w) (gvars D c w)" if "w \<in> set (getWires c g)" for w
    proof -
      obtain e where "D = Suc e" using ok by (cases D) simp_all
      then have "depth_ok D c w" using depth_ok_wires[of e c g w] depth_ok_Suc ok 2 that by blast
      then show ?thesis by (rule dep_gvars) simp
    qed
    have "circuit_expect c (gate_fun D c g) = (\<Prod>w \<leftarrow> getWires c g. circuit_expect c (gate_fun D c w))"
      unfolding circuit_expect_def gate_fun_AND[OF ok 2] by (rule bexp_indep_list[OF circuit_blocks_ok dg s])
    also have "\<dots> = prod_list (map (\<lambda>w. the (val w)) (getWires c g))"
      by (rule arg_cong[where f = prod_list], rule map_cong) (simp_all add: E)
    finally show ?thesis using 2 d unfolding exact_def
      by (simp add: island_value_def Let_def gate_fun_AND[OF ok 2] dep_prod_list)
  next
    case 3
    then have s: "sorted_wrt (\<lambda>v w. \<forall>A \<in> circuit_worlds c. \<not> (bval D c A v \<and> bval D c A w)) (getWires c g)"
      using certs g t unfolding certs_ok_def by auto
    have det: "gate_fun D c g A = (\<Sum>w \<leftarrow> getWires c g. gate_fun D c w A)" if A: "A \<in> circuit_worlds c" for A
    proof -
      have "sorted_wrt (\<lambda>v w. \<forall>A \<in> circuit_worlds c. \<not> (bval D c A v \<and> bval D c A w)) ws \<Longrightarrow>
          (\<Sum>w \<leftarrow> ws. of_bool (bval D c A w) :: real) = of_bool (\<exists>w \<in> set ws. bval D c A w)" for ws
        by (induction ws) (use A in auto)
      from this[OF s] show ?thesis using bval_gates(2)[OF ok 3] norm_world_id[OF A] by (simp add: gate_fun_def)
    qed
    have "circuit_expect c (gate_fun D c g) = circuit_expect c (\<lambda>A. \<Sum>w \<leftarrow> getWires c g. gate_fun D c w A)"
      unfolding circuit_expect_def by (rule bexp_cong) (use det in \<open>simp add: circuit_worlds_def\<close>)
    also have "\<dots> = (\<Sum>w \<leftarrow> getWires c g. circuit_expect c (gate_fun D c w))"
      unfolding circuit_expect_def by (rule bexp_sum_list[OF circuit_blocks_ok])
    also have "\<dots> = sum_list (map (\<lambda>w. the (val w)) (getWires c g))"
      by (rule arg_cong[where f = sum_list], rule map_cong) (simp_all add: E)
    finally have e: "circuit_expect c (gate_fun D c g) = sum_list (map (\<lambda>w. the (val w)) (getWires c g))" .
    have "dep (gate_owner c) (gate_fun D c g) W"
      unfolding gate_fun_OR[OF ok 3]
      by (rule dep_comp[where h = "\<lambda>x. 1 - x"], rule dep_prod_list, rule dep_comp[where h = "\<lambda>x. 1 - x"]) (rule d)
    then show ?thesis using 3 e by (simp add: island_value_def Let_def exact_def)
  qed
qed


text \<open>The invariant of the island loop: the values are exact, over variables registered since the island
  was entered with the set s0.\<close>

definition island_inv :: "nat \<Rightarrow> 'm bool_circuit_scheme \<Rightarrow> gate_t set \<Rightarrow> (gate_t \<rightharpoonup> real) \<Rightarrow> gate_t set \<Rightarrow> eval_state \<Rightarrow> bool" where
  "island_inv D c s0 val imv st \<longleftrightarrow> state_ok D c st \<and> s0 \<subseteq> fst st \<and> imv \<subseteq> fst st - s0 \<and>
     (\<forall>g v. val g = Some v \<longrightarrow> exact D c g v (fst st - s0))"

text \<open>Processing the gates gs on top of the stack: the independence exception, or they all get a value.\<close>

definition island_runs :: "nat \<Rightarrow> evaluator \<Rightarrow> 'm bool_circuit_scheme \<Rightarrow> gate_t set \<Rightarrow> gate_t list \<Rightarrow> gate_t list \<Rightarrow>
    (gate_t \<rightharpoonup> real) \<Rightarrow> gate_t set \<Rightarrow> eval_state \<Rightarrow> bool" where
  "island_runs D ev c s0 gs rest val imv st \<longleftrightarrow>
     island_loop ev c (gs @ rest) val imv st = Some (Inl not_independent) \<or>
     (\<exists>val' imv' st'. island_loop ev c (gs @ rest) val imv st = island_loop ev c rest val' imv' st' \<and>
        island_inv D c s0 val' imv' st' \<and> dom val \<union> set gs \<subseteq> dom val')"

lemma island_runsI:
  "island_loop ev c (gs @ rest) val imv st = island_loop ev c rest val' imv' st' \<Longrightarrow>
   island_inv D c s0 val' imv' st' \<Longrightarrow> dom val \<union> set gs \<subseteq> dom val' \<Longrightarrow> island_runs D ev c s0 gs rest val imv st"
  unfolding island_runs_def by blast

lemma island_runs_cases:
  assumes "island_runs D ev c s0 gs rest val imv st"
  obtains (error) "island_loop ev c (gs @ rest) val imv st = Some (Inl not_independent)"
  | (run) val' imv' st' where "island_loop ev c (gs @ rest) val imv st = island_loop ev c rest val' imv' st'"
      "island_inv D c s0 val' imv' st'" "dom val \<union> set gs \<subseteq> dom val'"
  using assms unfolding island_runs_def by blast

lemma island_runs_list:
  assumes "\<And>g val imv st rest. g \<in> set gs \<Longrightarrow> island_inv D c s0 val imv st \<Longrightarrow> island_runs D ev c s0 [g] rest val imv st"
  shows "island_inv D c s0 val imv st \<Longrightarrow> island_runs D ev c s0 gs rest val imv st"
  using assms
proof (induction gs arbitrary: val imv st)
  case Nil
  then show ?case by (intro island_runsI[of _ _ _ _ val imv st val imv st]) simp_all
next
  case (Cons g gs)
  have run: "island_runs D ev c s0 [g] (gs @ rest) val imv st" using Cons.prems by simp
  from run show ?case
  proof (cases rule: island_runs_cases)
    case error
    then show ?thesis by (simp add: island_runs_def)
  next
    case (run val1 imv1 st1)
    have "island_runs D ev c s0 gs rest val1 imv1 st1" by (rule Cons.IH[OF run(2)]) (use Cons.prems(2) in simp)
    then show ?thesis
    proof (cases rule: island_runs_cases)
      case error
      then show ?thesis using run(1) by (simp add: island_runs_def)
    next
      case run2: (run val2 imv2 st2)
      show ?thesis
        by (rule island_runsI[OF _ run2(2)]) (use run(1,3) run2(1,3) in auto)
    qed
  qed
qed

lemma island_runs_value:
  assumes "val g = None" "island_step ev c g val imv st = Some (Inr (IslandValue v imv' st'))"
    "island_inv D c s0 (val(g \<mapsto> v)) imv' st'"
  shows "island_runs D ev c s0 [g] rest val imv st"
proof -
  have "island_loop ev c (g # rest) val imv st = island_loop ev c rest (val(g \<mapsto> v)) imv' st'"
    using assms(1,2) by (subst island_loop.simps) simp
  then show ?thesis by (intro island_runsI[OF _ assms(3)]) auto
qed

lemma island_runs_error:
  assumes "val g = None" "island_step ev c g val imv st = Some (Inl not_independent)"
  shows "island_runs D ev c s0 [g] rest val imv st"
proof -
  have "island_loop ev c (g # rest) val imv st = Some (Inl not_independent)"
    using assms by (subst island_loop.simps) simp
  then show ?thesis by (simp add: island_runs_def)
qed

lemma island_inv_extend:
  assumes inv: "island_inv D c s0 val imv st" and st': "state_ok D c st'" "fst st \<subseteq> fst st'"
    and imv': "imv' \<subseteq> fst st' - s0" and e: "exact D c g v (fst st' - s0)"
  shows "island_inv D c s0 (val(g \<mapsto> v)) imv' st'"
proof -
  have "exact D c h w (fst st' - s0)" if "val h = Some w" for h w
    by (rule exact_mono[of D c h w "fst st - s0"]) (use inv st'(2) that in \<open>auto simp: island_inv_def\<close>)
  then show ?thesis using inv st' imv' e by (auto simp: island_inv_def)
qed

text \<open>A gate that needs no wires: an input, an alternative, or an uncertified gate.\<close>

lemma island_leaf:
  assumes wf: "wf_bool c" and ev: "good_ev D c d ev" and dD: "d \<le> D"
    and inv: "island_inv D c s0 val imv st" and g: "good_child c d g" "val g = None"
    and t: "getGateType c g = IN \<or> getGateType c g = MULIN \<or> getGateType c g \<noteq> NOT \<and> \<not> isDNNFCertified c g"
  shows "island_runs D ev c s0 [g] rest val imv st"
proof -
  have ok: "depth_ok d c g" "depth_ok D c g" "mulins c g = []"
    using g(1) depth_ok_mono[OF dD] by (auto simp: good_child_def)
  have st: "state_ok D c st" "s0 \<subseteq> fst st" "imv \<subseteq> fst st - s0" using inv by (simp_all add: island_inv_def)
  have ins: "state_ok D c (insert x (fst st), snd st)" for x using st(1) by (simp add: state_ok_def)
  show ?thesis
  proof (cases "getGateType c g = IN \<or> getGateType c g = MULIN")
    case False
    then have s: "island_step ev c g val imv st = bind_run (ev g st) (\<lambda>(v, st'). Some (Inr (IslandValue v imv st')))"
      using t by (simp add: island_step_def)
    from good_evD[OF ev g(1) st(1)] consider "ev g st = Some (Inl not_independent)"
      | v st' where "ev g st = Some (Inr (v, st'))" "step_ok D c st g (v, st')"
      unfolding result_ok_def by auto
    then show ?thesis
    proof cases
      case 2
      have inv2: "island_inv D c s0 (val(g \<mapsto> v)) imv st'"
        by (rule island_inv_extend[OF inv])
           (use 2(2) st in \<open>auto simp: step_ok_def intro: exact_mono[of _ _ _ _ "fst st' - fst st"]\<close>)
      show ?thesis by (rule island_runs_value[of val g, OF g(2) _ inv2]) (simp add: s 2(1))
    qed (use island_runs_error[of val g, OF g(2)] s in simp)
  next
    case True
    then show ?thesis
    proof
      assume i: "getGateType c g = IN"
      note e = exact_IN[OF ok(2) i ok(3)]
      show ?thesis
      proof (cases "constant_prob (b_getProb c g)")
        case True
        have inv2: "island_inv D c s0 (val(g \<mapsto> b_getProb c g)) imv st"
          by (rule island_inv_extend[OF inv st(1) _ st(3)]) (use e True in \<open>auto intro: exact_mono\<close>)
        show ?thesis by (rule island_runs_value[of val g, OF g(2) _ inv2]) (use i True in \<open>simp add: island_step_def Let_def\<close>)
      next
        case False
        show ?thesis
        proof (cases "g \<in> fst st")
          case True
          show ?thesis by (rule island_runs_error[of val g, OF g(2)]) (use True i False in \<open>simp add: island_step_def Let_def\<close>)
        next
          case gf: False
          have inv2: "island_inv D c s0 (val(g \<mapsto> b_getProb c g)) imv (insert g (fst st), snd st)"
            by (rule island_inv_extend[OF inv ins])
               (use e False st gf in \<open>auto intro: exact_mono[of _ _ _ _ "{g}"]\<close>)
          show ?thesis by (rule island_runs_value[of val g, OF g(2) _ inv2]) (use i False gf in \<open>simp add: island_step_def Let_def\<close>)
        qed
      qed
    next
      assume m: "getGateType c g = MULIN"
      then obtain k ws where w: "getWires c g = k # ws" using ok(1) by (cases d; cases "getWires c g") auto
      note e = exact_MULIN[OF wf ok(2) m w]
      show ?thesis
      proof (cases "k \<in> imv")
        case True
        have inv2: "island_inv D c s0 (val(g \<mapsto> b_getProb c g)) imv st"
          by (rule island_inv_extend[OF inv st(1) _ st(3)]) (use e True st in \<open>auto intro: exact_mono\<close>)
        show ?thesis by (rule island_runs_value[of val g, OF g(2) _ inv2]) (use m w True in \<open>simp add: island_step_def\<close>)
      next
        case False
        show ?thesis
        proof (cases "k \<in> fst st")
          case True
          show ?thesis by (rule island_runs_error[of val g, OF g(2)]) (use True m w False in \<open>simp add: island_step_def\<close>)
        next
          case kf: False
          have inv2: "island_inv D c s0 (val(g \<mapsto> b_getProb c g)) (insert k imv) (insert k (fst st), snd st)"
            by (rule island_inv_extend[OF inv ins])
               (use e st kf in \<open>auto intro: exact_mono[of _ _ _ _ "{k}"]\<close>)
          show ?thesis by (rule island_runs_value[of val g, OF g(2) _ inv2]) (use m w False kf in \<open>simp add: island_step_def\<close>)
        qed
      qed
    qed
  qed
qed


text \<open>Every gate of the island, by induction on its height.\<close>

lemma island_gate:
  assumes wf: "wf_bool c" and keys: "keys_ok c" and certs: "certs_ok D c" and ev: "good_ev D c d ev" and dD: "Suc d \<le> D"
  shows "e \<le> Suc d \<Longrightarrow> depth_ok e c g \<Longrightarrow> mulins c g = [] \<Longrightarrow> isDNNFCertified c g \<or> e \<le> d \<Longrightarrow>
    island_inv D c s0 val imv st \<Longrightarrow> island_runs D ev c s0 [g] rest val imv st"
proof (induction e arbitrary: g val imv st rest)
  case (Suc e)
  have g: "g < length (gates c)" using Suc.prems(2) by simp
  have okD: "depth_ok D c g" by (rule depth_ok_mono[OF _ Suc.prems(2)]) (use Suc.prems(1) dD in simp)
  show ?case
  proof (cases "val g")
    case (Some v)
    then have "island_loop ev c (g # rest) val imv st = island_loop ev c rest val imv st"
      by (subst island_loop.simps) simp
    then show ?thesis by (intro island_runsI[OF _ Suc.prems(5)]) (use Some in auto)
  next
    case None
    show ?thesis
    proof (cases "getGateType c g = IN \<or> getGateType c g = MULIN \<or> getGateType c g \<noteq> NOT \<and> \<not> isDNNFCertified c g")
      case True
      then have "Suc e \<le> d" using Suc.prems(4) by (auto simp: isDNNFCertified_def)
      then have "good_child c d g" using depth_ok_mono[OF _ Suc.prems(2)] Suc.prems(3) by (simp add: good_child_def)
      then show ?thesis using island_leaf[OF wf ev _ Suc.prems(5) _ None True] dD by simp
    next
      case False
      then have t: "getGateType c g = NOT \<or> isDNNFCertified c g" by blast
      then have ty: "getGateType c g = AND \<or> getGateType c g = OR \<or> getGateType c g = NOT"
        by (auto simp: isDNNFCertified_def)
      have kids: "depth_ok e c w" "mulins c w = []" if "w \<in> set (getWires c g)" for w
        using depth_ok_wires[OF Suc.prems(2) ty that] keys g ty that unfolding keys_ok_def by blast+
      define missing where "missing = filter (\<lambda>w. val w = None) (getWires c g)"
      have again: "island_runs D ev c s0 [g] rest val1 imv1 st1"
        if inv1: "island_inv D c s0 val1 imv1 st1" and vs: "set (getWires c g) \<subseteq> dom val1" for val1 imv1 st1
      proof (cases "val1 g")
        case (Some v)
        then have "island_loop ev c (g # rest) val1 imv1 st1 = island_loop ev c rest val1 imv1 st1"
          by (subst island_loop.simps) simp
        then show ?thesis by (intro island_runsI[OF _ inv1]) (use Some in auto)
      next
        case None
        have "\<forall>w \<in> set (getWires c g). \<exists>v. val1 w = Some v \<and> exact D c w v (fst st1 - s0)"
          using vs inv1 unfolding island_inv_def by blast
        from island_value_ok[OF okD certs t this] obtain v where
          v: "island_value c val1 g = Inr v" "exact D c g v (fst st1 - s0)" by blast
        have inv2: "island_inv D c s0 (val1(g \<mapsto> v)) imv1 st1"
          by (rule island_inv_extend[OF inv1 _ _ _ v(2)]) (use inv1 in \<open>auto simp: island_inv_def\<close>)
        have "filter (\<lambda>w. val1 w = None) (getWires c g) = []" using vs by (auto simp: filter_empty_conv)
        then have "island_step ev c g val1 imv1 st1 = Some (Inr (IslandValue v imv1 st1))"
          using False v(1) by (auto simp: island_step_def)
        from island_runs_value[of val1 g, OF None this inv2] show ?thesis .
      qed
      show ?thesis
      proof (cases "missing = []")
        case True
        then show ?thesis by (intro again[OF Suc.prems(5)]) (auto simp: missing_def filter_empty_conv)
      next
        case m: False
        have "island_step ev c g val imv st = Some (Inr (IslandPush missing))"
          using False m by (auto simp: island_step_def missing_def)
        then have push: "island_loop ev c (g # rest) val imv st = island_loop ev c (rev missing @ g # rest) val imv st"
          using None by (subst island_loop.simps) simp
        have "island_runs D ev c s0 (rev missing) (g # rest) val imv st"
        proof (rule island_runs_list[OF _ Suc.prems(5)])
          fix w val imv st rest
          assume w: "w \<in> set (rev missing)" and i: "island_inv D c s0 val imv st"
          then have ww: "w \<in> set (getWires c g)" by (simp add: missing_def)
          show "island_runs D ev c s0 [w] rest val imv st"
            by (rule Suc.IH[OF _ kids(1)[OF ww] kids(2)[OF ww] _ i]) (use Suc.prems(1) in auto)
        qed
        then show ?thesis
        proof (cases rule: island_runs_cases)
          case error
          then show ?thesis by (simp add: island_runs_def push)
        next
          case (run val1 imv1 st1)
          have "set (getWires c g) \<subseteq> dom val1"
          proof
            fix x assume "x \<in> set (getWires c g)"
            then show "x \<in> dom val1" using run(3) by (cases "val x") (auto simp: missing_def)
          qed
          from again[OF run(2) this] show ?thesis
          proof (cases rule: island_runs_cases)
            case error
            then show ?thesis using run(1) push by (simp add: island_runs_def)
          next
            case run2: (run val2 imv2 st2)
            show ?thesis
            proof (rule island_runsI[OF _ run2(2)])
              show "dom val \<union> set [g] \<subseteq> dom val2" using run(3) run2(3) by (meson Un_subset_iff order_trans)
            qed (use push run(1) run2(1) in simp)
          qed
        qed
      qed
    qed
  qed
qed simp

lemma island_ok:
  assumes "wf_bool c" "keys_ok c" "certs_ok D c" "good_ev D c d ev" "Suc d \<le> D"
    and g: "depth_ok (Suc d) c g" "mulins c g = []" "isDNNFCertified c g" and st: "state_ok D c st"
  shows "result_ok (step_ok D c st g) (evaluateCertifiedIsland ev c g st)"
proof -
  have inv: "island_inv D c (fst st) Map.empty {} st" using st by (simp add: island_inv_def)
  have run: "island_runs D ev c (fst st) [g] [] Map.empty {} st"
    by (rule island_gate[OF assms(1-5) _ g(1,2) _ inv]) (simp_all add: g)
  have stop: "island_loop ev c [] val imv st' = Some (Inr (val, st'))" for val imv st'
    by (subst island_loop.simps) simp
  from run show ?thesis
  proof (cases rule: island_runs_cases)
    case 2: (run val imv st')
    then obtain v where v: "val g = Some v" by auto
    have e: "exact D c g v (fst st' - fst st)" and s: "state_ok D c st'" "fst st \<subseteq> fst st'"
      using 2(2) v by (auto simp: island_inv_def)
    have "result_ok (step_ok D c st g) (cache_result g (card (fst st)) (v, st'))"
      by (rule cache_result_ok[OF st s e])
    then show ?thesis using 2(1) v by (simp add: evaluateCertifiedIsland_def stop)
  qed (simp add: evaluateCertifiedIsland_def)
qed


section \<open>The evaluator\<close>

lemma exact_NOT:
  assumes "depth_ok D c g" "getGateType c g = NOT" "getWires c g = w # ws" "exact D c w v W"
  shows "exact D c g (1 - v) W"
  using assms(4) dep_comp[of "gate_owner c" "gate_fun D c w" W "\<lambda>x. 1 - x"]
  by (simp add: exact_def gate_fun_NOT[OF assms(1-3)] expect_one_minus)

lemma read_once_ok:
  assumes wf: "wf_bool c" and keys: "keys_ok c" and ev: "good_ev D c d ev" and dD: "Suc d \<le> D"
    and g: "depth_ok (Suc d) c g" "mulins c g = []" and st: "state_ok D c st"
  shows "result_ok (step_ok D c st g) (read_once_step ev c g st)"
proof -
  have rng: "g < length (gates c)" using g(1) by simp
  have okD: "depth_ok D c g" by (rule depth_ok_mono[OF dD g(1)])
  have ins: "state_ok D c (insert x (fst st), snd st)" for x using st by (simp add: state_ok_def)
  have kid: "good_child c d w" "w < length (gates c)" "depth_ok D c w"
    if "getGateType c g = AND \<or> getGateType c g = OR \<or> getGateType c g = NOT" "w \<in> set (getWires c g)" for w
  proof -
    have "depth_ok d c w" by (rule depth_ok_wires[OF g(1) that])
    moreover have "mulins c w = []" using keys rng that unfolding keys_ok_def by blast
    moreover have "depth_ok D c w" by (rule depth_ok_mono[OF _ \<open>depth_ok d c w\<close>]) (use dD in simp)
    ultimately show "good_child c d w" "depth_ok D c w" by (simp_all add: good_child_def)
    show "w < length (gates c)" using \<open>depth_ok d c w\<close> by (cases d) simp_all
  qed
  show ?thesis
  proof (cases "getGateType c g")
    case AND
    have "result_ok (\<lambda>(r', st'). fst st \<subseteq> fst st' \<and> state_ok D c st' \<and>
        dep (gate_owner c) (\<lambda>A. 1 * (\<Prod>x \<leftarrow> getWires c g. gate_fun D c x A)) (fst st' - fst st) \<and>
        circuit_expect c (\<lambda>A. 1 * (\<Prod>x \<leftarrow> getWires c g. gate_fun D c x A)) = r')
      (and_loop ev (getWires c g) 1 st)"
      by (rule and_loop_ok[OF ev _ st]) (use kid AND in \<open>auto simp: expect_const_fun\<close>)
    then show ?thesis
      using AND by (auto simp: result_ok_def read_once_step_def step_ok_def exact_def gate_fun_AND[OF okD AND])
  next
    case OR
    have kids: "\<forall>x \<in> set (getWires c g). or_child c d x \<and> depth_ok D c x"
    proof
      fix x assume x: "x \<in> set (getWires c g)"
      note k = kid[OF _ x, unfolded OR, simplified]
      obtain e where "D = Suc e" using dD by (cases D) simp_all
      then have "getWires c x \<noteq> []" if "getGateType c x = MULIN" using k(3) that by simp
      then show "or_child c d x \<and> depth_ok D c x"
        using k wf_bool_wires[OF wf k(2)] unfolding or_child_def by (cases "getWires c x") auto
    qed
    have "result_ok (\<lambda>(groups', st'). fst st \<subseteq> fst st' \<and>
       (\<exists>lm' ms' W'. or_inv D c (fst st) ({} \<union> set (getWires c g)) groups' lm' ms' st' W'))
       (or_loop ev c (getWires c g) [] {} {} st)"
      by (rule or_loop_ok[OF ev keys _ or_inv_start[OF st]]) (use kids in auto)
    then have "result_ok (step_ok D c st g)
      (bind_run (or_loop ev c (getWires c g) [] {} {} st) (\<lambda>(groups, st'). Some (Inr (or_value groups, st'))))"
    proof (rule result_ok_bind)
      fix r assume "case r of (groups', st') \<Rightarrow> fst st \<subseteq> fst st' \<and>
         (\<exists>lm' ms' W'. or_inv D c (fst st) ({} \<union> set (getWires c g)) groups' lm' ms' st' W')"
      then obtain groups st' lm ms W where r: "r = (groups, st')" "fst st \<subseteq> fst st'"
        "or_inv D c (fst st) (set (getWires c g)) groups lm ms st' W" by (cases r) auto
      have "state_ok D c st'" using r(3) by (simp add: or_inv_def)
      then show "result_ok (step_ok D c st g) (case r of (groups, st') \<Rightarrow> Some (Inr (or_value groups, st')))"
        using or_value_ok[OF okD OR kids r(3)] r(1,2) by (simp add: step_ok_def)
    qed
    then show ?thesis using OR by (simp add: read_once_step_def)
  next
    case NOT
    obtain w ws where w: "getWires c g = w # ws" using depth_ok_NOT[OF g(1) NOT] by blast
    have "result_ok (step_ok D c st w) (ev w st)" by (rule good_evD[OF ev kid(1) st]) (use NOT w in auto)
    then have "result_ok (step_ok D c st g) (bind_run (ev w st) (\<lambda>(v, st'). Some (Inr (1 - v, st'))))"
      by (rule result_ok_bind) (auto simp: step_ok_def exact_NOT[OF okD NOT w])
    then show ?thesis using NOT w by (simp add: read_once_step_def)
  next
    case IN
    then show ?thesis using exact_IN[OF okD IN g(2)] st ins
      by (auto simp: read_once_step_def step_ok_def split: if_splits elim: exact_mono)
  next
    case MULIN
    then obtain k ws where w: "getWires c g = k # ws" using g(1) by (cases "getWires c g") auto
    show ?thesis using exact_MULIN[OF wf okD MULIN w] ins MULIN w
      by (auto simp: read_once_step_def step_ok_def elim: exact_mono)
  qed (use g(1) in auto)
qed

lemma ind_eval_ok:
  assumes wf: "wf_bool c" and keys: "keys_ok c" and certs: "certs_ok D c"
  shows "d \<le> D \<Longrightarrow> good_ev D c d (ind_eval d c)"
proof (induction d)
  case 0
  then show ?case by (simp add: good_ev_def good_child_def)
next
  case (Suc d)
  then have ev: "good_ev D c d (ind_eval d c)" by simp
  show ?case unfolding good_ev_def
  proof (intro allI impI)
    fix g st assume g: "good_child c (Suc d) g" and st: "state_ok D c st"
    show "result_ok (step_ok D c st g) (ind_eval (Suc d) c g st)"
    proof (cases "snd st g")
      case (Some v)
      then show ?thesis using st by (simp add: step_ok_def state_ok_def)
    next
      case None
      have g': "depth_ok (Suc d) c g" "mulins c g = []" using g by (simp_all add: good_child_def)
      show ?thesis
      proof (cases "isDNNFCertified c g")
        case True
        then show ?thesis using island_ok[OF wf keys certs ev Suc.prems g' True st] None by simp
      next
        case False
        have "result_ok (step_ok D c st g)
          (bind_run (read_once_step (ind_eval d c) c g st) (cache_result g (card (fst st))))"
        proof (rule result_ok_bind[OF read_once_ok[OF wf keys ev Suc.prems g' st]])
          fix r assume "step_ok D c st g r"
          then show "result_ok (step_ok D c st g) (cache_result g (card (fst st)) r)"
            using cache_result_ok[OF st] by (cases r) (simp add: step_ok_def)
        qed
        then show ?thesis using None False by simp
      qed
    qed
  qed
qed

text \<open>C8: On an acyclic circuit with truthful certificates, the independent evaluation ends: it reports
  that the circuit is not independent, or it returns the exact probability over the independent
  inputs and the blocks of alternatives.\<close>

theorem independentEvaluation_exact:
  assumes "wf_bool c" "keys_ok c" "certs_ok d c" "depth_ok d c g" "mulins c g = []"
  shows "independentEvaluation d c g \<in>
    {Some (Inl not_independent), Some (Inr (circuit_prob c (\<lambda>A. bval d c A g)))}"
proof -
  have "state_ok d c ({}, Map.empty)" by (simp add: state_ok_def)
  then have "result_ok (step_ok d c ({}, Map.empty) g) (ind_eval d c g ({}, Map.empty))"
    using good_evD[OF ind_eval_ok[OF assms(1-3) order_refl]] assms(4,5) by (simp add: good_child_def)
  moreover have "circuit_prob c (\<lambda>A. bval d c A g) = circuit_expect c (gate_fun d c g)"
    unfolding circuit_prob_def circuit_expect_def
    by (rule bexp_cong) (simp add: gate_fun_def norm_world_id circuit_worlds_def)
  ultimately show ?thesis
    by (auto simp: result_ok_def independentEvaluation_def step_ok_def exact_def)
qed


text \<open>A block of two alternatives under a disjunction, and a certified conjunction above it.\<close>

definition example_bid :: bool_circuit where
  "example_bid = empty_bool_circuit\<lparr>gates := [IN, IN, MULIN, MULIN, OR, AND],
     wires := [[], [], [1], [1], [2, 3], [0, 4]], b_inputs := {0, 1}, b_mulinputs := {2, 3},
     b_prob := [1/2, 1, 1/3, 1/4, 1, 1], b_info := [3 \<mapsto> 1, 5 \<mapsto> 1]\<rparr>"

lemma example_bid_simps:
  "length (gates example_bid) = 6" "wires example_bid = [[], [], [1], [1], [2, 3], [0, 4]]"
  "gates example_bid = [IN, IN, MULIN, MULIN, OR, AND]" "b_prob example_bid = [1/2, 1, 1/3, 1/4, 1, 1]"
  "b_info example_bid = [3 \<mapsto> 1, 5 \<mapsto> 1]"
  by (simp_all add: example_bid_def)

lemma mulins_example_bid: "mulins example_bid k = (if k = 1 then [2, 3] else [])"
  by (simp add: mulins_def example_bid_simps getGateType_def getWires_def)

lemma keys_example_bid: "keys_ok example_bid"
proof -
  have "\<forall>g \<in> set [0..<6]. getGateType example_bid g = AND \<or> getGateType example_bid g = OR \<or> getGateType example_bid g = NOT \<longrightarrow>
      (\<forall>w \<in> set (getWires example_bid g). w \<noteq> 1)"
    by (simp add: getGateType_def getWires_def example_bid_simps upt_rec)
  then show ?thesis
    by (auto simp: keys_ok_def mulins_example_bid example_bid_simps(1) getInfo_def example_bid_simps(5) split: if_splits)
qed

lemma certs_example_bid: "certs_ok 3 example_bid"
proof -
  have "g = 5" if "isDNNFCertified example_bid g" for g
    using that by (auto simp: isDNNFCertified_def getInfo_def DNNF_CERT_INFO_def getGateType_def example_bid_simps split: if_splits)
  moreover have "gvars 3 example_bid 0 \<subseteq> {0}"
    by (simp add: getGateType_def getWires_def example_bid_simps numeral_eq_Suc)
  moreover have "gvars 3 example_bid 4 = {1}"
    by (simp add: getGateType_def getWires_def example_bid_simps numeral_eq_Suc)
  moreover have "getWires example_bid 5 = [0, 4]" "getGateType example_bid 5 = AND"
    by (simp_all add: getGateType_def getWires_def example_bid_simps)
  ultimately show ?thesis unfolding certs_ok_def by fastforce
qed

lemma independentEvaluation_exact_witness:
  "independentEvaluation 3 example_bid 5 \<in>
    {Some (Inl not_independent), Some (Inr (circuit_prob example_bid (\<lambda>A. bval 3 example_bid A 5)))}"
proof (rule independentEvaluation_exact[OF _ keys_example_bid certs_example_bid])
  show "wf_bool example_bid"
    by (rule wf_bool_exec) (simp_all add: example_bid_def empty_bool_circuit_def)
  show "depth_ok 3 example_bid 5"
    by (simp add: getGateType_def getWires_def example_bid_simps numeral_eq_Suc)
qed (simp add: mulins_example_bid)

section \<open>Read-once circuits\<close>

text \<open>No certificate, no multivalued input, and no variable below two wires of the same gate.\<close>

primrec read_once :: "nat \<Rightarrow> 'm bool_circuit_scheme \<Rightarrow> gate_t \<Rightarrow> bool" where
  "read_once 0 c g \<longleftrightarrow> False"
| "read_once (Suc d) c g \<longleftrightarrow> \<not> isDNNFCertified c g \<and>
     sorted_wrt (\<lambda>v w. gvars d c v \<inter> gvars d c w = {}) (getWires c g) \<and>
     (getGateType c g = IN \<or> (\<forall>w \<in> set (getWires c g). read_once d c w))"

definition returns :: "nat \<Rightarrow> 'm bool_circuit_scheme \<Rightarrow> evaluator \<Rightarrow> gate_t \<Rightarrow> bool" where
  "returns d c ev g \<longleftrightarrow> (\<forall>st. finite (fst st) \<longrightarrow> fst st \<inter> gvars d c g = {} \<longrightarrow>
     (\<exists>v st'. ev g st = Some (Inr (v, st')) \<and> finite (fst st') \<and> fst st' \<subseteq> fst st \<union> gvars d c g))"

lemma returnsE:
  assumes "returns d c ev g" "finite (fst st)" "fst st \<inter> gvars d c g = {}"
  obtains v st' where "ev g st = Some (Inr (v, st'))" "finite (fst st')" "fst st' \<subseteq> fst st \<union> gvars d c g"
  using assms unfolding returns_def by blast

lemma and_loop_returns:
  "\<forall>x \<in> set xs. returns d c ev x \<Longrightarrow> sorted_wrt (\<lambda>v w. gvars d c v \<inter> gvars d c w = {}) xs \<Longrightarrow>
   finite (fst st) \<Longrightarrow> fst st \<inter> (\<Union>x \<in> set xs. gvars d c x) = {} \<Longrightarrow>
   \<exists>v st'. and_loop ev xs r st = Some (Inr (v, st')) \<and> finite (fst st') \<and> fst st' \<subseteq> fst st \<union> (\<Union>x \<in> set xs. gvars d c x)"
proof (induction xs arbitrary: r st)
  case (Cons x xs)
  have "returns d c ev x" "fst st \<inter> gvars d c x = {}" using Cons.prems(1,4) by auto
  then obtain v st1 where 1: "ev x st = Some (Inr (v, st1))" "finite (fst st1)" "fst st1 \<subseteq> fst st \<union> gvars d c x"
    using returnsE[OF _ Cons.prems(3)] by metis
  have "fst st1 \<inter> (\<Union>x \<in> set xs. gvars d c x) = {}" using 1(3) Cons.prems(2,4) by auto
  from Cons.IH[OF _ _ 1(2) this, of "r * v"] Cons.prems(1,2) 1 show ?case by fastforce
qed simp

lemma or_loop_returns:
  assumes "\<And>g. getGateType c g = MULIN \<Longrightarrow> g \<notin> set xs"
  shows "\<forall>x \<in> set xs. returns d c ev x \<Longrightarrow> sorted_wrt (\<lambda>v w. gvars d c v \<inter> gvars d c w = {}) xs \<Longrightarrow>
   finite (fst st) \<Longrightarrow> fst st \<inter> (\<Union>x \<in> set xs. gvars d c x) = {} \<Longrightarrow>
   \<exists>gs st'. or_loop ev c xs groups lm ms st = Some (Inr (gs, st')) \<and> finite (fst st') \<and> fst st' \<subseteq> fst st \<union> (\<Union>x \<in> set xs. gvars d c x)"
  using assms
proof (induction xs arbitrary: groups st)
  case (Cons x xs)
  have "returns d c ev x" "fst st \<inter> gvars d c x = {}" using Cons.prems(1,4) by auto
  then obtain v st1 where 1: "ev x st = Some (Inr (v, st1))" "finite (fst st1)" "fst st1 \<subseteq> fst st \<union> gvars d c x"
    using returnsE[OF _ Cons.prems(3)] by metis
  have "fst st1 \<inter> (\<Union>x \<in> set xs. gvars d c x) = {}" using 1(3) Cons.prems(2,4) by auto
  moreover have "getGateType c x \<noteq> MULIN" using Cons.prems(5) by auto
  ultimately show ?case using Cons.IH[OF _ _ 1(2), of "group_put x v groups"] Cons.prems(1,2,5) 1 by fastforce
qed simp

lemma ind_eval_returns:
  assumes mul: "MULIN \<notin> set (gates c)"
  shows "depth_ok d c g \<Longrightarrow> read_once d c g \<Longrightarrow> returns d c (ind_eval d c) g"
proof (induction d arbitrary: g)
  case (Suc d)
  have g: "g < length (gates c)" using Suc.prems(1) by simp
  have nomul: "getGateType c h \<noteq> MULIN" if "h < length (gates c)" for h
    using mul that by (metis getGateType_def nth_mem)
  have mulins: "mulins c h = []" for h using nomul by (auto simp: mulins_def filter_empty_conv)
  have wire: "returns d c (ind_eval d c) w" "w < length (gates c)"
    if "getGateType c g = AND \<or> getGateType c g = OR \<or> getGateType c g = NOT" "w \<in> set (getWires c g)" for w
  proof -
    have w: "depth_ok d c w" by (rule depth_ok_wires[OF Suc.prems(1) that])
    show "returns d c (ind_eval d c) w" by (rule Suc.IH[OF w]) (use Suc.prems(2) that in auto)
    show "w < length (gates c)" using w by (cases d) simp_all
  qed
  have srt: "sorted_wrt (\<lambda>v w. gvars d c v \<inter> gvars d c w = {}) (getWires c g)" and nocert: "\<not> isDNNFCertified c g"
    using Suc.prems(2) by simp_all
  have step: "\<exists>v st'. read_once_step (ind_eval d c) c g st = Some (Inr (v, st')) \<and> finite (fst st') \<and>
      fst st' \<subseteq> fst st \<union> gvars (Suc d) c g"
    if st: "finite (fst st)" "fst st \<inter> gvars (Suc d) c g = {}" for st
  proof (cases "getGateType c g")
    case AND
    then show ?thesis using and_loop_returns[OF _ srt st(1), of "ind_eval d c" 1] wire st(2)
      by (auto simp: read_once_step_def)
  next
    case OR
    have "\<exists>gs st'. or_loop (ind_eval d c) c (getWires c g) [] {} {} st = Some (Inr (gs, st')) \<and> finite (fst st') \<and>
      fst st' \<subseteq> fst st \<union> (\<Union>x \<in> set (getWires c g). gvars d c x)"
      by (rule or_loop_returns[OF _ _ srt st(1)]) (use wire st(2) nomul OR in auto)
    then obtain gs st' where "or_loop (ind_eval d c) c (getWires c g) [] {} {} st = Some (Inr (gs, st'))" "finite (fst st')"
      "fst st' \<subseteq> fst st \<union> (\<Union>x \<in> set (getWires c g). gvars d c x)" by blast
    then show ?thesis using OR by (simp add: read_once_step_def)
  next
    case NOT
    obtain w ws where w: "getWires c g = w # ws" using depth_ok_NOT[OF Suc.prems(1) NOT] by blast
    have "returns d c (ind_eval d c) w" using wire(1) NOT w by simp
    moreover have "fst st \<inter> gvars d c w = {}" using st(2) NOT w by auto
    ultimately obtain v st' where "ind_eval d c w st = Some (Inr (v, st'))" "finite (fst st')" "fst st' \<subseteq> fst st \<union> gvars d c w"
      using returnsE[OF _ st(1)] by metis
    then show ?thesis using NOT w by (auto simp: read_once_step_def)
  next
    case IN
    have "constant_prob (b_getProb c g) \<longleftrightarrow> g \<in> const_inputs c" using IN g mulins by (simp add: const_inputs_def)
    then show ?thesis using IN st by (cases st) (auto simp: read_once_step_def split: if_splits)
  qed (use Suc.prems(1) nomul[OF g] in auto)
  show ?case unfolding returns_def
  proof (intro allI impI)
    fix st :: eval_state assume st: "finite (fst st)" "fst st \<inter> gvars (Suc d) c g = {}"
    show "\<exists>v st'. ind_eval (Suc d) c g st = Some (Inr (v, st')) \<and> finite (fst st') \<and> fst st' \<subseteq> fst st \<union> gvars (Suc d) c g"
    proof (cases "snd st g")
      case None
      obtain v st' where s: "read_once_step (ind_eval d c) c g st = Some (Inr (v, st'))" "finite (fst st')"
        "fst st' \<subseteq> fst st \<union> gvars (Suc d) c g" using step[OF st] by blast
      then show ?thesis using None nocert by (cases st') (simp add: cache_result_def del: gvars.simps)
    qed (use st in auto)
  qed
qed simp


text \<open>C9: On a circuit in which no variable occurs below two wires of a gate, the independent evaluation
  does return, and what it returns is the probability under independent inputs.\<close>

theorem independentEvaluation_read_once:
  assumes wf: "wf_bool c" and mul: "MULIN \<notin> set (gates c)" and ok: "depth_ok d c g" and ro: "read_once d c g"
    and cert: "\<forall>h < length (gates c). \<not> isDNNFCertified c h"
  shows "independentEvaluation d c g = Some (Inr
    (prob_of (b_getProb c) {u. u < length (gates c) \<and> gates c ! u = IN} (\<lambda>A. bval d c A g)))"
proof -
  have mulins: "mulins c h = []" for h
    using mul by (auto simp: mulins_def filter_empty_conv getGateType_def) (metis nth_mem)
  have "keys_ok c" by (simp add: keys_ok_def mulins)
  moreover have "certs_ok d c" using cert by (simp add: certs_ok_def)
  moreover have "returns d c (ind_eval d c) g" by (rule ind_eval_returns[OF mul ok ro])
  then obtain v st' where v: "ind_eval d c g ({}, Map.empty) = Some (Inr (v, st'))"
    by (rule returnsE[where st = "({}, Map.empty)"]) simp_all
  have st: "state_ok d c ({}, Map.empty)" by (simp add: state_ok_def)
  have "good_child c d g" using ok mulins by (simp add: good_child_def)
  from good_evD[OF ind_eval_ok[OF wf calculation order_refl] this st] v
  have "circuit_expect c (gate_fun d c g) = v" by (auto simp: step_ok_def exact_def)
  moreover have "circuit_expect c (gate_fun d c g) = circuit_expect c (\<lambda>A. of_bool (bval d c A g))"
    unfolding circuit_expect_def
    by (rule bexp_cong) (simp add: gate_fun_def norm_world_id circuit_worlds_def)
  ultimately show ?thesis
    using v circuit_prob_bernoulli[OF mul] by (simp add: independentEvaluation_def prob_of_def)
qed

text \<open>\<open>x0 \<and> \<not> (x1 \<or> x2)\<close>.\<close>

definition example_read_once :: bool_circuit where
  "example_read_once = empty_bool_circuit\<lparr>gates := [IN, IN, IN, OR, NOT, AND],
     wires := [[], [], [], [1, 2], [3], [0, 4]], b_inputs := {0, 1, 2},
     b_prob := [1/2, 1/4, 1/8, 1, 1, 1]\<rparr>"

lemma independentEvaluation_read_once_witness:
  "independentEvaluation 4 example_read_once 5 = Some (Inr
    (prob_of (b_getProb example_read_once) {u. u < length (gates example_read_once) \<and> gates example_read_once ! u = IN}
      (\<lambda>A. bval 4 example_read_once A 5)))"
proof (rule independentEvaluation_read_once)
  show "wf_bool example_read_once"
    by (rule wf_bool_exec) (simp_all add: example_read_once_def empty_bool_circuit_def)
  have nc: "\<not> isDNNFCertified example_read_once h" for h
    by (simp add: isDNNFCertified_def getInfo_def example_read_once_def empty_bool_circuit_def DNNF_CERT_INFO_def)
  then show "\<forall>h < length (gates example_read_once). \<not> isDNNFCertified example_read_once h" by simp
  show "depth_ok 4 example_read_once 5"
    by (simp add: example_read_once_def getGateType_def getWires_def numeral_eq_Suc)
  have t: "getGateType example_read_once h = [IN, IN, IN, OR, NOT, AND] ! h"
    "getWires example_read_once h = [[], [], [], [1, 2], [3], [0, 4]] ! h" for h
    by (simp_all add: example_read_once_def getGateType_def getWires_def)
  show "read_once 4 example_read_once 5" by (simp add: t nc numeral_eq_Suc)
qed (simp add: example_read_once_def)

end
