(* ===== verification/DDnnf.thy ===== *)
theory DDnnf
  imports ExactProb
begin

text \<open>
  The d-DNNF circuit (\<open>src/dDNNF.h\<close>, \<open>src/dDNNF.cpp\<close>): a Boolean circuit with a root and a cache of
  probabilities.  Here are its structural operations and its evaluators: the probability by an
  explicit stack of calls, the generic post-order walk of the power-index algorithms, and the
  Banzhaf value.  The evaluators are proved exact on decomposable, deterministic (and, for the power
  indices, smooth) circuits.
\<close>

record ddnnf = bool_circuit +
  dd_root :: gate_t
  dd_cache :: "gate_t \<rightharpoonup> real"

section \<open>Decomposability, determinism, smoothness\<close>

text \<open>The gates a d-DNNF is built from: an input has no wires, a NOT has one.\<close>

primrec dd_ok :: "nat \<Rightarrow> 'm bool_circuit_scheme \<Rightarrow> gate_t \<Rightarrow> bool" where
  "dd_ok 0 c g \<longleftrightarrow> False"
| "dd_ok (Suc d) c g \<longleftrightarrow> g < length (gates c) \<and> (case getGateType c g of
     IN \<Rightarrow> getWires c g = []
   | NOT \<Rightarrow> length (getWires c g) = 1 \<and> (\<forall>w \<in> set (getWires c g). dd_ok d c w)
   | AND \<Rightarrow> (\<forall>w \<in> set (getWires c g). dd_ok d c w)
   | OR \<Rightarrow> (\<forall>w \<in> set (getWires c g). dd_ok d c w)
   | _ \<Rightarrow> False)"

text \<open>The variables below a gate.\<close>

primrec dvars :: "nat \<Rightarrow> 'm bool_circuit_scheme \<Rightarrow> gate_t \<Rightarrow> gate_t set" where
  "dvars 0 c g = {}"
| "dvars (Suc d) c g = (if getGateType c g = IN then {g} else (\<Union>w \<in> set (getWires c g). dvars d c w))"

primrec decomposable :: "nat \<Rightarrow> 'm bool_circuit_scheme \<Rightarrow> gate_t \<Rightarrow> bool" where
  "decomposable 0 c g \<longleftrightarrow> True"
| "decomposable (Suc d) c g \<longleftrightarrow>
     (getGateType c g = AND \<longrightarrow> sorted_wrt (\<lambda>v w. dvars d c v \<inter> dvars d c w = {}) (getWires c g)) \<and>
     (\<forall>w \<in> set (getWires c g). decomposable d c w)"

primrec deterministic :: "nat \<Rightarrow> 'm bool_circuit_scheme \<Rightarrow> gate_t \<Rightarrow> bool" where
  "deterministic 0 c g \<longleftrightarrow> True"
| "deterministic (Suc d) c g \<longleftrightarrow>
     (getGateType c g = OR \<longrightarrow> sorted_wrt (\<lambda>v w. \<forall>A. \<not> (bval d c A v \<and> bval d c A w)) (getWires c g)) \<and>
     (\<forall>w \<in> set (getWires c g). deterministic d c w)"

primrec smooth :: "nat \<Rightarrow> 'm bool_circuit_scheme \<Rightarrow> gate_t \<Rightarrow> bool" where
  "smooth 0 c g \<longleftrightarrow> True"
| "smooth (Suc d) c g \<longleftrightarrow>
     (getGateType c g = OR \<longrightarrow> (\<forall>v \<in> set (getWires c g). \<forall>w \<in> set (getWires c g). dvars d c v = dvars d c w)) \<and>
     (\<forall>w \<in> set (getWires c g). smooth d c w)"

lemma dd_ok_wires: "dd_ok (Suc d) c g \<Longrightarrow> w \<in> set (getWires c g) \<Longrightarrow> dd_ok d c w"
  by (auto split: BooleanGate.splits)

lemma dd_ok_depth: "dd_ok d c g \<Longrightarrow> depth_ok d c g"
proof (induction d arbitrary: g)
  case (Suc d)
  then show ?case by (auto simp: length_Suc_conv split: BooleanGate.splits)
qed simp

lemma dd_ok_cases:
  assumes "dd_ok (Suc d) c g"
  obtains (IN) "getGateType c g = IN" "getWires c g = []"
  | (NOT) w where "getGateType c g = NOT" "getWires c g = [w]" "dd_ok d c w"
  | (AND) "getGateType c g = AND" "\<forall>w \<in> set (getWires c g). dd_ok d c w"
  | (OR) "getGateType c g = OR" "\<forall>w \<in> set (getWires c g). dd_ok d c w"
  using assms by (auto simp: length_Suc_conv split: BooleanGate.splits)

lemma finite_dvars [simp]: "finite (dvars d c g)"
  by (induction d arbitrary: g) simp_all

lemma bval_dvars: "dd_ok d c g \<Longrightarrow> A \<inter> dvars d c g = B \<inter> dvars d c g \<Longrightarrow> bval d c A g = bval d c B g"
proof (induction d arbitrary: g)
  case (Suc d)
  have w: "bval d c A w = bval d c B w" if "getGateType c g \<noteq> IN" "w \<in> set (getWires c g)" for w
    by (rule Suc.IH[OF dd_ok_wires[OF Suc.prems(1) that(2)]]) (use Suc.prems(2) that in auto)
  from Suc.prems(1) show ?case
  proof (cases rule: dd_ok_cases)
    case IN
    then show ?thesis using Suc.prems(2) by auto
  qed (use w in auto)
qed simp

lemma depends_on_dvars:
  assumes "dd_ok d c g"
  shows "depends_on (\<lambda>A. of_bool (bval d c A g) :: real) (dvars d c g)"
  unfolding depends_on_def
proof (intro allI impI)
  fix A B assume "A \<inter> dvars d c g = B \<inter> dvars d c g"
  from bval_dvars[OF assms this] show "(of_bool (bval d c A g) :: real) = of_bool (bval d c B g)" by simp
qed

section \<open>Variables and probability\<close>

text \<open>\<open>dDNNF::vars\<close>: the sweep does not go below an input.\<close>

definition vars :: "'m bool_circuit_scheme \<Rightarrow> gate_t \<Rightarrow> exn + gate_t set option" where
  "vars c rt = graph_sweep (length (gates c))
     (\<lambda>u. Some (if getGateType c u = IN then [] else getWires c u))
     (\<lambda>u acc. if getGateType c u = IN then insert u acc else acc) [rt] {} {}"

lemma reaches_dvars:
  assumes "reaches (\<lambda>u. Some (if getGateType c u = IN then [] else getWires c u)) g v" "getGateType c v = IN"
  shows "dd_ok d c g \<Longrightarrow> v \<in> dvars d c g"
proof -
  let ?kids = "\<lambda>u. Some (if getGateType c u = IN then [] else getWires c u)"
  assume ok: "dd_ok d c g"
  have "\<exists>e. dd_ok e c v \<and> dvars e c v \<subseteq> dvars d c g" using assms(1) ok
  proof (induction rule: reaches.induct)
    case (reach_step u v cs w)
    then obtain e where e: "dd_ok e c v" "dvars e c v \<subseteq> dvars d c u" by blast
    then obtain e' where e': "e = Suc e'" by (cases e) simp_all
    have "getGateType c v \<noteq> IN" "w \<in> set (getWires c v)" using reach_step.hyps by (auto split: if_splits)
    with e dd_ok_wires[of e' c v w] show ?case unfolding e' by (intro exI[of _ e']) auto
  qed blast
  then obtain e where "dd_ok e c v" "dvars e c v \<subseteq> dvars d c g" by blast
  then show ?thesis using assms(2) by (cases e) auto
qed

lemma dvars_subset_closed:
  assumes "\<forall>u \<in> S. getGateType c u \<noteq> IN \<longrightarrow> set (getWires c u) \<subseteq> S"
  shows "dd_ok d c g \<Longrightarrow> g \<in> S \<Longrightarrow> dvars d c g \<subseteq> {u \<in> S. getGateType c u = IN}"
proof (induction d arbitrary: g)
  case (Suc d)
  show ?case
  proof (cases "getGateType c g = IN")
    case False
    have "dvars d c w \<subseteq> {u \<in> S. getGateType c u = IN}" if "w \<in> set (getWires c g)" for w
      by (rule Suc.IH[OF dd_ok_wires[OF Suc.prems(1) that]]) (use assms False Suc.prems(2) that in blast)
    with False show ?thesis by auto
  qed (use Suc.prems(2) in simp)
qed simp

lemma vars_correct:
  assumes wf: "wf_bool c" and ok: "dd_ok d c g"
  shows "vars c g = Inr (Some (dvars d c g))"
proof -
  let ?n = "length (gates c)" and ?kids = "\<lambda>u. Some (if getGateType c u = IN then [] else getWires c u)"
  let ?visit = "\<lambda>u acc. if getGateType c u = IN then insert u acc else acc"
  have g: "g < ?n" using ok by (cases d) simp_all
  have "\<exists>r. graph_sweep ?n ?kids ?visit [g] {} {} = Inr r"
    by (rule graph_sweep_total) (use wf_bool_wires[OF wf] g in \<open>auto split: if_splits\<close>)
  then obtain r where r: "graph_sweep ?n ?kids ?visit [g] {} {} = Inr r" ..
  have "r \<noteq> None" using graph_sweep_gives_up[of ?n ?kids ?visit "[g]" "{}" "{}"] r by auto
  then obtain acc where acc: "r = Some acc" by auto
  from graph_sweep_run[OF r[unfolded acc]] obtain us where us: "acc = fold ?visit us {}" "g \<in> set us"
    "\<forall>u \<in> set us. set (if getGateType c u = IN then [] else getWires c u) \<subseteq> set us"
    "\<forall>u \<in> set us. reaches ?kids g u" by auto
  have a: "acc = {u \<in> set us. getGateType c u = IN}" using us(1) by (simp add: collect_fold)
  have "dvars d c g \<subseteq> acc" unfolding a
    by (rule dvars_subset_closed[OF _ ok us(2)]) (use us(3) in fastforce)
  moreover have "acc \<subseteq> dvars d c g" unfolding a using us(4) reaches_dvars[OF _ _ ok] by blast
  ultimately show ?thesis using r acc by (simp add: vars_def)
qed


text \<open>\<open>dDNNF::probabilityEvaluation\<close>.  The stack holds the calls that are open (gate, number of wires
  processed, partial value) with the pending result of the last one on top.\<close>

definition start_value :: "'m bool_circuit_scheme \<Rightarrow> gate_t \<Rightarrow> exn + real" where
  "start_value c g = (case getGateType c g of
     IN \<Rightarrow> Inr (b_getProb c g) | NOT \<Rightarrow> Inr 0 | AND \<Rightarrow> Inr 1 | OR \<Rightarrow> Inr 0
   | _ \<Rightarrow> Inl UndefinedBehaviour)"

definition add_child :: "'m bool_circuit_scheme \<Rightarrow> gate_t \<Rightarrow> real \<Rightarrow> real \<Rightarrow> real" where
  "add_child c g partial child =
     (if getGateType c g = AND then partial * child
      else if getGateType c g = NOT then 1 - child else partial + child)"

type_synonym call = "gate_t \<times> nat \<times> real"

partial_function (option) prob_loop :: "'m bool_circuit_scheme \<Rightarrow> call list \<Rightarrow> real option \<Rightarrow> (gate_t \<rightharpoonup> real) \<Rightarrow>
    (exn + real \<times> (gate_t \<rightharpoonup> real)) option" where
  "prob_loop c stack pending cache = (case stack of
     [] \<Rightarrow> (case pending of None \<Rightarrow> Some (Inl UndefinedBehaviour) | Some v \<Rightarrow> Some (Inr (v, cache)))
   | (g, k, partial) # rest \<Rightarrow>
       (case cache g of
          Some v \<Rightarrow> prob_loop c rest (Some v) cache
        | None \<Rightarrow>
            (case (if k = 0 then start_value c g
                   else Inr (add_child c g partial (case pending of None \<Rightarrow> 0 | Some v \<Rightarrow> v))) of
               Inl e \<Rightarrow> Some (Inl e)
             | Inr p' \<Rightarrow>
                 (if k < length (getWires c g)
                  then prob_loop c ((getWires c g ! k, 0, 0) # (g, k + 1, p') # rest) None cache
                  else prob_loop c rest (Some p') (cache(g \<mapsto> p'))))))"

declare prob_loop.simps [code]

definition probabilityEvaluation :: "ddnnf \<Rightarrow> (exn + real \<times> ddnnf) option" where
  "probabilityEvaluation dd =
     (if gates dd = [] then Some (Inr (0, dd))
      else bind_run (prob_loop dd [(dd_root dd, 0, 0)] None (dd_cache dd))
             (\<lambda>(v, cache). Some (Inr (v, dd\<lparr>dd_cache := cache\<rparr>))))"

text \<open>The value by recursion.\<close>

primrec prob_rec :: "nat \<Rightarrow> 'm bool_circuit_scheme \<Rightarrow> gate_t \<Rightarrow> real" where
  "prob_rec 0 c g = 0"
| "prob_rec (Suc d) c g = (case getGateType c g of
     IN \<Rightarrow> b_getProb c g
   | NOT \<Rightarrow> 1 - prob_rec d c (hd (getWires c g))
   | AND \<Rightarrow> (\<Prod>w \<leftarrow> getWires c g. prob_rec d c w)
   | OR \<Rightarrow> (\<Sum>w \<leftarrow> getWires c g. prob_rec d c w)
   | _ \<Rightarrow> 0)"

lemma sum_exclusive:
  "sorted_wrt (\<lambda>v w. \<not> (P v \<and> P w)) ws \<Longrightarrow> (\<Sum>w \<leftarrow> ws. of_bool (P w) :: real) = of_bool (\<exists>w \<in> set ws. P w)"
  by (induction ws) auto

lemma expect_one_minus_bool:
  "finite V \<Longrightarrow> expect p V (\<lambda>A. of_bool (\<not> \<phi> A)) = 1 - expect p V (\<lambda>A. of_bool (\<phi> A))"
  using prob_not[of V p \<phi>] by (simp add: prob_of_def)

lemma expect_AND:
  assumes fin: "finite V" and ok: "\<forall>w \<in> set ws. dd_ok d c w"
    and dec: "sorted_wrt (\<lambda>v w. dvars d c v \<inter> dvars d c w = {}) ws"
  shows "expect p V (\<lambda>A. of_bool (\<forall>w \<in> set ws. bval d c A w)) = (\<Prod>w \<leftarrow> ws. expect p V (\<lambda>A. of_bool (bval d c A w)))"
  using ok dec
proof (induction ws)
  case (Cons w ws)
  have d: "depends_on (\<lambda>A. of_bool (\<forall>w \<in> set ws. bval d c A w) :: real) (\<Union>w \<in> set ws. dvars d c w)"
    unfolding depends_on_def
  proof (intro allI impI)
    fix A B assume AB: "A \<inter> (\<Union>w \<in> set ws. dvars d c w) = B \<inter> (\<Union>w \<in> set ws. dvars d c w)"
    have "bval d c A w = bval d c B w" if w: "w \<in> set ws" for w
      by (rule bval_dvars) (use Cons.prems(1) w AB in auto)
    then show "(of_bool (\<forall>w \<in> set ws. bval d c A w) :: real) = of_bool (\<forall>w \<in> set ws. bval d c B w)" by simp
  qed
  have "expect p V (\<lambda>A. of_bool (\<forall>w \<in> set (w # ws). bval d c A w)) =
      expect p V (\<lambda>A. of_bool (bval d c A w) * of_bool (\<forall>w \<in> set ws. bval d c A w))"
    by (rule expect_cong) simp
  also have "\<dots> = expect p V (\<lambda>A. of_bool (bval d c A w)) * expect p V (\<lambda>A. of_bool (\<forall>w \<in> set ws. bval d c A w))"
    by (rule expect_indep[OF fin depends_on_dvars d]) (use Cons.prems in auto)
  finally show ?case using Cons by simp
qed (simp add: fin)

lemma prob_rec_correct:
  assumes fin: "finite V"
  shows "dd_ok d c g \<Longrightarrow> decomposable d c g \<Longrightarrow> deterministic d c g \<Longrightarrow> dvars d c g \<subseteq> V \<Longrightarrow>
    prob_rec d c g = expect (b_getProb c) V (\<lambda>A. of_bool (bval d c A g))"
proof (induction d arbitrary: g)
  case (Suc d)
  have kid: "prob_rec d c w = expect (b_getProb c) V (\<lambda>A. of_bool (bval d c A w))"
    if "getGateType c g \<noteq> IN" "w \<in> set (getWires c g)" for w
    by (rule Suc.IH[OF dd_ok_wires[OF Suc.prems(1) that(2)]]) (use Suc.prems(2-4) that in auto)
  from Suc.prems(1) show ?case
  proof (cases rule: dd_ok_cases)
    case IN
    then have "g \<in> V" using Suc.prems(4) by simp
    with IN show ?thesis by (simp add: expect_var[OF fin])
  next
    case (NOT w)
    then show ?thesis using kid[of w] by (simp add: expect_one_minus_bool[OF fin])
  next
    case AND
    then have "sorted_wrt (\<lambda>v w. dvars d c v \<inter> dvars d c w = {}) (getWires c g)" using Suc.prems(2) by simp
    from expect_AND[OF fin AND(2) this, of "b_getProb c"] kid AND show ?thesis by (simp cong: map_cong)
  next
    case OR
    have "sorted_wrt (\<lambda>v w. \<not> (bval d c A v \<and> bval d c A w)) (getWires c g)" for A
      by (rule sorted_wrt_mono_rel[of _ "\<lambda>v w. \<forall>A. \<not> (bval d c A v \<and> bval d c A w)"]) (use Suc.prems(3) OR in auto)
    from sum_exclusive[OF this] have "expect (b_getProb c) V (\<lambda>A. of_bool (\<exists>w \<in> set (getWires c g). bval d c A w)) =
        expect (b_getProb c) V (\<lambda>A. \<Sum>w \<leftarrow> getWires c g. of_bool (bval d c A w))" by simp
    then show ?thesis using kid OR by (simp add: expect_sum_list cong: map_cong)
  qed
qed simp


lemma prob_rec_Suc: "dd_ok d c g \<Longrightarrow> prob_rec (Suc d) c g = prob_rec d c g"
proof (induction d arbitrary: g)
  case (Suc d)
  have w: "prob_rec (Suc d) c w = prob_rec d c w" if "w \<in> set (getWires c g)" for w
    by (rule Suc.IH[OF dd_ok_wires[OF Suc.prems that]])
  from Suc.prems show ?case
  proof (cases rule: dd_ok_cases)
    case (NOT v)
    then show ?thesis unfolding prob_rec.simps(2)[of "Suc d"] using w by simp
  qed (simp_all add: prob_rec.simps(2)[of "Suc d"] w del: prob_rec.simps(2) cong: map_cong,
       simp_all add: w cong: map_cong)
qed simp

lemma prob_rec_mono: "d \<le> D \<Longrightarrow> dd_ok d c g \<Longrightarrow> dd_ok D c g \<and> prob_rec D c g = prob_rec d c g"
proof (induction D rule: dec_induct)
  case (step n)
  have "dd_ok m c g \<Longrightarrow> dd_ok (Suc m) c g" for m
  proof (induction m arbitrary: g)
    case (Suc m)
    from Suc.prems show ?case
      unfolding dd_ok.simps(2)[of "Suc m"] dd_ok.simps(2)[of m c g]
      by (auto simp del: dd_ok.simps dest: Suc.IH split: BooleanGate.splits)
  qed simp
  with step show ?case using prob_rec_Suc[of n c g] by simp
qed simp

definition cache_ok :: "nat \<Rightarrow> 'm bool_circuit_scheme \<Rightarrow> (gate_t \<rightharpoonup> real) \<Rightarrow> bool" where
  "cache_ok D c cache \<longleftrightarrow> (\<forall>g v. cache g = Some v \<longrightarrow> v = prob_rec D c g)"

lemma fold_mult: "foldl (*) a xs = a * prod_list xs" for a :: real
  by (induction xs arbitrary: a) (simp_all add: mult.assoc)

lemma fold_add: "foldl (+) a xs = a + sum_list xs" for a :: real
  by (induction xs arbitrary: a) (simp_all add: add.assoc)

lemma add_child_fold:
  assumes ok: "dd_ok (Suc d) c g" and dD: "Suc d \<le> D"
  shows "\<exists>s. start_value c g = Inr s \<and>
    foldl (add_child c g) s (map (prob_rec D c) (getWires c g)) = prob_rec D c g"
proof -
  have P: "prob_rec D c g = prob_rec (Suc d) c g" using prob_rec_mono[OF dD ok] by simp
  have w: "prob_rec D c w = prob_rec d c w" if "w \<in> set (getWires c g)" for w
    using prob_rec_mono[OF _ dd_ok_wires[OF ok that], of D] dD by simp
  from ok show ?thesis
  proof (cases rule: dd_ok_cases)
    case IN
    then show ?thesis unfolding P by (simp add: start_value_def)
  next
    case (NOT v)
    then show ?thesis unfolding P using w by (simp add: start_value_def add_child_def)
  next
    case AND
    then have "add_child c g = (*)" by (simp add: add_child_def fun_eq_iff)
    then show ?thesis unfolding P using AND w by (simp add: start_value_def fold_mult cong: map_cong)
  next
    case OR
    then have "add_child c g = (+)" by (simp add: add_child_def fun_eq_iff)
    then show ?thesis unfolding P using OR w by (simp add: start_value_def fold_add cong: map_cong)
  qed
qed

lemma prob_loop_run:
  assumes "d \<le> D"
  shows "dd_ok d c g \<Longrightarrow> cache_ok D c cache \<Longrightarrow>
    \<exists>cache'. cache_ok D c cache' \<and>
      prob_loop c ((g, 0, 0) # rest) pending cache = prob_loop c rest (Some (prob_rec D c g)) cache'"
  using assms
proof (induction d arbitrary: g cache rest pending)
  case (Suc d)
  let ?ws = "getWires c g" and ?v = "prob_rec D c"
  obtain s where s: "start_value c g = Inr s" "foldl (add_child c g) s (map ?v ?ws) = ?v g"
    using add_child_fold[OF Suc.prems(1,3)] by blast
  define acc where "acc k = foldl (add_child c g) s (map ?v (take k ?ws))" for k
  have acc_Suc: "acc (Suc k) = add_child c g (acc k) (?v (?ws ! k))" if "k < length ?ws" for k
    using that by (simp add: acc_def take_Suc_conv_app_nth)
  have acc_len: "acc (length ?ws) = ?v g" using s(2) by (simp add: acc_def)
  have cached: "\<exists>cache'. cache_ok D c cache' \<and> prob_loop c ((g, k, p) # rest) pend cache = prob_loop c rest (Some (?v g)) cache'"
    if "cache_ok D c cache" "cache g = Some u" for k p pend cache u
    using that by (subst prob_loop.simps) (auto simp: cache_ok_def)
  have child: "\<exists>cache'. cache_ok D c cache' \<and>
      prob_loop c ((?ws ! k, 0, 0) # rest') pend cache = prob_loop c rest' (Some (?v (?ws ! k))) cache'"
    if "k < length ?ws" "cache_ok D c cache" for k rest' pend cache
    by (rule Suc.IH[OF dd_ok_wires[OF Suc.prems(1)] that(2)]) (use that(1) Suc.prems(3) in auto)
  have fin: "cache_ok D c (cache(g \<mapsto> ?v g))" if "cache_ok D c cache" for cache
    using that by (auto simp: cache_ok_def)
  have inner: "\<exists>cache'. cache_ok D c cache' \<and>
      prob_loop c ((g, Suc k, acc k) # rest) (Some (?v (?ws ! k))) cache = prob_loop c rest (Some (?v g)) cache'"
    if "k < length ?ws" "cache_ok D c cache" for k cache
    using that
  proof (induction "length ?ws - k" arbitrary: k cache)
    case (Suc m)
    show ?case
    proof (cases "cache g")
      case None
      show ?thesis
      proof (cases "Suc k < length ?ws")
        case True
        have m: "m = length ?ws - Suc k" using Suc.hyps(2) by simp
        have "prob_loop c ((g, Suc k, acc k) # rest) (Some (?v (?ws ! k))) cache =
            prob_loop c ((?ws ! Suc k, 0, 0) # (g, Suc (Suc k), acc (Suc k)) # rest) None cache"
          using None True Suc.prems(1) by (subst prob_loop.simps) (simp add: acc_Suc)
        also obtain cache1 where c1: "cache_ok D c cache1"
          "prob_loop c ((?ws ! Suc k, 0, 0) # (g, Suc (Suc k), acc (Suc k)) # rest) None cache =
           prob_loop c ((g, Suc (Suc k), acc (Suc k)) # rest) (Some (?v (?ws ! Suc k))) cache1"
          using child[OF True Suc.prems(2)] by blast
        note c1(2)
        also obtain cache2 where c2: "cache_ok D c cache2"
          "prob_loop c ((g, Suc (Suc k), acc (Suc k)) # rest) (Some (?v (?ws ! Suc k))) cache1 =
           prob_loop c rest (Some (?v g)) cache2" using Suc.hyps(1)[OF m True c1(1)] by blast
        note c2(2)
        finally show ?thesis using c2(1) by blast
      next
        case False
        then have k: "Suc k = length ?ws" using Suc.prems(1) by simp
        have "add_child c g (acc k) (?v (?ws ! k)) = ?v g"
          using acc_Suc[OF Suc.prems(1)] acc_len unfolding k by simp
        then have "prob_loop c ((g, Suc k, acc k) # rest) (Some (?v (?ws ! k))) cache =
            prob_loop c rest (Some (?v g)) (cache(g \<mapsto> ?v g))"
          using None False by (subst prob_loop.simps) simp
        then show ?thesis using fin[OF Suc.prems(2)] by blast
      qed
    qed (use cached Suc.prems(2) in blast)
  qed simp
  show ?case
  proof (cases "cache g")
    case None
    show ?thesis
    proof (cases "?ws = []")
      case True
      then have "prob_loop c ((g, 0, 0) # rest) pending cache = prob_loop c rest (Some (?v g)) (cache(g \<mapsto> ?v g))"
        using None s by (subst prob_loop.simps) simp
      then show ?thesis using fin[OF Suc.prems(2)] by blast
    next
      case False
      then have k: "0 < length ?ws" by simp
      have "prob_loop c ((g, 0, 0) # rest) pending cache =
          prob_loop c ((?ws ! 0, 0, 0) # (g, Suc 0, acc 0) # rest) None cache"
        using None s k by (subst prob_loop.simps) (simp add: acc_def)
      moreover obtain cache1 where "cache_ok D c cache1"
        "prob_loop c ((?ws ! 0, 0, 0) # (g, Suc 0, acc 0) # rest) None cache =
         prob_loop c ((g, Suc 0, acc 0) # rest) (Some (?v (?ws ! 0))) cache1"
        using child[OF k Suc.prems(2)] by blast
      ultimately show ?thesis using inner[OF k] by auto
    qed
  qed (use cached Suc.prems(2) in blast)
qed simp

text \<open>C33: On a decomposable and deterministic circuit the stack machine ends with the probability of the
  root, with no recursion on the C stack; the cache it leaves holds only probabilities of its gates,
  so a second evaluation is right too.\<close>

theorem probabilityEvaluation_correct:
  assumes ok: "dd_ok d dd (dd_root dd)" and dec: "decomposable d dd (dd_root dd)" and det: "deterministic d dd (dd_root dd)"
    and cache: "cache_ok d dd (dd_cache dd)"
  shows "\<exists>cache. probabilityEvaluation dd =
      Some (Inr (prob_of (b_getProb dd) (dvars d dd (dd_root dd)) (\<lambda>A. bval d dd A (dd_root dd)), dd\<lparr>dd_cache := cache\<rparr>)) \<and>
    cache_ok d (dd\<lparr>dd_cache := cache\<rparr>) cache"
proof -
  have "gates dd \<noteq> []" using ok by (cases d) auto
  moreover obtain cache' where c': "cache_ok d dd cache'"
    "prob_loop dd [(dd_root dd, 0, 0)] None (dd_cache dd) = prob_loop dd [] (Some (prob_rec d dd (dd_root dd))) cache'"
    using prob_loop_run[OF order_refl ok cache] by blast
  moreover have "prob_loop dd [] (Some v) cache' = Some (Inr (v, cache'))" for v
    by (subst prob_loop.simps) simp
  moreover have "prob_rec d dd (dd_root dd) = prob_of (b_getProb dd) (dvars d dd (dd_root dd)) (\<lambda>A. bval d dd A (dd_root dd))"
    unfolding prob_of_def by (rule prob_rec_correct[OF finite_dvars ok dec det order_refl])
  moreover have "prob_rec e (dd\<lparr>dd_cache := cache'\<rparr>) g = prob_rec e dd g" for e g
    by (induction e arbitrary: g) (simp_all add: getGateType_def getWires_def b_getProb_def cong: BooleanGate.case_cong)
  ultimately show ?thesis by (auto simp: probabilityEvaluation_def cache_ok_def)
qed


text \<open>The circuit of x or y as a smooth d-DNNF: (x and (y or not y)) or (not x and y).\<close>

definition example_dd :: ddnnf where
  "example_dd = \<lparr>uuid2id = Map.empty, id2uuid = Map.empty,
     gates = [IN, IN, NOT, NOT, OR, AND, AND, OR],
     wires = [[], [], [0], [1], [1, 3], [0, 4], [2, 1], [5, 6]], b_inputs = {0, 1}, b_mulinputs = {},
     b_prob = [1/2, 1/4, 1, 1, 1, 1, 1, 1], b_info = Map.empty, b_probabilistic = True,
     dd_root = 7, dd_cache = Map.empty\<rparr>"

lemma example_dd_ok:
  "dd_ok 5 example_dd 7" "decomposable 5 example_dd 7" "deterministic 5 example_dd 7" "smooth 5 example_dd 7"
  by (auto simp: example_dd_def getGateType_def getWires_def numeral_eq_Suc)

lemma probabilityEvaluation_correct_witness:
  "\<exists>cache. probabilityEvaluation example_dd =
      Some (Inr (prob_of (b_getProb example_dd) (dvars 5 example_dd 7) (\<lambda>A. bval 5 example_dd A 7), example_dd\<lparr>dd_cache := cache\<rparr>)) \<and>
    cache_ok 5 (example_dd\<lparr>dd_cache := cache\<rparr>) cache"
proof -
  have r: "dd_root example_dd = 7" "dd_cache example_dd = Map.empty" by (simp_all add: example_dd_def)
  have c: "cache_ok 5 example_dd (dd_cache example_dd)" by (simp add: r cache_ok_def)
  show ?thesis
    using probabilityEvaluation_correct[of 5 example_dd, unfolded r(1), OF example_dd_ok(1-3) c] .
qed

end
