(* ===== verification/Walk.thy ===== *)
theory Walk
  imports DDnnf
begin

text \<open>
  The post-order walk with an explicit stack that the power-index algorithms of \<open>src/dDNNF.cpp\<close>
  share (\<open>banzhaf_internal\<close>, \<open>shapley_delta\<close>, \<open>shapley_alpha\<close>).  The loop is \<open>walk_loop\<close>; what an
  algorithm does at a gate is its parameter \<open>step\<close>.  The locale \<open>post_order_walk\<close> holds the contract of
  a step and proves that the walk ends with the value of the recursive definition.
\<close>

section \<open>The loop\<close>

text \<open>
  A stack entry is a gate and whether its wires have been pushed.  \<open>step result g b\<close> is an exception,
  the value to store for g, or the wires to push (with g itself below them, marked True).
\<close>

type_synonym 'v step = "(gate_t \<rightharpoonup> 'v) \<Rightarrow> gate_t \<Rightarrow> bool \<Rightarrow> exn + ('v + gate_t list)"

partial_function (option) walk_loop :: "'v step \<Rightarrow> (gate_t \<times> bool) list \<Rightarrow> (gate_t \<rightharpoonup> 'v) \<Rightarrow>
    (exn + (gate_t \<rightharpoonup> 'v)) option" where
  "walk_loop step stack result = (case stack of
     [] \<Rightarrow> Some (Inr result)
   | (node, b) # rest \<Rightarrow>
       (if result node \<noteq> None then walk_loop step rest result
        else (case step result node b of
            Inl e \<Rightarrow> Some (Inl e)
          | Inr (Inl v) \<Rightarrow> walk_loop step rest (result(node \<mapsto> v))
          | Inr (Inr ws) \<Rightarrow> walk_loop step (map (\<lambda>w. (w, False)) (rev ws) @ (node, True) # rest) result)))"

declare walk_loop.simps [code]

text \<open>The value by recursion.\<close>

primrec walk_rec :: "nat \<Rightarrow> (gate_t \<Rightarrow> 'v list \<Rightarrow> 'v) \<Rightarrow> 'm bool_circuit_scheme \<Rightarrow> gate_t \<Rightarrow> 'v" where
  "walk_rec 0 comb c g = comb g []"
| "walk_rec (Suc d) comb c g = comb g (map (walk_rec d comb c) (getWires c g))"

section \<open>The contract of a step\<close>

text \<open>
  \<open>good d g\<close>: the circuit below g has depth at most d and the shape the algorithm wants.  On such a
  gate the step pushes the wires first and then combines their values with \<open>comb\<close>.
\<close>

locale post_order_walk =
  fixes c :: "'m bool_circuit_scheme" and step :: "'v step" and comb :: "gate_t \<Rightarrow> 'v list \<Rightarrow> 'v"
    and good :: "nat \<Rightarrow> gate_t \<Rightarrow> bool"
  assumes good_0: "\<not> good 0 g"
    and good_wires: "good (Suc d) g \<Longrightarrow> w \<in> set (getWires c g) \<Longrightarrow> good d w"
    and step_leaf: "good (Suc d) g \<Longrightarrow> getWires c g = [] \<Longrightarrow> step r g False = Inr (Inl (comb g []))"
    and step_push: "good (Suc d) g \<Longrightarrow> getWires c g \<noteq> [] \<Longrightarrow> step r g False = Inr (Inr (getWires c g))"
    and step_value: "good (Suc d) g \<Longrightarrow> getWires c g \<noteq> [] \<Longrightarrow> set (getWires c g) \<subseteq> dom r \<Longrightarrow>
      step r g True = Inr (Inl (comb g (map (\<lambda>w. the (r w)) (getWires c g))))"
begin

lemma rec_mono: "good d g \<Longrightarrow> d \<le> D \<Longrightarrow> walk_rec D comb c g = walk_rec d comb c g"
proof (induction d arbitrary: g D)
  case (Suc d)
  then obtain D' where D': "D = Suc D'" "d \<le> D'" by (cases D) simp_all
  have "map (walk_rec D' comb c) (getWires c g) = map (walk_rec d comb c) (getWires c g)"
    by (rule map_cong[OF refl]) (rule Suc.IH[OF good_wires[OF Suc.prems(1)] D'(2)])
  then show ?case unfolding D'(1) by (simp only: walk_rec.simps)
qed (simp add: good_0)

definition result_ok :: "nat \<Rightarrow> (gate_t \<rightharpoonup> 'v) \<Rightarrow> bool" where
  "result_ok D result \<longleftrightarrow> (\<forall>g v. result g = Some v \<longrightarrow> v = walk_rec D comb c g \<and> set (getWires c g) \<subseteq> dom result)"

text \<open>Processing the entries es on top of the stack gives all their gates a value.\<close>

definition walks :: "nat \<Rightarrow> (gate_t \<times> bool) list \<Rightarrow> (gate_t \<times> bool) list \<Rightarrow> (gate_t \<rightharpoonup> 'v) \<Rightarrow> bool" where
  "walks D es rest result \<longleftrightarrow> (\<exists>result'. result_ok D result' \<and> dom result \<union> fst ` set es \<subseteq> dom result' \<and>
     walk_loop step (es @ rest) result = walk_loop step rest result')"

lemma walks_list:
  "(\<And>e result rest. e \<in> set es \<Longrightarrow> result_ok D result \<Longrightarrow> walks D [e] rest result) \<Longrightarrow>
   result_ok D result \<Longrightarrow> walks D es rest result"
proof (induction es arbitrary: result)
  case (Cons e es)
  have "walks D [e] (es @ rest) result" using Cons.prems by simp
  then obtain r1 where r1: "result_ok D r1" "dom result \<union> {fst e} \<subseteq> dom r1"
    "walk_loop step (e # es @ rest) result = walk_loop step (es @ rest) r1"
    unfolding walks_def by auto
  have "walks D es rest r1" by (rule Cons.IH[OF _ r1(1)]) (use Cons.prems(1) in simp)
  then obtain r2 where r2: "result_ok D r2" "dom r1 \<union> fst ` set es \<subseteq> dom r2"
    "walk_loop step (es @ rest) r1 = walk_loop step rest r2"
    unfolding walks_def by blast
  show ?case unfolding walks_def
    by (rule exI[of _ r2]) (use r1(2,3) r2 in auto)
qed (auto simp: walks_def)

lemma walks_skip: "result_ok D result \<Longrightarrow> result g \<noteq> None \<Longrightarrow> walks D [(g, b)] rest result"
  unfolding walks_def by (rule exI[of _ result], subst walk_loop.simps) auto

lemma walks_value:
  assumes "result_ok D result" "result g = None" "step result g b = Inr (Inl v)" "v = walk_rec D comb c g"
    "set (getWires c g) \<subseteq> dom result"
  shows "walks D [(g, b)] rest result"
  unfolding walks_def
  by (rule exI[of _ "result(g \<mapsto> v)"], subst walk_loop.simps) (use assms in \<open>fastforce simp: result_ok_def\<close>)

lemma walk_gate:
  assumes "d \<le> D"
  shows "good d g \<Longrightarrow> result_ok D result \<Longrightarrow> walks D [(g, False)] rest result"
  using assms
proof (induction d arbitrary: g result rest)
  case (Suc d)
  let ?v = "walk_rec D comb c" and ?ws = "getWires c g"
  note good = Suc.prems(1)
  have v: "?v g = comb g (map ?v ?ws)"
  proof -
    have "map ?v ?ws = map (walk_rec d comb c) ?ws"
      by (rule map_cong[OF refl], rule rec_mono[OF good_wires[OF good]]) (use Suc.prems(3) in auto)
    then show ?thesis unfolding rec_mono[OF good Suc.prems(3)] walk_rec.simps by (rule arg_cong[symmetric])
  qed
  show ?case
  proof (cases "result g")
    case None
    show ?thesis
    proof (cases "?ws = []")
      case True
      have "step result g False = Inr (Inl (?v g))" unfolding step_leaf[OF good True] v True by simp
      then show ?thesis using walks_value[OF Suc.prems(2) None] True by simp
    next
      case False
      have "walks D (map (\<lambda>w. (w, False)) (rev ?ws)) ((g, True) # rest) result"
      proof (rule walks_list[OF _ Suc.prems(2)])
        fix e result rest assume e: "e \<in> set (map (\<lambda>w. (w, False)) (rev ?ws))" and r: "result_ok D result"
        then obtain w where "e = (w, False)" "w \<in> set ?ws" by auto
        then show "walks D [e] rest result"
          using Suc.IH[OF good_wires[OF good] r] Suc.prems(3) by simp
      qed
      then obtain r1 where r1: "result_ok D r1" "dom result \<union> set ?ws \<subseteq> dom r1"
        "walk_loop step (map (\<lambda>w. (w, False)) (rev ?ws) @ (g, True) # rest) result = walk_loop step ((g, True) # rest) r1"
        unfolding walks_def by (auto simp: image_image)
      have push: "walk_loop step ((g, False) # rest) result =
          walk_loop step (map (\<lambda>w. (w, False)) (rev ?ws) @ (g, True) # rest) result"
        using None step_push[OF good False] by (subst walk_loop.simps) simp
      have "walks D [(g, True)] rest r1"
      proof (cases "r1 g")
        case None
        have m: "map (\<lambda>w. the (r1 w)) ?ws = map ?v ?ws"
          by (rule map_cong[OF refl]) (use r1(1,2) in \<open>force simp: result_ok_def\<close>)
        have "step r1 g True = Inr (Inl (?v g))"
          unfolding v m[symmetric] by (rule step_value[OF good False]) (use r1(2) in simp)
        then show ?thesis by (rule walks_value[OF r1(1) None]) (use r1(2) in auto)
      qed (use walks_skip[OF r1(1)] in simp)
      then obtain r2 where r2: "result_ok D r2" "dom r1 \<union> {g} \<subseteq> dom r2"
        "walk_loop step ((g, True) # rest) r1 = walk_loop step rest r2"
        unfolding walks_def by auto
      have "dom result \<subseteq> dom r2" using r1(2) r2(2) by (meson Un_subset_iff order_trans)
      then show ?thesis unfolding walks_def
        using push r1(3) r2 by (intro exI[of _ r2]) simp
    qed
  qed (use walks_skip[OF Suc.prems(2)] in simp)
qed (simp add: good_0)

lemma walk_correct:
  assumes "good d g"
  shows "\<exists>result. walk_loop step [(g, False)] Map.empty = Some (Inr result) \<and>
    result g = Some (walk_rec d comb c g) \<and>
    (\<forall>v x. result v = Some x \<longrightarrow> x = walk_rec d comb c v \<and> set (getWires c v) \<subseteq> dom result)"
proof -
  have "result_ok d Map.empty" by (simp add: result_ok_def)
  from walk_gate[OF order_refl assms this, of "[]"] obtain r where r: "result_ok d r" "g \<in> dom r"
    "walk_loop step [(g, False)] Map.empty = walk_loop step [] r" unfolding walks_def by auto
  moreover have "walk_loop step [] r = Some (Inr r)" by (subst walk_loop.simps) simp
  ultimately show ?thesis unfolding result_ok_def by force
qed

end

end
