(* ===== verification/Banzhaf.thy ===== *)
theory Banzhaf
  imports Walk
begin

text \<open>
  The Banzhaf value of a variable (\<open>dDNNF::banzhaf\<close> of \<open>src/dDNNF.cpp\<close>) and what it is built from:
  the sum over the subsets of the variables that \<open>banzhaf_internal\<close> computes by the walk of
  \<open>Walk\<close>, and the conditioning of a d-DNNF on a variable.
\<close>

section \<open>Sums over the subsets of the variables\<close>

text \<open>The weight of a set of true variables is the product of their probabilities; an absent variable
  weighs 1.\<close>

definition subset_sum :: "(nat \<Rightarrow> real) \<Rightarrow> nat set \<Rightarrow> (nat set \<Rightarrow> real) \<Rightarrow> real" where
  "subset_sum p V f = (\<Sum>A \<in> Pow V. prod p A * f A)"

lemma subset_sum_empty [simp]: "subset_sum p {} f = f {}"
  by (simp add: subset_sum_def)

lemma subset_sum_insert:
  assumes "finite V" "x \<notin> V"
  shows "subset_sum p (insert x V) f = subset_sum p V f + p x * subset_sum p V (\<lambda>A. f (insert x A))"
proof -
  have w: "prod p (insert x A) = p x * prod p A" if "A \<in> Pow V" for A
    using assms that finite_subset[of A V] by (subst prod.insert) auto
  have inj: "inj_on (insert x) (Pow V)" using assms(2) unfolding inj_on_def by auto
  have dis: "Pow V \<inter> insert x ` Pow V = {}" using assms(2) by auto
  have "subset_sum p (insert x V) f = subset_sum p V f + (\<Sum>A \<in> insert x ` Pow V. prod p A * f A)"
    unfolding subset_sum_def Pow_insert using assms(1) dis by (subst sum.union_disjoint) auto
  also have "(\<Sum>A \<in> insert x ` Pow V. prod p A * f A) = p x * subset_sum p V (\<lambda>A. f (insert x A))"
    unfolding subset_sum_def sum_distrib_left sum.reindex[OF inj] by (rule sum.cong) (auto simp: w)
  finally show ?thesis .
qed

lemma subset_sum_cong: "(\<And>A. A \<subseteq> V \<Longrightarrow> f A = g A) \<Longrightarrow> subset_sum p V f = subset_sum p V g"
  by (simp add: subset_sum_def)

lemma subset_sum_add: "subset_sum p V (\<lambda>A. f A + g A) = subset_sum p V f + subset_sum p V g"
  by (simp add: subset_sum_def distrib_left sum.distrib)

lemma subset_sum_diff: "subset_sum p V (\<lambda>A. f A - g A) = subset_sum p V f - subset_sum p V g"
  by (simp add: subset_sum_def right_diff_distrib sum_subtractf)

lemma subset_sum_sum_list: "subset_sum p V (\<lambda>A. \<Sum>x \<leftarrow> xs. f x A) = (\<Sum>x \<leftarrow> xs. subset_sum p V (f x))"
  by (induction xs) (simp_all add: subset_sum_add, simp add: subset_sum_def)

lemma subset_sum_const: "finite V \<Longrightarrow> subset_sum p V (\<lambda>_. 1) = (\<Prod>x \<in> V. 1 + p x)"
  by (induction V rule: finite_induct) (simp_all add: subset_sum_insert algebra_simps)

lemma depends_on_shift: "depends_on g (insert x W) \<Longrightarrow> depends_on (\<lambda>A. g (insert x A)) W"
  unfolding depends_on_def by (metis Int_insert_left_if1 Int_insert_right insertI1 insert_inter_insert)

lemma subset_sum_indep:
  assumes fin: "finite V" "finite W" and dis: "V \<inter> W = {}"
    and f: "depends_on f V" and g: "depends_on g W"
  shows "subset_sum p (V \<union> W) (\<lambda>A. f A * g A) = subset_sum p V f * subset_sum p W g"
  using fin(2) dis g
proof (induction W arbitrary: g rule: finite_induct)
  case empty
  have "g A = g {}" for A by (rule depends_onD[OF empty(2)]) simp
  then have "subset_sum p V (\<lambda>A. f A * g A) = subset_sum p V (\<lambda>A. f A * g {})" by metis
  then show ?case by (simp add: subset_sum_def sum_distrib_right mult.assoc)
next
  case (insert x W)
  have x: "x \<notin> V \<union> W" and fin': "finite (V \<union> W)" using insert fin by auto
  have fx: "f (insert x A) = f A" for A by (rule depends_onD[OF f]) (use insert.prems(1) in auto)
  have g1: "subset_sum p (V \<union> W) (\<lambda>A. f A * g (insert x A)) = subset_sum p V f * subset_sum p W (\<lambda>A. g (insert x A))"
    by (rule insert.IH) (use insert.prems depends_on_shift in auto)
  have "subset_sum p (V \<union> W) (\<lambda>A. f A * g A) = subset_sum p (V \<union> W) (\<lambda>A. f A * g (A - {x}))"
  proof (rule subset_sum_cong)
    fix A assume "A \<subseteq> V \<union> W"
    then have "A - {x} = A" using x by blast
    then show "f A * g A = f A * g (A - {x})" by simp
  qed
  also have "\<dots> = subset_sum p V f * subset_sum p W (\<lambda>A. g (A - {x}))"
  proof (rule insert.IH)
    show "depends_on (\<lambda>A. g (A - {x})) W" unfolding depends_on_def
    proof (intro allI impI)
      fix A B assume "A \<inter> W = B \<inter> W"
      then have "(A - {x}) \<inter> insert x W = (B - {x}) \<inter> insert x W" by blast
      then show "g (A - {x}) = g (B - {x})" by (rule depends_onD[OF insert.prems(2)])
    qed
  qed (use insert.prems in auto)
  also have "subset_sum p W (\<lambda>A. g (A - {x})) = subset_sum p W g"
  proof (rule subset_sum_cong)
    fix A assume "A \<subseteq> W"
    then have "A - {x} = A" using insert.hyps by blast
    then show "g (A - {x}) = g A" by simp
  qed
  finally show ?case
    using g1 subset_sum_insert[OF fin' x, of p "\<lambda>A. f A * g A"] subset_sum_insert[OF insert.hyps(1,2), of p g]
    by (simp add: fx algebra_simps)
qed

section \<open>The Banzhaf value\<close>

text \<open>\<open>banzhaf_internal\<close> keeps two maps, \<open>result\<close> and \<open>prod_one_plus_p\<close>: here the pair.\<close>

definition banzhaf_comb :: "'m bool_circuit_scheme \<Rightarrow> gate_t \<Rightarrow> (real \<times> real) list \<Rightarrow> real \<times> real" where
  "banzhaf_comb c g vs = (case getGateType c g of
     IN \<Rightarrow> (b_getProb c g, 1 + b_getProb c g)
   | NOT \<Rightarrow> (snd (hd vs) - fst (hd vs), snd (hd vs))
   | OR \<Rightarrow> if vs = [] then (0, 1) else (foldl (\<lambda>r v. r + fst v) 0 vs, snd (hd vs))
   | AND \<Rightarrow> if vs = [] then (1, 1) else (foldl (\<lambda>r v. r * fst v) 1 vs, foldl (\<lambda>r v. r * snd v) 1 vs)
   | _ \<Rightarrow> (0, 0))"

definition banzhaf_step :: "'m bool_circuit_scheme \<Rightarrow> (gate_t \<rightharpoonup> real \<times> real) \<Rightarrow> gate_t \<Rightarrow> bool \<Rightarrow> exn + (real \<times> real + gate_t list)" where
  "banzhaf_step c result node b =
     (let ws = getWires c node; res = (\<lambda>w. case result w of None \<Rightarrow> (0, 0) | Some v \<Rightarrow> v)
      in case getGateType c node of
        IN \<Rightarrow> Inr (Inl (banzhaf_comb c node []))
      | NOT \<Rightarrow> (case ws of [] \<Rightarrow> Inl UndefinedBehaviour
          | w # _ \<Rightarrow> if b then Inr (Inl (banzhaf_comb c node [res w])) else Inr (Inr [w]))
      | AND \<Rightarrow> if b then Inr (Inl (banzhaf_comb c node (map res ws)))
          else if ws = [] then Inr (Inl (banzhaf_comb c node [])) else Inr (Inr ws)
      | OR \<Rightarrow> if b then Inr (Inl (banzhaf_comb c node (map res ws)))
          else if ws = [] then Inr (Inl (banzhaf_comb c node [])) else Inr (Inr ws)
      | _ \<Rightarrow> Inl (CircuitException ''Incorrect gate type''))"

interpretation banz: post_order_walk c "banzhaf_step c" "banzhaf_comb c" "\<lambda>d. dd_ok d c" for c :: "'m bool_circuit_scheme"
proof unfold_locales
  fix d :: nat and g w :: gate_t and r :: "gate_t \<rightharpoonup> real \<times> real"
  show "\<not> dd_ok 0 c g" by simp
  assume ok: "dd_ok (Suc d) c g"
  show "w \<in> set (getWires c g) \<Longrightarrow> dd_ok d c w" by (rule dd_ok_wires[OF ok])
  show "getWires c g = [] \<Longrightarrow> banzhaf_step c r g False = Inr (Inl (banzhaf_comb c g []))"
    using ok by (cases rule: dd_ok_cases) (simp_all add: banzhaf_step_def)
  show "getWires c g \<noteq> [] \<Longrightarrow> banzhaf_step c r g False = Inr (Inr (getWires c g))"
    using ok by (cases rule: dd_ok_cases) (simp_all add: banzhaf_step_def Let_def)
  assume ne: "getWires c g \<noteq> []" and dom: "set (getWires c g) \<subseteq> dom r"
  have m: "map (\<lambda>w. case r w of None \<Rightarrow> (0, 0) | Some v \<Rightarrow> v) (getWires c g) = map (\<lambda>w. the (r w)) (getWires c g)"
    by (rule map_cong[OF refl]) (use dom in \<open>auto split: option.splits\<close>)
  from ok show "banzhaf_step c r g True = Inr (Inl (banzhaf_comb c g (map (\<lambda>w. the (r w)) (getWires c g))))"
    by (cases rule: dd_ok_cases) (use ne m in \<open>simp_all add: banzhaf_step_def Let_def cong: map_cong\<close>)
qed

definition banzhaf_internal :: "ddnnf \<Rightarrow> (exn + real) option" where
  "banzhaf_internal dd = bind_run (walk_loop (banzhaf_step dd) [(dd_root dd, False)] Map.empty)
     (\<lambda>result. Some (Inr (case result (dd_root dd) of None \<Rightarrow> 0 | Some v \<Rightarrow> fst v)))"

definition condition :: "ddnnf \<Rightarrow> gate_t \<Rightarrow> bool \<Rightarrow> ddnnf" where
  "condition dd var v =
     (let dd1 = setGateType dd var (if v then AND else OR);
          dd2 = dd1\<lparr>dd_cache := (dd_cache dd1)(var \<mapsto> (if v then 1 else 0)), b_inputs := b_inputs dd1 - {var}\<rparr>
      in case id2uuid dd2 var of
           None \<Rightarrow> dd2
         | Some u \<Rightarrow> dd2\<lparr>uuid2id := (uuid2id dd2)(u := None), id2uuid := (id2uuid dd2)(var := None)\<rparr>)"

definition banzhaf :: "ddnnf \<Rightarrow> gate_t \<Rightarrow> (exn + real) option" where
  "banzhaf dd var =
     bind_run (banzhaf_internal (condition dd var True)) (\<lambda>env_pos.
     bind_run (banzhaf_internal (condition dd var False)) (\<lambda>env_neg.
       Some (Inr (b_getProb dd var * (env_pos - env_neg)))))"

lemma fold_fst: "foldl (\<lambda>r v. r + f v) a vs = a + (\<Sum>v \<leftarrow> vs. f v)" for a :: real
  by (induction vs arbitrary: a) (simp_all add: add.assoc)

lemma fold_prod: "foldl (\<lambda>r v. r * f v) a vs = a * (\<Prod>v \<leftarrow> vs. f v)" for a :: real
  by (induction vs arbitrary: a) (simp_all add: mult.assoc)

lemma subset_sum_AND:
  assumes "\<forall>w \<in> set ws. dd_ok d c w" "sorted_wrt (\<lambda>v w. dvars d c v \<inter> dvars d c w = {}) ws"
  shows "subset_sum p (\<Union>w \<in> set ws. dvars d c w) (\<lambda>A. of_bool (\<forall>w \<in> set ws. bval d c A w)) =
    (\<Prod>w \<leftarrow> ws. subset_sum p (dvars d c w) (\<lambda>A. of_bool (bval d c A w)))"
  using assms
proof (induction ws)
  case (Cons w ws)
  let ?W = "\<Union>w \<in> set ws. dvars d c w"
  have dis: "dvars d c w \<inter> ?W = {}" using Cons.prems(2) by auto
  have d: "depends_on (\<lambda>A. of_bool (\<forall>w \<in> set ws. bval d c A w) :: real) ?W"
    unfolding depends_on_def
  proof (intro allI impI)
    fix A B assume AB: "A \<inter> ?W = B \<inter> ?W"
    have "bval d c A w = bval d c B w" if w: "w \<in> set ws" for w
      by (rule bval_dvars) (use Cons.prems(1) w AB in auto)
    then show "(of_bool (\<forall>w \<in> set ws. bval d c A w) :: real) = of_bool (\<forall>w \<in> set ws. bval d c B w)" by simp
  qed
  have "subset_sum p (\<Union>w \<in> set (w # ws). dvars d c w) (\<lambda>A. of_bool (\<forall>w \<in> set (w # ws). bval d c A w)) =
      subset_sum p (dvars d c w \<union> ?W) (\<lambda>A. of_bool (bval d c A w) * of_bool (\<forall>w \<in> set ws. bval d c A w))"
    by (simp add: of_bool_conj)
  also have "\<dots> = subset_sum p (dvars d c w) (\<lambda>A. of_bool (bval d c A w)) * subset_sum p ?W (\<lambda>A. of_bool (\<forall>w \<in> set ws. bval d c A w))"
    by (rule subset_sum_indep[OF _ _ dis depends_on_dvars d]) (use Cons.prems(1) in auto)
  finally show ?case using Cons by simp
qed simp

lemma prod_AND:
  "sorted_wrt (\<lambda>v w. dvars d c v \<inter> dvars d c w = {}) ws \<Longrightarrow>
   (\<Prod>x \<in> (\<Union>w \<in> set ws. dvars d c w). 1 + p x) = (\<Prod>w \<leftarrow> ws. \<Prod>x \<in> dvars d c w. 1 + p x)" for p :: "nat \<Rightarrow> real"
proof (induction ws)
  case (Cons w ws)
  let ?W = "\<Union>w \<in> set ws. dvars d c w"
  have "dvars d c w \<inter> ?W = {}" using Cons.prems by auto
  then have "(\<Prod>x \<in> dvars d c w \<union> ?W. 1 + p x) = (\<Prod>x \<in> dvars d c w. 1 + p x) * (\<Prod>x \<in> ?W. 1 + p x)"
    by (intro prod.union_disjoint) auto
  then show ?case using Cons by simp
qed simp

lemma banzhaf_values:
  "dd_ok d c g \<Longrightarrow> decomposable d c g \<Longrightarrow> deterministic d c g \<Longrightarrow> smooth d c g \<Longrightarrow>
   walk_rec d (banzhaf_comb c) c g =
     (subset_sum (b_getProb c) (dvars d c g) (\<lambda>A. of_bool (bval d c A g)), \<Prod>x \<in> dvars d c g. 1 + b_getProb c x)"
proof (induction d arbitrary: g)
  case (Suc d)
  let ?p = "b_getProb c" and ?ws = "getWires c g"
  let ?v = "\<lambda>w. (subset_sum ?p (dvars d c w) (\<lambda>A. of_bool (bval d c A w)), \<Prod>x \<in> dvars d c w. 1 + ?p x)"
  have kid: "walk_rec d (banzhaf_comb c) c w = ?v w" if "w \<in> set ?ws" for w
    by (rule Suc.IH[OF dd_ok_wires[OF Suc.prems(1) that]]) (use Suc.prems(2-4) that in auto)
  then have m: "map (walk_rec d (banzhaf_comb c) c) ?ws = map ?v ?ws" by simp
  from Suc.prems(1) show ?case
  proof (cases rule: dd_ok_cases)
    case IN
    then show ?thesis by (simp add: banzhaf_comb_def subset_sum_insert)
  next
    case (NOT w)
    have "subset_sum ?p (dvars d c w) (\<lambda>A. of_bool (\<not> bval d c A w)) =
        subset_sum ?p (dvars d c w) (\<lambda>A. 1 - of_bool (bval d c A w))"
      by (rule subset_sum_cong) simp
    then show ?thesis using NOT(1,2) unfolding walk_rec.simps m
      by (simp add: banzhaf_comb_def subset_sum_diff subset_sum_const)
  next
    case AND
    then have s: "sorted_wrt (\<lambda>v w. dvars d c v \<inter> dvars d c w = {}) ?ws" using Suc.prems(2) by simp
    have "walk_rec (Suc d) (banzhaf_comb c) c g =
        ((\<Prod>w \<leftarrow> ?ws. fst (?v w)), (\<Prod>w \<leftarrow> ?ws. snd (?v w)))"
      using AND(1) unfolding walk_rec.simps m by (simp add: banzhaf_comb_def fold_prod comp_def)
    also have "\<dots> = (subset_sum ?p (\<Union>w \<in> set ?ws. dvars d c w) (\<lambda>A. of_bool (\<forall>w \<in> set ?ws. bval d c A w)),
        \<Prod>x \<in> (\<Union>w \<in> set ?ws. dvars d c w). 1 + ?p x)"
      unfolding subset_sum_AND[OF AND(2) s] prod_AND[OF s] fst_conv snd_conv ..
    also have "\<dots> = (subset_sum ?p (dvars (Suc d) c g) (\<lambda>A. of_bool (bval (Suc d) c A g)), \<Prod>x \<in> dvars (Suc d) c g. 1 + ?p x)"
      using AND(1) by simp
    finally show ?thesis .
  next
    case OR
    show ?thesis
    proof (cases ?ws)
      case Nil
      then show ?thesis using OR(1) by (simp add: banzhaf_comb_def)
    next
      case (Cons w0 ws)
      have V: "dvars d c w = dvars d c w0" if "w \<in> set ?ws" for w
      proof -
        have "w0 \<in> set ?ws" unfolding Cons by simp
        then show ?thesis using Suc.prems(4) OR(1) that unfolding smooth.simps by blast
      qed
      have U: "(\<Union>w \<in> set ?ws. dvars d c w) = dvars d c w0"
      proof
        show "dvars d c w0 \<subseteq> (\<Union>w \<in> set ?ws. dvars d c w)" unfolding Cons by simp
      qed (use V in blast)
      have "sorted_wrt (\<lambda>v w. \<not> (bval d c A v \<and> bval d c A w)) ?ws" for A
        by (rule sorted_wrt_mono_rel[of _ "\<lambda>v w. \<forall>A. \<not> (bval d c A v \<and> bval d c A w)"])
           (use Suc.prems(3) OR(1) in auto)
      from sum_exclusive[OF this] have "subset_sum ?p (dvars d c w0) (\<lambda>A. of_bool (\<exists>w \<in> set ?ws. bval d c A w)) =
          (\<Sum>w \<leftarrow> ?ws. subset_sum ?p (dvars d c w0) (\<lambda>A. of_bool (bval d c A w)))"
        by (simp add: subset_sum_sum_list[symmetric])
      also have "\<dots> = (\<Sum>w \<leftarrow> ?ws. fst (?v w))"
        by (rule arg_cong[where f = sum_list], rule map_cong[OF refl], subst V) simp_all
      finally have s: "subset_sum ?p (dvars d c w0) (\<lambda>A. of_bool (\<exists>w \<in> set ?ws. bval d c A w)) = (\<Sum>w \<leftarrow> ?ws. fst (?v w))" .
      have "walk_rec (Suc d) (banzhaf_comb c) c g = ((\<Sum>w \<leftarrow> ?ws. fst (?v w)), snd (?v w0))"
        using OR(1) Cons unfolding walk_rec.simps m by (simp add: banzhaf_comb_def fold_fst comp_def)
      then show ?thesis using OR(1) s U by simp
    qed
  qed
qed simp


lemma subset_sum_expect:
  "finite V \<Longrightarrow> expect p V (\<lambda>E. \<Sum>S \<in> Pow E. f S) = subset_sum p V f"
proof (induction V arbitrary: f rule: finite_induct)
  case (insert x V)
  have "(\<Sum>S \<in> Pow (insert x E). f S) = (\<Sum>S \<in> Pow E. f S) + (\<Sum>S \<in> Pow E. f (insert x S))" if "E \<subseteq> V" for E
  proof -
    have fin: "finite E" and x: "x \<notin> E" using that insert.hyps finite_subset by auto
    have dis: "Pow E \<inter> insert x ` Pow E = {}" and inj: "inj_on (insert x) (Pow E)" using x unfolding inj_on_def by auto
    show ?thesis unfolding Pow_insert using fin dis by (simp add: sum.union_disjoint sum.reindex[OF inj])
  qed
  then have "expect p V (\<lambda>E. \<Sum>S \<in> Pow (insert x E). f S) =
      expect p V (\<lambda>E. \<Sum>S \<in> Pow E. f S) + expect p V (\<lambda>E. \<Sum>S \<in> Pow E. f (insert x S))"
    unfolding expect_add[symmetric] by (rule expect_cong)
  then show ?case using insert.hyps
    by (simp add: expect_insert subset_sum_insert insert.IH algebra_simps)
qed simp

text \<open>Only the worlds in which x is present count.\<close>

lemma expect_present:
  assumes "finite V"
  shows "expect p (insert x V) (\<lambda>E. if x \<in> E then f (E - {x}) else 0) = p x * expect p (V - {x}) f"
proof -
  have i: "insert x V = insert x (V - {x})" by blast
  have "expect p (V - {x}) (\<lambda>E. if x \<in> E then f (E - {x}) else 0) = expect p (V - {x}) (\<lambda>_. 0)"
    by (rule expect_cong) auto
  moreover have "expect p (V - {x}) (\<lambda>E. f (insert x E - {x})) = expect p (V - {x}) f"
  proof (rule expect_cong)
    fix E assume "E \<subseteq> V - {x}"
    then have "insert x E - {x} = E" by blast
    then show "f (insert x E - {x}) = f E" by simp
  qed
  ultimately show ?thesis unfolding i using assms by (subst expect_insert) simp_all
qed

section \<open>Conditioning\<close>

lemma condition_gates:
  assumes "x < length (gates c)"
  shows "getGateType (condition c x b) g = (if g = x then (if b then AND else OR) else getGateType c g)"
    "getWires (condition c x b) g = getWires c g" "b_getProb (condition c x b) = b_getProb c"
    "length (gates (condition c x b)) = length (gates c)" "dd_root (condition c x b) = dd_root c"
  using assms by (auto simp: condition_def Let_def getGateType_def getWires_def b_getProb_def setGateType_def fun_eq_iff
    nth_list_update split: option.splits)

text \<open>An input gate, the argument of \<open>condition\<close> (the code asserts that it is one).\<close>

definition is_input :: "ddnnf \<Rightarrow> gate_t \<Rightarrow> bool" where
  "is_input c x \<longleftrightarrow> x < length (gates c) \<and> getGateType c x = IN \<and> getWires c x = []"

lemma condition_ok: "is_input c x \<Longrightarrow> dd_ok d c g \<Longrightarrow> dd_ok d (condition c x b) g"
proof (induction d arbitrary: g)
  case (Suc d)
  have x: "x < length (gates c)" "getGateType c x = IN" "getWires c x = []" using Suc.prems(1) by (auto simp: is_input_def)
  show ?case
  proof (cases "g = x")
    case True
    then show ?thesis using x by (simp add: condition_gates[OF x(1)])
  next
    case False
    from Suc.prems(2) show ?thesis
      by (cases rule: dd_ok_cases) (use Suc False in \<open>simp_all add: condition_gates[OF x(1)]\<close>)
  qed
qed simp

lemma condition_dvars: "is_input c x \<Longrightarrow> dd_ok d c g \<Longrightarrow> dvars d (condition c x b) g = dvars d c g - {x}"
proof (induction d arbitrary: g)
  case (Suc d)
  have x: "x < length (gates c)" "getGateType c x = IN" "getWires c x = []" using Suc.prems(1) by (auto simp: is_input_def)
  have w: "dvars d (condition c x b) w = dvars d c w - {x}" if "w \<in> set (getWires c g)" for w
    by (rule Suc.IH[OF Suc.prems(1) dd_ok_wires[OF Suc.prems(2) that]])
  show ?case using w x(2,3) by (auto simp: condition_gates[OF x(1)])
qed simp

lemma condition_bval:
  "is_input c x \<Longrightarrow> dd_ok d c g \<Longrightarrow> bval d (condition c x b) A g = bval d c (if b then insert x A else A - {x}) g"
proof (induction d arbitrary: g)
  case (Suc d)
  have x: "x < length (gates c)" "getGateType c x = IN" "getWires c x = []" using Suc.prems(1) by (auto simp: is_input_def)
  have w: "bval d (condition c x b) A w = bval d c (if b then insert x A else A - {x}) w" if "w \<in> set (getWires c g)" for w
    by (rule Suc.IH[OF Suc.prems(1) dd_ok_wires[OF Suc.prems(2) that]])
  show ?case
  proof (cases "g = x")
    case True
    then show ?thesis using x(2,3) by (simp add: condition_gates[OF x(1)])
  next
    case False
    from Suc.prems(2) show ?thesis
    proof (cases rule: dd_ok_cases)
      case (NOT v)
      then show ?thesis using w[of v] False by (simp add: condition_gates[OF x(1)])
    qed (use w False in \<open>auto simp: condition_gates[OF x(1)]\<close>)
  qed
qed simp

lemma condition_decomposable:
  "is_input c x \<Longrightarrow> dd_ok d c g \<Longrightarrow> decomposable d c g \<Longrightarrow> decomposable d (condition c x b) g"
proof (induction d arbitrary: g)
  case (Suc d)
  have x: "x < length (gates c)" "getGateType c x = IN" "getWires c x = []" using Suc.prems(1) by (auto simp: is_input_def)
  have "sorted_wrt (\<lambda>v w. dvars d (condition c x b) v \<inter> dvars d (condition c x b) w = {}) (getWires c g)"
    if "getGateType c g = AND"
    by (rule sorted_wrt_mono_rel[of _ "\<lambda>v w. dvars d c v \<inter> dvars d c w = {}"])
      (use that Suc.prems condition_dvars dd_ok_wires in auto)
  moreover have "decomposable d (condition c x b) w" if "w \<in> set (getWires c g)" for w
    by (rule Suc.IH[OF Suc.prems(1) dd_ok_wires[OF Suc.prems(2) that]]) (use Suc.prems(3) that in simp)
  ultimately show ?case unfolding decomposable.simps condition_gates[OF x(1)] using x(2,3) by simp
qed simp

lemma condition_deterministic:
  "is_input c x \<Longrightarrow> dd_ok d c g \<Longrightarrow> deterministic d c g \<Longrightarrow> deterministic d (condition c x b) g"
proof (induction d arbitrary: g)
  case (Suc d)
  have x: "x < length (gates c)" "getGateType c x = IN" "getWires c x = []" using Suc.prems(1) by (auto simp: is_input_def)
  have "sorted_wrt (\<lambda>v w. \<forall>A. \<not> (bval d (condition c x b) A v \<and> bval d (condition c x b) A w)) (getWires c g)"
    if "getGateType c g = OR"
    by (rule sorted_wrt_mono_rel[of _ "\<lambda>v w. \<forall>A. \<not> (bval d c A v \<and> bval d c A w)"])
      (use that Suc.prems(3) condition_bval[OF Suc.prems(1) dd_ok_wires[OF Suc.prems(2)]] in simp_all)
  moreover have "deterministic d (condition c x b) w" if "w \<in> set (getWires c g)" for w
    by (rule Suc.IH[OF Suc.prems(1) dd_ok_wires[OF Suc.prems(2) that]]) (use Suc.prems(3) that in simp)
  ultimately show ?case unfolding deterministic.simps condition_gates[OF x(1)] using x(2,3) by simp
qed simp

lemma smooth_wires: "smooth (Suc d) c g \<Longrightarrow> w \<in> set (getWires c g) \<Longrightarrow> smooth d c w"
  unfolding smooth.simps by blast

lemma condition_smooth: "is_input c x \<Longrightarrow> dd_ok d c g \<Longrightarrow> smooth d c g \<Longrightarrow> smooth d (condition c x b) g"
proof (induction d arbitrary: g)
  case (Suc d)
  have x: "x < length (gates c)" "getGateType c x = IN" "getWires c x = []" using Suc.prems(1) by (auto simp: is_input_def)
  have w: "dvars d (condition c x b) w = dvars d c w - {x}" if "w \<in> set (getWires c g)" for w
    by (rule condition_dvars[OF Suc.prems(1) dd_ok_wires[OF Suc.prems(2) that]])
  have "dvars d (condition c x b) v = dvars d (condition c x b) w'"
    if or: "getGateType c g = OR" and v: "v \<in> set (getWires c g)" "w' \<in> set (getWires c g)" for v w'
  proof -
    have "dvars d c v = dvars d c w'" using or v Suc.prems(3) unfolding smooth.simps by blast
    then show "dvars d (condition c x b) v = dvars d (condition c x b) w'" unfolding w[OF v(1)] w[OF v(2)] by (rule arg_cong)
  qed
  moreover have "smooth d (condition c x b) w" if "w \<in> set (getWires c g)" for w
    by (rule Suc.IH[OF Suc.prems(1) dd_ok_wires[OF Suc.prems(2) that] smooth_wires[OF Suc.prems(3) that]])
  moreover have "getGateType (condition c x b) g = OR \<Longrightarrow> getWires c g \<noteq> [] \<Longrightarrow> getGateType c g = OR"
    using x by (auto simp: condition_gates[OF x(1)] split: if_splits)
  ultimately show ?case unfolding smooth.simps condition_gates(2)[OF x(1)] by (metis empty_iff empty_set)
qed simp


lemma banzhaf_internal_value:
  assumes "dd_ok d c (dd_root c)" "decomposable d c (dd_root c)" "deterministic d c (dd_root c)" "smooth d c (dd_root c)"
  shows "banzhaf_internal c = Some (Inr (subset_sum (b_getProb c) (dvars d c (dd_root c)) (\<lambda>A. of_bool (bval d c A (dd_root c)))))"
proof -
  from banz.walk_correct[OF assms(1)] obtain r where
    "walk_loop (banzhaf_step c) [(dd_root c, False)] Map.empty = Some (Inr r)"
    "r (dd_root c) = Some (walk_rec d (banzhaf_comb c) c (dd_root c))" by blast
  then show ?thesis using banzhaf_values[OF assms] by (simp add: banzhaf_internal_def)
qed

text \<open>C34: On a smooth, decomposable and deterministic circuit \<open>banzhaf\<close> returns the expected Banzhaf
  value of the variable x: the expectation, over the random set E of tuples that are present, of the
  number of subsets S of E without x that become accepting when x is added, counted 0 when x is
  absent (and negatively where x makes the circuit reject).\<close>

theorem banzhaf_correct:
  assumes ok: "dd_ok d dd (dd_root dd)" and dec: "decomposable d dd (dd_root dd)"
    and det: "deterministic d dd (dd_root dd)" and sm: "smooth d dd (dd_root dd)"
    and x: "is_input dd x"
  shows "banzhaf dd x = Some (Inr (expect (b_getProb dd) (insert x (dvars d dd (dd_root dd)))
    (\<lambda>E. if x \<in> E then \<Sum>S \<in> Pow (E - {x}). of_bool (bval d dd (insert x S) (dd_root dd)) - of_bool (bval d dd S (dd_root dd)) else 0)))"
proof -
  have x1: "x < length (gates dd)" using x by (simp add: is_input_def)
  let ?p = "b_getProb dd" and ?g = "dd_root dd" and ?W = "dvars d dd (dd_root dd) - {x}"
  have cond: "banzhaf_internal (condition dd x b) =
      Some (Inr (subset_sum ?p ?W (\<lambda>S. of_bool (bval d dd (if b then insert x S else S - {x}) ?g))))" for b
    using banzhaf_internal_value[of d "condition dd x b"] condition_ok[OF x ok] condition_decomposable[OF x ok dec]
      condition_deterministic[OF x ok det] condition_smooth[OF x ok sm]
    by (simp add: condition_gates[OF x1] condition_dvars[OF x ok] condition_bval[OF x ok])
  have neg: "subset_sum ?p ?W (\<lambda>S. of_bool (bval d dd (S - {x}) ?g)) = subset_sum ?p ?W (\<lambda>S. of_bool (bval d dd S ?g))"
    by (rule subset_sum_cong) (simp add: Diff_triv subset_Diff_insert)
  let ?\<delta> = "\<lambda>S. of_bool (bval d dd (insert x S) ?g) - of_bool (bval d dd S ?g) :: real"
  have "expect ?p (insert x (dvars d dd ?g)) (\<lambda>E. if x \<in> E then \<Sum>S \<in> Pow (E - {x}). ?\<delta> S else 0) =
      ?p x * expect ?p ?W (\<lambda>Z. \<Sum>S \<in> Pow Z. ?\<delta> S)" by (rule expect_present) simp
  also have "expect ?p ?W (\<lambda>Z. \<Sum>S \<in> Pow Z. ?\<delta> S) = subset_sum ?p ?W ?\<delta>" by (rule subset_sum_expect) simp
  also have "\<dots> = subset_sum ?p ?W (\<lambda>S. of_bool (bval d dd (insert x S) ?g)) - subset_sum ?p ?W (\<lambda>S. of_bool (bval d dd S ?g))"
    by (rule subset_sum_diff)
  finally show ?thesis using cond[of True] cond[of False] neg by (simp add: banzhaf_def)
qed

lemma banzhaf_correct_witness:
  "banzhaf example_dd 0 = Some (Inr (expect (b_getProb example_dd) (insert 0 (dvars 5 example_dd 7))
    (\<lambda>E. if 0 \<in> E then \<Sum>S \<in> Pow (E - {0}). of_bool (bval 5 example_dd (insert 0 S) 7) - of_bool (bval 5 example_dd S 7) else 0)))"
proof -
  have r: "dd_root example_dd = 7" "is_input example_dd 0"
    by (simp_all add: is_input_def example_dd_def getGateType_def getWires_def)
  show ?thesis using banzhaf_correct[of 5 example_dd, unfolded r(1), OF example_dd_ok r(2)] .
qed

end
