(* ===== verification/Shapley.thy ===== *)
theory Shapley
  imports Banzhaf
begin

text \<open>
  The expected Shapley value of a variable (\<open>dDNNF::shapley\<close> of \<open>src/dDNNF.cpp\<close>): the binomial
  coefficients in 64-bit arithmetic, the two tables \<open>shapley_delta\<close> and \<open>shapley_alpha\<close> filled by the walk
  of \<open>Walk\<close>, and the weighted sum.  The tables are proved to count pairs of nested subsets, and the
  result to be the expectation of the Shapley value.
\<close>

section \<open>Binomial coefficients\<close>

text \<open>A \<open>long long\<close> that overflows wraps on the machines the code runs on; division truncates.\<close>

definition wrap64 :: "int \<Rightarrow> int" where
  "wrap64 x = (x + 2 ^ 63) mod 2 ^ 64 - 2 ^ 63"

function comb :: "nat \<Rightarrow> nat \<Rightarrow> int" where
  "comb n k =
     (if k = 0 then 1
      else if k > n div 2 then comb n (n - k)
      else (let x = wrap64 (int n * comb (n - 1) (k - 1)) in sgn x * (\<bar>x\<bar> div int k)))"
  by pat_completeness auto
termination by (relation "measures [fst, \<lambda>(n, k). if k > n div 2 then 1 else 0]") auto

declare comb.simps [simp del]

lemma wrap64_id: "0 \<le> x \<Longrightarrow> x < 2 ^ 63 \<Longrightarrow> wrap64 x = x"
  by (simp add: wrap64_def)

lemma choose_mono: "m \<le> n \<Longrightarrow> (m choose k) \<le> (n choose k)"
proof (induction n rule: dec_induct)
  case (step n)
  have "(n choose k) \<le> (Suc n choose k)" by (cases k) simp_all
  with step.IH show ?case by (rule order_trans)
qed simp

lemma choose_60: "m \<le> 60 \<Longrightarrow> (m choose k) \<le> 118264581564861424"
proof -
  assume "m \<le> 60"
  then have "(m choose k) \<le> (60 choose k)" by (rule choose_mono)
  also have "\<dots> \<le> (60 choose (60 div 2))" by (rule binomial_maximum)
  also have "\<dots> = 118264581564861424"
  proof -
    have "real (60 choose (60 div 2)) = real 118264581564861424"
      by (subst binomial_fact) (simp_all add: fact_numeral)
    then show ?thesis by (simp only: of_nat_eq_iff)
  qed
  finally show ?thesis .
qed

lemma comb_correct: "n \<le> 61 \<Longrightarrow> k \<le> n \<Longrightarrow> comb n k = int (n choose k)"
proof (induction n k rule: comb.induct)
  case (1 n k)
  show ?case
  proof (cases "k = 0 \<or> k > n div 2")
    case True
    then show ?thesis using 1 binomial_symmetric[of k n] by (subst comb.simps) auto
  next
    case False
    have c: "comb (n - 1) (k - 1) = int (n - 1 choose (k - 1))" by (rule "1.IH"(2)) (use False 1 in auto)
    have abs: "n * (n - 1 choose (k - 1)) = k * (n choose k)"
      using False 1 times_binomial_minus1_eq[of k n] by simp
    have "(n - 1 choose (k - 1)) \<le> 118264581564861424" using "1.prems"(1) by (intro choose_60) simp
    then have "n * (n - 1 choose (k - 1)) \<le> 61 * 118264581564861424" using "1.prems"(1) by (intro mult_mono) simp_all
    then have "int n * int (n - 1 choose (k - 1)) < 2 ^ 63" by (simp flip: of_nat_mult)
    then have "wrap64 (int n * int (n - 1 choose (k - 1))) = int n * int (n - 1 choose (k - 1))"
      by (intro wrap64_id) simp_all
    then have "wrap64 (int n * comb (n - 1) (k - 1)) = int (n * (n - 1 choose (k - 1)))" unfolding c of_nat_mult .
    then have w: "wrap64 (int n * comb (n - 1) (k - 1)) = int (k * (n choose k))" unfolding abs .
    have "0 < (n choose k)" using "1.prems"(2) by (rule zero_less_binomial)
    then show ?thesis using False by (subst comb.simps) (simp add: w[unfolded One_nat_def] sgn_mult)
  qed
qed


text \<open>From 62 on the product overflows.\<close>

lemma comb_overflow: "comb 62 31 < 0"
proof -
  have "real (61 choose 30) = real 232714176627630544" by (subst binomial_fact) (simp_all add: fact_numeral)
  then have "(61 choose 30) = 232714176627630544" by (simp only: of_nat_eq_iff)
  then have "comb 61 30 = 232714176627630544" using comb_correct[of 61 30] by simp
  then show ?thesis by (subst comb.simps) (simp add: wrap64_def)
qed

section \<open>Pairs of nested subsets\<close>

text \<open>The expectation, over the random set Z of variables, of a sum over the subsets of Z.\<close>

definition nested :: "(nat \<Rightarrow> real) \<Rightarrow> nat set \<Rightarrow> (nat set \<Rightarrow> nat set \<Rightarrow> real) \<Rightarrow> real" where
  "nested p V F = expect p V (\<lambda>Z. \<Sum>S \<in> Pow Z. F Z S)"

lemma nested_empty [simp]: "nested p {} F = F {} {}"
  by (simp add: nested_def)

lemma sum_Pow_insert:
  fixes f :: "'a set \<Rightarrow> real"
  assumes "finite Z" "x \<notin> Z"
  shows "(\<Sum>S \<in> Pow (insert x Z). f S) = (\<Sum>S \<in> Pow Z. f S) + (\<Sum>S \<in> Pow Z. f (insert x S))"
proof -
  have "Pow Z \<inter> insert x ` Pow Z = {}" "inj_on (insert x) (Pow Z)" using assms(2) unfolding inj_on_def by auto
  then show ?thesis unfolding Pow_insert using assms(1) by (simp add: sum.union_disjoint sum.reindex)
qed

lemma nested_insert:
  assumes "finite V" "x \<notin> V"
  shows "nested p (insert x V) F = (1 - p x) * nested p V F + p x * nested p V (\<lambda>Z S. F (insert x Z) S)
    + p x * nested p V (\<lambda>Z S. F (insert x Z) (insert x S))"
proof -
  have "expect p V (\<lambda>Z. \<Sum>S \<in> Pow (insert x Z). F (insert x Z) S) =
      expect p V (\<lambda>Z. (\<Sum>S \<in> Pow Z. F (insert x Z) S) + (\<Sum>S \<in> Pow Z. F (insert x Z) (insert x S)))"
    by (rule expect_cong, rule sum_Pow_insert) (use assms finite_subset in auto)
  then show ?thesis unfolding nested_def expect_insert[OF assms] expect_add by (simp add: algebra_simps)
qed

lemma nested_cong: "(\<And>Z S. Z \<subseteq> V \<Longrightarrow> S \<subseteq> Z \<Longrightarrow> F Z S = G Z S) \<Longrightarrow> nested p V F = nested p V G"
  unfolding nested_def by (intro expect_cong sum.cong) auto

lemma nested_add: "nested p V (\<lambda>Z S. F Z S + G Z S) = nested p V F + nested p V G"
  by (simp add: nested_def sum.distrib expect_add)

lemma nested_diff: "nested p V (\<lambda>Z S. F Z S - G Z S) = nested p V F - nested p V G"
  by (simp add: nested_def sum_subtractf expect_diff)

lemma nested_scale: "nested p V (\<lambda>Z S. c * F Z S) = c * nested p V F"
  by (simp add: nested_def sum_distrib_left[symmetric] expect_scale)

lemma nested_zero: "nested p V (\<lambda>Z S. 0) = 0"
  using nested_scale[of p V 0] by simp

lemma nested_sum: "finite I \<Longrightarrow> nested p V (\<lambda>Z S. \<Sum>i \<in> I. F i Z S) = (\<Sum>i \<in> I. nested p V (F i))"
  by (induction I rule: finite_induct) (simp_all add: nested_add nested_zero)

lemma nested_sum_list: "nested p V (\<lambda>Z S. \<Sum>x \<leftarrow> xs. F x Z S) = (\<Sum>x \<leftarrow> xs. nested p V (F x))"
  by (induction xs) (simp_all add: nested_add nested_zero)

text \<open>Disjoint variables are independent.\<close>

lemma nested_indep:
  assumes fin: "finite V" "finite U" and dis: "V \<inter> U = {}"
  shows "nested p (V \<union> U) (\<lambda>Z S. f (Z \<inter> V) (S \<inter> V) * g (Z \<inter> U) (S \<inter> U)) = nested p V f * nested p U g"
  using fin(2) dis
proof (induction U arbitrary: g rule: finite_induct)
  case empty
  have "nested p (V \<union> {}) (\<lambda>Z S. f (Z \<inter> V) (S \<inter> V) * g (Z \<inter> {}) (S \<inter> {})) = nested p V (\<lambda>Z S. g {} {} * f Z S)"
    unfolding Un_empty_right
  proof (rule nested_cong)
    fix Z S assume "Z \<subseteq> V" "S \<subseteq> Z"
    then have "Z \<inter> V = Z" "S \<inter> V = S" by auto
    then show "f (Z \<inter> V) (S \<inter> V) * g (Z \<inter> {}) (S \<inter> {}) = g {} {} * f Z S" by simp
  qed
  then show ?case by (simp add: nested_scale)
next
  case (insert x U)
  let ?F = "\<lambda>g U Z S. f (Z \<inter> V) (S \<inter> V) * g (Z \<inter> U) (S \<inter> U)"
  have x: "x \<notin> V \<union> U" "x \<notin> V" and fin': "finite (V \<union> U)" and dis: "V \<inter> U = {}" using insert fin by auto
  have e: "Z \<inter> insert x U = Z \<inter> U" "insert x Z \<inter> insert x U = insert x (Z \<inter> U)" "insert x Z \<inter> V = Z \<inter> V"
    if "Z \<subseteq> V \<union> U" for Z using that x by auto
  have c1: "nested p (V \<union> U) (?F g (insert x U)) = nested p (V \<union> U) (?F g U)"
    by (rule nested_cong) (simp add: e order_trans)
  have c2: "nested p (V \<union> U) (\<lambda>Z S. ?F g (insert x U) (insert x Z) S) =
      nested p (V \<union> U) (?F (\<lambda>Z S. g (insert x Z) S) U)"
    by (rule nested_cong) (simp add: e order_trans)
  have c3: "nested p (V \<union> U) (\<lambda>Z S. ?F g (insert x U) (insert x Z) (insert x S)) =
      nested p (V \<union> U) (?F (\<lambda>Z S. g (insert x Z) (insert x S)) U)"
    by (rule nested_cong) (simp add: e order_trans)
  show ?case
    unfolding Un_insert_right nested_insert[OF fin' x(1)] c1 c2[unfolded insert.IH[OF dis, of "\<lambda>Z. g (insert x Z)"]]
      c3[unfolded insert.IH[OF dis, of "\<lambda>Z S. g (insert x Z) (insert x S)"]] insert.IH[OF dis, of g]
      nested_insert[OF insert.hyps(1,2), of p g] by (simp add: algebra_simps)
qed

section \<open>The two counts\<close>

text \<open>\<open>size_prob p V k\<close> is the probability that k variables are true; \<open>alpha p V \<phi> k l\<close> is, for the sets Z of
  k variables weighted by their probability, the number of subsets of size l that satisfy \<open>\<phi>\<close>.\<close>

definition size_prob :: "(nat \<Rightarrow> real) \<Rightarrow> nat set \<Rightarrow> nat \<Rightarrow> real" where
  "size_prob p V k = expect p V (\<lambda>Z. of_bool (card Z = k))"

definition alpha :: "(nat \<Rightarrow> real) \<Rightarrow> nat set \<Rightarrow> (nat set \<Rightarrow> bool) \<Rightarrow> nat \<Rightarrow> nat \<Rightarrow> real" where
  "alpha p V \<phi> k l = nested p V (\<lambda>Z S. of_bool (card Z = k \<and> card S = l \<and> \<phi> S))"

lemma size_prob_large: "finite V \<Longrightarrow> card V < k \<Longrightarrow> size_prob p V k = 0"
proof -
  assume *: "finite V" "card V < k"
  have "card Z \<noteq> k" if "Z \<subseteq> V" for Z using card_mono[OF *(1) that] *(2) by simp
  then have "size_prob p V k = expect p V (\<lambda>_. 0)" unfolding size_prob_def by (intro expect_cong) simp
  then show ?thesis by (simp add: *)
qed

lemma alpha_large:
  assumes "finite V" "card V < k \<or> k < l"
  shows "alpha p V \<phi> k l = 0"
proof -
  have "alpha p V \<phi> k l = nested p V (\<lambda>_ _. 0)" unfolding alpha_def
  proof (rule nested_cong)
    fix Z S assume ZS: "Z \<subseteq> V" "S \<subseteq> Z"
    then have "card Z \<le> card V" "card S \<le> card Z"
      using card_mono[OF assms(1)] card_mono[OF finite_subset[OF ZS(1) assms(1)]] by simp_all
    then show "(of_bool (card Z = k \<and> card S = l \<and> \<phi> S) :: real) = 0" using assms(2) by auto
  qed
  then show ?thesis by (simp add: nested_zero)
qed

lemma subsets_of_size:
  assumes fin: "finite Z"
  shows "(\<Sum>S \<in> Pow Z. of_bool (card S = l) :: real) = real (card Z choose l)"
proof -
  have "(\<Sum>S \<in> Pow Z. of_bool (card S = l) :: real) = real (card (Pow Z \<inter> {S. card S = l}))"
    by (rule sum_of_bool_eq) (simp_all add: fin)
  also have "Pow Z \<inter> {S. card S = l} = {S. S \<subseteq> Z \<and> card S = l}" by auto
  finally show ?thesis using n_subsets[OF fin, of l] by simp
qed

lemma alpha_not:
  assumes "finite V"
  shows "alpha p V (\<lambda>S. \<not> \<phi> S) k l = real (k choose l) * size_prob p V k - alpha p V \<phi> k l"
proof -
  have "alpha p V (\<lambda>S. \<not> \<phi> S) k l + alpha p V \<phi> k l = nested p V (\<lambda>Z S. of_bool (card Z = k) * of_bool (card S = l))"
    unfolding alpha_def nested_add[symmetric] by (rule nested_cong) auto
  also have "\<dots> = expect p V (\<lambda>Z. real (k choose l) * of_bool (card Z = k))"
    unfolding nested_def
  proof (rule expect_cong)
    fix Z assume "Z \<subseteq> V"
    then have fin: "finite Z" using assms finite_subset by blast
    show "(\<Sum>S \<in> Pow Z. of_bool (card Z = k) * of_bool (card S = l)) = real (k choose l) * of_bool (card Z = k)"
      by (simp add: sum_distrib_left[symmetric] subsets_of_size[OF fin])
  qed
  also have "\<dots> = real (k choose l) * size_prob p V k" by (simp add: size_prob_def expect_scale)
  finally show ?thesis by simp
qed

lemma alpha_or:
  assumes "\<And>S. sorted_wrt (\<lambda>v w. \<not> (\<phi> v S \<and> \<phi> w S)) ws"
  shows "alpha p V (\<lambda>S. \<exists>w \<in> set ws. \<phi> w S) k l = (\<Sum>w \<leftarrow> ws. alpha p V (\<phi> w) k l)"
  unfolding alpha_def nested_sum_list[symmetric]
proof (rule nested_cong)
  fix Z S
  have "(\<Sum>w \<leftarrow> ws. of_bool (card Z = k \<and> card S = l \<and> \<phi> w S)) =
      of_bool (card Z = k \<and> card S = l) * (\<Sum>w \<leftarrow> ws. of_bool (\<phi> w S) :: real)"
    by (cases "card Z = k \<and> card S = l") auto
  also have "(\<Sum>w \<leftarrow> ws. of_bool (\<phi> w S) :: real) = of_bool (\<exists>w \<in> set ws. \<phi> w S)"
    by (rule sum_exclusive[OF assms])
  finally show "(of_bool (card Z = k \<and> card S = l \<and> (\<exists>w \<in> set ws. \<phi> w S)) :: real) =
      (\<Sum>w \<leftarrow> ws. of_bool (card Z = k \<and> card S = l \<and> \<phi> w S))" by auto
qed

text \<open>A sum of indicators with one hit.\<close>

lemma sum_hit: "a \<le> k \<Longrightarrow> (\<Sum>i \<le> k. of_bool (a = i \<and> P i)) = (of_bool (P a) :: real)" for a k :: nat
proof -
  assume "a \<le> k"
  then have "(\<Sum>i \<le> k. of_bool (a = i \<and> P i) :: real) = (\<Sum>i \<le> k. if a = i then of_bool (P a) else 0)"
    by (intro sum.cong) auto
  then show ?thesis using \<open>a \<le> k\<close> by simp
qed

lemma split_sizes: "(\<Sum>i \<le> k. of_bool (a = i) * of_bool (b = k - i)) = (of_bool (a + b = k) :: real)" for a b k :: nat
proof (cases "a \<le> k")
  case True
  have "(\<Sum>i \<le> k. of_bool (a = i) * of_bool (b = k - i)) = (\<Sum>i \<le> k. of_bool (a = i \<and> b = k - i) :: real)"
    by (simp add: of_bool_conj)
  with sum_hit[OF True, of "\<lambda>i. b = k - i"] True show ?thesis by (auto simp: of_bool_def)
next
  case False
  then have "(\<Sum>i \<le> k. of_bool (a = i) * of_bool (b = k - i)) = (\<Sum>i \<le> k. 0 :: real)" by (intro sum.cong) auto
  with False show ?thesis by simp
qed

lemma sum_product_const: "(\<Sum>i \<in> I. \<Sum>j \<in> J. F i * (G j * e)) = (\<Sum>i \<in> I. F i) * ((\<Sum>j \<in> J. G j) * e)" for e :: real
  unfolding sum_distrib_right[of G J e] sum_product ..

lemma card_split: "finite Z \<Longrightarrow> V \<inter> U = {} \<Longrightarrow> Z \<subseteq> V \<union> U \<Longrightarrow> card Z = card (Z \<inter> V) + card (Z \<inter> U)"
  by (subst card_Un_disjoint[symmetric]) (auto intro: arg_cong[where f = card])

lemma size_prob_part:
  assumes "finite W" "V \<subseteq> W"
  shows "expect p W (\<lambda>Z. of_bool (card (Z \<inter> V) = i)) = size_prob p V i"
proof -
  have "expect p W (\<lambda>Z. of_bool (card (Z \<inter> V) = i) :: real) = expect p V (\<lambda>Z. of_bool (card (Z \<inter> V) = i))"
    by (rule expect_restrict) (use assms in \<open>auto simp: depends_on_def\<close>)
  also have "\<dots> = size_prob p V i" unfolding size_prob_def by (rule expect_cong) (simp add: Int_absorb2)
  finally show ?thesis .
qed

lemma size_prob_and:
  assumes fin: "finite V" "finite U" and dis: "V \<inter> U = {}"
  shows "size_prob p (V \<union> U) k = (\<Sum>i \<le> k. size_prob p V i * size_prob p U (k - i))"
proof -
  have "size_prob p (V \<union> U) k = expect p (V \<union> U) (\<lambda>Z. \<Sum>i \<le> k. of_bool (card (Z \<inter> V) = i) * of_bool (card (Z \<inter> U) = k - i))"
    unfolding size_prob_def split_sizes
    by (rule expect_cong) (use card_split[OF _ dis] finite_subset[OF _ finite_UnI[OF fin]] in simp)
  also have "\<dots> = (\<Sum>i \<le> k. expect p (V \<union> U) (\<lambda>Z. of_bool (card (Z \<inter> V) = i)) * expect p (V \<union> U) (\<lambda>Z. of_bool (card (Z \<inter> U) = k - i)))"
    unfolding expect_sum
    by (rule sum.cong[OF refl], rule expect_indep[of _ _ V _ U]) (use fin dis in \<open>auto simp: depends_on_def\<close>)
  finally show ?thesis unfolding size_prob_part[OF finite_UnI[OF fin] Un_upper1] size_prob_part[OF finite_UnI[OF fin] Un_upper2] .
qed

lemma alpha_and:
  assumes fin: "finite V" "finite U" and dis: "V \<inter> U = {}"
    and \<phi>: "\<And>S. \<phi> S = \<phi> (S \<inter> V)" and \<psi>: "\<And>S. \<psi> S = \<psi> (S \<inter> U)"
  shows "alpha p (V \<union> U) (\<lambda>S. \<phi> S \<and> \<psi> S) k l =
    (\<Sum>i \<le> k. \<Sum>j \<le> l. alpha p V \<phi> i j * alpha p U \<psi> (k - i) (l - j))"
proof -
  let ?f = "\<lambda>i j Z S. of_bool (card Z = i \<and> card S = j \<and> \<phi> S) :: real" and ?g = "\<lambda>i j Z S. of_bool (card Z = i \<and> card S = j \<and> \<psi> S) :: real"
  have "alpha p (V \<union> U) (\<lambda>S. \<phi> S \<and> \<psi> S) k l =
      nested p (V \<union> U) (\<lambda>Z S. \<Sum>i \<le> k. \<Sum>j \<le> l. ?f i j (Z \<inter> V) (S \<inter> V) * ?g (k - i) (l - j) (Z \<inter> U) (S \<inter> U))"
    unfolding alpha_def
  proof (rule nested_cong)
    fix Z S assume ZS: "Z \<subseteq> V \<union> U" "S \<subseteq> Z"
    then have finZ: "finite Z" "finite S" using fin finite_subset by (auto intro: finite_subset)
    have cZ: "card Z = card (Z \<inter> V) + card (Z \<inter> U)" and cS: "card S = card (S \<inter> V) + card (S \<inter> U)"
      using card_split[OF finZ(1) dis ZS(1)] card_split[OF finZ(2) dis] ZS by auto
    have "(\<Sum>i \<le> k. \<Sum>j \<le> l. ?f i j (Z \<inter> V) (S \<inter> V) * ?g (k - i) (l - j) (Z \<inter> U) (S \<inter> U)) =
        (\<Sum>i \<le> k. \<Sum>j \<le> l. (of_bool (card (Z \<inter> V) = i) * of_bool (card (Z \<inter> U) = k - i)) *
          (of_bool (card (S \<inter> V) = j) * of_bool (card (S \<inter> U) = l - j) * of_bool (\<phi> S \<and> \<psi> S)))"
      by (intro sum.cong refl) (simp add: \<phi>[of S] \<psi>[of S] of_bool_conj)
    also have "\<dots> = of_bool (card Z = k) * (of_bool (card S = l) * of_bool (\<phi> S \<and> \<psi> S))"
      unfolding sum_product_const split_sizes cZ cS ..
    finally show "(of_bool (card Z = k \<and> card S = l \<and> \<phi> S \<and> \<psi> S) :: real) =
        (\<Sum>i \<le> k. \<Sum>j \<le> l. ?f i j (Z \<inter> V) (S \<inter> V) * ?g (k - i) (l - j) (Z \<inter> U) (S \<inter> U))"
      by (simp add: of_bool_conj)
  qed
  also have "\<dots> = (\<Sum>i \<le> k. \<Sum>j \<le> l. alpha p V \<phi> i j * alpha p U \<psi> (k - i) (l - j))"
    unfolding alpha_def nested_sum[OF finite_atMost]
    by (intro sum.cong refl) (rule nested_indep[OF fin dis])
  finally show ?thesis .
qed


section \<open>The tables\<close>

text \<open>The AND case of \<open>shapley_delta\<close>: the two vectors are not empty when it runs.\<close>

definition delta_product :: "real list \<Rightarrow> real list \<Rightarrow> real list" where
  "delta_product r1 r2 = (let n1 = length r1 - 1; n2 = length r2 - 1 in
     map (\<lambda>k. \<Sum>k1 \<leftarrow> [k - n2..<Suc (min k n1)]. r1 ! k1 * r2 ! (k - k1)) [0..<Suc (n1 + n2)])"

definition delta_comb :: "'m bool_circuit_scheme \<Rightarrow> gate_t \<Rightarrow> real list list \<Rightarrow> real list" where
  "delta_comb c g vs = (case getGateType c g of
     IN \<Rightarrow> [1 - b_getProb c g, b_getProb c g]
   | AND \<Rightarrow> (case vs of [] \<Rightarrow> [1] | [v] \<Rightarrow> v | v1 # v2 # _ \<Rightarrow> delta_product v1 v2)
   | _ \<Rightarrow> (case vs of [] \<Rightarrow> [1] | v # _ \<Rightarrow> v))"

text \<open>
  One iteration of the loop of either table.  A read of a missing table (on a cyclic circuit only)
  and an AND gate with more than two wires (the assertion) stop the model.
\<close>

definition table_step :: "(gate_t \<Rightarrow> 'v list \<Rightarrow> 'v) \<Rightarrow> 'm bool_circuit_scheme \<Rightarrow> (gate_t \<rightharpoonup> 'v) \<Rightarrow> gate_t \<Rightarrow> bool \<Rightarrow> exn + ('v + gate_t list)" where
  "table_step f c result node b =
     (let ws = getWires c node; value = (if set ws \<subseteq> dom result then Inr (Inl (f node (map (\<lambda>w. the (result w)) ws))) else Inl UndefinedBehaviour)
      in case getGateType c node of
        IN \<Rightarrow> Inr (Inl (f node []))
      | NOT \<Rightarrow> if b then value else if ws = [] then Inr (Inl (f node [])) else Inr (Inr ws)
      | OR \<Rightarrow> if b then value else if ws = [] then Inr (Inl (f node [])) else Inr (Inr ws)
      | AND \<Rightarrow> if b then (if length ws > 2 then Inl UndefinedBehaviour else value)
          else if ws = [] then Inr (Inl (f node [])) else Inr (Inr ws)
      | _ \<Rightarrow> Inl (CircuitException ''Incorrect gate type''))"

definition shapley_delta :: "ddnnf \<Rightarrow> (exn + (gate_t \<rightharpoonup> real list)) option" where
  "shapley_delta dd =
     (if \<not> b_probabilistic dd then Some (Inr Map.empty)
      else walk_loop (table_step (delta_comb dd) dd) [(dd_root dd, False)] Map.empty)"

text \<open>The cases of \<open>shapley_alpha\<close>; without probabilities only the last row is filled.  A row is
  updated in place up to the column \<open>k\<close> (NOT) or up to its length (OR).\<close>

definition first_row :: "bool \<Rightarrow> nat \<Rightarrow> nat" where
  "first_row pr n = (if pr then 0 else n)"

definition alpha_negate :: "bool \<Rightarrow> real list \<Rightarrow> real list list \<Rightarrow> real list list" where
  "alpha_negate pr \<delta> r = map (\<lambda>k. if first_row pr (length r - 1) \<le> k
       then map (\<lambda>l. if l \<le> k then r ! k ! l * (- 1) + of_int (comb k l) * (if pr then \<delta> ! k else 1) else r ! k ! l)
              [0..<length (r ! k)]
       else r ! k) [0..<length r]"

definition alpha_add :: "bool \<Rightarrow> real list list \<Rightarrow> real list list \<Rightarrow> real list list" where
  "alpha_add pr r0 r = map (\<lambda>k. if first_row pr (length r - 1) \<le> k \<and> k < length r
       then map (\<lambda>l. if l < length (r ! k) then r0 ! k ! l + r ! k ! l else r0 ! k ! l) [0..<length (r0 ! k)]
       else r0 ! k) [0..<length r0]"

definition alpha_product :: "bool \<Rightarrow> real list list \<Rightarrow> real list list \<Rightarrow> real list list" where
  "alpha_product pr r1 r2 = (let n1 = length r1 - 1; n2 = length r2 - 1 in
     map (\<lambda>k. if first_row pr (n1 + n2) \<le> k
       then map (\<lambda>l. \<Sum>k1 \<leftarrow> [k - n2..<Suc (min k n1)]. \<Sum>l1 \<leftarrow> [l - (k - k1)..<Suc (min k1 l)].
                   r1 ! k1 ! l1 * r2 ! (k - k1) ! (l - l1)) [0..<Suc k]
       else []) [0..<Suc (n1 + n2)])"

definition alpha_comb :: "'m bool_circuit_scheme \<Rightarrow> (gate_t \<rightharpoonup> real list) \<Rightarrow> gate_t \<Rightarrow> real list list list \<Rightarrow> real list list" where
  "alpha_comb c \<delta> g vs = (case getGateType c g of
     IN \<Rightarrow> [[0], [0, b_getProb c g]]
   | NOT \<Rightarrow> alpha_negate (b_probabilistic c) (case \<delta> g of None \<Rightarrow> [] | Some d \<Rightarrow> d) (hd vs)
   | OR \<Rightarrow> (case vs of [] \<Rightarrow> [[0]] | v # vs \<Rightarrow> foldl (alpha_add (b_probabilistic c)) v vs)
   | AND \<Rightarrow> (case vs of [] \<Rightarrow> [[1]] | [v] \<Rightarrow> v | v1 # v2 # _ \<Rightarrow> alpha_product (b_probabilistic c) v1 v2)
   | _ \<Rightarrow> [])"

text \<open>A NOT without a wire is read out of range here.\<close>

definition alpha_step :: "'m bool_circuit_scheme \<Rightarrow> (gate_t \<rightharpoonup> real list) \<Rightarrow> (gate_t \<rightharpoonup> real list list) \<Rightarrow> gate_t \<Rightarrow> bool \<Rightarrow>
    exn + (real list list + gate_t list)" where
  "alpha_step c \<delta> result node b =
     (if getGateType c node = NOT
      then (case getWires c node of [] \<Rightarrow> Inl UndefinedBehaviour
            | w # _ \<Rightarrow> (if \<not> b then Inr (Inr [w])
                else (case result w of None \<Rightarrow> Inl UndefinedBehaviour | Some v \<Rightarrow> Inr (Inl (alpha_comb c \<delta> node [v])))))
      else table_step (alpha_comb c \<delta>) c result node b)"

definition shapley_alpha :: "ddnnf \<Rightarrow> (exn + real list list) option" where
  "shapley_alpha dd =
     bind_run (shapley_delta dd) (\<lambda>\<delta>.
     bind_run (walk_loop (alpha_step dd \<delta>) [(dd_root dd, False)] Map.empty) (\<lambda>result.
       Some (Inr (case result (dd_root dd) of None \<Rightarrow> [] | Some r \<Rightarrow> r))))"

definition clamp :: "real \<Rightarrow> real" where
  "clamp x = (if x > 1 then 1 else if x < - 1 then - 1 else x)"

definition shapley :: "ddnnf \<Rightarrow> gate_t \<Rightarrow> (exn + real) option" where
  "shapley dd var =
     bind_run (shapley_alpha (condition dd var True)) (\<lambda>alpha_pos.
     bind_run (shapley_alpha (condition dd var False)) (\<lambda>alpha_neg.
       Some (Inr (clamp
         ((\<Sum>k \<leftarrow> [first_row (b_probabilistic dd) (length alpha_pos - 1)..<length alpha_pos].
           \<Sum>l \<leftarrow> [0..<Suc k]. (alpha_pos ! k ! l - alpha_neg ! k ! l) / of_int (comb k l) / of_nat (k + 1)) *
          b_getProb dd var)))))"

section \<open>The walks\<close>

text \<open>The AND gates have been made binary.\<close>

primrec binary :: "nat \<Rightarrow> 'm bool_circuit_scheme \<Rightarrow> gate_t \<Rightarrow> bool" where
  "binary 0 c g \<longleftrightarrow> True"
| "binary (Suc d) c g \<longleftrightarrow> (getGateType c g = AND \<longrightarrow> length (getWires c g) \<le> 2) \<and> (\<forall>w \<in> set (getWires c g). binary d c w)"

lemma table_step_laws:
  assumes "dd_ok (Suc d) c g" "binary (Suc d) c g"
  shows "getWires c g = [] \<Longrightarrow> table_step f c r g False = Inr (Inl (f g []))"
    "getWires c g \<noteq> [] \<Longrightarrow> table_step f c r g False = Inr (Inr (getWires c g))"
    "getWires c g \<noteq> [] \<Longrightarrow> set (getWires c g) \<subseteq> dom r \<Longrightarrow>
      table_step f c r g True = Inr (Inl (f g (map (\<lambda>w. the (r w)) (getWires c g))))"
  using assms(1) by (cases rule: dd_ok_cases; use assms(2) in \<open>simp add: table_step_def Let_def\<close>)+

interpretation delta: post_order_walk c "table_step (delta_comb c) c" "delta_comb c" "\<lambda>d g. dd_ok d c g \<and> binary d c g"
  for c :: "'m bool_circuit_scheme"
proof unfold_locales
  fix d :: nat and g w :: gate_t and r :: "gate_t \<rightharpoonup> real list"
  show "\<not> (dd_ok 0 c g \<and> binary 0 c g)" by simp
  assume ok: "dd_ok (Suc d) c g \<and> binary (Suc d) c g"
  show "w \<in> set (getWires c g) \<Longrightarrow> dd_ok d c w \<and> binary d c w" using ok dd_ok_wires by auto
qed (use table_step_laws[where f = "delta_comb c"] in blast)+

interpretation alpha: post_order_walk c "alpha_step c \<delta>" "alpha_comb c \<delta>" "\<lambda>d g. dd_ok d c g \<and> binary d c g"
  for c :: "'m bool_circuit_scheme" and \<delta> :: "gate_t \<rightharpoonup> real list"
proof unfold_locales
  fix d :: nat and g w :: gate_t and r :: "gate_t \<rightharpoonup> real list list"
  show "\<not> (dd_ok 0 c g \<and> binary 0 c g)" by simp
  assume ok: "dd_ok (Suc d) c g \<and> binary (Suc d) c g"
  note laws = table_step_laws[OF conjunct1[OF ok] conjunct2[OF ok], where f = "alpha_comb c \<delta>"]
  show "w \<in> set (getWires c g) \<Longrightarrow> dd_ok d c w \<and> binary d c w" using ok dd_ok_wires by auto
  have not: "\<exists>w. getWires c g = [w]" if "getGateType c g = NOT"
    using conjunct1[OF ok] by (cases rule: dd_ok_cases) (use that in auto)
  show "getWires c g = [] \<Longrightarrow> alpha_step c \<delta> r g False = Inr (Inl (alpha_comb c \<delta> g []))"
    using laws(1) not by (auto simp: alpha_step_def)
  show "getWires c g \<noteq> [] \<Longrightarrow> alpha_step c \<delta> r g False = Inr (Inr (getWires c g))"
    using laws(2) not by (auto simp: alpha_step_def)
  show "getWires c g \<noteq> [] \<Longrightarrow> set (getWires c g) \<subseteq> dom r \<Longrightarrow>
      alpha_step c \<delta> r g True = Inr (Inl (alpha_comb c \<delta> g (map (\<lambda>w. the (r w)) (getWires c g))))"
    using laws(3) not by (auto simp: alpha_step_def)
qed


section \<open>What the tables hold\<close>

lemma sum_upt: "(\<Sum>k \<leftarrow> [a..<b]. f k) = (\<Sum>k \<in> {a..<b}. f k)" for f :: "nat \<Rightarrow> real"
  by (simp add: interv_sum_list_conv_sum_set_nat)

lemma delta_product_correct:
  assumes fin: "finite V" "finite U" and dis: "V \<inter> U = {}"
  shows "delta_product (map (size_prob p V) [0..<Suc (card V)]) (map (size_prob p U) [0..<Suc (card U)]) =
    map (size_prob p (V \<union> U)) [0..<Suc (card (V \<union> U))]"
proof -
  let ?a = "size_prob p V" and ?b = "size_prob p U" and ?n1 = "card V" and ?n2 = "card U"
  have "(\<Sum>i \<leftarrow> [k - ?n2..<Suc (min k ?n1)]. map ?a [0..<Suc ?n1] ! i * map ?b [0..<Suc ?n2] ! (k - i)) = size_prob p (V \<union> U) k" for k
  proof -
    have "(\<Sum>i \<in> {k - ?n2..<Suc (min k ?n1)}. map ?a [0..<Suc ?n1] ! i * map ?b [0..<Suc ?n2] ! (k - i)) =
        (\<Sum>i \<in> {k - ?n2..<Suc (min k ?n1)}. ?a i * ?b (k - i))"
    proof (rule sum.cong[OF refl])
      fix i assume "i \<in> {k - ?n2..<Suc (min k ?n1)}"
      then have "i < Suc ?n1" "k - i < Suc ?n2" by auto
      then show "map ?a [0..<Suc ?n1] ! i * map ?b [0..<Suc ?n2] ! (k - i) = ?a i * ?b (k - i)"
        by (simp del: upt_Suc)
    qed
    also have "\<dots> = (\<Sum>i \<le> k. ?a i * ?b (k - i))"
    proof (rule sum.mono_neutral_left)
      show "\<forall>i \<in> {..k} - {k - ?n2..<Suc (min k ?n1)}. ?a i * ?b (k - i) = 0"
      proof
        fix i assume "i \<in> {..k} - {k - ?n2..<Suc (min k ?n1)}"
        then have "?n1 < i \<or> ?n2 < k - i" by auto
        then show "?a i * ?b (k - i) = 0" using size_prob_large[OF fin(1)] size_prob_large[OF fin(2)] by auto
      qed
    qed auto
    finally show ?thesis unfolding sum_upt size_prob_and[OF fin dis] .
  qed
  then show ?thesis using card_Un_disjoint[OF fin dis] by (simp add: delta_product_def del: upt_Suc)
qed

lemma binary_wires: "binary (Suc d) c g \<Longrightarrow> w \<in> set (getWires c g) \<Longrightarrow> binary d c w"
  by simp

lemma decomposable_wires: "decomposable (Suc d) c g \<Longrightarrow> w \<in> set (getWires c g) \<Longrightarrow> decomposable d c w"
  by simp

lemma deterministic_wires: "deterministic (Suc d) c g \<Longrightarrow> w \<in> set (getWires c g) \<Longrightarrow> deterministic d c w"
  by simp

lemma smooth_or:
  assumes "smooth (Suc d) c g" "getGateType c g = OR" "getWires c g = w # ws" "v \<in> set (w # ws)"
  shows "dvars d c v = dvars d c w"
proof -
  have "v \<in> set (getWires c g)" "w \<in> set (getWires c g)" unfolding assms(3) using assms(4) by auto
  then show ?thesis using assms(1,2) unfolding smooth.simps by blast
qed

text \<open>The four shapes of a gate, with the variables below it.\<close>

lemma power_gate_cases:
  assumes "dd_ok (Suc d) c g" "binary (Suc d) c g" "decomposable (Suc d) c g" "smooth (Suc d) c g"
  obtains (IN) "getGateType c g = IN" "getWires c g = []" "dvars (Suc d) c g = {g}"
  | (NOT) w where "getGateType c g = NOT" "getWires c g = [w]" "dvars (Suc d) c g = dvars d c w"
  | (leaf) t where "getGateType c g = t" "t = AND \<or> t = OR" "getWires c g = []" "dvars (Suc d) c g = {}"
  | (AND1) w where "getGateType c g = AND" "getWires c g = [w]" "dvars (Suc d) c g = dvars d c w"
  | (AND2) w1 w2 where "getGateType c g = AND" "getWires c g = [w1, w2]" "dvars (Suc d) c g = dvars d c w1 \<union> dvars d c w2"
      "dvars d c w1 \<inter> dvars d c w2 = {}"
  | (OR) w ws where "getGateType c g = OR" "getWires c g = w # ws" "dvars (Suc d) c g = dvars d c w"
      "\<forall>v \<in> set (w # ws). dvars d c v = dvars d c w"
proof -
  from assms(1) show thesis
  proof (cases rule: dd_ok_cases)
    case IN
    then show thesis using that(1) by simp
  next
    case (NOT w)
    then show thesis using that(2) by simp
  next
    case AND
    then have "length (getWires c g) \<le> 2" using assms(2) by simp
    then consider "getWires c g = []" | w where "getWires c g = [w]" | w1 w2 where "getWires c g = [w1, w2]"
      by (auto simp: le_Suc_eq numeral_eq_Suc length_Suc_conv)
    then show thesis
    proof cases
      case 1
      then show thesis using that(3) AND(1) by simp
    next
      case 2
      then show thesis using that(4) AND(1) by simp
    next
      case 3
      then show thesis using that(5) AND(1) assms(3) by simp
    qed
  next
    case OR
    show thesis
    proof (cases "getWires c g")
      case Nil
      then show thesis using that(3) OR(1) by simp
    next
      case (Cons w ws)
      have same: "\<forall>v \<in> set (w # ws). dvars d c v = dvars d c w"
        using smooth_or[OF assms(4) OR(1) Cons] by blast
      have "dvars (Suc d) c g = (\<Union>v \<in> set (w # ws). dvars d c v)" using OR(1) Cons by simp
      also have "\<dots> = (\<Union>v \<in> set (w # ws). dvars d c w)" using same by (intro SUP_cong) auto
      also have "\<dots> = dvars d c w" by simp
      finally show thesis using that(6)[OF OR(1) Cons _ same] by simp
    qed
  qed
qed

lemma delta_comb_simps:
  "getGateType c g = IN \<Longrightarrow> delta_comb c g vs = [1 - b_getProb c g, b_getProb c g]"
  "getGateType c g = NOT \<Longrightarrow> delta_comb c g [v] = v"
  "getGateType c g = AND \<Longrightarrow> delta_comb c g [] = [1]"
  "getGateType c g = OR \<Longrightarrow> delta_comb c g [] = [1]"
  "getGateType c g = AND \<Longrightarrow> delta_comb c g [v] = v"
  "getGateType c g = AND \<Longrightarrow> delta_comb c g [v1, v2] = delta_product v1 v2"
  "getGateType c g = OR \<Longrightarrow> delta_comb c g (v # vs) = v"
  by (simp_all add: delta_comb_def)

lemma delta_correct:
  "dd_ok d c g \<Longrightarrow> binary d c g \<Longrightarrow> decomposable d c g \<Longrightarrow> smooth d c g \<Longrightarrow>
   walk_rec d (delta_comb c) c g = map (size_prob (b_getProb c) (dvars d c g)) [0..<Suc (card (dvars d c g))]"
proof (induction d arbitrary: g)
  case (Suc d)
  let ?p = "b_getProb c"
  have kid: "walk_rec d (delta_comb c) c w = map (size_prob ?p (dvars d c w)) [0..<Suc (card (dvars d c w))]"
    if "w \<in> set (getWires c g)" for w
    by (rule Suc.IH[OF dd_ok_wires[OF Suc.prems(1) that] binary_wires[OF Suc.prems(2) that]
        decomposable_wires[OF Suc.prems(3) that] smooth_wires[OF Suc.prems(4) that]])
  have empty: "map (size_prob ?p {}) [0..<Suc (card {})] = [1]" by (simp add: size_prob_def)
  from Suc.prems show ?case
  proof (cases rule: power_gate_cases)
    case IN
    have "walk_rec (Suc d) (delta_comb c) c g = [1 - ?p g, ?p g]" using IN by (simp add: delta_comb_simps)
    also have "\<dots> = map (size_prob ?p {g}) [0..<Suc (card {g})]"
      using expect_insert[of "{}" g] by (simp add: size_prob_def)
    finally show ?thesis unfolding IN(3) .
  next
    case (NOT w)
    then show ?thesis unfolding NOT(3) using kid[of w] by (simp add: delta_comb_simps del: upt_Suc)
  next
    case (leaf t)
    then have "walk_rec (Suc d) (delta_comb c) c g = [1]" by (auto simp: delta_comb_simps)
    then show ?thesis unfolding leaf(4) empty .
  next
    case (AND1 w)
    then show ?thesis unfolding AND1(3) using kid[of w] by (simp add: delta_comb_simps del: upt_Suc)
  next
    case (AND2 w1 w2)
    then show ?thesis unfolding AND2(3) using kid[of w1] kid[of w2]
      by (simp add: delta_comb_simps delta_product_correct del: upt_Suc)
  next
    case (OR w ws)
    show ?thesis unfolding OR(3) using OR(1,2) kid[of w] by (simp add: delta_comb_simps del: upt_Suc)
  qed
qed simp


text \<open>The rows a table must fill, and what is in them.\<close>

definition table_ok :: "bool \<Rightarrow> nat \<Rightarrow> (nat \<Rightarrow> nat \<Rightarrow> real) \<Rightarrow> real list list \<Rightarrow> bool" where
  "table_ok pr n F r \<longleftrightarrow> length r = Suc n \<and>
     (\<forall>k. first_row pr n \<le> k \<and> k \<le> n \<longrightarrow> r ! k = map (F k) [0..<Suc k])"

lemma table_okD:
  "table_ok pr n F r \<Longrightarrow> length r = Suc n"
  "table_ok pr n F r \<Longrightarrow> first_row pr n \<le> k \<Longrightarrow> k \<le> n \<Longrightarrow> r ! k = map (F k) [0..<Suc k]"
  "table_ok pr n F r \<Longrightarrow> first_row pr n \<le> k \<Longrightarrow> k \<le> n \<Longrightarrow> l \<le> k \<Longrightarrow> r ! k ! l = F k l"
  by (auto simp: table_ok_def simp del: upt_Suc)

lemma alpha_add_ok:
  "table_ok pr n F r0 \<Longrightarrow> table_ok pr n G r \<Longrightarrow> table_ok pr n (\<lambda>k l. F k l + G k l) (alpha_add pr r0 r)"
  unfolding table_ok_def by (auto simp: alpha_add_def simp del: upt_Suc)

lemma alpha_fold_ok:
  assumes "\<forall>w \<in> set ws. table_ok pr n (G w) (h w)"
  shows "table_ok pr n F r0 \<Longrightarrow> table_ok pr n (\<lambda>k l. F k l + (\<Sum>w \<leftarrow> ws. G w k l)) (foldl (alpha_add pr) r0 (map h ws))"
  using assms
proof (induction ws arbitrary: F r0)
  case (Cons w ws)
  have "table_ok pr n (\<lambda>k l. F k l + G w k l) (alpha_add pr r0 (h w))"
    by (rule alpha_add_ok[OF Cons.prems(1)]) (use Cons.prems(2) in simp)
  from Cons.IH[OF this] Cons.prems(2) show ?case by (simp add: add.assoc)
qed simp

lemma alpha_negate_ok:
  assumes r: "table_ok pr n F r" and n: "n \<le> 61" and D: "\<forall>k \<le> n. first_row pr n \<le> k \<longrightarrow> (if pr then \<delta> ! k else 1) = D k"
  shows "table_ok pr n (\<lambda>k l. real (k choose l) * D k - F k l) (alpha_negate pr \<delta> r)"
proof -
  have len: "length r = Suc n" by (rule table_okD(1)[OF r])
  have "alpha_negate pr \<delta> r ! k = map (\<lambda>l. real (k choose l) * D k - F k l) [0..<Suc k]" if k: "first_row pr n \<le> k" "k \<le> n" for k
  proof (rule nth_equalityI)
    have row: "r ! k = map (F k) [0..<Suc k]" by (rule table_okD(2)[OF r k])
    have a: "alpha_negate pr \<delta> r ! k =
        map (\<lambda>l. if l \<le> k then r ! k ! l * (- 1) + of_int (comb k l) * (if pr then \<delta> ! k else 1) else r ! k ! l) [0..<Suc k]"
      using k len row by (simp add: alpha_negate_def del: upt_Suc)
    show "length (alpha_negate pr \<delta> r ! k) = length (map (\<lambda>l. real (k choose l) * D k - F k l) [0..<Suc k])"
      unfolding a by simp
    fix l assume "l < length (alpha_negate pr \<delta> r ! k)"
    then have l: "l \<le> k" unfolding a by simp
    have c: "of_int (comb k l) = real (k choose l)" using comb_correct[of k l] k(2) n l by simp
    have "alpha_negate pr \<delta> r ! k ! l = r ! k ! l * (- 1) + of_int (comb k l) * (if pr then \<delta> ! k else 1)"
      unfolding a using l by (simp del: upt_Suc)
    also have "\<dots> = real (k choose l) * D k - F k l"
      unfolding table_okD(3)[OF r k l] c using D k by simp
    finally show "alpha_negate pr \<delta> r ! k ! l = map (\<lambda>l. real (k choose l) * D k - F k l) [0..<Suc k] ! l"
      using l by (simp del: upt_Suc)
  qed
  then show ?thesis using len by (simp add: table_ok_def alpha_negate_def)
qed

lemma alpha_product_ok:
  assumes r1: "table_ok pr n1 F r1" and r2: "table_ok pr n2 G r2"
    and F: "\<And>k l. n1 < k \<or> k < l \<Longrightarrow> F k l = 0" and G: "\<And>k l. n2 < k \<or> k < l \<Longrightarrow> G k l = 0"
  shows "table_ok pr (n1 + n2) (\<lambda>k l. \<Sum>i \<le> k. \<Sum>j \<le> l. F i j * G (k - i) (l - j)) (alpha_product pr r1 r2)"
proof -
  let ?H = "\<lambda>k l. \<Sum>i \<le> k. \<Sum>j \<le> l. F i j * G (k - i) (l - j)"
  have len: "length r1 - 1 = n1" "length r2 - 1 = n2" using table_okD(1)[OF r1] table_okD(1)[OF r2] by simp_all
  have cell: "(\<Sum>i \<leftarrow> [k - n2..<Suc (min k n1)]. \<Sum>j \<leftarrow> [l - (k - i)..<Suc (min i l)]. r1 ! i ! j * r2 ! (k - i) ! (l - j)) = ?H k l"
    if k: "first_row pr (n1 + n2) \<le> k" "k \<le> n1 + n2" and l: "l \<le> k" for k l
  proof -
    have "(\<Sum>i \<in> {k - n2..<Suc (min k n1)}. \<Sum>j \<in> {l - (k - i)..<Suc (min i l)}. r1 ! i ! j * r2 ! (k - i) ! (l - j)) =
        (\<Sum>i \<in> {k - n2..<Suc (min k n1)}. \<Sum>j \<le> l. F i j * G (k - i) (l - j))"
    proof (rule sum.cong[OF refl])
      fix i assume i: "i \<in> {k - n2..<Suc (min k n1)}"
      then have b: "i \<le> n1" "k - i \<le> n2" "i \<le> k" by auto
      have f: "first_row pr n1 \<le> i" "first_row pr n2 \<le> k - i" using b k by (auto simp: first_row_def split: if_splits)
      have "(\<Sum>j \<in> {l - (k - i)..<Suc (min i l)}. r1 ! i ! j * r2 ! (k - i) ! (l - j)) =
          (\<Sum>j \<in> {l - (k - i)..<Suc (min i l)}. F i j * G (k - i) (l - j))"
      proof (rule sum.cong[OF refl])
        fix j assume "j \<in> {l - (k - i)..<Suc (min i l)}"
        then have "j \<le> i" "l - j \<le> k - i" by auto
        then show "r1 ! i ! j * r2 ! (k - i) ! (l - j) = F i j * G (k - i) (l - j)"
          by (simp only: table_okD(3)[OF r1 f(1) b(1)] table_okD(3)[OF r2 f(2) b(2)])
      qed
      also have "\<dots> = (\<Sum>j \<le> l. F i j * G (k - i) (l - j))"
      proof (rule sum.mono_neutral_left)
        show "\<forall>j \<in> {..l} - {l - (k - i)..<Suc (min i l)}. F i j * G (k - i) (l - j) = 0"
        proof
          fix j assume "j \<in> {..l} - {l - (k - i)..<Suc (min i l)}"
          then have "i < j \<or> k - i < l - j" by auto
          then show "F i j * G (k - i) (l - j) = 0" using F G by auto
        qed
      qed auto
      finally show "(\<Sum>j \<in> {l - (k - i)..<Suc (min i l)}. r1 ! i ! j * r2 ! (k - i) ! (l - j)) = (\<Sum>j \<le> l. F i j * G (k - i) (l - j))" .
    qed
    also have "\<dots> = ?H k l"
    proof (rule sum.mono_neutral_left)
      show "\<forall>i \<in> {..k} - {k - n2..<Suc (min k n1)}. (\<Sum>j \<le> l. F i j * G (k - i) (l - j)) = 0"
      proof
        fix i assume "i \<in> {..k} - {k - n2..<Suc (min k n1)}"
        then have "n1 < i \<or> n2 < k - i" by auto
        then show "(\<Sum>j \<le> l. F i j * G (k - i) (l - j)) = 0" using F G by (auto intro: sum.neutral)
      qed
    qed auto
    finally show ?thesis unfolding sum_upt .
  qed
  show ?thesis unfolding table_ok_def
  proof (intro conjI allI impI)
    show "length (alpha_product pr r1 r2) = Suc (n1 + n2)" unfolding alpha_product_def len Let_def by simp
    fix k assume k: "first_row pr (n1 + n2) \<le> k \<and> k \<le> n1 + n2"
    then have "alpha_product pr r1 r2 ! k = map (\<lambda>l. \<Sum>i \<leftarrow> [k - n2..<Suc (min k n1)].
        \<Sum>j \<leftarrow> [l - (k - i)..<Suc (min i l)]. r1 ! i ! j * r2 ! (k - i) ! (l - j)) [0..<Suc k]"
      unfolding alpha_product_def len Let_def by (simp del: upt_Suc)
    also have "\<dots> = map (?H k) [0..<Suc k]"
      by (rule map_cong[OF refl], rule cell) (use k in auto)
    finally show "alpha_product pr r1 r2 ! k = map (?H k) [0..<Suc k]" .
  qed
qed

text \<open>With all the variables certain, only the full set has a weight.\<close>

lemma expect_certain: "finite V \<Longrightarrow> \<forall>x \<in> V. p x = 1 \<Longrightarrow> expect p V f = f V"
proof (induction V arbitrary: f rule: finite_induct)
  case (insert x V)
  then show ?case by (simp add: expect_insert)
qed simp


lemma alpha_comb_simps:
  "getGateType c g = IN \<Longrightarrow> alpha_comb c \<delta> g vs = [[0], [0, b_getProb c g]]"
  "getGateType c g = NOT \<Longrightarrow> alpha_comb c \<delta> g [v] = alpha_negate (b_probabilistic c) (case \<delta> g of None \<Rightarrow> [] | Some d \<Rightarrow> d) v"
  "getGateType c g = AND \<Longrightarrow> alpha_comb c \<delta> g [] = [[1]]"
  "getGateType c g = OR \<Longrightarrow> alpha_comb c \<delta> g [] = [[0]]"
  "getGateType c g = AND \<Longrightarrow> alpha_comb c \<delta> g [v] = v"
  "getGateType c g = AND \<Longrightarrow> alpha_comb c \<delta> g [v1, v2] = alpha_product (b_probabilistic c) v1 v2"
  "getGateType c g = OR \<Longrightarrow> alpha_comb c \<delta> g (v # vs) = foldl (alpha_add (b_probabilistic c)) v vs"
  by (simp_all add: alpha_comb_def)

lemma table_ok_cong:
  "table_ok pr n F r \<Longrightarrow> (\<And>k l. k \<le> n \<Longrightarrow> l \<le> k \<Longrightarrow> F k l = G k l) \<Longrightarrow> table_ok pr n G r"
  unfolding table_ok_def by (auto simp del: upt_Suc)

lemma alpha_empty: "table_ok pr (card {}) (alpha p {} \<phi>) [[of_bool (\<phi> {})]]"
  by (simp add: table_ok_def alpha_def)

lemma alpha_input:
  "table_ok pr (card {g}) (alpha p {g} (\<lambda>A. g \<in> A)) [[0], [0, p g]]"
proof -
  have "alpha p {g} (\<lambda>A. g \<in> A) k l = p g * of_bool (k = 1 \<and> l = 1)" for k l
    using nested_insert[of "{}" g] by (auto simp: alpha_def)
  then show ?thesis by (auto simp: table_ok_def le_Suc_eq numeral_eq_Suc)
qed

text \<open>What the loop on \<open>shapley_delta\<close> leaves: every gate with a vector has the right one, and so have
  its wires.\<close>

definition delta_table :: "nat \<Rightarrow> 'm bool_circuit_scheme \<Rightarrow> (gate_t \<rightharpoonup> real list) \<Rightarrow> bool" where
  "delta_table D c \<delta> \<longleftrightarrow> (\<forall>g v. \<delta> g = Some v \<longrightarrow> v = walk_rec D (delta_comb c) c g \<and> set (getWires c g) \<subseteq> dom \<delta>)"

definition certain :: "'m bool_circuit_scheme \<Rightarrow> gate_t set \<Rightarrow> bool" where
  "certain c V \<longleftrightarrow> \<not> b_probabilistic c \<longrightarrow> (\<forall>x \<in> V. b_getProb c x = 1)"

lemma alpha_negate_gate:
  assumes ok: "dd_ok (Suc d) c g" "binary (Suc d) c g" "decomposable (Suc d) c g" "smooth (Suc d) c g"
    and V: "card (dvars (Suc d) c g) \<le> 61" "certain c (dvars (Suc d) c g)"
    and delta: "Suc d \<le> D" "delta_table D c \<delta>" "b_probabilistic c \<longrightarrow> g \<in> dom \<delta>"
    and r: "table_ok (b_probabilistic c) (card (dvars (Suc d) c g)) (alpha (b_getProb c) (dvars (Suc d) c g) \<phi>) r"
  shows "table_ok (b_probabilistic c) (card (dvars (Suc d) c g)) (alpha (b_getProb c) (dvars (Suc d) c g) (\<lambda>S. \<not> \<phi> S))
    (alpha_negate (b_probabilistic c) (case \<delta> g of None \<Rightarrow> [] | Some d \<Rightarrow> d) r)"
proof -
  let ?V = "dvars (Suc d) c g" and ?p = "b_getProb c"
  let ?\<delta> = "case \<delta> g of None \<Rightarrow> [] | Some d \<Rightarrow> d"
  have "\<forall>k \<le> card ?V. first_row (b_probabilistic c) (card ?V) \<le> k \<longrightarrow>
      (if b_probabilistic c then ?\<delta> ! k else 1) = size_prob ?p ?V k"
  proof (intro allI impI)
    fix k assume k: "k \<le> card ?V" "first_row (b_probabilistic c) (card ?V) \<le> k"
    show "(if b_probabilistic c then ?\<delta> ! k else 1) = size_prob ?p ?V k"
    proof (cases "b_probabilistic c")
      case True
      then obtain v where v: "\<delta> g = Some v" using delta(3) by auto
      then have "v = walk_rec D (delta_comb c) c g" using delta(2) by (simp add: delta_table_def)
      also have "\<dots> = walk_rec (Suc d) (delta_comb c) c g" by (rule delta.rec_mono[OF conjI[OF ok(1,2)] delta(1)])
      also have "\<dots> = map (size_prob ?p ?V) [0..<Suc (card ?V)]" by (rule delta_correct[OF ok])
      finally have "?\<delta> ! k = size_prob ?p ?V k" unfolding v using k(1) by (simp del: upt_Suc)
      then show ?thesis using True by simp
    next
      case False
      then have "k = card ?V" using k by (simp add: first_row_def)
      moreover have "\<forall>x \<in> ?V. ?p x = 1" using V(2) False by (simp add: certain_def)
      ultimately show ?thesis using False expect_certain[of ?V ?p] by (simp add: size_prob_def)
    qed
  qed
  from alpha_negate_ok[OF r V(1) this] show ?thesis
    by (rule table_ok_cong) (simp add: alpha_not)
qed

lemma certain_mono: "certain c V \<Longrightarrow> W \<subseteq> V \<Longrightarrow> certain c W"
  by (auto simp: certain_def)

lemma alpha_correct:
  "dd_ok d c g \<Longrightarrow> binary d c g \<Longrightarrow> decomposable d c g \<Longrightarrow> deterministic d c g \<Longrightarrow> smooth d c g \<Longrightarrow>
   card (dvars d c g) \<le> 61 \<Longrightarrow> certain c (dvars d c g) \<Longrightarrow> d \<le> D \<Longrightarrow> delta_table D c \<delta> \<Longrightarrow>
   b_probabilistic c \<longrightarrow> g \<in> dom \<delta> \<Longrightarrow>
   table_ok (b_probabilistic c) (card (dvars d c g)) (alpha (b_getProb c) (dvars d c g) (\<lambda>A. bval d c A g))
     (walk_rec d (alpha_comb c \<delta>) c g)"
proof (induction d arbitrary: g)
  case (Suc d)
  let ?p = "b_getProb c" and ?pr = "b_probabilistic c" and ?t = "walk_rec d (alpha_comb c \<delta>) c"
  have kid: "table_ok ?pr (card (dvars d c w)) (alpha ?p (dvars d c w) (\<lambda>A. bval d c A w)) (?t w)"
    if w: "w \<in> set (getWires c g)" and sub: "dvars d c w \<subseteq> dvars (Suc d) c g" for w
  proof (rule Suc.IH[OF dd_ok_wires[OF Suc.prems(1) w] binary_wires[OF Suc.prems(2) w] decomposable_wires[OF Suc.prems(3) w]
        deterministic_wires[OF Suc.prems(4) w] smooth_wires[OF Suc.prems(5) w] _ certain_mono[OF Suc.prems(7) sub] _ Suc.prems(9)])
    show "card (dvars d c w) \<le> 61" using card_mono[OF finite_dvars sub] Suc.prems(6) by (rule order_trans)
    show "d \<le> D" using Suc.prems(8) by simp
    show "b_probabilistic c \<longrightarrow> w \<in> dom \<delta>" using Suc.prems(9,10) w unfolding delta_table_def by blast
  qed
  from Suc.prems(1-3,5) show ?case
  proof (cases rule: power_gate_cases)
    case IN
    then have "bval (Suc d) c A g = (g \<in> A)" for A by simp
    then show ?thesis unfolding IN(3) using alpha_input[of ?pr g ?p] IN(1) by (simp add: alpha_comb_simps)
  next
    case (NOT w)
    have "walk_rec (Suc d) (alpha_comb c \<delta>) c g = alpha_negate ?pr (case \<delta> g of None \<Rightarrow> [] | Some d \<Rightarrow> d) (?t w)"
      using NOT(1,2) by (simp add: alpha_comb_simps)
    moreover have "bval (Suc d) c A g = (\<not> bval d c A w)" for A using NOT(1,2) by simp
    moreover have "table_ok ?pr (card (dvars (Suc d) c g)) (alpha ?p (dvars (Suc d) c g) (\<lambda>A. bval d c A w)) (?t w)"
      using kid[of w] NOT(2) unfolding NOT(3) by simp
    ultimately show ?thesis
      using alpha_negate_gate[OF Suc.prems(1-3,5-7) Suc.prems(8-10), of "\<lambda>A. bval d c A w"] by simp
  next
    case (leaf t)
    then have "walk_rec (Suc d) (alpha_comb c \<delta>) c g = [[of_bool (bval (Suc d) c {} g)]]"
      by (auto simp: alpha_comb_simps)
    then show ?thesis unfolding leaf(4) using alpha_empty by metis
  next
    case (AND1 w)
    then have "bval (Suc d) c A g = bval d c A w" for A by simp
    then show ?thesis unfolding AND1(3) using kid[of w] AND1 by (simp add: alpha_comb_simps)
  next
    case (AND2 w1 w2)
    let ?V = "dvars d c w1" and ?U = "dvars d c w2"
    have w: "w1 \<in> set (getWires c g)" "w2 \<in> set (getWires c g)" using AND2(2) by simp_all
    have b: "bval (Suc d) c A g = (bval d c A w1 \<and> bval d c A w2)" for A using AND2(1,2) by simp
    have dep: "bval d c S w = bval d c (S \<inter> dvars d c w) w" if "w \<in> set (getWires c g)" for S w
      by (rule bval_dvars[OF dd_ok_wires[OF Suc.prems(1) that]]) auto
    have tab: "table_ok ?pr (card ?V + card ?U) (\<lambda>k l. \<Sum>i \<le> k. \<Sum>j \<le> l. alpha ?p ?V (\<lambda>A. bval d c A w1) i j *
        alpha ?p ?U (\<lambda>A. bval d c A w2) (k - i) (l - j)) (alpha_product ?pr (?t w1) (?t w2))"
      by (rule alpha_product_ok) (use kid w AND2(3) alpha_large in auto)
    have conv: "alpha ?p (?V \<union> ?U) (\<lambda>A. bval d c A w1 \<and> bval d c A w2) k l = (\<Sum>i \<le> k. \<Sum>j \<le> l. alpha ?p ?V (\<lambda>A. bval d c A w1) i j *
        alpha ?p ?U (\<lambda>A. bval d c A w2) (k - i) (l - j))" for k l
      by (rule alpha_and[OF finite_dvars finite_dvars AND2(4)]) (rule dep[OF w(1)], rule dep[OF w(2)])
    have "table_ok ?pr (card (?V \<union> ?U)) (alpha ?p (?V \<union> ?U) (\<lambda>A. bval d c A w1 \<and> bval d c A w2)) (alpha_product ?pr (?t w1) (?t w2))"
      unfolding card_Un_disjoint[OF finite_dvars finite_dvars AND2(4)] by (rule table_ok_cong[OF tab]) (simp only: conv)
    then show ?thesis unfolding AND2(3) b using AND2(1,2) by (simp add: alpha_comb_simps)
  next
    case (OR w ws)
    let ?V = "dvars d c w"
    have V: "dvars d c v = ?V" if "v \<in> set (w # ws)" for v using OR(4) that by blast
    have kids: "table_ok ?pr (card ?V) (alpha ?p ?V (\<lambda>A. bval d c A v)) (?t v)" if v: "v \<in> set (w # ws)" for v
      using kid[of v] V[OF v] v unfolding OR(2,3) by simp
    have ex: "sorted_wrt (\<lambda>v u. \<not> (bval d c A v \<and> bval d c A u)) (w # ws)" for A
      by (rule sorted_wrt_mono_rel[of _ "\<lambda>v u. \<forall>A. \<not> (bval d c A v \<and> bval d c A u)"])
         (use Suc.prems(4) OR(1,2) in auto)
    have "table_ok ?pr (card ?V) (\<lambda>k l. alpha ?p ?V (\<lambda>A. bval d c A w) k l + (\<Sum>v \<leftarrow> ws. alpha ?p ?V (\<lambda>A. bval d c A v) k l))
        (foldl (alpha_add ?pr) (?t w) (map ?t ws))"
      by (rule alpha_fold_ok) (use kids in simp_all)
    then have "table_ok ?pr (card ?V) (alpha ?p ?V (\<lambda>A. \<exists>v \<in> set (w # ws). bval d c A v)) (foldl (alpha_add ?pr) (?t w) (map ?t ws))"
      by (rule table_ok_cong) (subst alpha_or[OF ex], simp)
    moreover have "bval (Suc d) c A g = (\<exists>v \<in> set (w # ws). bval d c A v)" for A using OR(1,2) by simp
    ultimately show ?thesis unfolding OR(3) using OR(1,2) by (simp add: alpha_comb_simps)
  qed
qed simp


section \<open>The Shapley value\<close>

lemma shapley_alpha_table:
  assumes ok: "dd_ok d c (dd_root c)" "binary d c (dd_root c)" "decomposable d c (dd_root c)"
    "deterministic d c (dd_root c)" "smooth d c (dd_root c)"
    and V: "card (dvars d c (dd_root c)) \<le> 61" "certain c (dvars d c (dd_root c))"
  shows "\<exists>r. shapley_alpha c = Some (Inr r) \<and> table_ok (b_probabilistic c) (card (dvars d c (dd_root c)))
    (alpha (b_getProb c) (dvars d c (dd_root c)) (\<lambda>A. bval d c A (dd_root c))) r"
proof -
  have good: "dd_ok d c (dd_root c) \<and> binary d c (dd_root c)" using ok by simp
  obtain \<delta> where d: "shapley_delta c = Some (Inr \<delta>)" "delta_table d c \<delta>" "b_probabilistic c \<longrightarrow> dd_root c \<in> dom \<delta>"
  proof (cases "b_probabilistic c")
    case True
    from delta.walk_correct[OF good] that True show thesis
      by (auto simp: shapley_delta_def delta_table_def)
  next
    case False
    then show thesis using that[of Map.empty] by (simp add: shapley_delta_def delta_table_def)
  qed
  obtain res where "walk_loop (alpha_step c \<delta>) [(dd_root c, False)] Map.empty = Some (Inr res)"
    "res (dd_root c) = Some (walk_rec d (alpha_comb c \<delta>) c (dd_root c))"
    using alpha.walk_correct[OF good, of \<delta>] by blast
  then have "shapley_alpha c = Some (Inr (walk_rec d (alpha_comb c \<delta>) c (dd_root c)))"
    by (simp add: shapley_alpha_def d(1))
  then show ?thesis using alpha_correct[OF ok V order_refl d(2,3)] by blast
qed

lemma condition_binary: "is_input c x \<Longrightarrow> binary d c g \<Longrightarrow> binary d (condition c x b) g"
proof (induction d arbitrary: g)
  case (Suc d)
  then show ?case by (auto simp: condition_gates is_input_def)
qed simp

lemma condition_probabilistic: "b_probabilistic (condition c x b) = b_probabilistic c"
  by (simp add: condition_def Let_def setGateType_def split: option.splits)

text \<open>The Shapley value of x in the game whose players are the tuples of E and whose winning coalitions
  are given by \<open>\<phi>\<close>.\<close>

definition shapley_value :: "(nat set \<Rightarrow> bool) \<Rightarrow> nat set \<Rightarrow> nat \<Rightarrow> real" where
  "shapley_value \<phi> E x = (\<Sum>S \<in> Pow (E - {x}).
     fact (card S) * fact (card E - card S - 1) / fact (card E) * (of_bool (\<phi> (insert x S)) - of_bool (\<phi> S)))"

definition coalition_weight :: "nat \<Rightarrow> nat \<Rightarrow> real" where
  "coalition_weight k l = 1 / real (k choose l) / real (k + 1)"

lemma coalition_weight: "l \<le> k \<Longrightarrow> fact l * fact (Suc k - l - 1) / fact (Suc k) = coalition_weight k l"
  by (simp add: coalition_weight_def binomial_fact field_simps)

lemma sum_hit2:
  fixes F :: "nat \<Rightarrow> nat \<Rightarrow> real"
  assumes "a \<le> n" "b \<le> a"
  shows "(\<Sum>k \<le> n. \<Sum>l \<le> k. F k l * of_bool (a = k \<and> b = l)) = F a b"
proof -
  have "(\<Sum>l \<le> k. F k l * of_bool (a = k \<and> b = l)) = (if a = k then F a b else 0)" for k
  proof (cases "a = k")
    case True
    have "(\<Sum>l \<le> k. F k l * of_bool (a = k \<and> b = l)) = (\<Sum>l \<le> k. if b = l then F k b else 0)"
      using True by (intro sum.cong) auto
    then show ?thesis using True assms(2) by simp
  qed (simp add: sum.neutral)
  then show ?thesis using assms(1) by simp
qed

lemma weighted_alpha:
  assumes "finite V"
  shows "(\<Sum>k \<le> card V. \<Sum>l \<le> k. w k l * alpha p V \<phi> k l) = nested p V (\<lambda>Z S. w (card Z) (card S) * of_bool (\<phi> S))"
proof -
  have "(\<Sum>k \<le> card V. \<Sum>l \<le> k. w k l * alpha p V \<phi> k l) =
      nested p V (\<lambda>Z S. \<Sum>k \<le> card V. \<Sum>l \<le> k. w k l * of_bool (card Z = k \<and> card S = l \<and> \<phi> S))"
    unfolding alpha_def nested_scale[symmetric] nested_sum[OF finite_atMost] ..
  also have "\<dots> = nested p V (\<lambda>Z S. w (card Z) (card S) * of_bool (\<phi> S))"
  proof (rule nested_cong)
    fix Z S assume ZS: "Z \<subseteq> V" "S \<subseteq> Z"
    have "(\<Sum>k \<le> card V. \<Sum>l \<le> k. w k l * of_bool (card Z = k \<and> card S = l \<and> \<phi> S)) =
        (\<Sum>k \<le> card V. \<Sum>l \<le> k. (w k l * of_bool (\<phi> S)) * of_bool (card Z = k \<and> card S = l))"
      by (intro sum.cong refl) auto
    also have "\<dots> = w (card Z) (card S) * of_bool (\<phi> S)"
      by (rule sum_hit2) (use ZS assms card_mono finite_subset in metis)+
    finally show "(\<Sum>k \<le> card V. \<Sum>l \<le> k. w k l * of_bool (card Z = k \<and> card S = l \<and> \<phi> S)) = w (card Z) (card S) * of_bool (\<phi> S)" .
  qed
  finally show ?thesis .
qed

text \<open>The weights of the coalitions add up to 1, so an expected Shapley value is between -1 and 1.\<close>

lemma coalition_weight_sum:
  assumes "finite Z"
  shows "(\<Sum>S \<in> Pow Z. coalition_weight (card Z) (card S)) = 1"
proof -
  let ?k = "card Z"
  have "(\<Sum>S \<in> Pow Z. coalition_weight ?k (card S)) = (\<Sum>S \<in> Pow Z. \<Sum>l \<le> ?k. coalition_weight ?k l * of_bool (card S = l))"
  proof (rule sum.cong[OF refl])
    fix S assume "S \<in> Pow Z"
    then have "card S \<le> ?k" using assms card_mono by blast
    have "(\<Sum>l \<le> ?k. coalition_weight ?k l * of_bool (card S = l)) = (\<Sum>l \<le> ?k. if card S = l then coalition_weight ?k (card S) else 0)"
      by (intro sum.cong) auto
    then show "coalition_weight ?k (card S) = (\<Sum>l \<le> ?k. coalition_weight ?k l * of_bool (card S = l))"
      using \<open>card S \<le> ?k\<close> by simp
  qed
  also have "\<dots> = (\<Sum>l \<le> ?k. \<Sum>S \<in> Pow Z. coalition_weight ?k l * of_bool (card S = l))" by (rule sum.swap)
  also have "\<dots> = (\<Sum>l \<le> ?k. coalition_weight ?k l * real (?k choose l))"
    unfolding sum_distrib_left[symmetric] subsets_of_size[OF assms] ..
  also have "\<dots> = (\<Sum>l \<le> ?k. 1 / real (?k + 1))"
    by (rule sum.cong[OF refl]) (simp add: coalition_weight_def binomial_eq_0_iff)
  finally show ?thesis by simp
qed

lemma shapley_value_insert:
  assumes "finite Z" "x \<notin> Z"
  shows "shapley_value \<phi> (insert x Z) x =
    (\<Sum>S \<in> Pow Z. coalition_weight (card Z) (card S) * (of_bool (\<phi> (insert x S)) - of_bool (\<phi> S)))"
proof -
  have "insert x Z - {x} = Z" "card (insert x Z) = Suc (card Z)" using assms by auto
  then show ?thesis unfolding shapley_value_def
    using coalition_weight card_mono[OF assms(1)] by (auto intro!: sum.cong)
qed

lemma shapley_value_bounds:
  assumes "finite Z" "x \<notin> Z"
  shows "\<bar>shapley_value \<phi> (insert x Z) x\<bar> \<le> 1"
proof -
  have "\<bar>shapley_value \<phi> (insert x Z) x\<bar> \<le> (\<Sum>S \<in> Pow Z. \<bar>coalition_weight (card Z) (card S) * (of_bool (\<phi> (insert x S)) - of_bool (\<phi> S))\<bar>)"
    unfolding shapley_value_insert[OF assms] by (rule sum_abs)
  also have "\<dots> \<le> (\<Sum>S \<in> Pow Z. coalition_weight (card Z) (card S))"
    by (rule sum_mono) (auto simp: coalition_weight_def)
  finally show ?thesis unfolding coalition_weight_sum[OF assms(1)] .
qed


text \<open>The double loop of \<open>shapley\<close>; without probabilities the skipped rows are zero.\<close>

lemma alpha_certain:
  assumes "finite V" "\<forall>x \<in> V. p x = 1" "k \<noteq> card V"
  shows "alpha p V \<phi> k l = 0"
  using assms by (simp add: alpha_def nested_def expect_certain)

lemma shapley_sum:
  assumes V: "finite V" "card V \<le> 61" and cert: "\<not> pr \<longrightarrow> (\<forall>x \<in> V. p x = 1)"
    and pos: "table_ok pr (card V) (alpha p V \<phi>) r" and neg: "table_ok pr (card V) (alpha p V \<psi>) r'"
  shows "(\<Sum>k \<leftarrow> [first_row pr (length r - 1)..<length r]. \<Sum>l \<leftarrow> [0..<Suc k]. (r ! k ! l - r' ! k ! l) / of_int (comb k l) / of_nat (k + 1)) =
    nested p V (\<lambda>Z S. coalition_weight (card Z) (card S) * (of_bool (\<phi> S) - of_bool (\<psi> S)))"
proof -
  let ?n = "card V" and ?w = "coalition_weight"
  have len: "length r = Suc ?n" by (rule table_okD(1)[OF pos])
  let ?H = "\<lambda>k. \<Sum>l \<le> k. ?w k l * (alpha p V \<phi> k l - alpha p V \<psi> k l)"
  have row: "(\<Sum>l \<leftarrow> [0..<Suc k]. (r ! k ! l - r' ! k ! l) / of_int (comb k l) / of_nat (k + 1)) = ?H k"
    if k: "first_row pr ?n \<le> k" "k \<le> ?n" for k
    unfolding sum_upt atLeast0LessThan lessThan_Suc_atMost
  proof (rule sum.cong[OF refl])
    fix l assume "l \<in> {..k}"
    then have l: "l \<le> k" by simp
    have "of_int (comb k l) = real (k choose l)" using comb_correct[of k l] k(2) V(2) l by simp
    then show "(r ! k ! l - r' ! k ! l) / of_int (comb k l) / of_nat (k + 1) = ?w k l * (alpha p V \<phi> k l - alpha p V \<psi> k l)"
      unfolding table_okD(3)[OF pos k l] table_okD(3)[OF neg k l] by (simp add: coalition_weight_def)
  qed
  have "(\<Sum>k \<leftarrow> [first_row pr (length r - 1)..<length r]. \<Sum>l \<leftarrow> [0..<Suc k]. (r ! k ! l - r' ! k ! l) / of_int (comb k l) / of_nat (k + 1)) =
      (\<Sum>k \<in> {first_row pr ?n..<Suc ?n}. ?H k)"
    unfolding sum_upt[of _ _ "Suc ?n"] len diff_Suc_1 by (rule sum.cong[OF refl]) (use row in auto)
  also have "\<dots> = (\<Sum>k \<le> ?n. ?H k)"
  proof (rule sum.mono_neutral_left)
    show "\<forall>k \<in> {..?n} - {first_row pr ?n..<Suc ?n}. ?H k = 0"
      using cert alpha_certain[OF V(1)] by (auto simp: first_row_def split: if_splits)
  qed auto
  also have "\<dots> = (\<Sum>k \<le> ?n. \<Sum>l \<le> k. ?w k l * alpha p V \<phi> k l) - (\<Sum>k \<le> ?n. \<Sum>l \<le> k. ?w k l * alpha p V \<psi> k l)"
    by (simp add: right_diff_distrib sum_subtractf)
  finally show ?thesis unfolding weighted_alpha[OF V(1)] nested_diff[symmetric] by (simp add: right_diff_distrib)
qed

lemma clamp_id: "\<bar>y\<bar> \<le> 1 \<Longrightarrow> clamp y = y"
  by (auto simp: clamp_def)

text \<open>On a smooth d-DNNF whose AND gates are binary, with at most 61 other variables, \<open>shapley\<close>
  returns the expected Shapley value of the variable x: the expectation, over the random set E of
  tuples that are present, of the Shapley value of x among the players E, counted 0 when x is
  absent.  Circuits that are not probabilistic take the shorter path that fills one row only.\<close>

lemma shapley_exact:
  assumes ok: "dd_ok d dd (dd_root dd)" and bin: "binary d dd (dd_root dd)" and dec: "decomposable d dd (dd_root dd)"
    and det: "deterministic d dd (dd_root dd)" and sm: "smooth d dd (dd_root dd)"
    and x: "is_input dd x" and few: "card (dvars d dd (dd_root dd) - {x}) \<le> 61"
    and cert: "certain dd (insert x (dvars d dd (dd_root dd)))"
    and p: "\<forall>v \<in> insert x (dvars d dd (dd_root dd)). 0 \<le> b_getProb dd v \<and> b_getProb dd v \<le> 1"
  shows "shapley dd x = Some (Inr (expect (b_getProb dd) (insert x (dvars d dd (dd_root dd)))
    (\<lambda>E. if x \<in> E then shapley_value (\<lambda>S. bval d dd S (dd_root dd)) E x else 0)))"
proof -
  have x1: "x < length (gates dd)" using x by (simp add: is_input_def)
  let ?p = "b_getProb dd" and ?g = "dd_root dd" and ?W = "dvars d dd (dd_root dd) - {x}" and ?pr = "b_probabilistic dd"
  let ?\<phi> = "\<lambda>b S. bval d dd (if b then insert x S else S - {x}) ?g" and ?sv = "\<lambda>E. shapley_value (\<lambda>S. bval d dd S ?g) E x"
  have cW: "certain dd ?W" by (rule certain_mono[OF cert]) auto
  have H: "\<exists>r. shapley_alpha (condition dd x b) = Some (Inr r) \<and> table_ok ?pr (card ?W) (alpha ?p ?W (?\<phi> b)) r" for b
  proof -
    have root: "dd_root (condition dd x b) = ?g" and prob: "b_getProb (condition dd x b) = ?p"
      by (rule condition_gates[OF x1])+
    have "certain (condition dd x b) ?W" using cW by (simp add: certain_def prob condition_probabilistic)
    from shapley_alpha_table[of d "condition dd x b", unfolded root prob condition_dvars[OF x ok] condition_bval[OF x ok]
        condition_probabilistic, OF condition_ok[OF x ok] condition_binary[OF x bin] condition_decomposable[OF x ok dec]
        condition_deterministic[OF x ok det] condition_smooth[OF x ok sm] few this]
    show ?thesis .
  qed
  obtain rt where rt: "shapley_alpha (condition dd x True) = Some (Inr rt)" "table_ok ?pr (card ?W) (alpha ?p ?W (?\<phi> True)) rt"
    using H[of True] by blast
  obtain rf where rf: "shapley_alpha (condition dd x False) = Some (Inr rf)" "table_ok ?pr (card ?W) (alpha ?p ?W (?\<phi> False)) rf"
    using H[of False] by blast
  have N: "nested ?p ?W (\<lambda>Z S. coalition_weight (card Z) (card S) * (of_bool (?\<phi> True S) - of_bool (?\<phi> False S))) =
      expect ?p ?W (\<lambda>Z. ?sv (insert x Z))"
    unfolding nested_def
  proof (rule expect_cong)
    fix Z assume Z: "Z \<subseteq> ?W"
    then have "finite Z" "x \<notin> Z" using finite_subset[of Z "dvars d dd ?g"] by auto
    then show "(\<Sum>S \<in> Pow Z. coalition_weight (card Z) (card S) * (of_bool (?\<phi> True S) - of_bool (?\<phi> False S))) = ?sv (insert x Z)"
      unfolding shapley_value_insert[OF \<open>finite Z\<close> \<open>x \<notin> Z\<close>]
    proof (intro sum.cong refl)
      fix S assume "S \<in> Pow Z"
      then have "S - {x} = S" using \<open>x \<notin> Z\<close> by blast
      then show "coalition_weight (card Z) (card S) * (of_bool (?\<phi> True S) - of_bool (?\<phi> False S)) =
          coalition_weight (card Z) (card S) * (of_bool (bval d dd (insert x S) ?g) - of_bool (bval d dd S ?g))" by simp
    qed
  qed
  have L: "(\<Sum>k \<leftarrow> [first_row ?pr (length rt - 1)..<length rt]. \<Sum>l \<leftarrow> [0..<Suc k].
      (rt ! k ! l - rf ! k ! l) / of_int (comb k l) / of_nat (k + 1)) =
      nested ?p ?W (\<lambda>Z S. coalition_weight (card Z) (card S) * (of_bool (?\<phi> True S) - of_bool (?\<phi> False S)))"
    by (rule shapley_sum[OF _ few _ rt(2) rf(2)]) (use cW in \<open>auto simp: certain_def\<close>)
  have E: "expect ?p (insert x (dvars d dd ?g)) (\<lambda>E. if x \<in> E then ?sv (insert x (E - {x})) else 0) =
      ?p x * expect ?p ?W (\<lambda>Z. ?sv (insert x Z))" by (rule expect_present) simp
  have E': "expect ?p (insert x (dvars d dd ?g)) (\<lambda>E. if x \<in> E then ?sv E else 0) =
      expect ?p (insert x (dvars d dd ?g)) (\<lambda>E. if x \<in> E then ?sv (insert x (E - {x})) else 0)"
    by (rule expect_cong) (simp add: insert_absorb)
  have B: "\<bar>?p x * expect ?p ?W (\<lambda>Z. ?sv (insert x Z))\<bar> \<le> 1"
  proof -
    have "\<bar>?sv (insert x Z)\<bar> \<le> 1" if "Z \<subseteq> ?W" for Z
      by (rule shapley_value_bounds) (use that finite_subset[of Z "dvars d dd ?g"] in auto)
    then have b: "?sv (insert x Z) \<le> 1" "- 1 \<le> ?sv (insert x Z)" if "Z \<subseteq> ?W" for Z
      using that by (simp_all add: abs_le_iff minus_le_iff)
    have pW: "0 \<le> ?p v \<and> ?p v \<le> 1" if "v \<in> ?W" for v using p that by simp
    have "expect ?p ?W (\<lambda>Z. ?sv (insert x Z)) \<le> expect ?p ?W (\<lambda>_. 1)"
      by (rule expect_mono[OF pW b(1)])
    moreover have "expect ?p ?W (\<lambda>_. - 1) \<le> expect ?p ?W (\<lambda>Z. ?sv (insert x Z))"
      by (rule expect_mono[OF pW b(2)])
    ultimately have "\<bar>expect ?p ?W (\<lambda>Z. ?sv (insert x Z))\<bar> \<le> 1" by (simp add: abs_le_iff minus_le_iff)
    then show ?thesis using p by (simp add: abs_mult mult_le_one)
  qed
  show ?thesis
    unfolding shapley_def rt(1) rf(1) bind_run_simps L N E' E mult.commute[of _ "?p x"] clamp_id[OF B] ..
qed

end
