(* ===== verification/Reshape.thy ===== *)
theory Reshape
  imports Shapley
begin

text \<open>
  The transformations that prepare a d-DNNF for the power indices (\<open>src/dDNNF.cpp\<close>):
  \<open>makeGatesBinary\<close>, which splits the wide gates of a type, and \<open>makeSmooth\<close>, which adds the missing
  variables under the OR gates.  \<open>same_below\<close> says that a gate of the new circuit has the function,
  the variables and the structural properties of a gate of the old one.
\<close>

section \<open>Gates with the same meaning\<close>

definition same_below :: "nat \<Rightarrow> 'm bool_circuit_scheme \<Rightarrow> gate_t \<Rightarrow> nat \<Rightarrow> 'k bool_circuit_scheme \<Rightarrow> gate_t \<Rightarrow> bool" where
  "same_below d c v D c' v' \<longleftrightarrow> dd_ok D c' v' \<and> dvars D c' v' = dvars d c v \<and> (\<forall>A. bval D c' A v' = bval d c A v) \<and>
     (decomposable d c v \<longrightarrow> decomposable D c' v') \<and> (deterministic d c v \<longrightarrow> deterministic D c' v') \<and>
     (smooth d c v \<longrightarrow> smooth D c' v')"

lemma same_below_trans:
  "same_below d c v d' c' v' \<Longrightarrow> same_below d' c' v' d'' c'' v'' \<Longrightarrow> same_below d c v d'' c'' v''"
  unfolding same_below_def by simp

lemma all2_right: "list_all2 R xs ys \<Longrightarrow> y \<in> set ys \<Longrightarrow> \<exists>x \<in> set xs. R x y"
  by (induction rule: list_all2_induct) auto

lemma sorted_wrt_all2:
  "list_all2 R xs ys \<Longrightarrow> (\<And>x y x' y'. R x x' \<Longrightarrow> R y y' \<Longrightarrow> P x y \<Longrightarrow> Q x' y') \<Longrightarrow> sorted_wrt P xs \<Longrightarrow> sorted_wrt Q ys"
proof (induction rule: list_all2_induct)
  case (Cons x xs y ys)
  have "Q y y'" if y': "y' \<in> set ys" for y'
  proof -
    obtain x' where "x' \<in> set xs" "R x' y'" using all2_right[OF Cons.hyps(2) y'] by blast
    then show ?thesis using Cons.prems(1)[OF Cons.hyps(1)] Cons.prems(2) by simp
  qed
  moreover have "sorted_wrt Q ys" by (rule Cons.IH) (use Cons.prems in auto)
  ultimately show ?case by simp
qed simp

lemma all2_image:
  assumes "list_all2 R xs ys" "\<And>x y. R x y \<Longrightarrow> f x = h y"
  shows "f ` set xs = h ` set ys"
  using assms by (induction rule: list_all2_induct) auto

lemma image_eq_quantifiers:
  assumes "f ` S = h ` T"
  shows "(\<forall>x \<in> S. f x) = (\<forall>y \<in> T. h y)" "(\<exists>x \<in> S. f x) = (\<exists>y \<in> T. h y)"
proof -
  have "(\<forall>x \<in> S. f x) = (\<forall>b \<in> f ` S. b)" "(\<exists>x \<in> S. f x) = (\<exists>b \<in> f ` S. b)" by simp_all
  then show "(\<forall>x \<in> S. f x) = (\<forall>y \<in> T. h y)" "(\<exists>x \<in> S. f x) = (\<exists>y \<in> T. h y)" unfolding assms by simp_all
qed

text \<open>The same gate over wires with the same meaning.\<close>

lemma same_below_gate:
  assumes ok: "dd_ok (Suc d) c v" and t: "getGateType c' v' = getGateType c v" and v': "v' < length (gates c')"
    and "in": "getGateType c v = IN \<Longrightarrow> v' = v"
    and ws: "list_all2 (\<lambda>w w'. same_below d c w D c' w') (getWires c v) (getWires c' v')"
  shows "same_below (Suc d) c v (Suc D) c' v'"
proof -
  let ?ws = "getWires c v" and ?ws' = "getWires c' v'"
  have kid: "\<exists>w \<in> set ?ws. same_below d c w D c' w'" if "w' \<in> set ?ws'" for w'
    using all2_right[OF ws that] .
  have lenl: "length ?ws' = length ?ws" using ws by (simp add: list_all2_lengthD)
  have sub: "\<forall>w' \<in> set ?ws'. dd_ok D c' w'" using kid by (auto simp: same_below_def)
  have ok': "dd_ok (Suc D) c' v'"
    using ok by (cases rule: dd_ok_cases) (use t v' lenl sub ws in \<open>auto simp: length_Suc_conv\<close>)
  have dv: "(\<lambda>w. dvars d c w) ` set ?ws = (\<lambda>w. dvars D c' w) ` set ?ws'"
    by (rule all2_image[OF ws]) (simp add: same_below_def)
  have V: "dvars (Suc D) c' v' = dvars (Suc d) c v"
    using "in" t dv by (simp add: image_def)
  have B: "bval (Suc D) c' A v' = bval (Suc d) c A v" for A
  proof -
    have bv: "(\<lambda>w. bval d c A w) ` set ?ws = (\<lambda>w. bval D c' A w) ` set ?ws'"
      by (rule all2_image[OF ws]) (simp add: same_below_def)
    from ok show ?thesis
    proof (cases rule: dd_ok_cases)
      case (NOT w)
      then obtain w' where "?ws' = [w']" "same_below d c w D c' w'" using ws by (auto simp: list_all2_Cons1)
      then show ?thesis using NOT(1,2) t by (simp add: same_below_def)
    next
      case AND
      have "(\<forall>w \<in> set ?ws. bval d c A w) \<longleftrightarrow> (\<forall>w \<in> set ?ws'. bval D c' A w)"
        by (rule image_eq_quantifiers(1)[OF bv])
      then show ?thesis using AND(1) t by simp
    next
      case OR
      have "(\<exists>w \<in> set ?ws. bval d c A w) \<longleftrightarrow> (\<exists>w \<in> set ?ws'. bval D c' A w)"
        by (rule image_eq_quantifiers(2)[OF bv])
      then show ?thesis using OR(1) t by simp
    qed (use "in" t in auto)
  qed
  have dec: "decomposable (Suc D) c' v'" if "decomposable (Suc d) c v"
    unfolding decomposable.simps
  proof (intro conjI impI ballI)
    assume "getGateType c' v' = AND"
    then have "sorted_wrt (\<lambda>v w. dvars d c v \<inter> dvars d c w = {}) ?ws" using that t by simp
    then show "sorted_wrt (\<lambda>v w. dvars D c' v \<inter> dvars D c' w = {}) ?ws'"
      by (rule sorted_wrt_all2[OF ws, rotated]) (simp add: same_below_def)
  next
    fix w' assume "w' \<in> set ?ws'"
    then show "decomposable D c' w'" using kid that by (auto simp: same_below_def)
  qed
  have det: "deterministic (Suc D) c' v'" if "deterministic (Suc d) c v"
    unfolding deterministic.simps
  proof (intro conjI impI ballI)
    assume "getGateType c' v' = OR"
    then have "sorted_wrt (\<lambda>v w. \<forall>A. \<not> (bval d c A v \<and> bval d c A w)) ?ws" using that t by simp
    then show "sorted_wrt (\<lambda>v w. \<forall>A. \<not> (bval D c' A v \<and> bval D c' A w)) ?ws'"
      by (rule sorted_wrt_all2[OF ws, rotated]) (simp add: same_below_def)
  next
    fix w' assume "w' \<in> set ?ws'"
    then show "deterministic D c' w'" using kid that by (auto simp: same_below_def)
  qed
  have sm: "smooth (Suc D) c' v'" if s: "smooth (Suc d) c v"
    unfolding smooth.simps
  proof (intro conjI impI ballI)
    fix u' w' assume g: "getGateType c' v' = OR" and u: "u' \<in> set ?ws'" "w' \<in> set ?ws'"
    obtain u w where "u \<in> set ?ws" "w \<in> set ?ws" "dvars D c' u' = dvars d c u" "dvars D c' w' = dvars d c w"
      using kid[OF u(1)] kid[OF u(2)] by (auto simp: same_below_def)
    then show "dvars D c' u' = dvars D c' w'" using s g t unfolding smooth.simps by metis
  next
    fix w' assume "w' \<in> set ?ws'"
    then obtain w where "w \<in> set ?ws" "same_below d c w D c' w'" using kid by blast
    then show "smooth D c' w'" using smooth_wires[OF s] by (simp add: same_below_def)
  qed
  show ?thesis unfolding same_below_def using ok' V B dec det sm by blast
qed

lemma same_below_fuel: "dd_ok d c v \<Longrightarrow> d \<le> D \<Longrightarrow> same_below d c v D c v"
proof (induction d arbitrary: v D)
  case (Suc d)
  then obtain D' where D': "D = Suc D'" "d \<le> D'" by (cases D) simp_all
  show ?case unfolding D'(1)
  proof (rule same_below_gate[OF Suc.prems(1) refl])
    show "v < length (gates c)" using Suc.prems(1) by simp
    show "list_all2 (\<lambda>w w'. same_below d c w D' c w') (getWires c v) (getWires c v)"
      by (rule list_all2_same[THEN iffD2]) (use Suc.IH[OF dd_ok_wires[OF Suc.prems(1)] D'(2)] in blast)
  qed simp
qed simp


section \<open>Binary gates\<close>

text \<open>One iteration of \<open>makeGatesBinary\<close>.\<close>

definition split_gate :: "BooleanGate \<Rightarrow> gate_t \<Rightarrow> 'm bool_circuit_scheme \<Rightarrow> 'm bool_circuit_scheme" where
  "split_gate ty g c =
     (if getGateType c g \<noteq> ty \<or> length (getWires c g) \<le> 2 then c
      else if length (getWires c g) = 3
      then (let (child, c1) = b_setGate c ty; w = getWires c1 g;
                c2 = foldl (\<lambda>c i. addWire c child (w ! i)) c1 [1..<3];
                c3 = setWires c2 g (take 1 w)
            in addWire c3 g child)
      else (let (child1, c1) = b_setGate c ty; (child2, c2) = b_setGate c1 ty; w = getWires c2 g; k = length w;
                c3 = foldl (\<lambda>c i. if i < k div 2 then addWire c child1 (w ! i) else addWire c child2 (w ! i)) c2 [0..<k];
                c4 = setWires c3 g []
            in addWire (addWire c4 g child1) g child2))"

text \<open>The loop bound \<open>gates.size()\<close> is read again in every iteration: the new gates are split too.\<close>

partial_function (option) binary_loop :: "BooleanGate \<Rightarrow> gate_t \<Rightarrow> 'm bool_circuit_scheme \<Rightarrow> 'm bool_circuit_scheme option" where
  "binary_loop ty g c = (if g < length (gates c) then binary_loop ty (g + 1) (split_gate ty g c) else Some c)"

declare binary_loop.simps [code]

definition makeGatesBinary :: "BooleanGate \<Rightarrow> 'm bool_circuit_scheme \<Rightarrow> 'm bool_circuit_scheme option" where
  "makeGatesBinary ty c = binary_loop ty 0 c"

subsection \<open>What a split does\<close>

text \<open>g gets new gates of its type that hold its wires, in order.\<close>

definition regrouped :: "BooleanGate \<Rightarrow> 'm bool_circuit_scheme \<Rightarrow> 'm bool_circuit_scheme \<Rightarrow> gate_t \<Rightarrow> bool" where
  "regrouped ty c c' g \<longleftrightarrow> (let n = length (gates c) in
     n \<le> length (gates c') \<and> g < n \<and> getGateType c g = ty \<and>
     (\<forall>v < n. getGateType c' v = getGateType c v \<and> (v \<noteq> g \<longrightarrow> getWires c' v = getWires c v)) \<and>
     concat (map (\<lambda>h. if h < n then [h] else getWires c' h) (getWires c' g)) = getWires c g \<and>
     (\<forall>h \<in> set (getWires c' g). h < n \<or> h < length (gates c') \<and> getGateType c' h = ty))"

text \<open>The fields the transformation leaves alone, and the probabilities of the old gates.\<close>

definition same_fields :: "'m bool_circuit_scheme \<Rightarrow> 'm bool_circuit_scheme \<Rightarrow> bool" where
  "same_fields c c' \<longleftrightarrow> length (wires c') = length (gates c') \<and> length (b_prob c') = length (gates c') \<and>
     (\<forall>v < length (gates c). b_getProb c' v = b_getProb c v) \<and> b_probabilistic c' = b_probabilistic c \<and>
     b_inputs c' = b_inputs c \<and> uuid2id c' = uuid2id c \<and> id2uuid c' = id2uuid c \<and>
     bool_circuit.more c' = bool_circuit.more c"

definition sized :: "'m bool_circuit_scheme \<Rightarrow> bool" where
  "sized c \<longleftrightarrow> length (wires c) = length (gates c) \<and> length (b_prob c) = length (gates c)"

lemma same_fields_trans:
  "same_fields c c' \<Longrightarrow> same_fields c' c'' \<Longrightarrow> length (gates c) \<le> length (gates c') \<Longrightarrow> same_fields c c''"
  by (auto simp: same_fields_def)

lemma addWires_loop:
  "g < length (wires c) \<Longrightarrow> foldl (\<lambda>c i. addWire c g (f i)) c is = c\<lparr>wires := (wires c)[g := wires c ! g @ map f is]\<rparr>"
  by (induction "is" arbitrary: c) (simp_all add: addWire_def)

lemma addWires_split:
  fixes c :: "('g, 'm) circuit_scheme"
  assumes "g1 < length (wires c)" "g2 < length (wires c)" "g1 \<noteq> g2" "m \<le> k"
  shows "foldl (\<lambda>c i. if i < m then addWire c g1 (f i) else addWire c g2 (f i)) c [0..<k] =
    c\<lparr>wires := (wires c)[g1 := wires c ! g1 @ map f [0..<m], g2 := wires c ! g2 @ map f [m..<k]]\<rparr>"
proof -
  have k: "[0..<k] = [0..<m] @ [m..<k]" using assms(4) by (metis le0 upt_add_eq_append le_add_diff_inverse)
  have "foldl (\<lambda>c i. if i < m then addWire c g1 (f i) else addWire c g2 (f i)) c [0..<m] = foldl (\<lambda>c i. addWire c g1 (f i)) c [0..<m]"
    by (rule foldl_cong) auto
  moreover have "foldl (\<lambda>c i. if i < m then addWire c g1 (f i) else addWire c g2 (f i)) c' [m..<k] = foldl (\<lambda>c i. addWire c g2 (f i)) c' [m..<k]" for c' :: "('g, 'm) circuit_scheme"
    by (rule foldl_cong) auto
  ultimately show ?thesis unfolding k foldl_append using assms by (simp add: addWires_loop)
qed

lemma map_nth_upt: "i \<le> j \<Longrightarrow> j \<le> length xs \<Longrightarrow> map ((!) xs) [i..<j] = take (j - i) (drop i xs)"
  by (rule nth_equalityI) auto

lemma split_gate_shape:
  assumes sz: "sized c" and g: "g < length (gates c)" and t: "getGateType c g = AND" and w: "length (getWires c g) > 2"
    and old: "\<forall>v < length (gates c). set (getWires c v) \<subseteq> {..<length (gates c)}"
  shows "regrouped AND c (split_gate AND g c) g" "same_fields c (split_gate AND g c)" "length (getWires (split_gate AND g c) g) = 2"
    "\<exists>hs. gates (split_gate AND g c) = gates c @ replicate (length hs) AND \<and> drop (length (gates c)) (wires (split_gate AND g c)) = hs \<and>
      (length (getWires c g) = 3 \<and> map length hs = [2] \<or>
       length (getWires c g) > 3 \<and> map length hs = [length (getWires c g) div 2, length (getWires c g) - length (getWires c g) div 2]) \<and>
      (\<forall>h \<in> set hs. set h \<subseteq> set (getWires c g))"
proof -
  let ?n = "length (gates c)" and ?w = "getWires c g" and ?c = "split_gate AND g c"
  have n: "length (wires c) = ?n" "length (b_prob c) = ?n" "g \<noteq> ?n" "g \<noteq> Suc ?n" using sz g by (auto simp: sized_def)
  have wsub: "set ?w \<subseteq> {..<?n}" using old g by blast
  define hs where "hs = (if length ?w = 3 then [drop 1 ?w] else [take (length ?w div 2) ?w, drop (length ?w div 2) ?w])"
  define ks where "ks = (if length ?w = 3 then [hd ?w, ?n] else [?n, Suc ?n])"
  have c': "?c = c\<lparr>gates := gates c @ replicate (length hs) AND, wires := (wires c)[g := ks] @ hs, b_prob := b_prob c @ replicate (length hs) 1\<rparr>"
  proof (cases "length ?w = 3")
    case True
    then have "take (Suc 0) ?w = [hd ?w]" "map ((!) ?w) [1..<3] = drop 1 ?w"
      using map_nth_upt[of 1 3 ?w] by (cases ?w; simp)+
    then show ?thesis using True w t n g
      by (simp add: split_gate_def b_setGate_def b_addGate_def b_register_def Let_def setGateType_def getWires_def addWires_loop
          nth_append list_update_append hs_def ks_def)
        (simp add: setWires_def addWire_def nth_append list_update_append)
  next
    case False
    have "map ((!) ?w) [0..<length ?w div 2] = take (length ?w div 2) ?w" "map ((!) ?w) [length ?w div 2..<length ?w] = drop (length ?w div 2) ?w"
      using map_nth_upt[of 0 "length ?w div 2" ?w] map_nth_upt[of "length ?w div 2" "length ?w" ?w] by simp_all
    then show ?thesis using False w t n g
      by (simp add: split_gate_def b_setGate_def b_addGate_def b_register_def Let_def setGateType_def getWires_def addWires_split
          nth_append list_update_append hs_def ks_def)
        (simp add: setWires_def addWire_def nth_append list_update_append)
  qed
  have lhs: "hs \<noteq> []" by (simp add: hs_def)
  have f: "gates ?c = gates c @ replicate (length hs) AND" "wires ?c = (wires c)[g := ks] @ hs" unfolding c' by simp_all
  show "same_fields c ?c" unfolding same_fields_def c' using n by (simp add: b_getProb_def nth_append)
  have ks: "getWires ?c g = ks" using g n by (simp add: getWires_def f nth_append)
  show "length (getWires ?c g) = 2" unfolding ks by (simp add: ks_def)
  have new: "getWires ?c (?n + i) = hs ! i" if "i < length hs" for i
    using n that by (simp add: getWires_def f nth_append)
  have "concat (map (\<lambda>h. if h < ?n then [h] else getWires ?c h) ks) = ?w"
  proof (cases "length ?w = 3")
    case True
    then obtain x y where xy: "?w = x # y" by (cases ?w) auto
    then have "x < ?n" using wsub by simp
    then show ?thesis using True xy new[of 0] by (simp add: ks_def hs_def)
  next
    case False
    then show ?thesis using new[of 0] new[of 1] by (simp add: ks_def hs_def)
  qed
  moreover have "\<forall>h \<in> set ks. h < ?n \<or> h < length (gates ?c) \<and> getGateType ?c h = AND"
  proof -
    have "hd ?w < ?n" using w wsub by (cases ?w) auto
    then show ?thesis by (auto simp: ks_def hs_def f getGateType_def nth_append nth_Cons')
  qed
  moreover have "getGateType ?c v = getGateType c v \<and> (v \<noteq> g \<longrightarrow> getWires ?c v = getWires c v)" if "v < ?n" for v
    using that n by (simp add: getGateType_def getWires_def f nth_append)
  ultimately show "regrouped AND c ?c g" unfolding regrouped_def Let_def ks using g t by (simp add: f)
  show "\<exists>hs. gates ?c = gates c @ replicate (length hs) AND \<and> drop ?n (wires ?c) = hs \<and>
      (length ?w = 3 \<and> map length hs = [2] \<or> length ?w > 3 \<and> map length hs = [length ?w div 2, length ?w - length ?w div 2]) \<and>
      (\<forall>h \<in> set hs. set h \<subseteq> set ?w)"
    by (rule exI[of _ hs]) (use w n in \<open>auto simp: f hs_def min_def dest: in_set_takeD in_set_dropD\<close>)
qed


subsection \<open>The meaning is kept\<close>

lemma sorted_wrt_concat:
  "sorted_wrt P (concat xss) \<Longrightarrow> (\<forall>xs \<in> set xss. sorted_wrt P xs) \<and>
     sorted_wrt (\<lambda>xs ys. \<forall>x \<in> set xs. \<forall>y \<in> set ys. P x y) xss"
  by (induction xss) (auto simp: sorted_wrt_append)

text \<open>A conjunction over the gates w, whatever the gate.\<close>

definition conj_below :: "nat \<Rightarrow> 'm bool_circuit_scheme \<Rightarrow> gate_t list \<Rightarrow> nat \<Rightarrow> 'k bool_circuit_scheme \<Rightarrow> gate_t \<Rightarrow> bool" where
  "conj_below d c ws D c' h \<longleftrightarrow> dd_ok D c' h \<and> dvars D c' h = (\<Union>w \<in> set ws. dvars d c w) \<and>
     (\<forall>A. bval D c' A h \<longleftrightarrow> (\<forall>w \<in> set ws. bval d c A w)) \<and>
     (sorted_wrt (\<lambda>v w. dvars d c v \<inter> dvars d c w = {}) ws \<and> (\<forall>w \<in> set ws. decomposable d c w) \<longrightarrow> decomposable D c' h) \<and>
     ((\<forall>w \<in> set ws. deterministic d c w) \<longrightarrow> deterministic D c' h) \<and>
     ((\<forall>w \<in> set ws. smooth d c w) \<longrightarrow> smooth D c' h)"

lemma conj_below_single: "same_below d c w D c' w' \<Longrightarrow> conj_below d c [w] D c' w'"
  by (simp add: same_below_def conj_below_def)

lemma conj_below_and:
  assumes h: "h < length (gates c')" "getGateType c' h = AND"
    and ws: "list_all2 (\<lambda>ws w'. conj_below d c ws D c' w') wss (getWires c' h)"
  shows "conj_below d c (concat wss) (Suc D) c' h"
proof -
  let ?ws' = "getWires c' h"
  have kid: "\<exists>ws \<in> set wss. conj_below d c ws D c' w'" if "w' \<in> set ?ws'" for w'
    using all2_right[OF ws that] .
  have sub: "\<forall>w' \<in> set ?ws'. dd_ok D c' w'" using kid by (auto simp: conj_below_def)
  have dv: "(\<lambda>ws. \<Union>w \<in> set ws. dvars d c w) ` set wss = (\<lambda>w. dvars D c' w) ` set ?ws'"
    by (rule all2_image[OF ws]) (simp add: conj_below_def)
  have V: "dvars (Suc D) c' h = (\<Union>w \<in> set (concat wss). dvars d c w)"
    using h(2) dv[symmetric] by simp
  have B: "bval (Suc D) c' A h \<longleftrightarrow> (\<forall>w \<in> set (concat wss). bval d c A w)" for A
  proof -
    have bv: "(\<lambda>ws. \<forall>w \<in> set ws. bval d c A w) ` set wss = (\<lambda>w. bval D c' A w) ` set ?ws'"
      by (rule all2_image[OF ws]) (simp add: conj_below_def)
    have "(\<forall>ws \<in> set wss. \<forall>w \<in> set ws. bval d c A w) \<longleftrightarrow> (\<forall>w \<in> set ?ws'. bval D c' A w)"
      by (rule image_eq_quantifiers(1)[OF bv])
    then show ?thesis using h(2) by auto
  qed
  have dec: "decomposable (Suc D) c' h"
    if s: "sorted_wrt (\<lambda>v w. dvars d c v \<inter> dvars d c w = {}) (concat wss)" and k: "\<forall>w \<in> set (concat wss). decomposable d c w"
    unfolding decomposable.simps
  proof (intro conjI impI ballI)
    note s' = sorted_wrt_concat[OF s]
    show "sorted_wrt (\<lambda>v w. dvars D c' v \<inter> dvars D c' w = {}) ?ws'"
      by (rule sorted_wrt_all2[OF ws _ conjunct2[OF s']]) (auto simp: conj_below_def)
  next
    note s' = sorted_wrt_concat[OF s]
    fix w' assume "w' \<in> set ?ws'"
    then show "decomposable D c' w'" using kid k conjunct1[OF s'] by (fastforce simp: conj_below_def)
  qed
  have det: "deterministic (Suc D) c' h" if "\<forall>w \<in> set (concat wss). deterministic d c w"
    using h(2) kid that by (fastforce simp: conj_below_def)
  have sm: "smooth (Suc D) c' h" if "\<forall>w \<in> set (concat wss). smooth d c w"
    using h(2) kid that by (fastforce simp: conj_below_def)
  have "dd_ok (Suc D) c' h" using h sub by simp
  then show ?thesis unfolding conj_below_def using V B dec det sm by blast
qed

lemma conj_below_same:
  assumes "getGateType c g = AND" "conj_below d c (getWires c g) D c' g"
  shows "same_below (Suc d) c g D c' g"
proof -
  have "decomposable (Suc d) c g \<Longrightarrow> decomposable D c' g" using assms by (simp add: conj_below_def)
  moreover have "deterministic (Suc d) c g \<Longrightarrow> deterministic D c' g" using assms by (simp add: conj_below_def)
  moreover have "smooth (Suc d) c g \<Longrightarrow> smooth D c' g" using assms by (simp add: conj_below_def)
  ultimately show ?thesis using assms by (simp add: conj_below_def same_below_def)
qed

lemma regrouped_same:
  assumes rg: "regrouped AND c c' g"
  shows "dd_ok d c v \<Longrightarrow> v < length (gates c) \<Longrightarrow> \<forall>v < length (gates c). set (getWires c v) \<subseteq> {..<length (gates c)} \<Longrightarrow>
    same_below d c v (2 * d) c' v"
proof (induction d arbitrary: v)
  case (Suc d)
  let ?n = "length (gates c)" and ?ws = "getWires c v"
  have n: "?n \<le> length (gates c')" and gt: "getGateType c' v = getGateType c v"
    using rg Suc.prems(2) by (auto simp: regrouped_def Let_def)
  have kid: "same_below d c w (2 * d) c' w" if "w \<in> set ?ws" for w
    by (rule Suc.IH[OF dd_ok_wires[OF Suc.prems(1) that] _ Suc.prems(3)]) (use that Suc.prems(2,3) in blast)
  have up: "same_below d c w D c' w" if "w \<in> set ?ws" "2 * d \<le> D" for w D
    using same_below_trans[OF kid[OF that(1)] same_below_fuel[OF _ that(2)]] kid[OF that(1)]
    by (simp add: same_below_def)
  show ?case
  proof (cases "v = g")
    case False
    have "same_below (Suc d) c v (Suc (Suc (2 * d))) c' v"
    proof (rule same_below_gate[OF Suc.prems(1) gt])
      have "getWires c' v = ?ws" using rg False Suc.prems(2) by (simp add: regrouped_def Let_def)
      then show "list_all2 (\<lambda>w w'. same_below d c w (Suc (2 * d)) c' w') ?ws (getWires c' v)"
        using up by (simp add: list_all2_same)
    qed (use n Suc.prems(2) in simp_all)
    then show ?thesis by simp
  next
    case True
    let ?hs = "getWires c' v" and ?x = "\<lambda>h. if h < ?n then [h] else getWires c' h"
    have t: "getGateType c v = AND" and cc: "concat (map ?x ?hs) = ?ws"
      and hs: "\<forall>h \<in> set ?hs. h < ?n \<or> h < length (gates c') \<and> getGateType c' h = AND"
      using rg True by (simp_all add: regrouped_def Let_def)
    have h: "conj_below d c (?x h) (Suc (2 * d)) c' h" if "h \<in> set ?hs" for h
    proof (cases "h < ?n")
      case True
      then have "h \<in> set ?ws" using that unfolding cc[symmetric] by force
      then show ?thesis using conj_below_single[OF up] True by simp
    next
      case False
      have sub: "set (getWires c' h) \<subseteq> set ?ws" using that False unfolding cc[symmetric] by force
      have "conj_below d c (concat (map (\<lambda>w. [w]) (getWires c' h))) (Suc (2 * d)) c' h"
      proof (rule conj_below_and)
        show "list_all2 (\<lambda>ws w'. conj_below d c ws (2 * d) c' w') (map (\<lambda>w. [w]) (getWires c' h)) (getWires c' h)"
          using sub conj_below_single[OF kid] by (auto simp: list_all2_map1 intro!: list_all2_same[THEN iffD2])
      qed (use hs that False in auto)
      then show ?thesis using False by simp
    qed
    have "conj_below d c (concat (map ?x ?hs)) (Suc (Suc (2 * d))) c' v"
    proof (rule conj_below_and)
      show "list_all2 (\<lambda>ws w'. conj_below d c ws (Suc (2 * d)) c' w') (map ?x ?hs) ?hs"
        using h by (auto simp: list_all2_map1 intro!: list_all2_same[THEN iffD2])
    qed (use gt t n Suc.prems(2) in simp_all)
    then show ?thesis using conj_below_same[OF t, of d "Suc (Suc (2 * d))" c'] unfolding cc by simp
  qed
qed simp


subsection \<open>The loop ends\<close>

definition wires_in_range :: "'m bool_circuit_scheme \<Rightarrow> bool" where
  "wires_in_range c \<longleftrightarrow> (\<forall>v < length (gates c). set (getWires c v) \<subseteq> {..<length (gates c)})"

text \<open>A gate weighs 1 plus what it still has to be split.\<close>

definition gate_weight :: "'m bool_circuit_scheme \<Rightarrow> gate_t \<Rightarrow> nat" where
  "gate_weight c v = 1 + (if getGateType c v = AND then 2 * length (getWires c v) - 4 else 0)"

definition split_weight :: "gate_t \<Rightarrow> 'm bool_circuit_scheme \<Rightarrow> nat" where
  "split_weight g c = (\<Sum>v \<in> {g..<length (gates c)}. gate_weight c v)"

text \<open>What one or several iterations keep.\<close>

definition struct_kept :: "'m bool_circuit_scheme \<Rightarrow> 'm bool_circuit_scheme \<Rightarrow> bool" where
  "struct_kept c c' \<longleftrightarrow> sized c' \<and> wires_in_range c' \<and> length (gates c) \<le> length (gates c') \<and> same_fields c c' \<and>
     (\<forall>v < length (gates c). getGateType c' v = getGateType c v \<and>
        (getGateType c v \<noteq> AND \<longrightarrow> getWires c' v = getWires c v) \<and>
        (\<forall>d. dd_ok d c v \<longrightarrow> (\<exists>D. same_below d c v D c' v)))"

lemma struct_kept_refl: "sized c \<Longrightarrow> wires_in_range c \<Longrightarrow> struct_kept c c"
  using same_below_fuel[OF _ order_refl] by (fastforce simp: struct_kept_def same_fields_def sized_def)

lemma struct_kept_trans:
  assumes 1: "struct_kept c c1" and 2: "struct_kept c1 c2"
  shows "struct_kept c c2"
  unfolding struct_kept_def
proof (intro conjI allI impI)
  show "same_fields c c2" by (rule same_fields_trans) (use 1 2 in \<open>auto simp: struct_kept_def\<close>)
  fix v assume v: "v < length (gates c)"
  then have v1: "v < length (gates c1)" using 1 by (simp add: struct_kept_def)
  show "getGateType c2 v = getGateType c v" using 1 2 v v1 by (simp add: struct_kept_def)
  show "getWires c2 v = getWires c v" if "getGateType c v \<noteq> AND" using 1 2 v v1 that by (simp add: struct_kept_def)
  fix d assume "dd_ok d c v"
  then obtain D where D: "same_below d c v D c1 v" using 1 v by (auto simp: struct_kept_def)
  then have "dd_ok D c1 v" by (simp add: same_below_def)
  then obtain D' where "same_below D c1 v D' c2 v" using 2 v1 by (auto simp: struct_kept_def)
  with D show "\<exists>D. same_below d c v D c2 v" using same_below_trans by blast
qed (use 1 2 in \<open>auto simp: struct_kept_def\<close>)

lemma split_gate_struct:
  assumes sz: "sized c" and rng: "wires_in_range c" and g: "g < length (gates c)"
  shows "struct_kept c (split_gate AND g c) \<and> split_weight (Suc g) (split_gate AND g c) < split_weight g c \<and>
    (getGateType (split_gate AND g c) g = AND \<longrightarrow> length (getWires (split_gate AND g c) g) \<le> 2) \<and>
    (\<forall>v < g. getGateType (split_gate AND g c) v = getGateType c v \<and> getWires (split_gate AND g c) v = getWires c v)"
proof (cases "getGateType c g \<noteq> AND \<or> length (getWires c g) \<le> 2")
  case True
  then have id: "split_gate AND g c = c" by (simp add: split_gate_def)
  have "split_weight g c = gate_weight c g + split_weight (Suc g) c"
    using g by (simp add: split_weight_def sum.atLeast_Suc_lessThan)
  then show ?thesis unfolding id using True struct_kept_refl[OF sz rng] by (auto simp: gate_weight_def)
next
  case False
  let ?n = "length (gates c)" and ?c = "split_gate AND g c" and ?k = "length (getWires c g)"
  have t: "getGateType c g = AND" "2 < ?k" using False by simp_all
  note old = rng[unfolded wires_in_range_def]
  note shape = split_gate_shape[OF sz g t old]
  from shape(4) obtain hs where hs: "gates ?c = gates c @ replicate (length hs) AND" "drop ?n (wires ?c) = hs"
    "?k = 3 \<and> map length hs = [2] \<or> ?k > 3 \<and> map length hs = [?k div 2, ?k - ?k div 2]"
    "\<forall>h \<in> set hs. set h \<subseteq> set (getWires c g)" by (elim exE conjE)
  have len: "length (gates ?c) = ?n + length hs" unfolding hs(1) by simp
  have lw: "length (wires ?c) = ?n + length hs" using shape(2) len by (simp add: same_fields_def)
  have new: "getWires ?c (?n + i) = hs ! i" "getGateType ?c (?n + i) = AND" if "i < length hs" for i
    using hs(2) lw that by (auto simp: getWires_def getGateType_def hs(1) nth_append)
  have type: "getGateType ?c v = getGateType c v" if "v < ?n" for v
    using shape(1) that by (simp add: regrouped_def Let_def)
  have wsame: "getWires ?c v = getWires c v" if "v < ?n" "v \<noteq> g" for v
    using shape(1) that by (simp add: regrouped_def Let_def)
  have "sized ?c" using shape(2) by (simp add: sized_def same_fields_def)
  moreover have "wires_in_range ?c" unfolding wires_in_range_def
  proof (intro allI impI)
    fix v assume v: "v < length (gates ?c)"
    consider "v < ?n" "v \<noteq> g" | "v = g" | i where "v = ?n + i" "i < length hs"
      using v len by (metis add_diff_inverse_nat add_less_cancel_left)
    then show "set (getWires ?c v) \<subseteq> {..<length (gates ?c)}"
    proof cases
      case 1
      then show ?thesis using old[rule_format, OF 1(1)] wsame[OF 1] len by force
    next
      case 2
      then show ?thesis using shape(1) len by (auto simp: regrouped_def Let_def)
    next
      case 3
      then have "set (getWires ?c v) \<subseteq> set (getWires c g)" using new(1) hs(4) by simp
      then show ?thesis using old[rule_format, OF g] len by force
    qed
  qed
  moreover have "\<exists>D. same_below d c v D ?c v" if "v < ?n" "dd_ok d c v" for v d
    using regrouped_same[OF shape(1) that(2,1) old] by blast
  ultimately have keep: "struct_kept c ?c" unfolding struct_kept_def using shape(2) len type wsame t(1) by auto
  have "split_weight (Suc g) ?c = (\<Sum>v \<in> {Suc g..<?n}. gate_weight ?c v) + (\<Sum>v \<in> {?n..<?n + length hs}. gate_weight ?c v)"
    unfolding split_weight_def len by (rule sum.atLeastLessThan_concat[symmetric]) (use g in simp_all)
  also have "(\<Sum>v \<in> {Suc g..<?n}. gate_weight ?c v) = split_weight (Suc g) c"
    unfolding split_weight_def by (rule sum.cong[OF refl]) (simp add: gate_weight_def type wsame)
  also have "(\<Sum>v \<in> {?n..<?n + length hs}. gate_weight ?c v) = (\<Sum>i \<in> {0..<length hs}. gate_weight ?c (?n + i))"
    using sum.shift_bounds_nat_ivl[of "gate_weight ?c" 0 ?n "length hs"] by (simp add: add.commute)
  also have "\<dots> = (\<Sum>i \<in> {0..<length hs}. 1 + (2 * (map length hs ! i) - 4))"
    by (rule sum.cong[OF refl]) (simp add: gate_weight_def new)
  also have "\<dots> < 1 + (2 * ?k - 4)"
    using hs(3)
  proof (elim disjE conjE)
    assume k: "?k = 3" "map length hs = [2]"
    then have "length hs = 1" by (metis length_map length_Cons list.size(3) One_nat_def)
    then show ?thesis unfolding k(2) using k(1) by simp
  next
    assume k: "3 < ?k" "map length hs = [?k div 2, ?k - ?k div 2]"
    then have "length hs = 2" by (metis length_map length_Cons list.size(3) One_nat_def numeral_2_eq_2)
    then show ?thesis unfolding k(2) using k(1) by (simp add: numeral_eq_Suc) arith
  qed
  finally have "split_weight (Suc g) ?c < split_weight (Suc g) c + gate_weight c g" using t(1) by (simp add: gate_weight_def)
  also have "\<dots> = split_weight g c" using g by (simp add: split_weight_def sum.atLeast_Suc_lessThan)
  finally show ?thesis using keep shape(3) type wsame g by simp
qed

lemma binary_loop_run:
  "sized c \<Longrightarrow> wires_in_range c \<Longrightarrow> \<exists>c'. binary_loop AND g c = Some c' \<and> struct_kept c c' \<and>
    (\<forall>v. g \<le> v \<and> v < length (gates c') \<and> getGateType c' v = AND \<longrightarrow> length (getWires c' v) \<le> 2) \<and>
    (\<forall>v < g. v < length (gates c) \<longrightarrow> getGateType c' v = getGateType c v \<and> getWires c' v = getWires c v)"
proof (induction "split_weight g c" arbitrary: g c rule: less_induct)
  case less
  show ?case
  proof (cases "g < length (gates c)")
    case False
    then have "binary_loop AND g c = Some c" by (subst binary_loop.simps) simp
    then show ?thesis using False struct_kept_refl[OF less.prems] by auto
  next
    case True
    let ?c1 = "split_gate AND g c"
    from split_gate_struct[OF less.prems True] have s: "struct_kept c ?c1" "split_weight (Suc g) ?c1 < split_weight g c"
      "getGateType ?c1 g = AND \<longrightarrow> length (getWires ?c1 g) \<le> 2"
      "\<forall>v < g. getGateType ?c1 v = getGateType c v \<and> getWires ?c1 v = getWires c v" by blast+
    from less.hyps[OF s(2)] s(1) obtain c' where c': "binary_loop AND (Suc g) ?c1 = Some c'" "struct_kept ?c1 c'"
      "\<forall>v. Suc g \<le> v \<and> v < length (gates c') \<and> getGateType c' v = AND \<longrightarrow> length (getWires c' v) \<le> 2"
      "\<forall>v < Suc g. v < length (gates ?c1) \<longrightarrow> getGateType c' v = getGateType ?c1 v \<and> getWires c' v = getWires ?c1 v"
      unfolding struct_kept_def by blast
    have "binary_loop AND g c = Some c'" using True c'(1) by (subst binary_loop.simps) simp
    moreover have "struct_kept c c'" by (rule struct_kept_trans[OF s(1) c'(2)])
    moreover have len: "length (gates c) \<le> length (gates ?c1)" using s(1) by (simp add: struct_kept_def)
    moreover have "length (getWires c' v) \<le> 2" if "g \<le> v" "v < length (gates c')" "getGateType c' v = AND" for v
    proof (cases "v = g")
      case True
      then have "v < length (gates ?c1)" using \<open>g < length (gates c)\<close> len by simp
      then show ?thesis using c'(4) s(3) True that(3) by simp
    qed (use c'(3) that in simp)
    ultimately show ?thesis using c'(4) s(4) by (intro exI[of _ c']) auto
  qed
qed

lemma all_binary:
  "\<forall>v < length (gates c). getGateType c v = AND \<longrightarrow> length (getWires c v) \<le> 2 \<Longrightarrow> dd_ok D c g \<Longrightarrow> binary D c g"
proof (induction D arbitrary: g)
  case (Suc D)
  have "g < length (gates c)" using Suc.prems(2) by simp
  then show ?case using Suc.IH[OF Suc.prems(1) dd_ok_wires[OF Suc.prems(2)]] Suc.prems(1) by simp
qed simp

lemma makeGatesBinary_run:
  assumes sz: "sized c" and rng: "wires_in_range c"
  obtains c' where "makeGatesBinary AND c = Some c'" "struct_kept c c'"
    "\<And>d g. dd_ok d c g \<Longrightarrow> \<exists>D. same_below d c g D c' g \<and> binary D c' g"
proof -
  obtain c' where c': "binary_loop AND 0 c = Some c'" "struct_kept c c'"
    "\<forall>v < length (gates c'). getGateType c' v = AND \<longrightarrow> length (getWires c' v) \<le> 2"
    using binary_loop_run[OF sz rng, of 0] by auto
  show thesis
  proof (rule that[OF _ c'(2)])
    show "makeGatesBinary AND c = Some c'" using c'(1) by (simp add: makeGatesBinary_def)
    fix d g assume ok: "dd_ok d c g"
    then have "g < length (gates c)" by (cases d) simp_all
    with ok c'(2) obtain D where D: "same_below d c g D c' g" by (auto simp: struct_kept_def)
    then have "dd_ok D c' g" by (simp add: same_below_def)
    from all_binary[OF c'(3) this] D show "\<exists>D. same_below d c g D c' g \<and> binary D c' g" by blast
  qed
qed

text \<open>C36: \<open>makeGatesBinary\<close> ends, although it also visits the gates it adds; every gate g of the old
  circuit then has, in the new one, only AND gates with at most two wires below it, and the same
  function, the same variables and the same structural properties (decomposable, deterministic,
  smooth) as before; probabilities, names and inputs are kept.\<close>

theorem makeGatesBinary_correct:
  assumes sz: "sized c" and rng: "wires_in_range c" and ok: "dd_ok d c g"
  shows "\<exists>c' D. makeGatesBinary AND c = Some c' \<and> same_below d c g D c' g \<and> binary D c' g \<and> same_fields c c'"
proof -
  obtain c' where "makeGatesBinary AND c = Some c'" "struct_kept c c'" "\<exists>D. same_below d c g D c' g \<and> binary D c' g"
    by (rule makeGatesBinary_run[OF sz rng]) (use ok in blast)
  then show ?thesis unfolding struct_kept_def by blast
qed

lemma example_dd_sized: "sized example_dd" "wires_in_range example_dd"
  by (auto simp: sized_def wires_in_range_def example_dd_def getWires_def numeral_eq_Suc less_Suc_eq)

lemma makeGatesBinary_correct_witness:
  "\<exists>c' D. makeGatesBinary AND example_dd = Some c' \<and> same_below 5 example_dd 7 D c' 7 \<and> binary D c' 7 \<and> same_fields example_dd c'"
  by (rule makeGatesBinary_correct[OF example_dd_sized example_dd_ok(1)])

section \<open>The Shapley value after splitting\<close>

lemma dvars_range: "dd_ok d c g \<Longrightarrow> dvars d c g \<subseteq> {..<length (gates c)}"
proof (induction d arbitrary: g)
  case (Suc d)
  then show ?case using Suc.IH[OF dd_ok_wires[OF Suc.prems]] by auto
qed simp

text \<open>C35: The pipeline of the SQL function: on a smooth d-DNNF, \<open>makeGatesBinary\<close> followed by \<open>shapley\<close>
  returns the expected Shapley value of the variable x, for at most 61 other variables: the
  expectation, over the random set E of tuples that are present, of the Shapley value of x among the
  players E, counted 0 when x is absent.  Circuits that are not probabilistic take the shorter path
  that fills one row of the tables only.\<close>

theorem shapley_pipeline_correct:
  assumes sz: "sized dd" and rng: "wires_in_range dd"
    and ok: "dd_ok d dd (dd_root dd)" and dec: "decomposable d dd (dd_root dd)"
    and det: "deterministic d dd (dd_root dd)" and sm: "smooth d dd (dd_root dd)"
    and x: "is_input dd x" and few: "card (dvars d dd (dd_root dd) - {x}) \<le> 61"
    and cert: "certain dd (insert x (dvars d dd (dd_root dd)))"
    and p: "\<forall>v \<in> insert x (dvars d dd (dd_root dd)). 0 \<le> b_getProb dd v \<and> b_getProb dd v \<le> 1"
  shows "bind_run (map_option Inr (makeGatesBinary AND dd)) (\<lambda>dd. shapley dd x) =
    Some (Inr (expect (b_getProb dd) (insert x (dvars d dd (dd_root dd)))
      (\<lambda>E. if x \<in> E then shapley_value (\<lambda>S. bval d dd S (dd_root dd)) E x else 0)))"
proof -
  let ?g = "dd_root dd" and ?V = "insert x (dvars d dd (dd_root dd))"
  obtain c' where run: "makeGatesBinary AND dd = Some c'" and keep: "struct_kept dd c'"
    and same: "\<exists>D. same_below d dd ?g D c' ?g \<and> binary D c' ?g"
    by (rule makeGatesBinary_run[OF sz rng]) (use ok in blast)
  from same obtain D where D: "same_below d dd ?g D c' ?g" "binary D c' ?g" by blast
  have f: "same_fields dd c'" using keep by (simp add: struct_kept_def)
  have root: "dd_root c' = ?g" using f by (cases dd; cases c') (simp add: same_fields_def)
  have xlen: "x < length (gates dd)" using x by (simp add: is_input_def)
  have V: "?V \<subseteq> {..<length (gates dd)}" using dvars_range[OF ok] xlen by simp
  have pr: "b_getProb c' v = b_getProb dd v" if "v \<in> ?V" for v
    using f that V by (auto simp: same_fields_def)
  have x': "is_input c' x" using x keep xlen by (auto simp: is_input_def struct_kept_def)
  have dv: "dvars D c' ?g = dvars d dd ?g" and bv: "bval D c' A ?g = bval d dd A ?g" for A
    using D(1) by (simp_all add: same_below_def)
  have st: "dd_ok D c' ?g" "decomposable D c' ?g" "deterministic D c' ?g" "smooth D c' ?g"
    using D(1) dec det sm by (simp_all add: same_below_def)
  have "certain c' ?V" using cert f pr by (auto simp: certain_def same_fields_def)
  moreover have "\<forall>v \<in> ?V. 0 \<le> b_getProb c' v \<and> b_getProb c' v \<le> 1" using p pr by auto
  ultimately have "shapley c' x = Some (Inr (expect (b_getProb c') ?V (\<lambda>E. if x \<in> E then shapley_value (\<lambda>S. bval d dd S ?g) E x else 0)))"
    using shapley_exact[of D c' x, unfolded root dv bv, OF st(1) D(2) st(2-4) x' few] by blast
  then show ?thesis unfolding run using expect_prob_cong[of ?V "b_getProb c'" "b_getProb dd"] pr by simp
qed

lemma shapley_pipeline_correct_witness:
  "bind_run (map_option Inr (makeGatesBinary AND example_dd)) (\<lambda>dd. shapley dd 0) =
    Some (Inr (expect (b_getProb example_dd) (insert 0 (dvars 5 example_dd 7))
      (\<lambda>E. if 0 \<in> E then shapley_value (\<lambda>S. bval 5 example_dd S 7) E 0 else 0)))"
proof -
  have r: "dd_root example_dd = 7" "is_input example_dd 0"
    by (simp_all add: is_input_def example_dd_def getGateType_def getWires_def)
  have v: "dvars 5 example_dd 7 = {0, 1}"
    by (auto simp: example_dd_def getGateType_def getWires_def numeral_eq_Suc)
  have p: "b_getProb example_dd 0 = 1/2" "b_getProb example_dd 1 = 1/4" "b_probabilistic example_dd"
    by (simp_all add: example_dd_def b_getProb_def)
  have few: "card (dvars 5 example_dd 7 - {0}) \<le> 61" unfolding v by simp
  have cert: "certain example_dd (insert 0 (dvars 5 example_dd 7))" using p(3) by (simp add: certain_def)
  have probs: "\<forall>u \<in> insert 0 (dvars 5 example_dd 7). 0 \<le> b_getProb example_dd u \<and> b_getProb example_dd u \<le> 1"
    unfolding v using p by simp
  show ?thesis
    using shapley_pipeline_correct[OF example_dd_sized, of 5, unfolded r(1), OF example_dd_ok r(2) few cert probs] .
qed

end
