(* ===== verification/Smooth.thy ===== *)
theory Smooth
  imports Reshape
begin

text \<open>
  \<open>dDNNF::makeSmooth\<close> (\<open>src/dDNNF.cpp\<close>): under every OR gate, a child that misses a variable of its
  siblings gets a gate that is true and mentions the variable.  The function of every gate is kept
  when the OR gates are binary; counterexamples show what is lost otherwise.
\<close>

section \<open>The transformation\<close>

text \<open>The child number i of g is made an AND gate.\<close>

definition wrap_child :: "gate_t \<Rightarrow> nat \<Rightarrow> 'm bool_circuit_scheme \<Rightarrow> 'm bool_circuit_scheme" where
  "wrap_child g i c =
     (if getGateType c (getWires c g ! i) \<noteq> AND
      then (let (a, c1) = b_setGate c AND; c2 = addWire c1 a (getWires c1 g ! i)
            in setWires c2 g ((getWires c2 g)[i := a]))
      else c)"

text \<open>The gate "v or not v" is added to the child.\<close>

definition add_dummy :: "gate_t \<Rightarrow> nat \<Rightarrow> gate_t \<Rightarrow> 'm bool_circuit_scheme \<Rightarrow> 'm bool_circuit_scheme" where
  "add_dummy g i v c =
     (let (dummy_or, c1) = b_setGate c OR; (dummy_not, c2) = b_setGate c1 NOT;
          c3 = addWire c2 dummy_or v; c4 = addWire c3 dummy_not v; c5 = addWire c4 dummy_or dummy_not
      in addWire c5 (getWires c5 g ! i) dummy_or)"

text \<open>One iteration of the loop over the children; the flag is \<open>modified\<close>.\<close>

fun smooth_child :: "gate_t \<Rightarrow> gate_t \<Rightarrow> nat \<times> gate_t set \<Rightarrow> 'm bool_circuit_scheme \<times> bool \<Rightarrow> 'm bool_circuit_scheme \<times> bool" where
  "smooth_child g v (i, vs) (c, modified) =
     (if v \<in> vs then (c, modified) else (add_dummy g i v (if modified then c else wrap_child g i c), True))"

definition smooth_var :: "gate_t \<Rightarrow> gate_t set list \<Rightarrow> gate_t \<Rightarrow> 'm bool_circuit_scheme \<Rightarrow> 'm bool_circuit_scheme" where
  "smooth_var g varss v c = fst (fold (smooth_child g v) (enumerate 0 varss) (c, False))"

primrec collect_vars :: "'m bool_circuit_scheme \<Rightarrow> gate_t list \<Rightarrow> exn + gate_t set list" where
  "collect_vars c [] = Inr []"
| "collect_vars c (w # ws) = bind_result (vars c w) (\<lambda>s. bind_result (collect_vars c ws) (\<lambda>ss. Inr (the s # ss)))"

text \<open>\<open>order\<close> is the order in which the unordered set \<open>all\<close> is visited.\<close>

definition smooth_gate :: "(gate_t set \<Rightarrow> gate_t list) \<Rightarrow> gate_t \<Rightarrow> 'm bool_circuit_scheme \<Rightarrow> exn + 'm bool_circuit_scheme" where
  "smooth_gate order g c =
     (if getGateType c g \<noteq> OR \<or> length (getWires c g) \<le> 1 then Inr c
      else bind_result (collect_vars c (getWires c g)) (\<lambda>varss.
        Inr (fold (smooth_var g varss) (order (\<Union> (set varss))) c)))"

primrec smooth_loop :: "(gate_t set \<Rightarrow> gate_t list) \<Rightarrow> gate_t list \<Rightarrow> 'm bool_circuit_scheme \<Rightarrow> exn + 'm bool_circuit_scheme" where
  "smooth_loop order [] c = Inr c"
| "smooth_loop order (g # gs) c = bind_result (smooth_gate order g c) (smooth_loop order gs)"

definition makeSmooth :: "(gate_t set \<Rightarrow> gate_t list) \<Rightarrow> 'm bool_circuit_scheme \<Rightarrow> exn + 'm bool_circuit_scheme" where
  "makeSmooth order c = smooth_loop order [0..<length (gates c)] c"

section \<open>Gates with the same function\<close>

definition same_fun :: "nat \<Rightarrow> 'm bool_circuit_scheme \<Rightarrow> gate_t \<Rightarrow> nat \<Rightarrow> 'm bool_circuit_scheme \<Rightarrow> gate_t \<Rightarrow> bool" where
  "same_fun d c v D c' v' \<longleftrightarrow> dd_ok D c' v' \<and> (\<forall>A. bval D c' A v' = bval d c A v)"

lemma same_fun_trans: "same_fun d c v d' c' v' \<Longrightarrow> same_fun d' c' v' d'' c'' v'' \<Longrightarrow> same_fun d c v d'' c'' v''"
  unfolding same_fun_def by simp

lemma same_fun_fuel: "dd_ok d c v \<Longrightarrow> d \<le> D \<Longrightarrow> same_fun d c v D c v"
  using same_below_fuel[of d c v D] by (simp add: same_below_def same_fun_def)

lemma same_fun_up: "same_fun d c v D c' v' \<Longrightarrow> D \<le> D' \<Longrightarrow> same_fun d c v D' c' v'"
  using same_fun_fuel[of D c' v' D'] by (auto simp: same_fun_def)

lemma same_fun_gate:
  assumes ok: "dd_ok (Suc d) c v" and t: "getGateType c' v = getGateType c v" and v: "v < length (gates c')"
    and ws: "list_all2 (\<lambda>w w'. same_fun d c w D c' w') (getWires c v) (getWires c' v)"
  shows "same_fun (Suc d) c v (Suc D) c' v"
proof -
  let ?ws = "getWires c v" and ?ws' = "getWires c' v"
  have lenl: "length ?ws' = length ?ws" using ws by (simp add: list_all2_lengthD)
  have sub: "\<forall>w' \<in> set ?ws'. dd_ok D c' w'" using all2_right[OF ws] by (auto simp: same_fun_def)
  have ok': "dd_ok (Suc D) c' v"
    using ok by (cases rule: dd_ok_cases) (use t v lenl sub ws in \<open>auto simp: length_Suc_conv\<close>)
  have B: "bval (Suc D) c' A v = bval (Suc d) c A v" for A
  proof -
    have bv: "(\<lambda>w. bval d c A w) ` set ?ws = (\<lambda>w. bval D c' A w) ` set ?ws'"
      by (rule all2_image[OF ws]) (simp add: same_fun_def)
    from ok show ?thesis
    proof (cases rule: dd_ok_cases)
      case (NOT w)
      then obtain w' where "?ws' = [w']" "same_fun d c w D c' w'" using ws by (auto simp: list_all2_Cons1)
      then show ?thesis using NOT(1,2) t by (simp add: same_fun_def)
    qed (use image_eq_quantifiers[OF bv] t in auto)
  qed
  show ?thesis unfolding same_fun_def using ok' B by blast
qed

lemma dd_ok_length: "dd_ok d c v \<Longrightarrow> v < length (gates c)"
  by (cases d) simp_all

text \<open>All the gates have a function, and what a step keeps of it.\<close>

definition all_ok :: "'m bool_circuit_scheme \<Rightarrow> bool" where
  "all_ok c \<longleftrightarrow> wf_bool c \<and> (\<forall>v < length (gates c). \<exists>d. dd_ok d c v)"

definition fun_kept :: "'m bool_circuit_scheme \<Rightarrow> 'm bool_circuit_scheme \<Rightarrow> bool" where
  "fun_kept c c' \<longleftrightarrow> all_ok c' \<and> length (gates c) \<le> length (gates c') \<and>
     (\<forall>v < length (gates c). getGateType c' v = getGateType c v \<and> length (getWires c v) \<le> length (getWires c' v) \<and>
        (getGateType c v = IN \<longrightarrow> getWires c' v = getWires c v)) \<and>
     (\<forall>d v. dd_ok d c v \<longrightarrow> (\<exists>D. same_fun d c v D c' v))"

lemma fun_kept_refl: "all_ok c \<Longrightarrow> fun_kept c c"
  using same_fun_fuel[OF _ order_refl] by (fastforce simp: fun_kept_def)

lemma fun_keptD: "fun_kept c c' \<Longrightarrow> dd_ok d c v \<Longrightarrow> \<exists>D. same_fun d c v D c' v"
  unfolding fun_kept_def by blast

lemma fun_kept_trans:
  assumes 1: "fun_kept c c1" and 2: "fun_kept c1 c2"
  shows "fun_kept c c2"
  unfolding fun_kept_def
proof (intro conjI allI impI)
  fix v assume v: "v < length (gates c)"
  then have v1: "v < length (gates c1)" using 1 by (simp add: fun_kept_def)
  show "getGateType c2 v = getGateType c v" using 1 2 v v1 by (simp add: fun_kept_def)
  have "length (getWires c v) \<le> length (getWires c1 v)" "length (getWires c1 v) \<le> length (getWires c2 v)"
    using 1 2 v v1 by (simp_all add: fun_kept_def)
  then show "length (getWires c v) \<le> length (getWires c2 v)" by simp
  show "getWires c2 v = getWires c v" if "getGateType c v = IN" using 1 2 v v1 that by (simp add: fun_kept_def)
next
  fix d v assume "dd_ok d c v"
  then obtain D where D: "same_fun d c v D c1 v" using fun_keptD[OF 1] by blast
  then have "dd_ok D c1 v" by (simp add: same_fun_def)
  then obtain D' where "same_fun D c1 v D' c2 v" using fun_keptD[OF 2] by blast
  with D show "\<exists>D. same_fun d c v D c2 v" using same_fun_trans by blast
qed (use 1 2 in \<open>auto simp: fun_kept_def\<close>)

lemma fun_keptI:
  assumes "all_ok c" "wf_bool c'" "length (gates c) \<le> length (gates c')"
    "\<And>v. v < length (gates c) \<Longrightarrow> getGateType c' v = getGateType c v \<and> length (getWires c v) \<le> length (getWires c' v)"
    "\<And>v. v < length (gates c) \<Longrightarrow> getGateType c v = IN \<Longrightarrow> getWires c' v = getWires c v"
    "\<And>d v. dd_ok d c v \<Longrightarrow> \<exists>D. same_fun d c v D c' v"
    "\<And>v. length (gates c) \<le> v \<Longrightarrow> v < length (gates c') \<Longrightarrow> \<exists>d. dd_ok d c' v"
  shows "fun_kept c c'"
proof -
  have "\<exists>d. dd_ok d c' v" if "v < length (gates c')" for v
  proof (cases "v < length (gates c)")
    case True
    then obtain d where "dd_ok d c v" using assms(1) by (auto simp: all_ok_def)
    from assms(6)[OF this] show ?thesis unfolding same_fun_def by blast
  qed (use assms(7) that in simp)
  then show ?thesis using assms unfolding fun_kept_def all_ok_def by blast
qed

section \<open>The two steps\<close>

lemma new_gate:
  assumes "wf_bool c" "t \<noteq> IN" "t \<noteq> MULIN"
  shows "b_setGate c t = (length (gates c), c\<lparr>gates := gates c @ [t], wires := wires c @ [[]], b_prob := b_prob c @ [1]\<rparr>)"
  using assms by (simp add: b_setGate_def b_addGate_def b_register_def setGateType_def)

lemma wrap_child_shape:
  assumes wf: "wf_bool c" and g: "g < length (gates c)" and i: "i < length (getWires c g)"
    and na: "getGateType c (getWires c g ! i) \<noteq> AND"
  shows "gates (wrap_child g i c) = gates c @ [AND]"
    "wires (wrap_child g i c) = (wires c)[g := (getWires c g)[i := length (gates c)]] @ [[getWires c g ! i]]"
    "wf_bool (wrap_child g i c)"
proof -
  have n: "length (wires c) = length (gates c)" using wf by (simp add: wf_bool_def)
  have w: "wrap_child g i c = c\<lparr>gates := gates c @ [AND], wires := (wires c)[g := (getWires c g)[i := length (gates c)]] @ [[getWires c g ! i]],
      b_prob := b_prob c @ [1]\<rparr>"
    using na g n by (simp add: wrap_child_def new_gate[OF wf] addWire_def setWires_def getWires_def nth_append list_update_append)
  then show "gates (wrap_child g i c) = gates c @ [AND]"
    "wires (wrap_child g i c) = (wires c)[g := (getWires c g)[i := length (gates c)]] @ [[getWires c g ! i]]" by simp_all
  have "getWires c g ! i < length (gates c)" using wf_bool_wires[OF wf g] i nth_mem by blast
  then show "wf_bool (wrap_child g i c)" unfolding w using wf g
    by (auto simp: wf_bool_def getWires_def nth_append nth_list_update less_Suc_eq dest!: set_update_subset_insert[THEN subsetD])
qed


lemma wrap_child_kept:
  assumes c: "all_ok c" and g: "g < length (gates c)" "getGateType c g = OR" and i: "i < length (getWires c g)"
    and na: "getGateType c (getWires c g ! i) \<noteq> AND"
  shows "fun_kept c (wrap_child g i c)"
proof -
  have wf: "wf_bool c" using c by (simp add: all_ok_def)
  then have n: "length (wires c) = length (gates c)" by (simp add: wf_bool_def)
  let ?c = "wrap_child g i c" and ?a = "length (gates c)" and ?w = "getWires c g ! i"
  note s = wrap_child_shape[OF wf g(1) i na]
  have type: "getGateType ?c v = getGateType c v" if "v < ?a" for v using that by (simp add: getGateType_def s nth_append)
  have wsame: "getWires ?c v = getWires c v" if "v < ?a" "v \<noteq> g" for v using that n by (simp add: getWires_def s nth_append)
  have wg: "getWires ?c g = (getWires c g)[i := ?a]" using g n by (simp add: getWires_def s nth_append)
  have a: "getGateType ?c ?a = AND" "getWires ?c ?a = [?w]" using n by (simp_all add: getGateType_def getWires_def s nth_append)
  have len: "length (gates ?c) = Suc ?a" by (simp add: s)
  have kept: "same_fun d c v (2 * d) ?c v" if "dd_ok d c v" for d v
    using that
  proof (induction d arbitrary: v)
    case (Suc d)
    have v: "v < ?a" using Suc.prems by simp
    have kid: "same_fun d c w (Suc (2 * d)) ?c w" if "w \<in> set (getWires c v)" for w
      by (rule same_fun_up[OF Suc.IH[OF dd_ok_wires[OF Suc.prems that]]]) simp
    have "same_fun (Suc d) c v (Suc (Suc (2 * d))) ?c v"
    proof (rule same_fun_gate[OF Suc.prems type[OF v]])
      show "v < length (gates ?c)" using v len by simp
      show "list_all2 (\<lambda>w w'. same_fun d c w (Suc (2 * d)) ?c w') (getWires c v) (getWires ?c v)"
      proof (cases "v = g")
        case True
        have "?w \<in> set (getWires c g)" using i by (rule nth_mem)
        then have "same_fun d c ?w (2 * d) ?c ?w" using Suc.IH[OF dd_ok_wires[OF Suc.prems]] True by simp
        then have "same_fun d c ?w (Suc (2 * d)) ?c ?a" using a len by (simp add: same_fun_def)
        then show ?thesis unfolding True wg using kid True i
          by (auto simp: list_all2_conv_all_nth nth_list_update)
      next
        case False
        then show ?thesis unfolding wsame[OF v False] using kid by (simp add: list_all2_same)
      qed
    qed
    then show ?case by simp
  qed simp
  show ?thesis
  proof (rule fun_keptI[OF c s(3)])
    fix v assume v: "?a \<le> v" "v < length (gates ?c)"
    have "?w < ?a" using wf_bool_wires[OF wf g(1)] i nth_mem by blast
    then obtain d where "dd_ok d c ?w" using c by (auto simp: all_ok_def)
    from kept[OF this] have "dd_ok (Suc (2 * d)) ?c ?a" using a len by (simp add: same_fun_def)
    then show "\<exists>d. dd_ok d ?c v" using v len by (metis le_antisym less_Suc_eq_le)
  next
    fix v assume v: "v < ?a"
    show "getGateType ?c v = getGateType c v \<and> length (getWires c v) \<le> length (getWires ?c v)"
      using type[OF v] wsame[OF v] wg by (cases "v = g") simp_all
    show "getWires ?c v = getWires c v" if "getGateType c v = IN" using that wsame[OF v] g(2) by force
  qed (use kept len in auto)
qed

lemma add_dummy_shape:
  assumes wf: "wf_bool c" and g: "g < length (gates c)" and i: "i < length (getWires c g)"
    and h: "h = getWires c g ! i" and hg: "h \<noteq> g" and v: "v < length (gates c)"
  shows "gates (add_dummy g i v c) = gates c @ [OR, NOT]"
    "wires (add_dummy g i v c) = (wires c)[h := getWires c h @ [length (gates c)]] @ [[v, Suc (length (gates c))], [v]]"
    "wf_bool (add_dummy g i v c)"
proof -
  have n: "length (wires c) = length (gates c)" using wf by (simp add: wf_bool_def)
  have hl: "h < length (gates c)" unfolding h using wf_bool_wires[OF wf g] i nth_mem by blast
  have wf1: "wf_bool (c\<lparr>gates := gates c @ [OR], wires := wires c @ [[]], b_prob := b_prob c @ [1]\<rparr>)"
    using wf_bool_setGate[OF wf new_gate[OF wf]] by simp
  have w: "add_dummy g i v c = c\<lparr>gates := gates c @ [OR, NOT],
      wires := (wires c)[h := getWires c h @ [length (gates c)]] @ [[v, Suc (length (gates c))], [v]], b_prob := b_prob c @ [1, 1]\<rparr>"
    using g hl n by (simp add: add_dummy_def new_gate[OF wf] new_gate[OF wf1] addWire_def getWires_def h nth_append list_update_append)
  then show "gates (add_dummy g i v c) = gates c @ [OR, NOT]"
    "wires (add_dummy g i v c) = (wires c)[h := getWires c h @ [length (gates c)]] @ [[v, Suc (length (gates c))], [v]]" by simp_all
  show "wf_bool (add_dummy g i v c)" unfolding w using wf hl v
    by (auto simp: wf_bool_def getWires_def nth_append nth_list_update nth_Cons' less_Suc_eq)
qed

lemma add_dummy_kept:
  assumes c: "all_ok c" and g: "g < length (gates c)" and i: "i < length (getWires c g)"
    and h: "h = getWires c g ! i" and hg: "h \<noteq> g" and and': "getGateType c h = AND"
    and v: "v < length (gates c)" "getGateType c v = IN" "getWires c v = []"
  shows "fun_kept c (add_dummy g i v c)"
proof -
  have wf: "wf_bool c" using c by (simp add: all_ok_def)
  then have n: "length (wires c) = length (gates c)" by (simp add: wf_bool_def)
  let ?c = "add_dummy g i v c" and ?o = "length (gates c)" and ?n = "Suc (length (gates c))"
  have hl: "h < ?o" unfolding h using wf_bool_wires[OF wf g] i nth_mem by blast
  note s = add_dummy_shape[OF wf g i h hg v(1)]
  have type: "getGateType ?c u = getGateType c u" if "u < ?o" for u using that by (simp add: getGateType_def s nth_append)
  have wsame: "getWires ?c u = getWires c u" if "u < ?o" "u \<noteq> h" for u using that n by (simp add: getWires_def s nth_append)
  have wh: "getWires ?c h = getWires c h @ [?o]" using hl n by (simp add: getWires_def s nth_append)
  have new: "getGateType ?c ?o = OR" "getWires ?c ?o = [v, ?n]" "getGateType ?c ?n = NOT" "getWires ?c ?n = [v]"
    using n by (simp_all add: getGateType_def getWires_def s nth_append)
  have len: "length (gates ?c) = Suc ?n" by (simp add: s)
  have vh: "v \<noteq> h" using v(2) and' by auto
  have v': "getGateType ?c v = IN" "getWires ?c v = []" using type[OF v(1)] wsame[OF v(1) vh] v by simp_all
  have true: "dd_ok (Suc (Suc (Suc d))) ?c ?o" "bval (Suc (Suc (Suc d))) ?c A ?o" for d A
    using new v' len v(1) by simp_all
  have neg: "dd_ok (Suc (Suc d)) ?c ?n" for d using new v' len v(1) by simp
  have kept: "same_fun d c u (d + 3) ?c u" if "dd_ok d c u" for d u
    using that
  proof (induction d arbitrary: u)
    case (Suc d)
    have u: "u < ?o" using Suc.prems by simp
    have kid: "same_fun d c w (d + 3) ?c w" if "w \<in> set (getWires c u)" for w
      by (rule Suc.IH[OF dd_ok_wires[OF Suc.prems that]])
    have "same_fun (Suc d) c u (Suc (d + 3)) ?c u"
    proof (cases "u = h")
      case False
      show ?thesis
      proof (rule same_fun_gate[OF Suc.prems type[OF u]])
        show "list_all2 (\<lambda>w w'. same_fun d c w (d + 3) ?c w') (getWires c u) (getWires ?c u)"
          unfolding wsame[OF u False] using kid by (simp add: list_all2_same)
      qed (use u len in simp)
    next
      case True
      define D where D: "D = d + 3"
      have "dd_ok D ?c ?o" "\<And>A. bval D ?c A ?o" using true[of d] unfolding D by (simp_all add: numeral_3_eq_3)
      moreover have "\<And>w. w \<in> set (getWires c h) \<Longrightarrow> same_fun d c w D ?c w" using kid unfolding D True by blast
      ultimately show ?thesis unfolding True same_fun_def D[symmetric]
        using wh type[OF hl] and' len hl by (auto simp: same_fun_def)
    qed
    then show ?case by simp
  qed simp
  show ?thesis
  proof (rule fun_keptI[OF c s(3)])
    fix u assume "?o \<le> u" "u < length (gates ?c)"
    then have "u = ?o \<or> u = ?n" using len by auto
    then show "\<exists>d. dd_ok d ?c u" using true(1) neg by blast
  next
    fix u assume u: "u < ?o"
    show "getGateType ?c u = getGateType c u \<and> length (getWires c u) \<le> length (getWires ?c u)"
      using type[OF u] wsame[OF u] wh by (cases "u = h") simp_all
    show "getWires ?c u = getWires c u" if "getGateType c u = IN" using that wsame[OF u] and' by force
  qed (use kept len in auto)
qed


section \<open>The loops\<close>

text \<open>An OR gate is safe when it has at most two wires or only AND gates below it.\<close>

definition and_kids :: "'m bool_circuit_scheme \<Rightarrow> gate_t \<Rightarrow> bool" where
  "and_kids c g \<longleftrightarrow> (\<forall>w \<in> set (getWires c g). getGateType c w = AND)"

definition or_kept :: "gate_t \<Rightarrow> 'm bool_circuit_scheme \<Rightarrow> 'm bool_circuit_scheme \<Rightarrow> bool" where
  "or_kept g c c' \<longleftrightarrow> fun_kept c c' \<and> length (getWires c' g) = length (getWires c g) \<and> (and_kids c g \<longrightarrow> and_kids c' g) \<and>
     (\<forall>u < length (gates c). getGateType c u = OR \<and> u \<noteq> g \<longrightarrow> getWires c' u = getWires c u)"

lemma or_kept_refl: "all_ok c \<Longrightarrow> or_kept g c c"
  by (simp add: or_kept_def fun_kept_refl)

lemma or_kept_trans:
  assumes 1: "or_kept g c c1" and 2: "or_kept g c1 c2"
  shows "or_kept g c c2"
proof -
  have f: "fun_kept c c1" using 1 by (simp add: or_kept_def)
  then have "length (gates c) \<le> length (gates c1)" "\<And>u. u < length (gates c) \<Longrightarrow> getGateType c1 u = getGateType c u"
    by (simp_all add: fun_kept_def)
  then show ?thesis using 1 2 fun_kept_trans[OF f] by (auto simp: or_kept_def)
qed

lemma and_kids_keep:
  assumes k: "and_kids c g" and f: "fun_kept c c'" and wf: "wf_bool c" and g: "g < length (gates c)"
    and w: "getWires c' g = getWires c g"
  shows "and_kids c' g"
  unfolding and_kids_def w
proof
  fix u assume u: "u \<in> set (getWires c g)"
  then have "u < length (gates c)" using wf_bool_wires[OF wf g] by blast
  then have "getGateType c' u = getGateType c u" using f by (simp add: fun_kept_def)
  then show "getGateType c' u = AND" using k u by (simp add: and_kids_def)
qed

lemma smooth_child_kept:
  assumes c: "all_ok c" and g: "g < length (gates c)" "getGateType c g = OR" and i: "i < length (getWires c g)"
    and x: "x < length (gates c)" "getGateType c x = IN" "getWires c x = []"
    and m: "m \<Longrightarrow> and_kids c g"
  shows "or_kept g c (add_dummy g i x (if m then c else wrap_child g i c))"
proof -
  have wf: "wf_bool c" using c by (simp add: all_ok_def)
  define c1 where "c1 = (if m then c else wrap_child g i c)"
  have wi: "getWires c g ! i \<in> set (getWires c g)" using i by (rule nth_mem)
  have c1: "or_kept g c c1 \<and> getGateType c1 (getWires c1 g ! i) = AND"
  proof (cases "getGateType c (getWires c g ! i) = AND")
    case True
    then have "c1 = c" by (simp add: c1_def wrap_child_def)
    then show ?thesis using or_kept_refl[OF c] True by simp
  next
    case False
    then have m': "\<not> m" and na: "\<not> and_kids c g" using m wi by (auto simp: and_kids_def)
    then have c1: "c1 = wrap_child g i c" by (simp add: c1_def)
    note s = wrap_child_shape[OF wf g(1) i False]
    have n: "length (wires c) = length (gates c)" using wf by (simp add: wf_bool_def)
    have "getWires c1 g = (getWires c g)[i := length (gates c)]" "getGateType c1 (length (gates c)) = AND"
      "\<And>u. u < length (gates c) \<Longrightarrow> u \<noteq> g \<Longrightarrow> getWires c1 u = getWires c u"
      using g n unfolding c1 by (simp_all add: getWires_def getGateType_def s nth_append)
    then show ?thesis using wrap_child_kept[OF c g i False] na i by (simp add: or_kept_def c1)
  qed
  have f: "fun_kept c c1" and c1ok: "all_ok c1" using c1 by (simp_all add: or_kept_def fun_kept_def)
  have wf1: "wf_bool c1" using c1ok by (simp add: all_ok_def)
  have g1: "g < length (gates c1)" "getGateType c1 g = OR" using f g by (auto simp: fun_kept_def)
  have i1: "i < length (getWires c1 g)" using c1 i by (simp add: or_kept_def)
  have x1: "x < length (gates c1)" "getGateType c1 x = IN" "getWires c1 x = []" using f x by (auto simp: fun_kept_def)
  let ?h = "getWires c1 g ! i"
  have h: "?h \<noteq> g" using c1 g1(2) by auto
  have n: "length (wires c1) = length (gates c1)" using wf1 by (simp add: wf_bool_def)
  note s = add_dummy_shape[OF wf1 g1(1) i1 refl h x1(1)]
  have kept: "fun_kept c1 (add_dummy g i x c1)"
    by (rule add_dummy_kept[OF c1ok g1(1) i1 refl h _ x1]) (use c1 in simp)
  have "getWires (add_dummy g i x c1) u = getWires c1 u" if "u < length (gates c1)" "u \<noteq> ?h" for u
    using that n by (simp add: getWires_def s nth_append)
  moreover have "u \<noteq> ?h" if "getGateType c1 u = OR" for u using c1 that by auto
  ultimately have "or_kept g c1 (add_dummy g i x c1)"
    unfolding or_kept_def using kept and_kids_keep[OF _ kept wf1 g1(1)] g1 h c1 by auto
  with c1 show ?thesis unfolding c1_def[symmetric] using or_kept_trans by blast
qed

lemma smooth_fold_kept:
  assumes x: "x < length (gates c)" "getGateType c x = IN" "getWires c x = []"
  shows "all_ok c \<Longrightarrow> g < length (gates c) \<Longrightarrow> getGateType c g = OR \<Longrightarrow> \<forall>(i, vs) \<in> set ivs. i < length (getWires c g) \<Longrightarrow>
    and_kids c g \<or> length (filter (\<lambda>(i, vs). x \<notin> vs) ivs) \<le> (if m then 0 else 1) \<Longrightarrow>
    or_kept g c (fst (fold (smooth_child g x) ivs (c, m)))"
  using x
proof (induction ivs arbitrary: c m)
  case Nil
  then show ?case by (simp add: or_kept_refl)
next
  case (Cons iv ivs)
  obtain i vs where iv: "iv = (i, vs)" by (cases iv)
  show ?case
  proof (cases "x \<in> vs")
    case True
    then show ?thesis using Cons.IH[of c m] Cons.prems by (simp add: iv)
  next
    case False
    let ?c = "add_dummy g i x (if m then c else wrap_child g i c)"
    have k: "or_kept g c ?c"
      by (rule smooth_child_kept) (use Cons.prems False in \<open>auto simp: iv\<close>)
    have f: "fun_kept c ?c" using k by (simp add: or_kept_def)
    have "or_kept g ?c (fst (fold (smooth_child g x) ivs (?c, True)))"
    proof (rule Cons.IH)
      show "all_ok ?c" "g < length (gates ?c)" "getGateType ?c g = OR" "x < length (gates ?c)" "getGateType ?c x = IN" "getWires ?c x = []"
        using f Cons.prems by (auto simp: fun_kept_def)
      show "\<forall>(i, vs) \<in> set ivs. i < length (getWires ?c g)" using k Cons.prems(4) by (auto simp: or_kept_def)
      show "and_kids ?c g \<or> length (filter (\<lambda>(i, vs). x \<notin> vs) ivs) \<le> (if True then 0 else 1)"
        using k Cons.prems(5) False by (auto simp: or_kept_def iv split: if_splits)
    qed
    then show ?thesis using or_kept_trans[OF k] False by (simp add: iv)
  qed
qed

lemma smooth_var_kept:
  assumes c: "all_ok c" and g: "g < length (gates c)" "getGateType c g = OR" and safe: "length (getWires c g) \<le> 2 \<or> and_kids c g"
    and l: "length varss = length (getWires c g)" and xs: "x \<in> \<Union> (set varss)"
    and x: "x < length (gates c)" "getGateType c x = IN" "getWires c x = []"
  shows "or_kept g c (smooth_var g varss x c)"
  unfolding smooth_var_def
proof (rule smooth_fold_kept[OF x c g])
  show "\<forall>(i, vs) \<in> set (enumerate 0 varss). i < length (getWires c g)"
    using l by (auto simp: enumerate_eq_zip set_zip)
  have "length (filter (\<lambda>(i, vs). x \<notin> vs) (enumerate 0 varss)) \<le> 1" if two: "length varss \<le> 2"
  proof -
    consider "varss = []" | s where "varss = [s]" | s t where "varss = [s, t]"
      using two by (auto simp: le_Suc_eq numeral_2_eq_2 length_Suc_conv)
    then show ?thesis by cases (use xs in auto)
  qed
  then show "and_kids c g \<or> length (filter (\<lambda>(i, vs). x \<notin> vs) (enumerate 0 varss)) \<le> (if False then 0 else 1)"
    using safe l by auto
qed


lemma smooth_vars_kept:
  "all_ok c \<Longrightarrow> g < length (gates c) \<Longrightarrow> getGateType c g = OR \<Longrightarrow> length (getWires c g) \<le> 2 \<or> and_kids c g \<Longrightarrow>
   length varss = length (getWires c g) \<Longrightarrow>
   \<forall>x \<in> set xs. x \<in> \<Union> (set varss) \<and> x < length (gates c) \<and> getGateType c x = IN \<and> getWires c x = [] \<Longrightarrow>
   or_kept g c (fold (smooth_var g varss) xs c)"
proof (induction xs arbitrary: c)
  case Nil
  then show ?case by (simp add: or_kept_refl)
next
  case (Cons x xs)
  let ?c = "smooth_var g varss x c"
  have k: "or_kept g c ?c" by (rule smooth_var_kept) (use Cons.prems in auto)
  have f: "fun_kept c ?c" using k by (simp add: or_kept_def)
  have "or_kept g ?c (fold (smooth_var g varss) xs ?c)"
  proof (rule Cons.IH)
    show "all_ok ?c" "g < length (gates ?c)" "getGateType ?c g = OR" using f Cons.prems by (auto simp: fun_kept_def)
    show "length (getWires ?c g) \<le> 2 \<or> and_kids ?c g" "length varss = length (getWires ?c g)"
      using k Cons.prems by (auto simp: or_kept_def)
    show "\<forall>x \<in> set xs. x \<in> \<Union> (set varss) \<and> x < length (gates ?c) \<and> getGateType ?c x = IN \<and> getWires ?c x = []"
      using f Cons.prems(6) by (auto simp: fun_kept_def)
  qed
  then show ?case using or_kept_trans[OF k] by simp
qed

lemma dvars_inputs: "dd_ok d c g \<Longrightarrow> x \<in> dvars d c g \<Longrightarrow> x < length (gates c) \<and> getGateType c x = IN \<and> getWires c x = []"
proof (induction d arbitrary: g)
  case (Suc d)
  from Suc.prems(1) show ?case
    by (cases rule: dd_ok_cases) (use Suc dd_ok_wires[OF Suc.prems(1)] dd_ok_length[OF Suc.prems(1)] in \<open>auto split: if_splits\<close>)
qed simp

lemma collect_vars_run:
  "all_ok c \<Longrightarrow> set ws \<subseteq> {..<length (gates c)} \<Longrightarrow> \<exists>varss. collect_vars c ws = Inr varss \<and> length varss = length ws \<and>
     (\<forall>s \<in> set varss. finite s \<and> (\<forall>x \<in> s. x < length (gates c) \<and> getGateType c x = IN \<and> getWires c x = []))"
proof (induction ws)
  case (Cons w ws)
  obtain d where d: "dd_ok d c w" using Cons.prems by (auto simp: all_ok_def)
  have "vars c w = Inr (Some (dvars d c w))" by (rule vars_correct[OF _ d]) (use Cons.prems in \<open>simp add: all_ok_def\<close>)
  then show ?case using Cons dvars_inputs[OF d] by auto
qed simp

lemma smooth_gate_kept:
  assumes c: "all_ok c" and g: "g < length (gates c)" and safe: "getGateType c g = OR \<Longrightarrow> length (getWires c g) \<le> 2 \<or> and_kids c g"
    and order: "\<And>S. finite S \<Longrightarrow> set (order S) = S"
  shows "\<exists>c'. smooth_gate order g c = Inr c' \<and> or_kept g c c'"
proof (cases "getGateType c g \<noteq> OR \<or> length (getWires c g) \<le> 1")
  case True
  then show ?thesis using or_kept_refl[OF c] by (auto simp: smooth_gate_def)
next
  case False
  have "set (getWires c g) \<subseteq> {..<length (gates c)}"
    by (rule wf_bool_wires[OF _ g]) (use c in \<open>simp add: all_ok_def\<close>)
  from collect_vars_run[OF c this] obtain varss where v: "collect_vars c (getWires c g) = Inr varss" "length varss = length (getWires c g)"
    "\<forall>s \<in> set varss. finite s \<and> (\<forall>x \<in> s. x < length (gates c) \<and> getGateType c x = IN \<and> getWires c x = [])" by blast
  have o: "set (order (\<Union> (set varss))) = \<Union> (set varss)" by (rule order) (use v(3) in auto)
  have "or_kept g c (fold (smooth_var g varss) (order (\<Union> (set varss))) c)"
    by (rule smooth_vars_kept[OF c g]) (use False safe v o in auto)
  then show ?thesis using False v(1) by (simp add: smooth_gate_def)
qed

lemma smooth_loop_kept:
  assumes order: "\<And>S. finite S \<Longrightarrow> set (order S) = S"
  shows "all_ok c \<Longrightarrow> distinct gs \<Longrightarrow> \<forall>g \<in> set gs. g < length (gates c) \<and> (getGateType c g = OR \<longrightarrow> length (getWires c g) \<le> 2 \<or> and_kids c g) \<Longrightarrow>
    \<exists>c'. smooth_loop order gs c = Inr c' \<and> fun_kept c c'"
proof (induction gs arbitrary: c)
  case Nil
  then show ?case by (simp add: fun_kept_refl)
next
  case (Cons g gs)
  obtain c1 where c1: "smooth_gate order g c = Inr c1" "or_kept g c c1"
    using smooth_gate_kept[OF Cons.prems(1), of g order] Cons.prems(3) order by auto
  have f: "fun_kept c c1" using c1(2) by (simp add: or_kept_def)
  have wf: "wf_bool c" using Cons.prems(1) by (simp add: all_ok_def)
  have "\<exists>c'. smooth_loop order gs c1 = Inr c' \<and> fun_kept c1 c'"
  proof (rule Cons.IH)
    show "all_ok c1" using f by (simp add: fun_kept_def)
    show "\<forall>u \<in> set gs. u < length (gates c1) \<and> (getGateType c1 u = OR \<longrightarrow> length (getWires c1 u) \<le> 2 \<or> and_kids c1 u)"
    proof
      fix u assume u: "u \<in> set gs"
      then have l: "u < length (gates c)" and ug: "u \<noteq> g" using Cons.prems by auto
      have t: "getGateType c1 u = getGateType c u" using f l by (simp add: fun_kept_def)
      have "length (getWires c1 u) \<le> 2 \<or> and_kids c1 u" if "getGateType c u = OR"
      proof -
        have w: "getWires c1 u = getWires c u" using c1(2) l ug that by (simp add: or_kept_def)
        show ?thesis using Cons.prems(3) u that and_kids_keep[OF _ f wf l w] unfolding w by auto
      qed
      then show "u < length (gates c1) \<and> (getGateType c1 u = OR \<longrightarrow> length (getWires c1 u) \<le> 2 \<or> and_kids c1 u)"
        using f l t by (simp add: fun_kept_def)
    qed
  qed (use Cons.prems in simp)
  then show ?case using c1(1) fun_kept_trans[OF f] by auto
qed

text \<open>C37: On a circuit whose OR gates have at most two wires (or only AND gates below them), \<open>makeSmooth\<close>
  ends without an error and keeps the function of every gate, whatever the order in which the
  variables are visited.\<close>

theorem makeSmooth_correct:
  assumes c: "wf_bool c" "\<forall>v < length (gates c). \<exists>d. dd_ok d c v"
    and safe: "\<forall>v < length (gates c). getGateType c v = OR \<longrightarrow>
      length (getWires c v) \<le> 2 \<or> (\<forall>w \<in> set (getWires c v). getGateType c w = AND)"
    and order: "\<And>S. finite S \<Longrightarrow> set (order S) = S" and g: "dd_ok d c g"
  shows "\<exists>c' D. makeSmooth order c = Inr c' \<and> dd_ok D c' g \<and> (\<forall>A. bval D c' A g = bval d c A g)"
proof -
  have "\<exists>c'. smooth_loop order [0..<length (gates c)] c = Inr c' \<and> fun_kept c c'"
    by (rule smooth_loop_kept[OF order]) (use c safe in \<open>auto simp: all_ok_def and_kids_def\<close>)
  then show ?thesis using fun_keptD[OF _ g] unfolding makeSmooth_def same_fun_def by blast
qed


lemma makeSmooth_correct_witness:
  "\<exists>c' D. makeSmooth sorted_list_of_set example_dd = Inr c' \<and> dd_ok D c' 7 \<and> (\<forall>A. bval D c' A 7 = bval 5 example_dd A 7)"
proof (rule makeSmooth_correct)
  show "wf_bool example_dd" by (rule wf_bool_exec) (auto simp: example_dd_def)
  have l: "length (gates example_dd) = 8" by (simp add: example_dd_def)
  have "dd_ok 5 example_dd v" if "v < 8" for v
    using that by (auto simp: example_dd_def getGateType_def getWires_def numeral_eq_Suc less_Suc_eq)
  then show "\<forall>v < length (gates example_dd). \<exists>d. dd_ok d example_dd v" unfolding l by blast
  show "\<forall>v < length (gates example_dd). getGateType example_dd v = OR \<longrightarrow>
      length (getWires example_dd v) \<le> 2 \<or> (\<forall>w \<in> set (getWires example_dd v). getGateType example_dd w = AND)"
    unfolding l by (auto simp: example_dd_def getGateType_def getWires_def numeral_eq_Suc less_Suc_eq)
qed (use example_dd_ok in auto)

section \<open>What is lost on other circuits\<close>

text \<open>Gate 6, x and w, is a child of the OR gate 8 and of the AND gate 9.\<close>

definition shared_dd :: ddnnf where
  "shared_dd = \<lparr>uuid2id = Map.empty, id2uuid = Map.empty,
     gates = [IN, IN, IN, IN, NOT, NOT, AND, AND, OR, AND, AND, AND, OR],
     wires = [[], [], [], [], [0], [3], [0, 1], [4, 2], [6, 7], [6, 2], [3, 8], [5, 9], [10, 11]],
     b_inputs = {0, 1, 2, 3}, b_mulinputs = {}, b_prob = replicate 13 1, b_info = Map.empty, b_probabilistic = False,
     dd_root = 12, dd_cache = Map.empty\<rparr>"

text \<open>An OR gate with three children, two of which miss the variable 3.\<close>

definition wide_dd :: ddnnf where
  "wide_dd = \<lparr>uuid2id = Map.empty, id2uuid = Map.empty,
     gates = [IN, IN, IN, IN, NOT, NOT, NOT, AND, AND, AND, OR, OR],
     wires = [[], [], [], [], [0], [1], [2], [0, 1], [0, 5, 2], [0, 5, 6, 3], [7, 8], [4, 10, 9]],
     b_inputs = {0, 1, 2, 3}, b_mulinputs = {}, b_prob = replicate 12 1, b_info = Map.empty, b_probabilistic = False,
     dd_root = 11, dd_cache = Map.empty\<rparr>"

definition smoothed :: "ddnnf \<Rightarrow> ddnnf" where
  "smoothed dd = (case makeSmooth sorted_list_of_set dd of Inr c \<Rightarrow> c | Inl _ \<Rightarrow> dd)"

text \<open>What \<open>makeSmooth\<close> loses.  When an AND gate below an OR is shared, the variable added to it
  makes the other gate that uses it not decomposable.  When an OR gate has two children that miss
  the same variable, the second is not made an AND gate; if it is an OR it becomes true, and the
  function of the circuit changes.\<close>

lemma makeSmooth_limits:
  "(dd_ok 6 shared_dd (dd_root shared_dd) \<and> decomposable 6 shared_dd (dd_root shared_dd) \<and>
    dd_ok 8 (smoothed shared_dd) (dd_root shared_dd) \<and> \<not> decomposable 8 (smoothed shared_dd) (dd_root shared_dd)) \<and>
   (dd_ok 5 wide_dd (dd_root wide_dd) \<and> \<not> bval 5 wide_dd {0} (dd_root wide_dd) \<and>
    dd_ok 7 (smoothed wide_dd) (dd_root wide_dd) \<and> bval 7 (smoothed wide_dd) {0} (dd_root wide_dd))"
proof (intro conjI)
  show "dd_ok 6 shared_dd (dd_root shared_dd)" by code_simp
  show "decomposable 6 shared_dd (dd_root shared_dd)" by code_simp
  show "dd_ok 8 (smoothed shared_dd) (dd_root shared_dd)" by code_simp
  show "\<not> decomposable 8 (smoothed shared_dd) (dd_root shared_dd)" by code_simp
  show "dd_ok 5 wide_dd (dd_root wide_dd)" by code_simp
  show "\<not> bval 5 wide_dd {0} (dd_root wide_dd)" by code_simp
  show "dd_ok 7 (smoothed wide_dd) (dd_root wide_dd)" by code_simp
  show "bval 7 (smoothed wide_dd) {0} (dd_root wide_dd)" by code_simp
qed

end
