(* ===== verification/Recovery.thy ===== *)
theory Recovery
  imports Prelude
begin

text \<open>
  The replacement of the four files of a store by a clean-up, and what the next opening does after a crash
  (\<open>cleanupStore\<close> and \<open>finishInterruptedCleanup\<close> of \<open>src/MMappedCircuit.cpp\<close>): new files under another name,
  a marker, four renames.  A file is its content, of any type; a crash may happen between any two calls of
  the file system, also during the recovery.
\<close>

record 'f disk =
  target_file :: "nat \<Rightarrow> 'f"
  fresh_file :: "nat \<Rightarrow> 'f option"
  marker :: bool

text \<open>\<open>rename\<close> of the fresh file over the live one, \<open>unlink\<close>, and the body of the recovery loop.\<close>

definition rename_file :: "nat \<Rightarrow> 'f disk \<Rightarrow> 'f disk" where
  "rename_file i d = (case fresh_file d i of
     None \<Rightarrow> d
   | Some x \<Rightarrow> d\<lparr>target_file := (target_file d)(i := x), fresh_file := (fresh_file d)(i := None)\<rparr>)"

definition unlink_fresh :: "nat \<Rightarrow> 'f disk \<Rightarrow> 'f disk" where
  "unlink_fresh i d = d\<lparr>fresh_file := (fresh_file d)(i := None)\<rparr>"

definition recover_file :: "bool \<Rightarrow> nat \<Rightarrow> 'f disk \<Rightarrow> 'f disk" where
  "recover_file committed i d =
     (if fresh_file d i = None then d else if committed then rename_file i d else unlink_fresh i d)"

definition finishInterruptedCleanup :: "'f disk \<Rightarrow> 'f disk" where
  "finishInterruptedCleanup d = (let committed = marker d; d = fold (recover_file committed) [0..<4] d
     in if committed then d\<lparr>marker := False\<rparr> else d)"

text \<open>Where the program is; the recovery has its own copy of the marker.\<close>

datatype point = Unlinking nat | Writing | Renaming nat | Finished | Recovering bool nat | Recovered

inductive disk_step :: "(nat \<Rightarrow> 'f) \<Rightarrow> 'f disk \<times> point \<Rightarrow> 'f disk \<times> point \<Rightarrow> bool" for new where
  unlink: "i < 4 \<Longrightarrow> disk_step new (d, Unlinking i) (unlink_fresh i d, Unlinking (i + 1))"
| sweep: "disk_step new (d, Unlinking 4) (d, Writing)"
| fill: "i < 4 \<Longrightarrow> disk_step new (d, Writing) (d\<lparr>fresh_file := (fresh_file d)(i \<mapsto> x)\<rparr>, Writing)"
| commit: "\<forall>i < 4. fresh_file d i = Some (new i) \<Longrightarrow> disk_step new (d, Writing) (d\<lparr>marker := True\<rparr>, Renaming 0)"
| rename: "i < 4 \<Longrightarrow> disk_step new (d, Renaming i) (rename_file i d, Renaming (i + 1))"
| drop_marker: "disk_step new (d, Renaming 4) (d\<lparr>marker := False\<rparr>, Finished)"
| crash: "disk_step new (d, p) (d, Recovering (marker d) 0)"
| recover: "i < 4 \<Longrightarrow> disk_step new (d, Recovering c i) (recover_file c i d, Recovering c (i + 1))"
| recovered: "disk_step new (d, Recovering c 4) ((if c then d\<lparr>marker := False\<rparr> else d), Recovered)"

inductive_cases disk_stepE: "disk_step new (d, p) (d', p')"

text \<open>Before the marker is set the live files are the old ones; while it is there every file is new, or about to be.\<close>

definition disk_inv :: "(nat \<Rightarrow> 'f) \<Rightarrow> (nat \<Rightarrow> 'f) \<Rightarrow> 'f disk \<times> point \<Rightarrow> bool" where
  "disk_inv old new dp = (case dp of (d, p) \<Rightarrow>
     (if marker d then \<forall>i < 4. fresh_file d i = Some (new i) \<or> fresh_file d i = None \<and> target_file d i = new i
      else (\<forall>i < 4. target_file d i = old i) \<or> (\<forall>i < 4. target_file d i = new i \<and> fresh_file d i = None)) \<and>
     (case p of
        Unlinking _ \<Rightarrow> \<not> marker d \<and> (\<forall>i < 4. target_file d i = old i)
      | Writing \<Rightarrow> \<not> marker d \<and> (\<forall>i < 4. target_file d i = old i)
      | Renaming k \<Rightarrow> marker d \<and> k \<le> 4 \<and> (\<forall>i < k. target_file d i = new i \<and> fresh_file d i = None)
      | Finished \<Rightarrow> \<not> marker d \<and> (\<forall>i < 4. target_file d i = new i \<and> fresh_file d i = None)
      | Recovering c k \<Rightarrow> c = marker d \<and> k \<le> 4 \<and> (\<forall>i < k. fresh_file d i = None)
      | Recovered \<Rightarrow> \<not> marker d \<and> (\<forall>i < 4. fresh_file d i = None)))"


lemma disk_inv_step:
  assumes "disk_step new (d, p) (d', p')" "disk_inv old new (d, p)"
  shows "disk_inv old new (d', p')"
  using assms
  by (elim disk_stepE)
    (auto simp: disk_inv_def recover_file_def rename_file_def unlink_fresh_def less_Suc_eq split: option.splits if_splits)

lemma disk_inv_reach:
  "(disk_step new)\<^sup>*\<^sup>* (d, p) (d', p') \<Longrightarrow> disk_inv old new (d, p) \<Longrightarrow> disk_inv old new (d', p')"
  by (induction rule: rtranclp_induct2) (blast intro: disk_inv_step)+

text \<open>The recovery run without a crash, file by file.\<close>

lemma recover_files:
  "fresh_file (fold (recover_file c) [0..<n] d) i = (if i < n then None else fresh_file d i) \<and>
   target_file (fold (recover_file c) [0..<n] d) i =
     (if i < n \<and> c then (case fresh_file d i of Some x \<Rightarrow> x | None \<Rightarrow> target_file d i) else target_file d i) \<and>
   marker (fold (recover_file c) [0..<n] d) = marker d"
  by (induction n)
    (auto simp: recover_file_def rename_file_def unlink_fresh_def less_Suc_eq split: option.splits)

lemma recovery_result:
  "marker (finishInterruptedCleanup d) = False"
  "i < 4 \<Longrightarrow> fresh_file (finishInterruptedCleanup d) i = None"
  "i < 4 \<Longrightarrow> target_file (finishInterruptedCleanup d) i =
     (if marker d then (case fresh_file d i of Some x \<Rightarrow> x | None \<Rightarrow> target_file d i) else target_file d i)"
  using recover_files[of "marker d" 4 d i] recover_files[of "marker d" 4 d] by (auto simp: finishInterruptedCleanup_def Let_def)

text \<open>C20: whenever a clean-up, or the recovery after it, is killed, and however often, the next opening that runs to
  its end finds the four files of the old store or the four files of the new one, never a mixture, and
  removes the marker and the left-over files; once the marker was set, or the clean-up ended, it finds the new ones.
\<close>

theorem interrupted_cleanup_atomic:
  assumes start: "\<forall>i < 4. target_file d0 i = old i" "\<not> marker d0"
    and run: "(disk_step new)\<^sup>*\<^sup>* (d0, Unlinking 0) (d, p)"
  shows "\<not> marker (finishInterruptedCleanup d) \<and> (\<forall>i < 4. fresh_file (finishInterruptedCleanup d) i = None) \<and>
    ((\<forall>i < 4. target_file (finishInterruptedCleanup d) i = old i) \<or>
     (\<forall>i < 4. target_file (finishInterruptedCleanup d) i = new i)) \<and>
    (marker d \<or> p = Finished \<longrightarrow> (\<forall>i < 4. target_file (finishInterruptedCleanup d) i = new i))"
proof -
  have "disk_inv old new (d0, Unlinking 0)" using start by (simp add: disk_inv_def)
  then have inv: "disk_inv old new (d, p)" by (rule disk_inv_reach[OF run])
  have committed: "\<forall>i < 4. target_file (finishInterruptedCleanup d) i = new i" if "marker d"
    using inv that by (auto simp: disk_inv_def recovery_result split: option.splits)
  have "(\<forall>i < 4. target_file (finishInterruptedCleanup d) i = old i) \<or>
      (\<forall>i < 4. target_file (finishInterruptedCleanup d) i = new i)" if "\<not> marker d"
    using inv that by (auto simp: disk_inv_def recovery_result)
  moreover have "\<forall>i < 4. target_file (finishInterruptedCleanup d) i = new i" if "p = Finished"
    using inv that by (auto simp: disk_inv_def recovery_result)
  ultimately show ?thesis using committed by (auto simp: recovery_result)
qed

lemma interrupted_cleanup_atomic_witness:
  "(disk_step (\<lambda>i. i + 10))\<^sup>*\<^sup>* (\<lparr>target_file = id, fresh_file = \<lambda>_. None, marker = False\<rparr>, Unlinking 0)
     (\<lparr>target_file = id, fresh_file = \<lambda>_. None, marker = False\<rparr>, Recovering False 0) \<and>
   target_file (finishInterruptedCleanup \<lparr>target_file = id, fresh_file = (\<lambda>_. None) :: nat \<Rightarrow> nat option, marker = False\<rparr>) 3 \<in> {3, 13}"
proof -
  let ?d = "\<lparr>target_file = id, fresh_file = (\<lambda>_. None) :: nat \<Rightarrow> nat option, marker = False\<rparr>"
  have run: "(disk_step (\<lambda>i. i + 10))\<^sup>*\<^sup>* (?d, Unlinking 0) (?d, Recovering False 0)"
    using disk_step.crash[of "\<lambda>i. i + 10" ?d "Unlinking 0"] by auto
  show ?thesis using interrupted_cleanup_atomic[of ?d id, OF _ _ run] run by auto
qed

end
