(* ===== verification/HashTable.thy ===== *)
theory HashTable
  imports Prelude "HOL-Library.Word"
begin

text \<open>
  The persistent hash table from gate UUIDs to gate numbers (\<open>src/MMappedUUIDHashTable.cpp\<close>, \<open>.h\<close>): open
  addressing with linear probing, doubled when half full.  The table refines a finite map; adding
  UUIDs one after the other numbers them in the order of their first occurrence.  The mapping of the
  file in memory is not modelled: a table is the record its bytes hold.
\<close>

section \<open>The table\<close>

text \<open>A UUID is its 16 bytes, as the two 8-byte words that they are in memory.\<close>

type_synonym pg_uuid = "64 word \<times> 64 word"

definition NOTHING :: "64 word" where "NOTHING = - 1"

definition STARTING_LOG_SIZE :: nat where "STARTING_LOG_SIZE = 16"

record uuid_table =
  log_size :: nat
  nb_elements :: nat
  next_value :: "64 word"
  slots :: "(pg_uuid \<times> 64 word) list"

text \<open>
  Shifts of 32-bit integers: \<open>1u << log_size\<close> for the capacity; \<open>1 << log_size\<close>, of the signed type \<open>int\<close>
  and so sign-extended when it meets a 64-bit operand, for the modulus of the hash.  From 32 on the
  shift has no defined result.
\<close>

definition capacity :: "uuid_table \<Rightarrow> nat" where
  "capacity t = unat (push_bit (log_size t) (1 :: 32 word))"

definition hash_modulus :: "nat \<Rightarrow> 64 word" where
  "hash_modulus ls = scast (push_bit ls (1 :: 32 word))"

definition table_hash :: "uuid_table \<Rightarrow> pg_uuid \<Rightarrow> nat" where
  "table_hash t u = unat (fst u mod hash_modulus (log_size t))"

text \<open>The size of a file from the number of its slots (40 bytes of header, 24 bytes a slot) and back.\<close>

definition sizeForLogSize :: "nat \<Rightarrow> nat" where
  "sizeForLogSize ls = 40 + 2 ^ ls * 24"

fun halvings :: "nat \<Rightarrow> nat \<Rightarrow> nat" where
  "halvings sz ls = (if sz = 0 then ls else halvings (sz div 2) (ls + 1))"

declare halvings.simps [simp del]

definition logSizeForSize :: "nat \<Rightarrow> nat" where
  "logSizeForSize sz = halvings ((sz - 40) div 24 div 2) 0"

text \<open>The file created by the constructor when there is none.\<close>

definition new_table :: uuid_table where
  "new_table = \<lparr>log_size = logSizeForSize (sizeForLogSize STARTING_LOG_SIZE), nb_elements = 0, next_value = 0,
     slots = replicate (2 ^ STARTING_LOG_SIZE) ((0, 0), NOTHING)\<rparr>"

definition uuid_hash :: "nat \<Rightarrow> pg_uuid \<Rightarrow> nat" where
  "uuid_hash cap u = unat (fst u) mod cap"

partial_function (option) find_from :: "(pg_uuid \<times> 64 word) list \<Rightarrow> nat \<Rightarrow> pg_uuid \<Rightarrow> nat \<Rightarrow> nat option" where
  "find_from s cap u k =
     (if snd (s ! k) \<noteq> NOTHING \<and> fst (s ! k) \<noteq> u then find_from s cap u ((k + 1) mod cap) else Some k)"

definition uuid_find :: "uuid_table \<Rightarrow> pg_uuid \<Rightarrow> nat option" where
  "uuid_find t u = find_from (slots t) (capacity t) u (table_hash t u)"

text \<open>\<open>operator[]\<close>\<close>

definition uuid_lookup :: "uuid_table \<Rightarrow> pg_uuid \<Rightarrow> 64 word option" where
  "uuid_lookup t u = map_option (\<lambda>k. snd (slots t ! k)) (uuid_find t u)"

partial_function (option) empty_from :: "(pg_uuid \<times> 64 word) list \<Rightarrow> nat \<Rightarrow> nat \<Rightarrow> nat option" where
  "empty_from s cap k = (if snd (s ! k) \<noteq> NOTHING then empty_from s cap ((k + 1) mod cap) else Some k)"

text \<open>The loop of \<open>grow\<close> over the slots of the old table.\<close>

fun rehash :: "nat \<Rightarrow> (pg_uuid \<times> 64 word) list \<Rightarrow> (pg_uuid \<times> 64 word) list \<Rightarrow> (pg_uuid \<times> 64 word) list option" where
  "rehash cap [] nt = Some nt"
| "rehash cap (e # es) nt =
     (if snd e = NOTHING then rehash cap es nt
      else Option.bind (empty_from nt cap (uuid_hash cap (fst e))) (\<lambda>k. rehash cap es (nt[k := e])))"

definition grow :: "uuid_table \<Rightarrow> uuid_table option" where
  "grow t = (let new_log_size = log_size t + 1; new_capacity = 2 ^ new_log_size in
     map_option (\<lambda>s. t\<lparr>log_size := new_log_size, slots := s\<rparr>)
       (rehash new_capacity (slots t) (replicate new_capacity ((0, 0), NOTHING))))"

definition publish :: "uuid_table \<Rightarrow> pg_uuid \<Rightarrow> 64 word \<Rightarrow> ((64 word \<times> bool) \<times> uuid_table) option" where
  "publish t u value =
     Option.bind (uuid_find t u) (\<lambda>k.
       if snd (slots t ! k) \<noteq> NOTHING then Some ((snd (slots t ! k), False), t)
       else Option.bind (if capacity t \<le> 2 * nb_elements t then grow t else Some t) (\<lambda>t.
         Option.bind (uuid_find t u) (\<lambda>k.
           Some ((value, True),
             t\<lparr>nb_elements := nb_elements t + 1,
               next_value := (if value + 1 > next_value t then value + 1 else next_value t),
               slots := (slots t)[k := (u, value)]\<rparr>))))"

definition add :: "uuid_table \<Rightarrow> pg_uuid \<Rightarrow> ((64 word \<times> bool) \<times> uuid_table) option" where
  "add t u =
     Option.bind (uuid_find t u) (\<lambda>k.
       if snd (slots t ! k) \<noteq> NOTHING then Some ((snd (slots t ! k), False), t)
       else publish t u (next_value t))"

section \<open>Probing\<close>

definition occupied :: "(pg_uuid \<times> 64 word) list \<Rightarrow> nat \<Rightarrow> bool" where
  "occupied s k \<longleftrightarrow> snd (s ! k) \<noteq> NOTHING"

definition probe :: "nat \<Rightarrow> pg_uuid \<Rightarrow> nat \<Rightarrow> nat" where
  "probe n u j = (uuid_hash n u + j) mod n"

text \<open>Every key can be reached from its hash through occupied slots; no key is there twice.\<close>

definition chained :: "(pg_uuid \<times> 64 word) list \<Rightarrow> bool" where
  "chained s \<longleftrightarrow> (\<forall>i < length s. occupied s i \<longrightarrow>
     (\<exists>j. probe (length s) (fst (s ! i)) j = i \<and> (\<forall>j' < j. occupied s (probe (length s) (fst (s ! i)) j'))))"

definition keys_once :: "(pg_uuid \<times> 64 word) list \<Rightarrow> bool" where
  "keys_once s \<longleftrightarrow> (\<forall>i < length s. \<forall>j < length s. occupied s i \<longrightarrow> occupied s j \<longrightarrow> fst (s ! i) = fst (s ! j) \<longrightarrow> i = j)"

definition slot_map :: "(pg_uuid \<times> 64 word) list \<Rightarrow> pg_uuid \<rightharpoonup> 64 word" where
  "slot_map s = map_of (filter (\<lambda>e. snd e \<noteq> NOTHING) s)"

lemma probe_less: "0 < n \<Longrightarrow> probe n u j < n"
  by (simp add: probe_def)

lemma probe_Suc: "Suc (probe n u j) mod n = probe n u (Suc j)"
  by (simp add: probe_def mod_simps)

lemma probe_0: "probe n u 0 = uuid_hash n u"
  by (simp add: probe_def uuid_hash_def)

lemma probe_reaches: "i < n \<Longrightarrow> \<exists>j. probe n u j = i"
proof -
  assume i: "i < n"
  then have "uuid_hash n u < n" by (simp add: uuid_hash_def)
  then have "uuid_hash n u + (n - uuid_hash n u + i) = n + i" by simp
  then show ?thesis using i by (intro exI[of _ "n - uuid_hash n u + i"]) (simp add: probe_def)
qed

lemma slot_map_iff:
  assumes "keys_once s"
  shows "slot_map s u = Some v \<longleftrightarrow> (\<exists>i < length s. s ! i = (u, v)) \<and> v \<noteq> NOTHING"
proof
  assume "slot_map s u = Some v"
  from map_of_SomeD[OF this[unfolded slot_map_def]] show "(\<exists>i < length s. s ! i = (u, v)) \<and> v \<noteq> NOTHING"
    by (auto simp: in_set_conv_nth)
next
  assume r: "(\<exists>i < length s. s ! i = (u, v)) \<and> v \<noteq> NOTHING"
  then obtain i where i: "i < length s" "s ! i = (u, v)" by blast
  have "u \<in> dom (slot_map s)"
    unfolding slot_map_def dom_map_of_conv_image_fst using r nth_mem[OF i(1)] i(2) by force
  then obtain v' where v': "slot_map s u = Some v'" by blast
  from map_of_SomeD[OF this[unfolded slot_map_def]] obtain j where "j < length s" "s ! j = (u, v')" "v' \<noteq> NOTHING"
    by (auto simp: in_set_conv_nth)
  then have "i = j" using assms i r by (force simp: keys_once_def occupied_def)
  then show "slot_map s u = Some v" using v' i(2) \<open>s ! j = (u, v')\<close> by simp
qed

text \<open>The first slot of the probe sequence that is empty or holds the key.\<close>

lemma find_from_run:
  assumes "\<forall>i < J. occupied s (probe n u i) \<and> fst (s ! probe n u i) \<noteq> u"
    and "\<not> occupied s (probe n u J) \<or> fst (s ! probe n u J) = u"
  shows "j \<le> J \<Longrightarrow> find_from s n u (probe n u j) = Some (probe n u J)"
proof (induction j rule: inc_induct)
  case base
  show ?case using assms(2) by (subst find_from.simps) (auto simp: occupied_def)
next
  case (step i)
  then show ?case using assms(1) by (subst find_from.simps) (simp add: occupied_def probe_Suc)
qed

lemma empty_from_run:
  assumes "\<forall>i < J. occupied s (probe n u i)" and "\<not> occupied s (probe n u J)"
  shows "j \<le> J \<Longrightarrow> empty_from s n (probe n u j) = Some (probe n u J)"
proof (induction j rule: inc_induct)
  case base
  show ?case using assms(2) by (subst empty_from.simps) (simp add: occupied_def)
next
  case (step i)
  then show ?case using assms(1) by (subst empty_from.simps) (simp add: occupied_def probe_Suc)
qed

text \<open>With an empty slot somewhere, both loops end where they should.\<close>

lemma find_from_correct:
  assumes ch: "chained s" and once: "keys_once s" and free: "e < length s" "\<not> occupied s e"
  shows "\<exists>k < length s. find_from s (length s) u (uuid_hash (length s) u) = Some k \<and>
    (case slot_map s u of Some v \<Rightarrow> s ! k = (u, v) \<and> occupied s k
     | None \<Rightarrow> \<not> occupied s k \<and> (\<exists>J. k = probe (length s) u J \<and> (\<forall>i < J. occupied s (probe (length s) u i))))"
proof -
  let ?n = "length s" and ?P = "\<lambda>j. \<not> occupied s (probe (length s) u j) \<or> fst (s ! probe (length s) u j) = u"
  have n: "0 < ?n" using free(1) by linarith
  obtain j where "probe ?n u j = e" using probe_reaches[OF free(1)] by blast
  then have ex: "?P j" using free(2) by simp
  define J where "J = (LEAST j. ?P j)"
  have J: "?P J" "\<forall>i < J. \<not> ?P i" unfolding J_def using LeastI[of ?P, OF ex] not_less_Least[of _ ?P] by blast+
  have f: "find_from s ?n u (uuid_hash ?n u) = Some (probe ?n u J)"
    using find_from_run[of J s ?n u 0] J by (simp add: probe_0)
  have k: "probe ?n u J < ?n" by (rule probe_less[OF n])
  show ?thesis
  proof (rule exI[of _ "probe ?n u J"], intro conjI k f)
    show "case slot_map s u of Some v \<Rightarrow> s ! probe ?n u J = (u, v) \<and> occupied s (probe ?n u J)
      | None \<Rightarrow> \<not> occupied s (probe ?n u J) \<and> (\<exists>J'. probe ?n u J = probe ?n u J' \<and> (\<forall>i < J'. occupied s (probe ?n u i)))"
    proof (cases "slot_map s u")
      case None
      have "\<not> occupied s (probe ?n u J)"
      proof
        assume o: "occupied s (probe ?n u J)"
        then have "s ! probe ?n u J = (u, snd (s ! probe ?n u J))" using J(1) by (metis prod.collapse)
        then have "slot_map s u \<noteq> None"
          using slot_map_iff[OF once, of u "snd (s ! probe ?n u J)"] k o by (auto simp: occupied_def)
        then show False using None by simp
      qed
      then show ?thesis using None J(2) by auto
    next
      case (Some v)
      then obtain i where i: "i < ?n" "s ! i = (u, v)" "v \<noteq> NOTHING" using slot_map_iff[OF once] by blast
      then have oi: "occupied s i" by (simp add: occupied_def)
      then obtain j where j: "probe ?n u j = i" "\<forall>j' < j. occupied s (probe ?n u j')"
        using ch i(1,2) by (force simp: chained_def)
      have "J \<le> j" using J(2) j(1) i(2) by (metis fst_conv not_le)
      then have o: "occupied s (probe ?n u J)" using j oi by (cases "J = j") auto
      then have "fst (s ! probe ?n u J) = u" using J(1) by blast
      then have "probe ?n u J = i" using once k i o oi by (force simp: keys_once_def)
      then show ?thesis using Some i(2) oi by simp
    qed
  qed
qed

lemma empty_from_correct:
  assumes "e < length s" "\<not> occupied s e"
  shows "\<exists>J. empty_from s (length s) (uuid_hash (length s) u) = Some (probe (length s) u J) \<and>
    \<not> occupied s (probe (length s) u J) \<and> (\<forall>i < J. occupied s (probe (length s) u i))"
proof -
  let ?P = "\<lambda>j. \<not> occupied s (probe (length s) u j)"
  obtain j where "probe (length s) u j = e" using probe_reaches[OF assms(1)] by blast
  then have ex: "?P j" using assms(2) by simp
  define J where "J = (LEAST j. ?P j)"
  have J: "?P J" "\<forall>i < J. \<not> ?P i" unfolding J_def using LeastI[of ?P, OF ex] not_less_Least[of _ ?P] by blast+
  then show ?thesis using empty_from_run[of J s "length s" u 0] by (auto simp: probe_0)
qed

text \<open>Filling the slot where the probing of a new key stopped.\<close>

lemma fill_slot:
  assumes ch: "chained s" and once: "keys_once s" and k: "k < length s" "k = probe (length s) u J" "\<not> occupied s k"
    and J: "\<forall>i < J. occupied s (probe (length s) u i)" and u: "slot_map s u = None" and v: "v \<noteq> NOTHING"
  shows "chained (s[k := (u, v)])" "keys_once (s[k := (u, v)])" "slot_map (s[k := (u, v)]) = (slot_map s)(u \<mapsto> v)"
proof -
  let ?s = "s[k := (u, v)]" and ?n = "length s"
  have occ: "occupied ?s i \<longleftrightarrow> i = k \<or> occupied s i" if "i < ?n" for i
    using that k(1) v by (auto simp: occupied_def nth_list_update)
  have n: "0 < ?n" using k(1) by linarith
  have none: "fst (s ! i) \<noteq> u" if "i < ?n" "occupied s i" for i
  proof
    assume "fst (s ! i) = u"
    then have "s ! i = (u, snd (s ! i))" by (metis prod.collapse)
    then have "slot_map s u = Some (snd (s ! i))" using that slot_map_iff[OF once] by (auto simp: occupied_def)
    then show False using u by simp
  qed
  show c: "chained ?s" unfolding chained_def length_list_update
  proof (intro allI impI)
    fix i assume i: "i < ?n" "occupied ?s i"
    show "\<exists>j. probe ?n (fst (?s ! i)) j = i \<and> (\<forall>j' < j. occupied ?s (probe ?n (fst (?s ! i)) j'))"
    proof (cases "i = k")
      case True
      then show ?thesis using k J occ[OF probe_less[OF n]] by (intro exI[of _ J]) simp
    next
      case False
      then have "occupied s i" "?s ! i = s ! i" using i occ by auto
      then show ?thesis using ch i(1) occ[OF probe_less[OF n]] unfolding chained_def by metis
    qed
  qed
  show o: "keys_once ?s" unfolding keys_once_def length_list_update
  proof (intro allI impI)
    fix i j assume ij: "i < ?n" "j < ?n" "occupied ?s i" "occupied ?s j" "fst (?s ! i) = fst (?s ! j)"
    have old: "occupied s x \<and> fst (?s ! x) = fst (s ! x)" if "x < ?n" "occupied ?s x" "x \<noteq> k" for x
      using that occ[of x] by simp
    consider "i = k" "j = k" | "i = k" "j \<noteq> k" | "i \<noteq> k" "j = k" | "i \<noteq> k" "j \<noteq> k" by blast
    then show "i = j"
    proof cases
      case 2
      then show ?thesis using ij old[of j] none[of j] k(1) by simp
    next
      case 3
      then show ?thesis using ij old[of i] none[of i] k(1) by simp
    next
      case 4
      then show ?thesis using ij old[of i] old[of j] once unfolding keys_once_def by metis
    qed simp
  qed
  show "slot_map ?s = (slot_map s)(u \<mapsto> v)"
  proof
    fix w
    have "slot_map ?s w = Some x \<longleftrightarrow> ((slot_map s)(u \<mapsto> v)) w = Some x" for x
    proof (cases "w = u")
      case True
      have "slot_map ?s u = Some v" using slot_map_iff[OF o, of u v] k(1) v by auto
      then show ?thesis using True by simp
    next
      case False
      have "(\<exists>i < ?n. ?s ! i = (w, x)) \<longleftrightarrow> (\<exists>i < ?n. s ! i = (w, x))" if x: "x \<noteq> NOTHING"
      proof
        assume "\<exists>i < ?n. ?s ! i = (w, x)"
        then show "\<exists>i < ?n. s ! i = (w, x)" using False by (metis fst_conv nth_list_update_eq nth_list_update_neq)
      next
        assume "\<exists>i < ?n. s ! i = (w, x)"
        then obtain i where i: "i < ?n" "s ! i = (w, x)" by blast
        then have "i \<noteq> k" using k(3) x by (auto simp: occupied_def)
        then show "\<exists>i < ?n. ?s ! i = (w, x)" using i by auto
      qed
      then show ?thesis using slot_map_iff[OF o, of w x] slot_map_iff[OF once, of w x] False by auto
    qed
    then show "slot_map ?s w = ((slot_map s)(u \<mapsto> v)) w" by (metis not_Some_eq)
  qed
qed


section \<open>Growing\<close>

definition used :: "(pg_uuid \<times> 64 word) list \<Rightarrow> nat" where
  "used s = length (filter (\<lambda>e. snd e \<noteq> NOTHING) s)"

lemma used_card: "used s = card {i. i < length s \<and> occupied s i}"
  by (simp add: used_def occupied_def length_filter_conv_card)

lemma free_slot: "used s < length s \<Longrightarrow> \<exists>e < length s. \<not> occupied s e"
proof (rule ccontr)
  assume lt: "used s < length s" and "\<not> (\<exists>e < length s. \<not> occupied s e)"
  then have "{i. i < length s \<and> occupied s i} = {..< length s}" by auto
  then show False using lt by (simp add: used_card)
qed

lemma used_update:
  assumes "k < length s" "\<not> occupied s k" "snd e \<noteq> NOTHING"
  shows "used (s[k := e]) = used s + 1"
proof -
  have "{i. i < length (s[k := e]) \<and> occupied (s[k := e]) i} = insert k {i. i < length s \<and> occupied s i}"
    using assms by (auto simp: occupied_def nth_list_update split: if_splits)
  moreover have "k \<notin> {i. i < length s \<and> occupied s i}" using assms(2) by simp
  ultimately show ?thesis by (simp add: used_card)
qed

lemma keys_once_Cons: "keys_once (e # s) \<Longrightarrow> keys_once s"
  unfolding keys_once_def occupied_def by (metis Suc_less_eq length_Cons nat.inject nth_Cons_Suc)

lemma keys_once_distinct: "keys_once s \<Longrightarrow> distinct (map fst (filter (\<lambda>e. snd e \<noteq> NOTHING) s))"
proof (induction s)
  case (Cons e s)
  have "fst e \<notin> fst ` set (filter (\<lambda>e. snd e \<noteq> NOTHING) s)" if ne: "snd e \<noteq> NOTHING"
  proof
    assume "fst e \<in> fst ` set (filter (\<lambda>e. snd e \<noteq> NOTHING) s)"
    then obtain i where i: "i < length s" "snd (s ! i) \<noteq> NOTHING" "fst (s ! i) = fst e"
      by (auto simp: in_set_conv_nth)
    have "0 = Suc i" using Cons.prems[unfolded keys_once_def, rule_format, of 0 "Suc i"] i ne
      by (simp add: occupied_def)
    then show False by simp
  qed
  then show ?case using Cons.IH keys_once_Cons[OF Cons.prems] by simp
qed simp

lemma empty_slots [simp]:
  "chained (replicate n (u, NOTHING))" "keys_once (replicate n (u, NOTHING))"
  "slot_map (replicate n (u, NOTHING)) = Map.empty" "used (replicate n (u, NOTHING)) = 0"
  by (auto simp: chained_def keys_once_def occupied_def slot_map_def used_def filter_replicate)

lemma rehash_correct:
  assumes "chained nt" "keys_once nt" "used nt + used es < length nt"
    and "distinct (map fst (filter (\<lambda>e. snd e \<noteq> NOTHING) es))" "dom (slot_map nt) \<inter> dom (slot_map es) = {}"
  shows "\<exists>s. rehash (length nt) es nt = Some s \<and> length s = length nt \<and> chained s \<and> keys_once s \<and>
    slot_map s = slot_map nt ++ slot_map es \<and> used s = used nt + used es"
  using assms
proof (induction es arbitrary: nt)
  case Nil
  then show ?case by (simp add: used_def slot_map_def)
next
  case (Cons e es)
  show ?case
  proof (cases "snd e = NOTHING")
    case True
    then show ?thesis using Cons by (simp add: used_def slot_map_def)
  next
    case False
    obtain u v where e: "e = (u, v)" by (cases e)
    have v: "v \<noteq> NOTHING" and es: "slot_map (e # es) = (slot_map es)(u \<mapsto> v)" "used (e # es) = Suc (used es)"
      using False e by (simp_all add: slot_map_def used_def)
    have fresh: "u \<notin> dom (slot_map es)"
      using Cons.prems(4) False e unfolding slot_map_def dom_map_of_conv_image_fst by simp
    have u: "slot_map nt u = None" using Cons.prems(5) es(1) by auto
    obtain f where f: "f < length nt" "\<not> occupied nt f" using free_slot[of nt] Cons.prems(3) by auto
    obtain J where J: "empty_from nt (length nt) (uuid_hash (length nt) u) = Some (probe (length nt) u J)"
      "\<not> occupied nt (probe (length nt) u J)" "\<forall>i < J. occupied nt (probe (length nt) u i)"
      using empty_from_correct[OF f] by blast
    let ?k = "probe (length nt) u J"
    let ?nt = "nt[?k := e]"
    have k: "?k < length nt" using f(1) by (intro probe_less) linarith
    note fill = fill_slot[OF Cons.prems(1,2) k refl J(2,3) u v, folded e]
    have u1: "used ?nt = used nt + 1" by (rule used_update[OF k J(2) False])
    have d: "dom (slot_map ?nt) \<inter> dom (slot_map es) = {}" using Cons.prems(5) fresh fill(3) es(1) by auto
    have "used ?nt + used es < length ?nt" using Cons.prems(3) es(2) u1 by simp
    then obtain s where s: "rehash (length nt) es ?nt = Some s" "length s = length nt" "chained s" "keys_once s"
        "slot_map s = slot_map ?nt ++ slot_map es" "used s = used ?nt + used es"
      using Cons.IH[OF fill(1,2) _ _ d] Cons.prems(4) by (auto split: if_splits)
    have "slot_map s = slot_map nt ++ slot_map (e # es)"
      using s(5) fill(3) es(1) fresh by (simp add: map_add_upd_left)
    then show ?thesis using s J(1) False u1 es(2) e by simp
  qed
qed

section \<open>The invariant\<close>

lemma unat_two_power: "n < LENGTH('a) \<Longrightarrow> unat (2 ^ n :: 'a::len word) = 2 ^ n"
proof -
  assume "n < LENGTH('a)"
  then have "(2::nat) ^ n < 2 ^ LENGTH('a)" by (intro power_strict_increasing) auto
  moreover have "(2 ^ n :: 'a word) = word_of_nat (2 ^ n)" by simp
  ultimately show ?thesis by (simp only: unsigned_of_nat take_bit_eq_mod mod_less of_nat_id)
qed

lemma capacity_power: "log_size t \<le> 31 \<Longrightarrow> capacity t = 2 ^ log_size t"
  by (simp add: capacity_def unat_two_power)

lemma hash_modulus_shift: "ls \<le> 30 \<Longrightarrow> hash_modulus ls = push_bit ls 1"
  by (rule bit_word_eqI) (auto simp: hash_modulus_def bit_signed_iff bit_simps min_def)

lemma table_hash_power: "log_size t \<le> 30 \<Longrightarrow> table_hash t u = uuid_hash (2 ^ log_size t) u"
  by (simp add: table_hash_def uuid_hash_def unat_mod hash_modulus_shift unat_two_power)

lemma halvings_power: "halvings (2 ^ n) ls = ls + n + 1"
proof (induction n arbitrary: ls)
  case 0
  show ?case by (simp add: halvings.simps)
next
  case (Suc n)
  then show ?case by (subst halvings.simps) simp
qed

lemma logSizeForSize_sizeForLogSize: "logSizeForSize (sizeForLogSize ls) = ls"
proof (cases ls)
  case 0
  then show ?thesis by (simp add: logSizeForSize_def sizeForLogSize_def halvings.simps)
next
  case (Suc n)
  then show ?thesis by (simp add: logSizeForSize_def sizeForLogSize_def halvings_power)
qed

definition uuid_table_ok :: "uuid_table \<Rightarrow> bool" where
  "uuid_table_ok t \<longleftrightarrow> 1 \<le> log_size t \<and> log_size t \<le> 30 \<and> length (slots t) = 2 ^ log_size t \<and>
     chained (slots t) \<and> keys_once (slots t) \<and> nb_elements t = used (slots t) \<and>
     2 * nb_elements t \<le> 2 ^ log_size t"

definition table_map :: "uuid_table \<Rightarrow> pg_uuid \<rightharpoonup> 64 word" where
  "table_map t = slot_map (slots t)"

lemma uuid_table_okD:
  assumes "uuid_table_ok t"
  shows "1 \<le> log_size t" "log_size t \<le> 30" "length (slots t) = 2 ^ log_size t" "capacity t = 2 ^ log_size t"
    "chained (slots t)" "keys_once (slots t)" "nb_elements t = used (slots t)"
    "2 * nb_elements t \<le> length (slots t)"
  using assms by (simp_all add: uuid_table_ok_def capacity_power)

lemma new_table_ok: "uuid_table_ok new_table" "table_map new_table = Map.empty" "nb_elements new_table = 0" "next_value new_table = 0"
  by (simp_all add: uuid_table_ok_def table_map_def new_table_def logSizeForSize_sizeForLogSize STARTING_LOG_SIZE_def)

lemma table_map_value: "table_map t u = Some v \<Longrightarrow> v \<noteq> NOTHING"
  unfolding table_map_def slot_map_def by (auto dest: map_of_SomeD)

lemma table_find:
  assumes ok: "uuid_table_ok t"
  shows "\<exists>k < length (slots t). uuid_find t u = Some k \<and>
    (case table_map t u of Some v \<Rightarrow> slots t ! k = (u, v) \<and> occupied (slots t) k
     | None \<Rightarrow> \<not> occupied (slots t) k \<and>
         (\<exists>J. k = probe (length (slots t)) u J \<and> (\<forall>i < J. occupied (slots t) (probe (length (slots t)) u i))))"
proof -
  note D = uuid_table_okD[OF ok]
  have "0 < length (slots t)" using D(3) by simp
  then have "used (slots t) < length (slots t)" using D(7,8) by linarith
  then obtain e where e: "e < length (slots t)" "\<not> occupied (slots t) e" using free_slot by blast
  show ?thesis using find_from_correct[OF D(5,6) e, of u] D(2,3,4)
    unfolding uuid_find_def table_map_def by (simp add: table_hash_power)
qed

lemma lookup_correct:
  assumes "uuid_table_ok t"
  shows "uuid_lookup t u = Some (case table_map t u of Some v \<Rightarrow> v | None \<Rightarrow> NOTHING)"
  using table_find[OF assms, of u] by (auto simp: uuid_lookup_def occupied_def split: option.splits)

lemma grow_correct:
  assumes ok: "uuid_table_ok t" and small: "log_size t < 30"
  shows "\<exists>s. grow t = Some (t\<lparr>log_size := log_size t + 1, slots := s\<rparr>) \<and>
    uuid_table_ok (t\<lparr>log_size := log_size t + 1, slots := s\<rparr>) \<and>
    table_map (t\<lparr>log_size := log_size t + 1, slots := s\<rparr>) = table_map t"
proof -
  note D = uuid_table_okD[OF ok]
  let ?n = "2 ^ (log_size t + 1)"
  let ?nt = "replicate ?n ((0 :: 64 word, 0 :: 64 word), NOTHING)"
  have "0 < length (slots t)" using D(3) by simp
  then have "used (slots t) < 2 * length (slots t)" using D(7,8) by linarith
  then have lt: "used ?nt + used (slots t) < length ?nt" using D(3) by simp
  have "dom (slot_map ?nt) \<inter> dom (slot_map (slots t)) = {}" by simp
  from rehash_correct[OF empty_slots(1,2) lt keys_once_distinct[OF D(6)] this]
  obtain s where s: "rehash ?n (slots t) ?nt = Some s" "length s = ?n" "chained s" "keys_once s"
      "slot_map s = slot_map (slots t)" "used s = used (slots t)"
    by auto
  then show ?thesis using D small by (intro exI[of _ s]) (simp add: grow_def uuid_table_ok_def table_map_def)
qed

text \<open>The three outcomes of \<open>publish\<close>: the key is there; there is room; the table is doubled first.\<close>

lemma publish_room:
  assumes ok: "uuid_table_ok t" and new: "table_map t u = None" and v: "v \<noteq> NOTHING"
    and room: "2 * nb_elements t < capacity t"
  shows "\<exists>k. uuid_find t u = Some k \<and> snd (slots t ! k) = NOTHING \<and>
    (\<forall>nv. uuid_table_ok (t\<lparr>nb_elements := nb_elements t + 1, next_value := nv, slots := (slots t)[k := (u, v)]\<rparr>) \<and>
      table_map (t\<lparr>nb_elements := nb_elements t + 1, next_value := nv, slots := (slots t)[k := (u, v)]\<rparr>) = (table_map t)(u \<mapsto> v))"
proof -
  note D = uuid_table_okD[OF ok]
  obtain k J where k: "k < length (slots t)" "uuid_find t u = Some k" "\<not> occupied (slots t) k"
      "k = probe (length (slots t)) u J" "\<forall>i < J. occupied (slots t) (probe (length (slots t)) u i)"
    using table_find[OF ok, of u] new by auto
  note fill = fill_slot[OF D(5,6) k(1,4,3,5) new[unfolded table_map_def] v]
  have "used ((slots t)[k := (u, v)]) = used (slots t) + 1" by (rule used_update[OF k(1,3)]) (simp add: v)
  moreover have "2 * (nb_elements t + 1) \<le> 2 ^ log_size t"
  proof -
    obtain m where "log_size t = Suc m" using D(1) by (cases "log_size t") auto
    then show ?thesis using room D(4) by simp
  qed
  ultimately show ?thesis using fill D k
    by (intro exI[of _ k]) (simp add: uuid_table_ok_def table_map_def occupied_def)
qed

lemma publish_known:
  assumes "uuid_table_ok t" "table_map t u = Some w"
  shows "publish t u v = Some ((w, False), t)"
  using table_find[OF assms(1), of u] assms(2) by (auto simp: publish_def occupied_def)

lemma publish_new:
  assumes ok: "uuid_table_ok t" and new: "table_map t u = None" and v: "v \<noteq> NOTHING"
    and small: "log_size t < 30 \<or> 2 * nb_elements t < capacity t"
  shows "\<exists>t'. publish t u v = Some ((v, True), t') \<and> uuid_table_ok t' \<and> table_map t' = (table_map t)(u \<mapsto> v) \<and>
    nb_elements t' = nb_elements t + 1 \<and> next_value t' = max (next_value t) (v + 1)"
proof (cases "2 * nb_elements t < capacity t")
  case True
  from publish_room[OF ok new v True] show ?thesis using True by (auto simp: publish_def max_def)
next
  case False
  let ?g = "\<lambda>s. t\<lparr>log_size := log_size t + 1, slots := s\<rparr>"
  obtain s where s: "grow t = Some (?g s)" "uuid_table_ok (?g s)" "table_map (?g s) = table_map t"
    using grow_correct[OF ok] small False by blast
  have "0 < length (slots t)" using uuid_table_okD(3)[OF ok] by simp
  then have "2 * nb_elements t < 2 * length (slots t)" using uuid_table_okD(8)[OF ok] by linarith
  then have "2 * nb_elements (?g s) < capacity (?g s)"
    using uuid_table_okD(4)[OF s(2)] uuid_table_okD(3)[OF ok] by simp
  from publish_room[OF s(2) new[folded s(3)] v this] obtain k where k: "uuid_find (?g s) u = Some k" "snd (s ! k) = NOTHING"
      "\<forall>nv. uuid_table_ok ((?g s)\<lparr>nb_elements := nb_elements t + 1, next_value := nv, slots := s[k := (u, v)]\<rparr>) \<and>
        table_map ((?g s)\<lparr>nb_elements := nb_elements t + 1, next_value := nv, slots := s[k := (u, v)]\<rparr>) = (table_map t)(u \<mapsto> v)"
    using s(3) by auto
  obtain k' where "uuid_find t u = Some k'" "snd (slots t ! k') = NOTHING"
    using table_find[OF ok, of u] new by (auto simp: occupied_def)
  then show ?thesis using False s(1) k by (auto simp: publish_def max_def)
qed

lemma add_known:
  assumes "uuid_table_ok t" "table_map t u = Some w"
  shows "add t u = Some ((w, False), t)"
  using table_find[OF assms(1), of u] assms(2) by (auto simp: add_def occupied_def)

lemma add_new:
  assumes "uuid_table_ok t" "table_map t u = None"
  shows "add t u = publish t u (next_value t)"
  using table_find[OF assms(1), of u] assms(2) by (auto simp: add_def occupied_def)

section \<open>Numbering by first occurrence\<close>

text \<open>The numbers that a list of keys gets after the keys \<open>seen\<close>, with whether they are new, and the keys seen at the end.\<close>

definition position :: "'k list \<Rightarrow> 'k \<Rightarrow> nat" where
  "position seen u = length (takeWhile (\<lambda>x. x \<noteq> u) seen)"

fun first_seen :: "'k list \<Rightarrow> 'k list \<Rightarrow> (nat \<times> bool) list" where
  "first_seen seen [] = []"
| "first_seen seen (u # us) =
     (if u \<in> set seen then (position seen u, False) # first_seen seen us
      else (length seen, True) # first_seen (seen @ [u]) us)"

fun seen_after :: "'k list \<Rightarrow> 'k list \<Rightarrow> 'k list" where
  "seen_after seen [] = seen"
| "seen_after seen (u # us) = seen_after (if u \<in> set seen then seen else seen @ [u]) us"

text \<open>Inserting a list of keys one after the other.\<close>

fun insert_all :: "('t \<Rightarrow> 'k \<Rightarrow> ('r \<times> 't) option) \<Rightarrow> 't \<Rightarrow> 'k list \<Rightarrow> ('r list \<times> 't) option" where
  "insert_all ins t [] = Some ([], t)"
| "insert_all ins t (u # us) = Option.bind (ins t u) (\<lambda>(r, t).
     map_option (\<lambda>(rs, t). (r # rs, t)) (insert_all ins t us))"

lemma position_append: "u \<notin> set seen \<Longrightarrow> position (seen @ [u]) v = (if v \<in> set seen then position seen v else if v = u then length seen else Suc (length seen))"
  by (auto simp: position_def takeWhile_append takeWhile_eq_all_conv)

lemma set_seen_after: "set (seen_after seen us) = set seen \<union> set us"
  by (induction us arbitrary: seen) auto

text \<open>What a table of tokens promises: a new key gets the next number, a known one the number it has.\<close>

locale token_numbering =
  fixes ins :: "'t \<Rightarrow> 'k \<Rightarrow> ((64 word \<times> bool) \<times> 't) option"
    and rep :: "'t \<Rightarrow> 'k list \<Rightarrow> bool"
    and bound :: nat
  assumes ins_known: "rep t seen \<Longrightarrow> u \<in> set seen \<Longrightarrow> ins t u = Some ((word_of_nat (position seen u), False), t)"
    and ins_new: "rep t seen \<Longrightarrow> u \<notin> set seen \<Longrightarrow> length seen < bound \<Longrightarrow>
      \<exists>t'. ins t u = Some ((word_of_nat (length seen), True), t') \<and> rep t' (seen @ [u])"
begin

lemma insert_all_numbers:
  assumes "rep t seen" "length seen + length us \<le> bound"
  shows "\<exists>t'. insert_all ins t us = Some (map (map_prod word_of_nat id) (first_seen seen us), t') \<and> rep t' (seen_after seen us)"
  using assms
proof (induction us arbitrary: t seen)
  case (Cons u us)
  show ?case
  proof (cases "u \<in> set seen")
    case True
    then show ?thesis using Cons.IH[OF Cons.prems(1)] Cons.prems ins_known by auto
  next
    case False
    then obtain t1 where t1: "ins t u = Some ((word_of_nat (length seen), True), t1)" "rep t1 (seen @ [u])"
      using ins_new[OF Cons.prems(1)] Cons.prems(2) by auto
    show ?thesis using Cons.IH[OF t1(2)] Cons.prems(2) t1(1) False by auto
  qed
qed simp

end

definition numbers :: "uuid_table \<Rightarrow> pg_uuid list \<Rightarrow> bool" where
  "numbers t seen \<longleftrightarrow> uuid_table_ok t \<and> distinct seen \<and> nb_elements t = length seen \<and> next_value t = word_of_nat (length seen) \<and>
     table_map t = (\<lambda>u. if u \<in> set seen then Some (word_of_nat (position seen u)) else None)"

lemma small_word: "n < 2 ^ 63 \<Longrightarrow> (word_of_nat n :: 64 word) \<noteq> NOTHING \<and> unat (word_of_nat n :: 64 word) = n"
proof -
  assume n: "n < 2 ^ 63"
  have u: "unat (word_of_nat n :: 64 word) = n" using n by (simp add: unsigned_of_nat take_bit_eq_mod)
  moreover have "unat NOTHING = 2 ^ 64 - 1" by (simp add: NOTHING_def unsigned_minus_1_eq_mask mask_eq_exp_minus_1)
  ultimately show ?thesis using n by auto
qed

lemma numbers_new_table: "numbers new_table []"
  by (simp add: numbers_def new_table_ok)

lemma publish_numbers:
  assumes r: "numbers t seen" and u: "u \<notin> set seen" and n: "length seen < 2 ^ 29"
  shows "\<exists>t'. publish t u (word_of_nat (length seen)) = Some ((word_of_nat (length seen), True), t') \<and>
    numbers t' (seen @ [u])"
proof -
  have ok: "uuid_table_ok t" and nb: "nb_elements t = length seen" and nv: "next_value t = word_of_nat (length seen)"
    and new: "table_map t u = None" using r u by (auto simp: numbers_def)
  have "log_size t < 30 \<or> 2 * nb_elements t < capacity t"
    using uuid_table_okD(2,4)[OF ok] nb n by (cases "log_size t = 30") auto
  moreover have v: "next_value t \<noteq> NOTHING" using small_word[of "length seen"] n nv by simp
  ultimately obtain t' where t': "publish t u (next_value t) = Some ((next_value t, True), t')" "uuid_table_ok t'"
      "table_map t' = (table_map t)(u \<mapsto> next_value t)" "nb_elements t' = nb_elements t + 1"
      "next_value t' = max (next_value t) (next_value t + 1)"
    using publish_new[OF ok new] by blast
  have "next_value t' = word_of_nat (length (seen @ [u]))"
    using t'(5) nv small_word[of "length seen"] small_word[of "Suc (length seen)"] n
    by (simp add: max_def word_le_nat_alt add.commute)
  moreover have "table_map t' = (\<lambda>w. if w \<in> set (seen @ [u]) then Some (word_of_nat (position (seen @ [u]) w)) else None)"
    using t'(3) r u nv by (auto simp: numbers_def fun_eq_iff position_append)
  ultimately show ?thesis using t'(1,2,4) nb nv r u by (simp add: numbers_def)
qed

lemma add_numbers:
  assumes r: "numbers t seen" and u: "u \<notin> set seen" and n: "length seen < 2 ^ 29"
  shows "\<exists>t'. add t u = Some ((word_of_nat (length seen), True), t') \<and> numbers t' (seen @ [u])"
proof -
  have "add t u = publish t u (word_of_nat (length seen))"
    using add_new[of t u] r u by (simp add: numbers_def)
  then show ?thesis using publish_numbers[OF assms] by simp
qed

interpretation tokens: token_numbering add numbers "2 ^ 29"
proof unfold_locales
  show "add t u = Some ((word_of_nat (position seen u), False), t)" if "numbers t seen" "u \<in> set seen" for t seen u
    using that by (intro add_known) (simp_all add: numbers_def)
qed (rule add_numbers)

text \<open>C27: into the table of a new file, up to 2^29 UUIDs can be added one after the other; every addition
  returns, with the number of distinct UUIDs before the first occurrence of its UUID and whether it is that
  first occurrence (through all the doublings of the table), and afterwards every UUID is looked up under
  its number, every other one is reported as absent.
\<close>

theorem uuid_table_numbers:
  assumes "length us \<le> 2 ^ 29"
  shows "\<exists>t. insert_all add new_table us = Some (map (map_prod word_of_nat id) (first_seen [] us), t) \<and>
    (\<forall>u. uuid_lookup t u = Some (if u \<in> set us then word_of_nat (position (seen_after [] us) u) else NOTHING))"
proof -
  obtain t where t: "insert_all add new_table us = Some (map (map_prod word_of_nat id) (first_seen [] us), t)"
      "numbers t (seen_after [] us)"
    using tokens.insert_all_numbers[OF numbers_new_table, of us] assms by auto
  then have "uuid_lookup t u = Some (if u \<in> set us then word_of_nat (position (seen_after [] us) u) else NOTHING)" for u
    using lookup_correct[of t u] by (simp add: numbers_def set_seen_after)
  then show ?thesis using t(1) by blast
qed

lemma uuid_table_numbers_witness:
  "\<exists>t. insert_all add new_table [(7, 1), (65543, 2), (7, 1)] = Some ([(0, True), (1, True), (0, False)], t) \<and>
    uuid_lookup t (65543, 2) = Some 1 \<and> uuid_lookup t (7, 2) = Some NOTHING"
  using uuid_table_numbers[of "[(7, 1), (65543, 2), (7, 1)]"] by (auto simp: position_def)

text \<open>the hash of a UUID is a slot of the table as long as the table has at most 2^30 slots; at 2^31
  slots, where \<open>1 << log_size\<close> is negative, it may be far outside.
\<close>

theorem table_hash_bounds:
  "(log_size t \<le> 30 \<longrightarrow> table_hash t u < capacity t) \<and>
   (log_size t = 31 \<longrightarrow> capacity t = 2 ^ 31 \<and> table_hash t (2 ^ 62, 0) = 2 ^ 62)"
proof (intro conjI impI)
  show "table_hash t u < capacity t" if "log_size t \<le> 30"
    using that by (simp add: table_hash_power uuid_hash_def capacity_power)
  assume ls: "log_size t = 31"
  then show "capacity t = 2 ^ 31" by (simp add: capacity_power)
  have shift: "push_bit 31 (1 :: 32 word) = 0x80000000" by (simp add: push_bit_eq_mult)
  have "hash_modulus 31 = 0xFFFFFFFF80000000" unfolding hash_modulus_def shift by simp
  then have "unat ((2 ^ 62 :: 64 word) mod hash_modulus 31) = 2 ^ 62" by (simp add: unat_mod)
  then show "table_hash t (2 ^ 62, 0) = 2 ^ 62" using ls by (simp add: table_hash_def)
qed

lemma table_hash_bounds_witness:
  "table_hash new_table (65543, 2) < capacity new_table \<and>
   table_hash (new_table\<lparr>log_size := 31\<rparr>) (2 ^ 62, 0) = 2 ^ 62"
  using table_hash_bounds[of new_table "(65543, 2)"] table_hash_bounds[of "new_table\<lparr>log_size := 31\<rparr>" "(0, 0)"]
    uuid_table_okD(2)[OF new_table_ok(1)] by simp

lemma position_nth: "u \<in> set seen \<Longrightarrow> position seen u < length seen \<and> seen ! position seen u = u"
  unfolding position_def
proof (induction seen)
  case (Cons x seen)
  then show ?case by (cases "x = u") auto
qed simp

lemma nth_position: "distinct seen \<Longrightarrow> i < length seen \<Longrightarrow> position seen (seen ! i) = i"
  by (metis nth_eq_iff_index_eq nth_mem position_nth)

end
