(* ===== verification/Store.thy ===== *)
theory Store
  imports HashTable Circuit "HOL-Library.Multiset"
begin

text \<open>
  The persistent circuit (\<open>src/MMappedCircuit.cpp\<close>, \<open>.h\<close>, \<open>src/MMappedVector.hpp\<close>): the gate records,
  the flattened children and the annotation bytes in three growing vectors, found through the table of
  UUIDs.  The store refines a finite map from tokens to what is known of their gates (\<open>view\<close>).
  A probability is \<open>None\<close> where the code stores NaN; the operations are partial because the table's loops
  are.  Files, flushing and the pipe are not modelled.
\<close>

section \<open>The growing vectors\<close>

text \<open>A vector: its capacity and the elements below \<open>nb_elements\<close>.\<close>

record 'a mvector =
  vcapacity :: nat
  elements :: "'a list"

definition STARTING_CAPACITY :: nat where "STARTING_CAPACITY = 2 ^ 16"

definition new_vector :: "'a mvector" where
  "new_vector = \<lparr>vcapacity = STARTING_CAPACITY, elements = []\<rparr>"

definition vgrow :: "'a mvector \<Rightarrow> 'a mvector" where
  "vgrow v = v\<lparr>vcapacity := vcapacity v * 2\<rparr>"

definition vadd :: "'a mvector \<Rightarrow> 'a \<Rightarrow> 'a mvector" where
  "vadd v x = (let v = (if length (elements v) = vcapacity v then vgrow v else v) in v\<lparr>elements := elements v @ [x]\<rparr>)"

lemma vadd_step:
  assumes "length (elements v) \<le> vcapacity v" "0 < vcapacity v"
  shows "elements (vadd v x) = elements v @ [x]" "length (elements v) < vcapacity (vadd v x)"
    "vcapacity v \<le> vcapacity (vadd v x)" "vcapacity (vadd v x) \<le> max (vcapacity v) (2 * length (elements v))"
  using assms by (auto simp: vadd_def vgrow_def)

text \<open>values added one after the other to a new vector are its elements, in order, and no value is ever
  written past the capacity, which stays at most twice what is needed.
\<close>

theorem vector_adds:
  "elements (foldl vadd new_vector xs) = xs \<and> length xs \<le> vcapacity (foldl vadd new_vector xs) \<and>
   vcapacity (foldl vadd new_vector xs) \<le> max STARTING_CAPACITY (2 * length xs)"
proof -
  define v where "v ys = foldl vadd new_vector ys" for ys :: "'a list"
  have "elements (v xs) = xs \<and> length xs \<le> vcapacity (v xs) \<and> 0 < vcapacity (v xs) \<and>
    vcapacity (v xs) \<le> max STARTING_CAPACITY (2 * length xs)"
  proof (induction xs rule: rev_induct)
    case Nil
    show ?case by (simp add: v_def new_vector_def STARTING_CAPACITY_def)
  next
    case (snoc x xs)
    have "v (xs @ [x]) = vadd (v xs) x" by (simp add: v_def)
    then show ?case using snoc.IH vadd_step[of "v xs" x] by auto
  qed
  then show ?thesis by (simp add: v_def)
qed

section \<open>The store\<close>

record GateInformation =
  gi_type :: gate_type
  nb_children :: nat
  children_idx :: nat
  gi_prob :: "real option"
  info1 :: nat
  info2 :: nat
  extra_idx :: nat
  extra_len :: nat

record store =
  mapping :: uuid_table
  m_gates :: "GateInformation list"
  m_wires :: "pg_uuid list"
  m_extra :: string
  gates_version :: nat

definition GATES_VERSION :: nat where "GATES_VERSION = 2"

definition new_store :: store where
  "new_store = \<lparr>mapping = new_table, m_gates = [], m_wires = [], m_extra = [], gates_version = GATES_VERSION\<rparr>"

definition gate_information :: "gate_type \<Rightarrow> nat \<Rightarrow> nat \<Rightarrow> GateInformation" where
  "gate_information t n i = \<lparr>gi_type = t, nb_children = n, children_idx = i, gi_prob = None, info1 = 0, info2 = 0,
     extra_idx = 0, extra_len = 0\<rparr>"

abbreviation index_of :: "store \<Rightarrow> pg_uuid \<Rightarrow> 64 word option" where
  "index_of s token \<equiv> uuid_lookup (mapping s) token"

definition update_gate :: "nat \<Rightarrow> (GateInformation \<Rightarrow> GateInformation) \<Rightarrow> store \<Rightarrow> store" where
  "update_gate i f s = s\<lparr>m_gates := (m_gates s)[i := f (m_gates s ! i)]\<rparr>"

definition appendGate :: "store \<Rightarrow> pg_uuid \<Rightarrow> gate_type \<Rightarrow> pg_uuid list \<Rightarrow> store option" where
  "appendGate s token t children =
     (let idx = length (m_gates s); wires_idx = length (m_wires s);
          s = s\<lparr>m_wires := m_wires s @ children\<rparr>;
          s = s\<lparr>m_gates := m_gates s @ [gate_information t (length children mod 2 ^ 32) wires_idx]\<rparr>
      in map_option (\<lambda>(_, m). s\<lparr>mapping := m\<rparr>) (publish (mapping s) token (word_of_nat idx)))"

text \<open>\<open>for(c: children) if(mapping[c] == NOTHING) appendGate(c, gate_input, {});\<close>\<close>

fun append_missing :: "store \<Rightarrow> pg_uuid list \<Rightarrow> store option" where
  "append_missing s [] = Some s"
| "append_missing s (c # cs) = Option.bind (index_of s c) (\<lambda>idx.
     Option.bind (if idx = NOTHING then appendGate s c gate_input [] else Some s) (\<lambda>s. append_missing s cs))"

text \<open>The writes that upgrade a placeholder, one after the other: a killed worker has carried out a prefix.\<close>

definition upgrade_writes :: "nat \<Rightarrow> store \<Rightarrow> gate_type \<Rightarrow> pg_uuid list \<Rightarrow> (store \<Rightarrow> store) list" where
  "upgrade_writes idx s t children =
     (let wires_idx = length (m_wires s)
      in map (\<lambda>c s. s\<lparr>m_wires := m_wires s @ [c]\<rparr>) children @
         [update_gate idx (\<lambda>g. g\<lparr>children_idx := wires_idx\<rparr>),
          update_gate idx (\<lambda>g. g\<lparr>nb_children := length children mod 2 ^ 32\<rparr>),
          update_gate idx (\<lambda>g. g\<lparr>gi_type := t\<rparr>)])"

definition run_writes :: "(store \<Rightarrow> store) list \<Rightarrow> store \<Rightarrow> store" where
  "run_writes ws s = fold (\<lambda>w s. w s) ws s"

definition createGate :: "store \<Rightarrow> pg_uuid \<Rightarrow> gate_type \<Rightarrow> pg_uuid list \<Rightarrow> store option" where
  "createGate s token t children = Option.bind (index_of s token) (\<lambda>idx.
     if idx \<noteq> NOTHING then
       (let g = m_gates s ! unat idx;
            placeholder = (gi_type g = gate_input \<and> nb_children g = 0);
            real_create = (t \<noteq> gate_input \<or> children \<noteq> [])
        in if placeholder \<and> real_create then
             append_missing (run_writes (upgrade_writes (unat idx) s t children) s) children
           else Some s)
     else Option.bind (appendGate s token t children) (\<lambda>s. append_missing s children))"

lemma run_wires: "run_writes (map (\<lambda>c s. s\<lparr>m_wires := m_wires s @ [c]\<rparr>) cs) s = s\<lparr>m_wires := m_wires s @ cs\<rparr>"
  by (induction cs arbitrary: s) (simp_all add: run_writes_def)

lemma run_writes_append [simp]: "run_writes (ws @ ws') s = run_writes ws' (run_writes ws s)"
  by (simp add: run_writes_def)

lemma run_writes_simps [simp]: "run_writes [] s = s" "run_writes (w # ws) s = run_writes ws (w s)"
  by (simp_all add: run_writes_def)

lemma run_upgrade:
  "run_writes (upgrade_writes idx s t cs) s =
     update_gate idx (\<lambda>g. g\<lparr>gi_type := t\<rparr>) (update_gate idx (\<lambda>g. g\<lparr>nb_children := length cs mod 2 ^ 32\<rparr>)
       (update_gate idx (\<lambda>g. g\<lparr>children_idx := length (m_wires s)\<rparr>) (s\<lparr>m_wires := m_wires s @ cs\<rparr>)))"
  by (simp add: upgrade_writes_def run_wires)

definition m_getGateType :: "store \<Rightarrow> pg_uuid \<Rightarrow> gate_type option" where
  "m_getGateType s token = map_option (\<lambda>idx.
     if idx = NOTHING then gate_input else gi_type (m_gates s ! unat idx)) (index_of s token)"

definition m_getChildren :: "store \<Rightarrow> pg_uuid \<Rightarrow> pg_uuid list option" where
  "m_getChildren s token = map_option (\<lambda>idx.
     if idx \<noteq> NOTHING then
       (let gi = m_gates s ! unat idx in map (\<lambda>k. m_wires s ! k) [children_idx gi ..< children_idx gi + nb_children gi])
     else []) (index_of s token)"

definition carriesProb :: "gate_type \<Rightarrow> bool" where
  "carriesProb t \<longleftrightarrow> t = gate_input \<or> t = gate_update \<or> t = gate_mulinput"

definition hasProbAt :: "store \<Rightarrow> nat \<Rightarrow> bool" where
  "hasProbAt s idx = (case gi_prob (m_gates s ! idx) of
     None \<Rightarrow> False
   | Some p \<Rightarrow> \<not> (gates_version s < 2 \<and> p = 1))"

datatype set_prob_result = NotProbGate | Written | Unchanged | AlreadySet "real option"

definition m_setProb :: "store \<Rightarrow> pg_uuid \<Rightarrow> real option \<Rightarrow> (set_prob_result \<times> store) option" where
  "m_setProb s token p = Option.bind (index_of s token) (\<lambda>found.
     let idx = (if found = NOTHING then length (m_gates s) else unat found) in
     Option.bind (if found = NOTHING then appendGate s token gate_input [] else Some s) (\<lambda>s.
       Some (if \<not> carriesProb (gi_type (m_gates s ! idx)) then (NotProbGate, s)
             else if p = None then (Written, update_gate idx (\<lambda>g. g\<lparr>gi_prob := None\<rparr>) s)
             else if \<not> hasProbAt s idx then (Written, update_gate idx (\<lambda>g. g\<lparr>gi_prob := p\<rparr>) s)
             else if gi_prob (m_gates s ! idx) = p then (Unchanged, s)
             else (AlreadySet (gi_prob (m_gates s ! idx)), s))))"

definition m_getProb :: "store \<Rightarrow> pg_uuid \<Rightarrow> real option option" where
  "m_getProb s token = map_option (\<lambda>idx.
     if idx = NOTHING \<or> \<not> carriesProb (gi_type (m_gates s ! unat idx)) then None
     else (let g = m_gates s ! unat idx in case gi_prob g of
       Some p \<Rightarrow> Some p
     | None \<Rightarrow> if gi_type g = gate_mulinput \<and> info2 g > 0 then Some (1 / real (info2 g)) else Some 1)) (index_of s token)"

definition m_hasProb :: "store \<Rightarrow> pg_uuid \<Rightarrow> real option option" where
  "m_hasProb s token = map_option (\<lambda>idx.
     if idx = NOTHING \<or> \<not> carriesProb (gi_type (m_gates s ! unat idx)) then None
     else if \<not> hasProbAt s (unat idx) then None
     else gi_prob (m_gates s ! unat idx)) (index_of s token)"

datatype 'a set_annotation_result = NoSuchGate | AnnWritten | AnnUnchanged | AnnAlreadySet 'a

definition m_setInfos :: "store \<Rightarrow> pg_uuid \<Rightarrow> nat \<Rightarrow> nat \<Rightarrow> ((nat \<times> nat) set_annotation_result \<times> store) option" where
  "m_setInfos s token i1 i2 = map_option (\<lambda>idx.
     if idx = NOTHING then (NoSuchGate, s)
     else (let gi = m_gates s ! unat idx in
       if (i1 \<noteq> 0 \<and> info1 gi \<noteq> 0 \<and> info1 gi \<noteq> i1) \<or> (i2 \<noteq> 0 \<and> info2 gi \<noteq> 0 \<and> info2 gi \<noteq> i2)
       then (AnnAlreadySet (info1 gi, info2 gi), s)
       else (let w1 = (if i1 \<noteq> 0 then i1 else info1 gi); w2 = (if i2 \<noteq> 0 then i2 else info2 gi) in
         if w1 = info1 gi \<and> w2 = info2 gi then (AnnUnchanged, s)
         else (AnnWritten, update_gate (unat idx) (\<lambda>g. g\<lparr>info1 := w1, info2 := w2\<rparr>) s)))) (index_of s token)"

definition m_getInfos :: "store \<Rightarrow> pg_uuid \<Rightarrow> (nat \<times> nat) option" where
  "m_getInfos s token = map_option (\<lambda>idx.
     if idx = NOTHING then (0, 0) else (let gi = m_gates s ! unat idx in (info1 gi, info2 gi))) (index_of s token)"

definition m_getExtra :: "store \<Rightarrow> pg_uuid \<Rightarrow> string option" where
  "m_getExtra s token = map_option (\<lambda>idx.
     if idx \<noteq> NOTHING then
       (let gi = m_gates s ! unat idx in map (\<lambda>k. m_extra s ! k) [extra_idx gi ..< extra_idx gi + extra_len gi])
     else []) (index_of s token)"

definition m_setExtra :: "store \<Rightarrow> pg_uuid \<Rightarrow> string \<Rightarrow> (string set_annotation_result \<times> store) option" where
  "m_setExtra s token str = Option.bind (index_of s token) (\<lambda>idx.
     if idx = NOTHING then Some (NoSuchGate, s)
     else (let g = m_gates s ! unat idx in
       if extra_len g = length str \<and> (\<forall>k < length str. m_extra s ! (extra_idx g + k) = str ! k) then Some (AnnUnchanged, s)
       else if extra_len g > 0 then map_option (\<lambda>e. (AnnAlreadySet e, s)) (m_getExtra s token)
       else (let start = length (m_extra s);
                 s = update_gate (unat idx) (\<lambda>g. g\<lparr>extra_idx := start\<rparr>) s;
                 s = s\<lparr>m_extra := m_extra s @ str\<rparr>;
                 s = update_gate (unat idx) (\<lambda>g. g\<lparr>extra_len := length str mod 2 ^ 32\<rparr>) s
             in Some (AnnWritten, s))))"


section \<open>What a store says: the finite map it refines\<close>

record facts =
  f_type :: gate_type
  f_children :: "pg_uuid list"
  f_prob :: "real option"
  f_infos :: "nat \<times> nat"
  f_extra :: string

definition slice :: "nat \<Rightarrow> nat \<Rightarrow> 'a list \<Rightarrow> 'a list" where
  "slice i n xs = take n (drop i xs)"

definition facts_at :: "store \<Rightarrow> nat \<Rightarrow> facts" where
  "facts_at s i = (let g = m_gates s ! i in
     \<lparr>f_type = gi_type g, f_children = slice (children_idx g) (nb_children g) (m_wires s), f_prob = gi_prob g,
      f_infos = (info1 g, info2 g), f_extra = slice (extra_idx g) (extra_len g) (m_extra s)\<rparr>)"

definition view :: "store \<Rightarrow> pg_uuid \<rightharpoonup> facts" where
  "view s token = map_option (\<lambda>w. facts_at s (unat w)) (table_map (mapping s) token)"

text \<open>The records index into the two vectors; the tokens are the records, in order; every child has a gate.\<close>

definition gate_ranges :: "store \<Rightarrow> bool" where
  "gate_ranges s \<longleftrightarrow> (\<forall>g \<in> set (m_gates s).
     children_idx g + nb_children g \<le> length (m_wires s) \<and> extra_idx g + extra_len g \<le> length (m_extra s))"

definition store_tokens :: "store \<Rightarrow> pg_uuid list \<Rightarrow> bool" where
  "store_tokens s ts \<longleftrightarrow> numbers (mapping s) ts \<and> length ts = length (m_gates s) \<and> gate_ranges s"

definition store_ok :: "store \<Rightarrow> bool" where
  "store_ok s \<longleftrightarrow> (\<exists>ts. store_tokens s ts \<and> set (m_wires s) \<subseteq> set ts \<and> length ts \<le> 2 ^ 29)"

lemma map_nth_slice: "i + n \<le> length xs \<Longrightarrow> map (\<lambda>k. xs ! k) [i ..< i + n] = slice i n xs"
  by (rule nth_equalityI) (auto simp: slice_def)

lemma slice_append: "i + n \<le> length xs \<Longrightarrow> slice i n (xs @ ys) = slice i n xs"
  by (simp add: slice_def)

lemma slice_end: "slice (length xs) (length ys) (xs @ ys) = ys" "slice i 0 xs = []"
  by (simp_all add: slice_def)

lemma length_slice: "i + n \<le> length xs \<Longrightarrow> length (slice i n xs) = n"
  by (simp add: slice_def)

lemma tokens_index:
  assumes "store_tokens s ts" "length ts \<le> 2 ^ 29"
  shows "token \<in> set ts \<Longrightarrow> index_of s token = Some (word_of_nat (position ts token)) \<and>
      (word_of_nat (position ts token) :: 64 word) \<noteq> NOTHING \<and>
      unat (word_of_nat (position ts token) :: 64 word) = position ts token \<and>
      position ts token < length (m_gates s) \<and> view s token = Some (facts_at s (position ts token))"
    "token \<notin> set ts \<Longrightarrow> index_of s token = Some NOTHING \<and> view s token = None"
proof -
  have n: "numbers (mapping s) ts" and l: "length ts = length (m_gates s)" using assms(1) by (auto simp: store_tokens_def)
  have look: "index_of s token = Some (case table_map (mapping s) token of Some v \<Rightarrow> v | None \<Rightarrow> NOTHING)"
    using n lookup_correct by (simp add: numbers_def)
  { assume t: "token \<in> set ts"
    have p: "position ts token < length ts" using position_nth[OF t] by simp
    then have "position ts token < 2 ^ 63" using assms(2) by simp
    from small_word[OF this] show "index_of s token = Some (word_of_nat (position ts token)) \<and>
        (word_of_nat (position ts token) :: 64 word) \<noteq> NOTHING \<and>
        unat (word_of_nat (position ts token) :: 64 word) = position ts token \<and>
        position ts token < length (m_gates s) \<and> view s token = Some (facts_at s (position ts token))"
      using n t look p l by (simp add: numbers_def view_def) }
  { assume "token \<notin> set ts"
    then show "index_of s token = Some NOTHING \<and> view s token = None"
      using n look by (simp add: numbers_def view_def) }
qed

lemma gate_rangesD:
  assumes "gate_ranges s" "i < length (m_gates s)"
  shows "children_idx (m_gates s ! i) + nb_children (m_gates s ! i) \<le> length (m_wires s)"
    "extra_idx (m_gates s ! i) + extra_len (m_gates s ! i) \<le> length (m_extra s)"
  using assms nth_mem[OF assms(2)] unfolding gate_ranges_def by blast+

lemma dom_view: "store_tokens s ts \<Longrightarrow> dom (view s) = set ts"
  by (auto simp: view_def store_tokens_def numbers_def dom_def)

section \<open>The look-ups answer from the map\<close>

definition prob_facts :: "facts \<Rightarrow> real option" where
  "prob_facts f = (if \<not> carriesProb (f_type f) then None
     else case f_prob f of Some p \<Rightarrow> Some p
       | None \<Rightarrow> if f_type f = gate_mulinput \<and> snd (f_infos f) > 0 then Some (1 / real (snd (f_infos f))) else Some 1)"

definition written_prob :: "nat \<Rightarrow> facts \<Rightarrow> real option" where
  "written_prob version f = (if carriesProb (f_type f) \<and> \<not> (version < 2 \<and> f_prob f = Some 1) then f_prob f else None)"

lemma store_okE:
  assumes "store_ok s"
  obtains ts where "store_tokens s ts" "length ts \<le> 2 ^ 29" "set (m_wires s) \<subseteq> set ts" "gate_ranges s"
  using assms unfolding store_ok_def store_tokens_def by blast

text \<open>every look-up in a store returns, and answers from the map the store refines: the type, the
  children, the probability an evaluation uses, the probability that was written, the annotations; for a
  token without a gate it answers an input without children, no probability, no annotation.
\<close>

theorem lookups_correct:
  assumes "store_ok s"
  shows "m_getGateType s u = Some (case view s u of Some f \<Rightarrow> f_type f | None \<Rightarrow> gate_input) \<and>
    m_getChildren s u = Some (case view s u of Some f \<Rightarrow> f_children f | None \<Rightarrow> []) \<and>
    m_getProb s u = Some (Option.bind (view s u) prob_facts) \<and>
    m_hasProb s u = Some (Option.bind (view s u) (written_prob (gates_version s))) \<and>
    m_getInfos s u = Some (case view s u of Some f \<Rightarrow> f_infos f | None \<Rightarrow> (0, 0)) \<and>
    m_getExtra s u = Some (case view s u of Some f \<Rightarrow> f_extra f | None \<Rightarrow> [])"
proof -
  obtain ts where ts: "store_tokens s ts" "length ts \<le> 2 ^ 29" "gate_ranges s" using assms by (rule store_okE)
  show ?thesis
  proof (cases "u \<in> set ts")
    case True
    note i = tokens_index(1)[OF ts(1,2) True]
    then have p: "position ts u < length (m_gates s)" by blast
    note r = gate_rangesD[OF ts(3) p]
    show ?thesis using i r
      by (simp add: m_getGateType_def m_getChildren_def m_getProb_def m_hasProb_def m_getInfos_def m_getExtra_def
          facts_at_def Let_def map_nth_slice prob_facts_def written_prob_def hasProbAt_def split: option.splits) auto
  next
    case False
    from tokens_index(2)[OF ts(1,2) False] show ?thesis
      by (simp add: m_getGateType_def m_getChildren_def m_getProb_def m_hasProb_def m_getInfos_def m_getExtra_def)
  qed
qed

section \<open>Creating gates\<close>

definition fresh_facts :: "gate_type \<Rightarrow> pg_uuid list \<Rightarrow> facts" where
  "fresh_facts t cs = \<lparr>f_type = t, f_children = cs, f_prob = None, f_infos = (0, 0), f_extra = []\<rparr>"

text \<open>The specification: missing children become inputs; the first real creation of a token counts.\<close>

definition touch :: "pg_uuid list \<Rightarrow> (pg_uuid \<rightharpoonup> facts) \<Rightarrow> pg_uuid \<rightharpoonup> facts" where
  "touch cs M = (\<lambda>u. if M u = None \<and> u \<in> set cs then Some (fresh_facts gate_input []) else M u)"

definition is_placeholder :: "facts \<Rightarrow> bool" where
  "is_placeholder f \<longleftrightarrow> f_type f = gate_input \<and> f_children f = []"

definition create_spec :: "pg_uuid \<Rightarrow> gate_type \<Rightarrow> pg_uuid list \<Rightarrow> (pg_uuid \<rightharpoonup> facts) \<Rightarrow> pg_uuid \<rightharpoonup> facts" where
  "create_spec u t cs M = (case M u of
     None \<Rightarrow> touch cs (M(u \<mapsto> fresh_facts t cs))
   | Some f \<Rightarrow> if is_placeholder f \<and> (t \<noteq> gate_input \<or> cs \<noteq> [])
       then touch cs (M(u \<mapsto> f\<lparr>f_type := t, f_children := cs\<rparr>)) else M)"

lemma facts_at_same:
  assumes "m_gates s' ! i = m_gates s ! i" "gate_ranges s" "i < length (m_gates s)"
    and "m_wires s' = m_wires s @ ws" "m_extra s' = m_extra s @ es"
  shows "facts_at s' i = facts_at s i"
  using gate_rangesD[OF assms(2,3)] assms(1,4,5) by (simp add: facts_at_def Let_def slice_append)

lemma view_positions:
  assumes "store_tokens s ts" "length ts \<le> 2 ^ 29"
  shows "view s = (\<lambda>u. if u \<in> set ts then Some (facts_at s (position ts u)) else None)"
  using tokens_index[OF assms] by (auto simp: fun_eq_iff)

lemma appendGate_correct:
  assumes ts: "store_tokens s ts" and u: "u \<notin> set ts" and n: "length ts < 2 ^ 29" and cs: "length cs < 2 ^ 32"
  shows "\<exists>s'. appendGate s u t cs = Some s' \<and> store_tokens s' (ts @ [u]) \<and>
    m_wires s' = m_wires s @ cs \<and> gates_version s' = gates_version s \<and> view s' = (view s)(u \<mapsto> fresh_facts t cs)"
proof -
  have num: "numbers (mapping s) ts" and l: "length (m_gates s) = length ts" and r: "gate_ranges s"
    using ts by (auto simp: store_tokens_def)
  obtain m where m: "publish (mapping s) u (word_of_nat (length ts)) = Some ((word_of_nat (length ts), True), m)"
      "numbers m (ts @ [u])" using publish_numbers[OF num u n] by blast
  let ?g = "gate_information t (length cs) (length (m_wires s))"
  let ?s = "s\<lparr>m_wires := m_wires s @ cs, m_gates := m_gates s @ [?g], mapping := m\<rparr>"
  have s': "appendGate s u t cs = Some ?s" using m(1) l cs by (simp add: appendGate_def)
  have ok: "store_tokens ?s (ts @ [u])"
    using m(2) l r by (fastforce simp: store_tokens_def gate_ranges_def gate_information_def)
  have old: "facts_at ?s i = facts_at s i" if "i < length ts" for i
    by (rule facts_at_same[of _ _ s cs "[]"]) (use that l r in \<open>simp_all add: nth_append\<close>)
  have new: "facts_at ?s (length ts) = fresh_facts t cs"
    using l by (simp add: facts_at_def gate_information_def fresh_facts_def slice_end nth_append flip: l)
  have le: "length (ts @ [u]) \<le> 2 ^ 29" using n by simp
  have "view ?s = (view s)(u \<mapsto> fresh_facts t cs)"
    unfolding view_positions[OF ok le] view_positions[OF ts less_imp_le[OF n]]
    using u old new position_nth[of _ ts] by (auto simp: fun_eq_iff position_append)
  then show ?thesis using s' ok by auto
qed

lemma append_missing_correct:
  assumes "store_tokens s ts" "length ts + length cs \<le> 2 ^ 29"
  shows "\<exists>s' ts'. append_missing s cs = Some s' \<and> store_tokens s' ts' \<and> set ts' = set ts \<union> set cs \<and>
    length ts' \<le> length ts + length cs \<and> m_wires s' = m_wires s \<and> gates_version s' = gates_version s \<and>
    view s' = touch cs (view s)"
  using assms
proof (induction cs arbitrary: s ts)
  case Nil
  then show ?case by (intro exI[of _ s] exI[of _ ts]) (simp add: touch_def)
next
  case (Cons c cs)
  have le: "length ts \<le> 2 ^ 29" using Cons.prems(2) by simp
  show ?case
  proof (cases "c \<in> set ts")
    case True
    note i = tokens_index(1)[OF Cons.prems(1) le True]
    obtain s' ts' where s': "append_missing s cs = Some s'" "store_tokens s' ts'" "set ts' = set ts \<union> set cs"
        "length ts' \<le> length ts + length cs" "m_wires s' = m_wires s" "gates_version s' = gates_version s"
        "view s' = touch cs (view s)"
      using Cons.IH[OF Cons.prems(1)] Cons.prems(2) by auto
    have "touch (c # cs) (view s) = touch cs (view s)" using i by (auto simp: touch_def fun_eq_iff)
    then show ?thesis using s' i True by (intro exI[of _ s'] exI[of _ ts']) auto
  next
    case False
    note i = tokens_index(2)[OF Cons.prems(1) le False]
    have lt: "length ts < 2 ^ 29" using Cons.prems(2) by simp
    obtain s1 where s1: "appendGate s c gate_input [] = Some s1" "store_tokens s1 (ts @ [c])"
        "m_wires s1 = m_wires s" "gates_version s1 = gates_version s" "view s1 = (view s)(c \<mapsto> fresh_facts gate_input [])"
      using appendGate_correct[OF Cons.prems(1) False lt, of "[]" gate_input] by auto
    obtain s' ts' where s': "append_missing s1 cs = Some s'" "store_tokens s' ts'" "set ts' = set (ts @ [c]) \<union> set cs"
        "length ts' \<le> length (ts @ [c]) + length cs" "m_wires s' = m_wires s1" "gates_version s' = gates_version s1"
        "view s' = touch cs (view s1)"
      using Cons.IH[OF s1(2)] Cons.prems(2) by auto
    have "touch (c # cs) (view s) = touch cs (view s1)" using s1(5) i by (auto simp: touch_def fun_eq_iff)
    then show ?thesis using s' s1 i by (intro exI[of _ s'] exI[of _ ts']) auto
  qed
qed

text \<open>An update of one record that keeps it within the vectors.\<close>

lemma update_gate_tokens:
  assumes ts: "store_tokens s ts" and i: "i < length ts"
    and g: "children_idx (f (m_gates s ! i)) + nb_children (f (m_gates s ! i)) \<le> length (m_wires s)"
      "extra_idx (f (m_gates s ! i)) + extra_len (f (m_gates s ! i)) \<le> length (m_extra s)"
  shows "store_tokens (update_gate i f s) ts"
  using ts i g set_update_subset_insert[of "m_gates s" i "f (m_gates s ! i)"]
  by (auto simp: store_tokens_def gate_ranges_def update_gate_def)

lemma update_gate_view:
  assumes ts: "store_tokens s ts" and le: "length ts \<le> 2 ^ 29" and u: "u \<in> set ts"
    and ok: "store_tokens (update_gate (position ts u) f s) ts"
  shows "view (update_gate (position ts u) f s) =
    (view s)(u \<mapsto> facts_at (update_gate (position ts u) f s) (position ts u))"
proof
  fix w
  have "facts_at (update_gate (position ts u) f s) (position ts w) = facts_at s (position ts w)" if "w \<in> set ts" "w \<noteq> u"
  proof -
    have "position ts w \<noteq> position ts u" using that u position_nth by metis
    then show ?thesis by (simp add: facts_at_def update_gate_def Let_def)
  qed
  then show "view (update_gate (position ts u) f s) w =
      ((view s)(u \<mapsto> facts_at (update_gate (position ts u) f s) (position ts u))) w"
    using u unfolding view_positions[OF ts le] view_positions[OF ok le] by auto
qed

lemma update_gate_twice:
  "i < length (m_gates s) \<Longrightarrow> update_gate i f (update_gate i g s) = update_gate i (\<lambda>x. f (g x)) s"
  by (simp add: update_gate_def)

lemma more_wires:
  assumes "store_tokens s ts" "length ts \<le> 2 ^ 29"
  shows "store_tokens (s\<lparr>m_wires := m_wires s @ cs\<rparr>) ts" "view (s\<lparr>m_wires := m_wires s @ cs\<rparr>) = view s"
proof -
  show ok: "store_tokens (s\<lparr>m_wires := m_wires s @ cs\<rparr>) ts"
    using assms(1) by (fastforce simp: store_tokens_def gate_ranges_def)
  have "facts_at (s\<lparr>m_wires := m_wires s @ cs\<rparr>) i = facts_at s i" if "i < length ts" for i
    by (rule facts_at_same[of _ _ s cs "[]"]) (use that assms(1) in \<open>simp_all add: store_tokens_def\<close>)
  then show "view (s\<lparr>m_wires := m_wires s @ cs\<rparr>) = view s"
    unfolding view_positions[OF ok assms(2)] view_positions[OF assms] using position_nth[of _ ts]
    by (auto simp: fun_eq_iff)
qed

lemma more_extra:
  assumes "store_tokens s ts" "length ts \<le> 2 ^ 29"
  shows "store_tokens (s\<lparr>m_extra := m_extra s @ es\<rparr>) ts" "view (s\<lparr>m_extra := m_extra s @ es\<rparr>) = view s"
proof -
  show ok: "store_tokens (s\<lparr>m_extra := m_extra s @ es\<rparr>) ts"
    using assms(1) by (fastforce simp: store_tokens_def gate_ranges_def)
  have "facts_at (s\<lparr>m_extra := m_extra s @ es\<rparr>) i = facts_at s i" if "i < length ts" for i
    by (rule facts_at_same[of _ _ s "[]" es]) (use that assms(1) in \<open>simp_all add: store_tokens_def\<close>)
  then show "view (s\<lparr>m_extra := m_extra s @ es\<rparr>) = view s"
    unfolding view_positions[OF ok assms(2)] view_positions[OF assms] using position_nth[of _ ts]
    by (auto simp: fun_eq_iff)
qed

lemma upgrade_correct:
  fixes s :: store
  assumes ts: "store_tokens s ts" and n: "length ts \<le> 2 ^ 29" and u: "u \<in> set ts" and cs: "length cs < 2 ^ 32"
    and s': "s' = update_gate (position ts u)
      (\<lambda>g. g\<lparr>children_idx := length (m_wires s), nb_children := length cs, gi_type := t\<rparr>) (s\<lparr>m_wires := m_wires s @ cs\<rparr>)"
  shows "store_tokens s' ts" "view s' = (view s)(u \<mapsto> (the (view s u))\<lparr>f_type := t, f_children := cs\<rparr>)"
proof -
  note w = more_wires[OF ts n, of cs]
  have p: "position ts u < length ts" using position_nth[OF u] by simp
  have g: "position ts u < length (m_gates s)" "gate_ranges s" using p ts by (auto simp: store_tokens_def)
  show ok: "store_tokens s' ts"
    unfolding s' by (rule update_gate_tokens[OF w(1) p]) (use gate_rangesD[OF g(2,1)] in simp_all)
  have "facts_at s' (position ts u) = (facts_at s (position ts u))\<lparr>f_type := t, f_children := cs\<rparr>"
    using g(1) unfolding s' by (simp add: facts_at_def update_gate_def Let_def slice_end)
  then show "view s' = (view s)(u \<mapsto> (the (view s u))\<lparr>f_type := t, f_children := cs\<rparr>)"
    using update_gate_view[OF w(1) n u ok[unfolded s'], folded s'] w(2) tokens_index(1)[OF ts n u] by simp
qed

text \<open>This much holds whether or not the children of every gate are known.\<close>

lemma createGate_tokens:
  assumes ts: "store_tokens s ts" "length ts \<le> 2 ^ 29" and room: "length ts + length cs < 2 ^ 29"
  shows "\<exists>s' ts'. createGate s u t cs = Some s' \<and> store_tokens s' ts' \<and> view s' = create_spec u t cs (view s) \<and>
    length ts' \<le> length ts + length cs + 1 \<and> set ts \<subseteq> set ts' \<and> set (m_wires s') \<subseteq> set (m_wires s) \<union> set ts'"
proof -
  have cs: "length cs < 2 ^ 32" using room by simp
  show ?thesis
  proof (cases "u \<in> set ts")
    case False
    note i = tokens_index(2)[OF ts(1,2) False]
    obtain s1 where s1: "appendGate s u t cs = Some s1" "store_tokens s1 (ts @ [u])"
        "m_wires s1 = m_wires s @ cs" "view s1 = (view s)(u \<mapsto> fresh_facts t cs)"
      using appendGate_correct[OF ts(1) False _ cs, of t] room by auto
    obtain s' ts' where s': "append_missing s1 cs = Some s'" "store_tokens s' ts'" "set ts' = set (ts @ [u]) \<union> set cs"
        "length ts' \<le> length (ts @ [u]) + length cs" "m_wires s' = m_wires s1" "view s' = touch cs (view s1)"
      using append_missing_correct[OF s1(2), of cs] room by auto
    then show ?thesis using s1(1,3,4) i by (intro exI[of _ s'] exI[of _ ts']) (auto simp: createGate_def create_spec_def)
  next
    case True
    note i = tokens_index(1)[OF ts(1,2) True]
    let ?p = "position ts u"
    let ?g = "m_gates s ! ?p"
    have p: "?p < length (m_gates s)" using i by blast
    have r: "gate_ranges s" using ts(1) by (simp add: store_tokens_def)
    have nc: "nb_children ?g = 0 \<longleftrightarrow> f_children (facts_at s ?p) = []"
      using length_slice[OF gate_rangesD(1)[OF r p]] by (auto simp: facts_at_def Let_def simp flip: length_0_conv)
    have ph: "(gi_type ?g = gate_input \<and> nb_children ?g = 0) = is_placeholder (facts_at s ?p)"
      using nc by (simp add: is_placeholder_def facts_at_def Let_def)
    show ?thesis
    proof (cases "is_placeholder (facts_at s ?p) \<and> (t \<noteq> gate_input \<or> cs \<noteq> [])")
      case False
      then have "createGate s u t cs = Some s" "create_spec u t cs (view s) = view s"
        using i ph by (auto simp: createGate_def create_spec_def Let_def)
      then show ?thesis using ts(1) by auto
    next
      case up: True
      define s1 where "s1 = update_gate ?p
        (\<lambda>g. g\<lparr>children_idx := length (m_wires s), nb_children := length cs, gi_type := t\<rparr>) (s\<lparr>m_wires := m_wires s @ cs\<rparr>)"
      note u1 = upgrade_correct[OF ts(1,2) True cs s1_def]
      have c: "createGate s u t cs = append_missing s1 cs"
        using i ph up cs p by (auto simp: createGate_def Let_def run_upgrade update_gate_twice s1_def)
      obtain s' ts' where s': "append_missing s1 cs = Some s'" "store_tokens s' ts'" "set ts' = set ts \<union> set cs"
          "length ts' \<le> length ts + length cs" "m_wires s' = m_wires s1" "view s' = touch cs (view s1)"
        using append_missing_correct[OF u1(1), of cs] room by auto
      have "m_wires s1 = m_wires s @ cs" by (simp add: s1_def update_gate_def)
      then show ?thesis using s' c i up u1(2) by (intro exI[of _ s'] exI[of _ ts']) (auto simp: create_spec_def)
    qed
  qed
qed

lemma createGate_run:
  assumes ok: "store_ok s" and room: "length (m_gates s) + length cs < 2 ^ 29"
  shows "\<exists>s'. createGate s u t cs = Some s' \<and> store_ok s' \<and> view s' = create_spec u t cs (view s) \<and>
    length (m_gates s') \<le> length (m_gates s) + length cs + 1"
proof -
  obtain ts where ts: "store_tokens s ts" "length ts \<le> 2 ^ 29" "set (m_wires s) \<subseteq> set ts" using ok by (rule store_okE)
  have l: "length (m_gates s) = length ts" using ts(1) by (simp add: store_tokens_def)
  obtain s' ts' where s': "createGate s u t cs = Some s'" "store_tokens s' ts'" "view s' = create_spec u t cs (view s)"
      "length ts' \<le> length ts + length cs + 1" "set ts \<subseteq> set ts'" "set (m_wires s') \<subseteq> set (m_wires s) \<union> set ts'"
    using createGate_tokens[OF ts(1,2), of cs u t] room l by auto
  have "store_ok s'" unfolding store_ok_def by (rule exI[of _ ts']) (use s' ts(3) room l in auto)
  moreover have "length (m_gates s') = length ts'" using s'(2) by (simp add: store_tokens_def)
  ultimately show ?thesis using s' l by auto
qed

text \<open>C17: creating a gate always returns and does on the map what the specification says: an unknown token gets
  its gate, a placeholder left by a parent that was created first is upgraded and keeps what was recorded on it,
  any other known token is left alone, and the children not known yet become inputs.
\<close>

theorem createGate_refines:
  assumes ok: "store_ok s" and room: "length (m_gates s) + length cs < 2 ^ 29"
  shows "\<exists>s'. createGate s u t cs = Some s' \<and> store_ok s' \<and> view s' = create_spec u t cs (view s) \<and>
    length (m_gates s') \<le> length (m_gates s) + length cs + 1"
  using assms by (rule createGate_run)

lemma new_store_ok: "store_ok new_store" "view new_store = Map.empty"
  by (auto simp: store_ok_def store_tokens_def new_store_def numbers_new_table gate_ranges_def view_def new_table_ok
      intro!: exI[of _ "[]"])

lemma createGate_refines_witness:
  "\<exists>s. createGate new_store (1, 1) gate_plus [(2, 2), (3, 3)] = Some s \<and> store_ok s \<and>
    view s (1, 1) = Some (fresh_facts gate_plus [(2, 2), (3, 3)]) \<and> view s (2, 2) = Some (fresh_facts gate_input [])"
  using createGate_refines[OF new_store_ok(1), of "[(2, 2), (3, 3)]" "(1, 1)" gate_plus]
  by (auto simp: new_store_def new_store_ok(2)[unfolded new_store_def] create_spec_def touch_def)

section \<open>Creations in any order\<close>

type_synonym creation = "pg_uuid \<times> gate_type \<times> pg_uuid list"

fun create_all :: "creation list \<Rightarrow> store \<Rightarrow> store option" where
  "create_all [] s = Some s"
| "create_all ((u, t, cs) # ops) s = Option.bind (createGate s u t cs) (create_all ops)"

definition creation_size :: "creation list \<Rightarrow> nat" where
  "creation_size ops = sum_list (map (\<lambda>(u, t, cs). length cs + 1) ops)"

definition creation_spec :: "creation \<Rightarrow> (pg_uuid \<rightharpoonup> facts) \<Rightarrow> pg_uuid \<rightharpoonup> facts" where
  "creation_spec c = (case c of (u, t, cs) \<Rightarrow> create_spec u t cs)"

lemma creation_spec_apply [simp]: "creation_spec (u, t, cs) = create_spec u t cs"
  by (simp add: creation_spec_def)

lemma create_all_refines:
  assumes "store_ok s" "length (m_gates s) + creation_size ops < 2 ^ 29"
  shows "\<exists>s'. create_all ops s = Some s' \<and> store_ok s' \<and> view s' = fold creation_spec ops (view s) \<and>
    length (m_gates s') \<le> length (m_gates s) + creation_size ops"
  using assms
proof (induction ops arbitrary: s)
  case (Cons c ops)
  obtain u t cs where c: "c = (u, t, cs)" by (cases c)
  have sz: "creation_size (c # ops) = length cs + 1 + creation_size ops" by (simp add: creation_size_def c)
  obtain s1 where s1: "createGate s u t cs = Some s1" "store_ok s1" "view s1 = create_spec u t cs (view s)"
      "length (m_gates s1) \<le> length (m_gates s) + length cs + 1"
    using createGate_run[OF Cons.prems(1), of cs u t] Cons.prems(2) sz by auto
  obtain s' where "create_all ops s1 = Some s'" "store_ok s'" "view s' = fold creation_spec ops (view s1)"
      "length (m_gates s') \<le> length (m_gates s1) + creation_size ops"
    using Cons.IH[OF s1(2)] Cons.prems(2) s1(4) sz by auto
  then show ?case using s1 sz by (intro exI[of _ s']) (simp add: c)
qed (simp add: creation_size_def)

text \<open>What a creation does at one token.\<close>

definition create_at :: "gate_type \<Rightarrow> pg_uuid list \<Rightarrow> facts option \<Rightarrow> facts option" where
  "create_at t cs m = (case m of None \<Rightarrow> Some (fresh_facts t cs)
   | Some f \<Rightarrow> Some (if is_placeholder f \<and> (t \<noteq> gate_input \<or> cs \<noteq> []) then f\<lparr>f_type := t, f_children := cs\<rparr> else f))"

definition create_fires :: "gate_type \<Rightarrow> pg_uuid list \<Rightarrow> facts option \<Rightarrow> bool" where
  "create_fires t cs m \<longleftrightarrow> (case m of None \<Rightarrow> True | Some f \<Rightarrow> is_placeholder f \<and> (t \<noteq> gate_input \<or> cs \<noteq> []))"

definition touch_at :: "bool \<Rightarrow> facts option \<Rightarrow> facts option" where
  "touch_at b m = (if b \<and> m = None then Some (fresh_facts gate_input []) else m)"

lemma create_spec_at:
  "create_spec u t cs M w = (if w = u then create_at t cs (M u) else touch_at (create_fires t cs (M u) \<and> w \<in> set cs) (M w))"
  by (auto simp: create_spec_def create_at_def create_fires_def touch_at_def touch_def split: option.splits)

lemma create_at_touch: "create_fires t cs (touch_at b m) \<and> w \<in> set cs \<longleftrightarrow> create_fires t cs m \<and> w \<in> set cs"
  "create_at t cs (touch_at b m) = create_at t cs m"
  by (auto simp: create_fires_def create_at_def touch_at_def is_placeholder_def fresh_facts_def split: option.splits)

lemma touch_at_commute: "touch_at a (touch_at b m) = touch_at b (touch_at a m)"
  by (simp add: touch_at_def)

lemma touch_at_create: "touch_at b (create_at t cs m) = create_at t cs m"
  by (simp add: touch_at_def create_at_def split: option.splits)

lemma create_spec_commute:
  assumes "u \<noteq> v"
  shows "create_spec u t cs (create_spec v t' ds M) = create_spec v t' ds (create_spec u t cs M)"
proof
  fix w
  show "create_spec u t cs (create_spec v t' ds M) w = create_spec v t' ds (create_spec u t cs M) w"
    using assms by (cases "w = u"; cases "w = v") (auto simp: create_spec_at create_at_touch touch_at_create touch_at_commute)
qed

text \<open>C18: the creations of gates with distinct tokens may reach the store in any order, children before or after
  the gates that have them: every order is carried out, and the map of the store at the end is the same.
\<close>

theorem creations_any_order:
  assumes "store_ok s" "length (m_gates s) + creation_size ops < 2 ^ 29" "distinct (map fst ops)" "mset ops' = mset ops"
  shows "\<exists>s1 s2. create_all ops s = Some s1 \<and> create_all ops' s = Some s2 \<and> store_ok s1 \<and> store_ok s2 \<and> view s1 = view s2"
proof -
  have "creation_size ops' = creation_size ops"
    using assms(4) unfolding creation_size_def by (simp flip: sum_mset_sum_list)
  moreover have "fold creation_spec ops (view s) = fold creation_spec ops' (view s)"
  proof (rule fun_cong[OF fold_multiset_equiv])
    show "creation_spec x \<circ> creation_spec y = creation_spec y \<circ> creation_spec x" if "x \<in> set ops" "y \<in> set ops" for x y
    proof (cases "x = y")
      case False
      then have "fst x \<noteq> fst y" using assms(3) that by (auto simp: distinct_map dest: inj_onD)
      then show ?thesis by (cases x; cases y) (simp add: fun_eq_iff create_spec_commute)
    qed simp
  qed (simp add: assms(4))
  ultimately show ?thesis
    using create_all_refines[OF assms(1,2)] create_all_refines[OF assms(1), of ops'] assms(2) by auto
qed

lemma creations_any_order_witness:
  "\<exists>s1 s2. create_all [((1, 1), gate_plus, [(2, 2)]), ((2, 2), gate_times, [(3, 3)])] new_store = Some s1 \<and>
     create_all [((2, 2), gate_times, [(3, 3)]), ((1, 1), gate_plus, [(2, 2)])] new_store = Some s2 \<and> view s1 = view s2"
  using creations_any_order[OF new_store_ok(1), of "[((1, 1), gate_plus, [(2, 2)]), ((2, 2), gate_times, [(3, 3)])]"
      "[((2, 2), gate_times, [(3, 3)]), ((1, 1), gate_plus, [(2, 2)])]"]
  by (auto simp: new_store_def creation_size_def)

section \<open>Annotations, written once\<close>

definition has_prob_facts :: "nat \<Rightarrow> facts \<Rightarrow> bool" where
  "has_prob_facts version f \<longleftrightarrow> f_prob f \<noteq> None \<and> \<not> (version < 2 \<and> f_prob f = Some 1)"

definition set_prob_spec :: "nat \<Rightarrow> pg_uuid \<Rightarrow> real option \<Rightarrow> (pg_uuid \<rightharpoonup> facts) \<Rightarrow> set_prob_result \<times> (pg_uuid \<rightharpoonup> facts)" where
  "set_prob_spec version u p M = (let M = touch [u] M; f = the (M u) in
     if \<not> carriesProb (f_type f) then (NotProbGate, M)
     else if p = None \<or> \<not> has_prob_facts version f then (Written, M(u \<mapsto> f\<lparr>f_prob := p\<rparr>))
     else if f_prob f = p then (Unchanged, M) else (AlreadySet (f_prob f), M))"

definition set_infos_spec :: "pg_uuid \<Rightarrow> nat \<Rightarrow> nat \<Rightarrow> (pg_uuid \<rightharpoonup> facts) \<Rightarrow>
    (nat \<times> nat) set_annotation_result \<times> (pg_uuid \<rightharpoonup> facts)" where
  "set_infos_spec u i1 i2 M = (case M u of
     None \<Rightarrow> (NoSuchGate, M)
   | Some f \<Rightarrow> (case f_infos f of (o1, o2) \<Rightarrow>
       if i1 \<notin> {0, o1} \<and> o1 \<noteq> 0 \<or> i2 \<notin> {0, o2} \<and> o2 \<noteq> 0 then (AnnAlreadySet (o1, o2), M)
       else if i1 \<in> {0, o1} \<and> i2 \<in> {0, o2} then (AnnUnchanged, M)
       else (AnnWritten, M(u \<mapsto> f\<lparr>f_infos := (if i1 = 0 then o1 else i1, if i2 = 0 then o2 else i2)\<rparr>))))"

definition set_extra_spec :: "pg_uuid \<Rightarrow> string \<Rightarrow> (pg_uuid \<rightharpoonup> facts) \<Rightarrow> string set_annotation_result \<times> (pg_uuid \<rightharpoonup> facts)" where
  "set_extra_spec u str M = (case M u of
     None \<Rightarrow> (NoSuchGate, M)
   | Some f \<Rightarrow> if f_extra f = str then (AnnUnchanged, M)
       else if f_extra f \<noteq> [] then (AnnAlreadySet (f_extra f), M)
       else (AnnWritten, M(u \<mapsto> f\<lparr>f_extra := str\<rparr>)))"

lemma annotate_correct:
  assumes ts: "store_tokens s ts" and le: "length ts \<le> 2 ^ 29" and w: "set (m_wires s) \<subseteq> set ts" and u: "u \<in> set ts"
    and f: "\<And>g. children_idx (f g) = children_idx g" "\<And>g. nb_children (f g) = nb_children g"
      "\<And>g. extra_idx (f g) = extra_idx g" "\<And>g. extra_len (f g) = extra_len g" "\<And>g. gi_type (f g) = gi_type g"
  shows "store_ok (update_gate (position ts u) f s)"
    "view (update_gate (position ts u) f s) = (view s)(u \<mapsto> (facts_at s (position ts u))
       \<lparr>f_prob := gi_prob (f (m_gates s ! position ts u)),
        f_infos := (info1 (f (m_gates s ! position ts u)), info2 (f (m_gates s ! position ts u)))\<rparr>)"
proof -
  have p: "position ts u < length ts" using position_nth[OF u] by simp
  have g: "position ts u < length (m_gates s)" "gate_ranges s" using p ts by (auto simp: store_tokens_def)
  have ok: "store_tokens (update_gate (position ts u) f s) ts"
    by (rule update_gate_tokens[OF ts p]) (simp_all add: f gate_rangesD[OF g(2,1)])
  moreover have "set (m_wires (update_gate (position ts u) f s)) \<subseteq> set ts" using w by (simp add: update_gate_def)
  ultimately show "store_ok (update_gate (position ts u) f s)" unfolding store_ok_def using le by blast
  have "facts_at (update_gate (position ts u) f s) (position ts u) = (facts_at s (position ts u))
       \<lparr>f_prob := gi_prob (f (m_gates s ! position ts u)),
        f_infos := (info1 (f (m_gates s ! position ts u)), info2 (f (m_gates s ! position ts u)))\<rparr>"
    using g(1) by (simp add: facts_at_def update_gate_def Let_def f)
  then show "view (update_gate (position ts u) f s) = (view s)(u \<mapsto> (facts_at s (position ts u))
       \<lparr>f_prob := gi_prob (f (m_gates s ! position ts u)),
        f_infos := (info1 (f (m_gates s ! position ts u)), info2 (f (m_gates s ! position ts u)))\<rparr>)"
    using update_gate_view[OF ts le u ok] by simp
qed

lemma hasProbAt_facts: "hasProbAt s i = has_prob_facts (gates_version s) (facts_at s i)"
  by (simp add: hasProbAt_def has_prob_facts_def facts_at_def Let_def split: option.splits)

lemma setProb_known:
  assumes ok: "store_ok s" and u: "view s u \<noteq> None"
  shows "\<exists>r s'. m_setProb s u p = Some (r, s') \<and> store_ok s' \<and> (r, view s') = set_prob_spec (gates_version s) u p (view s) \<and>
    gates_version s' = gates_version s \<and> length (m_gates s') = length (m_gates s)"
proof -
  obtain ts where ts: "store_tokens s ts" "length ts \<le> 2 ^ 29" "set (m_wires s) \<subseteq> set ts" using ok by (rule store_okE)
  have u': "u \<in> set ts" using u dom_view[OF ts(1)] by blast
  note i = tokens_index(1)[OF ts(1,2) u']
  let ?p = "position ts u"
  let ?upd = "update_gate ?p (\<lambda>g. g\<lparr>gi_prob := p\<rparr>) s"
  note a = annotate_correct[OF ts u', of "\<lambda>g. g\<lparr>gi_prob := p\<rparr>"]
  have ann: "store_ok ?upd" "view ?upd = (view s)(u \<mapsto> (facts_at s ?p)\<lparr>f_prob := p\<rparr>)"
    using a by (simp_all add: facts_at_def Let_def)
  have ty: "gi_type (m_gates s ! ?p) = f_type (facts_at s ?p)" "gi_prob (m_gates s ! ?p) = f_prob (facts_at s ?p)"
    by (simp_all add: facts_at_def Let_def)
  have touch: "touch [u] (view s) = view s" using u by (auto simp: touch_def fun_eq_iff)
  have eq: "m_setProb s u p = Some (if \<not> carriesProb (f_type (facts_at s ?p)) then (NotProbGate, s)
      else if p = None \<or> \<not> has_prob_facts (gates_version s) (facts_at s ?p) then (Written, ?upd)
      else if f_prob (facts_at s ?p) = p then (Unchanged, s) else (AlreadySet (f_prob (facts_at s ?p)), s))"
    using i by (simp add: m_setProb_def Let_def hasProbAt_facts ty)
  have upd: "gates_version ?upd = gates_version s" "length (m_gates ?upd) = length (m_gates s)" by (simp_all add: update_gate_def)
  show ?thesis unfolding eq set_prob_spec_def touch Let_def using i ok ann upd by auto
qed

lemma setProb_lazy:
  assumes ok: "store_ok s" and u: "view s u = None" and room: "length (m_gates s) < 2 ^ 29"
  shows "\<exists>s1. store_ok s1 \<and> view s1 = touch [u] (view s) \<and> m_setProb s u p = m_setProb s1 u p \<and>
    gates_version s1 = gates_version s \<and> length (m_gates s1) = length (m_gates s) + 1"
proof -
  obtain ts where ts: "store_tokens s ts" "length ts \<le> 2 ^ 29" "set (m_wires s) \<subseteq> set ts" using ok by (rule store_okE)
  have l: "length (m_gates s) = length ts" using ts(1) by (simp add: store_tokens_def)
  have u': "u \<notin> set ts" using u dom_view[OF ts(1)] by blast
  note i = tokens_index(2)[OF ts(1,2) u']
  obtain s1 where s1: "appendGate s u gate_input [] = Some s1" "store_tokens s1 (ts @ [u])" "m_wires s1 = m_wires s"
      "gates_version s1 = gates_version s" "view s1 = (view s)(u \<mapsto> fresh_facts gate_input [])"
    using appendGate_correct[OF ts(1) u', of "[]" gate_input] room l by auto
  have le: "length (ts @ [u]) \<le> 2 ^ 29" using room l by simp
  have "store_ok s1" unfolding store_ok_def using s1(2,3) ts(3) le by (intro exI[of _ "ts @ [u]"]) auto
  moreover have "m_setProb s u p = m_setProb s1 u p"
    using i tokens_index(1)[OF s1(2) le, of u] s1(1) u' l by (simp add: m_setProb_def position_append)
  moreover have "view s1 = touch [u] (view s)" using s1(5) u by (auto simp: touch_def fun_eq_iff)
  ultimately show ?thesis using s1(2,4) l by (auto simp: store_tokens_def)
qed

lemma setProb_refines:
  assumes ok: "store_ok s" and room: "length (m_gates s) < 2 ^ 29"
  shows "\<exists>r s'. m_setProb s u p = Some (r, s') \<and> store_ok s' \<and> (r, view s') = set_prob_spec (gates_version s) u p (view s) \<and>
    gates_version s' = gates_version s \<and> length (m_gates s') \<le> length (m_gates s) + 1"
proof (cases "view s u = None")
  case True
  obtain s1 where s1: "store_ok s1" "view s1 = touch [u] (view s)" "m_setProb s u p = m_setProb s1 u p"
      "gates_version s1 = gates_version s" "length (m_gates s1) = length (m_gates s) + 1"
    using setProb_lazy[OF ok True room] by blast
  have "view s1 u \<noteq> None" using True by (simp add: s1(2) touch_def)
  moreover have "touch [u] (view s1) = touch [u] (view s)" unfolding s1(2) by (auto simp: touch_def fun_eq_iff)
  ultimately show ?thesis using setProb_known[OF s1(1), of u p] s1(3,4,5) by (auto simp: set_prob_spec_def)
next
  case False
  from setProb_known[OF ok False, of p] show ?thesis by auto
qed

lemma setInfos_refines:
  assumes ok: "store_ok s"
  shows "\<exists>r s'. m_setInfos s u i1 i2 = Some (r, s') \<and> store_ok s' \<and> (r, view s') = set_infos_spec u i1 i2 (view s) \<and>
    gates_version s' = gates_version s \<and> length (m_gates s') = length (m_gates s)"
proof -
  obtain ts where ts: "store_tokens s ts" "length ts \<le> 2 ^ 29" "set (m_wires s) \<subseteq> set ts" using ok by (rule store_okE)
  show ?thesis
  proof (cases "u \<in> set ts")
    case False
    from tokens_index(2)[OF ts(1,2) False] show ?thesis using ok by (simp add: m_setInfos_def set_infos_spec_def)
  next
    case True
    note i = tokens_index(1)[OF ts(1,2) True]
    let ?p = "position ts u"
    obtain o1 o2 where o: "f_infos (facts_at s ?p) = (o1, o2)" by (cases "f_infos (facts_at s ?p)")
    then have g: "info1 (m_gates s ! ?p) = o1" "info2 (m_gates s ! ?p) = o2" by (simp_all add: facts_at_def Let_def)
    let ?w1 = "if i1 \<noteq> 0 then i1 else o1" and ?w2 = "if i2 \<noteq> 0 then i2 else o2"
    let ?upd = "update_gate ?p (\<lambda>g. g\<lparr>info1 := ?w1, info2 := ?w2\<rparr>) s"
    have ann: "store_ok ?upd" "view ?upd = (view s)(u \<mapsto> (facts_at s ?p)\<lparr>f_infos := (?w1, ?w2)\<rparr>)"
      using annotate_correct[OF ts True, of "\<lambda>g. g\<lparr>info1 := ?w1, info2 := ?w2\<rparr>"] by (simp_all add: facts_at_def Let_def)
    have upd: "gates_version ?upd = gates_version s" "length (m_gates ?upd) = length (m_gates s)" by (simp_all add: update_gate_def)
    have eq: "m_setInfos s u i1 i2 = Some (if i1 \<noteq> 0 \<and> o1 \<noteq> 0 \<and> o1 \<noteq> i1 \<or> i2 \<noteq> 0 \<and> o2 \<noteq> 0 \<and> o2 \<noteq> i2
        then (AnnAlreadySet (o1, o2), s) else if ?w1 = o1 \<and> ?w2 = o2 then (AnnUnchanged, s) else (AnnWritten, ?upd))"
      using i by (simp add: m_setInfos_def Let_def g)
    have spec: "set_infos_spec u i1 i2 (view s) = (if i1 \<noteq> 0 \<and> o1 \<noteq> 0 \<and> o1 \<noteq> i1 \<or> i2 \<noteq> 0 \<and> o2 \<noteq> 0 \<and> o2 \<noteq> i2
        then (AnnAlreadySet (o1, o2), view s) else if ?w1 = o1 \<and> ?w2 = o2 then (AnnUnchanged, view s)
        else (AnnWritten, (view s)(u \<mapsto> (facts_at s ?p)\<lparr>f_infos := (?w1, ?w2)\<rparr>)))"
      using i o by (auto simp: set_infos_spec_def)
    show ?thesis unfolding eq spec using ok ann upd by auto
  qed
qed

lemma setExtra_refines:
  assumes ok: "store_ok s" and len: "length str < 2 ^ 32"
  shows "\<exists>r s'. m_setExtra s u str = Some (r, s') \<and> store_ok s' \<and> (r, view s') = set_extra_spec u str (view s) \<and>
    gates_version s' = gates_version s \<and> length (m_gates s') = length (m_gates s)"
proof -
  obtain ts where ts: "store_tokens s ts" "length ts \<le> 2 ^ 29" "set (m_wires s) \<subseteq> set ts" "gate_ranges s"
    using ok by (rule store_okE)
  show ?thesis
  proof (cases "u \<in> set ts")
    case False
    from tokens_index(2)[OF ts(1,2) False] show ?thesis using ok by (simp add: m_setExtra_def set_extra_spec_def)
  next
    case True
    note i = tokens_index(1)[OF ts(1,2) True]
    let ?p = "position ts u"
    let ?g = "m_gates s ! ?p"
    have p: "?p < length (m_gates s)" "?p < length ts" using i ts(1) by (auto simp: store_tokens_def)
    note r = gate_rangesD[OF ts(4) p(1)]
    have fx: "f_extra (facts_at s ?p) = slice (extra_idx ?g) (extra_len ?g) (m_extra s)" by (simp add: facts_at_def Let_def)
    have same: "extra_len ?g = length str \<and> (\<forall>k < length str. m_extra s ! (extra_idx ?g + k) = str ! k) \<longleftrightarrow>
        f_extra (facts_at s ?p) = str"
      using length_slice[OF r(2)] r(2) unfolding fx by (auto simp: list_eq_iff_nth_eq) (auto simp: slice_def)
    have none: "0 < extra_len ?g \<longleftrightarrow> f_extra (facts_at s ?p) \<noteq> []"
      using length_slice[OF r(2)] unfolding fx by (metis length_greater_0_conv)
    have get: "m_getExtra s u = Some (f_extra (facts_at s ?p))"
      using lookups_correct[OF ok, of u] i by simp
    define s' where "s' = update_gate ?p (\<lambda>g. g\<lparr>extra_idx := length (m_extra s), extra_len := length str\<rparr>)
      (s\<lparr>m_extra := m_extra s @ str\<rparr>)"
    have eq: "m_setExtra s u str = Some (if f_extra (facts_at s ?p) = str then (AnnUnchanged, s)
        else if f_extra (facts_at s ?p) \<noteq> [] then (AnnAlreadySet (f_extra (facts_at s ?p)), s) else (AnnWritten, s'))"
    proof -
      have "s' = update_gate ?p (\<lambda>g. g\<lparr>extra_len := length str mod 2 ^ 32\<rparr>)
          ((update_gate ?p (\<lambda>g. g\<lparr>extra_idx := length (m_extra s)\<rparr>) s)\<lparr>m_extra := m_extra s @ str\<rparr>)"
        using len p(1) by (simp add: s'_def update_gate_def)
      then show ?thesis using i same none get by (simp add: m_setExtra_def Let_def update_gate_def)
    qed
    have more: "store_tokens (s\<lparr>m_extra := m_extra s @ str\<rparr>) ts" "view (s\<lparr>m_extra := m_extra s @ str\<rparr>) = view s"
      by (fact more_extra[OF ts(1,2)])+
    have ok': "store_tokens s' ts"
      unfolding s'_def by (rule update_gate_tokens[OF more(1) p(2)]) (use r in simp_all)
    have "facts_at s' ?p = (facts_at s ?p)\<lparr>f_extra := str\<rparr>"
      using p(1) unfolding s'_def by (simp add: facts_at_def update_gate_def Let_def slice_end)
    then have v: "view s' = (view s)(u \<mapsto> (facts_at s ?p)\<lparr>f_extra := str\<rparr>)"
      using update_gate_view[OF more(1) ts(2) True ok'[unfolded s'_def], folded s'_def] more(2) by simp
    have "store_ok s'" unfolding store_ok_def using ok' ts(2,3) by (intro exI[of _ ts]) (simp add: s'_def update_gate_def)
    moreover have "gates_version s' = gates_version s" "length (m_gates s') = length (m_gates s)"
      by (simp_all add: s'_def update_gate_def)
    ultimately show ?thesis unfolding eq using i ok v by (auto simp: set_extra_spec_def)
  qed
qed

section \<open>An upgrade that is interrupted\<close>

text \<open>A record whose children begin at the end of the old wires.\<close>

lemma partial_upgrade:
  fixes s :: store
  assumes ts: "store_tokens s ts" and n: "length ts \<le> 2 ^ 29" and u: "u \<in> set ts" and k: "k \<le> length cs"
    and s': "s' = update_gate (position ts u)
      (\<lambda>g. g\<lparr>children_idx := length (m_wires s), nb_children := k, gi_type := t\<rparr>) (s\<lparr>m_wires := m_wires s @ cs\<rparr>)"
  shows "store_tokens s' ts" "view s' = (view s)(u \<mapsto> (the (view s u))\<lparr>f_type := t, f_children := take k cs\<rparr>)"
proof -
  note w = more_wires[OF ts n, of cs]
  have p: "position ts u < length ts" using position_nth[OF u] by simp
  have g: "position ts u < length (m_gates s)" "gate_ranges s" using p ts by (auto simp: store_tokens_def)
  show ok: "store_tokens s' ts"
    unfolding s' by (rule update_gate_tokens[OF w(1) p]) (use gate_rangesD[OF g(2,1)] k in simp_all)
  have "slice (length (m_wires s)) k (m_wires s @ cs) = take k cs" using k by (simp add: slice_def)
  then have "facts_at s' (position ts u) = (facts_at s (position ts u))\<lparr>f_type := t, f_children := take k cs\<rparr>"
    using g(1) unfolding s' by (simp add: facts_at_def update_gate_def Let_def)
  then show "view s' = (view s)(u \<mapsto> (the (view s u))\<lparr>f_type := t, f_children := take k cs\<rparr>)"
    using update_gate_view[OF w(1) n u ok[unfolded s'], folded s'] w(2) tokens_index(1)[OF ts n u] by simp
qed

text \<open>The store of a worker killed after k of the writes.\<close>

definition killed_upgrade :: "nat \<Rightarrow> nat \<Rightarrow> store \<Rightarrow> gate_type \<Rightarrow> pg_uuid list \<Rightarrow> store" where
  "killed_upgrade k idx s t cs = run_writes (take k (upgrade_writes idx s t cs)) s"

lemma killed_upgrade_view:
  assumes ts: "store_tokens s ts" "length ts \<le> 2 ^ 29" and u: "u \<in> set ts" "is_placeholder (the (view s u))"
    and cs: "length cs < 2 ^ 32" and k: "k \<le> length cs + 3"
  shows "store_tokens (killed_upgrade k (position ts u) s t cs) ts \<and>
    view (killed_upgrade k (position ts u) s t cs) =
      (if k < length cs + 2 then view s
       else (view s)(u \<mapsto> (the (view s u))\<lparr>f_type := if k = length cs + 2 then gate_input else t, f_children := cs\<rparr>))"
proof -
  let ?p = "position ts u" and ?g = "m_gates s ! position ts u" and ?w = "length (m_wires s)"
  let ?s = "s\<lparr>m_wires := m_wires s @ cs\<rparr>"
  note ti = tokens_index(1)[OF ts u(1)]
  have r: "gate_ranges s" and p: "?p < length (m_gates s)" using ts(1) ti by (auto simp: store_tokens_def)
  have ty: "gi_type ?g = gate_input" and nb: "nb_children ?g = 0"
    using u(2) ti length_slice[OF gate_rangesD(1)[OF r p]] by (auto simp: is_placeholder_def facts_at_def Let_def)
  have f: "(the (view s u))\<lparr>f_type := gate_input, f_children := []\<rparr> = the (view s u)"
    using u(2) by (simp add: is_placeholder_def)
  have same: "update_gate ?p g' ?s = update_gate ?p h ?s" if "g' ?g = h ?g" for g' h
    using that by (simp add: update_gate_def)
  consider (wires) "k \<le> length cs" | (idx) "k = length cs + 1" | (children) "k = length cs + 2" | (all) "k = length cs + 3"
    using k by linarith
  then show ?thesis
  proof cases
    case wires
    then have "killed_upgrade k ?p s t cs = s\<lparr>m_wires := m_wires s @ take k cs\<rparr>"
      by (simp add: killed_upgrade_def upgrade_writes_def take_map run_wires)
    then show ?thesis using more_wires[OF ts, of "take k cs"] wires by simp
  next
    case idx
    have "killed_upgrade k ?p s t cs = update_gate ?p (\<lambda>g. g\<lparr>children_idx := ?w\<rparr>) ?s"
      by (simp add: killed_upgrade_def upgrade_writes_def idx run_wires)
    also have "\<dots> = update_gate ?p (\<lambda>g. g\<lparr>children_idx := ?w, nb_children := 0, gi_type := gate_input\<rparr>) ?s"
      by (rule same) (use ty nb in \<open>cases ?g, simp\<close>)
    finally have eq: "killed_upgrade k ?p s t cs = \<dots>" .
    show ?thesis using partial_upgrade[OF ts u(1) _ eq] f idx ti by (simp add: fun_upd_idem)
  next
    case children
    have "killed_upgrade k ?p s t cs = update_gate ?p (\<lambda>g. g\<lparr>children_idx := ?w, nb_children := length cs\<rparr>) ?s"
      using p cs by (simp add: killed_upgrade_def upgrade_writes_def children run_wires update_gate_twice)
    also have "\<dots> = update_gate ?p (\<lambda>g. g\<lparr>children_idx := ?w, nb_children := length cs, gi_type := gate_input\<rparr>) ?s"
      by (rule same) (use ty in \<open>cases ?g, simp\<close>)
    finally have eq: "killed_upgrade k ?p s t cs = \<dots>" .
    show ?thesis using partial_upgrade[OF ts u(1) _ eq] children by simp
  next
    case all
    have eq: "killed_upgrade k ?p s t cs =
        update_gate ?p (\<lambda>g. g\<lparr>children_idx := ?w, nb_children := length cs, gi_type := t\<rparr>) ?s"
      using p cs unfolding killed_upgrade_def upgrade_writes_def all by (simp add: run_wires update_gate_twice)
    show ?thesis using partial_upgrade[OF ts u(1) _ eq] all by simp
  qed
qed

text \<open>A gate that is no placeholder is never changed by creations.\<close>

lemma create_all_keeps:
  assumes "store_tokens s ts" "length ts + creation_size ops < 2 ^ 29" "view s u = Some f" "\<not> is_placeholder f"
  shows "\<exists>s'. create_all ops s = Some s' \<and> view s' u = Some f"
  using assms
proof (induction ops arbitrary: s ts)
  case (Cons c ops)
  obtain v t cs where c: "c = (v, t, cs)" by (cases c)
  have sz: "creation_size (c # ops) = length cs + 1 + creation_size ops" by (simp add: creation_size_def c)
  obtain s1 ts1 where s1: "createGate s v t cs = Some s1" "store_tokens s1 ts1" "view s1 = create_spec v t cs (view s)"
      "length ts1 \<le> length ts + length cs + 1"
    using createGate_tokens[OF Cons.prems(1), of cs v t] Cons.prems(2) sz by auto
  have "view s1 u = Some f"
    using Cons.prems(3,4) s1(3) by (auto simp: create_spec_def touch_def split: option.splits)
  then show ?case using Cons.IH[OF s1(2)] Cons.prems(2,4) s1(1,4) sz c by simp
qed simp

text \<open>C28: when the worker is killed between any two of the writes that upgrade a placeholder, the store says what it
  said before, and so the gate can be created again, except between the last two writes: then the gate is an
  input with children, and it stays one through all the later creations, its own included.\<close>

theorem interrupted_upgrade:
  assumes "store_tokens s ts" "length ts \<le> 2 ^ 29" "u \<in> set ts" "is_placeholder (the (view s u))"
    and "cs \<noteq> []" "length cs < 2 ^ 32" "k \<le> length (upgrade_writes (position ts u) s t cs)"
  shows "view (killed_upgrade k (position ts u) s t cs) =
      (if k < length cs + 2 then view s
       else (view s)(u \<mapsto> (the (view s u))\<lparr>f_type := if k = length cs + 2 then gate_input else t, f_children := cs\<rparr>)) \<and>
    (k = length cs + 2 \<longrightarrow> (\<forall>ops. length ts + creation_size ops < 2 ^ 29 \<longrightarrow>
       (\<exists>s'. create_all ops (killed_upgrade k (position ts u) s t cs) = Some s' \<and>
         view s' u = Some ((the (view s u))\<lparr>f_type := gate_input, f_children := cs\<rparr>))))"
proof -
  have "length (upgrade_writes (position ts u) s t cs) = length cs + 3" by (simp add: upgrade_writes_def)
  with assms(7) have k: "k \<le> length cs + 3" by simp
  note K = killed_upgrade_view[OF assms(1-4,6) k, of t]
  have "\<not> is_placeholder ((the (view s u))\<lparr>f_type := gate_input, f_children := cs\<rparr>)"
    using assms(5) by (simp add: is_placeholder_def)
  then have keeps: "\<exists>s'. create_all ops d = Some s' \<and> view s' u = Some ((the (view s u))\<lparr>f_type := gate_input, f_children := cs\<rparr>)"
    if "store_tokens d ts" "view d u = Some ((the (view s u))\<lparr>f_type := gate_input, f_children := cs\<rparr>)"
      "length ts + creation_size ops < 2 ^ 29" for d ops
    using create_all_keeps[OF that(1,3,2)] by blast
  show ?thesis using K keeps by (intro conjI impI allI) simp_all
qed

lemma interrupted_upgrade_witness:
  "\<exists>s (ts :: pg_uuid list) s'. create_all [((1, 1), gate_plus, [(2, 2)])]
       (killed_upgrade 3 (position ts (1, 1)) s gate_plus [(2, 2)]) = Some s' \<and>
     map_option f_type (view s' (1, 1)) = Some gate_input"
proof -
  have "store_tokens new_store []" by (simp add: store_tokens_def new_store_def numbers_new_table gate_ranges_def)
  then obtain s where s: "store_tokens s [(1, 1)]" "view s = (view new_store)((1, 1) \<mapsto> fresh_facts gate_input [])"
    using appendGate_correct[of new_store "[]" "(1, 1)" "[]" gate_input] by auto
  then have "is_placeholder (the (view s (1, 1)))" by (simp add: is_placeholder_def fresh_facts_def)
  note all = interrupted_upgrade[OF s(1) _ _ this, of "[(2, 2)]" 3 gate_plus]
  have "3 \<le> length (upgrade_writes (position [(1, 1) :: pg_uuid] (1, 1)) s gate_plus [(2, 2)])" by (simp add: upgrade_writes_def)
  from all[OF _ _ _ _ this] have "length [(1, 1) :: pg_uuid] + creation_size ops < 2 ^ 29 \<longrightarrow>
      (\<exists>s'. create_all ops (killed_upgrade 3 (position [(1, 1) :: pg_uuid] (1, 1)) s gate_plus [(2, 2)]) = Some s' \<and>
        view s' (1, 1) = Some ((the (view s (1, 1)))\<lparr>f_type := gate_input, f_children := [(2, 2)]\<rparr>))" for ops
    by auto
  from this[of "[((1, 1), gate_plus, [(2, 2)])]"]
  have "\<exists>s'. create_all [((1, 1), gate_plus, [(2, 2)])] (killed_upgrade 3 (position [(1, 1) :: pg_uuid] (1, 1)) s gate_plus [(2, 2)]) = Some s' \<and>
      map_option f_type (view s' (1, 1)) = Some gate_input"
    by (auto simp: creation_size_def simp del: create_all.simps)
  then show ?thesis by blast
qed

end
