(* ===== verification/CircuitCache.thy ===== *)
theory CircuitCache
  imports Store
begin

text \<open>
  The cache of gates of a backend (\<open>src/CircuitCache.cpp\<close>, \<open>.h\<close>): a sequence of entries with unique tokens,
  the most recently inserted first, bounded in bytes.  The Boost multi-index container is the list of its
  first index; its second index is a look-up by token.  Sizes are those of a 64-bit platform.
\<close>

section \<open>The cache\<close>

record cache_infos =
  c_token :: pg_uuid
  c_type :: gate_type
  c_children :: "pg_uuid list"

definition infos_size :: "cache_infos \<Rightarrow> 32 word" where
  "infos_size e = word_of_nat (48 + length (c_children e) * 16)"

record circuit_cache =
  il :: "cache_infos list"
  current_size :: "32 word"

definition empty_cache :: circuit_cache where
  "empty_cache = \<lparr>il = [], current_size = 0\<rparr>"

definition MAX_CIRCUIT_CACHE_SIZE :: "32 word" where
  "MAX_CIRCUIT_CACHE_SIZE = push_bit 20 1"

text \<open>\<open>find\<close> in the index of tokens, \<open>get\<close>.\<close>

definition cache_get :: "circuit_cache \<Rightarrow> pg_uuid \<Rightarrow> cache_infos option" where
  "cache_get c token = find (\<lambda>e. c_token e = token) (il c)"

text \<open>The loop that evicts from the tail.\<close>

function cache_evict :: "circuit_cache \<Rightarrow> circuit_cache" where
  "cache_evict c =
     (if current_size c > MAX_CIRCUIT_CACHE_SIZE \<and> il c \<noteq> []
      then cache_evict (c\<lparr>current_size := current_size c - infos_size (last (il c)), il := butlast (il c)\<rparr>)
      else c)"
  by pat_completeness auto
termination by (relation "measure (length \<circ> il)") auto

declare cache_evict.simps [simp del]

text \<open>\<open>push_front\<close> inserts nothing when the token is there: \<open>replace\<close> and \<open>relocate\<close> then act on that entry.\<close>

definition replaces :: "cache_infos \<Rightarrow> cache_infos \<Rightarrow> bool" where
  "replaces old e \<longleftrightarrow> c_type old = gate_invalid \<and> c_type e \<noteq> gate_invalid \<or> c_children old = [] \<and> c_children e \<noteq> []"

definition cache_insert :: "circuit_cache \<Rightarrow> cache_infos \<Rightarrow> bool \<times> circuit_cache" where
  "cache_insert c e = (case cache_get c (c_token e) of
     Some old \<Rightarrow>
       (let rest = filter (\<lambda>x. c_token x \<noteq> c_token e) (il c)
        in if replaces old e
           then (False, c\<lparr>il := e # rest, current_size := current_size c + (infos_size e - infos_size old)\<rparr>)
           else (False, c\<lparr>il := old # rest\<rparr>))
   | None \<Rightarrow> (True, cache_evict (c\<lparr>il := e # il c, current_size := current_size c + infos_size e\<rparr>)))"

text \<open>The three functions with C linkage.\<close>

definition circuit_cache_create_gate :: "circuit_cache \<Rightarrow> pg_uuid \<Rightarrow> gate_type \<Rightarrow> pg_uuid list \<Rightarrow> bool \<times> circuit_cache" where
  "circuit_cache_create_gate c token t children =
     cache_insert c \<lparr>c_token = token, c_type = t, c_children = children\<rparr>"

text \<open>\<open>None\<close> is the null pointer: a miss, or an entry without children.\<close>

definition circuit_cache_get_children :: "circuit_cache \<Rightarrow> pg_uuid \<Rightarrow> pg_uuid list option" where
  "circuit_cache_get_children c token = (case cache_get c token of
     Some e \<Rightarrow> if c_children e = [] then None else Some (c_children e)
   | None \<Rightarrow> None)"

definition circuit_cache_get_type :: "circuit_cache \<Rightarrow> pg_uuid \<Rightarrow> gate_type" where
  "circuit_cache_get_type c token = (case cache_get c token of Some e \<Rightarrow> c_type e | None \<Rightarrow> gate_invalid)"

section \<open>The invariant\<close>

definition cache_ok :: "circuit_cache \<Rightarrow> bool" where
  "cache_ok c \<longleftrightarrow> distinct (map c_token (il c)) \<and> current_size c = sum_list (map infos_size (il c))"

definition total_size :: "circuit_cache \<Rightarrow> nat" where
  "total_size c = sum_list (map (\<lambda>e. 48 + length (c_children e) * 16) (il c))"

lemma current_size_total: "cache_ok c \<Longrightarrow> current_size c = word_of_nat (total_size c)"
proof -
  have "sum_list (map infos_size es) = word_of_nat (sum_list (map (\<lambda>e. 48 + length (c_children e) * 16) es))" for es
    by (induction es) (simp_all add: infos_size_def)
  then show "cache_ok c \<Longrightarrow> ?thesis" by (simp add: cache_ok_def total_size_def)
qed

lemma cache_get_Some: "cache_get c u = Some e \<Longrightarrow> e \<in> set (il c) \<and> c_token e = u"
  by (auto simp: cache_get_def find_Some_iff)

lemma cache_get_None: "cache_get c u = None \<longleftrightarrow> u \<notin> c_token ` set (il c)"
  by (auto simp: cache_get_def find_None_iff)

text \<open>The list with one entry moved or replaced.\<close>

lemma split_at_token:
  assumes "distinct (map c_token es)" "old \<in> set es" "c_token old = u"
  obtains as bs where "es = as @ old # bs" "filter (\<lambda>x. c_token x \<noteq> u) es = as @ bs"
proof -
  obtain as bs where es: "es = as @ old # bs" using assms(2) by (auto simp: in_set_conv_decomp)
  have "u \<notin> c_token ` set as" "u \<notin> c_token ` set bs" using assms(1) unfolding es assms(3)[symmetric] by auto
  then have "filter (\<lambda>x. c_token x \<noteq> u) as = as" "filter (\<lambda>x. c_token x \<noteq> u) bs = bs" by (auto simp: filter_id_conv)
  then have "filter (\<lambda>x. c_token x \<noteq> u) es = as @ bs" using es assms(3) by simp
  then show thesis using es that by blast
qed

text \<open>The entries evicted are a tail, and with the first of them the cache was too large.\<close>

lemma evict_ok:
  assumes "cache_ok c"
  shows "cache_ok (cache_evict c) \<and> (\<exists>es. il c = il (cache_evict c) @ es \<and>
      (es \<noteq> [] \<longrightarrow> current_size (cache_evict c) + infos_size (hd es) > MAX_CIRCUIT_CACHE_SIZE)) \<and>
    (current_size (cache_evict c) \<le> MAX_CIRCUIT_CACHE_SIZE \<or> il (cache_evict c) = [])"
  using assms
proof (induction c rule: cache_evict.induct)
  case (1 c)
  show ?case
  proof (cases "current_size c > MAX_CIRCUIT_CACHE_SIZE \<and> il c \<noteq> []")
    case False
    then show ?thesis using 1(2) by (auto simp: cache_evict.simps[of c])
  next
    case True
    let ?c = "c\<lparr>current_size := current_size c - infos_size (last (il c)), il := butlast (il c)\<rparr>"
    have l: "il c = butlast (il c) @ [last (il c)]" using True by simp
    have "distinct (map c_token (butlast (il c)))" using 1(2) distinct_butlast[of "map c_token (il c)"]
      by (simp add: cache_ok_def map_butlast)
    moreover have "sum_list (map infos_size (il c)) = sum_list (map infos_size (butlast (il c))) + infos_size (last (il c))"
      using arg_cong[OF l, of "\<lambda>xs. sum_list (map infos_size xs)"] by simp
    ultimately have "cache_ok ?c" using 1(2) by (simp add: cache_ok_def)
    note IH = 1(1)[OF True this]
    have step: "cache_evict c = cache_evict ?c" using True by (simp add: cache_evict.simps[of c])
    obtain es where es: "butlast (il c) = il (cache_evict ?c) @ es"
        "es \<noteq> [] \<longrightarrow> current_size (cache_evict ?c) + infos_size (hd es) > MAX_CIRCUIT_CACHE_SIZE" using IH by auto
    have i: "il c = il (cache_evict ?c) @ (es @ [last (il c)])" using l es(1) by (metis append_assoc)
    have "current_size (cache_evict ?c) + infos_size (hd (es @ [last (il c)])) > MAX_CIRCUIT_CACHE_SIZE"
    proof (cases es)
      case Nil
      have "current_size c = current_size (cache_evict ?c) + infos_size (last (il c))"
        using 1(2) conjunct1[OF IH] arg_cong[OF i, of "\<lambda>xs. sum_list (map infos_size xs)"]
        by (simp add: cache_ok_def Nil del: append_butlast_last_id)
      then show ?thesis using True Nil by simp
    qed (use es(2) in simp)
    then show ?thesis using IH i unfolding step by blast
  qed
qed


text \<open>What an insertion leaves in the cache: entries that were there, or the new one.\<close>

lemma insert_entries: "set (il (snd (cache_insert c e))) \<subseteq> insert e (set (il c))"
proof (cases "cache_get c (c_token e)")
  case (Some old)
  then show ?thesis using cache_get_Some[OF Some] by (auto simp: cache_insert_def Let_def)
next
  case None
  have sub: "set (il (cache_evict d)) \<subseteq> set (il d)" for d
  proof (induction d rule: cache_evict.induct)
    case (1 d)
    then show ?case by (subst cache_evict.simps) (auto dest: in_set_butlastD)
  qed
  from sub[of "c\<lparr>il := e # il c, current_size := current_size c + infos_size e\<rparr>"] None
  show ?thesis by (simp add: cache_insert_def)
qed

lemma insert_known:
  assumes ok: "cache_ok c" and old: "cache_get c (c_token e) = Some old"
  shows "cache_ok (snd (cache_insert c e))" "fst (cache_insert c e) = False"
    "cache_get (snd (cache_insert c e)) u = (if u = c_token e then Some (if replaces old e then e else old) else cache_get c u)"
proof -
  obtain as bs where es: "il c = as @ old # bs" "filter (\<lambda>x. c_token x \<noteq> c_token e) (il c) = as @ bs"
    using split_at_token[of "il c" old "c_token e"] ok cache_get_Some[OF old] by (auto simp: cache_ok_def)
  have tok: "c_token old = c_token e" using cache_get_Some[OF old] by simp
  have d: "distinct (c_token e # map c_token (as @ bs))"
    using ok es(1) tok by (auto simp: cache_ok_def)
  have s: "current_size c = infos_size old + sum_list (map infos_size (as @ bs))"
    using ok es(1) by (simp add: cache_ok_def)
  show "cache_ok (snd (cache_insert c e))"
    using d s tok by (auto simp: cache_insert_def old Let_def es(2) cache_ok_def)
  show "fst (cache_insert c e) = False" by (simp add: cache_insert_def old Let_def)
  have rest: "find (\<lambda>x. c_token x = u) (as @ bs) = cache_get c u" if "u \<noteq> c_token e"
  proof -
    have "find P (xs @ y # ys) = find P (xs @ ys)" if "\<not> P y" for P :: "cache_infos \<Rightarrow> bool" and xs y ys
      using that by (induction xs) auto
    then show ?thesis using that tok by (simp add: cache_get_def es(1))
  qed
  show "cache_get (snd (cache_insert c e)) u = (if u = c_token e then Some (if replaces old e then e else old) else cache_get c u)"
    using rest tok by (auto simp: cache_insert_def old Let_def es(2)) (simp_all add: cache_get_def)
qed

lemma insert_new:
  assumes ok: "cache_ok c" and new: "cache_get c (c_token e) = None"
  shows "cache_ok (snd (cache_insert c e))" "fst (cache_insert c e) = True"
    "\<exists>es. e # il c = il (snd (cache_insert c e)) @ es \<and>
      (es \<noteq> [] \<longrightarrow> current_size (snd (cache_insert c e)) + infos_size (hd es) > MAX_CIRCUIT_CACHE_SIZE)"
    "current_size (snd (cache_insert c e)) \<le> MAX_CIRCUIT_CACHE_SIZE \<or> il (snd (cache_insert c e)) = []"
proof -
  let ?c = "c\<lparr>il := e # il c, current_size := current_size c + infos_size e\<rparr>"
  have "cache_ok ?c" using ok new by (auto simp: cache_ok_def cache_get_None)
  from evict_ok[OF this] show "cache_ok (snd (cache_insert c e))" "fst (cache_insert c e) = True"
    "\<exists>es. e # il c = il (snd (cache_insert c e)) @ es \<and>
      (es \<noteq> [] \<longrightarrow> current_size (snd (cache_insert c e)) + infos_size (hd es) > MAX_CIRCUIT_CACHE_SIZE)"
    "current_size (snd (cache_insert c e)) \<le> MAX_CIRCUIT_CACHE_SIZE \<or> il (snd (cache_insert c e)) = []"
    by (auto simp: cache_insert_def new)
qed

text \<open>The size of an entry in bytes.\<close>

abbreviation entry_bytes :: "cache_infos \<Rightarrow> nat" where
  "entry_bytes e \<equiv> 48 + length (c_children e) * 16"

lemma unat_current_size:
  assumes "cache_ok c" "total_size c < 2 ^ 32"
  shows "unat (current_size c) = total_size c"
  unfolding current_size_total[OF assms(1)] using assms(2) by (simp add: unsigned_of_nat take_bit_eq_mod)

text \<open>C25: an insertion keeps the tokens of the cache unique and its size the sum of the sizes of the entries
  (while these do not wrap around at 4 GiB).  For a new token it returns true and leaves the longest sequence
  of the most recent entries, the new one first, that fits in 1 MiB.  For a known token it returns false and
  moves its entry to the front, replaced by the new one when that brings a type or children the old one
  lacks; the other entries stay as they are and nothing is evicted, so that the size may grow by the children
  of the new entry.\<close>

theorem cache_insert_correct:
  assumes "cache_ok c" "total_size c + entry_bytes e < 2 ^ 32"
  shows "cache_ok (snd (cache_insert c e)) \<and>
    (cache_get c (c_token e) = None \<longrightarrow> fst (cache_insert c e) \<and> total_size (snd (cache_insert c e)) \<le> 2 ^ 20 \<and>
       (\<exists>es. e # il c = il (snd (cache_insert c e)) @ es \<and>
         (es \<noteq> [] \<longrightarrow> total_size (snd (cache_insert c e)) + entry_bytes (hd es) > 2 ^ 20))) \<and>
    (\<forall>old. cache_get c (c_token e) = Some old \<longrightarrow> \<not> fst (cache_insert c e) \<and>
       il (snd (cache_insert c e)) =
         (if replaces old e then e else old) # filter (\<lambda>x. c_token x \<noteq> c_token e) (il c) \<and>
       total_size (snd (cache_insert c e)) \<le> total_size c + length (c_children e) * 16 \<and>
       (\<forall>u. cache_get (snd (cache_insert c e)) u =
          (if u = c_token e then Some (if replaces old e then e else old) else cache_get c u)))"
proof -
  let ?c = "snd (cache_insert c e)"
  have ok: "cache_ok ?c"
    using insert_known(1)[OF assms(1), of e] insert_new(1)[OF assms(1), of e] by (cases "cache_get c (c_token e)") auto
  have M: "unat MAX_CIRCUIT_CACHE_SIZE = 2 ^ 20" by (simp add: MAX_CIRCUIT_CACHE_SIZE_def push_bit_eq_mult)
  have fresh: "total_size ?c \<le> 2 ^ 20 \<and> (\<exists>es. e # il c = il ?c @ es \<and>
      (es \<noteq> [] \<longrightarrow> total_size ?c + entry_bytes (hd es) > 2 ^ 20))" if new: "cache_get c (c_token e) = None"
  proof -
    note N = insert_new[OF assms(1) new]
    obtain es where es: "e # il c = il ?c @ es"
      "es \<noteq> [] \<longrightarrow> current_size ?c + infos_size (hd es) > MAX_CIRCUIT_CACHE_SIZE" using N(3) by blast
    have total: "entry_bytes e + total_size c = total_size ?c + sum_list (map entry_bytes es)"
      using arg_cong[OF es(1), of "\<lambda>xs. sum_list (map entry_bytes xs)"] by (simp add: total_size_def)
    then have size: "unat (current_size ?c) = total_size ?c" using assms(2) by (intro unat_current_size[OF ok]) linarith
    have "total_size ?c + entry_bytes (hd es) > 2 ^ 20" if "es \<noteq> []"
    proof -
      have "entry_bytes (hd es) \<le> sum_list (map entry_bytes es)" using that by (cases es) simp_all
      then have small: "total_size ?c + entry_bytes (hd es) < 2 ^ 32" using total assms(2) by linarith
      have "current_size ?c + infos_size (hd es) = word_of_nat (total_size ?c + entry_bytes (hd es))"
        unfolding current_size_total[OF ok] infos_size_def by simp
      then have "unat (current_size ?c + infos_size (hd es)) = total_size ?c + entry_bytes (hd es)"
        using small by (simp only: unsigned_of_nat) (simp add: take_bit_nat_eq_self)
      then show ?thesis using es(2) that M by (metis word_less_nat_alt)
    qed
    moreover have "total_size ?c \<le> 2 ^ 20" using N(4) size M by (auto simp: word_le_nat_alt total_size_def)
    ultimately show ?thesis using es(1) by blast
  qed
  have known: "il ?c = (if replaces old e then e else old) # filter (\<lambda>x. c_token x \<noteq> c_token e) (il c) \<and>
      total_size ?c \<le> total_size c + length (c_children e) * 16" if old: "cache_get c (c_token e) = Some old" for old
  proof -
    obtain as bs where s: "il c = as @ old # bs" "filter (\<lambda>x. c_token x \<noteq> c_token e) (il c) = as @ bs"
      using split_at_token[of "il c" old "c_token e"] assms(1) cache_get_Some[OF old] by (auto simp: cache_ok_def)
    have "il ?c = (if replaces old e then e else old) # filter (\<lambda>x. c_token x \<noteq> c_token e) (il c)"
      by (simp add: cache_insert_def old Let_def)
    then show ?thesis using s by (simp add: total_size_def)
  qed
  show ?thesis using ok fresh known insert_known(2,3)[OF assms(1)] insert_new(2)[OF assms(1)] by auto
qed

lemma cache_insert_correct_witness:
  "il (snd (cache_insert empty_cache \<lparr>c_token = (1, 1), c_type = gate_plus, c_children = [(2, 2)]\<rparr>)) =
     [\<lparr>c_token = (1, 1), c_type = gate_plus, c_children = [(2, 2)]\<rparr>]"
proof -
  have "cache_get empty_cache (1, 1) = None" by (simp add: cache_get_def empty_cache_def)
  then show ?thesis
    using cache_insert_correct[of empty_cache "\<lparr>c_token = (1, 1), c_type = gate_plus, c_children = [(2, 2)]\<rparr>"]
    by (auto simp: empty_cache_def cache_ok_def total_size_def Cons_eq_append_conv)
qed

section \<open>What a client relies on\<close>

text \<open>A cache answers with entries it was given, under their own token.\<close>

locale entry_cache =
  fixes get :: "'c \<Rightarrow> 'k \<Rightarrow> 'e option" and ins :: "'c \<Rightarrow> 'e \<Rightarrow> 'c" and entries :: "'c \<Rightarrow> 'e set" and key :: "'e \<Rightarrow> 'k"
  assumes get_in: "get c k = Some e \<Longrightarrow> e \<in> entries c \<and> key e = k"
    and ins_in: "entries (ins c e) \<subseteq> insert e (entries c)"
begin

lemma get_all: "\<forall>x \<in> entries c. P x \<Longrightarrow> get c k = Some e \<Longrightarrow> P e \<and> key e = k"
  using get_in by blast

lemma ins_all: "\<forall>x \<in> entries c. P x \<Longrightarrow> P e \<Longrightarrow> \<forall>x \<in> entries (ins c e). P x"
  using ins_in by blast

end

interpretation gate_cache: entry_cache cache_get "\<lambda>c e. snd (cache_insert c e)" "\<lambda>c. set (il c)" c_token
  by unfold_locales (fact cache_get_Some, fact insert_entries)

end
