(* ===== verification/Uuid.thy ===== *)
theory Uuid
  imports HashTable "HOL-Library.Char_ord"
begin

text \<open>
  The text form of UUIDs (\<open>src/provsql_utils_cpp.cpp\<close>): \<open>uuid2string\<close> writes 32 hexadecimal digits with four
  hyphens, \<open>string2uuid\<close> reads them back, with more liberty about hyphens, case and braces.  Circuits use the
  text as the name of a gate, the store the 16 bytes.
\<close>

section \<open>The bytes of a UUID\<close>

text \<open>The two words are read from memory with the first byte as the least significant one.\<close>

definition word_bytes :: "64 word \<Rightarrow> nat list" where
  "word_bytes w = map (\<lambda>i. unat w div 256 ^ i mod 256) [0..<8]"

definition word_of_bytes :: "nat list \<Rightarrow> 64 word" where
  "word_of_bytes bs = word_of_nat (foldr (\<lambda>b v. b + 256 * v) bs 0)"

definition uuid_bytes :: "pg_uuid \<Rightarrow> nat list" where
  "uuid_bytes u = word_bytes (fst u) @ word_bytes (snd u)"

definition uuid_of_bytes :: "nat list \<Rightarrow> pg_uuid" where
  "uuid_of_bytes bs = (word_of_bytes (take 8 bs), word_of_bytes (drop 8 bs))"

section \<open>Writing and reading\<close>

definition hex_chars :: string where "hex_chars = ''0123456789abcdef''"

text \<open>The iterations of the loop from \<open>i\<close> on.\<close>

fun format_bytes :: "nat \<Rightarrow> nat list \<Rightarrow> string" where
  "format_bytes i [] = []"
| "format_bytes i (b # bs) =
     (if i = 4 \<or> i = 6 \<or> i = 8 \<or> i = 10 then ''-'' else []) @
     [hex_chars ! (b div 16), hex_chars ! (b mod 16)] @ format_bytes (i + 1) bs"

definition uuid2string :: "pg_uuid \<Rightarrow> string" where
  "uuid2string u = format_bytes 0 (uuid_bytes u)"

text \<open>\<open>isxdigit\<close> and the value of a digit as \<open>strtoul\<close> reads it.\<close>

definition hex_value :: "char \<Rightarrow> nat option" where
  "hex_value c = (let n = of_char c :: nat in
     if 48 \<le> n \<and> n \<le> 57 then Some (n - 48)
     else if 97 \<le> n \<and> n \<le> 102 then Some (n - 87)
     else if 65 \<le> n \<and> n \<le> 70 then Some (n - 55) else None)"

text \<open>The loop over the 16 bytes, from byte \<open>i\<close> on, with the bytes still to come as \<open>k\<close>; the end of the list is
  the terminating zero.  \<open>None\<close> is the jump to \<open>syntax_error\<close>.\<close>

fun parse_bytes :: "nat \<Rightarrow> nat \<Rightarrow> string \<Rightarrow> (nat list \<times> string) option" where
  "parse_bytes 0 i src = Some ([], src)"
| "parse_bytes (Suc k) i src = (case src of
     a # b # src \<Rightarrow>
       (case (hex_value a, hex_value b) of
          (Some x, Some y) \<Rightarrow>
            (let src = (if src \<noteq> [] \<and> hd src = CHR ''-'' \<and> odd i \<and> i < 15 then tl src else src)
             in map_option (\<lambda>(bs, rest). ((16 * x + y) # bs, rest)) (parse_bytes k (i + 1) src))
        | _ \<Rightarrow> None)
   | _ \<Rightarrow> None)"

text \<open>A \<open>std::string\<close> read as a C string ends at its first zero.\<close>

definition c_str :: "string \<Rightarrow> string" where
  "c_str s = takeWhile (\<lambda>c. of_char c \<noteq> (0 :: nat)) s"

definition string2uuid :: "string \<Rightarrow> pg_uuid option" where
  "string2uuid str =
     (let source = c_str str;
          braces = (source \<noteq> [] \<and> hd source = CHR ''{'');
          src = (if braces then tl source else source)
      in Option.bind (parse_bytes 16 0 src) (\<lambda>(bs, rest).
           let rest' = (if braces then (if rest \<noteq> [] \<and> hd rest = CHR ''}'' then Some (tl rest) else None) else Some rest)
           in Option.bind rest' (\<lambda>r. if r = [] then Some (uuid_of_bytes bs) else None)))"

section \<open>Round trip\<close>

lemma foldr_digits: "n < 256 ^ k \<Longrightarrow> foldr (\<lambda>b v. b + 256 * v) (map (\<lambda>i. n div 256 ^ i mod 256) [0..<k]) 0 = (n :: nat)"
proof (induction k arbitrary: n)
  case (Suc k)
  have "map (\<lambda>i. n div 256 ^ i mod 256) [0..<Suc k] = n mod 256 # map (\<lambda>i. n div 256 div 256 ^ i mod 256) [0..<k]"
    by (simp add: upt_conv_Cons map_Suc_upt[symmetric] div_mult2_eq del: upt_Suc)
  moreover have "n div 256 < 256 ^ k" using Suc.prems by (simp add: less_mult_imp_div_less mult.commute)
  ultimately show ?case using Suc.IH[of "n div 256"] by simp
qed simp

lemma word_bytes_inverse: "word_of_bytes (word_bytes w) = w"
proof -
  have "unat w < 256 ^ 8" using unsigned_less[of w] by simp
  then show ?thesis unfolding word_of_bytes_def word_bytes_def by (subst foldr_digits) simp_all
qed

lemma length_uuid_bytes [simp]: "length (uuid_bytes u) = 16"
  by (simp add: uuid_bytes_def word_bytes_def)

lemma uuid_bytes_less: "b \<in> set (uuid_bytes u) \<Longrightarrow> b < 256"
  by (auto simp: uuid_bytes_def word_bytes_def)

lemma uuid_bytes_inverse: "uuid_of_bytes (uuid_bytes u) = u"
  by (simp add: uuid_of_bytes_def uuid_bytes_def word_bytes_inverse word_bytes_def[THEN arg_cong[of _ _ length]])

lemma hex_digit: "x < 16 \<Longrightarrow> hex_value (hex_chars ! x) = Some x \<and> hex_chars ! x \<noteq> CHR ''-'' \<and> hex_chars ! x \<noteq> CHR ''{''"
proof -
  have "\<forall>x \<in> set [0..<16]. hex_value (hex_chars ! x) = Some x \<and> hex_chars ! x \<noteq> CHR ''-'' \<and> hex_chars ! x \<noteq> CHR ''{''"
    by code_simp
  then show "x < 16 \<Longrightarrow> ?thesis" by simp
qed


definition format_tail :: "nat \<Rightarrow> nat list \<Rightarrow> string" where
  "format_tail i bs = (if bs \<noteq> [] \<and> i \<in> {4, 6, 8, 10} then tl (format_bytes i bs) else format_bytes i bs)"

lemma format_tail_Cons: "format_tail i (b # bs) = hex_chars ! (b div 16) # hex_chars ! (b mod 16) # format_bytes (i + 1) bs"
  by (auto simp: format_tail_def)

lemma skip_hyphen:
  assumes "i + length bs = 15" "\<forall>b \<in> set bs. b < 256"
  shows "(let src = format_bytes (i + 1) bs in if src \<noteq> [] \<and> hd src = CHR ''-'' \<and> odd i \<and> i < 15 then tl src else src) =
    format_tail (i + 1) bs"
proof (cases bs)
  case Nil
  then show ?thesis by (simp add: format_tail_def)
next
  case (Cons b bs')
  have "b div 16 < 16" using assms(2) Cons by (simp add: less_mult_imp_div_less)
  then have d: "hex_chars ! (b div 16) \<noteq> CHR ''-''" using hex_digit by blast
  show ?thesis
  proof (cases "i + 1 \<in> {4, 6, 8, 10}")
    case True
    then have "odd i \<and> i < 15" by auto
    then show ?thesis using True Cons by (auto simp: format_tail_def)
  next
    case False
    then show ?thesis using Cons d by (auto simp: format_tail_def)
  qed
qed

lemma parse_format:
  "i + length bs = 16 \<Longrightarrow> \<forall>b \<in> set bs. b < 256 \<Longrightarrow> parse_bytes (length bs) i (format_tail i bs) = Some (bs, [])"
proof (induction bs arbitrary: i)
  case Nil
  then show ?case by (simp add: format_tail_def)
next
  case (Cons b bs)
  have "b div 16 < 16" "b mod 16 < 16" using Cons.prems(2) by (simp_all add: less_mult_imp_div_less)
  then have h: "hex_value (hex_chars ! (b div 16)) = Some (b div 16)" "hex_value (hex_chars ! (b mod 16)) = Some (b mod 16)"
    using hex_digit by blast+
  have "parse_bytes (length bs) (i + 1) (format_tail (i + 1) bs) = Some (bs, [])"
    using Cons by simp
  then show ?case using skip_hyphen[of i bs] Cons.prems h by (simp add: format_tail_Cons Let_def)
qed

lemma format_bytes_chars:
  "\<forall>b \<in> set bs. b < 256 \<Longrightarrow> set (format_bytes i bs) \<subseteq> insert (CHR ''-'') (set hex_chars)"
proof (induction bs arbitrary: i)
  case (Cons b bs)
  have "hex_chars ! x \<in> set hex_chars" if "x < 16" for x using that by (intro nth_mem) (simp add: hex_chars_def)
  moreover have "b div 16 < 16" "b mod 16 < 16" using Cons.prems by (simp_all add: less_mult_imp_div_less)
  ultimately show ?case using Cons by auto
qed simp

lemma c_str_uuid2string: "c_str (uuid2string u) = uuid2string u"
proof -
  have "\<forall>c \<in> insert (CHR ''-'') (set hex_chars). of_char c \<noteq> (0 :: nat)" by (simp add: hex_chars_def)
  then show ?thesis
    using format_bytes_chars[of "uuid_bytes u" 0] uuid_bytes_less unfolding c_str_def uuid2string_def
    by (subst takeWhile_eq_all_conv) blast
qed

lemma string2uuid_uuid2string: "string2uuid (uuid2string u) = Some u"
proof -
  have all: "\<forall>b \<in> set (uuid_bytes u). b < 256" using uuid_bytes_less by blast
  have f: "uuid2string u = format_tail 0 (uuid_bytes u)" by (simp add: uuid2string_def format_tail_def)
  then have p: "parse_bytes 16 0 (uuid2string u) = Some (uuid_bytes u, [])" using parse_format[of 0 "uuid_bytes u"] all by simp
  obtain b bs where b: "uuid_bytes u = b # bs" using length_uuid_bytes[of u] by (cases "uuid_bytes u") auto
  have "b div 16 < 16" using all b by (simp add: less_mult_imp_div_less)
  then have "hd (uuid2string u) \<noteq> CHR ''{''" unfolding f b format_tail_Cons using hex_digit by simp
  then show ?thesis using p by (simp add: string2uuid_def c_str_uuid2string Let_def uuid_bytes_inverse)
qed

lemma uuid2string_inject: "uuid2string u = uuid2string v \<longleftrightarrow> u = v"
  by (metis option.inject string2uuid_uuid2string)

text \<open>C26: reading back the text of a UUID gives the UUID; in particular two UUIDs never have the same text, so the
  names of gates in a loaded circuit are as distinct as the tokens of the store.\<close>

theorem uuid_roundtrip: "string2uuid (uuid2string u) = Some u \<and> (uuid2string u = uuid2string v \<longleftrightarrow> u = v)"
  by (simp add: string2uuid_uuid2string uuid2string_inject)

end
