(* ===== verification/Cleanup.thy ===== *)
theory Cleanup
  imports Store
begin

text \<open>
  Inspection and clean-up of the persistent circuit (\<open>src/MMappedCircuit.cpp\<close>): \<open>check\<close> counts what does
  not add up, \<open>mark\<close> walks from the roots with an explicit stack, \<open>sweepInto\<close> copies the live gates into
  fresh files, \<open>cleanupStore\<close> puts them together.  The files themselves and their renaming are not modelled.
\<close>

section \<open>Consistency report\<close>

record check_report =
  chk_nb_gates :: nat
  chk_nb_mapping :: nat
  chk_next_value :: "64 word"
  dangling_indices :: nat
  unreferenced :: nat
  bad_wires :: nat
  bad_extra :: nat

text \<open>The loop over the slots of the table, and the one over the records.\<close>

fun check_slots :: "nat \<Rightarrow> (pg_uuid \<times> 64 word) list \<Rightarrow> nat \<times> bool list \<Rightarrow> nat \<times> bool list" where
  "check_slots n [] (d, ref) = (d, ref)"
| "check_slots n (e # es) (d, ref) =
     (if snd e = NOTHING then check_slots n es (d, ref)
      else if n \<le> unat (snd e) then check_slots n es (d + 1, ref)
      else check_slots n es (d, ref[unat (snd e) := True]))"

definition check_gate :: "store \<Rightarrow> bool list \<Rightarrow> nat \<Rightarrow> check_report \<Rightarrow> check_report" where
  "check_gate s ref i c = (let gi = m_gates s ! i;
     c = (if \<not> ref ! i then c\<lparr>unreferenced := unreferenced c + 1\<rparr> else c);
     c = (if children_idx gi + nb_children gi > length (m_wires s) then c\<lparr>bad_wires := bad_wires c + 1\<rparr> else c)
   in if extra_idx gi + extra_len gi > length (m_extra s) then c\<lparr>bad_extra := bad_extra c + 1\<rparr> else c)"

definition check_store :: "store \<Rightarrow> check_report" where
  "check_store s = (let n = length (m_gates s);
     (d, ref) = check_slots n (slots (mapping s)) (0, replicate n False)
   in fold (check_gate s ref) [0..<n]
        \<lparr>chk_nb_gates = n, chk_nb_mapping = nb_elements (mapping s), chk_next_value = next_value (mapping s),
         dangling_indices = d, unreferenced = 0, bad_wires = 0, bad_extra = 0\<rparr>)"

lemma length_check_slots: "length (snd (check_slots n es (d, ref))) = length ref"
  by (induction es arbitrary: d ref) auto

lemma check_slots_ref:
  "length ref = n \<Longrightarrow> i < n \<Longrightarrow> snd (check_slots n es (d, ref)) ! i \<longleftrightarrow>
     ref ! i \<or> (\<exists>e \<in> set es. snd e \<noteq> NOTHING \<and> unat (snd e) = i)"
  by (induction es arbitrary: d ref) (auto simp: nth_list_update)

lemma check_slots_dangling:
  "fst (check_slots n es (d, ref)) = d + length (filter (\<lambda>e. snd e \<noteq> NOTHING \<and> n \<le> unat (snd e)) es)"
  by (induction es arbitrary: d ref) auto


lemma check_gates_counts:
  "fold (check_gate s ref) is c = c\<lparr>unreferenced := unreferenced c + length (filter (\<lambda>i. \<not> ref ! i) is),
     bad_wires := bad_wires c + length (filter (\<lambda>i. length (m_wires s) < children_idx (m_gates s ! i) + nb_children (m_gates s ! i)) is),
     bad_extra := bad_extra c + length (filter (\<lambda>i. length (m_extra s) < extra_idx (m_gates s ! i) + extra_len (m_gates s ! i)) is)\<rparr>"
  by (induction "is" arbitrary: c) (simp_all add: check_gate_def Let_def)

lemma check_store_counts:
  "check_store s = \<lparr>chk_nb_gates = length (m_gates s), chk_nb_mapping = nb_elements (mapping s), chk_next_value = next_value (mapping s),
     dangling_indices = length (filter (\<lambda>e. snd e \<noteq> NOTHING \<and> length (m_gates s) \<le> unat (snd e)) (slots (mapping s))),
     unreferenced = length (filter (\<lambda>i. \<not> (\<exists>e \<in> set (slots (mapping s)). snd e \<noteq> NOTHING \<and> unat (snd e) = i)) [0..<length (m_gates s)]),
     bad_wires = length (filter (\<lambda>i. length (m_wires s) < children_idx (m_gates s ! i) + nb_children (m_gates s ! i)) [0..<length (m_gates s)]),
     bad_extra = length (filter (\<lambda>i. length (m_extra s) < extra_idx (m_gates s ! i) + extra_len (m_gates s ! i)) [0..<length (m_gates s)])\<rparr>"
proof -
  let ?n = "length (m_gates s)"
  let ?r = "check_slots ?n (slots (mapping s)) (0, replicate ?n False)"
  have "filter (\<lambda>i. \<not> snd ?r ! i) [0..<?n] =
      filter (\<lambda>i. \<not> (\<exists>e \<in> set (slots (mapping s)). snd e \<noteq> NOTHING \<and> unat (snd e) = i)) [0..<?n]"
    by (rule filter_cong) (simp_all add: check_slots_ref)
  moreover have "fst ?r = length (filter (\<lambda>e. snd e \<noteq> NOTHING \<and> ?n \<le> unat (snd e)) (slots (mapping s)))"
    by (simp add: check_slots_dangling)
  ultimately show ?thesis by (simp add: check_store_def Let_def check_gates_counts case_prod_beta)
qed

lemma slot_values:
  assumes "numbers t ts" "length ts \<le> 2 ^ 29" "e \<in> set (slots t)" "snd e \<noteq> NOTHING"
  shows "fst e \<in> set ts" "unat (snd e) = position ts (fst e)" "unat (snd e) < length ts" "table_map t (fst e) = Some (snd e)"
proof -
  have once: "keys_once (slots t)" using assms(1) by (simp add: numbers_def uuid_table_ok_def)
  obtain i where "i < length (slots t)" "slots t ! i = (fst e, snd e)" using assms(3) by (auto simp: in_set_conv_nth)
  then show m: "table_map t (fst e) = Some (snd e)" using slot_map_iff[OF once] assms(4) unfolding table_map_def by blast
  then show u: "fst e \<in> set ts" and "unat (snd e) = position ts (fst e)"
    using assms(1,2) position_nth[of "fst e" ts] small_word[of "position ts (fst e)"] by (auto simp: numbers_def split: if_splits)
  then show "unat (snd e) < length ts" using position_nth[OF u] by simp
qed

lemma token_slot:
  assumes "numbers t ts" "length ts \<le> 2 ^ 29" "u \<in> set ts"
  shows "(u, word_of_nat (position ts u)) \<in> set (slots t)" "(word_of_nat (position ts u) :: 64 word) \<noteq> NOTHING"
    "unat (word_of_nat (position ts u) :: 64 word) = position ts u"
proof -
  have once: "keys_once (slots t)" using assms(1) by (simp add: numbers_def uuid_table_ok_def)
  have "slot_map (slots t) u = Some (word_of_nat (position ts u))"
    using assms(1,3) by (simp add: numbers_def table_map_def)
  then show "(u, word_of_nat (position ts u)) \<in> set (slots t)" using slot_map_iff[OF once] by (metis nth_mem)
  have "position ts u < 2 ^ 63" using position_nth[OF assms(3)] assms(2) by simp
  from small_word[OF this] show "(word_of_nat (position ts u) :: 64 word) \<noteq> NOTHING"
    "unat (word_of_nat (position ts u) :: 64 word) = position ts u" by simp_all
qed

text \<open>the report of a well-formed store counts its records, one mapping entry for each, the next index, and no
  defect; on any store whatsoever, a report without dangling indices and bad ranges says that no look-up reads
  outside the three vectors.
\<close>

theorem check_correct:
  "(store_ok s \<longrightarrow> check_store s = \<lparr>chk_nb_gates = length (m_gates s), chk_nb_mapping = length (m_gates s),
      chk_next_value = word_of_nat (length (m_gates s)),
      dangling_indices = 0, unreferenced = 0, bad_wires = 0, bad_extra = 0\<rparr>) \<and>
   (dangling_indices (check_store s) = 0 \<and> bad_wires (check_store s) = 0 \<and> bad_extra (check_store s) = 0 \<longleftrightarrow>
      (\<forall>e \<in> set (slots (mapping s)). snd e \<noteq> NOTHING \<longrightarrow> unat (snd e) < length (m_gates s)) \<and> gate_ranges s)"
proof (intro conjI impI)
  show "dangling_indices (check_store s) = 0 \<and> bad_wires (check_store s) = 0 \<and> bad_extra (check_store s) = 0 \<longleftrightarrow>
      (\<forall>e \<in> set (slots (mapping s)). snd e \<noteq> NOTHING \<longrightarrow> unat (snd e) < length (m_gates s)) \<and> gate_ranges s"
    by (auto simp: check_store_counts gate_ranges_def all_set_conv_all_nth filter_empty_conv not_le not_less)
next
  assume "store_ok s"
  then obtain ts where ts: "store_tokens s ts" "length ts \<le> 2 ^ 29" "gate_ranges s" by (rule store_okE)
  have n: "numbers (mapping s) ts" and l: "length (m_gates s) = length ts" using ts(1) by (auto simp: store_tokens_def)
  have "\<exists>e \<in> set (slots (mapping s)). snd e \<noteq> NOTHING \<and> unat (snd e) = i" if "i < length ts" for i
    using token_slot[OF n ts(2), of "ts ! i"] that n by (force simp: nth_position numbers_def)
  then show "check_store s = \<lparr>chk_nb_gates = length (m_gates s), chk_nb_mapping = length (m_gates s),
      chk_next_value = word_of_nat (length (m_gates s)),
      dangling_indices = 0, unreferenced = 0, bad_wires = 0, bad_extra = 0\<rparr>"
    using n l slot_values(3)[OF n ts(2)] gate_rangesD[OF ts(3)]
    by (auto simp: check_store_counts numbers_def filter_empty_conv not_le not_less)
qed

lemma check_correct_witness:
  "unreferenced (check_store new_store) = 0 \<and> chk_nb_gates (check_store new_store) = 0"
  using check_correct[of new_store] new_store_ok(1) by (simp add: new_store_def)

section \<open>Marking\<close>

type_synonym mark_state = "bool list \<times> nat \<times> nat list"

text \<open>The body of both loops over tokens: the roots, and the children of a gate.\<close>

fun mark_tokens :: "store \<Rightarrow> nat \<Rightarrow> pg_uuid list \<Rightarrow> mark_state \<Rightarrow> mark_state option" where
  "mark_tokens s n [] st = Some st"
| "mark_tokens s n (u # us) (live, nb_live, stack) = Option.bind (index_of s u) (\<lambda>idx.
     mark_tokens s n us
       (if idx \<noteq> NOTHING \<and> unat idx < n \<and> \<not> live ! unat idx
        then (live[unat idx := True], nb_live + 1, unat idx # stack) else (live, nb_live, stack)))"

definition torn :: "store \<Rightarrow> nat \<Rightarrow> bool" where
  "torn s i \<longleftrightarrow> children_idx (m_gates s ! i) + nb_children (m_gates s ! i) > length (m_wires s)"

definition wire_tokens :: "store \<Rightarrow> nat \<Rightarrow> pg_uuid list" where
  "wire_tokens s i = map (\<lambda>k. m_wires s ! k)
     [children_idx (m_gates s ! i) ..< children_idx (m_gates s ! i) + nb_children (m_gates s ! i)]"

partial_function (option) mark_loop :: "store \<Rightarrow> nat \<Rightarrow> mark_state \<Rightarrow> (bool list \<times> nat) option" where
  "mark_loop s n st = (case st of (live, nb_live, stack) \<Rightarrow>
     (case stack of [] \<Rightarrow> Some (live, nb_live)
      | i # stack \<Rightarrow> if torn s i then mark_loop s n (live, nb_live, stack)
          else Option.bind (mark_tokens s n (wire_tokens s i) (live, nb_live, stack)) (mark_loop s n)))"

definition mark :: "store \<Rightarrow> pg_uuid list \<Rightarrow> (bool list \<times> nat) option" where
  "mark s roots = (let n = length (m_gates s) in
     Option.bind (mark_tokens s n roots (replicate n False, 0, [])) (mark_loop s n))"

text \<open>The records that tokens lead to, and the graph on the records.\<close>

definition record_of :: "store \<Rightarrow> pg_uuid \<Rightarrow> nat option" where
  "record_of s u = (case table_map (mapping s) u of
     Some w \<Rightarrow> if unat w < length (m_gates s) then Some (unat w) else None
   | None \<Rightarrow> None)"

definition records_of :: "store \<Rightarrow> pg_uuid set \<Rightarrow> nat set" where
  "records_of s U = {i. \<exists>u \<in> U. record_of s u = Some i}"

definition child_edges :: "store \<Rightarrow> (nat \<times> nat) set" where
  "child_edges s = {(i, j). i < length (m_gates s) \<and> \<not> torn s i \<and> j \<in> records_of s (set (wire_tokens s i))}"

definition marks :: "bool list \<Rightarrow> nat set" where
  "marks live = {i. i < length live \<and> live ! i}"

lemma marks_set: "i < length live \<Longrightarrow> marks (live[i := True]) = insert i (marks live)"
  by (auto simp: marks_def nth_list_update split: if_splits)

lemma finite_marks [simp]: "finite (marks live)"
  by (simp add: marks_def)

lemma card_marks: "card (marks live) \<le> length live"
  using card_mono[of "{..<length live}" "marks live"] by (auto simp: marks_def)

lemma records_of_Un: "records_of s (insert u U) = (case record_of s u of Some i \<Rightarrow> {i} | None \<Rightarrow> {}) \<union> records_of s U"
  by (auto simp: records_of_def split: option.splits)

lemma mark_tokens_correct:
  assumes "uuid_table_ok (mapping s)" "length live = length (m_gates s)"
  shows "\<exists>live' nb' new. mark_tokens s (length (m_gates s)) us (live, nb, stack) = Some (live', nb', new @ stack) \<and>
    length live' = length live \<and> marks live' = marks live \<union> records_of s (set us) \<and> set new \<union> marks live = marks live' \<and>
    nb' + card (marks live) = nb + card (marks live') \<and> length new + card (marks live) = card (marks live')"
  using assms
proof (induction us arbitrary: live nb stack)
  case Nil
  then show ?case by (auto simp: records_of_def)
next
  case (Cons u us)
  let ?n = "length (m_gates s)"
  have look: "index_of s u = Some (case table_map (mapping s) u of Some v \<Rightarrow> v | None \<Rightarrow> NOTHING)"
    by (rule lookup_correct[OF Cons.prems(1)])
  show ?case
  proof (cases "\<exists>i. record_of s u = Some i \<and> \<not> live ! i")
    case False
    then have "mark_tokens s ?n (u # us) (live, nb, stack) = mark_tokens s ?n us (live, nb, stack)"
      using look by (auto simp: record_of_def split: option.splits)
    moreover have "records_of s (set (u # us)) \<union> marks live = records_of s (set us) \<union> marks live"
      using False Cons.prems(2) by (auto simp: records_of_Un record_of_def marks_def split: option.splits if_splits)
    ultimately show ?thesis using Cons.IH[OF Cons.prems] by (simp add: Un_commute)
  next
    case True
    then obtain i where i: "record_of s u = Some i" "\<not> live ! i" by blast
    then have n: "i < length live" using Cons.prems(2) by (auto simp: record_of_def split: option.splits if_splits)
    have step: "mark_tokens s ?n (u # us) (live, nb, stack) = mark_tokens s ?n us (live[i := True], nb + 1, i # stack)"
      using look i table_map_value[of "mapping s" u] by (auto simp: record_of_def split: option.splits if_splits)
    have c: "card (marks (live[i := True])) = card (marks live) + 1"
      using i(2) by (simp add: marks_set[OF n]) (simp add: marks_def)
    obtain live' nb' new where r: "mark_tokens s ?n us (live[i := True], nb + 1, i # stack) = Some (live', nb', new @ i # stack)"
        "length live' = length live" "marks live' = marks (live[i := True]) \<union> records_of s (set us)"
        "set new \<union> marks (live[i := True]) = marks live'" "nb' + card (marks (live[i := True])) = nb + 1 + card (marks live')"
        "length new + card (marks (live[i := True])) = card (marks live')"
      using Cons.IH[of "live[i := True]" "nb + 1" "i # stack"] Cons.prems by auto
    show ?thesis using r i(1) c unfolding step marks_set[OF n] list.set records_of_Un
      by (intro exI[of _ live'] exI[of _ nb'] exI[of _ "new @ [i]"]) auto
  qed
qed

text \<open>What holds at every turn of the loop.\<close>

definition mark_inv :: "store \<Rightarrow> nat set \<Rightarrow> mark_state \<Rightarrow> bool" where
  "mark_inv s R st \<longleftrightarrow> (case st of (live, nb, stack) \<Rightarrow>
     length live = length (m_gates s) \<and> set stack \<subseteq> marks live \<and> R \<subseteq> marks live \<and> marks live \<subseteq> (child_edges s)\<^sup>* `` R \<and>
     nb = card (marks live) \<and> child_edges s `` (marks live - set stack) \<subseteq> marks live)"

lemma mark_loop_done:
  assumes "mark_inv s R (live, nb, [])"
  shows "marks live = (child_edges s)\<^sup>* `` R"
proof
  show "(child_edges s)\<^sup>* `` R \<subseteq> marks live"
  proof
    fix j assume "j \<in> (child_edges s)\<^sup>* `` R"
    then obtain i where "(i, j) \<in> (child_edges s)\<^sup>*" "i \<in> R" by blast
    then show "j \<in> marks live"
      using assms by (induction rule: rtrancl_induct) (auto simp: mark_inv_def)
  qed
qed (use assms in \<open>simp add: mark_inv_def\<close>)

lemma mark_inv_push:
  assumes inv: "mark_inv s R (live, nb, i # stack)" and ok: "\<not> torn s i"
    and m: "length live' = length live" "marks live' = marks live \<union> records_of s (set (wire_tokens s i))"
      "set new \<union> marks live = marks live'" "nb' + card (marks live) = nb + card (marks live')"
  shows "mark_inv s R (live', nb', new @ stack)"
proof -
  have i: "i \<in> marks live" "i < length (m_gates s)" using inv by (auto simp: mark_inv_def marks_def)
  have out: "child_edges s `` {i} = records_of s (set (wire_tokens s i))" using i(2) ok by (auto simp: child_edges_def)
  have "i \<in> (child_edges s)\<^sup>* `` R" using inv i(1) by (auto simp: mark_inv_def)
  then have "records_of s (set (wire_tokens s i)) \<subseteq> (child_edges s)\<^sup>* `` R" unfolding out[symmetric] by (auto intro: rtrancl_into_rtrancl)
  moreover have "child_edges s `` (marks live' - set (new @ stack)) \<subseteq> marks live'"
  proof -
    have "marks live' - set (new @ stack) \<subseteq> insert i (marks live - set (i # stack))" using m(3) by auto
    then have "child_edges s `` (marks live' - set (new @ stack)) \<subseteq>
        child_edges s `` {i} \<union> child_edges s `` (marks live - set (i # stack))" by blast
    also have "\<dots> \<subseteq> marks live'" unfolding out using inv m(2) by (auto simp: mark_inv_def)
    finally show ?thesis .
  qed
  ultimately show ?thesis using inv m unfolding mark_inv_def by auto
qed

lemma mark_inv_torn:
  assumes "mark_inv s R (live, nb, i # stack)" "torn s i"
  shows "mark_inv s R (live, nb, stack)"
proof -
  have "child_edges s `` {i} = {}" using assms(2) by (auto simp: child_edges_def)
  then have "child_edges s `` (marks live - set stack) \<subseteq> child_edges s `` (marks live - set (i # stack))" by auto
  moreover have "child_edges s `` (marks live - set (i # stack)) \<subseteq> marks live" using assms(1) by (simp add: mark_inv_def)
  ultimately have "child_edges s `` (marks live - set stack) \<subseteq> marks live" by (rule subset_trans)
  then show ?thesis using assms(1) by (simp add: mark_inv_def)
qed

lemma mark_loop_correct:
  assumes ok: "uuid_table_ok (mapping s)"
  shows "mark_inv s R (live, nb, stack) \<Longrightarrow>
    \<exists>live' nb'. mark_loop s (length (m_gates s)) (live, nb, stack) = Some (live', nb') \<and> mark_inv s R (live', nb', [])"
proof (induction "length (m_gates s) - card (marks live) + length stack" arbitrary: live nb stack rule: less_induct)
  case less
  show ?case
  proof (cases stack)
    case Nil
    then show ?thesis using less.prems by (subst mark_loop.simps) auto
  next
    case (Cons i st)
    show ?thesis
    proof (cases "torn s i")
      case True
      have "length (m_gates s) - card (marks live) + length st < length (m_gates s) - card (marks live) + length stack"
        using Cons by simp
      from less.hyps[OF this mark_inv_torn[OF less.prems[unfolded Cons] True]] show ?thesis
        using Cons True by (subst mark_loop.simps) simp
    next
      case False
      have l: "length live = length (m_gates s)" using less.prems by (simp add: mark_inv_def)
      obtain live' nb' new where m: "mark_tokens s (length (m_gates s)) (wire_tokens s i) (live, nb, st) = Some (live', nb', new @ st)"
          "length live' = length live" "marks live' = marks live \<union> records_of s (set (wire_tokens s i))"
          "set new \<union> marks live = marks live'" "nb' + card (marks live) = nb + card (marks live')"
          "length new + card (marks live) = card (marks live')"
        using mark_tokens_correct[OF ok l] by blast
      have "card (marks live') \<le> length (m_gates s)" using card_marks[of live'] l m(2) by simp
      then have "length (m_gates s) - card (marks live') + length (new @ st) < length (m_gates s) - card (marks live) + length stack"
        using m(6) Cons by simp
      from less.hyps[OF this mark_inv_push[OF less.prems[unfolded Cons] False m(2-5)]] show ?thesis
        using Cons False m(1) by (subst mark_loop.simps) simp
    qed
  qed
qed

text \<open>marking ends on every store with a well-formed table, damaged records or not, and flags exactly the
  records that the roots reach through children (a record whose children run past the wires is reached but
  not followed); the number returned is their number.
\<close>

theorem mark_correct:
  assumes "uuid_table_ok (mapping s)"
  shows "\<exists>live nb. mark s roots = Some (live, nb) \<and> length live = length (m_gates s) \<and>
    {i. i < length live \<and> live ! i} = (child_edges s)\<^sup>* `` records_of s (set roots) \<and>
    nb = card ((child_edges s)\<^sup>* `` records_of s (set roots))"
proof -
  let ?live = "replicate (length (m_gates s)) False"
  have none: "marks ?live = {}" by (auto simp: marks_def)
  obtain live nb new where m: "mark_tokens s (length (m_gates s)) roots (?live, 0, []) = Some (live, nb, new)"
      "length live = length (m_gates s)" "marks live = records_of s (set roots)" "set new = marks live" "nb = card (marks live)"
    using mark_tokens_correct[OF assms, of ?live roots 0 "[]"] none by auto
  have "mark_inv s (records_of s (set roots)) (live, nb, new)" using m by (auto simp: mark_inv_def)
  then obtain live' nb' where r: "mark_loop s (length (m_gates s)) (live, nb, new) = Some (live', nb')"
      "mark_inv s (records_of s (set roots)) (live', nb', [])" using mark_loop_correct[OF assms] by blast
  have "mark s roots = Some (live', nb')" using m(1) r(1) by (simp add: mark_def Let_def)
  then show ?thesis using mark_loop_done[OF r(2)] r(2) by (auto simp: mark_inv_def marks_def)
qed

lemma mark_correct_witness:
  "\<exists>live nb. mark new_store [(1, 1)] = Some (live, nb) \<and> length live = 0 \<and> nb = 0"
proof -
  have "uuid_table_ok (mapping new_store)" by (simp add: new_store_def new_table_ok)
  moreover have "records_of new_store {(1, 1)} = {}" by (simp add: records_of_def record_of_def new_store_def new_table_ok)
  ultimately show ?thesis using mark_correct[of new_store "[(1, 1)]"] by (auto simp: new_store_def)
qed

section \<open>Sweeping\<close>

fun new_indices :: "bool list \<Rightarrow> nat \<Rightarrow> 64 word list" where
  "new_indices [] next_idx = []"
| "new_indices (l # ls) next_idx =
     (if l then word_of_nat next_idx # new_indices ls (next_idx + 1) else NOTHING # new_indices ls next_idx)"

definition sweep_gate :: "store \<Rightarrow> nat \<Rightarrow> store \<Rightarrow> store" where
  "sweep_gate s i ns =
     (let gi = m_gates s ! i;
          old_children = children_idx gi;
          gi = gi\<lparr>children_idx := length (m_wires ns)\<rparr>;
          gi = (if old_children + nb_children gi > length (m_wires s) then gi\<lparr>nb_children := 0\<rparr> else gi);
          ns = ns\<lparr>m_wires := m_wires ns @ map (\<lambda>c. m_wires s ! (old_children + c)) [0..<nb_children gi]\<rparr>;
          old_extra = extra_idx gi;
          gi = (if old_extra + extra_len gi > length (m_extra s) then gi\<lparr>extra_len := 0\<rparr> else gi);
          (gi, ns) = (if extra_len gi > 0 then
              (gi\<lparr>extra_idx := length (m_extra ns)\<rparr>,
               ns\<lparr>m_extra := m_extra ns @ map (\<lambda>k. m_extra s ! (old_extra + k)) [0..<extra_len gi]\<rparr>)
            else (gi\<lparr>extra_idx := 0\<rparr>, ns));
          gi = (if gates_version s < GATES_VERSION \<and> gi_prob gi = Some 1 \<and> carriesProb (gi_type gi)
                then gi\<lparr>gi_prob := None\<rparr> else gi)
      in ns\<lparr>m_gates := m_gates ns @ [gi]\<rparr>)"

definition sweep_gates :: "store \<Rightarrow> bool list \<Rightarrow> nat list \<Rightarrow> store \<Rightarrow> store" where
  "sweep_gates s live is ns = fold (\<lambda>i ns. if \<not> live ! i then ns else sweep_gate s i ns) is ns"

fun republish :: "nat \<Rightarrow> bool list \<Rightarrow> 64 word list \<Rightarrow> (pg_uuid \<times> 64 word) list \<Rightarrow> uuid_table \<Rightarrow> uuid_table option" where
  "republish n live newidx [] t = Some t"
| "republish n live newidx (e # es) t =
     (if snd e = NOTHING \<or> n \<le> unat (snd e) \<or> \<not> live ! unat (snd e) then republish n live newidx es t
      else Option.bind (publish t (fst e) (newidx ! unat (snd e))) (\<lambda>(_, t). republish n live newidx es t))"

definition sweepInto :: "store \<Rightarrow> bool list \<Rightarrow> store option" where
  "sweepInto s live =
     (let n = length (m_gates s); ns = sweep_gates s live [0..<n] new_store
      in map_option (\<lambda>m. ns\<lparr>mapping := m\<rparr>)
           (republish n live (new_indices live 0) (slots (mapping s)) (mapping ns)))"

text \<open>What a sweep makes of the facts about a gate: nothing, but for the probabilities of an old file.\<close>

definition settle :: "nat \<Rightarrow> facts \<Rightarrow> facts" where
  "settle version f = (if version < GATES_VERSION \<and> f_prob f = Some 1 \<and> carriesProb (f_type f) then f\<lparr>f_prob := None\<rparr> else f)"

definition live_rank :: "bool list \<Rightarrow> nat \<Rightarrow> nat" where
  "live_rank live i = length (filter id (take i live))"

fun compress :: "bool list \<Rightarrow> 'a list \<Rightarrow> 'a list" where
  "compress (l # ls) (x # xs) = (if l then x # compress ls xs else compress ls xs)"
| "compress _ _ = []"

lemma compress_nth:
  "length live = length xs \<Longrightarrow> i < length xs \<Longrightarrow> live ! i \<Longrightarrow>
    live_rank live i < length (compress live xs) \<and> compress live xs ! live_rank live i = xs ! i"
proof (induction live xs arbitrary: i rule: compress.induct)
  case (1 l ls x xs)
  then show ?case by (cases i) (auto simp: live_rank_def)
qed auto

lemma in_compress: "length live = length xs \<Longrightarrow> x \<in> set (compress live xs) \<longleftrightarrow> (\<exists>i < length xs. live ! i \<and> xs ! i = x)"
  by (induction live xs rule: compress.induct) (auto simp: Ex_less_Suc2)

lemma distinct_compress: "length live = length xs \<Longrightarrow> distinct xs \<Longrightarrow> distinct (compress live xs)"
  by (induction live xs rule: compress.induct) (auto simp: in_compress)

lemma length_compress: "length live = length xs \<Longrightarrow> length (compress live xs) = live_rank live (length live)"
  by (induction live xs rule: compress.induct) (auto simp: live_rank_def)

lemma new_indices_nth:
  "i < length live \<Longrightarrow> live ! i \<Longrightarrow> new_indices live k ! i = word_of_nat (k + live_rank live i)"
proof (induction live arbitrary: i k)
  case (Cons l ls)
  then show ?case by (cases i) (auto simp: live_rank_def)
qed simp

lemma live_rank_Suc: "i < length live \<Longrightarrow> live_rank live (Suc i) = live_rank live i + (if live ! i then 1 else 0)"
  by (simp add: live_rank_def take_Suc_conv_app_nth)

lemma live_rank_mono: "i \<le> j \<Longrightarrow> live_rank live i \<le> live_rank live j"
  unfolding live_rank_def by (metis filter_append le_add_diff_inverse length_append le_add1 take_add)

lemma map_offset_slice: "i + n \<le> length xs \<Longrightarrow> map (\<lambda>c. xs ! (i + c)) [0..<n] = slice i n xs"
  by (rule nth_equalityI) (auto simp: slice_def)

lemma sweep_gate_step:
  assumes r: "gate_ranges s" and i: "i < length (m_gates s)" and ns: "gate_ranges ns"
  shows "\<exists>g. m_gates (sweep_gate s i ns) = m_gates ns @ [g]"
    "m_wires (sweep_gate s i ns) = m_wires ns @ f_children (facts_at s i)"
    "m_extra (sweep_gate s i ns) = m_extra ns @ f_extra (facts_at s i)"
    "mapping (sweep_gate s i ns) = mapping ns" "gates_version (sweep_gate s i ns) = gates_version ns"
    "gate_ranges (sweep_gate s i ns)"
    "facts_at (sweep_gate s i ns) (length (m_gates ns)) = settle (gates_version s) (facts_at s i)"
proof -
  let ?gi = "m_gates s ! i"
  note R = gate_rangesD[OF r i]
  define g where "g = ?gi\<lparr>children_idx := length (m_wires ns),
    extra_idx := (if extra_len ?gi > 0 then length (m_extra ns) else 0),
    gi_prob := (if gates_version s < GATES_VERSION \<and> gi_prob ?gi = Some 1 \<and> carriesProb (gi_type ?gi) then None else gi_prob ?gi)\<rparr>"
  define ws es where "ws = slice (children_idx ?gi) (nb_children ?gi) (m_wires s)"
    and "es = slice (extra_idx ?gi) (extra_len ?gi) (m_extra s)"
  have eq: "sweep_gate s i ns = ns\<lparr>m_gates := m_gates ns @ [g], m_wires := m_wires ns @ ws, m_extra := m_extra ns @ es\<rparr>"
    using R unfolding sweep_gate_def g_def ws_def es_def Let_def
    by (auto simp: map_offset_slice slice_end)
  have len: "length ws = nb_children ?gi" "length es = extra_len ?gi"
    unfolding ws_def es_def by (rule length_slice[OF R(1)], rule length_slice[OF R(2)])
  have f: "f_children (facts_at s i) = ws" "f_extra (facts_at s i) = es" by (simp_all add: facts_at_def Let_def ws_def es_def)
  show "\<exists>g. m_gates (sweep_gate s i ns) = m_gates ns @ [g]"
    "m_wires (sweep_gate s i ns) = m_wires ns @ f_children (facts_at s i)"
    "m_extra (sweep_gate s i ns) = m_extra ns @ f_extra (facts_at s i)"
    "mapping (sweep_gate s i ns) = mapping ns" "gates_version (sweep_gate s i ns) = gates_version ns"
    by (simp_all add: eq f)
  show "gate_ranges (sweep_gate s i ns)"
    using ns len unfolding eq gate_ranges_def by (fastforce simp: g_def)
  have "slice (length (m_wires ns)) (nb_children ?gi) (m_wires ns @ ws) = ws"
    "slice (if extra_len ?gi > 0 then length (m_extra ns) else 0) (extra_len ?gi) (m_extra ns @ es) = es"
    using len by (auto simp: slice_def)
  then show "facts_at (sweep_gate s i ns) (length (m_gates ns)) = settle (gates_version s) (facts_at s i)"
    unfolding eq by (auto simp: facts_at_def Let_def g_def settle_def ws_def es_def)
qed

lemma sweep_gates_correct:
  assumes r: "gate_ranges s" and live: "length live = length (m_gates s)" and k: "k \<le> length (m_gates s)"
  shows "length (m_gates (sweep_gates s live [0..<k] new_store)) = live_rank live k \<and>
    gate_ranges (sweep_gates s live [0..<k] new_store) \<and>
    mapping (sweep_gates s live [0..<k] new_store) = new_table \<and>
    gates_version (sweep_gates s live [0..<k] new_store) = GATES_VERSION \<and>
    set (m_wires (sweep_gates s live [0..<k] new_store)) = (\<Union>i \<in> {i. i < k \<and> live ! i}. set (f_children (facts_at s i))) \<and>
    (\<forall>i < k. live ! i \<longrightarrow> facts_at (sweep_gates s live [0..<k] new_store) (live_rank live i) =
       settle (gates_version s) (facts_at s i))"
  using k
proof (induction k)
  case 0
  show ?case by (simp add: sweep_gates_def new_store_def gate_ranges_def live_rank_def)
next
  case (Suc k)
  define ns where "ns = sweep_gates s live [0..<k] new_store"
  have step: "sweep_gates s live [0..<Suc k] new_store = (if live ! k then sweep_gate s k ns else ns)"
    by (simp add: ns_def sweep_gates_def)
  have klt: "k < length (m_gates s)" using Suc.prems by simp
  note IH = Suc.IH[OF Suc_leD[OF Suc.prems], folded ns_def]
  have rk: "live_rank live (Suc k) = live_rank live k + (if live ! k then 1 else 0)"
    using klt live by (simp add: live_rank_Suc)
  have less: "i < Suc k \<longleftrightarrow> i < k \<or> i = k" for i by auto
  show ?case
  proof (cases "live ! k")
    case False
    have "{i. i < Suc k \<and> live ! i} = {i. i < k \<and> live ! i}" using False by (auto simp: less)
    then show ?thesis using IH False rk unfolding step by (auto simp: less)
  next
    case True
    have rng: "gate_ranges ns" using IH by blast
    note st = sweep_gate_step[OF r klt rng]
    obtain g where g: "m_gates (sweep_gate s k ns) = m_gates ns @ [g]" using st(1) by blast
    have "facts_at (sweep_gate s k ns) (live_rank live i) = facts_at ns (live_rank live i)" if "i < k" "live ! i" for i
    proof (rule facts_at_same[OF _ rng _ st(2,3)])
      have "live_rank live (Suc i) \<le> live_rank live k" using that by (intro live_rank_mono) simp
      then show "live_rank live i < length (m_gates ns)" using IH that klt live by (simp add: live_rank_Suc)
      then show "m_gates (sweep_gate s k ns) ! live_rank live i = m_gates ns ! live_rank live i" by (simp add: g nth_append)
    qed
    moreover have "{i. i < Suc k \<and> live ! i} = insert k {i. i < k \<and> live ! i}" using True by (auto simp: less)
    ultimately show ?thesis using IH True rk st g unfolding step by (auto simp: less)
  qed
qed

text \<open>Publishing the live slots: the selected entries with their new numbers.\<close>

definition live_slots :: "nat \<Rightarrow> bool list \<Rightarrow> (pg_uuid \<times> 64 word) list \<Rightarrow> (pg_uuid \<times> 64 word) list" where
  "live_slots n live es = filter (\<lambda>e. snd e \<noteq> NOTHING \<and> unat (snd e) < n \<and> live ! unat (snd e)) es"

definition renumber :: "64 word list \<Rightarrow> pg_uuid \<times> 64 word \<Rightarrow> pg_uuid \<times> 64 word" where
  "renumber newidx e = (fst e, newidx ! unat (snd e))"

lemma republish_live: "republish n live newidx es t = republish n live newidx (live_slots n live es) t"
  by (induction es arbitrary: t) (auto simp: live_slots_def not_le split: bind_splits)

lemma republish_correct:
  assumes "\<forall>e \<in> set es. snd e \<noteq> NOTHING \<and> unat (snd e) < n \<and> live ! unat (snd e)"
    and "\<forall>e \<in> set es. unat (newidx ! unat (snd e)) < m" "m \<le> 2 ^ 29"
    and "uuid_table_ok t" "distinct (map fst es)" "dom (table_map t) \<inter> fst ` set es = {}" "nb_elements t + length es \<le> 2 ^ 29"
    and "unat (next_value t) \<le> m" "\<forall>v \<in> ran (table_map t). unat v < unat (next_value t)"
  shows "\<exists>t'. republish n live newidx es t = Some t' \<and> uuid_table_ok t' \<and>
    table_map t' = table_map t ++ map_of (map (renumber newidx) es) \<and> nb_elements t' = nb_elements t + length es \<and>
    unat (next_value t') \<le> m \<and> (\<forall>v \<in> ran (table_map t'). unat v < unat (next_value t'))"
  using assms
proof (induction es arbitrary: t)
  case Nil
  then show ?case by simp
next
  case (Cons e es)
  let ?v = "newidx ! unat (snd e)"
  have v: "unat ?v < m" using Cons.prems(2) by simp
  have vN: "?v \<noteq> NOTHING" and v1: "unat (?v + 1) = unat ?v + 1"
  proof -
    have lt: "unat ?v < 2 ^ 29" using v Cons.prems(3) by simp
    then have "unat ?v < 2 ^ 63" by simp
    from conjunct1[OF small_word[OF this]] show "?v \<noteq> NOTHING" by simp
    have "?v + 1 = word_of_nat (unat ?v + 1)" by simp
    then show "unat (?v + 1) = unat ?v + 1" using small_word[of "unat ?v + 1"] lt by (simp add: add.commute)
  qed
  have new: "table_map t (fst e) = None" using Cons.prems(6) by auto
  have room: "log_size t < 30 \<or> 2 * nb_elements t < capacity t"
    using uuid_table_okD(2,4)[OF Cons.prems(4)] Cons.prems(7) by (cases "log_size t = 30") auto
  obtain t1 where t1: "publish t (fst e) ?v = Some ((?v, True), t1)" "uuid_table_ok t1"
      "table_map t1 = (table_map t)(fst e \<mapsto> ?v)" "nb_elements t1 = nb_elements t + 1"
      "next_value t1 = max (next_value t) (?v + 1)"
    using publish_new[OF Cons.prems(4) new vN room] by blast
  have nv: "unat (next_value t1) = max (unat (next_value t)) (unat ?v + 1)"
    using t1(5) v1 by (simp add: max_def word_le_nat_alt)
  have le: "unat (next_value t1) \<le> m" using nv Cons.prems(8) v by simp
  have ran: "\<forall>w \<in> ran (table_map t1). unat w < unat (next_value t1)"
    using Cons.prems(9) new nv by (auto simp: t1(3) less_max_iff_disj)
  have d: "dom (table_map t1) \<inter> fst ` set es = {}" using Cons.prems(5,6) t1(3) by auto
  obtain t' where t': "republish n live newidx es t1 = Some t'" "uuid_table_ok t'"
      "table_map t' = table_map t1 ++ map_of (map (renumber newidx) es)" "nb_elements t' = nb_elements t1 + length es"
      "unat (next_value t') \<le> m" "\<forall>v \<in> ran (table_map t'). unat v < unat (next_value t')"
    using Cons.IH[OF _ _ Cons.prems(3) t1(2) _ d _ le ran] Cons.prems(1,2,5,7) t1(4) by auto
  have "fst e \<notin> dom (map_of (map (renumber newidx) es))"
    using Cons.prems(5) by (simp add: dom_map_of_conv_image_fst renumber_def image_image)
  then have M: "table_map t' = table_map t ++ map_of (map (renumber newidx) (e # es))"
    unfolding t'(3) t1(3) by (simp add: map_add_upd_left renumber_def)
  have "republish n live newidx (e # es) t = Some t'"
    using t1(1) t'(1) Cons.prems(1) by simp
  moreover have "nb_elements t' = nb_elements t + length (e # es)" using t'(4) t1(4) by simp
  ultimately show ?case using t'(2,5,6) M by blast
qed

lemma live_slots_tokens:
  assumes n: "numbers t ts" "length ts \<le> 2 ^ 29" and live: "length live = length ts"
  shows "distinct (map fst (live_slots (length ts) live (slots t)))"
    "fst ` set (live_slots (length ts) live (slots t)) = set (compress live ts)"
    "length (live_slots (length ts) live (slots t)) = length (compress live ts)"
proof -
  let ?L = "live_slots (length ts) live (slots t)"
  have once: "keys_once (slots t)" using n(1) by (simp add: numbers_def uuid_table_ok_def)
  have "?L = filter (\<lambda>e. unat (snd e) < length ts \<and> live ! unat (snd e)) (filter (\<lambda>e. snd e \<noteq> NOTHING) (slots t))"
    by (auto simp: live_slots_def intro: filter_cong)
  then show d: "distinct (map fst ?L)" using distinct_map_filter[OF keys_once_distinct[OF once]] by simp
  have in_L: "u \<in> fst ` set ?L \<longleftrightarrow> u \<in> set ts \<and> live ! position ts u" for u
  proof
    assume "u \<in> fst ` set ?L"
    then obtain e where e: "e \<in> set (slots t)" "snd e \<noteq> NOTHING" "live ! unat (snd e)" "u = fst e"
      by (auto simp: live_slots_def)
    from slot_values[OF n e(1,2)] e(3,4) show "u \<in> set ts \<and> live ! position ts u" by simp
  next
    assume u: "u \<in> set ts \<and> live ! position ts u"
    note s = token_slot[OF n, of u]
    have "(u, word_of_nat (position ts u)) \<in> set ?L"
      using s u position_nth[of u ts] by (simp add: live_slots_def)
    then show "u \<in> fst ` set ?L" by force
  qed
  have "distinct ts" using n(1) by (simp add: numbers_def)
  then have "u \<in> set ts \<and> live ! position ts u \<longleftrightarrow> u \<in> set (compress live ts)" for u
    unfolding in_compress[OF live] using nth_position[of ts] position_nth[of u ts] by (metis nth_mem)
  then show img: "fst ` set ?L = set (compress live ts)" using in_L by blast
  have "length ?L = card (fst ` set ?L)" using distinct_card[OF d] by simp
  also have "\<dots> = length (compress live ts)"
    unfolding img by (rule distinct_card[OF distinct_compress[OF live \<open>distinct ts\<close>]])
  finally show "length ?L = length (compress live ts)" .
qed

lemma renumbered_map:
  assumes n: "numbers t ts" "length ts \<le> 2 ^ 29" and live: "length live = length ts"
  shows "map_of (map (renumber (new_indices live 0)) (live_slots (length ts) live (slots t))) =
    (\<lambda>u. if u \<in> set (compress live ts) then Some (word_of_nat (position (compress live ts) u)) else None)"
proof
  fix u
  let ?L = "live_slots (length ts) live (slots t)" and ?ts = "compress live ts"
  note L = live_slots_tokens[OF assms]
  have keys: "map fst (map (renumber (new_indices live 0)) ?L) = map fst ?L" by (simp add: renumber_def)
  show "map_of (map (renumber (new_indices live 0)) ?L) u = (if u \<in> set ?ts then Some (word_of_nat (position ?ts u)) else None)"
  proof (cases "u \<in> set ?ts")
    case False
    then have "u \<notin> fst ` set (map (renumber (new_indices live 0)) ?L)" using L(2) by (force simp: renumber_def)
    then show ?thesis using False by (simp add: map_of_eq_None_iff)
  next
    case True
    then have "u \<in> fst ` set ?L" using L(2) by simp
    then obtain e where e: "e \<in> set ?L" "u = fst e" by (rule imageE)
    then have s: "e \<in> set (slots t)" "snd e \<noteq> NOTHING" "live ! unat (snd e)" by (auto simp: live_slots_def)
    note v = slot_values[OF n s(1,2), folded e(2)]
    have "new_indices live 0 ! unat (snd e) = word_of_nat (live_rank live (unat (snd e)))"
      using new_indices_nth[of "unat (snd e)" live 0] v(3) s(3) live by simp
    moreover have "live_rank live (unat (snd e)) = position ?ts u"
    proof -
      note c = compress_nth[OF live v(3) s(3)]
      have "ts ! unat (snd e) = u" using v(1,2) position_nth[OF v(1)] by simp
      moreover have "distinct ?ts" using n(1) distinct_compress[OF live] by (simp add: numbers_def)
      ultimately show ?thesis using c nth_position by metis
    qed
    ultimately have "renumber (new_indices live 0) e = (u, word_of_nat (position ?ts u))" using e(2) by (simp add: renumber_def)
    then have "(u, word_of_nat (position ?ts u)) \<in> set (map (renumber (new_indices live 0)) ?L)" using e(1) by force
    from map_of_is_SomeI[OF L(1)[folded keys] this] show ?thesis using True by simp
  qed
qed

lemma republish_numbers:
  assumes n: "numbers t ts" "length ts \<le> 2 ^ 29" and live: "length live = length ts"
  shows "\<exists>t'. republish (length ts) live (new_indices live 0) (slots t) new_table = Some t' \<and> numbers t' (compress live ts)"
proof -
  let ?L = "live_slots (length ts) live (slots t)" and ?ts = "compress live ts"
  note L = live_slots_tokens[OF assms]
  have le: "length ?ts \<le> length ts" unfolding length_compress[OF live] using live by (simp add: live_rank_def) (metis length_filter_le live)
  have dist: "distinct ?ts" using n(1) distinct_compress[OF live] by (simp add: numbers_def)
  have small: "unat (new_indices live 0 ! unat (snd e)) < length ?ts" if "e \<in> set ?L" for e
  proof -
    have e: "unat (snd e) < length ts" "live ! unat (snd e)" using that by (auto simp: live_slots_def)
    note c = compress_nth[OF live e]
    have "live_rank live (unat (snd e)) < 2 ^ 63" using c le n(2) by simp
    from small_word[OF this] show ?thesis using new_indices_nth[of "unat (snd e)" live 0] e live c by simp
  qed
  have sel: "\<forall>e \<in> set ?L. snd e \<noteq> NOTHING \<and> unat (snd e) < length ts \<and> live ! unat (snd e)" by (simp add: live_slots_def)
  obtain t' where t': "republish (length ts) live (new_indices live 0) ?L new_table = Some t'" "uuid_table_ok t'"
      "table_map t' = table_map new_table ++ map_of (map (renumber (new_indices live 0)) ?L)"
      "nb_elements t' = nb_elements new_table + length ?L" "unat (next_value t') \<le> length ?ts"
      "\<forall>v \<in> ran (table_map t'). unat v < unat (next_value t')"
    using republish_correct[OF sel _ _ new_table_ok(1) L(1), of "new_indices live 0" "length ?ts"] small le n(2) L(3)
    by (auto simp: new_table_ok)
  have M: "table_map t' = (\<lambda>u. if u \<in> set ?ts then Some (word_of_nat (position ?ts u)) else None)"
    using t'(3) renumbered_map[OF assms] by (simp add: new_table_ok)
  have "length ?ts \<le> unat (next_value t')"
  proof (cases "length ?ts")
    case (Suc m)
    have m: "m < length ?ts" "m < 2 ^ 63" using Suc le n(2) by auto
    have "table_map t' (?ts ! m) = Some (word_of_nat m)" using M nth_position[OF dist m(1)] m(1) by simp
    then have "unat (word_of_nat m :: 64 word) < unat (next_value t')" using t'(6) ranI by metis
    then show ?thesis using small_word[OF m(2)] Suc by simp
  qed simp
  then have "unat (next_value t') = length ?ts" using t'(5) by simp
  moreover have "unat (word_of_nat (length ?ts) :: 64 word) = length ?ts" using small_word[of "length ?ts"] le n(2) by simp
  ultimately have "next_value t' = word_of_nat (length ?ts)" by (simp add: word_unat_eq_iff)
  then have "numbers t' ?ts" using t'(2,4) M dist L(3) by (simp add: numbers_def new_table_ok)
  then show ?thesis using t'(1) republish_live by metis
qed

section \<open>The clean-up\<close>

type_synonym counts = "nat \<times> nat \<times> nat"

definition store_counts :: "store \<Rightarrow> counts" where
  "store_counts s = (length (m_gates s), length (m_wires s), length (m_extra s))"

text \<open>The counts before and after, and the store that the next message opens.\<close>

definition cleanupStore :: "store \<Rightarrow> pg_uuid list \<Rightarrow> bool \<Rightarrow> ((counts \<times> counts) \<times> store) option" where
  "cleanupStore s roots dry_run =
     Option.bind (mark s roots) (\<lambda>(live, nb_live).
       if dry_run then Some ((store_counts s, (nb_live, 0, 0)), s)
       else map_option (\<lambda>ns. ((store_counts s, store_counts ns), ns)) (sweepInto s live))"

text \<open>The tokens the roots reach, over what the store says.\<close>

definition token_edges :: "(pg_uuid \<rightharpoonup> facts) \<Rightarrow> (pg_uuid \<times> pg_uuid) set" where
  "token_edges M = {(u, c). \<exists>f. M u = Some f \<and> c \<in> set (f_children f)}"

definition kept_tokens :: "(pg_uuid \<rightharpoonup> facts) \<Rightarrow> pg_uuid list \<Rightarrow> pg_uuid set" where
  "kept_tokens M roots = dom M \<inter> (token_edges M)\<^sup>* `` set roots"

lemma sweepInto_correct:
  assumes ts: "store_tokens s ts" "length ts \<le> 2 ^ 29" and w: "set (m_wires s) \<subseteq> set ts" and live: "length live = length ts"
    and closed: "\<And>i c. i < length ts \<Longrightarrow> live ! i \<Longrightarrow> c \<in> set (f_children (facts_at s i)) \<Longrightarrow> c \<in> set (compress live ts)"
  shows "\<exists>s'. sweepInto s live = Some s' \<and> store_tokens s' (compress live ts) \<and> store_ok s' \<and>
    view s' = (\<lambda>u. if u \<in> set (compress live ts) then map_option (settle (gates_version s)) (view s u) else None)"
proof -
  let ?ts = "compress live ts"
  have n: "numbers (mapping s) ts" and l: "length (m_gates s) = length ts" and r: "gate_ranges s"
    using ts(1) by (auto simp: store_tokens_def)
  have dist: "distinct ts" "distinct ?ts" using n distinct_compress[OF live] by (auto simp: numbers_def)
  define ns where "ns = sweep_gates s live [0..<length ts] new_store"
  have "length live = length (m_gates s)" "length ts \<le> length (m_gates s)" using live l by simp_all
  note sw = sweep_gates_correct[OF r this, folded ns_def]
  obtain m where m: "republish (length ts) live (new_indices live 0) (slots (mapping s)) new_table = Some m" "numbers m ?ts"
    using republish_numbers[OF n ts(2) live] by blast
  let ?s = "ns\<lparr>mapping := m\<rparr>"
  have run: "sweepInto s live = Some ?s" using sw m(1) l by (simp add: sweepInto_def Let_def ns_def)
  have lts: "length ?ts = live_rank live (length ts)" using length_compress[OF live] live by simp
  have le: "length ?ts \<le> 2 ^ 29" using lts ts(2) live by (simp add: live_rank_def) (metis length_filter_le le_trans)
  have ok: "store_tokens ?s ?ts"
    using m(2) sw lts by (simp add: store_tokens_def gate_ranges_def)
  have "set (m_wires ?s) \<subseteq> set ?ts"
  proof -
    have "set (m_wires ns) = (\<Union>i \<in> {i. i < length ts \<and> live ! i}. set (f_children (facts_at s i)))" using sw by blast
    then show ?thesis using closed by auto
  qed
  then have sok: "store_ok ?s" unfolding store_ok_def using ok le by blast
  have "view ?s u = (if u \<in> set ?ts then map_option (settle (gates_version s)) (view s u) else None)" for u
  proof (cases "u \<in> set ?ts")
    case False
    then show ?thesis using tokens_index(2)[OF ok le] by simp
  next
    case True
    then obtain i where i: "i < length ts" "live ! i" "ts ! i = u" using in_compress[OF live] by blast
    have p: "position ts u = i" "position ?ts u = live_rank live i"
      using i nth_position[OF dist(1) i(1)] compress_nth[OF live i(1,2)] nth_position[OF dist(2), of "live_rank live i"] by auto
    have "facts_at ?s (live_rank live i) = facts_at ns (live_rank live i)" by (simp add: facts_at_def)
    then have "facts_at ?s (live_rank live i) = settle (gates_version s) (facts_at s i)" using sw i by simp
    moreover have "u \<in> set ts" using i nth_mem by blast
    ultimately show ?thesis using True p tokens_index(1)[OF ok le True] tokens_index(1)[OF ts, of u] by simp
  qed
  then show ?thesis using run ok sok by blast
qed

lemma record_of_token:
  assumes "store_tokens s ts" "length ts \<le> 2 ^ 29"
  shows "record_of s u = (if u \<in> set ts then Some (position ts u) else None)"
  using assms token_slot(3)[of "mapping s" ts u] position_nth[of u ts]
  by (auto simp: record_of_def store_tokens_def numbers_def)

lemma child_edges_tokens:
  assumes ts: "store_tokens s ts" "length ts \<le> 2 ^ 29"
  shows "child_edges s = {(i, j). i < length ts \<and> j < length ts \<and> (ts ! i, ts ! j) \<in> token_edges (view s)}"
proof -
  have l: "length (m_gates s) = length ts" and r: "gate_ranges s" and d: "distinct ts"
    using ts(1) by (auto simp: store_tokens_def numbers_def)
  have "(i, j) \<in> child_edges s \<longleftrightarrow> i < length ts \<and> j < length ts \<and> (ts ! i, ts ! j) \<in> token_edges (view s)" for i j
  proof (cases "i < length ts")
    case True
    note R = gate_rangesD(1)[OF r True[folded l]]
    have wt: "wire_tokens s i = f_children (facts_at s i)"
      unfolding wire_tokens_def facts_at_def Let_def using map_nth_slice[OF R] by simp
    have v: "view s (ts ! i) = Some (facts_at s i)"
      using tokens_index(1)[OF ts nth_mem[OF True]] nth_position[OF d True] by simp
    have "(i, j) \<in> child_edges s \<longleftrightarrow> (\<exists>u \<in> set (f_children (facts_at s i)). u \<in> set ts \<and> position ts u = j)"
      using True R by (simp add: child_edges_def l torn_def wt records_of_def record_of_token[OF ts])
        (auto split: if_splits)
    also have "\<dots> \<longleftrightarrow> j < length ts \<and> ts ! j \<in> set (f_children (facts_at s i))"
      using position_nth[of _ ts] nth_position[OF d] nth_mem by metis
    finally show ?thesis using True v by (simp add: token_edges_def)
  qed (simp add: child_edges_def l)
  then show ?thesis by auto
qed

lemma reach_tokens:
  assumes ts: "store_tokens s ts" "length ts \<le> 2 ^ 29" and w: "set (m_wires s) \<subseteq> set ts" and j: "j < length ts"
  shows "j \<in> (child_edges s)\<^sup>* `` records_of s (set roots) \<longleftrightarrow> ts ! j \<in> (token_edges (view s))\<^sup>* `` set roots"
proof
  assume "j \<in> (child_edges s)\<^sup>* `` records_of s (set roots)"
  then obtain i where i: "(i, j) \<in> (child_edges s)\<^sup>*" "i \<in> records_of s (set roots)" by blast
  from i(1) have "(ts ! i, ts ! j) \<in> (token_edges (view s))\<^sup>*"
    by (induction rule: rtrancl_induct) (auto simp: child_edges_tokens[OF ts] intro: rtrancl_into_rtrancl)
  moreover have "ts ! i \<in> set roots"
    using i(2) position_nth by (fastforce simp: records_of_def record_of_token[OF ts] split: if_splits)
  ultimately show "ts ! j \<in> (token_edges (view s))\<^sup>* `` set roots" by blast
next
  have d: "distinct ts" using ts(1) by (simp add: store_tokens_def numbers_def)
  assume "ts ! j \<in> (token_edges (view s))\<^sup>* `` set roots"
  then obtain r where r: "(r, ts ! j) \<in> (token_edges (view s))\<^sup>*" "r \<in> set roots" by blast
  have edge: "u \<in> set ts" if "(u, c) \<in> token_edges (view s)" for u c
    using that dom_view[OF ts(1)] by (auto simp: token_edges_def)
  have "r \<in> set ts"
    using r(1) edge by (cases rule: converse_rtranclE) (use j in auto)
  have "\<And>u. (u, ts ! j) \<in> (token_edges (view s))\<^sup>* \<Longrightarrow> (position ts u, j) \<in> (child_edges s)\<^sup>*"
  proof -
    fix u assume "(u, ts ! j) \<in> (token_edges (view s))\<^sup>*"
    then show "(position ts u, j) \<in> (child_edges s)\<^sup>*"
    proof (induction rule: converse_rtrancl_induct)
      case base
      then show ?case using nth_position[OF d j] by simp
    next
      case (step u c)
      have u: "u \<in> set ts" using edge step(1) by blast
      have c: "c \<in> set ts" using step(2) edge j by (cases rule: converse_rtranclE) auto
      have "(position ts u, position ts c) \<in> child_edges s"
        using step(1) position_nth[OF u] position_nth[OF c] by (simp add: child_edges_tokens[OF ts])
      then show ?case using step(3) by (rule converse_rtrancl_into_rtrancl)
    qed
  qed
  then have "(position ts r, j) \<in> (child_edges s)\<^sup>*" using r(1) by blast
  moreover have "position ts r \<in> records_of s (set roots)"
    using r(2) \<open>r \<in> set ts\<close> by (auto simp: records_of_def record_of_token[OF ts])
  ultimately show "j \<in> (child_edges s)\<^sup>* `` records_of s (set roots)" by blast
qed

lemma dom_children:
  assumes "store_tokens s ts" "set (m_wires s) \<subseteq> set ts" "i < length ts" "c \<in> set (f_children (facts_at s i))"
  shows "c \<in> set ts"
proof -
  have "set (f_children (facts_at s i)) \<subseteq> set (m_wires s)"
    unfolding facts_at_def Let_def slice_def by simp (meson order_trans set_drop_subset set_take_subset)
  then show ?thesis using assms(2,4) by blast
qed

lemma cleanup_run:
  assumes ok: "store_ok s"
  shows "\<exists>n ns. cleanupStore s roots True = Some ((store_counts s, (n, 0, 0)), s) \<and>
    cleanupStore s roots False = Some ((store_counts s, store_counts ns), ns) \<and> store_ok ns \<and>
    n = length (m_gates ns) \<and>
    view ns = (\<lambda>u. if u \<in> kept_tokens (view s) roots then map_option (settle (gates_version s)) (view s u) else None)"
proof -
  obtain ts where ts: "store_tokens s ts" "length ts \<le> 2 ^ 29" "set (m_wires s) \<subseteq> set ts" using ok by (rule store_okE)
  have n: "numbers (mapping s) ts" and l: "length (m_gates s) = length ts" and d: "distinct ts"
    using ts(1) by (auto simp: store_tokens_def numbers_def)
  let ?R = "(child_edges s)\<^sup>* `` records_of s (set roots)"
  have "uuid_table_ok (mapping s)" using n by (simp add: numbers_def)
  then obtain live nb where m: "mark s roots = Some (live, nb)" "length live = length ts"
      "{i. i < length live \<and> live ! i} = ?R" "nb = card ?R"
    using mark_correct[of s roots] l by auto
  have alive: "live ! i \<longleftrightarrow> ts ! i \<in> (token_edges (view s))\<^sup>* `` set roots" if "i < length ts" for i
    using reach_tokens[OF ts that, of roots] m(2,3) that by auto
  have kept: "u \<in> set (compress live ts) \<longleftrightarrow> u \<in> kept_tokens (view s) roots" for u
    unfolding in_compress[OF m(2)] kept_tokens_def dom_view[OF ts(1)] using alive by (auto simp: in_set_conv_nth)
  have closed: "c \<in> set (compress live ts)" if "i < length ts" "live ! i" "c \<in> set (f_children (facts_at s i))" for i c
  proof -
    have v: "view s (ts ! i) = Some (facts_at s i)"
      using tokens_index(1)[OF ts(1,2) nth_mem[OF that(1)]] nth_position[OF d that(1)] by simp
    then have "(ts ! i, c) \<in> token_edges (view s)" using that(3) by (simp add: token_edges_def)
    then have "c \<in> (token_edges (view s))\<^sup>* `` set roots" using alive[OF that(1)] that(2) by (auto intro: rtrancl_into_rtrancl)
    moreover have "c \<in> dom (view s)" using dom_children[OF ts(1,3) that(1,3)] dom_view[OF ts(1)] by simp
    ultimately show ?thesis unfolding kept by (simp add: kept_tokens_def)
  qed
  obtain ns where ns: "sweepInto s live = Some ns" "store_tokens ns (compress live ts)" "store_ok ns"
      "view ns = (\<lambda>u. if u \<in> set (compress live ts) then map_option (settle (gates_version s)) (view s u) else None)"
    using sweepInto_correct[OF ts m(2)] closed by blast
  have "nb = length (m_gates ns)"
  proof -
    have "length (m_gates ns) = live_rank live (length live)"
      using ns(2) length_compress[OF m(2)] by (simp add: store_tokens_def)
    also have "\<dots> = card {i. i < length live \<and> live ! i}"
      by (simp add: live_rank_def length_filter_conv_card)
    finally show ?thesis using m(3,4) by simp
  qed
  then show ?thesis using m(1) ns kept by (intro exI[of _ nb] exI[of _ ns]) (simp add: cleanupStore_def)
qed

text \<open>C19: a clean-up of a well-formed store returns; a dry run changes nothing and reports the number of gates
  that a real one keeps; a real one leaves a well-formed store that knows exactly the tokens the roots reach
  and says of each of them what the old store said (for a file of version 1, with the probability 1 of a
  gate that may never have been given one taken as unset).
\<close>

theorem cleanup_correct:
  assumes ok: "store_ok s"
  shows "\<exists>n ns. cleanupStore s roots True = Some ((store_counts s, (n, 0, 0)), s) \<and>
    cleanupStore s roots False = Some ((store_counts s, store_counts ns), ns) \<and> store_ok ns \<and>
    n = length (m_gates ns) \<and>
    view ns = (\<lambda>u. if u \<in> kept_tokens (view s) roots then map_option (settle (gates_version s)) (view s u) else None)"
  using assms by (rule cleanup_run)

lemma cleanup_correct_witness:
  "\<exists>s ns. createGate new_store (1, 1) gate_plus [(2, 2), (3, 3)] = Some s \<and>
    cleanupStore s [(2, 2)] False = Some ((store_counts s, store_counts ns), ns) \<and> view ns (1, 1) = None"
proof -
  obtain s where s: "createGate new_store (1, 1) gate_plus [(2, 2), (3, 3)] = Some s" "store_ok s"
      "view s = create_spec (1, 1) gate_plus [(2, 2), (3, 3)] Map.empty"
    using createGate_run[OF new_store_ok(1), of "[(2, 2), (3, 3)]" "(1, 1)" gate_plus] new_store_ok(2)
    by (auto simp: new_store_def)
  have leaf: "((2, 2), c) \<notin> token_edges (view s)" for c
    by (simp add: s(3) create_spec_def touch_def token_edges_def fresh_facts_def)
  have "(1, 1) \<notin> (token_edges (view s))\<^sup>* `` {(2, 2)}"
  proof
    assume "(1, 1) \<in> (token_edges (view s))\<^sup>* `` {(2, 2)}"
    then have "((2, 2), (1, 1)) \<in> (token_edges (view s))\<^sup>*" by simp
    then show False by (cases rule: converse_rtranclE) (use leaf in simp_all)
  qed
  then have "(1, 1) \<notin> kept_tokens (view s) [(2, 2)]" by (simp add: kept_tokens_def)
  then show ?thesis using cleanup_correct[OF s(2), of "[(2, 2)]"] s(1) by auto
qed
end
