(* ===== verification/Loading.thy ===== *)
theory Loading
  imports Uuid Cleanup
begin

text \<open>
  \<open>MMappedCircuit::createGenericCircuit\<close> (\<open>src/MMappedCircuit.cpp\<close>): from the tokens of the roots, the part of the
  persistent circuit below them is read into a \<open>GenericCircuit\<close>.  The work list is a \<open>std::set\<close>, taken from its
  smallest element.  A loaded circuit is measured by \<open>describe\<close>, a finite map from names of gates to
  their type, the names of their children and their annotations.
\<close>

section \<open>Loading\<close>

text \<open>The order of \<open>memcmp\<close>, and \<open>std::set::insert\<close> on the sorted list of the elements.\<close>

fun bytes_less :: "nat list \<Rightarrow> nat list \<Rightarrow> bool" where
  "bytes_less (x # xs) (y # ys) = (x < y \<or> x = y \<and> bytes_less xs ys)"
| "bytes_less _ _ = False"

definition uuid_less :: "pg_uuid \<Rightarrow> pg_uuid \<Rightarrow> bool" where
  "uuid_less a b = bytes_less (uuid_bytes a) (uuid_bytes b)"

definition set_insert :: "pg_uuid \<Rightarrow> pg_uuid list \<Rightarrow> pg_uuid list" where
  "set_insert u xs = (if u \<in> set xs then xs
     else takeWhile (\<lambda>x. uuid_less x u) xs @ [u] @ dropWhile (\<lambda>x. uuid_less x u) xs)"

text \<open>The loop over the children of the gate \<open>g\<close>.\<close>

fun load_children :: "gate_t \<Rightarrow> pg_uuid list \<Rightarrow> pg_uuid list \<Rightarrow> pg_uuid list \<times> generic_circuit \<Rightarrow>
    pg_uuid list \<times> generic_circuit" where
  "load_children g processed [] st = st"
| "load_children g processed (u # us) (todo, c) =
     (let (h, c) = getGate c (uuid2string u);
          c = addWire c g h;
          todo = (if u \<in> set processed then todo else set_insert u todo)
      in load_children g processed us (todo, c))"

definition copies_infos :: "gate_type \<Rightarrow> bool" where
  "copies_infos t \<longleftrightarrow> t \<in> {gate_mulinput, gate_eq, gate_agg, gate_cmp, gate_arith}"

definition copies_infos_if_set :: "gate_type \<Rightarrow> bool" where
  "copies_infos_if_set t \<longleftrightarrow> t \<in> {gate_plus, gate_times, gate_assumed}"

definition copies_extra :: "gate_type \<Rightarrow> bool" where
  "copies_extra t \<longleftrightarrow> t \<in> {gate_project, gate_value, gate_agg, gate_rv, gate_mulinput, gate_annotation,
     gate_assumed, gate_mobius, gate_arith, gate_observe}"

text \<open>One iteration, for the token \<open>u\<close> already taken from the work list.\<close>

definition load_gate :: "store \<Rightarrow> pg_uuid \<Rightarrow> pg_uuid list \<Rightarrow> pg_uuid list \<times> generic_circuit \<Rightarrow>
    (pg_uuid list \<times> generic_circuit) option" where
  "load_gate s u processed st = (case st of (todo, c) \<Rightarrow>
     Option.bind (m_getGateType s u) (\<lambda>t.
     Option.bind (m_getProb s u) (\<lambda>p.
     Option.bind (m_getChildren s u) (\<lambda>children.
     Option.bind (m_getInfos s u) (\<lambda>i.
     Option.bind (m_getExtra s u) (\<lambda>e.
       (let (g, c) = setGate_uuid c (uuid2string u) t;
            c = (case p of None \<Rightarrow> c | Some q \<Rightarrow> setProb c g q);
            (todo, c) = load_children g processed children (todo, c);
            c = (if copies_infos t then setInfos c g (fst i) (snd i)
                 else if copies_infos_if_set t then (if fst i \<noteq> 0 \<or> snd i \<noteq> 0 then setInfos c g (fst i) (snd i) else c)
                 else c);
            c = (if copies_extra t then setExtra c g e else c)
        in Some (todo, c))))))))"

partial_function (option) load_loop :: "store \<Rightarrow> pg_uuid list \<Rightarrow> pg_uuid list \<times> generic_circuit \<Rightarrow> generic_circuit option" where
  "load_loop s processed st = (case st of (todo, c) \<Rightarrow>
     (case todo of [] \<Rightarrow> Some c
      | u # todo \<Rightarrow> Option.bind (load_gate s u (u # processed) (todo, c)) (load_loop s (u # processed))))"

definition createGenericCircuit :: "store \<Rightarrow> pg_uuid list \<Rightarrow> generic_circuit option" where
  "createGenericCircuit s roots = load_loop s [] (fold set_insert roots [], empty_circuit)"

section \<open>What a circuit says under the names of its gates\<close>

record gate_data =
  g_type :: gate_type
  g_wires :: "string list"
  g_prob :: real
  g_infos :: "(nat \<times> nat) option"
  g_extra :: "string option"

definition data_at :: "generic_circuit \<Rightarrow> gate_t \<Rightarrow> gate_data" where
  "data_at c g = \<lparr>g_type = gates c ! g, g_wires = map (getUUID c) (wires c ! g), g_prob = prob c ! g,
     g_infos = infos c g, g_extra = extra c g\<rparr>"

definition describe :: "generic_circuit \<Rightarrow> string \<rightharpoonup> gate_data" where
  "describe c f = map_option (data_at c) (uuid2id c f)"

definition default_data :: gate_data where
  "default_data = \<lparr>g_type = gate_input, g_wires = [], g_prob = 1, g_infos = None, g_extra = None\<rparr>"

text \<open>A circuit in which every gate has a name and nothing is annotated out of range.\<close>

definition named :: "generic_circuit \<Rightarrow> bool" where
  "named c \<longleftrightarrow> wf_circuit c \<and> (\<forall>g < length (gates c). id2uuid c g \<noteq> None) \<and>
     (\<forall>g. infos c g \<noteq> None \<or> extra c g \<noteq> None \<longrightarrow> g < length (gates c))"

lemma namedD:
  assumes "named c"
  shows "uuid2id c f = Some g \<longleftrightarrow> id2uuid c g = Some f" "uuid2id c f = Some g \<Longrightarrow> g < length (gates c)"
    "length (wires c) = length (gates c)" "length (prob c) = length (gates c)"
    "g < length (gates c) \<Longrightarrow> w \<in> set (wires c ! g) \<Longrightarrow> w < length (gates c)"
    "uuid2id c f = Some g \<Longrightarrow> getUUID c g = f"
  using assms by (auto simp: named_def wf_circuit_def getUUID_def)

lemma named_empty: "named empty_circuit" "describe empty_circuit = Map.empty"
  by (simp_all add: named_def wf_empty) (simp_all add: empty_circuit_def describe_def fun_eq_iff)

lemma describe_data: "uuid2id c f = Some g \<Longrightarrow> describe c f = Some d \<longleftrightarrow> data_at c g = d"
  by (simp add: describe_def)

text \<open>A change at the gate of one name is seen under that name only.\<close>

lemma describe_at:
  assumes n: "named c" and f: "uuid2id c f = Some g" and ids: "uuid2id c' = uuid2id c" "id2uuid c' = id2uuid c"
    and same: "\<And>h. h \<noteq> g \<Longrightarrow> h < length (gates c) \<Longrightarrow> data_at c' h = data_at c h"
  shows "describe c' = (describe c)(f \<mapsto> data_at c' g)"
proof
  fix f'
  show "describe c' f' = ((describe c)(f \<mapsto> data_at c' g)) f'"
  proof (cases "uuid2id c f'")
    case None
    then show ?thesis using f by (auto simp: describe_def ids)
  next
    case (Some h)
    then have "h \<noteq> g \<or> f' = f" using f namedD(1)[OF n] by (metis option.inject)
    then show ?thesis using Some f same namedD(2)[OF n Some] by (auto simp: describe_def ids)
  qed
qed


definition touch_name :: "string \<Rightarrow> (string \<rightharpoonup> gate_data) \<Rightarrow> string \<rightharpoonup> gate_data" where
  "touch_name f D = (if D f = None then D(f \<mapsto> default_data) else D)"

lemma getGate_describe:
  assumes n: "named c" and g: "getGate c f = (g, c')"
  shows "named c' \<and> uuid2id c' f = Some g \<and> describe c' = touch_name f (describe c) \<and>
    (\<forall>f' h. uuid2id c f' = Some h \<longrightarrow> uuid2id c' f' = Some h)"
proof (cases "uuid2id c f")
  case (Some h)
  then show ?thesis using n g by (auto simp: getGate_def touch_name_def describe_def)
next
  case None
  note D = namedD[OF n]
  have c': "g = length (gates c)" "c' = c\<lparr>gates := gates c @ [gate_input], wires := wires c @ [[]], prob := prob c @ [1],
      uuid2id := (uuid2id c)(f \<mapsto> length (gates c)), id2uuid := (id2uuid c)(length (gates c) \<mapsto> f)\<rparr>"
    using None g by (auto simp: getGate_def addGate_def)
  have wf: "wf_circuit c'" using n g wf_getGate unfolding named_def by blast
  have u: "getUUID c' h = getUUID c h" if "h < length (gates c)" for h
    using that by (simp add: c' getUUID_def)
  have old: "data_at c' h = data_at c h" if h: "h < length (gates c)" for h
    using h D(3,4) D(5)[OF h] u by (auto simp: data_at_def c' nth_append)
  have out: "infos c (length (gates c)) = None" "extra c (length (gates c)) = None"
    using n unfolding named_def by (metis less_irrefl)+
  have new: "data_at c' g = default_data" using D(3,4) out by (simp add: data_at_def c' default_data_def nth_append)
  have ids: "uuid2id c' = (uuid2id c)(f \<mapsto> g)" by (simp add: c')
  have "describe c' = touch_name f (describe c)"
  proof
    fix x
    show "describe c' x = touch_name f (describe c) x"
      using None new old D(2) by (cases "uuid2id c x") (auto simp: describe_def touch_name_def ids)
  qed
  moreover have "named c'" using n wf unfolding named_def by (auto simp: c' less_Suc_eq)
  ultimately show ?thesis using ids None by auto
qed

lemma setGateType_describe:
  assumes n: "named c" and f: "uuid2id c f = Some g"
  shows "named (register_input g t (setGateType c g t))"
    "describe (register_input g t (setGateType c g t)) = (describe c)(f \<mapsto> (data_at c g)\<lparr>g_type := t\<rparr>)"
    "uuid2id (register_input g t (setGateType c g t)) = uuid2id c"
proof -
  let ?c = "register_input g t (setGateType c g t)"
  note D = namedD[OF n]
  have g: "g < length (gates c)" by (rule D(2)[OF f])
  show "named ?c" using n wf_retype[of c g t] g by (auto simp: named_def register_input_def setGateType_def)
  have ids: "uuid2id ?c = uuid2id c" "id2uuid ?c = id2uuid c" by (simp_all add: register_input_def setGateType_def)
  then show "uuid2id ?c = uuid2id c" by simp
  have u: "getUUID ?c = getUUID c" by (simp add: getUUID_def ids fun_eq_iff)
  have "data_at ?c h = (if h = g then (data_at c g)\<lparr>g_type := t\<rparr> else data_at c h)" for h
    using g u by (simp add: data_at_def register_input_def setGateType_def)
  then show "describe ?c = (describe c)(f \<mapsto> (data_at c g)\<lparr>g_type := t\<rparr>)"
    using describe_at[OF n f ids] by simp
qed

lemma setProb_describe:
  assumes n: "named c" and f: "uuid2id c f = Some g"
  shows "named (setProb c g p)" "describe (setProb c g p) = (describe c)(f \<mapsto> (data_at c g)\<lparr>g_prob := p\<rparr>)"
    "uuid2id (setProb c g p) = uuid2id c"
proof -
  note D = namedD[OF n]
  have g: "g < length (prob c)" using D(2)[OF f] D(4) by simp
  show "named (setProb c g p)" using n by (simp add: named_def wf_circuit_def setProb_def)
  have ids: "uuid2id (setProb c g p) = uuid2id c" "id2uuid (setProb c g p) = id2uuid c" by (simp_all add: setProb_def)
  then show "uuid2id (setProb c g p) = uuid2id c" by simp
  have "data_at (setProb c g p) h = (if h = g then (data_at c g)\<lparr>g_prob := p\<rparr> else data_at c h)" for h
    using g by (simp add: data_at_def setProb_def getUUID_def)
  then show "describe (setProb c g p) = (describe c)(f \<mapsto> (data_at c g)\<lparr>g_prob := p\<rparr>)"
    using describe_at[OF n f ids] by simp
qed

lemma setInfos_describe:
  assumes n: "named c" and f: "uuid2id c f = Some g"
  shows "named (setInfos c g i1 i2)" "describe (setInfos c g i1 i2) = (describe c)(f \<mapsto> (data_at c g)\<lparr>g_infos := Some (i1, i2)\<rparr>)"
    "uuid2id (setInfos c g i1 i2) = uuid2id c"
proof -
  note D = namedD[OF n]
  show "named (setInfos c g i1 i2)" using n D(2)[OF f] by (auto simp: named_def wf_circuit_def setInfos_def)
  have ids: "uuid2id (setInfos c g i1 i2) = uuid2id c" "id2uuid (setInfos c g i1 i2) = id2uuid c" by (simp_all add: setInfos_def)
  then show "uuid2id (setInfos c g i1 i2) = uuid2id c" by simp
  have "data_at (setInfos c g i1 i2) h = (if h = g then (data_at c g)\<lparr>g_infos := Some (i1, i2)\<rparr> else data_at c h)" for h
    by (simp add: data_at_def setInfos_def getUUID_def)
  then show "describe (setInfos c g i1 i2) = (describe c)(f \<mapsto> (data_at c g)\<lparr>g_infos := Some (i1, i2)\<rparr>)"
    using describe_at[OF n f ids] by simp
qed

lemma setExtra_describe:
  assumes n: "named c" and f: "uuid2id c f = Some g"
  shows "named (setExtra c g e)" "describe (setExtra c g e) = (describe c)(f \<mapsto> (data_at c g)\<lparr>g_extra := Some e\<rparr>)"
    "uuid2id (setExtra c g e) = uuid2id c"
proof -
  note D = namedD[OF n]
  show "named (setExtra c g e)" using n D(2)[OF f] by (auto simp: named_def wf_circuit_def setExtra_def)
  have ids: "uuid2id (setExtra c g e) = uuid2id c" "id2uuid (setExtra c g e) = id2uuid c" by (simp_all add: setExtra_def)
  then show "uuid2id (setExtra c g e) = uuid2id c" by simp
  have "data_at (setExtra c g e) h = (if h = g then (data_at c g)\<lparr>g_extra := Some e\<rparr> else data_at c h)" for h
    by (simp add: data_at_def setExtra_def getUUID_def)
  then show "describe (setExtra c g e) = (describe c)(f \<mapsto> (data_at c g)\<lparr>g_extra := Some e\<rparr>)"
    using describe_at[OF n f ids] by simp
qed

lemma addWire_describe:
  assumes n: "named c" and f: "uuid2id c f = Some g" and h: "uuid2id c f' = Some h"
  shows "named (addWire c g h)" "describe (addWire c g h) = (describe c)(f \<mapsto> (data_at c g)\<lparr>g_wires := g_wires (data_at c g) @ [f']\<rparr>)"
    "uuid2id (addWire c g h) = uuid2id c"
proof -
  note D = namedD[OF n]
  have g: "g < length (gates c)" "h < length (gates c)" by (rule D(2)[OF f], rule D(2)[OF h])
  show "named (addWire c g h)" using n wf_addWire[of c g h] g by (auto simp: named_def addWire_def)
  have ids: "uuid2id (addWire c g h) = uuid2id c" "id2uuid (addWire c g h) = id2uuid c" by (simp_all add: addWire_def)
  then show "uuid2id (addWire c g h) = uuid2id c" by simp
  have "data_at (addWire c g h) k = (if k = g then (data_at c g)\<lparr>g_wires := g_wires (data_at c g) @ [f']\<rparr> else data_at c k)" for k
    using g D(3) D(6)[OF h] by (simp add: data_at_def addWire_def getUUID_def)
  then show "describe (addWire c g h) = (describe c)(f \<mapsto> (data_at c g)\<lparr>g_wires := g_wires (data_at c g) @ [f']\<rparr>)"
    using describe_at[OF n f ids] by simp
qed

section \<open>The loading loop\<close>

text \<open>What loading a token puts under its name.\<close>

definition load_spec :: "(pg_uuid \<rightharpoonup> facts) \<Rightarrow> pg_uuid \<Rightarrow> gate_data" where
  "load_spec M u = (let f = (case M u of Some f \<Rightarrow> f | None \<Rightarrow> fresh_facts gate_input []) in
     \<lparr>g_type = f_type f, g_wires = map uuid2string (f_children f),
      g_prob = (case Option.bind (M u) prob_facts of Some p \<Rightarrow> p | None \<Rightarrow> 1),
      g_infos = (if copies_infos (f_type f) \<or> copies_infos_if_set (f_type f) \<and> f_infos f \<noteq> (0, 0) then Some (f_infos f) else None),
      g_extra = (if copies_extra (f_type f) then Some (f_extra f) else None)\<rparr>)"

definition children_of :: "(pg_uuid \<rightharpoonup> facts) \<Rightarrow> pg_uuid \<Rightarrow> pg_uuid list" where
  "children_of M u = (case M u of Some f \<Rightarrow> f_children f | None \<Rightarrow> [])"

lemma set_insert_split:
  obtains as bs where "xs = as @ bs" "u \<notin> set xs \<Longrightarrow> set_insert u xs = as @ u # bs"
proof (rule that)
  show "xs = takeWhile (\<lambda>x. uuid_less x u) xs @ dropWhile (\<lambda>x. uuid_less x u) xs" by simp
  show "u \<notin> set xs \<Longrightarrow> set_insert u xs = takeWhile (\<lambda>x. uuid_less x u) xs @ u # dropWhile (\<lambda>x. uuid_less x u) xs"
    by (simp add: set_insert_def)
qed

lemma set_set_insert [simp]: "set (set_insert u xs) = insert u (set xs)"
proof (cases "u \<in> set xs")
  case False
  then show ?thesis by (rule_tac set_insert_split[of xs u]) auto
qed (simp add: set_insert_def insert_absorb)

lemma distinct_set_insert [simp]: "distinct xs \<Longrightarrow> distinct (set_insert u xs)"
proof (cases "u \<in> set xs")
  case False
  assume "distinct xs"
  with False show ?thesis by (rule_tac set_insert_split[of xs u]) auto
qed (simp add: set_insert_def)

lemma touch_name_twice: "touch_name f (touch_name f D) = touch_name f D"
  by (simp add: touch_name_def)

text \<open>The children: their names are touched, the wires of the gate grow, the work list gets the new ones.\<close>

lemma load_children_describe:
  assumes "named c" "uuid2id c f = Some g" "describe c f = Some d" "distinct todo"
  shows "\<exists>todo' c'. load_children g processed us (todo, c) = (todo', c') \<and> named c' \<and> uuid2id c' f = Some g \<and>
    describe c' f = Some (d\<lparr>g_wires := g_wires d @ map uuid2string us\<rparr>) \<and>
    (\<forall>f'. f' \<noteq> f \<longrightarrow> describe c' f' = (if describe c f' = None \<and> f' \<in> uuid2string ` set us then Some default_data else describe c f')) \<and>
    distinct todo' \<and> set todo' = set todo \<union> (set us - set processed)"
  using assms
proof (induction us arbitrary: c d todo)
  case (Cons u us)
  obtain h c1 where g1: "getGate c (uuid2string u) = (h, c1)" by (cases "getGate c (uuid2string u)")
  note G = getGate_describe[OF Cons.prems(1) g1]
  have id1: "uuid2id c1 f = Some g" using G Cons.prems(2) by blast
  have n1: "named c1" and h1: "uuid2id c1 (uuid2string u) = Some h" using G by blast+
  let ?c2 = "addWire c1 g h"
  note W = addWire_describe[OF n1 id1 h1]
  have d1: "data_at c1 g = d" "describe c1 f = Some d"
  proof -
    show "describe c1 f = Some d" using G Cons.prems(3) by (auto simp: touch_name_def)
    then show "data_at c1 g = d" using id1 by (simp add: describe_def)
  qed
  have id2: "uuid2id ?c2 f = Some g" using W(3) id1 by simp
  have desc2: "describe ?c2 f = Some (d\<lparr>g_wires := g_wires d @ [uuid2string u]\<rparr>)" using W(2) d1(1) by simp
  let ?todo = "if u \<in> set processed then todo else set_insert u todo"
  have dt: "distinct ?todo" using Cons.prems(4) by simp
  obtain todo' c' where r: "load_children g processed us (?todo, ?c2) = (todo', c')" "named c'" "uuid2id c' f = Some g"
      "describe c' f = Some (d\<lparr>g_wires := g_wires d @ [uuid2string u]\<rparr>
         \<lparr>g_wires := g_wires (d\<lparr>g_wires := g_wires d @ [uuid2string u]\<rparr>) @ map uuid2string us\<rparr>)"
      "\<forall>f'. f' \<noteq> f \<longrightarrow> describe c' f' = (if describe ?c2 f' = None \<and> f' \<in> uuid2string ` set us then Some default_data else describe ?c2 f')"
      "distinct todo'" "set todo' = set ?todo \<union> (set us - set processed)"
    using Cons.IH[OF W(1) id2 desc2 dt] by blast
  have "describe ?c2 f' = (if describe c f' = None \<and> f' = uuid2string u then Some default_data else describe c f')" if "f' \<noteq> f" for f'
    using that W(2) G by (auto simp: touch_name_def)
  then show ?case using r g1 by (intro exI[of _ todo'] exI[of _ c']) auto
qed auto

text \<open>One iteration on a well-formed store.\<close>

lemma load_gate_describe:
  assumes s: "store_ok s" and n: "named c" and u: "describe c (uuid2string u) \<in> {None, Some default_data}" and d: "distinct todo"
  shows "\<exists>todo' c'. load_gate s u processed (todo, c) = Some (todo', c') \<and> named c' \<and>
    describe c' (uuid2string u) = Some (load_spec (view s) u) \<and>
    (\<forall>f. f \<noteq> uuid2string u \<longrightarrow> describe c' f = (if describe c f = None \<and> f \<in> uuid2string ` set (children_of (view s) u)
        then Some default_data else describe c f)) \<and>
    distinct todo' \<and> set todo' = set todo \<union> (set (children_of (view s) u) - set processed)"
proof -
  let ?f = "uuid2string u"
  define F where "F = (case view s u of Some f \<Rightarrow> f | None \<Rightarrow> fresh_facts gate_input [])"
  define p where "p = Option.bind (view s u) prob_facts"
  have look: "m_getGateType s u = Some (f_type F)" "m_getChildren s u = Some (f_children F)" "m_getProb s u = Some p"
      "m_getInfos s u = Some (f_infos F)" "m_getExtra s u = Some (f_extra F)"
    using lookups_correct[OF s, of u] by (simp_all add: F_def p_def fresh_facts_def split: option.splits)
  have kids: "children_of (view s) u = f_children F" by (simp add: F_def children_of_def fresh_facts_def split: option.splits)
  obtain g c1 where g: "getGate c ?f = (g, c1)" by (cases "getGate c ?f")
  note G = getGate_describe[OF n g]
  have dg: "describe c1 ?f = Some default_data" using G u by (auto simp: touch_name_def)
  have G1: "named c1" "uuid2id c1 ?f = Some g" using G by blast+
  have data1: "data_at c1 g = default_data" using dg G1(2) by (simp add: describe_def)
  let ?c2 = "register_input g (f_type F) (setGateType c1 g (f_type F))"
  note T = setGateType_describe[OF G1, of "f_type F"]
  have set: "setGate_uuid c ?f (f_type F) = (g, ?c2)" by (simp add: setGate_uuid_def g)
  have id2: "uuid2id ?c2 ?f = Some g" using T(3) G1(2) by simp
  define c3 where "c3 = (case p of None \<Rightarrow> ?c2 | Some q \<Rightarrow> setProb ?c2 g q)"
  have "describe ?c2 ?f = Some (default_data\<lparr>g_type := f_type F\<rparr>)" using T(2) data1 by simp
  then have data2: "data_at ?c2 g = default_data\<lparr>g_type := f_type F\<rparr>" using describe_data[OF id2] by blast
  have c3: "named c3 \<and> uuid2id c3 ?f = Some g \<and>
      describe c3 = (describe c1)(?f \<mapsto> default_data\<lparr>g_type := f_type F, g_prob := (case p of Some q \<Rightarrow> q | None \<Rightarrow> 1)\<rparr>)"
  proof (cases p)
    case None
    then show ?thesis using T(1,2) id2 data1 by (simp add: c3_def default_data_def)
  next
    case (Some q)
    then show ?thesis using setProb_describe[OF T(1) id2] T(2) id2 data2 by (simp add: c3_def)
  qed
  obtain todo' c4 where K: "load_children g processed (f_children F) (todo, c3) = (todo', c4)" "named c4" "uuid2id c4 ?f = Some g"
      "describe c4 ?f = Some (default_data\<lparr>g_type := f_type F, g_prob := (case p of Some q \<Rightarrow> q | None \<Rightarrow> 1),
         g_wires := map uuid2string (f_children F)\<rparr>)"
      "\<forall>f'. f' \<noteq> ?f \<longrightarrow> describe c4 f' = (if describe c3 f' = None \<and> f' \<in> uuid2string ` set (f_children F) then Some default_data else describe c3 f')"
      "distinct todo'" "set todo' = set todo \<union> (set (f_children F) - set processed)"
    using load_children_describe[OF conjunct1[OF c3] conjunct1[OF conjunct2[OF c3]] _ d, of "default_data\<lparr>g_type := f_type F, g_prob := (case p of Some q \<Rightarrow> q | None \<Rightarrow> 1)\<rparr>"
        processed "f_children F"] c3 by (auto simp: default_data_def)
  define sets where "sets \<longleftrightarrow> copies_infos (f_type F) \<or> copies_infos_if_set (f_type F) \<and> f_infos F \<noteq> (0, 0)"
  define c5 where "c5 = (if sets then setInfos c4 g (fst (f_infos F)) (snd (f_infos F)) else c4)"
  define c6 where "c6 = (if copies_extra (f_type F) then setExtra c5 g (f_extra F) else c5)"
  have data4: "data_at c4 g = default_data\<lparr>g_type := f_type F, g_prob := (case p of Some q \<Rightarrow> q | None \<Rightarrow> 1), g_wires := map uuid2string (f_children F)\<rparr>"
    using K(4) describe_data[OF K(3)] by blast
  let ?d5 = "(data_at c4 g)\<lparr>g_infos := (if sets then Some (f_infos F) else None)\<rparr>"
  have c5: "named c5 \<and> uuid2id c5 ?f = Some g \<and> describe c5 = (describe c4)(?f \<mapsto> ?d5)"
  proof (cases sets)
    case True
    then show ?thesis using setInfos_describe[OF K(2,3)] K(3) by (simp add: c5_def)
  next
    case False
    then show ?thesis using K(2,3,4) data4 by (auto simp: c5_def default_data_def)
  qed
  have "describe c5 ?f = Some ?d5" using c5 by simp
  then have data5: "data_at c5 g = ?d5" using describe_data[of c5 ?f g] c5 by blast
  let ?d6 = "?d5\<lparr>g_extra := (if copies_extra (f_type F) then Some (f_extra F) else None)\<rparr>"
  have c6: "named c6 \<and> describe c6 = (describe c5)(?f \<mapsto> ?d6)"
  proof (cases "copies_extra (f_type F)")
    case True
    then show ?thesis using setExtra_describe[of c5 ?f g] c5 data5 by (simp add: c6_def)
  next
    case False
    then show ?thesis using c5 data4 by (auto simp: c6_def default_data_def)
  qed
  then have here: "describe c6 ?f = Some (load_spec (view s) u)"
    using data4 by (simp add: load_spec_def Let_def default_data_def sets_def p_def flip: F_def)
  have run: "load_gate s u processed (todo, c) = Some (todo', c6)"
    unfolding load_gate_def prod.case look
    by (simp add: set Let_def K(1) c3_def[symmetric] c5_def c6_def sets_def prod_eq_iff)
  have "describe c6 f = (if describe c f = None \<and> f \<in> uuid2string ` set (f_children F) then Some default_data else describe c f)"
    if "f \<noteq> ?f" for f
    using that K(5) c3 c5 c6 G by (auto simp: touch_name_def)
  then show ?thesis using run conjunct1[OF c6] here K(6,7) unfolding kids by blast
qed

text \<open>The gates that exist are those processed and their children; those not processed yet are as they were created.\<close>

definition load_inv :: "(pg_uuid \<rightharpoonup> facts) \<Rightarrow> pg_uuid set \<Rightarrow> pg_uuid list \<Rightarrow> pg_uuid list \<times> generic_circuit \<Rightarrow> bool" where
  "load_inv M R processed st = (case st of (todo, c) \<Rightarrow>
     named c \<and> distinct todo \<and> set processed \<inter> set todo = {} \<and> set processed \<union> set todo \<subseteq> (token_edges M)\<^sup>* `` R \<and>
     R \<subseteq> set processed \<union> set todo \<and>
     (\<forall>u \<in> set processed. set (children_of M u) \<subseteq> set processed \<union> set todo) \<and>
     (\<forall>f. describe c f = (if f \<in> uuid2string ` set processed then Some (load_spec M (the_inv uuid2string f))
        else if \<exists>u \<in> set processed. f \<in> uuid2string ` set (children_of M u) then Some default_data else None)))"

lemma the_inv_name: "the_inv uuid2string (uuid2string u) = u"
  by (rule the_inv_f_f) (simp add: inj_def uuid2string_inject)

lemma name_in: "uuid2string u \<in> uuid2string ` U \<longleftrightarrow> u \<in> U"
  by (auto simp: uuid2string_inject)

lemma children_edges: "c \<in> set (children_of M u) \<longleftrightarrow> (u, c) \<in> token_edges M"
  by (cases "M u") (simp_all add: children_of_def token_edges_def)

lemma load_step:
  assumes s: "store_ok s" and inv: "load_inv (view s) R processed (u # todo, c)"
  shows "\<exists>st. load_gate s u (u # processed) (todo, c) = Some st \<and> load_inv (view s) R (u # processed) st"
proof -
  let ?f = "uuid2string u" and ?M = "view s"
  have n: "named c" and d: "distinct todo" "u \<notin> set todo" and u: "u \<notin> set processed"
    and disj: "set processed \<inter> set todo = {}" and R: "set processed \<union> set (u # todo) \<subseteq> (token_edges ?M)\<^sup>* `` R" "R \<subseteq> set processed \<union> set (u # todo)"
    and ch: "\<forall>v \<in> set processed. set (children_of ?M v) \<subseteq> set processed \<union> set (u # todo)"
    and D: "\<And>f. describe c f = (if f \<in> uuid2string ` set processed then Some (load_spec ?M (the_inv uuid2string f))
        else if \<exists>v \<in> set processed. f \<in> uuid2string ` set (children_of ?M v) then Some default_data else None)"
    using inv unfolding load_inv_def by auto
  have "describe c ?f \<in> {None, Some default_data}" using u by (simp add: D name_in)
  from load_gate_describe[OF s n this d(1), of "u # processed"]
  obtain todo' c' where L: "load_gate s u (u # processed) (todo, c) = Some (todo', c')" "named c'"
      "describe c' ?f = Some (load_spec ?M u)"
      "\<forall>f. f \<noteq> ?f \<longrightarrow> describe c' f = (if describe c f = None \<and> f \<in> uuid2string ` set (children_of ?M u) then Some default_data else describe c f)"
      "distinct todo'" "set todo' = set todo \<union> (set (children_of ?M u) - set (u # processed))"
    by blast
  have reach: "set (children_of ?M u) \<subseteq> (token_edges ?M)\<^sup>* `` R"
  proof
    fix c assume "c \<in> set (children_of ?M u)"
    then have "(u, c) \<in> token_edges ?M" by (simp add: children_edges)
    moreover have "u \<in> (token_edges ?M)\<^sup>* `` R" using R(1) by simp
    ultimately show "c \<in> (token_edges ?M)\<^sup>* `` R" by (meson Image_iff rtrancl.rtrancl_into_rtrancl)
  qed
  have "describe c' f = (if f \<in> uuid2string ` set (u # processed) then Some (load_spec ?M (the_inv uuid2string f))
        else if \<exists>v \<in> set (u # processed). f \<in> uuid2string ` set (children_of ?M v) then Some default_data else None)" for f
  proof (cases "f = ?f")
    case True
    then show ?thesis using L(3) by (simp add: the_inv_name)
  next
    case False
    then show ?thesis using L(4) by (simp add: D)
  qed
  then have "load_inv ?M R (u # processed) (todo', c')"
    using L(2,5,6) d u disj R ch reach unfolding load_inv_def by auto
  then show ?thesis using L(1) by blast
qed

lemma finite_reached: "store_ok s \<Longrightarrow> finite ((token_edges (view s))\<^sup>* `` set roots)"
proof -
  assume "store_ok s"
  then obtain ts where ts: "store_tokens s ts" "length ts \<le> 2 ^ 29" "set (m_wires s) \<subseteq> set ts" by (rule store_okE)
  have "c \<in> set ts" if "(u, c) \<in> token_edges (view s)" for u c
  proof -
    have "\<exists>f. view s u = Some f \<and> c \<in> set (f_children f)" using that by (simp add: token_edges_def)
    then obtain f where f: "view s u = Some f" "c \<in> set (f_children f)" by blast
    then have u: "u \<in> set ts" using dom_view[OF ts(1)] by blast
    note i = tokens_index(1)[OF ts(1,2) u]
    have "position ts u < length ts" using position_nth[OF u] by simp
    then show ?thesis using dom_children[OF ts(1,3)] f i by simp
  qed
  then have "(token_edges (view s))\<^sup>* `` set roots \<subseteq> set roots \<union> set ts"
    by (auto elim: rtranclE)
  from finite_subset[OF this] show ?thesis by simp
qed

lemma load_loop_correct:
  assumes s: "store_ok s"
  shows "load_inv (view s) (set roots) processed (todo, c) \<Longrightarrow>
    \<exists>c' P. load_loop s processed (todo, c) = Some c' \<and> load_inv (view s) (set roots) P ([], c')"
proof (induction "card ((token_edges (view s))\<^sup>* `` set roots - set processed)" arbitrary: processed todo c rule: less_induct)
  case less
  show ?case
  proof (cases todo)
    case Nil
    then show ?thesis using less.prems by (subst load_loop.simps) auto
  next
    case (Cons u us)
    obtain todo' c' where st: "load_gate s u (u # processed) (us, c) = Some (todo', c')"
        "load_inv (view s) (set roots) (u # processed) (todo', c')"
      using load_step[OF s less.prems[unfolded Cons]] by auto
    have "u \<in> (token_edges (view s))\<^sup>* `` set roots - set processed"
      using less.prems unfolding Cons load_inv_def by auto
    then have "card ((token_edges (view s))\<^sup>* `` set roots - set (u # processed)) <
        card ((token_edges (view s))\<^sup>* `` set roots - set processed)"
      using finite_reached[OF s] by (intro psubset_card_mono) auto
    from less.hyps[OF this st(2)] show ?thesis using st(1) by (subst load_loop.simps) (simp add: Cons)
  qed
qed

lemma set_fold_set_insert: "set (fold set_insert us xs) = set us \<union> set xs" "distinct xs \<Longrightarrow> distinct (fold set_insert us xs)"
  by (induction us arbitrary: xs) auto

lemma load_run:
  assumes "store_ok s"
  shows "\<exists>c. createGenericCircuit s roots = Some c \<and> wf_circuit c \<and>
    length (gates c) = card ((token_edges (view s))\<^sup>* `` set roots) \<and>
    (\<forall>u. describe c (uuid2string u) =
      (if u \<in> (token_edges (view s))\<^sup>* `` set roots then Some (load_spec (view s) u) else None))"
proof -
  let ?R = "(token_edges (view s))\<^sup>* `` set roots" and ?M = "view s"
  have "load_inv ?M (set roots) [] (fold set_insert roots [], empty_circuit)"
    by (auto simp: load_inv_def named_empty set_fold_set_insert)
  then obtain c P where c: "load_loop s [] (fold set_insert roots [], empty_circuit) = Some c" "load_inv ?M (set roots) P ([], c)"
    using load_loop_correct[OF assms] by blast
  have closed: "set (children_of ?M u) \<subseteq> set P" if "u \<in> set P" for u using c(2) that by (simp add: load_inv_def)
  have "set P = ?R"
  proof
    show "?R \<subseteq> set P"
    proof
      fix u assume "u \<in> ?R"
      then obtain r where "(r, u) \<in> (token_edges ?M)\<^sup>*" "r \<in> set roots" by blast
      then show "u \<in> set P"
        by (induction rule: rtrancl_induct) (use c(2) closed in \<open>auto simp: load_inv_def simp flip: children_edges\<close>)
    qed
  qed (use c(2) in \<open>auto simp: load_inv_def\<close>)
  then have out: "\<not> (\<exists>u \<in> set P. f \<in> uuid2string ` set (children_of ?M u))" if "f \<notin> uuid2string ` ?R" for f
    using closed that by blast
  have D: "describe c f = (if f \<in> uuid2string ` ?R then Some (load_spec ?M (the_inv uuid2string f)) else None)" for f
    using c(2) out[of f] \<open>set P = ?R\<close> by (simp add: load_inv_def)
  have n: "named c" using c(2) by (simp add: load_inv_def)
  have "bij_betw (getUUID c) {..< length (gates c)} (uuid2string ` ?R)"
  proof (rule bij_betw_imageI)
    show "inj_on (getUUID c) {..< length (gates c)}"
      using n namedD(1)[OF n] by (auto simp: inj_on_def named_def getUUID_def split: option.splits) (metis option.inject)
    have "f \<in> getUUID c ` {..< length (gates c)} \<longleftrightarrow> uuid2id c f \<noteq> None" for f
      using n namedD[OF n] by (auto simp: named_def image_iff) (metis lessThan_iff namedD(1) namedD(6) n option.exhaust)+
    moreover have "uuid2id c f \<noteq> None \<longleftrightarrow> f \<in> uuid2string ` ?R" for f
      using D[of f] by (cases "uuid2id c f") (simp_all add: describe_def split: if_splits)
    ultimately show "getUUID c ` {..< length (gates c)} = uuid2string ` ?R" by blast
  qed
  then have "length (gates c) = card (uuid2string ` ?R)" using bij_betw_same_card by fastforce
  also have "\<dots> = card ?R" by (rule card_image) (simp add: inj_on_def uuid2string_inject)
  finally show ?thesis using c(1) n D by (auto simp: createGenericCircuit_def named_def the_inv_name name_in)
qed

text \<open>C24: loading from a well-formed store always returns a well-formed circuit; its gates are, under the texts of
  their tokens, exactly the tokens that the roots reach, and each has the type, the children, the probability and
  the annotations that the store gives its token (an unknown token being an input of probability 1).\<close>

theorem createGenericCircuit_correct:
  assumes "store_ok s"
  shows "\<exists>c. createGenericCircuit s roots = Some c \<and> wf_circuit c \<and>
    length (gates c) = card ((token_edges (view s))\<^sup>* `` set roots) \<and>
    (\<forall>u. describe c (uuid2string u) =
      (if u \<in> (token_edges (view s))\<^sup>* `` set roots then Some (load_spec (view s) u) else None))"
  using assms by (rule load_run)

lemma createGenericCircuit_correct_witness:
  "\<exists>s c. createGate new_store (1, 1) gate_plus [(2, 2), (3, 3)] = Some s \<and> createGenericCircuit s [(1, 1)] = Some c \<and>
    (\<exists>d. describe c (uuid2string (1, 1)) = Some d \<and> g_type d = gate_plus \<and> g_wires d = [uuid2string (2, 2), uuid2string (3, 3)])"
proof -
  obtain s where s: "createGate new_store (1, 1) gate_plus [(2, 2), (3, 3)] = Some s" "store_ok s"
      "view s = create_spec (1, 1) gate_plus [(2, 2), (3, 3)] Map.empty"
    using createGate_run[OF new_store_ok(1), of "[(2, 2), (3, 3)]" "(1, 1)" gate_plus] new_store_ok(2)
    by (auto simp: new_store_def)
  have "view s (1, 1) = Some (fresh_facts gate_plus [(2, 2), (3, 3)])" by (simp add: s(3) create_spec_def touch_def)
  then show ?thesis using createGenericCircuit_correct[OF s(2), of "[(1, 1)]"] s(1)
    by (auto simp: load_spec_def fresh_facts_def Let_def)
qed
end
