(* ===== verification/Backend.thy ===== *)
theory Backend
  imports CircuitCache Loading
begin

text \<open>
  The worker and its clients: \<open>provsql_mmap_dispatch\<close> (\<open>src/MMappedCircuit.cpp\<close>) carries out the messages one by
  one on the store; \<open>provsql_internal_create_gate\<close>, \<open>provsql_fetch_gate\<close> and \<open>get_children\<close> (\<open>src/provsql_mmap.c\<close>)
  are what a session does, with its own cache.  The pipe is first in, first out and an exchange holds the
  lock until its reply, so that a message is carried out when it is sent; its bytes are not modelled.
\<close>

section \<open>The worker\<close>

datatype request =
  ReqC pg_uuid gate_type "pg_uuid list"
| ReqP pg_uuid "real option"
| ReqHasProb pg_uuid
| ReqI pg_uuid nat nat
| ReqE pg_uuid string
| ReqType pg_uuid
| ReqNbGates
| ReqChildren pg_uuid
| ReqProb pg_uuid
| ReqInfos pg_uuid
| ReqExtra pg_uuid
| ReqGeneric pg_uuid
| ReqX bool "pg_uuid list"
| ReqSync
| ReqCheck
| ReqJoint "pg_uuid list"

datatype reply =
  NoReply
| ProbResult set_prob_result
| WrittenProb "real option"
| InfosResult "(nat \<times> nat) set_annotation_result"
| ExtraResult "string set_annotation_result"
| TypeReply gate_type
| NbGatesReply nat
| ChildrenReply "pg_uuid list"
| ProbReply "real option"
| InfosReply "nat \<times> nat"
| ExtraReply string
| CircuitReply generic_circuit
| CleanupReply "counts \<times> counts"
| SyncReply
| CheckReply check_report

text \<open>The read requests leave the store alone.\<close>

definition answer :: "store \<Rightarrow> ('a \<Rightarrow> reply) \<Rightarrow> 'a option \<Rightarrow> (reply \<times> store) option" where
  "answer s f r = map_option (\<lambda>a. (f a, s)) r"

fun dispatch :: "request \<Rightarrow> store \<Rightarrow> (reply \<times> store) option" where
  "dispatch (ReqC u t cs) s = map_option (\<lambda>s'. (NoReply, s')) (createGate s u t cs)"
| "dispatch (ReqP u p) s = map_option (\<lambda>(r, s'). (ProbResult r, s')) (m_setProb s u p)"
| "dispatch (ReqHasProb u) s = answer s WrittenProb (m_hasProb s u)"
| "dispatch (ReqI u i1 i2) s = map_option (\<lambda>(r, s'). (InfosResult r, s')) (m_setInfos s u i1 i2)"
| "dispatch (ReqE u str) s =
     (if length str > 0 then map_option (\<lambda>(r, s'). (ExtraResult r, s')) (m_setExtra s u str)
      else Some (ExtraResult AnnUnchanged, s))"
| "dispatch (ReqType u) s = answer s TypeReply (m_getGateType s u)"
| "dispatch ReqNbGates s = Some (NbGatesReply (length (m_gates s)), s)"
| "dispatch (ReqChildren u) s = answer s ChildrenReply (m_getChildren s u)"
| "dispatch (ReqProb u) s = answer s ProbReply (m_getProb s u)"
| "dispatch (ReqInfos u) s = answer s InfosReply (m_getInfos s u)"
| "dispatch (ReqExtra u) s = answer s ExtraReply (m_getExtra s u)"
| "dispatch (ReqGeneric u) s = answer s CircuitReply (createGenericCircuit s [u])"
| "dispatch (ReqX dry_run roots) s = map_option (\<lambda>(r, s'). (CleanupReply r, s')) (cleanupStore s roots dry_run)"
| "dispatch ReqSync s = Some (SyncReply, s)"
| "dispatch ReqCheck s = Some (CheckReply (check_store s), s)"
| "dispatch (ReqJoint roots) s = answer s CircuitReply (createGenericCircuit s roots)"

fun worker :: "request list \<Rightarrow> store \<Rightarrow> (reply list \<times> store) option" where
  "worker [] s = Some ([], s)"
| "worker (q # qs) s = Option.bind (dispatch q s) (\<lambda>(r, s). map_option (\<lambda>(rs, s). (r # rs, s)) (worker qs s))"

text \<open>The gates a request can add, and the requests within the widths of the store.\<close>

fun request_size :: "request \<Rightarrow> nat" where
  "request_size (ReqC u t cs) = length cs + 1"
| "request_size (ReqP u p) = 1"
| "request_size _ = 0"

fun request_fits :: "request \<Rightarrow> bool" where
  "request_fits (ReqE u str) \<longleftrightarrow> length str < 2 ^ 32"
| "request_fits _ \<longleftrightarrow> True"

text \<open>The map after a request.\<close>

fun request_spec :: "nat \<Rightarrow> request \<Rightarrow> (pg_uuid \<rightharpoonup> facts) \<Rightarrow> pg_uuid \<rightharpoonup> facts" where
  "request_spec v (ReqC u t cs) M = create_spec u t cs M"
| "request_spec v (ReqP u p) M = snd (set_prob_spec v u p M)"
| "request_spec v (ReqI u i1 i2) M = snd (set_infos_spec u i1 i2 M)"
| "request_spec v (ReqE u str) M = (if str = [] then M else snd (set_extra_spec u str M))"
| "request_spec v (ReqX False roots) M =
     (\<lambda>u. if u \<in> kept_tokens M roots then map_option (settle v) (M u) else None)"
| "request_spec v _ M = M"

lemma appendGate_version: "appendGate s u t cs = Some s' \<Longrightarrow> gates_version s' = gates_version s"
  by (auto simp: appendGate_def Let_def)

lemma append_missing_version: "append_missing s cs = Some s' \<Longrightarrow> gates_version s' = gates_version s"
  by (induction cs arbitrary: s) (auto simp: bind_eq_Some_conv appendGate_version split: if_splits)

lemma createGate_version: "createGate s u t cs = Some s' \<Longrightarrow> gates_version s' = gates_version s"
  by (auto simp: createGate_def Let_def bind_eq_Some_conv run_upgrade update_gate_def appendGate_version dest!: append_missing_version
      split: if_splits)

lemma dispatch_correct:
  assumes ok: "store_ok s" and room: "length (m_gates s) + request_size q < 2 ^ 29" and fits: "request_fits q"
    and noX: "\<And>d roots. q \<noteq> ReqX d roots"
  shows "\<exists>r s'. dispatch q s = Some (r, s') \<and> store_ok s' \<and> view s' = request_spec (gates_version s) q (view s) \<and>
    gates_version s' = gates_version s \<and> length (m_gates s') \<le> length (m_gates s) + request_size q"
proof (cases q)
  case (ReqC u t cs)
  then show ?thesis using createGate_run[OF ok, of cs u t] createGate_version room by fastforce
next
  case (ReqP u p)
  have "length (m_gates s) < 2 ^ 29" using room by simp
  from setProb_refines[OF ok this, of u p] show ?thesis using ReqP by (auto simp: prod_eq_iff)
next
  case (ReqI u i1 i2)
  then show ?thesis using setInfos_refines[OF ok, of u i1 i2] by (auto simp: prod_eq_iff)
next
  case (ReqE u str)
  then show ?thesis using setExtra_refines[OF ok, of str u] fits ok by (auto simp: prod_eq_iff)
next
  case (ReqGeneric u)
  then show ?thesis using load_run[OF ok, of "[u]"] ok by (auto simp: answer_def)
next
  case (ReqJoint roots)
  then show ?thesis using load_run[OF ok, of roots] ok by (auto simp: answer_def)
qed (use noX lookups_correct[OF ok] ok in \<open>auto simp: answer_def\<close>)


section \<open>Runs of the worker\<close>

lemma sweepInto_version: "sweepInto s live = Some s' \<Longrightarrow> gates_version s' = GATES_VERSION"
proof -
  have step: "gates_version (sweep_gate s i ns) = gates_version ns" for i ns
    by (simp add: sweep_gate_def Let_def)
  have "gates_version (sweep_gates s live is ns) = gates_version ns" for "is" ns
    unfolding sweep_gates_def by (induction "is" arbitrary: ns) (simp_all add: step)
  then show "sweepInto s live = Some s' \<Longrightarrow> ?thesis" by (auto simp: sweepInto_def Let_def new_store_def)
qed

lemma gates_card: "store_ok s \<Longrightarrow> length (m_gates s) = card (dom (view s))"
  by (elim store_okE) (simp add: dom_view, simp add: store_tokens_def numbers_def distinct_card)

fun request_version :: "request \<Rightarrow> nat \<Rightarrow> nat" where
  "request_version (ReqX False roots) v = GATES_VERSION"
| "request_version _ v = v"

definition run_spec :: "request \<Rightarrow> nat \<times> (pg_uuid \<rightharpoonup> facts) \<Rightarrow> nat \<times> (pg_uuid \<rightharpoonup> facts)" where
  "run_spec q vM = (request_version q (fst vM), request_spec (fst vM) q (snd vM))"

lemma cleanup_smaller: "store_ok s \<Longrightarrow> store_ok ns \<Longrightarrow> dom (view ns) \<subseteq> dom (view s) \<Longrightarrow> length (m_gates ns) \<le> length (m_gates s)"
proof -
  assume s: "store_ok s" "store_ok ns" and sub: "dom (view ns) \<subseteq> dom (view s)"
  obtain ts where "store_tokens s ts" using s(1) by (rule store_okE)
  then have "finite (dom (view s))" using dom_view by simp
  from card_mono[OF this sub] show ?thesis using gates_card s by simp
qed

lemma dispatch_any:
  assumes ok: "store_ok s" and room: "length (m_gates s) + request_size q < 2 ^ 29" and fits: "request_fits q"
  shows "\<exists>r s'. dispatch q s = Some (r, s') \<and> store_ok s' \<and> (gates_version s', view s') = run_spec q (gates_version s, view s) \<and>
    length (m_gates s') \<le> length (m_gates s) + request_size q"
proof (cases "\<exists>d roots. q = ReqX d roots")
  case True
  then obtain d roots where q: "q = ReqX d roots" by blast
  obtain n ns where C: "cleanupStore s roots True = Some ((store_counts s, (n, 0, 0)), s)"
      "cleanupStore s roots False = Some ((store_counts s, store_counts ns), ns)" "store_ok ns"
      "view ns = (\<lambda>u. if u \<in> kept_tokens (view s) roots then map_option (settle (gates_version s)) (view s u) else None)"
    using cleanup_run[OF ok, of roots] by blast
  have "gates_version ns = GATES_VERSION"
    using C(2) by (auto simp: cleanupStore_def bind_eq_Some_conv dest: sweepInto_version split: prod.splits)
  moreover have "length (m_gates ns) \<le> length (m_gates s)"
    by (rule cleanup_smaller[OF ok C(3)]) (auto simp: C(4) dom_def kept_tokens_def split: if_splits)
  ultimately show ?thesis using q C ok by (cases d) (simp_all add: run_spec_def)
next
  case False
  then have "request_version q v = v" for v by (cases q) auto
  then show ?thesis using dispatch_correct[OF ok room fits] False by (fastforce simp: run_spec_def)
qed

lemma worker_run:
  assumes "store_ok s" "length (m_gates s) + sum_list (map request_size qs) < 2 ^ 29" "\<forall>q \<in> set qs. request_fits q"
  shows "\<exists>rs s'. worker qs s = Some (rs, s') \<and> length rs = length qs \<and> store_ok s' \<and>
    (gates_version s', view s') = fold run_spec qs (gates_version s, view s)"
  using assms
proof (induction qs arbitrary: s)
  case (Cons q qs)
  obtain r s1 where s1: "dispatch q s = Some (r, s1)" "store_ok s1" "(gates_version s1, view s1) = run_spec q (gates_version s, view s)"
      "length (m_gates s1) \<le> length (m_gates s) + request_size q"
    using dispatch_any[OF Cons.prems(1), of q] Cons.prems(2,3) by auto
  have "length (m_gates s1) + sum_list (map request_size qs) < 2 ^ 29" using s1(4) Cons.prems(2) by simp
  from Cons.IH[OF s1(2) this] obtain rs s' where "worker qs s1 = Some (rs, s')" "length rs = length qs" "store_ok s'"
      "(gates_version s', view s') = fold run_spec qs (gates_version s1, view s1)" using Cons.prems(3) by auto
  then show ?case using s1 by auto
qed simp

text \<open>C22: the worker carries out every sequence of messages it can be sent (within the sizes of the store): each one
  returns, the store stays well-formed, and what it says at the end is what the specifications of the
  messages make, one after the other, of what it said at the beginning.\<close>

theorem worker_refines:
  assumes "store_ok s" "length (m_gates s) + sum_list (map request_size qs) < 2 ^ 29" "\<forall>q \<in> set qs. request_fits q"
  shows "\<exists>rs s'. worker qs s = Some (rs, s') \<and> length rs = length qs \<and> store_ok s' \<and>
    (gates_version s', view s') = fold run_spec qs (gates_version s, view s)"
  using assms by (rule worker_run)

lemma worker_refines_witness:
  "\<exists>rs s. worker [ReqC (1, 1) gate_plus [(2, 2)], ReqP (2, 2) (Some (1/2)), ReqX False [(1, 1)]] new_store = Some (rs, s) \<and> store_ok s"
  using worker_refines[OF new_store_ok(1), of "[ReqC (1, 1) gate_plus [(2, 2)], ReqP (2, 2) (Some (1/2)), ReqX False [(1, 1)]]"]
  by (auto simp: new_store_def)

text \<open>What is recorded once stays: the order on what is known of a gate.  In a store of a version v below 2 the
  probability 1 stands for none.\<close>

definition facts_le :: "nat \<Rightarrow> facts \<Rightarrow> facts \<Rightarrow> bool" where
  "facts_le v f f' \<longleftrightarrow>
     (is_placeholder f \<or> f_type f' = f_type f \<and> f_children f' = f_children f) \<and>
     (f_prob f = None \<or> v < 2 \<and> f_prob f = Some 1 \<or> f_prob f' = f_prob f) \<and>
     (fst (f_infos f) = 0 \<or> fst (f_infos f') = fst (f_infos f)) \<and>
     (snd (f_infos f) = 0 \<or> snd (f_infos f') = snd (f_infos f)) \<and>
     (f_extra f = [] \<or> f_extra f' = f_extra f)"

definition map_grows :: "nat \<Rightarrow> (pg_uuid \<rightharpoonup> facts) \<Rightarrow> (pg_uuid \<rightharpoonup> facts) \<Rightarrow> bool" where
  "map_grows v M M' \<longleftrightarrow> (\<forall>u f. M u = Some f \<longrightarrow> (\<exists>f'. M' u = Some f' \<and> facts_le v f f'))"

lemma facts_le_refl [simp]: "facts_le v f f"
  by (simp add: facts_le_def)

lemma facts_le_trans: "facts_le v f g \<Longrightarrow> facts_le v g h \<Longrightarrow> facts_le v f h"
  unfolding facts_le_def is_placeholder_def by (intro conjI; elim conjE; metis)

lemma map_grows_refl [simp]: "map_grows v M M"
  by (simp add: map_grows_def)

lemma map_grows_trans: "map_grows v L M \<Longrightarrow> map_grows v M N \<Longrightarrow> map_grows v L N"
proof -
  assume L: "map_grows v L M" and M: "map_grows v M N"
  show ?thesis unfolding map_grows_def
  proof (intro allI impI)
    fix u f assume "L u = Some f"
    then obtain g where g: "M u = Some g" "facts_le v f g" using L unfolding map_grows_def by blast
    then obtain h where "N u = Some h" "facts_le v g h" using M unfolding map_grows_def by blast
    then show "\<exists>f'. N u = Some f' \<and> facts_le v f f'" using facts_le_trans[OF g(2)] by blast
  qed
qed

lemma map_grows_touch: "map_grows v M M' \<Longrightarrow> map_grows v M (touch cs M')"
  by (fastforce simp: map_grows_def touch_def)

lemma map_grows_update: "(\<And>f. M u = Some f \<Longrightarrow> facts_le v f g) \<Longrightarrow> map_grows v M (M(u \<mapsto> g))"
  by (auto simp: map_grows_def)

fun appends :: "request \<Rightarrow> bool" where
  "appends (ReqX d roots) \<longleftrightarrow> False"
| "appends (ReqP u p) \<longleftrightarrow> p \<noteq> None"
| "appends _ \<longleftrightarrow> True"

lemma request_grows:
  assumes "appends q"
  shows "map_grows v M (request_spec v q M)"
proof (cases q)
  case (ReqC u t cs)
  show ?thesis
  proof (cases "M u")
    case None
    then show ?thesis by (auto simp: ReqC create_spec_def intro!: map_grows_touch map_grows_update)
  next
    case (Some f)
    then show ?thesis
      by (auto simp: ReqC create_spec_def facts_le_def intro!: map_grows_touch map_grows_update)
  qed
next
  case (ReqP u p)
  let ?M = "touch [u] M"
  have g: "map_grows v M ?M" by (simp add: map_grows_touch)
  have "map_grows v ?M (snd (set_prob_spec v u p M))"
    using assms ReqP by (auto simp: set_prob_spec_def Let_def has_prob_facts_def facts_le_def intro!: map_grows_update)
  then show ?thesis using map_grows_trans[OF g] ReqP by simp
next
  case (ReqI u i1 i2)
  then show ?thesis
    by (auto simp: set_infos_spec_def facts_le_def intro!: map_grows_update split: option.splits prod.splits)
next
  case (ReqE u str)
  then show ?thesis
    by (auto simp: set_extra_spec_def facts_le_def intro!: map_grows_update split: option.splits)
qed (use assms in auto)

text \<open>C23: whatever a worker is sent, except the clearing of a probability (a transaction that rolls back) and a
  clean-up, the store only grows: a gate that is no placeholder keeps its type and children, a probability, an
  annotation or an extra string once written is never changed; but for the probability 1 in a store of the
  first version, which had it for gates without one.\<close>

theorem worker_write_once:
  assumes "store_ok s" "length (m_gates s) + sum_list (map request_size qs) < 2 ^ 29"
    and "\<forall>q \<in> set qs. request_fits q \<and> appends q" "worker qs s = Some (rs, s')"
  shows "map_grows (gates_version s) (view s) (view s')"
proof -
  have "map_grows (fst vM) (snd vM) (snd (fold run_spec qs vM))" if "\<forall>q \<in> set qs. appends q" for vM
    using that
  proof (induction qs arbitrary: vM)
    case (Cons q qs)
    have "request_version q (fst vM) = fst vM" using Cons.prems by (cases q) auto
    then have "fst (run_spec q vM) = fst vM" "map_grows (fst vM) (snd vM) (snd (run_spec q vM))"
      using Cons.prems request_grows by (simp_all add: run_spec_def)
    then show ?case using Cons.IH[of "run_spec q vM"] Cons.prems by (auto intro: map_grows_trans)
  qed simp
  from this[of "(gates_version s, view s)"] assms(3)
  have "map_grows (gates_version s) (view s) (snd (fold run_spec qs (gates_version s, view s)))" by simp
  moreover obtain rs' s'' where "worker qs s = Some (rs', s'')"
      "(gates_version s'', view s'') = fold run_spec qs (gates_version s, view s)"
    using worker_run[OF assms(1,2)] assms(3) by blast
  ultimately show ?thesis using assms(4) by (metis option.inject prod.inject snd_conv)
qed

lemma worker_write_once_witness:
  "\<exists>s rs s'. createGate new_store (1, 1) gate_plus [(2, 2)] = Some s \<and>
    worker [ReqC (1, 1) gate_times [], ReqP (2, 2) (Some 1)] s = Some (rs, s') \<and>
    map_option f_type (view s' (1, 1)) = Some gate_plus"
proof -
  obtain s where s: "createGate new_store (1, 1) gate_plus [(2, 2)] = Some s" "store_ok s" "length (m_gates s) \<le> 2"
      "view s = create_spec (1, 1) gate_plus [(2, 2)] Map.empty"
    using createGate_run[OF new_store_ok(1), of "[(2, 2)]" "(1, 1)" gate_plus] new_store_ok(2)
    by (auto simp: new_store_def)
  let ?qs = "[ReqC (1, 1) gate_times [], ReqP (2, 2) (Some 1)]"
  have room: "length (m_gates s) + sum_list (map request_size ?qs) < 2 ^ 29" using s(3) by simp
  obtain rs s' where w: "worker ?qs s = Some (rs, s')" using worker_run[OF s(2) room] by auto
  have "map_grows (gates_version s) (view s) (view s')" by (rule worker_write_once[OF s(2) room _ w]) simp
  moreover have "view s (1, 1) = Some (fresh_facts gate_plus [(2, 2)])" by (simp add: s(4) create_spec_def touch_def)
  ultimately show ?thesis using s(1) w unfolding map_grows_def
    by (fastforce simp: facts_le_def is_placeholder_def fresh_facts_def)
qed

section \<open>The sessions\<close>

text \<open>A session sends a message and reads its reply.\<close>

definition provsql_internal_create_gate :: "pg_uuid \<Rightarrow> gate_type \<Rightarrow> pg_uuid list \<Rightarrow> circuit_cache \<Rightarrow> store \<Rightarrow>
    (circuit_cache \<times> store) option" where
  "provsql_internal_create_gate token t children c s =
     map_option (\<lambda>(_, s'). (snd (circuit_cache_create_gate c token t children), s')) (dispatch (ReqC token t children) s)"

definition ask_type :: "pg_uuid \<Rightarrow> store \<Rightarrow> gate_type option" where
  "ask_type token s = Option.bind (dispatch (ReqType token) s) (\<lambda>(r, _). case r of TypeReply t \<Rightarrow> Some t | _ \<Rightarrow> None)"

definition ask_children :: "pg_uuid \<Rightarrow> store \<Rightarrow> pg_uuid list option" where
  "ask_children token s = Option.bind (dispatch (ReqChildren token) s) (\<lambda>(r, _). case r of ChildrenReply cs \<Rightarrow> Some cs | _ \<Rightarrow> None)"

definition provsql_fetch_gate :: "pg_uuid \<Rightarrow> circuit_cache \<Rightarrow> store \<Rightarrow> ((gate_type \<times> pg_uuid list) \<times> circuit_cache) option" where
  "provsql_fetch_gate token c s =
     (let t = circuit_cache_get_type c token in
      if t \<noteq> gate_invalid then
        Some ((t, case circuit_cache_get_children c token of Some cs \<Rightarrow> cs | None \<Rightarrow> []), c)
      else Option.bind (ask_type token s) (\<lambda>t.
        Option.bind (if t \<noteq> gate_invalid then ask_children token s else Some []) (\<lambda>cs.
          Some ((t, cs), if \<not> (t = gate_input \<and> cs = []) then snd (circuit_cache_create_gate c token t cs) else c))))"

definition get_children :: "pg_uuid \<Rightarrow> circuit_cache \<Rightarrow> store \<Rightarrow> (pg_uuid list \<times> circuit_cache) option" where
  "get_children token c s = (case circuit_cache_get_children c token of
     Some cs \<Rightarrow> Some (cs, c)
   | None \<Rightarrow> Option.bind (ask_children token s) (\<lambda>cs.
       Some (cs, if length cs > 0 then snd (circuit_cache_create_gate c token gate_invalid cs) else c)))"

text \<open>
  Any number of sessions with one store.  Tokens are computed from the content of their gates, so that
  all sessions create a token with the same type and children: \<open>content\<close>.  The third part of the
  state is the set of the tokens created so far.
\<close>

type_synonym system = "store \<times> (nat \<Rightarrow> circuit_cache) \<times> pg_uuid set"

inductive session_step :: "(pg_uuid \<Rightarrow> gate_type \<times> pg_uuid list) \<Rightarrow> system \<Rightarrow> system \<Rightarrow> bool" for content where
  create: "length (m_gates s) + length (snd (content u)) < 2 ^ 29 \<Longrightarrow>
    provsql_internal_create_gate u (fst (content u)) (snd (content u)) (C i) s = Some (c, s') \<Longrightarrow>
    session_step content (s, C, K) (s', C(i := c), insert u K)"
| fetch: "provsql_fetch_gate u (C i) s = Some (a, c) \<Longrightarrow> session_step content (s, C, K) (s, C(i := c), K)"
| children: "get_children u (C i) s = Some (cs, c) \<Longrightarrow> session_step content (s, C, K) (s, C(i := c), K)"
| annotate: "q \<in> {ReqP u p, ReqI u i1 i2, ReqE u str} \<Longrightarrow> request_fits q \<Longrightarrow> length (m_gates s) + 1 < 2 ^ 29 \<Longrightarrow>
    dispatch q s = Some (r, s') \<Longrightarrow> session_step content (s, C, K) (s', C, K)"
| reset: "session_step content (s, C, K) (s, C(i := empty_cache), K)"

inductive_cases session_stepE: "session_step content (s, C, K) (s', C', K')"

text \<open>What holds of the store and of every entry of a cache.\<close>

definition has_content :: "(pg_uuid \<Rightarrow> gate_type \<times> pg_uuid list) \<Rightarrow> facts \<Rightarrow> pg_uuid \<Rightarrow> bool" where
  "has_content content f u \<longleftrightarrow> (f_type f, f_children f) = content u"

definition entry_right :: "(pg_uuid \<Rightarrow> gate_type \<times> pg_uuid list) \<Rightarrow> cache_infos \<Rightarrow> bool" where
  "entry_right content e \<longleftrightarrow> c_children e = snd (content (c_token e)) \<and> c_type e \<in> {gate_invalid, fst (content (c_token e))}"

definition coherent :: "(pg_uuid \<Rightarrow> gate_type \<times> pg_uuid list) \<Rightarrow> system \<Rightarrow> bool" where
  "coherent content st = (case st of (s, C, K) \<Rightarrow>
     store_ok s \<and> (\<forall>u f. view s u = Some f \<longrightarrow> is_placeholder f \<or> has_content content f u) \<and>
     (\<forall>u \<in> K. \<exists>f. view s u = Some f \<and> has_content content f u) \<and>
     (\<forall>i. \<forall>e \<in> set (il (C i)). entry_right content e))"

lemma coherentD:
  assumes "coherent content (s, C, K)"
  shows "store_ok s" "view s u = Some f \<Longrightarrow> is_placeholder f \<or> has_content content f u"
    "u \<in> K \<Longrightarrow> \<exists>f. view s u = Some f \<and> has_content content f u" "\<forall>e \<in> set (il (C i)). entry_right content e"
  using assms unfolding coherent_def prod.case by blast+

lemma ask_correct:
  assumes "store_ok s"
  shows "ask_type u s = Some (case view s u of Some f \<Rightarrow> f_type f | None \<Rightarrow> gate_input)"
    "ask_children u s = Some (case view s u of Some f \<Rightarrow> f_children f | None \<Rightarrow> [])"
  using lookups_correct[OF assms, of u] by (simp_all add: ask_type_def ask_children_def answer_def)

lemma create_gate_entries:
  assumes "\<forall>e \<in> set (il c). entry_right content e" "cs = snd (content u)" "t \<in> {gate_invalid, fst (content u)}"
  shows "\<forall>e \<in> set (il (snd (circuit_cache_create_gate c u t cs))). entry_right content e"
  unfolding circuit_cache_create_gate_def using assms by (intro gate_cache.ins_all) (auto simp: entry_right_def)

lemma cached_type:
  assumes "\<forall>e \<in> set (il c). entry_right content e" "circuit_cache_get_type c u \<noteq> gate_invalid"
  shows "circuit_cache_get_type c u = fst (content u)"
    "(case circuit_cache_get_children c u of Some cs \<Rightarrow> cs | None \<Rightarrow> []) = snd (content u)"
proof -
  obtain e where e: "cache_get c u = Some e" using assms(2) by (auto simp: circuit_cache_get_type_def split: option.splits)
  from gate_cache.get_all[OF assms(1) e] assms(2) show "circuit_cache_get_type c u = fst (content u)"
    "(case circuit_cache_get_children c u of Some cs \<Rightarrow> cs | None \<Rightarrow> []) = snd (content u)"
    by (auto simp: entry_right_def circuit_cache_get_type_def circuit_cache_get_children_def e)
qed

lemma cached_children:
  assumes "\<forall>e \<in> set (il c). entry_right content e" "circuit_cache_get_children c u = Some cs"
  shows "cs = snd (content u)"
proof -
  obtain e where e: "cache_get c u = Some e" using assms(2) by (auto simp: circuit_cache_get_children_def split: option.splits)
  from gate_cache.get_all[OF assms(1) e] assms(2) show ?thesis
    by (auto simp: entry_right_def circuit_cache_get_children_def e split: if_splits)
qed

text \<open>What the store answers: the content, or the default for a token nobody has created.\<close>

lemma stored_answer:
  assumes "coherent content (s, C, K)"
  obtains f where "view s u = Some f" "(f_type f, f_children f) = content u"
  | "u \<notin> K" "(case view s u of Some f \<Rightarrow> f_type f | None \<Rightarrow> gate_input) = gate_input"
    "(case view s u of Some f \<Rightarrow> f_children f | None \<Rightarrow> []) = []"
proof (cases "view s u")
  case None
  then have "u \<notin> K" using coherentD(3)[OF assms, of u] by auto
  then show thesis using that(2) None by simp
next
  case (Some f)
  then consider "has_content content f u" | "is_placeholder f" "\<not> has_content content f u"
    using coherentD(2)[OF assms Some] by blast
  then show thesis
  proof cases
    case 1
    then show thesis using that(1)[OF Some] by (simp add: has_content_def)
  next
    case 2
    then have "u \<notin> K" using coherentD(3)[OF assms, of u] Some by auto
    then show thesis using that(2) 2(1) Some by (simp add: is_placeholder_def)
  qed
qed

lemma fetch_answer:
  assumes co: "coherent content (s, C, K)" and real: "fst (content u) \<noteq> gate_invalid"
  shows "\<exists>a c. provsql_fetch_gate u (C i) s = Some (a, c) \<and> (a = content u \<or> a = (gate_input, []) \<and> u \<notin> K) \<and>
    (\<forall>e \<in> set (il c). entry_right content e)"
proof -
  have ok: "store_ok s" and ent: "\<forall>e \<in> set (il (C i)). entry_right content e" using co by (auto simp: coherent_def)
  show ?thesis
  proof (cases "circuit_cache_get_type (C i) u = gate_invalid")
    case False
    then show ?thesis using cached_type[OF ent False] ent by (simp add: provsql_fetch_gate_def)
  next
    case True
    from co show ?thesis
    proof (cases rule: stored_answer[where u = u])
      case (1 f)
      then have c: "f_type f = fst (content u)" "f_children f = snd (content u)" by (metis fst_conv snd_conv)+
      have "\<forall>e \<in> set (il (snd (circuit_cache_create_gate (C i) u (f_type f) (f_children f)))). entry_right content e"
        by (rule create_gate_entries[OF ent]) (simp_all add: c)
      then show ?thesis using True 1 c real ent by (auto simp: provsql_fetch_gate_def ask_correct[OF ok])
    next
      case 2
      then show ?thesis using True ent by (auto simp: provsql_fetch_gate_def ask_correct[OF ok])
    qed
  qed
qed

lemma children_answer:
  assumes co: "coherent content (s, C, K)"
  shows "\<exists>cs c. get_children u (C i) s = Some (cs, c) \<and> (cs = snd (content u) \<or> cs = [] \<and> u \<notin> K) \<and>
    (\<forall>e \<in> set (il c). entry_right content e)"
proof -
  have ok: "store_ok s" and ent: "\<forall>e \<in> set (il (C i)). entry_right content e" using co by (auto simp: coherent_def)
  show ?thesis
  proof (cases "circuit_cache_get_children (C i) u")
    case (Some cs)
    then show ?thesis using cached_children[OF ent Some] ent by (simp add: get_children_def)
  next
    case None
    from co show ?thesis
    proof (cases rule: stored_answer[where u = u])
      case (1 f)
      then have c: "f_children f = snd (content u)" by (metis snd_conv)
      have "\<forall>e \<in> set (il (snd (circuit_cache_create_gate (C i) u gate_invalid (f_children f)))). entry_right content e"
        by (rule create_gate_entries[OF ent]) (simp_all add: c)
      then show ?thesis using None 1 c ent by (auto simp: get_children_def ask_correct[OF ok])
    next
      case 2
      then show ?thesis using None ent by (auto simp: get_children_def ask_correct[OF ok])
    qed
  qed
qed

text \<open>The requests that annotate leave the types and children alone.\<close>

lemma annotation_keeps:
  assumes "q \<in> {ReqP u p, ReqI u i1 i2, ReqE u str}"
  shows "M w = Some f \<Longrightarrow> \<exists>f'. request_spec v q M w = Some f' \<and> f_type f' = f_type f \<and> f_children f' = f_children f"
  using assms
  by (auto simp: set_prob_spec_def set_infos_spec_def set_extra_spec_def touch_def Let_def
      split: option.splits prod.splits)

lemma annotation_adds:
  assumes "q \<in> {ReqP u p, ReqI u i1 i2, ReqE u str}" "M w = None" "request_spec v q M w = Some f"
  shows "is_placeholder f"
proof -
  consider "q = ReqP u p" | "q = ReqI u i1 i2" | "q = ReqE u str" using assms(1) by blast
  then show ?thesis
  proof cases
    case 1
    then show ?thesis using assms(2,3)
      by (auto simp: set_prob_spec_def touch_def Let_def is_placeholder_def fresh_facts_def split: if_splits)
  next
    case 2
    then show ?thesis using assms(2,3)
      by (auto simp: set_infos_spec_def split: option.splits prod.splits if_splits)
  next
    case 3
    then show ?thesis using assms(2,3) by (auto simp: set_extra_spec_def split: option.splits if_splits)
  qed
qed

lemma coherent_annotate:
  assumes co: "coherent content (s, C, K)" and q: "q \<in> {ReqP u p, ReqI u i1 i2, ReqE u str}" and ok': "store_ok s'"
    and v: "view s' = request_spec v q (view s)"
  shows "coherent content (s', C, K)"
proof -
  have keep: "\<exists>f'. view s' w = Some f' \<and> f_type f' = f_type f \<and> f_children f' = f_children f" if "view s w = Some f" for w f
    unfolding v by (rule annotation_keeps[where M = "view s", OF q that])
  have "is_placeholder f' \<or> has_content content f' w" if f': "view s' w = Some f'" for w f'
  proof (cases "view s w")
    case None
    then show ?thesis using annotation_adds[where M = "view s", OF q None] f' v by simp
  next
    case (Some f)
    then show ?thesis using keep[OF Some] coherentD(2)[OF co Some] f' by (auto simp: is_placeholder_def has_content_def)
  qed
  moreover have "\<exists>f. view s' w = Some f \<and> has_content content f w" if "w \<in> K" for w
  proof -
    have "\<exists>f. view s w = Some f \<and> has_content content f w" by (rule coherentD(3)[OF co that])
    then show ?thesis using keep by (fastforce simp: has_content_def)
  qed
  ultimately show ?thesis using co ok' by (simp add: coherent_def)
qed

lemma coherent_create:
  assumes co: "coherent content (s, C, K)" and ok': "store_ok s'" and c: "\<forall>e \<in> set (il c). entry_right content e"
    and v: "view s' = create_spec u (fst (content u)) (snd (content u)) (view s)"
  shows "coherent content (s', C(i := c), insert u K)"
proof -
  have at: "view s' w = (if w = u then create_at (fst (content u)) (snd (content u)) (view s u)
      else touch_at (create_fires (fst (content u)) (snd (content u)) (view s u) \<and> w \<in> set (snd (content u))) (view s w))" for w
    unfolding v by (rule create_spec_at)
  have inv: "is_placeholder f \<or> has_content content f w" if "view s w = Some f" for w f
    using coherentD(2)[OF co that] .
  have here: "\<exists>f. view s' u = Some f \<and> has_content content f u"
  proof (cases "view s u")
    case None
    then show ?thesis by (simp add: at create_at_def has_content_def fresh_facts_def)
  next
    case (Some f)
    have "f_type f = fst (content u) \<and> f_children f = snd (content u)" if "has_content content f u"
      using that unfolding has_content_def by (metis fst_conv snd_conv)
    then show ?thesis using Some inv[OF Some]
      by (auto simp: at create_at_def has_content_def is_placeholder_def prod_eq_iff)
  qed
  have "is_placeholder f \<or> has_content content f w" if f: "view s' w = Some f" for w f
  proof (cases "w = u")
    case True
    then show ?thesis using here f by auto
  next
    case False
    then show ?thesis using f inv by (auto simp: at touch_at_def is_placeholder_def fresh_facts_def split: if_splits)
  qed
  moreover have "\<exists>f. view s' w = Some f \<and> has_content content f w" if "w \<in> insert u K" for w
  proof (cases "w = u")
    case False
    then have "w \<in> K" using that by simp
    then have "\<exists>f. view s w = Some f \<and> has_content content f w" by (rule coherentD(3)[OF co])
    then show ?thesis using False by (auto simp: at touch_at_def)
  qed (use here in simp)
  ultimately show ?thesis using co ok' c by (simp add: coherent_def)
qed

lemma coherent_step:
  assumes "session_step content (s, C, K) (s', C', K')" "coherent content (s, C, K)" "\<And>u. fst (content u) \<noteq> gate_invalid"
  shows "coherent content (s', C', K')"
  using assms(1)
proof (cases rule: session_step.cases)
  case (create u i c)
  have ok: "store_ok s" using assms(2) by (simp add: coherent_def)
  obtain s1 where s1: "createGate s u (fst (content u)) (snd (content u)) = Some s1" "store_ok s1"
      "view s1 = create_spec u (fst (content u)) (snd (content u)) (view s)"
    using createGate_run[OF ok create(3)] by blast
  then have "s' = s1" "c = snd (circuit_cache_create_gate (C i) u (fst (content u)) (snd (content u)))"
    using create(4) by (auto simp: provsql_internal_create_gate_def)
  moreover have "\<forall>e \<in> set (il (snd (circuit_cache_create_gate (C i) u (fst (content u)) (snd (content u))))). entry_right content e"
    by (rule create_gate_entries) (use assms(2) in \<open>auto simp: coherent_def\<close>)
  ultimately show ?thesis using coherent_create[OF assms(2) s1(2) _ s1(3)] create(1,2) by simp
next
  case (fetch u i a c)
  then show ?thesis using fetch_answer[OF assms(2,3), of u i] assms(2) by (auto simp: coherent_def)
next
  case (children u i cs c)
  then show ?thesis using children_answer[OF assms(2), of u i] assms(2) by (auto simp: coherent_def)
next
  case (annotate q u p i1 i2 str r)
  have ok: "store_ok s" using assms(2) by (simp add: coherent_def)
  have "\<And>d roots. q \<noteq> ReqX d roots" "length (m_gates s) + request_size q < 2 ^ 29" using annotate(3,5) by auto
  from dispatch_correct[OF ok this(2) annotate(4) this(1)] annotate(6)
  have "store_ok s'" "view s' = request_spec (gates_version s) q (view s)" by auto
  then show ?thesis using coherent_annotate[OF assms(2) annotate(3)] annotate(1,2) by blast
next
  case (reset i)
  then show ?thesis using assms(2) by (auto simp: coherent_def empty_cache_def)
qed

text \<open>C21: start with a well-formed store that holds only placeholders or right gates, and empty caches; whatever the
  sessions do, in any interleaving, looking a gate up returns, and answers with its content or, for a token
  that no session has created yet, with the default (an input without children).  Once any session has
  created the gate, every session sees it, also one that had been given the default before: neither the
  caches nor the placeholders of the store hide it.\<close>

theorem sessions_coherent:
  assumes start: "store_ok s0" "\<forall>u f. view s0 u = Some f \<longrightarrow> is_placeholder f \<or> has_content content f u"
    and real: "\<forall>u. fst (content u) \<noteq> gate_invalid"
    and run: "(session_step content)\<^sup>*\<^sup>* (s0, \<lambda>_. empty_cache, {}) (s, C, K)"
  shows "(\<exists>a c. provsql_fetch_gate u (C i) s = Some (a, c) \<and> (a = content u \<or> a = (gate_input, []) \<and> u \<notin> K)) \<and>
    (\<exists>cs c. get_children u (C i) s = Some (cs, c) \<and> (cs = snd (content u) \<or> cs = [] \<and> u \<notin> K))"
proof -
  have "coherent content (s0, \<lambda>_. empty_cache, {})" using start by (simp add: coherent_def empty_cache_def)
  with run have co: "coherent content (s, C, K)"
  proof (induction rule: rtranclp_induct)
    case (step y z)
    obtain s1 C1 K1 s2 C2 K2 where yz: "y = (s1, C1, K1)" "z = (s2, C2, K2)" by (cases y, cases z)
    show ?case using coherent_step[OF step(2)[unfolded yz] _ spec[OF real]] step(3,4) yz by simp
  qed
  show ?thesis using fetch_answer[OF co spec[OF real], of u i] children_answer[OF co, of u i] by blast
qed

lemma sessions_coherent_witness:
  "\<exists>content s C K. (session_step content)\<^sup>*\<^sup>* (new_store, \<lambda>_. empty_cache, {}) (s, C, K) \<and>
    (\<exists>c. provsql_fetch_gate (1, 1) (C 1) s = Some ((gate_plus, [(2, 2)]), c))"
proof -
  define content :: "pg_uuid \<Rightarrow> gate_type \<times> pg_uuid list" where
    "content u = (if u = (1, 1) then (gate_plus, [(2, 2)]) else (gate_input, []))" for u
  have co: "coherent content (new_store, \<lambda>_. empty_cache, {})"
    by (simp add: coherent_def new_store_ok empty_cache_def)
  have real: "\<forall>u. fst (content u) \<noteq> gate_invalid" by (simp add: content_def)
  obtain a c where f: "provsql_fetch_gate (1, 1) empty_cache new_store = Some (a, c)"
    using fetch_answer[OF co, of "(1, 1)"] real by blast
  let ?C = "(\<lambda>_::nat. empty_cache)(1 := c)"
  have s1: "session_step content (new_store, \<lambda>_. empty_cache, {}) (new_store, ?C, {})"
    by (rule session_step.fetch[where i = 1, OF f])
  obtain s where s: "createGate new_store (1, 1) gate_plus [(2, 2)] = Some s"
    using createGate_run[OF new_store_ok(1), of "[(2, 2)]" "(1, 1)" gate_plus] by (auto simp: new_store_def)
  obtain c0 where cr: "provsql_internal_create_gate (1, 1) (fst (content (1, 1))) (snd (content (1, 1))) (?C 0) new_store = Some (c0, s)"
    using s by (auto simp: provsql_internal_create_gate_def content_def)
  have "length (m_gates new_store) + length (snd (content (1, 1))) < 2 ^ 29" by (simp add: new_store_def content_def)
  then have s2: "session_step content (new_store, ?C, {}) (s, ?C(0 := c0), {(1, 1)})"
    by (rule session_step.create[where u = "(1, 1)" and i = 0 and C = ?C]) (rule cr)
  have run: "(session_step content)\<^sup>*\<^sup>* (new_store, \<lambda>_. empty_cache, {}) (s, ?C(0 := c0), {(1, 1)})"
    using s1 s2 by (meson rtranclp.rtrancl_into_rtrancl rtranclp.rtrancl_refl)
  have start: "\<forall>u f. view new_store u = Some f \<longrightarrow> is_placeholder f \<or> has_content content f u" by (simp add: new_store_ok(2))
  from sessions_coherent[OF new_store_ok(1) start real run, where u = "(1, 1)" and i = 1]
  have "\<exists>c. provsql_fetch_gate (1, 1) ((?C(0 := c0)) 1) s = Some ((gate_plus, [(2, 2)]), c)" by (auto simp: content_def)
  then show ?thesis using run by blast
qed
end
