(* ===== verification/Graphs.thy ===== *)
theory Graphs
  imports BoolCircuit
begin

text \<open>
  The undirected graph of the tree-decomposition code (\<open>src/Graph.h\<close>) and the queue that chooses the next node
  to eliminate (\<open>src/PermutationStrategy.h\<close>).  A hash set is the list of its elements without repetition; no
  result depends on the order in which the code meets them.  \<open>graph_ok\<close>: the adjacency is symmetric,
  without loops, and within the nodes.
\<close>

section \<open>The graph\<close>

record graph =
  adj_list :: "nat \<rightharpoonup> nat list"
  node_set :: "nat list"
  num_edges :: "64 word"

definition empty_graph :: graph where
  "empty_graph = \<lparr>adj_list = Map.empty, node_set = [], num_edges = 0\<rparr>"

definition hash_insert :: "'a \<Rightarrow> 'a list \<Rightarrow> 'a list" where
  "hash_insert x xs = (if x \<in> set xs then xs else xs @ [x])"

definition has_neighbours :: "graph \<Rightarrow> nat \<Rightarrow> bool" where
  "has_neighbours g n \<longleftrightarrow> adj_list g n \<noteq> None"

text \<open>\<open>operator[]\<close> of a map gives an empty set to a key it does not have.\<close>

definition adjacent :: "graph \<Rightarrow> nat \<Rightarrow> nat list" where
  "adjacent g n = (case adj_list g n of None \<Rightarrow> [] | Some ns \<Rightarrow> ns)"

definition has_node :: "graph \<Rightarrow> nat \<Rightarrow> bool" where
  "has_node g n \<longleftrightarrow> n \<in> set (node_set g)"

definition has_edge :: "graph \<Rightarrow> nat \<Rightarrow> nat \<Rightarrow> bool" where
  "has_edge g src tgt \<longleftrightarrow> has_neighbours g src \<and> tgt \<in> set (adjacent g src)"

definition number_nodes :: "graph \<Rightarrow> nat" where
  "number_nodes g = length (node_set g)"

definition add_node :: "nat \<Rightarrow> graph \<Rightarrow> graph" where
  "add_node n g = g\<lparr>node_set := hash_insert n (node_set g)\<rparr>"

definition link :: "nat \<Rightarrow> nat \<Rightarrow> graph \<Rightarrow> graph" where
  "link a b g = g\<lparr>adj_list := (adj_list g)(a \<mapsto> hash_insert b (adjacent g a))\<rparr>"

definition add_edge :: "nat \<Rightarrow> nat \<Rightarrow> bool \<Rightarrow> graph \<Rightarrow> graph" where
  "add_edge src tgt undirected g =
     (if has_edge g src tgt then g
      else (let g = add_node tgt (add_node src g);
                g = link src tgt g;
                g = (if undirected then link tgt src g else g)
            in g\<lparr>num_edges := num_edges g + 1\<rparr>))"

text \<open>The set returned is the one the node had.\<close>

definition unlink :: "nat \<Rightarrow> nat \<Rightarrow> graph \<Rightarrow> graph" where
  "unlink n m g = g\<lparr>adj_list := (adj_list g)(m \<mapsto> removeAll n (adjacent g m)), num_edges := num_edges g - 1\<rparr>"

definition remove_node :: "nat \<Rightarrow> graph \<Rightarrow> nat list \<times> graph" where
  "remove_node n g =
     (let ns = adjacent g n;
          g = fold (unlink n) ns (g\<lparr>node_set := removeAll n (node_set g)\<rparr>)
      in (ns, g\<lparr>adj_list := (adj_list g)(n := None)\<rparr>))"

definition fill :: "nat list \<Rightarrow> bool \<Rightarrow> graph \<Rightarrow> graph" where
  "fill ns undirected g =
     fold (\<lambda>src. fold (\<lambda>tgt g.
       if undirected then (if src < tgt then add_edge src tgt undirected g else g)
       else if src \<noteq> tgt then add_edge src tgt undirected g else g) ns) ns g"

definition contract_edge :: "nat \<Rightarrow> nat \<Rightarrow> graph \<Rightarrow> graph" where
  "contract_edge src tgt g =
     snd (remove_node tgt (fold (\<lambda>v g. if v \<noteq> src \<and> \<not> has_edge g src v then add_edge src v True g else g)
       (adjacent g tgt) g))"

text \<open>The primal graph of a Boolean circuit.\<close>

definition primal_graph :: "'m bool_circuit_scheme \<Rightarrow> graph" where
  "primal_graph bc = fold (\<lambda>g1 g.
     if getGateType bc g1 = UNDETERMINED \<or> getGateType bc g1 = MULVAR then g
     else fold (\<lambda>g2. add_edge g1 g2 True) (getWires bc g1) (add_node g1 g)) [0..<length (gates bc)] empty_graph"

section \<open>What the operations do\<close>

definition edges :: "graph \<Rightarrow> (nat \<times> nat) set" where
  "edges g = {(a, b). b \<in> set (adjacent g a)}"

definition graph_ok :: "graph \<Rightarrow> bool" where
  "graph_ok g \<longleftrightarrow> distinct (node_set g) \<and> (\<forall>n. distinct (adjacent g n)) \<and> sym (edges g) \<and>
     (\<forall>a b. (a, b) \<in> edges g \<longrightarrow> a \<noteq> b \<and> a \<in> set (node_set g))"

lemma set_hash_insert [simp]: "set (hash_insert x xs) = insert x (set xs)"
  by (auto simp: hash_insert_def)

lemma distinct_hash_insert [simp]: "distinct xs \<Longrightarrow> distinct (hash_insert x xs)"
  by (simp add: hash_insert_def)

lemma edges_iff [simp]: "(a, b) \<in> edges g \<longleftrightarrow> b \<in> set (adjacent g a)"
  by (simp add: edges_def)

lemma has_edge_iff: "has_edge g a b \<longleftrightarrow> (a, b) \<in> edges g"
  by (cases "adj_list g a") (simp_all add: has_edge_def has_neighbours_def adjacent_def)

lemma graph_okD:
  assumes "graph_ok g"
  shows "distinct (node_set g)" "distinct (adjacent g n)" "b \<in> set (adjacent g a) \<Longrightarrow> a \<in> set (adjacent g b)"
    "b \<in> set (adjacent g a) \<Longrightarrow> a \<noteq> b" "b \<in> set (adjacent g a) \<Longrightarrow> a \<in> set (node_set g)"
    "b \<in> set (adjacent g a) \<Longrightarrow> b \<in> set (node_set g)"
  using assms unfolding graph_ok_def by (auto dest: symD)

lemma no_loop: "graph_ok g \<Longrightarrow> a \<notin> set (adjacent g a)"
  using graph_okD(4) by blast

lemma adjacent_simps [simp]:
  "adjacent (g\<lparr>node_set := ns\<rparr>) a = adjacent g a" "adjacent (g\<lparr>num_edges := k\<rparr>) a = adjacent g a"
  "adjacent (add_node n g) a = adjacent g a"
  "adjacent (link m b g) a = (if a = m then hash_insert b (adjacent g m) else adjacent g a)"
  "adjacent (unlink n m g) a = (if a = m then removeAll n (adjacent g m) else adjacent g a)"
  "adjacent (g\<lparr>adj_list := (adj_list g)(n := None)\<rparr>) a = (if a = n then [] else adjacent g a)"
  by (simp_all add: adjacent_def add_node_def link_def unlink_def)

lemma node_set_simps [simp]:
  "set (node_set (add_node n g)) = insert n (set (node_set g))" "node_set (link m b g) = node_set g"
  "node_set (unlink n m g) = node_set g" "distinct (node_set g) \<Longrightarrow> distinct (node_set (add_node n g))"
  by (simp_all add: add_node_def link_def unlink_def)

lemma add_edge_correct:
  assumes "graph_ok g" "a \<noteq> b"
  shows "graph_ok (add_edge a b True g)" "edges (add_edge a b True g) = edges g \<union> {(a, b), (b, a)}"
    "set (node_set (add_edge a b True g)) = set (node_set g) \<union> {a, b}"
proof -
  have e: "edges (add_edge a b True g) = edges g \<union> {(a, b), (b, a)}"
    using graph_okD(3)[OF assms(1)] assms(2) by (auto simp: add_edge_def has_edge_iff Let_def split: if_splits)
  moreover have n: "set (node_set (add_edge a b True g)) = set (node_set g) \<union> {a, b}"
    using graph_okD(5,6)[OF assms(1)] by (auto simp: add_edge_def has_edge_iff Let_def)
  moreover have "distinct (node_set (add_edge a b True g)) \<and> (\<forall>m. distinct (adjacent (add_edge a b True g) m))"
    using graph_okD(1,2)[OF assms(1)] by (simp add: add_edge_def Let_def)
  moreover have "sym (edges g)" using assms(1) by (simp add: graph_ok_def)
  ultimately show "graph_ok (add_edge a b True g)"
    unfolding graph_ok_def using assms no_loop[OF assms(1)] graph_okD(5)[OF assms(1)]
    by (intro conjI allI impI) (auto simp: sym_def)
  show "edges (add_edge a b True g) = edges g \<union> {(a, b), (b, a)}"
    "set (node_set (add_edge a b True g)) = set (node_set g) \<union> {a, b}" by fact+
qed


lemma unlink_all:
  "adjacent (fold (unlink n) ns g) a = (if a \<in> set ns then removeAll n (adjacent g a) else adjacent g a)"
  "node_set (fold (unlink n) ns g) = node_set g"
  by (induction ns arbitrary: g) auto

lemma remove_node_correct:
  assumes "graph_ok g"
  shows "fst (remove_node n g) = adjacent g n" "graph_ok (snd (remove_node n g))"
    "edges (snd (remove_node n g)) = edges g \<inter> {(a, b). a \<noteq> n \<and> b \<noteq> n}"
    "node_set (snd (remove_node n g)) = removeAll n (node_set g)"
proof -
  let ?g = "snd (remove_node n g)"
  show "fst (remove_node n g) = adjacent g n" by (simp add: remove_node_def Let_def)
  have a: "adjacent ?g a = (if a = n then [] else removeAll n (adjacent g a))" for a
    using graph_okD(3)[OF assms, of n a] by (auto simp: remove_node_def Let_def unlink_all intro: removeAll_id[symmetric])
  show e: "edges ?g = edges g \<inter> {(a, b). a \<noteq> n \<and> b \<noteq> n}" by (auto simp: a split: if_splits)
  show v: "node_set ?g = removeAll n (node_set g)" by (simp add: remove_node_def Let_def unlink_all)
  have "distinct (node_set ?g)" "distinct (adjacent ?g m)" for m
    using graph_okD(1,2)[OF assms] by (simp_all add: v a distinct_removeAll)
  then show "graph_ok ?g"
    unfolding graph_ok_def using assms no_loop[OF assms] graph_okD(3,5)[OF assms]
    by (intro conjI allI impI) (auto simp: e v sym_def)
qed

lemma fill_row:
  assumes "graph_ok g" "set ts \<subseteq> set (node_set g)" "src \<in> set (node_set g)"
  defines "g' \<equiv> fold (\<lambda>tgt g. if src < tgt then add_edge src tgt True g else g) ts g"
  shows "graph_ok g' \<and> edges g' = edges g \<union> {(a, b). (a = src \<and> b \<in> set ts \<and> a < b) \<or> (b = src \<and> a \<in> set ts \<and> b < a)} \<and>
    set (node_set g') = set (node_set g)"
  unfolding g'_def using assms(1-3)
proof (induction ts arbitrary: g)
  case (Cons t ts)
  show ?case
  proof (cases "src < t")
    case True
    note A = add_edge_correct[OF Cons.prems(1), of src t]
    have "graph_ok (add_edge src t True g)" "set ts \<subseteq> set (node_set (add_edge src t True g))"
      "src \<in> set (node_set (add_edge src t True g))" using A True Cons.prems by auto
    from Cons.IH[OF this] show ?thesis using A(2,3) True Cons.prems(2,3) by auto
  next
    case False
    then show ?thesis using Cons.IH[OF Cons.prems(1)] Cons.prems by auto
  qed
qed auto

lemma fill_correct:
  assumes "graph_ok g" "set ns \<subseteq> set (node_set g)"
  shows "graph_ok (fill ns True g)" "edges (fill ns True g) = edges g \<union> {(a, b). a \<in> set ns \<and> b \<in> set ns \<and> a \<noteq> b}"
    "set (node_set (fill ns True g)) = set (node_set g)"
proof -
  define row where "row src g = fold (\<lambda>tgt g. if src < tgt then add_edge src tgt True g else g) ns g" for src g
  have "graph_ok (fold row ss g) \<and> set (node_set (fold row ss g)) = set (node_set g) \<and>
      edges (fold row ss g) = edges g \<union> {(a, b). (a \<in> set ss \<and> b \<in> set ns \<and> a < b) \<or> (b \<in> set ss \<and> a \<in> set ns \<and> b < a)}"
    if "graph_ok g" "set ns \<subseteq> set (node_set g)" "set ss \<subseteq> set (node_set g)" for ss g
    using that
  proof (induction ss arbitrary: g)
    case (Cons s ss)
    note R = fill_row[OF Cons.prems(1,2), of s, folded row_def]
    have "graph_ok (row s g)" "set ns \<subseteq> set (node_set (row s g))" "set ss \<subseteq> set (node_set (row s g))"
      using R Cons.prems by auto
    from Cons.IH[OF this] show ?case using R Cons.prems(3) by auto
  qed auto
  from this[OF assms assms(2)] have F: "graph_ok (fold row ns g)" "set (node_set (fold row ns g)) = set (node_set g)"
    "edges (fold row ns g) = edges g \<union> {(a, b). (a \<in> set ns \<and> b \<in> set ns \<and> a < b) \<or> (b \<in> set ns \<and> a \<in> set ns \<and> b < a)}"
    by blast+
  moreover have "fill ns True g = fold row ns g" by (simp add: fill_def row_def[abs_def])
  ultimately show "graph_ok (fill ns True g)" "edges (fill ns True g) = edges g \<union> {(a, b). a \<in> set ns \<and> b \<in> set ns \<and> a \<noteq> b}"
    "set (node_set (fill ns True g)) = set (node_set g)" by (simp_all, auto)
qed


text \<open>The primal graph: the gates of a circuit without dangling wires, and an edge for every wire.\<close>

lemma add_wires:
  assumes "graph_ok g" "a \<notin> set ws" "a \<in> set (node_set g)"
  defines "g' \<equiv> fold (\<lambda>b. add_edge a b True) ws g"
  shows "graph_ok g' \<and> edges g' = edges g \<union> {(x, y). (x = a \<and> y \<in> set ws) \<or> (y = a \<and> x \<in> set ws)} \<and>
    set (node_set g') = set (node_set g) \<union> set ws"
  unfolding g'_def using assms(1-3)
proof (induction ws arbitrary: g)
  case (Cons w ws)
  note A = add_edge_correct[OF Cons.prems(1), of a w]
  have "graph_ok (add_edge a w True g)" "a \<notin> set ws" "a \<in> set (node_set (add_edge a w True g))" using A Cons.prems by auto
  from Cons.IH[OF this] show ?case using A(2,3) Cons.prems by auto
qed auto

lemma graph_ok_add_node: "graph_ok g \<Longrightarrow> graph_ok (add_node n g)" "edges (add_node n g) = edges g"
proof -
  show e: "edges (add_node n g) = edges g" by (simp add: edges_def)
  show "graph_ok g \<Longrightarrow> graph_ok (add_node n g)" unfolding graph_ok_def e by simp
qed

lemma empty_graph_ok: "graph_ok empty_graph" "edges empty_graph = {}" "node_set empty_graph = []"
  by (simp_all add: graph_ok_def empty_graph_def edges_def adjacent_def sym_def)

definition graph_gates :: "'m bool_circuit_scheme \<Rightarrow> nat set" where
  "graph_gates bc = {g. g < length (gates bc) \<and> getGateType bc g \<notin> {UNDETERMINED, MULVAR}}"

lemma primal_graph_correct:
  assumes "\<forall>g < length (gates bc). g \<notin> set (getWires bc g)"
  shows "graph_ok (primal_graph bc)"
    "edges (primal_graph bc) = {(a, b). (a \<in> graph_gates bc \<and> b \<in> set (getWires bc a)) \<or> (b \<in> graph_gates bc \<and> a \<in> set (getWires bc b))}"
    "set (node_set (primal_graph bc)) = graph_gates bc \<union> (\<Union>g \<in> graph_gates bc. set (getWires bc g))"
proof -
  define step where "step g1 g = (if getGateType bc g1 = UNDETERMINED \<or> getGateType bc g1 = MULVAR then g
     else fold (\<lambda>g2. add_edge g1 g2 True) (getWires bc g1) (add_node g1 g))" for g1 g
  let ?G = "\<lambda>k. fold step [0..<k] empty_graph"
  have "graph_ok (?G k) \<and> edges (?G k) = {(a, b). (a \<in> graph_gates bc \<and> a < k \<and> b \<in> set (getWires bc a)) \<or>
        (b \<in> graph_gates bc \<and> b < k \<and> a \<in> set (getWires bc b))} \<and>
      set (node_set (?G k)) = {g \<in> graph_gates bc. g < k} \<union> (\<Union>g \<in> {g \<in> graph_gates bc. g < k}. set (getWires bc g))"
    if "k \<le> length (gates bc)" for k
    using that
  proof (induction k)
    case (Suc k)
    then have IH: "graph_ok (?G k)"
      "edges (?G k) = {(a, b). (a \<in> graph_gates bc \<and> a < k \<and> b \<in> set (getWires bc a)) \<or>
        (b \<in> graph_gates bc \<and> b < k \<and> a \<in> set (getWires bc b))}"
      "set (node_set (?G k)) = {g \<in> graph_gates bc. g < k} \<union> (\<Union>g \<in> {g \<in> graph_gates bc. g < k}. set (getWires bc g))"
      by auto
    show ?case
    proof (cases "k \<in> graph_gates bc")
      case True
      have "k \<notin> set (getWires bc k)" using assms Suc.prems by simp
      note W = add_wires[OF graph_ok_add_node(1)[OF IH(1)] this, of k]
      have "?G (Suc k) = fold (\<lambda>b. add_edge k b True) (getWires bc k) (add_node k (?G k))"
        using True by (simp add: step_def graph_gates_def)
      then show ?thesis using W IH True unfolding graph_ok_add_node(2) by (auto simp: less_Suc_eq)
    next
      case False
      then have "?G (Suc k) = ?G k" using Suc.prems by (auto simp: step_def graph_gates_def)
      then show ?thesis using IH False by (auto simp: less_Suc_eq)
    qed
  qed (simp_all add: empty_graph_ok)
  from this[of "length (gates bc)"] have
    R: "graph_ok (?G (length (gates bc)))" "edges (?G (length (gates bc))) =
      {(a, b). (a \<in> graph_gates bc \<and> b \<in> set (getWires bc a)) \<or> (b \<in> graph_gates bc \<and> a \<in> set (getWires bc b))}"
    "set (node_set (?G (length (gates bc)))) = graph_gates bc \<union> (\<Union>g \<in> graph_gates bc. set (getWires bc g))"
    by (auto simp: graph_gates_def)
  have "primal_graph bc = ?G (length (gates bc))" by (simp add: primal_graph_def step_def[abs_def])
  then show "graph_ok (primal_graph bc)"
    "edges (primal_graph bc) = {(a, b). (a \<in> graph_gates bc \<and> b \<in> set (getWires bc a)) \<or> (b \<in> graph_gates bc \<and> a \<in> set (getWires bc b))}"
    "set (node_set (primal_graph bc)) = graph_gates bc \<union> (\<Union>g \<in> graph_gates bc. set (getWires bc g))"
    using R by simp_all
qed


section \<open>The elimination queue\<close>

text \<open>
  The entries of the heap are pairs of a node and its statistic, here the degree; \<open>queue_less\<close> is
  \<open>operator<\<close> of the entries, and the top of the heap is the greatest entry.
\<close>

type_synonym node_queue = "(nat \<times> nat) list"

definition compute_statistic :: "nat \<Rightarrow> graph \<Rightarrow> nat" where
  "compute_statistic n g = (if has_neighbours g n then length (adjacent g n) else 0)"

definition init_permutation :: "graph \<Rightarrow> node_queue" where
  "init_permutation g = map (\<lambda>n. (n, compute_statistic n g)) (node_set g)"

definition recompute :: "nat list \<Rightarrow> graph \<Rightarrow> node_queue \<Rightarrow> node_queue" where
  "recompute ns g q =
     fold (\<lambda>n. map (\<lambda>e. if fst e = n then (n, compute_statistic n g) else e)) ns q"

definition queue_less :: "nat \<times> nat \<Rightarrow> nat \<times> nat \<Rightarrow> bool" where
  "queue_less x a = (if snd x > snd a then True else if snd x < snd a then False else fst x > fst a)"

fun queue_top :: "node_queue \<Rightarrow> nat \<times> nat" where
  "queue_top [] = undefined"
| "queue_top [x] = x"
| "queue_top (x # y # ys) = (let t = queue_top (y # ys) in if queue_less x t then t else x)"

definition get_next :: "node_queue \<Rightarrow> nat \<times> node_queue" where
  "get_next q = (let t = queue_top q in (fst t, remove1 t q))"

lemma compute_statistic_degree: "compute_statistic n g = length (adjacent g n)"
  by (simp add: compute_statistic_def has_neighbours_def adjacent_def split: option.splits)

lemma queue_top_in: "q \<noteq> [] \<Longrightarrow> queue_top q \<in> set q"
  by (induction q rule: queue_top.induct) (auto simp: Let_def)

lemma queue_top_best: "e \<in> set q \<Longrightarrow> snd (queue_top q) \<le> snd e"
  by (induction q arbitrary: e rule: queue_top.induct) (fastforce simp: Let_def queue_less_def split: if_splits)+

text \<open>The queue of a graph: its nodes, each with its current degree.\<close>

definition queue_ok :: "graph \<Rightarrow> node_queue \<Rightarrow> bool" where
  "queue_ok g q \<longleftrightarrow> distinct (map fst q) \<and> set (map fst q) = set (node_set g) \<and>
     (\<forall>e \<in> set q. snd e = length (adjacent g (fst e)))"

lemma init_permutation_ok: "graph_ok g \<Longrightarrow> queue_ok g (init_permutation g)"
  by (simp add: queue_ok_def init_permutation_def comp_def compute_statistic_degree graph_okD)

lemma recompute_map: "recompute ns g q = map (\<lambda>e. if fst e \<in> set ns then (fst e, length (adjacent g (fst e))) else e) q"
proof -
  have "fold (\<lambda>n. map (\<lambda>e. if fst e = n then (n, d n) else e)) ns q =
      map (\<lambda>e. if fst e \<in> set ns then (fst e, d (fst e)) else e) q" for d :: "nat \<Rightarrow> nat"
    by (induction ns arbitrary: q) auto
  then show ?thesis by (simp add: recompute_def compute_statistic_degree)
qed

lemma get_next_correct:
  assumes "queue_ok g q" "q \<noteq> []" "get_next q = (n, q')"
  shows "n \<in> set (node_set g)" "\<And>m. m \<in> set (node_set g) \<Longrightarrow> length (adjacent g n) \<le> length (adjacent g m)"
    "distinct (map fst q')" "set (map fst q') = set (node_set g) - {n}"
    "\<forall>e \<in> set q'. snd e = length (adjacent g (fst e))" "length q' < length q"
proof -
  obtain tp where tp: "tp = queue_top q" by blast
  have t: "tp \<in> set q" "n = fst tp" "q' = remove1 tp q"
    using assms(3) queue_top_in[OF assms(2)] by (auto simp: get_next_def Let_def tp)
  have Q: "distinct (map fst q)" "set (map fst q) = set (node_set g)" "\<forall>e \<in> set q. snd e = length (adjacent g (fst e))"
    using assms(1) by (auto simp: queue_ok_def)
  show "n \<in> set (node_set g)" using t Q(2) by force
  show "length (adjacent g n) \<le> length (adjacent g m)" if m: "m \<in> set (node_set g)" for m
  proof -
    obtain e where e: "e \<in> set q" "fst e = m" using m unfolding Q(2)[symmetric] set_map by (elim imageE) simp
    then show ?thesis using queue_top_best[OF e(1)] Q(3) t by (auto simp: tp)
  qed
  obtain xs ys where q: "q = xs @ tp # ys" "tp \<notin> set xs" using split_list_first[OF t(1)] by blast
  then have q': "q' = xs @ ys" by (simp add: t(3) q(1) remove1_append)
  have d: "distinct (map fst xs @ n # map fst ys)" using Q(1) by (simp add: q(1) t(2))
  then show "distinct (map fst q')" by (simp add: q')
  have "set (node_set g) = set (map fst xs @ n # map fst ys)" unfolding Q(2)[symmetric] by (simp add: q(1) t(2))
  then show "set (map fst q') = set (node_set g) - {n}" using d by (auto simp: q')
  show "\<forall>e \<in> set q'. snd e = length (adjacent g (fst e))" using Q(3) t(3) by (meson notin_set_remove1)
  show "length q' < length q" using t assms(2) by (simp add: length_remove1)
qed

text \<open>What the construction of a tree decomposition relies on.\<close>

locale elimination_queue =
  fixes ok :: "'g \<Rightarrow> 'q \<Rightarrow> bool" and nodes :: "'g \<Rightarrow> nat set" and cost :: "'g \<Rightarrow> nat \<Rightarrow> nat"
    and pick :: "'q \<Rightarrow> nat" and step :: "'g \<Rightarrow> nat \<Rightarrow> 'g" and pop :: "'g \<Rightarrow> 'q \<Rightarrow> 'q"
  assumes pick_in: "ok g q \<Longrightarrow> nodes g \<noteq> {} \<Longrightarrow> pick q \<in> nodes g"
    and pick_best: "ok g q \<Longrightarrow> m \<in> nodes g \<Longrightarrow> cost g (pick q) \<le> cost g m"
    and nodes_step: "ok g q \<Longrightarrow> nodes g \<noteq> {} \<Longrightarrow> nodes (step g (pick q)) = nodes g - {pick q}"
    and ok_step: "ok g q \<Longrightarrow> nodes g \<noteq> {} \<Longrightarrow> ok (step g (pick q)) (pop g q)"
begin

fun order :: "nat \<Rightarrow> 'g \<Rightarrow> 'q \<Rightarrow> nat list" where
  "order 0 g q = []"
| "order (Suc k) g q = pick q # order k (step g (pick q)) (pop g q)"

lemma order_permutation:
  "ok g q \<Longrightarrow> finite (nodes g) \<Longrightarrow> k \<le> card (nodes g) \<Longrightarrow>
   distinct (order k g q) \<and> set (order k g q) \<subseteq> nodes g \<and> length (order k g q) = k"
proof (induction k arbitrary: g q)
  case (Suc k)
  have ne: "nodes g \<noteq> {}" using Suc.prems(3) by auto
  note p = pick_in[OF Suc.prems(1) ne] and n = nodes_step[OF Suc.prems(1) ne] and o = ok_step[OF Suc.prems(1) ne]
  have "finite (nodes (step g (pick q)))" "k \<le> card (nodes (step g (pick q)))"
    using Suc.prems(2,3) p by (simp_all add: n card_Diff_singleton_if)
  from Suc.IH[OF o this] show ?case using p unfolding n by auto
qed simp

end

text \<open>Eliminating a node: it goes, and its neighbours become a clique.\<close>

definition eliminate_node :: "graph \<Rightarrow> nat \<Rightarrow> graph" where
  "eliminate_node g n = (let (ns, g') = remove_node n g in fill ns True g')"

lemma eliminate_node_correct:
  assumes "graph_ok g"
  shows "graph_ok (eliminate_node g n)"
    "edges (eliminate_node g n) = (edges g \<inter> {(a, b). a \<noteq> n \<and> b \<noteq> n}) \<union>
       {(a, b). a \<in> set (adjacent g n) \<and> b \<in> set (adjacent g n) \<and> a \<noteq> b}"
    "set (node_set (eliminate_node g n)) = set (node_set g) - {n}"
proof -
  note R = remove_node_correct[OF assms, of n]
  have "set (adjacent g n) \<subseteq> set (node_set (snd (remove_node n g)))"
    using graph_okD(4,6)[OF assms] by (auto simp: R(4))
  note F = fill_correct[OF R(2) this]
  have e: "eliminate_node g n = fill (adjacent g n) True (snd (remove_node n g))"
    by (simp add: eliminate_node_def case_prod_beta R(1) Let_def)
  show "graph_ok (eliminate_node g n)" unfolding e by (rule F(1))
  show "edges (eliminate_node g n) = (edges g \<inter> {(a, b). a \<noteq> n \<and> b \<noteq> n}) \<union>
       {(a, b). a \<in> set (adjacent g n) \<and> b \<in> set (adjacent g n) \<and> a \<noteq> b}" unfolding e F(2) R(3) by blast
  show "set (node_set (eliminate_node g n)) = set (node_set g) - {n}" unfolding e F(3) by (simp add: R(4))
qed

text \<open>Only the degrees of the neighbours change.\<close>

lemma queue_eliminate:
  assumes g: "graph_ok g" and q: "queue_ok g q" "q \<noteq> []" "get_next q = (n, q')"
  shows "queue_ok (eliminate_node g n) (recompute (adjacent g n) (eliminate_node g n) q')"
proof -
  note N = get_next_correct[OF q] and E = eliminate_node_correct[OF g, of n]
  let ?g = "eliminate_node g n"
  have deg: "length (adjacent ?g m) = length (adjacent g m)" if "m \<noteq> n" "m \<notin> set (adjacent g n)" for m
  proof -
    have "n \<notin> set (adjacent g m)" using graph_okD(3)[OF g] that(2) by blast
    then have "set (adjacent ?g m) = set (adjacent g m)" using that E(2) by (auto simp: edges_def set_eq_iff)
    then show ?thesis by (metis distinct_card graph_okD(2) g E(1))
  qed
  have "snd e = length (adjacent ?g (fst e))" if "e \<in> set (recompute (adjacent g n) ?g q')" for e
  proof -
    from that have "\<exists>e'. e' \<in> set q' \<and> e = (if fst e' \<in> set (adjacent g n) then (fst e', length (adjacent ?g (fst e'))) else e')"
      unfolding recompute_map set_map by blast
    then obtain e' where e': "e' \<in> set q'" "e = (if fst e' \<in> set (adjacent g n) then (fst e', length (adjacent ?g (fst e'))) else e')" by blast
    then have "fst e' \<noteq> n" using N(4) by (metis DiffE image_eqI insertCI list.set_map)
    then show ?thesis using e' N(5) deg[of "fst e'"] by auto
  qed
  moreover have "map fst (recompute (adjacent g n) ?g q') = map fst q'" by (simp add: recompute_map comp_def if_distrib cong: if_cong)
  ultimately show ?thesis using N(3,4) E(3) by (simp add: queue_ok_def)
qed

interpretation min_degree: elimination_queue "\<lambda>g q. graph_ok g \<and> queue_ok g q" "\<lambda>g. set (node_set g)"
  "\<lambda>g n. length (adjacent g n)" "\<lambda>q. fst (get_next q)" eliminate_node
  "\<lambda>g q. recompute (adjacent g (fst (get_next q))) (eliminate_node g (fst (get_next q))) (snd (get_next q))"
proof (unfold_locales, goal_cases)
  case (1 g q)
  then have "q \<noteq> []" by (auto simp: queue_ok_def)
  then show ?case using 1 get_next_correct(1)[of g q] by (cases "get_next q") auto
next
  case (2 g q m)
  then have "q \<noteq> []" by (auto simp: queue_ok_def)
  then show ?case using 2 get_next_correct(2)[of g q] by (cases "get_next q") auto
next
  case (3 g q)
  then show ?case using eliminate_node_correct(3) by blast
next
  case (4 g q)
  then have "q \<noteq> []" by (auto simp: queue_ok_def)
  then show ?case using 4 queue_eliminate[of g q] eliminate_node_correct(1) by (cases "get_next q") auto
qed

end
