(* ===== verification/TreeDec.thy ===== *)
theory TreeDec
  imports Graphs
begin

text \<open>
  Tree decompositions (\<open>src/TreeDecomposition.h\<close>, \<open>src/TreeDecomposition.cpp\<close>): the construction by greedy
  elimination and the degeneracy bound.  \<open>tree_decomposition_of V E td\<close> is the specification: a rooted
  tree of bags over V, an edge of E in some bag, and for every vertex the bags that hold it hanging
  together below one of them.
\<close>

section \<open>The construction\<close>

definition MAX_TREEWIDTH :: nat where "MAX_TREEWIDTH = 10"

text \<open>\<open>NoBag\<close>: the code reads a vector of bags that is empty.\<close>

datatype td_exn = TreeDecompositionException | NoBag

text \<open>A bag is a flat set: the elements in the order of their insertion.\<close>

record tree_decomposition =
  td_bags :: "nat list list"
  td_parent :: "nat list"
  td_children :: "nat list list"
  td_root :: nat
  td_width :: nat

text \<open>The state of the elimination: the graph that is left, the queue, the bags made so far, the bag of each
  eliminated node, and \<open>max_width\<close>.\<close>

record elimination =
  e_graph :: graph
  e_queue :: node_queue
  e_bags :: "nat list list"
  e_ids :: "nat \<rightharpoonup> nat"
  e_width :: nat

definition make_bag :: "nat list \<Rightarrow> nat list" where
  "make_bag ns = fold hash_insert ns []"

definition eliminate :: "elimination \<Rightarrow> td_exn + elimination" where
  "eliminate st =
     (let (node, q) = get_next (e_queue st);
          (neigh, g) = remove_node node (e_graph st);
          w = max (length neigh) (e_width st)
      in if w > MAX_TREEWIDTH then Inl TreeDecompositionException
         else (let g = fill neigh True g;
                   q = recompute neigh g q
               in Inr \<lparr>e_graph = g, e_queue = q, e_bags = e_bags st @ [make_bag (neigh @ [node])],
                       e_ids = (e_ids st)(node \<mapsto> length (e_bags st)), e_width = w\<rparr>))"

lemma get_next_length: "q \<noteq> [] \<Longrightarrow> get_next q = (n, q') \<Longrightarrow> length q' < length q"
  using queue_top_in[of q] by (auto simp: get_next_def Let_def length_remove1)

lemma recompute_length [simp]: "length (recompute ns g q) = length q"
  by (simp add: recompute_map)

lemma eliminate_shrinks: "eliminate st = Inr st' \<Longrightarrow> e_queue st \<noteq> [] \<Longrightarrow> length (e_queue st') < length (e_queue st)"
  using get_next_length[of "e_queue st"] by (auto simp: eliminate_def Let_def split: prod.splits if_splits)

function elimination_loop :: "elimination \<Rightarrow> td_exn + elimination" where
  "elimination_loop st =
     (if e_width st < number_nodes (e_graph st) \<and> e_queue st \<noteq> []
      then (case eliminate st of Inl e \<Rightarrow> Inl e | Inr st' \<Rightarrow> elimination_loop st')
      else Inr st)"
  by pat_completeness auto
termination by (relation "measure (\<lambda>st. length (e_queue st))") (auto simp: eliminate_shrinks)

declare elimination_loop.simps [simp del]

text \<open>The parent of bag i: the first of the bags of the other nodes it holds, else the last bag.\<close>

definition find_parent :: "(nat \<rightharpoonup> nat) \<Rightarrow> nat list \<Rightarrow> nat \<Rightarrow> nat \<Rightarrow> nat" where
  "find_parent ids bag i last_bag =
     fold (\<lambda>n m. case ids n of Some b \<Rightarrow> if b \<noteq> i then min b m else m | None \<Rightarrow> m) bag last_bag"

definition attach :: "(nat \<rightharpoonup> nat) \<Rightarrow> nat list list \<Rightarrow> nat \<Rightarrow> nat \<Rightarrow> nat list \<times> nat list list \<Rightarrow> nat list \<times> nat list list" where
  "attach ids bs last_bag i pc =
     (let p = find_parent ids (bs ! i) i last_bag
      in ((fst pc)[i := p], (snd pc)[p := snd pc ! p @ [i]]))"

definition start_elimination :: "graph \<Rightarrow> elimination" where
  "start_elimination g =
     \<lparr>e_graph = g, e_queue = init_permutation g, e_bags = [], e_ids = Map.empty, e_width = 0\<rparr>"

text \<open>The constructor, with the map \<open>elimination_bag\<close> it fills on request.\<close>

definition treeDecomposition :: "graph \<Rightarrow> td_exn + tree_decomposition \<times> (nat \<rightharpoonup> nat)" where
  "treeDecomposition g =
     (case elimination_loop (start_elimination g) of
        Inl e \<Rightarrow> Inl e
      | Inr st \<Rightarrow>
          (let left = node_set (e_graph st); n = number_nodes (e_graph st)
           in if length left > MAX_TREEWIDTH then Inl TreeDecompositionException
              else (let bs = (if n > 0 then e_bags st @ [make_bag left] else e_bags st);
                        el = (if n > 0 then fold (\<lambda>v el. el(v \<mapsto> length (e_bags st))) left (e_ids st) else e_ids st);
                        w = (if n = 0 then e_width st else max (e_width st) (n - 1));
                        last_bag = length bs - 1
                    in if bs = [] then Inl NoBag
                       else (let (ps, cs) = fold (attach (e_ids st) bs last_bag) [0..<last_bag]
                                  (replicate (length bs) 0, replicate (length bs) [])
                             in Inr (\<lparr>td_bags = bs, td_parent = ps[last_bag := last_bag], td_children = cs,
                                      td_root = last_bag, td_width = w\<rparr>, el)))))"

definition treeDecomposition_circuit :: "'m bool_circuit_scheme \<Rightarrow> td_exn + tree_decomposition \<times> (nat \<rightharpoonup> nat)" where
  "treeDecomposition_circuit bc = treeDecomposition (primal_graph bc)"


section \<open>The specification\<close>

text \<open>Parents lead to the root; the children are the inverse of the parents.\<close>

definition is_rooted_tree :: "tree_decomposition \<Rightarrow> bool" where
  "is_rooted_tree td \<longleftrightarrow>
     (let n = length (td_bags td) in
      length (td_parent td) = n \<and> length (td_children td) = n \<and> td_root td < n \<and>
      td_parent td ! td_root td = td_root td \<and>
      (\<forall>i < n. td_parent td ! i < n \<and> (i, td_root td) \<in> {(j, td_parent td ! j) | j. j < n}\<^sup>*) \<and>
      (\<forall>p < n. distinct (td_children td ! p) \<and>
         set (td_children td ! p) = {i. i < n \<and> i \<noteq> td_root td \<and> td_parent td ! i = p}))"

text \<open>Going up within the bags that hold v.\<close>

definition up_with :: "tree_decomposition \<Rightarrow> nat \<Rightarrow> (nat \<times> nat) set" where
  "up_with td v = {(i, td_parent td ! i) | i. i < length (td_bags td) \<and> i \<noteq> td_root td \<and>
     v \<in> set (td_bags td ! i) \<and> v \<in> set (td_bags td ! (td_parent td ! i))}"

definition tree_decomposition_of :: "nat set \<Rightarrow> (nat \<times> nat) set \<Rightarrow> tree_decomposition \<Rightarrow> bool" where
  "tree_decomposition_of V E td \<longleftrightarrow>
     is_rooted_tree td \<and> (\<forall>b \<in> set (td_bags td). distinct b \<and> set b \<subseteq> V) \<and>
     (\<forall>(u, v) \<in> E. \<exists>b \<in> set (td_bags td). u \<in> set b \<and> v \<in> set b) \<and>
     (\<forall>v \<in> V. \<exists>t < length (td_bags td). v \<in> set (td_bags td ! t) \<and>
        (\<forall>i < length (td_bags td). v \<in> set (td_bags td ! i) \<longrightarrow> (i, t) \<in> (up_with td v)\<^sup>*))"

section \<open>The elimination\<close>

lemma set_make_bag [simp]: "set (make_bag ns) = set ns"
proof -
  have "set (fold hash_insert ns xs) = set ns \<union> set xs" for xs by (induction ns arbitrary: xs) auto
  then show ?thesis by (simp add: make_bag_def)
qed

lemma make_bag_distinct: "distinct (make_bag ns)" "distinct ns \<Longrightarrow> length (make_bag ns) = length ns"
proof -
  have "distinct xs \<Longrightarrow> distinct (fold hash_insert ns xs)" for xs by (induction ns arbitrary: xs) simp_all
  then show d: "distinct (make_bag ns)" by (simp add: make_bag_def)
  show "distinct ns \<Longrightarrow> length (make_bag ns) = length ns" using distinct_card[OF d] distinct_card[of ns] by simp
qed

text \<open>Two nodes are joined when they are adjacent in what is left of the graph, or when the bag of the one
  eliminated first holds the other.\<close>

definition joined :: "nat list \<Rightarrow> elimination \<Rightarrow> nat \<Rightarrow> nat \<Rightarrow> bool" where
  "joined es st u v \<longleftrightarrow> (u, v) \<in> edges (e_graph st) \<or>
     (\<exists>k < length es. (es ! k = u \<and> v \<in> set (e_bags st ! k)) \<or> (es ! k = v \<and> u \<in> set (e_bags st ! k)))"

definition elim_inv :: "graph \<Rightarrow> nat list \<Rightarrow> elimination \<Rightarrow> bool" where
  "elim_inv g es st \<longleftrightarrow>
     graph_ok (e_graph st) \<and> queue_ok (e_graph st) (e_queue st) \<and>
     distinct es \<and> length (e_bags st) = length es \<and>
     set es \<union> set (node_set (e_graph st)) = set (node_set g) \<and> set es \<inter> set (node_set (e_graph st)) = {} \<and>
     (\<forall>v k. e_ids st v = Some k \<longleftrightarrow> k < length es \<and> es ! k = v) \<and>
     (\<forall>k < length es. distinct (e_bags st ! k) \<and> es ! k \<in> set (e_bags st ! k) \<and>
        set (e_bags st ! k) \<subseteq> insert (es ! k) (set (drop (Suc k) es) \<union> set (node_set (e_graph st))) \<and>
        (\<forall>u \<in> set (e_bags st ! k). \<forall>v \<in> set (e_bags st ! k). u \<noteq> v \<longrightarrow> joined es st u v) \<and>
        length (e_bags st ! k) \<le> e_width st + 1) \<and>
     (\<forall>(u, v) \<in> edges g. joined es st u v) \<and>
     e_width st \<le> MAX_TREEWIDTH \<and> (es = [] \<longrightarrow> e_width st = 0) \<and>
     (es \<noteq> [] \<longrightarrow> (\<exists>k < length es. length (e_bags st ! k) = e_width st + 1))"


lemma elim_invD:
  assumes "elim_inv g es st"
  shows "graph_ok (e_graph st)" "queue_ok (e_graph st) (e_queue st)" "distinct es" "length (e_bags st) = length es"
    "set es \<union> set (node_set (e_graph st)) = set (node_set g)" "set es \<inter> set (node_set (e_graph st)) = {}"
    "e_ids st v = Some k \<longleftrightarrow> k < length es \<and> es ! k = v"
    "k < length es \<Longrightarrow> distinct (e_bags st ! k)" "k < length es \<Longrightarrow> es ! k \<in> set (e_bags st ! k)"
    "k < length es \<Longrightarrow> set (e_bags st ! k) \<subseteq> insert (es ! k) (set (drop (Suc k) es) \<union> set (node_set (e_graph st)))"
    "k < length es \<Longrightarrow> u \<in> set (e_bags st ! k) \<Longrightarrow> v \<in> set (e_bags st ! k) \<Longrightarrow> u \<noteq> v \<Longrightarrow> joined es st u v"
    "k < length es \<Longrightarrow> length (e_bags st ! k) \<le> e_width st + 1"
    "(u, v) \<in> edges g \<Longrightarrow> joined es st u v"
    "e_width st \<le> MAX_TREEWIDTH" "es \<noteq> [] \<Longrightarrow> \<exists>k < length es. length (e_bags st ! k) = e_width st + 1"
    "es = [] \<Longrightarrow> e_width st = 0"
  using assms unfolding elim_inv_def by (blast | (simp (no_asm_use); blast))+

lemma eliminate_inv:
  assumes I: "elim_inv g es st" and q: "e_queue st \<noteq> []" and st': "eliminate st = Inr st'"
  obtains n where "elim_inv g (es @ [n]) st'"
proof -
  note D = elim_invD[OF I]
  let ?H = "e_graph st"
  obtain n q' where nq: "get_next (e_queue st) = (n, q')" by fastforce
  let ?N = "adjacent ?H n" and ?H' = "eliminate_node ?H n"
  note N = get_next_correct[OF D(2) q nq] and E = eliminate_node_correct[OF D(1), of n]
  have H': "?H' = fill ?N True (snd (remove_node n ?H))"
    by (simp add: eliminate_node_def case_prod_beta remove_node_correct(1)[OF D(1)] Let_def)
  have w: "max (length ?N) (e_width st) \<le> MAX_TREEWIDTH"
    and st'_def: "st' = \<lparr>e_graph = ?H', e_queue = recompute ?N ?H' q', e_bags = e_bags st @ [make_bag (?N @ [n])],
       e_ids = (e_ids st)(n \<mapsto> length es), e_width = max (length ?N) (e_width st)\<rparr>"
    using st' nq remove_node_correct(1)[OF D(1), of n] D(4)
    by (auto simp: eliminate_def Let_def H' case_prod_beta split: if_splits)
  have nb: "set (make_bag (?N @ [n])) = insert n (set ?N)" by simp
  have fresh: "n \<notin> set es" "n \<notin> set ?N" using N(1) D(6) no_loop[OF D(1)] by auto
  have j: "joined (es @ [n]) st' u v" if "joined es st u v" for u v
  proof -
    consider (edge) "(u, v) \<in> edges ?H"
      | (bag) k where "k < length es" "(es ! k = u \<and> v \<in> set (e_bags st ! k)) \<or> (es ! k = v \<and> u \<in> set (e_bags st ! k))"
      using \<open>joined es st u v\<close> unfolding joined_def by blast
    then show ?thesis
    proof cases
      case edge
      then show ?thesis
      proof (cases "u = n \<or> v = n")
        case True
        then have "(n = u \<and> v \<in> set ?N) \<or> (n = v \<and> u \<in> set ?N)" using edge graph_okD(3)[OF D(1)] by auto
        then show ?thesis unfolding joined_def
          by (intro disjI2 exI[of _ "length es"]) (auto simp: st'_def nth_append D(4))
      next
        case False
        then show ?thesis using edge by (auto simp: joined_def st'_def E(2) edges_def[symmetric] simp del: edges_iff)
      qed
    next
      case (bag k)
      then show ?thesis unfolding joined_def
        by (intro disjI2 exI[of _ k]) (auto simp: st'_def nth_append D(4))
    qed
  qed
  have clique: "joined (es @ [n]) st' u v" if "u \<in> insert n (set ?N)" "v \<in> insert n (set ?N)" "u \<noteq> v" for u v
  proof (cases "u = n \<or> v = n")
    case True
    then show ?thesis unfolding joined_def
      by (intro disjI2 exI[of _ "length es"]) (use that in \<open>auto simp: st'_def nth_append D(4)\<close>)
  next
    case False
    then have "(u, v) \<in> edges ?H'" using that by (simp add: E(2) del: edges_iff)
    then show ?thesis by (simp add: joined_def st'_def)
  qed
  have bags: "distinct (e_bags st' ! k) \<and> (es @ [n]) ! k \<in> set (e_bags st' ! k) \<and>
      set (e_bags st' ! k) \<subseteq> insert ((es @ [n]) ! k) (set (drop (Suc k) (es @ [n])) \<union> set (node_set (e_graph st'))) \<and>
      (\<forall>u \<in> set (e_bags st' ! k). \<forall>v \<in> set (e_bags st' ! k). u \<noteq> v \<longrightarrow> joined (es @ [n]) st' u v) \<and>
      length (e_bags st' ! k) \<le> e_width st' + 1" if k: "k < length (es @ [n])" for k
  proof (cases "k < length es")
    case True
    have "set (node_set ?H) = insert n (set (node_set ?H'))" using E(3) N(1) by auto
    then show ?thesis using True D(8-10,12)[OF True] D(11)[OF True] j by (auto simp: st'_def nth_append D(4))
  next
    case False
    then have [simp]: "k = length es" using k by simp
    have "length (make_bag (?N @ [n])) = length ?N + 1"
      using make_bag_distinct(2)[of "?N @ [n]"] graph_okD(2)[OF D(1), of n] fresh(2) by simp
    moreover have "set ?N \<subseteq> set (node_set ?H')" unfolding E(3) using graph_okD(6)[OF D(1)] fresh(2) by auto
    ultimately show ?thesis using clique make_bag_distinct(1) by (auto simp: st'_def nth_append D(4))
  qed
  have "elim_inv g (es @ [n]) st'"
    unfolding elim_inv_def
  proof (intro conjI)
    show "graph_ok (e_graph st')" using E(1) by (simp add: st'_def)
    show "queue_ok (e_graph st') (e_queue st')" using queue_eliminate[OF D(1,2) q nq] by (simp add: st'_def)
    show "distinct (es @ [n])" using D(3) fresh by simp
    show "length (e_bags st') = length (es @ [n])" using D(4) by (simp add: st'_def)
    show "set (es @ [n]) \<union> set (node_set (e_graph st')) = set (node_set g)" using D(5) N(1) E(3) by (auto simp: st'_def)
    show "set (es @ [n]) \<inter> set (node_set (e_graph st')) = {}" using D(6) E(3) by (auto simp: st'_def)
    show "\<forall>v k. e_ids st' v = Some k \<longleftrightarrow> k < length (es @ [n]) \<and> (es @ [n]) ! k = v"
      using D(7) fresh(1) by (auto simp: st'_def nth_append less_Suc_eq)
    show "\<forall>(u, v) \<in> edges g. joined (es @ [n]) st' u v" using D(13) j by blast
    show "e_width st' \<le> MAX_TREEWIDTH" using w by (simp add: st'_def)
    show "es @ [n] = [] \<longrightarrow> e_width st' = 0" by simp
    show "es @ [n] \<noteq> [] \<longrightarrow> (\<exists>k < length (es @ [n]). length (e_bags st' ! k) = e_width st' + 1)"
    proof (cases "e_width st < length ?N \<or> es = []")
      case True
      have "length (make_bag (?N @ [n])) = length ?N + 1"
        using make_bag_distinct(2)[of "?N @ [n]"] graph_okD(2)[OF D(1), of n] fresh(2) by simp
      moreover have "max (length ?N) (e_width st) = length ?N" using True D(16) by auto
      ultimately show ?thesis using D(4) by (intro impI exI[of _ "length es"]) (auto simp: st'_def nth_append)
    next
      case False
      then show ?thesis using D(4,15) by (auto simp: st'_def nth_append max_def)
    qed
  qed (use bags in blast)
  then show thesis by (rule that)
qed


lemma start_inv: "graph_ok g \<Longrightarrow> elim_inv g [] (start_elimination g)"
  by (auto simp: elim_inv_def start_elimination_def init_permutation_ok joined_def)

lemma queue_empty: "queue_ok g q \<Longrightarrow> q = [] \<longleftrightarrow> node_set g = []"
  by (auto simp: queue_ok_def)

lemma elimination_loop_inv:
  assumes "elim_inv g es st"
  shows "case elimination_loop st of Inl e \<Rightarrow> e = TreeDecompositionException
    | Inr st' \<Rightarrow> (\<exists>es'. elim_inv g es' st' \<and> (es \<noteq> [] \<or> e_queue st \<noteq> [] \<longrightarrow> es' \<noteq> [])) \<and>
        number_nodes (e_graph st') \<le> e_width st'"
  using assms
proof (induction st arbitrary: es rule: elimination_loop.induct)
  case (1 st)
  have empty: "e_queue st = [] \<Longrightarrow> number_nodes (e_graph st) = 0"
    using queue_empty[OF elim_invD(2)[OF 1(2)]] by (simp add: number_nodes_def)
  show ?case
  proof (cases "e_width st < number_nodes (e_graph st) \<and> e_queue st \<noteq> []")
    case True
    show ?thesis
    proof (cases "eliminate st")
      case (Inl e)
      then have "e = TreeDecompositionException" by (auto simp: eliminate_def Let_def split: prod.splits if_splits)
      then show ?thesis using True Inl by (simp add: elimination_loop.simps[of st])
    next
      case (Inr st')
      obtain n where "elim_inv g (es @ [n]) st'" using eliminate_inv[OF 1(2) _ Inr] True by blast
      from 1(1)[OF True Inr this] show ?thesis using True Inr
        by (auto simp: elimination_loop.simps[of st] split: sum.splits)
    qed
  next
    case False
    moreover have "number_nodes (e_graph st) \<le> e_width st" using False empty by fastforce
    moreover have "es \<noteq> []" if "e_queue st \<noteq> []"
    proof
      assume "es = []"
      then have "e_width st = 0" using elim_invD(16)[OF 1(2)] by simp
      then show False using calculation(2) that queue_empty[OF elim_invD(2)[OF 1(2)]] by (simp add: number_nodes_def)
    qed
    ultimately show ?thesis using 1(2) by (auto simp: elimination_loop.simps[of st])
  qed
qed

section \<open>Parents and children\<close>

lemma find_parent_least:
  "find_parent ids bag i l \<le> l" "n \<in> set bag \<Longrightarrow> ids n = Some b \<Longrightarrow> b \<noteq> i \<Longrightarrow> find_parent ids bag i l \<le> b"
  "find_parent ids bag i l = l \<or> (\<exists>n \<in> set bag. ids n = Some (find_parent ids bag i l) \<and> find_parent ids bag i l \<noteq> i)"
proof -
  have le: "find_parent ids bag i l \<le> l" for l bag
  proof (induction bag arbitrary: l)
    case (Cons m bag)
    let ?l = "case ids m of Some b \<Rightarrow> if b \<noteq> i then min b l else l | None \<Rightarrow> l"
    have "?l \<le> l" by (simp split: option.split)
    then show ?case using Cons[of ?l] by (simp add: find_parent_def)
  qed (simp add: find_parent_def)
  show "find_parent ids bag i l \<le> l" by (rule le)
  show "n \<in> set bag \<Longrightarrow> ids n = Some b \<Longrightarrow> b \<noteq> i \<Longrightarrow> find_parent ids bag i l \<le> b"
  proof (induction bag arbitrary: l)
    case (Cons m bag)
    then show ?case using le[of bag "min b l"] by (auto simp: find_parent_def)
  qed simp
  show "find_parent ids bag i l = l \<or> (\<exists>n \<in> set bag. ids n = Some (find_parent ids bag i l) \<and> find_parent ids bag i l \<noteq> i)"
  proof (induction bag arbitrary: l)
    case (Cons m bag)
    let ?l = "case ids m of Some b \<Rightarrow> if b \<noteq> i then min b l else l | None \<Rightarrow> l"
    have "find_parent ids (m # bag) i l = find_parent ids bag i ?l" by (simp add: find_parent_def)
    then show ?case using Cons[of ?l] by (auto simp: min_def split: option.splits if_splits)
  qed (simp add: find_parent_def)
qed

lemma attach_all:
  fixes bs :: "nat list list" and ids :: "nat \<rightharpoonup> nat"
  assumes "k \<le> l" "l < n"
  defines "p \<equiv> \<lambda>i. find_parent ids (bs ! i) i l"
  defines "r \<equiv> fold (attach ids bs l) [0..<k] (replicate n 0, replicate n [])"
  shows "length (fst r) = n \<and> length (snd r) = n \<and> (\<forall>i < k. fst r ! i = p i) \<and>
    (\<forall>j < n. snd r ! j = filter (\<lambda>i. p i = j) [0..<k])"
  unfolding r_def using assms(1)
proof (induction k)
  case (Suc k)
  obtain r where r: "r = fold (attach ids bs l) [0..<k] (replicate n 0, replicate n [])" by blast
  have IH: "length (fst r) = n" "length (snd r) = n" "\<forall>i < k. fst r ! i = p i"
    "\<forall>j < n. snd r ! j = filter (\<lambda>i. p i = j) [0..<k]" using Suc by (simp_all add: r)
  have "p k \<le> l" by (simp add: p_def find_parent_least(1))
  then have "p k < n" using assms(2) by simp
  moreover have "fold (attach ids bs l) [0..<Suc k] (replicate n 0, replicate n []) =
      ((fst r)[k := p k], (snd r)[p k := snd r ! p k @ [k]])" by (simp add: r) (simp add: attach_def p_def Let_def)
  ultimately show ?case using IH Suc.prems assms(2) by (auto simp: nth_list_update less_Suc_eq)
qed simp


section \<open>The decomposition is right\<close>

text \<open>The bags at the end, and the bag of each node: where it was eliminated, or the last one.\<close>

definition final_bags :: "elimination \<Rightarrow> nat list list" where
  "final_bags st = (if node_set (e_graph st) = [] then e_bags st else e_bags st @ [make_bag (node_set (e_graph st))])"

definition own_bag :: "elimination \<Rightarrow> nat \<Rightarrow> nat option" where
  "own_bag st v = (if v \<in> set (node_set (e_graph st)) then Some (length (e_bags st)) else e_ids st v)"

lemma own_bag_top:
  assumes I: "elim_inv g es st" and v: "v \<in> set (final_bags st ! i)" and i: "i < length (final_bags st)"
  obtains t where "own_bag st v = Some t" "i \<le> t" "t < length (final_bags st)" "v \<in> set (final_bags st ! t)"
    "i < t \<Longrightarrow> i < length es \<and> v \<noteq> es ! i"
proof -
  note D = elim_invD[OF I]
  let ?R = "set (node_set (e_graph st))" and ?m = "length es"
  have bag: "final_bags st ! k = e_bags st ! k" if "k < ?m" for k using that D(4) by (simp add: final_bags_def nth_append)
  have len: "length (final_bags st) = (if ?R = {} then ?m else ?m + 1)" by (simp add: final_bags_def D(4))
  note own = that
  have in_R: thesis if vR: "v \<in> ?R"
  proof (rule own)
    show "own_bag st v = Some ?m" using vR by (simp add: own_bag_def D(4))
    show "i \<le> ?m" "?m < length (final_bags st)" using i vR len by (auto split: if_splits)
    show "v \<in> set (final_bags st ! ?m)" using vR D(4) by (auto simp: final_bags_def nth_append)
    show "i < ?m \<and> v \<noteq> es ! i" if lt: "i < ?m" using lt D(6) vR by (auto dest: nth_mem)
  qed
  have in_es: thesis if k: "k < ?m" "v = es ! k" "i \<le> k" for k
  proof (rule own)
    have "v \<notin> ?R" using D(6) k by (auto dest: nth_mem)
    then show "own_bag st v = Some k" using k(1,2) D(7) by (simp add: own_bag_def)
    show "i \<le> k" "k < length (final_bags st)" using k len by auto
    show "v \<in> set (final_bags st ! k)" using bag k D(9) by simp
    show "i < ?m \<and> v \<noteq> es ! i" if lt: "i < k" using lt k D(3) by (simp add: nth_eq_iff_index_eq)
  qed
  show thesis
  proof (cases "i < ?m")
    case True
    then have "v = es ! i \<or> v \<in> set (drop (Suc i) es) \<or> v \<in> ?R" using v bag[OF True] D(10)[OF True] by auto
    moreover have thesis if drop: "v \<in> set (drop (Suc i) es)"
    proof -
      from drop obtain j where "j < length (drop (Suc i) es)" "v = drop (Suc i) es ! j" by (auto simp: in_set_conv_nth)
      then show thesis using in_es[of "Suc i + j"] by simp
    qed
    ultimately show thesis using in_R in_es[of i] True by blast
  next
    case False
    then have "i = ?m" "?R \<noteq> {}" using i len by (auto split: if_splits)
    then have "v \<in> ?R" using v D(4) by (auto simp: final_bags_def nth_append split: if_splits)
    then show thesis by (rule in_R)
  qed
qed

lemma parent_right:
  assumes I: "elim_inv g es st" and i: "i < length (final_bags st) - 1"
  defines "l \<equiv> length (final_bags st) - 1"
  defines "p \<equiv> find_parent (e_ids st) (final_bags st ! i) i l"
  shows "i < p" "p \<le> l" "v \<in> set (final_bags st ! i) \<Longrightarrow> v \<noteq> es ! i \<Longrightarrow> v \<in> set (final_bags st ! p)"
proof -
  note D = elim_invD[OF I]
  let ?R = "set (node_set (e_graph st))" and ?m = "length es"
  note F = find_parent_least[where ids = "e_ids st" and bag = "final_bags st ! i" and i = i and l = l, folded p_def]
  have len: "length (final_bags st) = (if ?R = {} then ?m else ?m + 1)" by (simp add: final_bags_def D(4))
  have i': "i < ?m" "i < length (final_bags st)" using i len by (auto split: if_splits)
  have bag: "final_bags st ! k = e_bags st ! k" if "k < ?m" for k using that D(4) by (simp add: final_bags_def nth_append)
  have later: "i < b" if "u \<in> set (final_bags st ! i)" "e_ids st u = Some b" "b \<noteq> i" for u b
  proof -
    have "b < ?m" "es ! b = u" using that(2) D(7) by auto
    then have "own_bag st u = Some b" using D(6) that(2) by (auto simp: own_bag_def dest: nth_mem)
    then show ?thesis using own_bag_top[OF I that(1) i'(2)] that(3) by fastforce
  qed
  show p: "i < p" "p \<le> l" using F(1,3) i later by (auto simp: l_def)
  assume v: "v \<in> set (final_bags st ! i)" "v \<noteq> es ! i"
  obtain t where t: "own_bag st v = Some t" "i \<le> t" "t < length (final_bags st)" "v \<in> set (final_bags st ! t)"
    using own_bag_top[OF I v(1) i'(2)] by blast
  show "v \<in> set (final_bags st ! p)"
  proof (cases "p = l")
    case True
    have "t = l"
    proof (rule ccontr)
      assume "t \<noteq> l"
      then have "t < l" using t(3) by (simp add: l_def)
      then have "v \<notin> ?R" "t < ?m" using t(1) len D(4) by (auto simp: own_bag_def l_def split: if_splits)
      then have "e_ids st v = Some t" "es ! t = v" using t(1) D(7) by (auto simp: own_bag_def)
      then show False using F(2)[OF v(1), of t] v(2) \<open>t < l\<close> True by auto
    qed
    then show ?thesis using t(4) True by simp
  next
    case False
    then obtain u where u: "u \<in> set (final_bags st ! i)" "e_ids st u = Some p" "p \<noteq> i" using F(3) by blast
    then have up: "p < ?m" "es ! p = u" using D(7) by auto
    show ?thesis
    proof (cases "v = u")
      case True
      then show ?thesis using up(2) bag[OF up(1)] D(9)[OF up(1)] by simp
    next
      case neq: False
      have "u \<notin> ?R" using up D(6) by (auto dest: nth_mem)
      moreover have "joined es st u v" using D(11)[OF i'(1)] u(1) v(1) bag[OF i'(1)] neq by simp
      ultimately have "\<exists>k < ?m. (es ! k = u \<and> v \<in> set (e_bags st ! k)) \<or> (es ! k = v \<and> u \<in> set (e_bags st ! k))"
        using graph_okD(5)[OF D(1)] by (auto simp: joined_def)
      then obtain k where k: "k < ?m" "(es ! k = u \<and> v \<in> set (e_bags st ! k)) \<or> (es ! k = v \<and> u \<in> set (e_bags st ! k))" by blast
      show ?thesis
      proof (cases "es ! k = u")
        case True
        then have "k = p" using nth_eq_iff_index_eq[OF D(3) k(1) up(1)] up(2) by simp
        show ?thesis
        proof (cases "v \<in> set (e_bags st ! k)")
          case True
          then show ?thesis using \<open>k = p\<close> bag up(1) by simp
        qed (use k(2) True neq in auto)
      next
        case False
        then have k': "es ! k = v" "u \<in> set (final_bags st ! k)" using k bag by auto
        then have "e_ids st v = Some k" using k(1) D(7) by simp
        moreover have "k \<noteq> i" using k'(1) v(2) by auto
        ultimately have "p \<le> k" using F(2)[OF v(1)] by simp
        have "own_bag st u = Some p" using u(2) \<open>u \<notin> ?R\<close> by (simp add: own_bag_def)
        moreover have "k < length (final_bags st)" using k(1) len by simp
        ultimately have "k \<le> p" using own_bag_top[OF I k'(2)] by fastforce
        then have "p = k" using \<open>p \<le> k\<close> by simp
        then show ?thesis using up(2) False by simp
      qed
    qed
  qed
qed


lemma up_to_top:
  assumes I: "elim_inv g es st" and td: "td_bags td = final_bags st" "td_root td = length (final_bags st) - 1"
    "\<forall>i < length (final_bags st) - 1. td_parent td ! i = find_parent (e_ids st) (final_bags st ! i) i (length (final_bags st) - 1)"
    and v: "v \<in> set (final_bags st ! i)" "i < length (final_bags st)" "own_bag st v = Some t"
  shows "(i, t) \<in> (up_with td v)\<^sup>*"
  using v
proof (induction "t - i" arbitrary: i rule: less_induct)
  case less
  from own_bag_top[OF I less.prems(1,2)] less.prems(3) have t: "i \<le> t" "t < length (final_bags st)" "v \<in> set (final_bags st ! t)"
    "i < t \<Longrightarrow> v \<noteq> es ! i" by auto
  show ?case
  proof (cases "i = t")
    case False
    then have lt: "i < t" "i < length (final_bags st) - 1" using t by auto
    let ?p = "td_parent td ! i"
    have p: "?p = find_parent (e_ids st) (final_bags st ! i) i (length (final_bags st) - 1)" using td(3) lt(2) by simp
    note P = parent_right[OF I lt(2), folded p]
    have vp: "v \<in> set (final_bags st ! ?p)" using P(3) less.prems(1) t(4)[OF lt(1)] by simp
    have "?p < length (final_bags st)" using P(2) lt(2) by linarith
    moreover have "t - ?p < t - i" using P(1) lt(1) by simp
    ultimately have "(?p, t) \<in> (up_with td v)\<^sup>*" using less.hyps vp less.prems(3) by blast
    moreover have "(i, ?p) \<in> up_with td v" using less.prems lt vp td(1,2) by (auto simp: up_with_def)
    ultimately show ?thesis by (meson converse_rtrancl_into_rtrancl)
  qed simp
qed

lemma own_bag_joined:
  assumes I: "elim_inv g es st" and uv: "(u, v) \<in> edges g" "own_bag st u = Some a" "own_bag st v = Some b"
  shows "min a b < length (final_bags st) \<and> u \<in> set (final_bags st ! min a b) \<and> v \<in> set (final_bags st ! min a b)"
proof -
  note D = elim_invD[OF I]
  have j: "joined es st u v" using D(13) uv(1) by blast
  have first: "min x y = k \<and> k < length (final_bags st) \<and> w \<in> set (final_bags st ! k) \<and> z \<in> set (final_bags st ! k)"
    if k: "k < length es" "es ! k = w" "z \<in> set (e_bags st ! k)" and x: "own_bag st w = Some x" "own_bag st z = Some y" for k w z x y
  proof -
    have l: "k < length (final_bags st)" "final_bags st ! k = e_bags st ! k" using k(1) D(4) by (auto simp: final_bags_def nth_append)
    have "w \<notin> set (node_set (e_graph st))" using D(6) k by (auto dest: nth_mem)
    then have "x = k" using x(1) D(7)[of w k] k by (simp add: own_bag_def)
    moreover have "k \<le> y" using own_bag_top[OF I, of z k] l k(3) x(2) by auto
    ultimately show ?thesis using l k(3) D(9)[OF k(1)] k(2) by auto
  qed
  show ?thesis
  proof (cases "(u, v) \<in> edges (e_graph st)")
    case True
    then have R: "u \<in> set (node_set (e_graph st))" "v \<in> set (node_set (e_graph st))" using graph_okD(5,6)[OF D(1)] by auto
    then have "a = length es" "b = length es" using uv(2,3) D(4) by (auto simp: own_bag_def)
    then show ?thesis using R D(4) by (auto simp: final_bags_def nth_append)
  next
    case False
    then obtain k where "k < length es" "(es ! k = u \<and> v \<in> set (e_bags st ! k)) \<or> (es ! k = v \<and> u \<in> set (e_bags st ! k))"
      using j unfolding joined_def by blast
    then show ?thesis using first[of k u v a b] first[of k v u b a] uv(2,3) by (auto simp: min.commute)
  qed
qed

lemma fold_upd: "fold (\<lambda>v el. el(v \<mapsto> m)) vs f = (\<lambda>v. if v \<in> set vs then Some m else f v)"
  by (induction vs arbitrary: f) auto

lemma treeDecomposition_Inr:
  assumes "treeDecomposition g = Inr (td, el)" "graph_ok g" "node_set g \<noteq> []"
  obtains es st where "elim_inv g es st" "es \<noteq> []" "number_nodes (e_graph st) \<le> e_width st"
    "td_bags td = final_bags st" "el = own_bag st" "td_width td = e_width st" "td_root td = length (final_bags st) - 1"
    "length (td_parent td) = length (final_bags st)" "td_parent td ! td_root td = td_root td"
    "\<forall>i < length (final_bags st) - 1. td_parent td ! i = find_parent (e_ids st) (final_bags st ! i) i (length (final_bags st) - 1)"
    "length (td_children td) = length (final_bags st)"
    "\<forall>j < length (final_bags st). td_children td ! j = filter (\<lambda>i. td_parent td ! i = j) [0..<length (final_bags st) - 1]"
proof -
  have q: "e_queue (start_elimination g) \<noteq> []" using assms(3) by (simp add: start_elimination_def init_permutation_def)
  obtain st where st: "elimination_loop (start_elimination g) = Inr st"
    using assms(1) by (auto simp: treeDecomposition_def split: sum.splits)
  obtain es where I: "elim_inv g es st" "es \<noteq> []" "number_nodes (e_graph st) \<le> e_width st"
    using elimination_loop_inv[OF start_inv[OF assms(2)]] st q by auto
  let ?bs = "final_bags st"
  let ?l = "length ?bs - 1"
  define r where "r = fold (attach (e_ids st) ?bs ?l) [0..<?l] (replicate (length ?bs) 0, replicate (length ?bs) [])"
  have ne: "?bs \<noteq> []" using I(2) elim_invD(4)[OF I(1)] by (auto simp: final_bags_def)
  have bs: "(if number_nodes (e_graph st) > 0 then e_bags st @ [make_bag (node_set (e_graph st))] else e_bags st) = ?bs"
    by (simp add: final_bags_def number_nodes_def)
  have el: "(if number_nodes (e_graph st) > 0 then fold (\<lambda>v el. el(v \<mapsto> length (e_bags st))) (node_set (e_graph st)) (e_ids st) else e_ids st) = own_bag st"
    by (auto simp: fold_upd own_bag_def number_nodes_def)
  have "Inr (td, el) = (Inr (\<lparr>td_bags = ?bs, td_parent = (fst r)[?l := ?l], td_children = snd r, td_root = ?l,
      td_width = (if number_nodes (e_graph st) = 0 then e_width st else max (e_width st) (number_nodes (e_graph st) - 1))\<rparr>, own_bag st)
        :: td_exn + _)"
    using assms(1) st ne unfolding treeDecomposition_def
    by (simp add: Let_def bs el r_def[symmetric] case_prod_beta del: One_nat_def split: if_splits)
  then have td: "td_bags td = ?bs" "el = own_bag st" "td_parent td = (fst r)[?l := ?l]" "td_children td = snd r" "td_root td = ?l"
    "td_width td = e_width st" using I(3) by (auto simp: max_def)
  have "?l < length ?bs" using ne by simp
  from attach_all[OF order_refl this, of "e_ids st" ?bs, folded r_def] have A: "length (fst r) = length ?bs" "length (snd r) = length ?bs"
    "\<forall>i < ?l. fst r ! i = find_parent (e_ids st) (?bs ! i) i ?l"
    "\<forall>j < length ?bs. snd r ! j = filter (\<lambda>i. find_parent (e_ids st) (?bs ! i) i ?l = j) [0..<?l]" by blast+
  have P: "\<forall>i < ?l. td_parent td ! i = find_parent (e_ids st) (?bs ! i) i ?l" using A(3) td(3) by simp
  show thesis
    by (rule that[OF I td(1,2) td(6,5) _ _ P]) (use A td ne P in \<open>auto intro!: filter_cong\<close>)
qed


lemma find_own: "elim_inv g es st \<Longrightarrow> es \<noteq> [] \<Longrightarrow> v \<in> set (node_set g) \<Longrightarrow>
  \<exists>t. own_bag st v = Some t \<and> t < length (final_bags st) \<and> v \<in> set (final_bags st ! t)"
proof -
  assume I: "elim_inv g es st" and v: "v \<in> set (node_set g)"
  note D = elim_invD[OF I]
  show ?thesis
  proof (cases "v \<in> set (node_set (e_graph st))")
    case True
    then show ?thesis using D(4) by (auto simp: own_bag_def final_bags_def nth_append)
  next
    case False
    then obtain k where "k < length es" "es ! k = v" using v D(5) by (metis UnE in_set_conv_nth)
    then show ?thesis using False D(4,7,9) by (auto simp: own_bag_def final_bags_def nth_append)
  qed
qed

lemma bag_facts:
  assumes I: "elim_inv g es st" "es \<noteq> []" "number_nodes (e_graph st) \<le> e_width st"
  shows "\<forall>b \<in> set (final_bags st). distinct b \<and> set b \<subseteq> set (node_set g) \<and> length b \<le> e_width st + 1"
    "\<exists>b \<in> set (final_bags st). length b = e_width st + 1"
proof -
  note D = elim_invD[OF I(1)]
  have d: "set (drop (Suc k) es) \<subseteq> set es" for k by (rule set_drop_subset)
  have "distinct b \<and> set b \<subseteq> set (node_set g) \<and> length b \<le> e_width st + 1" if b: "b \<in> set (e_bags st)" for b
  proof -
    obtain k where k: "k < length es" "b = e_bags st ! k" using b D(4) by (auto simp: in_set_conv_nth)
    have "set b \<subseteq> set es \<union> set (node_set (e_graph st))" using D(10)[OF k(1)] d[of k] k by (auto dest: nth_mem)
    then show ?thesis using D(5) D(8,12)[OF k(1)] k(2) by simp
  qed
  moreover have "distinct b \<and> set b \<subseteq> set (node_set g) \<and> length b \<le> e_width st + 1" if b: "b = make_bag (node_set (e_graph st))" for b
    using make_bag_distinct(1)[of "node_set (e_graph st)"] make_bag_distinct(2)[OF graph_okD(1)[OF D(1)]] D(5) I(3)
    unfolding b number_nodes_def by (auto simp del: distinct_card)
  ultimately show "\<forall>b \<in> set (final_bags st). distinct b \<and> set b \<subseteq> set (node_set g) \<and> length b \<le> e_width st + 1"
    by (auto simp: final_bags_def)
  show "\<exists>b \<in> set (final_bags st). length b = e_width st + 1" using D(4,15) I(2) by (auto simp: final_bags_def)
qed

lemma rooted_tree:
  assumes l: "length (td_bags td) = Suc l" "td_root td = l" "length (td_parent td) = Suc l" "length (td_children td) = Suc l"
    "td_parent td ! l = l" "\<forall>i < l. i < td_parent td ! i \<and> td_parent td ! i \<le> l"
    "\<forall>j \<le> l. td_children td ! j = filter (\<lambda>i. td_parent td ! i = j) [0..<l]"
  shows "is_rooted_tree td"
proof -
  have "(i, l) \<in> {(j, td_parent td ! j) | j. j < Suc l}\<^sup>*" if "i \<le> l" for i
    using that
  proof (induction "l - i" arbitrary: i rule: less_induct)
    case less
    show ?case
    proof (cases "i = l")
      case False
      then have "i < td_parent td ! i" "td_parent td ! i \<le> l" using l(6) less.prems by auto
      then have "(td_parent td ! i, l) \<in> {(j, td_parent td ! j) | j. j < Suc l}\<^sup>*" using less.hyps by simp
      moreover have "(i, td_parent td ! i) \<in> {(j, td_parent td ! j) | j. j < Suc l}" using less.prems by auto
      ultimately show ?thesis by (meson converse_rtrancl_into_rtrancl)
    qed simp
  qed
  moreover have "td_parent td ! i < Suc l" if "i < Suc l" for i using l(5,6) that by (cases "i = l") (auto simp: less_Suc_eq_le)
  moreover have "set (td_children td ! p) = {i. i < Suc l \<and> i \<noteq> l \<and> td_parent td ! i = p}" if "p < Suc l" for p
    using l(7) that by auto
  ultimately show ?thesis using l(1-5,7) unfolding is_rooted_tree_def Let_def l(1,2) by (simp add: less_Suc_eq_le)
qed

lemma treeDecomposition_run:
  assumes g: "graph_ok g" "node_set g \<noteq> []" and run: "treeDecomposition g = Inr (td, el)"
  shows "tree_decomposition_of (set (node_set g)) (edges g) td"
    "\<forall>b \<in> set (td_bags td). length b \<le> td_width td + 1" "\<exists>b \<in> set (td_bags td). length b = td_width td + 1"
    "td_width td \<le> MAX_TREEWIDTH"
    "(u, v) \<in> edges g \<Longrightarrow> \<exists>a b. el u = Some a \<and> el v = Some b \<and> min a b < length (td_bags td) \<and>
       u \<in> set (td_bags td ! min a b) \<and> v \<in> set (td_bags td ! min a b)"
proof -
  obtain es st where R: "elim_inv g es st" "es \<noteq> []" "number_nodes (e_graph st) \<le> e_width st"
    "td_bags td = final_bags st" "el = own_bag st" "td_width td = e_width st" "td_root td = length (final_bags st) - 1"
    "length (td_parent td) = length (final_bags st)" "td_parent td ! td_root td = td_root td"
    "\<forall>i < length (final_bags st) - 1. td_parent td ! i = find_parent (e_ids st) (final_bags st ! i) i (length (final_bags st) - 1)"
    "length (td_children td) = length (final_bags st)"
    "\<forall>j < length (final_bags st). td_children td ! j = filter (\<lambda>i. td_parent td ! i = j) [0..<length (final_bags st) - 1]"
    using treeDecomposition_Inr[OF run g] by blast
  note B = bag_facts[OF R(1-3)]
  show "\<forall>b \<in> set (td_bags td). length b \<le> td_width td + 1" "\<exists>b \<in> set (td_bags td). length b = td_width td + 1"
    using B by (simp_all add: R(4,6))
  show "td_width td \<le> MAX_TREEWIDTH" using elim_invD(14)[OF R(1)] by (simp add: R(6))
  have ends: "\<exists>a b. own_bag st u = Some a \<and> own_bag st v = Some b" if "(u, v) \<in> edges g" for u v
    using that find_own[OF R(1,2), of u] find_own[OF R(1,2), of v] graph_okD(5,6)[OF g(1)] by fastforce
  then show e: "(u, v) \<in> edges g \<Longrightarrow> \<exists>a b. el u = Some a \<and> el v = Some b \<and> min a b < length (td_bags td) \<and>
       u \<in> set (td_bags td ! min a b) \<and> v \<in> set (td_bags td ! min a b)" for u v
    using own_bag_joined[OF R(1)] unfolding R(4,5) by blast
  have ne: "final_bags st \<noteq> []" using R(2) elim_invD(4)[OF R(1)] by (auto simp: final_bags_def)
  then obtain l where l: "length (final_bags st) = Suc l" by (cases "final_bags st") auto
  have "is_rooted_tree td"
  proof (rule rooted_tree)
    show "\<forall>i < l. i < td_parent td ! i \<and> td_parent td ! i \<le> l"
      using parent_right(1,2)[OF R(1)] R(10) by (simp add: l)
    show "\<forall>j \<le> l. td_children td ! j = filter (\<lambda>i. td_parent td ! i = j) [0..<l]" using R(12) by (simp add: l less_Suc_eq_le)
    show "td_parent td ! l = l" using R(7,9) l by simp
  qed (use R(4,7,8,11) l in simp_all)
  moreover have "\<exists>t < length (td_bags td). v \<in> set (td_bags td ! t) \<and>
      (\<forall>i < length (td_bags td). v \<in> set (td_bags td ! i) \<longrightarrow> (i, t) \<in> (up_with td v)\<^sup>*)" if "v \<in> set (node_set g)" for v
    using find_own[OF R(1,2) that] up_to_top[OF R(1,4,7,10)] unfolding R(4) by blast
  moreover have "\<exists>b \<in> set (td_bags td). u \<in> set b \<and> v \<in> set b" if "(u, v) \<in> edges g" for u v
    using e[OF that] by (meson nth_mem)
  ultimately show "tree_decomposition_of (set (node_set g)) (edges g) td"
    using B(1) unfolding tree_decomposition_of_def R(4) by blast
qed


text \<open>C29: on a non-empty graph the greedy elimination either gives up because some bag would be too large, or
  returns a tree decomposition of the graph: a rooted tree of bags in which every edge is covered and the
  bags of a vertex are connected; its width is the size of the largest bag minus one, at most 10.  The map
  \<open>elimination_bag\<close> gives for every edge a bag that covers it.\<close>

theorem treeDecomposition_correct:
  assumes "graph_ok g" "node_set g \<noteq> []"
  shows "case treeDecomposition g of
      Inl e \<Rightarrow> e = TreeDecompositionException
    | Inr (td, el) \<Rightarrow> tree_decomposition_of (set (node_set g)) (edges g) td \<and>
        (\<forall>b \<in> set (td_bags td). length b \<le> td_width td + 1) \<and> (\<exists>b \<in> set (td_bags td). length b = td_width td + 1) \<and>
        td_width td \<le> MAX_TREEWIDTH \<and>
        (\<forall>(u, v) \<in> edges g. \<exists>a b. el u = Some a \<and> el v = Some b \<and> min a b < length (td_bags td) \<and>
           u \<in> set (td_bags td ! min a b) \<and> v \<in> set (td_bags td ! min a b))"
proof (cases "treeDecomposition g")
  case (Inl e)
  have q: "e_queue (start_elimination g) \<noteq> []" using assms(2) by (simp add: start_elimination_def init_permutation_def)
  have "e = TreeDecompositionException"
  proof (cases "elimination_loop (start_elimination g)")
    case (Inr st)
    then obtain es where I: "elim_inv g es st" "es \<noteq> []"
      using elimination_loop_inv[OF start_inv[OF assms(1)]] q by auto
    then have "e_bags st \<noteq> []" using elim_invD(4)[OF I(1)] by auto
    then show ?thesis using \<open>treeDecomposition g = Inl e\<close> Inr
      by (auto simp: treeDecomposition_def Let_def case_prod_beta split: if_splits)
  next
    case (Inl e')
    then show ?thesis using \<open>treeDecomposition g = Inl e\<close> elimination_loop_inv[OF start_inv[OF assms(1)]]
      by (simp add: treeDecomposition_def)
  qed
  then show ?thesis using Inl by simp
next
  case (Inr r)
  obtain td el where "r = (td, el)" by fastforce
  then have run: "treeDecomposition g = Inr (td, el)" using Inr by simp
  note T = treeDecomposition_run[OF assms run]
  have "\<forall>(u, v) \<in> edges g. \<exists>a b. el u = Some a \<and> el v = Some b \<and> min a b < length (td_bags td) \<and>
           u \<in> set (td_bags td ! min a b) \<and> v \<in> set (td_bags td ! min a b)" using T(5) by blast
  then show ?thesis using T(1-4) run by simp
qed

text \<open>A path of three nodes.\<close>

definition path_graph :: graph where
  "path_graph = add_edge 1 2 True (add_edge 0 1 True empty_graph)"

lemma path_graph_ok: "graph_ok path_graph" "node_set path_graph \<noteq> []"
proof -
  have g: "graph_ok (add_edge 0 1 True empty_graph)" by (rule add_edge_correct(1)) (simp_all add: empty_graph_ok)
  show "graph_ok path_graph" unfolding path_graph_def by (rule add_edge_correct(1)[OF g]) simp
  have "set (node_set path_graph) = set (node_set (add_edge 0 1 True empty_graph)) \<union> {1, 2}"
    unfolding path_graph_def by (rule add_edge_correct(3)[OF g]) simp
  then show "node_set path_graph \<noteq> []" by (metis Un_insert_right empty_set insert_not_empty)
qed

lemma treeDecomposition_correct_witness:
  "\<exists>td el. treeDecomposition path_graph = Inr (td, el) \<and> td_width td = 1 \<and>
     tree_decomposition_of (set (node_set path_graph)) (edges path_graph) td"
proof -
  have "(case treeDecomposition path_graph of Inl e \<Rightarrow> False | Inr r \<Rightarrow> td_width (fst r) = 1)" by code_simp
  then obtain td el where r: "treeDecomposition path_graph = Inr (td, el)" "td_width td = 1"
    by (auto split: sum.splits)
  then show ?thesis using treeDecomposition_correct[OF path_graph_ok] by simp
qed

text \<open>The primal graph of a circuit: a gate is in some bag together with each of its wires.\<close>

lemma treeDecomposition_circuit_wires:
  assumes "\<forall>g < length (gates bc). g \<notin> set (getWires bc g)" "treeDecomposition_circuit bc = Inr (td, el)"
    and "g \<in> graph_gates bc" "w \<in> set (getWires bc g)"
  shows "\<exists>b \<in> set (td_bags td). g \<in> set b \<and> w \<in> set b"
proof -
  note P = primal_graph_correct[OF assms(1)]
  have "(g, w) \<in> edges (primal_graph bc)" using assms(3,4) by (simp add: P(2) del: edges_iff)
  moreover have "node_set (primal_graph bc) \<noteq> []" using P(3) assms(3) by auto
  ultimately show ?thesis
    using treeDecomposition_run(1)[OF P(1) _ assms(2)[unfolded treeDecomposition_circuit_def]]
    unfolding tree_decomposition_of_def by blast
qed

lemma treeDecomposition_no_node: "treeDecomposition empty_graph = Inl NoBag"
  by (simp add: treeDecomposition_def start_elimination_def init_permutation_def empty_graph_def number_nodes_def
      elimination_loop.simps)

end
