(* ===== verification/Degeneracy.thy ===== *)
theory Degeneracy
  imports TreeDec
begin

text \<open>
  \<open>TreeDecomposition::degeneracyLowerBound\<close> (\<open>src/TreeDecomposition.cpp\<close>): the peeling of the nodes of least
  degree with buckets.  What it returns is the degeneracy of the graph, which bounds the width of every
  tree decomposition from below.
\<close>

section \<open>The peeling\<close>

text \<open>A \<open>std::set\<close> is the sorted list of its elements; \<open>deg\<close> is total on the nodes.\<close>

record peel =
  p_deg :: "nat \<Rightarrow> nat"
  p_bucket :: "nat list list"
  p_removed :: "nat list"
  p_scan :: nat
  p_degeneracy :: nat

function skip_empty :: "nat list list \<Rightarrow> nat \<Rightarrow> nat \<Rightarrow> nat" where
  "skip_empty bucket max_deg scan =
     (if scan \<le> max_deg \<and> bucket ! scan = [] then skip_empty bucket max_deg (Suc scan) else scan)"
  by pat_completeness auto
termination by (relation "measure (\<lambda>(b, m, k). Suc m - k)") auto

declare skip_empty.simps [simp del]

definition lower_degree :: "nat \<Rightarrow> peel \<Rightarrow> peel" where
  "lower_degree u st =
     (if u \<in> set (p_removed st) then st
      else (let d = p_deg st u;
                bucket = (p_bucket st)[d := removeAll u (p_bucket st ! d)];
                bucket = bucket[d - 1 := insort_insert u (bucket ! (d - 1))]
            in st\<lparr>p_deg := (p_deg st)(u := d - 1), p_bucket := bucket,
                  p_scan := (if d - 1 < p_scan st then d - 1 else p_scan st)\<rparr>))"

definition peel_node :: "graph \<Rightarrow> peel \<Rightarrow> peel" where
  "peel_node g st =
     (let k = p_scan st; v = hd (p_bucket st ! k);
          st = st\<lparr>p_bucket := (p_bucket st)[k := tl (p_bucket st ! k)],
                  p_degeneracy := max (p_degeneracy st) k, p_removed := v # p_removed st\<rparr>
      in if has_neighbours g v then fold lower_degree (adjacent g v) st else st)"

primrec peel_loop :: "graph \<Rightarrow> nat \<Rightarrow> nat \<Rightarrow> peel \<Rightarrow> peel" where
  "peel_loop g max_deg 0 st = st"
| "peel_loop g max_deg (Suc n) st =
     (let st = st\<lparr>p_scan := skip_empty (p_bucket st) max_deg (p_scan st)\<rparr>
      in if p_scan st > max_deg then st else peel_loop g max_deg n (peel_node g st))"

definition degree_of :: "graph \<Rightarrow> nat \<Rightarrow> nat" where
  "degree_of g n = (if has_neighbours g n then length (adjacent g n) else 0)"

definition start_peel :: "graph \<Rightarrow> nat \<Rightarrow> peel" where
  "start_peel g max_deg =
     \<lparr>p_deg = degree_of g,
      p_bucket = fold (\<lambda>n b. b[degree_of g n := insort_insert n (b ! degree_of g n)]) (node_set g) (replicate (max_deg + 1) []),
      p_removed = [], p_scan = 0, p_degeneracy = 0\<rparr>"

text \<open>The result and the output parameter \<open>max_degree\<close>.\<close>

definition degeneracyLowerBound :: "graph \<Rightarrow> nat \<times> nat" where
  "degeneracyLowerBound g =
     (if node_set g = [] then (0, 0)
      else (let max_deg = fold (\<lambda>n m. max m (degree_of g n)) (node_set g) 0
            in (p_degeneracy (peel_loop g max_deg (length (node_set g)) (start_peel g max_deg)), max_deg)))"

section \<open>Degeneracy\<close>

definition degree_in :: "graph \<Rightarrow> nat set \<Rightarrow> nat \<Rightarrow> nat" where
  "degree_in g H v = card (set (adjacent g v) \<inter> H)"

text \<open>Every set of nodes has a node with at most D neighbours in it, and some set has none with fewer.\<close>

definition is_degeneracy :: "graph \<Rightarrow> nat \<Rightarrow> bool" where
  "is_degeneracy g D \<longleftrightarrow>
     (\<forall>H. H \<noteq> {} \<and> H \<subseteq> set (node_set g) \<longrightarrow> (\<exists>v \<in> H. degree_in g H v \<le> D)) \<and>
     (\<exists>H. H \<noteq> {} \<and> H \<subseteq> set (node_set g) \<and> (\<forall>v \<in> H. D \<le> degree_in g H v))"

text \<open>The invariant: the buckets sort the nodes left by their degree among those.\<close>

definition left :: "graph \<Rightarrow> peel \<Rightarrow> nat set" where
  "left g st = set (node_set g) - set (p_removed st)"

definition peel_inv :: "graph \<Rightarrow> nat \<Rightarrow> peel \<Rightarrow> bool" where
  "peel_inv g M st \<longleftrightarrow>
     length (p_bucket st) = M + 1 \<and> distinct (p_removed st) \<and> set (p_removed st) \<subseteq> set (node_set g) \<and>
     (\<forall>v \<in> left g st. p_deg st v = degree_in g (left g st) v \<and> p_deg st v \<le> M) \<and>
     (\<forall>d \<le> M. sorted (p_bucket st ! d) \<and> distinct (p_bucket st ! d) \<and> set (p_bucket st ! d) = {v \<in> left g st. p_deg st v = d}) \<and>
     (\<forall>d. d < p_scan st \<longrightarrow> d \<le> M \<longrightarrow> p_bucket st ! d = [])"

lemma degree_of_length: "degree_of g n = length (adjacent g n)"
  by (simp add: degree_of_def has_neighbours_def adjacent_def split: option.splits)

lemma skip_empty_correct:
  "k \<le> skip_empty b M k" "k \<le> d \<Longrightarrow> d < skip_empty b M k \<Longrightarrow> d \<le> M \<Longrightarrow> b ! d = []"
  "skip_empty b M k \<le> M \<Longrightarrow> b ! skip_empty b M k \<noteq> []"
proof (induction b M k rule: skip_empty.induct)
  case (1 b M k)
  { case 1
    then show ?case using "1.IH"(1) by (cases "k \<le> M \<and> b ! k = []") (auto simp: skip_empty.simps[of b M k])
  next
    case 2
    then show ?case using "1.IH"(2) by (cases "k \<le> M \<and> b ! k = []"; cases "d = k") (auto simp: skip_empty.simps[of b M k])
  next
    case 3
    then show ?case using "1.IH"(3) by (cases "k \<le> M \<and> b ! k = []") (auto simp: skip_empty.simps[of b M k])
  }
qed


definition buckets_ok :: "nat \<Rightarrow> nat set \<Rightarrow> peel \<Rightarrow> bool" where
  "buckets_ok M L st \<longleftrightarrow> length (p_bucket st) = M + 1 \<and> (\<forall>v \<in> L. p_deg st v \<le> M) \<and>
     (\<forall>d \<le> M. sorted (p_bucket st ! d) \<and> distinct (p_bucket st ! d) \<and> set (p_bucket st ! d) = {v \<in> L. p_deg st v = d}) \<and>
     (\<forall>d. d < p_scan st \<longrightarrow> d \<le> M \<longrightarrow> p_bucket st ! d = [])"

lemma sorted_removeAll: "sorted xs \<Longrightarrow> sorted (removeAll x xs)"
  using sorted_filter[of "\<lambda>y. y" xs] by (simp add: removeAll_filter_not_eq)

lemma lower_degree_correct:
  assumes ok: "buckets_ok M L st" and u: "u \<notin> set (p_removed st) \<longleftrightarrow> u \<in> L" "u \<in> L \<Longrightarrow> 0 < p_deg st u"
  shows "buckets_ok M L (lower_degree u st)" "p_removed (lower_degree u st) = p_removed st"
    "p_degeneracy (lower_degree u st) = p_degeneracy st"
    "p_deg (lower_degree u st) w = (if w = u \<and> u \<in> L then p_deg st u - 1 else p_deg st w)"
proof -
  show "p_removed (lower_degree u st) = p_removed st" "p_degeneracy (lower_degree u st) = p_degeneracy st"
    "p_deg (lower_degree u st) w = (if w = u \<and> u \<in> L then p_deg st u - 1 else p_deg st w)"
    using u(1) by (auto simp: lower_degree_def Let_def)
  show "buckets_ok M L (lower_degree u st)"
  proof (cases "u \<in> L")
    case False
    then show ?thesis using ok u(1) by (simp add: lower_degree_def)
  next
    case True
    define d where "d = p_deg st u"
    have d: "0 < d" "d \<le> M" using u(2) ok True by (auto simp: d_def buckets_ok_def)
    let ?st = "lower_degree u st"
    have B: "sorted (p_bucket st ! k)" "distinct (p_bucket st ! k)" "set (p_bucket st ! k) = {v \<in> L. p_deg st v = k}" if "k \<le> M" for k
      using ok that by (auto simp: buckets_ok_def)
    have len: "length (p_bucket st) = M + 1" using ok by (simp add: buckets_ok_def)
    have st: "p_deg ?st = (p_deg st)(u := d - 1)" "p_scan ?st = min (d - 1) (p_scan st)"
      "p_bucket ?st = (p_bucket st)[d := removeAll u (p_bucket st ! d), d - 1 := insort_insert u (p_bucket st ! (d - 1))]"
      using True u(1) d by (auto simp: lower_degree_def d_def Let_def)
    have bucket: "p_bucket ?st ! k = (if k = d - 1 then insort_insert u (p_bucket st ! k) else if k = d then removeAll u (p_bucket st ! k)
        else p_bucket st ! k)" if "k \<le> M" for k
      using that d len by (auto simp: st(3) nth_list_update)
    have "sorted (p_bucket ?st ! k) \<and> distinct (p_bucket ?st ! k) \<and> set (p_bucket ?st ! k) = {v \<in> L. p_deg ?st v = k}" if "k \<le> M" for k
      using B[OF that] d True unfolding bucket[OF that] st(1)
      by (auto simp: sorted_insort_insert distinct_insort_insert set_insort_insert sorted_removeAll distinct_removeAll d_def)
    moreover have "p_bucket ?st ! k = []" if "k < p_scan ?st" "k \<le> M" for k
      using that ok d unfolding bucket[OF that(2)] st(2) by (auto simp: buckets_ok_def)
    ultimately show ?thesis using ok d len unfolding buckets_ok_def by (auto simp: st(1,3))
  qed
qed

lemma lower_degrees:
  assumes "buckets_ok M L st" "distinct us" "\<forall>u \<in> set us. (u \<notin> set (p_removed st) \<longleftrightarrow> u \<in> L) \<and> (u \<in> L \<longrightarrow> 0 < p_deg st u)"
  defines "st' \<equiv> fold lower_degree us st"
  shows "buckets_ok M L st' \<and> p_removed st' = p_removed st \<and> p_degeneracy st' = p_degeneracy st \<and>
    (\<forall>w. p_deg st' w = (if w \<in> L \<and> w \<in> set us then p_deg st w - 1 else p_deg st w))"
  unfolding st'_def using assms(1-3)
proof (induction us arbitrary: st)
  case (Cons u us)
  have u: "u \<notin> set (p_removed st) \<longleftrightarrow> u \<in> L" "u \<in> L \<Longrightarrow> 0 < p_deg st u" using Cons.prems(3) by auto
  note L = lower_degree_correct[OF Cons.prems(1) u]
  have "\<forall>w \<in> set us. (w \<notin> set (p_removed (lower_degree u st)) \<longleftrightarrow> w \<in> L) \<and> (w \<in> L \<longrightarrow> 0 < p_deg (lower_degree u st) w)"
    using Cons.prems(2,3) by (auto simp: L(2,4))
  from Cons.IH[OF L(1) _ this] Cons.prems(2) show ?case by (auto simp: L(2-4))
qed simp


lemma degree_in_insert:
  "graph_ok g \<Longrightarrow> v \<notin> L \<Longrightarrow> degree_in g (insert v L) w = degree_in g L w + (if w \<in> set (adjacent g v) then 1 else 0)"
proof -
  assume g: "graph_ok g" and v: "v \<notin> L"
  have "set (adjacent g w) \<inter> insert v L =
      (if w \<in> set (adjacent g v) then insert v (set (adjacent g w) \<inter> L) else set (adjacent g w) \<inter> L)"
    using graph_okD(3)[OF g, of v w] graph_okD(3)[OF g, of w v] by auto
  then show ?thesis using v by (simp add: degree_in_def)
qed

lemma peel_inv_buckets:
  "peel_inv g M st \<longleftrightarrow> buckets_ok M (left g st) st \<and> distinct (p_removed st) \<and> set (p_removed st) \<subseteq> set (node_set g) \<and>
     (\<forall>v \<in> left g st. p_deg st v = degree_in g (left g st) v)"
  by (auto simp: peel_inv_def buckets_ok_def)

lemma in_bucket:
  assumes "peel_inv g M st" "w \<in> left g st"
  shows "p_deg st w \<le> M" "w \<in> set (p_bucket st ! p_deg st w)"
proof -
  show d: "p_deg st w \<le> M" using assms unfolding peel_inv_def by blast
  then have "set (p_bucket st ! p_deg st w) = {v \<in> left g st. p_deg st v = p_deg st w}" using assms(1) by (simp add: peel_inv_def)
  then show "w \<in> set (p_bucket st ! p_deg st w)" using assms(2) by simp
qed

lemma peel_node_correct:
  assumes g: "graph_ok g" and I: "peel_inv g M st" and k: "p_scan st \<le> M" "p_bucket st ! p_scan st \<noteq> []"
  obtains v where "v \<in> left g st" "degree_in g (left g st) v = p_scan st" "\<And>w. w \<in> left g st \<Longrightarrow> p_scan st \<le> degree_in g (left g st) w"
    "peel_inv g M (peel_node g st)" "left g (peel_node g st) = left g st - {v}"
    "p_degeneracy (peel_node g st) = max (p_degeneracy st) (p_scan st)"
proof -
  let ?k = "p_scan st" and ?L = "left g st"
  have B: "sorted (p_bucket st ! d)" "distinct (p_bucket st ! d)" "set (p_bucket st ! d) = {v \<in> ?L. p_deg st v = d}" if "d \<le> M" for d
    using I that by (auto simp: peel_inv_def)
  have len: "length (p_bucket st) = M + 1" and low: "\<forall>d. d < ?k \<longrightarrow> d \<le> M \<longrightarrow> p_bucket st ! d = []"
    and deg: "\<forall>v \<in> ?L. p_deg st v = degree_in g ?L v \<and> p_deg st v \<le> M" using I by (auto simp: peel_inv_def)
  obtain v vs where vs: "p_bucket st ! ?k = v # vs" using k(2) by (cases "p_bucket st ! ?k") auto
  have v: "v \<in> ?L" "p_deg st v = ?k" using B(3)[OF k(1)] vs by auto
  have min: "?k \<le> p_deg st w" if "w \<in> ?L" for w
  proof (rule ccontr)
    assume "\<not> ?k \<le> p_deg st w"
    then have "p_bucket st ! p_deg st w = []" using low in_bucket(1)[OF I that] by auto
    then show False using in_bucket(2)[OF I that] by simp
  qed
  define s1 where "s1 = st\<lparr>p_bucket := (p_bucket st)[?k := tl (p_bucket st ! ?k)],
      p_degeneracy := max (p_degeneracy st) ?k, p_removed := v # p_removed st\<rparr>"
  let ?L' = "?L - {v}"
  have L': "left g s1 = ?L'" by (auto simp: s1_def left_def)
  have L_ins: "?L = insert v ?L'" "v \<notin> ?L'" using v(1) by auto
  have d_ins: "degree_in g ?L w = degree_in g ?L' w + (if w \<in> set (adjacent g v) then 1 else 0)" for w
    using degree_in_insert[OF g L_ins(2), of w] L_ins(1) by simp
  have b1: "buckets_ok M ?L' s1"
  proof -
    have "sorted (p_bucket s1 ! d) \<and> distinct (p_bucket s1 ! d) \<and> set (p_bucket s1 ! d) = {w \<in> ?L'. p_deg s1 w = d}" if "d \<le> M" for d
    proof (cases "d = ?k")
      case True
      have "p_bucket s1 ! d = vs" using True k(1) len vs by (simp add: s1_def)
      moreover have "sorted (v # vs)" "distinct (v # vs)" "set (v # vs) = {w \<in> ?L. p_deg st w = d}"
        using B[OF k(1)] unfolding vs True by blast+
      moreover have "p_deg s1 = p_deg st" by (simp add: s1_def)
      ultimately show ?thesis by auto
    next
      case False
      then have "p_bucket s1 ! d = p_bucket st ! d" "p_deg s1 = p_deg st" by (simp_all add: s1_def)
      then show ?thesis using B[OF that] v(2) False by auto
    qed
    moreover have "p_bucket s1 ! d = []" if "d < p_scan s1" "d \<le> M" for d
      using low that by (simp add: s1_def)
    moreover have "p_deg s1 w \<le> M" if "w \<in> ?L'" for w using in_bucket(1)[OF I] that by (simp add: s1_def)
    moreover have "length (p_bucket s1) = M + 1" using len by (simp add: s1_def)
    ultimately show ?thesis unfolding buckets_ok_def by blast
  qed
  have peel: "peel_node g st = fold lower_degree (adjacent g v) s1"
  proof -
    have "peel_node g st = (if has_neighbours g v then fold lower_degree (adjacent g v) s1 else s1)"
      by (simp add: peel_node_def Let_def vs s1_def)
    moreover have "\<not> has_neighbours g v \<Longrightarrow> adjacent g v = []" by (simp add: has_neighbours_def adjacent_def)
    ultimately show ?thesis by simp
  qed
  have nb: "\<forall>u \<in> set (adjacent g v). (u \<notin> set (p_removed s1) \<longleftrightarrow> u \<in> ?L') \<and> (u \<in> ?L' \<longrightarrow> 0 < p_deg s1 u)"
  proof
    fix u assume u: "u \<in> set (adjacent g v)"
    then have "u \<in> set (node_set g)" "u \<noteq> v" using graph_okD(4,6)[OF g] by auto
    moreover have "0 < p_deg st u" if "u \<in> ?L'" using deg that d_ins[of u] u by auto
    ultimately show "(u \<notin> set (p_removed s1) \<longleftrightarrow> u \<in> ?L') \<and> (u \<in> ?L' \<longrightarrow> 0 < p_deg s1 u)"
      by (auto simp: s1_def left_def)
  qed
  note F = lower_degrees[OF b1 graph_okD(2)[OF g] nb, folded peel]
  have L2: "left g (peel_node g st) = ?L'" using F L' by (simp add: left_def)
  have "p_deg (peel_node g st) w = degree_in g ?L' w" if "w \<in> ?L'" for w
  proof -
    have "p_deg st w = degree_in g ?L w" using deg that by simp
    then show ?thesis using F that d_ins[of w] by (simp add: s1_def)
  qed
  then have "peel_inv g M (peel_node g st)" unfolding peel_inv_buckets L2
    using F I v(1) by (auto simp: s1_def peel_inv_def left_def)
  moreover have "p_degeneracy (peel_node g st) = max (p_degeneracy st) ?k" using F by (simp add: s1_def)
  ultimately show thesis using that[OF v(1)] v(2) min deg L2 v(1) by auto
qed

lemma degree_in_mono: "H \<subseteq> L \<Longrightarrow> degree_in g H v \<le> degree_in g L v"
  unfolding degree_in_def by (intro card_mono) auto

lemma peel_loop_correct:
  assumes g: "graph_ok g" and "peel_inv g M st" "card (left g st) = n"
  defines "D \<equiv> p_degeneracy (peel_loop g M n st)"
  shows "p_degeneracy st \<le> D \<and> (\<forall>H. H \<noteq> {} \<and> H \<subseteq> left g st \<longrightarrow> (\<exists>v \<in> H. degree_in g H v \<le> D)) \<and>
    (D = p_degeneracy st \<or> (\<exists>H. H \<noteq> {} \<and> H \<subseteq> left g st \<and> (\<forall>v \<in> H. D \<le> degree_in g H v)))"
  unfolding D_def using assms(2,3)
proof (induction n arbitrary: st)
  case 0
  have "left g st = {}" using 0 by (simp add: left_def)
  then show ?case by simp
next
  case (Suc n)
  define s1 where "s1 = st\<lparr>p_scan := skip_empty (p_bucket st) M (p_scan st)\<rparr>"
  note K = skip_empty_correct[where b = "p_bucket st" and M = M and k = "p_scan st"]
  have L1: "left g s1 = left g st" by (simp add: left_def s1_def)
  have low: "p_bucket st ! d = []" if "d < p_scan s1" "d \<le> M" for d
    using Suc.prems(1) K(2)[of d] that by (cases "d < p_scan st") (auto simp: peel_inv_def s1_def)
  have I1: "peel_inv g M s1" using Suc.prems(1) low unfolding peel_inv_def L1 by (auto simp: s1_def)
  obtain w where w: "w \<in> left g st" using Suc.prems(2) by fastforce
  have scan: "p_scan s1 \<le> M"
  proof (rule ccontr)
    assume "\<not> p_scan s1 \<le> M"
    then have "p_bucket st ! p_deg st w = []" using low[of "p_deg st w"] in_bucket(1)[OF Suc.prems(1) w] by auto
    then show False using in_bucket(2)[OF Suc.prems(1) w] by simp
  qed
  moreover have "p_bucket s1 ! p_scan s1 \<noteq> []" using K(3) scan by (simp add: s1_def)
  ultimately obtain v where v: "v \<in> left g st" "degree_in g (left g st) v = p_scan s1"
    "\<And>w. w \<in> left g st \<Longrightarrow> p_scan s1 \<le> degree_in g (left g st) w" "peel_inv g M (peel_node g s1)"
    "left g (peel_node g s1) = left g st - {v}" "p_degeneracy (peel_node g s1) = max (p_degeneracy st) (p_scan s1)"
    using peel_node_correct[OF g I1] unfolding L1 by (metis peel.select_convs(5) peel.update_convs(4) peel.surjective s1_def)
  have "card (left g (peel_node g s1)) = n" using Suc.prems(2) v(1,5) by (simp add: card_Diff_singleton_if)
  note IH = Suc.IH[OF v(4) this]
  let ?D = "p_degeneracy (peel_loop g M n (peel_node g s1))"
  have D: "p_degeneracy (peel_loop g M (Suc n) st) = ?D" using scan by (simp add: s1_def[symmetric] Let_def)
  have "\<exists>x \<in> H. degree_in g H x \<le> ?D" if H: "H \<noteq> {}" "H \<subseteq> left g st" for H
  proof (cases "v \<in> H")
    case True
    have "degree_in g H v \<le> p_scan s1" using degree_in_mono[OF H(2)] v(2) by metis
    then show ?thesis using True IH v(6) by (intro bexI[of _ v]) auto
  next
    case False
    then have "H \<subseteq> left g (peel_node g s1)" using H(2) v(5) by auto
    then show ?thesis using IH H(1) by blast
  qed
  moreover have "?D = p_degeneracy st \<or> (\<exists>H. H \<noteq> {} \<and> H \<subseteq> left g st \<and> (\<forall>x \<in> H. ?D \<le> degree_in g H x))"
  proof (cases "?D = p_degeneracy (peel_node g s1)")
    case True
    show ?thesis
    proof (cases "p_scan s1 \<le> p_degeneracy st")
      case False
      then have "?D = p_scan s1" using True v(6) by simp
      then show ?thesis using v(1,3) by (intro disjI2 exI[of _ "left g st"]) auto
    qed (use True v(6) in simp)
  next
    case False
    then show ?thesis using IH v(5) by blast
  qed
  moreover have "p_degeneracy st \<le> ?D" using IH v(6) by simp
  ultimately show ?case unfolding D by blast
qed


lemma start_buckets:
  assumes "\<forall>n \<in> set ns. f n \<le> M"
  defines "b \<equiv> fold (\<lambda>n b. b[f n := insort_insert n (b ! f n)]) ns (replicate (M + 1) [])"
  shows "length b = M + 1 \<and> (\<forall>d \<le> M. sorted (b ! d) \<and> distinct (b ! d) \<and> set (b ! d) = {n \<in> set ns. f n = d})"
  unfolding b_def using assms(1)
proof (induction ns rule: rev_induct)
  case (snoc n ns)
  obtain b where b: "b = fold (\<lambda>n b. b[f n := insort_insert n (b ! f n)]) ns (replicate (M + 1) [])" by blast
  have IH: "length b = M + 1" "\<And>d. d \<le> M \<Longrightarrow> sorted (b ! d) \<and> distinct (b ! d) \<and> set (b ! d) = {n \<in> set ns. f n = d}"
    using snoc unfolding b by auto
  have "sorted (b[f n := insort_insert n (b ! f n)] ! d) \<and> distinct (b[f n := insort_insert n (b ! f n)] ! d) \<and>
      set (b[f n := insort_insert n (b ! f n)] ! d) = {m \<in> set (ns @ [n]). f m = d}" if "d \<le> M" for d
    using IH(1) IH(2)[OF that] snoc.prems that
    by (auto simp: nth_list_update sorted_insort_insert distinct_insort_insert set_insort_insert)
  then show ?case using IH(1) unfolding fold_append comp_apply b[symmetric] by simp
qed (simp del: replicate_Suc)

lemma max_degree: "fold (\<lambda>n m. max m (f n)) ns m = Max (insert m (f ` set ns))" for f :: "nat \<Rightarrow> nat"
proof (induction ns arbitrary: m)
  case (Cons n ns)
  have "Max (insert (max m (f n)) (f ` set ns)) = Max (insert m (f ` set (n # ns)))"
    by (cases "set ns = {}") (auto simp: max.assoc)
  then show ?case using Cons by simp
qed simp

lemma start_peel_inv:
  assumes "graph_ok g" "\<forall>n \<in> set (node_set g). degree_of g n \<le> M"
  shows "peel_inv g M (start_peel g M)" "left g (start_peel g M) = set (node_set g)"
proof -
  show l: "left g (start_peel g M) = set (node_set g)" by (simp add: left_def start_peel_def)
  have deg: "degree_of g v = degree_in g (set (node_set g)) v" for v
  proof -
    have "set (adjacent g v) \<inter> set (node_set g) = set (adjacent g v)" using graph_okD(6)[OF assms(1)] by auto
    then show ?thesis using graph_okD(2)[OF assms(1), of v] by (simp add: degree_in_def degree_of_length distinct_card)
  qed
  show "peel_inv g M (start_peel g M)" unfolding peel_inv_def l
    using start_buckets[OF assms(2)] assms(2) deg by (simp add: start_peel_def)
qed

section \<open>A lower bound of the width\<close>

text \<open>The depth of a bag, and what going up within the bags of a vertex does to it.\<close>

lemma tree_depth:
  assumes "is_rooted_tree td"
  obtains h :: "nat \<Rightarrow> nat" where
    "\<And>i. i < length (td_bags td) \<Longrightarrow> i \<noteq> td_root td \<Longrightarrow> h i = Suc (h (td_parent td ! i))"
proof -
  let ?p = "\<lambda>i. td_parent td ! i" and ?r = "td_root td" and ?n = "length (td_bags td)"
  have "\<exists>k. (?p ^^ k) i = ?r" if "i < ?n" for i
  proof -
    have "(i, ?r) \<in> {(j, ?p j) | j. j < ?n}\<^sup>*" using assms that by (simp add: is_rooted_tree_def Let_def)
    then show ?thesis
    proof (induction rule: converse_rtrancl_induct)
      case base
      show ?case by (rule exI[of _ 0]) simp
    next
      case (step y z)
      then obtain k where "(?p ^^ k) z = ?r" "z = ?p y" by blast
      then have "(?p ^^ Suc k) y = ?r" by (simp only: funpow_Suc_right comp_apply)
      then show ?case by blast
    qed
  qed
  note ex = this
  have "(LEAST k. (?p ^^ k) i = ?r) = Suc (LEAST k. (?p ^^ k) (?p i) = ?r)" if i: "i < ?n" "i \<noteq> ?r" for i
  proof -
    obtain k where k: "(?p ^^ k) i = ?r" using ex[OF i(1)] by blast
    have "(?p ^^ 0) i \<noteq> ?r" using i(2) by simp
    from Least_Suc[of "\<lambda>k. (?p ^^ k) i = ?r", OF k this] show ?thesis by (simp only: funpow_Suc_right comp_apply)
  qed
  then show thesis by (rule that)
qed

lemma up_with_step: "(i, t) \<in> (up_with td v)\<^sup>* \<Longrightarrow> i \<noteq> t \<Longrightarrow>
  i < length (td_bags td) \<and> i \<noteq> td_root td \<and> v \<in> set (td_bags td ! (td_parent td ! i)) \<and> (td_parent td ! i, t) \<in> (up_with td v)\<^sup>*"
  by (erule converse_rtranclE) (auto simp: up_with_def)

text \<open>Two vertices that share a bag: the higher of the two top bags sees the lower one on its way.\<close>

lemma shared_bag:
  assumes h: "\<And>i. i < length (td_bags td) \<Longrightarrow> i \<noteq> td_root td \<Longrightarrow> h i = Suc (h (td_parent td ! i))"
    and u: "(i, a) \<in> (up_with td u)\<^sup>*" and v: "(i, b) \<in> (up_with td v)\<^sup>*" and le: "h a \<le> h b"
    and here: "u \<in> set (td_bags td ! i)"
  shows "u \<in> set (td_bags td ! b)"
  using u v here
proof (induction "h i" arbitrary: i rule: less_induct)
  case less
  show ?case
  proof (cases "i = b")
    case True
    then show ?thesis using less.prems(3) by simp
  next
    case False
    have below: "h t \<le> h j" if "(j, t) \<in> (up_with td w)\<^sup>*" for j t w
      using that by (induction rule: converse_rtrancl_induct) (auto simp: up_with_def h)
    note V = up_with_step[OF less.prems(2) False]
    have hi: "h i = Suc (h (td_parent td ! i))" using V h by blast
    have "h b \<le> h (td_parent td ! i)" using below V by blast
    then have "i \<noteq> a" using le hi by auto
    note U = up_with_step[OF less.prems(1) this]
    show ?thesis by (rule less.hyps[of "td_parent td ! i"]) (use U V hi in auto)
  qed
qed

lemma width_bound:
  assumes g: "graph_ok g" and td: "tree_decomposition_of (set (node_set g)) (edges g) td"
    and H: "H \<noteq> {}" "H \<subseteq> set (node_set g)" "\<forall>v \<in> H. D \<le> degree_in g H v"
  shows "\<exists>b \<in> set (td_bags td). D + 1 \<le> length b"
proof -
  have tree: "is_rooted_tree td" and cover: "\<And>u v. (u, v) \<in> edges g \<Longrightarrow> \<exists>b \<in> set (td_bags td). u \<in> set b \<and> v \<in> set b"
    and dist: "\<forall>b \<in> set (td_bags td). distinct b" using td unfolding tree_decomposition_of_def by blast+
  have "\<forall>v \<in> set (node_set g). \<exists>t < length (td_bags td). v \<in> set (td_bags td ! t) \<and>
      (\<forall>i < length (td_bags td). v \<in> set (td_bags td ! i) \<longrightarrow> (i, t) \<in> (up_with td v)\<^sup>*)"
    using td by (simp add: tree_decomposition_of_def)
  then obtain top where top: "\<And>v. v \<in> set (node_set g) \<Longrightarrow> top v < length (td_bags td) \<and> v \<in> set (td_bags td ! top v) \<and>
      (\<forall>i < length (td_bags td). v \<in> set (td_bags td ! i) \<longrightarrow> (i, top v) \<in> (up_with td v)\<^sup>*)" by metis
  obtain h :: "nat \<Rightarrow> nat" where h: "\<And>i. i < length (td_bags td) \<Longrightarrow> i \<noteq> td_root td \<Longrightarrow> h i = Suc (h (td_parent td ! i))"
    using tree_depth[OF tree] by blast
  have fin: "finite H" using H(2) finite_subset by blast
  have "Max ((\<lambda>v. h (top v)) ` H) \<in> (\<lambda>v. h (top v)) ` H" using fin H(1) by (intro Max_in) auto
  then obtain v where v: "v \<in> H" "Max ((\<lambda>v. h (top v)) ` H) = h (top v)" by blast
  have high: "h (top u) \<le> h (top v)" if "u \<in> H" for u unfolding v(2)[symmetric] using that fin by simp
  have "u \<in> set (td_bags td ! top v)" if u: "u \<in> set (adjacent g v) \<inter> H" for u
  proof -
    have "(v, u) \<in> edges g" using u by simp
    then obtain b where "b \<in> set (td_bags td)" "v \<in> set b" "u \<in> set b" using cover by blast
    then obtain i where i: "i < length (td_bags td)" "v \<in> set (td_bags td ! i)" "u \<in> set (td_bags td ! i)"
      by (metis in_set_conv_nth)
    then have ups: "(i, top u) \<in> (up_with td u)\<^sup>*" "(i, top v) \<in> (up_with td v)\<^sup>*" using top u v(1) H(2) by blast+
    show ?thesis
      by (rule shared_bag[where h = h and td = td and u = u and v = v and i = i and a = "top u" and b = "top v"])
        (use h ups high u i(3) in auto)
  qed
  moreover have "v \<in> set (td_bags td ! top v)" "top v < length (td_bags td)" using top v(1) H(2) by blast+
  ultimately have sub: "insert v (set (adjacent g v) \<inter> H) \<subseteq> set (td_bags td ! top v)" by auto
  have "D + 1 \<le> card (insert v (set (adjacent g v) \<inter> H))" using H(3) v(1) no_loop[OF g] by (simp add: degree_in_def)
  also have "\<dots> \<le> length (td_bags td ! top v)" using card_mono[OF _ sub] card_length[of "td_bags td ! top v"] by fastforce
  finally show ?thesis using \<open>top v < length (td_bags td)\<close> nth_mem by blast
qed

text \<open>C30: on a non-empty graph the peeling returns the degeneracy (every set of nodes has one with at most that
  many neighbours in it, and some set has none with fewer) and the maximum degree; every tree decomposition
  has a bag with more elements than that, so a value above 10 means that no construction can succeed.\<close>

theorem degeneracyLowerBound_correct:
  assumes "graph_ok g" "node_set g \<noteq> []"
  shows "is_degeneracy g (fst (degeneracyLowerBound g)) \<and>
    snd (degeneracyLowerBound g) = Max (degree_of g ` set (node_set g)) \<and>
    (\<forall>td. tree_decomposition_of (set (node_set g)) (edges g) td \<longrightarrow>
       (\<exists>b \<in> set (td_bags td). fst (degeneracyLowerBound g) + 1 \<le> length b))"
proof -
  define M where "M = fold (\<lambda>n m. max m (degree_of g n)) (node_set g) 0"
  have M: "M = Max (degree_of g ` set (node_set g))" using assms(2) by (simp add: M_def max_degree)
  then have "\<forall>n \<in> set (node_set g). degree_of g n \<le> M" by simp
  note S = start_peel_inv[OF assms(1) this]
  have "card (left g (start_peel g M)) = length (node_set g)"
    using graph_okD(1)[OF assms(1)] by (simp add: S(2) distinct_card)
  note P = peel_loop_correct[OF assms(1) S(1) this, unfolded S(2)]
  have D: "degeneracyLowerBound g = (p_degeneracy (peel_loop g M (length (node_set g)) (start_peel g M)), M)"
    using assms(2) by (simp add: degeneracyLowerBound_def M_def Let_def)
  have "p_degeneracy (start_peel g M) = 0" by (simp add: start_peel_def)
  then have "is_degeneracy g (fst (degeneracyLowerBound g))"
    unfolding is_degeneracy_def D fst_conv using P assms(2) by (metis le0 set_empty subset_refl)
  moreover from this obtain H where "H \<noteq> {}" "H \<subseteq> set (node_set g)" "\<forall>v \<in> H. fst (degeneracyLowerBound g) \<le> degree_in g H v"
    unfolding is_degeneracy_def by blast
  ultimately show ?thesis using width_bound[OF assms(1)] D M by simp
qed

lemma degeneracyLowerBound_correct_witness:
  "degeneracyLowerBound path_graph = (1, 2) \<and> is_degeneracy path_graph 1"
proof -
  have "degeneracyLowerBound path_graph = (1, 2)" by code_simp
  then show ?thesis using degeneracyLowerBound_correct[OF path_graph_ok] by simp
qed

end
