(* ===== verification/CmpDist.thy ===== *)
theory CmpDist
  imports Aggregation WorldProb
begin

text \<open>
  The closed forms of the comparison evaluators (\<open>src/CountCmpEvaluator.cpp\<close>, \<open>src/SumCmpEvaluator.cpp\<close>,
  \<open>src/MinMaxCmpEvaluator.cpp\<close>): the probability that an aggregate over n independent rows compares with a
  constant.  Row i is present with probability \<open>p ! i\<close> and has the value \<open>m ! i\<close>; a world is the set of the
  rows that are present, and the empty world counts for a scalar count only.
\<close>

section \<open>Counting the rows\<close>

definition partialPMF :: "real list \<Rightarrow> nat \<Rightarrow> real list" where
  "partialPMF p jmax =
     (let jm = min jmax (length p)
      in fold (\<lambda>i dp.
           let px = p ! i; qi = 1 - px; upper = min jm (i + 1);
               dp = fold (\<lambda>j dp. dp[j := dp ! j * qi + dp ! (j - 1) * px]) (rev [1..<upper + 1]) dp
           in dp[0 := dp ! 0 * qi]) [0..<length p] ((replicate (jm + 1) 0)[0 := 1]))"

definition probZero :: "real list \<Rightarrow> real" where
  "probZero p = fold (\<lambda>px q. q * (1 - px)) p 1"

definition sum_upto :: "real list \<Rightarrow> int \<Rightarrow> real" where
  "sum_upto dp k = fold (\<lambda>j s. s + dp ! j) [0..<nat (k + 1)] 0"

definition inverted :: "real list \<Rightarrow> real list" where
  "inverted p = map (\<lambda>x. 1 - x) p"

definition probAtLeast :: "real list \<Rightarrow> int \<Rightarrow> real" where
  "probAtLeast p T =
     (let N = int (length p) in
      if T \<le> 0 then 1 else if T > N then 0
      else if T - 1 \<le> N - T then 1 - sum_upto (partialPMF p (nat (T - 1))) (T - 1)
      else sum_upto (partialPMF (inverted p) (nat (N - T))) (N - T))"

definition probAtMost :: "real list \<Rightarrow> int \<Rightarrow> real" where
  "probAtMost p T =
     (let N = int (length p) in
      if T < 0 then 0 else if T \<ge> N then 1
      else if T \<le> N - 1 - T then sum_upto (partialPMF p (nat T)) T
      else 1 - sum_upto (partialPMF (inverted p) (nat (N - 1 - T))) (N - 1 - T))"

definition probEqual :: "real list \<Rightarrow> int \<Rightarrow> real" where
  "probEqual p T =
     (let N = int (length p) in
      if T < 0 \<or> T > N then 0
      else if T \<le> N - T then partialPMF p (nat T) ! nat T
      else partialPMF (inverted p) (nat (N - T)) ! nat (N - T))"

definition zeroSatisfies :: "cmp_op \<Rightarrow> int \<Rightarrow> bool" where
  "zeroSatisfies op C = compare 0 op C"

definition count_cdf :: "real list \<Rightarrow> cmp_op \<Rightarrow> int \<Rightarrow> bool \<Rightarrow> real" where
  "count_cdf p op C is_scalar =
     (let N = int (length p);
          r = (case op of
             GE \<Rightarrow> probAtLeast p (max C 1)
           | GT \<Rightarrow> probAtLeast p (max (C + 1) 1)
           | LE \<Rightarrow> (let T = min C N in if T < 1 then 0 else probAtMost p T - probZero p)
           | LT \<Rightarrow> (let T = min (C - 1) N in if T < 1 then 0 else probAtMost p T - probZero p)
           | EQ \<Rightarrow> if C < 1 \<or> C > N then 0 else probEqual p C
           | NE \<Rightarrow> (1 - probZero p) - (if C \<ge> 1 \<and> C \<le> N then probEqual p C else 0))
      in if is_scalar \<and> zeroSatisfies op C then r + probZero p else r)"

section \<open>Its specification\<close>

definition count_prob :: "real list \<Rightarrow> (int \<Rightarrow> bool) \<Rightarrow> real" where
  "count_prob p P = prob_of (nth p) {..<length p} (\<lambda>A. P (int (card A)))"

text \<open>Exactly j of the first n rows.\<close>

definition exactly :: "(nat \<Rightarrow> real) \<Rightarrow> nat \<Rightarrow> nat \<Rightarrow> real" where
  "exactly p n j = prob_of p {..<n} (\<lambda>A. card A = j)"

lemma exactly_0: "exactly p 0 j = (if j = 0 then 1 else 0)"
  by (simp add: exactly_def prob_of_def)

lemma exactly_Suc: "exactly p (Suc n) j = exactly p n j * (1 - p n) + (if j = 0 then 0 else exactly p n (j - 1) * p n)"
proof -
  have c: "card (insert n A) = Suc (card A)" if "A \<subseteq> {..<n}" for A
    using that finite_subset[OF that] by (simp add: card_insert_if) auto
  have "exactly p (Suc n) j = p n * expect p {..<n} (\<lambda>A. of_bool (card (insert n A) = j)) + (1 - p n) * exactly p n j"
    by (simp add: exactly_def prob_of_def lessThan_Suc expect_insert)
  also have "expect p {..<n} (\<lambda>A. of_bool (card (insert n A) = j)) = (if j = 0 then 0 else exactly p n (j - 1))"
  proof (cases j)
    case 0
    then have "expect p {..<n} (\<lambda>A. of_bool (card (insert n A) = j)) = expect p {..<n} (\<lambda>_. 0)"
      by (intro expect_cong) (simp add: c)
    then show ?thesis using 0 by simp
  next
    case (Suc k)
    then show ?thesis by (auto simp: exactly_def prob_of_def c intro!: expect_cong)
  qed
  finally show ?thesis by (simp add: algebra_simps)
qed

lemma exactly_above: "n < j \<Longrightarrow> exactly p n j = 0"
  by (induction n arbitrary: j) (auto simp: exactly_0 exactly_Suc)

text \<open>The rows of the table from above: each entry is computed from the entries of the row before.\<close>

lemma update_down:
  assumes "u < length dp"
  shows "fold (\<lambda>j dp. dp[j := f (dp ! j) (dp ! (j - 1))]) (rev [1..<u + 1]) dp =
    map (\<lambda>j. if 1 \<le> j \<and> j \<le> u then f (dp ! j) (dp ! (j - 1)) else dp ! j) [0..<length dp]"
  using assms
proof (induction u arbitrary: dp)
  case 0
  show ?case by (rule nth_equalityI) auto
next
  case (Suc u)
  let ?dp = "dp[Suc u := f (dp ! Suc u) (dp ! u)]"
  have "fold (\<lambda>j dp. dp[j := f (dp ! j) (dp ! (j - 1))]) (rev [1..<Suc u + 1]) dp =
      fold (\<lambda>j dp. dp[j := f (dp ! j) (dp ! (j - 1))]) (rev [1..<u + 1]) ?dp" by simp
  also have "\<dots> = map (\<lambda>j. if 1 \<le> j \<and> j \<le> u then f (?dp ! j) (?dp ! (j - 1)) else ?dp ! j) [0..<length dp]"
    using Suc.IH[of ?dp] Suc.prems by simp
  also have "\<dots> = map (\<lambda>j. if 1 \<le> j \<and> j \<le> Suc u then f (dp ! j) (dp ! (j - 1)) else dp ! j) [0..<length dp]"
    using Suc.prems by (intro map_cong) (auto simp: nth_list_update le_Suc_eq)
  finally show ?case .
qed

lemma partialPMF_row:
  assumes "length dp = jm + 1" "\<forall>j \<le> jm. dp ! j = exactly p i j"
  defines "dp' \<equiv> fold (\<lambda>j dp. dp[j := dp ! j * (1 - p i) + dp ! (j - 1) * p i]) (rev [1..<min jm (i + 1) + 1]) dp"
  shows "length (dp'[0 := dp' ! 0 * (1 - p i)]) = jm + 1 \<and> (\<forall>j \<le> jm. dp'[0 := dp' ! 0 * (1 - p i)] ! j = exactly p (Suc i) j)"
proof -
  have dp': "dp' = map (\<lambda>j. if 1 \<le> j \<and> j \<le> min jm (i + 1) then dp ! j * (1 - p i) + dp ! (j - 1) * p i else dp ! j) [0..<length dp]"
    unfolding dp'_def by (rule update_down) (use assms(1) in simp)
  have "dp'[0 := dp' ! 0 * (1 - p i)] ! j = exactly p (Suc i) j" if "j \<le> jm" for j
  proof (cases j)
    case 0
    then show ?thesis using assms(1,2) by (simp add: dp' exactly_Suc nth_list_update del: upt_Suc)
  next
    case (Suc k)
    then show ?thesis using assms(1,2) that exactly_above[of i j p] exactly_above[of i k p]
      by (auto simp: dp' exactly_Suc simp del: upt_Suc)
  qed
  then show ?thesis using assms(1) by (simp add: dp' del: upt_Suc)
qed

lemma partialPMF_correct:
  "length (partialPMF p jmax) = min jmax (length p) + 1"
  "j \<le> min jmax (length p) \<Longrightarrow> partialPMF p jmax ! j = exactly (nth p) (length p) j"
proof -
  let ?jm = "min jmax (length p)"
  define row where "row i dp = (let dp = fold (\<lambda>j dp. dp[j := dp ! j * (1 - p ! i) + dp ! (j - 1) * (p ! i)]) (rev [1..<min ?jm (i + 1) + 1]) dp
     in dp[0 := dp ! 0 * (1 - p ! i)])" for i dp
  have "length (fold row [0..<n] ((replicate (?jm + 1) 0)[0 := 1])) = ?jm + 1 \<and>
      (\<forall>j \<le> ?jm. fold row [0..<n] ((replicate (?jm + 1) 0)[0 := 1]) ! j = exactly (nth p) n j)" for n
  proof (induction n)
    case 0
    then show ?case by (auto simp: exactly_0 nth_Cons split: nat.splits)
  next
    case (Suc n)
    obtain dp where dp: "dp = fold row [0..<n] ((replicate (?jm + 1) 0)[0 := 1])" by blast
    have d: "length dp = ?jm + 1" "\<forall>j \<le> ?jm. dp ! j = exactly (nth p) n j" using Suc unfolding dp by blast+
    have "length (row n dp) = ?jm + 1 \<and> (\<forall>j \<le> ?jm. row n dp ! j = exactly (nth p) (Suc n) j)"
      unfolding row_def Let_def by (rule partialPMF_row[OF d])
    moreover have "fold row [0..<Suc n] ((replicate (?jm + 1) 0)[0 := 1]) = row n dp" by (simp add: dp)
    ultimately show ?case by simp
  qed
  from this[of "length p"]
  show "length (partialPMF p jmax) = ?jm + 1" "j \<le> ?jm \<Longrightarrow> partialPMF p jmax ! j = exactly (nth p) (length p) j"
    by (simp_all add: partialPMF_def Let_def row_def[abs_def])
qed


section \<open>The tails\<close>

lemma count_prob_cong: "(\<And>k. 0 \<le> k \<Longrightarrow> k \<le> int (length p) \<Longrightarrow> P k = Q k) \<Longrightarrow> count_prob p P = count_prob p Q"
  unfolding count_prob_def prob_of_def
proof (rule expect_cong)
  fix A assume PQ: "\<And>k. 0 \<le> k \<Longrightarrow> k \<le> int (length p) \<Longrightarrow> P k = Q k" and "A \<subseteq> {..<length p}"
  then have "card A \<le> length p" using card_mono[of "{..<length p}" A] by simp
  then show "(of_bool (P (int (card A))) :: real) = of_bool (Q (int (card A)))" using PQ[of "int (card A)"] by simp
qed

lemma count_prob_not: "count_prob p (\<lambda>k. \<not> P k) = 1 - count_prob p P"
  unfolding count_prob_def prob_of_def
  using expect_diff[of "nth p" "{..<length p}" "\<lambda>_. 1" "\<lambda>A. of_bool (P (int (card A)))"]
  by (simp add: of_bool_not_iff)

lemma count_prob_or: "(\<And>k. \<not> (P k \<and> Q k)) \<Longrightarrow> count_prob p (\<lambda>k. P k \<or> Q k) = count_prob p P + count_prob p Q"
  unfolding count_prob_def prob_of_def by (subst expect_add[symmetric], rule expect_cong) (auto simp: of_bool_def)

lemma count_prob_False [simp]: "count_prob p (\<lambda>k. False) = 0"
  by (simp add: count_prob_def prob_of_def)

lemma count_prob_exactly: "count_prob p (\<lambda>k. k = int j) = exactly (nth p) (length p) j"
  by (simp add: count_prob_def exactly_def)

lemma count_prob_upto: "count_prob p (\<lambda>k. k \<le> int n) = (\<Sum>j \<le> n. exactly (nth p) (length p) j)"
proof (induction n)
  case 0
  have "count_prob p (\<lambda>k. k \<le> int 0) = count_prob p (\<lambda>k. k = int 0)" by (rule count_prob_cong) auto
  then show ?case by (simp add: count_prob_exactly[where j = 0, simplified])
next
  case (Suc n)
  have "count_prob p (\<lambda>k. k \<le> int (Suc n)) = count_prob p (\<lambda>k. k \<le> int n \<or> k = int (Suc n))"
    by (rule count_prob_cong) auto
  also have "\<dots> = count_prob p (\<lambda>k. k \<le> int n) + count_prob p (\<lambda>k. k = int (Suc n))"
    by (rule count_prob_or) auto
  finally show ?case using Suc by (simp only: count_prob_exactly sum.atMost_Suc)
qed

lemma sum_upto_sum: "0 \<le> k \<Longrightarrow> sum_upto dp k = (\<Sum>j \<le> nat k. dp ! j)"
proof -
  assume k: "0 \<le> k"
  have "fold (\<lambda>j s. s + dp ! j) [0..<n] 0 = (\<Sum>j < n. dp ! j)" for n by (induction n) simp_all
  moreover have "nat (k + 1) = Suc (nat k)" using k by simp
  ultimately show ?thesis by (simp only: sum_upto_def lessThan_Suc_atMost)
qed

lemma sum_upto_PMF: "0 \<le> k \<Longrightarrow> k \<le> int (length p) \<Longrightarrow> sum_upto (partialPMF p (nat k)) k = count_prob p (\<lambda>j. j \<le> k)"
proof -
  assume k: "0 \<le> k" "k \<le> int (length p)"
  have "sum_upto (partialPMF p (nat k)) k = (\<Sum>j \<le> nat k. exactly (nth p) (length p) j)"
    unfolding sum_upto_sum[OF k(1)] by (rule sum.cong) (use k in \<open>auto simp: partialPMF_correct(2)\<close>)
  then show ?thesis using count_prob_upto[of p "nat k"] k(1) by simp
qed

text \<open>Counting the absent rows instead.\<close>

lemma expect_complement:
  assumes "finite V"
  shows "expect (\<lambda>x. 1 - p x) V (\<lambda>A. f (V - A)) = expect p V f"
  using assms
proof (induction V arbitrary: f rule: finite_induct)
  case (insert x V)
  have d: "insert x V - insert x A = V - A" "A \<subseteq> V \<Longrightarrow> insert x V - A = insert x (V - A)" for A
    using insert(2) by auto
  have "expect (\<lambda>x. 1 - p x) V (\<lambda>A. f (insert x V - A)) = expect (\<lambda>x. 1 - p x) V (\<lambda>A. f (insert x (V - A)))"
    by (rule expect_cong) (simp add: d(2))
  then show ?case using insert(3)[of f] insert(3)[of "\<lambda>A. f (insert x A)"]
    by (simp add: expect_insert[OF insert(1,2)] d(1))
qed simp

lemma count_prob_inverted: "count_prob (inverted p) P = count_prob p (\<lambda>k. P (int (length p) - k))"
proof -
  let ?V = "{..<length p}"
  have "expect (nth p) ?V (\<lambda>A. of_bool (P (int (length p) - int (card A)))) =
      expect (\<lambda>x. 1 - p ! x) ?V (\<lambda>A. of_bool (P (int (length p) - int (card (?V - A)))))"
    by (rule expect_complement[symmetric]) simp
  also have "\<dots> = expect (\<lambda>x. 1 - p ! x) ?V (\<lambda>A. of_bool (P (int (card A))))"
  proof (rule expect_cong)
    fix A assume A: "A \<subseteq> ?V"
    then have "card A \<le> length p" using card_mono[of ?V A] by simp
    then have "int (length p) - int (card (?V - A)) = int (card A)"
      using card_Diff_subset[OF finite_subset[OF A] A] by simp
    then show "(of_bool (P (int (length p) - int (card (?V - A)))) :: real) = of_bool (P (int (card A)))" by simp
  qed
  also have "\<dots> = expect (nth (inverted p)) ?V (\<lambda>A. of_bool (P (int (card A))))"
    unfolding expect_def world_weight_def
    by (intro sum.cong prod.cong arg_cong2[where f = "(*)"]) (auto simp: inverted_def)
  finally show ?thesis by (simp add: count_prob_def prob_of_def inverted_def)
qed

lemma length_inverted [simp]: "length (inverted p) = length p"
  by (simp add: inverted_def)

lemma count_prob_all: "(\<And>k. 0 \<le> k \<Longrightarrow> k \<le> int (length p) \<Longrightarrow> P k) \<Longrightarrow> count_prob p P = 1"
  using count_prob_cong[of p P "\<lambda>_. \<not> False"] by (simp only: count_prob_not count_prob_False) simp

lemma count_prob_none: "(\<And>k. 0 \<le> k \<Longrightarrow> k \<le> int (length p) \<Longrightarrow> \<not> P k) \<Longrightarrow> count_prob p P = 0"
  using count_prob_cong[of p P "\<lambda>_. False"] by simp

lemma probAtLeast_correct: "probAtLeast p T = count_prob p (\<lambda>k. T \<le> k)"
proof -
  let ?N = "int (length p)"
  consider "T \<le> 0" | "T > ?N" | "0 < T" "T \<le> ?N" "T - 1 \<le> ?N - T" | "0 < T" "T \<le> ?N" "\<not> T - 1 \<le> ?N - T" by linarith
  then show ?thesis
  proof cases
    case 1
    then show ?thesis using count_prob_all[of p "\<lambda>k. T \<le> k"] by (simp add: probAtLeast_def)
  next
    case 2
    then show ?thesis using count_prob_none[of p "\<lambda>k. T \<le> k"] by (simp add: probAtLeast_def)
  next
    case 3
    have "count_prob p (\<lambda>k. T \<le> k) = count_prob p (\<lambda>k. \<not> k \<le> T - 1)" by (rule count_prob_cong) auto
    then show ?thesis using 3 by (simp add: probAtLeast_def Let_def count_prob_not sum_upto_PMF)
  next
    case 4
    have "count_prob p (\<lambda>k. T \<le> k) = count_prob (inverted p) (\<lambda>k. k \<le> ?N - T)"
      unfolding count_prob_inverted by (rule count_prob_cong) auto
    then show ?thesis using 4 sum_upto_PMF[of "?N - T" "inverted p"] by (simp add: probAtLeast_def Let_def)
  qed
qed

lemma probAtMost_correct: "probAtMost p T = count_prob p (\<lambda>k. k \<le> T)"
proof -
  let ?N = "int (length p)"
  consider "T < 0" | "0 \<le> T" "T \<ge> ?N" | "0 \<le> T" "T < ?N" "T \<le> ?N - 1 - T" | "0 \<le> T" "T < ?N" "\<not> T \<le> ?N - 1 - T" by linarith
  then show ?thesis
  proof cases
    case 1
    then show ?thesis using count_prob_none[of p "\<lambda>k. k \<le> T"] by (simp add: probAtMost_def)
  next
    case 2
    then show ?thesis using count_prob_all[of p "\<lambda>k. k \<le> T"] by (simp add: probAtMost_def)
  next
    case 3
    then show ?thesis by (simp add: probAtMost_def Let_def sum_upto_PMF)
  next
    case 4
    have "count_prob p (\<lambda>k. k \<le> T) = count_prob p (\<lambda>k. \<not> ?N - k \<le> ?N - 1 - T)" by (rule count_prob_cong) auto
    also have "\<dots> = 1 - count_prob (inverted p) (\<lambda>k. k \<le> ?N - 1 - T)" by (simp only: count_prob_not count_prob_inverted)
    finally show ?thesis using 4 sum_upto_PMF[of "?N - 1 - T" "inverted p"] by (simp add: probAtMost_def Let_def)
  qed
qed

lemma probEqual_correct: "probEqual p T = count_prob p (\<lambda>k. k = T)"
proof -
  let ?N = "int (length p)"
  consider "T < 0 \<or> T > ?N" | "0 \<le> T" "T \<le> ?N" "T \<le> ?N - T" | "0 \<le> T" "T \<le> ?N" "\<not> T \<le> ?N - T" by linarith
  then show ?thesis
  proof cases
    case 1
    then show ?thesis using count_prob_none[of p "\<lambda>k. k = T"] by (auto simp: probEqual_def)
  next
    case 2
    then show ?thesis using count_prob_exactly[of p "nat T"] partialPMF_correct(2)[of "nat T" "nat T" p]
      by (simp add: probEqual_def Let_def)
  next
    case 3
    have "count_prob p (\<lambda>k. k = T) = count_prob (inverted p) (\<lambda>k. k = ?N - T)"
      unfolding count_prob_inverted by (rule count_prob_cong) auto
    then show ?thesis using 3 count_prob_exactly[of "inverted p" "nat (?N - T)"]
        partialPMF_correct(2)[of "nat (?N - T)" "nat (?N - T)" "inverted p"]
      by (simp add: probEqual_def Let_def)
  qed
qed

lemma probZero_correct: "probZero p = count_prob p (\<lambda>k. k = 0)"
proof -
  have "fold (\<lambda>px q. q * (1 - px)) (take n p) 1 = exactly (nth p) n 0" if "n \<le> length p" for n
    using that by (induction n) (simp_all add: exactly_0 exactly_Suc take_Suc_conv_app_nth)
  from this[of "length p"] show ?thesis using count_prob_exactly[of p 0] by (simp add: probZero_def)
qed

text \<open>The comparison of a count, the empty world for scalar counts only.\<close>

lemma count_cdf_correct:
  "count_cdf p op C is_scalar = count_prob p (\<lambda>k. compare k op C \<and> (k \<noteq> 0 \<or> is_scalar))"
proof -
  let ?N = "int (length p)"
  have split: "count_prob p (\<lambda>k. k \<noteq> 0 \<and> P k) = count_prob p P - (if P 0 then count_prob p (\<lambda>k. k = 0) else 0)" for P
  proof (cases "P 0")
    case True
    have "count_prob p P = count_prob p (\<lambda>k. (k \<noteq> 0 \<and> P k) \<or> k = 0)" by (rule count_prob_cong) (use True in auto)
    also have "\<dots> = count_prob p (\<lambda>k. k \<noteq> 0 \<and> P k) + count_prob p (\<lambda>k. k = 0)" by (rule count_prob_or) auto
    finally show ?thesis using True by simp
  next
    case False
    have "count_prob p (\<lambda>k. k \<noteq> 0 \<and> P k) = count_prob p P" by (rule count_prob_cong) (use False in auto)
    then show ?thesis using False by simp
  qed
  have grouped: "count_cdf p op C False = count_prob p (\<lambda>k. k \<noteq> 0 \<and> compare k op C)"
  proof (cases op)
    case GE
    have "count_prob p (\<lambda>k. k \<noteq> 0 \<and> C \<le> k) = count_prob p (\<lambda>k. max C 1 \<le> k)" by (rule count_prob_cong) auto
    then show ?thesis using GE by (simp add: count_cdf_def probAtLeast_correct)
  next
    case GT
    have "count_prob p (\<lambda>k. k \<noteq> 0 \<and> C < k) = count_prob p (\<lambda>k. max (C + 1) 1 \<le> k)" by (rule count_prob_cong) auto
    then show ?thesis using GT by (simp add: count_cdf_def probAtLeast_correct)
  next
    case LE
    show ?thesis
    proof (cases "min C ?N < 1")
      case True
      then have "count_prob p (\<lambda>k. k \<noteq> 0 \<and> k \<le> C) = 0" by (intro count_prob_none) auto
      then show ?thesis using LE True by (simp add: count_cdf_def Let_def)
    next
      case False
      have "count_prob p (\<lambda>k. k \<le> C) = count_prob p (\<lambda>k. k \<le> min C ?N)" by (rule count_prob_cong) auto
      moreover have "0 \<le> C" using False by linarith
      ultimately show ?thesis using LE False split[of "\<lambda>k. k \<le> C"] by (simp add: count_cdf_def Let_def probAtMost_correct probZero_correct)
    qed
  next
    case LT
    show ?thesis
    proof (cases "min (C - 1) ?N < 1")
      case True
      then have "count_prob p (\<lambda>k. k \<noteq> 0 \<and> k < C) = 0" by (intro count_prob_none) auto
      then show ?thesis using LT True by (simp add: count_cdf_def Let_def)
    next
      case False
      have "count_prob p (\<lambda>k. k < C) = count_prob p (\<lambda>k. k \<le> min (C - 1) ?N)" by (rule count_prob_cong) auto
      moreover have "0 < C" using False by linarith
      ultimately show ?thesis using LT False split[of "\<lambda>k. k < C"] by (simp add: count_cdf_def Let_def probAtMost_correct probZero_correct)
    qed
  next
    case EQ
    show ?thesis
    proof (cases "C < 1 \<or> C > ?N")
      case True
      then have "count_prob p (\<lambda>k. k \<noteq> 0 \<and> k = C) = 0" by (intro count_prob_none) auto
      then show ?thesis using EQ True by (simp add: count_cdf_def)
    next
      case False
      then show ?thesis using EQ split[of "\<lambda>k. k = C"] by (simp add: count_cdf_def probEqual_correct)
    qed
  next
    case NE
    have eq: "(if C \<ge> 1 \<and> C \<le> ?N then probEqual p C else 0) = count_prob p (\<lambda>k. k \<noteq> 0 \<and> k = C)"
    proof (cases "C \<ge> 1 \<and> C \<le> ?N")
      case True
      then show ?thesis using split[of "\<lambda>k. k = C"] by (simp add: probEqual_correct)
    next
      case False
      have "count_prob p (\<lambda>k. k \<noteq> 0 \<and> k = C) = 0" by (rule count_prob_none) (use False in auto)
      then show ?thesis using False by (simp only: if_False)
    qed
    have "count_prob p (\<lambda>k. k \<noteq> 0) = count_prob p (\<lambda>k. (k \<noteq> 0 \<and> k \<noteq> C) \<or> (k \<noteq> 0 \<and> k = C))"
      by (rule count_prob_cong) auto
    also have "\<dots> = count_prob p (\<lambda>k. k \<noteq> 0 \<and> k \<noteq> C) + count_prob p (\<lambda>k. k \<noteq> 0 \<and> k = C)" by (rule count_prob_or) auto
    finally show ?thesis using NE eq by (simp add: count_cdf_def Let_def probZero_correct count_prob_not)
  qed
  show ?thesis
  proof (cases "is_scalar \<and> compare 0 op C")
    case True
    have "count_cdf p op C is_scalar = count_cdf p op C False + count_prob p (\<lambda>k. k = 0)"
      using True by (simp add: count_cdf_def Let_def zeroSatisfies_def probZero_correct)
    also have "\<dots> = count_prob p (\<lambda>k. (k \<noteq> 0 \<and> compare k op C) \<or> k = 0)" unfolding grouped by (rule count_prob_or[symmetric]) auto
    also have "\<dots> = count_prob p (\<lambda>k. compare k op C \<and> (k \<noteq> 0 \<or> is_scalar))" by (rule count_prob_cong) (use True in auto)
    finally show ?thesis .
  next
    case False
    then have "count_cdf p op C is_scalar = count_cdf p op C False" by (auto simp: count_cdf_def Let_def zeroSatisfies_def)
    moreover have "count_prob p (\<lambda>k. k \<noteq> 0 \<and> compare k op C) = count_prob p (\<lambda>k. compare k op C \<and> (k \<noteq> 0 \<or> is_scalar))"
      by (rule count_prob_cong) (use False in auto)
    ultimately show ?thesis using grouped by simp
  qed
qed


section \<open>Summing the values\<close>

definition kMaxSumRange :: int where "kMaxSumRange = 2 ^ 24"

definition sum_bounds :: "int list \<Rightarrow> int \<times> int" where
  "sum_bounds ms = fold (\<lambda>m (lo, hi). if m < 0 then (lo + m, hi) else (lo, hi + m)) ms (0, 0)"

definition sum_entry :: "real \<Rightarrow> int \<Rightarrow> real list \<Rightarrow> nat \<Rightarrow> real list \<Rightarrow> real list" where
  "sum_entry px m dp k ndp =
     (let cur = dp ! k in
      if cur = 0 then ndp
      else (let ndp = ndp[k := ndp ! k + cur * (1 - px)]; t = nat (int k + m)
            in ndp[t := ndp ! t + cur * px]))"

definition sum_row :: "real \<Rightarrow> int \<Rightarrow> real list \<Rightarrow> real list" where
  "sum_row px m dp =
     (if m = 0 then dp else fold (sum_entry px m dp) [0..<length dp] (replicate (length dp) 0))"

definition sum_cdf :: "real list \<Rightarrow> int list \<Rightarrow> cmp_op \<Rightarrow> int \<Rightarrow> real" where
  "sum_cdf p ms op C =
     (let (lo, hi) = sum_bounds ms;
          range = nat (hi - lo + 1);
          dp = fold (\<lambda>i. sum_row (p ! i) (ms ! i)) [0..<length p] ((replicate range 0)[nat (- lo) := 1]);
          pr = fold (\<lambda>k pr. if compare (lo + int k) op C then pr + dp ! k else pr) [0..<range] 0
      in if compare 0 op C then pr - probZero p else pr)"

text \<open>The probability that the first n rows add up to s.\<close>

definition row_sum :: "int list \<Rightarrow> nat set \<Rightarrow> int" where
  "row_sum ms A = (\<Sum>i \<in> A. ms ! i)"

definition adds_up :: "(nat \<Rightarrow> real) \<Rightarrow> int list \<Rightarrow> nat \<Rightarrow> int \<Rightarrow> real" where
  "adds_up p ms n s = prob_of p {..<n} (\<lambda>A. row_sum ms A = s)"

lemma adds_up_0: "adds_up p ms 0 s = (if s = 0 then 1 else 0)"
  by (simp add: adds_up_def prob_of_def row_sum_def)

lemma adds_up_Suc: "adds_up p ms (Suc n) s = adds_up p ms n s * (1 - p n) + adds_up p ms n (s - ms ! n) * p n"
proof -
  have "expect p {..<n} (\<lambda>A. of_bool (row_sum ms (insert n A) = s)) = expect p {..<n} (\<lambda>A. of_bool (row_sum ms A = s - ms ! n))"
  proof (rule expect_cong)
    fix A assume A: "A \<subseteq> {..<n}"
    then have "row_sum ms (insert n A) = ms ! n + row_sum ms A"
      unfolding row_sum_def using finite_subset[OF A] by (subst sum.insert) auto
    then show "(of_bool (row_sum ms (insert n A) = s) :: real) = of_bool (row_sum ms A = s - ms ! n)" by auto
  qed
  then show ?thesis by (simp add: adds_up_def prob_of_def lessThan_Suc expect_insert)
qed

lemma sum_bounds_correct: "sum_bounds ms = ((\<Sum>m \<leftarrow> ms. min m 0), (\<Sum>m \<leftarrow> ms. max m 0))"
proof -
  have "fold (\<lambda>m (lo, hi). if m < 0 then (lo + m, hi) else (lo, hi + m)) ms (a, b) =
      (a + (\<Sum>m \<leftarrow> ms. min m 0), b + (\<Sum>m \<leftarrow> ms. max m 0))" for a b
    by (induction ms arbitrary: a b) auto
  then show ?thesis by (simp add: sum_bounds_def)
qed

lemma row_sum_bounds:
  assumes "A \<subseteq> {..<length ms}"
  shows "fst (sum_bounds ms) \<le> row_sum ms A \<and> row_sum ms A \<le> snd (sum_bounds ms)"
proof -
  have A: "(\<Sum>i < length ms. f i * (if i \<in> A then 1 else 0)) = sum f A" for f :: "nat \<Rightarrow> int"
    using assms by (simp add: sum.If_cases Int_absorb1 if_distrib[of "(*) _"] cong: if_cong)
  have l: "(\<Sum>m \<leftarrow> ms. g m) = (\<Sum>i < length ms. g (ms ! i))" for g :: "int \<Rightarrow> int"
    by (simp add: sum_list_sum_nth atLeast0LessThan)
  have "(\<Sum>i < length ms. min (ms ! i) 0) \<le> (\<Sum>i < length ms. ms ! i * (if i \<in> A then 1 else 0))" by (rule sum_mono) simp
  moreover have "(\<Sum>i < length ms. ms ! i * (if i \<in> A then 1 else 0)) \<le> (\<Sum>i < length ms. max (ms ! i) 0)" by (rule sum_mono) simp
  ultimately show ?thesis by (simp add: sum_bounds_correct row_sum_def A l)
qed

lemma adds_up_out: "n \<le> length ms \<Longrightarrow> s < fst (sum_bounds ms) \<or> snd (sum_bounds ms) < s \<Longrightarrow> adds_up p ms n s = 0"
proof -
  assume n: "n \<le> length ms" and s: "s < fst (sum_bounds ms) \<or> snd (sum_bounds ms) < s"
  have "adds_up p ms n s = expect p {..<n} (\<lambda>_. 0)" unfolding adds_up_def prob_of_def
  proof (rule expect_cong)
    fix A assume "A \<subseteq> {..<n}"
    then have "A \<subseteq> {..<length ms}" using n by (meson lessThan_subset_iff order_trans)
    then show "(of_bool (row_sum ms A = s) :: real) = 0" using row_sum_bounds[of A ms] s by auto
  qed
  then show ?thesis by simp
qed

lemma adds_up_step:
  assumes "n < length ms" "adds_up p ms n s \<noteq> 0"
  shows "fst (sum_bounds ms) \<le> s + ms ! n \<and> s + ms ! n \<le> snd (sum_bounds ms)"
proof (rule ccontr)
  assume out: "\<not> ?thesis"
  have "adds_up p ms n s = expect p {..<n} (\<lambda>_. 0)" unfolding adds_up_def prob_of_def
  proof (rule expect_cong)
    fix A assume A: "A \<subseteq> {..<n}"
    have "insert n A \<subseteq> {..<length ms}" using A assms(1) by auto
    moreover have "row_sum ms (insert n A) = row_sum ms A + ms ! n"
      unfolding row_sum_def using finite_subset[OF A] A by (subst sum.insert) auto
    ultimately show "(of_bool (row_sum ms A = s) :: real) = 0" using row_sum_bounds[of "insert n A" ms] out by auto
  qed
  then show False using assms(2) by simp
qed

text \<open>The entries written for row k, and the writes that stay within the table.\<close>

lemma sum_entries:
  fixes px :: real
  assumes "m \<noteq> 0" "k \<le> length dp" "\<forall>i < length dp. dp ! i \<noteq> 0 \<longrightarrow> 0 \<le> int i + m \<and> int i + m < int (length dp)"
  defines "r \<equiv> fold (sum_entry px m dp) [0..<k] (replicate (length dp) 0)"
  shows "length r = length dp \<and> (\<forall>j < length dp. r ! j = (if j < k then dp ! j * (1 - px) else 0) +
    (if 0 \<le> int j - m \<and> int j - m < int k then dp ! nat (int j - m) * px else 0))"
  unfolding r_def using assms(2)
proof (induction k)
  case (Suc k)
  obtain r where r: "r = fold (sum_entry px m dp) [0..<k] (replicate (length dp) 0)" by blast
  have IH: "length r = length dp" "\<And>j. j < length dp \<Longrightarrow> r ! j = (if j < k then dp ! j * (1 - px) else 0) +
    (if 0 \<le> int j - m \<and> int j - m < int k then dp ! nat (int j - m) * px else 0)" using Suc unfolding r by auto
  have R: "fold (sum_entry px m dp) [0..<Suc k] (replicate (length dp) 0) = sum_entry px m dp k r" by (simp add: r)
  show ?case
  proof (cases "dp ! k = 0")
    case True
    have "sum_entry px m dp k r = r" using True by (simp add: sum_entry_def)
    moreover have "r ! j = (if j < Suc k then dp ! j * (1 - px) else 0) +
      (if 0 \<le> int j - m \<and> int j - m < int (Suc k) then dp ! nat (int j - m) * px else 0)" if "j < length dp" for j
    proof -
      have "j = k \<Longrightarrow> dp ! j = 0" "int j - m = int k \<Longrightarrow> dp ! nat (int j - m) = 0" using True by auto
      then show ?thesis using IH(2)[OF that] by (cases "j = k"; cases "int j - m = int k") (auto simp: less_Suc_eq)
    qed
    ultimately show ?thesis unfolding R using IH(1) by simp
  next
    case False
    define t where "t = nat (int k + m)"
    have "0 \<le> int k + m \<and> int k + m < int (length dp)" using assms(3) False Suc.prems by simp
    then have t: "t < length dp" "int t = int k + m" "t \<noteq> k" using assms(1) by (auto simp: t_def)
    have E: "sum_entry px m dp k r = r[k := r ! k + dp ! k * (1 - px), t := r ! t + dp ! k * px]"
      using False t(3) by (simp add: sum_entry_def Let_def t_def[symmetric])
    have "sum_entry px m dp k r ! j = (if j < Suc k then dp ! j * (1 - px) else 0) +
      (if 0 \<le> int j - m \<and> int j - m < int (Suc k) then dp ! nat (int j - m) * px else 0)" if j: "j < length dp" for j
    proof -
      consider "j = k" | "j = t" | "j \<noteq> k" "j \<noteq> t" by blast
      then show ?thesis
      proof cases
        case 1
        have "int k - m \<noteq> int k" using assms(1) by simp
        then show ?thesis using 1 IH(2)[OF j] t Suc.prems IH(1) unfolding E by (auto simp: less_Suc_eq)
      next
        case 2
        have "int t - m = int k" using t(2) by simp
        then show ?thesis using 2 IH(2)[OF j] t IH(1) unfolding E by (auto simp: less_Suc_eq)
      next
        case 3
        then have "int j - m \<noteq> int k" using t(2) by auto
        then show ?thesis using 3 IH(2)[OF j] IH(1) unfolding E by (auto simp: less_Suc_eq)
      qed
    qed
    then show ?thesis unfolding R E using IH(1) by simp
  qed
qed simp


lemma sum_row_correct:
  assumes n: "n < length ms" and dp: "length dp = nat (snd (sum_bounds ms) - fst (sum_bounds ms) + 1)"
    "\<forall>k < length dp. dp ! k = adds_up p ms n (fst (sum_bounds ms) + int k)"
  shows "length (sum_row (p n) (ms ! n) dp) = length dp \<and>
    (\<forall>k < length dp. sum_row (p n) (ms ! n) dp ! k = adds_up p ms (Suc n) (fst (sum_bounds ms) + int k))"
proof (cases "ms ! n = 0")
  case True
  then show ?thesis using dp(2) by (simp add: sum_row_def adds_up_Suc algebra_simps)
next
  case False
  let ?lo = "fst (sum_bounds ms)" and ?hi = "snd (sum_bounds ms)" and ?m = "ms ! n"
  have "0 \<le> int i + ?m \<and> int i + ?m < int (length dp)" if "i < length dp" "dp ! i \<noteq> 0" for i
    using adds_up_step[OF n, of p "?lo + int i"] dp that by auto
  then have "\<forall>i < length dp. dp ! i \<noteq> 0 \<longrightarrow> 0 \<le> int i + ?m \<and> int i + ?m < int (length dp)" by blast
  note S = sum_entries[OF False order_refl this, of "p n"]
  have R: "sum_row (p n) ?m dp = fold (sum_entry (p n) ?m dp) [0..<length dp] (replicate (length dp) 0)"
    using False by (simp add: sum_row_def)
  have "sum_row (p n) ?m dp ! j = adds_up p ms (Suc n) (?lo + int j)" if j: "j < length dp" for j
  proof (cases "0 \<le> int j - ?m \<and> int j - ?m < int (length dp)")
    case True
    then have "nat (int j - ?m) < length dp" "int (nat (int j - ?m)) = int j - ?m" by auto
    then have "dp ! nat (int j - ?m) = adds_up p ms n (?lo + (int j - ?m))" using dp(2) by metis
    then show ?thesis using S R True j dp(2) by (simp add: adds_up_Suc algebra_simps)
  next
    case False
    have "?lo \<le> ?hi" using row_sum_bounds[of "{}" ms] by (simp add: row_sum_def)
    then have "int (length dp) = ?hi - ?lo + 1" using dp(1) by simp
    then have "?lo + int j - ?m < ?lo \<or> ?hi < ?lo + int j - ?m" using False by linarith
    then have "adds_up p ms n (?lo + int j - ?m) = 0" using adds_up_out n by (metis less_imp_le)
    then show ?thesis using S R False j dp(2) by (auto simp: adds_up_Suc)
  qed
  then show ?thesis using S R by simp
qed

definition sum_prob :: "real list \<Rightarrow> int list \<Rightarrow> (int \<Rightarrow> nat set \<Rightarrow> bool) \<Rightarrow> real" where
  "sum_prob p ms P = prob_of (nth p) {..<length p} (\<lambda>A. P (row_sum ms A) A)"

lemma probZero_world: "probZero p = prob_of (nth p) {..<length p} (\<lambda>A. A = {})"
proof -
  have "expect (nth p) {..<length p} (\<lambda>A. of_bool (int (card A) = 0)) = expect (nth p) {..<length p} (\<lambda>A. of_bool (A = {}))"
    by (rule expect_cong) (auto simp: card_eq_0_iff dest: finite_subset)
  then show ?thesis by (simp add: probZero_correct count_prob_def prob_of_def)
qed

lemma sum_cdf_correct:
  assumes "length ms = length p"
  shows "sum_cdf p ms op C = prob_of (nth p) {..<length p} (\<lambda>A. compare (row_sum ms A) op C \<and> A \<noteq> {})"
proof -
  let ?lo = "fst (sum_bounds ms)" and ?hi = "snd (sum_bounds ms)" and ?V = "{..<length p}" and ?N = "length p"
  define range where "range = nat (?hi - ?lo + 1)"
  have lo: "?lo \<le> 0" "0 \<le> ?hi" using row_sum_bounds[of "{}" ms] by (simp_all add: row_sum_def)
  define dp where "dp = fold (\<lambda>i. sum_row (p ! i) (ms ! i)) [0..<?N] ((replicate range 0)[nat (- ?lo) := 1])"
  have D: "length (fold (\<lambda>i. sum_row (p ! i) (ms ! i)) [0..<n] ((replicate range 0)[nat (- ?lo) := 1])) = range \<and>
      (\<forall>k < range. fold (\<lambda>i. sum_row (p ! i) (ms ! i)) [0..<n] ((replicate range 0)[nat (- ?lo) := 1]) ! k = adds_up (nth p) ms n (?lo + int k))"
    if "n \<le> ?N" for n
    using that
  proof (induction n)
    case 0
    then show ?case using lo by (auto simp: adds_up_0 nth_list_update)
  next
    case (Suc n)
    then show ?case using sum_row_correct[of n ms "fold (\<lambda>i. sum_row (p ! i) (ms ! i)) [0..<n] ((replicate range 0)[nat (- ?lo) := 1])" "nth p"]
        assms by (simp add: range_def)
  qed
  from D[OF order_refl] have dp: "length dp = range" "\<And>k. k < range \<Longrightarrow> dp ! k = adds_up (nth p) ms ?N (?lo + int k)"
    by (auto simp: dp_def)
  have "fold (\<lambda>k pr. if compare (?lo + int k) op C then pr + dp ! k else pr) [0..<n] 0 =
      prob_of (nth p) ?V (\<lambda>A. compare (row_sum ms A) op C \<and> row_sum ms A < ?lo + int n)" if "n \<le> range" for n
    using that
  proof (induction n)
    case 0
    have "prob_of (nth p) ?V (\<lambda>A. compare (row_sum ms A) op C \<and> row_sum ms A < ?lo) = prob_of (nth p) ?V (\<lambda>_. False)"
      unfolding prob_of_def
    proof (rule expect_cong)
      fix A assume "A \<subseteq> ?V"
      then show "(of_bool (compare (row_sum ms A) op C \<and> row_sum ms A < ?lo) :: real) = of_bool False"
        using row_sum_bounds[of A ms] assms by auto
    qed
    then show ?case by (simp add: prob_of_def)
  next
    case (Suc n)
    have "prob_of (nth p) ?V (\<lambda>A. compare (row_sum ms A) op C \<and> row_sum ms A < ?lo + int (Suc n)) =
        prob_of (nth p) ?V (\<lambda>A. compare (row_sum ms A) op C \<and> row_sum ms A < ?lo + int n) +
        prob_of (nth p) ?V (\<lambda>A. compare (?lo + int n) op C \<and> row_sum ms A = ?lo + int n)"
    proof -
      have "x < ?lo + int (Suc n) \<longleftrightarrow> x < ?lo + int n \<or> x = ?lo + int n" for x by auto
      then have "(of_bool (compare x op C \<and> x < ?lo + int (Suc n)) :: real) =
          of_bool (compare x op C \<and> x < ?lo + int n) + of_bool (compare (?lo + int n) op C \<and> x = ?lo + int n)" for x by auto
      then show ?thesis unfolding prob_of_def expect_add[symmetric] by simp
    qed
    moreover have "prob_of (nth p) ?V (\<lambda>A. compare (?lo + int n) op C \<and> row_sum ms A = ?lo + int n) =
        (if compare (?lo + int n) op C then dp ! n else 0)"
      using dp(2)[of n] Suc.prems by (simp add: adds_up_def prob_of_def)
    ultimately show ?case using Suc by simp
  qed
  from this[OF order_refl] have "fold (\<lambda>k pr. if compare (?lo + int k) op C then pr + dp ! k else pr) [0..<range] 0 =
      prob_of (nth p) ?V (\<lambda>A. compare (row_sum ms A) op C \<and> row_sum ms A < ?lo + int range)" .
  also have "\<dots> = prob_of (nth p) ?V (\<lambda>A. compare (row_sum ms A) op C)"
    unfolding prob_of_def
  proof (rule expect_cong)
    fix A assume "A \<subseteq> ?V"
    then have "row_sum ms A < ?lo + int range" using row_sum_bounds[of A ms] assms lo by (simp add: range_def)
    then show "(of_bool (compare (row_sum ms A) op C \<and> row_sum ms A < ?lo + int range) :: real) = of_bool (compare (row_sum ms A) op C)"
      by simp
  qed
  also have "\<dots> = prob_of (nth p) ?V (\<lambda>A. compare (row_sum ms A) op C \<and> A \<noteq> {}) + (if compare 0 op C then probZero p else 0)"
  proof -
    have "prob_of (nth p) ?V (\<lambda>A. compare (row_sum ms A) op C) =
        prob_of (nth p) ?V (\<lambda>A. compare (row_sum ms A) op C \<and> A \<noteq> {}) + prob_of (nth p) ?V (\<lambda>A. compare 0 op C \<and> A = {})"
      unfolding prob_of_def by (subst expect_add[symmetric], rule expect_cong) (auto simp: of_bool_def row_sum_def)
    then show ?thesis by (simp add: probZero_world) (simp add: prob_of_def)
  qed
  finally have F: "fold (\<lambda>k pr. if compare (?lo + int k) op C then pr + dp ! k else pr) [0..<range] 0 =
      prob_of (nth p) ?V (\<lambda>A. compare (row_sum ms A) op C \<and> A \<noteq> {}) + (if compare 0 op C then probZero p else 0)" .
  have "sum_cdf p ms op C = (let pr = fold (\<lambda>k pr. if compare (?lo + int k) op C then pr + dp ! k else pr) [0..<range] 0
      in if compare 0 op C then pr - probZero p else pr)"
    unfolding sum_cdf_def case_prod_beta Let_def dp_def range_def ..
  then show ?thesis unfolding F by simp
qed


section \<open>Least and greatest values\<close>

definition qprod :: "real list \<Rightarrow> int list \<Rightarrow> (int \<Rightarrow> bool) \<Rightarrow> real" where
  "qprod p m pred = fold (\<lambda>i q. if pred (m ! i) then q * (1 - p ! i) else q) [0..<length p] 1"

text \<open>The parameter is an \<open>int\<close>, the constant of the caller a \<open>long\<close>.\<close>

definition int32 :: "int \<Rightarrow> int" where
  "int32 C = signed_take_bit 31 C"

definition minmax_equal :: "agg_op \<Rightarrow> real list \<Rightarrow> int list \<Rightarrow> int \<Rightarrow> real" where
  "minmax_equal agg p m C0 =
     (let C = int32 C0 in
      if agg = AggMAX then qprod p m (\<lambda>v. v > C) * (1 - qprod p m (\<lambda>v. v = C))
      else qprod p m (\<lambda>v. v < C) * (1 - qprod p m (\<lambda>v. v = C)))"

definition minmax_cdf :: "agg_op \<Rightarrow> cmp_op \<Rightarrow> real list \<Rightarrow> int list \<Rightarrow> int \<Rightarrow> real" where
  "minmax_cdf agg op p m C =
     (let atLeastOne = (\<lambda>pred. 1 - qprod p m pred) in
      if agg = AggMAX then (case op of
        GE \<Rightarrow> atLeastOne (\<lambda>v. v \<ge> C)
      | GT \<Rightarrow> atLeastOne (\<lambda>v. v > C)
      | LE \<Rightarrow> qprod p m (\<lambda>v. v > C) * atLeastOne (\<lambda>v. v \<le> C)
      | LT \<Rightarrow> qprod p m (\<lambda>v. v \<ge> C) * atLeastOne (\<lambda>v. v < C)
      | EQ \<Rightarrow> minmax_equal agg p m C
      | NE \<Rightarrow> (1 - qprod p m (\<lambda>_. True)) - minmax_equal agg p m C)
      else (case op of
        LE \<Rightarrow> atLeastOne (\<lambda>v. v \<le> C)
      | LT \<Rightarrow> atLeastOne (\<lambda>v. v < C)
      | GE \<Rightarrow> qprod p m (\<lambda>v. v < C) * atLeastOne (\<lambda>v. v \<ge> C)
      | GT \<Rightarrow> qprod p m (\<lambda>v. v \<le> C) * atLeastOne (\<lambda>v. v > C)
      | EQ \<Rightarrow> minmax_equal agg p m C
      | NE \<Rightarrow> (1 - qprod p m (\<lambda>_. True)) - minmax_equal agg p m C))"

definition row_prob :: "real list \<Rightarrow> (nat set \<Rightarrow> bool) \<Rightarrow> real" where
  "row_prob p \<phi> = prob_of (nth p) {..<length p} \<phi>"

lemma row_prob_cong: "(\<And>A. A \<subseteq> {..<length p} \<Longrightarrow> finite A \<Longrightarrow> \<phi> A = \<psi> A) \<Longrightarrow> row_prob p \<phi> = row_prob p \<psi>"
  unfolding row_prob_def prob_of_def by (rule expect_cong) (simp add: finite_subset[of _ "{..<length p}"])

lemma row_prob_not: "row_prob p (\<lambda>A. \<not> \<phi> A) = 1 - row_prob p \<phi>"
  unfolding row_prob_def prob_of_def
  using expect_diff[of "nth p" "{..<length p}" "\<lambda>_. 1" "\<lambda>A. of_bool (\<phi> A)"] by (simp add: of_bool_not_iff)

lemma row_prob_minus: "(\<And>A. \<psi> A \<Longrightarrow> \<phi> A) \<Longrightarrow> row_prob p (\<lambda>A. \<phi> A \<and> \<not> \<psi> A) = row_prob p \<phi> - row_prob p \<psi>"
  unfolding row_prob_def prob_of_def by (subst expect_diff[symmetric], rule expect_cong) (auto simp: of_bool_def)

lemma none_prob: "row_prob p (\<lambda>A. \<forall>i \<in> A. \<not> P (m ! i)) = qprod p m P"
proof -
  have "expect (nth p) {..<n} (\<lambda>A. of_bool (\<forall>i \<in> A. \<not> P (m ! i))) =
      fold (\<lambda>i q. if P (m ! i) then q * (1 - p ! i) else q) [0..<n] 1" for n
  proof (induction n)
    case (Suc n)
    have "expect (nth p) {..<n} (\<lambda>A. of_bool (\<forall>i \<in> insert n A. \<not> P (m ! i))) =
        (if P (m ! n) then 0 else expect (nth p) {..<n} (\<lambda>A. of_bool (\<forall>i \<in> A. \<not> P (m ! i))))" by simp
    then show ?case using Suc by (simp add: lessThan_Suc expect_insert algebra_simps)
  qed simp
  then show ?thesis by (simp add: row_prob_def prob_of_def qprod_def)
qed

lemma some_prob: "row_prob p (\<lambda>A. \<exists>i \<in> A. P (m ! i)) = 1 - qprod p m P"
  using row_prob_not[of p "\<lambda>A. \<forall>i \<in> A. \<not> P (m ! i)"] by (simp add: none_prob)

lemma none_some_prob:
  assumes "\<And>v. \<not> (P v \<and> Q v)"
  shows "row_prob p (\<lambda>A. (\<forall>i \<in> A. \<not> P (m ! i)) \<and> (\<exists>i \<in> A. Q (m ! i))) = qprod p m P * (1 - qprod p m Q)"
proof -
  have d: "depends_on (\<lambda>A. of_bool (\<forall>i \<in> A. \<not> P (m ! i)) :: real) {i. P (m ! i)}"
    "depends_on (\<lambda>A. of_bool (\<exists>i \<in> A. Q (m ! i)) :: real) {i. Q (m ! i)}"
    unfolding depends_on_def of_bool_eq_iff by (intro allI impI; blast)+
  have "row_prob p (\<lambda>A. (\<forall>i \<in> A. \<not> P (m ! i)) \<and> (\<exists>i \<in> A. Q (m ! i))) =
      expect (nth p) {..<length p} (\<lambda>A. of_bool (\<forall>i \<in> A. \<not> P (m ! i)) * of_bool (\<exists>i \<in> A. Q (m ! i)))"
    unfolding row_prob_def prob_of_def by (rule expect_cong) (simp add: of_bool_conj)
  also have "\<dots> = row_prob p (\<lambda>A. \<forall>i \<in> A. \<not> P (m ! i)) * row_prob p (\<lambda>A. \<exists>i \<in> A. Q (m ! i))"
    unfolding row_prob_def prob_of_def by (rule expect_indep[OF _ d]) (use assms in auto)
  finally show ?thesis by (simp add: none_prob some_prob)
qed

text \<open>The value of the aggregate in a world that is not empty.\<close>

definition extreme :: "agg_op \<Rightarrow> int list \<Rightarrow> nat set \<Rightarrow> int" where
  "extreme agg m A = (if agg = AggMAX then Max (nth m ` A) else Min (nth m ` A))"

lemma max_iff:
  assumes "finite A"
  shows "A \<noteq> {} \<and> C \<le> Max (nth m ` A) \<longleftrightarrow> (\<exists>i \<in> A. C \<le> m ! i)" "A \<noteq> {} \<and> C < Max (nth m ` A) \<longleftrightarrow> (\<exists>i \<in> A. C < m ! i)"
    "A \<noteq> {} \<and> Max (nth m ` A) \<le> C \<longleftrightarrow> (\<forall>i \<in> A. \<not> C < m ! i) \<and> (\<exists>i \<in> A. m ! i \<le> C)"
    "A \<noteq> {} \<and> Max (nth m ` A) < C \<longleftrightarrow> (\<forall>i \<in> A. \<not> C \<le> m ! i) \<and> (\<exists>i \<in> A. m ! i < C)"
    "A \<noteq> {} \<and> Max (nth m ` A) = C \<longleftrightarrow> (\<forall>i \<in> A. \<not> C < m ! i) \<and> (\<exists>i \<in> A. m ! i = C)"
proof -
  have f: "finite (nth m ` A)" using assms by simp
  note I = Max_ge_iff[OF f] Max_gr_iff[OF f] Max.bounded_iff[OF f] Max_less_iff[OF f] Max_eq_iff[OF f]
  show "A \<noteq> {} \<and> C \<le> Max (nth m ` A) \<longleftrightarrow> (\<exists>i \<in> A. C \<le> m ! i)" by (cases "A = {}") (simp_all add: I)
  show "A \<noteq> {} \<and> C < Max (nth m ` A) \<longleftrightarrow> (\<exists>i \<in> A. C < m ! i)" by (cases "A = {}") (simp_all add: I)
  show "A \<noteq> {} \<and> Max (nth m ` A) \<le> C \<longleftrightarrow> (\<forall>i \<in> A. \<not> C < m ! i) \<and> (\<exists>i \<in> A. m ! i \<le> C)"
    by (cases "A = {}") (auto simp: I not_less)
  show "A \<noteq> {} \<and> Max (nth m ` A) < C \<longleftrightarrow> (\<forall>i \<in> A. \<not> C \<le> m ! i) \<and> (\<exists>i \<in> A. m ! i < C)"
    by (cases "A = {}") (auto simp: I not_le)
  show "A \<noteq> {} \<and> Max (nth m ` A) = C \<longleftrightarrow> (\<forall>i \<in> A. \<not> C < m ! i) \<and> (\<exists>i \<in> A. m ! i = C)"
    by (cases "A = {}") (auto simp: I not_less)
qed

lemma min_iff:
  assumes "finite A"
  shows "A \<noteq> {} \<and> Min (nth m ` A) \<le> C \<longleftrightarrow> (\<exists>i \<in> A. m ! i \<le> C)" "A \<noteq> {} \<and> Min (nth m ` A) < C \<longleftrightarrow> (\<exists>i \<in> A. m ! i < C)"
    "A \<noteq> {} \<and> C \<le> Min (nth m ` A) \<longleftrightarrow> (\<forall>i \<in> A. \<not> m ! i < C) \<and> (\<exists>i \<in> A. C \<le> m ! i)"
    "A \<noteq> {} \<and> C < Min (nth m ` A) \<longleftrightarrow> (\<forall>i \<in> A. \<not> m ! i \<le> C) \<and> (\<exists>i \<in> A. C < m ! i)"
    "A \<noteq> {} \<and> Min (nth m ` A) = C \<longleftrightarrow> (\<forall>i \<in> A. \<not> m ! i < C) \<and> (\<exists>i \<in> A. m ! i = C)"
proof -
  have f: "finite (nth m ` A)" using assms by simp
  note I = Min_le_iff[OF f] Min_less_iff[OF f] Min.bounded_iff[OF f] Min_gr_iff[OF f] Min_eq_iff[OF f]
  show "A \<noteq> {} \<and> Min (nth m ` A) \<le> C \<longleftrightarrow> (\<exists>i \<in> A. m ! i \<le> C)" by (cases "A = {}") (simp_all add: I)
  show "A \<noteq> {} \<and> Min (nth m ` A) < C \<longleftrightarrow> (\<exists>i \<in> A. m ! i < C)" by (cases "A = {}") (simp_all add: I)
  show "A \<noteq> {} \<and> C \<le> Min (nth m ` A) \<longleftrightarrow> (\<forall>i \<in> A. \<not> m ! i < C) \<and> (\<exists>i \<in> A. C \<le> m ! i)"
    by (cases "A = {}") (auto simp: I not_less)
  show "A \<noteq> {} \<and> C < Min (nth m ` A) \<longleftrightarrow> (\<forall>i \<in> A. \<not> m ! i \<le> C) \<and> (\<exists>i \<in> A. C < m ! i)"
    by (cases "A = {}") (auto simp: I not_le)
  show "A \<noteq> {} \<and> Min (nth m ` A) = C \<longleftrightarrow> (\<forall>i \<in> A. \<not> m ! i < C) \<and> (\<exists>i \<in> A. m ! i = C)"
    by (cases "A = {}") (auto simp: I not_less)
qed

lemma extreme_equal:
  assumes "int32 C = C" "agg = AggMAX \<or> agg = AggMIN"
  shows "minmax_equal agg p m C = row_prob p (\<lambda>A. A \<noteq> {} \<and> extreme agg m A = C)"
proof (cases "agg = AggMAX")
  case True
  have "row_prob p (\<lambda>A. A \<noteq> {} \<and> extreme agg m A = C) = row_prob p (\<lambda>A. (\<forall>i \<in> A. \<not> C < m ! i) \<and> (\<exists>i \<in> A. m ! i = C))"
    by (rule row_prob_cong) (simp add: extreme_def True max_iff(5))
  also have "\<dots> = qprod p m (\<lambda>v. C < v) * (1 - qprod p m (\<lambda>v. v = C))" by (rule none_some_prob) auto
  finally show ?thesis by (simp add: minmax_equal_def assms(1) True)
next
  case False
  have "row_prob p (\<lambda>A. A \<noteq> {} \<and> extreme agg m A = C) = row_prob p (\<lambda>A. (\<forall>i \<in> A. \<not> m ! i < C) \<and> (\<exists>i \<in> A. m ! i = C))"
    by (rule row_prob_cong) (simp add: extreme_def False min_iff(5))
  also have "\<dots> = qprod p m (\<lambda>v. v < C) * (1 - qprod p m (\<lambda>v. v = C))" by (rule none_some_prob) auto
  finally show ?thesis by (simp add: minmax_equal_def assms(1) False)
qed

lemma minmax_cdf_correct:
  assumes "agg = AggMAX \<or> agg = AggMIN" "(op = EQ \<or> op = NE) \<longrightarrow> int32 C = C"
  shows "minmax_cdf agg op p m C = row_prob p (\<lambda>A. compare (extreme agg m A) op C \<and> A \<noteq> {})"
proof -
  have comm: "row_prob p (\<lambda>A. compare (extreme agg m A) op C \<and> A \<noteq> {}) = row_prob p (\<lambda>A. A \<noteq> {} \<and> compare (extreme agg m A) op C)"
    by (rule row_prob_cong) auto
  have ne: "row_prob p (\<lambda>A. A \<noteq> {} \<and> extreme agg m A \<noteq> C) = (1 - qprod p m (\<lambda>_. True)) - minmax_equal agg p m C" if "int32 C = C"
  proof -
    have "row_prob p (\<lambda>A. A \<noteq> {} \<and> extreme agg m A \<noteq> C) =
        row_prob p (\<lambda>A. (\<exists>i \<in> A. True) \<and> \<not> (A \<noteq> {} \<and> extreme agg m A = C))" by (rule row_prob_cong) auto
    also have "\<dots> = row_prob p (\<lambda>A. \<exists>i \<in> A. True) - row_prob p (\<lambda>A. A \<noteq> {} \<and> extreme agg m A = C)"
      by (rule row_prob_minus) auto
    finally show ?thesis using some_prob[of p "\<lambda>_. True" m] by (simp add: extreme_equal[OF that assms(1)])
  qed
  have reform: "row_prob p (\<lambda>A. A \<noteq> {} \<and> compare (extreme agg m A) op C) = r"
    if "\<And>A. finite A \<Longrightarrow> (A \<noteq> {} \<and> compare (extreme agg m A) op C) = \<psi> A" "row_prob p \<psi> = r" for \<psi> r
    using that row_prob_cong[of p "\<lambda>A. A \<noteq> {} \<and> compare (extreme agg m A) op C" \<psi>] by simp
  show ?thesis unfolding comm
  proof (cases "agg = AggMAX")
    case True
    note E = extreme_def True
    show "minmax_cdf agg op p m C = row_prob p (\<lambda>A. A \<noteq> {} \<and> compare (extreme agg m A) op C)"
    proof (cases op)
      case GE
      show ?thesis by (rule reform[symmetric, where \<psi> = "\<lambda>A. \<exists>i \<in> A. C \<le> m ! i"])
        (simp_all add: E GE max_iff some_prob[where P = "\<lambda>v. C \<le> v"] minmax_cdf_def)
    next
      case GT
      show ?thesis by (rule reform[symmetric, where \<psi> = "\<lambda>A. \<exists>i \<in> A. C < m ! i"])
        (simp_all add: E GT max_iff some_prob[where P = "\<lambda>v. C < v"] minmax_cdf_def)
    next
      case LE
      show ?thesis by (rule reform[symmetric, where \<psi> = "\<lambda>A. (\<forall>i \<in> A. \<not> C < m ! i) \<and> (\<exists>i \<in> A. m ! i \<le> C)"])
        (simp add: E LE max_iff, subst none_some_prob, simp_all add: True LE minmax_cdf_def)
    next
      case LT
      show ?thesis by (rule reform[symmetric, where \<psi> = "\<lambda>A. (\<forall>i \<in> A. \<not> C \<le> m ! i) \<and> (\<exists>i \<in> A. m ! i < C)"])
        (simp add: E LT max_iff, subst none_some_prob, simp_all add: True LT minmax_cdf_def)
    next
      case EQ
      then show ?thesis using extreme_equal[OF _ assms(1)] assms(2) by (simp add: minmax_cdf_def True)
    next
      case NE
      then show ?thesis using ne assms(2) by (simp add: minmax_cdf_def True)
    qed
  next
    case False
    note E = extreme_def False
    show "minmax_cdf agg op p m C = row_prob p (\<lambda>A. A \<noteq> {} \<and> compare (extreme agg m A) op C)"
    proof (cases op)
      case LE
      show ?thesis by (rule reform[symmetric, where \<psi> = "\<lambda>A. \<exists>i \<in> A. m ! i \<le> C"])
        (simp_all add: E LE min_iff some_prob[where P = "\<lambda>v. v \<le> C"] minmax_cdf_def)
    next
      case LT
      show ?thesis by (rule reform[symmetric, where \<psi> = "\<lambda>A. \<exists>i \<in> A. m ! i < C"])
        (simp_all add: E LT min_iff some_prob[where P = "\<lambda>v. v < C"] minmax_cdf_def)
    next
      case GE
      show ?thesis by (rule reform[symmetric, where \<psi> = "\<lambda>A. (\<forall>i \<in> A. \<not> m ! i < C) \<and> (\<exists>i \<in> A. C \<le> m ! i)"])
        (simp add: E GE min_iff, subst none_some_prob, simp_all add: False GE minmax_cdf_def)
    next
      case GT
      show ?thesis by (rule reform[symmetric, where \<psi> = "\<lambda>A. (\<forall>i \<in> A. \<not> m ! i \<le> C) \<and> (\<exists>i \<in> A. C < m ! i)"])
        (simp add: E GT min_iff, subst none_some_prob, simp_all add: False GT minmax_cdf_def)
    next
      case EQ
      then show ?thesis using extreme_equal[OF _ assms(1)] assms(2) by (simp add: minmax_cdf_def False)
    next
      case NE
      then show ?thesis using ne assms(2) by (simp add: minmax_cdf_def False)
    qed
  qed
qed

text \<open>Beyond 32 bits the equality test looks for another value.\<close>

lemma minmax_truncated:
  "minmax_cdf AggMAX EQ [1/2] [2 ^ 32] (2 ^ 32) = 0"
  "row_prob [1/2] (\<lambda>A. compare (extreme AggMAX [2 ^ 32] A) EQ (2 ^ 32) \<and> A \<noteq> {}) = 1/2"
proof -
  have "int32 (2 ^ 32) = 0" by (simp add: int32_def)
  then show "minmax_cdf AggMAX EQ [1/2] [2 ^ 32] (2 ^ 32) = 0" by (simp add: minmax_cdf_def minmax_equal_def qprod_def)
  have "row_prob [1/2] (\<lambda>A. compare (extreme AggMAX [2 ^ 32] A) EQ (2 ^ 32) \<and> A \<noteq> {}) =
      row_prob [1/2 :: real] (\<lambda>A. \<exists>i \<in> A. [2 ^ 32] ! i = (2 ^ 32 :: int))"
    by (rule row_prob_cong) (auto simp: extreme_def subset_singleton_iff lessThan_Suc)
  also have "\<dots> = 1 - qprod [1/2] [2 ^ 32] (\<lambda>v. v = 2 ^ 32)" by (rule some_prob)
  also have "\<dots> = 1/2" by (simp add: qprod_def)
  finally show "row_prob [1/2] (\<lambda>A. compare (extreme AggMAX [2 ^ 32] A) EQ (2 ^ 32) \<and> A \<noteq> {}) = 1/2" .
qed


text \<open>C32: over independent rows the three closed forms are the probability of the worlds in which the aggregate
  compares with the constant: the number of the rows present (with the empty world for a scalar count only),
  the sum of their values, and the greatest or least value, the empty world excluded.  For = and <> the
  constant of the last one must fit 32 bits.\<close>

theorem cmp_closed_forms_correct:
  assumes "length ms = length p" "agg = AggMAX \<or> agg = AggMIN" "op = EQ \<or> op = NE \<longrightarrow> int32 C = C"
  shows "count_cdf p op C is_scalar =
      prob_of (nth p) {..<length p} (\<lambda>A. compare (int (card A)) op C \<and> (A \<noteq> {} \<or> is_scalar)) \<and>
    sum_cdf p ms op C =
      prob_of (nth p) {..<length p} (\<lambda>A. compare (\<Sum>i \<in> A. ms ! i) op C \<and> A \<noteq> {}) \<and>
    minmax_cdf agg op p ms C =
      prob_of (nth p) {..<length p} (\<lambda>A. compare (if agg = AggMAX then Max (nth ms ` A) else Min (nth ms ` A)) op C \<and> A \<noteq> {})"
proof -
  have "prob_of (nth p) {..<length p} (\<lambda>A. compare (int (card A)) op C \<and> (int (card A) \<noteq> 0 \<or> is_scalar)) =
      prob_of (nth p) {..<length p} (\<lambda>A. compare (int (card A)) op C \<and> (A \<noteq> {} \<or> is_scalar))"
    unfolding prob_of_def by (rule expect_cong) (simp add: finite_subset[of _ "{..<length p}"])
  then show ?thesis
    using sum_cdf_correct[OF assms(1)] minmax_cdf_correct[OF assms(2,3)]
    unfolding count_cdf_correct count_prob_def row_sum_def row_prob_def extreme_def by simp
qed

lemma cmp_closed_forms_correct_witness:
  "sum_cdf [1/2, 1/3] [1, 2] GE 2 = 1/3 \<and>
   prob_of (nth [1/2, 1/3]) {..<2} (\<lambda>A. (\<Sum>i \<in> A. [1, 2] ! i) \<ge> (2 :: int) \<and> A \<noteq> {}) = 1/3"
proof -
  have "sum_cdf [1/2, 1/3] [1, 2] GE 2 = 1/3"
    by (simp add: sum_cdf_def sum_bounds_def sum_row_def sum_entry_def upt_rec numeral_eq_Suc compare_def)
  then show ?thesis
    using cmp_closed_forms_correct[of "[1, 2]" "[1/2, 1/3]" AggMAX GE 2 False] by (simp add: numeral_2_eq_2 compare_def)
qed

end
