(* ===== verification/CmpEval.thy ===== *)
theory CmpEval
  imports CmpDist Having Folding
begin

text \<open>
  The evaluators of comparisons of aggregates (\<open>src/CmpEvaluatorCommon.cpp\<close>, \<open>src/CountCmpEvaluator.cpp\<close>,
  \<open>src/SumCmpEvaluator.cpp\<close>, \<open>src/MinMaxCmpEvaluator.cpp\<close>): each comparison gate that matches the shape
  "aggregate of rows against a constant", and whose rows are private to it, becomes an input gate with the
  probability of the comparison.  The three loops of the code are one function of what they accept and of
  their closed form.  Recursion depth is fuel; the sums of \<open>long\<close> values that overflow are undefined.
\<close>

section \<open>The shape of a comparison\<close>

text \<open>The OIDs of PostgreSQL's text types: text, varchar, bpchar, char and name.\<close>

definition aggtype_is_text :: "oid \<Rightarrow> bool" where
  "aggtype_is_text t \<longleftrightarrow> t \<in> {25, 1043, 1042, 18, 19}"

definition semimod_extract_string_and_K :: "generic_circuit \<Rightarrow> gate_t \<Rightarrow> (string \<times> gate_t) option" where
  "semimod_extract_string_and_K c g =
     (if getGateType c g \<noteq> gate_semimod then None
      else (let w = getWires c g
            in if length w \<noteq> 2 then None
               else if getGateType c (w ! 1) \<noteq> gate_value then None
               else Some (getExtra c (w ! 1), w ! 0)))"

definition extract_constant_string :: "generic_circuit \<Rightarrow> gate_t \<Rightarrow> string option" where
  "extract_constant_string c x =
     (if getGateType c x \<noteq> gate_semimod then None
      else (let w = getWires c x
            in if length w \<noteq> 2 then None
               else if getGateType c (w ! 0) \<noteq> gate_one then None
               else if getGateType c (w ! 1) \<noteq> gate_value then None
               else Some (getExtra c (w ! 1))))"

record agg_match =
  am_agg :: gate_t
  am_semimods :: "gate_t list"
  am_ks :: "gate_t list"
  am_ms :: "int list"
  am_kind :: agg_op
  am_op :: cmp_op
  am_C :: int

text \<open>The loop over the children of the aggregate: the K gate, the mantissa and the scale of each.\<close>

primrec agg_rows :: "generic_circuit \<Rightarrow> gate_t list \<Rightarrow> (gate_t \<times> int \<times> nat) list option" where
  "agg_rows c [] = Some []"
| "agg_rows c (ch # chs) =
     (if getGateType c ch \<noteq> gate_semimod then None
      else (case semimod_extract_string_and_K c ch of None \<Rightarrow> None
      | Some (m_str, k) \<Rightarrow> (case parse_decimal_scaled m_str of None \<Rightarrow> None
      | Some (mm, sc) \<Rightarrow> map_option ((#) (k, mm, sc)) (agg_rows c chs))))"

definition agg_side :: "generic_circuit \<Rightarrow> gate_t list \<Rightarrow> cmp_op \<Rightarrow> (gate_t \<times> gate_t \<times> cmp_op) option" where
  "agg_side c cw op =
     (if getGateType c (cw ! 0) = gate_agg then Some (cw ! 0, cw ! 1, op)
      else if getGateType c (cw ! 1) = gate_agg then Some (cw ! 1, cw ! 0, flip_op op)
      else None)"

definition matchAggCmp :: "catalog \<Rightarrow> generic_circuit \<Rightarrow> gate_t \<Rightarrow> exn + agg_match option" where
  "matchAggCmp cat c cmp =
     (let cw = getWires c cmp
      in if length cw \<noteq> 2 then Inr None
      else (case cmpOpFromOid (cat_opname cat) (fst (getInfos c cmp)) of None \<Rightarrow> Inr None
      | Some op0 \<Rightarrow> (case agg_side c cw op0 of None \<Rightarrow> Inr None
      | Some (agg, const, op) \<Rightarrow>
          if aggtype_is_text (snd (getInfos c agg) mod (PROVSQL_AGG_TYPE_MASK + 1)) then Inr None
          else (case extract_constant_string c const of None \<Rightarrow> Inr None
          | Some c_str \<Rightarrow> (case parse_decimal_scaled c_str of None \<Rightarrow> Inr None
          | Some (c_mant, c_scale) \<Rightarrow>
              if getWires c agg = [] then Inr None
              else (case agg_rows c (getWires c agg) of None \<Rightarrow> Inr None
              | Some rows \<Rightarrow> (case getAggregationOperator (cat_func_name cat) (fst (getInfos c agg)) of
                    Inl e \<Rightarrow> Inl (PgError e)
                  | Inr kind \<Rightarrow>
                      (let target = fold (\<lambda>(k, m, s) t. max t s) rows c_scale
                       in case rescale_to c_mant (int c_scale) (int target) of None \<Rightarrow> Inr None
                       | Some C \<Rightarrow>
                           (case sequence_options (map (\<lambda>(k, m, s). rescale_to m (int s) (int target)) rows) of
                              None \<Rightarrow> Inr None
                            | Some ms \<Rightarrow> Inr (Some \<lparr>am_agg = agg, am_semimods = getWires c agg,
                                am_ks = map fst rows, am_ms = ms, am_kind = kind, am_op = op, am_C = C\<rparr>))))))))))"

section \<open>Reference counts and the probability of a row\<close>

definition count_wire :: "gate_t \<Rightarrow> nat list \<Rightarrow> nat list" where
  "count_wire w ref = (if w < length ref then ref[w := ref ! w + 1] else ref)"

definition computeRefCounts :: "generic_circuit \<Rightarrow> nat list" where
  "computeRefCounts c =
     fold (\<lambda>g ref. fold count_wire (getWires c g) ref) [0..<getNbGates c] (replicate (getNbGates c) 0)"

text \<open>The loop over the wires of a times or plus gate; \<open>None\<close> clears \<open>ok\<close>.\<close>

primrec contributor_wires ::
  "(gate_t \<Rightarrow> exn + real option) \<Rightarrow> (real \<Rightarrow> real \<Rightarrow> real) \<Rightarrow> gate_t list \<Rightarrow> real \<Rightarrow> exn + real option" where
  "contributor_wires f h [] acc = Inr (Some acc)"
| "contributor_wires f h (w # ws) acc = (case f w of
      Inl e \<Rightarrow> Inl e
    | Inr None \<Rightarrow> Inr None
    | Inr (Some v) \<Rightarrow> contributor_wires f h ws (h acc v))"

primrec contributorProb :: "nat \<Rightarrow> generic_circuit \<Rightarrow> nat list \<Rightarrow> gate_t \<Rightarrow> exn + real option" where
  "contributorProb 0 c ref g = Inl UndefinedBehaviour"
| "contributorProb (Suc d) c ref g = (case getGateType c g of
      gate_one \<Rightarrow> Inr (Some 1)
    | gate_zero \<Rightarrow> Inr (Some 0)
    | gate_input \<Rightarrow> if ref ! g \<noteq> 1 then Inr None else Inr (Some (getProb c g))
    | gate_times \<Rightarrow> if ref ! g \<noteq> 1 then Inr None
        else contributor_wires (contributorProb d c ref) (\<lambda>pr v. pr * v) (getWires c g) 1
    | gate_plus \<Rightarrow> if ref ! g \<noteq> 1 then Inr None
        else bind_result (contributor_wires (contributorProb d c ref) (\<lambda>q v. q * (1 - v)) (getWires c g) 1)
               (\<lambda>r. Inr (map_option (\<lambda>q. 1 - q) r))
    | gate_monus \<Rightarrow> if ref ! g \<noteq> 1 then Inr None
        else (let w = getWires c g
              in if length w \<noteq> 2 then Inr None
                 else bind_result (contributorProb d c ref (w ! 0)) (\<lambda>ra. case ra of None \<Rightarrow> Inr None
                   | Some pa \<Rightarrow> bind_result (contributorProb d c ref (w ! 1)) (\<lambda>rb. case rb of None \<Rightarrow> Inr None
                   | Some pb \<Rightarrow> Inr (Some (pa * (1 - pb))))))
    | _ \<Rightarrow> Inr None)"

text \<open>The loop over the rows: the independence test of each and its probability.\<close>

primrec contributors ::
  "nat \<Rightarrow> generic_circuit \<Rightarrow> nat list \<Rightarrow> (gate_t \<times> gate_t) list \<Rightarrow> exn + real list option" where
  "contributors d c ref [] = Inr (Some [])"
| "contributors d c ref (sk # sks) =
     (if ref ! fst sk \<noteq> 1 then Inr None
      else (case contributorProb d c ref (snd sk) of
          Inl e \<Rightarrow> Inl e
        | Inr None \<Rightarrow> Inr None
        | Inr (Some p) \<Rightarrow> bind_result (contributors d c ref sks) (\<lambda>r. Inr (map_option ((#) p) r))))"

section \<open>The evaluators\<close>

text \<open>What an evaluator accepts, and its closed form from the scalar flag, the match and the probabilities.\<close>

record cmp_evaluator =
  ce_accept :: "agg_match \<Rightarrow> exn + bool"
  ce_cdf :: "bool \<Rightarrow> agg_match \<Rightarrow> real list \<Rightarrow> exn + real"

definition is_scalar :: "generic_circuit \<Rightarrow> gate_t \<Rightarrow> bool" where
  "is_scalar c agg \<longleftrightarrow> odd (snd (getInfos c agg) div PROVSQL_AGG_SCALAR_FLAG)"

definition clamp_prob :: "real \<Rightarrow> real" where
  "clamp_prob pr = (let pr = (if pr < 0 then 0 else pr) in if pr > 1 then 1 else pr)"

definition evaluate_cmp ::
  "cmp_evaluator \<Rightarrow> nat \<Rightarrow> catalog \<Rightarrow> nat list \<Rightarrow> gate_t \<Rightarrow> nat \<times> generic_circuit \<Rightarrow> exn + nat \<times> generic_circuit" where
  "evaluate_cmp ev d cat ref cmp rc =
     (let (resolved, c) = rc in
      if getGateType c cmp \<noteq> gate_cmp then Inr rc
      else bind_result (matchAggCmp cat c cmp) (\<lambda>mo. case mo of None \<Rightarrow> Inr rc
      | Some m \<Rightarrow> bind_result (ce_accept ev m) (\<lambda>ok.
          if \<not> ok \<or> ref ! am_agg m \<noteq> 1 then Inr rc
          else bind_result (contributors d c ref (zip (am_semimods m) (am_ks m))) (\<lambda>po. case po of None \<Rightarrow> Inr rc
          | Some p \<Rightarrow> bind_result (ce_cdf ev (is_scalar c (am_agg m)) m p) (\<lambda>pr.
              Inr (resolved + 1, resolveCmpToBernoulli c cmp (clamp_prob pr)))))))"

primrec evaluate_cmps ::
  "cmp_evaluator \<Rightarrow> nat \<Rightarrow> catalog \<Rightarrow> nat list \<Rightarrow> gate_t list \<Rightarrow> nat \<times> generic_circuit \<Rightarrow> exn + nat \<times> generic_circuit" where
  "evaluate_cmps ev d cat ref [] rc = Inr rc"
| "evaluate_cmps ev d cat ref (cmp # cmps) rc =
     bind_result (evaluate_cmp ev d cat ref cmp rc) (evaluate_cmps ev d cat ref cmps)"

definition run_evaluator :: "cmp_evaluator \<Rightarrow> nat \<Rightarrow> catalog \<Rightarrow> generic_circuit \<Rightarrow> exn + nat \<times> generic_circuit" where
  "run_evaluator ev d cat c =
     (let cmps = filter (\<lambda>g. getGateType c g = gate_cmp) [0..<getNbGates c]
      in if cmps = [] then Inr (0, c) else evaluate_cmps ev d cat (computeRefCounts c) cmps (0, c))"

text \<open>Counts of rows of weight one, against a constant cut to 32 bits; C + 1 and C - 1 may overflow.\<close>

definition count_evaluator :: cmp_evaluator where
  "count_evaluator =
     \<lparr>ce_accept = (\<lambda>m. Inr (am_kind m = AggCOUNT \<and> list_all (\<lambda>v. v = 1) (am_ms m))),
      ce_cdf = (\<lambda>scalar m p. let C = int32 (am_C m) in
        if am_op m = GT \<and> C = 2 ^ 31 - 1 \<or> am_op m = LT \<and> C = - (2 ^ 31) then Inl UndefinedBehaviour
        else Inr (count_cdf p (am_op m) C scalar))\<rparr>"

text \<open>The span of the reachable sums must fit a \<open>long\<close> and the cap.\<close>

definition sum_evaluator :: cmp_evaluator where
  "sum_evaluator =
     \<lparr>ce_accept = (\<lambda>m. if am_kind m \<noteq> AggSUM then Inr False
        else (let (lo, hi) = sum_bounds (am_ms m); range = hi - lo + 1
              in if lo < LONG_MIN \<or> hi > LONG_MAX \<or> range > LONG_MAX then Inl UndefinedBehaviour
                 else Inr (\<not> (range \<le> 0 \<or> range > kMaxSumRange)))),
      ce_cdf = (\<lambda>scalar m p. Inr (sum_cdf p (am_ms m) (am_op m) (am_C m)))\<rparr>"

definition minmax_evaluator :: cmp_evaluator where
  "minmax_evaluator =
     \<lparr>ce_accept = (\<lambda>m. Inr (am_kind m = AggMIN \<or> am_kind m = AggMAX)),
      ce_cdf = (\<lambda>scalar m p. Inr (minmax_cdf (am_kind m) (am_op m) p (am_ms m) (am_C m)))\<rparr>"

definition runCountCmpEvaluator :: "nat \<Rightarrow> catalog \<Rightarrow> generic_circuit \<Rightarrow> exn + nat \<times> generic_circuit" where
  "runCountCmpEvaluator = run_evaluator count_evaluator"

definition runSumCmpEvaluator :: "nat \<Rightarrow> catalog \<Rightarrow> generic_circuit \<Rightarrow> exn + nat \<times> generic_circuit" where
  "runSumCmpEvaluator = run_evaluator sum_evaluator"

definition runMinMaxCmpEvaluator :: "nat \<Rightarrow> catalog \<Rightarrow> generic_circuit \<Rightarrow> exn + nat \<times> generic_circuit" where
  "runMinMaxCmpEvaluator = run_evaluator minmax_evaluator"

end
