(* ===== verification/CmpSound.thy ===== *)
theory CmpSound
  imports CmpEval
begin

text \<open>
  Soundness of the comparison evaluators: resolving a comparison keeps the probability of every root of the
  circuit.  The specification \<open>sem\<close> gives each gate a value in a world (the set of the input gates that are
  present); a comparison over rows compares the aggregate of the rows present, and gates of other types are
  arbitrary functions of the values of their wires.
\<close>

section \<open>Independent rows\<close>

lemma depends_on_comp: "depends_on h W \<Longrightarrow> depends_on (\<lambda>A. F (h A)) W"
  unfolding depends_on_def by metis

lemma depends_on_insert: "depends_on f U \<Longrightarrow> depends_on (\<lambda>A. f (insert x A)) U"
  unfolding depends_on_def by (metis Int_insert_left)

lemma depends_on_rows:
  assumes "\<And>i. i < n \<Longrightarrow> depends_on (E i) (W i)"
  shows "depends_on (\<lambda>A. F {i. i < n \<and> E i A}) (\<Union>i<n. W i)"
  unfolding depends_on_def
proof (intro allI impI)
  fix A B assume AB: "A \<inter> (\<Union>i<n. W i) = B \<inter> (\<Union>i<n. W i)"
  have "E i A = E i B" if "i < n" for i by (rule depends_onD[OF assms[OF that]]) (use AB that in auto)
  then show "F {i. i < n \<and> E i A} = F {i. i < n \<and> E i B}" by metis
qed

lemma expect_rows:
  assumes "finite V" "\<And>i. i < n \<Longrightarrow> depends_on (E i) (W i)" "\<And>i j. i < j \<Longrightarrow> j < n \<Longrightarrow> W i \<inter> W j = {}"
    and "\<And>i. i < n \<Longrightarrow> prob_of q V (E i) = pr i"
  shows "expect q V (\<lambda>A. F {i. i < n \<and> E i A}) = expect pr {..<n} F"
  using assms(2-)
proof (induction n arbitrary: F)
  case 0
  then show ?case by (simp add: assms(1))
next
  case (Suc n)
  let ?R = "\<lambda>A. {i. i < n \<and> E i A}"
  have R: "{i. i < Suc n \<and> E i A} = (if E n A then insert n (?R A) else ?R A)" for A
    by (cases "E n A") (auto simp: less_Suc_eq)
  have "depends_on (E n) (W n)" by (rule Suc.prems(1)) simp
  then have dn: "depends_on (\<lambda>A. of_bool (E n A) :: real) (W n)" "depends_on (\<lambda>A. 1 - of_bool (E n A) :: real) (W n)"
    by (rule depends_on_comp)+
  have dis: "W n \<inter> (\<Union>i<n. W i) = {}" using Suc.prems(2)[of _ n] by blast
  have dr: "depends_on (\<lambda>A. G (?R A)) (\<Union>i<n. W i)" for G :: "nat set \<Rightarrow> real"
    by (rule depends_on_rows) (use Suc.prems(1) in auto)
  have IH: "expect q V (\<lambda>A. G (?R A)) = expect pr {..<n} G" for G by (rule Suc.IH) (use Suc.prems in auto)
  have en: "expect q V (\<lambda>A. of_bool (E n A)) = pr n" using Suc.prems(3)[of n] by (simp add: prob_of_def)
  then have en': "expect q V (\<lambda>A. 1 - of_bool (E n A)) = 1 - pr n" by (simp add: expect_diff assms(1))
  have "expect q V (\<lambda>A. F {i. i < Suc n \<and> E i A}) =
      expect q V (\<lambda>A. of_bool (E n A) * F (insert n (?R A)) + (1 - of_bool (E n A)) * F (?R A))"
    unfolding R by (rule expect_cong) simp
  also have "\<dots> = expect q V (\<lambda>A. of_bool (E n A)) * expect q V (\<lambda>A. F (insert n (?R A))) +
      expect q V (\<lambda>A. 1 - of_bool (E n A)) * expect q V (\<lambda>A. F (?R A))"
    unfolding expect_add
    using expect_indep[OF assms(1) dn(1) dr[of "\<lambda>S. F (insert n S)"] dis] expect_indep[OF assms(1) dn(2) dr[of F] dis] by simp
  also have "\<dots> = pr n * expect pr {..<n} (\<lambda>S. F (insert n S)) + (1 - pr n) * expect pr {..<n} F"
    using IH[of "\<lambda>S. F (insert n S)"] IH[of F] by (simp add: en en')
  finally show ?case by (simp add: lessThan_Suc expect_insert)
qed

text \<open>A new variable that takes the place of an event on variables the rest does not depend on.\<close>

lemma expect_choice:
  assumes "finite V" "x \<notin> V" "depends_on h W" "depends_on f U" "W \<inter> U = {}"
  shows "expect q V (\<lambda>A. f (if h A then insert x A else A)) = expect (q(x := prob_of q V h)) (insert x V) f"
proof -
  have dh: "depends_on (\<lambda>A. of_bool (h A) :: real) W" "depends_on (\<lambda>A. 1 - of_bool (h A) :: real) W"
    using assms(3) by (rule depends_on_comp)+
  have df: "depends_on (\<lambda>A. f (insert x A)) U" using assms(4) by (rule depends_on_insert)
  have P: "expect (q(x := r)) V g = expect q V g" for r g by (rule expect_prob_cong) (use assms(2) in auto)
  have "expect q V (\<lambda>A. f (if h A then insert x A else A)) =
      expect q V (\<lambda>A. of_bool (h A) * f (insert x A) + (1 - of_bool (h A)) * f A)" by (rule expect_cong) simp
  also have "\<dots> = prob_of q V h * expect q V (\<lambda>A. f (insert x A)) + (1 - prob_of q V h) * expect q V f"
    unfolding expect_add
    using expect_indep[OF assms(1) dh(1) df assms(5)] expect_indep[OF assms(1) dh(2) assms(4,5)]
    by (simp add: prob_of_def expect_diff assms(1))
  finally show ?thesis by (simp add: expect_insert[OF assms(1,2)] P)
qed

lemma prob_all:
  assumes "finite V" "list_all2 (\<lambda>w v. depends_on (E w) (W w) \<and> prob_of q V (E w) = v) ws vs"
    and "sorted_wrt (\<lambda>w w'. W w \<inter> W w' = {}) ws"
  shows "prob_of q V (\<lambda>A. \<forall>w \<in> set ws. E w A) = foldl (*) 1 vs"
proof -
  have "prob_of q V (\<lambda>A. \<forall>w \<in> set ws. E w A) * a = foldl (*) a vs" for a
    using assms(2,3)
  proof (induction ws vs arbitrary: a rule: list_all2_induct)
    case (Cons w ws v vs)
    have d: "depends_on (\<lambda>A. of_bool (E w A) :: real) (W w)"
      by (rule depends_on_comp) (use Cons.hyps(1) in blast)
    have "depends_on (\<lambda>A. of_bool (\<forall>w \<in> set ws. E w A) :: real) (\<Union>w \<in> set ws. W w)"
      unfolding depends_on_def
    proof (intro allI impI)
      fix A B assume AB: "A \<inter> (\<Union>w \<in> set ws. W w) = B \<inter> (\<Union>w \<in> set ws. W w)"
      have "E w A = E w B" if "w \<in> set ws" for w
      proof -
        have "depends_on (E w) (W w)" using Cons.hyps(2) that by (auto simp: list_all2_conv_all_nth in_set_conv_nth)
        then show ?thesis by (rule depends_onD) (use AB that in auto)
      qed
      then show "of_bool (\<forall>w \<in> set ws. E w A) = (of_bool (\<forall>w \<in> set ws. E w B) :: real)" by simp
    qed
    moreover have "W w \<inter> (\<Union>w \<in> set ws. W w) = {}" using Cons.prems by auto
    ultimately have "prob_of q V (\<lambda>A. \<forall>w \<in> set (w # ws). E w A) = v * prob_of q V (\<lambda>A. \<forall>w \<in> set ws. E w A)"
      using expect_indep[OF assms(1) d] Cons.hyps(1) by (simp add: prob_of_def of_bool_conj)
    then show ?case using Cons.IH[of "a * v"] Cons.prems by (simp add: mult_ac)
  qed (simp add: prob_of_def assms(1))
  from this[of 1] show ?thesis by simp
qed


section \<open>The value of a gate in a world\<close>

datatype 'v gate_value = Truth bool | Val 'v

primrec truth :: "'v gate_value \<Rightarrow> bool" where
  "truth (Truth b) = b"
| "truth (Val v) = False"

text \<open>Does the aggregate of the rows in R compare?  Without rows only a scalar count has a value.\<close>

definition agg_compares :: "bool \<Rightarrow> agg_match \<Rightarrow> nat set \<Rightarrow> bool" where
  "agg_compares scalar m R = (case am_kind m of
     AggCOUNT \<Rightarrow> compare (\<Sum>i \<in> R. am_ms m ! i) (am_op m) (am_C m) \<and> (R \<noteq> {} \<or> scalar)
   | AggSUM \<Rightarrow> compare (\<Sum>i \<in> R. am_ms m ! i) (am_op m) (am_C m) \<and> R \<noteq> {}
   | AggMAX \<Rightarrow> compare (Max (nth (am_ms m) ` R)) (am_op m) (am_C m) \<and> R \<noteq> {}
   | AggMIN \<Rightarrow> compare (Min (nth (am_ms m) ` R)) (am_op m) (am_C m) \<and> R \<noteq> {}
   | _ \<Rightarrow> False)"

definition comparison :: "catalog \<Rightarrow> generic_circuit \<Rightarrow> gate_t \<Rightarrow> agg_match option" where
  "comparison cat c g = (case matchAggCmp cat c g of
     Inr (Some m) \<Rightarrow> if am_kind m \<in> {AggCOUNT, AggSUM, AggMIN, AggMAX} then Some m else None
   | _ \<Rightarrow> None)"

primrec sem :: "nat \<Rightarrow> (gate_t \<Rightarrow> 'v gate_value list \<Rightarrow> 'v gate_value) \<Rightarrow> catalog \<Rightarrow> generic_circuit \<Rightarrow> nat set \<Rightarrow>
    gate_t \<Rightarrow> 'v gate_value" where
  "sem 0 oth cat c A g = Truth False"
| "sem (Suc d) oth cat c A g =
     (let ws = getWires c g; vs = map (sem d oth cat c A) ws in
      case getGateType c g of
        gate_one \<Rightarrow> Truth True
      | gate_zero \<Rightarrow> Truth False
      | gate_input \<Rightarrow> Truth (g \<in> A)
      | gate_times \<Rightarrow> Truth (\<forall>v \<in> set vs. truth v)
      | gate_plus \<Rightarrow> Truth (\<exists>v \<in> set vs. truth v)
      | gate_monus \<Rightarrow> if length ws = 2 then Truth (truth (vs ! 0) \<and> \<not> truth (vs ! 1)) else oth g vs
      | gate_cmp \<Rightarrow> (case comparison cat c g of
            None \<Rightarrow> oth g vs
          | Some m \<Rightarrow> Truth (agg_compares (is_scalar c (am_agg m)) m
              {i. i < length (am_ks m) \<and> truth (sem d oth cat c A (am_ks m ! i))}))
      | _ \<Rightarrow> oth g vs)"

section \<open>The rows of a match\<close>

lemma semimod_extract_iff:
  "semimod_extract_string_and_K c g = Some (s, k) \<longleftrightarrow>
     getGateType c g = gate_semimod \<and> length (getWires c g) = 2 \<and> getGateType c (getWires c g ! 1) = gate_value \<and>
     s = getExtra c (getWires c g ! 1) \<and> k = getWires c g ! 0"
  by (auto simp: semimod_extract_string_and_K_def Let_def)

lemma agg_rows_Some:
  "agg_rows c chs = Some rows \<Longrightarrow> length rows = length chs \<and>
     (\<forall>i < length chs. getGateType c (chs ! i) = gate_semimod \<and> length (getWires c (chs ! i)) = 2 \<and>
        getWires c (chs ! i) ! 0 = fst (rows ! i))"
proof (induction chs arbitrary: rows)
  case (Cons ch chs)
  from Cons.prems obtain s k mm sc rest where
    h: "semimod_extract_string_and_K c ch = Some (s, k)" "agg_rows c chs = Some rest" "rows = (k, mm, sc) # rest"
    by (auto split: option.splits if_splits)
  then show ?case using Cons.IH[OF h(2)] by (auto simp: semimod_extract_iff nth_Cons split: nat.splits)
qed simp

lemma sequence_options_length: "sequence_options xs = Some ys \<Longrightarrow> length ys = length xs"
  by (induction xs arbitrary: ys rule: sequence_options.induct) auto

definition match_ok :: "generic_circuit \<Rightarrow> gate_t \<Rightarrow> agg_match \<Rightarrow> bool" where
  "match_ok c g m \<longleftrightarrow> am_agg m \<in> set (getWires c g) \<and> getGateType c (am_agg m) = gate_agg \<and>
     am_semimods m = getWires c (am_agg m) \<and>
     length (am_ks m) = length (am_semimods m) \<and> length (am_ms m) = length (am_semimods m) \<and>
     (\<forall>i < length (am_semimods m). getGateType c (am_semimods m ! i) = gate_semimod \<and>
        length (getWires c (am_semimods m ! i)) = 2 \<and> getWires c (am_semimods m ! i) ! 0 = am_ks m ! i)"

lemma agg_side_Some:
  "agg_side c cw op = Some (agg, const, op') \<Longrightarrow> length cw = 2 \<Longrightarrow>
     agg \<in> set cw \<and> const \<in> set cw \<and> getGateType c agg = gate_agg"
  by (auto simp: agg_side_def split: if_splits)

lemma match_structure:
  assumes "matchAggCmp cat c g = Inr (Some m)"
  shows "match_ok c g m"
proof -
  from assms obtain op0 agg const op c_str c_mant c_scale rows kind C ms where
    h: "length (getWires c g) = 2" "agg_side c (getWires c g) op0 = Some (agg, const, op)"
      "agg_rows c (getWires c agg) = Some rows"
      "sequence_options (map (\<lambda>(k, m, s). rescale_to m (int s) (int (fold (\<lambda>(k, m, s) t. max t s) rows c_scale))) rows) = Some ms"
      "m = \<lparr>am_agg = agg, am_semimods = getWires c agg, am_ks = map fst rows, am_ms = ms, am_kind = kind, am_op = op, am_C = C\<rparr>"
    unfolding matchAggCmp_def Let_def by (auto split: if_splits option.splits sum.splits)
  show ?thesis
    using agg_side_Some[OF h(2,1)] agg_rows_Some[OF h(3)] sequence_options_length[OF h(4)] by (simp add: match_ok_def h(5))
qed


section \<open>Reference counts\<close>

definition occurrences :: "generic_circuit \<Rightarrow> gate_t \<Rightarrow> nat" where
  "occurrences c x = (\<Sum>g < length (gates c). count_list (wires c ! g) x)"

lemma count_wires_fold:
  "length (fold count_wire ws ref) = length ref \<and>
   (x < length ref \<longrightarrow> fold count_wire ws ref ! x = ref ! x + count_list ws x)"
  by (induction ws arbitrary: ref) (auto simp: count_wire_def nth_list_update)

lemma computeRefCounts_correct:
  assumes "x < length (gates c)"
  shows "computeRefCounts c ! x = occurrences c x"
proof -
  let ?r0 = "replicate (length (gates c)) 0"
  have "length (fold (\<lambda>g ref. fold count_wire (getWires c g) ref) [0..<n] ?r0) = length (gates c) \<and>
      fold (\<lambda>g ref. fold count_wire (getWires c g) ref) [0..<n] ?r0 ! x = (\<Sum>g < n. count_list (wires c ! g) x)" for n
    using assms by (induction n) (simp_all add: count_wires_fold getWires_def)
  then show ?thesis by (simp add: computeRefCounts_def getNbGates_def occurrences_def)
qed

lemma occurrences_split:
  assumes "g < length (gates c)"
  shows "occurrences c x = count_list (wires c ! g) x + (\<Sum>h \<in> {..<length (gates c)} - {g}. count_list (wires c ! h) x)"
  unfolding occurrences_def using assms by (subst sum.remove[of _ g]) auto

lemma one_parent:
  assumes "occurrences c x \<le> 1" "x \<in> set (getWires c g)" "x \<in> set (getWires c h)"
    and "g < length (gates c)" "h < length (gates c)"
  shows "g = h"
proof (rule ccontr)
  assume ne: "g \<noteq> h"
  have "count_list (wires c ! h) x \<le> (\<Sum>h \<in> {..<length (gates c)} - {g}. count_list (wires c ! h) x)"
    by (rule member_le_sum) (use assms(5) ne in auto)
  moreover have "count_list (wires c ! g) x \<noteq> 0" "count_list (wires c ! h) x \<noteq> 0"
    using assms(2,3) by (simp_all add: count_list_0_iff getWires_def)
  ultimately show False using assms(1) occurrences_split[OF assms(4), of x] by linarith
qed

lemma count_list_two: "i < j \<Longrightarrow> j < length xs \<Longrightarrow> xs ! i = x \<Longrightarrow> xs ! j = x \<Longrightarrow> 2 \<le> count_list xs x"
proof (induction xs arbitrary: i j)
  case (Cons y ys)
  obtain j' where j: "j = Suc j'" using Cons.prems(1) by (cases j) auto
  show ?case
  proof (cases i)
    case 0
    have "x \<in> set ys" using Cons.prems j nth_mem[of j' ys] by auto
    then have "count_list ys x \<noteq> 0" by (simp add: count_list_0_iff)
    then show ?thesis using Cons.prems 0 by simp
  next
    case (Suc i')
    then show ?thesis using Cons.IH[of i' j'] Cons.prems j by auto
  qed
qed simp

lemma one_position:
  assumes "occurrences c x \<le> 1" "g < length (gates c)" "i < length (getWires c g)" "j < length (getWires c g)"
    and "getWires c g ! i = x" "getWires c g ! j = x"
  shows "i = j"
proof -
  have "count_list (wires c ! g) x \<le> 1" using assms(1) occurrences_split[OF assms(2), of x] by simp
  then show ?thesis
    using count_list_two[of i j "wires c ! g" x] count_list_two[of j i "wires c ! g" x] assms(3-6)
    by (cases i j rule: linorder_cases) (simp_all add: getWires_def)
qed

section \<open>The gates a row is made of\<close>

definition inner_gate :: "generic_circuit \<Rightarrow> gate_t \<Rightarrow> bool" where
  "inner_gate c g \<longleftrightarrow> getGateType c g \<in> {gate_times, gate_plus} \<or>
     getGateType c g = gate_monus \<and> length (getWires c g) = 2"

definition constant_gate :: "generic_circuit \<Rightarrow> gate_t \<Rightarrow> bool" where
  "constant_gate c g \<longleftrightarrow> getGateType c g \<in> {gate_one, gate_zero}"

inductive in_row :: "generic_circuit \<Rightarrow> gate_t \<Rightarrow> gate_t \<Rightarrow> bool" for c k where
  row_root: "in_row c k k"
| row_wire: "in_row c k g \<Longrightarrow> inner_gate c g \<Longrightarrow> w \<in> set (getWires c g) \<Longrightarrow> in_row c k w"

lemma in_row_trans: "in_row c k g \<Longrightarrow> in_row c g x \<Longrightarrow> in_row c k x"
  by (rotate_tac, induction rule: in_row.induct) (auto intro: in_row.intros)

lemma in_row_rank:
  assumes "ranked rk c" "in_row c k x" "k < length (gates c)"
  shows "x < length (gates c) \<and> (x = k \<or> rk x < rk k)"
  using assms(2)
proof (induction rule: in_row.induct)
  case (row_wire g w)
  then show ?case using assms(1) by (fastforce simp: ranked_def getWires_def)
qed (simp add: assms(3))

lemma in_row_leaf: "in_row c k x \<Longrightarrow> \<not> inner_gate c k \<Longrightarrow> x = k"
  by (induction rule: in_row.induct) auto

lemma constant_not_inner: "constant_gate c g \<Longrightarrow> \<not> inner_gate c g"
  by (auto simp: constant_gate_def inner_gate_def)

definition row_inputs :: "generic_circuit \<Rightarrow> gate_t \<Rightarrow> nat set" where
  "row_inputs c k = {x. in_row c k x \<and> getGateType c x = gate_input}"

lemma row_inputs_wire: "inner_gate c k \<Longrightarrow> w \<in> set (getWires c k) \<Longrightarrow> row_inputs c w \<subseteq> row_inputs c k"
  using in_row_trans[OF row_wire[OF row_root]] by (auto simp: row_inputs_def)

text \<open>Two gates below whose parents do not meet have no random gate in common.\<close>

definition row_private :: "generic_circuit \<Rightarrow> gate_t \<Rightarrow> bool" where
  "row_private c k \<longleftrightarrow> (\<forall>x. in_row c k x \<longrightarrow> \<not> constant_gate c x \<longrightarrow> occurrences c x \<le> 1)"

lemma row_private_wire: "row_private c k \<Longrightarrow> inner_gate c k \<Longrightarrow> w \<in> set (getWires c k) \<Longrightarrow> row_private c w"
  using in_row_trans[OF row_wire[OF row_root]] by (auto simp: row_private_def)

lemma rows_comparable:
  assumes "ranked rk c" "in_row c a x" "in_row c b x" "\<not> constant_gate c x" "row_private c a"
    and "a < length (gates c)" "b < length (gates c)"
  shows "in_row c a b \<or> in_row c b a"
  using assms(2-4)
proof (induction rule: in_row.induct)
  case (row_wire g x)
  from row_wire.prems(1) show ?case
  proof (cases rule: in_row.cases)
    case row_root
    then show ?thesis using in_row.row_wire[OF row_wire.hyps] by simp
  next
    case (row_wire h)
    have "occurrences c x \<le> 1"
      using assms(5) in_row.row_wire[OF row_wire.hyps] row_wire.prems(2) by (simp add: row_private_def)
    moreover have "g < length (gates c)" "h < length (gates c)"
      using in_row_rank[OF assms(1) row_wire.hyps(1) assms(6)] in_row_rank[OF assms(1) \<open>in_row c b h\<close> assms(7)] by auto
    ultimately have "g = h" using one_parent[of c x g h] \<open>x \<in> set (getWires c h)\<close> row_wire.hyps(3) by blast
    then show ?thesis using row_wire.IH \<open>in_row c b h\<close> \<open>inner_gate c g\<close> constant_not_inner by blast
  qed
qed (use assms in blast)

lemma rows_disjoint:
  assumes r: "ranked rk c" and n: "pa < length (gates c)" "pb < length (gates c)"
    and w: "a \<in> set (getWires c pa)" "b \<in> set (getWires c pb)"
    and np: "\<not> (inner_gate c pa \<and> in_row c b pa)" "\<not> (inner_gate c pb \<and> in_row c a pb)"
    and ab: "\<not> constant_gate c a \<Longrightarrow> a \<noteq> b" and pr: "row_private c a" "row_private c b"
    and x: "in_row c a x" "in_row c b x"
  shows "constant_gate c x"
proof (rule ccontr)
  assume nc: "\<not> constant_gate c x"
  have ra: "a < length (gates c)" "b < length (gates c)" using r w n by (auto simp: ranked_def getWires_def)
  have no: "constant_gate c v" if "in_row c u v" "row_private c u" "v \<in> set (getWires c p)" "p < length (gates c)"
    "\<not> (inner_gate c p \<and> in_row c u p)" "u \<noteq> v" "u < length (gates c)" for u v p
  proof (rule ccontr)
    note t = that
    assume nc: "\<not> constant_gate c v"
    from t(1) obtain q where q: "in_row c u q" "inner_gate c q" "v \<in> set (getWires c q)"
      using t(6) by (cases rule: in_row.cases) auto
    have "occurrences c v \<le> 1" using that(1,2) nc by (simp add: row_private_def)
    then have "q = p" using one_parent[of c v q p] q(3) that(3,4) in_row_rank[OF r q(1) that(7)] by blast
    then show False using q(1,2) that(5) by blast
  qed
  have na: "\<not> constant_gate c a" "\<not> constant_gate c b"
    using nc in_row_leaf[OF x(1)] in_row_leaf[OF x(2)] constant_not_inner by metis+
  have "in_row c a b \<or> in_row c b a" by (rule rows_comparable[OF r x(1,2) nc pr(1) ra])
  then show False
    using no[of a b pb] no[of b a pa] pr w n np ab[OF na(1)] na ra by blast
qed


section \<open>The probability of a row\<close>

definition refs_bound :: "generic_circuit \<Rightarrow> nat list \<Rightarrow> bool" where
  "refs_bound c ref \<longleftrightarrow> (\<forall>x < length (gates c). occurrences c x \<le> ref ! x)"

lemma contributor_wires_Some:
  "contributor_wires f h ws acc = Inr (Some r) \<longleftrightarrow>
     (\<exists>vs. list_all2 (\<lambda>w v. f w = Inr (Some v)) ws vs \<and> r = foldl h acc vs)"
proof (induction ws arbitrary: acc)
  case (Cons w ws)
  then show ?case by (auto simp: list_all2_Cons1 split: sum.splits option.splits) (metis foldl_Cons)?
qed auto

lemma contributorProb_wire:
  assumes "contributorProb d c ref g = Inr (Some p)" "inner_gate c g" "w \<in> set (getWires c g)"
  shows "\<exists>d' p'. contributorProb d' c ref w = Inr (Some p')"
proof -
  obtain d' where d: "d = Suc d'" using assms(1) by (cases d) auto
  have all: "\<exists>d' p'. contributorProb d' c ref w = Inr (Some p')"
    if "list_all2 (\<lambda>w v. contributorProb d' c ref w = Inr (Some v)) (getWires c g) vs" for vs
  proof -
    note a2 = that
    obtain i where "i < length (getWires c g)" "w = getWires c g ! i" using assms(3) by (auto simp: in_set_conv_nth)
    then show ?thesis using list_all2_nthD[OF a2] by blast
  qed
  consider (mul) "getGateType c g = gate_times" | (add) "getGateType c g = gate_plus"
    | (sub) "getGateType c g = gate_monus" "length (getWires c g) = 2"
    using assms(2) by (auto simp: inner_gate_def)
  then show ?thesis
  proof cases
    case mul
    then obtain vs where "list_all2 (\<lambda>w v. contributorProb d' c ref w = Inr (Some v)) (getWires c g) vs"
      using assms(1) by (auto simp: d contributor_wires_Some split: if_splits)
    then show ?thesis by (rule all)
  next
    case add
    then obtain vs where "list_all2 (\<lambda>w v. contributorProb d' c ref w = Inr (Some v)) (getWires c g) vs"
      using assms(1) by (auto simp: d contributor_wires_Some bind_result_Inr_iff split: if_splits)
    then show ?thesis by (rule all)
  next
    case sub
    then have "w = getWires c g ! 0 \<or> w = getWires c g ! 1"
      using assms(3) by (auto simp: in_set_conv_nth numeral_2_eq_2 less_Suc_eq)
    then show ?thesis
      using assms(1) sub by (auto simp: d Let_def bind_result_Inr_iff split: if_splits option.splits)
  qed
qed

lemma contributorProb_private:
  assumes r: "ranked rk c" and rf: "refs_bound c ref" and k: "k < length (gates c)"
    and p: "contributorProb d c ref k = Inr (Some p)"
  shows "row_private c k"
    and "in_row c k x \<Longrightarrow> getGateType c x \<in> {gate_one, gate_zero, gate_input} \<or> inner_gate c x"
proof -
  have ok: "\<exists>d p. contributorProb d c ref x = Inr (Some p)" if "in_row c k x" for x
    using that by (induction rule: in_row.induct) (use p contributorProb_wire in blast)+
  have types: "getGateType c x \<in> {gate_one, gate_zero} \<or> ref ! x = 1 \<and> (getGateType c x = gate_input \<or> inner_gate c x)"
    if "in_row c k x" for x
  proof -
    note row = that
    obtain d p where "contributorProb d c ref x = Inr (Some p)" using ok[OF row] by blast
    then show ?thesis
      by (cases d) (auto simp: inner_gate_def Let_def split: gate_type.splits if_splits)
  qed
  show "row_private c k"
    using types rf in_row_rank[OF r _ k] unfolding row_private_def refs_bound_def constant_gate_def by fastforce
  show "in_row c k x \<Longrightarrow> getGateType c x \<in> {gate_one, gate_zero, gate_input} \<or> inner_gate c x" using types by blast
qed

text \<open>The wires of an inner gate of a private row have disjoint inputs.\<close>

lemma wires_disjoint:
  assumes r: "ranked rk c" and g: "inner_gate c g" "g < length (gates c)" and pr: "row_private c g"
    and ij: "i < j" "j < length (getWires c g)"
  shows "row_inputs c (getWires c g ! i) \<inter> row_inputs c (getWires c g ! j) = {}"
proof -
  let ?a = "getWires c g ! i" and ?b = "getWires c g ! j"
  have w: "?a \<in> set (getWires c g)" "?b \<in> set (getWires c g)" using ij by auto
  then have rk: "rk ?a < rk g" "rk ?b < rk g" "?a < length (gates c)" "?b < length (gates c)"
    using r g(2) by (auto simp: ranked_def getWires_def)
  have np: "\<not> in_row c ?a g" "\<not> in_row c ?b g"
    using in_row_rank[OF r _ rk(3), of g] in_row_rank[OF r _ rk(4), of g] rk(1,2) by auto
  have ne: "?a \<noteq> ?b" if "\<not> constant_gate c ?a"
  proof
    assume eq: "?a = ?b"
    have "occurrences c ?a \<le> 1" using pr row_wire[OF row_root g(1) w(1)] that by (simp add: row_private_def)
    then have "i = j" using one_position[OF _ g(2)] ij eq by (metis less_trans)
    then show False using ij by simp
  qed
  have "constant_gate c x" if "in_row c ?a x" "in_row c ?b x" for x
    by (rule rows_disjoint[OF r g(2) g(2) w _ _ ne row_private_wire[OF pr g(1) w(1)] row_private_wire[OF pr g(1) w(2)] that])
      (use np in auto)
  then show ?thesis by (fastforce simp: row_inputs_def constant_gate_def)
qed

lemma wires_disjoint_sorted:
  assumes "ranked rk c" "inner_gate c g" "g < length (gates c)" "row_private c g"
  shows "sorted_wrt (\<lambda>w w'. row_inputs c w \<inter> row_inputs c w' = {}) (getWires c g)"
  unfolding sorted_wrt_iff_nth_less using wires_disjoint[OF assms] by blast


text \<open>The truth of a row depends on its own inputs, and the recursion computes its probability.\<close>

lemma wires_depend:
  assumes "\<And>w. w \<in> set ws \<Longrightarrow> depends_on (E w) U"
  shows "depends_on (\<lambda>A. F (map (\<lambda>w. E w A) ws)) U"
  unfolding depends_on_def
proof (intro allI impI)
  fix A B assume AB: "A \<inter> U = B \<inter> U"
  have "map (\<lambda>w. E w A) ws = map (\<lambda>w. E w B) ws" using depends_onD[OF assms AB] by simp
  then show "F (map (\<lambda>w. E w A) ws) = F (map (\<lambda>w. E w B) ws)" by (rule arg_cong)
qed

definition row_prob_ok :: "nat \<Rightarrow> (gate_t \<Rightarrow> 'v gate_value list \<Rightarrow> 'v gate_value) \<Rightarrow> catalog \<Rightarrow> generic_circuit \<Rightarrow> nat set \<Rightarrow>
    gate_t \<Rightarrow> real \<Rightarrow> bool" where
  "row_prob_ok D oth cat c V k p \<longleftrightarrow>
     depends_on (\<lambda>A. truth (sem D oth cat c A k)) (row_inputs c k) \<and>
     prob_of (getProb c) V (\<lambda>A. truth (sem D oth cat c A k)) = p"

lemma foldl_one_minus: "foldl (\<lambda>q v. q * (1 - v)) (a :: real) vs = foldl (*) a (map (\<lambda>v. 1 - v) vs)"
  by (induction vs arbitrary: a) simp_all

lemma wires_prob:
  assumes fin: "finite V" and sorted: "sorted_wrt (\<lambda>w w'. row_inputs c w \<inter> row_inputs c w' = {}) ws"
    and ok: "list_all2 (row_prob_ok D oth cat c V) ws vs"
  shows "prob_of (getProb c) V (\<lambda>A. \<forall>w \<in> set ws. truth (sem D oth cat c A w)) = foldl (*) 1 vs"
    and "prob_of (getProb c) V (\<lambda>A. \<exists>w \<in> set ws. truth (sem D oth cat c A w)) = 1 - foldl (\<lambda>q v. q * (1 - v)) 1 vs"
proof -
  show "prob_of (getProb c) V (\<lambda>A. \<forall>w \<in> set ws. truth (sem D oth cat c A w)) = foldl (*) 1 vs"
    by (rule prob_all[OF fin _ sorted]) (rule list_all2_mono[OF ok], simp add: row_prob_ok_def)
  have "list_all2 (\<lambda>w v. depends_on (\<lambda>A. \<not> truth (sem D oth cat c A w)) (row_inputs c w) \<and>
      prob_of (getProb c) V (\<lambda>A. \<not> truth (sem D oth cat c A w)) = v) ws (map (\<lambda>v. 1 - v) vs)"
    unfolding list.rel_map
    by (rule list_all2_mono[OF ok]) (simp add: row_prob_ok_def prob_not[OF fin] depends_on_comp[where F = Not])
  from prob_all[OF fin this sorted]
  have "prob_of (getProb c) V (\<lambda>A. \<forall>w \<in> set ws. \<not> truth (sem D oth cat c A w)) = foldl (\<lambda>q v. q * (1 - v)) 1 vs"
    by (simp add: foldl_one_minus)
  then show "prob_of (getProb c) V (\<lambda>A. \<exists>w \<in> set ws. truth (sem D oth cat c A w)) = 1 - foldl (\<lambda>q v. q * (1 - v)) 1 vs"
    using prob_not[OF fin, of "getProb c" "\<lambda>A. \<forall>w \<in> set ws. \<not> truth (sem D oth cat c A w)"] by simp
qed

lemma row_correct:
  assumes r: "ranked rk c" and rf: "refs_bound c ref" and fin: "finite V"
    and "k < length (gates c)" "rk k < D" "row_inputs c k \<subseteq> V" "contributorProb d c ref k = Inr (Some p)"
  shows "row_prob_ok D oth cat c V k p"
  using assms(4-)
proof (induction d arbitrary: k p D)
  case (Suc d)
  obtain D' where D: "D = Suc D'" using Suc.prems(2) by (cases D) auto
  let ?E = "\<lambda>w A. truth (sem D' oth cat c A w)"
  note pr = contributorProb_private(1)[OF r rf Suc.prems(1,4)]
  have kids: "row_prob_ok D' oth cat c V w v" "depends_on (?E w) (row_inputs c k)"
    if "inner_gate c k" "w \<in> set (getWires c k)" "contributorProb d c ref w = Inr (Some v)" for w v
  proof -
    have w: "w < length (gates c)" "rk w < D'" using r that(2) Suc.prems(1,2) by (fastforce simp: ranked_def getWires_def D)+
    have s: "row_inputs c w \<subseteq> row_inputs c k" by (rule row_inputs_wire[OF that(1,2)])
    show "row_prob_ok D' oth cat c V w v" by (rule Suc.IH[OF w _ that(3)]) (use s Suc.prems(3) in blast)
    then show "depends_on (?E w) (row_inputs c k)" unfolding row_prob_ok_def by (blast intro: depends_on_mono[OF _ s])
  qed
  have list: "list_all2 (row_prob_ok D' oth cat c V) (getWires c k) vs \<and> (\<forall>w \<in> set (getWires c k). depends_on (?E w) (row_inputs c k))"
    if i: "inner_gate c k" and v: "list_all2 (\<lambda>w v. contributorProb d c ref w = Inr (Some v)) (getWires c k) vs" for vs
  proof
    show "list_all2 (row_prob_ok D' oth cat c V) (getWires c k) vs"
      by (rule list_all2_all_nthI[OF list_all2_lengthD[OF v]]) (use kids(1)[OF i] list_all2_nthD[OF v] in simp)
    show "\<forall>w \<in> set (getWires c k). depends_on (?E w) (row_inputs c k)"
    proof
      fix w assume w: "w \<in> set (getWires c k)"
      then obtain n where "n < length (getWires c k)" "getWires c k ! n = w" by (auto simp: in_set_conv_nth)
      then show "depends_on (?E w) (row_inputs c k)" using kids(2)[OF i w, of "vs ! n"] list_all2_nthD[OF v, of n] by simp
    qed
  qed
  consider (one) "getGateType c k = gate_one" | (zero) "getGateType c k = gate_zero" | (inp) "getGateType c k = gate_input"
    | (mul) "getGateType c k = gate_times" | (add) "getGateType c k = gate_plus"
    | (sub) "getGateType c k = gate_monus" "length (getWires c k) = 2"
    using contributorProb_private(2)[OF r rf Suc.prems(1,4) row_root] by (auto simp: inner_gate_def)
  then show ?case
  proof cases
    case one
    then show ?thesis using Suc.prems(4) fin by (simp add: row_prob_ok_def D prob_of_def depends_on_def)
  next
    case zero
    then show ?thesis using Suc.prems(4) by (simp add: row_prob_ok_def D prob_of_def depends_on_def expect_def)
  next
    case inp
    then have "row_inputs c k = {k}" using in_row_leaf[of c k] row_root[of c k] by (auto simp: row_inputs_def inner_gate_def)
    moreover have "p = getProb c k" using Suc.prems(4) inp by (auto split: if_splits)
    ultimately show ?thesis
      using Suc.prems(3) expect_var[OF fin, of k "getProb c"] depends_on_var[of "\<lambda>b. b" k] inp
      by (simp add: row_prob_ok_def D prob_of_def)
  next
    case mul
    then have i: "inner_gate c k" by (simp add: inner_gate_def)
    obtain vs where vs: "list_all2 (\<lambda>w v. contributorProb d c ref w = Inr (Some v)) (getWires c k) vs" "p = foldl (*) 1 vs"
      using Suc.prems(4) mul by (auto simp: contributor_wires_Some split: if_splits)
    note L = list[OF i vs(1)]
    have "depends_on (\<lambda>A. \<forall>w \<in> set (getWires c k). ?E w A) (row_inputs c k)"
      using wires_depend[of "getWires c k" ?E "row_inputs c k" "\<lambda>bs. \<forall>b \<in> set bs. b"] L by simp
    then show ?thesis
      using wires_prob(1)[OF fin wires_disjoint_sorted[OF r i Suc.prems(1) pr] conjunct1[OF L]] mul
      by (simp add: row_prob_ok_def D vs(2))
  next
    case add
    then have i: "inner_gate c k" by (simp add: inner_gate_def)
    obtain vs where vs: "list_all2 (\<lambda>w v. contributorProb d c ref w = Inr (Some v)) (getWires c k) vs"
      "p = 1 - foldl (\<lambda>q v. q * (1 - v)) 1 vs"
      using Suc.prems(4) add by (auto simp: contributor_wires_Some bind_result_Inr_iff split: if_splits)
    note L = list[OF i vs(1)]
    have "depends_on (\<lambda>A. \<exists>w \<in> set (getWires c k). ?E w A) (row_inputs c k)"
      using wires_depend[of "getWires c k" ?E "row_inputs c k" "\<lambda>bs. \<exists>b \<in> set bs. b"] L by simp
    then show ?thesis
      using wires_prob(2)[OF fin wires_disjoint_sorted[OF r i Suc.prems(1) pr] conjunct1[OF L]] add
      by (simp add: row_prob_ok_def D vs(2))
  next
    case sub
    then have i: "inner_gate c k" by (simp add: inner_gate_def)
    let ?a = "getWires c k ! 0" and ?b = "getWires c k ! 1"
    obtain pa pb where p: "contributorProb d c ref ?a = Inr (Some pa)" "contributorProb d c ref ?b = Inr (Some pb)" "p = pa * (1 - pb)"
      using Suc.prems(4) sub by (auto simp: Let_def bind_result_Inr_iff split: if_splits option.splits)
    have w: "?a \<in> set (getWires c k)" "?b \<in> set (getWires c k)" using sub(2) by simp_all
    note A = kids[OF i w(1) p(1)] and B = kids[OF i w(2) p(2)]
    have dis: "row_inputs c ?a \<inter> row_inputs c ?b = {}" by (rule wires_disjoint[OF r i Suc.prems(1) pr]) (use sub(2) in auto)
    have "prob_of (getProb c) V (\<lambda>A. ?E ?a A \<and> \<not> ?E ?b A) = pa * (1 - pb)"
      using expect_indep[OF fin depends_on_comp[of "?E ?a" _ of_bool] depends_on_comp[of "?E ?b" _ "\<lambda>b. of_bool (\<not> b)"] dis, of "getProb c"]
        A(1) B(1) prob_not[OF fin, of "getProb c" "?E ?b"] by (simp add: row_prob_ok_def prob_of_def of_bool_conj)
    moreover have "depends_on (\<lambda>A. ?E ?a A \<and> \<not> ?E ?b A) (row_inputs c k)"
      using wires_depend[of "[?a, ?b]" ?E "row_inputs c k" "\<lambda>bs. bs ! 0 \<and> \<not> bs ! 1"] A(2) B(2) by auto
    ultimately show ?thesis using sub p(3) by (simp add: row_prob_ok_def D Let_def)
  qed
qed simp


section \<open>Resolving one comparison\<close>

lemma comparison_match: "comparison cat c g = Some m \<Longrightarrow> matchAggCmp cat c g = Inr (Some m)"
  by (auto simp: comparison_def split: sum.splits option.splits if_splits)

lemma ranked_wire: "ranked rk c \<Longrightarrow> g < length (gates c) \<Longrightarrow> w \<in> set (getWires c g) \<Longrightarrow> w < length (gates c) \<and> rk w < rk g"
  by (auto simp: ranked_def getWires_def)

text \<open>The K gates of a match are two wires below the aggregate.\<close>

lemma match_row:
  assumes "match_ok c g m" "i < length (am_ks m)"
  shows "am_agg m \<in> set (getWires c g)" "am_semimods m ! i \<in> set (getWires c (am_agg m))"
    "am_ks m ! i \<in> set (getWires c (am_semimods m ! i))" "getGateType c (am_agg m) = gate_agg"
    "getGateType c (am_semimods m ! i) = gate_semimod"
proof -
  have i: "i < length (am_semimods m)" "am_semimods m = getWires c (am_agg m)"
    "length (getWires c (am_semimods m ! i)) = 2" "getWires c (am_semimods m ! i) ! 0 = am_ks m ! i"
    using assms by (auto simp: match_ok_def)
  show "am_semimods m ! i \<in> set (getWires c (am_agg m))" using i(1,2) nth_mem by metis
  show "am_ks m ! i \<in> set (getWires c (am_semimods m ! i))" using i(3,4) nth_mem[of 0] by (metis zero_less_numeral)
  show "am_agg m \<in> set (getWires c g)" "getGateType c (am_agg m) = gate_agg" "getGateType c (am_semimods m ! i) = gate_semimod"
    using assms(1) i(1) unfolding match_ok_def by blast+
qed

lemma match_row_rank:
  assumes "ranked rk c" "g < length (gates c)" "match_ok c g m" "i < length (am_ks m)"
  shows "am_agg m < length (gates c)" "am_semimods m ! i < length (gates c)" "am_ks m ! i < length (gates c)"
    "rk (am_ks m ! i) < rk g"
proof -
  note R = match_row[OF assms(3,4)]
  have a: "am_agg m < length (gates c)" "rk (am_agg m) < rk g" using ranked_wire[OF assms(1,2) R(1)] by auto
  then have s: "am_semimods m ! i < length (gates c)" "rk (am_semimods m ! i) < rk (am_agg m)"
    using ranked_wire[OF assms(1) a(1) R(2)] by auto
  then have "am_ks m ! i < length (gates c)" "rk (am_ks m ! i) < rk (am_semimods m ! i)"
    using ranked_wire[OF assms(1) s(1) R(3)] by auto
  then show "am_agg m < length (gates c)" "am_semimods m ! i < length (gates c)" "am_ks m ! i < length (gates c)"
    "rk (am_ks m ! i) < rk g" using a s by auto
qed

text \<open>Enough fuel gives the value.\<close>

lemma sem_fuel:
  assumes "ranked rk c" "h < length (gates c)" "rk h < D" "rk h < D'"
  shows "sem D oth cat c A h = sem D' oth cat c A h"
  using assms(2-)
proof (induction D arbitrary: h D')
  case (Suc D)
  obtain D2 where D': "D' = Suc D2" using Suc.prems(3) by (cases D') auto
  have lower: "sem D oth cat c A w = sem D2 oth cat c A w" if "w < length (gates c)" "rk w < rk h" for w
    by (rule Suc.IH) (use that Suc.prems D' in auto)
  have vs: "map (sem D oth cat c A) (getWires c h) = map (sem D2 oth cat c A) (getWires c h)"
    using lower ranked_wire[OF assms(1) Suc.prems(1)] by simp
  have rows: "{i. i < length (am_ks m) \<and> truth (sem D oth cat c A (am_ks m ! i))} =
      {i. i < length (am_ks m) \<and> truth (sem D2 oth cat c A (am_ks m ! i))}" if "comparison cat c h = Some m" for m
    using lower match_row_rank(3,4)[OF assms(1) Suc.prems(1) match_structure[OF comparison_match[OF that]]] by auto
  show ?case unfolding D' sem.simps Let_def vs
    by (cases "getGateType c h") (auto simp: rows split: option.splits)
qed simp

definition resolvable :: "(gate_t \<Rightarrow> nat) \<Rightarrow> nat \<Rightarrow> catalog \<Rightarrow> nat list \<Rightarrow> generic_circuit \<Rightarrow> gate_t \<Rightarrow> agg_match \<Rightarrow> real list \<Rightarrow> bool" where
  "resolvable rk d cat ref c g m p \<longleftrightarrow> ranked rk c \<and> refs_bound c ref \<and> g < length (gates c) \<and> length (prob c) = length (gates c) \<and>
     getGateType c g = gate_cmp \<and> comparison cat c g = Some m \<and> ref ! am_agg m = 1 \<and>
     contributors d c ref (zip (am_semimods m) (am_ks m)) = Inr (Some p)"

lemma contributors_Some:
  "contributors d c ref sks = Inr (Some p) \<longleftrightarrow>
     list_all2 (\<lambda>sk v. ref ! fst sk = 1 \<and> contributorProb d c ref (snd sk) = Inr (Some v)) sks p"
  by (induction sks arbitrary: p)
    (auto simp: list_all2_Cons1 bind_result_Inr_iff split: sum.splits option.splits)

lemma resolvableD:
  assumes "resolvable rk d cat ref c g m p"
  shows "ranked rk c" "refs_bound c ref" "g < length (gates c)" "getGateType c g = gate_cmp" "match_ok c g m"
    and "length p = length (am_ks m)"
    and "\<And>i. i < length (am_ks m) \<Longrightarrow> ref ! (am_semimods m ! i) = 1 \<and> contributorProb d c ref (am_ks m ! i) = Inr (Some (p ! i))"
    and "am_agg m < length (gates c) \<Longrightarrow> occurrences c (am_agg m) \<le> 1"
    and "\<And>i. i < length (am_ks m) \<Longrightarrow> occurrences c (am_semimods m ! i) \<le> 1 \<and> row_private c (am_ks m ! i)"
proof -
  note A = assms[unfolded resolvable_def contributors_Some]
  show R: "ranked rk c" "refs_bound c ref" "g < length (gates c)" "getGateType c g = gate_cmp" using A by auto
  show M: "match_ok c g m" using A match_structure comparison_match by blast
  then have l: "length (am_semimods m) = length (am_ks m)" by (simp add: match_ok_def)
  show "length p = length (am_ks m)" using A l by (auto dest: list_all2_lengthD)
  show P: "ref ! (am_semimods m ! i) = 1 \<and> contributorProb d c ref (am_ks m ! i) = Inr (Some (p ! i))"
    if "i < length (am_ks m)" for i
  proof -
    have "list_all2 (\<lambda>sk v. ref ! fst sk = 1 \<and> contributorProb d c ref (snd sk) = Inr (Some v)) (zip (am_semimods m) (am_ks m)) p"
      using A by blast
    from list_all2_nthD[OF this, of i] show ?thesis using that l by simp
  qed
  show "am_agg m < length (gates c) \<Longrightarrow> occurrences c (am_agg m) \<le> 1" using A by (auto simp: refs_bound_def)
  show "occurrences c (am_semimods m ! i) \<le> 1 \<and> row_private c (am_ks m ! i)" if "i < length (am_ks m)" for i
    using P[OF that] R(2) match_row_rank(2,3)[OF R(1,3) M that] contributorProb_private(1)[OF R(1,2)]
    by (auto simp: refs_bound_def)
qed

text \<open>The gates that belong to the comparison alone.\<close>

definition region :: "generic_circuit \<Rightarrow> agg_match \<Rightarrow> gate_t set" where
  "region c m = insert (am_agg m) (set (am_semimods m)) \<union> 
     {x. \<exists>i < length (am_ks m). in_row c (am_ks m ! i) x \<and> \<not> constant_gate c x}"

definition region_inputs :: "generic_circuit \<Rightarrow> agg_match \<Rightarrow> nat set" where
  "region_inputs c m = (\<Union>i < length (am_ks m). row_inputs c (am_ks m ! i))"

lemma region_inputs_sub: "x \<in> region_inputs c m \<Longrightarrow> x \<in> region c m"
  by (fastforce simp: region_inputs_def region_def row_inputs_def constant_gate_def in_set_conv_nth)

lemma region_closed:
  assumes res: "resolvable rk d cat ref c g m p"
    and h: "h < length (gates c)" "h \<notin> region c m" "h \<noteq> g" and w: "w \<in> set (getWires c h)"
  shows "w \<notin> region c m"
proof
  note D = resolvableD[OF res]
  have pos: "w \<in> set (am_semimods m) \<Longrightarrow> \<exists>i < length (am_ks m). w = am_semimods m ! i"
    using D(5) by (auto simp: in_set_conv_nth match_ok_def)
  assume "w \<in> region c m"
  then consider (agg) "w = am_agg m" | (semi) i where "i < length (am_ks m)" "w = am_semimods m ! i"
    | (row) i where "i < length (am_ks m)" "in_row c (am_ks m ! i) w" "\<not> constant_gate c w"
    using pos unfolding region_def by blast
  then show False
  proof cases
    case agg
    have "am_agg m \<in> set (getWires c g)" using D(5) by (simp add: match_ok_def)
    then have "h = g"
      using one_parent[OF D(8), of h g] agg w h(1) D(3) ranked_wire[OF D(1,3)] by blast
    then show False using h(3) by simp
  next
    case semi
    note M = match_row[OF D(5) semi(1)] and rk = match_row_rank[OF D(1,3,5) semi(1)]
    have "h = am_agg m" using one_parent[of c w h "am_agg m"] D(9)[OF semi(1)] semi(2) w M(2) h(1) rk(1) by blast
    then show False using h(2) by (simp add: region_def)
  next
    case row
    note M = match_row[OF D(5) row(1)] and rk = match_row_rank[OF D(1,3,5) row(1)]
    have occ: "occurrences c w \<le> 1" using D(9)[OF row(1)] row(2,3) by (simp add: row_private_def)
    from row(2) show False
    proof (cases rule: in_row.cases)
      case row_root
      then have "h = am_semimods m ! i" using one_parent[OF occ w _ h(1) rk(2)] M(3) by simp
      moreover have "am_semimods m ! i \<in> set (am_semimods m)" using D(5) row(1) by (simp add: match_ok_def)
      ultimately show False using h(2) by (simp add: region_def)
    next
      case (row_wire q)
      have "h = q" using one_parent[OF occ w row_wire(3) h(1)] in_row_rank[OF D(1) row_wire(1) rk(3)] by blast
      then show False using h(2) row_wire(1,2) row(1) constant_not_inner by (fastforce simp: region_def)
    qed
  qed
qed


section \<open>A comparison replaced by a gate without wires\<close>

definition replaced :: "gate_t \<Rightarrow> generic_circuit \<Rightarrow> generic_circuit \<Rightarrow> bool" where
  "replaced g c c' \<longleftrightarrow> length (gates c') = length (gates c) \<and> length (wires c') = length (wires c) \<and>
     (\<forall>x. x \<noteq> g \<longrightarrow> getGateType c' x = getGateType c x \<and> getWires c' x = getWires c x \<and> getInfos c' x = getInfos c x \<and>
        getExtra c' x = getExtra c x \<and> getProb c' x = getProb c x) \<and>
     getGateType c g = gate_cmp \<and> getGateType c' g \<in> {gate_input, gate_zero, gate_one} \<and> getWires c' g = []"

text \<open>A threshold does not stand on a comparison: it would become a constant once that is decided.\<close>

definition plain_thresholds :: "generic_circuit \<Rightarrow> bool" where
  "plain_thresholds c \<longleftrightarrow> (\<forall>g < length (gates c). getGateType c g = gate_cmp \<longrightarrow>
     (\<forall>s \<in> set (getWires c g). getGateType c s = gate_semimod \<longrightarrow> getGateType c (getWires c s ! 0) \<noteq> gate_cmp))"

lemma replaced_types:
  assumes "replaced g c c'"
  shows "getGateType c' x = gate_agg \<longleftrightarrow> getGateType c x = gate_agg"
    "getGateType c' x = gate_semimod \<longleftrightarrow> getGateType c x = gate_semimod"
    "getGateType c' x = gate_value \<longleftrightarrow> getGateType c x = gate_value"
    "getGateType c' x = gate_cmp \<Longrightarrow> x \<noteq> g"
  using assms by (cases "x = g"; auto simp: replaced_def)+

lemma replaced_same:
  "replaced g c c' \<Longrightarrow> getGateType c x \<noteq> gate_cmp \<Longrightarrow>
     getWires c' x = getWires c x \<and> getInfos c' x = getInfos c x \<and> getExtra c' x = getExtra c x"
  by (cases "x = g") (auto simp: replaced_def)

lemma semimod_extract_same:
  "replaced g c c' \<Longrightarrow> semimod_extract_string_and_K c' x = semimod_extract_string_and_K c x"
  using replaced_types(2,3)[of g c c'] replaced_same[of g c c' x] replaced_same[of g c c' "getWires c x ! 1"]
  by (auto simp: semimod_extract_string_and_K_def Let_def)

lemma agg_rows_same: "replaced g c c' \<Longrightarrow> agg_rows c' chs = agg_rows c chs"
proof (induction chs)
  case (Cons ch chs)
  show ?case
    unfolding agg_rows.simps semimod_extract_same[OF Cons.prems] replaced_types(2)[OF Cons.prems] Cons.IH[OF Cons.prems] ..
qed simp

lemma agg_side_same: "replaced g c c' \<Longrightarrow> agg_side c' cw op = agg_side c cw op"
  by (simp add: agg_side_def replaced_types(1))

lemma extract_constant_same:
  assumes "replaced g c c'" "getGateType c x = gate_semimod \<Longrightarrow> getGateType c (getWires c x ! 0) \<noteq> gate_cmp"
  shows "extract_constant_string c' x = extract_constant_string c x"
proof (cases "getGateType c x = gate_semimod")
  case True
  let ?k = "getWires c x ! 0"
  have w: "getWires c' x = getWires c x" using replaced_same[OF assms(1)] True by simp
  have "?k \<noteq> g" using assms True by (auto simp: replaced_def)
  then have "getGateType c' ?k = getGateType c ?k" using assms(1) by (simp add: replaced_def)
  then show ?thesis
    using replaced_same[OF assms(1), of "getWires c x ! 1"]
    by (auto simp: extract_constant_string_def Let_def w True replaced_types(2,3)[OF assms(1)])
qed (simp add: extract_constant_string_def replaced_types(2)[OF assms(1)])

lemma matchAggCmp_same:
  assumes r: "replaced g c c'" and h: "h \<noteq> g" "h < length (gates c)" "getGateType c h = gate_cmp" and pl: "plain_thresholds c"
  shows "matchAggCmp cat c' h = matchAggCmp cat c h"
proof -
  have e: "getWires c' h = getWires c h" "getInfos c' h = getInfos c h" using r h(1) by (simp_all add: replaced_def)
  show ?thesis
  proof (cases "length (getWires c h) = 2")
    case True
    have side: "getInfos c' agg = getInfos c agg \<and> getWires c' agg = getWires c agg \<and>
        extract_constant_string c' const = extract_constant_string c const"
      if "agg_side c (getWires c h) op0 = Some (agg, const, op)" for agg const op op0
    proof -
      note S = agg_side_Some[OF that True]
      have "extract_constant_string c' const = extract_constant_string c const"
        by (rule extract_constant_same[OF r]) (use S pl h(2,3) in \<open>auto simp: plain_thresholds_def\<close>)
      then show ?thesis using replaced_same[OF r, of agg] S by simp
    qed
    show ?thesis
    proof (cases "cmpOpFromOid (cat_opname cat) (fst (getInfos c h))")
      case (Some op0)
      note op0 = this
      show ?thesis
      proof (cases "agg_side c (getWires c h) op0")
        case None
        then show ?thesis using Some by (simp add: matchAggCmp_def Let_def e agg_side_same[OF r])
      next
        case (Some r3)
        obtain agg const op where r3: "r3 = (agg, const, op)" by (cases r3)
        note S = side[OF Some[unfolded r3]]
        then have S': "getInfos c' agg = getInfos c agg" "getWires c' agg = getWires c agg"
          "extract_constant_string c' const = extract_constant_string c const" by simp_all
        show ?thesis
          unfolding matchAggCmp_def Let_def e agg_side_same[OF r] op0 Some r3 option.case prod.case agg_rows_same[OF r] S' ..
      qed
    qed (simp add: matchAggCmp_def Let_def e)
  qed (simp add: matchAggCmp_def Let_def e)
qed

lemma comparison_same:
  "replaced g c c' \<Longrightarrow> h \<noteq> g \<Longrightarrow> h < length (gates c) \<Longrightarrow> getGateType c h = gate_cmp \<Longrightarrow> plain_thresholds c \<Longrightarrow>
     comparison cat c' h = comparison cat c h"
  by (simp add: comparison_def matchAggCmp_same)

section \<open>The other gates\<close>

lemma match_outside:
  assumes res: "resolvable rk d cat ref c g m p" and h: "h < length (gates c)" "h \<notin> region c m" "h \<noteq> g"
    and n: "comparison cat c h = Some n" and i: "i < length (am_ks n)"
  shows "am_ks n ! i < length (gates c) \<and> am_ks n ! i \<notin> region c m \<and> rk (am_ks n ! i) < rk h"
proof -
  note R = resolvableD[OF res] and M = match_structure[OF comparison_match[OF n]]
  note mr = match_row[OF M i] and rk = match_row_rank[OF R(1) h(1) M i]
  have ne: "am_agg n \<noteq> g" "am_semimods n ! i \<noteq> g" using mr(4,5) R(4) by auto
  have "am_agg n \<notin> region c m" by (rule region_closed[OF res h mr(1)])
  then have "am_semimods n ! i \<notin> region c m" by (rule region_closed[OF res rk(1) _ ne(1) mr(2)])
  then have "am_ks n ! i \<notin> region c m" by (rule region_closed[OF res rk(2) _ ne(2) mr(3)])
  then show ?thesis using rk(3,4) by simp
qed

text \<open>What the gates outside the region see does not change.\<close>

lemma sem_transfer:
  assumes res: "resolvable rk d cat ref c g m p" and rep: "replaced g c c'" "getGateType c' g = gate_input"
    and pl: "plain_thresholds c"
    and A: "\<And>x. x \<notin> region_inputs c m \<Longrightarrow> x \<noteq> g \<Longrightarrow> x \<in> A' \<longleftrightarrow> x \<in> A"
      "g \<in> A' \<longleftrightarrow> truth (sem Dg oth cat c A g)" "rk g < Dg"
    and h: "h < length (gates c)" "h \<notin> region c m" "rk h < D"
  shows "sem D oth cat c' A' h = sem D oth cat c A h"
  using h
proof (induction D arbitrary: h)
  case (Suc D)
  note R = resolvableD[OF res]
  show ?case
  proof (cases "h = g")
    case True
    have cmp: "\<exists>m. comparison cat c g = Some m" using res by (auto simp: resolvable_def)
    have "sem (Suc D) oth cat c A g = sem Dg oth cat c A g" by (rule sem_fuel[OF R(1,3)]) (use Suc.prems A(3) True in auto)
    moreover have "sem (Suc D) oth cat c A g = Truth (truth (sem (Suc D) oth cat c A g))"
      using cmp R(4) by auto
    ultimately have "sem (Suc D) oth cat c A g = Truth (truth (sem Dg oth cat c A g))" by simp
    moreover have "sem (Suc D) oth cat c' A' g = Truth (g \<in> A')" by (simp add: rep(2))
    ultimately show ?thesis using A(2) True by simp
  next
    case False
    note e = rep(1)[unfolded replaced_def]
    have same: "getGateType c' h = getGateType c h" "getWires c' h = getWires c h" using e False by auto
    have low: "sem D oth cat c' A' w = sem D oth cat c A w" if "w < length (gates c)" "w \<notin> region c m" "rk w < rk h" for w
      by (rule Suc.IH) (use that Suc.prems in auto)
    have "map (sem D oth cat c' A') (getWires c h) = map (sem D oth cat c A) (getWires c h)"
      using low ranked_wire[OF R(1) Suc.prems(1)] region_closed[OF res Suc.prems(1,2) False] by simp
    note vs = this
    have inp: "h \<in> A' \<longleftrightarrow> h \<in> A" using A(1)[OF _ False] region_inputs_sub Suc.prems(2) by blast
    have cmp: "comparison cat c' h = comparison cat c h" if "getGateType c h = gate_cmp"
      by (rule comparison_same[OF rep(1) False Suc.prems(1) that pl])
    have sc: "is_scalar c' (am_agg n) = is_scalar c (am_agg n)" if n: "comparison cat c h = Some n" for n
    proof -
      have "getGateType c (am_agg n) = gate_agg" using match_structure[OF comparison_match[OF n]] by (simp add: match_ok_def)
      then show ?thesis using replaced_same[OF rep(1), of "am_agg n"] by (simp add: is_scalar_def)
    qed
    have rs: "{i. i < length (am_ks n) \<and> truth (sem D oth cat c' A' (am_ks n ! i))} =
        {i. i < length (am_ks n) \<and> truth (sem D oth cat c A (am_ks n ! i))}" if "comparison cat c h = Some n" for n
      using low match_outside[OF res Suc.prems(1,2) False that] by auto
    show ?thesis unfolding sem.simps Let_def same vs
      by (cases "getGateType c h") (auto simp: inp cmp rs sc split: option.splits)
  qed
qed simp


lemma sem_outside:
  assumes res: "resolvable rk d cat ref c g m p" and rep: "replaced g c c'" and pl: "plain_thresholds c"
    and AB: "\<And>x. x \<notin> region_inputs c m \<Longrightarrow> x \<in> A \<longleftrightarrow> x \<in> B"
    and h: "h < length (gates c)" "h \<notin> region c m"
  shows "sem D oth cat c' A h = sem D oth cat c' B h"
  using h
proof (induction D arbitrary: h)
  case (Suc D)
  note R = resolvableD[OF res] and e = rep[unfolded replaced_def]
  show ?case
  proof (cases "h = g")
    case True
    then have "g \<notin> region_inputs c m" using region_inputs_sub Suc.prems(2) by blast
    then show ?thesis using AB[of g] True e by auto
  next
    case False
    have low: "sem D oth cat c' A w = sem D oth cat c' B w" if "w < length (gates c)" "w \<notin> region c m" for w
      by (rule Suc.IH) (use that in auto)
    have same: "getWires c' h = getWires c h" using e False by auto
    have vs: "map (sem D oth cat c' A) (getWires c' h) = map (sem D oth cat c' B) (getWires c' h)"
      using low ranked_wire[OF R(1) Suc.prems(1)] region_closed[OF res Suc.prems(1,2) False] by (simp add: same)
    have inp: "h \<in> A \<longleftrightarrow> h \<in> B" using AB region_inputs_sub Suc.prems(2) by blast
    have rows: "{i. i < length (am_ks n) \<and> truth (sem D oth cat c' A (am_ks n ! i))} =
        {i. i < length (am_ks n) \<and> truth (sem D oth cat c' B (am_ks n ! i))}"
      if n: "getGateType c h = gate_cmp" "comparison cat c' h = Some n" for n
    proof -
      have n': "comparison cat c h = Some n" using comparison_same[OF rep False Suc.prems(1) n(1) pl] n(2) by simp
      have "am_ks n ! i < length (gates c) \<and> am_ks n ! i \<notin> region c m" if "i < length (am_ks n)" for i
        using match_outside[OF res Suc.prems False n' that] by simp
      then show ?thesis using low by auto
    qed
    have t: "getGateType c' h = getGateType c h" using e False by auto
    show ?thesis unfolding sem.simps Let_def vs
      by (cases "getGateType c h") (auto simp: inp rows t split: option.splits)
  qed
qed simp


section \<open>The event and its probability\<close>

lemma rows_apart:
  assumes res: "resolvable rk d cat ref c g m p" and ij: "i < j" "j < length (am_ks m)"
  shows "row_inputs c (am_ks m ! i) \<inter> row_inputs c (am_ks m ! j) = {}"
proof -
  note R = resolvableD[OF res]
  have i: "i < length (am_ks m)" using ij by simp
  note Mi = match_row[OF R(5) i] and Mj = match_row[OF R(5) ij(2)]
  note ri = match_row_rank[OF R(1,3,5) i] and rj = match_row_rank[OF R(1,3,5) ij(2)]
  note pi = R(9)[OF i] and pj = R(9)[OF ij(2)]
  have np: "\<not> inner_gate c (am_semimods m ! i)" "\<not> inner_gate c (am_semimods m ! j)"
    using Mi(5) Mj(5) by (simp_all add: inner_gate_def)
  have ne: "am_ks m ! i \<noteq> am_ks m ! j" if nc: "\<not> constant_gate c (am_ks m ! i)"
  proof
    assume eq: "am_ks m ! i = am_ks m ! j"
    have "occurrences c (am_ks m ! i) \<le> 1" using pi nc row_root by (auto simp: row_private_def)
    then have s: "am_semimods m ! i = am_semimods m ! j"
      using one_parent[OF _ Mi(3) _ ri(2) rj(2)] Mj(3) eq by simp
    have w: "getWires c (am_agg m) = am_semimods m" "length (am_semimods m) = length (am_ks m)"
      using R(5) by (simp_all add: match_ok_def)
    have "i = j"
      by (rule one_position[OF conjunct1[OF pi] ri(1)]) (use w i ij(2) s in simp_all)
    then show False using ij by simp
  qed
  have "constant_gate c x" if "in_row c (am_ks m ! i) x" "in_row c (am_ks m ! j) x" for x
    by (rule rows_disjoint[OF R(1) ri(2) rj(2) Mi(3) Mj(3) _ _ ne conjunct2[OF pi] conjunct2[OF pj] that]) (use np in blast)+
  then show ?thesis by (fastforce simp: row_inputs_def constant_gate_def)
qed

definition input_gates :: "generic_circuit \<Rightarrow> nat set" where
  "input_gates c = {x. x < length (gates c) \<and> getGateType c x = gate_input}"

lemma finite_input_gates [simp]: "finite (input_gates c)"
  by (simp add: input_gates_def)

lemma row_inputs_in:
  assumes "ranked rk c" "k < length (gates c)"
  shows "row_inputs c k \<subseteq> input_gates c"
  using in_row_rank[OF assms(1) _ assms(2)] by (auto simp: row_inputs_def input_gates_def)

lemma cmp_event:
  assumes res: "resolvable rk d cat ref c g m p" and D: "rk g < D"
  shows "depends_on (\<lambda>A. truth (sem D oth cat c A g)) (region_inputs c m)"
    and "prob_of (getProb c) (input_gates c) (\<lambda>A. truth (sem D oth cat c A g)) =
      prob_of (nth p) {..<length p} (agg_compares (is_scalar c (am_agg m)) m)"
proof -
  note R = resolvableD[OF res]
  obtain D' where D': "D = Suc D'" using D by (cases D) auto
  let ?E = "\<lambda>i A. truth (sem D' oth cat c A (am_ks m ! i))" and ?F = "agg_compares (is_scalar c (am_agg m)) m"
  have cmp: "comparison cat c g = Some m" using res by (simp add: resolvable_def)
  have ev: "truth (sem D oth cat c A g) = ?F {i. i < length p \<and> ?E i A}" for A
    using R(4,6) cmp by (simp add: D')
  have row: "row_prob_ok D' oth cat c (input_gates c) (am_ks m ! i) (p ! i)" if "i < length p" for i
    by (rule row_correct[OF R(1,2) finite_input_gates, where d = d])
      (use that R(6,7) match_row_rank[OF R(1,3,5), of i] row_inputs_in[OF R(1)] D D' in auto)
  have dep: "depends_on (?E i) (row_inputs c (am_ks m ! i))" if "i < length p" for i
    using row[OF that] by (simp add: row_prob_ok_def)
  show "depends_on (\<lambda>A. truth (sem D oth cat c A g)) (region_inputs c m)"
    unfolding ev region_inputs_def R(6)[symmetric] by (rule depends_on_rows) (rule dep)
  show "prob_of (getProb c) (input_gates c) (\<lambda>A. truth (sem D oth cat c A g)) = prob_of (nth p) {..<length p} ?F"
    unfolding ev prob_of_def[of _ _ "\<lambda>A. ?F {i. i < length p \<and> ?E i A}"] prob_of_def[of "nth p"]
    by (rule expect_rows[OF finite_input_gates dep, where F = "\<lambda>R. of_bool (?F R)"])
      (use rows_apart[OF res] row R(6) in \<open>auto simp: row_prob_ok_def\<close>)
qed

section \<open>The circuit after the step\<close>

text \<open>The comparison as an input gate, whatever its probability.\<close>

definition as_input :: "generic_circuit \<Rightarrow> gate_t \<Rightarrow> real \<Rightarrow> generic_circuit" where
  "as_input c g pr = erase_meta g (setWires
     (let c' = setProb (setGateType c g gate_input) g pr in c'\<lparr>inputs := insert g (inputs c')\<rparr>) g [])"

lemma as_input_replaced:
  assumes "getGateType c g = gate_cmp" "g < length (gates c)" "length (wires c) = length (gates c)" "length (prob c) = length (gates c)"
  shows "replaced g c (as_input c g pr)" "getGateType (as_input c g pr) g = gate_input"
    "getProb (as_input c g pr) = (getProb c)(g := pr)" "input_gates (as_input c g pr) = insert g (input_gates c)"
  using assms
  by (auto simp: replaced_def as_input_def circuit_defs getProb_def getInfos_def getExtra_def input_gates_def fun_eq_iff
      nth_list_update Let_def)

lemma resolve_replaced:
  assumes "getGateType c g = gate_cmp" "g < length (gates c)" "length (wires c) = length (gates c)" "length (prob c) = length (gates c)"
  shows "replaced g c (resolveCmpToBernoulli c g pr)"
  using assms
  by (auto simp: replaced_def resolveCmpToBernoulli_def circuit_defs getProb_def getInfos_def getExtra_def Let_def)

lemma resolve_step:
  assumes res: "resolvable rk d cat ref c g m p" and pl: "plain_thresholds c"
    and pr: "pr = prob_of (nth p) {..<length p} (agg_compares (is_scalar c (am_agg m)) m)"
    and h: "h < length (gates c)" "h \<notin> region c m" "rk h < D" "rk g < D"
  shows "prob_of (getProb (as_input c g pr)) (input_gates (as_input c g pr)) (\<lambda>A. Q (sem D oth cat (as_input c g pr) A h)) =
    prob_of (getProb c) (input_gates c) (\<lambda>A. Q (sem D oth cat c A h))"
proof -
  note R = resolvableD[OF res]
  have l: "length (wires c) = length (gates c)" "length (prob c) = length (gates c)"
    using R(1) res by (auto simp: ranked_def resolvable_def)
  note I = as_input_replaced[OF R(4,3) l, of pr]
  let ?c = "as_input c g pr" and ?V = "input_gates c" and ?H = "\<lambda>A. truth (sem D oth cat c A g)"
  let ?f = "\<lambda>A. of_bool (Q (sem D oth cat ?c A h)) :: real"
  have gV: "g \<notin> ?V" using R(4) by (simp add: input_gates_def)
  have f: "depends_on ?f (- region_inputs c m)"
    unfolding depends_on_def
  proof (intro allI impI)
    fix A B assume "A \<inter> - region_inputs c m = B \<inter> - region_inputs c m"
    then have "x \<notin> region_inputs c m \<Longrightarrow> x \<in> A \<longleftrightarrow> x \<in> B" for x by blast
    then have "sem D oth cat ?c A h = sem D oth cat ?c B h" by (rule sem_outside[OF res I(1) pl _ h(1,2)])
    then show "?f A = ?f B" by simp
  qed
  have "prob_of (getProb c) ?V (\<lambda>A. Q (sem D oth cat c A h)) = expect (getProb c) ?V (\<lambda>A. ?f (if ?H A then insert g A else A))"
    unfolding prob_of_def
  proof (rule expect_cong)
    fix A assume "A \<subseteq> ?V"
    then have "g \<notin> A" using gV by blast
    then have "sem D oth cat ?c (if ?H A then insert g A else A) h = sem D oth cat c A h"
      by (intro sem_transfer[OF res I(1,2) pl _ _ h(4) h(1,2,3)]) auto
    then show "of_bool (Q (sem D oth cat c A h)) = ?f (if ?H A then insert g A else A)" by simp
  qed
  also have "\<dots> = expect ((getProb c)(g := prob_of (getProb c) ?V ?H)) (insert g ?V) ?f"
    by (rule expect_choice[OF finite_input_gates gV cmp_event(1)[OF res h(4)] f]) auto
  finally show ?thesis unfolding I(3,4) cmp_event(2)[OF res h(4)] pr[symmetric] by (simp add: prob_of_def)
qed


text \<open>Two replacements with the same value at the gate give the same values everywhere.\<close>

lemma sem_replacements:
  assumes r: "replaced g c c1" "replaced g c c2" and rk: "ranked rk c" and pl: "plain_thresholds c"
    and AB: "\<And>x. x \<noteq> g \<Longrightarrow> x \<in> A \<longleftrightarrow> x \<in> B" and v: "\<And>D. sem (Suc D) oth cat c1 A g = sem (Suc D) oth cat c2 B g"
    and h: "h < length (gates c)"
  shows "sem D oth cat c1 A h = sem D oth cat c2 B h"
  using h
proof (induction D arbitrary: h)
  case (Suc D)
  note e = r[unfolded replaced_def]
  show ?case
  proof (cases "h = g")
    case True
    then show ?thesis using v by simp
  next
    case False
    have same: "getGateType c1 h = getGateType c h" "getWires c1 h = getWires c h"
      "getGateType c2 h = getGateType c h" "getWires c2 h = getWires c h" using e False by auto
    have vs: "map (sem D oth cat c1 A) (getWires c h) = map (sem D oth cat c2 B) (getWires c h)"
      using Suc.IH ranked_wire[OF rk Suc.prems] by simp
    have cmp: "comparison cat c1 h = comparison cat c h" "comparison cat c2 h = comparison cat c h"
      if "getGateType c h = gate_cmp"
      using comparison_same[OF r(1) False Suc.prems that pl] comparison_same[OF r(2) False Suc.prems that pl] by auto
    have rows: "{i. i < length (am_ks n) \<and> truth (sem D oth cat c1 A (am_ks n ! i))} =
        {i. i < length (am_ks n) \<and> truth (sem D oth cat c2 B (am_ks n ! i))}"
      and sc: "is_scalar c1 (am_agg n) = is_scalar c2 (am_agg n)" if n: "comparison cat c h = Some n" for n
    proof -
      note M = match_structure[OF comparison_match[OF n]]
      show "{i. i < length (am_ks n) \<and> truth (sem D oth cat c1 A (am_ks n ! i))} =
          {i. i < length (am_ks n) \<and> truth (sem D oth cat c2 B (am_ks n ! i))}"
        using Suc.IH match_row_rank(3)[OF rk Suc.prems M] by auto
      have "getGateType c (am_agg n) = gate_agg" using M by (simp add: match_ok_def)
      then show "is_scalar c1 (am_agg n) = is_scalar c2 (am_agg n)"
        using replaced_same[OF r(1), of "am_agg n"] replaced_same[OF r(2), of "am_agg n"] by (simp add: is_scalar_def)
    qed
    show ?thesis unfolding sem.simps Let_def same vs
      by (cases "getGateType c h") (auto simp: AB[OF False] cmp rows sc split: option.splits)
  qed
qed simp

lemma resolve_correct:
  assumes res: "resolvable rk d cat ref c g m p" and pl: "plain_thresholds c"
    and pr: "pr = prob_of (nth p) {..<length p} (agg_compares (is_scalar c (am_agg m)) m)"
    and h: "h < length (gates c)" "h \<notin> region c m" "rk h < D" "rk g < D"
  shows "prob_of (getProb (resolveCmpToBernoulli c g pr)) (input_gates (resolveCmpToBernoulli c g pr))
      (\<lambda>A. Q (sem D oth cat (resolveCmpToBernoulli c g pr) A h)) =
    prob_of (getProb c) (input_gates c) (\<lambda>A. Q (sem D oth cat c A h))"
proof -
  note R = resolvableD[OF res]
  have l: "length (wires c) = length (gates c)" "length (prob c) = length (gates c)"
    using R(1) res by (auto simp: ranked_def resolvable_def)
  note I = as_input_replaced[OF R(4,3) l, of pr] and Z = resolve_replaced[OF R(4,3) l, of pr]
  let ?c = "as_input c g pr" and ?r = "resolveCmpToBernoulli c g pr" and ?V = "input_gates c"
  let ?f = "\<lambda>A. of_bool (Q (sem D oth cat ?c A h)) :: real"
  have gV: "g \<notin> ?V" using R(4) by (simp add: input_gates_def)
  have ins: "prob_of (getProb ?c) (input_gates ?c) (\<lambda>A. Q (sem D oth cat ?c A h)) =
      pr * expect (getProb c) ?V (\<lambda>A. ?f (insert g A)) + (1 - pr) * expect (getProb c) ?V ?f"
  proof -
    have P: "expect ((getProb c)(g := pr)) ?V f = expect (getProb c) ?V f" for f by (rule expect_prob_cong) (use gV in auto)
    show ?thesis unfolding prob_of_def I(3,4) expect_insert[OF finite_input_gates gV] P by simp
  qed
  have "prob_of (getProb ?r) (input_gates ?r) (\<lambda>A. Q (sem D oth cat ?r A h)) =
    prob_of (getProb ?c) (input_gates ?c) (\<lambda>A. Q (sem D oth cat ?c A h))"
  proof (cases "pr = 0 \<or> pr = 1")
    case True
    have t: "getGateType ?r g = (if pr = 0 then gate_zero else gate_one)" "getProb ?r = getProb c" "input_gates ?r = ?V"
      using True R(3,4) l
      by (auto simp: resolveCmpToBernoulli_def circuit_defs getProb_def input_gates_def Let_def nth_list_update fun_eq_iff)
    have e: "sem D oth cat ?r A h = sem D oth cat ?c (if pr = 0 then A else insert g A) h" if "A \<subseteq> ?V" for A
    proof (rule sem_replacements[OF Z I(1) R(1) pl _ _ h(1)])
      show "sem (Suc D) oth cat ?r A g = sem (Suc D) oth cat ?c (if pr = 0 then A else insert g A) g" for D
        using that gV True by (auto simp: t I(2))
    qed simp
    have "prob_of (getProb ?r) (input_gates ?r) (\<lambda>A. Q (sem D oth cat ?r A h)) =
        expect (getProb c) ?V (\<lambda>A. ?f (if pr = 0 then A else insert g A))"
      unfolding prob_of_def t(2,3) by (rule expect_cong) (simp only: e)
    then show ?thesis unfolding ins using True by auto
  next
    case False
    then have "?r = ?c" by (simp add: resolveCmpToBernoulli_def as_input_def Let_def)
    then show ?thesis by simp
  qed
  then show ?thesis using resolve_step[OF res pl pr h, where Q = Q and oth = oth] by simp
qed


section \<open>The whole pass\<close>

lemma resolve_gates [simp]:
  "length (gates (resolveCmpToBernoulli c g pr)) = length (gates c)"
  "length (prob (resolveCmpToBernoulli c g pr)) = length (prob c)"
  by (simp_all add: resolveCmpToBernoulli_def circuit_defs Let_def)

lemma resolve_wires: "wires (resolveCmpToBernoulli c g pr) = (wires c)[g := []]"
  by (simp add: resolveCmpToBernoulli_def circuit_defs Let_def)

lemma resolve_occurrences:
  assumes "length (wires c) = length (gates c)"
  shows "occurrences (resolveCmpToBernoulli c g pr) x \<le> occurrences c x"
  unfolding occurrences_def resolve_gates(1) resolve_wires
proof (rule sum_mono)
  fix h assume "h \<in> {..<length (gates c)}"
  then show "count_list ((wires c)[g := []] ! h) x \<le> count_list (wires c ! h) x" using assms by (cases "h = g") simp_all
qed

lemma region_referenced:
  assumes "ranked rk c" "g < length (gates c)" "match_ok c g m" "x \<in> region c m"
  shows "occurrences c x \<noteq> 0"
proof -
  have occ: "occurrences c w \<noteq> 0" if "w \<in> set (getWires c q)" "q < length (gates c)" for w q
    using that occurrences_split[OF that(2), of w] by (simp add: getWires_def count_list_0_iff)
  have pos: "x \<in> set (am_semimods m) \<Longrightarrow> \<exists>i < length (am_ks m). x = am_semimods m ! i"
    using assms(3) by (auto simp: in_set_conv_nth match_ok_def)
  consider (agg) "x = am_agg m" | (semi) i where "i < length (am_ks m)" "x = am_semimods m ! i"
    | (row) i where "i < length (am_ks m)" "in_row c (am_ks m ! i) x"
    using assms(4) pos unfolding region_def by blast
  then show ?thesis
  proof cases
    case agg
    then show ?thesis using occ[OF _ assms(2)] assms(3) by (simp add: match_ok_def)
  next
    case semi
    then show ?thesis using occ match_row(2)[OF assms(3)] match_row_rank(1)[OF assms(1-3)] by blast
  next
    case row
    note r = match_row_rank[OF assms(1-3) row(1)]
    from row(2) show ?thesis
    proof (cases rule: in_row.cases)
      case row_root
      then show ?thesis using occ[OF _ r(2)] match_row(3)[OF assms(3) row(1)] by simp
    next
      case (row_wire q)
      then show ?thesis using occ in_row_rank[OF assms(1) _ r(3)] by blast
    qed
  qed
qed

text \<open>What holds of the circuit during a pass; \<open>ok\<close> says which matches the closed form covers.\<close>

definition pass_ok :: "(gate_t \<Rightarrow> nat) \<Rightarrow> catalog \<Rightarrow> (agg_match \<Rightarrow> bool) \<Rightarrow> generic_circuit \<Rightarrow> bool" where
  "pass_ok rk cat ok c \<longleftrightarrow> ranked rk c \<and> length (prob c) = length (gates c) \<and> plain_thresholds c \<and>
     (\<forall>x < length (gates c). 0 \<le> getProb c x \<and> getProb c x \<le> 1) \<and>
     (\<forall>g < length (gates c). getGateType c g = gate_cmp \<longrightarrow>
        (\<exists>mo. matchAggCmp cat c g = Inr mo \<and> (\<forall>m. mo = Some m \<longrightarrow> ok m)))"

lemma clamp_prob_id: "0 \<le> pr \<Longrightarrow> pr \<le> 1 \<Longrightarrow> clamp_prob pr = pr"
  by (simp add: clamp_prob_def Let_def)

lemma pass_ok_step:
  assumes p: "pass_ok rk cat ok c" and g: "g < length (gates c)" "getGateType c g = gate_cmp" and pr: "0 \<le> pr" "pr \<le> 1"
  shows "pass_ok rk cat ok (resolveCmpToBernoulli c g pr)"
proof -
  let ?r = "resolveCmpToBernoulli c g pr"
  note P = p[unfolded pass_ok_def]
  have rk: "ranked rk c" and l: "length (wires c) = length (gates c)" "length (prob c) = length (gates c)"
    and pl: "plain_thresholds c" using P by (auto simp: ranked_def)
  note Z = resolve_replaced[OF g(2,1) l, of pr]
  note e = Z[unfolded replaced_def]
  have cmp: "h \<noteq> g \<and> getGateType c h = gate_cmp" if "getGateType ?r h = gate_cmp" for h
    using that e by (cases "h = g") auto
  have "ranked rk ?r"
    using rk g(1) l by (auto simp: ranked_def resolve_wires nth_list_update)
  moreover have "plain_thresholds ?r"
    unfolding plain_thresholds_def resolve_gates(1)
  proof (intro allI impI ballI)
    fix h s assume h: "h < length (gates c)" "getGateType ?r h = gate_cmp" "s \<in> set (getWires ?r h)" "getGateType ?r s = gate_semimod"
    have "getWires ?r h = getWires c h" "getWires ?r s = getWires c s" "getGateType c s = gate_semimod"
      using cmp[OF h(2)] h(4) e replaced_types(2)[OF Z] replaced_same[OF Z, of s] by auto
    then have "getGateType c (getWires ?r s ! 0) \<noteq> gate_cmp" using pl h cmp[OF h(2)] by (auto simp: plain_thresholds_def)
    then show "getGateType ?r (getWires ?r s ! 0) \<noteq> gate_cmp" using cmp by blast
  qed
  moreover have "\<forall>x < length (gates c). 0 \<le> getProb ?r x \<and> getProb ?r x \<le> 1"
  proof (intro allI impI)
    fix x assume x: "x < length (gates c)"
    have "getProb ?r g \<in> {getProb c g, pr}"
      using g(1) l(2) by (auto simp: resolveCmpToBernoulli_def circuit_defs getProb_def Let_def)
    then show "0 \<le> getProb ?r x \<and> getProb ?r x \<le> 1" using P pr x e by (cases "x = g") auto
  qed
  moreover have "\<forall>h < length (gates c). getGateType ?r h = gate_cmp \<longrightarrow>
      (\<exists>mo. matchAggCmp cat ?r h = Inr mo \<and> (\<forall>m. mo = Some m \<longrightarrow> ok m))"
    using P cmp matchAggCmp_same[OF Z _ _ _ pl] by metis
  ultimately show ?thesis using l by (simp add: pass_ok_def)
qed

lemma contributorProb_total:
  assumes "ranked rk c"
  shows "g < length (gates c) \<Longrightarrow> rk g < d \<Longrightarrow> \<exists>r. contributorProb d c ref g = Inr r"
proof (induction d arbitrary: g)
  case (Suc d)
  have low: "\<exists>r. contributorProb d c ref w = Inr r" if "w \<in> set (getWires c g)" for w
    using Suc.IH ranked_wire[OF assms Suc.prems(1) that] Suc.prems(2) by simp
  have ws: "\<exists>r. contributor_wires (contributorProb d c ref) h ws acc = Inr r" if "set ws \<subseteq> set (getWires c g)" for h ws acc
    using that
  proof (induction ws arbitrary: acc)
    case (Cons w ws)
    then show ?case using low[of w] by (auto split: option.splits)
  qed simp
  have two: "\<exists>r. contributorProb d c ref (getWires c g ! i) = Inr r" if "length (getWires c g) = 2" "i < 2" for i
    using low that by simp
  show ?case
    using ws[of "getWires c g" "\<lambda>pr v. pr * v" 1] ws[of "getWires c g" "\<lambda>q v. q * (1 - v)" 1] two[of 0] two[of 1]
    by (cases "getGateType c g") (auto simp: Let_def split: option.splits)
qed simp

lemma contributors_total:
  assumes "\<And>sk. sk \<in> set sks \<Longrightarrow> \<exists>r. contributorProb d c ref (snd sk) = Inr r"
  shows "\<exists>r. contributors d c ref sks = Inr r"
  using assms
proof (induction sks)
  case (Cons sk sks)
  then obtain r r' where "contributorProb d c ref (snd sk) = Inr r" "contributors d c ref sks = Inr r'" by fastforce
  then show ?case by (auto split: option.splits)
qed simp


definition same_probability :: "nat \<Rightarrow> (gate_t \<Rightarrow> 'v gate_value list \<Rightarrow> 'v gate_value) \<Rightarrow> catalog \<Rightarrow> generic_circuit \<Rightarrow> generic_circuit \<Rightarrow>
    gate_t \<Rightarrow> bool" where
  "same_probability D oth cat c c' h \<longleftrightarrow>
     (\<forall>Q. prob_of (getProb c') (input_gates c') (\<lambda>A. Q (sem D oth cat c' A h)) =
          prob_of (getProb c) (input_gates c) (\<lambda>A. Q (sem D oth cat c A h)))"

text \<open>The comparisons an evaluator decides, and that it still does after another one has been replaced.\<close>

definition decidable_cmp :: "cmp_evaluator \<Rightarrow> nat \<Rightarrow> catalog \<Rightarrow> nat list \<Rightarrow> generic_circuit \<Rightarrow> gate_t \<Rightarrow> bool" where
  "decidable_cmp ev d cat ref c g \<longleftrightarrow> getGateType c g = gate_cmp \<and>
     (\<exists>m p. matchAggCmp cat c g = Inr (Some m) \<and> ce_accept ev m = Inr True \<and> ref ! am_agg m = 1 \<and>
        contributors d c ref (zip (am_semimods m) (am_ks m)) = Inr (Some p))"

lemma contributorProb_replaced:
  assumes "replaced g c c'"
  shows "contributorProb d c ref k = Inr (Some p) \<Longrightarrow> contributorProb d c' ref k = Inr (Some p)"
proof (induction d arbitrary: k p)
  case (Suc d)
  have "getGateType c k \<noteq> gate_cmp" using Suc.prems by (auto split: if_splits)
  then have "k \<noteq> g" using assms by (auto simp: replaced_def)
  then have e: "getGateType c' k = getGateType c k" "getWires c' k = getWires c k" "getProb c' k = getProb c k"
    using assms by (simp_all add: replaced_def)
  have ws: "contributor_wires (contributorProb d c' ref) f ws acc = Inr (Some r)"
    if "contributor_wires (contributorProb d c ref) f ws acc = Inr (Some r)" for f ws acc r
    using that Suc.IH unfolding contributor_wires_Some by (blast intro: list_all2_mono)
  show ?case
  proof (cases "getGateType c k = gate_monus")
    case True
    then obtain pa pb where "contributorProb d c ref (getWires c k ! 0) = Inr (Some pa)"
      "contributorProb d c ref (getWires c k ! 1) = Inr (Some pb)" "p = pa * (1 - pb)" "ref ! k = 1" "length (getWires c k) = 2"
      using Suc.prems by (auto simp: Let_def bind_result_Inr_iff split: if_splits option.splits)
    then show ?thesis using e True Suc.IH by (simp add: Let_def)
  next
    case False
    then show ?thesis
      using Suc.prems e ws by (cases "getGateType c k") (auto simp: bind_result_Inr_iff split: if_splits)
  qed
qed simp

lemma decidable_replaced:
  assumes "replaced g c c'" "h \<noteq> g" "h < length (gates c)" "plain_thresholds c" "decidable_cmp ev d cat ref c h"
  shows "decidable_cmp ev d cat ref c' h"
proof -
  obtain m p where m: "getGateType c h = gate_cmp" "matchAggCmp cat c h = Inr (Some m)" "ce_accept ev m = Inr True"
    "ref ! am_agg m = 1" "contributors d c ref (zip (am_semimods m) (am_ks m)) = Inr (Some p)"
    using assms(5) by (auto simp: decidable_cmp_def)
  have "contributors d c' ref (zip (am_semimods m) (am_ks m)) = Inr (Some p)"
    using m(5) contributorProb_replaced[OF assms(1)] unfolding contributors_Some by (blast intro: list_all2_mono)
  moreover have "getGateType c' h = gate_cmp" using m(1) assms(1,2) by (simp add: replaced_def)
  ultimately show ?thesis
    using m matchAggCmp_same[OF assms(1,2,3) m(1) assms(4)] by (auto simp: decidable_cmp_def)
qed

text \<open>The contract of an evaluator: on the matches it covers, its closed form is the probability.\<close>

locale sound_evaluator =
  fixes ev :: cmp_evaluator and ok :: "agg_match \<Rightarrow> bool"
  assumes accepts: "ok m \<Longrightarrow> \<exists>b. ce_accept ev m = Inr b"
    and accepted_kind: "ce_accept ev m = Inr True \<Longrightarrow> am_kind m \<in> {AggCOUNT, AggSUM, AggMIN, AggMAX}"
    and closed_form: "ok m \<Longrightarrow> ce_accept ev m = Inr True \<Longrightarrow> length (am_ms m) = length p \<Longrightarrow>
      ce_cdf ev s m p = Inr (prob_of (nth p) {..<length p} (agg_compares s m))"
begin

lemma evaluate_step:
  assumes ok: "pass_ok rk cat ok c" "refs_bound c ref" and D: "\<forall>x < length (gates c). rk x < D" "D \<le> d"
    and g: "g < length (gates c)"
  shows "\<exists>k' c'. evaluate_cmp ev d cat ref g (k, c) = Inr (k', c') \<and> pass_ok rk cat ok c' \<and> refs_bound c' ref \<and>
    length (gates c') = length (gates c) \<and> (c' = c \<or> replaced g c c') \<and>
    (decidable_cmp ev d cat ref c g \<longrightarrow> getGateType c' g \<noteq> gate_cmp) \<and>
    (\<forall>h < length (gates c). occurrences c h = 0 \<longrightarrow> occurrences c' h = 0 \<and> same_probability D oth cat c c' h)"
proof -
  have rk: "ranked rk c" and l: "length (wires c) = length (gates c)" "length (prob c) = length (gates c)"
    and pl: "plain_thresholds c" using ok(1) by (auto simp: pass_ok_def ranked_def)
  show ?thesis
  proof (cases "evaluate_cmp ev d cat ref g (k, c) = Inr (k, c)")
    case True
    have "\<not> decidable_cmp ev d cat ref c g"
    proof
      assume "decidable_cmp ev d cat ref c g"
      then obtain m p where m: "getGateType c g = gate_cmp" "matchAggCmp cat c g = Inr (Some m)" "ce_accept ev m = Inr True"
        "ref ! am_agg m = 1" "contributors d c ref (zip (am_semimods m) (am_ks m)) = Inr (Some p)"
        by (auto simp: decidable_cmp_def)
      have "ok m" using ok(1) g m(1,2) by (auto simp: pass_ok_def)
      moreover have "length (am_ms m) = length p"
        using match_structure[OF m(2)] list_all2_lengthD[OF m(5)[unfolded contributors_Some]] by (simp add: match_ok_def)
      ultimately obtain pr where "ce_cdf ev (is_scalar c (am_agg m)) m p = Inr pr" using closed_form m(3) by blast
      then show False using True m by (simp add: evaluate_cmp_def)
    qed
    then show ?thesis using True ok by (simp add: same_probability_def)
  next
    case False
    then have t: "getGateType c g = gate_cmp" by (cases "getGateType c g = gate_cmp") (simp_all add: evaluate_cmp_def)
    then obtain mo where "matchAggCmp cat c g = Inr mo" "\<forall>m. mo = Some m \<longrightarrow> ok m"
      using ok(1) g by (auto simp: pass_ok_def)
    with False t obtain m where m: "matchAggCmp cat c g = Inr (Some m)" "ok m"
      by (cases mo) (auto simp: evaluate_cmp_def)
    then obtain b where b: "ce_accept ev m = Inr b" using accepts by blast
    have M: "match_ok c g m" by (rule match_structure[OF m(1)])
    have b': "b" "ref ! am_agg m = 1" using False t m b by (auto simp: evaluate_cmp_def split: if_splits)
    obtain po where po: "contributors d c ref (zip (am_semimods m) (am_ks m)) = Inr po"
    proof -
      have "\<exists>r. contributors d c ref (zip (am_semimods m) (am_ks m)) = Inr r"
      proof (rule contributors_total)
        fix sk assume "sk \<in> set (zip (am_semimods m) (am_ks m))"
        then obtain i where "i < length (am_ks m)" "snd sk = am_ks m ! i" by (auto simp: in_set_zip)
        then have "snd sk < length (gates c)" using match_row_rank(3)[OF rk g M] by simp
        then show "\<exists>r. contributorProb d c ref (snd sk) = Inr r"
          using contributorProb_total[OF rk, of "snd sk" d] D by force
      qed
      then show thesis using that by blast
    qed
    with False t m b b' obtain p where p: "po = Some p" by (cases po) (auto simp: evaluate_cmp_def)
    have cmp: "comparison cat c g = Some m" using m(1) accepted_kind b b'(1) by (simp add: comparison_def)
    have res: "resolvable rk d cat ref c g m p"
      using rk ok(2) g l(2) t cmp b'(2) po p by (simp add: resolvable_def)
    note R = resolvableD[OF res]
    define pr where "pr = prob_of (nth p) {..<length p} (agg_compares (is_scalar c (am_agg m)) m)"
    have "length (am_ms m) = length p" using M R(6) by (simp add: match_ok_def)
    then have cdf: "ce_cdf ev (is_scalar c (am_agg m)) m p = Inr pr" using closed_form m(2) b b'(1) by (simp add: pr_def)
    have "pr = prob_of (getProb c) (input_gates c) (\<lambda>A. truth (sem D oth cat c A g))"
      using cmp_event(2)[OF res, of D oth] D(1) g by (simp add: pr_def)
    moreover have "0 \<le> getProb c x \<and> getProb c x \<le> 1" if "x \<in> input_gates c" for x
      using ok(1) that by (simp add: pass_ok_def input_gates_def)
    ultimately have pr: "0 \<le> pr" "pr \<le> 1" using prob_range[OF finite_input_gates] by auto
    let ?r = "resolveCmpToBernoulli c g pr"
    have ev: "evaluate_cmp ev d cat ref g (k, c) = Inr (k + 1, ?r)"
      using t m b b' po p cdf clamp_prob_id[OF pr] by (simp add: evaluate_cmp_def)
    have occ: "occurrences ?r x \<le> occurrences c x" for x by (rule resolve_occurrences[OF l(1)])
    have "refs_bound ?r ref" using ok(2) occ by (force simp: refs_bound_def intro: order_trans)
    moreover have "occurrences ?r h = 0 \<and> same_probability D oth cat c ?r h" if "h < length (gates c)" "occurrences c h = 0" for h
    proof
      show "occurrences ?r h = 0" using occ[of h] that(2) by simp
      have "h \<notin> region c m" using region_referenced[OF rk g M] that(2) by blast
      then show "same_probability D oth cat c ?r h"
        unfolding same_probability_def using resolve_correct[OF res pl pr_def that(1)] D(1) that(1) g by blast
    qed
    moreover have Z: "replaced g c ?r" by (rule resolve_replaced[OF t g l])
    moreover have "getGateType ?r g \<noteq> gate_cmp" using Z by (auto simp: replaced_def)
    ultimately show ?thesis using ev pass_ok_step[OF ok(1) g t pr] by simp
  qed
qed

lemma evaluate_all:
  assumes "\<forall>x < n. rk x < D" "D \<le> d" "set cmps \<subseteq> {..<n}" "length (gates c) = n"
    and "pass_ok rk cat ok c" "refs_bound c ref"
  shows "\<exists>k' c'. evaluate_cmps ev d cat ref cmps (k, c) = Inr (k', c') \<and> length (gates c') = n \<and>
    (\<forall>g \<in> set cmps. decidable_cmp ev d cat ref c g \<longrightarrow> getGateType c' g \<noteq> gate_cmp) \<and>
    (\<forall>g. getGateType c' g = gate_cmp \<longrightarrow> getGateType c g = gate_cmp) \<and>
    (\<forall>h < n. occurrences c h = 0 \<longrightarrow> same_probability D oth cat c c' h)"
  using assms(3-)
proof (induction cmps arbitrary: k c)
  case Nil
  then show ?case by (simp add: same_probability_def)
next
  case (Cons g cmps)
  have g: "g < n" and sub: "set cmps \<subseteq> {..<n}" using Cons.prems(1) by auto
  obtain k1 c1 where s: "evaluate_cmp ev d cat ref g (k, c) = Inr (k1, c1)" "pass_ok rk cat ok c1" "refs_bound c1 ref"
    "length (gates c1) = n" "c1 = c \<or> replaced g c c1" "decidable_cmp ev d cat ref c g \<longrightarrow> getGateType c1 g \<noteq> gate_cmp"
    "\<forall>h < n. occurrences c h = 0 \<longrightarrow> occurrences c1 h = 0 \<and> same_probability D oth cat c c1 h"
    using evaluate_step[OF Cons.prems(3,4), of D d g k oth] assms(1,2) g Cons.prems(2) by auto
  from Cons.IH[OF sub s(4,2,3), of k1]
  obtain k2 c2 where r: "evaluate_cmps ev d cat ref cmps (k1, c1) = Inr (k2, c2)" "length (gates c2) = n"
    "\<forall>g \<in> set cmps. decidable_cmp ev d cat ref c1 g \<longrightarrow> getGateType c2 g \<noteq> gate_cmp"
    "\<forall>g. getGateType c2 g = gate_cmp \<longrightarrow> getGateType c1 g = gate_cmp"
    "\<forall>h < n. occurrences c1 h = 0 \<longrightarrow> same_probability D oth cat c1 c2 h" by blast
  have pl: "plain_thresholds c" using Cons.prems(3) by (simp add: pass_ok_def)
  have earlier: "getGateType c x = gate_cmp" if "getGateType c1 x = gate_cmp" for x
    using that s(5) by (cases "x = g") (auto simp: replaced_def)
  have "getGateType c2 x \<noteq> gate_cmp" if x: "x \<in> set (g # cmps)" "decidable_cmp ev d cat ref c x" for x
  proof (cases "x = g")
    case True
    then show ?thesis using s(6) r(4) x(2) by blast
  next
    case False
    have "x < n" using x(1) Cons.prems(1) by auto
    then have "decidable_cmp ev d cat ref c1 x"
      using s(5) decidable_replaced[OF _ False _ pl x(2)] x(2) Cons.prems(2) by blast
    then show ?thesis using r(3) x(1) False by simp
  qed
  then show ?case using s(1,7) r(1,2,4,5) earlier by (auto simp: same_probability_def)
qed

lemma run_correct:
  assumes "\<forall>x < length (gates c). rk x < D" "D \<le> d" "pass_ok rk cat ok c"
  shows "\<exists>k c'. run_evaluator ev d cat c = Inr (k, c') \<and> length (gates c') = length (gates c) \<and>
    (\<forall>g < length (gates c). decidable_cmp ev d cat (computeRefCounts c) c g \<longrightarrow> getGateType c' g \<noteq> gate_cmp) \<and>
    (\<forall>h < length (gates c). (\<forall>g < length (gates c). h \<notin> set (getWires c g)) \<longrightarrow> same_probability D oth cat c c' h)"
proof -
  let ?cmps = "filter (\<lambda>g. getGateType c g = gate_cmp) [0..<getNbGates c]"
  have occ: "occurrences c h = 0" if "\<forall>g < length (gates c). h \<notin> set (getWires c g)" for h
    unfolding occurrences_def using that by (auto simp: getWires_def count_list_0_iff)
  have "refs_bound c (computeRefCounts c)" by (simp add: refs_bound_def computeRefCounts_correct)
  note bound = this
  have "set ?cmps \<subseteq> {..<length (gates c)}" by (auto simp: getNbGates_def)
  from evaluate_all[OF assms(1,2) this refl assms(3) bound, of 0 oth]
  obtain k c' where e: "evaluate_cmps ev d cat (computeRefCounts c) ?cmps (0, c) = Inr (k, c')" "length (gates c') = length (gates c)"
    "\<forall>g \<in> set ?cmps. decidable_cmp ev d cat (computeRefCounts c) c g \<longrightarrow> getGateType c' g \<noteq> gate_cmp"
    "\<forall>h < length (gates c). occurrences c h = 0 \<longrightarrow> same_probability D oth cat c c' h" by blast
  have "run_evaluator ev d cat c = Inr (k, c')"
    using e(1) by (cases "?cmps = []") (simp_all add: run_evaluator_def Let_def)
  moreover have "g \<in> set ?cmps" if "g < length (gates c)" "decidable_cmp ev d cat (computeRefCounts c) c g" for g
    using that by (simp add: decidable_cmp_def getNbGates_def)
  ultimately show ?thesis using e occ by blast
qed

end

section \<open>The three evaluators\<close>

text \<open>The constant fits 32 bits with room for one more, and the sums fit a \<open>long\<close>.\<close>

definition fits :: "agg_match \<Rightarrow> bool" where
  "fits m \<longleftrightarrow> - (2 ^ 31) < am_C m \<and> am_C m < 2 ^ 31 - 1 \<and>
     - (2 ^ 62) < fst (sum_bounds (am_ms m)) \<and> snd (sum_bounds (am_ms m)) < 2 ^ 62"

lemma fits_int32: "fits m \<Longrightarrow> int32 (am_C m) = am_C m"
  unfolding int32_def fits_def by (intro signed_take_bit_int_eq_self) auto

interpretation count: sound_evaluator count_evaluator fits
proof
  show "\<exists>b. ce_accept count_evaluator m = Inr b" for m by (simp add: count_evaluator_def)
  show "am_kind m \<in> {AggCOUNT, AggSUM, AggMIN, AggMAX}" if "ce_accept count_evaluator m = Inr True" for m
    using that by (simp add: count_evaluator_def)
  show "ce_cdf count_evaluator s m p = Inr (prob_of (nth p) {..<length p} (agg_compares s m))"
    if f: "fits m" and a: "ce_accept count_evaluator m = Inr True" and l: "length (am_ms m) = length p" for m p s
  proof -
    have one: "am_kind m = AggCOUNT" "\<forall>i < length p. am_ms m ! i = 1"
      using a l by (auto simp: count_evaluator_def list_all_length)
    have eq: "prob_of (nth p) {..<length p} (agg_compares s m) =
        prob_of (nth p) {..<length p} (\<lambda>A. compare (int (card A)) (am_op m) (am_C m) \<and> (int (card A) \<noteq> 0 \<or> s))"
      unfolding prob_of_def
    proof (rule expect_cong)
      fix A assume A: "A \<subseteq> {..<length p}"
      then have "(\<Sum>i \<in> A. am_ms m ! i) = (\<Sum>i \<in> A. 1)" using one(2) by (intro sum.cong) auto
      moreover have "finite A" using A finite_subset by blast
      ultimately show "of_bool (agg_compares s m A) =
          of_bool (compare (int (card A)) (am_op m) (am_C m) \<and> (int (card A) \<noteq> 0 \<or> s))"
        by (simp add: agg_compares_def one(1))
    qed
    have "ce_cdf count_evaluator s m p = Inr (count_cdf p (am_op m) (am_C m) s)"
      using f fits_int32[OF f] by (auto simp: count_evaluator_def Let_def fits_def)
    then show ?thesis unfolding eq count_cdf_correct count_prob_def .
  qed
qed

interpretation sum: sound_evaluator sum_evaluator fits
proof
  show "\<exists>b. ce_accept sum_evaluator m = Inr b" if "fits m" for m
    using that by (auto simp: sum_evaluator_def Let_def case_prod_beta fits_def LONG_MIN_def LONG_MAX_def)
  show "am_kind m \<in> {AggCOUNT, AggSUM, AggMIN, AggMAX}" if "ce_accept sum_evaluator m = Inr True" for m
    using that by (simp add: sum_evaluator_def split: if_splits)
  show "ce_cdf sum_evaluator s m p = Inr (prob_of (nth p) {..<length p} (agg_compares s m))"
    if "ce_accept sum_evaluator m = Inr True" and l: "length (am_ms m) = length p" for m p s
  proof -
    have "am_kind m = AggSUM" using that(1) by (simp add: sum_evaluator_def split: if_splits)
    then have "agg_compares s m = (\<lambda>A. compare (row_sum (am_ms m) A) (am_op m) (am_C m) \<and> A \<noteq> {})"
      by (simp add: agg_compares_def row_sum_def fun_eq_iff)
    then show ?thesis by (simp add: sum_evaluator_def sum_cdf_correct[OF l])
  qed
qed

interpretation minmax: sound_evaluator minmax_evaluator fits
proof
  show "\<exists>b. ce_accept minmax_evaluator m = Inr b" for m by (simp add: minmax_evaluator_def)
  show "am_kind m \<in> {AggCOUNT, AggSUM, AggMIN, AggMAX}" if "ce_accept minmax_evaluator m = Inr True" for m
    using that by (auto simp: minmax_evaluator_def)
  show "ce_cdf minmax_evaluator s m p = Inr (prob_of (nth p) {..<length p} (agg_compares s m))"
    if "fits m" "ce_accept minmax_evaluator m = Inr True" for m p s
  proof -
    have k: "am_kind m = AggMAX \<or> am_kind m = AggMIN" using that(2) by (auto simp: minmax_evaluator_def)
    then have "agg_compares s m = (\<lambda>A. compare (extreme (am_kind m) (am_ms m) A) (am_op m) (am_C m) \<and> A \<noteq> {})"
      by (auto simp: agg_compares_def extreme_def fun_eq_iff)
    then show ?thesis
      using minmax_cdf_correct[OF k, of "am_op m" "am_C m" p "am_ms m"] fits_int32[OF that(1)]
      by (simp add: minmax_evaluator_def row_prob_def)
  qed
qed


text \<open>C31: each of the three passes returns on an acyclic circuit whose probabilities are in [0, 1] and whose
  matched comparisons fit the machine integers, with enough depth for the recursion; every comparison whose rows
  are private is decided; and for every gate nothing refers to, any property of its value has the same
  probability over the input gates before and after, where a comparison compares the aggregate of the rows
  that are present and gates of other types are arbitrary functions of the values of their wires.\<close>

theorem cmp_evaluators_correct:
  assumes "(run, ev) \<in> {(runCountCmpEvaluator, count_evaluator), (runSumCmpEvaluator, sum_evaluator),
      (runMinMaxCmpEvaluator, minmax_evaluator)}"
    and "pass_ok rk cat fits c" "\<forall>x < length (gates c). rk x < D" "D \<le> d"
  shows "\<exists>k c'. run d cat c = Inr (k, c') \<and> length (gates c') = length (gates c) \<and>
    (\<forall>g < length (gates c). decidable_cmp ev d cat (computeRefCounts c) c g \<longrightarrow> getGateType c' g \<noteq> gate_cmp) \<and>
    (\<forall>h < length (gates c). (\<forall>g < length (gates c). h \<notin> set (getWires c g)) \<longrightarrow>
       (\<forall>Q. prob_of (getProb c') (input_gates c') (\<lambda>A. Q (sem D oth cat c' A h)) =
            prob_of (getProb c) (input_gates c) (\<lambda>A. Q (sem D oth cat c A h))))"
proof -
  have "sound_evaluator ev fits \<and> run = run_evaluator ev"
    using assms(1) count.sound_evaluator_axioms sum.sound_evaluator_axioms minmax.sound_evaluator_axioms
    by (auto simp: runCountCmpEvaluator_def runSumCmpEvaluator_def runMinMaxCmpEvaluator_def)
  then show ?thesis
    using sound_evaluator.run_correct[OF _ assms(3,4,2), of ev oth] unfolding same_probability_def by blast
qed

text \<open>One row of probability 1/2 and the comparison count >= 1.\<close>

definition cmp_example :: generic_circuit where
  "cmp_example = empty_circuit
     \<lparr>gates := [gate_input, gate_value, gate_semimod, gate_agg, gate_one, gate_value, gate_semimod, gate_cmp],
      wires := [[], [], [0, 1], [2], [], [], [4, 5], [3, 6]],
      infos := [3 \<mapsto> (1, 20), 7 \<mapsto> (2, 0)], extra := [1 \<mapsto> ''1'', 5 \<mapsto> ''1''],
      prob := [1/2, 1, 1, 1, 1, 1, 1, 1], inputs := {0}\<rparr>"

definition cmp_catalog :: catalog where
  "cmp_catalog = \<lparr>cat_opname = [2 \<mapsto> ''>=''], cat_func_name = [1 \<mapsto> ''count'']\<rparr>"

definition cmp_rank :: "gate_t \<Rightarrow> nat" where
  "cmp_rank g = [0, 0, 1, 2, 0, 0, 1, 3] ! g"

lemma cmp_example_match:
  "matchAggCmp cmp_catalog cmp_example 7 = Inr (Some \<lparr>am_agg = 3, am_semimods = [2], am_ks = [0], am_ms = [1],
     am_kind = AggCOUNT, am_op = GE, am_C = 1\<rparr>)"
proof -
  have "parse_decimal_scaled ''1'' = Some (1, 0)" "rescale_to 1 0 0 = Some 1" by code_simp+
  then show ?thesis
    by (simp add: matchAggCmp_def cmp_example_def cmp_catalog_def empty_circuit_def getWires_def getInfos_def getGateType_def
        getExtra_def agg_side_def extract_constant_string_def semimod_extract_string_and_K_def cmpOpFromOid_def
        getAggregationOperator_def aggtype_is_text_def PROVSQL_AGG_TYPE_MASK_def Let_def)
qed

lemma cmp_example_ok: "pass_ok cmp_rank cmp_catalog fits cmp_example"
proof -
  have "ranked cmp_rank cmp_example" "plain_thresholds cmp_example"
    by (simp_all add: ranked_def plain_thresholds_def cmp_example_def cmp_rank_def empty_circuit_def getWires_def getGateType_def
        All_less_Suc numeral_eq_Suc)
  moreover have "\<forall>x < 8. 0 \<le> getProb cmp_example x \<and> getProb cmp_example x \<le> 1"
    by (simp add: getProb_def cmp_example_def empty_circuit_def All_less_Suc numeral_eq_Suc)
  moreover have "\<forall>g < 8. getGateType cmp_example g = gate_cmp \<longrightarrow> g = 7"
    by (simp add: getGateType_def cmp_example_def empty_circuit_def All_less_Suc numeral_eq_Suc)
  moreover have "length (gates cmp_example) = 8" "length (prob cmp_example) = 8"
    by (simp_all add: cmp_example_def empty_circuit_def)
  ultimately show ?thesis
    using cmp_example_match unfolding pass_ok_def by (auto simp: fits_def sum_bounds_def)
qed

lemma cmp_evaluators_correct_witness:
  "\<exists>k c'. runCountCmpEvaluator 4 cmp_catalog cmp_example = Inr (k, c') \<and> getGateType c' 7 \<noteq> gate_cmp \<and>
     prob_of (getProb c') (input_gates c') (\<lambda>A. truth (sem 4 (\<lambda>_ _. Val ()) cmp_catalog c' A 7)) =
     prob_of (getProb cmp_example) (input_gates cmp_example) (\<lambda>A. truth (sem 4 (\<lambda>_ _. Val ()) cmp_catalog cmp_example A 7))"
proof -
  have l: "length (gates cmp_example) = 8" by (simp add: cmp_example_def empty_circuit_def)
  have rk: "\<forall>x < length (gates cmp_example). cmp_rank x < 4"
    by (simp add: l cmp_rank_def All_less_Suc numeral_eq_Suc)
  have top: "\<forall>g < length (gates cmp_example). 7 \<notin> set (getWires cmp_example g)"
    by (simp add: l) (simp add: cmp_example_def empty_circuit_def getWires_def All_less_Suc numeral_eq_Suc)
  have ref: "computeRefCounts cmp_example = [1, 1, 1, 1, 1, 1, 1, 0]" by code_simp
  have "decidable_cmp count_evaluator 4 cmp_catalog (computeRefCounts cmp_example) cmp_example 7"
    unfolding decidable_cmp_def cmp_example_match ref
    by (simp add: count_evaluator_def) (simp add: cmp_example_def empty_circuit_def getGateType_def numeral_eq_Suc)
  then show ?thesis
    using cmp_evaluators_correct[OF _ cmp_example_ok rk, of runCountCmpEvaluator count_evaluator 4 "\<lambda>_ _. Val ()"] top l by fastforce
qed

end
