(* ===== verification/Kcmcp.thy ===== *)
theory Kcmcp
  imports Prelude
begin

text \<open>
  The knowledge compiler protocol: the wire codec (\<open>src/kcmcp_protocol.cpp\<close>), a session of the reference
  server (\<open>src/kcmcp_server.cpp\<close>) and a compile request of the client (\<open>src/kcmcp_client.cpp\<close>).  A connected
  socket is the list of the bytes the peer sends before it closes and the list of the bytes sent to it, or a
  peer that is gone, to which every write fails.  The compiler behind the server and the JSON parser are
  parameters, with the moments when a running job polls the socket.
\<close>

unbundle bit_operations_syntax

section \<open>The registries\<close>

type_synonym byte = "8 word"

definition HELLO :: byte where "HELLO = 0"
definition REQUEST :: byte where "REQUEST = 1"
definition RESULT :: byte where "RESULT = 2"
definition ERROR :: byte where "ERROR = 3"
definition PROGRESS :: byte where "PROGRESS = 4"
definition CANCEL :: byte where "CANCEL = 5"
definition PING :: byte where "PING = 6"
definition PONG :: byte where "PONG = 7"
definition BYE :: byte where "BYE = 8"

named_theorems kc_types \<open>the frame types\<close>

lemmas [kc_types] = HELLO_def REQUEST_def RESULT_def ERROR_def PROGRESS_def CANCEL_def PING_def PONG_def BYE_def

definition bytes :: "string \<Rightarrow> byte list" where
  "bytes s = map of_char s"

definition operation_name :: "byte \<Rightarrow> string" where
  "operation_name op = (if op = 0 then ''count'' else if op = 1 then ''wmc'' else if op = 2 then ''compile'' else ''?'')"

definition input_format_name :: "byte \<Rightarrow> string" where
  "input_format_name f = (if f = 0 then ''dimacs-cnf'' else if f = 1 then ''circuit-bcs12'' else ''?'')"

definition output_format_name :: "byte \<Rightarrow> string" where
  "output_format_name f = (if f = 0 then ''decimal'' else if f = 1 then ''rational'' else if f = 2 then ''double''
     else if f = 3 then ''bigint'' else if f = 4 then ''ddnnf-nnf'' else ''?'')"

section \<open>Numbers on the wire\<close>

definition put_u32 :: "32 word \<Rightarrow> byte list" where
  "put_u32 v = [ucast (drop_bit 24 v), ucast (drop_bit 16 v), ucast (drop_bit 8 v), ucast v]"

definition get_u32 :: "byte list \<Rightarrow> 32 word" where
  "get_u32 p = push_bit 24 (ucast (p ! 0)) OR push_bit 16 (ucast (p ! 1)) OR push_bit 8 (ucast (p ! 2)) OR ucast (p ! 3)"

definition put_u16 :: "16 word \<Rightarrow> byte list" where
  "put_u16 v = [ucast (drop_bit 8 v), ucast v]"

definition get_u16 :: "byte list \<Rightarrow> nat \<Rightarrow> 16 word" where
  "get_u16 s off = push_bit 8 (ucast (s ! off)) OR ucast (s ! (off + 1))"

lemma put_u32_length [simp]: "length (put_u32 v) = 4"
  by (simp add: put_u32_def)

lemma get_put_u32: "get_u32 (put_u32 v @ s) = v"
proof (rule bit_word_eqI)
  fix n assume "n < LENGTH(32)"
  then have "n < 32" by simp
  then consider "n < 8" | "8 \<le> n" "n < 16" | "16 \<le> n" "n < 24" | "24 \<le> n" "n < 32" by linarith
  then show "bit (get_u32 (put_u32 v @ s)) n = bit v n"
    by cases (auto simp: get_u32_def put_u32_def bit_simps)
qed

lemma get_put_u16: "get_u16 (pre @ put_u16 v @ s) (length pre) = v"
proof (rule bit_word_eqI)
  fix n assume "n < LENGTH(16)"
  then have "n < 16" by simp
  then consider "n < 8" | "8 \<le> n" "n < 16" by linarith
  then show "bit (get_u16 (pre @ put_u16 v @ s) (length pre)) n = bit v n"
    by cases (auto simp: get_u16_def put_u16_def bit_simps nth_append)
qed

section \<open>Frames\<close>

record message =
  m_type :: byte
  m_id :: "32 word"
  m_payload :: "byte list"

datatype kc_exn = ProtocolError "16 word" bool string | RuntimeErr string

datatype read_result = Got "byte list" "byte list" | EofAtStart | Truncated

text \<open>\<open>read_exact\<close>: the short reads of the socket do not matter; a request for no byte returns at once.\<close>

definition read_exact :: "nat \<Rightarrow> byte list \<Rightarrow> read_result" where
  "read_exact n s =
     (if n = 0 then Got [] s
      else if s = [] then EofAtStart
      else if length s < n then Truncated
      else Got (take n s) (drop n s))"

fun decimal_text :: "nat \<Rightarrow> string" where
  "decimal_text n = (if n < 10 then [char_of (48 + n)] else decimal_text (n div 10) @ [char_of (48 + n mod 10)])"

declare decimal_text.simps [simp del]

text \<open>
  The loop of \<open>recv\<close>: the bytes left, the message as filled so far (the caller sees it even after an
  exception; its payload is not looked at after a failed read), and the outcome, \<open>False\<close> at a clean end.
\<close>

function recv_loop :: "32 word \<Rightarrow> bool \<Rightarrow> bool \<Rightarrow> message \<Rightarrow> byte list \<Rightarrow> byte list \<times> message \<times> (kc_exn + bool)" where
  "recv_loop recv_max first compressed out s =
     (case read_exact 10 s of
        EofAtStart \<Rightarrow> (s, out, if first then Inr False else Inl (RuntimeErr ''KCMCP: truncated frame header''))
      | Truncated \<Rightarrow> ([], out, Inl (RuntimeErr ''KCMCP: truncated frame (peer closed mid-message)''))
      | Got hdr s1 \<Rightarrow>
          (let t = hdr ! 0; flags = hdr ! 1; request_id = get_u32 (drop 2 hdr); payload_len = get_u32 (drop 6 hdr)
           in if payload_len > recv_max
              then (s1, out, Inl (ProtocolError 7 True (''KCMCP: frame payload '' @ decimal_text (unat payload_len) @
                     '' exceeds max_payload '' @ decimal_text (unat recv_max))))
              else (let compressed' = (compressed \<or> flags AND 2 \<noteq> 0)
                    in if \<not> first \<and> (t \<noteq> m_type out \<or> request_id \<noteq> m_id out)
                       then (s1, out, Inl (RuntimeErr ''KCMCP: interleaved MORE frames''))
                       else (let out1 = (if first then out\<lparr>m_type := t, m_id := request_id\<rparr> else out)
                             in case read_exact (unat payload_len) s1 of
                                  EofAtStart \<Rightarrow> (s1, out1, Inl (RuntimeErr ''KCMCP: truncated frame payload''))
                                | Truncated \<Rightarrow> ([], out1, Inl (RuntimeErr ''KCMCP: truncated frame (peer closed mid-message)''))
                                | Got pl s2 \<Rightarrow>
                                    (let out2 = out1\<lparr>m_payload := m_payload out1 @ pl\<rparr>
                                     in if flags AND 1 \<noteq> 0 then recv_loop recv_max False compressed' out2 s2
                                        else if compressed' then (s2, out2, Inl (ProtocolError 9 False
                                          ''KCMCP: COMPRESSED payloads are not supported by this server''))
                                        else (s2, out2, Inr True))))))"
  by pat_completeness auto
termination
  by (relation "measure (\<lambda>(m, f, c, out, s). length s)") (auto simp: read_exact_def split: if_splits)

declare recv_loop.simps [simp del]

definition recv :: "32 word \<Rightarrow> message \<Rightarrow> byte list \<Rightarrow> byte list \<times> message \<times> (kc_exn + bool)" where
  "recv recv_max out s = recv_loop recv_max True False (out\<lparr>m_payload := []\<rparr>) s"

text \<open>\<open>send\<close> with the frames of at most \<open>Suc c\<close> bytes; the length is cut to 32 bits in the header.\<close>

function send_loop :: "nat \<Rightarrow> byte \<Rightarrow> 32 word \<Rightarrow> byte list \<Rightarrow> byte list" where
  "send_loop c t request_id p =
     (let n = (if length p > Suc c then Suc c else length p); more = (n < length p)
      in [t, if more then 1 else 0] @ put_u32 request_id @ put_u32 (word_of_nat n) @ take n p @
         (if more then send_loop c t request_id (drop n p) else []))"
  by pat_completeness auto
termination
  by (relation "measure (\<lambda>(c, t, r, p). length p)") auto

declare send_loop.simps [simp del]

definition send :: "32 word \<Rightarrow> byte \<Rightarrow> 32 word \<Rightarrow> byte list \<Rightarrow> byte list" where
  "send send_max t request_id p =
     send_loop (if send_max = 0 then length p else unat send_max - 1) t request_id p"


section \<open>A message survives the wire\<close>

lemma read_exact_append: "length xs = n \<Longrightarrow> read_exact n (xs @ s) = Got xs s"
  by (auto simp: read_exact_def)

lemma frame_header:
  "read_exact 10 ([t, f] @ put_u32 r @ put_u32 l @ s) = Got ([t, f] @ put_u32 r @ put_u32 l) s"
  using read_exact_append[of "[t, f] @ put_u32 r @ put_u32 l" 10 s] by simp

text \<open>One frame that the receiver accepts.\<close>

lemma recv_frame:
  assumes "l \<le> recv_max" "unat l = length p" "first \<or> t = m_type out \<and> r = m_id out" "f \<in> {0, 1}"
  shows "recv_loop recv_max first False out ([t, f] @ put_u32 r @ put_u32 l @ p @ s) =
    (let out2 = out\<lparr>m_type := t, m_id := r, m_payload := m_payload out @ p\<rparr>
     in if f = 1 then recv_loop recv_max False False out2 s else (s, out2, Inr True))"
proof -
  have g: "get_u32 (drop 2 ([t, f] @ put_u32 r @ put_u32 l)) = r" "get_u32 (drop 6 ([t, f] @ put_u32 r @ put_u32 l)) = l"
    using get_put_u32[of r "put_u32 l"] get_put_u32[of l "[]"] by (simp_all add: put_u32_def)
  have h: "([t, f] @ put_u32 r @ put_u32 l) ! 0 = t" "([t, f] @ put_u32 r @ put_u32 l) ! 1 = f" by simp_all
  have p: "read_exact (unat l) (p @ s) = Got p s" by (rule read_exact_append) (simp add: assms(2))
  have o: "(if first then out\<lparr>m_type := t, m_id := r\<rparr> else out) = out\<lparr>m_type := t, m_id := r\<rparr>"
    using assms(3) by auto
  have "f AND 2 = 0" "f AND 1 \<noteq> 0 \<longleftrightarrow> f = 1" using assms(4) by auto
  then show ?thesis
    using assms(1,3) unfolding recv_loop.simps[of _ first] frame_header read_result.case Let_def g h p o by (auto split: if_splits)
qed

lemma recv_send_loop:
  assumes "Suc c \<le> unat recv_max \<or> length p \<le> unat recv_max" "first \<or> t = m_type out \<and> r = m_id out"
  shows "recv_loop recv_max first False out (send_loop c t r p @ s) =
    (s, out\<lparr>m_type := t, m_id := r, m_payload := m_payload out @ p\<rparr>, Inr True)"
  using assms
proof (induction c t r p arbitrary: first out rule: send_loop.induct)
  case (1 c t r p)
  let ?n = "if length p > Suc c then Suc c else length p"
  have n: "?n \<le> unat recv_max" using 1(2) by auto
  then have small: "?n < 2 ^ 32" using unsigned_less[where ?'a = nat, of recv_max] by simp
  have len: "unat (word_of_nat ?n :: 32 word) = length (take ?n p)"
    using small by (simp only: unsigned_of_nat) (simp add: take_bit_nat_eq_self)
  have le: "(word_of_nat ?n :: 32 word) \<le> recv_max" using n len by (simp add: word_le_nat_alt)
  show ?case
  proof (cases "length p > Suc c")
    case False
    have "send_loop c t r p = [t, 0] @ put_u32 r @ put_u32 (word_of_nat (length p)) @ p"
      using False by (simp add: send_loop.simps[of c t r p] Let_def)
    then show ?thesis
      using recv_frame[OF le len 1(3), of 0 s] False by (simp add: Let_def)
  next
    case True
    have "send_loop c t r p =
        [t, 1] @ put_u32 r @ put_u32 (word_of_nat (Suc c)) @ take (Suc c) p @ send_loop c t r (drop (Suc c) p)"
      using True by (simp add: send_loop.simps[of c t r p] Let_def)
    then have "recv_loop recv_max first False out (send_loop c t r p @ s) =
        recv_loop recv_max False False (out\<lparr>m_type := t, m_id := r, m_payload := m_payload out @ take (Suc c) p\<rparr>)
          (send_loop c t r (drop (Suc c) p) @ s)"
      using recv_frame[OF le len 1(3), of 1 "send_loop c t r (drop (Suc c) p) @ s"] True by (simp add: Let_def)
    also have "\<dots> = (s, out\<lparr>m_type := t, m_id := r, m_payload := m_payload out @ p\<rparr>, Inr True)"
      using 1(1)[OF refl refl, of False "out\<lparr>m_type := t, m_id := r, m_payload := m_payload out @ take (Suc c) p\<rparr>"] True 1(2)
      by auto
    finally show ?thesis .
  qed
qed

text \<open>Frames at most as large as the receiver accepts; 0 sends the whole payload in one frame.\<close>

lemma recv_send:
  assumes "send_max \<noteq> 0 \<and> send_max \<le> recv_max \<or> length p \<le> unat recv_max"
  shows "recv recv_max out (send send_max t r p @ s) = (s, \<lparr>m_type = t, m_id = r, m_payload = p\<rparr>, Inr True)"
proof -
  let ?c = "if send_max = 0 then length p else unat send_max - 1"
  have "Suc ?c \<le> unat recv_max \<or> length p \<le> unat recv_max"
    using assms by (auto simp: word_le_nat_alt unat_gt_0 Suc_diff_Suc)
  from recv_send_loop[OF this, of True t "out\<lparr>m_payload := []\<rparr>" r s]
  show ?thesis by (simp add: recv_def send_def)
qed

text \<open>Where a call of \<open>recv\<close> leaves the stream.\<close>

lemma recv_loop_shorter:
  "recv_loop recv_max first compressed out s = (s', out', r) \<Longrightarrow>
     length s' < length s \<or> s' = s \<and> (first \<longrightarrow> r = Inr False)"
proof (induction "length s" arbitrary: first compressed out s rule: less_induct)
  case less
  note run = less.prems[unfolded recv_loop.simps[of recv_max first compressed out s] Let_def]
  show ?case
  proof (cases "read_exact 10 s")
    case (Got hdr s1)
    have l: "length s1 < length s" using Got by (auto simp: read_exact_def split: if_splits)
    note run = run[unfolded Got read_result.case]
    show ?thesis
    proof (cases "get_u32 (drop 6 hdr) > recv_max \<or> \<not> first \<and> (hdr ! 0 \<noteq> m_type out \<or> get_u32 (drop 2 hdr) \<noteq> m_id out)")
      case True
      then show ?thesis using run l by (auto split: if_splits)
    next
      case False
      define out1 where "out1 = (if first then out\<lparr>m_type := hdr ! 0, m_id := get_u32 (drop 2 hdr)\<rparr> else out)"
      show ?thesis
      proof (cases "read_exact (unat (get_u32 (drop 6 hdr))) s1")
        case pl: (Got pl s2)
        have "length s2 \<le> length s1" using pl by (auto simp: read_exact_def split: if_splits)
        then have l2: "length s2 < length s" using l by simp
        have "s' = s2 \<or> (\<exists>compressed out2. recv_loop recv_max False compressed out2 s2 = (s', out', r))"
          using run False unfolding pl read_result.case by (auto split: if_splits)
        then show ?thesis using less.hyps[OF l2] l2 by fastforce
      qed (use run False l in \<open>auto split: if_splits\<close>)
    qed
  qed (use run in \<open>auto simp: read_exact_def split: if_splits\<close>)
qed


section \<open>The payloads\<close>

record request =
  rq_operation :: byte
  rq_input :: byte
  rq_output :: byte
  rq_options :: "byte list"
  rq_problem :: "byte list"

definition parse_request :: "byte list \<Rightarrow> request option" where
  "parse_request payload =
     (if length payload < 6 then None
      else (let options_len = unat (get_u16 payload 4)
            in if 6 + options_len > length payload then None
               else Some \<lparr>rq_operation = payload ! 0, rq_input = payload ! 1, rq_output = payload ! 2,
                 rq_options = take options_len (drop 6 payload), rq_problem = drop (6 + options_len) payload\<rparr>))"

definition build_result :: "byte \<Rightarrow> byte list \<Rightarrow> byte list \<Rightarrow> byte list" where
  "build_result fmt meta_json result = [fmt, 0] @ put_u16 (word_of_nat (length meta_json)) @ meta_json @ result"

definition build_error :: "16 word \<Rightarrow> byte list \<Rightarrow> byte list" where
  "build_error code msg = put_u16 code @ msg"

section \<open>A session of the server\<close>

text \<open>The bytes sent so far, and how many sends the peer still takes (\<open>None\<close>: it stays).\<close>

record peer =
  p_out :: "byte list"
  p_left :: "nat option"

definition SERVER_MAX_PAYLOAD :: "32 word" where "SERVER_MAX_PAYLOAD = 256 * 1024 * 1024"
definition CLIENT_FLOOR :: "32 word" where "CLIENT_FLOOR = 1024 * 1024"
definition KCMCP_MAJOR :: int where "KCMCP_MAJOR = 1"

definition conn_send :: "byte \<Rightarrow> 32 word \<Rightarrow> byte list \<Rightarrow> peer \<Rightarrow> peer \<times> kc_exn option" where
  "conn_send t request_id payload pe =
     (if p_left pe = Some 0 then (pe, Some (RuntimeErr ''KCMCP: write failed''))
      else (\<lparr>p_out = p_out pe @ send CLIENT_FLOOR t request_id payload, p_left = map_option (\<lambda>n. n - 1) (p_left pe)\<rparr>, None))"

definition send_error :: "32 word \<Rightarrow> 16 word \<Rightarrow> string \<Rightarrow> peer \<Rightarrow> peer \<times> kc_exn option" where
  "send_error rid code msg pe = conn_send ERROR rid (build_error code (bytes msg)) pe"

text \<open>
  What a call of the poll hook finds: whether the socket is readable, whether the deadline of the job is
  over, and the milliseconds to report when the interval between reports is.
\<close>

record poll =
  po_readable :: bool
  po_overdue :: bool
  po_report :: "nat option"

datatype outcome = Finished "byte list" "byte list" | TooWide | Failed string

text \<open>
  The major version in a HELLO (-1 when there is none); the error of the DIMACS parser or what the compiler
  makes of a problem, given the weighted flag; and the calls of the poll hook while it works, given the
  number of bytes the client sends after the request (which tells the jobs of a session apart), the flag,
  the options and the problem.
\<close>

record server_env =
  se_major :: "byte list \<Rightarrow> int"
  se_build :: "bool \<Rightarrow> byte list \<Rightarrow> string + outcome"
  se_polls :: "nat \<Rightarrow> bool \<Rightarrow> byte list \<Rightarrow> byte list \<Rightarrow> poll list"

datatype job_exn = Cancelled | TimedOut

definition no_message :: message where
  "no_message = \<lparr>m_type = 0, m_id = 0, m_payload = []\<rparr>"

text \<open>The message read in the middle of a job; the flag is \<open>job->cancel\<close>.\<close>

definition poll_input :: "32 word \<Rightarrow> byte list \<Rightarrow> peer \<Rightarrow> byte list \<times> peer \<times> bool" where
  "poll_input rid s pe =
     (case recv SERVER_MAX_PAYLOAD no_message s of
        (s', m, Inl e) \<Rightarrow> (s', pe, True)
      | (s', m, Inr False) \<Rightarrow> (s', pe, True)
      | (s', m, Inr True) \<Rightarrow>
          if m_type m = CANCEL \<and> m_id m = rid then (s', pe, True)
          else if m_type m = PING then (case conn_send PONG (m_id m) [] pe of (pe', e) \<Rightarrow> (s', pe', e \<noteq> None))
          else (s', pe, False))"

definition progress_text :: "nat \<Rightarrow> byte list" where
  "progress_text ms = bytes (''{\"phase\":\"compile\",\"elapsed_ms\":'' @ decimal_text ms @ ''}'')"

definition tdkc_poll :: "32 word \<Rightarrow> poll \<Rightarrow> byte list \<Rightarrow> peer \<Rightarrow> byte list \<times> peer \<times> job_exn option" where
  "tdkc_poll rid p s pe =
     (case (if po_readable p then poll_input rid s pe else (s, pe, False)) of (s1, pe1, cancel) \<Rightarrow>
        if cancel then (s1, pe1, Some Cancelled)
        else if po_overdue p then (s1, pe1, Some TimedOut)
        else (case po_report p of
                None \<Rightarrow> (s1, pe1, None)
              | Some ms \<Rightarrow> (case conn_send PROGRESS rid (progress_text ms) pe1 of
                  (pe2, e) \<Rightarrow> (s1, pe2, if e = None then None else Some Cancelled))))"

primrec run_polls :: "32 word \<Rightarrow> poll list \<Rightarrow> byte list \<Rightarrow> peer \<Rightarrow> byte list \<times> peer \<times> job_exn option" where
  "run_polls rid [] s pe = (s, pe, None)"
| "run_polls rid (p # ps) s pe =
     (case tdkc_poll rid p s pe of
        (s', pe', Some e) \<Rightarrow> (s', pe', Some e)
      | (s', pe', None) \<Rightarrow> run_polls rid ps s' pe')"

fun exn_text :: "kc_exn \<Rightarrow> string" where
  "exn_text (ProtocolError c f s) = s"
| "exn_text (RuntimeErr s) = s"

text \<open>The job: the answer is sent in the \<open>try\<close> block, the errors in its handlers.\<close>

definition run_job :: "byte \<Rightarrow> 32 word \<Rightarrow> poll list \<Rightarrow> outcome \<Rightarrow> byte list \<Rightarrow> peer \<Rightarrow> byte list \<times> peer \<times> kc_exn option" where
  "run_job want rid polls oc s pe =
     (case run_polls rid polls s pe of
        (s1, pe1, Some Cancelled) \<Rightarrow> (s1, send_error rid 5 ''cancelled at client request'' pe1)
      | (s1, pe1, Some TimedOut) \<Rightarrow> (s1, send_error rid 4 ''time budget exceeded (timeout_ms)'' pe1)
      | (s1, pe1, None) \<Rightarrow>
          (case oc of
             Finished meta_json result \<Rightarrow>
               (case conn_send RESULT rid (build_result want meta_json result) pe1 of
                  (pe2, Some e) \<Rightarrow> (s1, send_error rid 6 (exn_text e) pe2)
                | (pe2, None) \<Rightarrow> (s1, pe2, None))
           | TooWide \<Rightarrow> (s1, send_error rid 6 ''treewidth exceeds the supported bound'' pe1)
           | Failed e \<Rightarrow> (s1, send_error rid 6 e pe1)))"

definition handle_request :: "server_env \<Rightarrow> message \<Rightarrow> byte list \<Rightarrow> peer \<Rightarrow> byte list \<times> peer \<times> kc_exn option" where
  "handle_request env msg s pe =
     (case parse_request (m_payload msg) of
        None \<Rightarrow> (s, send_error (m_id msg) 3 ''malformed REQUEST payload'' pe)
      | Some rq \<Rightarrow>
          if rq_operation rq \<noteq> 2 \<and> rq_operation rq \<noteq> 1 then
            (s, send_error (m_id msg) 1 (''unsupported operation '' @ [char_of (39 :: nat)] @ operation_name (rq_operation rq)
              @ [char_of (39 :: nat)] @ ''; this engine offers compile and wmc'') pe)
          else if rq_input rq \<noteq> 0 then
            (s, send_error (m_id msg) 2 (''unsupported input '' @ [char_of (39 :: nat)] @ input_format_name (rq_input rq)
              @ [char_of (39 :: nat)] @ ''; this engine reads dimacs-cnf'') pe)
          else (let weighted = (rq_operation rq = 1); want = (if weighted then 0 else 4)
                in if rq_output rq \<noteq> want then
                     (s, send_error (m_id msg) 2 (''operation '' @ [char_of (39 :: nat)] @ operation_name (rq_operation rq)
                       @ [char_of (39 :: nat)] @ '' produces '' @ [char_of (39 :: nat)] @ output_format_name want
                       @ [char_of (39 :: nat)] @ '' here'') pe)
                   else (case se_build env weighted (rq_problem rq) of
                           Inl e \<Rightarrow> (s, send_error (m_id msg) 3 e pe)
                         | Inr oc \<Rightarrow> run_job want (m_id msg)
                             (se_polls env (length s) weighted (rq_options rq) (rq_problem rq)) oc s pe)))"

text \<open>One message of the loop; \<open>None\<close> goes on.  An exception leaves the loop and the session.\<close>

datatype session_end = Returned | Escaped kc_exn

definition serve :: "server_env \<Rightarrow> message \<Rightarrow> byte list \<Rightarrow> peer \<Rightarrow> byte list \<times> peer \<times> session_end option" where
  "serve env m s pe =
     (if m_type m = REQUEST then (case handle_request env m s pe of (s', pe', e) \<Rightarrow> (s', pe', map_option Escaped e))
      else if m_type m = PING then (case conn_send PONG (m_id m) [] pe of (pe', e) \<Rightarrow> (s, pe', map_option Escaped e))
      else if m_type m = CANCEL then (s, pe, None)
      else if m_type m = BYE then (s, pe, Some Returned)
      else (case send_error (m_id m) 1 ''unexpected frame type'' pe of (pe', e) \<Rightarrow> (s, pe', map_option Escaped e)))"

lemma run_polls_shorter: "run_polls rid ps s pe = (s', pe', x) \<Longrightarrow> length s' \<le> length s"
proof (induction ps arbitrary: s pe)
  case (Cons p ps)
  have i: "length s1 \<le> length s" if "poll_input rid s pe = (s1, pe1, c)" for s1 pe1 c
    using that by (auto simp: poll_input_def recv_def split: if_splits prod.splits sum.splits bool.splits dest!: recv_loop_shorter)
  obtain s1 pe1 e where t: "tdkc_poll rid p s pe = (s1, pe1, e)" by (metis prod_cases3)
  then have "length s1 \<le> length s"
    using i by (auto simp: tdkc_poll_def split: if_splits prod.splits option.splits)
  then show ?case using Cons t by (cases e) fastforce+
qed simp

lemma serve_shorter: "serve env m s pe = (s', pe', x) \<Longrightarrow> length s' \<le> length s"
  by (auto simp: serve_def handle_request_def run_job_def Let_def
      split: if_splits prod.splits option.splits sum.splits outcome.splits job_exn.splits dest!: run_polls_shorter)

function session_loop :: "server_env \<Rightarrow> message \<Rightarrow> byte list \<Rightarrow> peer \<Rightarrow> session_end \<times> peer" where
  "session_loop env m s pe =
     (case recv SERVER_MAX_PAYLOAD m s of
        (s', m', Inl (ProtocolError code fatal what)) \<Rightarrow>
          (case send_error (if fatal then 0 else m_id m') code what pe of
             (pe', e) \<Rightarrow> if e \<noteq> None \<or> fatal then (Returned, pe') else session_loop env m' s' pe')
      | (s', m', Inl (RuntimeErr e)) \<Rightarrow> (Returned, pe)
      | (s', m', Inr False) \<Rightarrow> (Returned, pe)
      | (s', m', Inr True) \<Rightarrow>
          (case serve env m' s' pe of
             (s'', pe', Some e) \<Rightarrow> (e, pe')
           | (s'', pe', None) \<Rightarrow> session_loop env m' s'' pe'))"
  by pat_completeness auto
termination
  by (relation "measure (\<lambda>(env, m, s, pe). length s)")
    (auto simp: recv_def split: if_splits dest!: recv_loop_shorter[OF sym] serve_shorter[OF sym])

declare session_loop.simps [simp del]

definition server_hello :: string where
  "server_hello = ''{\"kcmcp\":1,\"engine\":\"tdkc\",\"max_payload\":'' @ decimal_text (unat SERVER_MAX_PAYLOAD)
     @ '',\"operations\":[\"compile\",\"wmc\"]'' @ '',\"input_formats\":[\"dimacs-cnf\"]''
     @ '',\"output_formats\":{\"compile\":[\"ddnnf-nnf\"],\"wmc\":[\"decimal\"]}'' @ '',\"features\":[\"cancel\",\"progress\"]}''"

definition run_session :: "server_env \<Rightarrow> byte list \<Rightarrow> peer \<Rightarrow> session_end \<times> peer" where
  "run_session env s pe =
     (case recv SERVER_MAX_PAYLOAD no_message s of
        (s', m, Inl e) \<Rightarrow> (Returned, pe)
      | (s', m, Inr False) \<Rightarrow> (Returned, pe)
      | (s', m, Inr True) \<Rightarrow>
          if m_type m \<noteq> HELLO then (Returned, fst (send_error (m_id m) 1 ''expected HELLO as the first frame'' pe))
          else if se_major env (m_payload m) > KCMCP_MAJOR then
            (Returned, fst (send_error 0 8 (''this server speaks KCMCP major 1; client requires major ''
               @ decimal_text (nat (se_major env (m_payload m)))) pe))
          else (case conn_send HELLO 0 (bytes server_hello) pe of
                  (pe', Some e) \<Rightarrow> (Returned, pe')
                | (pe', None) \<Rightarrow> session_loop env m s' pe'))"

section \<open>A compile request of the client\<close>

definition CLIENT_RECV_MAX :: "32 word" where "CLIENT_RECV_MAX = 256 * 1024 * 1024"
definition CLIENT_SEND_MAX :: "32 word" where "CLIENT_SEND_MAX = 1024 * 1024"

datatype client_exn = ServerError "16 word" "byte list" | ClientErr "byte list"

definition client_hello :: "byte list" where
  "client_hello = bytes ''{\"kcmcp\":[1,0],\"client\":\"ProvSQL\"}''"

text \<open>The handshake of \<open>ensure_connection\<close>: the bytes left after the HELLO of the server.\<close>

definition client_handshake :: "byte list \<Rightarrow> client_exn + byte list" where
  "client_handshake s =
     (case recv CLIENT_RECV_MAX no_message s of
        (s', m, Inl e) \<Rightarrow> Inl (ClientErr (bytes (exn_text e)))
      | (s', m, Inr False) \<Rightarrow> Inl (ClientErr (bytes ''KCMCP server closed during handshake''))
      | (s', m, Inr True) \<Rightarrow>
          if m_type m = ERROR then Inl (ClientErr (bytes ''KCMCP handshake refused: '' @ drop 2 (m_payload m)))
          else if m_type m \<noteq> HELLO then Inl (ClientErr (bytes ''KCMCP: expected HELLO from server''))
          else Inr s')"

definition compile_request :: "byte \<Rightarrow> byte list \<Rightarrow> byte list" where
  "compile_request input_format problem = [2, input_format, 4, 0, 0, 0] @ problem"

definition decode_result :: "byte list \<Rightarrow> client_exn + byte list" where
  "decode_result payload =
     (if length payload < 4 then Inl (ClientErr (bytes ''KCMCP: truncated RESULT''))
      else if payload ! 0 \<noteq> 4 then Inl (ClientErr (bytes ''KCMCP: server returned a non-ddnnf-nnf result''))
      else (let meta_len = unat (get_u16 payload 2)
            in if 4 + meta_len > length payload then Inl (ClientErr (bytes ''KCMCP: malformed RESULT meta''))
               else Inr (drop (4 + meta_len) payload)))"

function await_result :: "message \<Rightarrow> byte list \<Rightarrow> client_exn + byte list" where
  "await_result m s =
     (case recv CLIENT_RECV_MAX m s of
        (s', m', Inl e) \<Rightarrow> Inl (ClientErr (bytes (exn_text e)))
      | (s', m', Inr False) \<Rightarrow> Inl (ClientErr (bytes ''KCMCP server closed before RESULT''))
      | (s', m', Inr True) \<Rightarrow>
          if m_type m' = PROGRESS then await_result m' s'
          else if m_type m' = ERROR then
            Inl (ServerError (if length (m_payload m') \<ge> 2 then get_u16 (m_payload m') 0 else 0) (drop 2 (m_payload m')))
          else if m_type m' = RESULT then decode_result (m_payload m')
          else Inl (ClientErr (bytes ''KCMCP: unexpected frame type in reply'')))"
  by pat_completeness auto
termination
  by (relation "measure (\<lambda>(m, s). length s)") (auto simp: recv_def dest!: recv_loop_shorter[OF sym])

declare await_result.simps [simp del]

text \<open>The bytes of a compile on a fresh connection, and the reading of the answer.\<close>

definition client_bytes :: "32 word \<Rightarrow> byte \<Rightarrow> byte list \<Rightarrow> byte list" where
  "client_bytes request_id input_format problem =
     send CLIENT_SEND_MAX HELLO 0 client_hello @ send CLIENT_SEND_MAX REQUEST request_id (compile_request input_format problem)"

definition client_answer :: "byte list \<Rightarrow> client_exn + byte list" where
  "client_answer s = bind_result (client_handshake s) (await_result no_message)"


section \<open>Every message is answered\<close>

text \<open>What a client sends: a message in frames of at most \<open>cs\<close> bytes, or a compressed frame.\<close>

datatype item = Plain byte "32 word" "byte list" | Compressed byte "32 word" "byte list"

primrec item_id :: "item \<Rightarrow> 32 word" where
  "item_id (Plain t r p) = r"
| "item_id (Compressed t r p) = r"

primrec wire :: "32 word \<Rightarrow> item \<Rightarrow> byte list" where
  "wire cs (Plain t r p) = send cs t r p"
| "wire cs (Compressed t r p) = [t, 2] @ put_u32 r @ put_u32 (word_of_nat (length p)) @ p"

primrec item_ok :: "item \<Rightarrow> bool" where
  "item_ok (Plain t r p) \<longleftrightarrow> t \<noteq> BYE"
| "item_ok (Compressed t r p) \<longleftrightarrow> length p \<le> unat SERVER_MAX_PAYLOAD"

text \<open>A client that sends nothing while a request of it is served.\<close>

definition one_in_flight :: "server_env \<Rightarrow> bool" where
  "one_in_flight env \<longleftrightarrow> (\<forall>n w opts problem. \<forall>q \<in> set (se_polls env n w opts problem). \<not> po_readable q)"

text \<open>The frames that answer an item: for a request progress reports and then one result or error.\<close>

primrec answers :: "item \<Rightarrow> (byte \<times> byte list) list \<Rightarrow> bool" where
  "answers (Plain t r p) ts \<longleftrightarrow>
     (if t = REQUEST then \<exists>ps f. ts = map (Pair PROGRESS) ps @ [f] \<and> fst f \<in> {RESULT, ERROR}
      else if t = PING then ts = [(PONG, [])]
      else if t = CANCEL then ts = []
      else ts = [(ERROR, build_error 1 (bytes ''unexpected frame type''))])"
| "answers (Compressed t r p) ts \<longleftrightarrow>
     ts = [(ERROR, build_error 9 (bytes ''KCMCP: COMPRESSED payloads are not supported by this server''))]"

definition reply :: "item \<Rightarrow> (byte \<times> byte list) list \<Rightarrow> byte list" where
  "reply i ts = concat (map (\<lambda>(t, p). send CLIENT_FLOOR t (item_id i) p) ts)"

lemma conn_send_stays [simp]:
  "p_left pe = None \<Longrightarrow> conn_send t r p pe = (pe\<lparr>p_out := p_out pe @ send CLIENT_FLOOR t r p\<rparr>, None)"
  by (simp add: conn_send_def)

lemma run_polls_quiet:
  assumes "p_left pe = None" "\<forall>q \<in> set polls. \<not> po_readable q"
  shows "\<exists>ps x. run_polls r polls s pe = (s, pe\<lparr>p_out := p_out pe @ concat (map (\<lambda>p. send CLIENT_FLOOR PROGRESS r p) ps)\<rparr>, x) \<and>
    ((\<forall>q \<in> set polls. \<not> po_overdue q) \<longrightarrow> x = None)"
  using assms
proof (induction polls arbitrary: pe)
  case Nil
  show ?case by (rule exI[of _ "[]"]) simp
next
  case (Cons q qs)
  let ?ps = "case po_report q of None \<Rightarrow> [] | Some ms \<Rightarrow> [progress_text ms]"
  let ?pe = "pe\<lparr>p_out := p_out pe @ concat (map (\<lambda>p. send CLIENT_FLOOR PROGRESS r p) ?ps)\<rparr>"
  have t: "tdkc_poll r q s pe = (if po_overdue q then (s, pe, Some TimedOut) else (s, ?pe, None))"
    using Cons.prems by (auto simp: tdkc_poll_def split: option.splits)
  show ?case
  proof (cases "po_overdue q")
    case True
    then show ?thesis using t by (intro exI[of _ "[]"]) simp
  next
    case False
    obtain ps x where "run_polls r qs s ?pe = (s, ?pe\<lparr>p_out := p_out ?pe @ concat (map (\<lambda>p. send CLIENT_FLOOR PROGRESS r p) ps)\<rparr>, x)"
      "(\<forall>q \<in> set qs. \<not> po_overdue q) \<longrightarrow> x = None"
      using Cons.IH[of ?pe] Cons.prems by auto
    then show ?thesis using t False by (intro exI[of _ "?ps @ ps"] exI[of _ x]) simp
  qed
qed

lemma run_job_stays:
  assumes "p_left pe = None" "\<forall>q \<in> set polls. \<not> po_readable q"
  shows "\<exists>ps f. fst f \<in> {RESULT, ERROR} \<and>
    run_job want r polls oc s pe =
      (s, pe\<lparr>p_out := p_out pe @ reply (Plain REQUEST r p) (map (Pair PROGRESS) ps @ [f])\<rparr>, None)"
proof -
  obtain ps x where polls: "run_polls r polls s pe =
      (s, pe\<lparr>p_out := p_out pe @ concat (map (\<lambda>p. send CLIENT_FLOOR PROGRESS r p) ps)\<rparr>, x)"
    using run_polls_quiet[OF assms] by blast
  have R: "reply (Plain REQUEST r p) (map (Pair PROGRESS) ps @ [(t, q)]) =
      concat (map (\<lambda>p. send CLIENT_FLOOR PROGRESS r p) ps) @ send CLIENT_FLOOR t r q" for t q
    by (simp add: reply_def comp_def)
  have "\<exists>t q. t \<in> {RESULT, ERROR} \<and> run_job want r polls oc s pe =
      (s, pe\<lparr>p_out := p_out pe @ reply (Plain REQUEST r p) (map (Pair PROGRESS) ps @ [(t, q)])\<rparr>, None)"
    unfolding R run_job_def polls send_error_def using assms(1)
    by (auto split: option.splits job_exn.splits outcome.splits)
  then show ?thesis by (metis fst_conv)
qed

lemma handle_request_stays:
  assumes "p_left pe = None" "m = \<lparr>m_type = REQUEST, m_id = r, m_payload = p\<rparr>"
    and "one_in_flight env"
  shows "\<exists>ts. answers (Plain REQUEST r p) ts \<and>
    handle_request env m s pe = (s, pe\<lparr>p_out := p_out pe @ reply (Plain REQUEST r p) ts\<rparr>, None)"
proof -
  have err: "\<exists>ts. answers (Plain REQUEST r p) ts \<and> send_error r c e pe = (pe\<lparr>p_out := p_out pe @ reply (Plain REQUEST r p) ts\<rparr>, None)" for c e
    by (rule exI[of _ "map (Pair PROGRESS) [] @ [(ERROR, build_error c (bytes e))]"])
      (auto simp: send_error_def assms(1) reply_def)
  have job: "\<exists>ts. answers (Plain REQUEST r p) ts \<and>
      run_job want r (se_polls env n w opts problem) oc s pe = (s, pe\<lparr>p_out := p_out pe @ reply (Plain REQUEST r p) ts\<rparr>, None)"
    for want n w opts problem oc
    using run_job_stays[OF assms(1), of "se_polls env n w opts problem" want r oc s p] assms(3) by (auto simp: one_in_flight_def)
  show ?thesis
    unfolding handle_request_def assms(2) message.simps
    by (cases "parse_request p") (auto simp: Let_def err job split: sum.splits simp del: answers.simps)
qed

lemma serve_stays:
  assumes "p_left pe = None" "t \<noteq> BYE"
    and "one_in_flight env"
  shows "\<exists>ts. answers (Plain t r p) ts \<and>
    serve env \<lparr>m_type = t, m_id = r, m_payload = p\<rparr> s pe = (s, pe\<lparr>p_out := p_out pe @ reply (Plain t r p) ts\<rparr>, None)"
proof (cases "t = REQUEST")
  case True
  then show ?thesis using handle_request_stays[OF assms(1) refl assms(3), of r p s] by (auto simp: serve_def simp del: answers.simps)
next
  case False
  then show ?thesis
    using assms by (auto simp: serve_def reply_def send_error_def kc_types)
qed

text \<open>A compressed frame is read to its end, so the stream stays in step.\<close>

lemma recv_compressed:
  assumes "length p \<le> unat recv_max"
  shows "recv recv_max m (wire cs (Compressed t r p) @ s) =
    (s, \<lparr>m_type = t, m_id = r, m_payload = p\<rparr>, Inl (ProtocolError 9 False ''KCMCP: COMPRESSED payloads are not supported by this server''))"
proof -
  let ?l = "word_of_nat (length p) :: 32 word"
  have small: "length p < 2 ^ 32" using assms unsigned_less[where ?'a = nat, of recv_max] by simp
  have len: "unat ?l = length p" using small by (simp only: unsigned_of_nat) (simp add: take_bit_nat_eq_self)
  have le: "\<not> ?l > recv_max" using assms len by (simp add: word_less_nat_alt)
  have g: "get_u32 (drop 2 ([t, 2] @ put_u32 r @ put_u32 ?l)) = r" "get_u32 (drop 6 ([t, 2] @ put_u32 r @ put_u32 ?l)) = ?l"
    using get_put_u32[of r "put_u32 ?l"] get_put_u32[of ?l "[]"] by (simp_all add: put_u32_def)
  have h: "([t, 2] @ put_u32 r @ put_u32 ?l) ! 0 = t" "([t, 2] @ put_u32 r @ put_u32 ?l) ! 1 = 2" by simp_all
  have p: "read_exact (unat ?l) (p @ s) = Got p s" by (rule read_exact_append) (simp add: len)
  have "wire cs (Compressed t r p) @ s = [t, 2] @ put_u32 r @ put_u32 ?l @ p @ s" by simp
  then show ?thesis
    unfolding recv_def \<open>wire cs (Compressed t r p) @ s = _\<close> recv_loop.simps[of recv_max True] frame_header read_result.case Let_def g h p
    using le by simp
qed


lemma session_loop_items:
  assumes "p_left pe = None" "\<forall>i \<in> set is. item_ok i" "cs \<noteq> 0" "cs \<le> SERVER_MAX_PAYLOAD"
    and "one_in_flight env"
    and "tail = [] \<or> (\<exists>r p junk. tail = send cs BYE r p @ junk)"
  shows "\<exists>tss. list_all2 answers is tss \<and>
    session_loop env m (concat (map (wire cs) is) @ tail) pe =
      (Returned, pe\<lparr>p_out := p_out pe @ concat (map2 reply is tss)\<rparr>)"
  using assms(1,2)
proof (induction "is" arbitrary: m pe)
  case Nil
  from assms(6) have "session_loop env m tail pe = (Returned, pe)"
  proof
    assume "tail = []"
    then show ?thesis by (simp add: session_loop.simps[of env m] recv_def recv_loop.simps read_exact_def)
  next
    assume "\<exists>r p junk. tail = send cs BYE r p @ junk"
    then obtain r p junk where "tail = send cs BYE r p @ junk" by blast
    then show ?thesis
      using recv_send[of cs SERVER_MAX_PAYLOAD p m BYE r junk] assms(3,4)
      by (simp add: session_loop.simps[of env m] serve_def kc_types)
  qed
  then show ?case by simp
next
  case (Cons i "is")
  let ?s = "concat (map (wire cs) is) @ tail"
  have step: "\<exists>tss. list_all2 answers (i # is) tss \<and> session_loop env m' ?s (pe\<lparr>p_out := p_out pe @ reply i ts\<rparr>) =
      (Returned, pe\<lparr>p_out := p_out pe @ concat (map2 reply (i # is) tss)\<rparr>)" if "answers i ts" for m' ts
  proof -
    obtain tss where "list_all2 answers is tss" "session_loop env m' ?s (pe\<lparr>p_out := p_out pe @ reply i ts\<rparr>) =
        (Returned, pe\<lparr>p_out := (p_out pe @ reply i ts) @ concat (map2 reply is tss)\<rparr>)"
      using Cons.IH[of "pe\<lparr>p_out := p_out pe @ reply i ts\<rparr>" m'] Cons.prems by auto
    then show ?thesis using that by (intro exI[of _ "ts # tss"]) simp
  qed
  show ?case
  proof (cases i)
    case (Plain t r p)
    let ?m = "\<lparr>m_type = t, m_id = r, m_payload = p\<rparr>"
    have "t \<noteq> BYE" using Cons.prems(2) Plain by simp
    then obtain ts where ts: "answers i ts" "serve env ?m ?s pe = (?s, pe\<lparr>p_out := p_out pe @ reply i ts\<rparr>, None)"
      using serve_stays[OF Cons.prems(1) _ assms(5), of t r p ?s] Plain by blast
    have "recv SERVER_MAX_PAYLOAD m (wire cs i @ ?s) = (?s, ?m, Inr True)"
      using recv_send[of cs SERVER_MAX_PAYLOAD p m t r ?s] assms(3,4) Plain by simp
    then have "session_loop env m (concat (map (wire cs) (i # is)) @ tail) pe =
        session_loop env ?m ?s (pe\<lparr>p_out := p_out pe @ reply i ts\<rparr>)"
      using ts(2) by (simp add: session_loop.simps[of env m])
    then show ?thesis using step[OF ts(1), of ?m] by metis
  next
    case (Compressed t r p)
    let ?m = "\<lparr>m_type = t, m_id = r, m_payload = p\<rparr>"
    let ?ts = "[(ERROR, build_error 9 (bytes ''KCMCP: COMPRESSED payloads are not supported by this server''))]"
    have a: "answers i ?ts" using Compressed by simp
    have "recv SERVER_MAX_PAYLOAD m (wire cs i @ ?s) =
        (?s, ?m, Inl (ProtocolError 9 False ''KCMCP: COMPRESSED payloads are not supported by this server''))"
      unfolding Compressed by (rule recv_compressed) (use Cons.prems(2) Compressed in simp)
    then have "session_loop env m (concat (map (wire cs) (i # is)) @ tail) pe =
        session_loop env ?m ?s (pe\<lparr>p_out := p_out pe @ reply i ?ts\<rparr>)"
      using Compressed Cons.prems(1)
      by (simp add: session_loop.simps[of env m] send_error_def reply_def)
    then show ?thesis using step[OF a, of ?m] by metis
  qed
qed

text \<open>C38: after the greetings the server answers every message of a client that stays connected, speaks a major version
  the server knows and sends nothing while a request of it is served, in the order they came and with their
  identifiers: a request with progress reports followed by exactly one result or error, a PING with a PONG, an
  unknown type or a compressed frame with an error after which the session goes on, a CANCEL with nothing as no
  job runs; and it ends at the end of the stream or at a BYE, whatever follows.\<close>

theorem run_session_answers:
  assumes "p_left pe = None" "\<forall>i \<in> set is. item_ok i" "cs \<noteq> 0" "cs \<le> SERVER_MAX_PAYLOAD"
    and "one_in_flight env"
    and "tail = [] \<or> (\<exists>r p junk. tail = send cs BYE r p @ junk)" "se_major env h \<le> KCMCP_MAJOR"
  shows "\<exists>tss. list_all2 answers is tss \<and>
    run_session env (send cs HELLO r h @ concat (map (wire cs) is) @ tail) pe =
      (Returned, pe\<lparr>p_out := p_out pe @ send CLIENT_FLOOR HELLO 0 (bytes server_hello) @ concat (map2 reply is tss)\<rparr>)"
proof -
  let ?m = "\<lparr>m_type = HELLO, m_id = r, m_payload = h\<rparr>" and ?s = "concat (map (wire cs) is) @ tail"
  let ?pe = "pe\<lparr>p_out := p_out pe @ send CLIENT_FLOOR HELLO 0 (bytes server_hello)\<rparr>"
  have "recv SERVER_MAX_PAYLOAD no_message (send cs HELLO r h @ ?s) = (?s, ?m, Inr True)"
    by (rule recv_send) (use assms(3,4) in simp)
  then have "run_session env (send cs HELLO r h @ ?s) pe = session_loop env ?m ?s ?pe"
    using assms(1,7) by (simp add: run_session_def)
  moreover obtain tss where "list_all2 answers is tss"
    "session_loop env ?m ?s ?pe = (Returned, ?pe\<lparr>p_out := p_out ?pe @ concat (map2 reply is tss)\<rparr>)"
    using session_loop_items[of ?pe "is" cs env tail ?m] assms(1-6) by auto
  ultimately show ?thesis by auto
qed

definition kc_example :: server_env where
  "kc_example = \<lparr>se_major = (\<lambda>_. 1), se_build = (\<lambda>w problem. Inr (Finished [] problem)),
    se_polls = (\<lambda>n w opts problem. [\<lparr>po_readable = 0 < n, po_overdue = False, po_report = Some 7\<rparr>])\<rparr>"

definition kc_quiet :: server_env where
  "kc_quiet = kc_example\<lparr>se_polls := (\<lambda>n w opts problem. [])\<rparr>"

lemma run_session_answers_witness:
  "run_session kc_quiet (send CLIENT_FLOOR HELLO 0 client_hello @ send CLIENT_FLOOR PING 7 []) \<lparr>p_out = [], p_left = None\<rparr> =
    (Returned, \<lparr>p_out = send CLIENT_FLOOR HELLO 0 (bytes server_hello) @ send CLIENT_FLOOR PONG 7 [], p_left = None\<rparr>)"
proof -
  have "CLIENT_FLOOR \<noteq> 0" "CLIENT_FLOOR \<le> SERVER_MAX_PAYLOAD" by (simp_all add: CLIENT_FLOOR_def SERVER_MAX_PAYLOAD_def)
  then show ?thesis
    using run_session_answers[of "\<lparr>p_out = [], p_left = None\<rparr>" "[Plain PING 7 []]" CLIENT_FLOOR kc_quiet "[]" client_hello 0]
    by (auto simp: kc_quiet_def kc_example_def one_in_flight_def KCMCP_MAJOR_def list_all2_Cons1 reply_def kc_types)
qed

text \<open>A peer that leaves after the greeting: the failed PONG escapes the session, and nothing above catches it.\<close>

lemma peer_gone_escapes:
  assumes "se_major env h \<le> KCMCP_MAJOR"
  shows "fst (run_session env (send CLIENT_FLOOR HELLO 0 h @ send CLIENT_FLOOR PING 7 []) \<lparr>p_out = [], p_left = Some 1\<rparr>) =
    Escaped (RuntimeErr ''KCMCP: write failed'')"
proof -
  have l: "CLIENT_FLOOR \<noteq> 0 \<and> CLIENT_FLOOR \<le> SERVER_MAX_PAYLOAD \<or> B" for B
    by (simp add: CLIENT_FLOOR_def SERVER_MAX_PAYLOAD_def)
  note r1 = recv_send[OF l, of no_message HELLO 0 h "send CLIENT_FLOOR PING 7 []"]
    and r2 = recv_send[OF l, of _ PING 7 "[]" "[]"]
  have "PING \<noteq> REQUEST" by (simp add: kc_types)
  then show ?thesis
    using assms r2 unfolding run_session_def r1
    by (simp add: conn_send_def session_loop.simps[of env "\<lparr>m_type = HELLO, m_id = 0, m_payload = h\<rparr>"] serve_def)
qed


section \<open>A compilation over the wire\<close>

lemma await_result_correct:
  assumes "length meta_json < 2 ^ 16"
  shows "await_result m (concat (map (\<lambda>p. send CLIENT_FLOOR PROGRESS r p) ps) @ send CLIENT_FLOOR RESULT r (build_result 4 meta_json nnf) @ s)
    = Inr nnf"
proof (induction ps arbitrary: m)
  case Nil
  have c: "CLIENT_FLOOR \<noteq> 0 \<and> CLIENT_FLOOR \<le> CLIENT_RECV_MAX \<or> B" for B by (simp add: CLIENT_FLOOR_def CLIENT_RECV_MAX_def)
  have len: "unat (word_of_nat (length meta_json) :: 16 word) = length meta_json"
    using assms by (simp only: unsigned_of_nat) (simp add: take_bit_nat_eq_self)
  have g: "get_u16 (build_result 4 meta_json nnf) 2 = word_of_nat (length meta_json)"
    using get_put_u16[of "[4, 0]" "word_of_nat (length meta_json)" "meta_json @ nnf"]
    by (simp add: build_result_def numeral_2_eq_2)
  have "decode_result (build_result 4 meta_json nnf) = Inr nnf"
    unfolding decode_result_def g len
    by (simp add: build_result_def put_u16_def Let_def) (simp add: eval_nat_numeral)
  moreover have "RESULT \<noteq> PROGRESS" "RESULT \<noteq> ERROR" by (simp_all add: kc_types)
  ultimately show ?case by (simp add: await_result.simps[of m] recv_send[OF c])
next
  case (Cons p ps)
  have c: "CLIENT_FLOOR \<noteq> 0 \<and> CLIENT_FLOOR \<le> CLIENT_RECV_MAX \<or> B" for B by (simp add: CLIENT_FLOOR_def CLIENT_RECV_MAX_def)
  show ?case using Cons by (simp add: await_result.simps[of m] recv_send[OF c])
qed

lemma parse_compile_request:
  "parse_request (compile_request f problem) =
     Some \<lparr>rq_operation = 2, rq_input = f, rq_output = 4, rq_options = [], rq_problem = problem\<rparr>"
proof -
  have "get_u16 (compile_request f problem) 4 = 0"
    by (simp add: get_u16_def compile_request_def)
  then show ?thesis unfolding parse_request_def by (simp add: compile_request_def)
qed

text \<open>C40: a DIMACS problem of any length, sent on a fresh connection to a server whose compiler succeeds on it (with a
  description below 64 KiB), is handed to the compiler, and what the compiler produces is what the client
  returns, through the splitting into frames and past the progress reports, while the client waits in silence
  and no deadline is set; any other input format is refused with the server's error 2.\<close>

theorem compile_over_the_wire:
  assumes "p_left pe = None" "p_out pe = []" "se_major env client_hello \<le> KCMCP_MAJOR"
    and "se_build env False problem = Inr (Finished meta_json nnf)"
    and "\<forall>q \<in> set (se_polls env 0 False [] problem). \<not> po_readable q \<and> \<not> po_overdue q" "length meta_json < 2 ^ 16"
  shows "fst (run_session env (client_bytes r f problem) pe) = Returned \<and>
    (if f = 0 then client_answer (p_out (snd (run_session env (client_bytes r f problem) pe))) = Inr nnf
     else \<exists>e. client_answer (p_out (snd (run_session env (client_bytes r f problem) pe))) = Inl (ServerError 2 e))"
proof -
  let ?m = "\<lparr>m_type = HELLO, m_id = 0, m_payload = client_hello\<rparr>"
  let ?q = "\<lparr>m_type = REQUEST, m_id = r, m_payload = compile_request f problem\<rparr>"
  let ?pe = "pe\<lparr>p_out := send CLIENT_FLOOR HELLO 0 (bytes server_hello)\<rparr>"
  have c: "CLIENT_SEND_MAX \<noteq> 0 \<and> CLIENT_SEND_MAX \<le> SERVER_MAX_PAYLOAD \<or> B" for B
    by (simp add: CLIENT_SEND_MAX_def SERVER_MAX_PAYLOAD_def)
  have c': "CLIENT_FLOOR \<noteq> 0 \<and> CLIENT_FLOOR \<le> CLIENT_RECV_MAX \<or> B" for B by (simp add: CLIENT_FLOOR_def CLIENT_RECV_MAX_def)
  have l: "p_left ?pe = None" using assms(1) by simp
  have q: "recv SERVER_MAX_PAYLOAD m (send CLIENT_SEND_MAX REQUEST r (compile_request f problem)) = ([], ?q, Inr True)" for m
    using recv_send[OF c, of m REQUEST r "compile_request f problem" "[]"] by simp
  have run: "run_session env (client_bytes r f problem) pe =
      session_loop env ?m (send CLIENT_SEND_MAX REQUEST r (compile_request f problem)) ?pe"
    unfolding run_session_def client_bytes_def recv_send[OF c] using assms(1-3) by simp
  have finish: "session_loop env ?q [] pe' = (Returned, pe')" for pe'
    by (simp add: session_loop.simps[of env ?q] recv_def recv_loop.simps read_exact_def)
  have hand: "client_handshake (send CLIENT_FLOOR HELLO 0 (bytes server_hello) @ s) = Inr s" for s
    unfolding client_handshake_def recv_send[OF c'] by (simp add: kc_types)
  show ?thesis
  proof (cases "f = 0")
    case True
    obtain progress where "run_polls r (se_polls env 0 False [] problem) [] ?pe =
        ([], ?pe\<lparr>p_out := p_out ?pe @ concat (map (\<lambda>p. send CLIENT_FLOOR PROGRESS r p) progress)\<rparr>, None)"
      using run_polls_quiet[OF l, of "se_polls env 0 False [] problem" r "[]"] assms(5) by auto
    then have "handle_request env ?q [] ?pe = ([], ?pe\<lparr>p_out := p_out ?pe @ concat (map (\<lambda>p. send CLIENT_FLOOR PROGRESS r p) progress)
        @ send CLIENT_FLOOR RESULT r (build_result 4 meta_json nnf)\<rparr>, None)"
      unfolding handle_request_def message.simps parse_compile_request
      by (simp add: True assms(1,4) run_job_def)
    then have "run_session env (client_bytes r f problem) pe = (Returned, ?pe\<lparr>p_out := p_out ?pe @
        concat (map (\<lambda>p. send CLIENT_FLOOR PROGRESS r p) progress) @ send CLIENT_FLOOR RESULT r (build_result 4 meta_json nnf)\<rparr>)"
      unfolding run session_loop.simps[of env ?m] q by (simp add: serve_def finish)
    then show ?thesis
      using True await_result_correct[OF assms(6), of no_message r progress nnf "[]"] by (simp add: client_answer_def hand)
  next
    case False
    define e where "e = build_error 2 (bytes (''unsupported input '' @ [char_of (39 :: nat)] @ input_format_name f
      @ [char_of (39 :: nat)] @ ''; this engine reads dimacs-cnf''))"
    have "handle_request env ?q [] ?pe = ([], ?pe\<lparr>p_out := p_out ?pe @ send CLIENT_FLOOR ERROR r e\<rparr>, None)"
      unfolding handle_request_def message.simps parse_compile_request
      by (simp add: False send_error_def assms(1) e_def)
    then have "run_session env (client_bytes r f problem) pe = (Returned, ?pe\<lparr>p_out := p_out ?pe @ send CLIENT_FLOOR ERROR r e\<rparr>)"
      unfolding run session_loop.simps[of env ?m] q by (simp add: serve_def finish)
    moreover have "get_u16 e 0 = 2" "length e \<ge> 2"
      using get_put_u16[of "[]" 2] by (simp_all add: e_def build_error_def put_u16_def)
    then have "await_result no_message (send CLIENT_FLOOR ERROR r e) = Inl (ServerError 2 (drop 2 e))"
      using recv_send[OF c', of no_message ERROR r e "[]"] by (simp add: await_result.simps kc_types)
    ultimately show ?thesis using False by (simp add: client_answer_def hand)
  qed
qed

lemma compile_over_the_wire_witness:
  "client_answer (p_out (snd (run_session kc_example (client_bytes 1 0 (bytes ''p cnf 1 1'')) \<lparr>p_out = [], p_left = None\<rparr>))) =
    Inr (bytes ''p cnf 1 1'')"
  using compile_over_the_wire[of "\<lparr>p_out = [], p_left = None\<rparr>" kc_example "bytes ''p cnf 1 1''" "[]" "bytes ''p cnf 1 1''" 1 0]
  by (simp add: kc_example_def KCMCP_MAJOR_def)




section \<open>Control frames in the middle of a job\<close>

lemma poll_input_send:
  assumes "cs \<noteq> 0" "cs \<le> SERVER_MAX_PAYLOAD"
  shows "poll_input r (send cs t i p @ s) pe =
    (if t = CANCEL \<and> i = r then (s, pe, True)
     else if t = PING then (case conn_send PONG i [] pe of (pe', e) \<Rightarrow> (s, pe', e \<noteq> None))
     else (s, pe, False))"
  using recv_send[of cs SERVER_MAX_PAYLOAD p no_message t i s] assms by (simp add: poll_input_def)

text \<open>
  What the poll hook makes of the other frames: a BYE, a second request and an unknown type are dropped
  without an answer, a compressed frame cancels the job.
\<close>

lemma mid_job_frames:
  assumes "cs \<noteq> 0" "cs \<le> SERVER_MAX_PAYLOAD"
  shows "t \<notin> {CANCEL, PING} \<Longrightarrow> poll_input r (send cs t i p @ s) pe = (s, pe, False)"
    and "length p \<le> unat SERVER_MAX_PAYLOAD \<Longrightarrow> poll_input r (wire cs (Compressed t i p) @ s) pe = (s, pe, True)"
proof -
  show "poll_input r (send cs t i p @ s) pe = (s, pe, False)" if "t \<notin> {CANCEL, PING}"
    using that by (simp add: poll_input_send[OF assms])
  show "poll_input r (wire cs (Compressed t i p) @ s) pe = (s, pe, True)" if "length p \<le> unat SERVER_MAX_PAYLOAD"
    unfolding poll_input_def recv_compressed[OF that] by simp
qed

text \<open>Frames sent by the server, each a type, an identifier and a payload.\<close>

definition frames :: "(byte \<times> 32 word \<times> byte list) list \<Rightarrow> byte list" where
  "frames ts = concat (map (\<lambda>(t, i, p). send CLIENT_FLOOR t i p) ts)"

lemma run_polls_cancel:
  assumes "cs \<noteq> 0" "cs \<le> SERVER_MAX_PAYLOAD" "p_left pe = None"
    and "length ids < length (filter po_readable polls)" "\<forall>q \<in> set polls. \<not> po_overdue q"
  shows "\<exists>ts. filter (\<lambda>t. fst t \<noteq> PROGRESS) ts = map (\<lambda>i. (PONG, i, [])) ids \<and>
    (\<forall>t \<in> set ts. fst t = PROGRESS \<longrightarrow> fst (snd t) = r) \<and>
    run_polls r polls (concat (map (\<lambda>i. send cs PING i []) ids) @ send cs CANCEL r x @ rest) pe =
      (rest, pe\<lparr>p_out := p_out pe @ frames ts\<rparr>, Some Cancelled)"
  using assms(3-5)
proof (induction polls arbitrary: ids pe)
  case (Cons q qs)
  have P: "PING \<noteq> CANCEL" "PONG \<noteq> PROGRESS" by (simp_all add: kc_types)
  note poll = tdkc_poll_def poll_input_send[OF assms(1,2)]
  show ?case
  proof (cases "po_readable q \<and> ids = []")
    case True
    then show ?thesis by (intro exI[of _ "[]"]) (simp add: poll frames_def)
  next
    case False
    let ?us = "case po_report q of None \<Rightarrow> [] | Some ms \<Rightarrow> [(PROGRESS, r, progress_text ms)]"
    let ?ts = "if po_readable q then (PONG, hd ids, []) # ?us else ?us"
    let ?ids = "if po_readable q then tl ids else ids"
    let ?pe = "pe\<lparr>p_out := p_out pe @ frames ?ts\<rparr>"
    let ?in = "\<lambda>ids. concat (map (\<lambda>i. send cs PING i []) ids) @ send cs CANCEL r x @ rest"
    have len: "length ?ids < length (filter po_readable qs)" using Cons.prems(2) False by (cases ids) auto
    have t: "tdkc_poll r q (?in ids) pe = (?in ?ids, ?pe, None)"
      using False Cons.prems P by (cases ids) (auto simp: poll frames_def split: option.splits)
    obtain ts where ts: "filter (\<lambda>t. fst t \<noteq> PROGRESS) ts = map (\<lambda>i. (PONG, i, [])) ?ids"
      "\<forall>t \<in> set ts. fst t = PROGRESS \<longrightarrow> fst (snd t) = r"
      "run_polls r qs (?in ?ids) ?pe = (rest, ?pe\<lparr>p_out := p_out ?pe @ frames ts\<rparr>, Some Cancelled)"
      using Cons.IH[of ?pe ?ids] Cons.prems len by auto
    have "filter (\<lambda>t. fst t \<noteq> PROGRESS) (?ts @ ts) = map (\<lambda>i. (PONG, i, [])) ids"
      using ts(1) False P by (cases ids) (auto split: option.splits)
    moreover have "\<forall>t \<in> set (?ts @ ts). fst t = PROGRESS \<longrightarrow> fst (snd t) = r"
      using ts(2) P by (auto split: option.splits)
    moreover have "run_polls r (q # qs) (?in ids) pe = (rest, pe\<lparr>p_out := p_out pe @ frames (?ts @ ts)\<rparr>, Some Cancelled)"
      unfolding run_polls.simps t using ts(3) by (simp add: frames_def)
    ultimately show ?thesis by blast
  qed
qed simp

text \<open>C39: while a request is compiled, and as long as its polls read the frames before its deadline, the server answers each PING with a PONG of its identifier, and at the CANCEL
  of the request gives the job up with the one error CANCELLED, even when the job would have succeeded; the
  session then goes on with what the client sends next.\<close>

theorem cancel_ends_job:
  assumes "p_left pe = None" "cs \<noteq> 0" "cs \<le> SERVER_MAX_PAYLOAD"
    and "parse_request q = Some \<lparr>rq_operation = 2, rq_input = 0, rq_output = 4, rq_options = opts, rq_problem = problem\<rparr>"
    and "se_build env False problem = Inr oc"
    and "s = concat (map (\<lambda>i. send cs PING i []) ids) @ send cs CANCEL r x @ rest"
    and "length ids < length (filter po_readable (se_polls env (length s) False opts problem))"
    and "\<forall>q \<in> set (se_polls env (length s) False opts problem). \<not> po_overdue q"
  shows "\<exists>ts. filter (\<lambda>t. fst t \<noteq> PROGRESS) ts = map (\<lambda>i. (PONG, i, [])) ids \<and>
    (\<forall>t \<in> set ts. fst t = PROGRESS \<longrightarrow> fst (snd t) = r) \<and>
    session_loop env m (send cs REQUEST r q @ s) pe =
      session_loop env \<lparr>m_type = REQUEST, m_id = r, m_payload = q\<rparr> rest
        (pe\<lparr>p_out := p_out pe @ frames (ts @ [(ERROR, r, build_error 5 (bytes ''cancelled at client request''))])\<rparr>)"
proof -
  let ?q = "\<lparr>m_type = REQUEST, m_id = r, m_payload = q\<rparr>"
  obtain ts where ts: "filter (\<lambda>t. fst t \<noteq> PROGRESS) ts = map (\<lambda>i. (PONG, i, [])) ids"
    "\<forall>t \<in> set ts. fst t = PROGRESS \<longrightarrow> fst (snd t) = r"
    "run_polls r (se_polls env (length s) False opts problem) s pe = (rest, pe\<lparr>p_out := p_out pe @ frames ts\<rparr>, Some Cancelled)"
    using run_polls_cancel[OF assms(2,3,1,7,8)] unfolding assms(6) by blast
  have "handle_request env ?q s pe = (rest, pe\<lparr>p_out := p_out pe @
      frames (ts @ [(ERROR, r, build_error 5 (bytes ''cancelled at client request''))])\<rparr>, None)"
    unfolding handle_request_def message.simps assms(4)
    by (simp add: assms(1,5) ts(3) run_job_def send_error_def frames_def)
  moreover have "recv SERVER_MAX_PAYLOAD m (send cs REQUEST r q @ s) = (s, ?q, Inr True)"
    using recv_send[of cs SERVER_MAX_PAYLOAD q m REQUEST r s] assms(2,3) by simp
  ultimately have "session_loop env m (send cs REQUEST r q @ s) pe = session_loop env ?q rest (pe\<lparr>p_out := p_out pe @
      frames (ts @ [(ERROR, r, build_error 5 (bytes ''cancelled at client request''))])\<rparr>)"
    by (simp add: session_loop.simps[of env m] serve_def)
  then show ?thesis using ts(1,2) by blast
qed

lemma cancel_ends_job_witness:
  "fst (session_loop kc_example no_message (send CLIENT_FLOOR REQUEST 3 (compile_request 0 []) @ send CLIENT_FLOOR CANCEL 3 [])
     \<lparr>p_out = [], p_left = None\<rparr>) = Returned"
proof -
  let ?s = "send CLIENT_FLOOR CANCEL 3 []"
  have n: "0 < length ?s" by (simp add: send_def send_loop.simps Let_def)
  have "CLIENT_FLOOR \<noteq> 0" "CLIENT_FLOOR \<le> SERVER_MAX_PAYLOAD" by (simp_all add: CLIENT_FLOOR_def SERVER_MAX_PAYLOAD_def)
  from cancel_ends_job[OF _ this parse_compile_request, of "\<lparr>p_out = [], p_left = None\<rparr>" kc_example "[]" "Finished [] []" ?s "[]" 3 "[]" "[]" no_message]
  show ?thesis using n
    by (auto simp: kc_example_def session_loop.simps[of _ "\<lparr>m_type = REQUEST, m_id = 3, m_payload = compile_request 0 []\<rparr>" "[]"]
        recv_def recv_loop.simps read_exact_def)
qed

end
