(* ===== verification/Spec2Isabelle.thy ===== *)
theory Spec2Isabelle
  imports FoldSound Having Lineage Tseytin IndepSound Smooth Recovery Backend Degeneracy CmpSound Kcmcp
begin

text \<open>
  Verification library of ProvSQL, the PostgreSQL extension for (m-)semiring provenance and
  uncertainty management, over its C and C++ core under \<open>src/\<close>.

  \<^bold>\<open>The program.\<close>  Query rewriting attaches to every tuple a UUID, the name of a gate of a provenance
  circuit kept in shared memory-mapped files.  To answer a provenance or probability question a
  backend loads the circuit below a UUID (a \<open>GenericCircuit\<close>), folds it, and either evaluates it in a
  semiring, or turns it into a \<open>BooleanCircuit\<close> whose probability is computed by one of several
  methods, or compiles it to a d-DNNF (\<open>dDNNF\<close>) on which probabilities, Shapley and Banzhaf values
  are computed.  \<open>HAVING\<close> comparisons are resolved by enumerating the possible worlds of a group.

  \<^bold>\<open>Theories and code.\<close>
  \<^item> \<open>Prelude\<close>: the result type of code that throws, the monad of code that may not end
    (\<open>bind_run\<close>), lemmas on lists, masks and subset sums.
  \<^item> \<open>Aggregation\<close> (\<open>Aggregation.cpp\<close>, \<open>.h\<close>): operators, their decoding, the accumulators.
  \<^item> \<open>ValidWorlds\<close>, \<open>SumDp\<close>, \<open>WorldEnum\<close> (\<open>subset.cpp\<close>): the binary counter over masks, the
    dynamic program \<open>sum_dp\<close>, enumeration by cardinality and the exhaustive one.  The worlds
    returned are exactly the valid ones; with an absorptive semiring they generate them.
  \<^item> \<open>Decimal\<close>, \<open>Having\<close> (\<open>having_semantics.cpp\<close>, \<open>.hpp\<close>): the literal parsers, and how a comparison
    of an aggregate becomes a semiring value; measured in the Boolean semiring against the
    comparison evaluated in the world.
  \<^item> \<open>SemiringOps\<close>, \<open>Semirings\<close>, \<open>Lineage\<close> (\<open>semiring/*.h\<close>): the abstract class \<open>Semiring\<close> as a
    record of operations, its laws, and the concrete semirings, with the text formats of the
    set-valued ones.
  \<^item> \<open>Circuit\<close> (\<open>Circuit.h\<close>, \<open>Circuit.hpp\<close>, \<open>GenericCircuit\<close>): gates, wires and the two UUID maps,
    with their invariant \<open>wf_circuit\<close>.
  \<^item> \<open>GenericEval\<close> (\<open>GenericCircuit.hpp\<close>): the evaluator with its explicit stack, its memo table and
    its shortcuts; it returns a value exactly when the relation \<open>denotes\<close> gives that value.
  \<^item> \<open>Folding\<close>, \<open>FoldSound\<close> (\<open>GenericCircuit.cpp\<close>): the load-time folding passes, their
    termination and the preservation of the value of every UUID.
  \<^item> \<open>WorldProb\<close>, \<open>BlockProb\<close>: the probability spaces, independent Boolean variables and independent
    blocks of exclusive alternatives.  The specification of all the probability methods.
  \<^item> \<open>BoolCircuit\<close>, \<open>ExactProb\<close>, \<open>Tseytin\<close>, \<open>IndepEval\<close>, \<open>IndepSound\<close> (\<open>BooleanCircuit.cpp\<close>, \<open>.h\<close>): the
    Boolean circuit, its evaluation in a world, the enumeration of the worlds, the DNF methods,
    the CNF encoding, and the linear-time evaluation of read-once circuits with blocks of
    alternatives and certified islands.
  \<^item> \<open>DDnnf\<close>, \<open>Walk\<close>, \<open>Banzhaf\<close>, \<open>Shapley\<close> (\<open>dDNNF.cpp\<close>, \<open>.h\<close>): the d-DNNF, its probability with an explicit stack
    of calls, the post-order walk the power indices share (the locale \<open>post_order_walk\<close>, interpreted
    on each of the algorithms), conditioning, the Banzhaf value, and the Shapley value with its tables of nested subsets.
  \<^item> \<open>Reshape\<close>, \<open>Smooth\<close> (\<open>dDNNF.cpp\<close>): \<open>makeGatesBinary\<close> and \<open>makeSmooth\<close>, what they keep of a
    circuit, and the pipeline up to the Shapley value.
  \<^item> \<open>HashTable\<close>, \<open>Store\<close>, \<open>Cleanup\<close>, \<open>Recovery\<close> (\<open>MMappedUUIDHashTable\<close>, \<open>MMappedVector\<close>, \<open>MMappedCircuit\<close>): the
    persistent circuit.  The table of UUIDs refines a numbering by first occurrence (the locale
    \<open>token_numbering\<close>); the store refines a finite map from tokens to facts (\<open>view\<close>), so that creations commute, and an upgrade killed
    between two writes is a prefix of \<open>upgrade_writes\<close>;
    a clean-up keeps what its roots reach; its four files are replaced atomically whatever is killed when.
  \<^item> \<open>Uuid\<close> (\<open>provsql_utils_cpp.cpp\<close>), \<open>Loading\<close> (\<open>MMappedCircuit.cpp\<close>): the text of a UUID, and how the circuit below
    some roots is loaded from the store into a \<open>GenericCircuit\<close>, which then says of each token what the
    store says.
  \<^item> \<open>CircuitCache\<close> (\<open>CircuitCache.cpp\<close>, \<open>.h\<close>), \<open>Backend\<close> (\<open>MMappedCircuit.cpp\<close>, \<open>provsql_mmap.c\<close>): the bounded cache of a
    session (the locale \<open>entry_cache\<close>), the worker that carries out messages on the store, and any number
    of sessions that create and look up gates through their caches: a step relation whose invariant
    \<open>coherent\<close> ties the caches, the store and the tokens created so far.

  \<^item> \<open>Graphs\<close>, \<open>TreeDec\<close>, \<open>Degeneracy\<close> (\<open>Graph.h\<close>, \<open>PermutationStrategy.h\<close>, \<open>TreeDecomposition.cpp\<close>): graphs with their
    invariant \<open>graph_ok\<close>, the order of elimination (the locale \<open>elimination_queue\<close>), the tree decomposition
    it builds, and the degeneracy as a lower bound of every width.
  \<^item> \<open>CmpDist\<close> (\<open>CountCmpEvaluator.cpp\<close>, \<open>SumCmpEvaluator.cpp\<close>, \<open>MinMaxCmpEvaluator.cpp\<close>): the closed forms of
    comparisons of aggregates over independent rows, against the sum over the worlds.
  \<^item> \<open>CmpEval\<close>, \<open>CmpSound\<close> (\<open>CmpEvaluatorCommon.cpp\<close> and the three evaluators): the passes that decide
    comparisons whose rows are private to them.  The three loops are one function of what they accept and
    of their closed form, the contract of both is the locale \<open>sound_evaluator\<close>; a pass keeps the probability
    of every root, for a value \<open>sem\<close> of each gate in a world.

  \<^item> \<open>Kcmcp\<close> (\<open>kcmcp_protocol.cpp\<close>, \<open>kcmcp_server.cpp\<close>, \<open>kcmcp_client.cpp\<close>): the frames of the knowledge compiler
    protocol, a session of the server with the control frames it reads in the middle of a job, and a compile
    request from the client's call to its result.  The compiler behind the server, the JSON parser and
    the moments when a job polls the socket are parameters.

  \<^bold>\<open>State and errors.\<close>  Circuits are records that extend each other as the classes do; an operation
  that changes one returns it updated.  An exception is \<open>Inl\<close> of a value of \<open>exn\<close>; an access the
  language leaves undefined (a missing wire, an index out of range that the code does not check) is
  \<open>Inl UndefinedBehaviour\<close>.  A loop without an evident bound is a \<open>partial_function (option)\<close>, where
  \<open>None\<close> is a run that does not end: the theorems state that the result is \<open>Some\<close>.  An unordered
  container that the code iterates over is a set when the order cannot matter, a list otherwise.

  \<^bold>\<open>Bounds and fuel.\<close>  Recursive C++ functions that call \<open>check_stack_depth\<close> take the depth the stack
  allows as fuel and end in an exception beyond it; \<open>depth_ok d c g\<close> (\<open>dd_ok\<close> for a d-DNNF) says that
  the circuit below g is acyclic with depth at most d.  The limits of the code are kept: 64 inputs for
  the enumeration of worlds, 24 clauses for the sieve, 32-bit counters in the Counting semiring,
  31-bit aggregate constants; the table of tokens is
  followed up to 2^29 tokens (2^30 slots), below the size where its 32-bit shifts overflow.  Probabilities and scores are of type \<open>real\<close> where the code has
  \<open>double\<close>, so rounding is not modelled.

  \<^bold>\<open>Not modelled.\<close>  Query rewriting and classification work on PostgreSQL's planner trees, the catalog
  look-ups, the WAL manager and the SQL entry points call PostgreSQL, whose behaviour is not in this
  repository; the external knowledge compilers are processes (but for the protocol to the built-in server); the
  UCQ and reachability compilers, the structured d-DNNF and the semirings How, BoolExpr, IntervalUnion and Formula
  are left out; a failing system call is not modelled, 64-bit indices into the store are natural numbers; Monte Carlo sampling and the random
  variable families are floating-point numerics.
\<close>

end
